(* ===== verification/Prelude.thy ===== *)
theory Prelude
  imports Main "HOL-Library.Monad_Syntax" "HOL-Library.Signed_Division"
begin

section \<open>Prelude: machine integers, vectors and shared lemmas\<close>

text \<open>
  What the component theories share: the C++ integer types as wrapped integers,
  truncating division, vectors as lists with checked access, and the positional value of
  a little-endian digit vector. A result of type \<open>'a option\<close> is \<open>None\<close> where the C++
  code has no defined behaviour (an out-of-range access, a failed \<open>assert\<close>) or does not
  return.
\<close>

named_theorems machine_int "identities of the wrapping functions inside their range"

subsection \<open>Signed machine integers\<close>

text \<open>
  A signed C++ integer of width \<open>w\<close> is an \<open>int\<close> in \<open>-2^(w-1) ..< 2^(w-1)\<close>. \<open>swrap w\<close> is the
  conversion into that range: it is what a narrowing \<open>static_cast\<close> does and what two's
  complement hardware does on overflow (which C++ leaves undefined for signed types).
  Every arithmetic step whose overflow matters is written with it, so that a theorem that
  gives the mathematical result also shows that no step overflows.
\<close>

definition swrap :: "nat \<Rightarrow> int \<Rightarrow> int" where
  "swrap w x = (x + 2 ^ (w - 1)) mod 2 ^ w - 2 ^ (w - 1)"

abbreviation i8 :: "int \<Rightarrow> int" where "i8 \<equiv> swrap 8"
abbreviation i32 :: "int \<Rightarrow> int" where "i32 \<equiv> swrap 32"
abbreviation i64 :: "int \<Rightarrow> int" where "i64 \<equiv> swrap 64"

lemma swrap_id:
  assumes "0 < w" "- (2 ^ (w - 1)) \<le> x" "x < 2 ^ (w - 1)"
  shows "swrap w x = x"
proof -
  have "(2::int) ^ w = 2 * 2 ^ (w - 1)"
    using assms(1) by (cases w) auto
  then have "(x + 2 ^ (w - 1)) mod 2 ^ w = x + 2 ^ (w - 1)"
    using assms by (intro mod_pos_pos_trivial) auto
  then show ?thesis by (simp add: swrap_def)
qed

lemma i8_id [simp, machine_int]: "-128 \<le> x \<Longrightarrow> x < 128 \<Longrightarrow> i8 x = x"
  by (rule swrap_id) auto

lemma i32_id [simp, machine_int]: "-2147483648 \<le> x \<Longrightarrow> x < 2147483648 \<Longrightarrow> i32 x = x"
  by (rule swrap_id) auto

lemma i64_id [simp, machine_int]:
  "-9223372036854775808 \<le> x \<Longrightarrow> x < 9223372036854775808 \<Longrightarrow> i64 x = x"
  by (rule swrap_id) auto

lemma swrap_range:
  assumes "0 < w"
  shows "- (2 ^ (w - 1)) \<le> swrap w x \<and> swrap w x < 2 ^ (w - 1)"
proof -
  have "(2::int) ^ w = 2 * 2 ^ (w - 1)"
    using assms by (cases w) auto
  moreover have "0 \<le> (x + 2 ^ (w - 1)) mod 2 ^ w \<and> (x + 2 ^ (w - 1)) mod 2 ^ w < 2 ^ w"
    by simp
  ultimately show ?thesis unfolding swrap_def by linarith
qed

text \<open>Wrapping commutes with addition and subtraction, so a sum may be wrapped once at the end.\<close>

lemma swrap_add: "0 < w \<Longrightarrow> swrap w (swrap w a + b) = swrap w (a + b)"
proof -
  have "(swrap w a + b + 2 ^ (w - 1)) mod 2 ^ w = ((a + 2 ^ (w - 1)) mod 2 ^ w + b) mod 2 ^ w"
    unfolding swrap_def by (simp add: algebra_simps)
  also have "\<dots> = (a + b + 2 ^ (w - 1)) mod 2 ^ w" by (subst mod_add_left_eq) (simp add: ac_simps)
  finally show ?thesis unfolding swrap_def [of w "swrap w a + b"] swrap_def [of w "a + b"] by simp
qed

lemma swrap_diff: "0 < w \<Longrightarrow> swrap w (b - swrap w a) = swrap w (b - a)"
proof -
  have "(b - swrap w a + 2 ^ (w - 1)) mod 2 ^ w = (b + 2 * 2 ^ (w - 1) - (a + 2 ^ (w - 1)) mod 2 ^ w) mod 2 ^ w"
    unfolding swrap_def by (simp add: algebra_simps)
  also have "\<dots> = (b + 2 * 2 ^ (w - 1) - (a + 2 ^ (w - 1))) mod 2 ^ w" by (rule mod_diff_right_eq)
  also have "\<dots> = (b - a + 2 ^ (w - 1)) mod 2 ^ w" by (simp add: algebra_simps)
  finally show ?thesis unfolding swrap_def [of w "b - swrap w a"] swrap_def [of w "b - a"] by simp
qed

lemma swrap_swrap: "0 < w \<Longrightarrow> swrap w (swrap w a) = swrap w a"
  using swrap_add [of w a 0] by simp

subsection \<open>Truncating division\<close>

text \<open>
  \<open>sdiv\<close> and \<open>smod\<close> are the C++ operators \<open>/\<close> and \<open>%\<close> on signed integers: the quotient is
  rounded towards zero. On the non-negative operands most of the code has they are
  \<open>div\<close> and \<open>mod\<close>.
\<close>

lemma sdiv_nonneg [simp, machine_int]: "0 \<le> (a::int) \<Longrightarrow> 0 < b \<Longrightarrow> a sdiv b = a div b"
  by (cases "a = 0") (simp_all add: signed_divide_int_def)

lemma smod_nonneg [simp, machine_int]: "0 \<le> (a::int) \<Longrightarrow> 0 < b \<Longrightarrow> a smod b = a mod b"
  by (cases "a = 0") (simp_all add: signed_modulo_int_def minus_div_mult_eq_mod)

lemma div_less_self_int: "0 < (n::int) \<Longrightarrow> 2 \<le> b \<Longrightarrow> n div b < n"
  by (simp add: int_div_less_self)

lemma div_nonneg_int: "0 \<le> (n::int) \<Longrightarrow> 0 < b \<Longrightarrow> 0 \<le> n div b"
  by (simp add: pos_imp_zdiv_nonneg_iff)

lemma div_less_int:
  assumes "0 < (b::int)" "a < c * b"
  shows "a div b < c"
proof (rule ccontr)
  assume "\<not> a div b < c"
  then have "c * b \<le> a div b * b" using assms(1) by (intro mult_right_mono) auto
  also have "\<dots> \<le> a" using assms(1) by (simp add: minus_mod_eq_div_mult [symmetric])
  finally show False using assms(2) by simp
qed

text \<open>One step of a loop that keeps \<open>c mod s\<close> as a digit and carries \<open>c div s\<close> on.\<close>

lemma carry_step: "hi = rest + c div (s::int) \<Longrightarrow> c mod s + s * hi = c + s * rest"
  by (simp add: distrib_left)

subsection \<open>Vectors\<close>

text \<open>A read or a write of a \<open>std::vector\<close> through \<open>operator[]\<close>: undefined out of range.\<close>

definition vec_at :: "'a list \<Rightarrow> nat \<Rightarrow> 'a option" where
  "vec_at xs i = (if i < length xs then Some (xs ! i) else None)"

definition vec_upd :: "'a list \<Rightarrow> nat \<Rightarrow> 'a \<Rightarrow> 'a list option" where
  "vec_upd xs i x = (if i < length xs then Some (xs[i := x]) else None)"

lemma vec_at_in [simp]: "i < length xs \<Longrightarrow> vec_at xs i = Some (xs ! i)"
  by (simp add: vec_at_def)

lemma vec_upd_in [simp]: "i < length xs \<Longrightarrow> vec_upd xs i x = Some (xs[i := x])"
  by (simp add: vec_upd_def)

lemma vec_at_eq_Some: "vec_at xs i = Some x \<longleftrightarrow> i < length xs \<and> x = xs ! i"
  by (auto simp: vec_at_def)

lemma vec_upd_eq_Some: "vec_upd xs i x = Some ys \<longleftrightarrow> i < length xs \<and> ys = xs[i := x]"
  by (auto simp: vec_upd_def)

text \<open>\<open>vector::resize\<close>: cut at the end, or filled up with the given value.\<close>

definition resize :: "nat \<Rightarrow> 'a \<Rightarrow> 'a list \<Rightarrow> 'a list" where
  "resize n x xs = take n xs @ replicate (n - length xs) x"

lemma length_resize [simp]: "length (resize n x xs) = n"
  by (simp add: resize_def)

lemma resize_short: "length xs \<le> n \<Longrightarrow> resize n x xs = xs @ replicate (n - length xs) x"
  by (simp add: resize_def)

text \<open>The same with an \<open>int\<close> index, as in the graph and union-find classes.\<close>

definition ivec_at :: "'a list \<Rightarrow> int \<Rightarrow> 'a option" where
  "ivec_at xs i = (if 0 \<le> i \<and> i < int (length xs) then Some (xs ! nat i) else None)"

definition ivec_upd :: "'a list \<Rightarrow> int \<Rightarrow> 'a \<Rightarrow> 'a list option" where
  "ivec_upd xs i x = (if 0 \<le> i \<and> i < int (length xs) then Some (xs[nat i := x]) else None)"

lemma ivec_at_in [simp]: "0 \<le> i \<Longrightarrow> i < int (length xs) \<Longrightarrow> ivec_at xs i = Some (xs ! nat i)"
  by (simp add: ivec_at_def)

lemma ivec_upd_in [simp]:
  "0 \<le> i \<Longrightarrow> i < int (length xs) \<Longrightarrow> ivec_upd xs i x = Some (xs[nat i := x])"
  by (simp add: ivec_upd_def)

lemma nth_update_int:
  "0 \<le> i \<Longrightarrow> i < int (length xs) \<Longrightarrow> 0 \<le> j \<Longrightarrow> xs[nat i := x] ! nat j = (if i = j then x else xs ! nat j)"
  by (cases "i = j") (simp_all add: nat_eq_iff2)

end
