(* ===== verification/DigitVector.thy ===== *)
theory DigitVector
  imports Prelude
begin

section \<open>Digit vectors (library/large\_int\_basic.h)\<close>

text \<open>
  The free functions of \<open>src/library/large_int_basic.h\<close>: numbers as little-endian digit
  vectors, with \<open>char\<close> digits in base 10 or \<open>int\<close> digits in base 1000000000. The
  template parameter for the digit type is the conversion \<open>cast\<close> into that type.
\<close>

subsection \<open>The model\<close>

text \<open>
  The loop of \<open>sum_int\<close>: both ranges are read and \<open>dest\<close> is written at the same position, so
  the result is the list of digits written, with the carry that is returned. \<open>None\<close>: the
  second range is the shorter one, which the loop would read past.
\<close>

fun sum_int_loop ::
  "(int \<Rightarrow> int) \<Rightarrow> int \<Rightarrow> int \<Rightarrow> int \<Rightarrow> int list \<Rightarrow> int list \<Rightarrow> (int list \<times> int) option" where
  "sum_int_loop cast offset scale carry [] ys = Some ([], carry)"
| "sum_int_loop cast offset scale carry (x # xs) [] = None"
| "sum_int_loop cast offset scale carry (x # xs) (y # ys) =
     (let c = i64 (carry + i64 (i64 (i64 (x - offset) + y) - offset));
          d = cast (i64 (c smod scale + offset))
      in do {
        (ds, r) \<leftarrow> sum_int_loop cast offset scale (c sdiv scale) xs ys;
        Some (d # ds, r)
      })"

definition sum_int ::
  "(int \<Rightarrow> int) \<Rightarrow> int list \<Rightarrow> int list \<Rightarrow> int \<Rightarrow> int \<Rightarrow> (int list \<times> int) option" where
  "sum_int cast xs ys offset scale = sum_int_loop cast offset scale 0 xs ys"

text \<open>The \<open>do\<close>-\<open>while\<close> loop of \<open>large_int_fill\<close>; it would not stop for a \<open>scale\<close> of 1.\<close>

partial_function (option) large_int_fill_loop ::
  "(int \<Rightarrow> int) \<Rightarrow> int \<Rightarrow> int list \<Rightarrow> int \<Rightarrow> int list option" where
  "large_int_fill_loop cast scale v init =
     (let v' = v @ [cast (init smod scale)]; n = init sdiv scale
      in if n > 0 then large_int_fill_loop cast scale v' n else Some v')"

text \<open>\<open>tneg\<close> wraps the negation at the width of the template parameter \<open>T\<close> of \<open>init\<close>.\<close>

definition large_int_fill ::
  "(int \<Rightarrow> int) \<Rightarrow> (int \<Rightarrow> int) \<Rightarrow> int list \<Rightarrow> int \<Rightarrow> int \<Rightarrow> int list option" where
  "large_int_fill cast tneg v init scale =
     large_int_fill_loop cast scale v (if init < 0 then tneg (- init) else init)"

text \<open>\<open>sum\<close> pads the shorter of its two arguments, then adds into the first; both change.\<close>

definition sum_vec ::
  "(int \<Rightarrow> int) \<Rightarrow> int list \<Rightarrow> int list \<Rightarrow> int \<Rightarrow> (int list \<times> int list) option" where
  "sum_vec cast v1 v2 scale =
     (let p1 = v1 @ replicate (length v2 - length v1) 0;
          p2 = v2 @ replicate (length v1 - length v2) 0
      in do {
        (ds, carry) \<leftarrow> sum_int cast p1 p2 0 scale;
        r \<leftarrow> (if carry > 0 then large_int_fill cast i64 ds carry scale else Some ds);
        Some (r, p2)
      })"

fun large_int_multiply_loop ::
  "(int \<Rightarrow> int) \<Rightarrow> int \<Rightarrow> int \<Rightarrow> int \<Rightarrow> int list \<Rightarrow> int list \<times> int" where
  "large_int_multiply_loop cast factor scale carry [] = ([], carry)"
| "large_int_multiply_loop cast factor scale carry (x # xs) =
     (let c = i64 (carry + i64 (x * factor));
          (ds, r) = large_int_multiply_loop cast factor scale (c sdiv scale) xs
      in (cast (c smod scale) # ds, r))"

definition large_int_multiply ::
  "(int \<Rightarrow> int) \<Rightarrow> int list \<Rightarrow> int \<Rightarrow> int \<Rightarrow> int list option" where
  "large_int_multiply cast product factor scale =
     (let (ds, carry) = large_int_multiply_loop cast factor scale 0 product
      in if carry > 0 then large_int_fill cast i64 ds carry scale else Some ds)"

text \<open>\<open>large_int_get<T>\<close> with \<open>T = long long\<close>: \<open>accumulate\<close> from the most significant digit.\<close>

definition large_int_get :: "int list \<Rightarrow> int" where
  "large_int_get v = fold (\<lambda>c t. i64 (i64 (t * 10) + c)) (rev v) 0"

fun scale_down_loop :: "nat \<Rightarrow> int list \<Rightarrow> int list \<Rightarrow> int list option" where
  "scale_down_loop scale_digits dest [] = Some dest"
| "scale_down_loop scale_digits dest (n # ns) =
     (let digits = length dest mod scale_digits;
          dest' = (if dest \<noteq> [] \<and> digits \<noteq> 0
                   then dest @ replicate (scale_digits - digits) 0 else dest)
      in do {
        d \<leftarrow> large_int_fill i8 i32 dest' n 10;
        scale_down_loop scale_digits d ns
      })"

definition scale_down :: "int list \<Rightarrow> nat \<Rightarrow> int list option" where
  "scale_down product scale_digits = scale_down_loop scale_digits [] product"

subsection \<open>What a digit vector means\<close>

fun num_of :: "int \<Rightarrow> int list \<Rightarrow> int" where
  "num_of b [] = 0"
| "num_of b (d # ds) = d + b * num_of b ds"

definition digits_ok :: "int \<Rightarrow> int list \<Rightarrow> bool" where
  "digits_ok b ds \<longleftrightarrow> (\<forall>d \<in> set ds. 0 \<le> d \<and> d < b)"

lemma digits_ok_Nil [simp]: "digits_ok b []"
  by (simp add: digits_ok_def)

lemma digits_ok_Cons [simp]: "digits_ok b (d # ds) \<longleftrightarrow> 0 \<le> d \<and> d < b \<and> digits_ok b ds"
  by (auto simp: digits_ok_def)

lemma digits_ok_append [simp]: "digits_ok b (xs @ ys) \<longleftrightarrow> digits_ok b xs \<and> digits_ok b ys"
  by (auto simp: digits_ok_def)

lemma digits_ok_replicate [simp]: "0 < b \<Longrightarrow> digits_ok b (replicate n 0)"
  by (simp add: digits_ok_def)

lemma digits_ok_take [simp]: "digits_ok b xs \<Longrightarrow> digits_ok b (take n xs)"
  by (auto simp: digits_ok_def dest: in_set_takeD)

lemma digits_ok_drop [simp]: "digits_ok b xs \<Longrightarrow> digits_ok b (drop n xs)"
  by (auto simp: digits_ok_def dest: in_set_dropD)

lemma num_of_append: "num_of b (xs @ ys) = num_of b xs + b ^ length xs * num_of b ys"
  by (induction xs) (auto simp: algebra_simps)

lemma num_of_replicate [simp]: "num_of b (replicate n 0) = 0"
  by (induction n) auto

lemma num_of_pad [simp]: "num_of b (xs @ replicate n 0) = num_of b xs"
  by (simp add: num_of_append)

lemma num_of_nonneg: "0 \<le> b \<Longrightarrow> digits_ok b ds \<Longrightarrow> 0 \<le> num_of b ds"
  by (induction ds) auto

lemma num_of_less: "2 \<le> b \<Longrightarrow> digits_ok b ds \<Longrightarrow> num_of b ds < b ^ length ds"
proof (induction ds)
  case (Cons d ds)
  then have "num_of b ds + 1 \<le> b ^ length ds" by simp
  then have "b * (num_of b ds + 1) \<le> b * b ^ length ds"
    using Cons.prems by (intro mult_left_mono) auto
  with Cons.prems show ?case by (simp add: algebra_simps)
qed simp

text \<open>A digit vector without a leading zero determines its number, and conversely.\<close>

definition canonical :: "int list \<Rightarrow> bool" where
  "canonical ds \<longleftrightarrow> ds \<noteq> [] \<and> (length ds = 1 \<or> last ds \<noteq> 0)"

lemma num_of_ge_last:
  "2 \<le> b \<Longrightarrow> digits_ok b ds \<Longrightarrow> ds \<noteq> [] \<Longrightarrow> last ds \<noteq> 0 \<Longrightarrow>
   b ^ (length ds - 1) \<le> num_of b ds"
proof (induction ds)
  case (Cons d ds)
  show ?case
  proof (cases "ds = []")
    case False
    with Cons have "b * b ^ (length ds - 1) \<le> b * num_of b ds"
      by (intro mult_left_mono) auto
    moreover have "b * b ^ (length ds - 1) = b ^ length ds"
      using False by (cases ds) auto
    ultimately have "b ^ length ds \<le> b * num_of b ds" by linarith
    then show ?thesis using Cons.prems by simp
  qed (use Cons.prems in auto)
qed simp

lemma num_of_inject:
  "2 \<le> b \<Longrightarrow> digits_ok b xs \<Longrightarrow> digits_ok b ys \<Longrightarrow> length xs = length ys \<Longrightarrow>
   num_of b xs = num_of b ys \<Longrightarrow> xs = ys"
proof (induction xs ys rule: list_induct2')
  case (4 x xs y ys)
  have "(x + b * num_of b xs) mod b = (y + b * num_of b ys) mod b"
    using 4 by simp
  then have "x = y" using 4 by simp
  with 4 show ?case by auto
qed auto

lemma canonical_length_le:
  assumes b: "2 \<le> b" and xs: "digits_ok b xs" "canonical xs" and ys: "digits_ok b ys" "ys \<noteq> []"
    and le: "num_of b xs \<le> num_of b ys"
  shows "length xs \<le> length ys"
proof (rule ccontr)
  assume "\<not> length xs \<le> length ys"
  with ys(2) have less: "length ys < length xs" and "1 < length xs"
    by (auto simp: Suc_le_eq dest: leD) (metis length_greater_0_conv less_trans_Suc not_le_imp_less not_less_eq)
  with xs(2) have "b ^ (length xs - 1) \<le> num_of b xs"
    using num_of_ge_last [OF b xs(1)] by (auto simp: canonical_def)
  also have "\<dots> < b ^ length ys"
    using le num_of_less [OF b ys(1)] by linarith
  also have "\<dots> \<le> b ^ (length xs - 1)"
    using b less by (intro power_increasing) auto
  finally show False by simp
qed

text \<open>Conversely, a value that needs all digits leaves no leading zero.\<close>

lemma last_nonzero_if_large:
  assumes "2 \<le> b" "digits_ok b ds" "ds \<noteq> []" "b ^ (length ds - 1) \<le> num_of b ds"
  shows "last ds \<noteq> 0"
proof
  assume "last ds = 0"
  then have ds: "ds = butlast ds @ [0]" using assms(3) by (metis append_butlast_last_id)
  have "num_of b ds = num_of b (butlast ds)" by (subst ds) (simp add: num_of_append)
  moreover have "digits_ok b (butlast ds)" using assms(2) by (auto simp: digits_ok_def dest: in_set_butlastD)
  then have "num_of b (butlast ds) < b ^ length (butlast ds)" by (rule num_of_less [OF assms(1)])
  ultimately show False using assms(4) by simp
qed

lemma canonical_inject:
  assumes "2 \<le> b" "digits_ok b xs" "canonical xs" "digits_ok b ys" "canonical ys"
    "num_of b xs = num_of b ys"
  shows "xs = ys"
proof (rule num_of_inject)
  show "length xs = length ys"
    using canonical_length_le [of b xs ys] canonical_length_le [of b ys xs] assms
    by (auto simp: canonical_def)
qed (use assms in auto)

subsection \<open>The interface of the digit types\<close>

text \<open>
  What the routines need of a digit type: a base of at least 2 that, with a \<open>long long\<close>
  carry, leaves room for a product of two digits, and a conversion that keeps digits.
\<close>

locale digit_base =
  fixes cast :: "int \<Rightarrow> int" and scale :: int
  assumes scale_ge: "2 \<le> scale"
    and scale_le: "scale \<le> 1000000000"
    and cast_digit: "0 \<le> d \<Longrightarrow> d < scale \<Longrightarrow> cast d = d"
begin

lemma scale_pos [simp]: "0 < scale" "0 \<le> scale" "1 < scale" "scale \<noteq> 0"
  using scale_ge by auto

lemma div_lt: "0 < n \<Longrightarrow> n div scale < n"
  using div_less_self_int scale_ge by blast

lemma digit_mod [simp]: "cast (n mod scale) = n mod scale"
  by (simp add: cast_digit)

lemma digit_mod64 [simp]: "i64 (n mod scale) = n mod scale"
proof (rule i64_id)
  have "0 \<le> n mod scale" "n mod scale < scale" by simp_all
  then show "- 9223372036854775808 \<le> n mod scale" "n mod scale < 9223372036854775808"
    using scale_le by linarith+
qed

lemma fill_loop:
  assumes "0 \<le> n"
  shows "\<exists>ds. large_int_fill_loop cast scale v n = Some (v @ ds) \<and> digits_ok scale ds \<and>
    num_of scale ds = n \<and> canonical ds \<and> (0 < n \<longrightarrow> last ds \<noteq> 0)"
  using assms
proof (induction "nat n" arbitrary: n v rule: less_induct)
  case less
  have simps: "large_int_fill_loop cast scale v n =
      (if n div scale > 0 then large_int_fill_loop cast scale (v @ [n mod scale]) (n div scale)
       else Some (v @ [n mod scale]))"
    using less.prems by (subst large_int_fill_loop.simps) (simp add: Let_def)
  show ?case
  proof (cases "n div scale > 0")
    case True
    then have "0 < n" using less.prems by (cases "n = 0") auto
    then obtain ds where "large_int_fill_loop cast scale (v @ [n mod scale]) (n div scale)
        = Some ((v @ [n mod scale]) @ ds)" "digits_ok scale ds" "num_of scale ds = n div scale"
        "canonical ds" "last ds \<noteq> 0"
      using less.hyps [of "n div scale" "v @ [n mod scale]"] True div_lt [of n] by auto
    with True show ?thesis
      by (intro exI [of _ "n mod scale # ds"]) (auto simp: simps canonical_def)
  next
    case False
    then have "n div scale = 0" using less.prems div_nonneg_int [of n scale] by simp
    then have "n mod scale = n" by (metis mult_zero_right add_0 mult_div_mod_eq)
    with False less.prems show ?thesis
      using pos_mod_bound [of scale n]
      by (intro exI [of _ "[n mod scale]"]) (auto simp: simps canonical_def)
  qed
qed

lemma fill:
  assumes "0 \<le> n"
  obtains ds where "large_int_fill cast tneg v n scale = Some (v @ ds)" "digits_ok scale ds"
    "num_of scale ds = n" "canonical ds" "0 < n \<Longrightarrow> last ds \<noteq> 0"
  using fill_loop [OF assms, of v] assms that by (auto simp: large_int_fill_def)

lemma sum_loop:
  "length xs = length ys \<Longrightarrow> digits_ok scale xs \<Longrightarrow> digits_ok scale ys \<Longrightarrow>
   0 \<le> carry \<Longrightarrow> carry \<le> 1 \<Longrightarrow>
   \<exists>ds r. sum_int_loop cast 0 scale carry xs ys = Some (ds, r) \<and> digits_ok scale ds \<and>
     length ds = length xs \<and> 0 \<le> r \<and> r \<le> 1 \<and>
     num_of scale ds + scale ^ length xs * r = num_of scale xs + num_of scale ys + carry"
proof (induction xs ys arbitrary: carry rule: list_induct2')
  case (4 x xs y ys)
  let ?c = "carry + (x + y)"
  have c: "0 \<le> ?c" "?c \<le> 2 * scale - 1" using 4 by auto
  have q: "0 \<le> ?c div scale" using c by (simp add: div_nonneg_int)
  have "?c div scale < 2" using c by (intro div_less_int) auto
  then have q1: "?c div scale \<le> 1" by simp
  obtain ds r where IH: "sum_int_loop cast 0 scale (?c div scale) xs ys = Some (ds, r)"
    "digits_ok scale ds" "length ds = length xs" "0 \<le> r" "r \<le> 1"
    "num_of scale ds + scale ^ length xs * r = num_of scale xs + num_of scale ys + ?c div scale"
    using "4.IH" [of "?c div scale"] "4.prems" q q1 by auto
  have wrap: "i64 (x + y) = x + y" "i64 ?c = ?c" "i64 x = x"
    using 4 c scale_le by (auto intro!: i64_id)
  have "num_of scale (?c mod scale # ds) + scale ^ length (x # xs) * r =
      num_of scale (x # xs) + num_of scale (y # ys) + carry"
    using carry_step [OF IH(6)] by (simp add: algebra_simps)
  with IH wrap c show ?case
    by (auto simp: Let_def)
qed auto

lemma sum_vec_correct:
  assumes "digits_ok scale v1" "digits_ok scale v2"
  obtains r where "sum_vec cast v1 v2 scale = Some (r, v2 @ replicate (length v1 - length v2) 0)"
    "digits_ok scale r" "num_of scale r = num_of scale v1 + num_of scale v2"
    "max (length v1) (length v2) \<le> length r"
    "length r = max (length v1) (length v2) \<or> last r \<noteq> 0"
proof -
  let ?p1 = "v1 @ replicate (length v2 - length v1) 0"
  let ?p2 = "v2 @ replicate (length v1 - length v2) 0"
  have len: "length ?p1 = length ?p2" by simp
  obtain ds c where sum: "sum_int cast ?p1 ?p2 0 scale = Some (ds, c)" "digits_ok scale ds"
    "length ds = length ?p1" "0 \<le> c"
    "num_of scale ds + scale ^ length ds * c = num_of scale v1 + num_of scale v2"
    using sum_loop [OF len, of 0] assms by (auto simp: sum_int_def)
  show ?thesis
  proof (cases "c > 0")
    case True
    then obtain hi where "large_int_fill cast i64 ds c scale = Some (ds @ hi)"
      "digits_ok scale hi" "num_of scale hi = c" "canonical hi" "last hi \<noteq> 0"
      using fill [of c i64 ds] by auto
    with True sum show ?thesis
      by (intro that [of "ds @ hi"])
        (auto simp: sum_vec_def Let_def num_of_append canonical_def last_append)
  next
    case False
    with sum show ?thesis by (intro that [of ds]) (auto simp: sum_vec_def Let_def)
  qed
qed

text \<open>
  The factor may be as large as the base times the factor still fits a \<open>long long\<close>: then no
  step of the multiplication overflows.
\<close>

lemma multiply_loop:
  assumes f: "0 \<le> f" "scale * f < 9223372036854775808"
  shows "digits_ok scale xs \<Longrightarrow> 0 \<le> carry \<Longrightarrow> carry \<le> f \<Longrightarrow>
    (case large_int_multiply_loop cast f scale carry xs of (ds, r) \<Rightarrow>
      digits_ok scale ds \<and> length ds = length xs \<and> 0 \<le> r \<and> r \<le> f \<and>
      num_of scale ds + scale ^ length xs * r = num_of scale xs * f + carry)"
proof (induction xs arbitrary: carry)
  case (Cons x xs)
  let ?c = "carry + x * f"
  have "x * f \<le> (scale - 1) * f" using Cons.prems f by (intro mult_right_mono) auto
  then have xf: "0 \<le> x * f" "x * f + f \<le> scale * f"
    using Cons.prems f by (auto simp: algebra_simps)
  then have c: "0 \<le> ?c" "?c \<le> scale * f" using Cons.prems by auto
  have wrap: "i64 (x * f) = x * f" "i64 ?c = ?c" using xf c f by (auto intro!: i64_id)
  have "?c div scale \<le> scale * f div scale" using c by (intro zdiv_mono1) auto
  then have q: "0 \<le> ?c div scale" "?c div scale \<le> f" using c by (auto simp: div_nonneg_int)
  obtain ds r where IH: "large_int_multiply_loop cast f scale (?c div scale) xs = (ds, r)"
    "digits_ok scale ds" "length ds = length xs" "0 \<le> r" "r \<le> f"
    "num_of scale ds + scale ^ length xs * r = num_of scale xs * f + ?c div scale"
    using Cons.IH [of "?c div scale"] Cons.prems q by (auto split: prod.splits)
  have "num_of scale (?c mod scale # ds) + scale ^ length (x # xs) * r =
      num_of scale (x # xs) * f + carry"
    using carry_step [OF IH(6)] by (simp add: algebra_simps)
  with IH wrap c show ?case by (auto simp: Let_def)
qed auto

lemma multiply_correct:
  assumes "digits_ok scale xs" "0 \<le> f" "scale * f < 9223372036854775808"
  obtains r where "large_int_multiply cast xs f scale = Some r" "digits_ok scale r"
    "num_of scale r = num_of scale xs * f" "length xs \<le> length r"
proof -
  obtain ds c where mul: "large_int_multiply_loop cast f scale 0 xs = (ds, c)"
    "digits_ok scale ds" "length ds = length xs" "0 \<le> c"
    "num_of scale ds + scale ^ length xs * c = num_of scale xs * f"
    using multiply_loop [OF assms(2,3,1), of 0] assms(2) by (auto split: prod.splits)
  show ?thesis
  proof (cases "c > 0")
    case True
    then obtain hi where "large_int_fill cast i64 ds c scale = Some (ds @ hi)"
      "digits_ok scale hi" "num_of scale hi = c"
      using fill [of c i64 ds] by auto
    with True mul show ?thesis
      by (intro that [of "ds @ hi"]) (auto simp: large_int_multiply_def num_of_append)
  next
    case False
    with mul show ?thesis by (intro that [of ds]) (auto simp: large_int_multiply_def)
  qed
qed

end

interpretation char10: digit_base i8 10
  by unfold_locales auto

interpretation int9: digit_base i32 1000000000
  by unfold_locales auto

subsection \<open>Reading a base 10 vector, and splitting base 1000000000 digits\<close>

lemma large_int_get_correct:
  assumes "digits_ok 10 v" "num_of 10 v < 9223372036854775808"
  shows "large_int_get v = num_of 10 v"
  using assms
proof (induction v)
  case (Cons c v)
  have "0 \<le> num_of 10 v" using Cons.prems by (auto intro: num_of_nonneg)
  with Cons show ?case by (simp add: large_int_get_def)
qed (simp add: large_int_get_def)

lemma num_of_split_digits:
  assumes "length xs = k"
  shows "num_of 10 (xs @ ys) = num_of 10 xs + 10 ^ k * num_of 10 ys"
  using assms by (simp add: num_of_append)

lemma mod_distance:
  assumes "(l::nat) \<le> 9 * k" "9 * k < l + 9"
  shows "9 * k - l = (if l mod 9 = 0 then 0 else 9 - l mod 9)"
proof (cases "l = 9 * k")
  case False
  with assms have "l = 9 * (k - 1) + (9 - (9 * k - l))" by auto
  then have "l mod 9 = (9 - (9 * k - l)) mod 9" by (metis mod_mult_self4)
  with False assms show ?thesis by auto
qed auto

text \<open>The padding before digit number \<open>k\<close> brings the length to \<open>9 * k\<close>.\<close>

lemma scale_down_loop_correct:
  "digits_ok 1000000000 ns \<Longrightarrow> digits_ok 10 dest \<Longrightarrow> (dest = [] \<longleftrightarrow> k = 0) \<Longrightarrow>
   length dest \<le> 9 * k \<Longrightarrow> 9 * k < length dest + 9 \<Longrightarrow>
   \<exists>r. scale_down_loop 9 dest ns = Some r \<and> digits_ok 10 r \<and>
     num_of 10 r = num_of 10 dest + 10 ^ (9 * k) * num_of 1000000000 ns"
proof (induction ns arbitrary: dest k)
  case (Cons n ns)
  let ?pad = "replicate (9 * k - length dest) 0 :: int list"
  have pad: "(if dest \<noteq> [] \<and> length dest mod 9 \<noteq> 0
      then dest @ replicate (9 - length dest mod 9) 0 else dest) = dest @ ?pad"
    using Cons.prems(3-5) mod_distance [of "length dest" k] by auto
  obtain ds where ds: "large_int_fill i8 i32 (dest @ ?pad) n 10 = Some ((dest @ ?pad) @ ds)"
    "digits_ok 10 ds" "num_of 10 ds = n" "canonical ds"
    using char10.fill [of n i32 "dest @ ?pad"] Cons.prems(1) by auto
  have "length ds \<le> 9"
    using canonical_length_le [of 10 ds "replicate 9 9"] ds Cons.prems
    by (simp add: numeral_eq_Suc)
  moreover have "ds \<noteq> []" using ds by (simp add: canonical_def)
  ultimately obtain r where "scale_down_loop 9 ((dest @ ?pad) @ ds) ns = Some r" "digits_ok 10 r"
    "num_of 10 r = num_of 10 ((dest @ ?pad) @ ds) + 10 ^ (9 * (k + 1)) * num_of 1000000000 ns"
    using Cons.IH [of "(dest @ ?pad) @ ds" "k + 1"] Cons.prems ds
    by (cases ds) auto
  moreover have "num_of 10 ((dest @ ?pad) @ ds) = num_of 10 dest + 10 ^ (9 * k) * n"
    using Cons.prems ds by (subst num_of_split_digits [of _ "9 * k"]) auto
  ultimately show ?case
    using ds(1) pad by (auto simp: Let_def algebra_simps power_add)
qed auto

lemma scale_down_correct:
  assumes "digits_ok 1000000000 ns"
  obtains r where "scale_down ns 9 = Some r" "digits_ok 10 r"
    "num_of 10 r = num_of 1000000000 ns"
  using scale_down_loop_correct [of ns "[]" 0] assms that by (auto simp: scale_down_def)

end
