(* ===== verification/MathDigits.thy ===== *)
theory MathDigits
  imports Complex_Main DigitVector "HOL-Library.Multiset"
begin

section \<open>Digit routines (library/mathlib.h)\<close>

text \<open>
  The routines of \<open>src/library/mathlib.h\<close> that take a number apart digit by digit: counting,
  reversing and sorting digits, palindromes, base conversion and sums of digit factorials.
  Each loop is related to the little-endian digits \<open>base_digits\<close> of its argument.
\<close>

subsection \<open>The model\<close>

function count_digit_loop :: "int list \<Rightarrow> int \<Rightarrow> int list" where
  "count_digit_loop cnt x =
     (if x > 0
      then count_digit_loop
             (cnt[nat (x smod 10) := i32 (cnt ! nat (x smod 10) + 1)]) (x sdiv 10)
      else cnt)"
  by pat_completeness auto
termination by (relation "measure (\<lambda>(cnt, x). nat x)") (auto simp: div_less_self_int)

definition count_digit :: "int \<Rightarrow> int list" where
  "count_digit x = count_digit_loop (replicate 10 0) x"

text \<open>\<open>reverse<T>\<close>: \<open>tcast\<close> wraps at the width of \<open>T\<close>.\<close>

function reverse_loop :: "(int \<Rightarrow> int) \<Rightarrow> int \<Rightarrow> int \<Rightarrow> int" where
  "reverse_loop tcast reversed n =
     (if n > 0 then reverse_loop tcast (tcast (tcast (reversed * 10) + n smod 10)) (n sdiv 10)
      else reversed)"
  by pat_completeness auto
termination by (relation "measure (\<lambda>(t, r, n). nat n)") (auto simp: div_less_self_int)

definition reverse_num :: "(int \<Rightarrow> int) \<Rightarrow> int \<Rightarrow> int" where
  "reverse_num tcast n = reverse_loop tcast 0 n"

definition isPalindrome :: "int \<Rightarrow> bool" where
  "isPalindrome n = (if n < 0 \<or> n smod 10 = 0 then False else n = reverse_num i64 n)"

function compute_palin :: "int \<Rightarrow> int \<Rightarrow> int" where
  "compute_palin palin prefix =
     (if prefix > 0 then compute_palin (i32 (i32 (palin * 10) + prefix smod 10)) (prefix sdiv 10)
      else palin)"
  by pat_completeness auto
termination by (relation "measure (\<lambda>(p, n). nat n)") (auto simp: div_less_self_int)

definition allPalindrome :: "int \<Rightarrow> int list" where
  "allPalindrome prefix =
     [1, 2, 3, 4, 5, 6, 7, 8, 9] @
     concat (map (\<lambda>p. compute_palin p p #
                      map (\<lambda>i. compute_palin (i32 (i32 (p * 10) + i)) p) [0..9])
                 [1..prefix - 1])"

text \<open>\<open>base_conversion\<close> divides by the base: base 0 is undefined, base 1 does not return.\<close>

partial_function (option) base_conversion_loop :: "string \<Rightarrow> int \<Rightarrow> int \<Rightarrow> string option" where
  "base_conversion_loop s n b =
     (if n > 0 then
        if b = 0 then None
        else base_conversion_loop (s @ [char_of (nat (i8 (n smod b + 48)) )]) (n sdiv b) b
      else Some s)"

definition base_conversion :: "int \<Rightarrow> int \<Rightarrow> string option" where
  "base_conversion n b = base_conversion_loop '''' n b"

text \<open>
  \<open>isPalindrome\<close> on a range: \<open>first\<close> and \<open>last\<close> walk towards each other. The loop test
  decrements \<open>last\<close> first, so an empty range is undefined.
\<close>

function palindrome_loop :: "'a list \<Rightarrow> nat \<Rightarrow> nat \<Rightarrow> bool option" where
  "palindrome_loop xs frst lst =
     (if lst = 0 then None
      else
        let lst = lst - 1 in
        if frst = lst then Some True
        else if vec_at xs frst \<noteq> vec_at xs lst then Some False
        else if frst + 1 = lst then Some True
        else palindrome_loop xs (frst + 1) lst)"
  by pat_completeness auto
termination by (relation "measure (\<lambda>(xs, frst, lst). lst)") auto

definition isPalindrome_range :: "'a list \<Rightarrow> bool option" where
  "isPalindrome_range xs = palindrome_loop xs 0 (length xs)"

text \<open>The digits of a number, pushed one by one, then sorted in decreasing order.\<close>

function push_digits :: "int list \<Rightarrow> int \<Rightarrow> int list" where
  "push_digits v num =
     (if num > 0 then push_digits (v @ [i8 (num smod 10)]) (num sdiv 10) else v)"
  by pat_completeness auto
termination by (relation "measure (\<lambda>(v, n). nat n)") (auto simp: div_less_self_int)

definition get_largest_permu :: "(int \<Rightarrow> int) \<Rightarrow> int \<Rightarrow> int" where
  "get_largest_permu tcast num =
     fold (\<lambda>i num. tcast (tcast (num * 10) + i)) (rev (sort (push_digits [] num))) 0"

definition get_largest_permu_factorial :: "int \<Rightarrow> int" where
  "get_largest_permu_factorial num =
     fold (\<lambda>i num. i64 (i64 (num * 10) + (if i = 0 then i + 1 else i)))
       (rev (sort (push_digits [] num))) 0"

text \<open>The class \<open>FactorialDigit\<close>: the constructor fills the table of \<open>0!\<close> to \<open>9!\<close>.\<close>

record FactorialDigit =
  factorials :: "int list"

fun factorial_fill :: "nat \<Rightarrow> int list \<Rightarrow> int list" where
  "factorial_fill 0 v = v"
| "factorial_fill (Suc k) v =
     (let i = 10 - Suc k in factorial_fill k (v[i := i32 (int i * v ! (i - 1))]))"

definition FactorialDigit_init :: FactorialDigit where
  "FactorialDigit_init = \<lparr>factorials = factorial_fill 9 (replicate 10 1)\<rparr>"

function factorial_digit_loop :: "int list \<Rightarrow> int \<Rightarrow> int \<Rightarrow> int" where
  "factorial_digit_loop tab s n =
     (if n > 0 then factorial_digit_loop tab (i32 (s + tab ! nat (n smod 10))) (n sdiv 10)
      else s)"
  by pat_completeness auto
termination by (relation "measure (\<lambda>(t, s, n). nat n)") (auto simp: div_less_self_int)

definition get_factorial_digit_sum :: "FactorialDigit \<Rightarrow> int \<Rightarrow> int" where
  "get_factorial_digit_sum this n = factorial_digit_loop (factorials this) 0 n"

declare count_digit_loop.simps [simp del] reverse_loop.simps [simp del]
  compute_palin.simps [simp del] palindrome_loop.simps [simp del] push_digits.simps [simp del]
  factorial_digit_loop.simps [simp del]

subsection \<open>The digits of a number\<close>

text \<open>The reference: the digits of \<open>n\<close> to base \<open>b\<close>, least significant first, none for 0.\<close>

function base_digits :: "int \<Rightarrow> int \<Rightarrow> int list" where
  "base_digits b n = (if 2 \<le> b \<and> 0 < n then n mod b # base_digits b (n div b) else [])"
  by pat_completeness auto
termination by (relation "measure (\<lambda>(b, n). nat n)") (auto simp: div_less_self_int)

declare base_digits.simps [simp del]

abbreviation dec_digits :: "int \<Rightarrow> int list" where
  "dec_digits \<equiv> base_digits 10"

lemma base_digits_0 [simp]: "n \<le> 0 \<Longrightarrow> base_digits b n = []"
  by (simp add: base_digits.simps)

lemma base_digits_pos:
  "2 \<le> b \<Longrightarrow> 0 < n \<Longrightarrow> base_digits b n = n mod b # base_digits b (n div b)"
  by (simp add: base_digits.simps [of b n])

lemma base_digits_Nil_iff: "2 \<le> b \<Longrightarrow> base_digits b n = [] \<longleftrightarrow> n \<le> 0"
  by (auto simp: base_digits.simps [of b n])

lemma digits_ok_base_digits: "2 \<le> b \<Longrightarrow> digits_ok b (base_digits b n)"
  by (induction b n rule: base_digits.induct) (subst base_digits.simps, auto)

lemma num_of_base_digits: "2 \<le> b \<Longrightarrow> 0 \<le> n \<Longrightarrow> num_of b (base_digits b n) = n"
  by (induction b n rule: base_digits.induct) (subst base_digits.simps, auto simp: div_nonneg_int)

lemma last_base_digits: "2 \<le> b \<Longrightarrow> 0 < n \<Longrightarrow> last (base_digits b n) \<noteq> 0"
proof (induction b n rule: base_digits.induct)
  case (1 b n)
  show ?case
  proof (cases "n < b")
    case True
    with 1 show ?thesis by (simp add: base_digits_pos)
  next
    case False
    then have "0 < n div b" using 1 by (simp add: pos_imp_zdiv_pos_iff)
    with 1 show ?thesis by (simp add: base_digits_pos base_digits_Nil_iff)
  qed
qed

text \<open>A digit list without a leading zero is the digits of its number.\<close>

lemma base_digits_num_of:
  "2 \<le> b \<Longrightarrow> digits_ok b ds \<Longrightarrow> ds = [] \<or> last ds \<noteq> 0 \<Longrightarrow> base_digits b (num_of b ds) = ds"
proof (induction ds)
  case (Cons d ds)
  have nn: "0 \<le> num_of b ds" using Cons.prems by (intro num_of_nonneg) auto
  have pos: "0 < num_of b (d # ds)"
  proof (cases "ds = []")
    case False
    with Cons.prems num_of_ge_last [of b ds] have "b ^ (length ds - 1) \<le> num_of b ds" by simp
    moreover have "0 < b ^ (length ds - 1)" using Cons.prems by simp
    ultimately have "0 < num_of b ds" by linarith
    then have "0 < b * num_of b ds" using Cons.prems by simp
    then show ?thesis using Cons.prems by simp
  qed (use Cons.prems in auto)
  have "base_digits b (num_of b ds) = ds"
    using Cons by (cases "ds = []") auto
  then show ?case
    using Cons.prems pos by (simp add: base_digits_pos div_add1_eq [of d])
qed simp

lemma num_of_length:
  assumes "0 \<le> n" "n < 10 ^ k"
  shows "length (dec_digits n) \<le> k"
proof (cases "n = 0")
  case False
  with assms have "10 ^ (length (dec_digits n) - 1) \<le> n"
    using num_of_ge_last [of 10 "dec_digits n"] last_base_digits [of 10 n]
    by (simp add: digits_ok_base_digits num_of_base_digits base_digits_Nil_iff)
  also note assms(2)
  finally have "length (dec_digits n) - 1 < k" by (rule power_less_imp_less_exp [rotated]) simp
  then show ?thesis by linarith
qed simp

lemma num_of_snoc: "num_of b (ds @ [d]) = num_of b ds + b ^ length ds * d"
  by (simp add: num_of_append)

lemma digits_ok_rev [simp]: "digits_ok b (rev ds) = digits_ok b ds"
  by (simp add: digits_ok_def)

subsection \<open>Counting, collecting and reversing\<close>

lemma push_digits_eq: "push_digits v n = v @ dec_digits n"
proof (induction v n rule: push_digits.induct)
  case (1 v n)
  show ?case
  proof (cases "n > 0")
    case True
    then have "i8 (n mod 10) = n mod 10"
      using pos_mod_bound [of 10 n] pos_mod_sign [of 10 n] by (intro i8_id) linarith+
    with True 1 show ?thesis by (simp add: push_digits.simps [of v n] base_digits_pos)
  qed (simp add: push_digits.simps)
qed

text \<open>The loops that append digits are folds of one step over the digits.\<close>

abbreviation append_digit :: "(int \<Rightarrow> int) \<Rightarrow> int \<Rightarrow> int \<Rightarrow> int" where
  "append_digit t \<equiv> \<lambda>d r. t (t (r * 10) + d)"

lemma reverse_loop_fold: "reverse_loop t r n = fold (append_digit t) (dec_digits n) r"
  by (induction t r n rule: reverse_loop.induct)
    (subst reverse_loop.simps, auto simp: base_digits_pos)

lemma compute_palin_fold: "compute_palin r n = fold (append_digit i32) (dec_digits n) r"
  by (induction r n rule: compute_palin.induct)
    (subst compute_palin.simps, auto simp: base_digits_pos)

text \<open>The cast \<open>t\<close> is harmless below a bound \<open>B\<close> that the whole loop stays under.\<close>

lemma fold_append_digit:
  assumes t: "\<And>x. 0 \<le> x \<Longrightarrow> x < B \<Longrightarrow> t x = x"
  shows "0 \<le> r \<Longrightarrow> digits_ok 10 ds \<Longrightarrow> (r + 1) * 10 ^ length ds \<le> B \<Longrightarrow>
    fold (append_digit t) ds r = r * 10 ^ length ds + num_of 10 (rev ds)"
proof (induction ds arbitrary: r)
  case (Cons d ds)
  have d: "0 \<le> d" "d < 10" using Cons.prems by auto
  have "(10 * r + 10) * 1 \<le> (10 * r + 10) * 10 ^ length ds"
    using Cons.prems by (intro mult_left_mono) auto
  also have "\<dots> \<le> B" using Cons.prems by (simp add: algebra_simps)
  finally have B: "10 * r + 10 \<le> B" by simp
  have "(10 * r + d + 1) * 10 ^ length ds \<le> (10 * r + 10) * 10 ^ length ds"
    using d by (intro mult_right_mono) auto
  also have "\<dots> \<le> B" using Cons.prems by (simp add: algebra_simps)
  finally have step: "(10 * r + d + 1) * 10 ^ length ds \<le> B" .
  have "t (t (r * 10) + d) = 10 * r + d"
    using Cons.prems B d by (auto simp: t mult.commute)
  then show ?case
    using Cons.IH [of "10 * r + d"] Cons.prems d step by (simp add: num_of_snoc algebra_simps)
qed simp

lemma fold_append_digit_i64:
  "digits_ok 10 ds \<Longrightarrow> length ds \<le> 18 \<Longrightarrow> fold (append_digit i64) ds 0 = num_of 10 (rev ds)"
  using fold_append_digit [of "10 ^ 18" i64 0 ds] power_increasing [of "length ds" 18 "10::int"]
  by auto

lemma fold_append_digit_i32:
  "0 \<le> r \<Longrightarrow> digits_ok 10 ds \<Longrightarrow> (r + 1) * 10 ^ length ds \<le> 10 ^ 9 \<Longrightarrow>
   fold (append_digit i32) ds r = r * 10 ^ length ds + num_of 10 (rev ds)"
  by (rule fold_append_digit) auto

lemma dec_digits_snoc:
  assumes "digits_ok 10 ds" "ds = [] \<or> last ds \<noteq> 0"
  shows "dec_digits (num_of 10 ds) = ds"
  using base_digits_num_of [of 10 ds] assms by simp

lemma dec_digits_less_10_18: "0 \<le> n \<Longrightarrow> n < 10 ^ 18 \<Longrightarrow> length (dec_digits n) \<le> 18"
  by (rule num_of_length)

subsection \<open>Palindromes\<close>

text \<open>\<open>isPalindrome\<close> decides whether the decimal digits of \<open>n\<close> read the same in both
  directions, for every number of at most 18 digits (the range in which the reversal cannot
  overflow). Zero and the negative numbers are rejected.\<close>

theorem isPalindrome_iff:
  assumes "n < 10 ^ 18"
  shows "isPalindrome n \<longleftrightarrow> 0 < n \<and> rev (dec_digits n) = dec_digits n"
proof (cases "0 < n")
  case True
  note dd = digits_ok_base_digits [of 10 n, simplified]
  have rev: "reverse_num i64 n = num_of 10 (rev (dec_digits n))"
    using dd True assms dec_digits_less_10_18 [of n]
    by (simp add: reverse_num_def reverse_loop_fold fold_append_digit_i64)
  show ?thesis
  proof (cases "n mod 10 = 0")
    case True
    then have "hd (dec_digits n) = 0" using \<open>0 < n\<close> by (simp add: base_digits_pos)
    moreover have "last (dec_digits n) \<noteq> 0" using \<open>0 < n\<close> by (simp add: last_base_digits)
    ultimately have "rev (dec_digits n) \<noteq> dec_digits n" by (metis hd_rev)
    then show ?thesis using True \<open>0 < n\<close> by (simp add: isPalindrome_def)
  next
    case False
    have ne: "dec_digits n \<noteq> []" using \<open>0 < n\<close> by (simp add: base_digits_Nil_iff)
    have "last (rev (dec_digits n)) \<noteq> 0"
      using False \<open>0 < n\<close> by (simp add: last_rev ne base_digits_pos)
    then have "dec_digits (num_of 10 (rev (dec_digits n))) = rev (dec_digits n)"
      using dd by (intro dec_digits_snoc) auto
    moreover have "num_of 10 (dec_digits n) = n" using \<open>0 < n\<close> by (simp add: num_of_base_digits)
    ultimately have "n = num_of 10 (rev (dec_digits n)) \<longleftrightarrow> rev (dec_digits n) = dec_digits n"
      by metis
    then show ?thesis using False \<open>0 < n\<close> by (simp add: isPalindrome_def rev)
  qed
qed (auto simp: isPalindrome_def)

lemma isPalindrome_iff_witness:
  "isPalindrome 12321 \<longleftrightarrow> 0 < (12321::int) \<and> rev (dec_digits 12321) = dec_digits 12321"
  by (rule isPalindrome_iff) simp

text \<open>The two numbers that \<open>allPalindrome\<close> builds from a half \<open>p\<close>, as digit lists.\<close>

lemma compute_palin_even:
  assumes "0 < p" "p < 10 ^ 4"
  shows "compute_palin p p = num_of 10 (rev (dec_digits p) @ dec_digits p)"
proof -
  have "(p + 1) * 10 ^ length (dec_digits p) \<le> 10 ^ 4 * 10 ^ 4"
    using assms num_of_length [of p 4] by (intro mult_mono power_increasing) auto
  then have "compute_palin p p = p * 10 ^ length (dec_digits p) + num_of 10 (rev (dec_digits p))"
    unfolding compute_palin_fold using assms
    by (intro fold_append_digit_i32) (auto simp: digits_ok_base_digits)
  then show ?thesis using assms by (simp add: num_of_append num_of_base_digits)
qed

lemma compute_palin_odd:
  assumes "0 < p" "p < 10 ^ 4" "0 \<le> i" "i \<le> 9"
  shows "compute_palin (i32 (i32 (p * 10) + i)) p = num_of 10 (rev (dec_digits p) @ i # dec_digits p)"
proof -
  have "i32 (i32 (p * 10) + i) = p * 10 + i" using assms by simp
  moreover have "(p * 10 + i + 1) * 10 ^ length (dec_digits p) \<le> 10 ^ 5 * 10 ^ 4"
    using assms num_of_length [of p 4] by (intro mult_mono power_increasing) auto
  then have "compute_palin (p * 10 + i) p =
      (p * 10 + i) * 10 ^ length (dec_digits p) + num_of 10 (rev (dec_digits p))"
    unfolding compute_palin_fold using assms
    by (intro fold_append_digit_i32) (auto simp: digits_ok_base_digits)
  ultimately show ?thesis using assms
    by (simp add: num_of_append num_of_base_digits algebra_simps)
qed

lemma num_of_append_div:
  "digits_ok 10 xs \<Longrightarrow> num_of 10 (xs @ ys) div 10 ^ length xs = num_of 10 ys"
  using num_of_less [of 10 xs] num_of_nonneg [of 10 xs] by (simp add: num_of_append)

text \<open>A palindrome with half \<open>prefix\<close>, the centre digit of an odd length left out.\<close>

definition palindrome_below :: "int \<Rightarrow> int \<Rightarrow> bool" where
  "palindrome_below prefix n \<longleftrightarrow> 0 < n \<and> rev (dec_digits n) = dec_digits n \<and>
     n div 10 ^ ((length (dec_digits n) + 1) div 2) < prefix"

lemma palindrome_below_built:
  assumes p: "0 < p" "p < prefix" and c: "digits_ok 10 c" "length c \<le> 1"
  shows "palindrome_below prefix (num_of 10 (rev (dec_digits p) @ c @ dec_digits p))"
    (is "palindrome_below prefix (num_of 10 ?ds)")
proof -
  have ok: "digits_ok 10 (dec_digits p)" by (simp add: digits_ok_base_digits)
  have dd: "dec_digits (num_of 10 ?ds) = ?ds"
    using p c ok by (intro dec_digits_snoc) (auto simp: last_base_digits base_digits_Nil_iff)
  then have pos: "0 < num_of 10 ?ds"
    using p base_digits_Nil_iff [of 10 "num_of 10 ?ds"] by (auto simp: base_digits_Nil_iff not_le)
  have "rev c = c" using c by (cases c) auto
  then have "rev ?ds = ?ds" by simp
  moreover have "(length ?ds + 1) div 2 = length (rev (dec_digits p) @ c)"
    using c by (cases c) auto
  then have "num_of 10 ?ds div 10 ^ ((length ?ds + 1) div 2) = p"
    using num_of_append_div [of "rev (dec_digits p) @ c" "dec_digits p"] ok c p
    by (simp add: num_of_base_digits)
  ultimately show ?thesis using dd pos p by (simp add: palindrome_below_def)
qed

lemma rev_eq_split:
  assumes "rev ds = ds"
  obtains c t where "ds = rev t @ c @ t" "length c \<le> 1" "length c = length ds mod 2"
proof
  let ?h = "length ds div 2" and ?t = "drop ((length ds + 1) div 2) ds"
  have "rev ?t = take (length ds - (length ds + 1) div 2) (rev ds)" by (simp add: rev_drop)
  also have "length ds - (length ds + 1) div 2 = ?h" by presburger
  finally have "rev ?t = take ?h ds" using assms by simp
  moreover have "ds = take ?h ds @ take ((length ds + 1) div 2 - ?h) (drop ?h ds) @ ?t"
    by (metis append_take_drop_id drop_drop le_add_diff_inverse2 add.commute div_le_mono le_add1)
  ultimately show "ds = rev ?t @ take ((length ds + 1) div 2 - ?h) (drop ?h ds) @ ?t" by simp
  show "length (take ((length ds + 1) div 2 - ?h) (drop ?h ds)) \<le> 1" by simp
  show "length (take ((length ds + 1) div 2 - ?h) (drop ?h ds)) = length ds mod 2"
    by simp presburger
qed

lemma set_allPalindrome:
  assumes "1 \<le> prefix" "prefix \<le> 10 ^ 4"
  shows "set (allPalindrome prefix) =
    {1..9} \<union> (\<Union>p \<in> {1..<prefix}. insert (num_of 10 (rev (dec_digits p) @ dec_digits p))
      ((\<lambda>i. num_of 10 (rev (dec_digits p) @ i # dec_digits p)) ` {0..9}))"
proof -
  have "set (compute_palin p p # map (\<lambda>i. compute_palin (i32 (i32 (p * 10) + i)) p) [0..9]) =
      insert (num_of 10 (rev (dec_digits p) @ dec_digits p))
        ((\<lambda>i. num_of 10 (rev (dec_digits p) @ i # dec_digits p)) ` {0..9})"
    if "p \<in> {1..<prefix}" for p
  proof -
    have "(\<lambda>i. compute_palin (i32 (i32 (p * 10) + i)) p) ` {0..9} =
        (\<lambda>i. num_of 10 (rev (dec_digits p) @ i # dec_digits p)) ` {0..9}"
      using that assms by (intro image_cong compute_palin_odd) auto
    moreover have "compute_palin p p = num_of 10 (rev (dec_digits p) @ dec_digits p)"
      using that assms by (intro compute_palin_even) auto
    ultimately show ?thesis by simp
  qed
  note half = this
  have "{1..prefix - 1} = {1..<prefix}" by auto
  moreover have "set [1, 2, 3, 4, 5, 6, 7, 8, 9] = {1..9::int}" by auto
  ultimately show ?thesis
    unfolding allPalindrome_def set_append set_concat set_map set_upto image_image
    using half by (intro arg_cong2 [where f = "(\<union>)"] SUP_cong) simp_all
qed

text \<open>\<open>allPalindrome\<close> generates exactly the palindromes whose first half (without the centre
  digit) is less than \<open>prefix\<close>: all of them, of even and of odd length, and nothing else.\<close>

theorem allPalindrome_complete:
  assumes "1 \<le> prefix" "prefix \<le> 10 ^ 4"
  shows "set (allPalindrome prefix) = {n. palindrome_below prefix n}"
proof (intro set_eqI iffI; simp only: mem_Collect_eq)
  fix n assume "n \<in> set (allPalindrome prefix)"
  then consider "n \<in> {1..9}"
    | p where "1 \<le> p" "p < prefix" "n = num_of 10 (rev (dec_digits p) @ [] @ dec_digits p)"
    | p i where "1 \<le> p" "p < prefix" "0 \<le> i" "i \<le> 9"
        "n = num_of 10 (rev (dec_digits p) @ [i] @ dec_digits p)"
    using assms by (auto simp: set_allPalindrome)
  then show "palindrome_below prefix n"
  proof cases
    case 1
    then have "dec_digits n = [n]" by (simp add: base_digits_pos)
    with 1 assms show ?thesis by (simp add: palindrome_below_def)
  next
    case 2 then show ?thesis using palindrome_below_built [of p prefix "[]"] by simp
  next
    case 3 then show ?thesis using palindrome_below_built [of p prefix "[i]"] by simp
  qed
next
  fix n assume n: "palindrome_below prefix n"
  let ?ds = "dec_digits n"
  have ok: "digits_ok 10 ?ds" and val: "num_of 10 ?ds = n" and last: "last ?ds \<noteq> 0"
    using n by (simp_all add: palindrome_below_def digits_ok_base_digits num_of_base_digits
        last_base_digits)
  obtain c t where ct: "?ds = rev t @ c @ t" "length c \<le> 1" "length c = length ?ds mod 2"
    by (rule rev_eq_split [of ?ds]) (use n palindrome_below_def in blast)+
  show "n \<in> set (allPalindrome prefix)"
  proof (cases t)
    case Nil
    then have "?ds = c" using ct(1) by simp
    moreover have "?ds \<noteq> []" using n by (simp add: palindrome_below_def base_digits_Nil_iff)
    ultimately obtain i where "?ds = [i]" using ct(2) by (cases c) auto
    then have "n = i" "0 \<le> i" "i < 10" using ok val by auto
    then have "n \<in> {1..9}" using n by (auto simp: palindrome_below_def)
    then show ?thesis using assms by (simp add: set_allPalindrome)
  next
    case (Cons d r)
    define p where "p = num_of 10 t"
    have "digits_ok 10 t" "digits_ok 10 (rev t @ c)" using ok unfolding ct(1) by auto
    moreover have "last t \<noteq> 0" using last Cons unfolding ct(1) by simp
    ultimately have pt: "dec_digits p = t" unfolding p_def using Cons by (intro dec_digits_snoc) auto
    then have p: "0 < p" using Cons base_digits_Nil_iff [of 10 p] by simp
    have "length (rev t @ c) = (length ?ds + 1) div 2"
      using arg_cong [OF ct(1), of length] ct(2) by simp
    then have "n div 10 ^ ((length ?ds + 1) div 2) = p"
      using num_of_append_div [of "rev t @ c" t] \<open>digits_ok 10 (rev t @ c)\<close> val ct(1) p_def
      by (metis append.assoc)
    then have less: "p < prefix" using n by (simp add: palindrome_below_def)
    show ?thesis
    proof (cases c)
      case Nil
      then have "n = num_of 10 (rev (dec_digits p) @ dec_digits p)" using ct(1) pt val by simp
      then show ?thesis using p less assms by (auto simp: set_allPalindrome)
    next
      case (Cons i c')
      then have c: "c = [i]" using ct(2) by simp
      then have "0 \<le> i" "i \<le> 9" using ok unfolding ct(1) by auto
      moreover have "n = num_of 10 (rev (dec_digits p) @ i # dec_digits p)"
        using ct(1) pt val c by simp
      ultimately show ?thesis unfolding set_allPalindrome [OF assms] using p less
        by (intro UnI2 UN_I [of p] insertI2 image_eqI [of _ _ i]) auto
    qed
  qed
qed

lemma allPalindrome_complete_witness:
  "set (allPalindrome 20) = {n. palindrome_below 20 n}"
  by (rule allPalindrome_complete) simp_all

subsection \<open>The largest permutation of the digits\<close>

lemma get_largest_permu_eq:
  assumes "0 \<le> n" "n < 10 ^ 18"
  shows "get_largest_permu i64 n = num_of 10 (sort (dec_digits n))"
proof -
  have "digits_ok 10 (sort (dec_digits n))"
    using digits_ok_base_digits [of 10 n] by (simp add: digits_ok_def)
  then show ?thesis
    using dec_digits_less_10_18 [OF assms]
    by (simp add: get_largest_permu_def push_digits_eq fold_append_digit_i64)
qed

lemma last_sort_digits:
  assumes "digits_ok 10 ds" "ds \<noteq> []" "last ds \<noteq> 0"
  shows "last (sort ds) \<noteq> 0"
proof -
  have "last ds \<in> set (sort ds)" using assms by simp
  moreover have "x \<le> last (sort ds)" if "x \<in> set (sort ds)" for x
    using that sorted_sort [of ds] by (cases "sort ds" rule: rev_cases) (auto simp: sorted_append)
  ultimately have "last ds \<le> last (sort ds)" by blast
  moreover have "0 \<le> last ds" using assms by (auto simp: digits_ok_def)
  ultimately show ?thesis using assms by simp
qed

lemma dec_digits_largest_permu:
  assumes "0 \<le> n" "n < 10 ^ 18"
  shows "dec_digits (get_largest_permu i64 n) = sort (dec_digits n)"
proof -
  have ok: "digits_ok 10 (dec_digits n)" by (simp add: digits_ok_base_digits)
  then have "digits_ok 10 (sort (dec_digits n))" by (simp add: digits_ok_def)
  moreover have "sort (dec_digits n) = [] \<or> last (sort (dec_digits n)) \<noteq> 0"
  proof (cases "n = 0")
    case False
    then show ?thesis using assms(1) ok
      by (intro disjI2 last_sort_digits) (auto simp: base_digits_Nil_iff last_base_digits)
  qed simp
  ultimately show ?thesis by (simp add: get_largest_permu_eq [OF assms] dec_digits_snoc)
qed

text \<open>Moving a digit up to its place in a sorted list can only increase the number.\<close>

lemma num_of_insort: "x + 10 * num_of 10 ds \<le> num_of 10 (insort x ds)"
proof (induction ds)
  case (Cons y ys)
  show ?case
  proof (cases "x \<le> y")
    case False
    have "x + 10 * num_of 10 (y # ys) \<le> y + 10 * (x + 10 * num_of 10 ys)" using False by simp
    also have "\<dots> \<le> y + 10 * num_of 10 (insort x ys)" using Cons.IH by simp
    finally show ?thesis using False by simp
  qed simp
qed simp

lemma num_of_sort: "num_of 10 ds \<le> num_of 10 (sort ds)"
proof (induction ds)
  case (Cons x xs)
  have "num_of 10 (x # xs) \<le> x + 10 * num_of 10 (sort xs)" using Cons.IH by simp
  also have "\<dots> \<le> num_of 10 (sort (x # xs))" using num_of_insort [of x "sort xs"] by simp
  finally show ?case .
qed simp

text \<open>\<open>get_largest_permu\<close> is the canonical key of a class of digit permutations: the
  result has the same digits as the argument, no number with these digits is larger, and two
  numbers have the same key exactly when one is a digit permutation of the other.\<close>

theorem get_largest_permu_key:
  assumes "0 \<le> n" "n < 10 ^ 18" "0 \<le> m" "m < 10 ^ 18"
  shows "mset (dec_digits (get_largest_permu i64 n)) = mset (dec_digits n) \<and>
    (mset (dec_digits m) = mset (dec_digits n) \<longrightarrow> m \<le> get_largest_permu i64 n) \<and>
    (get_largest_permu i64 n = get_largest_permu i64 m \<longleftrightarrow>
      mset (dec_digits n) = mset (dec_digits m))"
proof (intro conjI impI)
  note n = assms(1,2) and m = assms(3,4)
  show "mset (dec_digits (get_largest_permu i64 n)) = mset (dec_digits n)"
    by (simp add: dec_digits_largest_permu [OF n])
  have same: "sort (dec_digits m) = sort (dec_digits n)"
    if "mset (dec_digits m) = mset (dec_digits n)"
    using that by (intro properties_for_sort) simp_all
  show "m \<le> get_largest_permu i64 n" if "mset (dec_digits m) = mset (dec_digits n)"
    using num_of_sort [of "dec_digits m"] m
    by (simp add: get_largest_permu_eq [OF n] num_of_base_digits same [OF that])
  show "get_largest_permu i64 n = get_largest_permu i64 m \<longleftrightarrow>
      mset (dec_digits n) = mset (dec_digits m)"
    using dec_digits_largest_permu [OF n] dec_digits_largest_permu [OF m] same
    by (metis get_largest_permu_eq m mset_sort n)
qed

lemma get_largest_permu_key_witness:
  "mset (dec_digits (get_largest_permu i64 1243)) = mset (dec_digits 1243) \<and>
   1324 \<le> get_largest_permu i64 1243 \<and>
   (get_largest_permu i64 1243 = get_largest_permu i64 1324 \<longleftrightarrow>
     mset (dec_digits 1243) = mset (dec_digits 1324))"
proof -
  have "dec_digits 1243 = [3, 4, 2, 1]" "dec_digits 1324 = [4, 2, 3, 1]"
    by (simp_all add: base_digits.simps)
  then have "mset (dec_digits 1324) = mset (dec_digits 1243)" by simp
  moreover have "mset (dec_digits (get_largest_permu i64 1243)) = mset (dec_digits 1243) \<and>
    (mset (dec_digits 1324) = mset (dec_digits 1243) \<longrightarrow> 1324 \<le> get_largest_permu i64 1243) \<and>
    (get_largest_permu i64 1243 = get_largest_permu i64 1324 \<longleftrightarrow>
      mset (dec_digits 1243) = mset (dec_digits 1324))"
    by (rule get_largest_permu_key) simp_all
  ultimately show ?thesis by blast
qed

subsection \<open>Sums of digit factorials\<close>

lemma FactorialDigit_init_eq: "factorials FactorialDigit_init = map fact [0..<10]"
proof -
  have "map fact [0..<10] = [1, 1, 2, 6, 24, 120, 720, 5040, 40320, 362880::int]"
  proof -
    have ten: "[0..<10] = [0, 1, 2, 3, 4, 5, 6, 7, 8, 9]" by (simp add: eval_nat_numeral)
    show ?thesis unfolding ten by (simp add: fact_numeral)
  qed
  moreover have "factorials FactorialDigit_init =
      [1, 1, 2, 6, 24, 120, 720, 5040, 40320, 362880]"
    by code_simp
  ultimately show ?thesis by (simp only:)
qed

definition digit_factorial_sum :: "int \<Rightarrow> int" where
  "digit_factorial_sum n = (\<Sum>d \<leftarrow> dec_digits n. fact (nat d))"

lemma fact_digit_le: "0 \<le> d \<Longrightarrow> d < 10 \<Longrightarrow> fact (nat d) \<le> (362880::int)"
  using fact_mono [of "nat d" 9, where 'a = int] by (simp add: fact_numeral nat_le_iff)

lemma factorial_digit_loop_eq:
  "0 \<le> s \<Longrightarrow> s + 362880 * int (length (dec_digits n)) < 2147483648 \<Longrightarrow>
   factorial_digit_loop (map fact [0..<10]) s n = s + digit_factorial_sum n"
proof (induction "map fact [0..<10] :: int list" s n rule: factorial_digit_loop.induct)
  case (1 s n)
  show ?case
  proof (cases "n > 0")
    case True
    have d: "0 \<le> n mod 10" "n mod 10 < 10" by simp_all
    then have tab: "map fact [0..<10] ! nat (n mod 10) = (fact (nat (n mod 10)) :: int)"
      by (subst nth_map) auto
    have le: "s + fact (nat (n mod 10)) + 362880 * int (length (dec_digits (n div 10))) < 2147483648"
      using "1.prems"(2) fact_digit_le [OF d] True by (simp add: base_digits_pos)
    then have wrap: "i32 (s + fact (nat (n mod 10))) = s + fact (nat (n mod 10))"
      using "1.prems"(1) fact_ge_zero [of "nat (n mod 10)", where 'a = int]
      by (intro i32_id) linarith+
    show ?thesis
      using "1.hyps" "1.prems"(1) True le tab wrap
      by (subst factorial_digit_loop.simps)
        (simp add: base_digits_pos digit_factorial_sum_def del: map_upt_Suc)
  qed (simp add: factorial_digit_loop.simps digit_factorial_sum_def)
qed

lemma get_factorial_digit_sum_eq:
  assumes "n < 10 ^ 18"
  shows "get_factorial_digit_sum FactorialDigit_init n = digit_factorial_sum n"
proof -
  have "length (dec_digits n) \<le> 18"
    using assms by (cases "0 \<le> n") (simp_all add: dec_digits_less_10_18)
  then show ?thesis
    using factorial_digit_loop_eq [of 0 n]
    by (simp add: get_factorial_digit_sum_def FactorialDigit_init_eq del: map_upt_Suc)
qed

lemma get_largest_permu_factorial_eq:
  assumes "0 \<le> n" "n < 10 ^ 18"
  shows "get_largest_permu_factorial n =
    num_of 10 (map (\<lambda>i. if i = 0 then 1 else i) (sort (dec_digits n)))" (is "_ = num_of 10 ?ds")
proof -
  have "digits_ok 10 ?ds"
    using digits_ok_base_digits [of 10 n] by (auto simp: digits_ok_def)
  then have "fold (append_digit i64) (rev ?ds) 0 = num_of 10 ?ds"
    using dec_digits_less_10_18 [OF assms] by (subst fold_append_digit_i64) auto
  then show ?thesis
    by (simp add: get_largest_permu_factorial_def push_digits_eq rev_map fold_map comp_def
        if_distrib cong: if_cong)
qed

text \<open>\<open>get_largest_permu_factorial\<close> is a sound cache key for
  \<open>FactorialDigit::get_factorial_digit_sum\<close>: replacing the zeros by ones and sorting the digits
  changes nothing in the sum of digit factorials, and that sum is computed without overflow.\<close>

theorem factorial_key_same_sum:
  assumes "0 \<le> n" "n < 10 ^ 18"
  shows "get_factorial_digit_sum FactorialDigit_init (get_largest_permu_factorial n) =
      get_factorial_digit_sum FactorialDigit_init n \<and>
    get_factorial_digit_sum FactorialDigit_init n = digit_factorial_sum n"
proof -
  let ?f = "\<lambda>i::int. if i = 0 then 1 else i"
  let ?ds = "map ?f (sort (dec_digits n))" and ?m = "get_largest_permu_factorial n"
  have ok: "digits_ok 10 ?ds" using digits_ok_base_digits [of 10 n] by (auto simp: digits_ok_def)
  have "?ds = [] \<or> last ?ds \<noteq> 0" by (auto simp: last_map split: if_splits)
  with ok have dm: "dec_digits ?m = ?ds"
    by (simp add: get_largest_permu_factorial_eq [OF assms] dec_digits_snoc)
  have "num_of 10 ?ds < 10 ^ length ?ds" using ok by (intro num_of_less) auto
  also have "\<dots> \<le> 10 ^ 18"
    using dec_digits_less_10_18 [OF assms] by (intro power_increasing) auto
  finally have "?m < 10 ^ 18" by (simp add: get_largest_permu_factorial_eq [OF assms])
  moreover have "digit_factorial_sum ?m = digit_factorial_sum n"
  proof -
    have "digit_factorial_sum ?m = (\<Sum>d \<leftarrow> sort (dec_digits n). fact (nat d))"
      unfolding digit_factorial_sum_def dm map_map by (rule arg_cong [where f = sum_list]) auto
    also have "\<dots> = digit_factorial_sum n"
      unfolding digit_factorial_sum_def
      by (simp only: sum_mset_sum_list [symmetric] mset_map mset_sort)
    finally show ?thesis .
  qed
  ultimately show ?thesis
    using assms(2) by (simp_all add: get_factorial_digit_sum_eq)
qed

lemma factorial_key_same_sum_witness:
  "get_factorial_digit_sum FactorialDigit_init (get_largest_permu_factorial 870) =
      get_factorial_digit_sum FactorialDigit_init 870 \<and>
    get_factorial_digit_sum FactorialDigit_init 870 = digit_factorial_sum 870"
  using factorial_key_same_sum [of 870] by simp

subsection \<open>Counting digits and base conversion\<close>

lemma count_digit_loop_eq:
  assumes "length cnt = 10"
  shows "\<forall>d < 10. 0 \<le> cnt ! d \<and> cnt ! d + int (length (dec_digits x)) < 2147483648 \<Longrightarrow>
    \<forall>d < 10. count_digit_loop cnt x ! d = cnt ! d + int (count_list (dec_digits x) (int d))"
  using assms
proof (induction cnt x rule: count_digit_loop.induct)
  case (1 cnt x)
  show ?case
  proof (cases "x > 0")
    case True
    let ?i = "nat (x mod 10)"
    let ?c = "cnt[?i := cnt ! ?i + 1]"
    have i: "?i < 10" by auto
    have len: "length (dec_digits x) = Suc (length (dec_digits (x div 10)))"
      using True by (simp add: base_digits_pos)
    have bound: "0 \<le> cnt ! d" "cnt ! d + int (length (dec_digits x)) < 2147483648"
      if "d < 10" for d using "1.prems"(1) that by auto
    have "i32 (cnt ! ?i + 1) = cnt ! ?i + 1"
      using bound [OF i] len by (intro i32_id) linarith+
    then have cnt: "cnt[nat (x smod 10) := i32 (cnt ! nat (x smod 10) + 1)] = ?c"
      "x sdiv 10 = x div 10"
      using True by simp_all
    have step: "count_digit_loop cnt x = count_digit_loop ?c (x div 10)"
      using True by (subst count_digit_loop.simps) (simp only: cnt if_True)
    have "0 \<le> ?c ! d \<and> ?c ! d + int (length (dec_digits (x div 10))) < 2147483648"
      if "d < 10" for d
      using bound [OF that] bound [OF i] len "1.prems"(2) i
      by (cases "d = ?i") (simp_all del: nat_less_iff)
    then have "\<forall>d < 10. count_digit_loop ?c (x div 10) ! d =
        ?c ! d + int (count_list (dec_digits (x div 10)) (int d))"
      using "1.prems"(2) by (intro "1.IH" [unfolded cnt, OF True] allI impI) (simp_all only: length_list_update)
    then have count: "count_digit_loop cnt x ! d =
        ?c ! d + int (count_list (dec_digits (x div 10)) (int d))" if "d < 10" for d
      using that by (simp only: step)
    show ?thesis
    proof (intro allI impI)
      fix d :: nat assume "d < 10"
      then have d: "count_digit_loop cnt x ! d =
          ?c ! d + int (count_list (dec_digits (x div 10)) (int d))" by (rule count)
      have "x mod 10 = int d \<longleftrightarrow> d = ?i" by auto
      then have "int (count_list (dec_digits x) (int d)) =
          int (count_list (dec_digits (x div 10)) (int d)) + (if d = ?i then 1 else 0)"
        using True by (simp only: base_digits_pos count_list.simps) simp
      moreover have "?c ! d = cnt ! d + (if d = ?i then 1 else 0)"
        using i "1.prems"(2) by (cases "d = ?i") (simp_all only: nth_list_update_eq
            nth_list_update_neq if_True if_False refl add_0_right)
      ultimately show "count_digit_loop cnt x ! d =
          cnt ! d + int (count_list (dec_digits x) (int d))"
        unfolding d by linarith
    qed
  qed (simp add: count_digit_loop.simps)
qed

lemma count_digit_eq:
  assumes "x < 10 ^ 18" "d < 10"
  shows "count_digit x ! d = int (count_list (dec_digits x) (int d))"
proof -
  have "length (dec_digits x) \<le> 18"
    using assms by (cases "0 \<le> x") (simp_all add: dec_digits_less_10_18)
  then show ?thesis
    using count_digit_loop_eq [of "replicate 10 0" x] assms(2) by (simp add: count_digit_def)
qed

text \<open>The conversion emits the least significant digit first.\<close>

definition base_chars :: "int list \<Rightarrow> string" where
  "base_chars ds = map (\<lambda>d. char_of (nat (48 + d))) ds"

lemma base_conversion_loop_eq:
  "2 \<le> b \<Longrightarrow> b \<le> 80 \<Longrightarrow> base_conversion_loop s n b = Some (s @ base_chars (base_digits b n))"
proof (induction b n arbitrary: s rule: base_digits.induct)
  case (1 b n)
  show ?case
  proof (cases "0 < n")
    case True
    have "0 \<le> n mod b" "n mod b < b" using "1.prems" by simp_all
    then have "i8 (n mod b + 48) = n mod b + 48" using "1.prems" by (intro i8_id) linarith+
    with True 1 show ?thesis
      by (subst base_conversion_loop.simps) (simp add: base_digits_pos base_chars_def add.commute)
  qed (simp add: base_conversion_loop.simps base_chars_def)
qed

text \<open>\<open>base_conversion\<close> returns for every base from 2 to 80, with the characters
  \<open>'0' + digit\<close> of the base-\<open>b\<close> digits in little-endian order: least significant first, the
  empty string for 0. The written numeral is the reverse of the result.\<close>

theorem base_conversion_little_endian:
  assumes "0 \<le> n" "2 \<le> b" "b \<le> 80"
  shows "base_conversion n b = Some (base_chars (base_digits b n)) \<and>
    num_of b (base_digits b n) = n \<and> (base_conversion n b = Some '''' \<longleftrightarrow> n = 0)"
  using assms
  by (auto simp: base_conversion_def base_conversion_loop_eq num_of_base_digits base_chars_def
      base_digits_Nil_iff)

lemma base_conversion_little_endian_witness:
  "base_conversion 6 2 = Some ''011'' \<and> num_of 2 (base_digits 2 6) = 6"
proof -
  have "base_digits 2 6 = [0, 1, 1]" by (simp add: base_digits.simps)
  then show ?thesis
    using base_conversion_little_endian [of 6 2] by (simp add: base_chars_def) code_simp
qed

subsection \<open>Palindromic ranges\<close>

lemma palindrome_loop_eq:
  "frst < lst \<Longrightarrow> lst \<le> length xs \<Longrightarrow>
   palindrome_loop xs frst lst = Some (\<forall>i < lst - frst. xs ! (frst + i) = xs ! (lst - 1 - i))"
proof (induction xs frst lst rule: palindrome_loop.induct)
  case (1 xs frst lst)
  have ends: "(\<forall>i < lst - frst. P i) \<longleftrightarrow>
      P 0 \<and> P (lst - frst - 1) \<and> (\<forall>i < lst - 1 - (frst + 1). P (i + 1))" for P
  proof (intro iffI conjI allI impI)
    fix i assume all: "P 0 \<and> P (lst - frst - 1) \<and> (\<forall>i < lst - 1 - (frst + 1). P (i + 1))"
      and i: "i < lst - frst"
    then consider "i = 0" | "i = lst - frst - 1" | "0 < i" "i - 1 < lst - 1 - (frst + 1)"
      by linarith
    then show "P i" using all by cases auto
  qed (use "1.prems" in auto)
  show ?case
  proof (cases "frst + 1 < lst - 1 \<and> xs ! frst = xs ! (lst - 1)")
    case True
    then have "palindrome_loop xs frst lst = palindrome_loop xs (frst + 1) (lst - 1)"
      using "1.prems" by (subst palindrome_loop.simps) (auto simp: Let_def)
    also have "\<dots> = Some (\<forall>i < lst - 1 - (frst + 1).
        xs ! (frst + 1 + i) = xs ! (lst - 1 - 1 - i))"
      using "1.IH" True "1.prems" by (auto simp: Let_def)
    also have "(\<forall>i < lst - 1 - (frst + 1). xs ! (frst + 1 + i) = xs ! (lst - 1 - 1 - i)) \<longleftrightarrow>
        (\<forall>i < lst - frst. xs ! (frst + i) = xs ! (lst - 1 - i))"
      using True "1.prems" by (subst ends) (auto simp: add.commute)
    finally show ?thesis .
  next
    case False
    then show ?thesis using "1.prems"
      by (subst palindrome_loop.simps, subst ends) (auto simp: Let_def)
  qed
qed

lemma isPalindrome_range_eq:
  assumes "xs \<noteq> []"
  shows "isPalindrome_range xs = Some (rev xs = xs)"
proof -
  have "(rev xs = xs) \<longleftrightarrow> (\<forall>i < length xs. xs ! i = xs ! (length xs - 1 - i))"
    unfolding list_eq_iff_nth_eq length_rev
    by (metis Suc_eq_plus1 diff_diff_left plus_1_eq_Suc rev_nth)
  moreover have "isPalindrome_range xs =
      Some (\<forall>i < length xs - 0. xs ! (0 + i) = xs ! (length xs - 1 - i))"
    unfolding isPalindrome_range_def using assms by (intro palindrome_loop_eq) auto
  ultimately show ?thesis by (simp only: diff_zero add_0)
qed

end
