(* ===== verification/LargeInt.thy ===== *)
theory LargeInt
  imports DigitVector
begin

section \<open>The class LargeInt (library/large\_int.h)\<close>

text \<open>
  Unsigned numbers of any size, as vectors of base 1000000000 digits, least significant
  first. Addition, subtraction, schoolbook multiplication and Karatsuba's multiplication
  (\<open>multiply_fast\<close>) compute on the number the vector stands for, no \<open>assert\<close> of the
  code fails and no \<open>int\<close> or \<open>long long\<close> step overflows.
\<close>

subsection \<open>The model\<close>

record large_int =
  li :: "int list"

definition scale :: int where
  "scale = 1000000000"

definition LargeInt :: "int \<Rightarrow> large_int option" where
  "LargeInt n = do { v \<leftarrow> large_int_fill i32 i32 [] n scale; Some \<lparr>li = v\<rparr> }"

text \<open>\<open>operator+=\<close> also changes its argument: the shorter vector is padded with zeros.\<close>

definition plus_assign :: "large_int \<Rightarrow> large_int \<Rightarrow> (large_int \<times> large_int) option" where
  "plus_assign this rhs = do {
     (v, r) \<leftarrow> sum_vec i32 (li this) (li rhs) scale;
     Some (this\<lparr>li := v\<rparr>, rhs\<lparr>li := r\<rparr>)
   }"

definition large_plus :: "large_int \<Rightarrow> large_int \<Rightarrow> large_int option" where
  "large_plus lhs rhs = do { (lhs', _) \<leftarrow> plus_assign lhs rhs; Some lhs' }"

text \<open>The digit and the borrow of one step of \<open>operator-=\<close>.\<close>

definition borrow_digit :: "int \<Rightarrow> int \<times> int" where
  "borrow_digit s = (if s < 0 then (i32 (s + scale), 1) else (s, 0))"

fun minus_loop :: "int \<Rightarrow> int list \<Rightarrow> int list \<Rightarrow> int list \<times> int" where
  "minus_loop borrow (c1 # c1s) (c2 # c2s) =
     (let (d, b) = borrow_digit (i32 (i32 (c2 - c1) - borrow));
          (ds, b') = minus_loop b c1s c2s
      in (d # ds, b'))"
| "minus_loop borrow c1s c2s = (c2s, borrow)"

fun borrow_loop :: "int \<Rightarrow> int list \<Rightarrow> int list \<times> int" where
  "borrow_loop borrow [] = ([], borrow)"
| "borrow_loop borrow (c1 # c1s) =
     (let (d, b) = borrow_digit (i32 (c1 - borrow));
          (ds, b') = borrow_loop b c1s
      in (d # ds, b'))"

text \<open>The two \<open>assert\<close>s of \<open>operator-=\<close> are the two ways to \<open>None\<close>.\<close>

definition minus_assign :: "large_int \<Rightarrow> large_int \<Rightarrow> large_int option" where
  "minus_assign this rhs =
     (let short_size = length (li rhs) in
      if length (li this) < short_size then None
      else
        let (low, borrow) = minus_loop 0 (li rhs) (take short_size (li this));
            (high, borrow') =
              (if borrow \<noteq> 0 \<and> length (li this) > short_size
               then borrow_loop borrow (drop short_size (li this))
               else (drop short_size (li this), borrow))
        in if borrow' = 0 then Some (this\<lparr>li := low @ high\<rparr>) else None)"

text \<open>\<open>trim0\<close> keeps at least one digit; on an empty vector it would step past the end.\<close>

definition trim0 :: "large_int \<Rightarrow> large_int option" where
  "trim0 this =
     (let n = length (dropWhile (\<lambda>d. d = 0) (rev (li this)));
          last = (if n = 0 then n + 1 else n)
      in if length (li this) < last then None
         else Some (this\<lparr>li := take last (li this)\<rparr>))"

definition digit_char :: "int \<Rightarrow> char" where
  "digit_char c = char_of (nat (c + 48))"

definition get_str :: "int list \<Rightarrow> string" where
  "get_str ds =
     (let start = dropWhile (\<lambda>d. d = 0) ds
      in if start = [] then ''0'' else map digit_char start)"

definition get :: "large_int \<Rightarrow> string option" where
  "get this =
     (if li this = [] then Some ''''
      else if scale = 10 then Some (get_str (rev (li this)))
      else do { char_scale \<leftarrow> scale_down (li this) 9; Some (get_str (rev char_scale)) })"

text \<open>
  Schoolbook multiplication, \<open>multiply(ans, temp_copy, lhs, rhs)\<close>: one line per digit of
  the right operand, shifted by \<open>power\<close> zeros and added to \<open>ans\<close>; the longer of the two
  vectors becomes \<open>ans\<close> before the addition.
\<close>

fun multiply_lines ::
  "nat \<Rightarrow> large_int \<Rightarrow> int list \<Rightarrow> int list \<Rightarrow> large_int option" where
  "multiply_lines pw ans lhs [] = Some ans"
| "multiply_lines pw ans lhs (y # ys) =
     (if y > 0 then do {
        temp \<leftarrow> large_int_multiply i32 (replicate pw 0 @ lhs) y scale;
        (let (a, t) = (if length (li ans) < length temp
                       then (temp, li ans) else (li ans, temp))
         in do {
           (ans', _) \<leftarrow> plus_assign \<lparr>li = a\<rparr> \<lparr>li = t\<rparr>;
           multiply_lines (pw + 1) ans' lhs ys
         })
      }
      else multiply_lines (pw + 1) ans lhs ys)"

definition multiply :: "int list \<Rightarrow> int list \<Rightarrow> large_int option" where
  "multiply lhs rhs = multiply_lines 0 \<lparr>li = [0]\<rparr> lhs rhs"

definition multiply1 :: "int list \<Rightarrow> int list \<Rightarrow> large_int option" where
  "multiply1 lhs rhs = multiply lhs rhs"

definition large_times :: "large_int \<Rightarrow> large_int \<Rightarrow> large_int option" where
  "large_times lhs rhs = multiply1 (li lhs) (li rhs)"

text \<open>\<open>add\<close> of two ranges; with a shorter left range nothing is added.\<close>

definition add :: "int list \<Rightarrow> int list \<Rightarrow> large_int option" where
  "add lhs rhs =
     (let left_size = length lhs; right_size = length rhs in do {
        (ds, carry) \<leftarrow>
          (if left_size < right_size then Some (resize right_size 0 lhs, 0)
           else sum_int i32 lhs (if left_size > right_size then resize left_size 0 rhs else rhs)
                  0 scale);
        v \<leftarrow> (if carry \<noteq> 0 then large_int_fill i32 i64 ds carry scale else Some ds);
        Some \<lparr>li = v\<rparr>
      })"

definition pad_pair :: "int list \<Rightarrow> int list \<Rightarrow> int list \<times> int list" where
  "pad_pair lhs rhs =
     (if length lhs < length rhs then (lhs @ replicate (length rhs - length lhs) 0, rhs)
      else if length lhs > length rhs then (lhs, rhs @ replicate (length lhs - length rhs) 0)
      else (lhs, rhs))"

text \<open>
  \<open>multiply_fast\<close> on two ranges of equal length; \<open>assert\<close> fails otherwise. The recursive call
  for the middle term goes through the overload that pads its arguments (\<open>pad_pair\<close>).
\<close>

partial_function (option) multiply_fast :: "int list \<Rightarrow> int list \<Rightarrow> large_int option" where
  "multiply_fast lhs rhs =
     (if length lhs \<noteq> length rhs then None
      else if length lhs < 10 then multiply1 lhs rhs
      else
        let right_half = length rhs div 2;
            left_half = length rhs - right_half
        in do {
          XrYr \<leftarrow> multiply_fast (drop left_half lhs) (drop left_half rhs);
          XlYl \<leftarrow> multiply_fast (take left_half lhs) (take left_half rhs);
          s1 \<leftarrow> plus_assign \<lparr>li = replicate (2 * left_half) 0 @ li XrYr\<rparr> XlYl;
          XlXr \<leftarrow> add (take left_half lhs) (drop left_half lhs);
          YlYr \<leftarrow> add (take left_half rhs) (drop left_half rhs);
          mid_part \<leftarrow> multiply_fast (fst (pad_pair (li XlXr) (li YlYr)))
                                   (snd (pad_pair (li XlXr) (li YlYr)));
          XlYl' \<leftarrow> trim0 (snd s1);
          XrYr' \<leftarrow> trim0 XrYr;
          mid1 \<leftarrow> minus_assign mid_part XlYl';
          mid2 \<leftarrow> minus_assign mid1 XrYr';
          mid3 \<leftarrow> trim0 mid2;
          s2 \<leftarrow> plus_assign (fst s1) (XrYr'\<lparr>li := replicate left_half 0 @ li mid3\<rparr>);
          Some (fst s2)
        })"

definition multiply_fast_padded :: "large_int \<Rightarrow> large_int \<Rightarrow> large_int option" where
  "multiply_fast_padded lhs rhs =
     (let (l, r) = pad_pair (li lhs) (li rhs) in multiply_fast l r)"

subsection \<open>Well-formed numbers and their value\<close>

definition valid :: "large_int \<Rightarrow> bool" where
  "valid x \<longleftrightarrow> li x \<noteq> [] \<and> digits_ok scale (li x)"

definition val :: "large_int \<Rightarrow> int" where
  "val x = num_of scale (li x)"

interpretation sc: digit_base i32 scale
  by unfold_locales (auto simp: scale_def)

lemma val_nonneg: "valid x \<Longrightarrow> 0 \<le> val x"
  by (simp add: val_def valid_def num_of_nonneg)

lemma LargeInt_correct:
  assumes "-2147483648 < n" "n < 2147483648"
  obtains x where "LargeInt n = Some x" "valid x" "val x = \<bar>n\<bar>" "canonical (li x)"
proof -
  have abs: "(if n < 0 then i32 (- n) else n) = \<bar>n\<bar>" using assms by simp
  obtain ds where "large_int_fill i32 i32 [] n scale = Some ds" "digits_ok scale ds"
    "num_of scale ds = \<bar>n\<bar>" "canonical ds"
    using sc.fill_loop [of "\<bar>n\<bar>" "[]"] unfolding large_int_fill_def abs by auto
  then show ?thesis
    by (intro that [of "\<lparr>li = ds\<rparr>"]) (auto simp: LargeInt_def valid_def val_def canonical_def)
qed

lemma plus_assign_correct:
  assumes "digits_ok scale (li x)" "digits_ok scale (li y)"
  obtains z y' where "plus_assign x y = Some (z, y')" "digits_ok scale (li z)"
    "val z = val x + val y" "digits_ok scale (li y')" "val y' = val y"
    "li y' = li y @ replicate (length (li x) - length (li y)) 0"
    "max (length (li x)) (length (li y)) \<le> length (li z)"
proof -
  obtain r where "sum_vec i32 (li x) (li y) scale =
      Some (r, li y @ replicate (length (li x) - length (li y)) 0)"
    "digits_ok scale r" "num_of scale r = num_of scale (li x) + num_of scale (li y)"
    "max (length (li x)) (length (li y)) \<le> length r"
    using sc.sum_vec_correct [OF assms] by blast
  then show ?thesis
    using assms
    by (intro that [of "x\<lparr>li := r\<rparr>"
          "y\<lparr>li := li y @ replicate (length (li x) - length (li y)) 0\<rparr>"])
      (auto simp: plus_assign_def val_def)
qed

subsection \<open>Subtraction and trimming\<close>

lemma borrow_digit_correct:
  assumes "- scale \<le> s" "s < scale"
  obtains d b where "borrow_digit s = (d, b)" "0 \<le> d" "d < scale" "b = 0 \<or> b = 1"
    "d - scale * b = s"
proof (cases "s < 0")
  case True
  then have "i32 (s + scale) = s + scale" using assms by (simp add: scale_def)
  with True assms show ?thesis by (intro that [of "s + scale" 1]) (auto simp: borrow_digit_def)
next
  case False
  with assms show ?thesis by (intro that [of s 0]) (auto simp: borrow_digit_def)
qed

lemma minus_loop_correct:
  "length c1s = length c2s \<Longrightarrow> digits_ok scale c1s \<Longrightarrow> digits_ok scale c2s \<Longrightarrow>
   borrow = 0 \<or> borrow = 1 \<Longrightarrow>
   (case minus_loop borrow c1s c2s of (ds, b) \<Rightarrow>
     digits_ok scale ds \<and> length ds = length c2s \<and> (b = 0 \<or> b = 1) \<and>
     num_of scale ds - scale ^ length c2s * b = num_of scale c2s - num_of scale c1s - borrow)"
proof (induction borrow c1s c2s rule: minus_loop.induct)
  case (1 borrow c1 c1s c2 c2s)
  let ?s = "c2 - c1 - borrow"
  have s: "i32 (i32 (c2 - c1) - borrow) = ?s" "- scale \<le> ?s" "?s < scale"
    using "1.prems"(2-4) by (auto simp: scale_def)
  obtain d b where db: "borrow_digit (i32 (i32 (c2 - c1) - borrow)) = (d, b)"
    "0 \<le> d" "d < scale" "b = 0 \<or> b = 1" "d - scale * b = ?s"
    using borrow_digit_correct [OF s(2,3)] s(1) by auto
  obtain ds b' where IH: "minus_loop b c1s c2s = (ds, b')" "digits_ok scale ds"
    "length ds = length c2s" "b' = 0 \<or> b' = 1"
    "num_of scale ds - scale ^ length c2s * b' = num_of scale c2s - num_of scale c1s - b"
    using "1.IH" [OF db(1) [symmetric]] "1.prems" db by (auto split: prod.splits)
  have "scale * (num_of scale ds - scale ^ length c2s * b') =
      scale * (num_of scale c2s - num_of scale c1s - b)" using IH(5) by simp
  with db IH show ?case by (auto simp: algebra_simps)
qed auto

lemma borrow_loop_correct:
  "digits_ok scale cs \<Longrightarrow> borrow = 0 \<or> borrow = 1 \<Longrightarrow>
   (case borrow_loop borrow cs of (ds, b) \<Rightarrow>
     digits_ok scale ds \<and> length ds = length cs \<and> (b = 0 \<or> b = 1) \<and>
     num_of scale ds - scale ^ length cs * b = num_of scale cs - borrow)"
proof (induction borrow cs rule: borrow_loop.induct)
  case (2 borrow c cs)
  have s: "i32 (c - borrow) = c - borrow" "- scale \<le> c - borrow" "c - borrow < scale"
    using "2.prems" by (auto simp: scale_def)
  obtain d b where db: "borrow_digit (i32 (c - borrow)) = (d, b)"
    "0 \<le> d" "d < scale" "b = 0 \<or> b = 1" "d - scale * b = c - borrow"
    using borrow_digit_correct [OF s(2,3)] s(1) by auto
  obtain ds b' where IH: "borrow_loop b cs = (ds, b')" "digits_ok scale ds"
    "length ds = length cs" "b' = 0 \<or> b' = 1"
    "num_of scale ds - scale ^ length cs * b' = num_of scale cs - b"
    using "2.IH" [OF db(1) [symmetric]] "2.prems" db by (auto split: prod.splits)
  have "scale * (num_of scale ds - scale ^ length cs * b') = scale * (num_of scale cs - b)"
    using IH(5) by simp
  with db IH show ?case by (auto simp: algebra_simps)
qed auto

text \<open>The borrow that is left over tells which of two vectors of one length is the larger.\<close>

lemma borrow_sign:
  assumes "digits_ok scale ds" "b = 0 \<or> b = (1::int)"
    and "num_of scale ds - scale ^ length ds * b = v"
  shows "b = 0 \<longleftrightarrow> 0 \<le> v"
  using assms num_of_nonneg [of scale ds] num_of_less [of scale ds] by (auto simp: scale_def)

lemma minus_assign_correct:
  assumes x: "digits_ok scale (li x)" and y: "digits_ok scale (li y)"
    and len: "length (li y) \<le> length (li x)"
  shows "case minus_assign x y of
      None \<Rightarrow> val x < val y
    | Some z \<Rightarrow> digits_ok scale (li z) \<and> length (li z) = length (li x) \<and>
        val z = val x - val y \<and> val y \<le> val x"
proof -
  let ?n = "length (li y)"
  let ?lo = "take ?n (li x)" and ?hi = "drop ?n (li x)"
  have split: "val x = num_of scale ?lo + scale ^ ?n * num_of scale ?hi"
    using len num_of_append [of scale ?lo ?hi] by (simp add: val_def)
  obtain low b where lo: "minus_loop 0 (li y) ?lo = (low, b)" "digits_ok scale low"
    "length low = ?n" "b = 0 \<or> b = 1"
    "num_of scale low - scale ^ ?n * b = num_of scale ?lo - val y"
    using minus_loop_correct [of "li y" ?lo 0] assms by (auto simp: val_def split: prod.splits)
  obtain high b' where hi: "(if b \<noteq> 0 \<and> length (li x) > ?n then borrow_loop b ?hi else (?hi, b))
      = (high, b')" "digits_ok scale high" "length high = length ?hi" "b' = 0 \<or> b' = 1"
    "num_of scale high - scale ^ length ?hi * b' = num_of scale ?hi - b"
    using borrow_loop_correct [of ?hi b] x lo(4) len
    by (cases "b \<noteq> 0 \<and> length (li x) > ?n") (auto split: prod.splits)
  have "scale ^ ?n * (num_of scale high - scale ^ length ?hi * b') =
      scale ^ ?n * (num_of scale ?hi - b)" using hi(5) by simp
  then have total: "num_of scale (low @ high) - scale ^ length (low @ high) * b' = val x - val y"
    using lo split hi(3) by (simp add: num_of_append algebra_simps power_add)
  have sign: "b' = 0 \<longleftrightarrow> 0 \<le> val x - val y"
    using borrow_sign [OF _ hi(4) total] lo hi by simp
  show ?thesis
    using len lo hi sign total by (auto simp: minus_assign_def Let_def val_def)
qed

lemma trim_digits:
  fixes ds :: "int list"
  defines "t \<equiv> dropWhile (\<lambda>d. d = 0) (rev ds)"
  shows "ds = rev t @ replicate (length ds - length t) 0"
proof -
  let ?z = "takeWhile (\<lambda>d. d = 0) (rev ds)"
  have z: "replicate (length ?z) 0 = ?z"
    by (rule replicate_length_same) (auto dest: set_takeWhileD)
  have split: "rev ds = ?z @ t" by (simp add: t_def)
  then have "length ds = length ?z + length t" using length_append length_rev by metis
  then have len: "length ?z = length ds - length t" by simp
  have "ds = rev t @ rev ?z" using arg_cong [OF split, of rev] by simp
  also have "rev ?z = replicate (length ds - length t) 0"
    by (metis z len rev_replicate)
  finally show ?thesis .
qed

lemma trim_last: "dropWhile (\<lambda>d. d = 0) (rev ds) \<noteq> [] \<Longrightarrow>
  last (rev (dropWhile (\<lambda>d. d = 0) (rev ds))) \<noteq> (0::int)"
  using hd_dropWhile [of "\<lambda>d. d = 0" "rev ds"] by (simp add: last_rev)

lemma trim0_correct:
  assumes "valid x"
  obtains z where "trim0 x = Some z" "valid z" "val z = val x" "canonical (li z)"
proof -
  define t where "t = dropWhile (\<lambda>d. d = 0) (rev (li x))"
  have eq: "li x = rev t @ replicate (length (li x) - length t) 0"
    unfolding t_def by (rule trim_digits)
  show ?thesis
  proof (cases "t = []")
    case True
    with eq have "li x = replicate (length (li x)) 0" by simp
    moreover have "0 < length (li x)" using assms by (simp add: valid_def)
    ultimately obtain n where n: "li x = replicate (Suc n) 0"
      by (metis gr0_implies_Suc)
    then have "take 1 (li x) = [0]" by simp
    with n True show ?thesis
      by (intro that [of "x\<lparr>li := [0]\<rparr>"])
        (simp_all add: trim0_def Let_def valid_def val_def canonical_def scale_def
          del: replicate.simps flip: t_def)
  next
    case False
    have le: "length t \<le> length (li x)" using arg_cong [OF eq, of length] by simp
    have tk: "take (length t) (li x) = rev t" by (subst eq) simp
    have "digits_ok scale (rev t)" using assms tk by (metis digits_ok_take valid_def)
    moreover have "num_of scale (rev t) = val x" using eq by (metis num_of_pad val_def)
    ultimately show ?thesis using False le tk trim_last [of "li x"]
      by (intro that [of "x\<lparr>li := rev t\<rparr>"])
        (auto simp: trim0_def Let_def valid_def val_def canonical_def simp flip: t_def)
  qed
qed

subsection \<open>Multiplication\<close>

lemma multiply_lines_correct:
  "valid ans \<Longrightarrow> digits_ok scale lhs \<Longrightarrow> digits_ok scale ys \<Longrightarrow>
   \<exists>z. multiply_lines pw ans lhs ys = Some z \<and> valid z \<and>
     val z = val ans + scale ^ pw * num_of scale lhs * num_of scale ys"
proof (induction ys arbitrary: pw ans)
  case (Cons y ys)
  show ?case
  proof (cases "y > 0")
    case True
    have y: "scale * y < 9223372036854775808" using Cons.prems by (simp add: scale_def)
    obtain t where t: "large_int_multiply i32 (replicate pw 0 @ lhs) y scale = Some t"
      "digits_ok scale t" "num_of scale t = scale ^ pw * num_of scale lhs * y"
      using sc.multiply_correct [OF _ _ y, of "replicate pw 0 @ lhs"] Cons.prems True
      by (auto simp: num_of_append)
    define a b where "a = (if length (li ans) < length t then t else li ans)"
      and "b = (if length (li ans) < length t then li ans else t)"
    have ab: "digits_ok scale a" "digits_ok scale b" "a \<noteq> []"
      "num_of scale a + num_of scale b = val ans + num_of scale t"
      using t Cons.prems by (auto simp: a_def b_def valid_def val_def)
    obtain z y' where z: "plus_assign \<lparr>li = a\<rparr> \<lparr>li = b\<rparr> = Some (z, y')" "digits_ok scale (li z)"
      "val z = val ans + num_of scale t" "length a \<le> length (li z)"
      by (rule plus_assign_correct [of "\<lparr>li = a\<rparr>" "\<lparr>li = b\<rparr>"])
        (use ab in \<open>auto simp: val_def\<close>)
    have "valid z" using z ab by (auto simp: valid_def)
    with Cons.IH [of z "pw + 1"] Cons.prems obtain r where
      "multiply_lines (pw + 1) z lhs ys = Some r" "valid r"
      "val r = val z + scale ^ (pw + 1) * num_of scale lhs * num_of scale ys" by auto
    with True t z show ?thesis
      by (auto simp: Let_def a_def b_def algebra_simps split: if_splits)
  next
    case False
    with Cons.prems have "y = 0" by simp
    with Cons.IH [of ans "pw + 1"] Cons.prems show ?thesis by (auto simp: algebra_simps)
  qed
qed simp

lemma multiply1_correct:
  assumes "digits_ok scale lhs" "digits_ok scale rhs"
  obtains z where "multiply1 lhs rhs = Some z" "valid z"
    "val z = num_of scale lhs * num_of scale rhs"
  using multiply_lines_correct [of "\<lparr>li = [0]\<rparr>" lhs rhs 0] assms that
  by (auto simp: multiply1_def multiply_def valid_def val_def)

lemma one_digit:
  assumes "digits_ok scale ds" "canonical ds" "num_of scale ds \<le> 1"
  shows "length ds \<le> 1"
  using canonical_length_le [of scale ds "[1]"] assms by (auto simp: scale_def)

lemma add_correct:
  assumes "digits_ok scale lhs" "digits_ok scale rhs" "length rhs \<le> length lhs"
  obtains z where "add lhs rhs = Some z" "digits_ok scale (li z)"
    "val z = num_of scale lhs + num_of scale rhs"
    "length lhs \<le> length (li z)" "length (li z) \<le> length lhs + 1"
proof -
  let ?r = "rhs @ replicate (length lhs - length rhs) 0"
  have r: "(if length lhs > length rhs then resize (length lhs) 0 rhs else rhs) = ?r"
    using assms(3) by (auto simp: resize_def)
  have "length lhs = length ?r" using assms(3) by simp
  then obtain ds c where s: "sum_int i32 lhs ?r 0 scale = Some (ds, c)" "digits_ok scale ds"
    "length ds = length lhs" "0 \<le> c" "c \<le> 1"
    "num_of scale ds + scale ^ length lhs * c = num_of scale lhs + num_of scale rhs"
    using sc.sum_loop [of lhs ?r 0] assms unfolding sum_int_def by auto
  show ?thesis
  proof (cases "c = 0")
    case True
    with s r assms(3) show ?thesis
      by (intro that [of "\<lparr>li = ds\<rparr>"]) (auto simp: add_def Let_def val_def)
  next
    case False
    with s obtain hi where hi: "large_int_fill i32 i64 ds c scale = Some (ds @ hi)"
      "digits_ok scale hi" "num_of scale hi = c" "canonical hi"
      using sc.fill [of c i64 ds] by auto
    with False s r assms(3) one_digit [of hi] show ?thesis
      by (intro that [of "\<lparr>li = ds @ hi\<rparr>"]) (auto simp: add_def Let_def val_def num_of_append)
  qed
qed

lemma pad_pair_correct:
  assumes "digits_ok scale x" "digits_ok scale y" "pad_pair x y = (a, b)"
  shows "digits_ok scale a" "digits_ok scale b" "length a = length b"
    "length a = max (length x) (length y)"
    "num_of scale a = num_of scale x" "num_of scale b = num_of scale y"
  using assms by (auto simp: pad_pair_def split: if_splits)

lemma minus_trimmed:
  assumes "digits_ok scale (li x)" "valid y" "canonical (li y)" "val y \<le> val x" "li x \<noteq> []"
  obtains z where "minus_assign x y = Some z" "digits_ok scale (li z)" "val z = val x - val y"
    "li z \<noteq> []"
proof -
  have "length (li y) \<le> length (li x)"
    using canonical_length_le [of scale "li y" "li x"] assms
    by (auto simp: valid_def val_def scale_def)
  with minus_assign_correct [of x y] assms that show ?thesis
    by (auto simp: valid_def split: option.splits) (metis length_greater_0_conv)
qed

text \<open>
  Karatsuba: with \<open>A\<close>, \<open>B\<close> the halves of one operand and \<open>C\<close>, \<open>D\<close> those of the other, the
  middle term is what is left of \<open>(A + B) (C + D)\<close> after the two outer products are
  subtracted, so both subtractions stay non-negative and the trimmed subtrahend is never the
  longer vector, as the \<open>assert\<close> of \<open>operator-=\<close> demands.
\<close>

lemma add_padded:
  assumes "digits_ok scale A" "digits_ok scale B" "digits_ok scale C" "digits_ok scale D"
    and "length A = h" "length C = h" "length B \<le> h" "length D \<le> h"
  obtains X Y where "add A B = Some X" "add C D = Some Y"
    "case pad_pair (li X) (li Y) of (a, b) \<Rightarrow> digits_ok scale a \<and> digits_ok scale b \<and>
       length a = length b \<and> length a \<le> h + 1 \<and>
       num_of scale a = num_of scale A + num_of scale B \<and>
       num_of scale b = num_of scale C + num_of scale D"
proof -
  obtain X where X: "add A B = Some X" "digits_ok scale (li X)"
    "val X = num_of scale A + num_of scale B" "length (li X) \<le> h + 1"
    by (rule add_correct [of A B]) (use assms in auto)
  obtain Y where Y: "add C D = Some Y" "digits_ok scale (li Y)"
    "val Y = num_of scale C + num_of scale D" "length (li Y) \<le> h + 1"
    by (rule add_correct [of C D]) (use assms in auto)
  show ?thesis
    using that [OF X(1) Y(1)] pad_pair_correct [OF X(2) Y(2)] X Y
    by (cases "pad_pair (li X) (li Y)") (simp add: val_def)
qed

lemma karatsuba_middle:
  assumes "valid m" "valid l" "valid r" "val m = val l + val r + v" "0 \<le> v"
  obtains l2 r2 m1 m2 m3 where "trim0 l = Some l2" "trim0 r = Some r2"
    "minus_assign m l2 = Some m1" "minus_assign m1 r2 = Some m2" "trim0 m2 = Some m3"
    "valid m3" "val m3 = v"
proof -
  obtain l2 where l2: "trim0 l = Some l2" "valid l2" "val l2 = val l" "canonical (li l2)"
    using trim0_correct [OF assms(2)] by metis
  obtain r2 where r2: "trim0 r = Some r2" "valid r2" "val r2 = val r" "canonical (li r2)"
    using trim0_correct [OF assms(3)] by metis
  note nn = val_nonneg [OF assms(2)] val_nonneg [OF assms(3)]
  obtain m1 where m1: "minus_assign m l2 = Some m1" "digits_ok scale (li m1)"
    "val m1 = val m - val l2" "li m1 \<noteq> []"
    by (rule minus_trimmed [of m l2]) (use assms l2 nn in \<open>auto simp: valid_def\<close>)
  obtain m2 where m2: "minus_assign m1 r2 = Some m2" "digits_ok scale (li m2)"
    "val m2 = v" "li m2 \<noteq> []"
    by (rule minus_trimmed [of m1 r2]) (use assms m1 l2 r2 in auto)
  obtain m3 where "trim0 m2 = Some m3" "valid m3" "val m3 = val m2"
    using trim0_correct [of m2] m2 by (metis valid_def)
  with l2 r2 m1 m2 that show ?thesis by simp
qed

lemma multiply_fast_correct:
  "digits_ok scale lhs \<Longrightarrow> digits_ok scale rhs \<Longrightarrow> length lhs = length rhs \<Longrightarrow>
   \<exists>z. multiply_fast lhs rhs = Some z \<and> valid z \<and>
     val z = num_of scale lhs * num_of scale rhs"
proof (induction "length lhs" arbitrary: lhs rhs rule: less_induct)
  case less
  show ?case
  proof (cases "length lhs < 10")
    case True
    with less.prems multiply1_correct [of lhs rhs] show ?thesis
      by (subst multiply_fast.simps) auto
  next
    case False
    define h where "h = length rhs - length rhs div 2"
    have h: "h < length lhs" "length lhs - h < length lhs" "h + 1 < length lhs"
      "length lhs - h \<le> h"
      using False less.prems(3) by (auto simp: h_def)
    let ?A = "take h lhs" and ?B = "drop h lhs" and ?C = "take h rhs" and ?D = "drop h rhs"
    let ?n = "num_of scale"
    have split: "?n lhs = ?n ?A + scale ^ h * ?n ?B" "?n rhs = ?n ?C + scale ^ h * ?n ?D"
      using h less.prems(3) num_of_append [of scale ?A ?B] num_of_append [of scale ?C ?D] by auto
    have nn: "0 \<le> ?n ?A * ?n ?D + ?n ?B * ?n ?C"
      using less.prems by (auto intro!: num_of_nonneg add_nonneg_nonneg mult_nonneg_nonneg simp: scale_def)
    obtain r where r: "multiply_fast ?B ?D = Some r" "valid r" "val r = ?n ?B * ?n ?D"
      using less.hyps [of ?B ?D] less.prems h by auto
    obtain l where l: "multiply_fast ?A ?C = Some l" "valid l" "val l = ?n ?A * ?n ?C"
      using less.hyps [of ?A ?C] less.prems h by auto
    obtain s1 l1 where s1: "plus_assign \<lparr>li = replicate (2 * h) 0 @ li r\<rparr> l = Some (s1, l1)"
      "digits_ok scale (li s1)" "val s1 = scale ^ (2 * h) * val r + val l"
      "valid l1" "val l1 = val l"
      by (rule plus_assign_correct [of "\<lparr>li = replicate (2 * h) 0 @ li r\<rparr>" l])
        (use r l in \<open>auto simp: val_def valid_def num_of_append\<close>)
    obtain X Y a b where XY: "add ?A ?B = Some X" "add ?C ?D = Some Y"
      "pad_pair (li X) (li Y) = (a, b)" "digits_ok scale a" "digits_ok scale b"
      "length a = length b" "length a < length lhs" "?n a = ?n ?A + ?n ?B" "?n b = ?n ?C + ?n ?D"
      by (rule add_padded [of ?A ?B ?C ?D h]) (use less.prems h in \<open>auto split: prod.splits\<close>)
    obtain m where m: "multiply_fast a b = Some m" "valid m" "val m = ?n a * ?n b"
      using less.hyps [OF XY(7,4,5,6)] by auto
    obtain l2 r2 m1 m2 m3 where mid: "trim0 l1 = Some l2" "trim0 r = Some r2"
      "minus_assign m l2 = Some m1" "minus_assign m1 r2 = Some m2" "trim0 m2 = Some m3"
      "valid m3" "val m3 = ?n ?A * ?n ?D + ?n ?B * ?n ?C"
      by (rule karatsuba_middle [OF m(2) s1(4) r(2) _ nn])
        (use m l r s1 XY in \<open>auto simp: algebra_simps\<close>)
    obtain z l3 where z: "plus_assign s1 (r2\<lparr>li := replicate h 0 @ li m3\<rparr>) = Some (z, l3)"
      "digits_ok scale (li z)" "val z = val s1 + scale ^ h * val m3"
      "length (li m3) \<le> length (li z)"
      by (rule plus_assign_correct [of s1 "r2\<lparr>li := replicate h 0 @ li m3\<rparr>"])
        (use s1 mid in \<open>auto simp: val_def valid_def num_of_append scale_def\<close>)
    have "scale ^ (2 * h) = scale ^ h * scale ^ h" by (simp add: mult_2 power_add)
    then have "val z = ?n lhs * ?n rhs"
      using z s1 mid r l unfolding split by (simp add: algebra_simps)
    with False less.prems(3) r l s1 XY m mid z show ?thesis
      by (subst multiply_fast.simps) (auto simp: Let_def valid_def simp flip: h_def)
  qed
qed

lemma multiply_fast_padded_correct:
  assumes "digits_ok scale (li x)" "digits_ok scale (li y)"
  obtains z where "multiply_fast_padded x y = Some z" "valid z" "val z = val x * val y"
proof -
  obtain a b where ab: "pad_pair (li x) (li y) = (a, b)" by fastforce
  note pad = pad_pair_correct [OF assms ab]
  from multiply_fast_correct [OF pad(1-3)] pad that ab show ?thesis
    by (auto simp: multiply_fast_padded_def val_def)
qed

subsection \<open>Decimal strings\<close>

definition parse_dec :: "string \<Rightarrow> int" where
  "parse_dec s = fold (\<lambda>c t. 10 * t + (of_char c - 48)) s 0"

definition is_dec :: "string \<Rightarrow> bool" where
  "is_dec s \<longleftrightarrow> s \<noteq> [] \<and> (length s = 1 \<or> hd s \<noteq> CHR ''0'') \<and>
     list_all (\<lambda>c. 48 \<le> (of_char c :: int) \<and> of_char c \<le> (57::int)) s"

lemma digit_char_value: "0 \<le> d \<Longrightarrow> d < 10 \<Longrightarrow> (of_char (digit_char d) :: int) = 48 + d"
proof -
  assume d: "0 \<le> d" "d < 10"
  then obtain n where n: "d = int n" "n < 10" by (metis nonneg_int_cases of_nat_less_numeral_iff)
  then have "nat (d + 48) = n + 48" by simp
  then have "(of_char (digit_char d) :: nat) = n + 48"
    using n(2) by (simp add: digit_char_def)
  then have "int (of_char (digit_char d)) = int (n + 48)" by simp
  with n(1) show ?thesis by (simp add: of_nat_of_char)
qed

lemma parse_dec_digits: "digits_ok 10 ds \<Longrightarrow> parse_dec (map digit_char ds) = num_of 10 (rev ds)"
proof (induction ds rule: rev_induct)
  case (snoc d ds)
  then show ?case by (simp add: parse_dec_def digit_char_value)
qed (simp add: parse_dec_def)

lemma is_dec_digits:
  assumes "digits_ok 10 ds" "ds \<noteq> []" "hd ds \<noteq> 0"
  shows "is_dec (map digit_char ds)"
proof -
  have "digit_char (hd ds) \<noteq> CHR ''0''"
    using assms digit_char_value [of "hd ds"] by (cases ds) auto
  with assms show ?thesis
    by (auto simp: is_dec_def hd_map list_all_iff digits_ok_def digit_char_value)
qed

lemma get_str_correct:
  assumes "digits_ok 10 ds"
  shows "is_dec (get_str (rev ds)) \<and> parse_dec (get_str (rev ds)) = num_of 10 ds"
proof -
  define t where "t = dropWhile (\<lambda>d. d = 0) (rev ds)"
  have eq: "ds = rev t @ replicate (length ds - length t) 0"
    unfolding t_def by (rule trim_digits)
  then have num: "num_of 10 ds = num_of 10 (rev t)" by (metis num_of_pad)
  show ?thesis
  proof (cases "t = []")
    case True
    with num show ?thesis by (simp add: get_str_def is_dec_def parse_dec_def flip: t_def)
  next
    case False
    have "digits_ok 10 t"
      using assms by (auto simp: t_def digits_ok_def dest: set_dropWhileD)
    moreover have "hd t \<noteq> 0"
      using False hd_dropWhile [of "\<lambda>d. d = 0" "rev ds"] by (simp add: t_def)
    ultimately show ?thesis
      using False num by (simp add: get_str_def is_dec_digits parse_dec_digits flip: t_def)
  qed
qed

lemma get_correct:
  assumes "valid x"
  obtains s where "get x = Some s" "is_dec s" "parse_dec s = val x"
proof -
  obtain cs where "scale_down (li x) 9 = Some cs" "digits_ok 10 cs"
    "num_of 10 cs = num_of 1000000000 (li x)"
    by (rule scale_down_correct [of "li x"]) (use assms in \<open>auto simp: valid_def scale_def\<close>)
  with get_str_correct [of cs] assms show ?thesis
    by (intro that [of "get_str (rev cs)"])
      (auto simp: get_def valid_def val_def scale_def)
qed

text \<open>The printed string depends on the number alone, not on leading zeros of the vector.\<close>

lemma get_str_cong:
  assumes "digits_ok 10 a" "digits_ok 10 b" "num_of 10 a = num_of 10 b"
  shows "get_str (rev a) = get_str (rev b)"
proof -
  let ?t = "\<lambda>ds. dropWhile (\<lambda>d. d = 0) (rev ds) :: int list"
  have num: "num_of 10 ds = num_of 10 (rev (?t ds))" for ds
    using trim_digits [of ds] by (metis num_of_pad)
  have ok: "digits_ok 10 (rev (?t ds))" if "digits_ok 10 ds" for ds
    using that by (auto simp: digits_ok_def dest: set_dropWhileD)
  have canon: "canonical (rev (?t ds))" if "?t ds \<noteq> []" for ds
    using that trim_last [OF that] by (simp add: canonical_def)
  have zero: "num_of 10 ds = 0 \<longleftrightarrow> ?t ds = []" if "digits_ok 10 ds" for ds
  proof
    assume n0: "num_of 10 ds = 0"
    show "?t ds = []"
    proof (rule ccontr)
      assume "?t ds \<noteq> []"
      then have "10 ^ (length (rev (?t ds)) - 1) \<le> num_of 10 (rev (?t ds))"
        by (intro num_of_ge_last ok that trim_last) simp_all
      moreover have "0 < (10::int) ^ (length (rev (?t ds)) - 1)" by simp
      ultimately show False using n0 num [of ds] by linarith
    qed
  next
    assume "?t ds = []"
    then show "num_of 10 ds = 0" using num [of ds] by (simp only: rev.simps(1) num_of.simps(1))
  qed
  show ?thesis
  proof (cases "?t a = []")
    case True
    with zero assms have "?t b = []" by metis
    with True show ?thesis by (simp add: get_str_def)
  next
    case False
    with zero assms have "?t b \<noteq> []" by metis
    with False have "rev (?t a) = rev (?t b)"
      using assms num ok canon by (intro canonical_inject [of 10]) auto
    then show ?thesis by (simp add: get_str_def)
  qed
qed

lemma get_cong:
  assumes "valid x" "valid y" "val x = val y"
  shows "get x = get y"
proof -
  obtain a where a: "scale_down (li x) 9 = Some a" "digits_ok 10 a"
    "num_of 10 a = num_of 1000000000 (li x)"
    by (rule scale_down_correct [of "li x"]) (use assms in \<open>auto simp: valid_def scale_def\<close>)
  obtain b where b: "scale_down (li y) 9 = Some b" "digits_ok 10 b"
    "num_of 10 b = num_of 1000000000 (li y)"
    by (rule scale_down_correct [of "li y"]) (use assms in \<open>auto simp: valid_def scale_def\<close>)
  from get_str_cong [OF a(2) b(2)] a b assms show ?thesis
    by (auto simp: get_def valid_def val_def scale_def)
qed

subsection \<open>Properties\<close>

text \<open>C2: Karatsuba's \<open>multiply_fast\<close> and the schoolbook \<open>operator*\<close> return, for all
  well-formed operands, the product, and both print the same decimal string: no \<open>assert\<close>
  fails (the borrow is always 0, the subtrahend never longer), nothing overflows, and the
  optimised routine is equivalent to the reference one.\<close>

theorem multiply_fast_equals_schoolbook:
  assumes "valid x" "valid y"
  shows "\<exists>z w. multiply_fast_padded x y = Some z \<and> large_times x y = Some w \<and>
    valid z \<and> valid w \<and> val z = val x * val y \<and> val w = val x * val y \<and> get z = get w"
proof -
  have ok: "digits_ok scale (li x)" "digits_ok scale (li y)" using assms by (auto simp: valid_def)
  obtain z where z: "multiply_fast_padded x y = Some z" "valid z" "val z = val x * val y"
    by (rule multiply_fast_padded_correct [OF ok])
  obtain w where w: "large_times x y = Some w" "valid w" "val w = val x * val y"
    by (rule multiply1_correct [OF ok]) (auto simp: large_times_def val_def)
  with z get_cong [of z w] show ?thesis by auto
qed

theorem multiply_fast_equals_schoolbook_witness:
  "\<exists>z w. multiply_fast_padded \<lparr>li = replicate 12 999999999\<rparr> \<lparr>li = [7, 0, 5]\<rparr> = Some z \<and>
     large_times \<lparr>li = replicate 12 999999999\<rparr> \<lparr>li = [7, 0, 5]\<rparr> = Some w \<and> get z = get w"
  using multiply_fast_equals_schoolbook
    [of "\<lparr>li = replicate 12 999999999\<rparr>" "\<lparr>li = [7, 0, 5]\<rparr>"]
  by (auto simp: valid_def scale_def digits_ok_def)

text \<open>C36: \<open>operator-=\<close> is exact subtraction, and its two \<open>assert\<close>s (length, final borrow)
  reject exactly the cases where the right operand is the larger number or its vector the
  longer one.\<close>

theorem minus_assign_exact:
  assumes "valid x" "valid y"
  shows "case minus_assign x y of
      Some z \<Rightarrow> length (li y) \<le> length (li x) \<and> val y \<le> val x \<and> valid z \<and>
        val z = val x - val y
    | None \<Rightarrow> length (li x) < length (li y) \<or> val x < val y"
proof (cases "length (li y) \<le> length (li x)")
  case True
  with minus_assign_correct [of x y] assms show ?thesis
    by (auto simp: valid_def split: option.splits)
next
  case False
  then show ?thesis by (simp add: minus_assign_def Let_def)
qed

theorem minus_assign_exact_witness:
  "\<exists>z. minus_assign \<lparr>li = [0, 0, 1]\<rparr> \<lparr>li = [1]\<rparr> = Some z \<and> val z = scale ^ 2 - 1"
  using minus_assign_exact [of "\<lparr>li = [0, 0, 1]\<rparr>" "\<lparr>li = [1]\<rparr>"]
  by (auto simp: valid_def val_def scale_def split: option.splits)

text \<open>C37: Printing what the constructor built gives the decimal digits of the number's
  absolute value, without leading zeros, for every \<open>int\<close> but the smallest (whose negation
  overflows).\<close>

theorem LargeInt_get_roundtrip:
  assumes "-2147483648 < n" "n < 2147483648"
  shows "\<exists>x s. LargeInt n = Some x \<and> get x = Some s \<and> is_dec s \<and> parse_dec s = \<bar>n\<bar>"
proof -
  obtain x where "LargeInt n = Some x" "valid x" "val x = \<bar>n\<bar>"
    by (rule LargeInt_correct [OF assms])
  then show ?thesis using get_correct [of x] by metis
qed

theorem LargeInt_get_roundtrip_witness:
  "\<exists>x s. LargeInt (-1234567890) = Some x \<and> get x = Some s \<and> is_dec s \<and>
     parse_dec s = 1234567890"
  using LargeInt_get_roundtrip [of "-1234567890"] by simp

text \<open>The range function \<open>add\<close> of \<open>multiply_fast\<close> drops its right operand when the left
  range is the shorter one: the sum is never formed in that branch. \<open>multiply_fast\<close> only
  calls it with a left range at least as long.\<close>

theorem add_shorter_left_drops_right:
  assumes "length lhs < length rhs"
  shows "\<exists>z. add lhs rhs = Some z \<and> val z = num_of scale lhs"
  using assms by (auto simp: add_def Let_def val_def resize_def)

theorem add_shorter_left_drops_right_witness:
  "\<exists>z. add [5] [0, 1] = Some z \<and> val z = 5"
  using add_shorter_left_drops_right [of "[5]" "[0, 1]"] by simp

end
