(* ===== verification/LargeIntBasic.thy ===== *)
theory LargeIntBasic
  imports MathDigits LargeInt
begin

section \<open>The class LargeIntBasic (library/large\_int\_basic\_cls.h)\<close>

text \<open>
  Unsigned numbers with one decimal digit per vector element, least significant first, with
  the reversal and palindrome operations of the Lychrel and palindrome problems. The class is
  ordered by \<open>operator<\<close>; the type here is an instance of \<open>linorder\<close> with that order.
\<close>

subsection \<open>The model\<close>

datatype large_int_basic = Large_Int_Basic (basic_li: "int list")

function basic_digits :: "int list \<Rightarrow> int \<Rightarrow> int list" where
  "basic_digits v n = (if n > 0 then basic_digits (v @ [i8 (n smod 10)]) (n sdiv 10) else v)"
  by pat_completeness auto
termination by (relation "measure (\<lambda>(v, n). nat n)") (auto simp: div_less_self_int)

declare basic_digits.simps [simp del]

text \<open>The constructor from an \<open>int\<close>: a negative number leaves the vector empty.\<close>

definition LargeIntBasic :: "int \<Rightarrow> large_int_basic" where
  "LargeIntBasic n = Large_Int_Basic (if n = 0 then [0] else basic_digits [] n)"

definition basic_plus :: "large_int_basic \<Rightarrow> large_int_basic \<Rightarrow> large_int_basic option" where
  "basic_plus lhs rhs = do {
     (v, _) \<leftarrow> sum_vec i8 (basic_li lhs) (basic_li rhs) 10;
     Some (Large_Int_Basic v)
   }"

text \<open>\<open>operator+=\<close> takes its argument by reference: it is padded to the length of the sum.\<close>

definition basic_plus_assign ::
  "large_int_basic \<Rightarrow> large_int_basic \<Rightarrow> (large_int_basic \<times> large_int_basic) option" where
  "basic_plus_assign this rhs = do {
     (v, r) \<leftarrow> sum_vec i8 (basic_li this) (basic_li rhs) 10;
     Some (Large_Int_Basic v, Large_Int_Basic r)
   }"

definition basic_get :: "large_int_basic \<Rightarrow> string" where
  "basic_get this =
     (if basic_li this = [] then ''''
      else
        let start = dropWhile (\<lambda>d. d = 0) (rev (basic_li this))
        in if start = [] then ''0'' else map (\<lambda>c. char_of (nat (i8 (c + 48)))) start)"

definition basic_swap ::
  "large_int_basic \<Rightarrow> large_int_basic \<Rightarrow> large_int_basic \<times> large_int_basic" where
  "basic_swap this rhs = (Large_Int_Basic (basic_li rhs), Large_Int_Basic (basic_li this))"

definition basic_trim0 :: "large_int_basic \<Rightarrow> large_int_basic option" where
  "basic_trim0 this =
     (let n = length (dropWhile (\<lambda>d. d = 0) (rev (basic_li this)));
          last = (if n = 0 then n + 1 else n)
      in if length (basic_li this) < last then None
         else Some (Large_Int_Basic (take last (basic_li this))))"

definition basic_reverse :: "large_int_basic \<Rightarrow> large_int_basic" where
  "basic_reverse this = Large_Int_Basic (rev (basic_li this))"

definition reverse_copy :: "large_int_basic \<Rightarrow> large_int_basic" where
  "reverse_copy this = (let copy = this in basic_reverse copy)"

definition is_palindrome :: "large_int_basic \<Rightarrow> bool option" where
  "is_palindrome this = isPalindrome_range (basic_li this)"

text \<open>The comparison of two vectors is the lexicographical one, element 0 first.\<close>

fun lexicographical_compare :: "int list \<Rightarrow> int list \<Rightarrow> bool" where
  "lexicographical_compare xs [] = False"
| "lexicographical_compare [] (y # ys) = True"
| "lexicographical_compare (x # xs) (y # ys) =
     (if x < y then True else if y < x then False else lexicographical_compare xs ys)"

definition basic_less :: "large_int_basic \<Rightarrow> large_int_basic \<Rightarrow> bool" where
  "basic_less lhs rhs =
     (if length (basic_li lhs) < length (basic_li rhs) then True
      else if length (basic_li lhs) > length (basic_li rhs) then False
      else lexicographical_compare (basic_li lhs) (basic_li rhs))"

definition basic_eq :: "large_int_basic \<Rightarrow> large_int_basic \<Rightarrow> bool" where
  "basic_eq lhs rhs \<longleftrightarrow> basic_li lhs = basic_li rhs"

subsection \<open>The order\<close>

lemma lex_irrefl: "\<not> lexicographical_compare xs xs"
  by (induction xs) auto

lemma lex_trans:
  "lexicographical_compare xs ys \<Longrightarrow> lexicographical_compare ys zs \<Longrightarrow> lexicographical_compare xs zs"
proof (induction xs ys arbitrary: zs rule: lexicographical_compare.induct)
  case (3 x xs y ys)
  then show ?case by (cases zs) (auto split: if_splits)
next
  case (2 y ys)
  then show ?case by (cases zs) auto
qed simp

lemma lex_total: "lexicographical_compare xs ys \<or> xs = ys \<or> lexicographical_compare ys xs"
proof (induction xs ys rule: lexicographical_compare.induct)
  case (1 xs)
  then show ?case by (cases xs) auto
qed auto

instantiation large_int_basic :: linorder
begin

definition less_large_int_basic :: "large_int_basic \<Rightarrow> large_int_basic \<Rightarrow> bool" where
  "less_large_int_basic a b = basic_less a b"

definition less_eq_large_int_basic :: "large_int_basic \<Rightarrow> large_int_basic \<Rightarrow> bool" where
  "less_eq_large_int_basic a b \<longleftrightarrow> basic_less a b \<or> basic_eq a b"

instance
proof
  fix x y z :: large_int_basic
  have asym: "\<not> (basic_less a b \<and> basic_less b a)" for a b
    using lex_trans lex_irrefl by (auto simp: basic_less_def split: if_splits)
  have trans: "basic_less a b \<Longrightarrow> basic_less b c \<Longrightarrow> basic_less a c" for a b c
    using lex_trans by (auto simp: basic_less_def split: if_splits)
  have eq: "basic_eq a b \<longleftrightarrow> a = b" for a b by (cases a; cases b) (simp add: basic_eq_def)
  have irrefl: "\<not> basic_less a a" for a by (simp add: basic_less_def lex_irrefl)
  show "(x < y) = (x \<le> y \<and> \<not> y \<le> x)"
    using asym irrefl by (auto simp: less_large_int_basic_def less_eq_large_int_basic_def eq)
  show "x \<le> x" by (simp add: less_eq_large_int_basic_def eq)
  show "x \<le> z" if "x \<le> y" "y \<le> z"
    using that trans by (auto simp: less_eq_large_int_basic_def eq)
  show "x = y" if "x \<le> y" "y \<le> x"
    using that asym by (auto simp: less_eq_large_int_basic_def eq)
  show "x \<le> y \<or> y \<le> x"
    using lex_total [of "basic_li x" "basic_li y"]
    by (cases x; cases y) (auto simp: less_eq_large_int_basic_def basic_less_def basic_eq_def)
qed

end

subsection \<open>Well-formed numbers\<close>

definition basic_valid :: "large_int_basic \<Rightarrow> bool" where
  "basic_valid x \<longleftrightarrow> digits_ok 10 (basic_li x) \<and> canonical (basic_li x)"

definition basic_val :: "large_int_basic \<Rightarrow> int" where
  "basic_val x = num_of 10 (basic_li x)"

lemma basic_digits_eq: "basic_digits v n = v @ dec_digits n"
proof -
  have "basic_digits v n = push_digits v n"
    by (induction v n rule: basic_digits.induct)
      (subst basic_digits.simps, subst push_digits.simps, simp)
  then show ?thesis by (simp add: push_digits_eq)
qed

lemma LargeIntBasic_correct:
  "0 \<le> n \<Longrightarrow> basic_valid (LargeIntBasic n) \<and> basic_val (LargeIntBasic n) = n"
  by (auto simp: LargeIntBasic_def basic_valid_def basic_val_def basic_digits_eq canonical_def
      digits_ok_base_digits num_of_base_digits base_digits_Nil_iff last_base_digits)

lemma lex_rev_num:
  "length xs = length ys \<Longrightarrow> digits_ok 10 xs \<Longrightarrow> digits_ok 10 ys \<Longrightarrow>
   lexicographical_compare xs ys \<longleftrightarrow> num_of 10 (rev xs) < num_of 10 (rev ys)"
proof (induction xs ys rule: lexicographical_compare.induct)
  case (3 x xs y ys)
  have range: "0 \<le> num_of 10 (rev zs)" "num_of 10 (rev zs) < 10 ^ length zs"
    if "digits_ok 10 zs" for zs :: "int list"
    using that num_of_nonneg [of 10 "rev zs"] num_of_less [of 10 "rev zs"] by simp_all
  have r: "0 \<le> num_of 10 (rev xs)" "num_of 10 (rev xs) < 10 ^ length ys"
    "0 \<le> num_of 10 (rev ys)" "num_of 10 (rev ys) < 10 ^ length ys"
    using range [of xs] range [of ys] "3.prems" by simp_all
  have step: "10 ^ length ys * a + 10 ^ length ys \<le> (10 ^ length ys * b :: int)" if "a < b" for a b
    using mult_left_mono [of "a + 1" b "10 ^ length ys"] that by (simp add: algebra_simps)
  consider "x < y" | "y < x" | "x = y" by linarith
  then show ?case
  proof cases
    case 1
    then show ?thesis using step [of x y] r "3.prems" by (simp add: num_of_snoc)
  next
    case 2
    then show ?thesis using step [of y x] r "3.prems" by (simp add: num_of_snoc)
  next
    case 3
    then show ?thesis using "3.IH" "3.prems" by (simp add: num_of_snoc)
  qed
qed simp_all

text \<open>\<open>operator<\<close> of \<open>LargeIntBasic\<close> is a linear order that agrees with the numbers for
  different lengths, but compares numbers of one length by their reversed digits: 21 is less than
  12. It can be used as the key order of a \<open>std::set\<close>; it is not the numeric order.\<close>

theorem LargeIntBasic_order:
  assumes "basic_valid x" "basic_valid y"
  shows "x < y \<longleftrightarrow>
    (if length (basic_li x) = length (basic_li y)
     then basic_val (reverse_copy x) < basic_val (reverse_copy y)
     else basic_val x < basic_val y)"
proof (cases "length (basic_li x) = length (basic_li y)")
  case True
  then show ?thesis
    using assms lex_rev_num [of "basic_li x" "basic_li y"]
    by (simp add: less_large_int_basic_def basic_less_def basic_valid_def basic_val_def
        reverse_copy_def basic_reverse_def Let_def)
next
  case False
  have le: "length (basic_li a) \<le> length (basic_li b)"
    if "basic_valid a" "basic_valid b" "basic_val a \<le> basic_val b" for a b
    using that canonical_length_le [of 10 "basic_li a" "basic_li b"]
    by (auto simp: basic_valid_def basic_val_def canonical_def)
  have "length (basic_li x) < length (basic_li y) \<longleftrightarrow> basic_val x < basic_val y"
    using le [of x y] le [of y x] assms False by linarith
  then show ?thesis
    using False by (auto simp: less_large_int_basic_def basic_less_def)
qed

lemma LargeIntBasic_order_witness:
  "LargeIntBasic 21 < LargeIntBasic 12 \<and> LargeIntBasic 12 < LargeIntBasic 100"
proof
  have li: "basic_li (LargeIntBasic 21) = [1, 2]" "basic_li (LargeIntBasic 12) = [2, 1]"
    "basic_li (LargeIntBasic 100) = [0, 0, 1]"
    by (simp_all add: LargeIntBasic_def basic_digits_eq base_digits.simps)
  show "LargeIntBasic 21 < LargeIntBasic 12"
    using LargeIntBasic_order [of "LargeIntBasic 21" "LargeIntBasic 12"]
      LargeIntBasic_correct [of 21] LargeIntBasic_correct [of 12]
    by (simp add: li basic_val_def reverse_copy_def basic_reverse_def)
  show "LargeIntBasic 12 < LargeIntBasic 100"
    using LargeIntBasic_order [of "LargeIntBasic 12" "LargeIntBasic 100"]
      LargeIntBasic_correct [of 12] LargeIntBasic_correct [of 100]
    by (simp add: li basic_val_def)
qed

subsection \<open>Sums, printing and palindromes\<close>

lemma basic_plus_correct:
  assumes "basic_valid x" "digits_ok 10 (basic_li y)" "length (basic_li y) \<le> length (basic_li x)"
  obtains z where "basic_plus x y = Some z" "basic_valid z" "basic_val z = basic_val x + basic_val y"
proof -
  obtain r where r: "sum_vec i8 (basic_li x) (basic_li y) 10 =
      Some (r, basic_li y @ replicate (length (basic_li x) - length (basic_li y)) 0)"
    "digits_ok 10 r" "num_of 10 r = basic_val x + basic_val y"
    "max (length (basic_li x)) (length (basic_li y)) \<le> length r"
    "length r = max (length (basic_li x)) (length (basic_li y)) \<or> last r \<noteq> 0"
    using char10.sum_vec_correct [of "basic_li x" "basic_li y"] assms
    unfolding basic_valid_def basic_val_def by blast
  have y: "0 \<le> basic_val y" using assms(2) by (simp add: basic_val_def num_of_nonneg)
  have ne: "r \<noteq> []" using r(4) assms(1) by (auto simp: basic_valid_def canonical_def)
  have "canonical r"
  proof (cases "length r = 1 \<or> last r \<noteq> 0")
    case False
    then have len: "length r = length (basic_li x)" using r(5) assms(3) by simp
    then have "last (basic_li x) \<noteq> 0"
      using assms(1) False by (auto simp: basic_valid_def canonical_def)
    then have "10 ^ (length r - 1) \<le> basic_val x"
      using num_of_ge_last [of 10 "basic_li x"] assms(1) len
      by (simp add: basic_valid_def basic_val_def canonical_def)
    then have "10 ^ (length r - 1) \<le> num_of 10 r" using r(3) y by linarith
    from last_nonzero_if_large [OF _ r(2) ne this] show ?thesis using ne by (simp add: canonical_def)
  qed (use ne in \<open>auto simp: canonical_def\<close>)
  then show ?thesis
    using r by (intro that [of "Large_Int_Basic r"])
      (auto simp: basic_plus_def basic_valid_def basic_val_def)
qed

lemma basic_get_eq:
  assumes "basic_valid x"
  shows "basic_get x = map digit_char (rev (basic_li x))"
proof -
  have ok: "digits_ok 10 (basic_li x)" and can: "canonical (basic_li x)"
    using assms by (auto simp: basic_valid_def)
  have chars: "map (\<lambda>c. char_of (nat (i8 (c + 48)))) (rev (basic_li x)) =
      map digit_char (rev (basic_li x))"
    using ok by (auto simp: digit_char_def digits_ok_def)
  show ?thesis
  proof (cases "last (basic_li x) = 0")
    case True
    then have "basic_li x = [0]" using can by (cases "basic_li x") (auto simp: canonical_def)
    then show ?thesis by (simp add: basic_get_def digit_char_def) code_simp
  next
    case False
    then have "dropWhile (\<lambda>d. d = 0) (rev (basic_li x)) = rev (basic_li x)"
      using can by (cases "basic_li x" rule: rev_cases) (auto simp: canonical_def)
    then show ?thesis using can chars by (simp add: basic_get_def canonical_def)
  qed
qed

lemma digit_char_inject:
  "0 \<le> c \<Longrightarrow> c < 10 \<Longrightarrow> 0 \<le> d \<Longrightarrow> d < 10 \<Longrightarrow> digit_char c = digit_char d \<Longrightarrow> c = d"
  by (metis add_left_cancel digit_char_value)

text \<open>Adding a number to its reversal (one step of the Lychrel process) is exact at any
  size: the sum has no leading zero, prints as the decimal numeral of the sum, and
  \<open>is_palindrome\<close> on the digit vector decides whether that numeral is a palindrome.\<close>

theorem reverse_and_add_exact:
  assumes "basic_valid x"
  shows "\<exists>z. basic_plus x (reverse_copy x) = Some z \<and> basic_valid z \<and>
    is_dec (basic_get z) \<and>
    parse_dec (basic_get z) = basic_val x + basic_val (reverse_copy x) \<and>
    is_palindrome z = Some (rev (basic_get z) = basic_get z)"
proof -
  obtain z where z: "basic_plus x (reverse_copy x) = Some z" "basic_valid z"
      "basic_val z = basic_val x + basic_val (reverse_copy x)"
    using basic_plus_correct [of x "reverse_copy x"] assms
    by (auto simp: basic_valid_def reverse_copy_def basic_reverse_def)
  let ?ds = "rev (basic_li z)"
  have ok: "digits_ok 10 ?ds" and can: "canonical (basic_li z)"
    using z(2) by (auto simp: basic_valid_def)
  have dec: "is_dec (basic_get z)"
  proof (cases "last (basic_li z) = 0")
    case True
    then have "basic_li z = [0]" using can by (cases "basic_li z") (auto simp: canonical_def)
    then show ?thesis unfolding basic_get_eq [OF z(2)] by (simp add: digit_char_def is_dec_def) code_simp
  next
    case False
    then show ?thesis unfolding basic_get_eq [OF z(2)]
      using ok can by (intro is_dec_digits) (auto simp: canonical_def hd_rev)
  qed
  have inj: "inj_on digit_char (set (basic_li z))"
    using ok by (intro inj_onI digit_char_inject) (auto simp: digits_ok_def)
  have "rev (basic_get z) = basic_get z \<longleftrightarrow>
      map digit_char (basic_li z) = map digit_char (rev (basic_li z))"
    unfolding basic_get_eq [OF z(2)] rev_map rev_rev_ident ..
  also have "\<dots> \<longleftrightarrow> basic_li z = rev (basic_li z)"
    using inj by (intro inj_on_map_eq_map) simp
  finally have pal: "is_palindrome z = Some (rev (basic_get z) = basic_get z)"
    using can isPalindrome_range_eq [of "basic_li z"]
    by (simp add: is_palindrome_def canonical_def) (metis rev_rev_ident)
  show ?thesis
    using z dec pal parse_dec_digits [OF ok]
    by (intro exI [of _ z]) (simp add: basic_get_eq basic_val_def)
qed

lemma reverse_and_add_exact_witness:
  "\<exists>z. basic_plus (LargeIntBasic 349) (reverse_copy (LargeIntBasic 349)) = Some z \<and>
    basic_valid z \<and> is_dec (basic_get z) \<and>
    parse_dec (basic_get z) =
      basic_val (LargeIntBasic 349) + basic_val (reverse_copy (LargeIntBasic 349)) \<and>
    is_palindrome z = Some (rev (basic_get z) = basic_get z)"
  using reverse_and_add_exact [of "LargeIntBasic 349"] LargeIntBasic_correct [of 349] by simp

end
