(* ===== verification/MathLargeInt.thy ===== *)
theory MathLargeInt
  imports DigitVector
begin

section \<open>Powers and Fibonacci numbers (library/mathlib\_largeInt.h)\<close>

text \<open>
  \<open>Power_Large\<close> computes the last \<open>digits\<close> decimal digits of a power by repeated squaring on
  digit vectors; \<open>Fibonacci_Large\<close> keeps two consecutive terms as digit vectors.
\<close>

subsection \<open>The model\<close>

text \<open>The \<open>resize\<close> that follows every multiplication.\<close>

definition keep_digits :: "int list \<Rightarrow> int \<Rightarrow> int list" where
  "keep_digits v digits = (if int (length v) > digits then resize (nat digits) 0 v else v)"

function power_loop ::
  "int list \<Rightarrow> int list \<Rightarrow> int \<Rightarrow> int \<Rightarrow> int \<Rightarrow> (int list \<times> int list) option" where
  "power_loop v bases base pow digits =
     (if pow > 1 then do {
        let bases' = (if pow smod 2 > 0 then bases @ [base] else bases);
        v' \<leftarrow> large_int_multiply i8 v base 10;
        let v'' = keep_digits v' digits;
        power_loop v'' bases' (large_int_get v'') (pow sdiv 2) digits
      }
      else Some (v, bases))"
  by pat_completeness auto
termination
  by (relation "measure (\<lambda>(v, bs, b, p, d). nat p)") (auto simp: div_less_self_int)

fun multiply_bases :: "int list \<Rightarrow> int list \<Rightarrow> int \<Rightarrow> int list option" where
  "multiply_bases v [] digits = Some v"
| "multiply_bases v (b # bs) digits = do {
     v' \<leftarrow> large_int_multiply i8 v b 10;
     multiply_bases (keep_digits v' digits) bs digits
   }"

definition compute_2 :: "int \<Rightarrow> int \<Rightarrow> int \<Rightarrow> (int \<times> int) option" where
  "compute_2 base pow digits = do {
     v \<leftarrow> large_int_fill i8 i64 [] base 10;
     (v', bases) \<leftarrow> power_loop v [] base pow digits;
     r \<leftarrow> multiply_bases v' bases digits;
     Some (large_int_get r, i32 (int (length r)))
   }"

definition compute :: "int \<Rightarrow> int \<Rightarrow> int \<Rightarrow> int option" where
  "compute base pow digits = map_option fst (compute_2 base pow digits)"

declare power_loop.simps [simp del]

record Fibonacci_Large =
  F1 :: "int list"
  F2 :: "int list"

definition Fibonacci_Large_init :: "int \<Rightarrow> int \<Rightarrow> Fibonacci_Large option" where
  "Fibonacci_Large_init f1 f2 = do {
     v1 \<leftarrow> large_int_fill i8 i32 [] f1 10;
     v2 \<leftarrow> large_int_fill i8 i32 [] f2 10;
     Some \<lparr>F1 = v1, F2 = v2\<rparr>
   }"

definition fib_get :: "Fibonacci_Large \<Rightarrow> int list" where
  "fib_get this = F2 this"

text \<open>\<open>sum\<close> adds \<open>F2\<close> into \<open>F1\<close> (and may pad \<open>F2\<close>), then the two are swapped.\<close>

definition compute_next :: "Fibonacci_Large \<Rightarrow> (Fibonacci_Large \<times> int list) option" where
  "compute_next this = do {
     (v1, v2) \<leftarrow> sum_vec i8 (F1 this) (F2 this) 10;
     let this' = \<lparr>F1 = v2, F2 = v1\<rparr>;
     Some (this', F2 this')
   }"

subsection \<open>Powers modulo a power of ten\<close>

lemma num_of_take_mod:
  assumes "digits_ok 10 v"
  shows "num_of 10 (take n v) = num_of 10 v mod 10 ^ n"
proof (cases "n < length v")
  case True
  have "num_of 10 v = num_of 10 (take n v) + 10 ^ n * num_of 10 (drop n v)"
    using num_of_append [of 10 "take n v" "drop n v"] True by simp
  moreover have "0 \<le> num_of 10 (take n v)" using assms by (simp add: num_of_nonneg)
  moreover have "num_of 10 (take n v) < 10 ^ n"
    using num_of_less [of 10 "take n v"] assms True by simp
  ultimately show ?thesis by simp
next
  case False
  then have "num_of 10 v < 10 ^ n"
    using num_of_less [of 10 v] assms power_increasing [of "length v" n "10::int"] by linarith
  then show ?thesis using False assms num_of_nonneg [of 10 v] by simp
qed

lemma keep_digits_correct:
  assumes "digits_ok 10 v" "0 \<le> digits"
  shows "digits_ok 10 (keep_digits v digits)"
    and "num_of 10 (keep_digits v digits) = num_of 10 v mod 10 ^ nat digits"
    and "length (keep_digits v digits) = min (length v) (nat digits)"
proof -
  have eq: "keep_digits v digits = take (nat digits) v"
    using assms(2) by (simp add: keep_digits_def resize_def)
  show "digits_ok 10 (keep_digits v digits)"
    "num_of 10 (keep_digits v digits) = num_of 10 v mod 10 ^ nat digits"
    "length (keep_digits v digits) = min (length v) (nat digits)"
    using assms(1) by (simp_all add: eq num_of_take_mod)
qed

text \<open>One multiplication and truncation by a factor of at most 17 digits.\<close>

lemma multiply_keep:
  assumes "digits_ok 10 v" "0 \<le> f" "f < 10 ^ 17" "0 \<le> digits"
  obtains w where "large_int_multiply i8 v f 10 = Some w"
    "digits_ok 10 (keep_digits w digits)"
    "num_of 10 (keep_digits w digits) = num_of 10 v * f mod 10 ^ nat digits"
proof -
  obtain w where "large_int_multiply i8 v f 10 = Some w" "digits_ok 10 w"
    "num_of 10 w = num_of 10 v * f"
    using char10.multiply_correct [of v f] assms by auto
  then show ?thesis using keep_digits_correct [of w digits] assms(4) that by simp
qed

lemma mod_less_10_17:
  assumes "k \<le> 17" shows "(n::int) mod 10 ^ k < 10 ^ 17"
proof -
  have "n mod 10 ^ k < 10 ^ k" by simp
  also have "\<dots> \<le> 10 ^ 17" using assms by (intro power_increasing) auto
  finally show ?thesis .
qed

lemma power_half:
  assumes "1 < (p::int)"
  shows "(b::int) ^ nat p = (b * b) ^ nat (p div 2) * (if p mod 2 > 0 then b else 1)"
proof -
  have "int (nat p) = int (2 * nat (p div 2) + (if p mod 2 > 0 then 1 else 0))"
    using assms by (auto; presburger)
  then have "nat p = 2 * nat (p div 2) + (if p mod 2 > 0 then 1 else 0)"
    by (simp only: of_nat_eq_iff)
  then show ?thesis by (simp add: power_add power_mult power2_eq_square)
qed

text \<open>
  The invariant of the loop: what is left to do is to raise the vector to the power and to
  multiply by the postponed odd bases.
\<close>

lemma power_loop_correct:
  assumes k: "0 \<le> digits" "digits \<le> 17"
  shows "1 \<le> pow \<Longrightarrow> digits_ok 10 v \<Longrightarrow> num_of 10 v = base \<Longrightarrow> 0 \<le> base \<Longrightarrow> base < 10 ^ 17 \<Longrightarrow>
    \<forall>b \<in> set bases. 0 \<le> b \<and> b < 10 ^ 17 \<Longrightarrow>
    \<exists>v' bases'. power_loop v bases base pow digits = Some (v', bases') \<and> digits_ok 10 v' \<and>
      (\<forall>b \<in> set bases'. 0 \<le> b \<and> b < 10 ^ 17) \<and>
      num_of 10 v' * prod_list bases' mod 10 ^ nat digits =
        base ^ nat pow * prod_list bases mod 10 ^ nat digits"
proof (induction "nat pow" arbitrary: pow v bases base rule: less_induct)
  case less
  let ?M = "10 ^ nat digits :: int"
  show ?case
  proof (cases "pow > 1")
    case False
    then have "pow = 1" using less.prems by simp
    then show ?thesis using less.prems by (subst power_loop.simps) simp
  next
    case True
    let ?bs = "if pow mod 2 > 0 then bases @ [base] else bases"
    obtain w where w: "large_int_multiply i8 v base 10 = Some w"
      "digits_ok 10 (keep_digits w digits)"
      "num_of 10 (keep_digits w digits) = base * base mod ?M"
      using multiply_keep [OF less.prems(2,4,5) k(1)] less.prems(3) by auto
    let ?b = "base * base mod ?M"
    have b: "0 \<le> ?b" "?b < 10 ^ 17" using k mod_less_10_17 [of "nat digits"] by simp_all
    have get: "large_int_get (keep_digits w digits) = ?b"
      using large_int_get_correct [OF w(2)] w(3) b by simp
    have step: "power_loop v bases base pow digits =
        power_loop (keep_digits w digits) ?bs ?b (pow div 2) digits"
      using True w(1) get by (subst power_loop.simps) (simp add: Let_def)
    have p: "nat (pow div 2) < nat pow" "1 \<le> pow div 2" using True by auto
    have "\<forall>b \<in> set ?bs. 0 \<le> b \<and> b < 10 ^ 17" using less.prems by auto
    then obtain v' bases' where r: "power_loop v bases base pow digits = Some (v', bases')"
      "digits_ok 10 v'" "\<forall>b \<in> set bases'. 0 \<le> b \<and> b < 10 ^ 17"
      "num_of 10 v' * prod_list bases' mod ?M = ?b ^ nat (pow div 2) * prod_list ?bs mod ?M"
      using less.hyps [OF p w(2,3) b] unfolding step by blast
    have "?b ^ nat (pow div 2) * prod_list ?bs mod ?M =
        (base * base) ^ nat (pow div 2) * prod_list ?bs mod ?M"
      by (simp only: mod_mult_left_eq [of "?b ^ _", symmetric] power_mod)
        (simp only: mod_mult_left_eq)
    also have "(base * base) ^ nat (pow div 2) * prod_list ?bs = base ^ nat pow * prod_list bases"
      unfolding power_half [OF True, of base] by simp
    finally show ?thesis using r by auto
  qed
qed

lemma multiply_bases_correct:
  assumes k: "0 \<le> digits"
  shows "digits_ok 10 v \<Longrightarrow> \<forall>b \<in> set bases. 0 \<le> b \<and> b < 10 ^ 17 \<Longrightarrow>
    \<exists>r. multiply_bases v bases digits = Some r \<and> digits_ok 10 r \<and>
      num_of 10 r mod 10 ^ nat digits = num_of 10 v * prod_list bases mod 10 ^ nat digits \<and>
      (num_of 10 v < 10 ^ nat digits \<longrightarrow> num_of 10 r < 10 ^ nat digits)"
proof (induction bases arbitrary: v)
  case (Cons b bs)
  let ?M = "10 ^ nat digits :: int"
  obtain w where w: "large_int_multiply i8 v b 10 = Some w" "digits_ok 10 (keep_digits w digits)"
    "num_of 10 (keep_digits w digits) = num_of 10 v * b mod ?M"
    using multiply_keep [OF Cons.prems(1) _ _ k, of b] Cons.prems(2) by auto
  obtain r where r: "multiply_bases (keep_digits w digits) bs digits = Some r" "digits_ok 10 r"
    "num_of 10 r mod ?M = num_of 10 v * b mod ?M * prod_list bs mod ?M" "num_of 10 r < ?M"
    using Cons.IH [OF w(2)] Cons.prems(2) w(3) by auto
  have "num_of 10 v * b mod ?M * prod_list bs mod ?M = num_of 10 v * prod_list (b # bs) mod ?M"
    by (simp add: mod_mult_left_eq mult.assoc)
  then show ?case using w(1) r by simp
qed simp

text \<open>The vector itself is truncated in every round of the loop.\<close>

lemma power_loop_less:
  assumes k: "0 \<le> digits" "digits \<le> 17"
  shows "1 \<le> pow \<Longrightarrow> digits_ok 10 v \<Longrightarrow> num_of 10 v < 10 ^ nat digits \<Longrightarrow>
    0 \<le> base \<Longrightarrow> base < 10 ^ 17 \<Longrightarrow>
    power_loop v bases base pow digits = Some (v', bases') \<Longrightarrow> num_of 10 v' < 10 ^ nat digits"
proof (induction "nat pow" arbitrary: pow v bases base rule: less_induct)
  case less
  show ?case
  proof (cases "pow > 1")
    case False
    then show ?thesis using less.prems by (subst (asm) power_loop.simps) simp
  next
    case True
    let ?w = "num_of 10 v * base mod 10 ^ nat digits"
    obtain w where w: "large_int_multiply i8 v base 10 = Some w"
      "digits_ok 10 (keep_digits w digits)" "num_of 10 (keep_digits w digits) = ?w"
      using multiply_keep [OF less.prems(2,4,5) k(1)] by auto
    have b: "0 \<le> ?w" "?w < 10 ^ 17" "?w < 10 ^ nat digits"
      using k mod_less_10_17 [of "nat digits"] by simp_all
    have get: "large_int_get (keep_digits w digits) = ?w"
      using large_int_get_correct [OF w(2)] w(3) b by simp
    have "power_loop (keep_digits w digits) (if pow mod 2 > 0 then bases @ [base] else bases)
        ?w (pow div 2) digits = Some (v', bases')"
      using less.prems(6) True w(1) get by (subst (asm) power_loop.simps) (simp add: Let_def)
    moreover have "nat (pow div 2) < nat pow" "1 \<le> pow div 2" using True by auto
    ultimately show ?thesis using less.hyps w b by metis
  qed
qed

text \<open>\<open>Power_Large::compute\<close> returns the last \<open>digits\<close> digits of the power, for every exponent
  from 1 on and up to 17 digits: no step of the digit arithmetic overflows a \<open>long long\<close>.\<close>

theorem Power_Large_compute_mod:
  assumes "0 \<le> base" "base < 10 ^ nat digits" "1 \<le> pow" "0 \<le> digits" "digits \<le> 17"
  shows "compute base pow digits = Some (base ^ nat pow mod 10 ^ nat digits)"
proof -
  have M: "(10::int) ^ nat digits \<le> 10 ^ 17" using assms by (intro power_increasing) auto
  then have b: "base < 10 ^ 17" using assms(2) by linarith
  obtain v where v: "large_int_fill i8 i64 [] base 10 = Some v" "digits_ok 10 v" "num_of 10 v = base"
    using char10.fill [of base i64 "[]"] assms(1) by auto
  obtain v' bases where p: "power_loop v [] base pow digits = Some (v', bases)" "digits_ok 10 v'"
    "\<forall>b \<in> set bases. 0 \<le> b \<and> b < 10 ^ 17"
    "num_of 10 v' * prod_list bases mod 10 ^ nat digits = base ^ nat pow mod 10 ^ nat digits"
    using power_loop_correct [OF assms(4,5,3) v(2,3) assms(1) b, of "[]"] by auto
  have less: "num_of 10 v' < 10 ^ nat digits"
    using power_loop_less [OF assms(4,5,3) v(2) _ assms(1) b p(1)] v(3) assms(2) by simp
  obtain r where r: "multiply_bases v' bases digits = Some r" "digits_ok 10 r"
    "num_of 10 r mod 10 ^ nat digits = base ^ nat pow mod 10 ^ nat digits"
    "num_of 10 r < 10 ^ nat digits"
    using multiply_bases_correct [OF assms(4) p(2,3)] p(4) less by auto
  have "0 \<le> num_of 10 r" using r(2) by (simp add: num_of_nonneg)
  then have val: "num_of 10 r = base ^ nat pow mod 10 ^ nat digits" using r(3,4) by simp
  have "num_of 10 r < 10 ^ 17" using r(4) M by linarith
  then have "large_int_get r = num_of 10 r" by (intro large_int_get_correct [OF r(2)]) simp
  then show ?thesis using v(1) p(1) r(1) val by (simp add: compute_def compute_2_def)
qed

lemma Power_Large_compute_mod_witness:
  "compute 3 1000 10 = Some (3 ^ nat 1000 mod 10 ^ nat 10)"
  by (rule Power_Large_compute_mod) simp_all

text \<open>For exponent 0 the loop does nothing and the base itself is returned.\<close>

lemma compute_power_0:
  assumes "0 \<le> base" "base < 9223372036854775808"
  shows "compute base 0 digits = Some base"
proof -
  obtain v where "large_int_fill i8 i64 [] base 10 = Some v" "digits_ok 10 v" "num_of 10 v = base"
    using char10.fill [of base i64 "[]"] assms(1) by auto
  then show ?thesis
    using large_int_get_correct [of v] assms(2)
    by (simp add: compute_def compute_2_def power_loop.simps)
qed

subsection \<open>Fibonacci numbers\<close>

text \<open>The recurrence with two given first terms, and the object after some steps.\<close>

fun fib_term :: "int \<Rightarrow> int \<Rightarrow> nat \<Rightarrow> int" where
  "fib_term a b 0 = a"
| "fib_term a b (Suc 0) = b"
| "fib_term a b (Suc (Suc n)) = fib_term a b n + fib_term a b (Suc n)"

fun compute_nexts :: "nat \<Rightarrow> Fibonacci_Large \<Rightarrow> Fibonacci_Large option" where
  "compute_nexts 0 this = Some this"
| "compute_nexts (Suc n) this = do {
     this' \<leftarrow> compute_nexts n this;
     (this'', _) \<leftarrow> compute_next this';
     Some this''
   }"

definition fib_ok :: "int \<Rightarrow> int \<Rightarrow> nat \<Rightarrow> Fibonacci_Large \<Rightarrow> bool" where
  "fib_ok a b n f \<longleftrightarrow> digits_ok 10 (F1 f) \<and> digits_ok 10 (F2 f) \<and> canonical (F1 f) \<and>
     canonical (F2 f) \<and> num_of 10 (F1 f) = fib_term a b n \<and>
     num_of 10 (F2 f) = fib_term a b (Suc n) \<and> num_of 10 (F1 f) \<le> num_of 10 (F2 f)"

lemma canonical_sum:
  assumes "digits_ok 10 ys" "canonical ys" "digits_ok 10 r" "num_of 10 ys \<le> num_of 10 r"
    and "length r = length ys \<or> last r \<noteq> 0" "length ys \<le> length r"
  shows "canonical r"
proof (cases "length r = 1 \<or> last r \<noteq> 0")
  case True
  then show ?thesis using assms by (auto simp: canonical_def)
next
  case False
  then have len: "length r = length ys" and ne: "r \<noteq> []" "last ys \<noteq> 0" "ys \<noteq> []"
    using assms by (auto simp: canonical_def)
  then have "10 ^ (length r - 1) \<le> num_of 10 r"
    using num_of_ge_last [of 10 ys] assms(1,4) by simp
  then show ?thesis using last_nonzero_if_large [of 10 r] assms(3) ne False by simp
qed

lemma compute_next_ok:
  assumes "fib_ok a b n f"
  obtains f' where "compute_next f = Some (f', F2 f')" "fib_ok a b (Suc n) f'"
proof -
  have f: "digits_ok 10 (F1 f)" "digits_ok 10 (F2 f)" "canonical (F1 f)" "canonical (F2 f)"
    "num_of 10 (F1 f) \<le> num_of 10 (F2 f)"
    using assms by (auto simp: fib_ok_def)
  have len: "length (F1 f) \<le> length (F2 f)"
    using canonical_length_le [of 10 "F1 f" "F2 f"] f by (auto simp: canonical_def)
  then obtain r where r: "sum_vec i8 (F1 f) (F2 f) 10 = Some (r, F2 f)" "digits_ok 10 r"
    "num_of 10 r = num_of 10 (F1 f) + num_of 10 (F2 f)" "length (F2 f) \<le> length r"
    "length r = length (F2 f) \<or> last r \<noteq> 0"
    using char10.sum_vec_correct [OF f(1,2)] by (metis append_Nil2 diff_is_0_eq max_absorb2 replicate_0)
  have nn: "0 \<le> num_of 10 (F1 f)" using f by (simp add: num_of_nonneg)
  then have "canonical r"
    using canonical_sum [OF f(2,4) r(2) _ r(5,4)] r(3) by simp
  then have "fib_ok a b (Suc n) \<lparr>F1 = F2 f, F2 = r\<rparr>"
    using assms r nn by (simp add: fib_ok_def)
  moreover have "compute_next f = Some (\<lparr>F1 = F2 f, F2 = r\<rparr>, F2 \<lparr>F1 = F2 f, F2 = r\<rparr>)"
    using r(1) by (simp add: compute_next_def)
  ultimately show ?thesis by (rule that [rotated])
qed

text \<open>After any number \<open>n\<close> of calls of \<open>compute_next\<close> the vector \<open>get\<close> returns holds the
  \<open>n + 1\<close>st term of the Fibonacci recurrence exactly, without leading zeros: its size is the
  number of decimal digits of the term.\<close>

theorem Fibonacci_Large_terms:
  assumes "0 \<le> f1" "f1 \<le> f2" "f2 < 2147483648"
  shows "\<exists>f f'. Fibonacci_Large_init f1 f2 = Some f \<and> compute_nexts n f = Some f' \<and>
    num_of 10 (fib_get f') = fib_term f1 f2 (Suc n) \<and> canonical (fib_get f')"
proof -
  obtain v1 where v1: "large_int_fill i8 i32 [] f1 10 = Some v1" "digits_ok 10 v1"
    "num_of 10 v1 = f1" "canonical v1"
    using char10.fill [of f1 i32 "[]"] assms by auto
  obtain v2 where v2: "large_int_fill i8 i32 [] f2 10 = Some v2" "digits_ok 10 v2"
    "num_of 10 v2 = f2" "canonical v2"
    using char10.fill [of f2 i32 "[]"] assms by auto
  have "\<exists>f'. compute_nexts n \<lparr>F1 = v1, F2 = v2\<rparr> = Some f' \<and> fib_ok f1 f2 n f'"
  proof (induction n)
    case 0
    then show ?case using v1 v2 assms by (simp add: fib_ok_def)
  next
    case (Suc n)
    then obtain f' where f': "compute_nexts n \<lparr>F1 = v1, F2 = v2\<rparr> = Some f'" "fib_ok f1 f2 n f'"
      by blast
    from compute_next_ok [OF f'(2)] obtain f'' where "compute_next f' = Some (f'', F2 f'')"
      "fib_ok f1 f2 (Suc n) f''" by blast
    with f'(1) show ?case by simp
  qed
  then show ?thesis
    using v1(1) v2(1) by (auto simp: Fibonacci_Large_init_def fib_ok_def fib_get_def)
qed

lemma Fibonacci_Large_terms_witness:
  "\<exists>f f'. Fibonacci_Large_init 1 1 = Some f \<and> compute_nexts 10 f = Some f' \<and>
    num_of 10 (fib_get f') = fib_term 1 1 (Suc 10) \<and> canonical (fib_get f')"
  by (rule Fibonacci_Large_terms) simp_all

end
