(* ===== verification/MathLib.thy ===== *)
theory MathLib
  imports Complex_Main Prelude
begin

section \<open>Sums (library/mathlib.h)\<close>

text \<open>
  The sums of \<open>src/library/mathlib.h\<close>: closed formulas modulo a number, arithmetic
  progressions and pairwise products. The digit routines of the same file are in
  \<open>MathDigits\<close>, its searches in \<open>MathSearch\<close>.
\<close>

subsection \<open>The model: sums\<close>

definition sum_odd_square :: "int \<Rightarrow> int \<Rightarrow> int" where
  "sum_odd_square N MOD =
     (let n = i64 (N sdiv 2 + 1);
          n2 = i64 (i64 (2 * n) - 1);
          n3 = i64 (i64 (2 * n) + 1);
          (n, n2, n3) =
            (if n smod 3 = 0 then (n sdiv 3, n2, n3)
             else if n2 smod 3 = 0 then (n, n2 sdiv 3, n3)
             else if n3 smod 3 = 0 then (n, n2, n3 sdiv 3)
             else (n, n2, n3));
          result = i64 ((n smod MOD) * (n2 smod MOD)) smod MOD
      in i64 (result * (n3 smod MOD)) smod MOD)"

definition sum_arithmetic_halves :: "int \<Rightarrow> int \<Rightarrow> int \<Rightarrow> int \<times> int" where
  "sum_arithmetic_halves frst lst step =
     (let n = i64 (i64 (lst - frst) sdiv step + 1);
          s = i64 (frst + lst)
      in if n smod 2 = 0 then (n sdiv 2, s) else (n, s sdiv 2))"

definition sum_arithmetic_sequence_mod :: "int \<Rightarrow> int \<Rightarrow> int \<Rightarrow> int \<Rightarrow> int" where
  "sum_arithmetic_sequence_mod frst lst step MOD =
     (let (n, s) = sum_arithmetic_halves frst lst step
      in i64 ((n smod MOD) * (s smod MOD)) smod MOD)"

definition sum_arithmetic_sequence :: "int \<Rightarrow> int \<Rightarrow> int \<Rightarrow> int" where
  "sum_arithmetic_sequence frst lst step =
     (let (n, s) = sum_arithmetic_halves frst lst step in i64 (n * s))"

text \<open>\<open>pairwise_multiply\<close>; \<open>long\<close> is modelled with 64 bits.\<close>

fun pairwise_loop :: "int \<Rightarrow> int \<Rightarrow> int \<Rightarrow> int list \<Rightarrow> int" where
  "pairwise_loop tot prefix_sum prev [] = tot"
| "pairwise_loop tot prefix_sum prev (c # cs) =
     (let prefix_sum' = i64 (prefix_sum + prev)
      in pairwise_loop (i64 (tot + i64 (prefix_sum' * c))) prefix_sum' c cs)"

definition pairwise_multiply :: "int list \<Rightarrow> int" where
  "pairwise_multiply components =
     (case components of [] \<Rightarrow> 0 | c # cs \<Rightarrow> pairwise_loop 0 0 c cs)"

definition euclid_distance_square :: "int list \<Rightarrow> int list \<Rightarrow> int option" where
  "euclid_distance_square p1 p2 = do {
     x1 \<leftarrow> vec_at p1 0; x2 \<leftarrow> vec_at p2 0; y1 \<leftarrow> vec_at p1 1; y2 \<leftarrow> vec_at p2 1;
     Some (i32 (i32 (i32 (x1 - x2) * i32 (x1 - x2)) + i32 (i32 (y1 - y2) * i32 (y1 - y2))))
   }"

subsection \<open>Sums\<close>

lemma three_divides: "(n::int) mod 3 = 0 \<or> (2 * n - 1) mod 3 = 0 \<or> (2 * n + 1) mod 3 = 0"
  by presburger

lemma sum_odd_squares_closed:
  "3 * (\<Sum>i<n. (2 * int i + 1) ^ 2) = int n * (2 * int n - 1) * (2 * int n + 1)"
  by (induction n) (auto simp: algebra_simps power2_eq_square)

lemma mod_mult3: "(a mod m * (b mod m) mod m) * (c mod m) mod m = (a * b * c) mod (m::int)"
  by (simp add: mod_mult_left_eq mod_mult_right_eq mod_mult_eq)

lemma mod_product_small:
  assumes "0 < (m::int)" "m < 2147483648"
  shows "i64 ((a mod m) * (b mod m)) = (a mod m) * (b mod m)"
proof (rule i64_id)
  have "0 \<le> a mod m" "a mod m \<le> m" "0 \<le> b mod m" "b mod m \<le> m"
    using assms by (auto simp: less_imp_le)
  then have "(a mod m) * (b mod m) \<le> m * m" by (intro mult_mono) auto
  also have "\<dots> \<le> 2147483648 * 2147483648" using assms by (intro mult_mono) auto
  finally show "(a mod m) * (b mod m) < 9223372036854775808" by simp
  show "- 9223372036854775808 \<le> (a mod m) * (b mod m)"
    using assms by (smt (verit) mult_nonneg_nonneg pos_mod_sign)
qed

lemma sum_odd_square_correct:
  assumes "0 \<le> N" "N < 4611686018427387904" "0 < MOD" "MOD < 2147483648"
  shows "sum_odd_square N MOD = (\<Sum>i<nat (N div 2 + 1). (2 * int i + 1) ^ 2) mod MOD"
proof -
  define n where "n = N div 2 + 1"
  define F where "F = (\<lambda>a b c. i64 (i64 ((a smod MOD) * (b smod MOD)) smod MOD * (c smod MOD)) smod MOD)"
  let ?S = "\<Sum>i<nat n. (2 * int i + 1) ^ 2 :: int"
  have n: "0 < n" "n < 2305843009213693953" using assms by (auto simp: n_def)
  have S: "3 * ?S = n * (2 * n - 1) * (2 * n + 1)"
    using sum_odd_squares_closed [of "nat n"] n by simp
  have final: "F a b c = ?S mod MOD" if "3 * (a * b * c) = 3 * ?S" "0 \<le> a" "0 \<le> b" "0 \<le> c"
    for a b c
  proof -
    have pr: "i64 ((x mod MOD) * (y mod MOD)) = (x mod MOD) * (y mod MOD)" for x y
      using assms by (intro mod_product_small)
    have nn: "0 \<le> (x mod MOD) * (y mod MOD)" for x y using assms by simp
    from that assms show ?thesis by (simp add: F_def pr nn mod_mult3)
  qed
  have wrap: "i64 (N sdiv 2 + 1) = n" "i64 (2 * n) = 2 * n" "i64 (2 * n - 1) = 2 * n - 1"
    "i64 (2 * n + 1) = 2 * n + 1"
    using n assms by (auto simp: n_def)
  have sm: "n smod 3 = n mod 3" "(2 * n - 1) smod 3 = (2 * n - 1) mod 3"
    "(2 * n + 1) smod 3 = (2 * n + 1) mod 3" "n sdiv 3 = n div 3"
    "(2 * n - 1) sdiv 3 = (2 * n - 1) div 3" "(2 * n + 1) sdiv 3 = (2 * n + 1) div 3"
    using n by (auto intro!: smod_nonneg sdiv_nonneg)
  have unfold: "sum_odd_square N MOD =
      (if n mod 3 = 0 then F (n div 3) (2 * n - 1) (2 * n + 1)
       else if (2 * n - 1) mod 3 = 0 then F n ((2 * n - 1) div 3) (2 * n + 1)
       else if (2 * n + 1) mod 3 = 0 then F n (2 * n - 1) ((2 * n + 1) div 3)
       else F n (2 * n - 1) (2 * n + 1))"
    unfolding sum_odd_square_def wrap Let_def sm F_def
    by (cases "n mod 3 = 0"; cases "(2 * n - 1) mod 3 = 0"; cases "(2 * n + 1) mod 3 = 0";
        simp only: if_True if_False prod.case simp_thms)
  have part: "3 * (x div 3) = x" if "x mod 3 = 0" for x :: int using that by auto
  have F1: "F (n div 3) (2 * n - 1) (2 * n + 1) = ?S mod MOD" if "n mod 3 = 0"
  proof (rule final)
    have "3 * (n div 3 * (2 * n - 1) * (2 * n + 1)) = 3 * (n div 3) * (2 * n - 1) * (2 * n + 1)"
      by (simp only: ac_simps)
    then show "3 * (n div 3 * (2 * n - 1) * (2 * n + 1)) = 3 * ?S"
      unfolding part [OF that] S by simp
  qed (use n in auto)
  have F2: "F n ((2 * n - 1) div 3) (2 * n + 1) = ?S mod MOD" if "(2 * n - 1) mod 3 = 0"
  proof (rule final)
    have "3 * (n * ((2 * n - 1) div 3) * (2 * n + 1)) = n * (3 * ((2 * n - 1) div 3)) * (2 * n + 1)"
      by (simp only: ac_simps)
    then show "3 * (n * ((2 * n - 1) div 3) * (2 * n + 1)) = 3 * ?S"
      unfolding part [OF that] S by simp
  qed (use n in auto)
  have F3: "F n (2 * n - 1) ((2 * n + 1) div 3) = ?S mod MOD" if "(2 * n + 1) mod 3 = 0"
  proof (rule final)
    have "3 * (n * (2 * n - 1) * ((2 * n + 1) div 3)) = n * (2 * n - 1) * (3 * ((2 * n + 1) div 3))"
      by (simp only: ac_simps)
    then show "3 * (n * (2 * n - 1) * ((2 * n + 1) div 3)) = 3 * ?S"
      unfolding part [OF that] S by simp
  qed (use n in auto)
  show ?thesis
    unfolding unfold n_def [symmetric] using three_divides [of n] F1 F2 F3 by argo
qed

text \<open>Halving one factor is exact when the last term is in the sequence.\<close>

lemma sum_arithmetic_halves_correct:
  fixes a d :: int
  assumes "0 \<le> a" "0 < d" "0 \<le> k" "a + k * d < 4611686018427387904"
    "d < 2147483648" "k < 4611686018427387904"
  shows "case sum_arithmetic_halves a (a + k * d) d of (n, s) \<Rightarrow>
    0 \<le> n \<and> 0 \<le> s \<and> n * s = (\<Sum>i\<le>nat k. a + int i * d)"
proof -
  have kd: "0 \<le> k * d" using assms by simp
  have "i64 (k * d) = k * d" by (rule i64_id) (use assms kd in linarith)+
  moreover have "k * d sdiv d = k" using assms kd by simp
  ultimately have n: "i64 (i64 (a + k * d - a) sdiv d + 1) = k + 1" using assms by simp
  have s: "i64 (a + (a + k * d)) = a + (a + k * d)" by (rule i64_id) (use assms kd in linarith)+
  have sum: "2 * (\<Sum>i\<le>nat k. a + int i * d) = (k + 1) * (2 * a + k * d)"
  proof -
    have "2 * (\<Sum>i\<le>m. a + int i * d) = (int m + 1) * (2 * a + int m * d)" for m
      by (induction m) (auto simp: algebra_simps)
    from this [of "nat k"] assms show ?thesis by simp
  qed
  show ?thesis
  proof (cases "even (k + 1)")
    case True
    then obtain h where h: "k + 1 = 2 * h" by (elim evenE)
    then have "h * (2 * a + k * d) = (\<Sum>i\<le>nat k. a + int i * d)" using sum by simp
    with h assms kd show ?thesis
      unfolding sum_arithmetic_halves_def n s Let_def by simp
  next
    case False
    then have "even k" by simp
    then obtain h where h: "k = 2 * h" by (elim evenE)
    then have e: "2 * a + k * d = 2 * (a + h * d)" by (simp add: algebra_simps)
    then have s2: "i64 (a + (a + k * d)) = 2 * (a + h * d)" unfolding s by simp
    have "(k + 1) * (a + h * d) = (\<Sum>i\<le>nat k. a + int i * d)"
      using sum unfolding e by algebra
    moreover have "0 \<le> h" using h assms by simp
    then have "0 \<le> a + h * d" using assms by simp
    ultimately show ?thesis
      using False assms
      unfolding sum_arithmetic_halves_def n s2 Let_def by (auto simp: odd_iff_mod_2_eq_one)
  qed
qed

fun sum_pairs :: "int list \<Rightarrow> int" where
  "sum_pairs [] = 0"
| "sum_pairs (c # cs) = c * sum_list cs + sum_pairs cs"

lemma sum_pairs_square: "2 * sum_pairs cs = (sum_list cs) ^ 2 - (\<Sum>c\<leftarrow>cs. c ^ 2)"
  by (induction cs) (auto simp: power2_eq_square algebra_simps)

lemma sum_pairs_nonneg: "list_all (\<lambda>c. 0 \<le> c) cs \<Longrightarrow> 0 \<le> sum_pairs cs \<and> 0 \<le> sum_list cs"
  by (induction cs) auto

text \<open>What the loop will have added at its end does not change from one step to the next.\<close>

lemma pairwise_loop_exact:
  "list_all (\<lambda>c. 0 \<le> c) (prev # cs) \<Longrightarrow> 0 \<le> pre \<Longrightarrow> 0 \<le> tot \<Longrightarrow>
   pre + prev + sum_list cs < 9223372036854775808 \<Longrightarrow>
   tot + (pre + prev) * sum_list cs + sum_pairs cs < 9223372036854775808 \<Longrightarrow>
   pairwise_loop tot pre prev cs = tot + (pre + prev) * sum_list cs + sum_pairs cs"
proof (induction tot pre prev cs rule: pairwise_loop.induct)
  case (2 tot pre prev c cs)
  let ?p = "pre + prev"
  have nn: "0 \<le> ?p" "0 \<le> c" "0 \<le> sum_list cs" "0 \<le> sum_pairs cs" "0 \<le> ?p * c"
    "0 \<le> ?p * sum_list cs" "0 \<le> c * sum_list cs"
    using "2.prems" sum_pairs_nonneg [of cs] by auto
  have eq: "tot + ?p * sum_list (c # cs) + sum_pairs (c # cs)
      = (tot + ?p * c) + (?p + c) * sum_list cs + sum_pairs cs"
    by (simp add: algebra_simps)
  have lim: "tot + ?p * c + (?p * sum_list cs + c * sum_list cs) + sum_pairs cs
      < 9223372036854775808"
    using "2.prems"(5) unfolding eq by (simp add: distrib_right)
  have wrap: "i64 ?p = ?p" "i64 (?p * c) = ?p * c" "i64 (tot + ?p * c) = tot + ?p * c"
    by (rule i64_id; use nn lim "2.prems"(3,4) in \<open>simp; linarith\<close>)+
  show ?case
    using "2.IH" [of ?p] "2.prems" nn wrap unfolding eq by (simp add: Let_def)
qed auto

subsection \<open>Properties\<close>

text \<open>\<open>sum_odd_square\<close> is, modulo \<open>MOD\<close>, the sum of the squares of the first \<open>N / 2 + 1\<close> odd
  numbers, for every non-negative \<open>N\<close> below \<open>2^62\<close>: dividing by 3 before reducing is exact and no
  \<open>long long\<close> product overflows. (For even \<open>N\<close> this includes the square of \<open>N + 1\<close>.)\<close>

theorem sum_odd_square_mod:
  assumes "0 \<le> N" "N < 4611686018427387904" "0 < MOD" "MOD < 2147483648"
  shows "sum_odd_square N MOD = (\<Sum>i<nat (N div 2 + 1). (2 * int i + 1) ^ 2) mod MOD"
  using assms by (rule sum_odd_square_correct)

theorem sum_odd_square_mod_witness:
  "sum_odd_square 1001 1000000007 =
     (\<Sum>i<nat (1001 div 2 + 1). (2 * int i + 1) ^ 2) mod 1000000007"
  by (rule sum_odd_square_mod) simp_all

text \<open>\<open>sum_arithmetic_sequence\<close> adds up the terms \<open>a, a + d, \<dots>, a + k d\<close>, and its modular
  overload gives the same sum modulo \<open>MOD\<close>, as long as the last argument is a term of the
  progression and the sum fits.\<close>

theorem sum_arithmetic_sequence_exact:
  assumes "0 \<le> a" "0 < d" "d < 2147483648" "0 \<le> k" "k < 4611686018427387904"
    "a + k * d < 4611686018427387904" "0 < MOD" "MOD < 2147483648"
  shows "sum_arithmetic_sequence_mod a (a + k * d) d MOD = (\<Sum>i\<le>nat k. a + int i * d) mod MOD \<and>
    ((\<Sum>i\<le>nat k. a + int i * d) < 9223372036854775808 \<longrightarrow>
      sum_arithmetic_sequence a (a + k * d) d = (\<Sum>i\<le>nat k. a + int i * d))"
proof -
  obtain n s where ns: "sum_arithmetic_halves a (a + k * d) d = (n, s)" "0 \<le> n" "0 \<le> s"
    "n * s = (\<Sum>i\<le>nat k. a + int i * d)"
    using sum_arithmetic_halves_correct [of a d k] assms by (auto split: prod.splits)
  have "0 \<le> n * s" using ns(2,3) by (rule mult_nonneg_nonneg)
  moreover have "i64 ((n mod MOD) * (s mod MOD)) = (n mod MOD) * (s mod MOD)"
    using assms by (intro mod_product_small)
  moreover have "0 \<le> (n mod MOD) * (s mod MOD)" using assms by simp
  ultimately show ?thesis
    using ns assms
    by (auto simp: sum_arithmetic_sequence_mod_def sum_arithmetic_sequence_def mod_mult_eq)
qed

theorem sum_arithmetic_sequence_exact_witness:
  "sum_arithmetic_sequence_mod 3 (3 + 332 * 3) 3 1000 = (\<Sum>i\<le>nat 332. 3 + int i * 3) mod 1000"
  using sum_arithmetic_sequence_exact [of 3 3 332 1000] by simp

text \<open>\<open>pairwise_multiply\<close> is the sum of the products of all pairs of components (half of
  the square of the sum less the sum of the squares), when the sums fit a 64-bit \<open>long\<close>.\<close>

theorem pairwise_multiply_all_pairs:
  assumes "list_all (\<lambda>c. 0 \<le> c) cs" "(sum_list cs) ^ 2 < 9223372036854775808"
  shows "2 * pairwise_multiply cs = (sum_list cs) ^ 2 - (\<Sum>c\<leftarrow>cs. c ^ 2)"
proof (cases cs)
  case (Cons c ds)
  have sq: "0 \<le> (\<Sum>c\<leftarrow>cs. c ^ 2)" by (intro sum_list_nonneg) auto
  have nn: "0 \<le> sum_list cs" "0 \<le> sum_pairs cs" using sum_pairs_nonneg assms(1) by auto
  have "sum_list cs \<le> (sum_list cs) ^ 2"
    using nn self_le_power [of "sum_list cs" 2] by (cases "sum_list cs = 0") auto
  moreover have "sum_pairs cs < 9223372036854775808"
    using sum_pairs_square [of cs] sq assms(2) nn by linarith
  ultimately have "pairwise_loop 0 0 c ds = sum_pairs cs"
    using pairwise_loop_exact [of c ds 0 0] assms Cons by simp
  with Cons show ?thesis using sum_pairs_square [of cs] by (simp add: pairwise_multiply_def)
qed (simp add: pairwise_multiply_def)

theorem pairwise_multiply_all_pairs_witness:
  "2 * pairwise_multiply [4, 3, 2, 1] = 100 - 30"
  using pairwise_multiply_all_pairs [of "[4, 3, 2, 1]"] by simp

end
