(* ===== verification/MathSearch.thy ===== *)
theory MathSearch
  imports Complex_Main MathDigits "HOL-Library.Multiset"
begin

section \<open>Enumeration and search (library/mathlib.h)\<close>

text \<open>
  The routines of \<open>src/library/mathlib.h\<close> that enumerate or search: the permutations of a
  digit set, binomial coefficients up to a limit (\<open>ChooseAll\<close>) and the period of a decimal
  fraction.
\<close>

subsection \<open>The model\<close>

text \<open>
  \<open>pandigital_enumerate\<close> calls \<open>f\<close> on one number per permutation; the result is the list of
  its arguments, in order. A \<open>std::set<int>\<close> is the ascending list of its elements.
\<close>

function pandigital_enumerate :: "int list \<Rightarrow> int \<Rightarrow> int list" where
  "pandigital_enumerate digits val =
     (if digits = [] then [val]
      else concat (map (\<lambda>d. pandigital_enumerate (remove1 d digits) (i64 (i64 (val * 10) + d)))
                       digits))"
  by pat_completeness auto
termination
  by (relation "measure (\<lambda>(digits, val). length digits)")
    (auto simp: length_remove1 length_pos_if_in_set)

text \<open>
  The class \<open>ChooseAll\<close>. The test of the loop compares in \<open>double\<close>; it is the parameter
  \<open>over back n k limit\<close>, "\<open>back * n / k > limit\<close>".
\<close>

record ChooseAll =
  choices :: "int list"
  choose_N :: int

function choose_loop ::
  "(int \<Rightarrow> int \<Rightarrow> int \<Rightarrow> int \<Rightarrow> bool) \<Rightarrow> int \<Rightarrow> int \<Rightarrow> int list \<Rightarrow> int \<Rightarrow> int \<Rightarrow> int list" where
  "choose_loop over limit N cs n k =
     (if N - k \<ge> int (length cs) then
        if over (last cs) n k limit then cs
        else
          let choice = last cs sdiv k;
              faction = last cs smod k;
              choice = i64 (choice * n);
              choice = i64 (choice + i64 (n * faction) sdiv k)
          in choose_loop over limit N (cs @ [choice]) (n - 1) (k + 1)
      else cs)"
  by pat_completeness auto
termination
  by (relation "measure (\<lambda>(over, limit, N, c, n, k). nat (N - k + 1))") auto

definition ChooseAll_init :: "(int \<Rightarrow> int \<Rightarrow> int \<Rightarrow> int \<Rightarrow> bool) \<Rightarrow> int \<Rightarrow> int \<Rightarrow> ChooseAll" where
  "ChooseAll_init over N limit =
     \<lparr>choices = choose_loop over limit N [1] N 1, choose_N = N\<rparr>"

definition K_exceed_limit :: "ChooseAll \<Rightarrow> int" where
  "K_exceed_limit this =
     (let low = int (length (choices this)) - 1; high = choose_N this - low
      in if high = low then 0 else high - low - 1)"

text \<open>
  \<open>repeatingDecimals\<close>: \<open>remainders_pos\<close> maps each remainder to the position where it first
  occurred. The loop is written with an option for "does not return".
\<close>

partial_function (option) repeating_loop ::
  "(int \<rightharpoonup> int) \<Rightarrow> int \<Rightarrow> int \<Rightarrow> int \<Rightarrow> int option" where
  "repeating_loop remainders_pos pos numer denom =
     (if numer = 0 then Some 0
      else
        let numer = i32 (numer * 10) smod denom in
        case remainders_pos numer of
          None \<Rightarrow> repeating_loop (remainders_pos(numer \<mapsto> pos)) (pos + 1) numer denom
        | Some p \<Rightarrow> Some (pos - p))"

definition repeatingDecimals :: "int \<Rightarrow> int \<Rightarrow> int option" where
  "repeatingDecimals numer denom =
     (if denom = 0 then None
      else let numer = numer smod denom in repeating_loop [numer \<mapsto> 0] 1 numer denom)"

declare pandigital_enumerate.simps [simp del] choose_loop.simps [simp del]

subsection \<open>Pandigital numbers\<close>

lemma sorted_wrt_concat_map:
  "sorted_wrt (<) xs \<Longrightarrow> (\<And>x. x \<in> set xs \<Longrightarrow> sorted_wrt (<) (f x)) \<Longrightarrow>
   (\<And>x y a b. x \<in> set xs \<Longrightarrow> y \<in> set xs \<Longrightarrow> x < y \<Longrightarrow> a \<in> set (f x) \<Longrightarrow> b \<in> set (f y) \<Longrightarrow> a < b) \<Longrightarrow>
   sorted_wrt (<) (concat (map f (xs :: int list)) :: int list)"
proof (induction xs)
  case (Cons x xs)
  have "a < b" if "a \<in> set (f x)" "b \<in> set (concat (map f xs))" for a b
  proof -
    obtain y where y: "y \<in> set xs" "b \<in> set (f y)" using \<open>b \<in> set (concat (map f xs))\<close> by auto
    then show ?thesis using Cons.prems(1) Cons.prems(3) [of x y a b] that by simp
  qed
  moreover have "sorted_wrt (<) (concat (map f xs))"
    using Cons.prems by (intro Cons.IH) (simp_all, blast)
  ultimately show ?case using Cons.prems(2) by (simp add: sorted_wrt_append)
qed simp

definition perm_numbers :: "int list \<Rightarrow> int \<Rightarrow> int set" where
  "perm_numbers ds v = (\<lambda>p. v * 10 ^ length ds + num_of 10 (rev p)) ` {p. mset p = mset ds}"

lemma perm_numbers_range:
  assumes "digits_ok 10 ds" "x \<in> perm_numbers ds v"
  shows "v * 10 ^ length ds \<le> x" "x < (v + 1) * 10 ^ length ds"
proof -
  obtain p where p: "mset p = mset ds" "x = v * 10 ^ length ds + num_of 10 (rev p)"
    using assms(2) by (auto simp: perm_numbers_def)
  have "digits_ok 10 (rev p)" using assms(1) mset_eq_setD [OF p(1)] by (simp add: digits_ok_def)
  then show "v * 10 ^ length ds \<le> x" "x < (v + 1) * 10 ^ length ds"
    using p num_of_nonneg [of 10 "rev p"] num_of_less [of 10 "rev p"] mset_eq_length [OF p(1)]
    by (simp_all add: algebra_simps)
qed

lemma perm_numbers_step:
  assumes "ds \<noteq> []"
  shows "perm_numbers ds v = (\<Union>d \<in> set ds. perm_numbers (remove1 d ds) (v * 10 + d))"
proof -
  have len: "length ds = Suc (length (remove1 d ds))" if "d \<in> set ds" for d
    using that length_pos_if_in_set [OF that] by (simp add: length_remove1)
  have num: "v * 10 ^ length ds + num_of 10 (rev (d # p)) =
      (v * 10 + d) * 10 ^ length (remove1 d ds) + num_of 10 (rev p)"
    if "d \<in> set ds" "mset p = mset (remove1 d ds)" for d p
    using mset_eq_length [OF that(2)] by (simp add: len [OF that(1)] num_of_snoc algebra_simps)
  show ?thesis
  proof (intro set_eqI iffI)
    fix x assume "x \<in> perm_numbers ds v"
    then obtain p where p: "mset p = mset ds" "x = v * 10 ^ length ds + num_of 10 (rev p)"
      by (auto simp: perm_numbers_def)
    then obtain d q where q: "p = d # q" using assms by (cases p) auto
    then have "d \<in> set ds" "mset q = mset (remove1 d ds)"
      using mset_eq_setD [OF p(1)] by (auto simp: p(1) [symmetric])
    then show "x \<in> (\<Union>d \<in> set ds. perm_numbers (remove1 d ds) (v * 10 + d))"
      using num [of d q] p(2) q unfolding perm_numbers_def by blast
  next
    fix x assume "x \<in> (\<Union>d \<in> set ds. perm_numbers (remove1 d ds) (v * 10 + d))"
    then obtain d p where d: "d \<in> set ds" "mset p = mset (remove1 d ds)"
        "x = (v * 10 + d) * 10 ^ length (remove1 d ds) + num_of 10 (rev p)"
      by (auto simp: perm_numbers_def)
    then have "mset (d # p) = mset ds" by simp
    then show "x \<in> perm_numbers ds v"
      using num [OF d(1,2)] d(3) unfolding perm_numbers_def by (metis (mono_tags) imageI mem_Collect_eq)
  qed
qed

lemma pandigital_correct:
  "digits_ok 10 ds \<Longrightarrow> sorted_wrt (<) ds \<Longrightarrow> 0 \<le> v \<Longrightarrow> (v + 1) * 10 ^ length ds \<le> 10 ^ 18 \<Longrightarrow>
   set (pandigital_enumerate ds v) = perm_numbers ds v \<and>
   sorted_wrt (<) (pandigital_enumerate ds v) \<and>
   length (pandigital_enumerate ds v) = fact (length ds)"
proof (induction ds v rule: pandigital_enumerate.induct)
  case (1 ds v)
  show ?case
  proof (cases "ds = []")
    case False
    let ?f = "\<lambda>d. pandigital_enumerate (remove1 d ds) (v * 10 + d)"
    have ok: "digits_ok 10 (remove1 d ds)" "sorted_wrt (<) (remove1 d ds)" for d
      using "1.prems"(1,2)
      by (auto simp: digits_ok_def strict_sorted_iff sorted_remove1 dest: notin_set_remove1)
    have len: "length ds = Suc (length (remove1 d ds))" if "d \<in> set ds" for d
      using that length_pos_if_in_set [OF that] by (simp add: length_remove1)
    have d: "0 \<le> d" "d < 10" if "d \<in> set ds" for d
      using "1.prems"(1) that by (auto simp: digits_ok_def)
    have b: "(v * 10 + d + 1) * 10 ^ length (remove1 d ds) \<le> 10 ^ 18"
      "i64 (i64 (v * 10) + d) = v * 10 + d" if "d \<in> set ds" for d
    proof -
      let ?l = "length (remove1 d ds)"
      have "(v * 10 + d + 1) * 10 ^ ?l \<le> (v * 10 + 10) * 10 ^ ?l"
        using d [OF that] by (intro mult_right_mono) auto
      also have *: "\<dots> \<le> 10 ^ 18"
        using "1.prems"(4) by (simp add: len [OF that] algebra_simps)
      finally show "(v * 10 + d + 1) * 10 ^ ?l \<le> 10 ^ 18" .
      have "(v * 10 + 10) * 1 \<le> (v * 10 + 10) * 10 ^ ?l"
        using "1.prems"(3) by (intro mult_left_mono) auto
      with * have "v * 10 + 10 \<le> 10 ^ 18" by simp
      then show "i64 (i64 (v * 10) + d) = v * 10 + d" using d [OF that] "1.prems"(3) by simp
    qed
    have IH: "set (?f d) = perm_numbers (remove1 d ds) (v * 10 + d) \<and> sorted_wrt (<) (?f d) \<and>
        length (?f d) = fact (length (remove1 d ds))" if "d \<in> set ds" for d
      using "1.IH" [OF False that] b [OF that] ok d [OF that] "1.prems"(3) by simp
    have eq: "pandigital_enumerate ds v = concat (map ?f ds)"
      using False b(2)
      by (subst pandigital_enumerate.simps) (simp cong: map_cong)
    have "sorted_wrt (<) (concat (map ?f ds))"
    proof (rule sorted_wrt_concat_map)
      fix x y a b assume *: "x \<in> set ds" "y \<in> set ds" "x < y" "a \<in> set (?f x)" "b \<in> set (?f y)"
      have "length (remove1 x ds) = length (remove1 y ds)"
        using len [OF *(1)] len [OF *(2)] by linarith
      moreover have "a < (v * 10 + x + 1) * 10 ^ length (remove1 x ds)"
        using * IH perm_numbers_range(2) [OF ok(1)] by blast
      moreover have "(v * 10 + x + 1) * 10 ^ length (remove1 y ds) \<le>
          (v * 10 + y) * 10 ^ length (remove1 y ds)"
        using * by (intro mult_right_mono) auto
      moreover have "(v * 10 + y) * 10 ^ length (remove1 y ds) \<le> b"
        using * IH perm_numbers_range(1) [OF ok(1)] by blast
      ultimately have "a < (v * 10 + x + 1) * 10 ^ length (remove1 y ds)" by (simp only:)
      with \<open>_ \<le> (v * 10 + y) * _\<close> \<open>_ \<le> b\<close> show "a < b" by linarith
    qed (use IH "1.prems" in auto)
    moreover have "length (concat (map ?f ds)) = fact (length ds)"
    proof -
      have "length (concat (map ?f ds)) = (\<Sum>d \<leftarrow> ds. length (?f d))"
        by (simp add: length_concat comp_def)
      also have "\<dots> = (\<Sum>d \<leftarrow> ds. fact (length ds - 1))"
        using IH len by (intro arg_cong [where f = sum_list] map_cong) auto
      also have "\<dots> = length ds * fact (length ds - 1)"
        by (simp add: sum_list_triv)
      also have "\<dots> = fact (length ds)" using False by (cases ds) auto
      finally show ?thesis .
    qed
    ultimately show ?thesis
      using False IH unfolding eq perm_numbers_step [OF False, of v] by simp
  qed (simp add: pandigital_enumerate.simps perm_numbers_def)
qed

text \<open>\<open>pandigital_enumerate\<close> calls the callback once for every permutation of the digit set:
  its arguments are the numbers the permutations spell, all of them, in strictly increasing
  order, \<open>n!\<close> in number.\<close>

theorem pandigital_enumerate_all_permutations:
  assumes "digits_ok 10 ds" "sorted_wrt (<) ds"
  shows "set (pandigital_enumerate ds 0) = {num_of 10 (rev p) |p. mset p = mset ds} \<and>
    sorted_wrt (<) (pandigital_enumerate ds 0) \<and>
    length (pandigital_enumerate ds 0) = fact (length ds)"
proof -
  have "set ds \<subseteq> {0..<10}" using assms(1) by (auto simp: digits_ok_def)
  then have "card (set ds) \<le> card {0..<10::int}" by (intro card_mono) auto
  moreover have "distinct ds" using assms(2) by (simp add: strict_sorted_iff)
  ultimately have "length ds \<le> 10" by (simp add: distinct_card)
  then have "(0 + 1) * 10 ^ length ds \<le> (10::int) ^ 18"
    using power_increasing [of "length ds" 18 "10::int"] by simp
  from pandigital_correct [OF assms order_refl this]
  show ?thesis by (auto simp: perm_numbers_def)
qed

lemma pandigital_enumerate_all_permutations_witness:
  "set (pandigital_enumerate [0, 3, 7] 0) = {num_of 10 (rev p) |p. mset p = mset [0, 3, 7::int]}
   \<and> sorted_wrt (<) (pandigital_enumerate [0, 3, 7] 0)
   \<and> length (pandigital_enumerate [0, 3, 7] 0) = fact 3"
  using pandigital_enumerate_all_permutations [of "[0, 3, 7]"] by (simp add: eval_nat_numeral)

subsection \<open>ChooseAll\<close>

text \<open>
  The test of the loop as the code's floating point comparison behaves where the loop uses it:
  exact when \<open>k\<close> divides the product, the product is at most \<open>2^53\<close> and \<open>back\<close> is within the limit.
\<close>

definition exact_over :: "(int \<Rightarrow> int \<Rightarrow> int \<Rightarrow> int \<Rightarrow> bool) \<Rightarrow> int \<Rightarrow> int \<Rightarrow> bool" where
  "exact_over over N limit \<longleftrightarrow>
     (\<forall>b n k. 0 \<le> b \<longrightarrow> b \<le> limit \<longrightarrow> 0 \<le> n \<longrightarrow> n \<le> N \<longrightarrow> 0 < k \<longrightarrow> k dvd b * n \<longrightarrow>
        b * n \<le> 2 ^ 53 \<longrightarrow> over b n k limit = (limit < b * n div k))"

lemma exact_overD:
  "exact_over over N limit \<Longrightarrow> 0 \<le> b \<Longrightarrow> b \<le> limit \<Longrightarrow> 0 \<le> n \<Longrightarrow> n \<le> N \<Longrightarrow> 0 < k \<Longrightarrow>
   k dvd b * n \<Longrightarrow> b * n \<le> 2 ^ 53 \<Longrightarrow> over b n k limit = (limit < b * n div k)"
  unfolding exact_over_def by blast

definition binomials :: "nat \<Rightarrow> nat \<Rightarrow> int list" where
  "binomials N k = map (\<lambda>j. int (N choose j)) [0..<k]"

lemma binomials_Suc: "binomials N (Suc k) = binomials N k @ [int (N choose k)]"
  by (simp add: binomials_def)

lemma binomial_step:
  "k < N \<Longrightarrow> int (N choose k) * (int N - int k) = int (N choose Suc k) * (int k + 1)"
proof -
  assume "k < N"
  have "Suc k * (N choose Suc k) = (N choose k) * (N - k)"
    by (metis binomial_absorb_comp binomial_absorption mult.commute)
  then have "int (Suc k) * int (N choose Suc k) = int (N choose k) * int (N - k)"
    by (metis of_nat_mult)
  then show ?thesis using \<open>k < N\<close> by (simp add: of_nat_diff algebra_simps)
qed

lemma split_division:
  assumes "0 \<le> (b::int)" "0 < k" "b * n = c * k"
  shows "b div k * n + n * (b mod k) div k = c"
proof -
  have split: "n * r = (c - q * n) * k" if "(k * q + r) * n = c * k" for q r
    using that by (simp add: algebra_simps)
  have "n * (b mod k) = (c - b div k * n) * k"
    by (rule split) (simp only: mult_div_mod_eq assms(3))
  then show ?thesis using assms(2) by simp
qed

lemma choose_loop_correct:
  assumes over: "exact_over over (int N) limit" and lim: "limit * int N \<le> 2 ^ 53"
  shows "1 \<le> k \<Longrightarrow> 2 * (k - 1) \<le> N \<Longrightarrow> \<forall>j < k. int (N choose j) \<le> limit \<Longrightarrow>
    \<exists>m \<ge> 1. choose_loop over limit (int N) (binomials N k) (int N - int k + 1) (int k) = binomials N m \<and>
      2 * (m - 1) \<le> N \<and> (\<forall>j < m. int (N choose j) \<le> limit) \<and>
      (2 * m \<le> N \<longrightarrow> limit < int (N choose m))"
proof (induction "N - k" arbitrary: k)
  case (0 k)
  then have "\<not> int N - int k \<ge> int (length (binomials N k))"
    unfolding binomials_def length_map length_upt by linarith
  then have "choose_loop over limit (int N) (binomials N k) (int N - int k + 1) (int k) = binomials N k"
    by (subst choose_loop.simps) (simp only: if_False)
  then show ?case using 0 by (intro exI [of _ k]) simp
next
  case (Suc d k)
  obtain i where i: "k = Suc i" using Suc.prems(1) by (cases k) auto
  let ?b = "int (N choose i)" and ?n = "int N - int k + 1" and ?c = "int (N choose k)"
  show ?case
  proof (cases "2 * k \<le> N")
    case False
    then have "\<not> int N - int k \<ge> int (length (binomials N k))"
      unfolding binomials_def length_map length_upt by linarith
    then have "choose_loop over limit (int N) (binomials N k) ?n (int k) = binomials N k"
      by (subst choose_loop.simps) (simp only: if_False)
    then show ?thesis using Suc.prems False by (intro exI [of _ k]) simp
  next
    case True
    then have go: "int N - int k \<ge> int (length (binomials N k))" by (simp add: binomials_def)
    have last: "last (binomials N k) = ?b" by (simp add: i binomials_Suc)
    have prod: "?b * ?n = ?c * int k"
      using binomial_step [of i N] Suc.hyps(2) i by (simp add: algebra_simps)
    have b: "0 \<le> ?b" "?b \<le> limit" using Suc.prems(3) i by auto
    have n: "0 \<le> ?n" "?n \<le> int N" using Suc.hyps(2) Suc.prems(1) by auto
    then have "?b * ?n \<le> limit * int N" using b by (intro mult_mono) auto
    then have pb: "?b * ?n \<le> 2 ^ 53" using lim by linarith
    have "over ?b ?n (int k) limit = (limit < ?b * ?n div int k)"
      using b n pb i prod by (intro exact_overD [OF over]) simp_all
    then have ov: "over ?b ?n (int k) limit \<longleftrightarrow> limit < ?c" unfolding prod using i by simp
    show ?thesis
    proof (cases "limit < ?c")
      case True
      then have "choose_loop over limit (int N) (binomials N k) ?n (int k) = binomials N k"
        using go last ov by (subst choose_loop.simps) simp
      then show ?thesis using Suc.prems True by (intro exI [of _ k]) simp
    next
      case False
      have "0 < int k" using i by simp
      then have "0 \<le> ?b mod int k" "0 \<le> ?b div int k"
        by (rule pos_mod_sign, intro div_nonneg_int) (use b(1) in auto)
      then have q: "0 \<le> ?b div int k * ?n" "0 \<le> ?n * (?b mod int k)"
        using n(1) by (simp_all only: mult_nonneg_nonneg)
      have "?b div int k \<le> ?b" by (simp flip: zdiv_int)
      then have "?b div int k * ?n \<le> ?b * ?n" using n by (intro mult_right_mono) auto
      moreover have "?n * (?b mod int k) \<le> ?n * ?b"
        using n b by (intro mult_left_mono) (simp_all add: zmod_le_nonneg_dividend)
      moreover have "?c \<le> ?c * int k" using mult_left_mono [of 1 "int k" ?c] i by simp
      moreover have "(2::int) ^ 53 < 9223372036854775808" by simp
      ultimately have w: "i64 (?b div int k * ?n) = ?b div int k * ?n"
        "i64 (?n * (?b mod int k)) = ?n * (?b mod int k)" "i64 ?c = ?c"
        using q pb prod by (auto intro!: i64_id simp: mult.commute)
      have "?b div int k * ?n + ?n * (?b mod int k) div int k = ?c"
        using b i prod by (intro split_division) auto
      then have "choose_loop over limit (int N) (binomials N k) ?n (int k) =
          choose_loop over limit (int N) (binomials N (Suc k)) (int N - int (Suc k) + 1) (int (Suc k))"
        using go last ov False b i w q
        by (subst choose_loop.simps) (simp add: Let_def binomials_Suc)
      moreover have "\<forall>j < Suc k. int (N choose j) \<le> limit"
        using Suc.prems(3) False by (auto simp: less_Suc_eq)
      ultimately show ?thesis
        using Suc.hyps(1) [of "Suc k"] Suc.hyps(2) True Suc.prems by simp
    qed
  qed
qed

text \<open>\<open>ChooseAll\<close> computes the binomial coefficients of \<open>N\<close> only as far as the limit, and
  \<open>K_exceed_limit\<close> still counts all of them: it is the number of \<open>k\<close> from 0 to \<open>N\<close> for which
  \<open>N choose k\<close> exceeds the limit. No step overflows while \<open>limit * N\<close> is at most \<open>2^53\<close>.\<close>

theorem K_exceed_limit_counts:
  assumes over: "exact_over over (int N) limit" and lim: "1 \<le> limit" "limit * int N \<le> 2 ^ 53"
  shows "K_exceed_limit (ChooseAll_init over (int N) limit) =
    int (card {k. k \<le> N \<and> limit < int (N choose k)})"
proof -
  have "[1] = binomials N 1" by (simp add: binomials_def)
  then obtain m where m: "1 \<le> m" "choices (ChooseAll_init over (int N) limit) = binomials N m"
      "2 * (m - 1) \<le> N" "\<forall>j < m. int (N choose j) \<le> limit"
      "2 * m \<le> N \<Longrightarrow> limit < int (N choose m)"
    using choose_loop_correct [OF over lim(2), of 1] lim(1) by (auto simp: ChooseAll_init_def)
  have below: "int (N choose k) \<le> limit" if "k < m \<or> N < k + m" "k \<le> N" for k
  proof (cases "k < m")
    case False
    then have "N - k < m" using that by linarith
    then show ?thesis using m(4) binomial_symmetric [OF that(2)] by auto
  qed (use m(4) in simp)
  have above: "limit < int (N choose k)" if "m \<le> k" "k + m \<le> N" for k
  proof -
    have "N choose m \<le> N choose k"
    proof (cases "2 * k \<le> N")
      case True
      then show ?thesis using that by (intro binomial_mono) auto
    next
      case False
      then have "N choose m \<le> N choose (N - k)" using that by (intro binomial_mono) auto
      then show ?thesis using binomial_symmetric [of k N] that by simp
    qed
    moreover have "limit < int (N choose m)" using m(5) that by simp
    ultimately show ?thesis by linarith
  qed
  have "{k. k \<le> N \<and> limit < int (N choose k)} = {m..<N + 1 - m}"
  proof (intro set_eqI iffI)
    fix k assume "k \<in> {k. k \<le> N \<and> limit < int (N choose k)}"
    then have "k \<le> N" "\<not> (k < m \<or> N < k + m)" using below [of k] by (auto simp: not_le)
    then show "k \<in> {m..<N + 1 - m}" by auto
  next
    fix k assume "k \<in> {m..<N + 1 - m}"
    then show "k \<in> {k. k \<le> N \<and> limit < int (N choose k)}" using above [of k] by auto
  qed
  then have "card {k. k \<le> N \<and> limit < int (N choose k)} = N + 1 - m - m" by simp
  moreover have "K_exceed_limit (ChooseAll_init over (int N) limit) = int (N + 1 - m - m)"
    using m(1-3) by (auto simp: K_exceed_limit_def ChooseAll_init_def Let_def binomials_def)
  ultimately show ?thesis by simp
qed

lemma K_exceed_limit_counts_witness:
  "K_exceed_limit (ChooseAll_init (\<lambda>b n k limit. limit * k < b * n) (int 23) 1000000) =
     int (card {k. k \<le> 23 \<and> 1000000 < int (23 choose k)})
   \<and> K_exceed_limit (ChooseAll_init (\<lambda>b n k limit. limit * k < b * n) (int 23) 1000000) = 4"
proof
  have "exact_over (\<lambda>b n k limit. limit * k < b * n) (int 23) 1000000"
    unfolding exact_over_def by (auto elim!: dvdE simp: mult.commute)
  then show "K_exceed_limit (ChooseAll_init (\<lambda>b n k limit. limit * k < b * n) (int 23) 1000000) =
     int (card {k. k \<le> 23 \<and> 1000000 < int (23 choose k)})"
    by (rule K_exceed_limit_counts) simp_all
  show "K_exceed_limit (ChooseAll_init (\<lambda>b n k limit. limit * k < b * n) (int 23) 1000000) = 4"
    by (simp add: K_exceed_limit_def ChooseAll_init_def choose_loop.simps)
qed

subsection \<open>The period of a decimal fraction\<close>

text \<open>The remainders of the long division, and what a period of their sequence is.\<close>

definition remainder :: "int \<Rightarrow> int \<Rightarrow> nat \<Rightarrow> int" where
  "remainder numer denom i = numer * 10 ^ i mod denom"

definition has_period :: "(nat \<Rightarrow> int) \<Rightarrow> nat \<Rightarrow> bool" where
  "has_period r t \<longleftrightarrow> (\<exists>s. \<forall>i \<ge> s. r (i + t) = r i)"

lemma remainder_Suc: "remainder numer denom (Suc i) = 10 * remainder numer denom i mod denom"
  by (simp add: remainder_def mod_mult_right_eq mult.left_commute)

lemma remainder_shift:
  "remainder numer denom a = remainder numer denom b \<Longrightarrow>
   remainder numer denom (a + i) = remainder numer denom (b + i)"
  by (induction i) (simp_all add: remainder_Suc)

lemma remainder_period_from:
  assumes "remainder numer denom (p + t) = remainder numer denom p" "p \<le> i"
  shows "remainder numer denom (i + t) = remainder numer denom i"
  using remainder_shift [OF assms(1), of "i - p"] assms(2) by (simp add: ac_simps)

lemma remainder_period_mult:
  assumes "remainder numer denom (p + t) = remainder numer denom p" "p \<le> i"
  shows "remainder numer denom (i + k * t) = remainder numer denom i"
proof (induction k)
  case (Suc k)
  have "remainder numer denom (i + k * t + t) = remainder numer denom (i + k * t)"
    by (rule remainder_period_from [OF assms(1)]) (use assms(2) in simp)
  moreover have "i + Suc k * t = i + k * t + t" by simp
  ultimately show ?case using Suc by (simp only:)
qed simp

text \<open>If the first repetition is at \<open>p + t\<close>, then no shorter period occurs anywhere later.\<close>

lemma first_repetition_minimal:
  assumes rep: "remainder numer denom (p + t) = remainder numer denom p"
    and dist: "inj_on (remainder numer denom) {..<p + t}"
    and j: "0 < j" "has_period (remainder numer denom) j"
  shows "t \<le> j"
proof (rule ccontr)
  assume "\<not> t \<le> j"
  then have "j < t" by simp
  obtain s where s: "\<forall>i \<ge> s. remainder numer denom (i + j) = remainder numer denom i"
    using j(2) by (auto simp: has_period_def)
  have "s \<le> s * t" using \<open>j < t\<close> by simp
  then have "remainder numer denom (p + s * t + j) = remainder numer denom (p + s * t)"
    using s [rule_format, of "p + s * t"] by linarith
  moreover have "remainder numer denom (p + s * t + j) = remainder numer denom (p + j)"
    using remainder_period_mult [OF rep, of "p + j" s] by (simp add: ac_simps)
  moreover have "remainder numer denom (p + s * t) = remainder numer denom p"
    using remainder_period_mult [OF rep, of p s] by simp
  ultimately have "remainder numer denom (p + j) = remainder numer denom p" by simp
  then show False using dist \<open>j < t\<close> j(1) by (auto dest!: inj_onD)
qed

text \<open>The map of the loop: every remainder so far at its position, all of them different.\<close>

definition seen :: "int \<Rightarrow> int \<Rightarrow> (int \<rightharpoonup> int) \<Rightarrow> nat \<Rightarrow> bool" where
  "seen numer denom m pos \<longleftrightarrow> inj_on (remainder numer denom) {..<pos} \<and>
     (\<forall>i < pos. m (remainder numer denom i) = Some (int i)) \<and>
     dom m = remainder numer denom ` {..<pos}"

lemma seen_insert:
  assumes "seen numer denom m pos" "m (remainder numer denom pos) = None"
  shows "seen numer denom (m(remainder numer denom pos \<mapsto> int pos)) (Suc pos)"
proof -
  have new: "remainder numer denom pos \<notin> remainder numer denom ` {..<pos}"
    using assms by (auto simp: seen_def)
  then show ?thesis using assms unfolding seen_def
    by (auto simp: lessThan_Suc less_Suc_eq inj_on_insert)
qed

lemma seen_bounded:
  assumes "seen numer denom m pos" "0 < denom"
  shows "int pos \<le> denom"
proof -
  have "remainder numer denom ` {..<pos} \<subseteq> {0..<denom}"
    using assms(2) by (auto simp: remainder_def)
  then have "card (remainder numer denom ` {..<pos}) \<le> card {0..<denom}"
    by (intro card_mono) auto
  then show ?thesis using assms by (simp add: seen_def card_image)
qed

definition period_answer :: "int \<Rightarrow> int \<Rightarrow> int \<Rightarrow> bool" where
  "period_answer numer denom k \<longleftrightarrow>
     (if \<exists>i. remainder numer denom i = 0 then k = 0
      else 0 < k \<and> has_period (remainder numer denom) (nat k) \<and>
        (\<forall>j. 0 < j \<longrightarrow> has_period (remainder numer denom) j \<longrightarrow> nat k \<le> j))"

lemma repeating_loop_correct:
  assumes d: "0 < denom" "denom * 10 \<le> 2 ^ 31"
  shows "seen numer denom m (Suc i) \<Longrightarrow> \<forall>j < i. remainder numer denom j \<noteq> 0 \<Longrightarrow>
    \<exists>k. repeating_loop m (int i + 1) (remainder numer denom i) denom = Some k \<and>
      period_answer numer denom k"
proof (induction "nat denom - i" arbitrary: m i rule: less_induct)
  case (less i m)
  let ?r = "remainder numer denom"
  have pos: "int i < denom" using seen_bounded [OF less.prems(1) d(1)] by simp
  show ?case
  proof (cases "?r i = 0")
    case True
    then show ?thesis
      by (subst repeating_loop.simps) (auto simp: period_answer_def)
  next
    case False
    have "0 \<le> ?r i" "?r i < denom" using d by (simp_all add: remainder_def)
    then have step: "i32 (?r i * 10) smod denom = ?r (Suc i)"
      using d by (simp add: remainder_Suc mult.commute)
    show ?thesis
    proof (cases "m (?r (Suc i))")
      case None
      then have "repeating_loop m (int i + 1) (?r i) denom =
          repeating_loop (m(?r (Suc i) \<mapsto> int (Suc i))) (int (Suc i) + 1) (?r (Suc i)) denom"
        using False step by (subst repeating_loop.simps) (simp add: Let_def add.commute)
      moreover have "nat denom - Suc i < nat denom - i" using pos by linarith
      moreover have "\<forall>j < Suc i. ?r j \<noteq> 0" using less.prems(2) False by (simp add: less_Suc_eq)
      ultimately show ?thesis
        using less.hyps seen_insert [OF less.prems(1) None] by presburger
    next
      case (Some v)
      then have "?r (Suc i) \<in> ?r ` {..<Suc i}" using less.prems(1) by (auto simp: seen_def)
      then obtain p where p: "p < Suc i" "?r (Suc i) = ?r p" by blast
      then have v: "v = int p" using Some less.prems(1) by (simp add: seen_def)
      define t where "t = Suc i - p"
      then have t: "Suc i = p + t" "0 < t" using p(1) by auto
      have rep: "?r (p + t) = ?r p" using p(2) t by simp
      have result: "repeating_loop m (int i + 1) (?r i) denom = Some (int t)"
        using False step Some v t by (subst repeating_loop.simps) (simp add: Let_def)
      have nz: "?r j \<noteq> 0" for j
      proof (cases "j < Suc i")
        case True
        then show ?thesis using less.prems(2) False by (auto simp: less_Suc_eq)
      next
        case False
        then have "?r j = ?r (p + (j - p) mod t)"
          using remainder_period_mult [OF rep, of "p + (j - p) mod t" "(j - p) div t"] t
          by (simp add: ac_simps)
        moreover have "p + (j - p) mod t < Suc i" using t by simp
        ultimately show ?thesis using less.prems(2) \<open>?r i \<noteq> 0\<close> by (metis less_Suc_eq)
      qed
      have "has_period ?r t"
        using remainder_period_from [OF rep] by (auto simp: has_period_def)
      moreover have "t \<le> j" if "0 < j" "has_period ?r j" for j
        using first_repetition_minimal [OF rep _ that] less.prems(1) t by (simp add: seen_def)
      ultimately show ?thesis using result nz t by (auto simp: period_answer_def)
    qed
  qed
qed

text \<open>C34: For a numerator that is not negative and a positive denominator with \<open>denom * 10 \<le> 2^31\<close>, below which
  the multiplication of a remainder by 10 cannot overflow, \<open>repeatingDecimals\<close> returns. For a fraction with a finite expansion (some
  remainder of the long division is 0) the answer is 0, otherwise it is the length of the
  repetend: the least period that the sequence of remainders has from some point on.\<close>

theorem repeatingDecimals_least_period:
  assumes "0 \<le> numer" "0 < denom" "denom * 10 \<le> 2 ^ 31"
  shows "\<exists>k. repeatingDecimals numer denom = Some k \<and> period_answer numer denom k"
proof -
  have "seen numer denom [remainder numer denom 0 \<mapsto> 0] (Suc 0)"
    by (auto simp: seen_def lessThan_Suc)
  from repeating_loop_correct [OF assms(2,3) this] show ?thesis
    using assms by (simp add: repeatingDecimals_def remainder_def Let_def)
qed

lemma repeatingDecimals_least_period_witness:
  "\<exists>k. repeatingDecimals 1 7 = Some k \<and> period_answer 1 7 k"
  by (rule repeatingDecimals_least_period) simp_all

end
