(* ===== verification/PrimeLemmas.thy ===== *)
theory PrimeLemmas
  imports Main
begin

section \<open>Prime numbers\<close>

text \<open>
  The facts of number theory that the verification of \<open>library/mathlib_primes.h\<close> needs: Euclid's
  lemma, Fermat's little theorem, the square roots of 1 modulo a prime, and the product
  formula for the totient function.
\<close>

definition prime_num :: "nat \<Rightarrow> bool" where
  "prime_num p \<longleftrightarrow> 1 < p \<and> (\<forall>d. d dvd p \<longrightarrow> d = 1 \<or> d = p)"

lemma prime_numD: "prime_num p \<Longrightarrow> 1 < p" "prime_num p \<Longrightarrow> d dvd p \<Longrightarrow> d = 1 \<or> d = p"
  by (auto simp: prime_num_def)

lemma prime_num_pos [simp]: "prime_num p \<Longrightarrow> 0 < p"
  by (auto simp: prime_num_def)

lemma mod_eq_dvd_diff: "a mod p = b mod p \<Longrightarrow> b \<le> a \<Longrightarrow> p dvd a - (b::nat)"
  using mod_eq_dvd_iff_nat by blast

lemma dvd_diff_mod_eq: "p dvd a - b \<Longrightarrow> b \<le> a \<Longrightarrow> a mod p = b mod (p::nat)"
  using mod_eq_dvd_iff_nat by blast

lemma prime_coprime:
  assumes "prime_num p" "\<not> p dvd a"
  shows "coprime p a"
proof -
  have "gcd p a = 1 \<or> gcd p a = p" by (rule prime_numD(2) [OF assms(1)]) simp
  moreover have "gcd p a \<noteq> p" using assms(2) by (metis gcd_dvd2)
  ultimately show ?thesis by (simp add: coprime_iff_gcd_eq_1)
qed

lemma prime_dvd_mult:
  assumes "prime_num p" "p dvd a * b"
  shows "p dvd a \<or> p dvd b"
  using prime_coprime [OF assms(1), of a] assms(2) coprime_dvd_mult_right_iff [of p a b] by blast

lemma prime_dvd_power: "prime_num p \<Longrightarrow> p dvd a ^ n \<Longrightarrow> p dvd a"
  by (induction n) (auto dest: prime_dvd_mult prime_numD)

lemma prime_dvd_prod:
  "finite A \<Longrightarrow> prime_num p \<Longrightarrow> p dvd prod f A \<Longrightarrow> \<exists>a \<in> A. p dvd (f a :: nat)"
proof (induction A rule: finite_induct)
  case empty
  then show ?case by (auto dest: prime_numD)
next
  case (insert x F)
  then show ?case by (auto dest: prime_dvd_mult)
qed

lemma prime_dvd_prime: "prime_num p \<Longrightarrow> prime_num q \<Longrightarrow> p dvd q \<Longrightarrow> p = q"
  by (auto dest: prime_numD)

lemma exists_prime_divisor:
  assumes "1 < n"
  obtains p where "prime_num p" "p dvd n"
proof -
  let ?p = "LEAST d. 1 < d \<and> d dvd n"
  have p: "1 < ?p \<and> ?p dvd n" by (rule LeastI [of _ n]) (use assms in simp)
  have "prime_num ?p" unfolding prime_num_def
  proof (intro conjI allI impI)
    fix d assume d: "d dvd ?p"
    have "?p \<le> d" if "1 < d" using that d p by (intro Least_le) (auto intro: dvd_trans)
    moreover have "d \<le> ?p" using d p by (intro dvd_imp_le) simp_all
    moreover have "d \<noteq> 0" using d p by (metis dvd_0_left not_one_less_zero)
    ultimately show "d = 1 \<or> d = ?p" by linarith
  qed (use p in simp)
  with p that show ?thesis by blast
qed

text \<open>A composite number has a prime divisor of at most its square root.\<close>

lemma composite_small_divisor:
  assumes "1 < n" "\<not> prime_num n"
  obtains p where "prime_num p" "p dvd n" "p * p \<le> n"
proof -
  obtain d where "d dvd n" "d \<noteq> 1" "d \<noteq> n" using assms by (auto simp: prime_num_def)
  then obtain e where de: "n = d * e" by (elim dvdE)
  have "d \<noteq> 0" "e \<noteq> 0" using de assms(1) by (auto intro: Nat.gr0I)
  moreover have "e \<noteq> 1" using de \<open>d \<noteq> n\<close> by auto
  ultimately have "1 < d" "1 < e" using \<open>d \<noteq> 1\<close> by linarith+
  have "\<exists>m. 1 < m \<and> m dvd n \<and> m * m \<le> n"
  proof (cases "d \<le> e")
    case True
    then show ?thesis using de \<open>1 < d\<close> by (intro exI [of _ d]) auto
  next
    case False
    then show ?thesis using de \<open>1 < e\<close> by (intro exI [of _ e]) auto
  qed
  then obtain m where m: "1 < m" "m dvd n" "m * m \<le> n" by blast
  obtain p where p: "prime_num p" "p dvd m" using exists_prime_divisor [OF m(1)] .
  have "p \<le> m" using p(2) m(1) by (intro dvd_imp_le) auto
  then have "p * p \<le> m * m" by (intro mult_mono) auto
  with m p that show ?thesis by (meson dvd_trans le_trans)
qed

lemma prime_num_iff:
  "prime_num n \<longleftrightarrow> 1 < n \<and> (\<forall>p. prime_num p \<longrightarrow> p * p \<le> n \<longrightarrow> \<not> p dvd n)"
proof
  assume n: "prime_num n"
  have False if "prime_num p" "p * p \<le> n" "p dvd n" for p
  proof -
    have "p = n" using prime_dvd_prime [OF that(1) n that(3)] .
    then show False using that(2) prime_numD(1) [OF n] by simp
  qed
  then show "1 < n \<and> (\<forall>p. prime_num p \<longrightarrow> p * p \<le> n \<longrightarrow> \<not> p dvd n)"
    using n by (auto dest: prime_numD)
next
  assume *: "1 < n \<and> (\<forall>p. prime_num p \<longrightarrow> p * p \<le> n \<longrightarrow> \<not> p dvd n)"
  then show "prime_num n" by (meson composite_small_divisor)
qed

subsection \<open>Fermat's little theorem\<close>

lemma mult_mod_permutes:
  assumes p: "prime_num p" and a: "\<not> p dvd a"
  shows "bij_betw (\<lambda>i. a * i mod p) {1..<p} {1..<p}"
proof -
  let ?f = "\<lambda>i. a * i mod p"
  have "?f ` {1..<p} \<subseteq> {1..<p}"
  proof
    fix x assume "x \<in> ?f ` {1..<p}"
    then obtain i where i: "x = a * i mod p" "1 \<le> i" "i < p" by auto
    have "\<not> p dvd i" using i nat_dvd_not_less by auto
    then have "\<not> p dvd a * i" using a prime_dvd_mult [OF p] by blast
    then have "x \<noteq> 0" using i(1) by (auto simp: dvd_eq_mod_eq_0)
    then show "x \<in> {1..<p}" using i p by simp
  qed
  moreover have "inj_on ?f {1..<p}"
  proof (intro linorder_inj_onI)
    fix i j assume ij: "i < j" "i \<in> {1..<p}" "j \<in> {1..<p}"
    show "?f i \<noteq> ?f j"
    proof
      assume "?f i = ?f j"
      then have "p dvd a * j - a * i" 
        using ij(1) by (intro mod_eq_dvd_diff) simp_all
      then have "p dvd a * (j - i)" by (simp add: right_diff_distrib')
      then have "p dvd j - i" using a prime_dvd_mult [OF p] by blast
      then show False using ij by (auto dest!: dvd_imp_le)
    qed
  qed auto
  ultimately show ?thesis
    by (intro bij_betw_imageI) (auto simp: endo_inj_surj)
qed

theorem fermat_little:
  assumes p: "prime_num p" and a: "\<not> p dvd a"
  shows "a ^ (p - 1) mod p = 1"
proof -
  let ?P = "\<Prod>i \<in> {1..<p}. i"
  have "(\<Prod>i \<in> {1..<p}. a * i mod p) = ?P"
    using prod.reindex_bij_betw [OF mult_mod_permutes [OF p a], of "\<lambda>x. x"] by simp
  then have "?P mod p = (\<Prod>i \<in> {1..<p}. a * i) mod p"
    by (metis mod_prod_eq)
  also have "(\<Prod>i \<in> {1..<p}. a * i) = a ^ (p - 1) * ?P"
    by (simp add: prod.distrib)
  finally have eq: "a ^ (p - 1) * ?P mod p = ?P mod p" ..
  have "0 < a" using a by (intro Nat.gr0I) auto
  then have ge: "1 \<le> a ^ (p - 1)" by (simp add: Suc_le_eq)
  have "p dvd a ^ (p - 1) * ?P - 1 * ?P"
    using eq mult_right_mono [OF ge, of ?P] by (intro mod_eq_dvd_diff) simp_all
  then have "p dvd (a ^ (p - 1) - 1) * ?P" by (simp add: diff_mult_distrib)
  moreover have "\<not> p dvd ?P"
    using prime_dvd_prod [OF _ p, of "{1..<p}" "\<lambda>i. i"] nat_dvd_not_less by fastforce
  ultimately have "p dvd a ^ (p - 1) - 1" using prime_dvd_mult [OF p] by blast
  then have "a ^ (p - 1) mod p = 1 mod p" using ge by (rule dvd_diff_mod_eq)
  then show ?thesis using prime_numD(1) [OF p] by simp
qed

text \<open>The only square roots of 1 modulo a prime are 1 and -1.\<close>

lemma square_root_of_1:
  assumes p: "prime_num p" and x: "x < p" "x * x mod p = 1"
  shows "x = 1 \<or> x = p - 1"
proof -
  have "x \<noteq> 0" using x by (intro notI) simp
  then have ge: "1 \<le> x * x" by simp
  have "x * x mod p = 1 mod p" using x(2) prime_numD(1) [OF p] by simp
  then have "p dvd x * x - 1" using ge by (rule mod_eq_dvd_diff)
  also have "x * x - 1 = (x - 1) * (x + 1)" using \<open>x \<noteq> 0\<close> by (simp add: algebra_simps)
  finally have "p dvd x - 1 \<or> p dvd x + 1" using prime_dvd_mult [OF p] by blast
  then show ?thesis
  proof
    assume "p dvd x - 1"
    then have "x - 1 = 0" using x(1) by (meson dvd_imp_le less_imp_diff_less not_le not_gr_zero)
    then show ?thesis using \<open>x \<noteq> 0\<close> by simp
  next
    assume "p dvd x + 1"
    then have "p \<le> x + 1" by (rule dvd_imp_le) simp
    then have "p = x + 1" using x(1) by linarith
    then show ?thesis by simp
  qed
qed

subsection \<open>Counting the numbers without given prime divisors\<close>

definition free_of :: "nat set \<Rightarrow> nat \<Rightarrow> nat set" where
  "free_of P n = {m \<in> {1..n}. \<forall>p \<in> P. \<not> p dvd m}"

lemma finite_free_of [simp]: "finite (free_of P n)"
  by (simp add: free_of_def)

lemma prod_primes_dvd:
  "finite P \<Longrightarrow> \<forall>p \<in> P. prime_num p \<and> p dvd n \<Longrightarrow> \<Prod>P dvd n"
proof (induction P rule: finite_induct)
  case (insert q P)
  have "\<not> q dvd \<Prod>P"
    using prime_dvd_prod [OF insert.hyps(1), of q "\<lambda>x. x"] insert.prems insert.hyps(2)
      prime_dvd_prime by blast
  then have "coprime q (\<Prod>P)" using insert.prems by (intro prime_coprime) auto
  moreover have "\<Prod>P dvd n" "q dvd n" using insert by auto
  ultimately have "q * \<Prod>P dvd n" by (intro divides_mult) auto
  then show ?case using insert.hyps by simp
qed simp

text \<open>Dropping the multiples of one more prime takes away its share.\<close>

lemma free_of_insert:
  assumes q: "prime_num q" "q \<notin> P" "q dvd n" and P: "\<forall>p \<in> P. prime_num p"
  shows "card (free_of P n) = card (free_of (insert q P) n) + card (free_of P (n div q))"
proof -
  have q0: "0 < q" using q(1) by simp
  have split: "free_of P n = free_of (insert q P) n \<union> (*) q ` free_of P (n div q)"
  proof (intro set_eqI iffI)
    fix m assume m: "m \<in> free_of P n"
    show "m \<in> free_of (insert q P) n \<union> (*) q ` free_of P (n div q)"
    proof (cases "q dvd m")
      case True
      then obtain k where k: "m = q * k" by (elim dvdE)
      have "k \<le> n div q" using m k q0 by (simp add: free_of_def less_eq_div_iff_mult_less_eq mult.commute)
      moreover have "1 \<le> k" using m k by (cases k) (auto simp: free_of_def)
      ultimately have "k \<in> free_of P (n div q)" using m k by (auto simp: free_of_def)
      then show ?thesis using k by blast
    qed (use m in \<open>auto simp: free_of_def\<close>)
  next
    fix m assume "m \<in> free_of (insert q P) n \<union> (*) q ` free_of P (n div q)"
    then show "m \<in> free_of P n"
    proof
      assume "m \<in> (*) q ` free_of P (n div q)"
      then obtain k where k: "m = q * k" "1 \<le> k" "k \<le> n div q" "\<forall>p \<in> P. \<not> p dvd k"
        by (auto simp: free_of_def)
      have "\<not> p dvd q * k" if "p \<in> P" for p
        using k(4) that P q prime_dvd_mult [of p q k] prime_dvd_prime [of p q] by blast
      moreover have "q * k \<le> n"
        using k(3) q0 by (simp add: less_eq_div_iff_mult_less_eq mult.commute)
      ultimately show ?thesis using k(1,2) q0 by (auto simp: free_of_def)
    qed (auto simp: free_of_def)
  qed
  have "free_of (insert q P) n \<inter> (*) q ` free_of P (n div q) = {}"
    by (auto simp: free_of_def)
  moreover have "card ((*) q ` free_of P (n div q)) = card (free_of P (n div q))"
    using q0 by (intro card_image inj_onI) auto
  ultimately show ?thesis unfolding split by (subst card_Un_disjoint) auto
qed

lemma card_free_of:
  "finite P \<Longrightarrow> \<forall>p \<in> P. prime_num p \<and> p dvd n \<Longrightarrow>
   card (free_of P n) * \<Prod>P = n * (\<Prod>p \<in> P. p - 1)"
proof (induction P arbitrary: n rule: finite_induct)
  case empty
  have "free_of {} n = {1..n}" by (auto simp: free_of_def)
  then show ?case by simp
next
  case (insert q P)
  have q: "prime_num q" "q dvd n" and P: "\<forall>p \<in> P. prime_num p \<and> p dvd n"
    using insert.prems by auto
  obtain k where k: "n = q * k" using q(2) by (elim dvdE)
  have q0: "0 < q" using q(1) by simp
  have kP: "\<forall>p \<in> P. prime_num p \<and> p dvd k"
  proof
    fix p assume "p \<in> P"
    then have "prime_num p" "p dvd q * k" "p \<noteq> q" using P k insert.hyps(2) by auto
    then show "prime_num p \<and> p dvd k"
      using prime_dvd_mult [of p q k] prime_dvd_prime [of p q] q(1) by blast
  qed
  have n: "card (free_of P n) * \<Prod>P = n * (\<Prod>p \<in> P. p - 1)" by (rule insert.IH [OF P])
  have k': "card (free_of P k) * \<Prod>P = k * (\<Prod>p \<in> P. p - 1)" by (rule insert.IH [OF kP])
  have "card (free_of P n) = card (free_of (insert q P) n) + card (free_of P k)"
    using free_of_insert [OF q(1) insert.hyps(2) q(2)] P k q0 by simp
  then have "card (free_of (insert q P) n) * \<Prod>P + k * (\<Prod>p \<in> P. p - 1) = n * (\<Prod>p \<in> P. p - 1)"
    using n k' by (simp add: distrib_right)
  then have "card (free_of (insert q P) n) * \<Prod>P = (q - 1) * k * (\<Prod>p \<in> P. p - 1)"
    using k by (simp add: diff_mult_distrib)
  then have "q * (card (free_of (insert q P) n) * \<Prod>P) = q * ((q - 1) * k * (\<Prod>p \<in> P. p - 1))"
    by (rule arg_cong)
  then have "card (free_of (insert q P) n) * (q * \<Prod>P) = n * ((q - 1) * (\<Prod>p \<in> P. p - 1))"
    using k by (simp only: ac_simps)
  then show ?case using insert.hyps by simp
qed

definition prime_divisors :: "nat \<Rightarrow> nat set" where
  "prime_divisors n = {p. prime_num p \<and> p dvd n}"

lemma finite_prime_divisors: "0 < n \<Longrightarrow> finite (prime_divisors n)"
  by (rule finite_subset [of _ "{..n}"]) (auto simp: prime_divisors_def dest: dvd_imp_le)

lemma totatives_free_of:
  "{m \<in> {1..n}. coprime m n} = free_of (prime_divisors n) n"
proof -
  have "coprime m n \<longleftrightarrow> (\<forall>p \<in> prime_divisors n. \<not> p dvd m)" if "1 \<le> m" for m
  proof
    assume "coprime m n"
    then show "\<forall>p \<in> prime_divisors n. \<not> p dvd m"
      by (metis (mono_tags, lifting) coprime_common_divisor_nat less_irrefl mem_Collect_eq
          prime_divisors_def prime_numD(1))
  next
    assume free: "\<forall>p \<in> prime_divisors n. \<not> p dvd m"
    show "coprime m n"
    proof (rule ccontr)
      assume "\<not> coprime m n"
      then have "gcd m n \<noteq> 1" by (simp add: coprime_iff_gcd_eq_1)
      moreover have "gcd m n \<noteq> 0" using that by simp
      ultimately have "1 < gcd m n" by linarith
      then obtain p where "prime_num p" "p dvd gcd m n" by (rule exists_prime_divisor)
      then show False using free by (auto simp: prime_divisors_def)
    qed
  qed
  then show ?thesis by (auto simp: free_of_def)
qed

text \<open>Euler's product formula, without divisions.\<close>

theorem totient_product:
  assumes "0 < n"
  shows "card {m \<in> {1..n}. coprime m n} * \<Prod>(prime_divisors n) =
    n * (\<Prod>p \<in> prime_divisors n. p - 1)"
  unfolding totatives_free_of
  using assms by (intro card_free_of finite_prime_divisors) (auto simp: prime_divisors_def)

end
