(* ===== verification/MathPrimes.thy ===== *)
theory MathPrimes
  imports PrimeLemmas Prelude "HOL-Library.Word"
begin

section \<open>Primes (library/mathlib\_primes.h)\<close>

text \<open>
  Trial division, the sieve, factorisation, the totient, modular multiplication and powers on
  64-bit words, and the Miller--Rabin test. The random bases that the test draws are an
  argument, \<open>draws\<close>.
\<close>

subsection \<open>The model\<close>

unbundle bit_operations_syntax

text \<open>The loop of \<open>is_prime\<close>: \<open>i*i\<close> is an \<open>int\<close> product.\<close>

partial_function (option) is_prime_loop :: "int \<Rightarrow> int \<Rightarrow> bool option" where
  "is_prime_loop n i =
     (if i32 (i * i) \<le> n then
        if i = 0 then None
        else if n smod i = 0 then Some False
        else is_prime_loop n (i32 (i + 1))
      else Some True)"

definition is_prime :: "int \<Rightarrow> bool option" where
  "is_prime n = (let n = i32 \<bar>n\<bar> in if n < 2 then Some False else is_prime_loop n 2)"

text \<open>The sieve: \<open>is_primes\<close> is a vector of \<open>char\<close>. Every access is checked: it fails outside the vector, as the first two writes
  do for \<open>N < 2\<close>. A negative size throws.\<close>

partial_function (option) sieve_mark :: "nat \<Rightarrow> nat \<Rightarrow> int list \<Rightarrow> int list option" where
  "sieve_mark i j is_primes =
     (if j < length is_primes then do { is_primes \<leftarrow> vec_upd is_primes j 0; sieve_mark i (j + i) is_primes }
      else Some is_primes)"

partial_function (option) sieve_loop :: "nat \<Rightarrow> int list \<Rightarrow> int list \<Rightarrow> int list option" where
  "sieve_loop i is_primes primes =
     (if i < length is_primes then do {
        prime \<leftarrow> vec_at is_primes i;
        if prime \<noteq> 0 then do {
          is_primes' \<leftarrow> sieve_mark i (i + i) is_primes;
          sieve_loop (i + 1) is_primes' (primes @ [int i])
        }
        else sieve_loop (i + 1) is_primes primes
      }
      else Some primes)"

definition make_primes :: "int \<Rightarrow> int list option" where
  "make_primes N =
     (if N < 0 then None
      else do {
        is_primes \<leftarrow> vec_upd (replicate (nat N) 1) 1 0;
        is_primes \<leftarrow> vec_upd is_primes 0 0;
        sieve_loop 2 is_primes []
      })"

text \<open>The \<open>do\<close>-\<open>while\<close> loop that divides a prime out; it does not end for \<open>N = 0\<close>.\<close>

partial_function (option) divide_out :: "int \<Rightarrow> int \<Rightarrow> int option" where
  "divide_out p N = (let N = N sdiv p in if N smod p = 0 then divide_out p N else Some N)"

fun prime_factors_loop :: "int \<Rightarrow> int \<Rightarrow> int list \<Rightarrow> (int \<times> int) option" where
  "prime_factors_loop count N [] = Some (count, N)"
| "prime_factors_loop count N (p # ps) =
     (if i32 (p * p) > N then Some (count, N)
      else if p = 0 then None
      else if N smod p = 0 then do {
        N' \<leftarrow> divide_out p N;
        prime_factors_loop (count + 1) N' ps
      }
      else prime_factors_loop count N ps)"

definition prime_factors :: "int \<Rightarrow> int list \<Rightarrow> int option" where
  "prime_factors N primes = do {
     (count, N') \<leftarrow> prime_factors_loop 0 N primes;
     Some (count + (if N' > 1 then 1 else 0))
   }"

fun get_prime_factors_loop :: "int list \<Rightarrow> int \<Rightarrow> int list \<Rightarrow> (int list \<times> int) option" where
  "get_prime_factors_loop factors N [] = Some (factors, N)"
| "get_prime_factors_loop factors N (p # ps) =
     (if i32 (p * p) > N then Some (factors, N)
      else if p = 0 then None
      else if N smod p = 0 then do {
        N' \<leftarrow> divide_out p N;
        get_prime_factors_loop (factors @ [p]) N' ps
      }
      else get_prime_factors_loop factors N ps)"

definition get_prime_factors :: "int \<Rightarrow> int list \<Rightarrow> int list option" where
  "get_prime_factors N primes = do {
     (factors, N') \<leftarrow> get_prime_factors_loop [] N primes;
     Some (if N' > 1 then factors @ [N'] else factors)
   }"

definition euler_phi :: "int \<Rightarrow> int list \<Rightarrow> int option" where
  "euler_phi n primes = do {
     factors \<leftarrow> get_prime_factors n primes;
     Some (fold (\<lambda>f phi. i32 (phi * (f - 1)) sdiv f) factors n)
   }"

lemma unat_half: "unat (drop_bit 1 (b :: 64 word)) = unat b div 2"
  by (simp only: drop_bit_eq_div power_one_right unat_div) simp

lemma unat_half_less: "b > 0 \<Longrightarrow> unat (drop_bit 1 (b :: 64 word)) < unat b"
  by (simp only: unat_half word_less_nat_alt unat_0 int_div_less_self)

text \<open>Modular multiplication by doubling on 64-bit words; \<open>md = 0\<close> is a division by zero.\<close>

function russian_loop :: "64 word \<Rightarrow> 64 word \<Rightarrow> 64 word \<Rightarrow> 64 word \<Rightarrow> 64 word" where
  "russian_loop a b md res =
     (if a > 0 \<and> b > 0 then
        if a \<le> 0x7FFFFFFF \<and> b \<le> 0x7FFFFFFF then (a * b mod md + res) mod md
        else
          let res = (if b AND 1 \<noteq> 0
                     then (let res = res + a in if res \<ge> md then res - md else res) else res);
              a = push_bit 1 a;
              b = drop_bit 1 b;
              a = (if a \<ge> md then a - md else a)
          in russian_loop a b md res
      else res)"
  by pat_completeness auto

termination
  by (relation "measure (\<lambda>(a, b, md, res). unat b)") (auto simp: unat_half_less [unfolded One_nat_def])

definition russianPeasant_mul_mod :: "64 word \<Rightarrow> 64 word \<Rightarrow> 64 word \<Rightarrow> 64 word option" where
  "russianPeasant_mul_mod a b md =
     (if md = 0 then None
      else let a = a mod md; b = b mod md; (a, b) = (if b > a then (b, a) else (a, b))
           in Some (russian_loop a b md 0))"

function pow_mod_loop :: "64 word \<Rightarrow> 64 word \<Rightarrow> 64 word \<Rightarrow> 64 word \<Rightarrow> 64 word option" where
  "pow_mod_loop base e md res =
     (if e > 0 then do {
        res' \<leftarrow> (if e AND 1 \<noteq> 0 then russianPeasant_mul_mod res base md else Some res);
        base' \<leftarrow> russianPeasant_mul_mod base base md;
        pow_mod_loop base' (drop_bit 1 e) md res'
      }
      else Some res)"
  by pat_completeness auto
termination
  by (relation "measure (\<lambda>(b, e, md, res). unat e)") (auto simp: unat_half_less [unfolded One_nat_def])

definition pow_mod :: "64 word \<Rightarrow> 64 word \<Rightarrow> 64 word \<Rightarrow> 64 word option" where
  "pow_mod base e md = pow_mod_loop base e md 1"

declare russian_loop.simps [simp del] pow_mod_loop.simps [simp del]

text \<open>The class \<open>MillerRabinPrimality\<close>: \<open>num\<close> is its field, \<open>a\<close> the base drawn by \<open>dis(g)\<close>.\<close>

partial_function (option) mill_rabin_loop :: "64 word \<Rightarrow> 64 word \<Rightarrow> int \<Rightarrow> bool option" where
  "mill_rabin_loop num x repeats =
     (if repeats \<noteq> 0 then do {
        x' \<leftarrow> russianPeasant_mul_mod x x num;
        if x' = num - 1 then Some True
        else if x' = 1 then Some False
        else mill_rabin_loop num x' (repeats - 1)
      }
      else Some False)"

definition mill_rabin_test_prime ::
  "64 word \<Rightarrow> 64 word \<Rightarrow> 64 word \<Rightarrow> int \<Rightarrow> bool option" where
  "mill_rabin_test_prime num a d repeats = do {
     x \<leftarrow> pow_mod a d num;
     if x = 1 \<or> x = num - 1 then Some True else mill_rabin_loop num x repeats
   }"

partial_function (option) split_power2 :: "64 word \<Rightarrow> int \<Rightarrow> (64 word \<times> int) option" where
  "split_power2 d p2 =
     (if d AND 1 = 0 then split_power2 (drop_bit 1 d) (p2 + 1) else Some (d, p2))"

partial_function (option) miller_rabin_rounds ::
  "64 word \<Rightarrow> (nat \<Rightarrow> 64 word) \<Rightarrow> nat \<Rightarrow> 64 word \<Rightarrow> int \<Rightarrow> int \<Rightarrow> bool option" where
  "miller_rabin_rounds num draws i d p2 k =
     (if k \<noteq> 0 then do {
        ok \<leftarrow> mill_rabin_test_prime num (draws i) d (p2 - 1);
        if \<not> ok then Some False
        else miller_rabin_rounds num draws (i + 1) d p2 (k - 1)
      }
      else Some True)"

definition miller_rabin_prime :: "64 word \<Rightarrow> (nat \<Rightarrow> 64 word) \<Rightarrow> int \<Rightarrow> bool option" where
  "miller_rabin_prime num draws k = do {
     (d, p2) \<leftarrow> split_power2 (num - 1) 0;
     miller_rabin_rounds num draws 0 d p2 k
   }"

definition small_primes :: "64 word list" where
  "small_primes = [2, 3, 5, 7, 11, 13, 17]"

definition small_number :: "64 word" where
  "small_number = 17 * 19"

definition miller_test :: "64 word \<Rightarrow> (nat \<Rightarrow> 64 word) \<Rightarrow> int \<Rightarrow> bool option" where
  "miller_test num draws k =
     (if num < 19 then Some (num \<in> set small_primes)
      else if \<exists>p \<in> set small_primes. num mod p = 0 then Some False
      else if num < small_number then Some True
      else miller_rabin_prime num draws k)"

subsection \<open>Trial division\<close>

lemma is_prime_loop_correct:
  "n < 2147395600 \<Longrightarrow> 2 \<le> i \<Longrightarrow> (i - 1) * (i - 1) \<le> n \<Longrightarrow> \<forall>d. prime_num d \<longrightarrow> d < i \<longrightarrow> \<not> d dvd n \<Longrightarrow>
   2 \<le> n \<Longrightarrow> is_prime_loop (int n) (int i) = Some (prime_num n)"
proof (induction "n + 2 - i" arbitrary: i rule: less_induct)
  case less
  have i: "i \<le> 46340"
  proof (rule ccontr)
    assume "\<not> i \<le> 46340"
    then have "46340 * 46340 \<le> (i - 1) * (i - 1)" by (intro mult_mono) auto
    then show False using less.prems(1,3) by simp
  qed
  then have "int (i * i) \<le> int (46340 * 46340)" unfolding of_nat_le_iff by (intro mult_mono) auto
  then have sq: "i32 (int i * int i) = int (i * i)"
    unfolding of_nat_mult [symmetric] by (intro i32_id) linarith+
  show ?case
  proof (cases "i * i \<le> n")
    case False
    have "prime_num n"
    proof (subst prime_num_iff, intro conjI allI impI)
      fix p assume p: "prime_num p" "p * p \<le> n"
      have "p < i" using False p(2) mult_le_mono [of i p i p] by (metis le_trans not_le)
      then show "\<not> p dvd n" using less.prems(4) p(1) by blast
    qed (use less.prems in simp)
    then show ?thesis using False sq by (subst is_prime_loop.simps) (simp del: of_nat_mult)
  next
    case le: True
    have smod: "int n smod int i = int (n mod i)" using less.prems(2) by (simp add: zmod_int)
    show ?thesis
    proof (cases "i dvd n")
      case True
      have "i \<noteq> n" using le less.prems(2) by auto
      then have "\<not> prime_num n" using True less.prems(2) by (auto simp: prime_num_def)
      then show ?thesis using le sq smod True less.prems(2)
        by (subst is_prime_loop.simps) (simp del: of_nat_mult)
    next
      case False
      have "i \<le> n" using le by (metis le_square le_trans)
      moreover have "\<forall>d. prime_num d \<longrightarrow> d < i + 1 \<longrightarrow> \<not> d dvd n"
        using less.prems(4) False by (auto simp: less_Suc_eq)
      ultimately have "is_prime_loop (int n) (int (i + 1)) = Some (prime_num n)"
        using less.prems le by (intro less.hyps) auto
      moreover have "i32 (int i + 1) = int (i + 1)" using i by simp
      moreover have "n mod i \<noteq> 0" using False by (simp add: dvd_eq_mod_eq_0)
      ultimately show ?thesis using le sq smod less.prems(2)
        by (subst is_prime_loop.simps) (simp del: of_nat_mult of_nat_add)
    qed
  qed
qed

text \<open>\<open>is_prime\<close> decides primality of \<open>\<bar>n\<bar>\<close>. The bound is where \<open>i*i\<close> may first overflow
  an \<open>int\<close>: 46340 squared.\<close>

theorem is_prime_correct:
  assumes "\<bar>n\<bar> < 2147395600"
  shows "is_prime n = Some (prime_num (nat \<bar>n\<bar>))"
proof (cases "\<bar>n\<bar> < 2")
  case True
  then have "nat \<bar>n\<bar> < 2" by auto
  then show ?thesis using True by (simp add: is_prime_def prime_num_def)
next
  case False
  have "is_prime_loop (int (nat \<bar>n\<bar>)) (int 2) = Some (prime_num (nat \<bar>n\<bar>))"
  proof (rule is_prime_loop_correct)
    show "\<forall>d. prime_num d \<longrightarrow> d < 2 \<longrightarrow> \<not> d dvd nat \<bar>n\<bar>" by (auto dest: prime_numD(1))
  qed (use assms False in auto)
  then show ?thesis using assms False by (simp add: is_prime_def Let_def)
qed

lemma is_prime_correct_witness: "is_prime (- 97) = Some (prime_num (nat \<bar>- 97\<bar>))"
  by (rule is_prime_correct) simp

subsection \<open>The sieve\<close>

lemma sieve_mark_correct:
  "0 < i \<Longrightarrow> \<exists>v'. sieve_mark i j v = Some v' \<and> length v' = length v \<and>
    (\<forall>k < length v. v' ! k = (if j \<le> k \<and> i dvd (k - j) then 0 else v ! k))"
proof (induction "length v - j" arbitrary: j v rule: less_induct)
  case less
  show ?case
  proof (cases "j < length v")
    case False
    then show ?thesis by (subst sieve_mark.simps) auto
  next
    case True
    then obtain v' where v': "sieve_mark i (j + i) (v[j := 0]) = Some v'" "length v' = length v"
      "\<forall>k < length v. v' ! k = (if j + i \<le> k \<and> i dvd (k - (j + i)) then 0 else v[j := 0] ! k)"
      using less.hyps [of "v[j := 0]" "j + i"] less.prems True
      by (simp add: diff_less_mono2) blast
    have "v' ! k = (if j \<le> k \<and> i dvd (k - j) then 0 else v ! k)" if k: "k < length v" for k
    proof -
      consider "k < j" | "k = j" | "j < k" "k < j + i" | "j + i \<le> k" by linarith
      then show ?thesis
      proof cases
        case 3
        then have "\<not> i dvd (k - j)" using nat_dvd_not_less [of "k - j" i] by auto
        then show ?thesis using 3 k v'(3) by simp
      next
        case 4
        then have "k - j = k - (j + i) + i" by simp
        then have "i dvd (k - j) \<longleftrightarrow> i dvd (k - (j + i))" by (metis dvd_add_triv_right_iff)
        then show ?thesis using 4 k v'(3) less.prems by auto
      qed (use k v'(3) less.prems in auto)
    qed
    then show ?thesis using True v'(1,2) by (subst sieve_mark.simps) auto
  qed
qed

text \<open>The table when the outer loop stands at \<open>i\<close>: multiples of the primes below are crossed out.\<close>

definition sieved :: "nat \<Rightarrow> int list \<Rightarrow> bool" where
  "sieved i v \<longleftrightarrow> (\<forall>k < length v. v ! k \<noteq> 0 \<longleftrightarrow>
     2 \<le> k \<and> (\<forall>p < i. prime_num p \<longrightarrow> p dvd k \<longrightarrow> p = k))"

lemma sieved_prime:
  assumes "sieved i v" "2 \<le> i" "i < length v"
  shows "v ! i \<noteq> 0 \<longleftrightarrow> prime_num i"
proof
  assume "v ! i \<noteq> 0"
  then have free: "\<forall>p < i. prime_num p \<longrightarrow> p dvd i \<longrightarrow> p = i" using assms by (auto simp: sieved_def)
  show "prime_num i"
  proof (rule ccontr)
    assume "\<not> prime_num i"
    then obtain p where p: "prime_num p" "p dvd i" "p * p \<le> i"
      using composite_small_divisor [of i] assms(2) by auto
    then have "p \<noteq> i" "p \<le> i" using \<open>\<not> prime_num i\<close> assms(2) by (auto dest: dvd_imp_le)
    then show False using free p by auto
  qed
next
  assume "prime_num i"
  then show "v ! i \<noteq> 0" using assms by (auto simp: sieved_def dest: prime_dvd_prime)
qed

lemma sieve_loop_correct:
  "2 \<le> i \<Longrightarrow> sieved i v \<Longrightarrow>
   sieve_loop i v ps = Some (ps @ map int (filter prime_num [i..<length v]))"
proof (induction "length v - i" arbitrary: i v ps rule: less_induct)
  case less
  show ?case
  proof (cases "i < length v")
    case False
    then show ?thesis by (subst sieve_loop.simps) simp
  next
    case True
    then have upt: "[i..<length v] = i # [i + 1..<length v]" by (simp add: upt_conv_Cons)
    have iff: "v ! i \<noteq> 0 \<longleftrightarrow> prime_num i" using sieved_prime [OF less.prems(2,1) True] .
    show ?thesis
    proof (cases "prime_num i")
      case False
      have "sieved (i + 1) v" using less.prems(2) False by (auto simp: sieved_def less_Suc_eq)
      then show ?thesis
        using less.hyps [of v "i + 1" ps] less.prems(1) True False iff
        by (subst sieve_loop.simps) (simp add: upt del: upt_Suc)
    next
      case prime: True
      obtain v' where v': "sieve_mark i (i + i) v = Some v'" "length v' = length v"
        "\<forall>k < length v. v' ! k = (if i + i \<le> k \<and> i dvd (k - (i + i)) then 0 else v ! k)"
        using sieve_mark_correct [of i "i + i" v] less.prems(1) by auto
      have mult: "(i + i \<le> k \<and> i dvd (k - (i + i))) \<longleftrightarrow> (i dvd k \<and> k \<noteq> i \<and> 2 \<le> k)" if "2 \<le> k" for k
      proof
        assume *: "i + i \<le> k \<and> i dvd (k - (i + i))"
        then have "i dvd (k - (i + i)) + (i + i)" by (intro dvd_add) auto
        with * show "i dvd k \<and> k \<noteq> i \<and> 2 \<le> k" using less.prems(1) by auto
      next
        assume *: "i dvd k \<and> k \<noteq> i \<and> 2 \<le> k"
        then obtain c where c: "k = i * c" by auto
        have "c \<noteq> 0" "c \<noteq> 1" using * c by (auto intro: Nat.gr0I)
        then have "i * 2 \<le> k" unfolding c by (intro mult_le_mono) auto
        then show "i + i \<le> k \<and> i dvd (k - (i + i))" using * by (auto intro: dvd_diff_nat)
      qed
      have "sieved (i + 1) v'"
        unfolding sieved_def v'(2)
      proof (intro allI impI)
        fix k assume k: "k < length v"
        have v: "v ! k \<noteq> 0 \<longleftrightarrow> 2 \<le> k \<and> (\<forall>p < i. prime_num p \<longrightarrow> p dvd k \<longrightarrow> p = k)"
          using less.prems(2) k by (simp add: sieved_def)
        have v'k: "v' ! k = (if i + i \<le> k \<and> i dvd (k - (i + i)) then 0 else v ! k)"
          using v'(3) k by blast
        show "v' ! k \<noteq> 0 \<longleftrightarrow> 2 \<le> k \<and> (\<forall>p < i + 1. prime_num p \<longrightarrow> p dvd k \<longrightarrow> p = k)"
        proof (cases "2 \<le> k")
          case True
          then show ?thesis unfolding v'k mult [OF True] using v prime by (auto simp: less_Suc_eq)
        next
          case False
          then show ?thesis unfolding v'k using v by simp
        qed
      qed
      then have "sieve_loop (i + 1) v' (ps @ [int i]) =
          Some ((ps @ [int i]) @ map int (filter prime_num [i + 1..<length v]))"
        using less.hyps [of v' "i + 1" "ps @ [int i]"] less.prems(1) True v'(2) by simp
      then show ?thesis using True prime iff v'(1)
        by (subst sieve_loop.simps) (simp add: upt del: upt_Suc)
    qed
  qed
qed

text \<open>C23: \<open>make_primes\<close> returns exactly the primes below \<open>N\<close>, in increasing order, for every \<open>N\<close> from 2 on, and no access to its
  table is outside; for \<open>N < 2\<close> the first write is.\<close>

theorem make_primes_correct:
  "make_primes N = (if N < 2 then None else Some (map int (filter prime_num [0..<nat N])))"
proof (cases "N < 2")
  case False
  let ?v = "(replicate (nat N) (1::int))[1 := 0, 0 := 0]"
  have "?v ! k \<noteq> 0 \<longleftrightarrow> 2 \<le> k" if "k < nat N" for k
    using that False by (cases "k = 0"; cases "k = 1") auto
  then have "sieved 2 ?v" using False by (auto simp: sieved_def dest!: prime_numD(1))
  then have "make_primes N = Some (map int (filter prime_num [2..<nat N]))"
    using sieve_loop_correct [of 2 ?v "[]"] False by (simp add: make_primes_def)
  moreover have "[0..<nat N] = 0 # 1 # [2..<nat N]"
    using False by (simp add: upt_conv_Cons numeral_2_eq_2)
  moreover have "\<not> prime_num 0" "\<not> prime_num 1" by (auto simp: prime_num_def)
  ultimately show ?thesis using False by (simp only: filter.simps if_False)
qed (auto simp: make_primes_def vec_upd_def)

subsection \<open>Factorisation and the totient\<close>

lemma divide_out_correct:
  "1 < p \<Longrightarrow> 0 < n \<Longrightarrow> p dvd n \<Longrightarrow>
   \<exists>n' k. divide_out (int p) (int n) = Some (int n') \<and> n = p ^ Suc k * n' \<and> \<not> p dvd n' \<and> 0 < n'"
proof (induction n rule: less_induct)
  case (less n)
  let ?m = "n div p"
  have m: "n = p * ?m" "0 < ?m" "?m < n"
    using less.prems by (auto simp: div_greater_zero_iff dvd_imp_le)
  have unfold: "divide_out (int p) (int n) =
      (if p dvd ?m then divide_out (int p) (int ?m) else Some (int ?m))"
    using less.prems by (subst divide_out.simps) (simp add: Let_def dvd_eq_mod_eq_0 flip: zdiv_int zmod_int)
  show ?case
  proof (cases "p dvd ?m")
    case True
    then obtain n' k where n': "divide_out (int p) (int ?m) = Some (int n')" "?m = p ^ Suc k * n'"
      "\<not> p dvd n'" "0 < n'"
      using less.IH [OF m(3) less.prems(1) m(2)] by blast
    have "n = p ^ Suc (Suc k) * n'" using m(1) unfolding n'(2) by (simp add: mult.assoc)
    moreover have "divide_out (int p) (int n) = Some (int n')" using n'(1) True unfold by simp
    ultimately show ?thesis using n'(3,4) by blast
  next
    case False
    then show ?thesis unfolding unfold using m by (intro exI [of _ ?m] exI [of _ 0]) simp
  qed
qed

text \<open>
  What the list of primes still has to offer: every prime divisor that is left is in the list,
  or it is larger than the whole list and larger than the square root.
\<close>

definition enough_primes :: "nat list \<Rightarrow> nat \<Rightarrow> bool" where
  "enough_primes ps n \<longleftrightarrow> sorted_wrt (<) ps \<and> (\<forall>p \<in> set ps. prime_num p \<and> p \<le> 46340) \<and>
     (\<forall>q. prime_num q \<longrightarrow> q dvd n \<longrightarrow> q \<in> set ps \<or> n < q * q \<and> (\<forall>p \<in> set ps. p < q))"

lemma i32_square: "p \<le> 46340 \<Longrightarrow> i32 (int p * int p) = int (p * p)"
proof -
  assume "p \<le> 46340"
  then have "int (p * p) \<le> int (46340 * 46340)" unfolding of_nat_le_iff by (intro mult_mono) auto
  then show ?thesis unfolding of_nat_mult [symmetric] by (intro i32_id) linarith+
qed

lemma rest_is_prime:
  assumes "0 < n" "\<forall>q. prime_num q \<longrightarrow> q dvd n \<longrightarrow> n < q * q"
  shows "prime_divisors n = (if 1 < n then {n} else {})"
proof (cases "1 < n")
  case True
  then have "prime_num n" using assms(2) composite_small_divisor [OF True] by (metis not_le)
  then show ?thesis using True prime_dvd_prime by (auto simp: prime_divisors_def)
next
  case False
  then have "n = 1" using assms(1) by simp
  then show ?thesis by (auto simp: prime_divisors_def dest: prime_numD(1))
qed

lemma prime_divisors_power_mult:
  assumes "prime_num p" "0 < n"
  shows "prime_divisors (p ^ Suc k * n) = insert p (prime_divisors n)"
proof -
  have "q dvd p ^ Suc k * n \<longleftrightarrow> q = p \<or> q dvd n" if "prime_num q" for q
    using prime_dvd_mult [OF that, of "p ^ Suc k" n] prime_dvd_power [OF that, of p "Suc k"]
      prime_dvd_prime [OF that assms(1)]
    by (auto intro: dvd_mult2)
  then show ?thesis using assms(1) by (auto simp: prime_divisors_def)
qed

lemma get_prime_factors_loop_correct:
  "0 < n \<Longrightarrow> enough_primes ps n \<Longrightarrow>
   \<exists>fs n'. get_prime_factors_loop factors (int n) (map int ps) = Some (factors @ map int fs, int n') \<and>
     sorted_wrt (<) (fs @ (if 1 < n' then [n'] else [])) \<and>
     set (fs @ (if 1 < n' then [n'] else [])) = prime_divisors n"
proof (induction ps arbitrary: n factors)
  case Nil
  then have "prime_divisors n = (if 1 < n then {n} else {})"
    by (intro rest_is_prime) (auto simp: enough_primes_def)
  then show ?case by (intro exI [of _ "[]"] exI [of _ n]) simp
next
  case (Cons p ps)
  have p: "prime_num p" "p \<le> 46340" "sorted_wrt (<) ps" "\<forall>q \<in> set ps. p < q"
    using Cons.prems(2) by (auto simp: enough_primes_def)
  have p0: "1 < p" using p(1) by (rule prime_numD)
  note sq = i32_square [OF p(2)]
  have left: "q = p \<or> q \<in> set ps \<or> n < q * q \<and> (\<forall>r \<in> set (p # ps). r < q)"
    if "prime_num q" "q dvd n" for q
    using Cons.prems(2) that by (auto simp: enough_primes_def)
  show ?case
  proof (cases "p * p > n")
    case True
    have "n < q * q" if "prime_num q" "q dvd n" for q
    proof -
      have "p \<le> q" using left [OF that] p(4) by auto
      then have "p * p \<le> q * q" by (intro mult_mono) auto
      then show ?thesis using True by simp
    qed
    then have "prime_divisors n = (if 1 < n then {n} else {})"
      using Cons.prems(1) by (intro rest_is_prime) auto
    then show ?thesis using True sq
      by (intro exI [of _ "[]"] exI [of _ n]) (simp del: of_nat_mult)
  next
    case le: False
    have smod: "int n smod int p = int (n mod p)" using p0 by (simp add: zmod_int)
    show ?thesis
    proof (cases "p dvd n")
      case False
      have "enough_primes ps n"
        using Cons.prems(2) left False unfolding enough_primes_def by auto
      then show ?thesis
        using Cons.IH [OF Cons.prems(1), of factors] le False sq smod p0
        by (simp add: dvd_eq_mod_eq_0 del: of_nat_mult)
    next
      case True
      obtain n' k where n': "divide_out (int p) (int n) = Some (int n')" "n = p ^ Suc k * n'"
        "\<not> p dvd n'" "0 < n'"
        using divide_out_correct [OF p0 Cons.prems(1) True] by blast
      have n'_le: "n' \<le> n" "n' dvd n" using n'(2) p0 by simp_all
      have "enough_primes ps n'"
        unfolding enough_primes_def
      proof (intro conjI allI impI)
        fix q assume q: "prime_num q" "q dvd n'"
        then have "q dvd n" using n'_le(2) by (metis dvd_trans)
        from left [OF q(1) this] q(2) n'(3) n'_le(1)
        show "q \<in> set ps \<or> n' < q * q \<and> (\<forall>p \<in> set ps. p < q)" by auto
      qed (use Cons.prems(2) p in \<open>auto simp: enough_primes_def\<close>)
      then obtain fs m where fs: "get_prime_factors_loop (factors @ [int p]) (int n') (map int ps) =
          Some ((factors @ [int p]) @ map int fs, int m)"
        "sorted_wrt (<) (fs @ (if 1 < m then [m] else []))"
        "set (fs @ (if 1 < m then [m] else [])) = prime_divisors n'"
        using Cons.IH [OF n'(4), of "factors @ [int p]"] by blast
      have "p < q" if "q \<in> prime_divisors n'" for q
      proof -
        have q: "prime_num q" "q dvd n'" using that by (auto simp: prime_divisors_def)
        then have "q dvd n" using n'_le(2) by (metis dvd_trans)
        from left [OF q(1) this] q(2) n'(3) p(4) show ?thesis by auto
      qed
      then have "sorted_wrt (<) ((p # fs) @ (if 1 < m then [m] else []))"
        using fs(2,3) by simp
      moreover have "set ((p # fs) @ (if 1 < m then [m] else [])) = prime_divisors n"
        using fs(3) unfolding n'(2) prime_divisors_power_mult [OF p(1) n'(4)] by simp
      moreover have "get_prime_factors_loop factors (int n) (map int (p # ps)) =
          Some (factors @ map int (p # fs), int m)"
        using fs(1) n'(1) le True sq smod p0 by (simp add: dvd_eq_mod_eq_0 del: of_nat_mult)
      ultimately show ?thesis by blast
    qed
  qed
qed

lemma enough_primes_below:
  assumes "n < M * M" "M \<le> 46341"
  shows "enough_primes (filter prime_num [0..<M]) n"
proof -
  have "q \<in> set (filter prime_num [0..<M]) \<or>
      n < q * q \<and> (\<forall>p \<in> set (filter prime_num [0..<M]). p < q)" if "prime_num q" for q
  proof (cases "q < M")
    case False
    then have "M * M \<le> q * q" by (intro mult_mono) auto
    then show ?thesis using assms(1) False by auto
  qed (use that in simp)
  then show ?thesis using assms(2) unfolding enough_primes_def
    by (auto simp: sorted_wrt_filter)
qed

lemma get_prime_factors_set:
  assumes "0 < n" "n < M * M" "M \<le> 46341"
  obtains fs where "get_prime_factors (int n) (map int (filter prime_num [0..<M])) = Some (map int fs)"
    "sorted_wrt (<) fs" "set fs = prime_divisors n"
proof -
  obtain fs n' where "get_prime_factors_loop [] (int n) (map int (filter prime_num [0..<M])) =
      Some ([] @ map int fs, int n')"
    "sorted_wrt (<) (fs @ (if 1 < n' then [n'] else []))"
    "set (fs @ (if 1 < n' then [n'] else [])) = prime_divisors n"
    using get_prime_factors_loop_correct [OF assms(1) enough_primes_below [OF assms(2,3)], of "[]"]
    by blast
  then show ?thesis
    by (intro that [of "fs @ (if 1 < n' then [n'] else [])"]) (auto simp: get_prime_factors_def)
qed

text \<open>\<open>prime_factors\<close> runs the same loop and only counts.\<close>

lemma prime_factors_loop_length:
  "prime_factors_loop (int (length fs)) N ps =
   map_option (\<lambda>(fs, N'). (int (length fs), N')) (get_prime_factors_loop fs N ps)"
proof (induction ps arbitrary: fs N)
  case (Cons p ps)
  have "prime_factors_loop (int (length fs) + 1) N' ps =
      map_option (\<lambda>(fs, N'). (int (length fs), N')) (get_prime_factors_loop (fs @ [p]) N' ps)" for N'
    using Cons.IH [of "fs @ [p]" N'] by (simp add: add.commute)
  then show ?case using Cons.IH [of fs N] by (cases "divide_out p N") simp_all
qed simp

lemma prime_factors_eq_length:
  "prime_factors N ps = map_option (\<lambda>fs. int (length fs)) (get_prime_factors N ps)"
  using prime_factors_loop_length [of "[]" N ps]
  by (cases "get_prime_factors_loop [] N ps") (auto simp: prime_factors_def get_prime_factors_def)

text \<open>With the primes below \<open>M\<close>, \<open>M*M > N\<close>, \<open>get_prime_factors\<close> returns the distinct prime
  divisors of \<open>N\<close> in increasing order, the one above \<open>M\<close> included, and \<open>prime_factors\<close> returns
  their number.\<close>

theorem get_prime_factors_correct:
  assumes "0 < n" "n < M * M" "M \<le> 46341"
  shows "\<exists>fs. get_prime_factors (int n) (map int (filter prime_num [0..<M])) = Some (map int fs) \<and>
    sorted_wrt (<) fs \<and> set fs = {p. prime_num p \<and> p dvd n} \<and>
    prime_factors (int n) (map int (filter prime_num [0..<M])) =
      Some (int (card {p. prime_num p \<and> p dvd n}))"
proof -
  obtain fs where fs: "get_prime_factors (int n) (map int (filter prime_num [0..<M])) =
      Some (map int fs)" "sorted_wrt (<) fs" "set fs = prime_divisors n"
    by (rule get_prime_factors_set [OF assms])
  then have "card (prime_divisors n) = length fs"
    by (metis distinct_card strict_sorted_iff)
  then show ?thesis using fs by (auto simp: prime_factors_eq_length prime_divisors_def)
qed

lemma get_prime_factors_correct_witness:
  "\<exists>fs. get_prime_factors (int 84) (map int (filter prime_num [0..<10])) = Some (map int fs) \<and>
    sorted_wrt (<) fs \<and> set fs = {p. prime_num p \<and> p dvd 84} \<and>
    prime_factors (int 84) (map int (filter prime_num [0..<10])) =
      Some (int (card {p. prime_num p \<and> p dvd 84}))"
  by (rule get_prime_factors_correct) simp_all

text \<open>The fold of \<open>euler_phi\<close>: \<open>phi\<close> times the primes so far is \<open>n\<close> times the primes less one.\<close>

lemma phi_fold_correct:
  assumes n: "0 < n" "n \<le> 46341"
  shows "distinct (ps @ fs) \<Longrightarrow> \<forall>p \<in> set (ps @ fs). prime_num p \<and> p dvd n \<Longrightarrow>
    phi * \<Prod>(set ps) = n * (\<Prod>p \<in> set ps. p - 1) \<Longrightarrow> phi \<le> n \<Longrightarrow>
    \<exists>phi'. fold (\<lambda>f phi. i32 (phi * (f - 1)) sdiv f) (map int fs) (int phi) = int phi' \<and>
      phi' * \<Prod>(set (ps @ fs)) = n * (\<Prod>p \<in> set (ps @ fs). p - 1)"
proof (induction fs arbitrary: ps phi)
  case (Cons f fs)
  have f: "prime_num f" "f dvd n" "f \<notin> set ps" using Cons.prems(1,2) by auto
  have f0: "1 < f" using f(1) by (rule prime_numD)
  have "f \<le> n" using f(2) n(1) by (rule dvd_imp_le)
  have "\<not> f dvd \<Prod>(set ps)"
    using prime_dvd_prod [OF _ f(1), of "set ps" "\<lambda>x. x"] Cons.prems(2) f(1,3) prime_dvd_prime by auto
  moreover have "f dvd phi * \<Prod>(set ps)" using Cons.prems(3) f(2) by simp
  ultimately have "f dvd phi" using prime_dvd_mult [OF f(1)] by blast
  then obtain c where c: "phi = f * c" by (elim dvdE)
  have "phi * (f - 1) \<le> 46341 * 46340"
    using Cons.prems(4) n(2) \<open>f \<le> n\<close> by (intro mult_mono) auto
  then have "int (phi * (f - 1)) \<le> int (46341 * 46340)" unfolding of_nat_le_iff .
  then have "i32 (int (phi * (f - 1))) = int (phi * (f - 1))" by (intro i32_id) linarith+
  moreover have "int phi * (int f - 1) = int (phi * (f - 1))" using f0 by (simp add: of_nat_diff)
  moreover have "int (phi * (f - 1)) sdiv int f = int (c * (f - 1))"
    using f0 by (simp add: c flip: zdiv_int)
  ultimately have step: "i32 (int phi * (int f - 1)) sdiv int f = int (c * (f - 1))" by (simp only:)
  have "c * (f - 1) \<le> c * f" by simp
  then have le: "c * (f - 1) \<le> n" using Cons.prems(4) unfolding c by (simp only: mult.commute)
  have "c * (f - 1) * \<Prod>(set (ps @ [f])) = phi * \<Prod>(set ps) * (f - 1)"
    using f(3) by (simp add: c)
  also have "\<dots> = n * (\<Prod>p \<in> set (ps @ [f]). p - 1)" using f(3) Cons.prems(3) by simp
  finally have "c * (f - 1) * \<Prod>(set (ps @ [f])) = n * (\<Prod>p \<in> set (ps @ [f]). p - 1)" .
  then show ?case
    using Cons.IH [of "ps @ [f]" "c * (f - 1)"] Cons.prems(1,2) le step by simp
qed auto

text \<open>C26: For \<open>n\<close> from 1 to 46341 and the table of the primes below some \<open>M\<close>, with \<open>n < M\<^sup>2\<close> and \<open>M\<close> at
  most 46341, \<open>euler_phi\<close> is Euler's totient: the number of integers from 1 to \<open>n\<close> coprime to \<open>n\<close>.
  Every division is exact and no product overflows an \<open>int\<close>; above 46341, \<open>phi * (f - 1)\<close> does overflow
  for a prime \<open>n\<close>.\<close>

theorem euler_phi_totient:
  assumes "0 < n" "n \<le> 46341" "n < M * M" "M \<le> 46341"
  shows "euler_phi (int n) (map int (filter prime_num [0..<M])) =
    Some (int (card {m \<in> {1..n}. coprime m n}))"
proof -
  obtain fs where fs: "get_prime_factors (int n) (map int (filter prime_num [0..<M])) =
      Some (map int fs)" "sorted_wrt (<) fs" "set fs = prime_divisors n"
    by (rule get_prime_factors_set [OF assms(1,3,4)])
  have "distinct fs" using fs(2) by (simp add: strict_sorted_iff)
  then obtain phi where phi: "fold (\<lambda>f phi. i32 (phi * (f - 1)) sdiv f) (map int fs) (int n) = int phi"
    "phi * \<Prod>(set fs) = n * (\<Prod>p \<in> set fs. p - 1)"
    using phi_fold_correct [OF assms(1,2), of "[]" fs n] fs(3) by (auto simp: prime_divisors_def)
  have "phi * \<Prod>(set fs) = card {m \<in> {1..n}. coprime m n} * \<Prod>(set fs)"
    using phi(2) totient_product [OF assms(1)] fs(3) by simp
  moreover have "0 < \<Prod>(set fs)"
    using fs(3) by (intro prod_pos) (auto simp: prime_divisors_def)
  ultimately have "phi = card {m \<in> {1..n}. coprime m n}" by (metis mult_cancel2 not_gr_zero)
  then show ?thesis using fs(1) phi(1) by (simp add: euler_phi_def)
qed

lemma euler_phi_totient_witness:
  "euler_phi (int 36) (map int (filter prime_num [0..<7])) =
    Some (int (card {m \<in> {1..36::nat}. coprime m 36}))"
  by (rule euler_phi_totient) simp_all

subsection \<open>Modular arithmetic on words\<close>

lemma and_1_odd: "(b AND 1 \<noteq> (0 :: 64 word)) \<longleftrightarrow> odd (unat b)"
proof -
  have "(b AND 1 \<noteq> 0) \<longleftrightarrow> unat (b AND 1) \<noteq> 0" by (simp only: unat_eq_0 not_False_eq_True)
  also have "unat (b AND 1) = unat b mod 2"
    by (simp only: and_one_eq unat_mod) simp
  finally show ?thesis by (simp add: odd_iff_mod_2_eq_one)
qed

lemma double_mod:
  assumes "unat a < unat md" "unat md \<le> 2 ^ 63"
  shows "unat (if push_bit 1 a \<ge> md then push_bit 1 a - md else push_bit 1 (a :: 64 word)) =
    2 * unat a mod unat md"
proof -
  have "unat (push_bit 1 a) = take_bit LENGTH(64) (push_bit 1 (unat a))"
    by (rule unsigned_push_bit_eq)
  also have "\<dots> = 2 * unat a" using assms by (simp add: take_bit_eq_mod push_bit_eq_mult)
  finally have "unat (push_bit 1 a) = 2 * unat a" .
  then show ?thesis using assms
    by (auto simp: word_le_nat_alt unat_sub le_mod_geq not_le)
qed

lemma add_mod_word:
  assumes "unat r < unat md" "unat a < unat md" "unat md \<le> 2 ^ 63"
  shows "unat (let res = r + a in if res \<ge> md then res - md else (res :: 64 word)) =
    (unat r + unat a) mod unat md"
proof -
  have "unat (r + a) = unat r + unat a" using assms by (intro unat_add_lem [THEN iffD1]) simp
  then show ?thesis using assms
    by (auto simp: Let_def word_le_nat_alt unat_sub le_mod_geq not_le)
qed

lemma mod_mult_add: "(x mod m * h + y) mod m = (x * h + y) mod (m :: nat)"
  by (metis mod_add_left_eq mod_mult_left_eq)

lemma russian_loop_correct:
  "unat md \<le> 2 ^ 63 \<Longrightarrow> unat a < unat md \<Longrightarrow> unat res < unat md \<Longrightarrow>
    unat (russian_loop a b md res) = (unat a * unat b + unat res) mod unat md"
proof (induction a b md res rule: russian_loop.induct)
  case (1 a b md res)
  consider (stop) "a = 0 \<or> b = 0" | (small) "a > 0" "b > 0" "a \<le> 0x7FFFFFFF \<and> b \<le> 0x7FFFFFFF"
    | (step) "a > 0" "b > 0" "\<not> (a \<le> 0x7FFFFFFF \<and> b \<le> 0x7FFFFFFF)"
    using word_gt_0 by blast
  then show ?case
  proof cases
    case stop
    then show ?thesis using "1.prems" by (subst russian_loop.simps) auto
  next
    case small
    have "unat a * unat b \<le> 0x7FFFFFFF * 0x7FFFFFFF"
      using small(3) by (intro mult_mono) (auto simp: word_le_nat_alt)
    then have "unat (a * b) = unat a * unat b" by (intro unat_mult_lem [THEN iffD1]) simp
    moreover have "unat (a * b mod md + res) = unat (a * b mod md) + unat res"
    proof (intro unat_add_lem [THEN iffD1])
      have "unat (a * b mod md) < unat md" using "1.prems" by (simp add: unat_mod)
      then show "unat (a * b mod md) + unat res < 2 ^ LENGTH(64)" using "1.prems" by simp
    qed
    ultimately show ?thesis using small "1.prems"
      by (subst russian_loop.simps) (simp add: unat_mod mod_add_left_eq)
  next
    case step
    let ?res = "if b AND 1 \<noteq> 0 then (let res = res + a in if res \<ge> md then res - md else res) else res"
    let ?a = "if push_bit 1 a \<ge> md then push_bit 1 a - md else push_bit 1 a"
    let ?h = "unat b div 2"
    have a: "unat ?a = 2 * unat a mod unat md" using double_mod "1.prems" by blast
    have r: "unat ?res = (if odd (unat b) then (unat res + unat a) mod unat md else unat res)"
      using add_mod_word [of res md a] "1.prems" by (simp add: and_1_odd)
    have md0: "0 < unat md" using "1.prems" by simp
    have "unat (russian_loop a b md res) = unat (russian_loop ?a (drop_bit 1 b) md ?res)"
      using step by (subst russian_loop.simps) (simp only: Let_def simp_thms if_True if_False)
    also have "\<dots> = (unat ?a * unat (drop_bit 1 b) + unat ?res) mod unat md"
      using step "1.prems" a r md0
      by (intro "1.IH") (auto simp: Let_def simp del: One_nat_def)
    also have "\<dots> = (2 * unat a * ?h + (if odd (unat b) then unat res + unat a else unat res)) mod unat md"
      unfolding a r unat_half by (simp add: mod_mult_add mod_add_right_eq)
    also have "2 * unat a * ?h + (if odd (unat b) then unat res + unat a else unat res) =
        unat a * unat b + unat res"
    proof (cases "odd (unat b)")
      case True
      then obtain k where "unat b = 2 * k + 1" by (elim oddE)
      then show ?thesis by (simp add: algebra_simps)
    next
      case False
      then obtain k where "unat b = 2 * k" by (auto elim: evenE)
      then show ?thesis by simp
    qed
    finally show ?thesis .
  qed
qed

lemma russianPeasant_correct:
  assumes "0 < md" "unat md \<le> 2 ^ 63"
  obtains r where "russianPeasant_mul_mod a b md = Some r" "unat r = unat a * unat b mod unat md"
proof -
  have md: "0 < unat md" using assms(1) by (simp add: word_less_nat_alt)
  let ?a = "a mod md" and ?b = "b mod md"
  obtain x y where xy: "(if ?b > ?a then (?b, ?a) else (?a, ?b)) = (x, y)" by fastforce
  then have x: "unat x < unat md" "unat x * unat y = unat ?a * unat ?b"
    using md by (auto simp: unat_mod split: if_splits)
  have "russianPeasant_mul_mod a b md = Some (russian_loop x y md 0)"
    using assms(1) xy by (simp add: russianPeasant_mul_mod_def Let_def)
  moreover have "unat (russian_loop x y md 0) = (unat x * unat y + unat (0 :: 64 word)) mod unat md"
    using assms(2) x(1) md by (intro russian_loop_correct) auto
  ultimately show ?thesis using that x(2) by (simp add: unat_mod mod_mult_eq)
qed

text \<open>C24: \<open>russianPeasant_mul_mod\<close> returns the product modulo \<open>md\<close> for all 64-bit factors, although
  the product itself may need 128 bits, for every modulus up to \<open>2^63\<close> (doubling a residue of a
  larger modulus would overflow).\<close>

theorem russianPeasant_mul_mod_correct:
  assumes "0 < md" "md \<le> 0x8000000000000000"
  shows "\<exists>r. russianPeasant_mul_mod a b md = Some r \<and> unat r = unat a * unat b mod unat md"
proof -
  have "unat md \<le> 2 ^ 63" using assms(2) by (simp add: word_le_nat_alt)
  then show ?thesis by (rule russianPeasant_correct [OF assms(1)]) blast
qed

lemma russianPeasant_mul_mod_correct_witness:
  "\<exists>r. russianPeasant_mul_mod 0xFFFFFFFFFFFFFFFF 0xFFFFFFFFFFFFFFFE 0x7FFFFFFFFFFFFFFF = Some r \<and>
    unat r = unat (0xFFFFFFFFFFFFFFFF :: 64 word) * unat (0xFFFFFFFFFFFFFFFE :: 64 word)
      mod unat (0x7FFFFFFFFFFFFFFF :: 64 word)"
  by (rule russianPeasant_mul_mod_correct) simp_all

lemma mod_mult_power: "x mod m * (y mod m) ^ k mod m = x * y ^ k mod (m :: nat)"
  using mod_mult_eq [of x m "(y mod m) ^ k"] mod_mult_eq [of x m "y ^ k"] power_mod [of y m k]
  by (simp only: mod_mult_left_eq)

lemma pow_mod_loop_correct:
  "0 < md \<Longrightarrow> unat md \<le> 2 ^ 63 \<Longrightarrow> unat res < unat md \<Longrightarrow>
   \<exists>r. pow_mod_loop base e md res = Some r \<and>
     unat r = unat res * unat base ^ unat e mod unat md"
proof (induction "unat e" arbitrary: base e res rule: less_induct)
  case less
  have md0: "0 < unat md" using less.prems(3) by simp
  show ?case
  proof (cases "e > 0")
    case False
    then have "e = 0" using word_gt_0 by blast
    then show ?thesis using less.prems by (subst pow_mod_loop.simps) simp
  next
    case True
    let ?h = "drop_bit 1 e"
    obtain b' where b': "russianPeasant_mul_mod base base md = Some b'"
      "unat b' = unat base * unat base mod unat md"
      by (rule russianPeasant_correct [OF less.prems(1,2)])
    obtain r' where r': "(if e AND 1 \<noteq> 0 then russianPeasant_mul_mod res base md else Some res) = Some r'"
      "unat r' = unat res * (if odd (unat e) then unat base else 1) mod unat md"
    proof (cases "odd (unat e)")
      case True
      obtain r where "russianPeasant_mul_mod res base md = Some r"
        "unat r = unat res * unat base mod unat md"
        by (rule russianPeasant_correct [OF less.prems(1,2)])
      then show ?thesis using that True by (simp add: and_1_odd)
    next
      case False
      then show ?thesis using that [of res] less.prems(3) by (simp add: and_1_odd)
    qed
    have "unat r' < unat md" using r'(2) md0 by simp
    then obtain r where r: "pow_mod_loop b' ?h md r' = Some r"
      "unat r = unat r' * unat b' ^ unat ?h mod unat md"
      using less.hyps [OF unat_half_less [OF True] less.prems(1,2)] by blast
    have "pow_mod_loop base e md res = Some r"
      using True r'(1) b'(1) r(1) by (subst pow_mod_loop.simps) simp
    moreover have "unat r = unat res * unat base ^ unat e mod unat md"
    proof -
      have "unat r = unat res * (if odd (unat e) then unat base else 1) *
          (unat base * unat base) ^ (unat e div 2) mod unat md"
        unfolding r(2) r'(2) b'(2) unat_half
        by (rule mod_mult_power)
      also have "(if odd (unat e) then unat base else 1) * (unat base * unat base) ^ (unat e div 2) =
          unat base ^ unat e"
      proof (cases "odd (unat e)")
        case True
        then obtain k where k: "unat e = 2 * k + 1" by (elim oddE)
        show ?thesis unfolding k by (simp add: power_mult_distrib power_add mult_2)
      next
        case False
        then obtain k where k: "unat e = 2 * k" by (auto elim: evenE)
        show ?thesis unfolding k by (simp add: power_mult_distrib power_add mult_2)
      qed
      then have "unat res * (if odd (unat e) then unat base else 1) *
          (unat base * unat base) ^ (unat e div 2) = unat res * unat base ^ unat e"
        by (simp only: mult.assoc)
      finally show ?thesis .
    qed
    ultimately show ?thesis by blast
  qed
qed

text \<open>C25: \<open>pow_mod\<close> always returns, and the result is the power modulo \<open>md\<close>, for every base and
  exponent of 64 bits and every modulus from 2 to \<open>2^63\<close>.\<close>

theorem pow_mod_correct:
  assumes "1 < md" "md \<le> 0x8000000000000000"
  shows "\<exists>r. pow_mod base e md = Some r \<and> unat r = unat base ^ unat e mod unat md"
proof -
  have md: "unat md \<le> 2 ^ 63" "1 < unat md" using assms
    by (simp_all add: word_le_nat_alt word_less_nat_alt)
  then have "0 < md" by (simp add: word_less_nat_alt)
  with md show ?thesis
    using pow_mod_loop_correct [of md 1 base e] by (simp add: pow_mod_def)
qed

lemma pow_mod_correct_witness:
  "\<exists>r. pow_mod 3 0xFFFFFFFFFFFFFFFF 1000000007 = Some r \<and>
    unat r = unat (3 :: 64 word) ^ unat (0xFFFFFFFFFFFFFFFF :: 64 word) mod unat (1000000007 :: 64 word)"
  by (rule pow_mod_correct) simp_all

subsection \<open>The Miller--Rabin test\<close>

lemma split_power2_correct:
  "0 < d \<Longrightarrow> \<exists>d' s. split_power2 d p2 = Some (d', p2 + int s) \<and> unat d = 2 ^ s * unat d' \<and>
     odd (unat d')"
proof (induction "unat d" arbitrary: d p2 rule: less_induct)
  case less
  show ?case
  proof (cases "odd (unat d)")
    case True
    then show ?thesis
      by (intro exI [of _ d] exI [of _ 0], subst split_power2.simps) (simp add: and_1_odd [symmetric])
  next
    case False
    have "0 < unat d" using less.prems by (simp add: word_less_nat_alt)
    with False have "0 < unat d div 2" by (auto elim: evenE)
    then have "0 < drop_bit 1 d" unfolding word_less_nat_alt unat_half by simp
    then obtain d' s where "split_power2 (drop_bit 1 d) (p2 + 1) = Some (d', p2 + 1 + int s)"
      "unat (drop_bit 1 d) = 2 ^ s * unat d'" "odd (unat d')"
      using less.hyps [OF unat_half_less [OF less.prems]] by blast
    moreover have "unat d = 2 * unat (drop_bit 1 d)" using False unfolding unat_half by simp
    moreover have "d AND 1 = 0" using False and_1_odd by blast
    ultimately show ?thesis
      by (intro exI [of _ d'] exI [of _ "Suc s"], subst split_power2.simps) (simp add: add.assoc)
  qed
qed

lemma unat_minus_1: "0 < num \<Longrightarrow> unat (num - 1 :: 64 word) = unat num - 1"
  by (metis unat_minus_one word_gt_0)

lemma unat_eq_1: "unat (x :: 64 word) = 1 \<longleftrightarrow> x = 1"
  by (metis unat_1 word_unat_eq_iff)

text \<open>The squarings of a base: for a prime the loop meets \<open>num - 1\<close> before it runs out.\<close>

lemma mill_rabin_loop_prime:
  assumes num: "prime_num (unat num)" "unat num \<le> 2 ^ 63"
  shows "unat x < unat num \<Longrightarrow> x \<noteq> 1 \<Longrightarrow> x \<noteq> num - 1 \<Longrightarrow>
    unat x ^ 2 ^ Suc r mod unat num = 1 \<Longrightarrow> mill_rabin_loop num x (int r) = Some True"
proof (induction r arbitrary: x)
  case (Suc r)
  have num0: "0 < num" using num(1) by (simp add: word_less_nat_alt)
  obtain y where y: "russianPeasant_mul_mod x x num = Some y"
    "unat y = unat x * unat x mod unat num"
    by (rule russianPeasant_correct [OF num0 num(2)])
  have not1: "y \<noteq> 1"
  proof
    assume "y = 1"
    then have "unat x = 1 \<or> unat x = unat num - 1"
      using square_root_of_1 [OF num(1) Suc.prems(1)] y(2) by simp
    then show False using Suc.prems(2,3) unat_minus_1 [OF num0] unat_eq_1 by (metis word_unat_eq_iff)
  qed
  show ?case
  proof (cases "y = num - 1")
    case True
    then show ?thesis using y(1) by (subst mill_rabin_loop.simps) simp
  next
    case False
    have "unat y ^ 2 ^ Suc r mod unat num = (unat x * unat x) ^ 2 ^ Suc r mod unat num"
      unfolding y(2) by (rule power_mod)
    also have "(unat x * unat x) ^ 2 ^ Suc r = unat x ^ 2 ^ Suc (Suc r)"
      by (simp add: power_mult_distrib power_add mult_2)
    finally have "unat y ^ 2 ^ Suc r mod unat num = 1" using Suc.prems(4) by simp
    moreover have "unat y < unat num" using y(2) num(1) by simp
    ultimately have "mill_rabin_loop num y (int r) = Some True"
      using not1 False by (intro Suc.IH)
    then show ?thesis using y(1) not1 False by (subst mill_rabin_loop.simps) simp
  qed
next
  case 0
  have num0: "0 < num" using num(1) by (simp add: word_less_nat_alt)
  have "unat x * unat x mod unat num = 1" using "0.prems"(4) by (simp add: power2_eq_square)
  then have "unat x = 1 \<or> unat x = unat num - 1"
    using square_root_of_1 [OF num(1) "0.prems"(1)] by simp
  then show ?case using "0.prems"(2,3) unat_minus_1 [OF num0] unat_eq_1 by (metis word_unat_eq_iff)
qed

lemma mill_rabin_test_prime_accepts:
  assumes num: "prime_num (unat num)" "unat num \<le> 2 ^ 63"
    and a: "0 < unat a" "unat a < unat num"
    and d: "unat num - 1 = 2 ^ Suc s * unat d"
  shows "mill_rabin_test_prime num a d (int s) = Some True"
proof -
  have n1: "1 < unat num" using num(1) by (rule prime_numD)
  have num0: "0 < num" using n1 by (simp add: word_less_nat_alt)
  then obtain x where x: "pow_mod a d num = Some x" "unat x = unat a ^ unat d mod unat num"
    using pow_mod_loop_correct [OF num0 num(2), of 1 a d] n1 by (auto simp: pow_mod_def)
  have "\<not> unat num dvd unat a" using a by (simp add: nat_dvd_not_less)
  then have "unat a ^ (unat num - 1) mod unat num = 1" by (rule fermat_little [OF num(1)])
  then have "unat x ^ 2 ^ Suc s mod unat num = 1"
    unfolding x(2) power_mod d by (simp add: mult.commute flip: power_mult)
  then show ?thesis
    using mill_rabin_loop_prime [OF num, of x s] x n1 by (simp add: mill_rabin_test_prime_def)
qed

lemma miller_rabin_rounds_prime:
  assumes "prime_num (unat num)" "unat num \<le> 2 ^ 63" "\<forall>i. 0 < unat (draws i) \<and> unat (draws i) < unat num"
    "unat num - 1 = 2 ^ Suc s * unat d"
  shows "miller_rabin_rounds num draws i d (int (Suc s)) (int k) = Some True"
  using assms
proof (induction k arbitrary: i)
  case (Suc k)
  then have "mill_rabin_test_prime num (draws i) d (int s) = Some True"
    by (intro mill_rabin_test_prime_accepts) auto
  then show ?case using Suc by (subst miller_rabin_rounds.simps) simp
qed (simp add: miller_rabin_rounds.simps)

lemma unat_mod_0: "num mod p = 0 \<longleftrightarrow> unat p dvd unat (num :: 64 word)"
  by (metis dvd_eq_mod_eq_0 unat_eq_0 unat_mod)

lemma small_numbers_prime:
  assumes "unat num < 19"
  shows "num \<in> set small_primes \<longleftrightarrow> prime_num (unat num)"
proof -
  have prime: "prime_num n \<longleftrightarrow> n \<in> {2, 3, 5, 7, 11, 13, 17}" if "n < 19" for n
  proof -
    have dvd: "(\<forall>d. d dvd n \<longrightarrow> d = 1 \<or> d = n) \<longleftrightarrow> (\<forall>d \<in> set [2..<n]. \<not> d dvd n)" if "1 < n"
    proof (intro iffI ballI allI impI)
      fix d assume *: "\<forall>d \<in> set [2..<n]. \<not> d dvd n" "d dvd n"
      have "d \<le> n" using *(2) that by (auto dest: dvd_imp_le)
      moreover have "d \<noteq> 0" using *(2) that by (intro notI) simp
      moreover have "\<not> (2 \<le> d \<and> d < n)" using * by auto
      ultimately show "d = 1 \<or> d = n" by linarith
    qed auto
    have "prime_num n \<longleftrightarrow> 1 < n \<and> (\<forall>d \<in> set [2..<n]. \<not> d dvd n)"
      unfolding prime_num_def using dvd by blast
    moreover have "\<forall>n \<in> set [0..<19]. (1 < n \<and> (\<forall>d \<in> set [2..<n]. \<not> d dvd n)) =
        (n \<in> {2, 3, 5, 7, 11, 13, 17})"
      by code_simp
    ultimately show ?thesis using that by simp
  qed
  have "num \<in> set small_primes \<longleftrightarrow> unat num \<in> {2, 3, 5, 7, 11, 13, 17}"
  proof -
    have "num \<in> set small_primes \<longleftrightarrow> unat num \<in> unat ` set small_primes"
      by (auto dest!: word_unat_eq_iff [THEN iffD2])
    also have "unat ` set small_primes = {2, 3, 5, 7, 11, 13, 17}"
      by (simp add: small_primes_def)
    finally show ?thesis .
  qed
  then show ?thesis using prime [OF assms] by blast
qed

lemma prime_no_small_divisor:
  assumes "prime_num (unat num)" "19 \<le> unat num" "p \<in> set small_primes"
  shows "num mod p \<noteq> 0"
proof
  assume "num mod p = 0"
  then have "unat p dvd unat num" by (simp add: unat_mod_0)
  then have "unat p = 1 \<or> unat p = unat num" using assms(1) unfolding prime_num_def by blast
  moreover have "unat p \<in> {2, 3, 5, 7, 11, 13, 17}" using assms(3) by (auto simp: small_primes_def)
  ultimately show False using assms(2) by auto
qed

text \<open>The number before an odd one is split with at least one factor 2.\<close>

lemma split_power2_pred:
  assumes "odd (unat num)" "19 \<le> unat num"
  obtains d s where "split_power2 (num - 1) 0 = Some (d, int (Suc s))" "unat num - 1 = 2 ^ Suc s * unat d"
proof -
  have "0 < num" using assms(2) by (simp add: word_less_nat_alt)
  then have m1: "unat (num - 1) = unat num - 1" by (rule unat_minus_1)
  then have "0 < num - 1" using assms(2) by (simp add: word_less_nat_alt)
  then obtain d s where ds: "split_power2 (num - 1) 0 = Some (d, int s)" "unat (num - 1) = 2 ^ s * unat d" "odd (unat d)"
    using split_power2_correct [of "num - 1" 0] by auto
  have "even (unat num - 1)" using assms by simp
  moreover have "unat num - 1 = unat d" if "s = 0" using ds(2) m1 that by simp
  ultimately have "s \<noteq> 0" using ds(3) by metis
  then obtain s' where "s = Suc s'" by (cases s) auto
  then show thesis using ds m1 by (intro that) auto
qed

lemma draw_in_range:
  assumes "19 \<le> unat (num :: 64 word)" "2 \<le> a" "a \<le> num - 2"
  shows "0 < unat a \<and> unat a < unat num"
proof -
  have "unat (num - 2) = unat num - 2" using assms(1) by (subst unat_sub) (simp_all add: word_le_nat_alt)
  moreover have "2 \<le> unat a" "unat a \<le> unat (num - 2)" using assms by (simp_all add: word_le_nat_alt)
  ultimately show ?thesis using assms(1) by simp
qed

text \<open>C3: The Miller--Rabin test never rejects a prime, whatever bases are drawn: for every
  prime below \<open>2^63\<close>, every number \<open>k\<close> of rounds and every sequence of draws in the range the
  code asks for, \<open>test\<close> returns \<open>true\<close>.\<close>

theorem miller_test_accepts_primes:
  assumes num: "prime_num (unat num)" "num \<le> 0x8000000000000000" and k: "0 \<le> k"
    and draws: "small_number \<le> num \<Longrightarrow>
      \<forall>i. 2 \<le> draws i \<and> draws i \<le> min (num - 2) 2100000000"
  shows "miller_test num draws k = Some True"
proof (cases "num < 19")
  case True
  then have "unat num < 19" by (simp add: word_less_nat_alt)
  then show ?thesis using small_numbers_prime num(1) True by (simp add: miller_test_def)
next
  case False
  then have n19: "19 \<le> unat num" by (simp add: word_less_nat_alt)
  note nodvd = prime_no_small_divisor [OF num(1) n19]
  show ?thesis
  proof (cases "num < small_number")
    case True
    then show ?thesis using False nodvd by (auto simp: miller_test_def)
  next
    case big: False
    have num63: "unat num \<le> 2 ^ 63" using num(2) by (simp add: word_le_nat_alt)
    have "num mod 2 \<noteq> 0" using nodvd [of 2] by (simp add: small_primes_def)
    then have "odd (unat num)" using unat_mod_0 [of num 2] by simp
    then obtain d s where ds: "split_power2 (num - 1) 0 = Some (d, int (Suc s))" "unat num - 1 = 2 ^ Suc s * unat d"
      by (rule split_power2_pred [OF _ n19])
    have "0 < unat (draws i) \<and> unat (draws i) < unat num" for i using draws big by (intro draw_in_range [OF n19]) auto
    then have "miller_rabin_rounds num draws 0 d (int (Suc s)) (int (nat k)) = Some True"
      using num(1) num63 ds(2) by (intro miller_rabin_rounds_prime) auto
    then show ?thesis
      using False nodvd big ds(1) k by (auto simp: miller_test_def miller_rabin_prime_def)
  qed
qed

lemma miller_test_accepts_primes_witness:
  "miller_test 331 (\<lambda>_. 2) 5 = Some True"
proof (rule miller_test_accepts_primes)
  show "prime_num (unat (331 :: 64 word))"
    using is_prime_correct [of 331]
    by (simp add: is_prime_def is_prime_loop.simps)
qed simp_all

text \<open>Below \<open>small_number\<close> (17 * 19) the answer of \<open>test\<close> is exact, for composites too, and no
  base is drawn: a number that none of the small primes divides is prime.\<close>

theorem miller_test_exact_small:
  assumes "num < small_number"
  shows "miller_test num draws k = Some (prime_num (unat num))"
proof (cases "num < 19")
  case True
  then have "unat num < 19" by (simp add: word_less_nat_alt)
  then show ?thesis using small_numbers_prime True by (simp add: miller_test_def)
next
  case False
  then have n19: "19 \<le> unat num" by (simp add: word_less_nat_alt)
  have n323: "unat num < 323" using assms by (simp add: small_number_def word_less_nat_alt)
  have sp: "unat ` set small_primes = {p. prime_num p \<and> p < 19}"
  proof (intro set_eqI iffI)
    fix p assume "p \<in> unat ` set small_primes"
    then obtain w where w: "p = unat w" "w \<in> set small_primes" by blast
    then have "unat w < 19" by (auto simp: small_primes_def)
    then show "p \<in> {p. prime_num p \<and> p < 19}" using w small_numbers_prime by simp
  next
    fix p assume p: "p \<in> {p. prime_num p \<and> p < 19}"
    then have "unat (of_nat p :: 64 word) = p" by (simp add: unat_of_nat)
    then show "p \<in> unat ` set small_primes"
      using p small_numbers_prime [of "of_nat p"] by (intro image_eqI [of _ _ "of_nat p"]) auto
  qed
  have "(\<exists>p \<in> set small_primes. num mod p = 0) \<longleftrightarrow> (\<exists>p \<in> unat ` set small_primes. p dvd unat num)"
    unfolding unat_mod_0 by blast
  also have "\<dots> \<longleftrightarrow> (\<exists>p. prime_num p \<and> p < 19 \<and> p dvd unat num)"
    unfolding sp by blast
  also have "\<dots> \<longleftrightarrow> \<not> prime_num (unat num)"
  proof
    assume "\<exists>p. prime_num p \<and> p < 19 \<and> p dvd unat num"
    then show "\<not> prime_num (unat num)" using n19 prime_dvd_prime by fastforce
  next
    assume "\<not> prime_num (unat num)"
    then obtain p where p: "prime_num p" "p dvd unat num" "p * p \<le> unat num"
      using composite_small_divisor [of "unat num"] n19 by auto
    have "p < 19"
    proof (rule ccontr)
      assume "\<not> p < 19"
      then have "19 * 19 \<le> p * p" by (intro mult_mono) auto
      then show False using p(3) n323 by simp
    qed
    with p show "\<exists>p. prime_num p \<and> p < 19 \<and> p dvd unat num" by blast
  qed
  finally show ?thesis using False assms by (auto simp: miller_test_def)
qed

lemma miller_test_exact_small_witness:
  "miller_test 221 (\<lambda>_. 2) 5 = Some (prime_num (unat (221 :: 64 word)))"
  by (rule miller_test_exact_small) (simp add: small_number_def)

end
