(* ===== verification/DisjointSets.thy ===== *)
theory DisjointSets
  imports Prelude
begin

section \<open>Parent-pointer forests and the disjoint-set interface\<close>

text \<open>
  What the four classes of \<open>src/library/UnionFind.h\<close> share. A state is seen as a partial map
  \<open>up\<close> from an element to its parent (\<open>None\<close>: a root). \<open>root_path up u n r\<close> says that \<open>r\<close> is the
  root above \<open>u\<close>, \<open>n\<close> steps up. The locale \<open>disjoint_sets\<close> is the contract between a class and
  the programs that feed it a list of edges; it is interpreted on every class.
\<close>

subsection \<open>Forests\<close>

inductive root_path :: "(int \<rightharpoonup> int) \<Rightarrow> int \<Rightarrow> nat \<Rightarrow> int \<Rightarrow> bool" for up where
  root: "up u = None \<Longrightarrow> root_path up u 0 u"
| step: "up u = Some v \<Longrightarrow> root_path up v n r \<Longrightarrow> root_path up u (Suc n) r"

inductive_cases root_path_NoneE: "root_path up u n r"

inductive_simps root_path_iff: "root_path up u n r"

lemma root_path_fun: "root_path up u n r \<Longrightarrow> root_path up u m s \<Longrightarrow> n = m \<and> r = s"
proof (induction arbitrary: m rule: root_path.induct)
  case (root u)
  then show ?case by (auto elim: root_path.cases)
next
  case (step u v n r)
  from step.prems show ?case
  proof (cases rule: root_path.cases)
    case (step v' m')
    then show ?thesis using step.hyps(1) step.IH by auto
  qed (use step.hyps in simp)
qed

lemma root_path_root: "root_path up u n r \<Longrightarrow> up r = None"
  by (induction rule: root_path.induct) auto

lemma root_path_self_iff: "up r = None \<Longrightarrow> root_path up r n s \<longleftrightarrow> n = 0 \<and> s = r"
  by (subst root_path_iff) auto

definition forest :: "(int \<rightharpoonup> int) \<Rightarrow> int set \<Rightarrow> bool" where
  "forest up D \<longleftrightarrow> (\<forall>u \<in> D. (\<forall>v. up u = Some v \<longrightarrow> v \<in> D) \<and> (\<exists>n r. root_path up u n r))"

definition root_of :: "(int \<rightharpoonup> int) \<Rightarrow> int \<Rightarrow> int" where
  "root_of up u = (THE r. \<exists>n. root_path up u n r)"

definition depth_of :: "(int \<rightharpoonup> int) \<Rightarrow> int \<Rightarrow> nat" where
  "depth_of up u = (THE n. \<exists>r. root_path up u n r)"

lemma root_path_root_of: "root_path up u n r \<Longrightarrow> root_of up u = r \<and> depth_of up u = n"
  unfolding root_of_def depth_of_def by (auto dest: root_path_fun)

lemma forest_path: "forest up D \<Longrightarrow> u \<in> D \<Longrightarrow> root_path up u (depth_of up u) (root_of up u)"
  by (auto simp: forest_def dest: root_path_root_of)

lemma root_in: "root_path up u n r \<Longrightarrow> forest up D \<Longrightarrow> u \<in> D \<Longrightarrow> r \<in> D"
  by (induction rule: root_path.induct) (auto simp: forest_def)

lemma forest_root:
  assumes "forest up D" "u \<in> D"
  shows "root_of up u \<in> D" "up (root_of up u) = None" "root_of up (root_of up u) = root_of up u"
proof -
  note p = forest_path [OF assms]
  show "root_of up u \<in> D" "up (root_of up u) = None"
    using root_in [OF p assms] root_path_root [OF p] by auto
  then have "root_path up (root_of up u) 0 (root_of up u)" by (intro root_path.root)
  then show "root_of up (root_of up u) = root_of up u" by (auto dest: root_path_root_of)
qed

lemma root_of_root: "up r = None \<Longrightarrow> root_of up r = r \<and> depth_of up r = 0"
  by (rule root_path_root_of) (rule root_path.root)

text \<open>A search that follows the parents finds the root of every element.\<close>

lemma search_root:
  assumes "forest up D" "u \<in> D"
    and search: "\<And>u. u \<in> D \<Longrightarrow> search u = (case up u of None \<Rightarrow> Some u | Some v \<Rightarrow> search v)"
  shows "search u = Some (root_of up u)"
proof -
  have "root_path up u n r \<Longrightarrow> u \<in> D \<Longrightarrow> search u = Some r" for u n r
    by (induction rule: root_path.induct) (use assms(1) search in \<open>auto simp: forest_def\<close>)
  then show ?thesis using forest_path [OF assms(1,2)] assms(2) by blast
qed

text \<open>Linking a root below another one.\<close>

lemma link_path:
  assumes r: "up r1 = None" "up r2 = None" "r1 \<noteq> r2"
  shows "root_path up u n r \<Longrightarrow>
    root_path (up(r1 \<mapsto> r2)) u (if r = r1 then Suc n else n) (if r = r1 then r2 else r)"
proof (induction rule: root_path.induct)
  case (root u)
  show ?case
  proof (cases "u = r1")
    case True
    have "root_path (up(r1 \<mapsto> r2)) r2 0 r2" using r by (intro root_path.root) simp
    then have "root_path (up(r1 \<mapsto> r2)) r1 (Suc 0) r2" by (intro root_path.step [of _ r1 r2]) simp
    then show ?thesis using True by (simp del: fun_upd_apply)
  next
    case False
    then show ?thesis using root by (simp add: root_path.root)
  qed
next
  case (step u v n r)
  have "u \<noteq> r1" using step.hyps(1) r(1) by auto
  then have "(up(r1 \<mapsto> r2)) u = Some v" using step.hyps(1) by simp
  from root_path.step [OF this step.IH] show ?case
    by (cases "r = r1") (simp_all del: fun_upd_apply)
qed

lemma link_root:
  assumes "up r1 = None" "up r2 = None" "r1 \<noteq> r2" "forest up D" "u \<in> D"
  shows "root_of (up(r1 \<mapsto> r2)) u = (if root_of up u = r1 then r2 else root_of up u)"
    and "depth_of (up(r1 \<mapsto> r2)) u = (if root_of up u = r1 then Suc (depth_of up u) else depth_of up u)"
  using root_path_root_of [OF link_path [OF assms(1-3) forest_path [OF assms(4,5)]]] by auto

lemma link_forest:
  assumes "up r1 = None" "up r2 = None" "r1 \<noteq> r2" "forest up D" "r2 \<in> D"
  shows "forest (up(r1 \<mapsto> r2)) D"
  unfolding forest_def
proof (intro ballI conjI)
  fix u assume u: "u \<in> D"
  show "\<exists>n r. root_path (up(r1 \<mapsto> r2)) u n r"
    using link_path [OF assms(1-3) forest_path [OF assms(4) u]] by blast
  show "\<forall>v. (up(r1 \<mapsto> r2)) u = Some v \<longrightarrow> v \<in> D"
    using assms(4,5) u by (auto simp: forest_def)
qed

lemma forest_empty [simp]: "forest Map.empty D"
  by (auto simp: forest_def intro: root_path.root)

lemma forest_no_parents: "\<forall>u \<in> D. up u = None \<Longrightarrow> forest up D"
  by (auto simp: forest_def intro: root_path.root)

subsection \<open>Sizes of components, and the depth bound of union by size\<close>

definition component :: "(int \<rightharpoonup> int) \<Rightarrow> int set \<Rightarrow> int \<Rightarrow> int set" where
  "component up D r = {x \<in> D. root_of up x = r}"

lemma component_link:
  assumes "up r1 = None" "up r2 = None" "r1 \<noteq> r2" "forest up D"
  shows "component (up(r1 \<mapsto> r2)) D r2 = component up D r1 \<union> component up D r2"
    and "r \<noteq> r1 \<Longrightarrow> r \<noteq> r2 \<Longrightarrow> component (up(r1 \<mapsto> r2)) D r = component up D r"
  using link_root(1) [OF assms] assms(3) unfolding component_def by (auto split: if_splits)

lemma card_component_link:
  assumes "up r1 = None" "up r2 = None" "r1 \<noteq> r2" "forest up D"
    and "finite (component up D r1)" "finite (component up D r2)"
  shows "card (component (up(r1 \<mapsto> r2)) D r2) = card (component up D r1) + card (component up D r2)"
  unfolding component_link(1) [OF assms(1-4)]
  using assms(3,5,6) by (intro card_Un_disjoint) (auto simp: component_def)

lemma finite_component [simp]: "finite D \<Longrightarrow> finite (component up D r)"
  by (simp add: component_def)

lemma root_in_component: "up r = None \<Longrightarrow> r \<in> D \<Longrightarrow> r \<in> component up D r"
  using root_of_root by (simp add: component_def)

text \<open>Weights at the roots that are the sizes of the components.\<close>

definition sized :: "(int \<rightharpoonup> int) \<Rightarrow> int set \<Rightarrow> (int \<Rightarrow> int) \<Rightarrow> bool" where
  "sized up D w \<longleftrightarrow> (\<forall>r \<in> D. up r = None \<longrightarrow> w r = int (card (component up D r)))"

lemma sized_link:
  assumes link: "up r1 = None" "up r2 = None" "r1 \<noteq> r2" "forest up D" "r1 \<in> D" "r2 \<in> D"
    and fin: "finite (component up D r1)" "finite (component up D r2)"
    and w: "sized up D w" "w' r2 = w r2 + w r1" "\<And>r. r \<in> D \<Longrightarrow> r \<noteq> r1 \<Longrightarrow> r \<noteq> r2 \<Longrightarrow> w' r = w r"
  shows "sized (up(r1 \<mapsto> r2)) D w'"
  unfolding sized_def
proof (intro ballI impI)
  fix r assume r: "r \<in> D" "(up(r1 \<mapsto> r2)) r = None"
  show "w' r = int (card (component (up(r1 \<mapsto> r2)) D r))"
  proof (cases "r = r2")
    case True
    then show ?thesis
      using w(1,2) link by (simp add: sized_def card_component_link [OF link(1-4) fin])
  next
    case False
    then show ?thesis
      using r w(1,3) component_link(2) [OF link(1-4), of r] by (auto simp: sized_def split: if_splits)
  qed
qed

lemma sized_roots:
  assumes "\<forall>u \<in> D. up u = None" "\<forall>u \<in> D. w u = 1"
  shows "sized up D w"
proof -
  have "component up D r = {r}" if "r \<in> D" for r
    using assms(1) that root_of_root [of up] by (auto simp: component_def)
  then show ?thesis using assms(2) by (simp add: sized_def)
qed

text \<open>The invariant that union by size keeps: a tree of depth \<open>n\<close> has at least \<open>2^n\<close> elements.\<close>

definition shallow :: "(int \<rightharpoonup> int) \<Rightarrow> int set \<Rightarrow> bool" where
  "shallow up D \<longleftrightarrow> (\<forall>u \<in> D. 2 ^ depth_of up u \<le> card (component up D (root_of up u)))"

lemma shallow_link:
  assumes link: "up r1 = None" "up r2 = None" "r1 \<noteq> r2" "forest up D"
    and fin: "finite (component up D r1)" "finite (component up D r2)"
    and le: "card (component up D r1) \<le> card (component up D r2)" and sh: "shallow up D"
  shows "shallow (up(r1 \<mapsto> r2)) D"
  unfolding shallow_def
proof
  fix u assume u: "u \<in> D"
  note l = link_root [OF link u]
  have IH: "2 ^ depth_of up u \<le> card (component up D (root_of up u))"
    using sh u by (simp add: shallow_def)
  consider "root_of up u = r1" | "root_of up u = r2" "root_of up u \<noteq> r1"
    | "root_of up u \<noteq> r1" "root_of up u \<noteq> r2" by blast
  then show "2 ^ depth_of (up(r1 \<mapsto> r2)) u \<le> card (component (up(r1 \<mapsto> r2)) D (root_of (up(r1 \<mapsto> r2)) u))"
  proof cases
    case 1
    then show ?thesis using IH le by (simp add: l card_component_link [OF link fin])
  next
    case 2
    then show ?thesis using IH by (simp add: l card_component_link [OF link fin])
  next
    case 3
    then show ?thesis using IH component_link(2) [OF link] by (simp add: l)
  qed
qed

lemma shallow_roots:
  assumes "finite D" "\<forall>u \<in> D. up u = None"
  shows "shallow up D"
  unfolding shallow_def
proof
  fix u assume u: "u \<in> D"
  then have r: "root_of up u = u" "depth_of up u = 0" using assms(2) root_of_root by auto
  then have "u \<in> component up D u" using u by (simp add: component_def)
  then have "0 < card (component up D u)" using assms(1) by (auto simp: card_gt_0_iff component_def)
  then show "2 ^ depth_of up u \<le> card (component up D (root_of up u))" using r by simp
qed

lemma shallow_depth:
  assumes "shallow up D" "finite D" "u \<in> D"
  shows "2 ^ depth_of up u \<le> card D"
proof -
  have "card (component up D (root_of up u)) \<le> card D"
    using assms(2) by (intro card_mono) (auto simp: component_def)
  then show ?thesis using assms by (meson le_trans shallow_def)
qed

text \<open>The number of values of two functions that identify the same arguments.\<close>

lemma card_image_kernel:
  assumes "\<And>x y. x \<in> A \<Longrightarrow> y \<in> A \<Longrightarrow> f x = f y \<longleftrightarrow> g x = g y"
  shows "card (f ` A) = card (g ` A)"
proof -
  have "bij_betw (\<lambda>z. g (inv_into A f z)) (f ` A) (g ` A)"
  proof (rule bij_betw_imageI)
    show "inj_on (\<lambda>z. g (inv_into A f z)) (f ` A)"
      by (rule inj_onI) (metis assms f_inv_into_f inv_into_into)
    show "(\<lambda>z. g (inv_into A f z)) ` f ` A = g ` A"
      unfolding image_image using assms by (intro image_cong) (auto, metis f_inv_into_f image_eqI inv_into_into)
  qed
  then show ?thesis by (rule bij_betw_same_card)
qed

subsection \<open>The interface\<close>

text \<open>Feeding a list of edges; the count is the number of edges that joined two components.\<close>

fun run_joins ::
  "('s \<Rightarrow> int \<Rightarrow> int \<Rightarrow> ('s \<times> bool) option) \<Rightarrow> 's \<Rightarrow> (int \<times> int) list \<Rightarrow> ('s \<times> nat) option" where
  "run_joins join s [] = Some (s, 0)"
| "run_joins join s ((u, v) # es) = do {
     (s', b) \<leftarrow> join s u v;
     (s'', n) \<leftarrow> run_joins join s' es;
     Some (s'', if b then n + 1 else n)
   }"

lemma run_joins_count:
  assumes "\<And>s u v s' b. join s u v = Some (s', b) \<Longrightarrow> cnt s' = cnt s + (if b then 1 else (0::int))"
  shows "run_joins join s es = Some (s', n) \<Longrightarrow> cnt s' = cnt s + int n"
proof (induction es arbitrary: s n)
  case (Cons e es)
  obtain u v where e: "e = (u, v)" by (cases e)
  obtain s1 b m where "join s u v = Some (s1, b)" "run_joins join s1 es = Some (s', m)"
    "n = (if b then m + 1 else m)"
    using Cons.prems e by (auto split: bind_splits)
  then show ?case using Cons.IH [of s1 m] assms by simp
qed simp

text \<open>The relation that the edges generate.\<close>

definition linked :: "(int \<times> int) list \<Rightarrow> (int \<times> int) set" where
  "linked es = (set es \<union> (set es)\<inverse>)\<^sup>*"

lemma linked_refl [simp]: "(x, x) \<in> linked es"
  by (simp add: linked_def)

lemma linked_sym: "(x, y) \<in> linked es \<Longrightarrow> (y, x) \<in> linked es"
  unfolding linked_def by (rule symD [OF sym_rtrancl [OF sym_Un_converse]])

lemma linked_trans: "(x, y) \<in> linked es \<Longrightarrow> (y, z) \<in> linked es \<Longrightarrow> (x, z) \<in> linked es"
  unfolding linked_def by (rule rtrancl_trans)

text \<open>The class of an element, and all classes of a set.\<close>

definition classes :: "(int \<times> int) list \<Rightarrow> int set \<Rightarrow> int set set" where
  "classes es A = (\<lambda>x. {y \<in> A. (x, y) \<in> linked es}) ` A"

lemma class_eq_iff:
  assumes "x \<in> A" "y \<in> A"
  shows "{z \<in> A. (x, z) \<in> linked es} = {z \<in> A. (y, z) \<in> linked es} \<longleftrightarrow> (x, y) \<in> linked es"
proof
  assume "{z \<in> A. (x, z) \<in> linked es} = {z \<in> A. (y, z) \<in> linked es}"
  moreover have "y \<in> {z \<in> A. (y, z) \<in> linked es}" using assms(2) by simp
  ultimately show "(x, y) \<in> linked es" by blast
next
  assume xy: "(x, y) \<in> linked es"
  show "{z \<in> A. (x, z) \<in> linked es} = {z \<in> A. (y, z) \<in> linked es}"
    using linked_trans [OF xy] linked_trans [OF linked_sym [OF xy]] by blast
qed

lemma card_classes:
  assumes "\<forall>x \<in> A. \<forall>y \<in> A. f x = f y \<longleftrightarrow> (x, y) \<in> linked es"
  shows "card (f ` A) = card (classes es A)"
  unfolding classes_def
proof (rule card_image_kernel)
  fix x y assume "x \<in> A" "y \<in> A"
  then show "f x = f y \<longleftrightarrow> {z \<in> A. (x, z) \<in> linked es} = {z \<in> A. (y, z) \<in> linked es}"
    using assms class_eq_iff [of x A y es] by blast
qed

locale disjoint_sets =
  fixes inv :: "'s \<Rightarrow> bool"
    and elems :: "'s \<Rightarrow> int set"
    and find :: "'s \<Rightarrow> int \<Rightarrow> int option"
    and join :: "'s \<Rightarrow> int \<Rightarrow> int \<Rightarrow> ('s \<times> bool) option"
  assumes find_root: "inv s \<Longrightarrow> u \<in> elems s \<Longrightarrow>
      \<exists>r \<in> elems s. find s u = Some r \<and> find s r = Some r"
    and join_same: "inv s \<Longrightarrow> u \<in> elems s \<Longrightarrow> v \<in> elems s \<Longrightarrow> find s u = find s v \<Longrightarrow>
      \<exists>s'. join s u v = Some (s', False) \<and> inv s' \<and> elems s' = elems s \<and>
        (\<forall>x \<in> elems s. find s' x = find s x)"
    and join_diff: "inv s \<Longrightarrow> u \<in> elems s \<Longrightarrow> v \<in> elems s \<Longrightarrow> find s u \<noteq> find s v \<Longrightarrow>
      \<exists>s' r1 r2. join s u v = Some (s', True) \<and> inv s' \<and> elems s' = elems s \<and>
        {r1, r2} = {find s u, find s v} \<and>
        (\<forall>x \<in> elems s. find s' x = (if find s x = r1 then r2 else find s x))"
begin

text \<open>One join, as its effect on the partition and on the number of roots.\<close>

lemma join_partition:
  assumes "inv s" "u \<in> elems s" "v \<in> elems s"
  obtains s' b where "join s u v = Some (s', b)" "inv s'" "elems s' = elems s"
    "\<forall>x \<in> elems s. \<forall>y \<in> elems s. find s' x = find s' y \<longleftrightarrow> find s x = find s y \<or>
      find s x = find s u \<and> find s y = find s v \<or> find s x = find s v \<and> find s y = find s u"
    "finite (elems s) \<longrightarrow>
      card (find s' ` elems s) + (if b then 1 else 0) = card (find s ` elems s)"
proof (cases "find s u = find s v")
  case True
  obtain s' where s': "join s u v = Some (s', False)" "inv s'" "elems s' = elems s"
    "\<forall>x \<in> elems s. find s' x = find s x" using join_same [OF assms True] by blast
  have "find s' ` elems s = find s ` elems s" using s'(4) by (intro image_cong) auto
  then have card: "finite (elems s) \<longrightarrow>
      card (find s' ` elems s) + (if False then 1 else 0) = card (find s ` elems s)"
    by simp
  show ?thesis by (rule that [OF s'(1-3) _ card]) (use s'(4) True in auto)
next
  case False
  obtain s' r1 r2 where s': "join s u v = Some (s', True)" "inv s'" "elems s' = elems s"
    "{r1, r2} = {find s u, find s v}"
    "\<forall>x \<in> elems s. find s' x = (if find s x = r1 then r2 else find s x)"
    using join_diff [OF assms False] by blast
  have r: "r1 \<noteq> r2" "r1 \<in> find s ` elems s" "r2 \<in> find s ` elems s"
    using s'(4) False assms(2,3) by (auto simp: doubleton_eq_iff)
  have "find s' ` elems s = find s ` elems s - {r1}"
  proof (intro set_eqI iffI)
    fix x assume "x \<in> find s' ` elems s"
    then show "x \<in> find s ` elems s - {r1}" using s'(5) r by auto
  next
    fix x assume "x \<in> find s ` elems s - {r1}"
    then obtain y where "y \<in> elems s" "x = find s y" "find s y \<noteq> r1" by auto
    then show "x \<in> find s' ` elems s" using s'(5) by (intro image_eqI [of _ _ y]) auto
  qed
  moreover have "card (find s ` elems s) = card (find s ` elems s - {r1}) + 1"
    if "finite (elems s)" 
    using card_Suc_Diff1 [OF finite_imageI [OF that] r(2)] by simp
  moreover have "find s' x = find s' y \<longleftrightarrow> find s x = find s y \<or>
      find s x = find s u \<and> find s y = find s v \<or> find s x = find s v \<and> find s y = find s u"
    if "x \<in> elems s" "y \<in> elems s" for x y
  proof -
    have x: "find s' x = (if find s x = r1 then r2 else find s x)"
      and y: "find s' y = (if find s y = r1 then r2 else find s y)" using s'(5) that by blast+
    have "r1 = find s u \<and> r2 = find s v \<or> r1 = find s v \<and> r2 = find s u"
      using s'(4) unfolding doubleton_eq_iff by blast
    then show ?thesis unfolding x y using r(1) by (elim disjE conjE; hypsubst) auto
  qed
  ultimately show ?thesis using that [OF s'(1-3)] by simp
qed

lemma run_joins_partition:
  assumes "inv s" "\<forall>(u, v) \<in> set es. u \<in> elems s \<and> v \<in> elems s"
  shows "\<exists>s' n. run_joins join s es = Some (s', n) \<and> inv s' \<and> elems s' = elems s \<and>
    (\<forall>x \<in> elems s. \<forall>y \<in> elems s. find s' x = find s' y \<longleftrightarrow>
      (x, y) \<in> ({(a, b). a \<in> elems s \<and> b \<in> elems s \<and> find s a = find s b} \<union>
        set es \<union> (set es)\<inverse>)\<^sup>*) \<and>
    (finite (elems s) \<longrightarrow> card (find s' ` elems s) + n = card (find s ` elems s))"
  using assms
proof (induction es arbitrary: s)
  case Nil
  let ?R = "{(a, b). a \<in> elems s \<and> b \<in> elems s \<and> find s a = find s b}"
  have eq: "find s x = find s y" if "(x, y) \<in> ?R\<^sup>*" for x y
    using that by (induction rule: rtrancl_induct) auto
  have star: "find s x = find s y \<longleftrightarrow> (x, y) \<in> ?R\<^sup>*" if "x \<in> elems s" "y \<in> elems s" for x y
  proof
    show "(x, y) \<in> ?R\<^sup>*" if "find s x = find s y"
      using that \<open>x \<in> elems s\<close> \<open>y \<in> elems s\<close> by (intro r_into_rtrancl) simp
  qed (rule eq)
  have union: "?R \<union> set [] \<union> (set [])\<inverse> = ?R" by simp
  have "\<forall>x \<in> elems s. \<forall>y \<in> elems s. find s x = find s y \<longleftrightarrow>
      (x, y) \<in> (?R \<union> set [] \<union> (set [])\<inverse>)\<^sup>*"
    unfolding union by (intro ballI star)
  then show ?case using Nil.prems(1) unfolding run_joins.simps
    by (intro exI [of _ s] exI [of _ 0]) (simp only: add_0_right simp_thms)
next
  case (Cons e es)
  obtain u v where e: "e = (u, v)" by (cases e)
  have uv: "u \<in> elems s" "v \<in> elems s" and es: "\<forall>(u, v) \<in> set es. u \<in> elems s \<and> v \<in> elems s"
    using Cons.prems(2) e by auto
  obtain s1 b where s1: "join s u v = Some (s1, b)" "inv s1" "elems s1 = elems s"
    "\<forall>x \<in> elems s. \<forall>y \<in> elems s. find s1 x = find s1 y \<longleftrightarrow> find s x = find s y \<or>
      find s x = find s u \<and> find s y = find s v \<or> find s x = find s v \<and> find s y = find s u"
    "finite (elems s) \<longrightarrow>
      card (find s1 ` elems s) + (if b then 1 else 0) = card (find s ` elems s)"
    by (rule join_partition [OF Cons.prems(1) uv]) (rule that)
  let ?R = "\<lambda>f. {(a, b). a \<in> elems s \<and> b \<in> elems s \<and> f a = f b}"
  let ?E = "set es \<union> (set es)\<inverse>"
  have "\<forall>(u, v) \<in> set es. u \<in> elems s1 \<and> v \<in> elems s1" using es s1(3) by simp
  from Cons.IH [OF s1(2) this] obtain s' n where s': "run_joins join s1 es = Some (s', n)"
    "inv s'" "elems s' = elems s"
    "\<forall>x \<in> elems s. \<forall>y \<in> elems s. find s' x = find s' y \<longleftrightarrow> (x, y) \<in> (?R (find s1) \<union> ?E)\<^sup>*"
    "finite (elems s) \<longrightarrow> card (find s' ` elems s) + n = card (find s1 ` elems s)"
    unfolding s1(3) Un_assoc by (elim exE conjE)
  have "(?R (find s1) \<union> ?E)\<^sup>* = (?R (find s) \<union> set (e # es) \<union> (set (e # es))\<inverse>)\<^sup>*" (is "_ = ?S\<^sup>*")
  proof (rule equalityI; rule rtrancl_subset_rtrancl; rule subsetI)
    fix p assume p: "p \<in> ?R (find s1) \<union> ?E"
    obtain x y where xy: "p = (x, y)" by (cases p)
    have st: "(a, b) \<in> ?S\<^sup>*" if "a \<in> elems s" "b \<in> elems s" "find s a = find s b" for a b
      using that by (intro r_into_rtrancl) auto
    have uv': "(u, v) \<in> ?S\<^sup>*" "(v, u) \<in> ?S\<^sup>*" using e by (auto intro!: r_into_rtrancl)
    show "p \<in> ?S\<^sup>*"
    proof (cases "p \<in> ?E")
      case False
      then have m: "x \<in> elems s" "y \<in> elems s" "find s1 x = find s1 y" using p xy s1(3) by auto
      have "find s x = find s y \<or> find s x = find s u \<and> find s y = find s v \<or>
          find s x = find s v \<and> find s y = find s u"
        by (rule s1(4) [rule_format, OF m(1,2), THEN iffD1, OF m(3)])
      then show ?thesis unfolding xy
      proof (elim disjE conjE)
        assume "find s x = find s y"
        then show "(x, y) \<in> ?S\<^sup>*" by (rule st [OF m(1,2)])
      next
        assume "find s x = find s u" "find s y = find s v"
        from st [OF m(1) uv(1) this(1)] uv'(1) st [OF uv(2) m(2) this(2) [symmetric]]
        show "(x, y) \<in> ?S\<^sup>*" by (rule rtrancl_trans [OF rtrancl_trans])
      next
        assume "find s x = find s v" "find s y = find s u"
        from st [OF m(1) uv(2) this(1)] uv'(2) st [OF uv(1) m(2) this(2) [symmetric]]
        show "(x, y) \<in> ?S\<^sup>*" by (rule rtrancl_trans [OF rtrancl_trans])
      qed
    qed (auto intro!: r_into_rtrancl)
  next
    fix p assume "p \<in> ?S"
    then show "p \<in> (?R (find s1) \<union> ?E)\<^sup>*"
      using s1(3,4) uv e by (auto intro!: r_into_rtrancl)
  qed
  then show ?case
    using s1 s' e by (auto simp: Un_assoc)
qed

text \<open>From a state in which nothing is joined yet, the edges alone decide.\<close>

lemma run_joins_linked:
  assumes "inv s" "\<forall>(u, v) \<in> set es. u \<in> elems s \<and> v \<in> elems s"
    and single: "\<forall>u \<in> elems s. find s u = Some u"
  shows "\<exists>s' n. run_joins join s es = Some (s', n) \<and> inv s' \<and> elems s' = elems s \<and>
    (\<forall>x \<in> elems s. \<forall>y \<in> elems s. find s' x = find s' y \<longleftrightarrow> (x, y) \<in> linked es) \<and>
    (finite (elems s) \<longrightarrow> card (find s' ` elems s) + n = card (elems s))"
proof -
  let ?R = "{(a, b). a \<in> elems s \<and> b \<in> elems s \<and> find s a = find s b}"
  have "?R \<subseteq> Id" using single by auto
  then have "(?R \<union> set es \<union> (set es)\<inverse>)\<^sup>* = linked es"
    unfolding linked_def by (intro rtrancl_subset) auto
  moreover have "card (find s ` elems s) = card (elems s)"
    using single by (intro card_image inj_onI) auto
  ultimately show ?thesis using run_joins_partition [OF assms(1,2)] by simp
qed

end

end
