(* ===== verification/UnionFinds.thy ===== *)
theory UnionFinds
  imports DisjointSets "HOL-Library.Multiset"
begin

section \<open>The union-find classes (library/UnionFind.h)\<close>

text \<open>
  Four classes that keep disjoint sets as parent pointers: \<open>UnionFindSimple\<close> (a root is its own
  parent), \<open>UnionFind_Map\<close> (a root has no entry), \<open>UnionFind\<close> and \<open>UnionFind3\<close> (a root has the
  parent -1). Each is an interpretation of \<open>disjoint_sets\<close>, so that feeding any list of edges
  gives the equivalence closure of the edges. A subscript outside its vector is \<open>None\<close>; the
  sizes are bounded by the number of elements and are kept as unbounded integers.
\<close>

subsection \<open>The model\<close>

record UnionFindSimple =
  s_parent :: "int list"
  s_size :: "int list"
  union_count :: int

definition UnionFindSimple_init :: "int \<Rightarrow> UnionFindSimple" where
  "UnionFindSimple_init N =
     \<lparr>s_parent = [0..N - 1], s_size = replicate (nat N) 0, union_count = 0\<rparr>"

partial_function (option) simple_find :: "int list \<Rightarrow> int \<Rightarrow> int option" where
  "simple_find parent u = do {
     p \<leftarrow> ivec_at parent u;
     if p \<noteq> u then simple_find parent p else Some u
   }"

definition simple_add_edge :: "UnionFindSimple \<Rightarrow> int \<Rightarrow> int \<Rightarrow> (UnionFindSimple \<times> bool) option" where
  "simple_add_edge this u v = do {
     p_u \<leftarrow> simple_find (s_parent this) (u - 1);
     p_v \<leftarrow> simple_find (s_parent this) (v - 1);
     if p_u \<noteq> p_v then do {
       su \<leftarrow> ivec_at (s_size this) p_u;
       sv \<leftarrow> ivec_at (s_size this) p_v;
       let (p_u, p_v) = (if su > sv then (p_v, p_u) else (p_u, p_v));
       q \<leftarrow> ivec_at (s_parent this) p_v;
       parent \<leftarrow> ivec_upd (s_parent this) p_u q;
       su \<leftarrow> ivec_at (s_size this) p_u;
       sv \<leftarrow> ivec_at (s_size this) p_v;
       sz \<leftarrow> ivec_upd (s_size this) p_v (sv + su);
       Some (\<lparr>s_parent = parent, s_size = sz, union_count = union_count this + 1\<rparr>, True)
     }
     else Some (this, False)
   }"

definition simple_components :: "UnionFindSimple \<Rightarrow> int" where
  "simple_components this = int (length (s_parent this)) - union_count this"

record UnionFind_Map =
  m_parents :: "int \<rightharpoonup> int"
  m_size :: "int \<rightharpoonup> int"
  max_size :: int

definition UnionFind_Map_init :: UnionFind_Map where
  "UnionFind_Map_init = \<lparr>m_parents = Map.empty, m_size = Map.empty, max_size = 0\<rparr>"

partial_function (option) find_parent :: "(int \<rightharpoonup> int) \<Rightarrow> int \<Rightarrow> int option" where
  "find_parent parents a = (case parents a of None \<Rightarrow> Some a | Some p \<Rightarrow> find_parent parents p)"

text \<open>\<open>size[k]\<close> of a \<open>std::map\<close> inserts 0 for a key that is not there.\<close>

definition map_ref :: "(int \<rightharpoonup> int) \<Rightarrow> int \<Rightarrow> int" where
  "map_ref m k = (case m k of None \<Rightarrow> 0 | Some v \<Rightarrow> v)"

definition map_join :: "UnionFind_Map \<Rightarrow> int \<Rightarrow> int \<Rightarrow> UnionFind_Map option" where
  "map_join this a b = do {
     pa \<leftarrow> find_parent (m_parents this) a;
     pb \<leftarrow> find_parent (m_parents this) b;
     if pa = pb then Some this
     else
       let sa = map_ref (m_size this) pa;
           sb = map_ref (m_size this) pb;
           sa = (if sa = 0 then sa + 1 else sa);
           sb = (if sb = 0 then sb + 1 else sb)
       in if sa > sb
          then Some \<lparr>m_parents = (m_parents this)(pb \<mapsto> pa),
                     m_size = (m_size this)(pa \<mapsto> sa + sb, pb \<mapsto> sb),
                     max_size = max (max_size this) (sa + sb)\<rparr>
          else Some \<lparr>m_parents = (m_parents this)(pa \<mapsto> pb),
                     m_size = (m_size this)(pa \<mapsto> sa, pb \<mapsto> sb + sa),
                     max_size = max (max_size this) (sb + sa)\<rparr>
   }"

definition largest_CC :: "UnionFind_Map \<Rightarrow> int" where
  "largest_CC this = max_size this"

record UnionFind =
  u_parents :: "int list"
  u_size :: "int list"
  nodes_added :: int

definition UnionFind_init :: "int \<Rightarrow> UnionFind" where
  "UnionFind_init N = \<lparr>u_parents = replicate (nat (N + 1)) (-1),
     u_size = replicate (nat (N + 1)) 1, nodes_added = 0\<rparr>"

partial_function (option) neg_find :: "int list \<Rightarrow> int \<Rightarrow> int option" where
  "neg_find parents u = do {
     p \<leftarrow> ivec_at parents u;
     if p < 0 then Some u else neg_find parents p
   }"

definition update_count :: "UnionFind \<Rightarrow> int \<Rightarrow> UnionFind option" where
  "update_count this u = do {
     p \<leftarrow> ivec_at (u_parents this) u;
     s \<leftarrow> ivec_at (u_size this) u;
     Some (if p \<ge> 0 \<or> s > 1 then this else this\<lparr>nodes_added := nodes_added this + 1\<rparr>)
   }"

definition union_sets :: "UnionFind \<Rightarrow> int \<Rightarrow> int \<Rightarrow> (UnionFind \<times> bool) option" where
  "union_sets this u v = do {
     this \<leftarrow> update_count this u;
     this \<leftarrow> update_count this v;
     pu \<leftarrow> neg_find (u_parents this) u;
     pv \<leftarrow> neg_find (u_parents this) v;
     if pu = pv then Some (this, False)
     else do {
       su \<leftarrow> ivec_at (u_size this) pu;
       sv \<leftarrow> ivec_at (u_size this) pv;
       let (pu, pv) = (if su > sv then (pv, pu) else (pu, pv));
       parents \<leftarrow> ivec_upd (u_parents this) pu pv;
       su \<leftarrow> ivec_at (u_size this) pu;
       sv \<leftarrow> ivec_at (u_size this) pv;
       sz \<leftarrow> ivec_upd (u_size this) pv (sv + su);
       Some (this\<lparr>u_parents := parents, u_size := sz\<rparr>, True)
     }
   }"

definition get_size :: "UnionFind \<Rightarrow> int \<Rightarrow> int option" where
  "get_size this u = do {
     r \<leftarrow> neg_find (u_parents this) u;
     s \<leftarrow> ivec_at (u_size this) r;
     Some (if s = 1 then 0 else s)
   }"

definition get_count :: "UnionFind \<Rightarrow> int" where
  "get_count this = nodes_added this"

text \<open>\<open>get_components\<close> inserts the root of every index into a set and returns its size.\<close>

fun insert_roots :: "int list \<Rightarrow> int list \<Rightarrow> int set \<Rightarrow> int set option" where
  "insert_roots parents [] components = Some components"
| "insert_roots parents (i # is) components = do {
     p \<leftarrow> neg_find parents i;
     insert_roots parents is (if p < 0 then insert i components else insert p components)
   }"

definition get_components :: "UnionFind \<Rightarrow> int option" where
  "get_components this = do {
     s \<leftarrow> insert_roots (u_parents this) [0..int (length (u_parents this)) - 1] {};
     Some (int (card s))
   }"

definition max_component_size :: "UnionFind \<Rightarrow> int option" where
  "max_component_size this =
     (case u_size this of [] \<Rightarrow> None | x # xs \<Rightarrow> Some (fold max xs x))"

record UnionFind3 =
  parents3 :: "int list"
  size3 :: "int list"

definition UnionFind3_init :: "int \<Rightarrow> UnionFind3" where
  "UnionFind3_init n = \<lparr>parents3 = replicate (nat n) (-1), size3 = replicate (nat n) 1\<rparr>"

text \<open>\<open>find\<close> is a \<open>while\<close> loop here; it makes the same steps as \<open>neg_find\<close>.\<close>

partial_function (option) find3 :: "int list \<Rightarrow> int \<Rightarrow> int option" where
  "find3 parents u = do {
     p \<leftarrow> ivec_at parents u;
     if p \<ge> 0 then find3 parents p else Some u
   }"

definition connect :: "UnionFind3 \<Rightarrow> int \<Rightarrow> int \<Rightarrow> (UnionFind3 \<times> bool) option" where
  "connect this u v = do {
     pu \<leftarrow> find3 (parents3 this) u;
     pv \<leftarrow> find3 (parents3 this) v;
     if pu = pv then Some (this, False)
     else do {
       su \<leftarrow> ivec_at (size3 this) pu;
       sv \<leftarrow> ivec_at (size3 this) pv;
       let (pu, pv) = (if su > sv then (pv, pu) else (pu, pv));
       parents \<leftarrow> ivec_upd (parents3 this) pu pv;
       su \<leftarrow> ivec_at (size3 this) pu;
       sv \<leftarrow> ivec_at (size3 this) pv;
       sz \<leftarrow> ivec_upd (size3 this) pv (sv + su);
       sz \<leftarrow> ivec_upd sz pu 0;
       Some (\<lparr>parents3 = parents, size3 = sz\<rparr>, True)
     }
   }"

definition get_components3 :: "UnionFind3 \<Rightarrow> int list" where
  "get_components3 this = filter (\<lambda>s. s \<noteq> 0) (size3 this)"

subsection \<open>UnionFindSimple\<close>

definition simple_up :: "int list \<Rightarrow> int \<rightharpoonup> int" where
  "simple_up parent u = (if 0 \<le> u \<and> u < int (length parent) \<and> parent ! nat u \<noteq> u
     then Some (parent ! nat u) else None)"

definition indices :: "'a list \<Rightarrow> int set" where
  "indices xs = {0..<int (length xs)}"

lemma finite_indices [simp]: "finite (indices xs)"
  by (simp add: indices_def)

definition simple_inv :: "UnionFindSimple \<Rightarrow> bool" where
  "simple_inv s \<longleftrightarrow> forest (simple_up (s_parent s)) (indices (s_parent s)) \<and>
     s_size s = replicate (length (s_parent s)) 0"

lemma simple_find_root:
  assumes "forest (simple_up p) (indices p)" "u \<in> indices p"
  shows "simple_find p u = Some (root_of (simple_up p) u)"
proof (rule search_root [OF assms])
  fix u assume "u \<in> indices p"
  then show "simple_find p u = (case simple_up p u of None \<Rightarrow> Some u | Some v \<Rightarrow> simple_find p v)"
    by (subst simple_find.simps) (auto simp: simple_up_def indices_def)
qed

lemma simple_up_link:
  assumes "r1 \<in> indices p" "r2 \<in> indices p" "r1 \<noteq> r2"
  shows "simple_up (p[nat r1 := r2]) = (simple_up p)(r1 \<mapsto> r2)"
  using assms by (auto simp: simple_up_def indices_def fun_eq_iff nth_update_int split: if_splits)

text \<open>
  The edges are 1-based. No size is ever different from 0, so the test \<open>size[p_u] > size[p_v]\<close>
  never succeeds and the root of the first element always goes below that of the second.
\<close>

lemma simple_add_edge_correct:
  assumes inv: "simple_inv s" and u: "u - 1 \<in> indices (s_parent s)" and v: "v - 1 \<in> indices (s_parent s)"
  defines "f \<equiv> root_of (simple_up (s_parent s))"
  shows "simple_add_edge s u v =
    (if f (u - 1) = f (v - 1) then Some (s, False)
     else Some (\<lparr>s_parent = (s_parent s)[nat (f (u - 1)) := f (v - 1)], s_size = s_size s,
                 union_count = union_count s + 1\<rparr>, True))"
proof -
  let ?p = "s_parent s"
  have F: "forest (simple_up ?p) (indices ?p)" using inv by (simp add: simple_inv_def)
  note fu = forest_root [OF F u, folded f_def] and fv = forest_root [OF F v, folded f_def]
  have self: "?p ! nat (f (v - 1)) = f (v - 1)"
    using fv(1,2) by (auto simp: simple_up_def indices_def split: if_splits)
  have zero: "s_size s ! nat r = 0" "ivec_at (s_size s) r = Some 0" if "r \<in> indices ?p" for r
    using that inv by (auto simp: simple_inv_def indices_def)
  have upd: "ivec_upd (s_size s) (f (v - 1)) (0 + 0) = Some (s_size s)"
    using fv(1) inv zero(1) [OF fv(1)] list_update_id [of "s_size s" "nat (f (v - 1))"]
    by (simp add: simple_inv_def indices_def del: list_update_id)
  show ?thesis
    using simple_find_root [OF F u, folded f_def] simple_find_root [OF F v, folded f_def]
      fu(1) fv(1) self zero upd
    by (simp add: simple_add_edge_def indices_def)
qed

text \<open>The class seen through the interface: \<open>find\<close> and \<open>add_edge\<close> on 1-based nodes.\<close>

definition simple_elems :: "UnionFindSimple \<Rightarrow> int set" where
  "simple_elems s = {1..int (length (s_parent s))}"

definition simple_find1 :: "UnionFindSimple \<Rightarrow> int \<Rightarrow> int option" where
  "simple_find1 s u = map_option (\<lambda>r. r + 1) (simple_find (s_parent s) (u - 1))"

lemma simple_elems_indices: "u \<in> simple_elems s \<longleftrightarrow> u - 1 \<in> indices (s_parent s)"
  by (auto simp: simple_elems_def indices_def)

interpretation uf_simple: disjoint_sets simple_inv simple_elems simple_find1 simple_add_edge
proof
  fix s u v assume inv: "simple_inv s" and u: "u \<in> simple_elems s"
  let ?p = "s_parent s" let ?f = "root_of (simple_up ?p)"
  have F: "forest (simple_up ?p) (indices ?p)" using inv by (simp add: simple_inv_def)
  have find: "simple_find1 s x = Some (?f (x - 1) + 1)" if "x \<in> simple_elems s" for x
    using simple_find_root [OF F] that by (simp add: simple_find1_def simple_elems_indices)
  note r = forest_root [OF F]
  show "\<exists>r \<in> simple_elems s. simple_find1 s u = Some r \<and> simple_find1 s r = Some r"
    using r [of "u - 1"] u by (intro bexI [of _ "?f (u - 1) + 1"])
      (auto simp: find simple_elems_indices)
  assume v: "v \<in> simple_elems s"
  note uv = u [unfolded simple_elems_indices] v [unfolded simple_elems_indices]
  note step = simple_add_edge_correct [OF inv uv]
  show "\<exists>s'. simple_add_edge s u v = Some (s', False) \<and> simple_inv s' \<and>
      simple_elems s' = simple_elems s \<and> (\<forall>x \<in> simple_elems s. simple_find1 s' x = simple_find1 s x)"
    if "simple_find1 s u = simple_find1 s v"
    using that step inv u v by (simp add: find)
  show "\<exists>s' r1 r2. simple_add_edge s u v = Some (s', True) \<and> simple_inv s' \<and>
      simple_elems s' = simple_elems s \<and> {r1, r2} = {simple_find1 s u, simple_find1 s v} \<and>
      (\<forall>x \<in> simple_elems s. simple_find1 s' x = (if simple_find1 s x = r1 then r2 else simple_find1 s x))"
    if ne: "simple_find1 s u \<noteq> simple_find1 s v"
  proof -
    let ?r1 = "?f (u - 1)" and ?r2 = "?f (v - 1)"
    let ?q = "?p[nat ?r1 := ?r2]"
    let ?s = "\<lparr>s_parent = ?q, s_size = s_size s, union_count = union_count s + 1\<rparr>"
    have diff: "?r1 \<noteq> ?r2" using ne u v by (simp add: find)
    note ru = r [OF uv(1)] and rv = r [OF uv(2)]
    have up: "simple_up ?q = (simple_up ?p)(?r1 \<mapsto> ?r2)" by (rule simple_up_link [OF ru(1) rv(1) diff])
    have ind: "indices ?q = indices ?p" by (simp add: indices_def)
    have F': "forest (simple_up ?q) (indices ?q)"
      unfolding up ind by (rule link_forest [OF ru(2) rv(2) diff F rv(1)])
    have inv': "simple_inv ?s" using F' inv by (simp add: simple_inv_def)
    have elems: "simple_elems ?s = simple_elems s" by (simp add: simple_elems_def)
    have "simple_find1 ?s x = (if simple_find1 s x = Some (?r1 + 1) then Some (?r2 + 1) else simple_find1 s x)"
      if "x \<in> simple_elems s" for x
      using simple_find_root [OF F', unfolded ind up] link_root(1) [OF ru(2) rv(2) diff F] that
      by (simp add: simple_find1_def [of ?s] simple_elems_indices find up)
    then show ?thesis using step diff inv' elems u v
      by (intro exI [of _ ?s] exI [of _ "Some (?r1 + 1)"] exI [of _ "Some (?r2 + 1)"]) (simp add: find)
  qed
qed

lemma simple_add_edge_count:
  "simple_add_edge s u v = Some (s', b) \<Longrightarrow>
   union_count s' = union_count s + (if b then 1 else 0) \<and> length (s_parent s') = length (s_parent s)"
  by (auto simp: simple_add_edge_def ivec_upd_def Let_def split: bind_splits if_splits prod.splits)

lemma UnionFindSimple_init_ok:
  assumes "0 \<le> N"
  shows "simple_inv (UnionFindSimple_init N)" "simple_elems (UnionFindSimple_init N) = {1..N}"
    "u \<in> {1..N} \<Longrightarrow> simple_find1 (UnionFindSimple_init N) u = Some u"
proof -
  let ?s = "UnionFindSimple_init N"
  have len: "length (s_parent ?s) = nat N" by (simp add: UnionFindSimple_init_def)
  have up: "simple_up (s_parent ?s) u = None" for u
    using assms by (auto simp: simple_up_def UnionFindSimple_init_def nth_upto)
  then have F: "forest (simple_up (s_parent ?s)) (indices (s_parent ?s))"
    by (intro forest_no_parents) simp
  then show "simple_inv ?s" by (simp add: simple_inv_def UnionFindSimple_init_def)
  show el: "simple_elems ?s = {1..N}" using assms by (simp add: simple_elems_def len)
  assume "u \<in> {1..N}"
  then have "u - 1 \<in> indices (s_parent ?s)" using el simple_elems_indices by blast
  then show "simple_find1 ?s u = Some u"
    using simple_find_root [OF F] root_of_root [of "simple_up (s_parent ?s)", OF up]
    by (simp add: simple_find1_def)
qed

text \<open>After any list of edges on the nodes 1 to N, \<open>UnionFindSimple::components\<close> is the number
  of connected components of the graph, and two nodes have the same root exactly when the edges
  connect them. The vector \<open>size\<close> stays all zero, so no merge is ever decided by size.\<close>

theorem UnionFindSimple_components:
  assumes "0 \<le> N" "\<forall>(u, v) \<in> set es. u \<in> {1..N} \<and> v \<in> {1..N}"
  shows "\<exists>s n. run_joins simple_add_edge (UnionFindSimple_init N) es = Some (s, n) \<and>
    simple_components s = int (card (classes es {1..N})) \<and>
    (\<forall>x \<in> {1..N}. \<forall>y \<in> {1..N}. simple_find (s_parent s) (x - 1) = simple_find (s_parent s) (y - 1) \<longleftrightarrow>
      (x, y) \<in> linked es) \<and>
    s_size s = replicate (nat N) 0"
proof -
  let ?s0 = "UnionFindSimple_init N"
  note init = UnionFindSimple_init_ok [OF assms(1)]
  have "\<forall>u \<in> simple_elems ?s0. simple_find1 ?s0 u = Some u" using init(2,3) by simp
  then obtain s n where s: "run_joins simple_add_edge ?s0 es = Some (s, n)" "simple_inv s"
    "simple_elems s = {1..N}"
    "\<forall>x \<in> {1..N}. \<forall>y \<in> {1..N}. simple_find1 s x = simple_find1 s y \<longleftrightarrow> (x, y) \<in> linked es"
    "card (simple_find1 s ` {1..N}) + n = card {1..N}"
    using uf_simple.run_joins_linked [OF init(1), of es] assms(2) unfolding init(2) by auto
  have "card (classes es {1..N}) + n = nat N" 
    using s(5) card_classes [OF s(4)] by simp
  moreover have "union_count s = 0 + int n"
    using run_joins_count [of simple_add_edge union_count, OF _ s(1)] simple_add_edge_count
    by (simp add: UnionFindSimple_init_def)
  moreover have len: "length (s_parent s) = nat N"
    using arg_cong [OF s(3), of card] by (simp add: simple_elems_def)
  ultimately have "simple_components s = int (card (classes es {1..N}))"
    using assms(1) by (simp add: simple_components_def)
  moreover have "simple_find (s_parent s) (x - 1) = simple_find (s_parent s) (y - 1) \<longleftrightarrow>
      simple_find1 s x = simple_find1 s y" for x y
  proof -
    have "inj (map_option (\<lambda>r::int. r + 1))" by (rule option.inj_map) (simp add: inj_def)
    then show ?thesis unfolding simple_find1_def by (simp only: inj_eq)
  qed
  ultimately show ?thesis using s(1,2,4) len by (auto simp: simple_inv_def)
qed

lemma UnionFindSimple_components_witness:
  "\<exists>s n. run_joins simple_add_edge (UnionFindSimple_init 4) [(1, 2), (3, 2)] = Some (s, n) \<and>
    simple_components s = int (card (classes [(1, 2), (3, 2)] {1..4})) \<and>
    (\<forall>x \<in> {1..4}. \<forall>y \<in> {1..4}. simple_find (s_parent s) (x - 1) = simple_find (s_parent s) (y - 1) \<longleftrightarrow>
      (x, y) \<in> linked [(1, 2), (3, 2)]) \<and>
    s_size s = replicate (nat 4) 0"
  by (rule UnionFindSimple_components) simp_all

subsection \<open>UnionFind and UnionFind3\<close>

definition neg_up :: "int list \<Rightarrow> int \<rightharpoonup> int" where
  "neg_up p u = (if 0 \<le> u \<and> u < int (length p) \<and> 0 \<le> p ! nat u then Some (p ! nat u) else None)"

lemma neg_find_root:
  assumes "forest (neg_up p) (indices p)" "u \<in> indices p"
  shows "neg_find p u = Some (root_of (neg_up p) u)" "find3 p u = Some (root_of (neg_up p) u)"
proof -
  have "neg_find p u = (case neg_up p u of None \<Rightarrow> Some u | Some v \<Rightarrow> neg_find p v)"
    "find3 p u = (case neg_up p u of None \<Rightarrow> Some u | Some v \<Rightarrow> find3 p v)" if "u \<in> indices p" for u
    using that by (subst neg_find.simps find3.simps, auto simp: neg_up_def indices_def)+
  then show "neg_find p u = Some (root_of (neg_up p) u)" "find3 p u = Some (root_of (neg_up p) u)"
    using search_root [OF assms] by blast+
qed

lemma neg_up_link:
  assumes "r1 \<in> indices p" "r2 \<in> indices p"
  shows "neg_up (p[nat r1 := r2]) = (neg_up p)(r1 \<mapsto> r2)"
  using assms by (auto simp: neg_up_def indices_def fun_eq_iff nth_update_int split: if_splits)

text \<open>
  The state the two classes share: a forest, a size for every root and shallow trees. The link
  of the smaller root below the larger one keeps it, whatever is written at the lower root.
\<close>

definition neg_inv :: "int list \<Rightarrow> int list \<Rightarrow> bool" where
  "neg_inv p sz \<longleftrightarrow> length sz = length p \<and> forest (neg_up p) (indices p) \<and>
     sized (neg_up p) (indices p) (\<lambda>r. sz ! nat r) \<and> shallow (neg_up p) (indices p)"

lemma neg_inv_init: "neg_inv (replicate n (-1)) (replicate n 1)"
  unfolding neg_inv_def
  by (auto simp: neg_up_def indices_def intro!: forest_no_parents sized_roots shallow_roots)

lemma neg_inv_link:
  assumes inv: "neg_inv p sz" and r: "r1 \<in> indices p" "r2 \<in> indices p" "neg_up p r1 = None"
    "neg_up p r2 = None" "r1 \<noteq> r2" and le: "sz ! nat r1 \<le> sz ! nat r2"
    and sz': "length sz' = length sz" "sz' ! nat r2 = sz ! nat r2 + sz ! nat r1"
      "\<And>r. r \<in> indices p \<Longrightarrow> r \<noteq> r1 \<Longrightarrow> r \<noteq> r2 \<Longrightarrow> sz' ! nat r = sz ! nat r"
  shows "neg_inv (p[nat r1 := r2]) sz'"
proof -
  have F: "forest (neg_up p) (indices p)" and S: "sized (neg_up p) (indices p) (\<lambda>r. sz ! nat r)"
    and sh: "shallow (neg_up p) (indices p)" and len: "length sz = length p"
    using inv by (auto simp: neg_inv_def)
  have ind: "indices (p[nat r1 := r2]) = indices p" by (simp add: indices_def)
  have "card (component (neg_up p) (indices p) r1) \<le> card (component (neg_up p) (indices p) r2)"
    using S r le by (simp add: sized_def)
  then have "shallow ((neg_up p)(r1 \<mapsto> r2)) (indices p)"
    by (intro shallow_link [OF r(3-5) F]) (simp_all add: sh)
  moreover have "sized ((neg_up p)(r1 \<mapsto> r2)) (indices p) (\<lambda>r. sz' ! nat r)"
    by (rule sized_link [OF r(3-5) F r(1,2) _ _ S]) (simp_all add: sz')
  moreover have "forest ((neg_up p)(r1 \<mapsto> r2)) (indices p)" by (rule link_forest [OF r(3-5) F r(2)])
  ultimately show ?thesis
    unfolding neg_inv_def ind neg_up_link [OF r(1,2)] using sz'(1) len by simp
qed

text \<open>The roots that a union links, in the order the sizes give.\<close>

definition by_size :: "int list \<Rightarrow> int \<Rightarrow> int \<Rightarrow> int \<times> int" where
  "by_size sz pu pv = (if sz ! nat pu > sz ! nat pv then (pv, pu) else (pu, pv))"

lemma by_size:
  assumes "by_size sz pu pv = (r1, r2)"
  shows "sz ! nat r1 \<le> sz ! nat r2" "{r1, r2} = {pu, pv}"
  using assms by (auto simp: by_size_def split: if_splits)

lemma connect_correct:
  assumes inv: "neg_inv (parents3 s) (size3 s)" and u: "u \<in> indices (parents3 s)" "v \<in> indices (parents3 s)"
    and r: "by_size (size3 s) (root_of (neg_up (parents3 s)) u) (root_of (neg_up (parents3 s)) v) = (r1, r2)"
  shows "connect s u v =
    (if root_of (neg_up (parents3 s)) u = root_of (neg_up (parents3 s)) v then Some (s, False)
     else Some (\<lparr>parents3 = (parents3 s)[nat r1 := r2],
       size3 = (size3 s)[nat r2 := size3 s ! nat r2 + size3 s ! nat r1, nat r1 := 0]\<rparr>, True))"
proof -
  have F: "forest (neg_up (parents3 s)) (indices (parents3 s))" and len: "length (size3 s) = length (parents3 s)"
    using inv by (auto simp: neg_inv_def)
  note fu = forest_root(1) [OF F u(1)] and fv = forest_root(1) [OF F u(2)]
  note find = neg_find_root(2) [OF F u(1)] neg_find_root(2) [OF F u(2)]
  show ?thesis
    using find fu fv len r
    by (auto simp: connect_def by_size_def indices_def Let_def split: if_splits)
qed

definition uf3_inv :: "UnionFind3 \<Rightarrow> bool" where
  "uf3_inv s \<longleftrightarrow> neg_inv (parents3 s) (size3 s) \<and>
     (\<forall>r \<in> indices (parents3 s). neg_up (parents3 s) r \<noteq> None \<longrightarrow> size3 s ! nat r = 0)"

interpretation uf3: disjoint_sets uf3_inv "\<lambda>s. indices (parents3 s)" "\<lambda>s. find3 (parents3 s)" connect
proof
  fix s u v assume inv: "uf3_inv s" and u: "u \<in> indices (parents3 s)"
  let ?p = "parents3 s" and ?sz = "size3 s"
  let ?f = "root_of (neg_up ?p)"
  have ninv: "neg_inv ?p ?sz" using inv by (simp add: uf3_inv_def)
  then have F: "forest (neg_up ?p) (indices ?p)" and len: "length ?sz = length ?p"
    by (auto simp: neg_inv_def)
  note find = neg_find_root(2) [OF F] and root = forest_root [OF F]
  show "\<exists>r \<in> indices ?p. find3 ?p u = Some r \<and> find3 ?p r = Some r"
    using find root u by auto
  assume v: "v \<in> indices ?p"
  obtain r1 r2 where r: "by_size ?sz (?f u) (?f v) = (r1, r2)" by fastforce
  note step = connect_correct [OF ninv u v r]
  show "\<exists>s'. connect s u v = Some (s', False) \<and> uf3_inv s' \<and> indices (parents3 s') = indices ?p \<and>
      (\<forall>x \<in> indices ?p. find3 (parents3 s') x = find3 ?p x)" if "find3 ?p u = find3 ?p v"
    using that step inv u v by (simp add: find)
  show "\<exists>s' r1 r2. connect s u v = Some (s', True) \<and> uf3_inv s' \<and> indices (parents3 s') = indices ?p \<and>
      {r1, r2} = {find3 ?p u, find3 ?p v} \<and>
      (\<forall>x \<in> indices ?p. find3 (parents3 s') x = (if find3 ?p x = r1 then r2 else find3 ?p x))"
    if ne: "find3 ?p u \<noteq> find3 ?p v"
  proof -
    have diff: "?f u \<noteq> ?f v" using ne u v by (simp add: find)
    have rr: "r1 \<in> indices ?p" "r2 \<in> indices ?p" "neg_up ?p r1 = None" "neg_up ?p r2 = None" "r1 \<noteq> r2"
      using by_size(2) [OF r] root u v diff by (auto simp: doubleton_eq_iff)
    let ?q = "?p[nat r1 := r2]" and ?sz' = "?sz[nat r2 := ?sz ! nat r2 + ?sz ! nat r1, nat r1 := 0]"
    let ?s = "\<lparr>parents3 = ?q, size3 = ?sz'\<rparr>"
    have ind: "indices ?q = indices ?p" by (simp add: indices_def)
    have szr: "?sz' ! nat x = (if x = r1 then 0 else if x = r2 then ?sz ! nat r2 + ?sz ! nat r1 else ?sz ! nat x)"
      if "x \<in> indices ?p" for x
      using that rr len by (auto simp: indices_def nth_update_int)
    have "neg_inv ?q ?sz'"
      by (rule neg_inv_link [OF ninv rr by_size(1) [OF r]]) (use szr rr in auto)
    then have inv': "uf3_inv ?s"
      using inv szr rr(3,4) unfolding uf3_inv_def UnionFind3.select_convs ind neg_up_link [OF rr(1,2)] by auto
    have F': "forest (neg_up ?q) (indices ?p)" using \<open>neg_inv ?q ?sz'\<close> ind by (simp add: neg_inv_def)
    have "find3 ?q x = (if find3 ?p x = Some r1 then Some r2 else find3 ?p x)" if "x \<in> indices ?p" for x
      using neg_find_root(2) [of ?q x] F' link_root(1) [OF rr(3-5) F] that
      by (simp add: ind find neg_up_link [OF rr(1,2)])
    then show ?thesis using step diff inv' ind by_size(2) [OF r] u v
      by (intro exI [of _ ?s] exI [of _ "Some r1"] exI [of _ "Some r2"]) (auto simp: find doubleton_eq_iff)
  qed
qed

text \<open>Components of the forest and classes of the edges are the same sets.\<close>

lemma classes_components:
  assumes F: "forest up A"
    and eq: "\<forall>x \<in> A. \<forall>y \<in> A. root_of up x = root_of up y \<longleftrightarrow> (x, y) \<in> linked es"
  shows "x \<in> A \<Longrightarrow> component up A (root_of up x) = {y \<in> A. (x, y) \<in> linked es}"
    and "classes es A = component up A ` {r \<in> A. up r = None}"
    and "inj_on (component up A) {r \<in> A. up r = None}"
proof -
  show c: "component up A (root_of up x) = {y \<in> A. (x, y) \<in> linked es}" if "x \<in> A" for x
    using eq that unfolding component_def by (metis (lifting))
  have "classes es A = (\<lambda>x. component up A (root_of up x)) ` A"
    unfolding classes_def using c by (intro image_cong) auto
  also have "\<dots> = component up A ` root_of up ` A" by (simp add: image_image)
  also have "root_of up ` A = {r \<in> A. up r = None}"
  proof (intro set_eqI iffI)
    fix r assume "r \<in> root_of up ` A"
    then show "r \<in> {r \<in> A. up r = None}" using forest_root [OF F] by auto
  next
    fix r assume "r \<in> {r \<in> A. up r = None}"
    then show "r \<in> root_of up ` A" using root_of_root [of up r] by (intro image_eqI [of _ _ r]) auto
  qed
  finally show "classes es A = component up A ` {r \<in> A. up r = None}" .
  show "inj_on (component up A) {r \<in> A. up r = None}"
  proof (rule inj_onI)
    fix r s assume r: "r \<in> {r \<in> A. up r = None}" and s: "s \<in> {r \<in> A. up r = None}"
      and "component up A r = component up A s"
    then have "r \<in> component up A s" using root_in_component [of up r A] by auto
    then show "r = s" using r root_of_root [of up r] by (auto simp: component_def)
  qed
qed

lemma mset_filter_index:
  "mset (filter P xs) = image_mset ((!) xs) (mset_set {i \<in> {0..<length xs}. P (xs ! i)})"
proof -
  have "mset (filter P xs) = filter_mset P (mset (map ((!) xs) [0..<length xs]))"
    by (simp add: map_nth)
  also have "\<dots> = filter_mset P (image_mset ((!) xs) (mset_set {0..<length xs}))" by simp
  also have "\<dots> = image_mset ((!) xs) (filter_mset (\<lambda>i. P (xs ! i)) (mset_set {0..<length xs}))"
    by (rule filter_mset_image_mset)
  finally show ?thesis by (simp only: filter_mset_mset_set finite_atLeastLessThan)
qed

lemma uf3_sizes:
  assumes inv: "uf3_inv s" and A: "indices (parents3 s) = A"
    and eq: "\<forall>x \<in> A. \<forall>y \<in> A. find3 (parents3 s) x = find3 (parents3 s) y \<longleftrightarrow> (x, y) \<in> linked es"
  shows "mset (get_components3 s) = image_mset (\<lambda>c. int (card c)) (mset_set (classes es A))"
proof -
  let ?up = "neg_up (parents3 s)" let ?R = "{r \<in> A. ?up r = None}"
  have F: "forest ?up A" and S: "sized ?up A (\<lambda>r. size3 s ! nat r)"
    and len: "length (size3 s) = length (parents3 s)"
    using inv A by (auto simp: uf3_inv_def neg_inv_def)
  have finA: "finite A" using A by (metis finite_indices)
  have "\<forall>x \<in> A. \<forall>y \<in> A. root_of ?up x = root_of ?up y \<longleftrightarrow> (x, y) \<in> linked es"
    using eq neg_find_root(2) [of "parents3 s"] F A by simp
  note cc = classes_components [OF F this]
  have sz: "size3 s ! nat r = int (card (component ?up A r))" if "r \<in> ?R" for r
    using S that by (simp add: sized_def)
  have nz: "size3 s ! nat r \<noteq> 0 \<longleftrightarrow> ?up r = None" if "r \<in> A" for r
  proof (cases "?up r = None")
    case True
    then have "component ?up A r \<noteq> {}" using root_in_component [of ?up r A] that by auto
    then show ?thesis using True sz that finA by (simp add: card_eq_0_iff)
  next
    case False
    then show ?thesis using inv A that by (auto simp: uf3_inv_def)
  qed
  have "bij_betw nat ?R {i \<in> {0..<length (size3 s)}. size3 s ! i \<noteq> 0}"
  proof (rule bij_betw_byWitness [where f' = int])
    show "\<forall>a \<in> ?R. int (nat a) = a" using A by (auto simp: indices_def)
    show "nat ` ?R \<subseteq> {i \<in> {0..<length (size3 s)}. size3 s ! i \<noteq> 0}"
      using nz A len by (auto simp: indices_def)
    show "int ` {i \<in> {0..<length (size3 s)}. size3 s ! i \<noteq> 0} \<subseteq> ?R"
    proof (intro image_subsetI)
      fix i assume i: "i \<in> {i \<in> {0..<length (size3 s)}. size3 s ! i \<noteq> 0}"
      then have "int i \<in> A" using A len by (auto simp: indices_def)
      with nz [of "int i"] i show "int i \<in> ?R" by auto
    qed
  qed simp
  then have bij: "inj_on nat ?R" "nat ` ?R = {i \<in> {0..<length (size3 s)}. size3 s ! i \<noteq> 0}"
    by (simp_all only: bij_betw_def)
  have nonzero: "mset_set {i \<in> {0..<length (size3 s)}. size3 s ! i \<noteq> 0} = image_mset nat (mset_set ?R)"
    unfolding image_mset_mset_set [OF bij(1)] bij(2) ..
  have "mset (get_components3 s) = image_mset (\<lambda>r. size3 s ! nat r) (mset_set ?R)"
    unfolding get_components3_def mset_filter_index nonzero image_mset.compositionality comp_def ..
  also have "\<dots> = image_mset (\<lambda>r. int (card (component ?up A r))) (mset_set ?R)"
    using sz finA by (intro image_mset_cong) simp
  also have "\<dots> = image_mset (\<lambda>c. int (card c)) (mset_set (component ?up A ` ?R))"
    unfolding image_mset_mset_set [OF cc(3), symmetric] image_mset.compositionality comp_def ..
  finally show ?thesis unfolding cc(2) .
qed

lemma uf3_run:
  assumes "0 \<le> n" "\<forall>(u, v) \<in> set es. u \<in> {0..<n} \<and> v \<in> {0..<n}"
  shows "\<exists>s k. run_joins connect (UnionFind3_init n) es = Some (s, k) \<and>
    mset (get_components3 s) = image_mset (\<lambda>c. int (card c)) (mset_set (classes es {0..<n})) \<and>
    (\<forall>x \<in> {0..<n}. \<forall>y \<in> {0..<n}. find3 (parents3 s) x = find3 (parents3 s) y \<longleftrightarrow>
      (x, y) \<in> linked es) \<and>
    (\<forall>x \<in> {0..<n}. 2 ^ depth_of (neg_up (parents3 s)) x \<le> nat n)"
proof -
  let ?s0 = "UnionFind3_init n"
  have ind: "indices (parents3 ?s0) = {0..<n}" using assms(1) by (simp add: indices_def UnionFind3_init_def)
  have up: "neg_up (parents3 ?s0) u = None" for u by (simp add: neg_up_def UnionFind3_init_def)
  then have inv: "uf3_inv ?s0" using neg_inv_init by (simp add: uf3_inv_def UnionFind3_init_def)
  have "\<forall>u \<in> indices (parents3 ?s0). find3 (parents3 ?s0) u = Some u"
    using neg_find_root(2) [of "parents3 ?s0"] forest_no_parents [of _ "neg_up (parents3 ?s0)"] up
      root_of_root [of "neg_up (parents3 ?s0)"] by simp
  then obtain s k where s: "run_joins connect ?s0 es = Some (s, k)" "uf3_inv s"
    "indices (parents3 s) = {0..<n}"
    "\<forall>x \<in> {0..<n}. \<forall>y \<in> {0..<n}. find3 (parents3 s) x = find3 (parents3 s) y \<longleftrightarrow> (x, y) \<in> linked es"
    using uf3.run_joins_linked [OF inv, of es] assms(2) unfolding ind by auto
  have "2 ^ depth_of (neg_up (parents3 s)) x \<le> nat n" if "x \<in> {0..<n}" for x
    using shallow_depth [of "neg_up (parents3 s)" "{0..<n}" x] that s(2,3)
    by (simp add: uf3_inv_def neg_inv_def)
  then show ?thesis using s uf3_sizes [OF s(2-4)] by blast
qed

text \<open>C38: After any list of edges on the nodes 0 to n-1, \<open>UnionFind3::get_components\<close> holds the
  sizes of the connected components, each once, and union by size keeps every tree shallow: a
  find from a node makes at most \<open>log2 n\<close> steps.\<close>

theorem UnionFind3_component_sizes:
  assumes "0 \<le> n" "\<forall>(u, v) \<in> set es. u \<in> {0..<n} \<and> v \<in> {0..<n}"
  shows "\<exists>s k. run_joins connect (UnionFind3_init n) es = Some (s, k) \<and>
    mset (get_components3 s) = image_mset (\<lambda>c. int (card c)) (mset_set (classes es {0..<n})) \<and>
    (\<forall>x \<in> {0..<n}. \<forall>y \<in> {0..<n}. find3 (parents3 s) x = find3 (parents3 s) y \<longleftrightarrow>
      (x, y) \<in> linked es) \<and>
    (\<forall>x \<in> {0..<n}. 2 ^ depth_of (neg_up (parents3 s)) x \<le> nat n)"
  by (rule uf3_run) (use assms in auto)

lemma UnionFind3_component_sizes_witness:
  "\<exists>s k. run_joins connect (UnionFind3_init 5) [(0, 1), (2, 3), (3, 0)] = Some (s, k) \<and>
    mset (get_components3 s) =
      image_mset (\<lambda>c. int (card c)) (mset_set (classes [(0, 1), (2, 3), (3, 0)] {0..<5})) \<and>
    (\<forall>x \<in> {0..<5}. \<forall>y \<in> {0..<5}. find3 (parents3 s) x = find3 (parents3 s) y \<longleftrightarrow>
      (x, y) \<in> linked [(0, 1), (2, 3), (3, 0)]) \<and>
    (\<forall>x \<in> {0..<5}. 2 ^ depth_of (neg_up (parents3 s)) x \<le> nat 5)"
  by (rule UnionFind3_component_sizes) simp_all

end
