(* ===== verification/MyAlgo.thy ===== *)
theory MyAlgo
  imports Prelude "HOL-Library.Multiset" "HOL-Library.Sublist"
begin

section \<open>Generic algorithms (library/myalgo.h)\<close>

text \<open>
  The templates of namespace \<open>WXU\<close>. An iterator range is the list of its elements, an iterator
  a position in it, and an algorithm that writes through its iterators returns the new range;
  a step outside the range is \<open>None\<close>. \<open>shuffle\<close> draws from a random engine and is not
  modelled.
\<close>

subsection \<open>The model\<close>

text \<open>\<open>bucket_sort\<close>: count every value, then fill the range bucket by bucket.\<close>

fun count_values :: "int list \<Rightarrow> int list \<Rightarrow> int list option" where
  "count_values b [] = Some b"
| "count_values b (v # vs) = do {
     c \<leftarrow> ivec_at b v;
     b \<leftarrow> ivec_upd b v (c + 1);
     count_values b vs
   }"

definition fill_n :: "nat \<Rightarrow> nat \<Rightarrow> 'a \<Rightarrow> 'a list \<Rightarrow> 'a list option" where
  "fill_n first n v xs =
     (if first + n \<le> length xs then Some (take first xs @ replicate n v @ drop (first + n) xs) else None)"

fun fill_buckets :: "int \<Rightarrow> int list \<Rightarrow> nat \<Rightarrow> int list \<Rightarrow> int list option" where
  "fill_buckets i [] first xs = Some xs"
| "fill_buckets i (c # cs) first xs =
     (if c \<noteq> 0 then do {
        xs \<leftarrow> fill_n first (nat c) i xs;
        fill_buckets (i + 1) cs (first + nat c) xs
      }
      else fill_buckets (i + 1) cs first xs)"

definition bucket_sort :: "int list \<Rightarrow> int \<Rightarrow> int list option" where
  "bucket_sort xs buckets = do {
     b \<leftarrow> count_values (replicate (nat buckets) 0) xs;
     fill_buckets 0 b 0 xs
   }"

text \<open>\<open>max_element_last\<close> returns a position; the length of the range is its \<open>last\<close>.\<close>

fun max_last_loop :: "'a::linorder list \<Rightarrow> nat \<Rightarrow> nat \<Rightarrow> nat list \<Rightarrow> nat" where
  "max_last_loop xs largest first [] = largest"
| "max_last_loop xs largest first (_ # rest) =
     max_last_loop xs (if xs ! largest \<le> xs ! first then first else largest) (first + 1) rest"

definition max_element_last :: "'a::linorder list \<Rightarrow> nat" where
  "max_element_last xs = (if xs = [] then length xs else max_last_loop xs 0 1 [1..<length xs])"

fun transform_if :: "'a list \<Rightarrow> 'b list \<Rightarrow> ('a \<Rightarrow> 'b) \<Rightarrow> ('a \<Rightarrow> bool) \<Rightarrow> 'b list" where
  "transform_if [] d unary_op pred = d"
| "transform_if (x # xs) d unary_op pred =
     transform_if xs (if pred x then d @ [unary_op x] else d) unary_op pred"

definition map_get_or_default :: "('k \<rightharpoonup> 'v) \<Rightarrow> 'k \<Rightarrow> 'v \<Rightarrow> 'v" where
  "map_get_or_default m k deft = (case m k of None \<Rightarrow> deft | Some v \<Rightarrow> v)"

fun subsequence :: "'a list \<Rightarrow> 'a list \<Rightarrow> bool" where
  "subsequence (x # xs) (y # ys) = (if x = y then subsequence xs ys else subsequence xs (y # ys))"
| "subsequence xs ys = (ys = [])"

text \<open>\<open>continuousLongestBy\<close> keeps the longest run so far, the start and the end of the run.\<close>

fun continuous_loop :: "('a \<Rightarrow> bool) \<Rightarrow> int \<Rightarrow> int \<Rightarrow> int \<Rightarrow> 'a list \<Rightarrow> int" where
  "continuous_loop isGood mx start nxt [] = (if nxt - start > mx then nxt - start else mx)"
| "continuous_loop isGood mx start nxt (x # xs) =
     (if isGood x
      then continuous_loop isGood (if nxt - start > mx then nxt - start else mx) 0 0 xs
      else continuous_loop isGood mx start (nxt + 1) xs)"

definition continuousLongestBy :: "'a list \<Rightarrow> ('a \<Rightarrow> bool) \<Rightarrow> int" where
  "continuousLongestBy xs isGood = continuous_loop isGood (-1) 0 0 xs"

fun maxSubSum :: "int list \<Rightarrow> int \<Rightarrow> int \<Rightarrow> int \<times> int" where
  "maxSubSum [] max_seed init_sum = (max_seed, init_sum)"
| "maxSubSum (x # xs) max_seed init_sum =
     (let init_sum = init_sum + x;
          max_seed = max max_seed init_sum
      in maxSubSum xs max_seed (if init_sum < 0 then 0 else init_sum))"

definition iter_swap :: "nat \<Rightarrow> nat \<Rightarrow> 'a list \<Rightarrow> 'a list option" where
  "iter_swap i j xs = do {
     x \<leftarrow> vec_at xs i;
     y \<leftarrow> vec_at xs j;
     Some (xs[i := y, j := x])
   }"

text \<open>A range whose \<open>first\<close> is behind its \<open>last\<close> is not a range.\<close>

partial_function (option) reverse_string :: "nat \<Rightarrow> nat \<Rightarrow> 'a list \<Rightarrow> 'a list option" where
  "reverse_string first lst xs =
     (if first > lst then None
      else if first \<noteq> lst \<and> first \<noteq> lst - 1 then do {
        xs \<leftarrow> iter_swap first (lst - 1) xs;
        reverse_string (first + 1) (lst - 1) xs
      }
      else Some xs)"

partial_function (option) reverse_if_loop ::
  "('a \<Rightarrow> bool) \<Rightarrow> nat \<Rightarrow> nat \<Rightarrow> 'a list \<Rightarrow> 'a list option" where
  "reverse_if_loop cond first lst xs =
     (if first > lst then None
      else if first \<noteq> lst then do {
        x \<leftarrow> vec_at xs first;
        if \<not> cond x then reverse_if_loop cond (first + 1) lst xs
        else do {
          y \<leftarrow> vec_at xs lst;
          if \<not> cond y then reverse_if_loop cond first (lst - 1) xs
          else do {
            xs \<leftarrow> iter_swap first lst xs;
            if first + 1 = lst then Some xs
            else reverse_if_loop cond (first + 1) (lst - 1) xs
          }
        }
      }
      else Some xs)"

definition reverse_string_if :: "nat \<Rightarrow> nat \<Rightarrow> 'a list \<Rightarrow> ('a \<Rightarrow> bool) \<Rightarrow> 'a list option" where
  "reverse_string_if first lst xs cond =
     (if first = lst then Some xs else if lst = 0 then None else reverse_if_loop cond first (lst - 1) xs)"

fun consecutive_loop :: "'a \<Rightarrow> int list \<Rightarrow> int \<Rightarrow> 'a list \<Rightarrow> int list" where
  "consecutive_loop target counts cnt [] = (if cnt > 0 then counts @ [cnt] else counts)"
| "consecutive_loop target counts cnt (x # xs) =
     (if x = target then consecutive_loop target counts (cnt + 1) xs
      else if cnt > 0 then consecutive_loop target (counts @ [cnt]) 0 xs
      else consecutive_loop target counts cnt xs)"

definition count_consecutive :: "'a list \<Rightarrow> 'a \<Rightarrow> int list" where
  "count_consecutive xs target = consecutive_loop target [] 0 xs"

subsection \<open>Bucket sort\<close>

text \<open>The range that the buckets describe.\<close>

fun emit :: "int \<Rightarrow> int list \<Rightarrow> int list" where
  "emit i [] = []"
| "emit i (c # cs) = replicate (nat c) i @ emit (i + 1) cs"

lemma fill_buckets_emit:
  "\<forall>c \<in> set cs. 0 \<le> c \<Longrightarrow> length xs = first + length (emit i cs) \<Longrightarrow>
    fill_buckets i cs first xs = Some (take first xs @ emit i cs)"
  by (induction i cs first xs rule: fill_buckets.induct) (auto simp: fill_n_def)

lemma emit_range: "y \<in> set (emit i cs) \<Longrightarrow> i \<le> y"
  by (induction i cs rule: emit.induct) fastforce+

lemma emit_sorted: "sorted (emit i cs)"
  by (induction i cs rule: emit.induct) (auto simp: sorted_append dest: emit_range)

lemma count_emit: "\<forall>c \<in> set cs. 0 \<le> c \<Longrightarrow>
  int (count (mset (emit i cs)) v) = (if i \<le> v \<and> v < i + int (length cs) then cs ! nat (v - i) else 0)"
proof (induction i cs rule: emit.induct)
  case (2 i c cs)
  show ?case
  proof (cases "v = i")
    case False
    then have "i + 1 \<le> v \<Longrightarrow> nat (v - i) = Suc (nat (v - (i + 1)))" by auto
    then show ?thesis using 2 False by auto
  qed (use 2 in simp)
qed simp

lemma count_values_correct:
  "\<forall>v \<in> set xs. 0 \<le> v \<and> v < int (length b) \<Longrightarrow>
    \<exists>b'. count_values b xs = Some b' \<and> length b' = length b \<and>
      (\<forall>v. 0 \<le> v \<and> v < int (length b) \<longrightarrow> b' ! nat v = b ! nat v + int (count (mset xs) v))"
proof (induction xs arbitrary: b)
  case (Cons v vs)
  obtain b' where b': "count_values (b[nat v := b ! nat v + 1]) vs = Some b'" "length b' = length b"
    "\<forall>w. 0 \<le> w \<and> w < int (length b) \<longrightarrow>
      b' ! nat w = b[nat v := b ! nat v + 1] ! nat w + int (count (mset vs) w)"
    using Cons.IH [of "b[nat v := b ! nat v + 1]"] Cons.prems by auto
  then show ?case using Cons.prems by (auto simp: nth_update_int)
qed simp

lemma emit_length: "\<forall>c \<in> set cs. 0 \<le> c \<Longrightarrow> mset (emit i cs) = mset xs \<Longrightarrow> length xs = length (emit i cs)"
  by (metis size_mset)

text \<open>On values inside the buckets, bucket sort returns the sorted range with the same elements;
  a value outside the buckets is an access out of the vector of counts.\<close>

theorem bucket_sort_sorts:
  assumes "\<forall>v \<in> set xs. 0 \<le> v \<and> v < buckets"
  shows "bucket_sort xs buckets = Some (sort xs)"
proof -
  let ?z = "replicate (nat buckets) (0::int)"
  have len: "int (length ?z) = buckets \<or> xs = []" using assms by (cases xs) auto
  obtain b where b: "count_values ?z xs = Some b" "length b = nat buckets"
    "\<forall>v. 0 \<le> v \<and> v < int (nat buckets) \<longrightarrow> b ! nat v = ?z ! nat v + int (count (mset xs) v)"
    using count_values_correct [of xs ?z] assms by fastforce
  have nth: "b ! nat v = int (count (mset xs) v)" if "0 \<le> v" "v < int (length b)" for v
    using b(2,3) that by (auto split: if_splits)
  have nn: "\<forall>c \<in> set b. 0 \<le> c"
  proof
    fix c assume "c \<in> set b"
    then obtain i where "i < length b" "c = b ! i" by (auto simp: in_set_conv_nth)
    then show "0 \<le> c" using nth [of "int i"] by simp
  qed
  have "count (mset (emit 0 b)) v = count (mset xs) v" for v
  proof (cases "0 \<le> v \<and> v < int (length b)")
    case True
    then show ?thesis using count_emit [OF nn, of 0 v] nth by simp
  next
    case False
    then have "v \<notin> set xs" using assms b(2) by auto
    then show ?thesis using count_emit [OF nn, of 0 v] False by (simp add: count_eq_zero_iff [THEN iffD2])
  qed
  then have ms: "mset (emit 0 b) = mset xs" by (rule multiset_eqI)
  then have "emit 0 b = sort xs" by (metis emit_sorted properties_for_sort)
  then show ?thesis
    using fill_buckets_emit [OF nn, of xs 0 0] b(1) by (simp add: bucket_sort_def)
qed

lemma bucket_sort_sorts_witness: "bucket_sort [3, 1, 0, 3] 4 = Some (sort [3, 1, 0, 3])"
  by (rule bucket_sort_sorts) simp

lemma bucket_sort_out_of_range: "v \<notin> {0..<buckets} \<Longrightarrow> bucket_sort (v # xs) buckets = None"
  by (auto simp: bucket_sort_def ivec_at_def)

subsection \<open>Linear searches\<close>

definition last_max :: "'a::linorder list \<Rightarrow> nat \<Rightarrow> nat \<Rightarrow> bool" where
  "last_max xs n m \<longleftrightarrow> m < n \<and> (\<forall>i < n. xs ! i \<le> xs ! m) \<and> (\<forall>i < n. m < i \<longrightarrow> xs ! i < xs ! m)"

lemma last_max_step:
  assumes "last_max xs n m"
  shows "last_max xs (Suc n) (if xs ! m \<le> xs ! n then n else m)"
  using assms unfolding last_max_def less_Suc_eq by (auto intro: order_trans)

lemma max_last_loop_correct:
  "last_max xs first largest \<Longrightarrow> first + length rest = n \<Longrightarrow>
    last_max xs n (max_last_loop xs largest first rest)"
proof (induction rest arbitrary: largest first)
  case (Cons r rest)
  show ?case
    using Cons.IH [OF last_max_step [OF Cons.prems(1)]] Cons.prems(2) by simp
qed simp

lemma max_element_last_correct:
  assumes "xs \<noteq> []"
  shows "last_max xs (length xs) (max_element_last xs)"
proof -
  have "last_max xs 1 0" by (simp add: last_max_def)
  then show ?thesis
    using max_last_loop_correct [of xs 1 0 "[1..<length xs]" "length xs"] assms
    by (simp add: max_element_last_def Suc_le_eq del: upt_Suc)
qed

lemma transform_if_map_filter: "transform_if xs d f P = d @ map f (filter P xs)"
  by (induction xs d f P rule: transform_if.induct) auto

lemma map_get_or_default_simps [simp]:
  "map_get_or_default (m(k \<mapsto> v)) k d = v" "k \<notin> dom m \<Longrightarrow> map_get_or_default m k d = d"
  by (auto simp: map_get_or_default_def split: option.split)

lemma subsequence_subseq: "subsequence xs ys \<longleftrightarrow> subseq ys xs"
  by (induction xs ys rule: subsequence.induct) (auto simp: subseq_Cons2_iff)

subsection \<open>Runs\<close>

text \<open>
  \<open>continuousLongestBy\<close> is the length of a longest block without a good element. (The comment
  of the code says the opposite, a block whose elements conform to the condition.)
\<close>

fun blocks :: "('a \<Rightarrow> bool) \<Rightarrow> 'a list \<Rightarrow> 'a list list" where
  "blocks P [] = [[]]"
| "blocks P (x # xs) = (if P x then [] # blocks P xs else (x # hd (blocks P xs)) # tl (blocks P xs))"

lemma blocks_ne [simp]: "blocks P xs \<noteq> []"
  by (cases xs) auto

lemma continuous_loop_blocks:
  "continuous_loop P mx 0 nxt xs =
    max mx (Max (set ((nxt + int (length (hd (blocks P xs)))) #
      map (\<lambda>b. int (length b)) (tl (blocks P xs)))))"
proof (induction xs arbitrary: mx nxt)
  case (Cons x xs)
  obtain b bs where b: "blocks P xs = b # bs" using blocks_ne by (cases "blocks P xs") blast+
  show ?case
    using Cons.IH [of "max mx nxt" 0] Cons.IH [of mx "nxt + 1"]
    by (cases "bs = []") (auto simp: b max_def algebra_simps)
qed (simp add: max_def)

lemma continuousLongestBy_blocks:
  "continuousLongestBy xs P = Max (set (map (\<lambda>b. int (length b)) (blocks P xs)))"
proof -
  obtain b bs where b: "blocks P xs = b # bs" using blocks_ne by (cases "blocks P xs") blast+
  have "(0::int) \<le> Max (insert (int (length b)) ((\<lambda>b. int (length b)) ` set bs))"
    by (rule Max_ge_iff [THEN iffD2]) auto
  then show ?thesis
    unfolding continuousLongestBy_def continuous_loop_blocks by (simp add: b max_def)
qed

lemma concat_blocks: "concat (blocks P xs) = filter (\<lambda>x. \<not> P x) xs"
proof (induction xs)
  case (Cons x xs)
  then show ?case by (cases "blocks P xs") auto
qed simp

text \<open>\<open>count_consecutive\<close> lists the lengths of the runs of the target, the empty ones left out.\<close>

lemma consecutive_loop_blocks:
  "0 \<le> cnt \<Longrightarrow> consecutive_loop a counts cnt xs = counts @
    filter (\<lambda>n. n > 0) ((cnt + int (length (hd (blocks (\<lambda>x. x \<noteq> a) xs)))) #
      map (\<lambda>b. int (length b)) (tl (blocks (\<lambda>x. x \<noteq> a) xs)))"
proof (induction xs arbitrary: cnt counts)
  case (Cons x xs)
  obtain b bs where b: "blocks (\<lambda>x. x \<noteq> a) xs = b # bs"
    using blocks_ne by (cases "blocks (\<lambda>x. x \<noteq> a) xs") blast+
  show ?case
    using Cons.IH [of "cnt + 1" counts] Cons.IH [of 0 "counts @ [cnt]"] Cons.IH [of 0 counts] Cons.prems
    by (auto simp: b algebra_simps)
qed simp

lemma count_consecutive_blocks:
  "count_consecutive xs a =
    filter (\<lambda>n. n > 0) (map (\<lambda>b. int (length b)) (blocks (\<lambda>x. x \<noteq> a) xs))"
proof -
  obtain b bs where b: "blocks (\<lambda>x. x \<noteq> a) xs = b # bs"
    using blocks_ne by (cases "blocks (\<lambda>x. x \<noteq> a) xs") blast+
  then show ?thesis by (simp add: count_consecutive_def consecutive_loop_blocks)
qed

subsection \<open>Kadane's algorithm\<close>

lemma maxSubSum_upper:
  "0 \<le> s \<Longrightarrow> maxSubSum xs m s = (r, t) \<Longrightarrow>
    m \<le> r \<and> (\<forall>ys. prefix ys xs \<and> ys \<noteq> [] \<longrightarrow> s + sum_list ys \<le> r) \<and>
    (\<forall>ys. sublist ys xs \<and> ys \<noteq> [] \<longrightarrow> sum_list ys \<le> r)"
proof (induction xs arbitrary: m s)
  case (Cons x xs)
  let ?s = "s + x" let ?s' = "if ?s < 0 then 0 else ?s"
  have IH: "max m ?s \<le> r" "\<And>ys. prefix ys xs \<Longrightarrow> ys \<noteq> [] \<Longrightarrow> ?s' + sum_list ys \<le> r"
    "\<And>ys. sublist ys xs \<Longrightarrow> ys \<noteq> [] \<Longrightarrow> sum_list ys \<le> r"
    using Cons.IH [of ?s' "max m ?s"] Cons.prems(2) by (auto simp: Let_def split: if_splits)
  have pre: "s + sum_list ys \<le> r" if ys: "prefix ys (x # xs)" "ys \<noteq> []" for ys
  proof -
    obtain zs where zs: "ys = x # zs" "prefix zs xs" using ys by (auto simp: prefix_Cons)
    show ?thesis using IH(1) IH(2) [OF zs(2)] zs(1) by (cases "zs = []") (auto split: if_splits)
  qed
  moreover have "sum_list ys \<le> r" if "sublist ys (x # xs)" "ys \<noteq> []" for ys
    using that pre [of ys] IH(3) Cons.prems(1) by (auto simp: sublist_Cons_right)
  ultimately show ?case using IH(1) by auto
qed simp

lemma maxSubSum_attained:
  "maxSubSum xs m s = (r, t) \<Longrightarrow> r = m \<or>
    (\<exists>ys. prefix ys xs \<and> ys \<noteq> [] \<and> r = s + sum_list ys) \<or> (\<exists>ys. sublist ys xs \<and> ys \<noteq> [] \<and> r = sum_list ys)"
proof (induction xs arbitrary: m s)
  case (Cons x xs)
  let ?s = "s + x" let ?s' = "if ?s < 0 then 0 else ?s"
  have "maxSubSum xs (max m ?s) ?s' = (r, t)" using Cons.prems by (simp add: Let_def)
  from Cons.IH [OF this] show ?case
  proof (elim disjE exE conjE)
    assume "r = max m ?s"
    moreover have "prefix [x] (x # xs)" by (simp add: prefix_Cons)
    ultimately show ?thesis by (cases "m \<le> ?s") (auto simp: max_def intro: exI [of _ "[x]"])
  next
    fix ys assume ys: "prefix ys xs" "ys \<noteq> []" "r = ?s' + sum_list ys"
    then have "prefix (x # ys) (x # xs)" "sublist ys (x # xs)" by (auto simp: sublist_Cons_right)
    then show ?thesis using ys by (cases "?s < 0") (auto intro: exI [of _ "x # ys"])
  next
    fix ys assume "sublist ys xs" "ys \<noteq> []" "r = sum_list ys"
    then show ?thesis by (auto simp: sublist_Cons_right)
  qed
qed simp

text \<open>Started with the sum 0, \<open>maxSubSum\<close> returns the largest sum of a non-empty contiguous
  segment, or the seed when that is larger.\<close>

theorem maxSubSum_maximum:
  "fst (maxSubSum xs m 0) = Max (insert m {sum_list ys | ys. sublist ys xs \<and> ys \<noteq> []})"
proof -
  obtain r t where r: "maxSubSum xs m 0 = (r, t)" by fastforce
  have fin: "finite {sum_list ys | ys. sublist ys xs \<and> ys \<noteq> []}"
    by (rule finite_surj [OF finite_set [of "sublists xs"], of _ sum_list]) (auto simp: set_sublists_eq)
  have "r \<in> insert m {sum_list ys | ys. sublist ys xs \<and> ys \<noteq> []}"
    using maxSubSum_attained [OF r] by (auto intro: prefix_imp_sublist)
  then show ?thesis
    using maxSubSum_upper [OF order_refl r] fin
    by (intro Max_eqI [symmetric]) (auto simp: r)
qed

subsection \<open>Reversing in place\<close>

lemma both_ends_cases: "length (xs :: 'a list) \<ge> 2 \<Longrightarrow> \<exists>x m y. xs = x # m @ [y]"
  by (metis One_nat_def append_butlast_last_id append_eq_Cons_conv length_Cons list.size(3)
      not_numeral_le_zero numeral_2_eq_2 Suc_le_mono le_zero_eq list.exhaust zero_neq_one)

lemma iter_swap_ends:
  "iter_swap (length pre) (length pre + Suc (length m)) (pre @ x # m @ y # post) =
    Some (pre @ y # m @ x # post)"
  by (simp add: iter_swap_def nth_append list_update_append)

lemma reverse_string_mid:
  "reverse_string (length pre) (length pre + length mid) (pre @ mid @ post) = Some (pre @ rev mid @ post)"
proof (induction "length mid" arbitrary: pre mid post rule: less_induct)
  case less
  show ?case
  proof (cases "length mid \<ge> 2")
    case True
    then obtain x m y where mid: "mid = x # m @ [y]" using both_ends_cases by blast
    have "reverse_string (length (pre @ [y])) (length (pre @ [y]) + length m) ((pre @ [y]) @ m @ x # post) =
        Some ((pre @ [y]) @ rev m @ x # post)"
      by (rule less) (simp add: mid)
    then show ?thesis
      using iter_swap_ends [of pre m x y post]
      by (subst reverse_string.simps) (simp add: mid)
  next
    case False
    then have "length mid = 0 \<or> length mid = 1" by arith
    then show ?thesis
      by (subst reverse_string.simps) (auto simp: length_Suc_conv)
  qed
qed

text \<open>What \<open>reverse_string_if\<close> is to compute: the selected elements in reverse order in the
  places of the selected elements, all others where they were.\<close>

fun refill :: "('a \<Rightarrow> bool) \<Rightarrow> 'a list \<Rightarrow> 'a list \<Rightarrow> 'a list" where
  "refill P [] zs = []"
| "refill P (x # xs) zs = (if P x then hd zs # refill P xs (tl zs) else x # refill P xs zs)"

lemma refill_append:
  "length zs = length (filter P xs) \<Longrightarrow> refill P (xs @ ys) (zs @ ws) = refill P xs zs @ refill P ys ws"
proof (induction P xs zs rule: refill.induct)
  case (2 P x xs zs)
  then show ?case by (cases zs) (auto split: if_splits)
qed simp

lemma reverse_if_loop_mid:
  "mid \<noteq> [] \<Longrightarrow> reverse_if_loop P (length pre) (length pre + length mid - 1) (pre @ mid @ post) =
    Some (pre @ refill P mid (rev (filter P mid)) @ post)"
proof (induction "length mid" arbitrary: pre mid post rule: less_induct)
  case less
  show ?case
  proof (cases "length mid \<ge> 2")
    case False
    then obtain x where "mid = [x]" using less.prems by (cases mid) (auto simp: not_le)
    then show ?thesis by (subst reverse_if_loop.simps) simp
  next
    case True
    then obtain x m y where mid: "mid = x # m @ [y]" using both_ends_cases by blast
    consider "\<not> P x" | "P x" "\<not> P y" | "P x" "P y" by blast
    then show ?thesis
    proof cases
      case 1
      have "reverse_if_loop P (length (pre @ [x])) (length (pre @ [x]) + length (m @ [y]) - 1)
          ((pre @ [x]) @ (m @ [y]) @ post) =
        Some ((pre @ [x]) @ refill P (m @ [y]) (rev (filter P (m @ [y]))) @ post)"
        by (rule less.hyps) (simp_all add: mid)
      then show ?thesis using 1 by (subst reverse_if_loop.simps) (simp add: mid)
    next
      case 2
      have "reverse_if_loop P (length pre) (length pre + length (x # m) - 1) (pre @ (x # m) @ y # post) =
        Some (pre @ refill P (x # m) (rev (filter P (x # m))) @ y # post)"
        by (rule less.hyps) (simp_all add: mid)
      moreover have "refill P mid (rev (filter P mid)) = refill P (x # m) (rev (filter P (x # m))) @ [y]"
        using refill_append [of "rev (filter P (x # m))" P "x # m" "[y]" "[]"] 2 by (simp add: mid)
      ultimately show ?thesis using 2
        by (subst reverse_if_loop.simps) (simp add: mid nth_append)
    next
      case 3
      have fill: "refill P mid (rev (filter P mid)) = y # refill P m (rev (filter P m)) @ [x]"
        using refill_append [of "rev (filter P m)" P m "[y]" "[x]"] 3 by (simp add: mid)
      show ?thesis
      proof (cases "m = []")
        case True
        then show ?thesis using 3 fill iter_swap_ends [of pre "[]" x y post]
          by (subst reverse_if_loop.simps) (simp add: mid nth_append)
      next
        case False
        have "reverse_if_loop P (length (pre @ [y])) (length (pre @ [y]) + length m - 1)
            ((pre @ [y]) @ m @ x # post) =
          Some ((pre @ [y]) @ refill P m (rev (filter P m)) @ x # post)"
          by (rule less.hyps) (simp_all add: mid False)
        then show ?thesis using 3 False fill iter_swap_ends [of pre m x y post]
          by (subst reverse_if_loop.simps) (simp add: mid nth_append)
      qed
    qed
  qed
qed

text \<open>On a range inside a sequence, \<open>reverse_string\<close> reverses the range and
  \<open>reverse_string_if\<close> reverses the selected elements of the range among their own places; both
  end and neither touches anything else.\<close>

theorem reverse_string_if_correct:
  "reverse_string (length pre) (length pre + length mid) (pre @ mid @ post) = Some (pre @ rev mid @ post) \<and>
   reverse_string_if (length pre) (length pre + length mid) (pre @ mid @ post) P =
     Some (pre @ refill P mid (rev (filter P mid)) @ post)"
proof -
  have "reverse_string_if (length pre) (length pre + length mid) (pre @ mid @ post) P =
      Some (pre @ refill P mid (rev (filter P mid)) @ post)"
    using reverse_if_loop_mid [of mid P pre post]
    by (cases "mid = []") (simp_all add: reverse_string_if_def)
  then show ?thesis using reverse_string_mid by blast
qed

end
