(* ===== verification/DigitsHelper.thy ===== *)
theory DigitsHelper
  imports Prelude
begin

section \<open>Integer to text conversion (library/Digits-Helper.h)\<close>

text \<open>
  A character buffer is the list of its bytes and a \<open>char*\<close> into it an index; a write outside
  the buffer is \<open>None\<close>, and so is a countdown \<open>while (n--)\<close> that starts below zero. The bytes
  48 to 57 are the digits, 45 is the minus sign and 46 the point.
\<close>

subsection \<open>The model\<close>

definition count_digits :: "int \<Rightarrow> int" where
  "count_digits val =
     (if val \<ge> 10000 then
        if val \<ge> 1000000 then
          if val \<ge> 100000000 then (if val \<ge> 1000000000 then 10 else 9)
          else (if val \<ge> 10000000 then 8 else 7)
        else (if val \<ge> 100000 then 6 else 5)
      else
        if val \<ge> 100 then (if val \<ge> 1000 then 4 else 3)
        else (if val \<ge> 10 then 2 else 1))"

fun itoa_fill_loop :: "int \<Rightarrow> int \<Rightarrow> nat \<Rightarrow> int list \<Rightarrow> (int \<times> int list) option" where
  "itoa_fill_loop val pBack 0 buf = Some (val, buf)"
| "itoa_fill_loop val pBack (Suc len) buf = do {
     buf \<leftarrow> ivec_upd buf pBack (i8 (val smod 10 + 48));
     itoa_fill_loop (val sdiv 10) (pBack - 1) len buf
   }"

definition itoa_fill :: "int \<Rightarrow> int \<Rightarrow> int \<Rightarrow> int list \<Rightarrow> (int \<times> int list) option" where
  "itoa_fill val pBack len buf =
     (if len < 0 then None
      else do {
        (val, buf) \<leftarrow> itoa_fill_loop val pBack (nat len) buf;
        Some (i32 val, buf)
      })"

fun zero_fill :: "int \<Rightarrow> nat \<Rightarrow> int list \<Rightarrow> int list option" where
  "zero_fill szValue 0 buf = Some buf"
| "zero_fill szValue (Suc n) buf = do {
     buf \<leftarrow> ivec_upd buf szValue 48;
     zero_fill (szValue + 1) n buf
   }"

definition itoa_pos_pad_left_len :: "int \<Rightarrow> int \<Rightarrow> int \<Rightarrow> int \<Rightarrow> int list \<Rightarrow> (int \<times> int list) option" where
  "itoa_pos_pad_left_len val int_len szValue pEnd buf =
     (let fill_zero = pEnd - szValue;
          pEnd = pEnd - 1;
          len = min int_len fill_zero;
          fill_zero = fill_zero - len
      in do {
        (val, buf) \<leftarrow> itoa_fill val pEnd len buf;
        buf \<leftarrow> (if fill_zero < 0 then None else zero_fill szValue (nat fill_zero) buf);
        Some (i32 val, buf)
      })"

definition itoa_pos_pad_left :: "int \<Rightarrow> int \<Rightarrow> int \<Rightarrow> int list \<Rightarrow> (int \<times> int list) option" where
  "itoa_pos_pad_left val szValue pEnd buf =
     itoa_pos_pad_left_len val (count_digits val) szValue pEnd buf"

text \<open>The loop of \<open>itoa_new2\<close> that runs until the value is 0.\<close>

function new2_loop :: "int \<Rightarrow> int \<Rightarrow> int list \<Rightarrow> int list option" where
  "new2_loop val pEnd buf =
     (if val > 0 then do {
        buf \<leftarrow> ivec_upd buf pEnd (i8 (val smod 10 + 48));
        new2_loop (val sdiv 10) (pEnd - 1) buf
      }
      else Some buf)"
  by pat_completeness auto
termination
  by (relation "measure (\<lambda>(val, pEnd, buf). nat val)") (auto simp: div_less_self_int)

declare new2_loop.simps [simp del]

definition itoa_new2 :: "int \<Rightarrow> int \<Rightarrow> int list \<Rightarrow> (int \<times> int list) option" where
  "itoa_new2 val szValue buf =
     (if val = 0 then do {
        buf \<leftarrow> ivec_upd buf szValue 48;
        buf \<leftarrow> ivec_upd buf (szValue + 1) 0;
        Some (szValue, buf)
      }
      else do {
        (val, pEnd, buf) \<leftarrow>
          (if val < 0 then do {
             buf \<leftarrow> ivec_upd buf szValue 45;
             let val = i64 (- val);
             Some (val, szValue + count_digits val, buf)
           }
           else Some (val, szValue + count_digits val - 1, buf));
        buf \<leftarrow> ivec_upd buf (pEnd + 1) 0;
        buf \<leftarrow> new2_loop val pEnd buf;
        Some (szValue, buf)
      })"

definition itoa :: "int \<Rightarrow> int \<Rightarrow> int \<Rightarrow> int list \<Rightarrow> (int \<times> int list) option" where
  "itoa val szValue sz buf = do {
     (val, szValue, buf) \<leftarrow>
       (if val < 0 then do {
          let val = i64 (- val);
          buf \<leftarrow> ivec_upd buf szValue 45;
          Some (val, szValue + 1, buf)
        }
        else Some (val, szValue, buf));
     let len = min (count_digits val) (sz - 1);
     (_, buf) \<leftarrow> itoa_fill val (szValue + len - 1) len buf;
     buf \<leftarrow> ivec_upd buf (szValue + len) 0;
     Some (szValue, buf)
   }"

definition itoa_fix :: "int \<Rightarrow> int \<Rightarrow> int \<Rightarrow> int list \<Rightarrow> (int \<times> int list) option" where
  "itoa_fix val szValue pEnd buf = do {
     (val, szValue, buf) \<leftarrow>
       (if val < 0 then do {
          buf \<leftarrow> ivec_upd buf szValue 45;
          Some (i64 (- val), szValue + 1, buf)
        }
        else Some (val, szValue, buf));
     itoa_pos_pad_left val szValue pEnd buf
   }"

definition pow10 :: "int list" where
  "pow10 = [1, 10, 100, 1000, 10000, 100000, 1000000, 10000000, 100000000, 1000000000]"

definition ftoa_fix :: "int \<Rightarrow> int \<Rightarrow> int \<Rightarrow> int \<Rightarrow> int list \<Rightarrow> (bool \<times> int list) option" where
  "ftoa_fix val dp szValue pEnd buf =
     (if dp \<ge> 10 then Some (False, buf)
      else do {
        (val, szValue, buf) \<leftarrow>
          (if val < 0 then do {
             buf \<leftarrow> ivec_upd buf szValue 45;
             Some (i64 (- val), szValue + 1, buf)
           }
           else Some (val, szValue, buf));
        p \<leftarrow> ivec_at pow10 dp;
        (_, buf) \<leftarrow> itoa_fill (val smod p) (pEnd - 1) dp buf;
        buf \<leftarrow> ivec_upd buf (pEnd - dp - 1) 46;
        (_, buf) \<leftarrow> itoa_pos_pad_left (i32 (val sdiv p)) szValue (pEnd - dp - 1) buf;
        Some (True, buf)
      })"

subsection \<open>Writing digits\<close>

text \<open>The last \<open>n\<close> decimal digits of a value, leading zeros included, as characters.\<close>

fun fixed :: "nat \<Rightarrow> int \<Rightarrow> int list" where
  "fixed 0 v = []"
| "fixed (Suc n) v = fixed n (v div 10) @ [v mod 10 + 48]"

lemma length_fixed [simp]: "length (fixed n v) = n"
  by (induction n v rule: fixed.induct) auto

lemma digit_char_ok: "0 \<le> v \<Longrightarrow> i8 (v smod 10 + 48) = v mod 10 + 48"
  by (subst i8_id) (auto simp: pos_mod_bound less_trans)

text \<open>Overwriting \<open>length ys\<close> elements from position \<open>p\<close> on.\<close>

definition put :: "nat \<Rightarrow> 'a list \<Rightarrow> 'a list \<Rightarrow> 'a list" where
  "put p ys xs = take p xs @ ys @ drop (p + length ys) xs"

lemma length_put [simp]: "p + length ys \<le> length xs \<Longrightarrow> length (put p ys xs) = length xs"
  by (simp add: put_def)

lemma put_nil [simp]: "put p [] xs = xs"
  by (simp add: put_def)

lemma put_single: "p < length xs \<Longrightarrow> xs[p := x] = put p [x] xs"
  by (simp add: put_def upd_conv_take_nth_drop)

lemma put_put_left:
  "p + length ys + length zs \<le> length xs \<Longrightarrow> put p ys (put (p + length ys) zs xs) = put p (ys @ zs) xs"
  by (simp add: put_def add.assoc)

lemma put_put_right:
  "p + length ys + length zs \<le> length xs \<Longrightarrow> put (p + length ys) zs (put p ys xs) = put p (ys @ zs) xs"
  by (simp add: put_def ac_simps)

lemma itoa_fill_loop_fixed:
  "0 \<le> v \<Longrightarrow> len \<le> p \<Longrightarrow> p \<le> length buf \<Longrightarrow>
    itoa_fill_loop v (int p - 1) len buf = Some (v div 10 ^ len, put (p - len) (fixed len v) buf)"
proof (induction len arbitrary: v p buf)
  case (Suc len)
  let ?b = "buf[p - 1 := v mod 10 + 48]"
  have "itoa_fill_loop (v div 10) (int (p - 1) - 1) len ?b =
      Some (v div 10 div 10 ^ len, put (p - 1 - len) (fixed len (v div 10)) ?b)"
    using Suc.prems by (intro Suc.IH) (auto simp: pos_imp_zdiv_nonneg_iff)
  moreover have "put (p - Suc len) (fixed len (v div 10)) ?b = put (p - Suc len) (fixed (Suc len) v) buf"
    using Suc.prems put_put_left [of "p - Suc len" "fixed len (v div 10)" "[v mod 10 + 48]" buf]
    by (simp add: put_single)
  ultimately show ?case
    using Suc.prems by (simp add: digit_char_ok nat_diff_distrib zdiv_zmult2_eq)
qed simp

lemma zero_fill_zeros:
  "p + n \<le> length buf \<Longrightarrow> zero_fill (int p) n buf = Some (put p (replicate n 48) buf)"
proof (induction n arbitrary: p buf)
  case (Suc n)
  have "zero_fill (int (Suc p)) n (buf[p := 48]) = Some (put (Suc p) (replicate n 48) (buf[p := 48]))"
    using Suc.prems by (intro Suc.IH) simp
  moreover have "put (Suc p) (replicate n 48) (buf[p := 48]) = put p (replicate (Suc n) 48) buf"
    using Suc.prems put_put_right [of p "[48]" "replicate n 48" buf] by (simp add: put_single)
  ultimately show ?case using Suc.prems by (simp add: add.commute)
qed simp

text \<open>Digits above the length of the number are zeros.\<close>

lemma fixed_zero: "fixed n 0 = replicate n 48"
  by (induction n) (auto simp: replicate_append_same)

lemma fixed_append: "fixed (m + n) v = fixed m (v div 10 ^ n) @ fixed n v"
proof (induction n arbitrary: v)
  case (Suc n)
  then show ?case by (simp add: zdiv_zmult2_eq)
qed simp

lemma fixed_pad: "0 \<le> v \<Longrightarrow> v < 10 ^ n \<Longrightarrow> fixed (m + n) v = replicate m 48 @ fixed n v"
  by (simp add: fixed_append div_pos_pos_trivial fixed_zero)

text \<open>The value that a run of digits stands for.\<close>

definition number :: "int list \<Rightarrow> int" where
  "number ds = foldl (\<lambda>n d. 10 * n + (d - 48)) 0 ds"

lemma number_fixed: "0 \<le> v \<Longrightarrow> number (fixed n v) = v mod 10 ^ n"
proof (induction n v rule: fixed.induct)
  case (2 n v)
  have "number (fixed (Suc n) v) = 10 * (v div 10 mod 10 ^ n) + v mod 10"
    using 2 by (simp add: number_def pos_imp_zdiv_nonneg_iff)
  then show ?case by (simp add: zmod_zmult2_eq)
qed (simp add: number_def)

subsection \<open>Counting digits\<close>

lemma count_digits_bounds:
  assumes "0 \<le> v" "v < 10 ^ 10"
  shows "v < 10 ^ nat (count_digits v)" "v > 0 \<Longrightarrow> 10 ^ (nat (count_digits v) - 1) \<le> v"
    "1 \<le> count_digits v" "count_digits v \<le> 10"
  using assms by (auto simp: count_digits_def)

text \<open>The decimal numeral of a positive number: its digits without leading zeros.\<close>

fun decimal :: "int \<Rightarrow> int list" where
  "decimal v = (if v < 10 then [v + 48] else decimal (v div 10) @ [v mod 10 + 48])"

declare decimal.simps [simp del]

lemma decimal_fixed:
  "0 \<le> v \<Longrightarrow> v < 10 ^ Suc n \<Longrightarrow> (0 < n \<longrightarrow> 10 ^ n \<le> v) \<Longrightarrow> decimal v = fixed (Suc n) v"
proof (induction n arbitrary: v)
  case (Suc n)
  have "10 \<le> v" using Suc.prems(3) by (intro order_trans [of "10" "10 ^ Suc n" v]) auto
  moreover have "decimal (v div 10) = fixed (Suc n) (v div 10)"
    using Suc.prems by (intro Suc.IH) (auto simp: pos_imp_zdiv_nonneg_iff zdiv_mono1 div_less_int)
  ultimately show ?case by (subst decimal.simps) simp
qed (subst decimal.simps, simp)

lemma decimal_count_digits:
  assumes "0 \<le> v" "v < 10 ^ 10"
  shows "decimal v = fixed (nat (count_digits v)) v"
proof -
  obtain n where n: "nat (count_digits v) = Suc n"
    using count_digits_bounds(3) [OF assms] by (cases "nat (count_digits v)") auto
  have "0 < n \<longrightarrow> 10 ^ n \<le> v"
    using count_digits_bounds(2) [OF assms] n assms(1) by (cases "v = 0") (simp_all add: count_digits_def)
  then show ?thesis
    using count_digits_bounds(1) [OF assms] assms(1) unfolding n by (intro decimal_fixed) auto
qed

lemma fixed_mod: "0 \<le> v \<Longrightarrow> fixed n (v mod 10 ^ n) = fixed n v"
proof (induction n arbitrary: v)
  case (Suc n)
  have "v mod 10 ^ Suc n div 10 = v div 10 mod 10 ^ n" "v mod 10 ^ Suc n mod 10 = v mod 10"
    by (simp_all add: zmod_zmult2_eq)
  then show ?case using Suc.IH [of "v div 10"] Suc.prems by (simp add: pos_imp_zdiv_nonneg_iff)
qed simp

subsection \<open>The conversions\<close>

lemma itoa_fill_fixed:
  assumes "0 \<le> v" "0 \<le> len" "nat len \<le> p" "p \<le> length buf"
  shows "itoa_fill v (int p - 1) len buf =
    Some (i32 (v div 10 ^ nat len), put (p - nat len) (fixed (nat len) v) buf)"
  using itoa_fill_loop_fixed [of v "nat len" p buf] assms by (simp add: itoa_fill_def)

lemma new2_loop_decimal:
  "0 < v \<Longrightarrow> length (decimal v) \<le> p \<Longrightarrow> p \<le> length buf \<Longrightarrow>
    new2_loop v (int p - 1) buf = Some (put (p - length (decimal v)) (decimal v) buf)"
proof (induction v arbitrary: p buf rule: decimal.induct)
  case (1 v)
  let ?b = "buf[p - 1 := v mod 10 + 48]"
  have p: "0 < p" using 1(3) by (subst (asm) decimal.simps) (auto split: if_splits)
  have upd: "ivec_upd buf (int p - 1) (i8 (v smod 10 + 48)) = Some ?b"
    using p 1(2,4) by (simp add: digit_char_ok nat_diff_distrib)
  show ?case
  proof (cases "v < 10")
    case True
    then show ?thesis
      using 1(2,4) p upd
      by (subst new2_loop.simps, subst (1 2) decimal.simps)
         (simp add: new2_loop.simps [of 0] put_single div_pos_pos_trivial)
  next
    case False
    then have dec: "decimal v = decimal (v div 10) @ [v mod 10 + 48]" by (subst decimal.simps) simp
    have "new2_loop (v div 10) (int (p - 1) - 1) ?b =
        Some (put (p - 1 - length (decimal (v div 10))) (decimal (v div 10)) ?b)"
      using 1(3,4) False by (intro 1(1)) (auto simp: dec)
    moreover have "put (p - length (decimal v)) (decimal (v div 10)) ?b =
        put (p - length (decimal v)) (decimal v) buf"
      using put_put_left [of "p - length (decimal v)" "decimal (v div 10)" "[v mod 10 + 48]" buf] 1(3,4) p
      by (simp add: dec put_single)
    ultimately show ?thesis
      using 1(2,3) p upd by (subst new2_loop.simps) (simp add: dec of_nat_diff)
  qed
qed

lemma length_decimal: "0 \<le> v \<Longrightarrow> v < 10 ^ 10 \<Longrightarrow> int (length (decimal v)) = count_digits v"
  using decimal_count_digits [of v] count_digits_bounds(3) [of v] by simp

text \<open>The text of a number with its sign.\<close>

definition signed_text :: "int \<Rightarrow> int list" where
  "signed_text v = (if v < 0 then [45] else []) @ decimal \<bar>v\<bar>"

lemma itoa_new2_text:
  assumes v: "\<bar>v\<bar> < 10 ^ 10" and buf: "p + length (signed_text v) < length buf"
  shows "itoa_new2 v (int p) buf = Some (int p, put p (signed_text v @ [0]) buf)"
proof -
  let ?d = "decimal \<bar>v\<bar>" and ?s = "if v < 0 then [45] else [] :: int list"
  have len: "int (length ?d) = count_digits \<bar>v\<bar>" using length_decimal v by simp
  let ?q = "p + length ?s"
  have room: "?q + length ?d < length buf" using buf by (simp add: signed_text_def)
  have upd: "ivec_upd (put p ?s buf) (int ?q + count_digits \<bar>v\<bar>) 0 =
      Some (put (?q + length ?d) [0] (put p ?s buf))"
    using room by (simp add: len [symmetric] put_single nat_add_distrib)
  show ?thesis
  proof (cases "v = 0")
    case True
    then show ?thesis
      using room put_put_right [of p "[48]" "[0]" buf]
      by (simp add: itoa_new2_def signed_text_def decimal.simps [of 0] put_single add.commute [of _ 1]
          nat_add_distrib)
  next
    case False
    have "new2_loop \<bar>v\<bar> (int ?q + count_digits \<bar>v\<bar> - 1) (put (?q + length ?d) [0] (put p ?s buf)) =
        Some (put ?q ?d (put (?q + length ?d) [0] (put p ?s buf)))"
      using False room new2_loop_decimal [of "\<bar>v\<bar>" "?q + length ?d" "put (?q + length ?d) [0] (put p ?s buf)"]
      unfolding len [symmetric] of_nat_add by simp
    moreover have "put ?q ?d (put (?q + length ?d) [0] (put p ?s buf)) = put p (signed_text v @ [0]) buf"
      using room put_put_left [of ?q ?d "[0]" "put p ?s buf"] put_put_right [of p ?s "?d @ [0]" buf]
      by (simp add: signed_text_def)
    ultimately show ?thesis
      using False room upd v
      by (cases "v < 0") (simp_all add: itoa_new2_def put_single algebra_simps Let_def)
  qed
qed

lemma itoa_text:
  assumes v: "\<bar>v\<bar> < 10 ^ 10" and buf: "p + length (signed_text v) < length buf"
    and sz: "count_digits \<bar>v\<bar> < sz"
  shows "itoa v (int p) sz buf =
    Some (int p + (if v < 0 then 1 else 0), put p (signed_text v @ [0]) buf)"
proof -
  let ?d = "decimal \<bar>v\<bar>" and ?s = "if v < 0 then [45] else [] :: int list"
  have len: "int (length ?d) = count_digits \<bar>v\<bar>" using length_decimal v by simp
  let ?q = "p + length ?s" let ?b = "put p ?s buf"
  have room: "?q + length ?d < length buf" using buf by (simp add: signed_text_def)
  have fill: "itoa_fill \<bar>v\<bar> (int ?q + count_digits \<bar>v\<bar> - 1) (count_digits \<bar>v\<bar>) ?b =
      Some (i32 (\<bar>v\<bar> div 10 ^ length ?d), put ?q ?d ?b)"
    using room itoa_fill_fixed [of "\<bar>v\<bar>" "count_digits \<bar>v\<bar>" "?q + length ?d" ?b] decimal_count_digits [of "\<bar>v\<bar>"] v
    unfolding len [symmetric] of_nat_add by simp
  have upd: "ivec_upd (put ?q ?d ?b) (int ?q + count_digits \<bar>v\<bar>) 0 =
      Some (put p (signed_text v @ [0]) buf)"
    using room put_put_right [of ?q ?d "[0]" ?b] put_put_right [of p ?s "?d @ [0]" buf]
    by (simp add: len [symmetric] put_single nat_add_distrib signed_text_def)
  show ?thesis
    using fill upd sz v room
    by (cases "v < 0") (simp_all add: itoa_def put_single algebra_simps Let_def)
qed

text \<open>Both conversions of a number of at most ten digits leave the same bytes in the buffer, the
  sign, the decimal numeral and a terminating 0, and change nothing else; but the pointer \<open>itoa_\<close>
  returns is one past the sign of a negative number, so the string it returns has lost the sign.\<close>

theorem itoa_conversions_agree:
  assumes "\<bar>v\<bar> < 10 ^ 10" "p + length (signed_text v) < length buf" "count_digits \<bar>v\<bar> < sz"
  shows "itoa_new2 v (int p) buf = Some (int p, put p (signed_text v @ [0]) buf) \<and>
    itoa v (int p) sz buf = Some (int p + (if v < 0 then 1 else 0), put p (signed_text v @ [0]) buf)"
  using itoa_new2_text [OF assms(1,2)] itoa_text [OF assms] by blast

lemma itoa_conversions_agree_witness:
  "itoa_new2 (-42) (int 1) (replicate 8 7) =
     Some (int 1, put 1 (signed_text (-42) @ [0]) (replicate 8 7)) \<and>
   itoa (-42) (int 1) 6 (replicate 8 7) =
     Some (int 1 + (if (-42::int) < 0 then 1 else 0), put 1 (signed_text (-42) @ [0]) (replicate 8 7))"
  by (rule itoa_conversions_agree)
     (simp_all add: signed_text_def decimal.simps [of 42] decimal.simps [of 4] count_digits_def)

lemma itoa_pos_pad_left_fixed:
  assumes v: "0 \<le> v" "v < 10 ^ 10" and p: "p \<le> q" "q \<le> length buf"
  shows "\<exists>r. itoa_pos_pad_left v (int p) (int q) buf = Some (r, put p (fixed (q - p) v) buf)"
proof -
  let ?len = "min (count_digits v) (int (q - p))" let ?n = "nat ?len"
  have n: "0 \<le> ?len" "?n \<le> q - p" using count_digits_bounds(3) [OF v] by auto
  let ?b = "put (q - ?n) (fixed ?n v) buf"
  have fill: "itoa_fill v (int q - 1) ?len buf = Some (i32 (v div 10 ^ ?n), ?b)"
    using n v p by (intro itoa_fill_fixed) auto
  have zeros: "zero_fill (int p) (q - p - ?n) ?b = Some (put p (replicate (q - p - ?n) 48) ?b)"
    using n p by (intro zero_fill_zeros) simp
  have "put p (replicate (q - p - ?n) 48) ?b = put p (replicate (q - p - ?n) 48 @ fixed ?n v) buf"
    using put_put_left [of p "replicate (q - p - ?n) 48" "fixed ?n v" buf] n p by simp
  also have "replicate (q - p - ?n) 48 @ fixed ?n v = fixed (q - p) v"
  proof (cases "?n = q - p")
    case False
    then have c: "?n = nat (count_digits v)" by (cases "count_digits v \<le> int (q - p)") simp_all
    have eq: "q - p - ?n + ?n = q - p" using n(2) by (rule le_add_diff_inverse2)
    have "v < 10 ^ ?n" unfolding c by (rule count_digits_bounds(1) [OF v])
    from fixed_pad [OF v(1) this, of "q - p - ?n", unfolded eq] show ?thesis by (rule sym)
  qed simp
  finally have bytes: "put p (replicate (q - p - ?n) 48) ?b = put p (fixed (q - p) v) buf" .
  have rest: "nat (int (q - p) - ?len) = q - p - ?n" "(int (q - p) - ?len < 0) = False"
    "int q - int p = int (q - p)"
    using n p by auto
  show ?thesis
    unfolding itoa_pos_pad_left_def itoa_pos_pad_left_len_def Let_def rest(3)
    by (simp only: fill zeros bytes rest Option.bind.simps prod.case if_False) blast
qed

lemma pow10_nth: "n < 10 \<Longrightarrow> pow10 ! n = 10 ^ n"
proof -
  assume "n < 10"
  then have "n = 0 \<or> n = 1 \<or> n = 2 \<or> n = 3 \<or> n = 4 \<or> n = 5 \<or> n = 6 \<or> n = 7 \<or> n = 8 \<or> n = 9" by arith
  then show ?thesis by (elim disjE) (simp_all add: pow10_def)
qed

lemma ivec_at_pow10: "n < 10 \<Longrightarrow> ivec_at pow10 (int n) = Some (10 ^ n)"
  by (simp add: ivec_at_def pow10_nth) (simp add: pow10_def)

text \<open>\<open>ftoa_fix\<close> fills the whole field from \<open>szValue\<close> to \<open>pEnd\<close> with the sign, the integral
  part padded with zeros on the left, the point and exactly \<open>dp\<close> decimals, for every value whose
  integral part fits an \<open>int\<close>; the field is cut on the left when the integral part is too long.\<close>

theorem ftoa_fix_layout:
  assumes v: "\<bar>v\<bar> < 2 ^ 63" "\<bar>v\<bar> div 10 ^ dp < 2 ^ 31" and dp: "dp < 10"
    and room: "p + (if v < 0 then 1 else 0) + w + 1 + dp = q" "q \<le> length buf"
  shows "ftoa_fix v (int dp) (int p) (int q) buf =
    Some (True, put p ((if v < 0 then [45] else []) @ fixed w (\<bar>v\<bar> div 10 ^ dp) @ [46] @ fixed dp \<bar>v\<bar>) buf)"
proof -
  define a where "a = \<bar>v\<bar>"
  have a: "0 \<le> a" "a < 2 ^ 63" "a div 10 ^ dp < 2 ^ 31" using v by (simp_all add: a_def)
  let ?s = "if v < 0 then [45] else [] :: int list"
  let ?p = "p + length ?s" let ?b = "put p ?s buf" let ?q = "q - dp - 1"
  have q: "?p + w = ?q" "?q + 1 + dp = q" using room by auto
  let ?i = "a div 10 ^ dp"
  have i: "0 \<le> ?i" "?i < 10 ^ 10" using a by (simp_all add: pos_imp_zdiv_nonneg_iff)
  have sq: "Suc ?q = q - dp" using room by simp
  obtain r where frac: "itoa_fill (a smod 10 ^ dp) (int q - 1) (int dp) ?b =
      Some (r, put (Suc ?q) (fixed dp a) ?b)"
    using itoa_fill_fixed [of "a mod 10 ^ dp" "int dp" q ?b] room q a(1) unfolding sq by (simp add: fixed_mod)
  have "ivec_upd (put (Suc ?q) (fixed dp a) ?b) (int q - int dp - 1) 46 =
      Some ((put (Suc ?q) (fixed dp a) ?b)[?q := 46])"
    using room q by (simp add: nat_diff_distrib')
  moreover have "(put (Suc ?q) (fixed dp a) ?b)[?q := 46] = put ?q ([46] @ fixed dp a) ?b"
    using room q put_put_left [of ?q "[46]" "fixed dp a" ?b] by (simp add: put_single)
  ultimately have dot: "ivec_upd (put (Suc ?q) (fixed dp a) ?b) (int q - int dp - 1) 46 =
      Some (put ?q ([46] @ fixed dp a) ?b)" by simp
  have qq: "int q - int dp - 1 = int ?q" using room q by simp
  obtain r' where int_part: "itoa_pos_pad_left ?i (int ?p) (int q - int dp - 1)
        (put ?q ([46] @ fixed dp a) ?b) =
      Some (r', put ?p (fixed w ?i) (put ?q ([46] @ fixed dp a) ?b))"
    using itoa_pos_pad_left_fixed [OF i, of ?p ?q "put ?q ([46] @ fixed dp a) ?b"] room q
    unfolding qq by auto
  have "put ?p (fixed w ?i) (put ?q ([46] @ fixed dp a) ?b) =
      put p (?s @ fixed w ?i @ [46] @ fixed dp a) buf"
    using put_put_left [of ?p "fixed w ?i" "[46] @ fixed dp a" ?b] q room
      put_put_right [of p ?s "fixed w ?i @ [46] @ fixed dp a" buf] by simp
  moreover have "i32 (a sdiv 10 ^ dp) = ?i" using a i by simp
  moreover have "v < 0 \<Longrightarrow> i64 (- v) = a" "\<not> v < 0 \<Longrightarrow> v = a" using a by (simp_all add: a_def)
  moreover have "v < 0 \<Longrightarrow> ivec_upd buf (int p) 45 = Some (put p [45] buf)"
    using room by (simp add: put_single)
  ultimately show ?thesis
    using frac dot int_part dp unfolding a_def [symmetric]
    by (cases "v < 0") (simp_all add: ftoa_fix_def ivec_at_pow10 Let_def add.commute)
qed

lemma ftoa_fix_layout_witness:
  "ftoa_fix (-12345) (int 2) (int 0) (int 8) (replicate 8 0) =
    Some (True, put 0 ((if (-12345::int) < 0 then [45] else []) @ fixed 4 (\<bar>-12345\<bar> div 10 ^ 2) @ [46] @
      fixed 2 \<bar>-12345\<bar>) (replicate 8 0))"
  by (rule ftoa_fix_layout) simp_all

end
