(* ===== verification/BoundedQueue.thy ===== *)
theory BoundedQueue
  imports Prelude
begin

section \<open>Bounded queues: the contract, and arrays used as rings\<close>

text \<open>
  The interface of a queue of fixed capacity (\<open>bounded_queue\<close>) and of a double-ended one
  (\<open>bounded_deque\<close>), each with the refinement lemma of its clients: any sequence of operations
  gives the outcomes of a plain list. Then the lemmas on a list indexed modulo its length,
  which the ring buffers of the program share.
\<close>

subsection \<open>Operations on the abstract queue\<close>

datatype 'a queue_op = Enq 'a | Deq | Push_front 'a | Drop_last

datatype 'a outcome = Accepted bool | Got "'a option"

fun spec_step :: "nat \<Rightarrow> 'a list \<Rightarrow> 'a queue_op \<Rightarrow> 'a list \<times> 'a outcome" where
  "spec_step cap q (Enq v) = (if length q < cap then (q @ [v], Accepted True) else (q, Accepted False))"
| "spec_step cap q Deq = (case q of [] \<Rightarrow> ([], Got None) | x # xs \<Rightarrow> (xs, Got (Some x)))"
| "spec_step cap q (Push_front v) = (if length q < cap then (v # q, Accepted True) else (q, Accepted False))"
| "spec_step cap q Drop_last = (if q = [] then ([], Accepted False) else (butlast q, Accepted True))"

fun spec_run :: "nat \<Rightarrow> 'a list \<Rightarrow> 'a queue_op list \<Rightarrow> 'a list \<times> 'a outcome list" where
  "spec_run cap q [] = (q, [])"
| "spec_run cap q (p # ps) =
     (let (q1, out) = spec_step cap q p; (q2, outs) = spec_run cap q1 ps in (q2, out # outs))"

fun run_ops :: "('s \<Rightarrow> 'a queue_op \<Rightarrow> ('s \<times> 'a outcome) option) \<Rightarrow> 's \<Rightarrow> 'a queue_op list \<Rightarrow>
    ('s \<times> 'a outcome list) option" where
  "run_ops step s [] = Some (s, [])"
| "run_ops step s (p # ps) = do {
     (s, out) \<leftarrow> step s p;
     (s, outs) \<leftarrow> run_ops step s ps;
     Some (s, out # outs)
   }"

lemma run_ops_refines:
  assumes step: "\<And>s p. invar s \<Longrightarrow> ok p \<Longrightarrow> \<exists>s' out. step s p = Some (s', out) \<and> invar s' \<and>
      capacity s' = capacity s \<and> spec_step (capacity s) (contents s) p = (contents s', out)"
  shows "invar s \<Longrightarrow> \<forall>p \<in> set ps. ok p \<Longrightarrow> \<exists>s' outs. run_ops step s ps = Some (s', outs) \<and> invar s' \<and>
    spec_run (capacity s) (contents s) ps = (contents s', outs)"
proof (induction ps arbitrary: s)
  case (Cons p ps)
  obtain s1 out where s1: "step s p = Some (s1, out)" "invar s1" "capacity s1 = capacity s"
    "spec_step (capacity s) (contents s) p = (contents s1, out)"
    using step Cons.prems by (metis list.set_intros(1))
  obtain s2 outs where "run_ops step s1 ps = Some (s2, outs)" "invar s2"
    "spec_run (capacity s1) (contents s1) ps = (contents s2, outs)"
    using Cons.IH [OF s1(2)] Cons.prems(2) by auto
  then show ?case using s1 by auto
qed simp

subsection \<open>The contracts\<close>

locale bounded_queue =
  fixes invar :: "'s \<Rightarrow> bool"
    and capacity :: "'s \<Rightarrow> nat"
    and contents :: "'s \<Rightarrow> 'a list"
    and enq :: "'s \<Rightarrow> 'a \<Rightarrow> ('s \<times> bool) option"
    and deq :: "'s \<Rightarrow> ('s \<times> 'a option) option"
  assumes within: "invar s \<Longrightarrow> length (contents s) \<le> capacity s"
    and enq_full: "invar s \<Longrightarrow> length (contents s) = capacity s \<Longrightarrow> enq s v = Some (s, False)"
    and enq_room: "invar s \<Longrightarrow> length (contents s) < capacity s \<Longrightarrow>
      \<exists>s'. enq s v = Some (s', True) \<and> invar s' \<and> capacity s' = capacity s \<and> contents s' = contents s @ [v]"
    and deq_empty: "invar s \<Longrightarrow> contents s = [] \<Longrightarrow> deq s = Some (s, None)"
    and deq_item: "invar s \<Longrightarrow> contents s = x # xs \<Longrightarrow>
      \<exists>s'. deq s = Some (s', Some x) \<and> invar s' \<and> capacity s' = capacity s \<and> contents s' = xs"
begin

fun queue_step :: "'s \<Rightarrow> 'a queue_op \<Rightarrow> ('s \<times> 'a outcome) option" where
  "queue_step s (Enq v) = map_option (\<lambda>(s, b). (s, Accepted b)) (enq s v)"
| "queue_step s Deq = map_option (\<lambda>(s, r). (s, Got r)) (deq s)"
| "queue_step s _ = None"

lemma enq_refines:
  "invar s \<Longrightarrow> \<exists>s' out. queue_step s (Enq v) = Some (s', out) \<and> invar s' \<and> capacity s' = capacity s \<and>
    spec_step (capacity s) (contents s) (Enq v) = (contents s', out)"
  using within [of s] enq_full [of s v] enq_room [of s v]
  by (cases "length (contents s) = capacity s") fastforce+

lemma deq_refines:
  "invar s \<Longrightarrow> \<exists>s' out. queue_step s Deq = Some (s', out) \<and> invar s' \<and> capacity s' = capacity s \<and>
    spec_step (capacity s) (contents s) Deq = (contents s', out)"
  using deq_empty [of s] deq_item [of s] by (cases "contents s") fastforce+

lemma queue_refines:
  assumes "invar s" "\<forall>p \<in> set ps. p = Deq \<or> (\<exists>v. p = Enq v)"
  shows "\<exists>s' outs. run_ops queue_step s ps = Some (s', outs) \<and> invar s' \<and>
    spec_run (capacity s) (contents s) ps = (contents s', outs)"
  by (rule run_ops_refines [where ok = "\<lambda>p. p = Deq \<or> (\<exists>v. p = Enq v)"])
     (use assms enq_refines deq_refines in auto)

end

locale bounded_deque = bounded_queue invar capacity contents enq deq
  for invar :: "'s \<Rightarrow> bool" and capacity :: "'s \<Rightarrow> nat" and contents :: "'s \<Rightarrow> 'a list"
    and enq :: "'s \<Rightarrow> 'a \<Rightarrow> ('s \<times> bool) option" and deq :: "'s \<Rightarrow> ('s \<times> 'a option) option" +
  fixes push_front :: "'s \<Rightarrow> 'a \<Rightarrow> ('s \<times> bool) option"
    and drop_last :: "'s \<Rightarrow> 's \<times> bool"
  assumes push_full: "invar s \<Longrightarrow> length (contents s) = capacity s \<Longrightarrow> push_front s v = Some (s, False)"
    and push_room: "invar s \<Longrightarrow> length (contents s) < capacity s \<Longrightarrow>
      \<exists>s'. push_front s v = Some (s', True) \<and> invar s' \<and> capacity s' = capacity s \<and> contents s' = v # contents s"
    and drop_empty: "invar s \<Longrightarrow> contents s = [] \<Longrightarrow> drop_last s = (s, False)"
    and drop_item: "invar s \<Longrightarrow> contents s \<noteq> [] \<Longrightarrow>
      \<exists>s'. drop_last s = (s', True) \<and> invar s' \<and> capacity s' = capacity s \<and> contents s' = butlast (contents s)"
begin

fun deque_step :: "'s \<Rightarrow> 'a queue_op \<Rightarrow> ('s \<times> 'a outcome) option" where
  "deque_step s (Push_front v) = map_option (\<lambda>(s, b). (s, Accepted b)) (push_front s v)"
| "deque_step s Drop_last = (let (s, b) = drop_last s in Some (s, Accepted b))"
| "deque_step s p = queue_step s p"

lemma deque_step_refines:
  assumes "invar s"
  shows "\<exists>s' out. deque_step s p = Some (s', out) \<and> invar s' \<and> capacity s' = capacity s \<and>
    spec_step (capacity s) (contents s) p = (contents s', out)"
proof (cases p)
  case (Push_front v)
  then show ?thesis
    using within [OF assms] push_full [OF assms, of v] push_room [OF assms, of v] assms
    by (cases "length (contents s) = capacity s") fastforce+
next
  case Drop_last
  then show ?thesis
    using drop_empty [OF assms] drop_item [OF assms] assms by (cases "contents s = []") auto
qed (use enq_refines deq_refines assms in auto)

lemma deque_refines:
  assumes "invar s"
  shows "\<exists>s' outs. run_ops deque_step s ps = Some (s', outs) \<and> invar s' \<and>
    spec_run (capacity s) (contents s) ps = (contents s', outs)"
  by (rule run_ops_refines [where ok = "\<lambda>_. True"]) (use assms deque_step_refines in auto)

end

subsection \<open>Arrays used as rings\<close>

lemma ring_index_ne:
  assumes "i < j" "j < i + L"
  shows "i mod L \<noteq> j mod (L::nat)"
proof
  assume "i mod L = j mod L"
  then have "L dvd j - i" using assms(1) mod_eq_dvd_iff_nat [of i j L] by simp
  then show False using assms by (auto dest: dvd_imp_le)
qed

definition ring :: "'a list \<Rightarrow> nat \<Rightarrow> nat \<Rightarrow> 'a list" where
  "ring xs f n = map (\<lambda>i. xs ! ((f + i) mod length xs)) [0..<n]"

lemma length_ring [simp]: "length (ring xs f n) = n"
  by (simp add: ring_def)

lemma ring_0 [simp]: "ring xs f 0 = []"
  by (simp add: ring_def)

lemma ring_mod: "ring xs (f mod length xs) n = ring xs f n"
  by (simp add: ring_def mod_add_left_eq)

lemma ring_push:
  assumes "n < length xs"
  shows "ring (xs[(f + n) mod length xs := v]) f (Suc n) = ring xs f n @ [v]"
proof -
  have "(f + n) mod length xs \<noteq> (f + i) mod length xs" if "i < n" for i
    using ring_index_ne [of "f + i" "f + n" "length xs"] that assms by simp
  moreover have "(f + n) mod length xs < length xs" using assms by (intro mod_less_divisor) linarith
  ultimately show ?thesis by (auto simp: ring_def)
qed

lemma ring_Suc: "ring xs f (Suc n) = xs ! (f mod length xs) # ring xs (Suc f) n"
  by (simp add: ring_def map_upt_Suc del: upt_Suc)

lemma ring_push_front:
  assumes "n < length xs"
  shows "ring (xs[f mod length xs := v]) f (Suc n) = v # ring xs (Suc f) n"
proof -
  have "f mod length xs \<noteq> (Suc f + i) mod length xs" if "i < n" for i
    using ring_index_ne [of f "Suc f + i" "length xs"] that assms by simp
  moreover have "f mod length xs < length xs" using assms by (intro mod_less_divisor) linarith
  ultimately show ?thesis by (simp add: ring_Suc) (auto simp: ring_def)
qed

lemma butlast_ring: "butlast (ring xs f (Suc n)) = ring xs f n"
  by (simp add: ring_def)

lemma last_ring: "last (ring xs f (Suc n)) = xs ! ((f + n) mod length xs)"
  by (simp add: ring_def)

end
