(* ===== verification/CircularDataStruct.thy ===== *)
theory CircularDataStruct
  imports BoundedQueue
begin

section \<open>Circular queue and deque (leetcode/CircularDataStruct.cpp)\<close>

text \<open>
  \<open>MyCircularDeque\<close> and \<open>MyCircularQueue\<close>: a vector of fixed length, the index of the first
  element and the number of elements. A read or write outside the vector is \<open>None\<close>. The
  sums of the index arithmetic are \<open>int\<close>s; they stay below twice the capacity, so a capacity of at
  most 2^30 keeps them from overflowing.
\<close>

subsection \<open>The model\<close>

record circular =
  dq :: "int list"
  front :: int
  csize :: int
  full :: int

definition rearIndex :: "circular \<Rightarrow> int" where
  "rearIndex this = i32 (i32 (front this + csize this) - 1) smod full this"

definition MyCircularDeque_init :: "int \<Rightarrow> circular option" where
  "MyCircularDeque_init k =
     (if k < 0 then None else Some \<lparr>dq = resize (nat k) 0 [], front = 0, csize = 0, full = k\<rparr>)"

definition d_isEmpty :: "circular \<Rightarrow> bool" where
  "d_isEmpty this \<longleftrightarrow> csize this = 0"

definition d_isFull :: "circular \<Rightarrow> bool" where
  "d_isFull this \<longleftrightarrow> csize this = full this"

definition insertLast :: "circular \<Rightarrow> int \<Rightarrow> (circular \<times> bool) option" where
  "insertLast this value =
     (if d_isFull this then Some (this, False)
      else do {
        v \<leftarrow> ivec_upd (dq this) (i32 (front this + csize this) smod full this) value;
        Some (this\<lparr>dq := v, csize := i32 (csize this + 1)\<rparr>, True)
      })"

definition insertFront :: "circular \<Rightarrow> int \<Rightarrow> (circular \<times> bool) option" where
  "insertFront this value =
     (if d_isFull this then Some (this, False)
      else if d_isEmpty this then insertLast this value
      else do {
        let f = i32 (i32 (front this - 1) + full this) smod full this;
        v \<leftarrow> ivec_upd (dq this) f value;
        Some (this\<lparr>dq := v, front := f, csize := i32 (csize this + 1)\<rparr>, True)
      })"

definition deleteFront :: "circular \<Rightarrow> circular \<times> bool" where
  "deleteFront this =
     (if d_isEmpty this then (this, False)
      else (this\<lparr>front := i32 (front this + 1) smod full this, csize := i32 (csize this - 1)\<rparr>, True))"

definition deleteLast :: "circular \<Rightarrow> circular \<times> bool" where
  "deleteLast this =
     (if d_isEmpty this then (this, False) else (this\<lparr>csize := i32 (csize this - 1)\<rparr>, True))"

definition getFront :: "circular \<Rightarrow> int option" where
  "getFront this = (if d_isEmpty this then Some (-1) else ivec_at (dq this) (front this))"

definition getRear :: "circular \<Rightarrow> int option" where
  "getRear this = (if d_isEmpty this then Some (-1) else ivec_at (dq this) (rearIndex this))"

text \<open>\<open>MyCircularQueue\<close> has the same members; its operations are written out again.\<close>

definition MyCircularQueue_init :: "int \<Rightarrow> circular option" where
  "MyCircularQueue_init k =
     (if k < 0 then None else Some \<lparr>dq = resize (nat k) 0 [], front = 0, csize = 0, full = k\<rparr>)"

definition q_isEmpty :: "circular \<Rightarrow> bool" where
  "q_isEmpty this \<longleftrightarrow> csize this = 0"

definition q_isFull :: "circular \<Rightarrow> bool" where
  "q_isFull this \<longleftrightarrow> csize this = full this"

definition enQueue :: "circular \<Rightarrow> int \<Rightarrow> (circular \<times> bool) option" where
  "enQueue this value =
     (if q_isFull this then Some (this, False)
      else do {
        v \<leftarrow> ivec_upd (dq this) (i32 (front this + csize this) smod full this) value;
        Some (this\<lparr>dq := v, csize := i32 (csize this + 1)\<rparr>, True)
      })"

definition deQueue :: "circular \<Rightarrow> circular \<times> bool" where
  "deQueue this =
     (if q_isEmpty this then (this, False)
      else (this\<lparr>front := i32 (front this + 1) smod full this, csize := i32 (csize this - 1)\<rparr>, True))"

definition Front :: "circular \<Rightarrow> int option" where
  "Front this = (if q_isEmpty this then Some (-1) else ivec_at (dq this) (front this))"

definition Rear :: "circular \<Rightarrow> int option" where
  "Rear this =
     (if q_isEmpty this then Some (-1)
      else ivec_at (dq this) (i32 (i32 (front this + csize this) - 1) smod full this))"

subsection \<open>The abstraction\<close>

definition circular_ok :: "circular \<Rightarrow> bool" where
  "circular_ok s \<longleftrightarrow> full s = int (length (dq s)) \<and> 0 \<le> front s \<and>
     (front s < full s \<or> front s = 0) \<and> 0 \<le> csize s \<and> csize s \<le> full s \<and> full s \<le> 1073741824"

definition items :: "circular \<Rightarrow> int list" where
  "items s = ring (dq s) (nat (front s)) (nat (csize s))"

definition slots :: "circular \<Rightarrow> nat" where
  "slots s = length (dq s)"

text \<open>A client takes an item by reading the front and removing it.\<close>

definition take_front ::
  "(circular \<Rightarrow> int option) \<Rightarrow> (circular \<Rightarrow> circular \<times> bool) \<Rightarrow> circular \<Rightarrow> (circular \<times> int option) option" where
  "take_front get del s = do {
     x \<leftarrow> get s;
     let (s', b) = del s in Some (s', if b then Some x else None)
   }"

lemma init_ok: "0 \<le> k \<Longrightarrow> k \<le> 1073741824 \<Longrightarrow> \<exists>s. MyCircularDeque_init k = Some s \<and> MyCircularQueue_init k = Some s \<and>
    circular_ok s \<and> items s = [] \<and> slots s = nat k"
  by (auto simp: MyCircularDeque_init_def MyCircularQueue_init_def circular_ok_def items_def slots_def resize_def)

text \<open>No sum of the operations overflows.\<close>

lemma circular_sums:
  assumes "circular_ok s"
  shows "i32 (front s + csize s) = front s + csize s" "i32 (front s + csize s - 1) = front s + csize s - 1"
    "i32 (front s - 1) = front s - 1" "i32 (front s - 1 + full s) = front s - 1 + full s"
    "i32 (front s + 1) = front s + 1" "i32 (csize s + 1) = csize s + 1" "i32 (csize s - 1) = csize s - 1"
proof -
  have "0 \<le> front s" "front s \<le> full s" "0 \<le> csize s" "csize s \<le> full s" "full s \<le> 1073741824"
    "front s + csize s < 2147483648"
    using assms by (auto simp: circular_ok_def)
  then show "i32 (front s + csize s) = front s + csize s" "i32 (front s + csize s - 1) = front s + csize s - 1"
    "i32 (front s - 1) = front s - 1" "i32 (front s - 1 + full s) = front s - 1 + full s"
    "i32 (front s + 1) = front s + 1" "i32 (csize s + 1) = csize s + 1" "i32 (csize s - 1) = csize s - 1"
    by (intro i32_id, linarith, linarith)+
qed

lemma int_mod_nat: "0 \<le> a \<Longrightarrow> 0 < n \<Longrightarrow> a smod int n = int (nat a mod n)"
  by (simp add: zmod_int)

lemma insertLast_room:
  assumes "circular_ok s" "length (items s) < slots s"
  shows "\<exists>s'. insertLast s v = Some (s', True) \<and> circular_ok s' \<and> slots s' = slots s \<and>
    items s' = items s @ [v]"
proof -
  have s: "0 \<le> front s" "0 \<le> csize s" "full s = int (length (dq s))" "nat (csize s) < length (dq s)"
    using assms by (auto simp: circular_ok_def items_def slots_def)
  let ?i = "(nat (front s) + nat (csize s)) mod length (dq s)"
  have "?i < length (dq s)" using s(4) by (intro mod_less_divisor) linarith
  moreover have pos: "0 < length (dq s)" using s(4) by linarith
  have "(front s + csize s) smod full s = int ?i"
    using s int_mod_nat [OF _ pos, of "front s + csize s"] by (simp add: nat_add_distrib)
  moreover have "\<not> d_isFull s" using s by (auto simp: d_isFull_def)
  ultimately have "insertLast s v = Some (s\<lparr>dq := (dq s)[?i := v], csize := csize s + 1\<rparr>, True)"
    by (simp add: insertLast_def circular_sums [OF assms(1)])
  moreover have "ring ((dq s)[?i := v]) (nat (front s)) (Suc (nat (csize s))) =
      ring (dq s) (nat (front s)) (nat (csize s)) @ [v]"
    by (rule ring_push [OF s(4)])
  ultimately show ?thesis
    using assms s by (simp add: circular_ok_def items_def slots_def nat_add_distrib)
qed

lemma deleteFront_item:
  assumes "circular_ok s" "items s = x # xs"
  shows "getFront s = Some x" "\<exists>s'. deleteFront s = (s', True) \<and> circular_ok s' \<and> slots s' = slots s \<and>
    items s' = xs"
proof -
  have "0 < csize s" using assms by (cases "csize s = 0") (auto simp: items_def circular_ok_def)
  then obtain n where n: "nat (csize s) = Suc n" by (cases "nat (csize s)") auto
  have s: "0 \<le> front s" "front s < full s" "csize s \<le> full s" "full s = int (length (dq s))" "full s \<le> 1073741824"
    using assms(1) \<open>0 < csize s\<close> by (auto simp: circular_ok_def)
  have x: "x = dq s ! nat (front s)" "xs = ring (dq s) (Suc (nat (front s))) n"
    using assms(2) s unfolding items_def n ring_Suc by simp_all
  show "getFront s = Some x" using s x \<open>0 < csize s\<close> by (simp add: getFront_def d_isEmpty_def)
  have pos: "0 < length (dq s)" using s by linarith
  have "(front s + 1) smod full s = int (Suc (nat (front s)) mod length (dq s))"
    using s int_mod_nat [OF _ pos, of "front s + 1"] by (simp add: nat_add_distrib)
  then show "\<exists>s'. deleteFront s = (s', True) \<and> circular_ok s' \<and> slots s' = slots s \<and> items s' = xs"
    using s x n \<open>0 < csize s\<close>
      mod_less_divisor [OF pos, of "Suc (nat (front s))"]
      circular_sums [OF assms(1)]
    by (simp add: deleteFront_def d_isEmpty_def circular_ok_def items_def slots_def ring_mod nat_diff_distrib)
qed

lemma insertFront_room:
  assumes "circular_ok s" "length (items s) < slots s"
  shows "\<exists>s'. insertFront s v = Some (s', True) \<and> circular_ok s' \<and> slots s' = slots s \<and>
    items s' = v # items s"
proof (cases "csize s = 0")
  case True
  then have "insertFront s v = insertLast s v" "items s = []"
    by (auto simp: insertFront_def insertLast_def d_isEmpty_def d_isFull_def items_def)
  then show ?thesis using insertLast_room [OF assms] by simp
next
  case False
  have s: "0 \<le> front s" "front s < full s" "0 \<le> csize s" "full s = int (length (dq s))"
    "nat (csize s) < length (dq s)"
    using assms False by (auto simp: circular_ok_def items_def slots_def)
  let ?f = "nat (front s) + length (dq s) - 1"
  have f: "Suc ?f = nat (front s) + length (dq s)" using s by linarith
  have pos: "0 < length (dq s)" using s by linarith
  have "(front s - 1 + full s) smod full s = int (?f mod length (dq s))"
    using s int_mod_nat [OF _ pos, of "front s - 1 + full s"]
    by (simp add: nat_add_distrib nat_diff_distrib algebra_simps)
  moreover have "?f mod length (dq s) < length (dq s)" using pos by simp
  moreover have "\<not> d_isFull s" "\<not> d_isEmpty s" using s False by (auto simp: d_isFull_def d_isEmpty_def)
  moreover note circular_sums [OF assms(1)]
  ultimately have "insertFront s v = Some (s\<lparr>dq := (dq s)[?f mod length (dq s) := v],
      front := int (?f mod length (dq s)), csize := csize s + 1\<rparr>, True)"
    by (simp add: insertFront_def Let_def)
  moreover have "ring ((dq s)[?f mod length (dq s) := v]) (?f mod length (dq s)) (Suc (nat (csize s))) =
      v # ring (dq s) (nat (front s)) (nat (csize s))"
    using ring_push_front [OF s(5), of ?f v, unfolded f]
      ring_mod [of "(dq s)[?f mod length (dq s) := v]" ?f "Suc (nat (csize s))"]
      ring_mod [of "dq s" "nat (front s) + length (dq s)"] ring_mod [of "dq s" "nat (front s)"]
    by simp
  ultimately show ?thesis
    using assms s pos by (simp add: circular_ok_def items_def slots_def nat_add_distrib)
qed

lemma deleteLast_item:
  assumes "circular_ok s" "items s \<noteq> []"
  shows "\<exists>s'. deleteLast s = (s', True) \<and> circular_ok s' \<and> slots s' = slots s \<and> items s' = butlast (items s)"
    "getRear s = Some (last (items s))"
proof -
  have "0 < csize s" using assms by (cases "csize s = 0") (auto simp: items_def circular_ok_def)
  then obtain n where n: "nat (csize s) = Suc n" by (cases "nat (csize s)") auto
  then have n': "csize s = int (Suc n)" using \<open>0 < csize s\<close> by linarith
  have s: "0 \<le> front s" "csize s \<le> full s" "full s = int (length (dq s))"
    using assms(1) by (auto simp: circular_ok_def)
  show "\<exists>s'. deleteLast s = (s', True) \<and> circular_ok s' \<and> slots s' = slots s \<and> items s' = butlast (items s)"
    using assms(1) n n' butlast_ring [of "dq s" "nat (front s)" n] circular_sums [OF assms(1)]
    by (auto simp: deleteLast_def d_isEmpty_def circular_ok_def items_def slots_def)
  have pos: "0 < length (dq s)" using s n' by linarith
  have "rearIndex s = int ((nat (front s) + n) mod length (dq s))"
    using s n' int_mod_nat [OF _ pos, of "front s + int n"] circular_sums [OF assms(1)]
    by (simp add: rearIndex_def nat_add_distrib)
  moreover have "(nat (front s) + n) mod length (dq s) < length (dq s)"
    using pos by (rule mod_less_divisor)
  ultimately show "getRear s = Some (last (items s))"
    using n' unfolding items_def n last_ring by (simp add: getRear_def d_isEmpty_def)
qed

lemma items_Nil_iff: "circular_ok s \<Longrightarrow> items s = [] \<longleftrightarrow> csize s = 0"
  by (auto simp: items_def circular_ok_def ring_def)

lemma items_full_iff: "circular_ok s \<Longrightarrow> length (items s) = slots s \<longleftrightarrow> csize s = full s"
  by (auto simp: items_def circular_ok_def slots_def)

interpretation circ_deque: bounded_deque circular_ok slots items insertLast
  "take_front getFront deleteFront" insertFront deleteLast
proof
  fix s :: circular and v x :: int and xs
  assume ok: "circular_ok s"
  show "length (items s) \<le> slots s" using ok by (auto simp: items_def circular_ok_def slots_def)
  show "insertLast s v = Some (s, False)" "insertFront s v = Some (s, False)" if "length (items s) = slots s"
    using that ok by (simp_all add: items_full_iff insertLast_def insertFront_def d_isFull_def)
  show "take_front getFront deleteFront s = Some (s, None)" "deleteLast s = (s, False)" if "items s = []"
    using that ok by (simp_all add: items_Nil_iff take_front_def getFront_def deleteFront_def
        deleteLast_def d_isEmpty_def)
  show "\<exists>s'. take_front getFront deleteFront s = Some (s', Some x) \<and> circular_ok s' \<and>
      slots s' = slots s \<and> items s' = xs" if "items s = x # xs"
    using deleteFront_item [OF ok that] by (auto simp: take_front_def)
qed (use insertLast_room insertFront_room deleteLast_item(1) in auto)

lemma queue_is_deque:
  "enQueue = insertLast" "deQueue = deleteFront" "Front = getFront" "Rear = getRear"
  by (auto simp: fun_eq_iff enQueue_def insertLast_def deQueue_def deleteFront_def Front_def getFront_def
      Rear_def getRear_def rearIndex_def q_isEmpty_def d_isEmpty_def q_isFull_def d_isFull_def)

interpretation circ_queue: bounded_queue circular_ok slots items enQueue "take_front Front deQueue"
  unfolding queue_is_deque by (rule circ_deque.bounded_queue_axioms)

text \<open>C35: A deque of capacity \<open>k\<close>, at most 2^30, gives, for any sequence of insertions and removals at both ends,
  the outcomes of a plain list that refuses an insertion at length \<open>k\<close>.\<close>

theorem MyCircularDeque_refines:
  assumes "0 \<le> k" "k \<le> 1073741824"
  shows "\<exists>s0 s outs. MyCircularDeque_init k = Some s0 \<and>
    run_ops circ_deque.deque_step s0 ops = Some (s, outs) \<and>
    spec_run (nat k) [] ops = (items s, outs) \<and>
    (items s \<noteq> [] \<longrightarrow> getFront s = Some (hd (items s)) \<and> getRear s = Some (last (items s)))"
proof -
  obtain s0 where s0: "MyCircularDeque_init k = Some s0" "circular_ok s0" "items s0 = []" "slots s0 = nat k"
    using init_ok [OF assms] by auto
  obtain s outs where s: "run_ops circ_deque.deque_step s0 ops = Some (s, outs)" "circular_ok s"
    "spec_run (nat k) [] ops = (items s, outs)"
    using circ_deque.deque_refines [OF s0(2), of ops] unfolding s0(3,4) by auto
  have "getFront s = Some (hd (items s))" if "items s \<noteq> []"
    using deleteFront_item(1) [OF s(2), of "hd (items s)" "tl (items s)"] that by simp
  then show ?thesis using s0(1) s deleteLast_item(2) [OF s(2)] by auto
qed

lemma MyCircularDeque_refines_witness:
  "\<exists>s0 s outs. MyCircularDeque_init 3 = Some s0 \<and>
    run_ops circ_deque.deque_step s0 [Enq 1, Enq 2, Push_front 3, Push_front 4, Drop_last] = Some (s, outs) \<and>
    spec_run (nat 3) [] [Enq 1, Enq 2, Push_front 3, Push_front 4, Drop_last] = (items s, outs) \<and>
    (items s \<noteq> [] \<longrightarrow> getFront s = Some (hd (items s)) \<and> getRear s = Some (last (items s)))"
  by (rule MyCircularDeque_refines) simp_all

lemma MyCircularQueue_refines:
  assumes "0 \<le> k" "k \<le> 1073741824" "\<forall>p \<in> set ops. p = Deq \<or> (\<exists>v. p = Enq v)"
  shows "\<exists>s0 s outs. MyCircularQueue_init k = Some s0 \<and>
    run_ops circ_queue.queue_step s0 ops = Some (s, outs) \<and> spec_run (nat k) [] ops = (items s, outs)"
  using init_ok [OF assms(1,2)] circ_queue.queue_refines [OF _ assms(3)] by metis

end
