(* ===== verification/RingBuffer.thy ===== *)
theory RingBuffer
  imports BoundedQueue "HOL-Library.Sublist"
begin

section \<open>The single-reader single-writer ring (library/RingBufferAtomic.h)\<close>

text \<open>
  \<open>circular_queue\<close> twice: its member functions run alone, as a bounded queue, and one writer and
  one reader interleaved at the granularity of the accesses to shared memory (the two atomic
  indices, the slots, the mutex and the condition variable; all atomic operations of the code
  are sequentially consistent). An element that was moved out of its slot is left there as it
  was; its value is never read again.
\<close>

subsection \<open>The operations run alone\<close>

record 'a circular_queue =
  read_ix :: nat
  write_ix :: nat
  queue :: "'a list"

abbreviation RING_SIZE :: "'a circular_queue \<Rightarrow> nat" where
  "RING_SIZE this \<equiv> length (queue this)"

definition circular_queue_init :: "nat \<Rightarrow> 'a \<Rightarrow> 'a circular_queue" where
  "circular_queue_init BUF_SIZE dflt =
     \<lparr>read_ix = 0, write_ix = 0, queue = replicate (BUF_SIZE + 1) dflt\<rparr>"

definition is_full :: "'a circular_queue \<Rightarrow> nat \<Rightarrow> bool" where
  "is_full this nxt \<longleftrightarrow> nxt = read_ix this"

definition push :: "'a circular_queue \<Rightarrow> 'a \<Rightarrow> ('a circular_queue \<times> bool) option" where
  "push this val =
     (let write_pos = write_ix this;
          next_write = (write_pos + 1) mod RING_SIZE this
      in if next_write = read_ix this then Some (this, False)
         else do {
           q \<leftarrow> vec_upd (queue this) write_pos val;
           Some (this\<lparr>queue := q, write_ix := next_write\<rparr>, True)
         })"

definition pop :: "'a circular_queue \<Rightarrow> ('a circular_queue \<times> 'a option) option" where
  "pop this =
     (let read_pos = read_ix this in
      if write_ix this = read_pos then Some (this, None)
      else do {
        val \<leftarrow> vec_at (queue this) read_pos;
        Some (this\<lparr>read_ix := (read_pos + 1) mod RING_SIZE this\<rparr>, Some val)
      })"

definition empty_at :: "'a circular_queue \<Rightarrow> nat \<Rightarrow> bool" where
  "empty_at this read_pos \<longleftrightarrow> write_ix this = read_pos"

definition is_empty :: "'a circular_queue \<Rightarrow> bool" where
  "is_empty this \<longleftrightarrow> read_ix this = write_ix this"

definition ring_size :: "'a circular_queue \<Rightarrow> nat" where
  "ring_size this =
     (let r = read_ix this; w = write_ix this in if r \<le> w then w - r else w + RING_SIZE this - r)"

definition ring_ok :: "'a circular_queue \<Rightarrow> bool" where
  "ring_ok s \<longleftrightarrow> read_ix s < RING_SIZE s \<and> write_ix s < RING_SIZE s"

definition stored :: "'a circular_queue \<Rightarrow> 'a list" where
  "stored s = ring (queue s) (read_ix s) (ring_size s)"

lemma write_after_size:
  "ring_ok s \<Longrightarrow> write_ix s = (read_ix s + ring_size s) mod RING_SIZE s" "ring_ok s \<Longrightarrow> ring_size s < RING_SIZE s"
  by (auto simp: ring_ok_def ring_size_def Let_def)

lemma mod_step: "a < L \<Longrightarrow> Suc a mod L = (if Suc a = L then 0 else Suc a)"
  by auto

lemma push_cases:
  assumes "ring_ok s"
  shows "(write_ix s + 1) mod RING_SIZE s = read_ix s \<longleftrightarrow> Suc (ring_size s) = RING_SIZE s"
  using assms by (auto simp: ring_ok_def ring_size_def Let_def mod_step split: if_splits)

interpretation spsc: bounded_queue ring_ok "\<lambda>s. RING_SIZE s - 1" stored push pop
proof
  fix s :: "'a circular_queue" and v x :: 'a and xs
  assume ok: "ring_ok s"
  note size = write_after_size [OF ok]
  show "length (stored s) \<le> RING_SIZE s - 1" using size(2) by (simp add: stored_def)
  show "push s v = Some (s, False)" if "length (stored s) = RING_SIZE s - 1"
    using that size(2) push_cases [OF ok] by (simp add: stored_def push_def Let_def)
  show "\<exists>s'. push s v = Some (s', True) \<and> ring_ok s' \<and> RING_SIZE s' - 1 = RING_SIZE s - 1 \<and>
      stored s' = stored s @ [v]" if "length (stored s) < RING_SIZE s - 1"
  proof -
    let ?s = "s\<lparr>queue := (queue s)[write_ix s := v], write_ix := (write_ix s + 1) mod RING_SIZE s\<rparr>"
    have room: "Suc (ring_size s) < RING_SIZE s" using that by (simp add: stored_def)
    then have "push s v = Some (?s, True)"
      using push_cases [OF ok] ok by (simp add: push_def ring_ok_def Let_def)
    moreover have "ring_size ?s = Suc (ring_size s)"
      using ok room by (auto simp: ring_ok_def ring_size_def Let_def mod_step split: if_splits)
    moreover have "stored ?s = stored s @ [v]"
      using \<open>ring_size ?s = _\<close> ring_push [OF size(2), of "read_ix s" v] unfolding stored_def size(1) [symmetric]
      by simp
    moreover have "ring_ok ?s" using ok by (auto simp: ring_ok_def mod_step)
    ultimately show ?thesis by auto
  qed
  show "pop s = Some (s, None)" if "stored s = []"
    using that ok by (auto simp: stored_def ring_def pop_def ring_size_def Let_def ring_ok_def split: if_splits)
  show "\<exists>s'. pop s = Some (s', Some x) \<and> ring_ok s' \<and> RING_SIZE s' - 1 = RING_SIZE s - 1 \<and> stored s' = xs"
    if st: "stored s = x # xs"
  proof -
    have ne: "ring_size s \<noteq> 0" using st by (cases "ring_size s") (simp_all add: stored_def)
    then obtain n where n: "ring_size s = Suc n" by (cases "ring_size s") auto
    let ?s = "s\<lparr>read_ix := (read_ix s + 1) mod RING_SIZE s\<rparr>"
    have x: "x = queue s ! read_ix s" "xs = ring (queue s) (Suc (read_ix s)) n"
      using st ok unfolding stored_def n ring_Suc by (simp_all add: ring_ok_def)
    have "write_ix s \<noteq> read_ix s" using ne by (auto simp: ring_size_def)
    then have "pop s = Some (?s, Some x)" using ok x by (simp add: pop_def ring_ok_def Let_def)
    moreover have "ring_size ?s = n"
      using ok n by (auto simp: ring_ok_def ring_size_def Let_def mod_step split: if_splits)
    moreover have "ring_ok ?s" using ok by (auto simp: ring_ok_def mod_step)
    ultimately show ?thesis using x ring_mod [of "queue s" "Suc (read_ix s)" n] by (auto simp: stored_def)
  qed
qed

text \<open>C6: Run alone, a ring with \<open>BUF_SIZE\<close> slots gives for any sequence of push and pop the outcomes of
  a list that refuses a push at length \<open>BUF_SIZE\<close>; \<open>size()\<close> and \<open>empty()\<close> agree with it.\<close>

theorem circular_queue_refines:
  assumes "\<forall>p \<in> set ops. p = Deq \<or> (\<exists>v. p = Enq v)"
  shows "\<exists>s outs. run_ops spsc.queue_step (circular_queue_init BUF_SIZE d) ops = Some (s, outs) \<and>
    spec_run BUF_SIZE [] ops = (stored s, outs) \<and>
    ring_size s = length (stored s) \<and> is_empty s = (stored s = [])"
proof -
  let ?s0 = "circular_queue_init BUF_SIZE d"
  have s0: "ring_ok ?s0" "stored ?s0 = []" "RING_SIZE ?s0 - 1 = BUF_SIZE"
    by (simp_all add: circular_queue_init_def ring_ok_def stored_def ring_size_def)
  obtain s outs where s: "run_ops spsc.queue_step ?s0 ops = Some (s, outs)" "ring_ok s"
    "spec_run BUF_SIZE [] ops = (stored s, outs)"
    using spsc.queue_refines [OF s0(1) assms] unfolding s0(2,3) by auto
  moreover have "is_empty s = (stored s = [])"
    using s(2) by (auto simp: is_empty_def stored_def ring_def ring_size_def Let_def ring_ok_def)
  ultimately show ?thesis by (auto simp: stored_def)
qed

lemma circular_queue_refines_witness:
  "\<exists>s outs. run_ops spsc.queue_step (circular_queue_init 2 (0::nat)) [Enq 1, Enq 2, Enq 3, Deq] = Some (s, outs) \<and>
    spec_run 2 [] [Enq 1, Enq 2, Enq 3, Deq] = (stored s, outs) \<and>
    ring_size s = length (stored s) \<and> is_empty s = (stored s = [])"
  by (rule circular_queue_refines) simp

subsection \<open>One writer and one reader, interleaved\<close>

text \<open>
  The program counters carry the locals: the value, \<open>write_pos\<close> or \<open>read_pos\<close>, and whether the
  call is the waiting one. In \<open>push_wait\<close> and \<open>pop_wait\<close> a thread that finds the queue full
  (empty) takes the mutex, evaluates the predicate under it (\<open>Locked\<close>), and if it must wait
  (\<open>Decided\<close>) releases the mutex and goes to sleep in one step (\<open>Asleep\<close>); a notification or a
  spurious wake-up makes it \<open>Woken\<close>, and it takes the mutex again. \<open>pop\<close> publishes the new read
  index before it moves the element out of the slot (\<open>Taken\<close>). The fields \<open>pushed\<close> and \<open>popped\<close>
  are ghosts: the values whose push and pop are complete.
\<close>

datatype 'a writer =
    W_idle
  | W_loaded bool 'a nat
  | W_lock 'a nat
  | W_locked 'a nat
  | W_decided 'a nat
  | W_asleep 'a nat
  | W_space bool 'a nat
  | W_stored bool 'a nat
  | W_notify

datatype reader =
    R_idle
  | R_loaded bool nat
  | R_lock nat
  | R_locked nat
  | R_decided nat
  | R_asleep nat
  | R_avail bool nat
  | R_notify nat
  | R_taken nat

record 'a system = "'a circular_queue" +
  wpc :: "'a writer"
  rpc :: reader
  locked :: bool
  pushed :: "'a list"
  popped :: "'a list"

definition system_init :: "nat \<Rightarrow> 'a \<Rightarrow> 'a system" where
  "system_init BUF_SIZE d =
     \<lparr>read_ix = 0, write_ix = 0, queue = replicate (BUF_SIZE + 1) d, wpc = W_idle, rpc = R_idle,
      locked = False, pushed = [], popped = []\<rparr>"

abbreviation nxt :: "'a system \<Rightarrow> nat \<Rightarrow> nat" where
  "nxt s i \<equiv> (i + 1) mod length (queue s)"

inductive writer_step :: "'a system \<Rightarrow> 'a system \<Rightarrow> bool" where
  w_load: "wpc s = W_idle \<Longrightarrow> writer_step s (s\<lparr>wpc := W_loaded wait v (write_ix s)\<rparr>)"
| w_full: "wpc s = W_loaded False v w \<Longrightarrow> nxt s w = read_ix s \<Longrightarrow> writer_step s (s\<lparr>wpc := W_idle\<rparr>)"
| w_room: "wpc s = W_loaded wait v w \<Longrightarrow> nxt s w \<noteq> read_ix s \<Longrightarrow>
    writer_step s (s\<lparr>wpc := W_space wait v w\<rparr>)"
| w_must_wait: "wpc s = W_loaded True v w \<Longrightarrow> nxt s w = read_ix s \<Longrightarrow>
    writer_step s (s\<lparr>wpc := W_lock v w\<rparr>)"
| w_lock: "wpc s = W_lock v w \<Longrightarrow> \<not> locked s \<Longrightarrow> writer_step s (s\<lparr>wpc := W_locked v w, locked := True\<rparr>)"
| w_pred_true: "wpc s = W_locked v w \<Longrightarrow> nxt s w \<noteq> read_ix s \<Longrightarrow>
    writer_step s (s\<lparr>wpc := W_space True v w, locked := False\<rparr>)"
| w_pred_false: "wpc s = W_locked v w \<Longrightarrow> nxt s w = read_ix s \<Longrightarrow>
    writer_step s (s\<lparr>wpc := W_decided v w\<rparr>)"
| w_sleep: "wpc s = W_decided v w \<Longrightarrow> writer_step s (s\<lparr>wpc := W_asleep v w, locked := False\<rparr>)"
| w_spurious: "wpc s = W_asleep v w \<Longrightarrow> writer_step s (s\<lparr>wpc := W_lock v w\<rparr>)"
| w_slot: "wpc s = W_space wait v w \<Longrightarrow>
    writer_step s (s\<lparr>queue := (queue s)[w := v], wpc := W_stored wait v w\<rparr>)"
| w_publish: "wpc s = W_stored wait v w \<Longrightarrow>
    writer_step s (s\<lparr>write_ix := nxt s w, pushed := pushed s @ [v],
      wpc := if wait then W_notify else W_idle\<rparr>)"
| w_notify: "wpc s = W_notify \<Longrightarrow>
    writer_step s (s\<lparr>rpc := (case rpc s of R_asleep r \<Rightarrow> R_lock r | pc \<Rightarrow> pc), wpc := W_idle\<rparr>)"

inductive reader_step :: "'a system \<Rightarrow> 'a system \<Rightarrow> bool" where
  r_load: "rpc s = R_idle \<Longrightarrow> reader_step s (s\<lparr>rpc := R_loaded wait (read_ix s)\<rparr>)"
| r_empty: "rpc s = R_loaded False r \<Longrightarrow> write_ix s = r \<Longrightarrow> reader_step s (s\<lparr>rpc := R_idle\<rparr>)"
| r_item: "rpc s = R_loaded wait r \<Longrightarrow> write_ix s \<noteq> r \<Longrightarrow> reader_step s (s\<lparr>rpc := R_avail wait r\<rparr>)"
| r_must_wait: "rpc s = R_loaded True r \<Longrightarrow> write_ix s = r \<Longrightarrow> reader_step s (s\<lparr>rpc := R_lock r\<rparr>)"
| r_lock: "rpc s = R_lock r \<Longrightarrow> \<not> locked s \<Longrightarrow> reader_step s (s\<lparr>rpc := R_locked r, locked := True\<rparr>)"
| r_pred_true: "rpc s = R_locked r \<Longrightarrow> write_ix s \<noteq> r \<Longrightarrow>
    reader_step s (s\<lparr>rpc := R_avail True r, locked := False\<rparr>)"
| r_pred_false: "rpc s = R_locked r \<Longrightarrow> write_ix s = r \<Longrightarrow> reader_step s (s\<lparr>rpc := R_decided r\<rparr>)"
| r_sleep: "rpc s = R_decided r \<Longrightarrow> reader_step s (s\<lparr>rpc := R_asleep r, locked := False\<rparr>)"
| r_spurious: "rpc s = R_asleep r \<Longrightarrow> reader_step s (s\<lparr>rpc := R_lock r\<rparr>)"
| r_publish: "rpc s = R_avail wait r \<Longrightarrow>
    reader_step s (s\<lparr>read_ix := nxt s r, rpc := if wait then R_notify r else R_taken r\<rparr>)"
| r_notify: "rpc s = R_notify r \<Longrightarrow>
    reader_step s (s\<lparr>wpc := (case wpc s of W_asleep v w \<Rightarrow> W_lock v w | pc \<Rightarrow> pc), rpc := R_taken r\<rparr>)"
| r_move: "rpc s = R_taken r \<Longrightarrow>
    reader_step s (s\<lparr>popped := popped s @ [queue s ! r], rpc := R_idle\<rparr>)"

inductive reachable :: "'a system \<Rightarrow> 'a system \<Rightarrow> bool" for s0 where
  start: "reachable s0 s0"
| writer: "reachable s0 s \<Longrightarrow> writer_step s s' \<Longrightarrow> reachable s0 s'"
| reader: "reachable s0 s \<Longrightarrow> reader_step s s' \<Longrightarrow> reachable s0 s'"

text \<open>
  The invariant. \<open>taken s\<close> counts the elements the reader has released; the slots of the
  elements from \<open>popped\<close> on hold them, the one the reader is about to move included, and the
  writer has a slot of its own.
\<close>

definition taken :: "'a system \<Rightarrow> nat" where
  "taken s = length (popped s) + (case rpc s of R_taken _ \<Rightarrow> 1 | R_notify _ \<Rightarrow> 1 | _ \<Rightarrow> 0)"

fun writer_ok :: "'a system \<Rightarrow> 'a writer \<Rightarrow> bool" where
  "writer_ok s W_idle = True"
| "writer_ok s (W_loaded wait v w) = (w = write_ix s)"
| "writer_ok s (W_lock v w) = (w = write_ix s)"
| "writer_ok s (W_locked v w) = (w = write_ix s)"
| "writer_ok s (W_decided v w) = (w = write_ix s)"
| "writer_ok s (W_asleep v w) = (w = write_ix s)"
| "writer_ok s (W_space wait v w) = (w = write_ix s \<and> Suc (length (pushed s)) < taken s + length (queue s))"
| "writer_ok s (W_stored wait v w) = (w = write_ix s \<and> queue s ! w = v \<and>
     Suc (length (pushed s)) < taken s + length (queue s))"
| "writer_ok s W_notify = True"

fun reader_ok :: "'a system \<Rightarrow> reader \<Rightarrow> bool" where
  "reader_ok s R_idle = True"
| "reader_ok s (R_loaded wait r) = (r = read_ix s)"
| "reader_ok s (R_lock r) = (r = read_ix s)"
| "reader_ok s (R_locked r) = (r = read_ix s)"
| "reader_ok s (R_decided r) = (r = read_ix s)"
| "reader_ok s (R_asleep r) = (r = read_ix s)"
| "reader_ok s (R_avail wait r) = (r = read_ix s \<and> taken s < length (pushed s))"
| "reader_ok s (R_notify r) = (r = length (popped s) mod length (queue s))"
| "reader_ok s (R_taken r) = (r = length (popped s) mod length (queue s))"

definition system_inv :: "'a system \<Rightarrow> bool" where
  "system_inv s \<longleftrightarrow> queue s \<noteq> [] \<and> read_ix s = taken s mod length (queue s) \<and>
     write_ix s = length (pushed s) mod length (queue s) \<and>
     taken s \<le> length (pushed s) \<and> length (pushed s) < taken s + length (queue s) \<and>
     popped s = take (length (popped s)) (pushed s) \<and>
     (\<forall>i. length (popped s) \<le> i \<and> i < length (pushed s) \<longrightarrow> queue s ! (i mod length (queue s)) = pushed s ! i) \<and>
     writer_ok s (wpc s) \<and> reader_ok s (rpc s)"

lemma writer_ok_mono:
  "writer_ok s pc \<Longrightarrow> write_ix s' = write_ix s \<Longrightarrow> queue s' = queue s \<Longrightarrow> pushed s' = pushed s \<Longrightarrow>
    taken s \<le> taken s' \<Longrightarrow> writer_ok s' pc"
  by (cases pc) auto

lemma reader_ok_mono:
  "reader_ok s pc \<Longrightarrow> read_ix s' = read_ix s \<Longrightarrow> length (queue s') = length (queue s) \<Longrightarrow>
    popped s' = popped s \<Longrightarrow> taken s' = taken s \<Longrightarrow> length (pushed s) \<le> length (pushed s') \<Longrightarrow> reader_ok s' pc"
  by (cases pc) auto

lemma writer_step_taken: "writer_step s s' \<Longrightarrow> taken s' = taken s"
  by (induction rule: writer_step.induct) (auto simp: taken_def split: reader.split)

text \<open>The write into a slot touches no slot that is still in use.\<close>

lemma slot_free:
  assumes "length (popped s) \<le> i" "i < length (pushed s)" "taken s \<le> Suc (length (popped s))"
    "Suc (length (pushed s)) < taken s + length (queue s)"
  shows "length (pushed s) mod length (queue s) \<noteq> i mod length (queue s)"
  using assms by (intro not_sym [OF ring_index_ne]) auto

lemma taken_bound: "length (popped s) \<le> taken s" "taken s \<le> Suc (length (popped s))"
  by (auto simp: taken_def split: reader.split)

lemma writer_step_inv: "writer_step s s' \<Longrightarrow> system_inv s \<Longrightarrow> system_inv s'"
proof (induction rule: writer_step.induct)
  case (w_room s wait v w)
  then have "Suc (length (pushed s)) \<noteq> taken s + length (queue s)"
    by (auto simp: system_inv_def mod_Suc_eq)
  then show ?case
    using w_room writer_step_taken [OF writer_step.w_room [OF w_room(1,2)]]
    by (auto simp: system_inv_def elim: reader_ok_mono)
next
  case (w_pred_true s v w)
  then have "Suc (length (pushed s)) \<noteq> taken s + length (queue s)"
    by (auto simp: system_inv_def mod_Suc_eq)
  then show ?case
    using w_pred_true writer_step_taken [OF writer_step.w_pred_true [OF w_pred_true(1,2)]]
    by (auto simp: system_inv_def elim: reader_ok_mono)
next
  case (w_slot s wait v w)
  note t = writer_step_taken [OF writer_step.w_slot [OF w_slot(1)]]
  have "length (pushed s) mod length (queue s) < length (queue s)"
    using w_slot(2) by (simp add: system_inv_def)
  then show ?case
    using w_slot t slot_free [of s] taken_bound [of s]
    by (auto simp: system_inv_def elim: reader_ok_mono)
next
  case (w_publish s wait v w)
  note t = writer_step_taken [OF writer_step.w_publish [OF w_publish(1)]]
  show ?case
    using w_publish t taken_bound [of s]
    by (auto simp: system_inv_def mod_Suc_eq nth_append less_Suc_eq elim: reader_ok_mono)
next
  case (w_notify s)
  note t = writer_step_taken [OF writer_step.w_notify [OF w_notify(1)]]
  show ?case
    using w_notify t by (cases "rpc s") (auto simp: system_inv_def)
qed (auto simp: system_inv_def taken_def elim: reader_ok_mono split: reader.splits)

text \<open>The reader sees an element exactly when the indices differ.\<close>

lemma item_available:
  assumes "system_inv s" "write_ix s \<noteq> read_ix s"
  shows "taken s < length (pushed s)"
  using assms by (auto simp: system_inv_def le_less)

lemma reader_step_taken: "reader_step s s' \<Longrightarrow> taken s \<le> taken s'"
  by (induction rule: reader_step.induct) (auto simp: taken_def split: reader.split)

lemma reader_step_inv: "reader_step s s' \<Longrightarrow> system_inv s \<Longrightarrow> system_inv s'"
proof (induction rule: reader_step.induct)
  case (r_item s wait r)
  then have "taken s < length (pushed s)" using item_available [of s] by (auto simp: system_inv_def)
  then show ?case using r_item by (auto simp: system_inv_def taken_def elim: writer_ok_mono)
next
  case (r_pred_true s r)
  then have "taken s < length (pushed s)" using item_available [of s] by (auto simp: system_inv_def)
  then show ?case using r_pred_true by (auto simp: system_inv_def taken_def elim: writer_ok_mono)
next
  case (r_publish s wait r)
  then have "taken s = length (popped s)" by (simp add: taken_def)
  then show ?case
    using r_publish by (auto simp: system_inv_def taken_def mod_Suc_eq elim: writer_ok_mono)
next
  case (r_notify s r)
  then show ?case
    by (cases "wpc s") (auto simp: system_inv_def taken_def)
next
  case (r_move s r)
  then have t: "taken s = Suc (length (popped s))" by (simp add: taken_def)
  then have "popped s @ [queue s ! r] = take (Suc (length (popped s))) (pushed s)"
    using r_move by (auto simp: system_inv_def take_Suc_conv_app_nth)
  moreover have "reader_ok s (R_taken r)" using r_move by (simp add: system_inv_def)
  ultimately show ?case
    using r_move t by (auto simp: system_inv_def taken_def elim: writer_ok_mono)
qed (auto simp: system_inv_def taken_def elim: writer_ok_mono)

lemma system_init_inv: "system_inv (system_init BUF_SIZE d)"
  by (simp add: system_inv_def system_init_def taken_def)

lemma reachable_inv: "reachable s0 s \<Longrightarrow> system_inv s0 \<Longrightarrow> system_inv s"
  by (induction rule: reachable.induct) (auto intro: writer_step_inv reader_step_inv)

lemma reachable_capacity: "reachable s0 s \<Longrightarrow> length (queue s) = length (queue s0)"
  by (induction rule: reachable.induct) (auto elim!: writer_step.cases reader_step.cases)

text \<open>The pushed values are the popped ones followed by what the slots hold.\<close>

lemma system_inv_contents:
  assumes "system_inv s"
  shows "pushed s = popped s @
    map (\<lambda>i. queue s ! (i mod length (queue s))) [length (popped s)..<length (pushed s)]"
proof (rule nth_equalityI)
  have le: "length (popped s) \<le> length (pushed s)"
    using assms taken_bound(1) [of s] by (auto simp: system_inv_def)
  then show "length (pushed s) = length (popped s @
      map (\<lambda>i. queue s ! (i mod length (queue s))) [length (popped s)..<length (pushed s)])" by simp
  fix i assume i: "i < length (pushed s)"
  have "popped s ! i = pushed s ! i" if "i < length (popped s)"
    using assms nth_take [OF that, of "pushed s"] by (simp add: system_inv_def)
  then show "pushed s ! i = (popped s @
      map (\<lambda>i. queue s ! (i mod length (queue s))) [length (popped s)..<length (pushed s)]) ! i"
    using assms i le by (auto simp: system_inv_def nth_append)
qed

text \<open>C1: In every interleaving of one writer and one reader, with any mix of the waiting and the
  non-waiting calls, the values popped are a prefix of the values pushed and the slots from the
  first value not popped up to the write index hold the rest, in order; at most \<open>BUF_SIZE\<close> pushed
  values have not been released by the reader, the two indices are the numbers of released and of
  pushed values modulo the ring size, and the element that \<open>pop\<close> moves out after it has published
  the new read index is still the right one.\<close>

theorem circular_queue_fifo:
  assumes "reachable (system_init BUF_SIZE d) s"
  shows "prefix (popped s) (pushed s) \<and> length (pushed s) \<le> taken s + BUF_SIZE \<and>
    taken s \<le> length (pushed s) \<and>
    (\<forall>r. rpc s = R_taken r \<longrightarrow> queue s ! r = pushed s ! length (popped s)) \<and>
    pushed s = popped s @ map (\<lambda>i. queue s ! (i mod (BUF_SIZE + 1))) [length (popped s)..<length (pushed s)] \<and>
    read_ix s = taken s mod (BUF_SIZE + 1) \<and> write_ix s = length (pushed s) mod (BUF_SIZE + 1)"
proof -
  have inv: "system_inv s" by (rule reachable_inv [OF assms system_init_inv])
  have len: "length (queue s) = BUF_SIZE + 1" using reachable_capacity [OF assms] by (simp add: system_init_def)
  have "prefix (popped s) (pushed s)"
    using inv take_is_prefix [of "length (popped s)" "pushed s"] by (simp add: system_inv_def)
  moreover have "queue s ! r = pushed s ! length (popped s)" if "rpc s = R_taken r" for r
    using inv that by (auto simp: system_inv_def taken_def)
  moreover note system_inv_contents [OF inv, unfolded len]
  ultimately show ?thesis using inv len by (auto simp: system_inv_def)
qed

text \<open>
  A lost wake-up. The notification is sent without the mutex, so it can fall between the
  evaluation of the predicate and the sleep: the reader then sleeps although an element is
  there, and the writer has nothing left to do that would wake it.
\<close>

definition notify_state :: "nat \<Rightarrow> 'a \<Rightarrow> 'a \<Rightarrow> 'a system" where
  "notify_state BUF_SIZE d v =
     \<lparr>read_ix = 0, write_ix = 1, queue = (replicate (BUF_SIZE + 1) d)[0 := v], wpc = W_notify,
      rpc = R_decided 0, locked = True, pushed = [v], popped = []\<rparr>"

definition lost_wakeup_state :: "nat \<Rightarrow> 'a \<Rightarrow> 'a \<Rightarrow> 'a system" where
  "lost_wakeup_state BUF_SIZE d v =
     \<lparr>read_ix = 0, write_ix = 1, queue = (replicate (BUF_SIZE + 1) d)[0 := v], wpc = W_idle,
      rpc = R_asleep 0, locked = False, pushed = [v], popped = []\<rparr>"

lemma notify_reachable:
  assumes "0 < BUF_SIZE"
  shows "reachable (system_init BUF_SIZE d) (notify_state BUF_SIZE d v)"
proof -
  let ?q = "replicate (BUF_SIZE + 1) d" and ?q' = "(replicate (BUF_SIZE + 1) d)[0 := v]"
  let ?st = "\<lambda>w q wp rp l ps. \<lparr>read_ix = 0, write_ix = w, queue = q, wpc = wp, rpc = rp, locked = l,
    pushed = ps, popped = []\<rparr> :: 'a system"
  let ?R = "reachable (system_init BUF_SIZE d)"
  have n: "Suc 0 mod Suc BUF_SIZE = Suc 0" using assms by simp
  have "?R (?st 0 ?q W_idle R_idle False [])" using reachable.start by (simp add: system_init_def)
  from reachable.reader [OF this r_load [where wait = True]]
  have "?R (?st 0 ?q W_idle (R_loaded True 0) False [])" by simp
  from reachable.reader [OF this r_must_wait]
  have "?R (?st 0 ?q W_idle (R_lock 0) False [])" by simp
  from reachable.reader [OF this r_lock]
  have "?R (?st 0 ?q W_idle (R_locked 0) True [])" by simp
  from reachable.reader [OF this r_pred_false]
  have "?R (?st 0 ?q W_idle (R_decided 0) True [])" by simp
  from reachable.writer [OF this w_load [where wait = True and v = v]]
  have "?R (?st 0 ?q (W_loaded True v 0) (R_decided 0) True [])" by simp
  from reachable.writer [OF this w_room [where wait = True and v = v]]
  have "?R (?st 0 ?q (W_space True v 0) (R_decided 0) True [])" using assms by (simp add: n)
  from reachable.writer [OF this w_slot]
  have "?R (?st 0 ?q' (W_stored True v 0) (R_decided 0) True [])" by simp
  from reachable.writer [OF this w_publish [where wait = True]]
  show ?thesis using assms by (simp add: n notify_state_def)
qed

lemma notify_too_early: "writer_step (notify_state BUF_SIZE d v) (notify_state BUF_SIZE d v\<lparr>wpc := W_idle\<rparr>)"
  using w_notify [of "notify_state BUF_SIZE d v"] by (simp add: notify_state_def)

lemma sleep_too_late: "reader_step (notify_state BUF_SIZE d v\<lparr>wpc := W_idle\<rparr>) (lost_wakeup_state BUF_SIZE d v)"
  using r_sleep [of "notify_state BUF_SIZE d v\<lparr>wpc := W_idle\<rparr>" 0] by (simp add: notify_state_def lost_wakeup_state_def)

lemma lost_wakeup_reachable:
  "0 < BUF_SIZE \<Longrightarrow> reachable (system_init BUF_SIZE d) (lost_wakeup_state BUF_SIZE d v)"
  by (rule reachable.reader [OF reachable.writer [OF notify_reachable notify_too_early] sleep_too_late])

lemma circular_queue_fifo_witness:
  "let s = lost_wakeup_state 1 0 (7::nat) in
    prefix (popped s) (pushed s) \<and> length (pushed s) \<le> taken s + 1 \<and> taken s \<le> length (pushed s) \<and>
    (\<forall>r. rpc s = R_taken r \<longrightarrow> queue s ! r = pushed s ! length (popped s)) \<and>
    pushed s = popped s @ map (\<lambda>i. queue s ! (i mod (1 + 1))) [length (popped s)..<length (pushed s)] \<and>
    read_ix s = taken s mod (1 + 1) \<and> write_ix s = length (pushed s) mod (1 + 1)"
  unfolding Let_def by (rule circular_queue_fifo [OF lost_wakeup_reachable]) simp

text \<open>C7: \<open>pop_wait\<close> can lose a wake-up. A state is reachable in which the reader has found the queue
  empty and still holds the mutex, while the writer has put its value into the queue and is about
  to notify. The writer notifies without the mutex, which wakes nobody, and its \<open>push_wait\<close> is
  over; then the reader goes to sleep, with the value in the queue, the mutex free, and no step
  left to it but a spurious wake-up.\<close>

theorem pop_wait_lost_wakeup:
  assumes "0 < BUF_SIZE"
  shows "\<exists>s1 s2 s3 r. reachable (system_init BUF_SIZE d) s1 \<and>
    wpc s1 = W_notify \<and> rpc s1 = R_decided r \<and> locked s1 \<and>
    writer_step s1 s2 \<and> s2 = s1\<lparr>wpc := W_idle\<rparr> \<and>
    reader_step s2 s3 \<and> rpc s3 = R_asleep r \<and> wpc s3 = W_idle \<and> \<not> locked s3 \<and>
    \<not> is_empty (circular_queue.truncate s3) \<and> pushed s3 = [v] \<and>
    (\<forall>s4. reader_step s3 s4 \<longrightarrow> s4 = s3\<lparr>rpc := R_lock r\<rparr>)"
proof -
  let ?s1 = "notify_state BUF_SIZE d v" and ?s3 = "lost_wakeup_state BUF_SIZE d v"
  have "s4 = ?s3\<lparr>rpc := R_lock 0\<rparr>" if "reader_step ?s3 s4" for s4
    using that by cases (simp_all add: lost_wakeup_state_def)
  moreover have "\<not> is_empty (circular_queue.truncate ?s3)"
    by (simp add: lost_wakeup_state_def is_empty_def circular_queue.defs)
  ultimately show ?thesis
    using notify_reachable [OF assms] notify_too_early sleep_too_late
    by - (rule exI [of _ ?s1], rule exI [of _ "?s1\<lparr>wpc := W_idle\<rparr>"], rule exI [of _ ?s3],
        auto simp: notify_state_def lost_wakeup_state_def)
qed

lemma pop_wait_lost_wakeup_witness:
  "\<exists>s1 s2 s3 r. reachable (system_init 1 (0::nat)) s1 \<and>
    wpc s1 = W_notify \<and> rpc s1 = R_decided r \<and> locked s1 \<and>
    writer_step s1 s2 \<and> s2 = s1\<lparr>wpc := W_idle\<rparr> \<and>
    reader_step s2 s3 \<and> rpc s3 = R_asleep r \<and> wpc s3 = W_idle \<and> \<not> locked s3 \<and>
    \<not> is_empty (circular_queue.truncate s3) \<and> pushed s3 = [7] \<and>
    (\<forall>s4. reader_step s3 s4 \<longrightarrow> s4 = s3\<lparr>rpc := R_lock r\<rparr>)"
  by (rule pop_wait_lost_wakeup) simp

end
