(* ===== verification/TrieLib.thy ===== *)
theory TrieLib
  imports Prelude "HOL-Library.Sublist"
begin

section \<open>Tries (library/trie.h)\<close>

text \<open>
  \<open>Trie::Node<Label>\<close> with its label operations as parameters (the template specialisations for
  \<open>bool\<close>, \<open>int\<close> and \<open>string\<close> are below), and \<open>BinaryTrie\<close>, which finds the largest XOR of a
  number with the numbers added. The children array of a node is a function from the index; an
  index outside the array is \<open>None\<close>.
\<close>

unbundle bit_operations_syntax

subsection \<open>The model: Trie\<close>

datatype ('k, 'l) node = Node (val: 'l) (child: "'k \<Rightarrow> ('k, 'l) node option")

definition CHILD :: int where
  "CHILD = 26"

definition letter_index :: "char \<Rightarrow> int option" where
  "letter_index c =
     (let next = of_char c - 97 in if 0 \<le> next \<and> next < CHILD then Some next else None)"

text \<open>\<open>setLabel\<close> and \<open>complete\<close> for the three label types.\<close>

definition setLabel_string :: "string \<Rightarrow> string \<Rightarrow> string" where
  "setLabel_string v v2 = v"

definition setLabel_bool :: "string \<Rightarrow> bool \<Rightarrow> bool" where
  "setLabel_bool v v2 = True"

definition setLabel_int :: "string \<Rightarrow> int \<Rightarrow> int" where
  "setLabel_int v v2 = v2"

definition complete_int :: "int \<Rightarrow> bool" where
  "complete_int l = True"

definition complete_bool :: "bool \<Rightarrow> bool" where
  "complete_bool l = l"

definition complete_string :: "string \<Rightarrow> bool" where
  "complete_string l = (l \<noteq> [])"

text \<open>A call with index \<open>idx\<close> works on the rest of the word from there; a fresh node has the
  label \<open>Label{}\<close>.\<close>

fun put :: "(string \<Rightarrow> 'l \<Rightarrow> 'l) \<Rightarrow> 'l \<Rightarrow> string \<Rightarrow> 'l \<Rightarrow> string \<Rightarrow> (int, 'l) node \<Rightarrow> (int, 'l) node option" where
  "put setLabel none word b [] n = Some (Node (setLabel word b) (child n))"
| "put setLabel none word b (c # cs) n = do {
     next \<leftarrow> letter_index c;
     let target = (case child n next of None \<Rightarrow> Node none (\<lambda>_. None) | Some t \<Rightarrow> t);
     target \<leftarrow> put setLabel none word b cs target;
     Some (Node (val n) ((child n)(next := Some target)))
   }"

text \<open>\<open>find_prefix\<close> returns a node or a null pointer, the inner option.\<close>

fun find_prefix :: "string \<Rightarrow> (int, 'l) node \<Rightarrow> (int, 'l) node option option" where
  "find_prefix [] n = Some (Some n)"
| "find_prefix (c # cs) n = do {
     next \<leftarrow> letter_index c;
     case child n next of None \<Rightarrow> Some None | Some t \<Rightarrow> find_prefix cs t
   }"

definition trie_find :: "string \<Rightarrow> (int, bool) node \<Rightarrow> bool option" where
  "trie_find word n = do {
     r \<leftarrow> find_prefix word n;
     Some (case r of None \<Rightarrow> False | Some t \<Rightarrow> val t)
   }"

text \<open>A point in the pattern tries the children in their order and stops at the first match.\<close>

fun first_match :: "((int, 'l) node \<Rightarrow> bool option) \<Rightarrow> (int, 'l) node option list \<Rightarrow> bool option" where
  "first_match f [] = Some False"
| "first_match f (c # cs) = (case c of None \<Rightarrow> first_match f cs
     | Some t \<Rightarrow> do { b \<leftarrow> f t; if b then Some True else first_match f cs })"

fun find_wild :: "('l \<Rightarrow> bool) \<Rightarrow> string \<Rightarrow> (int, 'l) node \<Rightarrow> bool option" where
  "find_wild complete [] n = Some (complete (val n))"
| "find_wild complete (c # cs) n =
     (if c = CHR ''.'' then first_match (find_wild complete cs) (map (child n) [0..CHILD - 1])
      else do {
        idx \<leftarrow> letter_index c;
        case child n idx of None \<Rightarrow> Some False | Some t \<Rightarrow> find_wild complete cs t
      })"

subsection \<open>The model: BinaryTrie\<close>

record BinaryTrie =
  root :: "(int, int) node"
  binary :: "int list"

definition BinaryTrie_init :: "int \<Rightarrow> BinaryTrie" where
  "BinaryTrie_init bits = \<lparr>root = Node 0 (\<lambda>_. None), binary = replicate (nat bits) 0\<rparr>"

function num_to_binary_loop :: "int \<Rightarrow> int \<Rightarrow> int list \<Rightarrow> int list option" where
  "num_to_binary_loop num index b =
     (if num > 0 then do {
        b \<leftarrow> ivec_upd b index (num mod 2);
        num_to_binary_loop (num div 2) (index - 1) b
      }
      else Some b)"
  by pat_completeness auto
termination
  by (relation "measure (\<lambda>(num, index, b). nat num)") auto

declare num_to_binary_loop.simps [simp del]

definition num_to_binary :: "BinaryTrie \<Rightarrow> int \<Rightarrow> BinaryTrie option" where
  "num_to_binary this num = do {
     let b = replicate (length (binary this)) 0;
     b \<leftarrow> num_to_binary_loop num (int (length b) - 1) b;
     Some (this\<lparr>binary := b\<rparr>)
   }"

fun binary_put :: "int list \<Rightarrow> (int, int) node \<Rightarrow> (int, int) node" where
  "binary_put [] n = n"
| "binary_put (d # ds) n =
     (let target = (case child n d of None \<Rightarrow> Node d (\<lambda>_. None) | Some t \<Rightarrow> t)
      in Node (val n) ((child n)(d := Some (binary_put ds target))))"

fun xor_max_loop :: "int list \<Rightarrow> int \<Rightarrow> (int, 'l) node \<Rightarrow> int option" where
  "xor_max_loop [] value n = Some value"
| "xor_max_loop (x # ds) value n =
     (let d = 1 - x in
      case child n d of
        Some t \<Rightarrow> xor_max_loop ds (value * 2 + d) t
      | None \<Rightarrow>
          let d = 1 - d in
          case child n d of Some t \<Rightarrow> xor_max_loop ds (value * 2 + d) t | None \<Rightarrow> None)"

definition add_num :: "BinaryTrie \<Rightarrow> int \<Rightarrow> BinaryTrie option" where
  "add_num this num = do {
     this \<leftarrow> num_to_binary this num;
     Some (this\<lparr>root := binary_put (binary this) (root this)\<rparr>)
   }"

definition find_xor_max :: "BinaryTrie \<Rightarrow> int \<Rightarrow> (BinaryTrie \<times> int) option" where
  "find_xor_max this num = do {
     this \<leftarrow> num_to_binary this num;
     found \<leftarrow> xor_max_loop (binary this) 0 (root this);
     Some (this, i32 (num XOR found))
   }"

subsection \<open>Paths\<close>

fun walk :: "('k, 'l) node \<Rightarrow> 'k list \<Rightarrow> ('k, 'l) node option" where
  "walk n [] = Some n"
| "walk n (k # ks) = (case child n k of None \<Rightarrow> None | Some t \<Rightarrow> walk t ks)"

lemma walk_fresh: "walk (Node v (\<lambda>_. None)) ks = (if ks = [] then Some (Node v (\<lambda>_. None)) else None)"
  by (cases ks) auto

definition letters :: "string \<Rightarrow> bool" where
  "letters w \<longleftrightarrow> (\<forall>c \<in> set w. letter_index c \<noteq> None)"

definition index_of :: "char \<Rightarrow> int" where
  "index_of c = of_char c - 97"

lemma letters_simps [simp]:
  "letters []" "letters (c # w) \<longleftrightarrow> letter_index c \<noteq> None \<and> letters w"
  by (auto simp: letters_def)

lemma letter_index_Some: "letter_index c \<noteq> None \<Longrightarrow> letter_index c = Some (index_of c)"
  by (auto simp: letter_index_def index_of_def Let_def split: if_splits)

lemma index_of_range: "letter_index c \<noteq> None \<Longrightarrow> index_of c \<in> {0..CHILD - 1}"
  by (auto simp: letter_index_def index_of_def Let_def split: if_splits)

lemma index_of_eq [simp]: "index_of c = index_of d \<longleftrightarrow> c = d"
  by (auto simp: index_of_def)

lemma find_prefix_walk: "letters w \<Longrightarrow> find_prefix w n = Some (walk n (map index_of w))"
  by (induction w n rule: find_prefix.induct) (auto simp: letter_index_Some split: option.split)

definition label :: "('k, 'l) node \<Rightarrow> 'k list \<Rightarrow> 'l option" where
  "label n ks = map_option val (walk n ks)"

lemma label_simps [simp]:
  "label n [] = Some (val n)"
  "label n (k # ks) = (case child n k of None \<Rightarrow> None | Some t \<Rightarrow> label t ks)"
  by (auto simp: label_def split: option.split)

lemma label_fresh [simp]: "label (Node v (\<lambda>_. None)) ks = (if ks = [] then Some v else None)"
  by (cases ks) auto

lemma put_label:
  "letters cs \<Longrightarrow> \<exists>n'. put f none word b cs n = Some n' \<and>
    (\<forall>ks. label n' ks =
      (if ks = map index_of cs then Some (f word b)
       else if label n ks = None \<and> prefix ks (map index_of cs) then Some none
       else label n ks))"
proof (induction cs arbitrary: n)
  case Nil
  have "label (Node v (child n)) ks = (if ks = [] then Some v else label n ks)" for v ks
    by (cases ks) auto
  then show ?case by auto
next
  case (Cons c cs)
  let ?t = "case child n (index_of c) of None \<Rightarrow> Node none (\<lambda>_. None) | Some t \<Rightarrow> t"
  obtain t' where t': "put f none word b cs ?t = Some t'"
    "\<And>ks. label t' ks =
      (if ks = map index_of cs then Some (f word b)
       else if label ?t ks = None \<and> prefix ks (map index_of cs) then Some none else label ?t ks)"
    using Cons.IH [of ?t] Cons.prems by auto
  let ?n = "Node (val n) ((child n)(index_of c := Some t'))"
  have "label ?n ks = (if ks = map index_of (c # cs) then Some (f word b)
      else if label n ks = None \<and> prefix ks (map index_of (c # cs)) then Some none else label n ks)" for ks
  proof (cases ks)
    case (Cons k ks')
    then show ?thesis
      using t'(2) [of ks'] by (cases "child n (index_of c)") auto
  qed simp
  then show ?case
    using Cons.prems t'(1) by (simp add: letter_index_Some Let_def)
qed

text \<open>Building a trie from a list of words.\<close>

fun put_all :: "(string \<Rightarrow> 'l \<Rightarrow> 'l) \<Rightarrow> 'l \<Rightarrow> (string \<times> 'l) list \<Rightarrow> (int, 'l) node \<Rightarrow> (int, 'l) node option" where
  "put_all f none [] n = Some n"
| "put_all f none ((w, b) # ws) n = do { n \<leftarrow> put f none w b w n; put_all f none ws n }"

lemma put_all_bool:
  "\<forall>(w, b) \<in> set ws. letters w \<Longrightarrow> \<exists>n'. put_all setLabel_bool False ws n = Some n' \<and>
    (\<forall>ks. label n' ks = (if ks \<in> (\<lambda>(w, b). map index_of w) ` set ws then Some True
       else if label n ks = None \<and> (\<exists>(w, b) \<in> set ws. prefix ks (map index_of w)) then Some False
       else label n ks))"
proof (induction ws arbitrary: n)
  case (Cons wb ws)
  obtain w b where wb: "wb = (w, b)" by (cases wb)
  obtain n1 where n1: "put setLabel_bool False w b w n = Some n1"
    "\<And>ks. label n1 ks = (if ks = map index_of w then Some True
       else if label n ks = None \<and> prefix ks (map index_of w) then Some False else label n ks)"
    using put_label [of w setLabel_bool False w b n] Cons.prems by (auto simp: wb setLabel_bool_def)
  obtain n2 where "put_all setLabel_bool False ws n1 = Some n2"
    "\<And>ks. label n2 ks = (if ks \<in> (\<lambda>(w, b). map index_of w) ` set ws then Some True
       else if label n1 ks = None \<and> (\<exists>(w, b) \<in> set ws. prefix ks (map index_of w)) then Some False
       else label n1 ks)"
    using Cons.IH [of n1] Cons.prems by auto
  then show ?case using n1 by (auto simp: wb)
qed simp

text \<open>Wild-card search.\<close>

definition matches :: "string \<Rightarrow> string \<Rightarrow> bool" where
  "matches pat w \<longleftrightarrow> list_all2 (\<lambda>p c. p = CHR ''.'' \<or> p = c) pat w"

lemma first_match_ex:
  "\<forall>t. Some t \<in> set cs \<longrightarrow> f t = Some (g t) \<Longrightarrow> first_match f cs = Some (\<exists>t. Some t \<in> set cs \<and> g t)"
proof (induction cs)
  case (Cons c cs)
  then show ?case by (cases c) auto
qed simp

definition fits :: "string \<Rightarrow> int list \<Rightarrow> bool" where
  "fits pat ks \<longleftrightarrow> list_all2 (\<lambda>p k. if p = CHR ''.'' then k \<in> {0..CHILD - 1} else k = index_of p) pat ks"

lemma fits_Cons:
  "fits (p # pat) ks \<longleftrightarrow>
    (\<exists>k ks'. ks = k # ks' \<and> (if p = CHR ''.'' then k \<in> {0..CHILD - 1} else k = index_of p) \<and> fits pat ks')"
  by (auto simp: fits_def list_all2_Cons1)

lemma point_no_letter: "letter_index (CHR ''.'') = None"
  by (simp add: letter_index_def)

lemma children_ex:
  "(\<exists>t. Some t \<in> set (map f [a..b]) \<and> Q t) \<longleftrightarrow> (\<exists>k t. k \<in> {a..b} \<and> f k = Some t \<and> Q t)"
  by force

lemma find_wild_fits:
  "letters (filter (\<lambda>c. c \<noteq> CHR ''.'') pat) \<Longrightarrow>
    find_wild complete pat n = Some (\<exists>ks l. fits pat ks \<and> label n ks = Some l \<and> complete l)"
proof (induction complete pat n rule: find_wild.induct)
  case (1 complete n)
  then show ?case by (auto simp: fits_def)
next
  case (2 complete c cs n)
  have fits: "(\<exists>ks l. fits (c # cs) ks \<and> label n ks = Some l \<and> complete l) \<longleftrightarrow>
      (\<exists>k t. (if c = CHR ''.'' then k \<in> {0..CHILD - 1} else k = index_of c) \<and> child n k = Some t \<and>
        (\<exists>ks l. fits cs ks \<and> label t ks = Some l \<and> complete l))"
  proof -
    have "label n (k # ks) = Some l \<longleftrightarrow> (\<exists>t. child n k = Some t \<and> label t ks = Some l)" for k ks l
      by (simp split: option.split)
    then show ?thesis unfolding fits_Cons by blast
  qed
  show ?case
  proof (cases "c = CHR ''.''")
    case True
    have "first_match (find_wild complete cs) (map (child n) [0..CHILD - 1]) =
        Some (\<exists>t. Some t \<in> set (map (child n) [0..CHILD - 1]) \<and>
          (\<exists>ks l. fits cs ks \<and> label t ks = Some l \<and> complete l))"
      using "2.IH"(1) [OF True] "2.prems" True by (intro first_match_ex) auto
    then show ?thesis unfolding find_wild.simps fits children_ex by (simp only: True if_True refl)
  next
    case False
    then have idx: "letter_index c = Some (index_of c)" using "2.prems" by (auto intro: letter_index_Some)
    show ?thesis
      using "2.IH"(2) [OF False idx] "2.prems" False fits idx
      by (cases "child n (index_of c)") auto
  qed
qed

lemma fits_matches: "letters w \<Longrightarrow> fits pat (map index_of w) \<longleftrightarrow> matches pat w"
proof (induction pat arbitrary: w)
  case (Cons p pat)
  then show ?case
    using index_of_range by (cases w) (auto simp: fits_def matches_def list_all2_Cons1)
qed (auto simp: fits_def matches_def)

lemma map_index_of_eq [simp]: "map index_of v = map index_of w \<longleftrightarrow> v = w"
  by (rule inj_map_eq_map) (simp add: inj_def)

lemma prefix_map_index_of [simp]: "prefix (map index_of v) (map index_of w) \<longleftrightarrow> prefix v w"
proof (induction v arbitrary: w)
  case (Cons a v)
  then show ?case by (cases w) simp_all
qed simp

text \<open>The labels of the trie that a list of words builds.\<close>

lemma words_trie:
  assumes "\<forall>(w, b) \<in> set ws. letters w"
  obtains n where "put_all setLabel_bool False ws (Node False (\<lambda>_. None)) = Some n"
    "\<And>ks. label n ks = Some True \<longleftrightarrow> ks \<in> map index_of ` fst ` set ws"
    "\<And>p. label n (map index_of p) \<noteq> None \<longleftrightarrow> p = [] \<or> (\<exists>w \<in> fst ` set ws. prefix p w)"
proof -
  let ?W = "fst ` set ws"
  have W: "(\<lambda>(w, b). map index_of w) ` set ws = map index_of ` ?W"
    "(\<exists>(w, b) \<in> set ws. prefix ks (map index_of w)) \<longleftrightarrow> (\<exists>w \<in> ?W. prefix ks (map index_of w))" for ks
    by (force simp: image_iff)+
  obtain n where n: "put_all setLabel_bool False ws (Node False (\<lambda>_. None)) = Some n"
    "\<And>ks. label n ks = (if ks \<in> map index_of ` ?W then Some True
       else if (if ks = [] then Some False else None) = None \<and> (\<exists>w \<in> ?W. prefix ks (map index_of w))
         then Some False
       else if ks = [] then Some False else None)"
    using put_all_bool [OF assms, of "Node False (\<lambda>_. None)", unfolded label_fresh W] by blast
  have inW: "map index_of w \<in> map index_of ` ?W \<longleftrightarrow> w \<in> ?W" for w
    by (rule inj_image_mem_iff) (simp add: inj_def)
  have "label n ks = Some True \<longleftrightarrow> ks \<in> map index_of ` ?W" for ks unfolding n(2) by simp
  moreover have "label n (map index_of p) \<noteq> None \<longleftrightarrow> p = [] \<or> (\<exists>w \<in> ?W. prefix p w)" for p
    unfolding n(2) inW by auto
  ultimately show thesis by (rule that [OF n(1)])
qed

lemma words_fit:
  assumes "\<forall>(w, b) \<in> set ws. letters w" "\<And>ks. label n ks = Some True \<longleftrightarrow> ks \<in> map index_of ` fst ` set ws"
  shows "(\<exists>ks l. fits pat ks \<and> label n ks = Some l \<and> complete_bool l) \<longleftrightarrow> (\<exists>w \<in> fst ` set ws. matches pat w)"
proof -
  have "(label n ks = Some l \<and> l) = (ks \<in> map index_of ` fst ` set ws \<and> l)" for ks l
    using assms(2) [of ks] by (cases l) auto
  then have "(\<exists>ks l. fits pat ks \<and> label n ks = Some l \<and> complete_bool l) \<longleftrightarrow>
      (\<exists>ks. fits pat ks \<and> ks \<in> map index_of ` fst ` set ws)"
    unfolding complete_bool_def by (simp add: ex_bool_eq)
  moreover have "fits pat (map index_of w) \<longleftrightarrow> matches pat w" if "w \<in> fst ` set ws" for w
    using that assms(1) by (intro fits_matches) auto
  ultimately show ?thesis by blast
qed

text \<open>C8: After any list of lower-case words has been put into a \<open>Trie::Node<bool>\<close>, \<open>find\<close> answers
  membership, \<open>find_prefix\<close> answers whether some word has the prefix, and \<open>find_wild\<close> whether some
  word matches the pattern with points for single letters.\<close>

theorem trie_words_correct:
  assumes "\<forall>(w, b) \<in> set ws. letters w"
  shows "\<exists>n. put_all setLabel_bool False ws (Node False (\<lambda>_. None)) = Some n \<and>
    (\<forall>w. letters w \<longrightarrow> trie_find w n = Some (w \<in> fst ` set ws)) \<and>
    (\<forall>p. letters p \<longrightarrow> (\<exists>r. find_prefix p n = Some r \<and> (r \<noteq> None \<longleftrightarrow> p = [] \<or> (\<exists>w \<in> fst ` set ws. prefix p w)))) \<and>
    (\<forall>pat. letters (filter (\<lambda>c. c \<noteq> CHR ''.'') pat) \<longrightarrow>
      find_wild complete_bool pat n = Some (\<exists>w \<in> fst ` set ws. matches pat w))"
proof -
  obtain n where n: "put_all setLabel_bool False ws (Node False (\<lambda>_. None)) = Some n"
    "\<And>ks. label n ks = Some True \<longleftrightarrow> ks \<in> map index_of ` fst ` set ws"
    "\<And>p. label n (map index_of p) \<noteq> None \<longleftrightarrow> p = [] \<or> (\<exists>w \<in> fst ` set ws. prefix p w)"
    by (rule words_trie [OF assms]) blast
  have lab: "label n (map index_of w) = Some True \<longleftrightarrow> w \<in> fst ` set ws" for w
    unfolding n(2) by (rule inj_image_mem_iff) (simp add: inj_def)
  have A: "trie_find w n = Some (w \<in> fst ` set ws)" if "letters w" for w
    using lab [of w] find_prefix_walk [OF that, of n]
    by (auto simp: trie_find_def label_def split: option.splits)
  have B: "\<exists>r. find_prefix p n = Some r \<and> (r \<noteq> None \<longleftrightarrow> p = [] \<or> (\<exists>w \<in> fst ` set ws. prefix p w))"
    if "letters p" for p
    using find_prefix_walk [OF that, of n] n(3) [of p] by (auto simp: label_def)
  have C: "find_wild complete_bool pat n = Some (\<exists>w \<in> fst ` set ws. matches pat w)"
    if "letters (filter (\<lambda>c. c \<noteq> CHR ''.'') pat)" for pat
    unfolding find_wild_fits [OF that] by (rule arg_cong [OF words_fit [OF assms n(2)]])
  show ?thesis by (intro exI [of _ n] conjI allI impI n(1) A B C)
qed

lemma trie_words_correct_witness:
  "\<exists>n. put_all setLabel_bool False [(''bad'', True), (''dad'', True)] (Node False (\<lambda>_. None)) = Some n \<and>
    (\<forall>w. letters w \<longrightarrow> trie_find w n = Some (w \<in> fst ` set [(''bad'', True), (''dad'', True)])) \<and>
    (\<forall>p. letters p \<longrightarrow> (\<exists>r. find_prefix p n = Some r \<and>
      (r \<noteq> None \<longleftrightarrow> p = [] \<or> (\<exists>w \<in> fst ` set [(''bad'', True), (''dad'', True)]. prefix p w)))) \<and>
    (\<forall>pat. letters (filter (\<lambda>c. c \<noteq> CHR ''.'') pat) \<longrightarrow> find_wild complete_bool pat n =
      Some (\<exists>w \<in> fst ` set [(''bad'', True), (''dad'', True)]. matches pat w))"
  by (rule trie_words_correct) (simp add: letter_index_def CHILD_def)

subsection \<open>BinaryTrie\<close>

fun bits :: "nat \<Rightarrow> int \<Rightarrow> int list" where
  "bits 0 x = []"
| "bits (Suc n) x = bits n (x div 2) @ [x mod 2]"

definition horner :: "int \<Rightarrow> int list \<Rightarrow> int" where
  "horner v ds = foldl (\<lambda>a d. a * 2 + d) v ds"

lemma length_bits [simp]: "length (bits n x) = n"
  by (induction n x rule: bits.induct) auto

lemma set_bits: "set (bits n x) \<subseteq> {0, 1}"
  by (induction n x rule: bits.induct) auto

lemma bits_zero [simp]: "bits n 0 = replicate n 0"
  by (induction n) (auto simp: replicate_append_same)

lemma horner_bits: "0 \<le> x \<Longrightarrow> x < 2 ^ n \<Longrightarrow> horner 0 (bits n x) = x"
proof (induction n x rule: bits.induct)
  case (2 n x)
  then have "horner 0 (bits n (x div 2)) = x div 2" by (intro "2.IH") auto
  then show ?case by (simp add: horner_def)
qed (simp add: horner_def)

lemma num_to_binary_loop_bits:
  "0 \<le> num \<Longrightarrow> num < 2 ^ n \<Longrightarrow>
    num_to_binary_loop num (int n - 1) (replicate n 0 @ tail) = Some (bits n num @ tail)"
proof (induction n arbitrary: num tail)
  case 0
  then show ?case by (subst num_to_binary_loop.simps) simp
next
  case (Suc n)
  have "num_to_binary_loop (num div 2) (int n - 1) (replicate n 0 @ (num mod 2) # tail) =
      Some (bits n (num div 2) @ (num mod 2) # tail)"
    using Suc.prems by (intro Suc.IH) auto
  moreover have "(replicate (Suc n) 0 @ tail)[n := num mod 2] = replicate n 0 @ (num mod 2) # tail"
    by (simp add: replicate_append_same [symmetric] list_update_append)
  ultimately show ?case
    using Suc.prems by (subst num_to_binary_loop.simps) (auto simp: replicate_append_same)
qed

lemma num_to_binary_bits:
  assumes "0 \<le> num" "num < 2 ^ length (binary t)"
  shows "num_to_binary t num = Some (t\<lparr>binary := bits (length (binary t)) num\<rparr>)"
  using num_to_binary_loop_bits [OF assms, of "[]"] by (simp add: num_to_binary_def Let_def)

lemma binary_put_walk: "walk (binary_put ds n) ks \<noteq> None \<longleftrightarrow> walk n ks \<noteq> None \<or> prefix ks ds"
proof (induction ds n arbitrary: ks rule: binary_put.induct)
  case (1 n)
  then show ?case by (cases ks) auto
next
  case (2 d ds n)
  note IH = "2.IH" [OF refl]
  show ?case
  proof (cases ks)
    case (Cons k ks')
    then show ?thesis using IH [of ks'] by (cases "child n d") (auto simp: Let_def walk_fresh)
  qed simp
qed

text \<open>The XOR of two numbers, digit by digit.\<close>

fun bit_xor :: "int list \<Rightarrow> int list \<Rightarrow> int list" where
  "bit_xor (x # xs) (y # ys) = (if x = y then 0 else 1) # bit_xor xs ys"
| "bit_xor xs ys = []"

lemma length_bit_xor [simp]: "length (bit_xor xs ys) = min (length xs) (length ys)"
  by (induction xs ys rule: bit_xor.induct) auto

lemma set_bit_xor: "set (bit_xor xs ys) \<subseteq> {0, 1}"
  by (induction xs ys rule: bit_xor.induct) auto

lemma bit_xor_snoc:
  "length xs = length ys \<Longrightarrow> bit_xor (xs @ [x]) (ys @ [y]) = bit_xor xs ys @ [if x = y then 0 else 1]"
  by (induction xs ys rule: bit_xor.induct) auto

lemma horner_bit_xor: "horner 0 (bit_xor (bits n x) (bits n y)) = horner 0 (bits n x) XOR horner 0 (bits n y)"
proof (induction n arbitrary: x y)
  case (Suc n)
  have gen: "(a * 2 + p) XOR (b * 2 + q) = (a XOR b) * 2 + (if p = q then 0 else 1)"
    if "p \<in> {0, 1}" "q \<in> {0, 1}" for a b p q :: int
    using that by (subst xor_rec) (auto simp: even_mult_iff)
  have "z mod 2 \<in> {0, 1}" for z :: int by auto
  note step = gen [OF this this]
  have snoc: "horner 0 (ds @ [d]) = horner 0 ds * 2 + d" for ds d by (simp add: horner_def)
  show ?case
    unfolding bits.simps bit_xor_snoc [OF length_bits [THEN trans, OF length_bits [symmetric]]] snoc
      step Suc.IH ..
qed (simp add: horner_def)

lemma horner_cons: "horner v ds = v * 2 ^ length ds + horner 0 ds"
proof (induction ds arbitrary: v)
  case (Cons d ds)
  show ?case
    using Cons.IH [of "v * 2 + d"] Cons.IH [of d] by (simp add: horner_def algebra_simps)
qed (simp add: horner_def)

lemma horner_bound: "set ds \<subseteq> {0, 1} \<Longrightarrow> 0 \<le> horner 0 ds \<and> horner 0 ds < 2 ^ length ds"
proof (induction ds)
  case (Cons d ds)
  then show ?case using horner_cons [of d ds] by (auto simp: horner_def)
qed (simp add: horner_def)

text \<open>A trie whose paths are the prefixes of the digit lists of \<open>S\<close>.\<close>

definition holds_paths :: "(int, 'l) node \<Rightarrow> int list set \<Rightarrow> bool" where
  "holds_paths t S \<longleftrightarrow> (\<forall>ks. walk t ks \<noteq> None \<longleftrightarrow> ks = [] \<or> (\<exists>w \<in> S. prefix ks w))"

lemma holds_paths_child:
  assumes "holds_paths t S" "child t d = Some c"
  shows "holds_paths c {w. d # w \<in> S}" "\<exists>w. d # w \<in> S"
proof -
  have w: "walk c ks \<noteq> None \<longleftrightarrow> (\<exists>w \<in> S. prefix (d # ks) w)" for ks
    using assms unfolding holds_paths_def by (metis list.discI option.simps(5) walk.simps(2))
  have cons: "(\<exists>w \<in> S. prefix (d # ks) w) \<longleftrightarrow> (\<exists>w. d # w \<in> S \<and> prefix ks w)" for ks
    by (metis Cons_prefix_Cons prefix_def append_Cons)
  show "\<exists>w. d # w \<in> S" using w [of "[]"] cons [of "[]"] by auto
  then show "holds_paths c {w. d # w \<in> S}" unfolding holds_paths_def w cons by auto
qed

lemma holds_paths_no_child:
  assumes "holds_paths t S" "child t d = None"
  shows "d # w \<notin> S"
  using assms unfolding holds_paths_def
  by (metis append_Cons append_Nil list.discI option.simps(4) prefix_def walk.simps(2))

text \<open>The path that the greedy search takes.\<close>

fun xor_path :: "int list \<Rightarrow> (int, 'l) node \<Rightarrow> int list option" where
  "xor_path [] n = Some []"
| "xor_path (x # ds) n =
     (case child n (1 - x) of
        Some t \<Rightarrow> map_option ((#) (1 - x)) (xor_path ds t)
      | None \<Rightarrow> (case child n x of Some t \<Rightarrow> map_option ((#) x) (xor_path ds t) | None \<Rightarrow> None))"

lemma xor_max_loop_path: "xor_max_loop ds v t = map_option (horner v) (xor_path ds t)"
  by (induction ds v t rule: xor_max_loop.induct)
     (auto simp: horner_def Let_def option.map_comp comp_def split: option.split)

lemma xor_path_max:
  "holds_paths t S \<Longrightarrow> S \<noteq> {} \<Longrightarrow> \<forall>w \<in> S. length w = length ds \<and> set w \<subseteq> {0, 1} \<Longrightarrow> set ds \<subseteq> {0, 1} \<Longrightarrow>
    \<exists>p \<in> S. xor_path ds t = Some p \<and>
      (\<forall>w \<in> S. horner 0 (bit_xor ds w) \<le> horner 0 (bit_xor ds p))"
proof (induction ds arbitrary: t S)
  case Nil
  then have "S = {[]}" by auto
  then show ?case by (simp add: horner_def)
next
  case (Cons x ds)
  let ?d = "1 - x"
  have digit: "hd w \<in> {x, ?d} \<and> w \<noteq> []" if "w \<in> S" for w
    using Cons.prems(3,4) that by (cases w) auto
  have cmp: "horner 0 (bit_xor (x # ds) (y # w)) =
      (if x = y then 0 else 2 ^ length ds) + horner 0 (bit_xor ds w)" if "y # w \<in> S" for y w
    using Cons.prems(3) that horner_cons [of 1 "bit_xor ds w"] by (auto simp: horner_def)
  have bound: "horner 0 (bit_xor ds w) < 2 ^ length ds \<and> 0 \<le> horner 0 (bit_xor ds w)"
    if "y # w \<in> S" for y w
    using horner_bound [OF set_bit_xor, of ds w] Cons.prems(3) that by auto
  have IH: "\<exists>p. y # p \<in> S \<and> xor_path ds c = Some p \<and>
      (\<forall>w. y # w \<in> S \<longrightarrow> horner 0 (bit_xor ds w) \<le> horner 0 (bit_xor ds p))"
    if "child t y = Some c" for y c
  proof -
    note h = holds_paths_child [OF Cons.prems(1) that]
    have "\<forall>w \<in> {w. y # w \<in> S}. length w = length ds \<and> set w \<subseteq> {0, 1}" using Cons.prems(3) by fastforce
    then have "\<exists>p \<in> {w. y # w \<in> S}. xor_path ds c = Some p \<and>
        (\<forall>w \<in> {w. y # w \<in> S}. horner 0 (bit_xor ds w) \<le> horner 0 (bit_xor ds p))"
      using h Cons.prems(4) by (intro Cons.IH) auto
    then show ?thesis by blast
  qed
  show ?case
  proof (cases "child t ?d")
    case (Some c)
    obtain p where p: "?d # p \<in> S" "xor_path ds c = Some p"
      "\<And>w. ?d # w \<in> S \<Longrightarrow> horner 0 (bit_xor ds w) \<le> horner 0 (bit_xor ds p)"
      using IH [OF Some] by blast
    have "horner 0 (bit_xor (x # ds) w) \<le> horner 0 (bit_xor (x # ds) (?d # p))" if w: "w \<in> S" for w
    proof -
      obtain y w' where y: "w = y # w'" "y \<in> {x, ?d}" using digit [OF w] by (cases w) auto
      have yw: "y # w' \<in> S" using w y(1) by simp
      have "x \<noteq> ?d" by presburger
      then show ?thesis
        unfolding y(1) cmp [OF yw] cmp [OF p(1)]
        using p(3) [of w'] bound [OF yw] bound [OF p(1)] yw y(2) by (cases "y = x") auto
    qed
    then show ?thesis using p Some by (intro bexI [of _ "?d # p"]) simp_all
  next
    case None
    then have only: "\<And>w. ?d # w \<notin> S" using holds_paths_no_child [OF Cons.prems(1)] by blast
    then have all: "hd w = x \<and> w \<noteq> []" if "w \<in> S" for w using digit [OF that] that by (cases w) auto
    obtain w0 where "x # w0 \<in> S" using Cons.prems(2) all by (metis ex_in_conv list.collapse)
    then obtain c where c: "child t x = Some c"
      using holds_paths_no_child [OF Cons.prems(1), of x w0] by (cases "child t x") auto
    obtain p where p: "x # p \<in> S" "xor_path ds c = Some p"
      "\<And>w. x # w \<in> S \<Longrightarrow> horner 0 (bit_xor ds w) \<le> horner 0 (bit_xor ds p)"
      using IH [OF c] by blast
    have "horner 0 (bit_xor (x # ds) w) \<le> horner 0 (bit_xor (x # ds) (x # p))" if w: "w \<in> S" for w
    proof -
      obtain w' where w': "w = x # w'" using all [OF w] by (cases w) auto
      then have xw: "x # w' \<in> S" using w by simp
      show ?thesis unfolding w' cmp [OF xw] cmp [OF p(1)] using p(3) [OF xw] by simp
    qed
    then show ?thesis using p None c by (intro bexI [of _ "x # p"]) simp_all
  qed
qed

fun add_all :: "BinaryTrie \<Rightarrow> int list \<Rightarrow> BinaryTrie option" where
  "add_all t [] = Some t"
| "add_all t (x # xs) = do { t \<leftarrow> add_num t x; add_all t xs }"

lemma add_all_paths:
  "\<forall>x \<in> set xs. 0 \<le> x \<and> x < 2 ^ length (binary t) \<Longrightarrow> holds_paths (root t) S \<Longrightarrow>
    \<exists>t'. add_all t xs = Some t' \<and> length (binary t') = length (binary t) \<and>
      holds_paths (root t') (S \<union> bits (length (binary t)) ` set xs)"
proof (induction xs arbitrary: t S)
  case (Cons x xs)
  let ?n = "length (binary t)"
  let ?t = "\<lparr>root = binary_put (bits ?n x) (root t), binary = bits ?n x\<rparr>"
  have t: "add_num t x = Some ?t"
    using num_to_binary_bits [of x t] Cons.prems(1) by (cases t) (simp add: add_num_def)
  have "holds_paths (root ?t) (insert (bits ?n x) S)"
    using Cons.prems(2) unfolding holds_paths_def BinaryTrie.select_convs binary_put_walk by auto
  then obtain t' where "add_all ?t xs = Some t'" "length (binary t') = length (binary ?t)"
    "holds_paths (root t') (insert (bits ?n x) S \<union> bits (length (binary ?t)) ` set xs)"
    using Cons.IH [of ?t "insert (bits ?n x) S"] Cons.prems(1) by auto
  then show ?case using t by simp
qed simp

text \<open>C27: After any non-empty list of numbers below \<open>2 ^ b\<close> has been added to a \<open>BinaryTrie\<close> of \<open>b\<close>
  digits, \<open>find_xor_max\<close> returns the largest XOR of its argument with an added number.\<close>

theorem BinaryTrie_xor_max:
  assumes "b \<le> 31" "xs \<noteq> []" "\<forall>x \<in> set xs. 0 \<le> x \<and> x < 2 ^ b" "0 \<le> y" "y < 2 ^ b"
  shows "\<exists>t t'. add_all (BinaryTrie_init (int b)) xs = Some t \<and>
    find_xor_max t y = Some (t', Max ((\<lambda>x. y XOR x) ` set xs))"
proof -
  let ?t0 = "BinaryTrie_init (int b)"
  have len0: "length (binary ?t0) = b" by (simp add: BinaryTrie_init_def)
  have "holds_paths (root ?t0) {}" by (auto simp: holds_paths_def BinaryTrie_init_def walk_fresh)
  then obtain t where t: "add_all ?t0 xs = Some t" "length (binary t) = b"
    "holds_paths (root t) (bits b ` set xs)"
    using add_all_paths [of xs ?t0 "{}"] assms(3) unfolding len0 by auto
  have "\<exists>p \<in> bits b ` set xs. xor_path (bits b y) (root t) = Some p \<and>
      (\<forall>w \<in> bits b ` set xs. horner 0 (bit_xor (bits b y) w) \<le> horner 0 (bit_xor (bits b y) p))"
    using t(3) assms(2) set_bits by (intro xor_path_max) auto
  then obtain m where m: "m \<in> set xs" "xor_path (bits b y) (root t) = Some (bits b m)"
    "\<And>x. x \<in> set xs \<Longrightarrow> horner 0 (bit_xor (bits b y) (bits b x)) \<le> horner 0 (bit_xor (bits b y) (bits b m))"
    by auto
  have xor: "horner 0 (bit_xor (bits b y) (bits b x)) = y XOR x" if "x \<in> set xs" for x
    using assms(3-5) that by (simp add: horner_bit_xor horner_bits)
  have "Max ((\<lambda>x. y XOR x) ` set xs) = y XOR m"
    using m xor by (intro Max_eqI) auto
  moreover have "i32 (y XOR m) = y XOR m"
  proof -
    have "0 \<le> y XOR m" "y XOR m < 2 ^ b"
      using horner_bound [OF set_bit_xor, of "bits b y" "bits b m"] xor [OF m(1)] by simp_all
    moreover have "(2::int) ^ b \<le> 2147483648" using power_increasing [OF assms(1), of "2::int"] by simp
    ultimately have "0 \<le> y XOR m" "y XOR m < 2147483648" by linarith+
    then show ?thesis by (intro i32_id) linarith+
  qed
  moreover have "horner 0 (bits b m) = m" using assms(3) m(1) by (intro horner_bits) auto
  ultimately show ?thesis
    using t num_to_binary_bits [of y t] assms(4,5) m(2) by (simp add: find_xor_max_def xor_max_loop_path)
qed

lemma BinaryTrie_xor_max_witness:
  "\<exists>t t'. add_all (BinaryTrie_init (int 5)) [3, 10, 25] = Some t \<and>
    find_xor_max t 5 = Some (t', Max ((\<lambda>x. 5 XOR x) ` set [3, 10, 25]))"
  by (rule BinaryTrie_xor_max) auto

end
