(* ===== verification/TrieClients.thy ===== *)
theory TrieClients
  imports TrieLib
begin

section \<open>Clients of the trie (leetcode/trie.cpp)\<close>

text \<open>
  Dictionary problems solved on \<open>Trie::Node\<close>: each class holds one root node, which its members
  take and return here. \<open>TrieInt\<close> has a node type of its own, with two children and no label.
\<close>

subsection \<open>The model\<close>

definition dict_put :: "string \<Rightarrow> (int, bool) node \<Rightarrow> (int, bool) node option" where
  "dict_put word r = put setLabel_bool False word False word r"

definition dict_search :: "string \<Rightarrow> (int, bool) node \<Rightarrow> bool option" where
  "dict_search word r = trie_find word r"

definition startsWith :: "string \<Rightarrow> (int, bool) node \<Rightarrow> bool option" where
  "startsWith p r = map_option (\<lambda>n. n \<noteq> None) (find_prefix p r)"

fun completeAll :: "string \<Rightarrow> (int, bool) node \<Rightarrow> bool option" where
  "completeAll [] cur = Some True"
| "completeAll (c # cs) cur = do {
     next \<leftarrow> letter_index c;
     case child cur next of
       None \<Rightarrow> Some False
     | Some t \<Rightarrow> if \<not> val t then Some False else completeAll cs t
   }"

fun build :: "string list \<Rightarrow> (int, bool) node \<Rightarrow> (int, bool) node option" where
  "build [] r = Some r"
| "build (w # ws) r = do { r \<leftarrow> dict_put w r; build ws r }"

text \<open>The order of \<open>std::string\<close>: by the codes of the characters.\<close>

fun string_less :: "string \<Rightarrow> string \<Rightarrow> bool" where
  "string_less xs [] = False"
| "string_less [] (y # ys) = True"
| "string_less (x # xs) (y # ys) =
     ((of_char x :: nat) < of_char y \<or> x = y \<and> string_less xs ys)"

fun longest_loop :: "(int, bool) node \<Rightarrow> string \<Rightarrow> string list \<Rightarrow> string option" where
  "longest_loop r ans [] = Some ans"
| "longest_loop r ans (w # ws) =
     (if length w < length ans \<or> length w = length ans \<and> string_less ans w then longest_loop r ans ws
      else do {
        b \<leftarrow> completeAll w r;
        longest_loop r (if b then w else ans) ws
      })"

definition longestWord :: "string list \<Rightarrow> (int, bool) node \<Rightarrow> string option" where
  "longestWord words r = do {
     r \<leftarrow> build words r;
     longest_loop r [] words
   }"

fun first_child :: "(int \<Rightarrow> (int, 'l) node \<Rightarrow> bool option) \<Rightarrow> (int, 'l) node \<Rightarrow> int list \<Rightarrow> bool option" where
  "first_child f cur [] = Some False"
| "first_child f cur (i # is) =
     (case child cur i of
        None \<Rightarrow> first_child f cur is
      | Some t \<Rightarrow> do { b \<leftarrow> f i t; if b then Some True else first_child f cur is })"

fun magic_search :: "string \<Rightarrow> int \<Rightarrow> (int, bool) node \<Rightarrow> bool option" where
  "magic_search [] m cur = Some (m = 1 \<and> val cur)"
| "magic_search (c # cs) m cur =
     (if m = 1 then trie_find (c # cs) cur
      else first_child (\<lambda>i t. magic_search cs (if 97 + i = of_char c then 0 else 1) t) cur [0..CHILD - 1])"

definition dict_magic_search :: "string \<Rightarrow> (int, bool) node \<Rightarrow> bool option" where
  "dict_magic_search word r = magic_search word 0 r"

text \<open>\<open>TrieInt\<close>: the bit number \<open>b\<close> of a call is one below the length argument here.\<close>

fun int_put :: "nat \<Rightarrow> int \<Rightarrow> (int, unit) node \<Rightarrow> (int, unit) node" where
  "int_put 0 v cur = cur"
| "int_put (Suc b) v cur =
     (let next = drop_bit b v AND 1;
          target = (case child cur next of None \<Rightarrow> Node () (\<lambda>_. None) | Some t \<Rightarrow> t)
      in Node () ((child cur)(next := Some (int_put b v target))))"

fun findMax :: "nat \<Rightarrow> int \<Rightarrow> int \<Rightarrow> (int, unit) node \<Rightarrow> int option" where
  "findMax 0 v ans cur = Some ans"
| "findMax (Suc b) v ans cur =
     (let next = (drop_bit b v AND 1) XOR 1 in
      case child cur next of
        None \<Rightarrow> (case child cur (1 - next) of None \<Rightarrow> None | Some t \<Rightarrow> findMax b v (push_bit 1 ans) t)
      | Some t \<Rightarrow> findMax b v (push_bit 1 ans OR 1) t)"

fun findMax_all :: "(int, unit) node \<Rightarrow> int \<Rightarrow> int list \<Rightarrow> int option" where
  "findMax_all r ans [] = Some ans"
| "findMax_all r ans (v # vs) = do {
     m \<leftarrow> findMax 31 v 0 r;
     findMax_all r (max ans m) vs
   }"

definition findMaximumXOR :: "int list \<Rightarrow> int option" where
  "findMaximumXOR nums = findMax_all (fold (int_put 31) nums (Node () (\<lambda>_. None))) 0 nums"

text \<open>\<open>MapSum\<close>: a node sums its label and its children.\<close>

primrec node_sum :: "(int, int) node \<Rightarrow> int" where
  "node_sum (Node v ch) =
     v + (\<Sum>i \<leftarrow> [0..CHILD - 1]. case map_option node_sum (ch i) of None \<Rightarrow> 0 | Some s \<Rightarrow> s)"

definition map_insert :: "string \<Rightarrow> int \<Rightarrow> (int, int) node \<Rightarrow> (int, int) node option" where
  "map_insert key v r = put setLabel_int 0 key v key r"

definition map_sum :: "string \<Rightarrow> (int, int) node \<Rightarrow> int option" where
  "map_sum p r = do {
     found \<leftarrow> find_prefix p r;
     Some (case found of None \<Rightarrow> 0 | Some n \<Rightarrow> node_sum n)
   }"

text \<open>\<open>TrieWords\<close>: the inner option is the pointer that \<open>findRoot\<close> returns.\<close>

fun findRoot_node :: "string \<Rightarrow> (int, string) node \<Rightarrow> string option option" where
  "findRoot_node [] cur = Some (Some (val cur))"
| "findRoot_node (c # cs) cur =
     (if val cur \<noteq> [] then Some (Some (val cur))
      else do {
        next \<leftarrow> letter_index c;
        case child cur next of None \<Rightarrow> Some None | Some t \<Rightarrow> findRoot_node cs t
      })"

definition findRoot :: "string \<Rightarrow> (int, string) node \<Rightarrow> string option" where
  "findRoot word r = do {
     x \<leftarrow> findRoot_node word r;
     Some (case x of None \<Rightarrow> word | Some s \<Rightarrow> if s = [] then word else s)
   }"

definition is_space :: "char \<Rightarrow> bool" where
  "is_space c \<longleftrightarrow> (of_char c :: nat) \<in> {9, 10, 11, 12, 13, 32}"

fun split_words :: "string \<Rightarrow> string \<Rightarrow> string list" where
  "split_words w [] = (if w = [] then [] else [w])"
| "split_words w (c # cs) =
     (if is_space c then (if w = [] then split_words [] cs else w # split_words [] cs)
      else split_words (w @ [c]) cs)"

fun build_words :: "string list \<Rightarrow> (int, string) node \<Rightarrow> (int, string) node option" where
  "build_words [] r = Some r"
| "build_words (w # ws) r = do { r \<leftarrow> put setLabel_string [] w [] w r; build_words ws r }"

fun replace_all :: "(int, string) node \<Rightarrow> string list \<Rightarrow> string list option" where
  "replace_all r [] = Some []"
| "replace_all r (w # ws) = do { x \<leftarrow> findRoot w r; xs \<leftarrow> replace_all r ws; Some (x # xs) }"

text \<open>Erasing from the last blank fails when there is no word.\<close>

definition replaceWords :: "string list \<Rightarrow> string \<Rightarrow> (int, string) node \<Rightarrow> string option" where
  "replaceWords dict sentence r = do {
     r \<leftarrow> build_words dict r;
     words \<leftarrow> replace_all r (split_words [] sentence);
     if words = [] then None else Some (butlast (concat (map (\<lambda>w. w @ '' '') words)))
   }"

definition addWord :: "string \<Rightarrow> (int, bool) node \<Rightarrow> (int, bool) node option" where
  "addWord word r = (if word \<noteq> [] then put setLabel_bool False word False word r else Some r)"

definition word_search :: "string \<Rightarrow> (int, bool) node \<Rightarrow> bool option" where
  "word_search word r = (if word = [] then Some True else find_wild complete_bool word r)"

subsection \<open>A dictionary of words\<close>

text \<open>What a root knows after words have been put into it: the labels are the dictionary.\<close>

definition knows :: "(int, bool) node \<Rightarrow> string set \<Rightarrow> bool" where
  "knows r W \<longleftrightarrow> (\<forall>w \<in> W. letters w) \<and> (\<forall>ks. label r ks = Some True \<longleftrightarrow> ks \<in> map index_of ` W)"

lemma knows_fresh [simp]: "knows (Node False (\<lambda>_. None)) {}"
  by (simp add: knows_def)

lemma dict_put_knows:
  assumes "knows r W" "letters w"
  shows "\<exists>r'. dict_put w r = Some r' \<and> knows r' (insert w W)"
proof -
  obtain r' where r': "put setLabel_bool False w False w r = Some r'"
    "\<And>ks. label r' ks = (if ks = map index_of w then Some True
       else if label r ks = None \<and> prefix ks (map index_of w) then Some False else label r ks)"
    using put_label [OF assms(2), of setLabel_bool False w False r] by (auto simp: setLabel_bool_def)
  have "label r' ks = Some True \<longleftrightarrow> ks \<in> map index_of ` insert w W" for ks
  proof -
    have K: "label r ks = Some True \<longleftrightarrow> ks \<in> map index_of ` W" using assms(1) by (simp add: knows_def)
    show ?thesis
      unfolding r'(2) image_insert insert_iff using K by (cases "ks \<in> map index_of ` W") simp_all
  qed
  then show ?thesis using assms r'(1) by (auto simp: dict_put_def knows_def)
qed

lemma build_knows:
  "knows r W \<Longrightarrow> \<forall>w \<in> set ws. letters w \<Longrightarrow> \<exists>r'. build ws r = Some r' \<and> knows r' (W \<union> set ws)"
proof (induction ws arbitrary: r W)
  case (Cons w ws)
  obtain r1 where r1: "dict_put w r = Some r1" "knows r1 (insert w W)"
    using dict_put_knows [OF Cons.prems(1), of w] Cons.prems(2) by auto
  obtain r2 where "build ws r1 = Some r2" "knows r2 (insert w W \<union> set ws)"
    using Cons.IH [OF r1(2)] Cons.prems(2) by auto
  then show ?case using r1 by simp
qed simp

lemma index_of_in: "map index_of w \<in> map index_of ` W \<longleftrightarrow> w \<in> W"
  by (rule inj_image_mem_iff) (simp add: inj_def)

lemma trie_find_label:
  "letters w \<Longrightarrow> trie_find w n = Some (label n (map index_of w) = Some True)"
  by (auto simp: trie_find_def find_prefix_walk label_def split: option.split)

lemma dict_search_correct: "knows r W \<Longrightarrow> letters w \<Longrightarrow> dict_search w r = Some (w \<in> W)"
  by (simp add: dict_search_def trie_find_label knows_def index_of_in)

text \<open>\<open>completeAll\<close>: every non-empty prefix is a word.\<close>

lemma completeAll_label:
  "letters w \<Longrightarrow> completeAll w n =
    Some (\<forall>u. prefix u w \<and> u \<noteq> [] \<longrightarrow> label n (map index_of u) = Some True)"
proof (induction w n rule: completeAll.induct)
  case (2 c cs n)
  have idx: "letter_index c = Some (index_of c)" using "2.prems" by (simp add: letter_index_Some)
  have pre: "(\<forall>u. prefix u (c # cs) \<and> u \<noteq> [] \<longrightarrow> P u) \<longleftrightarrow> P [c] \<and> (\<forall>u. prefix u cs \<and> u \<noteq> [] \<longrightarrow> P (c # u))" for P
    by (auto simp: prefix_Cons)
  show ?case
  proof (cases "child n (index_of c)")
    case None
    then show ?thesis unfolding pre by (simp add: idx)
  next
    case (Some t)
    show ?thesis
      using "2.IH" [OF idx Some] "2.prems" unfolding pre by (cases "val t") (simp_all add: idx Some)
  qed
qed simp

definition buildable :: "string set \<Rightarrow> string \<Rightarrow> bool" where
  "buildable W w \<longleftrightarrow> (\<forall>u. prefix u w \<and> u \<noteq> [] \<longrightarrow> u \<in> W)"

lemma completeAll_buildable:
  assumes "knows r W" "letters w"
  shows "completeAll w r = Some (buildable W w)"
  using assms by (simp add: completeAll_label buildable_def knows_def index_of_in)

text \<open>The candidates for the longest word, best first: longer, then smaller.\<close>

definition better :: "string \<Rightarrow> string \<Rightarrow> bool" where
  "better v w \<longleftrightarrow> length w < length v \<or> length v = length w \<and> string_less v w"

lemma string_less_irrefl [simp]: "\<not> string_less w w"
  by (induction w) auto

lemma string_less_trans: "string_less u v \<Longrightarrow> string_less v w \<Longrightarrow> string_less u w"
proof (induction u v arbitrary: w rule: string_less.induct)
  case (3 x xs y ys)
  then show ?case by (cases w) auto
next
  case (2 y ys)
  then show ?case by (cases w) auto
qed simp

lemma string_less_linear: "string_less u v \<or> u = v \<or> string_less v u"
proof (induction u v rule: string_less.induct)
  case (3 x xs y ys)
  have "(of_char x :: nat) = of_char y \<Longrightarrow> x = y" by simp
  then show ?case using 3 by (auto simp: neq_iff)
next
  case (1 xs)
  then show ?case by (cases xs) auto
qed simp

lemma longest_loop_correct:
  "knows r W \<Longrightarrow> \<forall>w \<in> set ws. letters w \<Longrightarrow> \<exists>b. longest_loop r ans ws = Some b \<and>
    (b = ans \<or> b \<in> set ws \<and> buildable W b) \<and> \<not> better ans b \<and>
    (\<forall>w \<in> set ws. buildable W w \<longrightarrow> \<not> better w b)"
proof (induction ws arbitrary: ans)
  case (Cons w ws)
  define a where "a = (if \<not> better ans w \<and> buildable W w then w else ans)"
  have "completeAll w r = Some (buildable W w)" using Cons.prems by (simp add: completeAll_buildable)
  then have step: "longest_loop r ans (w # ws) = longest_loop r a ws"
    by (auto simp: a_def better_def)
  obtain b where b: "longest_loop r a ws = Some b" "b = a \<or> b \<in> set ws \<and> buildable W b" "\<not> better a b"
    "\<forall>w \<in> set ws. buildable W w \<longrightarrow> \<not> better w b"
    using Cons.IH [of a] Cons.prems by auto
  have trans: "better u v \<Longrightarrow> better v x \<Longrightarrow> better u x" for u v x
    by (auto simp: better_def intro: string_less_trans)
  have linear: "better u v \<or> u = v \<or> better v u" for u v
    using string_less_linear [of u v] by (auto simp: better_def)
  have irr: "\<not> better u u" for u by (simp add: better_def)
  have "\<not> better ans b"
  proof
    assume ab: "better ans b"
    then have a: "a = w" "\<not> better ans w" using b(3) by (auto simp: a_def split: if_splits)
    then show False using linear [of b w] ab b(3) trans [of ans b w] by auto
  qed
  moreover have "\<not> better w b" if "buildable W w"
    using that b(3) trans [of ans w b] by (auto simp: a_def split: if_splits)
  ultimately have "\<not> better ans b" "buildable W w \<longrightarrow> \<not> better w b" by blast+
  then show ?case using b step unfolding a_def by (auto split: if_splits)
qed (auto simp: better_def)

lemma longestWord_correct:
  assumes "\<forall>w \<in> set words. letters w"
  shows "\<exists>b. longestWord words (Node False (\<lambda>_. None)) = Some b \<and>
    (b = [] \<or> b \<in> set words) \<and> buildable (set words) b \<and>
    (\<forall>w \<in> set words. buildable (set words) w \<longrightarrow> \<not> better w b)"
proof -
  obtain r where r: "build words (Node False (\<lambda>_. None)) = Some r" "knows r (set words)"
    using build_knows [OF knows_fresh assms] by auto
  obtain b where "longest_loop r [] words = Some b" "b = [] \<or> b \<in> set words \<and> buildable (set words) b"
    "\<forall>w \<in> set words. buildable (set words) w \<longrightarrow> \<not> better w b"
    using longest_loop_correct [OF r(2) assms, of "[]"] by auto
  then show ?thesis using r(1) by (auto simp: longestWord_def buildable_def)
qed

subsection \<open>One letter changed\<close>

lemma first_child_ex:
  "\<forall>i \<in> set is. \<forall>t. child n i = Some t \<longrightarrow> f i t = Some (g i t) \<Longrightarrow>
    first_child f n is = Some (\<exists>i \<in> set is. \<exists>t. child n i = Some t \<and> g i t)"
proof (induction "is")
  case (Cons i "is")
  then show ?case by (cases "child n i") auto
qed simp

text \<open>Index lists that differ from a word in exactly one place.\<close>

fun one_off :: "int list \<Rightarrow> int list \<Rightarrow> bool" where
  "one_off (k # ks) (i # is) = (if k = i then one_off ks is else ks = is)"
| "one_off _ _ = False"

definition in_range :: "(int, 'l) node \<Rightarrow> bool" where
  "in_range n \<longleftrightarrow> (\<forall>ks. label n ks \<noteq> None \<longrightarrow> set ks \<subseteq> {0..CHILD - 1})"

lemma in_range_child: "in_range n \<Longrightarrow> child n i = Some t \<Longrightarrow> in_range t \<and> i \<in> {0..CHILD - 1}"
  unfolding in_range_def
  by (metis (no_types, lifting) label_simps insert_subset list.simps(15) option.distinct(1) option.simps(5)
      list.set_intros(1) subset_iff)

lemma letter_code: "letter_index c \<noteq> None \<Longrightarrow> 97 + i = of_char c \<longleftrightarrow> i = index_of c"
  by (auto simp: index_of_def)

lemma magic_search_label:
  "in_range n \<Longrightarrow> letters w \<Longrightarrow>
    magic_search w 0 n = Some (\<exists>ks. one_off ks (map index_of w) \<and> label n ks = Some True) \<and>
    magic_search w 1 n = Some (label n (map index_of w) = Some True)"
proof (induction w arbitrary: n)
  case Nil
  have "\<not> one_off ks []" for ks by (cases ks) auto
  then show ?case by simp
next
  case (Cons c cs)
  let ?g = "\<lambda>i t. if i = index_of c then \<exists>ks. one_off ks (map index_of cs) \<and> label t ks = Some True
    else label t (map index_of cs) = Some True"
  have "magic_search cs (if 97 + i = of_char c then 0 else 1) t = Some (?g i t)"
    if "child n i = Some t" for i t
    using Cons.IH [of t] in_range_child [OF Cons.prems(1) that] Cons.prems(2) letter_code [of c i] by auto
  then have "magic_search (c # cs) 0 n = Some (\<exists>i \<in> {0..CHILD - 1}. \<exists>t. child n i = Some t \<and> ?g i t)"
    using first_child_ex [of "[0..CHILD - 1]" n
      "\<lambda>i t. magic_search cs (if 97 + i = of_char c then 0 else 1) t" ?g] by simp
  moreover have "(\<exists>i \<in> {0..CHILD - 1}. \<exists>t. child n i = Some t \<and> ?g i t) \<longleftrightarrow>
      (\<exists>ks. one_off ks (map index_of (c # cs)) \<and> label n ks = Some True)"
  proof
    assume "\<exists>i \<in> {0..CHILD - 1}. \<exists>t. child n i = Some t \<and> ?g i t"
    then obtain i t where i: "child n i = Some t" "?g i t" by blast
    show "\<exists>ks. one_off ks (map index_of (c # cs)) \<and> label n ks = Some True"
    proof (cases "i = index_of c")
      case True
      then obtain ks where "one_off ks (map index_of cs)" "label t ks = Some True" using i(2) by auto
      then show ?thesis using True i(1) by (intro exI [of _ "i # ks"]) simp
    next
      case False
      then show ?thesis using i by (intro exI [of _ "i # map index_of cs"]) simp
    qed
  next
    assume "\<exists>ks. one_off ks (map index_of (c # cs)) \<and> label n ks = Some True"
    then obtain i ks where ks: "one_off (i # ks) (map index_of (c # cs))" "label n (i # ks) = Some True"
      by (auto elim: one_off.elims)
    then obtain t where t: "child n i = Some t" "label t ks = Some True" by (auto split: option.splits)
    then have "i \<in> {0..CHILD - 1}" using in_range_child [OF Cons.prems(1)] by blast
    then show "\<exists>i \<in> {0..CHILD - 1}. \<exists>t. child n i = Some t \<and> ?g i t"
      using ks(1) t by (intro bexI [of _ i] exI [of _ t]) (auto split: if_splits)
  qed
  moreover have "magic_search (c # cs) 1 n = Some (label n (map index_of (c # cs)) = Some True)"
    using trie_find_label [OF Cons.prems(2), of n] by simp
  ultimately show ?case by simp
qed

text \<open>The same on words.\<close>

definition differ_once :: "string \<Rightarrow> string \<Rightarrow> bool" where
  "differ_once v w \<longleftrightarrow> (\<exists>u x y s. v = u @ x # s \<and> w = u @ y # s \<and> x \<noteq> y)"

lemma differ_once_Cons:
  "differ_once (x # v) (y # w) \<longleftrightarrow> (if x = y then differ_once v w else v = w)"
proof -
  have "differ_once (x # v) (y # w) \<longleftrightarrow> x \<noteq> y \<and> v = w \<or> x = y \<and> differ_once v w"
    unfolding differ_once_def by (auto simp: Cons_eq_append_conv) (metis append_Nil)+
  then show ?thesis by simp
qed

lemma one_off_differ_once: "one_off (map index_of v) (map index_of w) \<longleftrightarrow> differ_once v w"
proof (induction v arbitrary: w)
  case (Cons x v)
  then show ?case by (cases w) (auto simp: differ_once_Cons, simp add: differ_once_def)
qed (simp add: differ_once_def)

lemma put_in_range:
  assumes "in_range n" "letters w" "put f none word b w n = Some n'"
  shows "in_range n'"
proof -
  have "label n' ks = (if ks = map index_of w then Some (f word b)
      else if label n ks = None \<and> prefix ks (map index_of w) then Some none else label n ks)" for ks
    using put_label [OF assms(2), of f none word b n] assms(3) by auto
  moreover have "set (map index_of w) \<subseteq> {0..CHILD - 1}"
    using assms(2) index_of_range by (auto simp: letters_def)
  ultimately show ?thesis
    using assms(1) set_mono_prefix unfolding in_range_def by (metis dual_order.trans)
qed

lemma build_in_range: "in_range r \<Longrightarrow> \<forall>w \<in> set ws. letters w \<Longrightarrow> build ws r = Some r' \<Longrightarrow> in_range r'"
proof (induction ws arbitrary: r)
  case (Cons w ws)
  then obtain r1 where r1: "dict_put w r = Some r1" "build ws r1 = Some r'"
    by (auto simp: Option.bind_eq_Some_conv)
  have "in_range r1"
    using put_in_range [OF Cons.prems(1) _ r1(1) [unfolded dict_put_def]] Cons.prems(2) by simp
  then show ?case using Cons.IH r1(2) Cons.prems(2) by simp
qed simp

text \<open>With a dictionary built, \<open>magic_search\<close> of a word answers whether some word of the
  dictionary arises from it by changing exactly one letter.\<close>

theorem magic_search_correct:
  assumes "\<forall>w \<in> set dict. letters w" "letters v"
  shows "\<exists>r. build dict (Node False (\<lambda>_. None)) = Some r \<and>
    dict_magic_search v r = Some (\<exists>w \<in> set dict. differ_once w v)"
proof -
  let ?r0 = "Node False (\<lambda>_. None) :: (int, bool) node"
  obtain r where r: "build dict ?r0 = Some r" "knows r (set dict)"
    using build_knows [OF knows_fresh assms(1)] by auto
  have "in_range ?r0" by (simp add: in_range_def)
  then have "in_range r" using assms(1) r(1) by (rule build_in_range)
  then have "dict_magic_search v r = Some (\<exists>ks. one_off ks (map index_of v) \<and> label r ks = Some True)"
    using magic_search_label assms(2) by (auto simp: dict_magic_search_def)
  also have "(\<exists>ks. one_off ks (map index_of v) \<and> label r ks = Some True) \<longleftrightarrow> (\<exists>w \<in> set dict. differ_once w v)"
    using r(2) one_off_differ_once unfolding knows_def by auto
  finally show ?thesis using r(1) by blast
qed

lemma magic_search_correct_witness:
  "\<exists>r. build [''hello'', ''bye''] (Node False (\<lambda>_. None)) = Some r \<and>
    dict_magic_search ''hhllo'' r = Some (\<exists>w \<in> set [''hello'', ''bye'']. differ_once w ''hhllo'')"
  by (rule magic_search_correct) (simp_all add: letter_index_def CHILD_def)

subsection \<open>The largest XOR of two numbers\<close>

lemma bits_high: "bits (Suc n) x = (x div 2 ^ n) mod 2 # bits n x"
proof (induction n arbitrary: x)
  case (Suc n)
  have "x div 2 div 2 ^ n = x div 2 ^ Suc n" by (simp add: zdiv_zmult2_eq)
  then show ?case using Suc.IH [of "x div 2"] bits.simps(2) [of "Suc n" x] bits.simps(2) [of n x]
    by (simp del: bits.simps)
qed simp

lemma next_bit: "drop_bit b v AND 1 = (v div 2 ^ b) mod (2::int)"
  by (simp add: and_one_eq drop_bit_eq_div)

lemma bit_cases: "(v::int) mod 2 = 0 \<or> v mod 2 = 1"
  by auto

lemma int_put_walk: "walk (int_put n v t) ks \<noteq> None \<longleftrightarrow> walk t ks \<noteq> None \<or> prefix ks (bits n v)"
proof (induction n v t arbitrary: ks rule: int_put.induct)
  case (1 v t)
  then show ?case by (cases ks) auto
next
  case (2 b v t)
  show ?case
  proof (cases ks)
    case (Cons k ks')
    then show ?thesis
      using "2.IH" [OF refl refl, of ks'] unfolding bits_high
      by (cases "child t (v div 2 ^ b mod 2)") (auto simp: Let_def walk_fresh next_bit)
  qed simp
qed

lemma findMax_path:
  "findMax n v a t = map_option (\<lambda>p. horner a (bit_xor (bits n v) p)) (xor_path (bits n v) t)"
proof (induction n arbitrary: a t)
  case 0
  then show ?case by (simp add: horner_def)
next
  case (Suc b)
  let ?x = "(v div 2 ^ b) mod 2"
  have x: "?x XOR 1 = 1 - ?x" using bit_cases [of "v div 2 ^ b"] by auto
  have one: "a * 2 OR 1 = a * 2 + 1" by (simp add: or_one_eq)
  have "2 * z \<noteq> 1" for z :: int by presburger
  from this [of ?x] show ?case
    unfolding bits_high findMax.simps next_bit
    by (simp add: x one Suc.IH push_bit_eq_mult horner_def option.map_comp comp_def mult.commute
        split: option.split)
qed

lemma findMax_best:
  assumes "holds_paths t (bits 31 ` set xs)" "xs \<noteq> []" "\<forall>x \<in> set xs. 0 \<le> x \<and> x < 2 ^ 31" "0 \<le> y" "y < 2 ^ 31"
  shows "findMax 31 y 0 t = Some (Max ((\<lambda>x. y XOR x) ` set xs))"
proof -
  have "\<exists>p \<in> bits 31 ` set xs. xor_path (bits 31 y) t = Some p \<and>
      (\<forall>w \<in> bits 31 ` set xs. horner 0 (bit_xor (bits 31 y) w) \<le> horner 0 (bit_xor (bits 31 y) p))"
    using assms(1,2) set_bits by (intro xor_path_max) auto
  then obtain m where m: "m \<in> set xs" "xor_path (bits 31 y) t = Some (bits 31 m)"
    "\<And>x. x \<in> set xs \<Longrightarrow> horner 0 (bit_xor (bits 31 y) (bits 31 x)) \<le> horner 0 (bit_xor (bits 31 y) (bits 31 m))"
    by auto
  have xor: "horner 0 (bit_xor (bits 31 y) (bits 31 x)) = y XOR x" if "x \<in> set xs" for x
    using assms(3-5) that by (simp add: horner_bit_xor horner_bits)
  have "Max ((\<lambda>x. y XOR x) ` set xs) = y XOR m"
    using m xor by (intro Max_eqI) auto
  then show ?thesis using m xor by (simp add: findMax_path)
qed

lemma findMax_all_max:
  "\<forall>y \<in> set ys. findMax 31 y 0 r = Some (g y) \<Longrightarrow> findMax_all r a ys = Some (Max (insert a (g ` set ys)))"
proof (induction ys arbitrary: a)
  case (Cons y ys)
  have "findMax_all r (max a (g y)) ys = Some (Max (insert (max a (g y)) (g ` set ys)))"
    using Cons.prems by (intro Cons.IH) auto
  moreover have "Max (insert (max a (g y)) (g ` set ys)) = Max (insert a (insert (g y) (g ` set ys)))"
    by (cases "set ys = {}") (simp_all add: max.assoc)
  ultimately show ?case using Cons.prems by simp
qed simp

lemma fold_int_put_paths:
  "holds_paths t S \<Longrightarrow> holds_paths (fold (int_put n) xs t) (S \<union> bits n ` set xs)"
proof (induction xs arbitrary: t S)
  case (Cons x xs)
  have "holds_paths (int_put n x t) (insert (bits n x) S)"
    using Cons.prems unfolding holds_paths_def int_put_walk by auto
  from Cons.IH [OF this] show ?case by simp
qed simp

text \<open>\<open>findMaximumXOR\<close> returns the largest XOR of two numbers of the array, in one walk down the
  trie for each number.\<close>

theorem findMaximumXOR_correct:
  assumes "xs \<noteq> []" "\<forall>x \<in> set xs. 0 \<le> x \<and> x < 2 ^ 31"
  shows "findMaximumXOR xs = Some (Max ((\<lambda>(x, y). x XOR y) ` (set xs \<times> set xs)))"
proof -
  let ?t = "fold (int_put 31) xs (Node () (\<lambda>_. None))"
  have "holds_paths (Node () (\<lambda>_. None) :: (int, unit) node) {}" by (auto simp: holds_paths_def walk_fresh)
  then have t: "holds_paths ?t (bits 31 ` set xs)" using fold_int_put_paths by fastforce
  let ?g = "\<lambda>y. Max ((\<lambda>x. y XOR x) ` set xs)"
  have "findMaximumXOR xs = Some (Max (insert 0 (?g ` set xs)))"
    unfolding findMaximumXOR_def
    using findMax_best [OF t assms] assms(2) by (intro findMax_all_max) auto
  also have "Max (insert 0 (?g ` set xs)) = Max ((\<lambda>(x, y). x XOR y) ` (set xs \<times> set xs))"
  proof (rule Max_eqI [symmetric])
    have mem: "?g y \<in> (\<lambda>x. y XOR x) ` set xs" for y using assms(1) by (intro Max_in) auto
    have le: "x XOR y \<le> ?g x" if "y \<in> set xs" for x y using that by (intro Max_ge) auto
    let ?M = "Max (insert 0 (?g ` set xs))"
    fix z assume "z \<in> (\<lambda>(x, y). x XOR y) ` (set xs \<times> set xs)"
    then obtain x y where z: "z = x XOR y" "x \<in> set xs" "y \<in> set xs" by auto
    have "?g x \<le> ?M" using z(2) by (intro Max_ge) auto
    then show "z \<le> ?M" using le [OF z(3), of x] z(1) by linarith
  next
    obtain a where a: "a \<in> set xs" using assms(1) by (cases xs) auto
    have mem: "?g y \<in> (\<lambda>x. y XOR x) ` set xs" for y using assms(1) by (intro Max_in) auto
    have "0 = a XOR a" by simp
    then have "insert 0 (?g ` set xs) \<subseteq> (\<lambda>(x, y). x XOR y) ` (set xs \<times> set xs)"
      using a mem by force
    then show "Max (insert 0 (?g ` set xs)) \<in> (\<lambda>(x, y). x XOR y) ` (set xs \<times> set xs)"
      using Max_in [of "insert 0 (?g ` set xs)"] by blast
  qed simp
  finally show ?thesis .
qed

lemma findMaximumXOR_correct_witness:
  "findMaximumXOR [3, 10, 5, 25] = Some (Max ((\<lambda>(x, y). x XOR y) ` (set [3, 10, 5, 25] \<times> set [3, 10, 5, 25])))"
  by (rule findMaximumXOR_correct) auto

subsection \<open>Sums over a prefix\<close>

lemma label_Node: "label (Node v ch) ks = (case ks of [] \<Rightarrow> Some v | k # ks' \<Rightarrow>
    (case ch k of None \<Rightarrow> None | Some t \<Rightarrow> label t ks'))"
  by (cases ks) auto

lemma node_sum_labels:
  "in_range n \<Longrightarrow> finite {ks. label n ks \<noteq> None} \<Longrightarrow>
    node_sum n = (\<Sum>ks \<in> {ks. label n ks \<noteq> None}. the (label n ks))"
proof (induction n)
  case (Node v ch)
  let ?n = "Node v ch" let ?I = "{0..CHILD - 1}"
  let ?L = "\<lambda>i. {ks. ks \<noteq> [] \<and> hd ks = i \<and> label ?n ks \<noteq> None}"
  let ?s = "\<lambda>i. case map_option node_sum (ch i) of None \<Rightarrow> 0 | Some s \<Rightarrow> s"
  have labels: "{ks. label ?n ks \<noteq> None} = insert [] (\<Union>i \<in> ?I. ?L i)" (is "?A = ?B")
  proof
    show "?A \<subseteq> ?B"
    proof
      fix ks assume "ks \<in> ?A"
      moreover from this have "set ks \<subseteq> ?I" using Node.prems(1) by (auto simp: in_range_def)
      ultimately show "ks \<in> ?B" by (cases ks) auto
    qed
  qed auto
  have fin: "finite (?L i)" for i using Node.prems(2) by (rule finite_subset [rotated]) auto
  have part: "?s i = (\<Sum>ks \<in> ?L i. the (label ?n ks))" for i
  proof (cases "ch i")
    case None
    then have L: "?L i = {}" by (auto simp: label_Node neq_Nil_conv)
    show ?thesis unfolding L using None by simp
  next
    case (Some t)
    have L: "?L i = (#) i ` {ks. label t ks \<noteq> None}"
      using Some by (auto simp: label_Node neq_Nil_conv)
    have "finite {ks. label t ks \<noteq> None}" using fin [of i] unfolding L by (rule finite_imageD) simp
    moreover have "in_range t" using in_range_child [OF Node.prems(1), of i t] Some by simp
    ultimately have "node_sum t = (\<Sum>ks \<in> {ks. label t ks \<noteq> None}. the (label t ks))"
      using Some by (intro Node.IH [of "ch i"]) (auto simp: range_eqI [of _ _ i])
    also have "\<dots> = (\<Sum>ks \<in> ?L i. the (label ?n ks))"
      unfolding L using Some by (subst sum.reindex) (auto simp: label_Node)
    finally show ?thesis using Some by simp
  qed
  have "(\<Sum>ks \<in> ?A. the (label ?n ks)) = the (label ?n []) + (\<Sum>ks \<in> (\<Union>i \<in> ?I. ?L i). the (label ?n ks))"
    unfolding labels using fin by (subst sum.insert) auto
  also have "(\<Sum>ks \<in> (\<Union>i \<in> ?I. ?L i). the (label ?n ks)) = (\<Sum>i \<in> ?I. \<Sum>ks \<in> ?L i. the (label ?n ks))"
    using fin by (intro sum.UNION_disjoint) auto
  also have "\<dots> = (\<Sum>i \<in> ?I. ?s i)" using part by (intro sum.cong) auto
  finally show ?case by (simp add: sum_list_distinct_conv_sum_set)
qed

text \<open>\<open>map_sum\<close> adds the values of the keys that begin with the prefix.\<close>

lemma walk_append: "walk n (ks @ ls) = (case walk n ks of None \<Rightarrow> None | Some t \<Rightarrow> walk t ls)"
  by (induction n ks rule: walk.induct) (auto split: option.split)

lemma map_sum_labels:
  assumes "letters p" "in_range r" "finite {ks. label r ks \<noteq> None}"
  shows "map_sum p r = Some (\<Sum>ks \<in> {ks. label r ks \<noteq> None \<and> prefix (map index_of p) ks}. the (label r ks))"
proof (cases "walk r (map index_of p)")
  case None
  then have L: "{ks. label r ks \<noteq> None \<and> prefix (map index_of p) ks} = {}"
    by (auto simp: prefix_def label_def walk_append)
  show ?thesis unfolding L using None assms(1) by (simp add: map_sum_def find_prefix_walk)
next
  case (Some t)
  let ?p = "map index_of p"
  have lab: "label r (?p @ ks) = label t ks" for ks using Some by (simp add: label_def walk_append)
  have set: "{ks. label r ks \<noteq> None \<and> prefix ?p ks} = (@) ?p ` {ks. label t ks \<noteq> None}"
    using lab by (auto simp: prefix_def)
  have "finite ((@) ?p ` {ks. label t ks \<noteq> None})"
    unfolding set [symmetric] using assms(3) by (rule finite_subset [rotated]) auto
  then have "finite {ks. label t ks \<noteq> None}" by (rule finite_imageD) (simp add: inj_on_def)
  moreover have "in_range t"
    unfolding in_range_def
  proof (intro allI impI)
    fix ks assume "label t ks \<noteq> None"
    then have "label r (?p @ ks) \<noteq> None" by (simp add: lab)
    then have "set (?p @ ks) \<subseteq> {0..CHILD - 1}" using assms(2) unfolding in_range_def by blast
    then show "set ks \<subseteq> {0..CHILD - 1}" by simp
  qed
  ultimately have "node_sum t = (\<Sum>ks \<in> {ks. label t ks \<noteq> None}. the (label t ks))"
    by (rule node_sum_labels [rotated])
  also have "\<dots> = (\<Sum>ks \<in> {ks. label r ks \<noteq> None \<and> prefix ?p ks}. the (label r ks))"
    unfolding set by (subst sum.reindex) (auto simp: lab inj_on_def)
  finally show ?thesis using Some assms(1) by (simp add: map_sum_def find_prefix_walk)
qed

subsection \<open>Replacing words by their roots\<close>

text \<open>\<open>findRoot\<close> stops at the first non-empty label on the way down the word.\<close>

lemma findRoot_node_label:
  "letters w \<Longrightarrow> findRoot_node w n = Some x \<Longrightarrow>
    (case x of Some s \<Rightarrow> s \<noteq> [] \<longrightarrow> (\<exists>u. prefix u w \<and> label n (map index_of u) = Some s \<and>
        (\<forall>v. prefix v w \<and> length v < length u \<longrightarrow> label n (map index_of v) = Some []))
      | None \<Rightarrow> True) \<and>
    (x = None \<or> x = Some [] \<longrightarrow> (\<forall>v. prefix v w \<longrightarrow> label n (map index_of v) \<in> {None, Some []}))"
proof (induction w n arbitrary: x rule: findRoot_node.induct)
  case (1 cur)
  then show ?case by auto
next
  case (2 c cs n)
  have idx: "letter_index c = Some (index_of c)" using 2 by (simp add: letter_index_Some)
  show ?case
  proof (cases "val n = []")
    case False
    then show ?thesis using "2.prems" by (auto intro!: exI [of _ "[]"])
  next
    case True
    show ?thesis
    proof (cases "child n (index_of c)")
      case None
      then show ?thesis using "2.prems" True idx by (auto simp: prefix_Cons)
    next
      case (Some t)
      have "findRoot_node cs t = Some x" using "2.prems" True idx Some by simp
      note IH = "2.IH" [OF _ idx Some _ this]
      then have IH: "(x = None \<or> x = Some [] \<longrightarrow> (\<forall>v. prefix v cs \<longrightarrow> label t (map index_of v) \<in> {None, Some []}))"
        "\<And>s. x = Some s \<Longrightarrow> s \<noteq> [] \<Longrightarrow> \<exists>u. prefix u cs \<and> label t (map index_of u) = Some s \<and>
          (\<forall>v. prefix v cs \<and> length v < length u \<longrightarrow> label t (map index_of v) = Some [])"
        using "2.prems"(1) True by (auto split: option.splits)
      have "\<exists>u. prefix u (c # cs) \<and> label n (map index_of u) = Some s \<and>
          (\<forall>v. prefix v (c # cs) \<and> length v < length u \<longrightarrow> label n (map index_of v) = Some [])"
        if s: "x = Some s" "s \<noteq> []" for s
      proof -
        obtain u where "prefix u cs" "label t (map index_of u) = Some s"
          "\<forall>v. prefix v cs \<and> length v < length u \<longrightarrow> label t (map index_of v) = Some []"
          using IH(2) [OF s] by blast
        then show ?thesis using True Some by (intro exI [of _ "c # u"]) (auto simp: prefix_Cons)
      qed
      then show ?thesis using IH(1) True Some by (cases x) (auto simp: prefix_Cons)
    qed
  qed
qed

end
