(* ===== verification/GraphLib.thy ===== *)
theory GraphLib
  imports UnionFinds
begin

section \<open>Graph classes (library/Graph.h)\<close>

text \<open>
  \<open>GraphUnweighted\<close> (breadth-first distances, sizes of connected components) and \<open>GraphPath\<close>
  (number of paths to a destination, memoised). A graph is its vector of adjacency lists; a node
  outside it is \<open>None\<close>. Distances and sizes are at most the number of nodes and are kept as
  unbounded integers.
\<close>

subsection \<open>The model: GraphUnweighted\<close>

definition GraphUnweighted_init :: "int \<Rightarrow> int list list" where
  "GraphUnweighted_init N = replicate (nat N) []"

definition push_edge :: "int list list \<Rightarrow> int \<Rightarrow> int \<Rightarrow> int list list option" where
  "push_edge adjList u v = do {
     vs \<leftarrow> ivec_at adjList u;
     ivec_upd adjList u (vs @ [v])
   }"

fun undirectEdges :: "int list list \<Rightarrow> (int \<times> int) list \<Rightarrow> int \<Rightarrow> int list list option" where
  "undirectEdges adjList [] base = Some adjList"
| "undirectEdges adjList ((e0, e1) # es) base = do {
     adjList \<leftarrow> push_edge adjList (e0 - base) (e1 - base);
     adjList \<leftarrow> push_edge adjList (e1 - base) (e0 - base);
     undirectEdges adjList es base
   }"

fun bfs_relax :: "int \<Rightarrow> int list \<Rightarrow> int list \<Rightarrow> int list \<Rightarrow> (int list \<times> int list) option" where
  "bfs_relax fr weight q [] = Some (weight, q)"
| "bfs_relax fr weight q (t # ts) = do {
     w \<leftarrow> ivec_at weight t;
     if w = -1 then do {
       wf \<leftarrow> ivec_at weight fr;
       weight \<leftarrow> ivec_upd weight t (wf + 1);
       bfs_relax fr weight (q @ [t]) ts
     }
     else bfs_relax fr weight q ts
   }"

partial_function (option) bfs_loop :: "int list list \<Rightarrow> int list \<Rightarrow> int list \<Rightarrow> int list option" where
  "bfs_loop adjList weight q =
     (case q of
        [] \<Rightarrow> Some weight
      | fr # _ \<Rightarrow> do {
          ts \<leftarrow> ivec_at adjList fr;
          (weight, q) \<leftarrow> bfs_relax fr weight q ts;
          bfs_loop adjList weight (tl q)
        })"

definition bfs :: "int list list \<Rightarrow> int \<Rightarrow> int list option" where
  "bfs adjList s = do {
     weight \<leftarrow> ivec_upd (replicate (length adjList) (-1)) s 0;
     bfs_loop adjList weight [s]
   }"

text \<open>
  \<open>dfs_count\<close>: the loop over the neighbours of a node, the recursive call on each of them
  unfolded. A call on one node is the loop over that node.
\<close>

partial_function (option) dfs_list ::
  "int list list \<Rightarrow> int list \<Rightarrow> int list \<Rightarrow> (int \<times> int list) option" where
  "dfs_list adjList vs visited =
     (case vs of
        [] \<Rightarrow> Some (0, visited)
      | s # rest \<Rightarrow> do {
          m \<leftarrow> ivec_at visited s;
          (c, visited) \<leftarrow>
            (if m \<noteq> 0 then Some (0, visited)
             else do {
               visited \<leftarrow> ivec_upd visited s 1;
               ts \<leftarrow> ivec_at adjList s;
               (count, visited) \<leftarrow> dfs_list adjList ts visited;
               Some (count + 1, visited)
             });
          (count, visited) \<leftarrow> dfs_list adjList rest visited;
          Some (c + count, visited)
        })"

definition dfs_count :: "int list list \<Rightarrow> int \<Rightarrow> int list \<Rightarrow> (int \<times> int list) option" where
  "dfs_count adjList s visited = dfs_list adjList [s] visited"

fun component_loop :: "int list list \<Rightarrow> int list \<Rightarrow> int list \<Rightarrow> int list \<Rightarrow> int list option" where
  "component_loop adjList visited components [] = Some components"
| "component_loop adjList visited components (u # us) = do {
     m \<leftarrow> ivec_at visited u;
     if m = 0 then do {
       (c, visited) \<leftarrow> dfs_count adjList u visited;
       component_loop adjList visited (components @ [c]) us
     }
     else component_loop adjList visited components us
   }"

definition component_size :: "int list list \<Rightarrow> int list option" where
  "component_size adjList =
     component_loop adjList (replicate (length adjList) 0) [] [0..int (length adjList) - 1]"

subsection \<open>The model: GraphPath\<close>

record GraphPath =
  gp_adjList :: "int list list"
  ways :: "int list"
  infinite :: bool

definition GraphPath_init :: "int \<Rightarrow> GraphPath" where
  "GraphPath_init N =
     \<lparr>gp_adjList = replicate (nat N) [], ways = replicate (nat N) (-1), infinite = False\<rparr>"

definition add_edge_direct :: "GraphPath \<Rightarrow> int \<Rightarrow> int \<Rightarrow> GraphPath option" where
  "add_edge_direct this u v = do {
     adj \<leftarrow> push_edge (gp_adjList this) u v;
     Some (this\<lparr>gp_adjList := adj\<rparr>)
   }"

text \<open>What a call does after its loop: mark a cycle, memoise the count and return it.\<close>

definition leave_node :: "GraphPath \<Rightarrow> int \<Rightarrow> bool \<Rightarrow> int \<Rightarrow> (GraphPath \<times> int) option" where
  "leave_node this u cycle cnt =
     (let this = (if cycle \<and> cnt > 0 then this\<lparr>infinite := True\<rparr> else this);
          c = i32 (cnt smod 1000000000)
      in do {
        ws \<leftarrow> ivec_upd (ways this) u c;
        Some (this\<lparr>ways := ws\<rparr>, c)
      })"

text \<open>
  \<open>countPaths\<close> as the loop over the neighbours of a node, again with the recursive call unfolded:
  it returns the object, the sum of the results and whether one of them was negative. The set of
  the nodes on the path is restored by every call, so it is passed down only.
\<close>

partial_function (option) paths_loop ::
  "int \<Rightarrow> int set \<Rightarrow> int list \<Rightarrow> GraphPath \<Rightarrow> (GraphPath \<times> int \<times> bool) option" where
  "paths_loop dest nodes vs this =
     (case vs of
        [] \<Rightarrow> Some (this, 0, False)
      | u # rest \<Rightarrow> do {
          (this, result) \<leftarrow>
            (if u = dest then Some (this, 1)
             else do {
               w \<leftarrow> ivec_at (ways this) u;
               if w \<ge> 0 then Some (this, w)
               else if u \<in> nodes then Some (this, -1)
               else do {
                 ts \<leftarrow> ivec_at (gp_adjList this) u;
                 (this, count, cycle) \<leftarrow> paths_loop dest (insert u nodes) ts this;
                 leave_node this u cycle count
               }
             });
          (this, count, cycle) \<leftarrow> paths_loop dest nodes rest this;
          Some (if result < 0 then (this, count, True) else (this, i64 (result + count), cycle))
        })"

definition countPaths :: "GraphPath \<Rightarrow> int \<Rightarrow> int \<Rightarrow> (GraphPath \<times> int) option" where
  "countPaths this u dest = do {
     (this, count, cycle) \<leftarrow> paths_loop dest {} [u] this;
     Some (this, count)
   }"

subsection \<open>Graphs as relations\<close>

definition nodes :: "int list list \<Rightarrow> int set" where
  "nodes g = {0..<int (length g)}"

definition edges :: "int list list \<Rightarrow> (int \<times> int) set" where
  "edges g = {(u, v). u \<in> nodes g \<and> v \<in> set (g ! nat u)}"

definition wf_graph :: "int list list \<Rightarrow> bool" where
  "wf_graph g \<longleftrightarrow> (\<forall>vs \<in> set g. set vs \<subseteq> nodes g)"

lemma finite_nodes [simp]: "finite (nodes g)"
  by (simp add: nodes_def)

lemma edges_nodes: "wf_graph g \<Longrightarrow> (u, v) \<in> edges g \<Longrightarrow> u \<in> nodes g \<and> v \<in> nodes g"
proof -
  assume wf: "wf_graph g" and e: "(u, v) \<in> edges g"
  then have u: "u \<in> nodes g" "v \<in> set (g ! nat u)" by (auto simp: edges_def)
  then have "g ! nat u \<in> set g" by (intro nth_mem) (auto simp: nodes_def)
  then show ?thesis using wf u by (auto simp: wf_graph_def)
qed

lemma adj_nodes: "wf_graph g \<Longrightarrow> u \<in> nodes g \<Longrightarrow> set (g ! nat u) \<subseteq> nodes g"
  by (rule subsetI, rule conjunct2 [OF edges_nodes [of g u]]) (simp_all add: edges_def)

lemma adj_at: "u \<in> nodes g \<Longrightarrow> ivec_at g u = Some (g ! nat u)"
  by (simp add: nodes_def)

lemma vec_node:
  "length w = length g \<Longrightarrow> u \<in> nodes g \<Longrightarrow> ivec_at w u = Some (w ! nat u)"
  "length w = length g \<Longrightarrow> u \<in> nodes g \<Longrightarrow> ivec_upd w u x = Some (w[nat u := x])"
  by (simp_all add: nodes_def)

lemma nth_upd_node:
  "length w = length g \<Longrightarrow> u \<in> nodes g \<Longrightarrow> v \<in> nodes g \<Longrightarrow>
    w[nat u := x] ! nat v = (if u = v then x else w ! nat v)"
  by (simp add: nodes_def nth_update_int)

subsection \<open>Breadth-first search\<close>

text \<open>
  The invariant: a weight is the length of some path; the queue is sorted by weight and holds
  every node whose neighbours may still be undiscovered; no weight exceeds that of the front by
  more than one.
\<close>

definition bfs_inv :: "int list list \<Rightarrow> int \<Rightarrow> int list \<Rightarrow> int list \<Rightarrow> bool" where
  "bfs_inv g s w q \<longleftrightarrow> length w = length g \<and> set q \<subseteq> nodes g \<and> s \<in> nodes g \<and> w ! nat s = 0 \<and>
     (\<forall>v \<in> nodes g. w ! nat v \<noteq> -1 \<longrightarrow> 0 \<le> w ! nat v \<and> (s, v) \<in> edges g ^^ nat (w ! nat v)) \<and>
     (\<forall>v \<in> set q. w ! nat v \<noteq> -1) \<and> sorted (map (\<lambda>v. w ! nat v) q) \<and>
     (q \<noteq> [] \<longrightarrow> (\<forall>v \<in> nodes g. w ! nat v \<le> w ! nat (hd q) + 1)) \<and>
     (\<forall>(u, v) \<in> edges g. u \<notin> set q \<longrightarrow> w ! nat u \<noteq> -1 \<longrightarrow> w ! nat v \<noteq> -1 \<and> w ! nat v \<le> w ! nat u + 1)"

definition undiscovered :: "int list list \<Rightarrow> int list \<Rightarrow> nat" where
  "undiscovered g w = card {v \<in> nodes g. w ! nat v = -1}"

lemma bfs_discover:
  assumes wf: "wf_graph g" and inv: "bfs_inv g s w (fr # q)" and t: "(fr, t) \<in> edges g" "w ! nat t = -1"
  defines "w' \<equiv> w[nat t := w ! nat fr + 1]"
  shows "bfs_inv g s w' (fr # q @ [t])" "undiscovered g w = Suc (undiscovered g w')"
    "v \<in> nodes g \<Longrightarrow> w ! nat v \<noteq> -1 \<Longrightarrow> w' ! nat v = w ! nat v"
proof -
  have len: "length w = length g" and q: "set (fr # q) \<subseteq> nodes g" and s: "s \<in> nodes g" "w ! nat s = 0"
    and path: "\<And>v. v \<in> nodes g \<Longrightarrow> w ! nat v \<noteq> -1 \<Longrightarrow> 0 \<le> w ! nat v \<and> (s, v) \<in> edges g ^^ nat (w ! nat v)"
    and disc: "\<forall>v \<in> set (fr # q). w ! nat v \<noteq> -1" and srt: "sorted (map (\<lambda>v. w ! nat v) (fr # q))"
    and near: "\<And>v. v \<in> nodes g \<Longrightarrow> w ! nat v \<le> w ! nat fr + 1"
    and exp: "\<And>u v. (u, v) \<in> edges g \<Longrightarrow> u \<notin> set (fr # q) \<Longrightarrow> w ! nat u \<noteq> -1 \<Longrightarrow>
      w ! nat v \<noteq> -1 \<and> w ! nat v \<le> w ! nat u + 1"
    using inv unfolding bfs_inv_def by auto
  have tn: "fr \<in> nodes g" "t \<in> nodes g" using edges_nodes [OF wf t(1)] by auto
  have w': "w' ! nat v = (if t = v then w ! nat fr + 1 else w ! nat v)" if "v \<in> nodes g" for v
    unfolding w'_def by (rule nth_upd_node [OF len tn(2) that])
  have tq: "t \<notin> set (fr # q)" using disc t(2) by auto
  have fr: "0 \<le> w ! nat fr" "(s, fr) \<in> edges g ^^ nat (w ! nat fr)" using path [OF tn(1)] disc by auto
  show keep: "v \<in> nodes g \<Longrightarrow> w ! nat v \<noteq> -1 \<Longrightarrow> w' ! nat v = w ! nat v" for v
    using t(2) by (auto simp: w')
  have "(s, t) \<in> edges g ^^ nat (w ! nat fr + 1)"
    using fr t(1) by (auto simp: nat_add_distrib)
  then have path': "0 \<le> w' ! nat v \<and> (s, v) \<in> edges g ^^ nat (w' ! nat v)"
    if "v \<in> nodes g" "w' ! nat v \<noteq> -1" for v
    using that path [of v] fr(1) by (auto simp: w' split: if_splits)
  have map_eq: "map (\<lambda>v. w' ! nat v) (fr # q) = map (\<lambda>v. w ! nat v) (fr # q)"
    using q tq by (intro map_cong) (auto simp: w')
  have "sorted (map (\<lambda>v. w' ! nat v) (fr # q))" using srt unfolding map_eq .
  moreover have "w' ! nat v \<le> w' ! nat t" if "v \<in> set (fr # q)" for v
  proof -
    have "v \<in> nodes g" using that q by auto
    then show ?thesis using that tq near [of v] tn(2) by (auto simp: w')
  qed
  ultimately have "sorted (map (\<lambda>v. w' ! nat v) ((fr # q) @ [t]))"
    unfolding map_append sorted_append by simp
  then have "sorted (map (\<lambda>v. w' ! nat v) (fr # q @ [t]))" by simp
  moreover have "w' ! nat v \<noteq> -1 \<and> w' ! nat v \<le> w' ! nat u + 1"
    if "(u, v) \<in> edges g" "u \<notin> set (fr # q @ [t])" "w' ! nat u \<noteq> -1" for u v
  proof -
    have uv: "u \<in> nodes g" "v \<in> nodes g" using edges_nodes [OF wf that(1)] by auto
    then have "w ! nat v \<noteq> -1 \<and> w ! nat v \<le> w ! nat u + 1" using exp [OF that(1)] that by (auto simp: w')
    then show ?thesis using uv that t(2) by (auto simp: w')
  qed
  moreover have "w' ! nat v \<le> w' ! nat fr + 1" if "v \<in> nodes g" for v
    using near [OF that] tq tn by (auto simp: w' that)
  moreover have "w' ! nat v \<noteq> -1" if "v \<in> set (fr # q @ [t])" for v
    using that disc fr(1) q tn by (auto simp: w' subset_iff split: if_splits)
  moreover have "length w' = length g" by (simp add: w'_def len)
  moreover have "set (fr # q @ [t]) \<subseteq> nodes g" using q tn by auto
  ultimately show "bfs_inv g s w' (fr # q @ [t])"
    using s keep [OF s(1)] path' unfolding bfs_inv_def by auto
  have "{v \<in> nodes g. w ! nat v = -1} = insert t {v \<in> nodes g. w' ! nat v = -1}"
    using tn t(2) fr(1) by (auto simp: w' split: if_splits)
  moreover have "t \<notin> {v \<in> nodes g. w' ! nat v = -1}" using tn fr(1) by (simp add: w')
  ultimately show "undiscovered g w = Suc (undiscovered g w')" by (simp add: undiscovered_def)
qed

lemma bfs_relax_correct:
  assumes wf: "wf_graph g"
  shows "bfs_inv g s w (fr # q) \<Longrightarrow> set ts \<subseteq> set (g ! nat fr) \<Longrightarrow>
    \<exists>w' q'. bfs_relax fr w (fr # q) ts = Some (w', fr # q') \<and> bfs_inv g s w' (fr # q') \<and>
      (\<forall>t \<in> set ts. w' ! nat t \<noteq> -1) \<and>
      (\<forall>v \<in> nodes g. w ! nat v \<noteq> -1 \<longrightarrow> w' ! nat v = w ! nat v) \<and>
      undiscovered g w' + length q' = undiscovered g w + length q"
proof (induction ts arbitrary: w q)
  case (Cons t ts)
  have len: "length w = length g" and fr: "fr \<in> nodes g"
    using Cons.prems(1) by (auto simp: bfs_inv_def)
  have e: "(fr, t) \<in> edges g" using Cons.prems(2) fr by (simp add: edges_def)
  have t: "t \<in> nodes g" using edges_nodes [OF wf e] by simp
  show ?case
  proof (cases "w ! nat t = -1")
    case True
    let ?w = "w[nat t := w ! nat fr + 1]"
    note d = bfs_discover [OF wf Cons.prems(1) e True]
    obtain w' q' where w': "bfs_relax fr ?w (fr # q @ [t]) ts = Some (w', fr # q')" "bfs_inv g s w' (fr # q')"
      "\<forall>t \<in> set ts. w' ! nat t \<noteq> -1" "\<forall>v \<in> nodes g. ?w ! nat v \<noteq> -1 \<longrightarrow> w' ! nat v = ?w ! nat v"
      "undiscovered g w' + length q' = undiscovered g ?w + length (q @ [t])"
      using Cons.IH [OF d(1)] Cons.prems(2) by auto
    have "0 \<le> w ! nat fr" using Cons.prems(1) fr by (auto simp: bfs_inv_def)
    then have tw: "?w ! nat t \<noteq> -1" using t len by (simp add: nth_upd_node [OF len t t])
    have "w' ! nat t \<noteq> -1" using w'(4) t tw by auto
    moreover have "bfs_relax fr w (fr # q) (t # ts) = bfs_relax fr ?w (fr # q @ [t]) ts"
      using True by (simp add: vec_node [OF len t] vec_node [OF len fr])
    ultimately show ?thesis using w' d(2,3) by (intro exI [of _ w'] exI [of _ q']) auto
  next
    case False
    obtain w' q' where w': "bfs_relax fr w (fr # q) ts = Some (w', fr # q')" "bfs_inv g s w' (fr # q')"
      "\<forall>t \<in> set ts. w' ! nat t \<noteq> -1" "\<forall>v \<in> nodes g. w ! nat v \<noteq> -1 \<longrightarrow> w' ! nat v = w ! nat v"
      "undiscovered g w' + length q' = undiscovered g w + length q"
      using Cons.IH [OF Cons.prems(1)] Cons.prems(2) by auto
    then show ?thesis using False t by (intro exI [of _ w'] exI [of _ q']) (auto simp: vec_node [OF len t])
  qed
qed auto

lemma bfs_pop:
  assumes wf: "wf_graph g" and "bfs_inv g s w (fr # q)" "\<forall>t \<in> set (g ! nat fr). w ! nat t \<noteq> -1"
  shows "bfs_inv g s w q"
proof -
  have near: "\<forall>v \<in> nodes g. w ! nat v \<le> w ! nat fr + 1" using assms(2) by (simp add: bfs_inv_def)
  have exp: "w ! nat v \<noteq> -1 \<and> w ! nat v \<le> w ! nat u + 1"
    if e: "(u, v) \<in> edges g" and u: "u \<notin> set q" "w ! nat u \<noteq> -1" for u v
  proof (cases "u = fr")
    case True
    have "v \<in> set (g ! nat fr)" using e True by (simp add: edges_def)
    then show ?thesis using assms(3) near edges_nodes [OF wf e] True by blast
  next
    case False
    then show ?thesis using assms(2) e u by (auto simp: bfs_inv_def)
  qed
  have "w ! nat v \<le> w ! nat (hd q) + 1" if "v \<in> nodes g" "q \<noteq> []" for v
  proof -
    have "w ! nat fr \<le> w ! nat (hd q)" using assms(2) that(2) by (cases q) (auto simp: bfs_inv_def)
    then show ?thesis using near that(1) by force
  qed
  then show ?thesis using assms(2) exp unfolding bfs_inv_def by auto
qed

lemma bfs_loop_correct:
  assumes wf: "wf_graph g"
  shows "bfs_inv g s w q \<Longrightarrow> \<exists>w'. bfs_loop g w q = Some w' \<and> bfs_inv g s w' []"
proof (induction "undiscovered g w + length q" arbitrary: w q rule: less_induct)
  case less
  show ?case
  proof (cases q)
    case Nil
    then show ?thesis using less.prems by (subst bfs_loop.simps) simp
  next
    case (Cons fr q0)
    have fr: "fr \<in> nodes g" using less.prems Cons by (simp add: bfs_inv_def)
    obtain w' q' where r: "bfs_relax fr w (fr # q0) (g ! nat fr) = Some (w', fr # q')"
      "bfs_inv g s w' (fr # q')" "\<forall>t \<in> set (g ! nat fr). w' ! nat t \<noteq> -1"
      "undiscovered g w' + length q' = undiscovered g w + length q0"
      using bfs_relax_correct [OF wf less.prems [unfolded Cons] order_refl] by blast
    have "\<exists>w''. bfs_loop g w' q' = Some w'' \<and> bfs_inv g s w'' []"
      using r(4) by (intro less.hyps bfs_pop [OF wf r(2,3)]) (simp add: Cons)
    then show ?thesis using r(1) by (subst bfs_loop.simps) (simp add: Cons adj_at [OF fr])
  qed
qed

lemma bfs_init_inv:
  assumes "s \<in> nodes g"
  shows "bfs_inv g s ((replicate (length g) (-1))[nat s := 0]) [s]"
proof -
  let ?w = "(replicate (length g) (-1))[nat s := 0] :: int list"
  have w: "?w ! nat v = (if s = v then 0 else -1)" if "v \<in> nodes g" for v
    using nth_upd_node [of "replicate (length g) (-1)" g s v 0] assms that by (auto simp: nodes_def)
  have "?w ! nat u = -1" if "(u, v) \<in> edges g" "u \<noteq> s" for u v
    using w [of u] that by (auto simp: edges_def)
  then show ?thesis using assms unfolding bfs_inv_def by (auto simp: w)
qed

text \<open>At the end a weight is at most the length of every path.\<close>

lemma bfs_done:
  assumes inv: "bfs_inv g s w []"
  shows "(s, v) \<in> edges g ^^ k \<Longrightarrow> w ! nat v \<noteq> -1 \<and> w ! nat v \<le> int k"
proof (induction k arbitrary: v)
  case (Suc k)
  then obtain u where u: "(s, u) \<in> edges g ^^ k" "(u, v) \<in> edges g" by auto
  have "w ! nat v \<noteq> -1 \<and> w ! nat v \<le> w ! nat u + 1"
    using inv Suc.IH [OF u(1)] u(2) by (auto simp: bfs_inv_def)
  then show ?case using Suc.IH [OF u(1)] by simp
qed (use inv in \<open>auto simp: bfs_inv_def\<close>)

text \<open>C4: On a well-formed graph \<open>bfs\<close> ends, and the weight of a node is the length of a shortest path
  from the source, or -1 when there is no path.\<close>

theorem bfs_shortest:
  assumes "wf_graph g" "s \<in> nodes g"
  shows "\<exists>w. bfs g s = Some w \<and> length w = length g \<and> (\<forall>v \<in> nodes g.
    w ! nat v = (if \<exists>k. (s, v) \<in> edges g ^^ k then int (LEAST k. (s, v) \<in> edges g ^^ k) else -1))"
proof -
  let ?w0 = "(replicate (length g) (-1))[nat s := 0] :: int list"
  obtain w where w: "bfs_loop g ?w0 [s] = Some w" "bfs_inv g s w []"
    using bfs_loop_correct [OF assms(1) bfs_init_inv [OF assms(2)]] by blast
  have path: "0 \<le> w ! nat v \<and> (s, v) \<in> edges g ^^ nat (w ! nat v)" if "v \<in> nodes g" "w ! nat v \<noteq> -1" for v
    using w(2) that by (auto simp: bfs_inv_def)
  have "w ! nat v = int (LEAST k. (s, v) \<in> edges g ^^ k)" if v: "v \<in> nodes g" and k: "(s, v) \<in> edges g ^^ k" for v k
  proof -
    note d = bfs_done [OF w(2) k]
    have "(LEAST k. (s, v) \<in> edges g ^^ k) = nat (w ! nat v)"
      using path [OF v] d bfs_done [OF w(2)] by (intro Least_equality) force+
    then show ?thesis using path [OF v] d by simp
  qed
  moreover have "w ! nat v = -1" if "v \<in> nodes g" "\<nexists>k. (s, v) \<in> edges g ^^ k" for v
    using path [OF that(1)] that(2) by blast
  moreover have "bfs g s = Some w" using w(1) assms(2) by (simp add: bfs_def vec_node nodes_def)
  ultimately show ?thesis using w(2) by (auto simp: bfs_inv_def)
qed

lemma bfs_shortest_witness:
  "\<exists>w. bfs [[1, 2], [2], [], [0]] 0 = Some w \<and> length w = length [[1, 2], [2], [], [0 :: int]] \<and>
    (\<forall>v \<in> nodes [[1, 2], [2], [], [0]]. w ! nat v =
      (if \<exists>k. (0, v) \<in> edges [[1, 2], [2], [], [0]] ^^ k
       then int (LEAST k. (0, v) \<in> edges [[1, 2], [2], [], [0]] ^^ k) else -1))"
  by (rule bfs_shortest) (auto simp: wf_graph_def nodes_def)

subsection \<open>Sizes of connected components\<close>

definition marked :: "int list list \<Rightarrow> int list \<Rightarrow> int set" where
  "marked g vis = {v \<in> nodes g. vis ! nat v \<noteq> 0}"

lemma marked_nodes: "marked g vis \<subseteq> nodes g" "finite (marked g vis)"
  by (auto simp: marked_def intro: finite_subset [OF _ finite_nodes [of g]])

lemma marked_upd:
  assumes "length vis = length g" "s \<in> nodes g"
  shows "marked g (vis[nat s := 1]) = insert s (marked g vis)"
  using nth_upd_node [OF assms, of _ 1] assms(2) by (auto simp: marked_def split: if_splits)

text \<open>What a depth-first search over a list of nodes marks, and that it ends.\<close>

definition dfs_ok :: "int list list \<Rightarrow> int list \<Rightarrow> int list \<Rightarrow> int \<Rightarrow> int list \<Rightarrow> bool" where
  "dfs_ok g vs vis c vis' \<longleftrightarrow> length vis' = length g \<and> marked g vis \<subseteq> marked g vis' \<and> set vs \<subseteq> marked g vis' \<and>
     c = int (card (marked g vis' - marked g vis)) \<and>
     (\<forall>(u, v) \<in> edges g. u \<in> marked g vis' - marked g vis \<longrightarrow> v \<in> marked g vis') \<and>
     (\<forall>v \<in> marked g vis' - marked g vis. \<exists>x \<in> set vs. (x, v) \<in> (edges g)\<^sup>*)"

lemma card_Diff_trans:
  assumes "A \<subseteq> B" "B \<subseteq> C" "finite C"
  shows "card (C - A) = card (C - B) + card (B - A)"
proof -
  have eq: "C - A = (C - B) \<union> (B - A)" using assms by blast
  have "finite (C - B)" "finite (B - A)" using assms by (meson finite_Diff finite_subset)+
  then show ?thesis unfolding eq by (rule card_Un_disjoint) blast
qed

lemma dfs_ok_append:
  assumes "dfs_ok g [s] vis c1 vis1" "dfs_ok g rest vis1 c2 vis2"
  shows "dfs_ok g (s # rest) vis (c1 + c2) vis2"
proof -
  let ?A = "marked g vis" and ?B = "marked g vis1" and ?C = "marked g vis2"
  have sub: "?A \<subseteq> ?B" "?B \<subseteq> ?C" using assms by (auto simp: dfs_ok_def)
  have "c1 + c2 = int (card (?C - ?A))"
    using assms card_Diff_trans [OF sub marked_nodes(2)] by (simp add: dfs_ok_def)
  moreover have "v \<in> ?C" if "(u, v) \<in> edges g" "u \<in> ?C - ?A" for u v
    using assms that sub unfolding dfs_ok_def by blast
  moreover have "\<exists>x \<in> set (s # rest). (x, v) \<in> (edges g)\<^sup>*" if "v \<in> ?C - ?A" for v
    using assms that unfolding dfs_ok_def by (cases "v \<in> ?B") auto
  ultimately show ?thesis using assms sub unfolding dfs_ok_def by auto
qed

lemma dfs_ok_node:
  assumes wf: "wf_graph g" and s: "s \<in> nodes g" "s \<notin> marked g vis" "length vis = length g"
    and ok: "dfs_ok g (g ! nat s) (vis[nat s := 1]) c vis1"
  shows "dfs_ok g [s] vis (c + 1) vis1"
proof -
  note m = marked_upd [OF s(3,1)]
  have eq: "marked g vis1 - marked g vis = insert s (marked g vis1 - insert s (marked g vis))"
    using ok s(2) unfolding dfs_ok_def m by auto
  have "card (marked g vis1 - marked g vis) = Suc (card (marked g vis1 - insert s (marked g vis)))"
    unfolding eq using marked_nodes(2) [of g vis1] by (intro card_insert_disjoint) auto
  moreover have sv: "v \<in> marked g vis1" if "(s, v) \<in> edges g" for v
    using that ok unfolding dfs_ok_def by (auto simp: edges_def)
  have "\<forall>v \<in> marked g vis1 - insert s (marked g vis). \<exists>x \<in> set (g ! nat s). (x, v) \<in> (edges g)\<^sup>*"
    using ok unfolding dfs_ok_def m by (elim conjE)
  moreover have "(s, v) \<in> (edges g)\<^sup>*" if "x \<in> set (g ! nat s)" "(x, v) \<in> (edges g)\<^sup>*" for x v
    using that s(1) by (intro converse_rtrancl_into_rtrancl [of s x]) (auto simp: edges_def)
  ultimately have "(s, v) \<in> (edges g)\<^sup>*" if "v \<in> marked g vis1 - marked g vis" for v
    using that unfolding eq by (metis insertE rtrancl.rtrancl_refl)
  moreover have "v \<in> marked g vis1" if "(u, v) \<in> edges g" "u \<in> marked g vis1 - marked g vis" for u v
    using that ok sv unfolding dfs_ok_def m by (cases "u = s") blast+
  moreover note \<open>card _ = Suc _\<close>
  ultimately show ?thesis using ok unfolding dfs_ok_def m by auto
qed

lemma dfs_list_correct:
  assumes wf: "wf_graph g"
  shows "card (nodes g - marked g vis) \<le> n \<Longrightarrow> length vis = length g \<Longrightarrow> set vs \<subseteq> nodes g \<Longrightarrow>
    \<exists>c vis'. dfs_list g vs vis = Some (c, vis') \<and> dfs_ok g vs vis c vis'"
proof (induction n arbitrary: vs vis rule: less_induct)
  case (less n)
  from less.prems show ?case
  proof (induction vs arbitrary: vis)
    case Nil
    then show ?case by (subst dfs_list.simps) (simp add: dfs_ok_def)
  next
    case (Cons s rest)
    have s: "s \<in> nodes g" and len: "length vis = length g" using Cons.prems by auto
    obtain c1 vis1 where one: "dfs_ok g [s] vis c1 vis1"
      and step: "dfs_list g (s # rest) vis = do {
        (count, visited) \<leftarrow> dfs_list g rest vis1; Some (c1 + count, visited) }"
    proof (cases "s \<in> marked g vis")
      case True
      then have "dfs_ok g [s] vis 0 vis" using len by (simp add: dfs_ok_def)
      moreover have "dfs_list g (s # rest) vis = do {
          (count, visited) \<leftarrow> dfs_list g rest vis; Some (0 + count, visited) }"
        using True by (subst dfs_list.simps) (simp add: vec_node [OF len s] marked_def)
      ultimately show ?thesis by (rule that)
    next
      case False
      let ?vis = "vis[nat s := 1]"
      note m = marked_upd [OF len s]
      have "card (nodes g - marked g ?vis) < card (nodes g - marked g vis)"
        unfolding m using s False by (intro psubset_card_mono) auto
      then have "card (nodes g - marked g ?vis) < n" using Cons.prems(1) by linarith
      moreover have "set (g ! nat s) \<subseteq> nodes g" by (rule adj_nodes [OF wf s])
      ultimately have "\<exists>c vis1. dfs_list g (g ! nat s) ?vis = Some (c, vis1) \<and> dfs_ok g (g ! nat s) ?vis c vis1"
        by (intro less.IH [OF _ order_refl]) (simp_all add: len)
      then obtain c vis1 where d: "dfs_list g (g ! nat s) ?vis = Some (c, vis1)"
        "dfs_ok g (g ! nat s) ?vis c vis1" by blast
      have "dfs_list g (s # rest) vis = do {
          (count, visited) \<leftarrow> dfs_list g rest vis1; Some (c + 1 + count, visited) }"
      proof -
        have "vis ! nat s = 0" using False s by (simp add: marked_def)
        then show ?thesis
          by (subst dfs_list.simps) (simp only: list.case vec_node [OF len s] adj_at [OF s] d(1)
              Option.bind.simps prod.case if_False not_True_eq_False simp_thms)
      qed
      with dfs_ok_node [OF wf s False len d(2)] show ?thesis by (rule that)
    qed
    have "card (nodes g - marked g vis1) \<le> card (nodes g - marked g vis)"
      using one by (intro card_mono) (auto simp: dfs_ok_def)
    then obtain c2 vis2 where two: "dfs_list g rest vis1 = Some (c2, vis2)" "dfs_ok g rest vis1 c2 vis2"
      using Cons.IH [of vis1] Cons.prems one by (auto simp: dfs_ok_def)
    then show ?case using step dfs_ok_append [OF one two(2)] by auto
  qed
qed

definition reach :: "int list list \<Rightarrow> int \<Rightarrow> int set" where
  "reach g u = {v \<in> nodes g. (u, v) \<in> (edges g)\<^sup>*}"

definition closed :: "int list list \<Rightarrow> int set \<Rightarrow> bool" where
  "closed g M \<longleftrightarrow> (\<forall>(u, v) \<in> edges g. u \<in> M \<longrightarrow> v \<in> M)"

lemma closed_reach: "closed g M \<Longrightarrow> (u, v) \<in> (edges g)\<^sup>* \<Longrightarrow> u \<in> M \<Longrightarrow> v \<in> M"
proof -
  assume c: "closed g M" and u: "u \<in> M" and r: "(u, v) \<in> (edges g)\<^sup>*"
  from r show "v \<in> M" by (induction rule: rtrancl_induct) (use c u in \<open>auto simp: closed_def\<close>)
qed

lemma sym_reach: "sym (edges g) \<Longrightarrow> (u, v) \<in> (edges g)\<^sup>* \<Longrightarrow> (v, u) \<in> (edges g)\<^sup>*"
  by (meson sym_rtrancl symD)

lemma reach_eq_or_disjoint:
  assumes "sym (edges g)"
  shows "reach g u = reach g v \<or> reach g u \<inter> reach g v = {}"
proof (cases "(u, v) \<in> (edges g)\<^sup>*")
  case True
  then have "(v, u) \<in> (edges g)\<^sup>*" by (rule sym_reach [OF assms])
  with True have "reach g u = reach g v" unfolding reach_def by (auto intro: rtrancl_trans)
  then show ?thesis ..
next
  case False
  then show ?thesis using sym_reach [OF assms] unfolding reach_def by (blast intro: rtrancl_trans)
qed

lemma dfs_component:
  assumes wf: "wf_graph g" and sym: "sym (edges g)" and u: "u \<in> nodes g" "u \<notin> marked g vis"
    and vis: "length vis = length g" "closed g (marked g vis)"
  shows "\<exists>vis'. dfs_count g u vis = Some (int (card (reach g u)), vis') \<and> length vis' = length g \<and>
    marked g vis' = marked g vis \<union> reach g u \<and> closed g (marked g vis') \<and> reach g u \<inter> marked g vis = {}"
proof -
  let ?A = "marked g vis"
  obtain c vis' where d: "dfs_list g [u] vis = Some (c, vis')" and ok: "dfs_ok g [u] vis c vis'"
    using dfs_list_correct [OF wf order_refl vis(1), of "[u]"] u(1) by auto
  let ?B = "marked g vis'"
  have B: "?A \<subseteq> ?B" "u \<in> ?B" and c: "c = int (card (?B - ?A))" and len: "length vis' = length g"
    using ok by (auto simp: dfs_ok_def)
  have "closed g ?B"
    using ok vis(2) unfolding dfs_ok_def closed_def by blast
  have disj: "reach g u \<inter> ?A = {}"
  proof (rule ccontr)
    assume "reach g u \<inter> ?A \<noteq> {}"
    then obtain v where "(u, v) \<in> (edges g)\<^sup>*" "v \<in> ?A" by (auto simp: reach_def)
    then show False using closed_reach [OF vis(2) sym_reach [OF sym]] u(2) by blast
  qed
  have "reach g u \<subseteq> ?B" using closed_reach [OF \<open>closed g ?B\<close>] B(2) by (auto simp: reach_def)
  moreover have "?B - ?A \<subseteq> reach g u"
    using ok marked_nodes(1) [of g vis'] by (auto simp: dfs_ok_def reach_def)
  ultimately have "?B - ?A = reach g u" "?B = ?A \<union> reach g u" using disj B(1) by auto
  then show ?thesis using d c len disj \<open>closed g ?B\<close> by (auto simp: dfs_count_def)
qed

text \<open>The loop adds the size of every component that is not marked yet.\<close>

abbreviation sizes :: "int set set \<Rightarrow> int multiset" where
  "sizes C \<equiv> image_mset (\<lambda>c. int (card c)) (mset_set C)"

lemma component_loop_sizes:
  assumes wf: "wf_graph g" and sym: "sym (edges g)"
  shows "set us \<subseteq> nodes g \<Longrightarrow> length vis = length g \<Longrightarrow> closed g (marked g vis) \<Longrightarrow>
    \<exists>cs. component_loop g vis comps us = Some cs \<and>
      mset cs = mset comps + sizes {c \<in> reach g ` set us. c \<inter> marked g vis = {}}"
proof (induction us arbitrary: vis comps)
  case Nil
  then show ?case by simp
next
  case (Cons u us)
  have u: "u \<in> nodes g" using Cons.prems(1) by simp
  have uu: "u \<in> reach g u" using u by (simp add: reach_def)
  show ?case
  proof (cases "u \<in> marked g vis")
    case True
    then have "{c \<in> reach g ` set (u # us). c \<inter> marked g vis = {}} =
        {c \<in> reach g ` set us. c \<inter> marked g vis = {}}" using uu by auto
    then show ?thesis
      using Cons.IH [of vis comps] Cons.prems True u
      by (simp add: vec_node [OF Cons.prems(2) u] marked_def)
  next
    case False
    obtain vis' where d: "dfs_count g u vis = Some (int (card (reach g u)), vis')" "length vis' = length g"
      "marked g vis' = marked g vis \<union> reach g u" "closed g (marked g vis')" "reach g u \<inter> marked g vis = {}"
      using dfs_component [OF wf sym u False Cons.prems(2,3)] by blast
    obtain cs where cs: "component_loop g vis' (comps @ [int (card (reach g u))]) us = Some cs"
      "mset cs = mset (comps @ [int (card (reach g u))]) +
        sizes {c \<in> reach g ` set us. c \<inter> marked g vis' = {}}"
      using Cons.IH [of vis' "comps @ [int (card (reach g u))]"] Cons.prems(1) d(2,4) by auto
    let ?C = "{c \<in> reach g ` set us. c \<inter> marked g vis' = {}}"
    have "{c \<in> reach g ` set (u # us). c \<inter> marked g vis = {}} = insert (reach g u) ?C"
    proof -
      have "c = reach g u \<or> c \<inter> reach g u = {}" if "c \<in> reach g ` set us" for c
        using that reach_eq_or_disjoint [OF sym] by blast
      then show ?thesis unfolding d(3) using d(5) by (auto simp: Int_Un_distrib)
    qed
    moreover have "reach g u \<notin> ?C" using d(3) uu by auto
    ultimately have "sizes {c \<in> reach g ` set (u # us). c \<inter> marked g vis = {}} =
        {#int (card (reach g u))#} + sizes ?C" by simp
    moreover have "component_loop g vis comps (u # us) = Some cs"
      using False u d(1) cs(1) by (simp add: vec_node [OF Cons.prems(2) u] marked_def)
    ultimately show ?thesis using cs(2) by (intro exI [of _ cs]) simp
  qed
qed

lemma component_size_classes:
  assumes "wf_graph g" "sym (edges g)"
  shows "\<exists>cs. component_size g = Some cs \<and> mset cs = sizes (reach g ` nodes g)"
proof -
  have no: "marked g (replicate (length g) 0) = {}" by (auto simp: marked_def nodes_def)
  have "set [0..int (length g) - 1] = nodes g" by (auto simp: nodes_def)
  then show ?thesis
    using component_loop_sizes [OF assms, of "[0..int (length g) - 1]" "replicate (length g) 0" "[]"]
    by (simp add: component_size_def no closed_def)
qed

text \<open>The graph that \<open>undirectEdges\<close> builds.\<close>

lemma push_edge_graph:
  assumes "wf_graph g" "u \<in> nodes g" "v \<in> nodes g"
  shows "\<exists>g'. push_edge g u v = Some g' \<and> wf_graph g' \<and> length g' = length g \<and> edges g' = insert (u, v) (edges g)"
proof -
  let ?g = "g[nat u := g ! nat u @ [v]]"
  have n: "nodes ?g = nodes g" by (simp add: nodes_def)
  have nth: "?g ! nat x = (if u = x then g ! nat u @ [v] else g ! nat x)" if "x \<in> nodes g" for x
    by (rule nth_upd_node [OF refl assms(2) that])
  have "wf_graph ?g"
    using assms adj_nodes [OF assms(1,2)] unfolding wf_graph_def n
    by (auto dest!: set_update_subset_insert [THEN subsetD])
  moreover have "edges ?g = insert (u, v) (edges g)"
    unfolding edges_def n using nth assms(2) by (auto split: if_splits)
  ultimately show ?thesis
    using assms(2) by (simp add: push_edge_def adj_at vec_node [OF refl assms(2)])
qed

abbreviation shift :: "int \<Rightarrow> (int \<times> int) list \<Rightarrow> (int \<times> int) list" where
  "shift base es \<equiv> map (\<lambda>(u, v). (u - base, v - base)) es"

lemma undirectEdges_graph:
  "wf_graph g \<Longrightarrow> \<forall>(u, v) \<in> set (shift base es). u \<in> nodes g \<and> v \<in> nodes g \<Longrightarrow>
    \<exists>g'. undirectEdges g es base = Some g' \<and> wf_graph g' \<and> length g' = length g \<and>
      edges g' = edges g \<union> set (shift base es) \<union> (set (shift base es))\<inverse>"
proof (induction es arbitrary: g)
  case (Cons e es)
  obtain a b where e: "e = (a, b)" by (cases e)
  have ab: "a - base \<in> nodes g" "b - base \<in> nodes g" using Cons.prems(2) by (auto simp: e)
  obtain g1 where g1: "push_edge g (a - base) (b - base) = Some g1" "wf_graph g1" "length g1 = length g"
    "edges g1 = insert (a - base, b - base) (edges g)"
    using push_edge_graph [OF Cons.prems(1) ab] by blast
  have n1: "nodes g1 = nodes g" using g1(3) by (simp add: nodes_def)
  obtain g2 where g2: "push_edge g1 (b - base) (a - base) = Some g2" "wf_graph g2" "length g2 = length g"
    "edges g2 = insert (b - base, a - base) (edges g1)"
    using push_edge_graph [OF g1(2), of "b - base" "a - base"] ab g1(3) unfolding n1 by auto
  have n2: "nodes g2 = nodes g" using g2(3) by (simp add: nodes_def)
  obtain g3 where "undirectEdges g2 es base = Some g3" "wf_graph g3" "length g3 = length g2"
    "edges g3 = edges g2 \<union> set (shift base es) \<union> (set (shift base es))\<inverse>"
    using Cons.IH [OF g2(2)] Cons.prems(2) unfolding n2 by auto
  then show ?case using g1 g2 by (auto simp: e)
qed simp

lemma reach_classes:
  assumes "edges g = set es \<union> (set es)\<inverse>"
  shows "reach g ` nodes g = classes es (nodes g)"
  using assms by (simp add: classes_def reach_def linked_def)

text \<open>C32: For any list of undirected edges, the sizes of components that the depth-first search of
  \<open>GraphUnweighted\<close> counts are, as a multiset, those that \<open>UnionFind3\<close> reports for the same edges,
  and both are the sizes of the connected components.\<close>

theorem component_size_agrees_with_UnionFind3:
  assumes "0 \<le> n" "\<forall>(u, v) \<in> set (shift base es). u \<in> {0..<n} \<and> v \<in> {0..<n}"
  shows "\<exists>g cs s k. undirectEdges (GraphUnweighted_init n) es base = Some g \<and> component_size g = Some cs \<and>
    run_joins connect (UnionFind3_init n) (shift base es) = Some (s, k) \<and>
    mset cs = mset (get_components3 s) \<and> mset cs = sizes (classes (shift base es) {0..<n})"
proof -
  let ?g0 = "GraphUnweighted_init n"
  have n0: "nodes ?g0 = {0..<n}" using assms(1) by (simp add: nodes_def GraphUnweighted_init_def)
  have "wf_graph ?g0" "edges ?g0 = {}" by (auto simp: wf_graph_def edges_def nodes_def GraphUnweighted_init_def)
  then obtain g where g: "undirectEdges ?g0 es base = Some g" "wf_graph g" "length g = length ?g0"
    "edges g = set (shift base es) \<union> (set (shift base es))\<inverse>"
    using undirectEdges_graph [of ?g0 base es] assms(2) unfolding n0 by auto
  have ng: "nodes g = {0..<n}" using g(3) n0 by (simp add: nodes_def)
  have "sym (edges g)" unfolding g(4) by (rule sym_Un_converse)
  then obtain cs where cs: "component_size g = Some cs" "mset cs = sizes (reach g ` nodes g)"
    using component_size_classes [OF g(2)] by blast
  obtain s k where "run_joins connect (UnionFind3_init n) (shift base es) = Some (s, k)"
    "mset (get_components3 s) = sizes (classes (shift base es) {0..<n})"
    using uf3_run [OF assms] by blast
  moreover have "reach g ` nodes g = classes (shift base es) {0..<n}"
    using reach_classes [OF g(4)] unfolding ng .
  ultimately show ?thesis using g(1) cs by auto
qed

lemma component_size_agrees_with_UnionFind3_witness:
  "\<exists>g cs s k. undirectEdges (GraphUnweighted_init 5) [(1, 2), (3, 4), (4, 1)] 1 = Some g \<and>
    component_size g = Some cs \<and>
    run_joins connect (UnionFind3_init 5) (shift 1 [(1, 2), (3, 4), (4, 1)]) = Some (s, k) \<and>
    mset cs = mset (get_components3 s) \<and> mset cs = sizes (classes (shift 1 [(1, 2), (3, 4), (4, 1)]) {0..<5})"
  by (rule component_size_agrees_with_UnionFind3) auto

subsection \<open>Counting paths\<close>

text \<open>The number of ways to walk from a node to the destination in at most \<open>k\<close> steps, stopping there.\<close>

fun npaths :: "int list list \<Rightarrow> int \<Rightarrow> nat \<Rightarrow> int \<Rightarrow> int" where
  "npaths g dest 0 u = (if u = dest then 1 else 0)"
| "npaths g dest (Suc k) u = (if u = dest then 1 else \<Sum>v \<leftarrow> g ! nat u. npaths g dest k v)"

text \<open>A numbering of the nodes that every edge decreases: the graph has no cycle before \<open>dest\<close>.\<close>

definition ranked :: "int list list \<Rightarrow> int \<Rightarrow> (int \<Rightarrow> nat) \<Rightarrow> bool" where
  "ranked g dest rk \<longleftrightarrow> (\<forall>(u, v) \<in> edges g. u \<noteq> dest \<longrightarrow> rk v < rk u)"

lemma npaths_nonneg: "0 \<le> npaths g dest k u"
proof (induction k arbitrary: u)
  case (Suc k)
  then have "0 \<le> (\<Sum>v \<leftarrow> g ! nat u. npaths g dest k v)" by (intro sum_list_nonneg) auto
  then show ?case by simp
qed simp

lemma npaths_stable:
  assumes "wf_graph g" "ranked g dest rk"
  shows "u \<in> nodes g \<Longrightarrow> rk u \<le> k \<Longrightarrow> npaths g dest (Suc k) u = npaths g dest k u"
proof (induction k arbitrary: u)
  case 0
  have "g ! nat u = []" if "u \<noteq> dest"
  proof (rule ccontr)
    assume "g ! nat u \<noteq> []"
    then obtain v where "(u, v) \<in> edges g" using 0(1) by (cases "g ! nat u") (auto simp: edges_def)
    then show False using 0(2) assms(2) that by (auto simp: ranked_def)
  qed
  then show ?case by simp
next
  case (Suc k)
  have "npaths g dest (Suc k) v = npaths g dest k v" if "v \<in> set (g ! nat u)" "u \<noteq> dest" for v
  proof -
    have e: "(u, v) \<in> edges g" using that Suc.prems(1) by (simp add: edges_def)
    then have "rk v \<le> k" using assms(2) that(2) Suc.prems(2) by (auto simp: ranked_def)
    then show ?thesis using Suc.IH edges_nodes [OF assms(1) e] by blast
  qed
  then show ?case by (simp cong: map_cong)
qed

lemma npaths_step:
  assumes "wf_graph g" "ranked g dest rk" "u \<in> nodes g" "u \<noteq> dest" "\<forall>v \<in> nodes g. rk v \<le> K"
  shows "npaths g dest K u = (\<Sum>v \<leftarrow> g ! nat u. npaths g dest K v)"
  using npaths_stable [OF assms(1,2,3), of K] assms(3-5) by simp

text \<open>The memo table holds finished counts only.\<close>

definition ways_ok :: "int list list \<Rightarrow> int \<Rightarrow> nat \<Rightarrow> GraphPath \<Rightarrow> bool" where
  "ways_ok g dest K s \<longleftrightarrow> gp_adjList s = g \<and> length (ways s) = length g \<and> \<not> infinite s \<and>
     (\<forall>u \<in> nodes g. u \<noteq> dest \<longrightarrow> ways s ! nat u = -1 \<or> ways s ! nat u = npaths g dest K u mod 1000000000)"

lemma sum_list_mod: "(\<Sum>x \<leftarrow> xs. f x mod m) mod m = (\<Sum>x \<leftarrow> xs. f x) mod (m :: int)"
proof (induction xs)
  case (Cons x xs)
  have "(f x mod m + (\<Sum>x \<leftarrow> xs. f x mod m)) mod m = (f x + (\<Sum>x \<leftarrow> xs. f x)) mod m"
    by (rule mod_add_cong) (simp_all add: Cons)
  then show ?case by simp
qed simp

lemma sum_list_le_bound:
  "(\<And>x. x \<in> set xs \<Longrightarrow> f x \<le> b) \<Longrightarrow> (\<Sum>x \<leftarrow> xs. f x) \<le> b * int (length xs)" for f :: "'a \<Rightarrow> int"
proof (induction xs)
  case (Cons x xs)
  then have "f x + (\<Sum>x \<leftarrow> xs. f x) \<le> b + b * int (length xs)" by (intro add_mono) auto
  then show ?case by (simp add: distrib_left)
qed simp

lemma leave_node_dag:
  assumes ok: "ways_ok g dest K s" and u: "u \<in> nodes g"
    and c: "c mod 1000000000 = npaths g dest K u mod 1000000000" "0 \<le> c"
  shows "\<exists>s'. leave_node s u False c = Some (s', npaths g dest K u mod 1000000000) \<and> ways_ok g dest K s'"
proof -
  let ?m = "npaths g dest K u mod 1000000000"
  have len: "length (ways s) = length g" using ok by (simp add: ways_ok_def)
  have "0 \<le> ?m" "?m < 1000000000" by simp_all
  then have "i32 (c smod 1000000000) = ?m" using c by simp
  moreover have "ways_ok g dest K (s\<lparr>ways := (ways s)[nat u := ?m]\<rparr>)"
    using ok u by (auto simp: ways_ok_def nth_upd_node [OF len u])
  ultimately show ?thesis by (simp add: leave_node_def Let_def vec_node [OF len u])
qed

lemma paths_loop_dag:
  assumes wf: "wf_graph g" and rk: "ranked g dest rk" and K: "\<forall>v \<in> nodes g. rk v \<le> K"
    and small: "\<forall>vs \<in> set g. length vs < 2 ^ 32"
  shows "\<forall>v \<in> set vs. v \<in> nodes g \<and> rk v < n \<Longrightarrow> \<forall>x \<in> ns. n \<le> rk x \<Longrightarrow> ways_ok g dest K s \<Longrightarrow>
    length vs < 2 ^ 32 \<Longrightarrow>
    \<exists>s'. paths_loop dest ns vs s = Some (s', \<Sum>v \<leftarrow> vs. npaths g dest K v mod 1000000000, False) \<and>
      ways_ok g dest K s'"
proof (induction n arbitrary: vs ns s rule: less_induct)
  case (less n)
  let ?N = "\<lambda>v. npaths g dest K v mod 1000000000"
  from less.prems show ?case
  proof (induction vs arbitrary: s)
    case Nil
    then show ?case by (subst paths_loop.simps) simp
  next
    case (Cons u rest)
    have u: "u \<in> nodes g" "rk u < n" and ok: "ways_ok g dest K s" using Cons.prems by auto
    have len: "length (ways s) = length g" and adj: "gp_adjList s = g" using ok by (auto simp: ways_ok_def)
    let ?call = "if u = dest then Some (s, 1)
       else do {
         w \<leftarrow> ivec_at (ways s) u;
         if w \<ge> 0 then Some (s, w)
         else if u \<in> ns then Some (s, -1)
         else do {
           ts \<leftarrow> ivec_at (gp_adjList s) u;
           (s, cnt, cycle) \<leftarrow> paths_loop dest (insert u ns) ts s;
           leave_node s u cycle cnt
         }
       }"
    obtain s1 where s1: "?call = Some (s1, ?N u)" "ways_ok g dest K s1"
    proof (cases "u = dest")
      case True
      then have "npaths g dest K u = 1" by (cases K) auto
      then show ?thesis using True ok by (intro that [of s]) auto
    next
      case False
      show ?thesis
      proof (cases "ways s ! nat u = -1")
        case True
        have "u \<notin> ns" using Cons.prems(2) u(2) by auto
        let ?ts = "g ! nat u"
        have ts: "\<forall>v \<in> set ?ts. v \<in> nodes g \<and> rk v < rk u"
        proof
          fix v assume "v \<in> set ?ts"
          then have e: "(u, v) \<in> edges g" using u(1) by (simp add: edges_def)
          then show "v \<in> nodes g \<and> rk v < rk u"
            using edges_nodes [OF wf e] rk False by (auto simp: ranked_def)
        qed
        have "?ts \<in> set g" using u(1) by (auto simp: nodes_def intro!: nth_mem)
        then have "length ?ts < 2 ^ 32" using small by blast
        then obtain s2 where s2: "paths_loop dest (insert u ns) ?ts s = Some (s2, \<Sum>v \<leftarrow> ?ts. ?N v, False)"
          "ways_ok g dest K s2"
          using less.IH [OF u(2) ts, of "insert u ns" s] Cons.prems(2) u(2) ok by fastforce
        have "(\<Sum>v \<leftarrow> ?ts. ?N v) mod 1000000000 = ?N u"
          unfolding sum_list_mod npaths_step [OF wf rk u(1) False K] ..
        moreover have "0 \<le> (\<Sum>v \<leftarrow> ?ts. ?N v)" by (intro sum_list_nonneg) auto
        ultimately obtain s3 where "leave_node s2 u False (\<Sum>v \<leftarrow> ?ts. ?N v) = Some (s3, ?N u)"
          "ways_ok g dest K s3"
          using leave_node_dag [OF s2(2) u(1)] by blast
        then show ?thesis
          using True False \<open>u \<notin> ns\<close> s2(1) u(1)
          by (intro that [of s3]) (simp_all add: vec_node [OF len u(1)] adj adj_at)
      next
        case w: False
        then have "ways s ! nat u = ?N u" using ok u(1) False by (auto simp: ways_ok_def)
        then show ?thesis using False ok by (intro that [of s]) (simp_all add: vec_node [OF len u(1)])
      qed
    qed
    obtain s2 where s2: "paths_loop dest ns rest s1 = Some (s2, \<Sum>v \<leftarrow> rest. ?N v, False)" "ways_ok g dest K s2"
      using Cons.IH [OF _ Cons.prems(2) s1(2)] Cons.prems(1,4) by auto
    have b: "0 \<le> (\<Sum>v \<leftarrow> rest. ?N v)" "(\<Sum>v \<leftarrow> rest. ?N v) \<le> 1000000000 * int (length rest)"
      by (intro sum_list_nonneg, auto) (intro sum_list_le_bound, simp add: less_imp_le)
    have "int (length rest) < 4294967296" using Cons.prems(4) by simp
    moreover have "0 \<le> ?N u" "?N u < 1000000000" by simp_all
    ultimately have "i64 (?N u + (\<Sum>v \<leftarrow> rest. ?N v)) = ?N u + (\<Sum>v \<leftarrow> rest. ?N v)"
      using b by (intro i64_id) linarith+
    moreover have "\<not> ?N u < 0" by (simp add: not_less)
    ultimately show ?case
      using s2(2) by (subst paths_loop.simps) (simp add: s1(1) s2(1))
  qed
qed


text \<open>In a graph without a cycle before \<open>dest\<close>, \<open>countPaths\<close> on a fresh \<open>GraphPath\<close> returns and gives
  the number of paths from \<open>u\<close> to \<open>dest\<close> modulo \<open>10^9\<close>, and reports no infinity.\<close>

theorem countPaths_dag:
  assumes "wf_graph g" "ranked g dest rk" "\<forall>v \<in> nodes g. rk v \<le> K"
    "\<forall>vs \<in> set g. length vs < 2 ^ 32" "u \<in> nodes g"
  shows "\<exists>s. countPaths ((GraphPath_init (int (length g)))\<lparr>gp_adjList := g\<rparr>) u dest =
    Some (s, npaths g dest K u mod 1000000000) \<and> \<not> infinite s"
proof -
  let ?s = "(GraphPath_init (int (length g)))\<lparr>gp_adjList := g\<rparr>"
  have "ways_ok g dest K ?s" by (auto simp: ways_ok_def GraphPath_init_def nodes_def)
  then obtain s where s: "paths_loop dest {} [u] ?s = Some (s, \<Sum>v \<leftarrow> [u]. npaths g dest K v mod 1000000000, False)"
    "ways_ok g dest K s"
    using paths_loop_dag [OF assms(1-4), of "[u]" "Suc K" "{}" ?s] assms(3,5) by (auto simp: less_Suc_eq_le)
  then show ?thesis by (auto simp: countPaths_def ways_ok_def)
qed

lemma countPaths_dag_witness:
  "\<exists>s. countPaths ((GraphPath_init (int (length [[1, 2 :: int], [3], [3], []])))\<lparr>gp_adjList := [[1, 2], [3], [3], []]\<rparr>) 0 3 =
    Some (s, npaths [[1, 2], [3], [3], []] 3 3 0 mod 1000000000) \<and> \<not> infinite s"
  by (rule countPaths_dag [where g = "[[1, 2], [3], [3], []]" and dest = 3 and u = 0 and rk = "\<lambda>v. nat (3 - v)"])
    (auto simp: wf_graph_def ranked_def nodes_def edges_def less_Suc_eq nth_Cons split: nat.splits)

definition cycle_graph :: "int list list" where
  "cycle_graph = [[1, 2], [0], []]"

text \<open>C33: \<open>countPaths\<close> can miss an infinite number of paths. On the edges 0 to 1, 1 to 0 and 0 to 2 the cycle
  through 0 lies on walks from 0 to 2 of every odd length, but the call on node 1, which sees the
  cycle, has not found the destination yet; the flag is dropped there and the call returns 1 with
  \<open>infinite\<close> left false.\<close>

theorem countPaths_misses_cycle:
  "map_option (\<lambda>(s, c). (c, infinite s)) (countPaths ((GraphPath_init 3)\<lparr>gp_adjList := cycle_graph\<rparr>) 0 2) =
     Some (1, False) \<and> (0, 2) \<in> edges cycle_graph ^^ (2 * k + 1)"
proof
  have "(0, 0) \<in> edges cycle_graph ^^ (2 * k)"
  proof (induction k)
    case (Suc k)
    have "(0, 1) \<in> edges cycle_graph" "(1, 0) \<in> edges cycle_graph" by (auto simp: edges_def nodes_def cycle_graph_def)
    with Suc show ?case by (auto simp: relcomp_unfold)
  qed simp
  moreover have "(0, 2) \<in> edges cycle_graph" by (auto simp: edges_def nodes_def cycle_graph_def)
  ultimately show "(0, 2) \<in> edges cycle_graph ^^ (2 * k + 1)" by auto
  have nil: "paths_loop d n [] s = Some (s, 0, False)" for d n s by (subst paths_loop.simps) simp
  show "map_option (\<lambda>(s, c). (c, infinite s)) (countPaths ((GraphPath_init 3)\<lparr>gp_adjList := cycle_graph\<rparr>) 0 2) =
     Some (1, False)"
    by (simp add: countPaths_def paths_loop.simps [of _ _ "_ # _"] nil GraphPath_init_def cycle_graph_def
        vec_at_def leave_node_def vec_upd_def Let_def numeral_3_eq_3)
qed

end
