(* ===== verification/CharLib.thy ===== *)
theory CharLib
  imports Prelude
begin

section \<open>Characters and strings\<close>

text \<open>
  What the string functions use of the C++ library: the integer value of a \<open>char\<close> and back,
  the character classes of the C locale, \<open>std::to_string\<close>, \<open>atoi\<close> and \<open>substr\<close>. A \<open>std::string\<close>
  is a HOL \<open>string\<close>; a \<open>char\<close> in arithmetic is its signed 8-bit code.
\<close>

subsection \<open>Characters\<close>

definition code :: "char \<Rightarrow> int" where
  "code c = i8 (of_char c)"

definition chr :: "int \<Rightarrow> char" where
  "chr k = char_of k"

definition isdigit :: "char \<Rightarrow> bool" where
  "isdigit c \<longleftrightarrow> 48 \<le> code c \<and> code c \<le> 57"

definition isspace :: "char \<Rightarrow> bool" where
  "isspace c \<longleftrightarrow> code c = 32 \<or> (9 \<le> code c \<and> code c \<le> 13)"

definition isupper :: "char \<Rightarrow> bool" where
  "isupper c \<longleftrightarrow> 65 \<le> code c \<and> code c \<le> 90"

definition islower :: "char \<Rightarrow> bool" where
  "islower c \<longleftrightarrow> 97 \<le> code c \<and> code c \<le> 122"

definition isalpha :: "char \<Rightarrow> bool" where
  "isalpha c \<longleftrightarrow> isupper c \<or> islower c"

definition isalnum :: "char \<Rightarrow> bool" where
  "isalnum c \<longleftrightarrow> isalpha c \<or> isdigit c"

definition toupper :: "char \<Rightarrow> char" where
  "toupper c = (if islower c then chr (code c - 32) else c)"

definition tolower :: "char \<Rightarrow> char" where
  "tolower c = (if isupper c then chr (code c + 32) else c)"

lemma of_char_mod: "of_char (char_of (k :: int)) = k mod 256"
  by simp

lemma chr_code [simp]: "chr (code c) = c"
proof -
  have "(of_char c :: int) mod 256 = of_char c" by simp
  moreover have "(i8 (of_char c) :: int) mod 256 = of_char c mod 256"
    by (simp add: swrap_def mod_diff_left_eq)
  ultimately have "of_char (chr (code c)) = (of_char c :: int)"
    unfolding chr_def code_def of_char_mod by simp
  then show ?thesis by simp
qed

lemma code_chr: "code (chr k) = i8 k"
proof -
  have "(k mod 256 + 128) mod 256 = (k + 128) mod 256" by (simp add: mod_add_left_eq)
  then show ?thesis by (simp add: code_def chr_def swrap_def)
qed

lemma code_chr_id [simp]: "-128 \<le> k \<Longrightarrow> k < 128 \<Longrightarrow> code (chr k) = k"
  by (simp add: code_chr)

lemma code_inject [simp]: "code c = code d \<longleftrightarrow> c = d"
  using chr_code by metis

lemma code_range: "-128 \<le> code c" "code c < 128"
  using swrap_range [of 8 "of_char c"] by (simp_all add: code_def)

subsection \<open>Numbers as strings\<close>

fun show_nat :: "nat \<Rightarrow> string" where
  "show_nat n = (if n < 10 then [chr (48 + int n)] else show_nat (n div 10) @ [chr (48 + int (n mod 10))])"

declare show_nat.simps [simp del]

definition to_string :: "int \<Rightarrow> string" where
  "to_string n = (if n < 0 then ''-'' @ show_nat (nat (- n)) else show_nat (nat n))"

fun digits_value :: "int \<Rightarrow> string \<Rightarrow> int" where
  "digits_value acc [] = acc"
| "digits_value acc (c # cs) = (if isdigit c then digits_value (acc * 10 + (code c - 48)) cs else acc)"

definition atoi :: "string \<Rightarrow> int" where
  "atoi s = i32 (case dropWhile isspace s of
      [] \<Rightarrow> 0
    | c # cs \<Rightarrow>
        if c = CHR ''-'' then - digits_value 0 cs
        else if c = CHR ''+'' then digits_value 0 cs
        else digits_value 0 (c # cs))"

lemma isdigit_chr [simp]: "0 \<le> d \<Longrightarrow> d < 10 \<Longrightarrow> isdigit (chr (48 + d))"
  by (simp add: isdigit_def)

lemma digits_value_append:
  "\<forall>c \<in> set s. isdigit c \<Longrightarrow> digits_value acc (s @ t) = digits_value (digits_value acc s) t"
  by (induction s arbitrary: acc) auto

lemma show_nat_digits: "show_nat n \<noteq> [] \<and> (\<forall>c \<in> set (show_nat n). isdigit c) \<and> digits_value 0 (show_nat n) = int n"
proof (induction n rule: show_nat.induct)
  case (1 n)
  show ?case
  proof (cases "n < 10")
    case True
    then show ?thesis by (simp add: show_nat.simps [of n])
  next
    case False
    let ?d = "chr (48 + int (n mod 10))"
    have d: "isdigit ?d" "code ?d = 48 + int (n mod 10)"
      using pos_mod_bound [of 10 "int n"] by (simp_all add: isdigit_def)
    have IH: "\<forall>c \<in> set (show_nat (n div 10)). isdigit c" "digits_value 0 (show_nat (n div 10)) = int (n div 10)"
      using 1 False by simp_all
    have "digits_value 0 (show_nat (n div 10) @ [?d]) = int (n div 10) * 10 + int (n mod 10)"
      using IH d by (simp add: digits_value_append)
    also have "\<dots> = int n" by (metis div_mult_mod_eq of_nat_add of_nat_mult of_nat_numeral)
    finally show ?thesis using False IH(1) d(1) by (simp add: show_nat.simps [of n])
  qed
qed

lemma show_nat_Cons: obtains c cs where "show_nat n = c # cs" "isdigit c"
  using show_nat_digits [of n] by (cases "show_nat n") auto

lemma digit_not_special: "isdigit c \<Longrightarrow> \<not> isspace c \<and> c \<noteq> CHR ''-'' \<and> c \<noteq> CHR ''+''"
  by (auto simp: isdigit_def isspace_def code_def)

text \<open>\<open>atoi\<close> reads back what \<open>to_string\<close> prints.\<close>

lemma atoi_to_string: 
  assumes "-2147483648 \<le> n" "n < 2147483648"
  shows "atoi (to_string n) = n"
proof (cases "n < 0")
  case True
  have "\<not> isspace (CHR ''-'')" by (simp add: isspace_def code_def)
  then show ?thesis using True assms show_nat_digits [of "nat (- n)"] by (simp add: atoi_def to_string_def)
next
  case False
  obtain c cs where s: "show_nat (nat n) = c # cs" "isdigit c" using show_nat_Cons .
  then show ?thesis
    using False assms show_nat_digits [of "nat n"] digit_not_special [OF s(2)]
    by (simp add: atoi_def to_string_def del: digits_value.simps)
qed

subsection \<open>Substrings\<close>

text \<open>\<open>s.substr(pos, len)\<close>: throws when \<open>pos\<close> is past the end, and is cut at the end.\<close>

definition substr :: "'a list \<Rightarrow> int \<Rightarrow> int \<Rightarrow> 'a list option" where
  "substr s pos len =
     (if 0 \<le> pos \<and> pos \<le> int (length s) then Some (take (nat len) (drop (nat pos) s)) else None)"

end
