(* ===== verification/BitManip.thy ===== *)
theory BitManip
  imports CharLib "HOL-Library.Word" "HOL-Library.Log_Nat" "HOL-Library.Multiset"
begin

unbundle bit_operations_syntax

section \<open>Bit manipulation (leetcode/BitManip.cpp)\<close>

text \<open>
  The classes \<open>SingleNumber\<close>, \<open>Bit\<close> and \<open>Bits\<close>. A 32-bit integer that the code uses as a bit
  pattern is a \<open>32 word\<close>; where it is a count, an index or a character code it is an \<open>int\<close> with
  the wrap-around of \<open>i32\<close>. \<open>std::log2\<close> of a positive integer, cut to an int, is the position of
  its highest bit. \<open>poorPigs\<close>, a quotient of floating-point logarithms, is left out.
\<close>

subsection \<open>The model: SingleNumber\<close>

definition singleNumber :: "32 word list \<Rightarrow> 32 word" where
  "singleNumber nums = foldl (XOR) 0 nums"

fun single2_loop :: "32 word \<Rightarrow> 32 word \<Rightarrow> 32 word list \<Rightarrow> 32 word" where
  "single2_loop bit1Count bit2Count [] = bit1Count"
| "single2_loop bit1Count bit2Count (n # nums) =
     (let bit2Count = bit2Count XOR (bit1Count AND n);
          bit1Count = bit1Count XOR n;
          mask = NOT (bit2Count AND bit1Count)
      in single2_loop (bit1Count AND mask) (bit2Count AND mask) nums)"

definition singleNumber2 :: "32 word list \<Rightarrow> 32 word" where
  "singleNumber2 nums = single2_loop 0 0 nums"

fun single3_loop :: "32 word \<Rightarrow> 32 word \<Rightarrow> 32 word \<Rightarrow> 32 word list \<Rightarrow> 32 word \<times> 32 word" where
  "single3_loop diff_bit a b [] = (a, b)"
| "single3_loop diff_bit a b (n # nums) =
     (if n AND diff_bit \<noteq> 0 then single3_loop diff_bit (a XOR n) b nums
      else single3_loop diff_bit a (b XOR n) nums)"

definition singleNumber3 :: "32 word list \<Rightarrow> 32 word \<times> 32 word" where
  "singleNumber3 nums =
     (let x = foldl (XOR) 0 nums; diff_bit = x AND - x in single3_loop diff_bit 0 0 nums)"

text \<open>\<open>std::partition\<close> may permute each part; the XOR of a part does not depend on its order.\<close>

definition singleNumber3_stl :: "32 word list \<Rightarrow> 32 word \<times> 32 word" where
  "singleNumber3_stl nums =
     (let x = foldl (XOR) 0 nums;
          diff_bit = x AND - x;
          parts = partition (\<lambda>n. n AND diff_bit \<noteq> 0) nums
      in (foldl (XOR) 0 (fst parts), foldl (XOR) 0 (snd parts)))"

subsection \<open>The model: Bit\<close>

function count_bits_loop :: "int \<Rightarrow> int \<Rightarrow> int list \<Rightarrow> int list option" where
  "count_bits_loop i loop ans =
     (if i \<le> loop then do {
        a \<leftarrow> ivec_at ans (drop_bit 1 i);
        b \<leftarrow> ivec_at (ans @ [a]) i;
        count_bits_loop (i + 2) loop (ans @ [a, b + 1])
      } else Some ans)"
  by pat_completeness auto
termination by (relation "measure (\<lambda>(i, loop, ans). nat (loop + 1 - i))") auto

definition countBits :: "int \<Rightarrow> int list option" where
  "countBits num =
     (if num + 1 < 0 then None
      else if num = 0 then Some [0]
      else
        let loop = (if num smod 2 \<noteq> 0 then num else num - 1) in do {
          ans \<leftarrow> count_bits_loop 2 loop [0, 1];
          if loop < num then do { a \<leftarrow> ivec_at ans (drop_bit 1 num); Some (ans @ [a]) }
          else Some ans
        })"

declare count_bits_loop.simps [simp del]

lemma and_minus_1_less: "n \<noteq> 0 \<Longrightarrow> unat (n AND (n - 1)) < unat (n :: 'a::len word)"
proof -
  assume "n \<noteq> 0"
  then have "unat (n - 1) < unat n"
    by (metis measure_unat)
  moreover have "unat (n AND (n - 1)) \<le> unat (n - 1)"
    by (metis word_and_le1 word_le_nat_alt)
  ultimately show ?thesis by simp
qed

function clear_loop :: "int \<Rightarrow> 32 word \<Rightarrow> int" where
  "clear_loop cnt x = (if x \<noteq> 0 then clear_loop (cnt + 1) (x AND (x - 1)) else cnt)"
  by pat_completeness auto
termination by (relation "measure (\<lambda>(cnt, x). unat x)") (auto simp: and_minus_1_less)

declare clear_loop.simps [simp del]

definition hammingDistance :: "32 word \<Rightarrow> 32 word \<Rightarrow> int" where
  "hammingDistance x y = clear_loop 0 (x XOR y)"

fun count_mask :: "int \<Rightarrow> int \<times> int \<Rightarrow> int list \<Rightarrow> int \<times> int" where
  "count_mask msk (c0, c1) [] = (c0, c1)"
| "count_mask msk (c0, c1) (n # nums) =
     (if n AND msk > 0 then count_mask msk (c0, c1 + 1) nums else count_mask msk (c0 + 1, c1) nums)"

definition totalHammingDistance :: "int list \<Rightarrow> int" where
  "totalHammingDistance nums =
     foldl (\<lambda>ans i. let (c0, c1) = count_mask (push_bit i 1) (0, 0) nums in i32 (ans + i32 (c0 * c1))) 0 [0..<31]"

fun range_and_loop :: "int \<Rightarrow> int \<Rightarrow> nat \<Rightarrow> int \<Rightarrow> int" where
  "range_and_loop m n 0 ans = ans"
| "range_and_loop m n (Suc i) ans =
     (let mask = push_bit i 1 in
      if mask AND m \<noteq> 0 \<and> mask AND n \<noteq> 0 then range_and_loop m n i (ans OR mask)
      else if mask AND m \<noteq> mask AND n then ans
      else range_and_loop m n i ans)"

definition highest_bit :: "int \<Rightarrow> nat" where
  "highest_bit m = floorlog 2 (nat m) - 1"

definition rangeBitwiseAnd :: "int \<Rightarrow> int \<Rightarrow> int" where
  "rangeBitwiseAnd m n =
     (if m = n \<or> m = 0 then m
      else
        let d1 = highest_bit m; d2 = highest_bit n in
        if d1 \<noteq> d2 then 0
        else range_and_loop m n d1 (push_bit d1 1))"

definition letter_mask :: "string \<Rightarrow> int" where
  "letter_mask w = foldl (\<lambda>acc c. acc OR push_bit (nat (code c - 97)) 1) 0 w"

fun best_with :: "int \<Rightarrow> int \<Rightarrow> (int \<times> int) list \<Rightarrow> int \<Rightarrow> int" where
  "best_with m l [] ans = ans"
| "best_with m l ((m', l') # ws) ans =
     best_with m l ws (if m AND m' = 0 then max ans (i32 (l * l')) else ans)"

fun max_product_loop :: "(int \<times> int) list \<Rightarrow> (int \<times> int) list \<Rightarrow> int \<Rightarrow> int" where
  "max_product_loop before [] ans = ans"
| "max_product_loop before ((m, l) # ws) ans =
     max_product_loop (before @ [(m, l)]) ws (best_with m l before ans)"

definition maxProduct :: "string list \<Rightarrow> int" where
  "maxProduct words = max_product_loop [] (map (\<lambda>w. (letter_mask w, int (length w))) words) 0"

fun utf8_loop :: "int \<Rightarrow> int list \<Rightarrow> bool" where
  "utf8_loop bytes [] = (bytes = 0)"
| "utf8_loop bytes (n # ds) =
     (if bytes > 0 then
        if n AND 0xC0 \<noteq> 0x80 then False else utf8_loop (bytes - 1) ds
      else if n AND 0x80 \<noteq> 0 then
        if n AND 0xE0 = 0xC0 then utf8_loop 1 ds
        else if n AND 0xF0 = 0xE0 then utf8_loop 2 ds
        else if n AND 0xF8 = 0xF0 then utf8_loop 3 ds
        else False
      else utf8_loop bytes ds)"

definition validUtf8 :: "int list \<Rightarrow> bool" where
  "validUtf8 ds = utf8_loop 0 ds"

function replacement_loop :: "int \<Rightarrow> int \<Rightarrow> int \<Rightarrow> int" where
  "replacement_loop n ones ans =
     (if n > 1 then
        (if n AND 1 \<noteq> 0 then replacement_loop (drop_bit 1 n) (ones + 1) (ans + 1)
         else if ones > 0 then replacement_loop (drop_bit 1 n) (if ones = 1 then 0 else 1) (ans + 1 + 1)
         else replacement_loop (drop_bit 1 n) ones (ans + 1))
      else if ones \<noteq> 0 then (if ones > 1 then ans + 2 else ans + 1) else ans)"
  by pat_completeness auto
termination by (relation "measure (\<lambda>(n, ones, ans). nat n)") (auto simp: drop_bit_eq_div)

declare replacement_loop.simps [simp del]

definition integerReplacement :: "int \<Rightarrow> int" where
  "integerReplacement n = replacement_loop n 0 0"

definition dna_lookup :: "char \<Rightarrow> int option" where
  "dna_lookup c =
     (if 0 \<le> code c \<and> code c < 85
      then Some (if c = CHR ''C'' then 1 else if c = CHR ''G'' then 2 else if c = CHR ''T'' then 3 else 0)
      else None)"

fun dna_key :: "int \<Rightarrow> string \<Rightarrow> int option" where
  "dna_key key [] = Some key"
| "dna_key key (c # cs) = do {
     d \<leftarrow> dna_lookup c;
     dna_key (push_bit 2 key OR d) cs
   }"

fun dna_loop :: "(int \<Rightarrow> int) \<Rightarrow> int \<Rightarrow> string \<Rightarrow> string \<Rightarrow> string list option" where
  "dna_loop subDna key window [] = Some []"
| "dna_loop subDna key window (c # cs) = do {
     d \<leftarrow> dna_lookup c;
     let key = (push_bit 2 key OR d) AND 0xFFFFF;
         window = tl window @ [c];
         cnt = subDna key;
         subDna = subDna(key := cnt + 1)
     in do {
       ans \<leftarrow> dna_loop subDna key window cs;
       Some (if cnt = 1 then window # ans else ans)
     }
   }"

definition findRepeatedDnaSequences :: "string \<Rightarrow> string list option" where
  "findRepeatedDnaSequences s =
     (if length s < 10 then Some []
      else do {
        key \<leftarrow> dna_key 0 (take 10 s);
        dna_loop ((\<lambda>_. 0)(key := 1)) key (take 10 s) (drop 10 s)
      })"

subsection \<open>The model: Bits\<close>

function bit_count_loop :: "int \<Rightarrow> int \<Rightarrow> int" where
  "bit_count_loop bits n = (if n > 0 then bit_count_loop (bits + 1) (drop_bit 1 n) else bits)"
  by pat_completeness auto
termination by (relation "measure (\<lambda>(bits, n). nat n)") (auto simp: drop_bit_eq_div)

declare bit_count_loop.simps [simp del]

definition bitCount :: "int \<Rightarrow> int" where
  "bitCount n = bit_count_loop 0 n"

function mask_loop :: "int \<Rightarrow> int \<Rightarrow> int" where
  "mask_loop m n = (if n > 0 then mask_loop (i32 (push_bit 1 m) OR 1) (n - 1) else m)"
  by pat_completeness auto
termination by (relation "measure (\<lambda>(m, n). nat n)") auto

declare mask_loop.simps [simp del]

definition low_mask :: "int \<Rightarrow> int" where
  "low_mask n = mask_loop 0 n"

definition hammingWeight :: "32 word \<Rightarrow> int" where
  "hammingWeight n = clear_loop 0 n"

definition isPowerOfTwo_v0 :: "int \<Rightarrow> bool" where
  "isPowerOfTwo_v0 n \<longleftrightarrow> hammingWeight (word_of_int n) = 1"

definition isPowerOfTwo :: "int \<Rightarrow> bool" where
  "isPowerOfTwo n \<longleftrightarrow> (if n \<le> 0 then False else n AND (n - 1) = 0)"

definition findComplement :: "int \<Rightarrow> int" where
  "findComplement num = num XOR low_mask (max (bitCount num) 1)"

definition isPowerOfFour :: "int \<Rightarrow> bool" where
  "isPowerOfFour num \<longleftrightarrow> num > 0 \<and> num AND (num - 1) = 0 \<and> 0x55555555 AND num \<noteq> 0"

definition hasAlternatingBits :: "int \<Rightarrow> bool" where
  "hasAlternatingBits n \<longleftrightarrow>
     (let or_n = n OR drop_bit 1 n in n AND drop_bit 1 n = 0 \<and> or_n AND i32 (or_n + 1) = 0)"

definition prime_counts :: "bool list" where
  "prime_counts =
     [False, False, True, True, False, True, False, True, False, False, False, True, False, True, False,
      False, False, True, False, True] @ replicate 12 False"

fun dp_fill :: "int list \<Rightarrow> int list \<Rightarrow> int list option" where
  "dp_fill dp [] = Some dp"
| "dp_fill dp (i # is) = do {
     a \<leftarrow> ivec_at dp (drop_bit 1 i);
     dp \<leftarrow> ivec_upd dp i (a + (i AND 1));
     dp_fill dp is
   }"

fun dp_count :: "int list \<Rightarrow> int \<Rightarrow> int list \<Rightarrow> int option" where
  "dp_count dp cnt [] = Some cnt"
| "dp_count dp cnt (i # is) = do {
     dp \<leftarrow> dp_fill dp [i];
     k \<leftarrow> ivec_at dp i;
     p \<leftarrow> ivec_at prime_counts k;
     dp_count dp (if p then cnt + 1 else cnt) is
   }"

definition countPrimeSetBits_v1 :: "int \<Rightarrow> int \<Rightarrow> int option" where
  "countPrimeSetBits_v1 L R = do {
     dp \<leftarrow> dp_fill (replicate 1000001 0) [1..L - 1];
     dp_count dp 0 [L..R]
   }"

fun count_prime_loop :: "int \<Rightarrow> int list \<Rightarrow> int option" where
  "count_prime_loop cnt [] = Some cnt"
| "count_prime_loop cnt (i # is) = do {
     p \<leftarrow> ivec_at prime_counts (hammingWeight (word_of_int i));
     count_prime_loop (if p then cnt + 1 else cnt) is
   }"

definition countPrimeSetBits :: "int \<Rightarrow> int \<Rightarrow> int option" where
  "countPrimeSetBits L R = count_prime_loop 0 [L..R]"

fun reverse_bits_loop :: "nat \<Rightarrow> 32 word \<Rightarrow> 32 word \<Rightarrow> 32 word" where
  "reverse_bits_loop 0 ans n = ans"
| "reverse_bits_loop (Suc i) ans n = reverse_bits_loop i (push_bit 1 ans + (n AND 1)) (drop_bit 1 n)"

definition reverseBits :: "32 word \<Rightarrow> 32 word" where
  "reverseBits n = reverse_bits_loop 32 0 n"

definition findTheDifference :: "string \<Rightarrow> string \<Rightarrow> char" where
  "findTheDifference s t =
     (let ans = foldl (\<lambda>a c. a XOR code c) 0 s; ans = foldl (\<lambda>a c. a XOR code c) ans t in chr ans)"

definition missingNumber :: "int list \<Rightarrow> int" where
  "missingNumber nums = foldl (XOR) (foldl (XOR) 0 nums) [1..int (length nums)]"

partial_function (option) getSum :: "32 word \<Rightarrow> 32 word \<Rightarrow> 32 word option" where
  "getSum a b = (if b \<noteq> 0 then getSum (a XOR b) (push_bit 1 (a AND b)) else Some a)"

fun watch_loop :: "int \<Rightarrow> int list \<Rightarrow> string list" where
  "watch_loop num [] = []"
| "watch_loop num (i # is) =
     (let hour = drop_bit 6 i; min = i AND 0x3F in
      if hammingWeight (word_of_int i) = num \<and> hour < 12 \<and> min < 60
      then (to_string hour @ '':'' @ (if min < 10 then ''0'' else '''') @ to_string min) # watch_loop num is
      else watch_loop num is)"

definition readBinaryWatch :: "int \<Rightarrow> string list" where
  "readBinaryWatch num = watch_loop num [0..1024]"

definition hex_char :: string where
  "hex_char = ''0123456789abcdef''"

fun hex_digits :: "nat \<Rightarrow> int \<Rightarrow> int list" where
  "hex_digits 0 num = []"
| "hex_digits (Suc i) num = (num AND 0xF) # hex_digits i (drop_bit 4 num)"

definition toHex :: "int \<Rightarrow> string" where
  "toHex num =
     (if num = 0 then ''0''
      else map (\<lambda>i. hex_char ! nat i) (dropWhile (\<lambda>d. d = 0) (rev (hex_digits 8 num))))"

subsection \<open>Parities of bit positions\<close>

lemma bit_foldl_xor:
  "bit (foldl (XOR) a xs) i \<longleftrightarrow> bit a i \<noteq> odd (length (filter (\<lambda>n. bit n i) xs))"
  for a :: "'a :: semiring_bit_operations"
  by (induction xs arbitrary: a) (auto simp: bit_xor_iff)

lemma count_list_filter: "count_list (filter P xs) y = (if P y then count_list xs y else 0)"
  by (induction xs) auto

lemma length_filter_sum: "length (filter P xs) = (\<Sum>y \<in> {y \<in> set xs. P y}. count_list xs y)"
proof -
  have "length (filter P xs) = (\<Sum>y \<in> set (filter P xs). count_list (filter P xs) y)"
    by (rule sum_count_set [symmetric]) auto
  then show ?thesis by (simp add: count_list_filter)
qed

text \<open>Only elements whose count is not a multiple of \<open>k\<close> matter modulo \<open>k\<close>.\<close>

lemma length_filter_mod:
  assumes "\<forall>y. y \<notin> X \<longrightarrow> k dvd count_list xs y" "finite X"
  shows "length (filter P xs) mod k = (\<Sum>y \<in> {y \<in> X. P y}. count_list xs y) mod k"
proof -
  let ?A = "{y \<in> set xs. P y}" and ?B = "{y \<in> X. P y}"
  have fin: "finite ?A" "finite ?B" using assms(2) by auto
  have pos: "y \<in> set xs" if "0 < count_list xs y" for y using that by (metis count_list_0_iff less_irrefl)
  have "(\<Sum>y \<in> ?A. count_list xs y) = (\<Sum>y \<in> ?A \<union> ?B. count_list xs y)"
    by (rule sum.mono_neutral_left) (use fin pos in auto)
  also have "\<dots> = (\<Sum>y \<in> ?A - ?B. count_list xs y) + (\<Sum>y \<in> ?B. count_list xs y)"
    using sum.union_diff2 [OF fin, of "count_list xs"] sum.subset_diff [of ?B "?A \<union> ?B" "count_list xs"] fin
    by (simp add: Un_Diff)
  finally have s: "length (filter P xs) = (\<Sum>y \<in> ?A - ?B. count_list xs y) + (\<Sum>y \<in> ?B. count_list xs y)"
    by (simp add: length_filter_sum)
  have "k dvd (\<Sum>y \<in> ?A - ?B. count_list xs y)" by (rule dvd_sum) (use assms(1) in auto)
  then obtain c where "(\<Sum>y \<in> ?A - ?B. count_list xs y) = k * c" by (rule dvdE)
  then show ?thesis unfolding s by simp
qed

lemma singleNumber_correct:
  assumes "\<forall>y. y \<noteq> x \<longrightarrow> even (count_list nums y)" "odd (count_list nums x)"
  shows "singleNumber nums = x"
proof (rule bit_eqI)
  fix i
  have "length (filter (\<lambda>n. bit n i) nums) mod 2 = (\<Sum>y \<in> {y \<in> {x}. bit y i}. count_list nums y) mod 2"
    by (rule length_filter_mod) (use assms(1) in auto)
  also have "{y \<in> {x}. bit y i} = (if bit x i then {x} else {})" by auto
  finally show "bit (singleNumber nums) i = bit x i"
    using assms(2) by (auto simp: singleNumber_def bit_foldl_xor odd_iff_mod_2_eq_one split: if_splits)
qed

text \<open>The two words of \<open>singleNumber2\<close> are, in every bit position, a counter modulo 3.\<close>

definition counter3 :: "nat \<Rightarrow> bool \<Rightarrow> bool \<Rightarrow> bool" where
  "counter3 k b1 b2 \<longleftrightarrow> b1 = (k mod 3 = 1) \<and> b2 = (k mod 3 = 2)"

lemma counter3_step:
  assumes "counter3 k b1 b2"
  shows "counter3 (if d then Suc k else k)
    ((b1 \<noteq> d) \<and> \<not> ((b2 \<noteq> (b1 \<and> d)) \<and> (b1 \<noteq> d)))
    ((b2 \<noteq> (b1 \<and> d)) \<and> \<not> ((b2 \<noteq> (b1 \<and> d)) \<and> (b1 \<noteq> d)))"
proof -
  have "k mod 3 = 0 \<or> k mod 3 = 1 \<or> k mod 3 = 2" by presburger
  then show ?thesis using assms by (cases d) (auto simp: counter3_def mod_Suc)
qed

lemma single2_loop_bit:
  assumes "counter3 k (bit b1 i) (bit b2 i)" "i < 32"
  shows "bit (single2_loop b1 b2 nums) i \<longleftrightarrow> (k + length (filter (\<lambda>n. bit n i) nums)) mod 3 = 1"
  using assms(1)
proof (induction nums arbitrary: b1 b2 k)
  case Nil
  then show ?case by (simp add: counter3_def)
next
  case (Cons n nums)
  let ?b2 = "b2 XOR (b1 AND n)" and ?b1 = "b1 XOR n"
  let ?m = "NOT (?b2 AND ?b1)"
  have "counter3 (if bit n i then Suc k else k) (bit (?b1 AND ?m) i) (bit (?b2 AND ?m) i)"
    using counter3_step [OF Cons.prems, of "bit n i"] assms(2) by (auto simp: bit_simps)
  from Cons.IH [OF this] show ?case by (simp add: Let_def)
qed

text \<open>When every element but \<open>x\<close> appears a multiple of three times, and \<open>x\<close> one more time than
  such a multiple, the bitwise counters of \<open>singleNumber2\<close> end with \<open>x\<close>.\<close>

theorem singleNumber2_correct:
  assumes "\<forall>y. y \<noteq> x \<longrightarrow> 3 dvd count_list nums y" "count_list nums x mod 3 = 1"
  shows "singleNumber2 nums = x"
proof (rule bit_word_eqI)
  fix i assume i: "i < LENGTH(32)"
  have "length (filter (\<lambda>n. bit n i) nums) mod 3 = (\<Sum>y \<in> {y \<in> {x}. bit y i}. count_list nums y) mod 3"
    by (rule length_filter_mod) (use assms(1) in auto)
  also have "{y \<in> {x}. bit y i} = (if bit x i then {x} else {})" by auto
  finally show "bit (singleNumber2 nums) i = bit x i"
    using assms(2) single2_loop_bit [of 0 0 i 0 nums] i by (auto simp: singleNumber2_def counter3_def split: if_splits)
qed

lemma singleNumber2_correct_witness: "singleNumber2 [7, 2, 7, 7, 2, 9, 2] = 9"
  by (rule singleNumber2_correct) (auto simp: numeral_3_eq_3 [symmetric])

subsection \<open>Two single numbers\<close>

lemma single3_loop_parts:
  "single3_loop d a b nums =
     (foldl (XOR) a (filter (\<lambda>n. n AND d \<noteq> 0) nums), foldl (XOR) b (filter (\<lambda>n. \<not> n AND d \<noteq> 0) nums))"
  by (induction nums arbitrary: a b) auto

lemma singleNumber3_eq_stl: "singleNumber3 nums = singleNumber3_stl nums"
  by (simp add: singleNumber3_def singleNumber3_stl_def Let_def single3_loop_parts partition_filter_conv comp_def)

lemma odd_part: "0 < (X :: int) \<Longrightarrow> \<exists>k m. X = 2 ^ k * (2 * m + 1)"
proof (induction "nat X" arbitrary: X rule: less_induct)
  case less
  show ?case
  proof (cases "even X")
    case True
    then have "nat (X div 2) < nat X" "0 < X div 2" using less.prems by auto
    then obtain k m where k: "X div 2 = 2 ^ k * (2 * m + 1)" using less.hyps by blast
    have "X = 2 * (X div 2)" using True by simp
    then have "X = 2 ^ Suc k * (2 * m + 1)" unfolding k power_Suc mult.assoc .
    then show ?thesis by blast
  next
    case False
    then have "X = 2 ^ 0 * (2 * (X div 2) + 1)" by simp
    then show ?thesis by blast
  qed
qed

lemma int_lowest_bit: "(2 ^ k * (2 * m + 1)) AND - (2 ^ k * (2 * m + 1)) = (2 ^ k :: int)"
proof -
  have "- (2 * m + 1) = 2 * NOT m + (1 :: int)" by (simp add: not_int_def)
  moreover have "(2 * m + 1) AND (2 * NOT m + 1) = (1 :: int)"
    by (subst and_rec) (simp add: bit.conj_cancel_right)
  ultimately have "(2 * m + 1) AND - (2 * m + 1) = (1 :: int)" by (simp only:)
  then have "push_bit k (2 * m + 1) AND push_bit k (- (2 * m + 1)) = push_bit k (1 :: int)"
    by (simp only: push_bit_and [symmetric])
  then show ?thesis
    by (simp only: push_bit_eq_mult mult.commute [of "2 ^ k" "2 * m + 1"] minus_mult_left mult_1)
qed

text \<open>\<open>x & -x\<close> isolates one bit of \<open>x\<close>.\<close>

lemma lowest_bit:
  assumes "x \<noteq> (0 :: 32 word)"
  obtains k where "x AND - x = 2 ^ k" "bit x k" "k < 32"
proof -
  have "0 < uint x" using assms by (simp add: less_le unsigned_eq_0_iff)
  then obtain k m where k: "uint x = 2 ^ k * (2 * m + 1)" using odd_part by blast
  have x: "x = of_int (2 ^ k * (2 * m + 1))" unfolding k [symmetric] by simp
  have "x AND - x = of_int ((2 ^ k * (2 * m + 1)) AND - (2 ^ k * (2 * m + 1)))"
    unfolding x by (simp only: of_int_and_eq of_int_minus)
  then have and_eq: "x AND - x = 2 ^ k" unfolding int_lowest_bit by simp
  have "bit (uint x) k" unfolding k by (simp add: bit_iff_odd)
  then have "bit x k" by (simp add: bit_uint_iff)
  moreover then have "k < 32" using bit_imp_le_length [of x k] by simp
  ultimately show ?thesis using and_eq that by blast
qed

text \<open>When exactly the two numbers \<open>a\<close> and \<open>b\<close> appear an odd number of times, \<open>singleNumber3\<close> returns
  them, in some order, and the version with \<open>std::partition\<close> returns the same pair.\<close>

theorem singleNumber3_correct:
  assumes "a \<noteq> b" "\<forall>y. y \<notin> {a, b} \<longrightarrow> even (count_list nums y)"
    "odd (count_list nums a)" "odd (count_list nums b)"
  shows "singleNumber3 nums \<in> {(a, b), (b, a)} \<and> singleNumber3_stl nums = singleNumber3 nums"
proof -
  have parity: "odd (length (filter P nums)) \<longleftrightarrow> P a \<noteq> P b" for P
  proof -
    have "length (filter P nums) mod 2 = (\<Sum>y \<in> {y \<in> {a, b}. P y}. count_list nums y) mod 2"
      by (rule length_filter_mod) (use assms(2) in auto)
    then have "odd (length (filter P nums)) \<longleftrightarrow> odd (\<Sum>y \<in> {y \<in> {a, b}. P y}. count_list nums y)"
      by (simp only: odd_iff_mod_2_eq_one)
    also have "{y \<in> {a, b}. P y} = (if P a then {a} else {}) \<union> (if P b then {b} else {})" by auto
    also have "odd (\<Sum>y \<in> \<dots>. count_list nums y) \<longleftrightarrow> P a \<noteq> P b"
      using assms(1,3,4) by (cases "P a"; cases "P b") simp_all
    finally show ?thesis .
  qed
  have xor: "foldl (XOR) 0 (filter P nums) = (if P a then a else 0) XOR (if P b then b else 0)" for P
    by (rule bit_eqI) (auto simp: bit_foldl_xor filter_filter parity bit_xor_iff)
  define d where "d = (a XOR b) AND - (a XOR b)"
  have "a XOR b \<noteq> 0" using assms(1) by (metis bit.xor_self xor.assoc xor.right_neutral)
  then obtain k where k: "d = 2 ^ k" "bit (a XOR b) k" "k < 32" unfolding d_def by (rule lowest_bit)
  have bit_d: "n AND d \<noteq> 0 \<longleftrightarrow> bit n k" for n
    unfolding k(1) using k(3) by (simp add: and_exp_eq_0_iff_not_bit)
  have "foldl (XOR) 0 nums = a XOR b" using xor [of "\<lambda>_. True"] by simp
  then have "singleNumber3 nums = (foldl (XOR) 0 (filter (\<lambda>n. bit n k) nums), foldl (XOR) 0 (filter (\<lambda>n. \<not> bit n k) nums))"
    by (simp add: singleNumber3_def Let_def single3_loop_parts bit_d d_def [symmetric] del: not_not)
  moreover have "bit a k \<noteq> bit b k" using k(2) by (simp add: bit_xor_iff)
  ultimately show ?thesis unfolding xor singleNumber3_eq_stl [symmetric] by auto
qed

lemma singleNumber3_correct_witness:
  "singleNumber3 [1, 2, 1, 3, 2, 5] \<in> {(3, 5), (5, 3)} \<and>
   singleNumber3_stl [1, 2, 1, 3, 2, 5] = singleNumber3 [1, 2, 1, 3, 2, 5]"
  by (rule singleNumber3_correct) auto

subsection \<open>Counting ones\<close>

definition popcount :: "'a :: semiring_bits \<Rightarrow> nat" where
  "popcount x = card {i. bit x i}"

lemma finite_bits_word: "finite {i. bit (x :: 'a::len word) i}"
  by (rule finite_subset [of _ "{..<LENGTH('a)}"]) (auto dest: bit_imp_le_length)

lemma popcount_and_minus_1:
  assumes "x \<noteq> (0 :: 32 word)"
  shows "popcount x = Suc (popcount (x AND (x - 1)))"
proof -
  obtain k where k: "x AND - x = 2 ^ k" "bit x k" "k < 32" using assms by (rule lowest_bit)
  have "x AND (x - 1) = x AND NOT (x AND - x)"
    by (simp add: minus_eq_not_minus_1 bit.conj_disj_distrib)
  then have "{i. bit (x AND (x - 1)) i} = {i. bit x i} - {k}"
    unfolding k(1) using k(3) bit_imp_le_length [of x] by (auto simp: bit_simps)
  moreover have "Suc (card ({i. bit x i} - {k})) = card {i. bit x i}"
    by (rule card_Suc_Diff1 [OF finite_bits_word]) (use k(2) in simp)
  ultimately show ?thesis by (simp only: popcount_def)
qed

lemma clear_loop_popcount: "clear_loop cnt x = cnt + int (popcount x)"
proof (induction cnt x rule: clear_loop.induct)
  case (1 cnt x)
  show ?case
  proof (cases "x = 0")
    case False
    then show ?thesis using 1 popcount_and_minus_1 [OF False] by (simp add: clear_loop.simps [of cnt x])
  qed (simp add: clear_loop.simps popcount_def)
qed

lemma hammingWeight_popcount: "hammingWeight n = int (popcount n)"
  by (simp add: hammingWeight_def clear_loop_popcount)

lemma hammingDistance_differing: "hammingDistance x y = int (card {i. bit x i \<noteq> bit y i})"
  by (simp add: hammingDistance_def clear_loop_popcount popcount_def bit_xor_iff)

subsection \<open>Addition without a plus\<close>

lemma add_xor_and: "a + b = (a XOR b) + push_bit 1 (a AND b)" for a b :: "'a::len word"
proof -
  have "a = (a AND b) + (a AND NOT b)" "b = (a AND b) + (NOT a AND b)" "a XOR b = (a AND NOT b) + (NOT a AND b)"
    by (subst disjunctive_add_eq_or; auto simp: bit_simps intro!: bit_eqI)+
  then have "a + b = (a XOR b) + ((a AND b) + (a AND b))" by (metis add.commute add.left_commute)
  then show ?thesis by (simp add: push_bit_eq_mult)
qed

lemma bit_double: "bit (push_bit 1 x) i \<longleftrightarrow> 0 < i \<and> i < 32 \<and> bit x (i - 1)" for x :: "32 word"
  by (cases i) (auto simp: bit_push_bit_iff simp del: push_bit_Suc)

text \<open>Every round moves the lowest bit of the carry up, so it is gone after 32 rounds.\<close>

lemma getSum_rounds: "k \<le> 32 \<Longrightarrow> \<forall>i < 32 - k. \<not> bit b i \<Longrightarrow> getSum a b = Some (a + b)"
proof (induction k arbitrary: a b)
  case 0
  then have "b = 0" by (intro bit_word_eqI) simp
  then show ?case by (subst getSum.simps) simp
next
  case (Suc k)
  have "\<forall>i < 32 - k. \<not> bit (push_bit 1 (a AND b)) i"
  proof (intro allI impI)
    fix i assume "i < 32 - k"
    then show "\<not> bit (push_bit 1 (a AND b)) i" using Suc.prems(2) by (auto simp only: bit_double bit_and_iff)
  qed
  then have "getSum (a XOR b) (push_bit 1 (a AND b)) = Some (a + b)"
    using Suc.IH Suc.prems(1) add_xor_and [of a b] by simp
  then show ?case by (subst getSum.simps) simp
qed

text \<open>The loop of \<open>getSum\<close> always ends, and returns the sum modulo \<open>2^32\<close>.\<close>

theorem getSum_correct: "getSum a b = Some (a + b)"
  by (rule getSum_rounds [of 32]) auto

subsection \<open>Reversing\<close>

lemma reverse_bits_loop_bit:
  "i \<le> 32 \<Longrightarrow> (\<forall>j \<ge> 32 - i. \<not> bit ans j) \<Longrightarrow> k < 32 \<Longrightarrow>
   bit (reverse_bits_loop i ans n) k = (if k < i then bit n (i - 1 - k) else bit ans (k - i))"
proof (induction i arbitrary: ans n)
  case (Suc i)
  define A where "A = push_bit 1 ans + (n AND 1)"
  have or: "A = push_bit 1 ans OR (n AND 1)"
    unfolding A_def
    by (rule disjunctive_add_eq_or, rule bit_eqI) (auto simp only: bit_double bit_and_iff bit_1_iff bit_0_eq)
  have b: "bit A j = (if j = 0 then bit n 0 else j < 32 \<and> bit ans (j - 1))" for j
    unfolding or bit_or_iff bit_double bit_and_iff bit_1_iff by auto
  have "\<forall>j \<ge> 32 - i. \<not> bit A j" using Suc.prems by (auto simp: b)
  then have "bit (reverse_bits_loop i A (drop_bit 1 n)) k =
      (if k < i then bit (drop_bit 1 n) (i - 1 - k) else bit A (k - i))"
    using Suc.IH Suc.prems by simp
  moreover have "Suc (i - 1 - k) = i - k" if "k < i" using that by simp
  moreover have "reverse_bits_loop (Suc i) ans n = reverse_bits_loop i A (drop_bit 1 n)"
    by (simp only: reverse_bits_loop.simps A_def)
  ultimately show ?case using Suc.prems(1,3) by (auto simp: b bit_drop_bit_eq less_Suc_eq)
qed simp

lemma reverseBits_bit: "k < 32 \<Longrightarrow> bit (reverseBits n) k = bit n (31 - k)"
  by (simp add: reverseBits_def reverse_bits_loop_bit)

lemma reverseBits_involution: "reverseBits (reverseBits n) = n"
  by (rule bit_word_eqI) (simp add: reverseBits_bit)

subsection \<open>Integer replacement\<close>

inductive replaces :: "int \<Rightarrow> int \<Rightarrow> bool" where
  halve: "even n \<Longrightarrow> replaces n (n div 2)"
| up: "odd n \<Longrightarrow> replaces n (n + 1)"
| down: "odd n \<Longrightarrow> replaces n (n - 1)"

inductive_cases replaces_cases: "replaces n m"

text \<open>The recurrence of the least number of steps: after a step up or down an odd number is halved.\<close>

function fewest :: "int \<Rightarrow> nat" where
  "fewest n =
     (if n \<le> 1 then 0
      else if even n then Suc (fewest (n div 2))
      else Suc (Suc (min (fewest (n div 2)) (fewest (n div 2 + 1)))))"
  by pat_completeness auto
termination by (relation "measure nat") (auto, presburger)

declare fewest.simps [simp del]

lemma fewest_1 [simp]: "fewest 1 = 0" by (simp add: fewest.simps)

lemma fewest_even: "1 \<le> m \<Longrightarrow> fewest (2 * m) = Suc (fewest m)"
  by (simp add: fewest.simps [of "2 * m"])

lemma fewest_odd: "1 \<le> m \<Longrightarrow> fewest (2 * m + 1) = Suc (Suc (min (fewest m) (fewest (m + 1))))"
  by (simp add: fewest.simps [of "2 * m + 1"])

lemma double_cases: obtains m where "n = 2 * m" | m where "n = 2 * m + (1 :: int)"
  by (metis evenE oddE)

lemma fewest_smooth: "1 \<le> n \<Longrightarrow> fewest (n + 1) \<le> Suc (fewest n) \<and> fewest n \<le> Suc (fewest (n + 1))"
proof (induction "nat n" arbitrary: n rule: less_induct)
  case less
  show ?case
  proof (cases n rule: double_cases)
    case (1 m)
    then show ?thesis using less.prems less.hyps [of m] by (simp add: fewest_even fewest_odd min_def)
  next
    case (2 m)
    show ?thesis
    proof (cases "m = 0")
      case True
      then show ?thesis using 2 by (simp add: fewest.simps [of 2])
    next
      case False
      then have "fewest (n + 1) = Suc (fewest (m + 1))" using 2 less.prems fewest_even [of "m + 1"] by (simp add: algebra_simps)
      then show ?thesis using 2 False less.prems less.hyps [of m] by (simp add: fewest_odd min_def)
    qed
  qed
qed

lemma fewest_step: "replaces n m \<Longrightarrow> 1 \<le> n \<Longrightarrow> fewest n \<le> Suc (fewest m)"
proof (cases n rule: double_cases)
  case (1 j)
  assume "replaces n m" "1 \<le> n"
  then show ?thesis using 1 by (auto elim!: replaces_cases simp: fewest_even)
next
  case (2 j)
  assume r: "replaces n m" "1 \<le> n"
  show ?thesis
  proof (cases "j = 0")
    case False
    then have "fewest (2 * j) = Suc (fewest j)" "fewest (2 * j + 2) = Suc (fewest (j + 1))"
      using 2 r(2) fewest_even [of j] fewest_even [of "j + 1"] by (simp_all add: algebra_simps)
    moreover have "fewest n = Suc (Suc (min (fewest j) (fewest (j + 1))))" using 2 r(2) False by (simp add: fewest_odd)
    moreover have "m = 2 * j \<or> m = 2 * j + 2" using r 2 by (auto elim!: replaces_cases)
    ultimately show ?thesis by auto
  qed (use 2 in simp)
qed

lemma replaces_pos: "replaces n m \<Longrightarrow> 1 < n \<Longrightarrow> 1 \<le> m"
  by (auto elim!: replaces_cases)

lemma fewest_lower: "(replaces ^^ k) n 1 \<Longrightarrow> 1 \<le> n \<Longrightarrow> fewest n \<le> k"
proof (induction k arbitrary: n)
  case (Suc k)
  show ?case
  proof (cases "n = 1")
    case False
    obtain m where m: "replaces n m" "(replaces ^^ k) m 1" using Suc.prems(1) relpowp_Suc_D2 by metis
    have "1 \<le> m" using replaces_pos [OF m(1)] False Suc.prems(2) by simp
    then show ?thesis using Suc.IH [OF m(2)] fewest_step [OF m(1) Suc.prems(2)] by simp
  qed simp
qed simp

lemma fewest_reached: "1 \<le> n \<Longrightarrow> (replaces ^^ fewest n) n 1"
proof (induction n rule: fewest.induct)
  case (1 n)
  show ?case
  proof (cases n rule: double_cases)
    case n: (1 m)
    have "2 * m \<noteq> 1" by presburger
    then have "(replaces ^^ fewest m) m 1" "replaces n m" using n 1 replaces.halve [of n] by simp_all
    then have "(replaces ^^ Suc (fewest m)) n 1" by (rule relpowp_Suc_I2 [rotated])
    then show ?thesis using n 1 by (simp add: fewest_even)
  next
    case n: (2 m)
    show ?thesis
    proof (cases "m = 0")
      case False
      then have m: "1 \<le> m" and f: "fewest n = Suc (Suc (min (fewest m) (fewest (m + 1))))"
        using n 1 by (simp_all add: fewest_odd)
      have down: "replaces n (2 * m)" "replaces (2 * m) m" and up: "replaces n (2 * (m + 1))" "replaces (2 * (m + 1)) (m + 1)"
        using replaces.down [of n] replaces.up [of n] replaces.halve [of "2 * m"] replaces.halve [of "2 * (m + 1)"] n
        by (simp_all add: algebra_simps)
      have "(replaces ^^ fewest m) m 1" "(replaces ^^ fewest (m + 1)) (m + 1) 1" using 1 n m by simp_all
      then have "(replaces ^^ Suc (Suc (fewest m))) n 1" "(replaces ^^ Suc (Suc (fewest (m + 1)))) n 1"
        using down up relpowp_Suc_I2 [of replaces] by metis+
      then show ?thesis unfolding f by (cases "fewest m \<le> fewest (m + 1)") (simp_all only: min_def if_True if_False)
    qed (use n in simp)
  qed
qed

text \<open>What is left to do after \<open>ones\<close> ones have been shifted out below \<open>n\<close>.\<close>

definition rest_steps :: "int \<Rightarrow> int \<Rightarrow> nat" where
  "rest_steps ones n =
     (if ones = 0 then fewest n
      else if ones = 1 then Suc (min (fewest n) (fewest (n + 1)))
      else Suc (fewest (n + 1)))"

lemma replacement_loop_steps:
  "1 \<le> n \<Longrightarrow> 0 \<le> ones \<Longrightarrow> replacement_loop n ones ans = ans + int (rest_steps ones n)"
proof (induction n ones ans rule: replacement_loop.induct)
  case (1 n ones ans)
  note unfold = replacement_loop.simps [of n ones ans]
  show ?case
  proof (cases "n = 1")
    case True
    have "fewest 2 = 1" using fewest_even [of 1] by simp
    then show ?thesis using True "1.prems" unfolding unfold by (simp add: rest_steps_def)
  next
    case False
    then have n: "1 < n" using "1.prems" by simp
    show ?thesis
    proof (cases n rule: double_cases)
      case e: (1 m)
      then have m: "1 \<le> m" "drop_bit 1 n = m" "n AND 1 = 0" using n by (simp_all add: drop_bit_eq_div and_one_eq)
      note s = fewest_smooth [OF m(1)] fewest_even [OF m(1)] fewest_odd [OF m(1)]
      consider "ones = 0" | "ones = 1" | "1 < ones" using "1.prems"(2) by linarith
      then show ?thesis
      proof cases
        case 1
        then show ?thesis using "1.IH"(3) n m s unfolding unfold by (simp add: rest_steps_def e)
      next
        case 2
        then show ?thesis using "1.IH"(2) n m s unfolding unfold by (simp add: rest_steps_def e min_def)
      next
        case 3
        then show ?thesis using "1.IH"(2) n m s unfolding unfold by (simp add: rest_steps_def e)
      qed
    next
      case o: (2 m)
      then have m: "1 \<le> m" "drop_bit 1 n = m" "n AND 1 = 1" using n by (simp_all add: drop_bit_eq_div and_one_eq)
      have "fewest (2 * m + 2) = Suc (fewest (m + 1))" using fewest_even [of "m + 1"] m(1) by (simp add: algebra_simps)
      note s = fewest_smooth [OF m(1)] this fewest_odd [OF m(1)]
      have "replacement_loop m (ones + 1) (ans + 1) = ans + 1 + int (rest_steps (ones + 1) m)"
        using "1.IH"(1) n m "1.prems"(2) by simp
      moreover consider "ones = 0" | "ones = 1" | "1 < ones" using "1.prems"(2) by linarith
      then have "rest_steps ones n = Suc (rest_steps (ones + 1) m)"
        by cases (use s in \<open>auto simp: rest_steps_def o min_def add.commute\<close>)
      ultimately show ?thesis using n m unfolding unfold by simp
    qed
  qed
qed

text \<open>C29: For a positive number \<open>integerReplacement\<close> returns the least number of replacements that lead
  to 1, where an even number is halved and an odd one increased or decreased.\<close>

theorem integerReplacement_minimal:
  assumes "1 \<le> n"
  shows "integerReplacement n = int (LEAST k. (replaces ^^ k) n 1)"
proof -
  have "(LEAST k. (replaces ^^ k) n 1) = fewest n"
    by (rule Least_equality) (use assms fewest_reached fewest_lower in auto)
  then show ?thesis using replacement_loop_steps [OF assms, of 0 0] by (simp add: integerReplacement_def rest_steps_def)
qed

lemma integerReplacement_minimal_witness: "integerReplacement 15 = int (LEAST k. (replaces ^^ k) 15 1)"
  by (rule integerReplacement_minimal) simp

subsection \<open>The total Hamming distance\<close>

fun pairs :: "'a list \<Rightarrow> ('a \<times> 'a) list" where
  "pairs [] = []"
| "pairs (x # xs) = map (Pair x) xs @ pairs xs"

lemma set_pairs_subset: "(x, y) \<in> set (pairs xs) \<Longrightarrow> x \<in> set xs \<and> y \<in> set xs"
  by (induction xs) auto

lemma length_pairs: "2 * length (pairs xs) \<le> length xs * length xs"
  by (induction xs) auto

lemma count_mask_eq:
  "count_mask (push_bit i 1) (c0, c1) nums =
     (c0 + int (length (filter (\<lambda>n. \<not> bit n i) nums)), c1 + int (length (filter (\<lambda>n. bit n i) nums)))"
proof (induction nums arbitrary: c0 c1)
  case (Cons n nums)
  have "0 < n AND push_bit i 1 \<longleftrightarrow> bit n i"
  proof -
    have "n AND push_bit i 1 = (if bit n i then 2 ^ i else 0)"
      by (rule bit_eqI) (auto simp: bit_simps)
    then show ?thesis by simp
  qed
  then show ?case using Cons by simp
qed simp

lemma differing_pairs:
  "int (length (filter (\<lambda>n. \<not> P n) nums)) * int (length (filter P nums)) =
     (\<Sum>(x, y) \<leftarrow> pairs nums. of_bool (P x \<noteq> P y))"
proof (induction nums)
  case (Cons n nums)
  have "(\<Sum>y \<leftarrow> nums. of_bool (P n \<noteq> P y)) = int (length (filter (\<lambda>y. P n \<noteq> P y) nums))"
    by (induction nums) auto
  then show ?case using Cons by (cases "P n") (simp_all add: comp_def algebra_simps)
qed simp

lemma foldl_sum_i32:
  assumes "\<forall>i \<in> set is. 0 \<le> f i \<and> f i \<le> b" "0 \<le> a" "a + b * int (length is) \<le> 2147483647" "0 \<le> b"
  shows "foldl (\<lambda>ans i. i32 (ans + f i)) a is = a + (\<Sum>i \<leftarrow> is. f i)"
  using assms
proof (induction "is" arbitrary: a)
  case (Cons i "is")
  have b: "0 \<le> f i" "f i \<le> b" using Cons.prems(1) by auto
  define X where "X = b * int (length is)"
  have len: "b * int (length (i # is)) = b + X" by (simp add: X_def algebra_simps)
  have "a + (b + X) \<le> 2147483647" using Cons.prems(3) unfolding len .
  moreover have "0 \<le> X" using Cons.prems(4) by (simp add: X_def)
  ultimately have "i32 (a + f i) = a + f i" "a + f i + X \<le> 2147483647"
    using b Cons.prems(2,4) by (intro i32_id, linarith+)
  then show ?case using Cons.IH [of "a + f i"] Cons.prems b by (simp add: X_def)
qed simp

lemma sum_pairs_swap:
  "(\<Sum>i \<leftarrow> is. \<Sum>p \<leftarrow> ps. f i p) = (\<Sum>p \<leftarrow> ps. \<Sum>i \<leftarrow> is. f i p :: int)"
  by (induction ps) (simp_all add: sum_list_addf)

lemma distance_bits:
  assumes "0 \<le> x" "x < 2147483648" "0 \<le> y" "y < 2147483648"
  shows "hammingDistance (of_int x) (of_int y) = (\<Sum>i \<leftarrow> [0..<31]. of_bool (bit x i \<noteq> bit y i))"
proof -
  have high: "\<not> bit z i" if "0 \<le> z" "z < 2147483648" "31 \<le> i" for z :: int and i
  proof -
    have "z < 2 ^ 31" using that by simp
    also have "(2 :: int) ^ 31 \<le> 2 ^ i" using that(3) by (rule power_increasing) simp
    finally show ?thesis using that(1) by (simp add: bit_iff_odd)
  qed
  have bits: "{i. bit (of_int x :: 32 word) i \<noteq> bit (of_int y :: 32 word) i} = {i. i < 31 \<and> bit x i \<noteq> bit y i}"
  proof (rule Collect_cong)
    fix i
    show "(bit (of_int x :: 32 word) i \<noteq> bit (of_int y :: 32 word) i) = (i < 31 \<and> bit x i \<noteq> bit y i)"
      using high [of x i] high [of y i] assms by (cases "i < 31") (auto simp: bit_word_of_int_iff)
  qed
  have "int (card {i. bit (of_int x :: 32 word) i \<noteq> bit (of_int y :: 32 word) i}) =
      (\<Sum>i \<in> {i. i < 31 \<and> bit x i \<noteq> bit y i}. 1)" unfolding bits by simp
  also have "\<dots> = (\<Sum>i \<in> {..<31}. of_bool (bit x i \<noteq> bit y i))"
    by (rule sum.mono_neutral_cong_left) auto
  also have "\<dots> = (\<Sum>i \<leftarrow> [0..<31]. of_bool (bit x i \<noteq> bit y i))"
    by (simp add: sum_list_distinct_conv_sum_set atLeast0LessThan)
  finally show ?thesis by (simp add: hammingDistance_differing)
qed

text \<open>For up to 10000 non-negative ints the bit-by-bit count of \<open>totalHammingDistance\<close> is the sum of
  \<open>hammingDistance\<close> over all pairs, without overflow.\<close>

theorem totalHammingDistance_pairs:
  assumes "\<forall>n \<in> set nums. 0 \<le> n \<and> n < 2147483648" "length nums \<le> 10000"
  shows "totalHammingDistance nums = (\<Sum>(x, y) \<leftarrow> pairs nums. hammingDistance (of_int x) (of_int y))"
proof -
  define f where "f i = (\<Sum>(x, y) \<leftarrow> pairs nums. of_bool (bit x i \<noteq> bit y i) :: int)" for i
  have len: "int (length (pairs nums)) \<le> 50000000"
  proof -
    have "length nums * length nums \<le> 10000 * 10000" using assms(2) by (rule mult_le_mono [OF _ assms(2)])
    then have "2 * length (pairs nums) \<le> 10000 * 10000" using length_pairs [of nums] by (rule le_trans [rotated])
    then show ?thesis by simp
  qed
  have f: "0 \<le> f i \<and> f i \<le> 50000000" for i
  proof -
    have "0 \<le> (\<Sum>p \<leftarrow> ps. of_bool (P p) :: int) \<and> (\<Sum>p \<leftarrow> ps. of_bool (P p) :: int) \<le> int (length ps)"
      for ps :: "(int \<times> int) list" and P by (induction ps) (auto simp: of_bool_def)
    from this [of "\<lambda>(x, y). bit x i \<noteq> bit y i" "pairs nums"] show ?thesis
      using len by (simp add: f_def case_prod_beta')
  qed
  have prod: "(let (c0, c1) = count_mask (push_bit i 1) (0, 0) nums in i32 (ans + i32 (c0 * c1))) = i32 (ans + f i)"
    for ans i
  proof -
    have "int (length (filter (\<lambda>n. \<not> bit n i) nums)) * int (length (filter (\<lambda>n. bit n i) nums)) = f i"
      unfolding f_def by (rule differing_pairs)
    moreover have "i32 (f i) = f i" using f [of i] by (intro i32_id) linarith+
    ultimately show ?thesis unfolding count_mask_eq by simp
  qed
  have "totalHammingDistance nums = (\<Sum>i \<leftarrow> [0..<31]. f i)"
    unfolding totalHammingDistance_def prod
    using foldl_sum_i32 [of "[0..<31]" f 50000000 0] f by simp
  also have "\<dots> = (\<Sum>p \<leftarrow> pairs nums. \<Sum>i \<leftarrow> [0..<31]. case p of (x, y) \<Rightarrow> of_bool (bit x i \<noteq> bit y i))"
    unfolding f_def by (rule sum_pairs_swap)
  also have "\<dots> = (\<Sum>(x, y) \<leftarrow> pairs nums. hammingDistance (of_int x) (of_int y))"
    by (intro arg_cong [where f = sum_list] map_cong refl)
      (use set_pairs_subset assms(1) in \<open>fastforce simp: distance_bits\<close>)
  finally show ?thesis .
qed

lemma totalHammingDistance_pairs_witness:
  "totalHammingDistance [4, 14, 2] = (\<Sum>(x, y) \<leftarrow> pairs [4, 14, 2]. hammingDistance (of_int x) (of_int y))"
  by (rule totalHammingDistance_pairs) auto

subsection \<open>UTF-8\<close>

text \<open>A leading byte and the number of continuation bytes it announces.\<close>

definition leads :: "int \<Rightarrow> nat \<Rightarrow> bool" where
  "leads b k \<longleftrightarrow>
     (0 \<le> b \<and> b < 128 \<and> k = 0) \<or> (192 \<le> b \<and> b < 224 \<and> k = 1) \<or>
     (224 \<le> b \<and> b < 240 \<and> k = 2) \<or> (240 \<le> b \<and> b < 248 \<and> k = 3)"

definition continues :: "int \<Rightarrow> bool" where
  "continues b \<longleftrightarrow> 128 \<le> b \<and> b < 192"

inductive utf8_text :: "int list \<Rightarrow> bool" where
  empty_text: "utf8_text []"
| one_char: "leads b (length cs) \<Longrightarrow> \<forall>c \<in> set cs. continues c \<Longrightarrow> utf8_text ds \<Longrightarrow> utf8_text (b # cs @ ds)"

inductive_cases utf8_text_Cons: "utf8_text (b # ds)"

lemma byte_masks:
  "list_all (\<lambda>b. (b AND 0xC0 = 0x80) = (128 \<le> b \<and> b < 192) \<and> (b AND 0x80 \<noteq> 0) = (128 \<le> b) \<and>
     (b AND 0xE0 = 0xC0) = (192 \<le> b \<and> b < 224) \<and> (b AND 0xF0 = 0xE0) = (224 \<le> b \<and> b < 240) \<and>
     (b AND 0xF8 = 0xF0) = (240 \<le> b \<and> b < (248 :: int))) [0..255]"
  by code_simp

lemma byte_mask:
  assumes "0 \<le> b" "b < (256 :: int)"
  shows "b AND 0xC0 = 0x80 \<longleftrightarrow> 128 \<le> b \<and> b < 192" "b AND 0x80 \<noteq> 0 \<longleftrightarrow> 128 \<le> b"
    "b AND 0xE0 = 0xC0 \<longleftrightarrow> 192 \<le> b \<and> b < 224" "b AND 0xF0 = 0xE0 \<longleftrightarrow> 224 \<le> b \<and> b < 240"
    "b AND 0xF8 = 0xF0 \<longleftrightarrow> 240 \<le> b \<and> b < 248"
  using byte_masks assms by (auto simp: list_all_iff)

lemma utf8_text_Cons_iff:
  "utf8_text (b # ds) \<longleftrightarrow>
     (\<exists>k pre rest. leads b k \<and> ds = pre @ rest \<and> length pre = k \<and> (\<forall>c \<in> set pre. continues c) \<and> utf8_text rest)"
  by (auto elim!: utf8_text_Cons intro: one_char)

lemma utf8_loop_text:
  "\<forall>b \<in> set ds. 0 \<le> b \<and> b < 256 \<Longrightarrow>
   utf8_loop (int k) ds \<longleftrightarrow>
     (\<exists>pre rest. ds = pre @ rest \<and> length pre = k \<and> (\<forall>c \<in> set pre. continues c) \<and> utf8_text rest)"
proof (induction ds arbitrary: k)
  case Nil
  then show ?case by (auto intro: empty_text)
next
  case (Cons b ds)
  have b: "0 \<le> b" "b < 256" and IH: "utf8_loop (int j) ds \<longleftrightarrow>
     (\<exists>pre rest. ds = pre @ rest \<and> length pre = j \<and> (\<forall>c \<in> set pre. continues c) \<and> utf8_text rest)" for j
    using Cons by auto
  show ?case
  proof (cases k)
    case 0
    have "utf8_loop 0 (b # ds) \<longleftrightarrow> (\<exists>j. leads b j \<and> utf8_loop (int j) ds)"
      using b by (auto simp: byte_mask leads_def)
    also have "\<dots> \<longleftrightarrow> utf8_text (b # ds)" unfolding IH utf8_text_Cons_iff by blast
    finally show ?thesis using 0 by simp
  next
    case (Suc j)
    have "utf8_loop (int k) (b # ds) \<longleftrightarrow> continues b \<and> utf8_loop (int j) ds"
      using b by (auto simp: byte_mask continues_def Suc)
    also have "\<dots> \<longleftrightarrow> (\<exists>pre rest. b # ds = pre @ rest \<and> length pre = k \<and> (\<forall>c \<in> set pre. continues c) \<and> utf8_text rest)"
      (is "?l \<longleftrightarrow> ?r")
    proof
      assume ?l
      then obtain pre rest where "ds = pre @ rest" "length pre = j" "\<forall>c \<in> set pre. continues c" "utf8_text rest" "continues b"
        unfolding IH by blast
      then show ?r by (intro exI [of _ "b # pre"] exI [of _ rest]) (simp add: Suc)
    next
      assume ?r
      then obtain pre rest where r: "b # ds = pre @ rest" "length pre = Suc j" "\<forall>c \<in> set pre. continues c" "utf8_text rest"
        unfolding Suc by blast
      then obtain pre' where "pre = b # pre'" by (cases pre) auto
      with r have "continues b" "ds = pre' @ rest" "length pre' = j" "\<forall>c \<in> set pre'. continues c" by auto
      then show ?l unfolding IH using r(4) by blast
    qed
    finally show ?thesis .
  qed
qed

text \<open>On a list of bytes \<open>validUtf8\<close> decides whether it is a sequence of UTF-8 characters: a leading byte
  and as many continuation bytes as it announces.\<close>

theorem validUtf8_correct:
  assumes "\<forall>b \<in> set ds. 0 \<le> b \<and> b < 256"
  shows "validUtf8 ds \<longleftrightarrow> utf8_text ds"
  using utf8_loop_text [OF assms, of 0] by (simp add: validUtf8_def)

lemma validUtf8_correct_witness: "validUtf8 [197, 130, 1] \<longleftrightarrow> utf8_text [197, 130, 1]"
  by (rule validUtf8_correct) auto

subsection \<open>Common bits of a range\<close>

lemma bit_top_set: "bit (push_bit k 1 :: int) j \<longleftrightarrow> j = k"
  by (auto simp: bit_exp_iff)

lemma mask_one: "push_bit i 1 AND (m :: int) = (if bit m i then 2 ^ i else 0)"
  by (rule bit_eqI) (auto simp: bit_simps)

lemma high_bits: "bit (x :: int) j = bit (drop_bit i x) (j - i)" if "i \<le> j"
  using that by (simp add: bit_drop_bit_eq)

text \<open>Below the first position where two numbers with the same higher bits differ, every bit is 0 somewhere between them.\<close>

lemma bits_between:
  fixes m n x :: int
  assumes "0 \<le> m" "m \<le> n" "drop_bit (Suc i) m = drop_bit (Suc i) n" "bit m i \<noteq> bit n i"
  shows "j \<le> i \<Longrightarrow> \<exists>x. m \<le> x \<and> x \<le> n \<and> \<not> bit x j" and "Suc i \<le> j \<Longrightarrow> m \<le> x \<Longrightarrow> x \<le> n \<Longrightarrow> bit x j = bit m j"
proof -
  define h where "h = drop_bit (Suc i) m"
  have split: "z = h * 2 ^ Suc i + take_bit (Suc i) z" if "drop_bit (Suc i) z = h" for z :: int
    using that bits_ident [of "Suc i" z] by (simp add: push_bit_eq_mult)
  have tb: "take_bit (Suc i) z = (if bit z i then 2 ^ i else 0) + take_bit i z" for z :: int
    by (simp add: take_bit_Suc_from_most mult.commute)
  have low: "0 \<le> take_bit i z" "take_bit i z < 2 ^ i" for z :: int by simp_all
  have "\<not> bit m i \<and> bit n i"
  proof (rule ccontr)
    assume "\<not> (\<not> bit m i \<and> bit n i)"
    then have "bit m i" "\<not> bit n i" using assms(4) by auto
    then show False using split [of m] split [of n] tb [of m] tb [of n] low [of m] low [of n] assms(2,3) h_def by auto
  qed
  then have mn: "m = h * 2 ^ Suc i + take_bit i m" "n = h * 2 ^ Suc i + 2 ^ i + take_bit i n"
    using split [of m] split [of n] tb [of m] tb [of n] assms(3) h_def by auto
  show "\<exists>x. m \<le> x \<and> x \<le> n \<and> \<not> bit x j" if "j \<le> i"
  proof (cases "j = i")
    case True
    then show ?thesis using \<open>\<not> bit m i \<and> bit n i\<close> assms(2) by auto
  next
    case False
    let ?x = "h * 2 ^ Suc i + 2 ^ i"
    have "(2::int) ^ Suc j dvd ?x"
      using that False by (intro dvd_add dvd_mult le_imp_power_dvd) auto
    then have "\<not> bit ?x j" by (auto simp: bit_iff_odd dvd_def)
    moreover have "m \<le> ?x" "?x \<le> n" using mn low [of m] low [of n] by linarith+
    ultimately show ?thesis by blast
  qed
  show "bit x j = bit m j" if "Suc i \<le> j" "m \<le> x" "x \<le> n"
  proof -
    have "drop_bit (Suc i) m \<le> drop_bit (Suc i) x" "drop_bit (Suc i) x \<le> drop_bit (Suc i) n"
      using that(2,3) by (simp_all add: drop_bit_eq_div zdiv_mono1 del: power_Suc)
    then have "drop_bit (Suc i) x = drop_bit (Suc i) m" using assms(3) by simp
    then show ?thesis using high_bits [OF that(1), of x] high_bits [OF that(1), of m] by simp
  qed
qed

lemma range_and_loop_bits:
  assumes mn: "0 \<le> m" "m \<le> n"
  shows "drop_bit i m = drop_bit i n \<Longrightarrow> \<forall>j. bit ans j = (i \<le> j \<and> bit m j) \<Longrightarrow>
    bit (range_and_loop m n i ans) j \<longleftrightarrow> (\<forall>x. m \<le> x \<and> x \<le> n \<longrightarrow> bit x j)"
proof (induction i arbitrary: ans)
  case 0
  then have "m = n" "ans = m" by (simp_all add: bit_eq_iff)
  then show ?case by auto
next
  case (Suc i)
  have step: "drop_bit i m = drop_bit i n" if "bit m i = bit n i"
  proof (rule bit_eqI)
    fix k
    show "bit (drop_bit i m) k = bit (drop_bit i n) k"
    proof (cases k)
      case (Suc l)
      then have "bit (drop_bit (Suc i) m) l = bit (drop_bit (Suc i) n) l" using Suc.prems(1) by simp
      then show ?thesis using Suc by (simp add: bit_drop_bit_eq)
    qed (use that in \<open>simp add: bit_drop_bit_eq\<close>)
  qed
  have unfold: "range_and_loop m n (Suc i) ans =
      (if bit m i \<and> bit n i then range_and_loop m n i (ans OR push_bit i 1)
       else if bit m i \<noteq> bit n i then ans else range_and_loop m n i ans)"
    unfolding range_and_loop.simps Let_def mask_one by simp
  consider "bit m i" "bit n i" | "bit m i \<noteq> bit n i" | "\<not> bit m i" "\<not> bit n i" by blast
  then show ?case
  proof cases
    case 1
    have "\<forall>j. bit (ans OR push_bit i 1) j = (i \<le> j \<and> bit m j)"
      using Suc.prems(2) 1 bit_top_set [of i] by (auto simp only: bit_or_iff)
    then show ?thesis using Suc.IH [of "ans OR push_bit i 1"] step 1 unfolding unfold by simp
  next
    case 2
    show ?thesis
    proof (cases "j \<le> i")
      case True
      then show ?thesis
        using bits_between(1) [OF mn Suc.prems(1) 2 True] 2 Suc.prems(2) unfolding unfold by auto
    next
      case False
      then have "(\<forall>x. m \<le> x \<and> x \<le> n \<longrightarrow> bit x j) \<longleftrightarrow> bit m j"
        using bits_between(2) [OF mn Suc.prems(1) 2, of j] mn(2) by (metis Suc_leI not_le order_refl)
      moreover have "bit ans j \<longleftrightarrow> bit m j" using False Suc.prems(2) by simp
      moreover have "range_and_loop m n (Suc i) ans = ans" unfolding unfold using 2 by simp
      ultimately show ?thesis by simp
    qed
  next
    case 3
    have "\<forall>j. bit ans j = (i \<le> j \<and> bit m j)"
    proof
      fix j
      show "bit ans j = (i \<le> j \<and> bit m j)"
        using Suc.prems(2) [rule_format, of j] 3(1) by (cases "i = j") auto
    qed
    then show ?thesis using Suc.IH [of ans] step 3 unfolding unfold by simp
  qed
qed

lemma highest_bit:
  assumes "0 < m"
  shows "drop_bit (highest_bit m) m = (1 :: int)"
proof -
  have b: "2 ^ (floorlog 2 (nat m) - 1) \<le> nat m" "nat m < 2 ^ floorlog 2 (nat m)"
    using floorlog_bounds [of "nat m" 2] assms by auto
  have "floorlog 2 (nat m) \<noteq> 0" using b(2) assms by (cases "floorlog 2 (nat m) = 0") auto
  then have f: "floorlog 2 (nat m) = Suc (highest_bit m)" by (simp add: highest_bit_def)
  have "int (2 ^ highest_bit m) \<le> int (nat m)" "int (nat m) < int (2 ^ Suc (highest_bit m))"
    using b unfolding f by (simp_all only: of_nat_le_iff of_nat_less_iff diff_Suc_1)
  then have "2 ^ highest_bit m \<le> m" "m < 2 * 2 ^ highest_bit m" using assms by simp_all
  then have "1 \<le> m div 2 ^ highest_bit m" "m div 2 ^ highest_bit m < 2"
    by (simp_all add: div_less_int pos_imp_zdiv_pos_iff int_one_le_iff_zero_less)
  then show ?thesis by (simp add: drop_bit_eq_div)
qed

lemma highest_bit_mono: "0 < m \<Longrightarrow> m \<le> n \<Longrightarrow> highest_bit m \<le> highest_bit n"
  unfolding highest_bit_def by (intro diff_le_mono floorlog_mono nat_mono)

lemma bit_highest: "0 < m \<Longrightarrow> bit m (highest_bit m)"
  using highest_bit [of m] by (simp add: bit_iff_odd drop_bit_eq_div)

lemma drop_above_highest: "0 < m \<Longrightarrow> highest_bit m < i \<Longrightarrow> drop_bit i m = (0 :: int)"
proof -
  assume m: "0 < m" "highest_bit m < i"
  then have "drop_bit i m = drop_bit (i - highest_bit m) (drop_bit (highest_bit m) m)" by simp
  also have "\<dots> = 0" unfolding highest_bit [OF m(1)] using m(2) by (cases "i - highest_bit m") auto
  finally show ?thesis .
qed

text \<open>For \<open>0 \<le> m \<le> n\<close> a bit of \<open>rangeBitwiseAnd m n\<close> is set exactly when it is set in every number from
  \<open>m\<close> to \<open>n\<close>.\<close>

theorem rangeBitwiseAnd_correct:
  assumes "0 \<le> m" "m \<le> n"
  shows "bit (rangeBitwiseAnd m n) j \<longleftrightarrow> (\<forall>x. m \<le> x \<and> x \<le> n \<longrightarrow> bit x j)"
proof -
  consider "m = n \<or> m = 0" | "0 < m" "m \<noteq> n" "highest_bit m = highest_bit n" | "0 < m" "m \<noteq> n" "highest_bit m < highest_bit n"
    using assms highest_bit_mono [of m n] by fastforce
  then show ?thesis
  proof cases
    case 1
    then show ?thesis using assms by (auto simp: rangeBitwiseAnd_def)
  next
    case 2
    let ?d = "highest_bit m"
    have d: "drop_bit ?d m = drop_bit ?d n" using highest_bit [of m] highest_bit [of n] 2 assms by simp
    have "bit (push_bit ?d 1 :: int) j = (?d \<le> j \<and> bit m j)" for j
    proof (cases "?d \<le> j")
      case True
      then have "bit m j = bit (1 :: int) (j - ?d)" using high_bits [of ?d j m] highest_bit [OF 2(1)] by simp
      then show ?thesis using True bit_top_set [of ?d j] by (auto simp: bit_1_iff)
    next
      case False
      then show ?thesis using bit_top_set [of ?d j] by auto
    qed
    then have "bit (range_and_loop m n ?d (push_bit ?d 1)) j \<longleftrightarrow> (\<forall>x. m \<le> x \<and> x \<le> n \<longrightarrow> bit x j)"
      using range_and_loop_bits [OF assms d] by blast
    then show ?thesis using 2 unfolding rangeBitwiseAnd_def by (simp only: Let_def) simp
  next
    case 3
    let ?e = "highest_bit n"
    have "drop_bit (Suc ?e) m = drop_bit (Suc ?e) n"
      using drop_above_highest [of m "Suc ?e"] drop_above_highest [of n "Suc ?e"] 3 assms by simp
    moreover have "bit m ?e \<noteq> bit n ?e"
      using bit_highest [of n] drop_above_highest [OF 3(1,3)] high_bits [of ?e ?e m] 3 assms by simp
    ultimately have "\<exists>x. m \<le> x \<and> x \<le> n \<and> \<not> bit x j"
    proof (cases "j \<le> ?e")
      case True
      then show ?thesis using bits_between(1) [OF assms] \<open>bit m ?e \<noteq> bit n ?e\<close>
          \<open>drop_bit (Suc ?e) m = drop_bit (Suc ?e) n\<close> by blast
    next
      case False
      then have "bit m j = bit (0 :: int) (j - ?e)"
        using high_bits [of ?e j m] drop_above_highest [OF 3(1,3)] by simp
      then show ?thesis using assms by auto
    qed
    then show ?thesis using 3 by (auto simp: rangeBitwiseAnd_def Let_def)
  qed
qed

lemma rangeBitwiseAnd_correct_witness:
  "bit (rangeBitwiseAnd 12 15) 2 \<longleftrightarrow> (\<forall>x. (12 :: int) \<le> x \<and> x \<le> 15 \<longrightarrow> bit x 2)"
  by (rule rangeBitwiseAnd_correct) auto

subsection \<open>Missing and additional elements\<close>

lemma parity_mset: "length (filter P xs) = size (filter_mset P (mset xs))"
  by (simp flip: mset_filter)

lemma findTheDifference_correct:
  assumes "mset t = add_mset c (mset s)"
  shows "findTheDifference s t = c"
proof -
  have xor: "foldl (\<lambda>a c. a XOR code c) a w = foldl (XOR) a (map code w)" for a w
    by (induction w arbitrary: a) auto
  have "foldl (XOR) (foldl (XOR) 0 (map code s)) (map code t) = code c"
    by (rule bit_eqI) (auto simp: bit_foldl_xor parity_mset assms)
  then show ?thesis unfolding findTheDifference_def xor Let_def by simp
qed

lemma missingNumber_correct:
  assumes "add_mset x (mset nums) = mset [0..int (length nums)]"
  shows "missingNumber nums = x"
proof (rule bit_eqI)
  fix i
  let ?n = "int (length nums)"
  have "mset [0..?n] = add_mset 0 (mset [1..?n])" by (simp add: upto_rec1 [of 0])
  then have "size (filter_mset (\<lambda>n. bit n i) (add_mset x (mset nums))) = size (filter_mset (\<lambda>n. bit n i) (mset [1..?n]))"
    unfolding assms by simp
  then have "(if bit x i then Suc else id) (length (filter (\<lambda>n. bit n i) nums)) = length (filter (\<lambda>n. bit n i) [1..?n])"
    unfolding parity_mset by (simp split: if_splits)
  then have "odd (length (filter (\<lambda>n. bit n i) nums)) \<noteq> odd (length (filter (\<lambda>n. bit n i) [1..?n])) \<longleftrightarrow> bit x i"
    by (auto split: if_splits) presburger+
  then show "bit (missingNumber nums) i = bit x i"
    unfolding missingNumber_def bit_foldl_xor by simp
qed

subsection \<open>Hexadecimal\<close>

definition hex_value :: "string \<Rightarrow> int" where
  "hex_value s = foldl (\<lambda>a c. 16 * a + (if isdigit c then code c - 48 else code c - 87)) 0 s"

lemma nibble: "0 \<le> d \<Longrightarrow> d < 16 \<Longrightarrow>
  (let c = hex_char ! nat d in if isdigit c then code c - 48 else code c - 87) = d"
proof -
  have "list_all (\<lambda>d. (let c = hex_char ! nat d in if isdigit c then code c - 48 else code c - 87) = d) [0..15]"
    by code_simp
  then show "0 \<le> d \<Longrightarrow> d < 16 \<Longrightarrow> ?thesis" by (simp add: list_all_iff)
qed

lemma hex_digits_range: "d \<in> set (hex_digits k num) \<Longrightarrow> 0 \<le> d \<and> d < 16"
proof (induction k arbitrary: num)
  case (Suc k)
  have "num AND 15 = num mod 16" using take_bit_eq_mask [of 4 num] by (simp add: take_bit_eq_mod mask_eq_exp_minus_1)
  then show ?case using Suc by auto
qed simp

lemma hex_digits_value: "foldr (\<lambda>d a. 16 * a + d) (hex_digits k num) 0 = num mod 16 ^ k"
proof (induction k arbitrary: num)
  case (Suc k)
  have "num AND 15 = num mod 16" using take_bit_eq_mask [of 4 num] by (simp add: take_bit_eq_mod mask_eq_exp_minus_1)
  moreover have "num mod (16 * 16 ^ k) = 16 * (num div 16 mod 16 ^ k) + num mod 16" by (rule zmod_zmult2_eq) simp
  ultimately show ?case using Suc by (simp add: drop_bit_eq_div)
qed simp

lemma foldl_drop_zeros: "foldl (\<lambda>a d. 16 * a + d) 0 (dropWhile (\<lambda>d. d = 0) ds) = foldl (\<lambda>a d. 16 * a + d) (0 :: int) ds"
  by (induction ds) auto

text \<open>\<open>toHex\<close> prints the two's complement pattern: read back, it is the number modulo \<open>2^32\<close>.\<close>

lemma toHex_value: "hex_value (toHex num) = num mod 2 ^ 32"
proof (cases "num = 0")
  case True
  then show ?thesis by (simp add: toHex_def hex_value_def code_def isdigit_def)
next
  case False
  have digits: "foldl (\<lambda>a c. 16 * a + (if isdigit c then code c - 48 else code c - 87)) b (map (\<lambda>i. hex_char ! nat i) ds) =
      foldl (\<lambda>a d. 16 * a + d) b ds" if "\<forall>d \<in> set ds. 0 \<le> d \<and> d < 16" for b ds
    using that nibble by (induction ds arbitrary: b) (simp_all add: Let_def)
  have "\<forall>d \<in> set (dropWhile (\<lambda>d. d = 0) (rev (hex_digits 8 num))). 0 \<le> d \<and> d < 16"
    using hex_digits_range by (auto dest!: set_dropWhileD)
  then have "hex_value (toHex num) = foldl (\<lambda>a d. 16 * a + d) 0 (rev (hex_digits 8 num))"
    using False digits foldl_drop_zeros by (simp add: hex_value_def toHex_def)
  then show ?thesis using hex_digits_value [of 8 num] by (simp add: foldl_conv_foldr)
qed

subsection \<open>Counting the ones of all numbers\<close>

lemma popcount_int_rec:
  assumes "0 \<le> (i :: int)"
  shows "finite {j. bit i j} \<and> int (popcount i) = int (popcount (i div 2)) + i mod 2"
  using assms
proof (induction "nat i" arbitrary: i rule: less_induct)
  case less
  have set: "{j. bit i j} = Suc ` {j. bit (i div 2) j} \<union> (if odd i then {0} else {})"
  proof (rule set_eqI)
    fix j
    show "j \<in> {j. bit i j} \<longleftrightarrow> j \<in> Suc ` {j. bit (i div 2) j} \<union> (if odd i then {0} else {})"
      by (cases j) (auto simp: bit_0 bit_Suc)
  qed
  have "finite {j. bit (i div 2) j}"
  proof (cases "i = 0")
    case False
    then have "nat (i div 2) < nat i" "0 \<le> i div 2" using less.prems by auto
    then show ?thesis using less.hyps by blast
  qed simp
  then show ?case
    unfolding popcount_def set by (auto simp: card_image card_insert_if mod2_eq_if)
qed

lemma count_bits_loop_correct:
  assumes "2 \<le> i" "odd loop"  "loop + 1 = i + 2 * int k"
  shows "count_bits_loop i loop (map (\<lambda>j. int (popcount j)) [0..i - 1]) =
    Some (map (\<lambda>j. int (popcount j)) [0..loop])"
  using assms
proof (induction k arbitrary: i)
  case 0
  then show ?case by (subst count_bits_loop.simps) auto
next
  case (Suc k)
  let ?f = "\<lambda>j. int (popcount j)"
  have i: "even i" "i \<le> loop" using Suc.prems by presburger+
  have nth: "ivec_at (map ?f [0..j - 1] @ ys) k = Some (?f k)" if "0 \<le> k" "k < j" for j k ys
    using that by (simp add: ivec_at_def nth_append nth_upto)
  have "(i + 1) mod 2 = 1" using i(1) by presburger
  then have rec: "?f i = ?f (i div 2)" "?f (i + 1) = ?f (i div 2) + 1"
    using popcount_int_rec [of i] popcount_int_rec [of "i + 1"] Suc.prems(1) i(1) by simp_all
  have ext: "map ?f [0..i - 1] @ [?f i] = map ?f [0..i]"
    using upto_rec2 [of 0 i] Suc.prems(1) by simp
  have ext2: "map ?f [0..i] @ [?f (i + 1)] = map ?f [0..i + 1]"
    using upto_rec2 [of 0 "i + 1"] Suc.prems(1) by simp
  have "ivec_at (map ?f [0..i - 1]) (drop_bit 1 i) = Some (?f i)"
    using nth [of "i div 2" i "[]"] Suc.prems(1) by (simp add: drop_bit_eq_div rec)
  moreover have "ivec_at (map ?f [0..i - 1] @ [?f i]) i = Some (?f i)"
    unfolding ext using nth [of i "i + 1" "[]"] Suc.prems(1) by simp
  moreover have "count_bits_loop (i + 2) loop (map ?f [0..i + 2 - 1]) = Some (map ?f [0..loop])"
    by (rule Suc.IH) (use Suc.prems in auto)
  moreover have "map ?f [0..i - 1] @ [?f i, ?f i + 1] = map ?f [0..i + 2 - 1]"
  proof -
    have "?f i + 1 = ?f (i + 1)" unfolding rec(2) by (rule arg_cong [OF rec(1), of "\<lambda>z. z + 1"])
    then have "map ?f [0..i - 1] @ [?f i, ?f i + 1] = (map ?f [0..i - 1] @ [?f i]) @ [?f (i + 1)]"
      by (simp only: append_assoc append_Cons append_Nil)
    also have "\<dots> = map ?f [0..i + 1]" unfolding ext ext2 ..
    also have "\<dots> = map ?f [0..i + 2 - 1]" by (simp only: add_diff_eq [symmetric]) simp
    finally show ?thesis .
  qed
  ultimately show ?case using i(2) by (subst count_bits_loop.simps) simp
qed


lemma popcount_0 [simp]: "popcount (0 :: int) = 0"
proof -
  have "{i. bit (0 :: int) i} = {}" by simp
  then show ?thesis unfolding popcount_def by (simp only: card.empty)
qed

lemma countBits_correct:
  assumes "0 \<le> num"
  shows "countBits num = Some (map (\<lambda>j. int (popcount j)) [0..num])"
proof (cases "num = 0")
  case True
  then show ?thesis by (simp add: countBits_def)
next
  case False
  let ?f = "\<lambda>j. int (popcount j)"
  have one: "popcount (1 :: int) = 1" using popcount_int_rec [of 1] by simp
  define loop where "loop = (if num smod 2 \<noteq> 0 then num else num - 1)"
  have loop: "odd loop" "loop = num \<or> loop = num - 1" "1 \<le> loop"
    using assms False by (auto simp: loop_def odd_iff_mod_2_eq_one) presburger+
  then obtain k where k: "loop = 1 + 2 * k" by (elim oddE) simp
  have start: "map ?f [0..2 - 1] = [0, 1]" using one by (simp add: upto_rec1)
  have "count_bits_loop 2 loop (map ?f [0..2 - 1]) = Some (map ?f [0..loop])"
    by (rule count_bits_loop_correct [where k = "nat k"]) (use loop k in auto)
  then have c: "count_bits_loop 2 loop [0, 1] = Some (map ?f [0..loop])" unfolding start .
  show ?thesis
  proof (cases "loop = num")
    case True
    then have "num mod 2 = 1" using loop(1) by presburger
    then show ?thesis using c True assms False by (simp add: countBits_def)
  next
    case neq: False
    then have l: "loop = num - 1" "even num" using loop by auto
    have "ivec_at (map ?f [0..loop]) (drop_bit 1 num) = Some (?f (num div 2))"
      using l assms False by (simp add: ivec_at_def drop_bit_eq_div nth_upto)
    moreover have "?f (num div 2) = ?f num" using popcount_int_rec [OF assms] l(2) by simp
    moreover have "map ?f [0..loop] @ [?f num] = map ?f [0..num]" using upto_rec2 [OF assms] l(1) by simp
    moreover have "num mod 2 = 0" using l(2) by presburger
    ultimately show ?thesis using c l(1) assms False by (simp add: countBits_def)
  qed
qed

end
