(* ===== verification/HashContract.thy ===== *)
theory HashContract
  imports Prelude
begin

section \<open>Contracts of the hash tables\<close>

text \<open>
  What the hash tables of the repository promise, as three locales. \<open>hash_map\<close> is the interface a
  client sees: the state stands for a finite map from keys to items, and the operations look up,
  store and remove; \<open>total_hash_map\<close> extends it for a table whose insertion always returns. \<open>open_addressing\<close> is the discipline of the tables that keep their items in one
  vector and probe it: an item lies on the probe sequence of its key behind slots that are not
  empty. A slot is described by a test for emptiness and by the key it holds, if any.
\<close>

subsection \<open>The client interface\<close>

datatype 'a hash_op = Find 'a | Insert 'a | Erase 'a

datatype 'a outcome = Found "'a option" | Stored bool | Erased

text \<open>The abstract operations: an insertion may fail, but only for a key that is not there.\<close>

fun allowed :: "('a \<Rightarrow> 'k) \<Rightarrow> ('k \<rightharpoonup> 'a) \<Rightarrow> 'a hash_op \<Rightarrow> 'a outcome \<Rightarrow> ('k \<rightharpoonup> 'a) \<Rightarrow> bool" where
  "allowed key m (Find x) (Found r) m' \<longleftrightarrow> r = m (key x) \<and> m' = m"
| "allowed key m (Insert x) (Stored True) m' \<longleftrightarrow> m' = m(key x \<mapsto> x)"
| "allowed key m (Insert x) (Stored False) m' \<longleftrightarrow> m (key x) = None \<and> m' = m"
| "allowed key m (Erase x) Erased m' \<longleftrightarrow> m' = m(key x := None)"
| "allowed key m _ _ m' \<longleftrightarrow> False"

fun allowed_run :: "('a \<Rightarrow> 'k) \<Rightarrow> ('k \<rightharpoonup> 'a) \<Rightarrow> 'a hash_op list \<Rightarrow> 'a outcome list \<Rightarrow> ('k \<rightharpoonup> 'a) \<Rightarrow> bool" where
  "allowed_run key m [] [] m' \<longleftrightarrow> m' = m"
| "allowed_run key m (p # ps) (r # rs) m' \<longleftrightarrow> (\<exists>m1. allowed key m p r m1 \<and> allowed_run key m1 ps rs m')"
| "allowed_run key m _ _ m' \<longleftrightarrow> False"

definition hash_step ::
  "('t \<Rightarrow> 'a \<Rightarrow> 'a option option) \<Rightarrow> ('t \<Rightarrow> 'a \<Rightarrow> ('t \<times> bool) option) \<Rightarrow> ('t \<Rightarrow> 'a \<Rightarrow> 't option) \<Rightarrow>
   't \<Rightarrow> 'a hash_op \<Rightarrow> ('t \<times> 'a outcome) option" where
  "hash_step find_item insert_item erase_item t p =
     (case p of
        Find x \<Rightarrow> do { r \<leftarrow> find_item t x; Some (t, Found r) }
      | Insert x \<Rightarrow> do { (t, ok) \<leftarrow> insert_item t x; Some (t, Stored ok) }
      | Erase x \<Rightarrow> do { t \<leftarrow> erase_item t x; Some (t, Erased) })"

fun hash_run ::
  "('t \<Rightarrow> 'a \<Rightarrow> 'a option option) \<Rightarrow> ('t \<Rightarrow> 'a \<Rightarrow> ('t \<times> bool) option) \<Rightarrow> ('t \<Rightarrow> 'a \<Rightarrow> 't option) \<Rightarrow>
   't \<Rightarrow> 'a hash_op list \<Rightarrow> ('t \<times> 'a outcome list) option" where
  "hash_run f i e t [] = Some (t, [])"
| "hash_run f i e t (p # ps) = do {
     (t, r) \<leftarrow> hash_step f i e t p;
     (t, rs) \<leftarrow> hash_run f i e t ps;
     Some (t, r # rs)
   }"

fun inserts :: "'a hash_op list \<Rightarrow> nat" where
  "inserts [] = 0"
| "inserts (Insert x # ps) = Suc (inserts ps)"
| "inserts (_ # ps) = inserts ps"

text \<open>
  An insertion must succeed for a key that is there, and for any key while \<open>room\<close> is left: \<open>room\<close> is a number of further
  insertions that the table has space for whatever their keys are. Without room an insertion of a new key may abort (\<open>None\<close>) or be refused.
\<close>

locale hash_map =
  fixes key :: "'a \<Rightarrow> 'k"
    and inv_t :: "'t \<Rightarrow> bool"
    and room :: "'t \<Rightarrow> nat"
    and items :: "'t \<Rightarrow> 'k \<rightharpoonup> 'a"
    and find_item :: "'t \<Rightarrow> 'a \<Rightarrow> 'a option option"
    and insert_item :: "'t \<Rightarrow> 'a \<Rightarrow> ('t \<times> bool) option"
    and erase_item :: "'t \<Rightarrow> 'a \<Rightarrow> 't option"
  assumes find_spec: "inv_t t \<Longrightarrow> find_item t x = Some (items t (key x))"
    and insert_spec: "inv_t t \<Longrightarrow> (case insert_item t x of
        None \<Rightarrow> items t (key x) = None \<and> room t = 0
      | Some (t', ok) \<Rightarrow> inv_t t' \<and>
          (if ok then items t' = (items t)(key x \<mapsto> x) \<and> room t \<le> Suc (room t')
           else items t (key x) = None \<and> room t = 0 \<and> items t' = items t))"
    and erase_spec: "inv_t t \<Longrightarrow> \<exists>t'. erase_item t x = Some t' \<and> inv_t t' \<and> items t' = (items t)(key x := None) \<and> room t \<le> room t'"
begin

lemma step_spec:
  assumes "inv_t t"
  shows "case hash_step find_item insert_item erase_item t p of
      None \<Rightarrow> room t < inserts [p]
    | Some (t', r) \<Rightarrow> inv_t t' \<and> allowed key (items t) p r (items t') \<and> room t \<le> inserts [p] + room t' \<and>
        (r = Stored False \<longrightarrow> room t < inserts [p])"
proof (cases p)
  case (Find x)
  then show ?thesis using assms find_spec [OF assms, of x] by (simp add: hash_step_def)
next
  case (Insert x)
  show ?thesis
  proof (cases "insert_item t x")
    case (Some tb)
    obtain t' ok where "tb = (t', ok)" by (cases tb)
    then show ?thesis using Some Insert insert_spec [OF assms, of x] by (cases ok) (simp_all add: hash_step_def)
  qed (use Insert insert_spec [OF assms, of x] in \<open>simp add: hash_step_def\<close>)
next
  case (Erase x)
  then show ?thesis using erase_spec [OF assms, of x] by (auto simp: hash_step_def)
qed

text \<open>A run that aborts or refuses an item has more insertions than there was room for.\<close>

lemma run_spec:
  "inv_t t \<Longrightarrow> case hash_run find_item insert_item erase_item t ps of
      None \<Rightarrow> room t < inserts ps
    | Some (t', rs) \<Rightarrow> inv_t t' \<and> allowed_run key (items t) ps rs (items t') \<and> (Stored False \<in> set rs \<longrightarrow> room t < inserts ps)"
proof (induction ps arbitrary: t)
  case (Cons p ps)
  have n: "inserts (p # ps) = inserts [p] + inserts ps" by (cases p) simp_all
  note st = step_spec [OF Cons.prems, of p]
  show ?case
  proof (cases "hash_step find_item insert_item erase_item t p")
    case None
    then show ?thesis using st unfolding n by simp
  next
    case (Some tr)
    obtain t1 r where tr: "tr = (t1, r)" by (cases tr)
    have s: "inv_t t1" "allowed key (items t) p r (items t1)" "room t \<le> inserts [p] + room t1"
      "r = Stored False \<longrightarrow> room t < inserts [p]"
      using st Some tr by auto
    show ?thesis
    proof (cases "hash_run find_item insert_item erase_item t1 ps")
      case None
      then have "room t1 < inserts ps" using Cons.IH [OF s(1)] by simp
      then show ?thesis using None Some tr s(3) unfolding n by simp
    next
      case (Some ts)
      obtain t' rs where ts: "ts = (t', rs)" by (cases ts)
      have "inv_t t'" "allowed_run key (items t1) ps rs (items t')" "Stored False \<in> set rs \<longrightarrow> room t1 < inserts ps"
        using Cons.IH [OF s(1)] Some ts by auto
      then show ?thesis
        using \<open>hash_step find_item insert_item erase_item t p = Some tr\<close> Some tr ts s unfolding n by auto
    qed
  qed
qed simp

end

text \<open>A table whose insertions never abort.\<close>

locale total_hash_map = hash_map +
  assumes insert_total: "inv_t t \<Longrightarrow> insert_item t x \<noteq> None"
begin

lemma run_total: "inv_t t \<Longrightarrow> hash_run find_item insert_item erase_item t ps \<noteq> None"
proof (induction ps arbitrary: t)
  case (Cons p ps)
  have "hash_step find_item insert_item erase_item t p \<noteq> None"
  proof (cases p)
    case (Find x)
    then show ?thesis using find_spec [OF Cons.prems] by (simp add: hash_step_def)
  next
    case (Insert x)
    then show ?thesis using insert_total [OF Cons.prems, of x] by (auto simp: hash_step_def)
  next
    case (Erase x)
    then show ?thesis using erase_spec [OF Cons.prems, of x] by (auto simp: hash_step_def)
  qed
  then obtain t1 r where t1: "hash_step find_item insert_item erase_item t p = Some (t1, r)" by auto
  then have "inv_t t1" using step_spec [OF Cons.prems, of p] by simp
  from Cons.IH [OF this] t1 show ?case by auto
qed simp

end

subsection \<open>Open addressing\<close>

text \<open>The search along a list of slots: stop at an empty one, succeed at the first that matches.\<close>

fun probe_find :: "('e \<Rightarrow> bool) \<Rightarrow> ('e \<Rightarrow> bool) \<Rightarrow> 'e list \<Rightarrow> nat list \<Rightarrow> nat option" where
  "probe_find E M T [] = None"
| "probe_find E M T (s # ss) =
     (if E (T ! s) then None else if M (T ! s) then Some s else probe_find E M T ss)"

lemma probe_find_cong: "(\<And>s. s \<in> set ss \<Longrightarrow> M (T ! s) = M' (T ! s)) \<Longrightarrow> probe_find E M T ss = probe_find E M' T ss"
  by (induction ss) auto

locale open_addressing =
  fixes E :: "'e \<Rightarrow> bool"
    and K :: "'e \<Rightarrow> 'k option"
    and probes :: "'k \<Rightarrow> nat list"
  assumes empty_no_key: "E e \<Longrightarrow> K e = None"
begin

definition placed :: "'e list \<Rightarrow> nat \<Rightarrow> 'k \<Rightarrow> bool" where
  "placed T s k \<longleftrightarrow> (\<exists>us vs. probes k = us @ s # vs \<and> (\<forall>u \<in> set us. \<not> E (T ! u)))"

definition table_inv :: "'e list \<Rightarrow> bool" where
  "table_inv T \<longleftrightarrow>
     (\<forall>k. \<forall>s \<in> set (probes k). s < length T) \<and>
     (\<forall>s < length T. \<forall>k. K (T ! s) = Some k \<longrightarrow> placed T s k) \<and>
     (\<forall>s < length T. \<forall>s' < length T. \<forall>k. K (T ! s) = Some k \<longrightarrow> K (T ! s') = Some k \<longrightarrow> s = s')"

text \<open>The table as a map from keys to slots' contents.\<close>

definition holds :: "'e list \<Rightarrow> 'k \<Rightarrow> 'e \<Rightarrow> bool" where
  "holds T k e \<longleftrightarrow> e \<in> set T \<and> K e = Some k"

definition table_map :: "('e \<Rightarrow> 'v) \<Rightarrow> 'e list \<Rightarrow> 'k \<rightharpoonup> 'v" where
  "table_map v T k = map_option v (List.find (\<lambda>e. K e = Some k) T)"

text \<open>The number of slots that are not empty. Storing into a free slot raises it by at most one, and a sequence of different slots
  without an empty one is no longer than it.\<close>

definition used :: "'e list \<Rightarrow> nat" where
  "used T = card {s. s < length T \<and> \<not> E (T ! s)}"

lemma used_upd: "used (T[s := e]) \<le> Suc (used T)"
proof -
  have "{i. i < length (T[s := e]) \<and> \<not> E (T[s := e] ! i)} \<subseteq> insert s {i. i < length T \<and> \<not> E (T ! i)}"
    by (auto simp: nth_list_update split: if_splits)
  then have "used (T[s := e]) \<le> card (insert s {i. i < length T \<and> \<not> E (T ! i)})"
    unfolding used_def by (intro card_mono) auto
  also have "\<dots> \<le> Suc (used T)" unfolding used_def by (simp add: card_insert_le_m1 card_insert_if)
  finally show ?thesis .
qed

lemma used_upd_full: "\<not> E (T ! s) \<Longrightarrow> used (T[s := e]) \<le> used T"
proof -
  assume s: "\<not> E (T ! s)"
  have "\<not> E (T ! i)" if "\<not> E (T[s := e] ! i)" for i using that s by (cases "i = s") auto
  then show ?thesis unfolding used_def by (intro card_mono) auto
qed

lemma used_probes:
  assumes "distinct ss" "\<forall>s \<in> set ss. s < length T \<and> \<not> E (T ! s)"
  shows "length ss \<le> used T"
proof -
  have "card (set ss) \<le> used T" unfolding used_def using assms(2) by (intro card_mono) auto
  then show ?thesis using assms(1) by (simp add: distinct_card)
qed

lemma used_blank: "\<forall>e \<in> set T. E e \<Longrightarrow> used T = 0"
  by (auto simp: used_def)

lemma probe_range: "table_inv T \<Longrightarrow> s \<in> set (probes k) \<Longrightarrow> s < length T"
  by (auto simp: table_inv_def)

lemma table_map_at:
  assumes "table_inv T" "s < length T" "K (T ! s) = Some k"
  shows "table_map v T k = Some (v (T ! s))"
proof -
  have "List.find (\<lambda>e. K e = Some k) T \<noteq> None" using nth_mem [OF assms(2)] assms(3) by (auto simp: find_None_iff)
  then obtain e where e: "List.find (\<lambda>e. K e = Some k) T = Some e" by blast
  then obtain i where i: "i < length T" "K (T ! i) = Some k" "e = T ! i" by (auto simp: find_Some_iff)
  then have "i = s" using assms by (auto simp: table_inv_def)
  then show ?thesis using e i by (simp add: table_map_def)
qed

lemma table_map_None: "table_map v T k = None \<longleftrightarrow> (\<forall>s < length T. K (T ! s) \<noteq> Some k)"
  unfolding table_map_def by (auto simp: find_None_iff in_set_conv_nth)

lemma probe_find_prefix:
  "\<forall>u \<in> set us. \<not> E (T ! u) \<and> K (T ! u) \<noteq> Some k \<Longrightarrow>
    probe_find E (\<lambda>e. K e = Some k) T (us @ ss) = probe_find E (\<lambda>e. K e = Some k) T ss"
  by (induction us) auto

lemma probe_find_Some:
  "probe_find E (\<lambda>e. K e = Some k) T ss = Some s \<Longrightarrow> s \<in> set ss \<and> K (T ! s) = Some k"
  by (induction ss) (auto split: if_splits)

text \<open>The search finds the slot of a key exactly when the table holds it.\<close>

lemma find_correct:
  assumes I: "table_inv T"
  shows "probe_find E (\<lambda>e. K e = Some k) T (probes k) = Some s \<longleftrightarrow> s < length T \<and> K (T ! s) = Some k"
proof
  assume "probe_find E (\<lambda>e. K e = Some k) T (probes k) = Some s"
  then show "s < length T \<and> K (T ! s) = Some k" using probe_find_Some probe_range [OF I] by blast
next
  assume s: "s < length T \<and> K (T ! s) = Some k"
  then have "placed T s k" using I by (auto simp: table_inv_def)
  then obtain us vs where p: "probes k = us @ s # vs" "\<forall>u \<in> set us. \<not> E (T ! u)"
    unfolding placed_def by blast
  obtain us' vs' where split: "probes k = us' @ s # vs'" "s \<notin> set us'" "set us' \<subseteq> set us"
  proof -
    obtain a b where "us @ s # vs = a @ s # b" "s \<notin> set a" "set a \<subseteq> set us"
    proof (cases "s \<in> set us")
      case True
      then obtain a b where "us = a @ s # b" "s \<notin> set a" by (meson split_list_first)
      then show ?thesis by (intro that [of a "b @ s # vs"]) auto
    next
      case False
      then show ?thesis by (intro that [of us vs]) auto
    qed
    then show ?thesis using that p(1) by metis
  qed
  have "\<forall>u \<in> set us'. \<not> E (T ! u) \<and> K (T ! u) \<noteq> Some k"
  proof
    fix u assume u: "u \<in> set us'"
    then have "u < length T" using probe_range [OF I, of u k] split(1) by simp
    then have "K (T ! u) \<noteq> Some k" using I s u split(2) unfolding table_inv_def by blast
    then show "\<not> E (T ! u) \<and> K (T ! u) \<noteq> Some k" using u p(2) split(3) by blast
  qed
  moreover have "\<not> E (T ! s)" using s empty_no_key by fastforce
  ultimately show "probe_find E (\<lambda>e. K e = Some k) T (probes k) = Some s"
    using probe_find_prefix [of us' T k "s # vs'"] s unfolding split(1) by simp
qed

lemma find_map:
  assumes "table_inv T"
  shows "map_option (\<lambda>s. v (T ! s)) (probe_find E (\<lambda>e. K e = Some k) T (probes k)) = table_map v T k"
proof (cases "probe_find E (\<lambda>e. K e = Some k) T (probes k)")
  case None
  then have "\<forall>s < length T. K (T ! s) \<noteq> Some k" using find_correct [OF assms] by (metis option.discI)
  then have "table_map v T k = None" by (simp only: table_map_None)
  then show ?thesis using None by simp
next
  case (Some s)
  then have "s < length T" "K (T ! s) = Some k" using find_correct [OF assms, of k s] by auto
  then show ?thesis using Some table_map_at [OF assms, of s k v] by simp
qed

text \<open>The three changes of a slot: a key is stored in a free slot of its sequence, an item is
  replaced by one with the same key, an item is buried under a mark that is not empty.\<close>

lemma placed_upd: "\<not> E e \<Longrightarrow> placed T s' k \<Longrightarrow> placed (T[s := e]) s' k"
  unfolding placed_def by (metis nth_list_update_eq nth_list_update_neq list_update_beyond not_le)

lemma change_slot:
  assumes I: "table_inv T" and s: "s < length T" and e: "\<not> E e"
    and old: "\<And>k'. K (T ! s) = Some k' \<Longrightarrow> k' = k" and new: "\<And>k'. K e = Some k' \<Longrightarrow> k' = k"
    and only: "\<And>s'. s' < length T \<Longrightarrow> K (T ! s') = Some k \<Longrightarrow> s' = s"
    and pl: "K e = Some k \<Longrightarrow> placed T s k"
  shows "table_inv (T[s := e])"
    and "table_map v (T[s := e]) = (table_map v T)(k := if K e = Some k then Some (v e) else None)"
proof -
  have nth: "T[s := e] ! i = (if i = s then e else T ! i)" if "i < length T" for i
    using that by (simp add: nth_list_update)
  show I': "table_inv (T[s := e])"
    unfolding table_inv_def
  proof (intro conjI allI impI ballI)
    fix k' s' assume "s' \<in> set (probes k')"
    then show "s' < length (T[s := e])" using probe_range [OF I] by simp
  next
    fix s' k' assume s': "s' < length (T[s := e])" "K (T[s := e] ! s') = Some k'"
    show "placed (T[s := e]) s' k'"
    proof (cases "s' = s")
      case True
      then have "K e = Some k'" using s' nth by simp
      then show ?thesis using new [of k'] pl placed_upd [OF e] True by simp
    next
      case False
      then show ?thesis using s' nth I placed_upd [OF e] by (auto simp: table_inv_def)
    qed
  next
    fix s1 s2 k' assume a: "s1 < length (T[s := e])" "s2 < length (T[s := e])"
      "K (T[s := e] ! s1) = Some k'" "K (T[s := e] ! s2) = Some k'"
    show "s1 = s2"
    proof (cases "s1 = s \<or> s2 = s")
      case True
      have k: "k' = k" using True a(3,4) nth [of s] s new by auto
      have "s' = s" if "s' < length T" "K (T[s := e] ! s') = Some k" for s'
        using only [of s'] that nth [of s'] by (cases "s' = s") auto
      from this [of s1] this [of s2] show ?thesis using a k by simp
    next
      case False
      then show ?thesis using a nth I by (auto simp: table_inv_def)
    qed
  qed
  show "table_map v (T[s := e]) = (table_map v T)(k := if K e = Some k then Some (v e) else None)"
  proof
    fix k'
    show "table_map v (T[s := e]) k' = ((table_map v T)(k := if K e = Some k then Some (v e) else None)) k'"
    proof (cases "k' = k")
      case True
      show ?thesis
      proof (cases "K e = Some k")
        case True
        then show ?thesis using table_map_at [OF I', of s k v] s \<open>k' = k\<close> by simp
      next
        case False
        then have "table_map v (T[s := e]) k = None" using only nth by (auto simp: table_map_None split: if_splits)
        then show ?thesis using True False by simp
      qed
    next
      case False
      show ?thesis
      proof (cases "table_map v T k'")
        case None
        then have "table_map v (T[s := e]) k' = None"
          using False new nth by (auto simp: table_map_None split: if_splits)
        then show ?thesis using None False by simp
      next
        case (Some y)
        then obtain i where i: "i < length T" "K (T ! i) = Some k'" using table_map_None [of v T k'] by auto
        then have "i \<noteq> s" using old False by auto
        then show ?thesis using table_map_at [OF I i, of v] table_map_at [OF I', of i k' v] i nth False by simp
      qed
    qed
  qed
qed

lemma store:
  assumes "table_inv T" "placed T s k" "K (T ! s) = None" "\<forall>i < length T. K (T ! i) \<noteq> Some k" "K e = Some k"
  shows "table_inv (T[s := e])" and "table_map v (T[s := e]) = (table_map v T)(k \<mapsto> v e)"
proof -
  have s: "s < length T" using assms(1,2) probe_range [of T s k] by (auto simp: placed_def)
  have ne: "\<not> E e" using assms(5) empty_no_key by fastforce
  note c = change_slot [OF assms(1) s ne, of k]
  show "table_inv (T[s := e])" using assms by (intro c(1)) auto
  have "table_map v (T[s := e]) = (table_map v T)(k := if K e = Some k then Some (v e) else None)"
    using assms by (intro c(2)) auto
  then show "table_map v (T[s := e]) = (table_map v T)(k \<mapsto> v e)" using assms(5) by simp
qed

lemma replace:
  assumes "table_inv T" "s < length T" "K (T ! s) = Some k" "K e = Some k"
  shows "table_inv (T[s := e])" and "table_map v (T[s := e]) = (table_map v T)(k \<mapsto> v e)"
proof -
  have ne: "\<not> E e" using assms(4) empty_no_key by fastforce
  have pl: "placed T s k" using assms(1,2,3) by (auto simp: table_inv_def)
  have only: "s' = s" if "s' < length T" "K (T ! s') = Some k" for s' using assms(1,2,3) that by (auto simp: table_inv_def)
  note c = change_slot [OF assms(1,2) ne, of k]
  show "table_inv (T[s := e])" using assms(3,4) pl only by (intro c(1)) auto
  have "table_map v (T[s := e]) = (table_map v T)(k := if K e = Some k then Some (v e) else None)"
    using assms(3,4) pl only by (intro c(2)) auto
  then show "table_map v (T[s := e]) = (table_map v T)(k \<mapsto> v e)" using assms(4) by simp
qed

lemma bury:
  assumes "table_inv T" "s < length T" "K (T ! s) = Some k" "K e = None" "\<not> E e"
  shows "table_inv (T[s := e])" and "table_map v (T[s := e]) = (table_map v T)(k := None)"
proof -
  have only: "s' = s" if "s' < length T" "K (T ! s') = Some k" for s' using assms(1,2,3) that by (auto simp: table_inv_def)
  note c = change_slot [OF assms(1,2,5), of k]
  show "table_inv (T[s := e])" using assms(3,4) only by (intro c(1)) auto
  have "table_map v (T[s := e]) = (table_map v T)(k := if K e = Some k then Some (v e) else None)"
    using assms(3,4) only by (intro c(2)) auto
  then show "table_map v (T[s := e]) = (table_map v T)(k := None)" using assms(4) by simp
qed

lemma table_inv_blank:
  assumes "\<forall>k. \<forall>s \<in> set (probes k). s < length T" "\<forall>e \<in> set T. K e = None"
  shows "table_inv T" and "table_map v T = Map.empty"
  using assms by (auto simp: table_inv_def table_map_None intro!: ext)

end

end
