(* ===== verification/DesignHash.thy ===== *)
theory DesignHash
  imports HashContract
begin

section \<open>A hash set and a hash map with quadratic probing (leetcode/designHash.cpp)\<close>

text \<open>
  \<open>MyHashSet\<close> and \<open>MyHashMap\<close>. \<open>std::hash<int>\<close> is a parameter, a function to \<open>size_t\<close>; the code marks
  slots with the hash value \<open>UINT32_MAX\<close>, so it relies on no key having that hash (with the identity
  hash of the usual libraries no key of the range the comment gives has it). An insertion that finds
  no slot runs into \<open>assert(false)\<close>: its result is \<open>None\<close>.
\<close>

definition bucket_size :: nat where "bucket_size = 20003"

definition PROBE_LEN :: nat where "PROBE_LEN = 140"

definition UINT32_MAX :: nat where "UINT32_MAX = 4294967295"

text \<open>The slot of the \<open>i\<close>-th probe, in the arithmetic of \<open>size_t\<close>.\<close>

definition probe_slot :: "nat \<Rightarrow> nat \<Rightarrow> nat" where
  "probe_slot hasVal i = (hasVal + i * i) mod 2 ^ 64 mod bucket_size"

lemma probe_slot_less: "probe_slot h i < bucket_size"
  by (simp add: probe_slot_def bucket_size_def)

subsection \<open>The model: MyHashSet\<close>

record set_element =
  s_hash :: nat
  s_key :: int
  s_tomb :: bool

definition set_element_init :: set_element where
  "set_element_init = \<lparr>s_hash = UINT32_MAX, s_key = 0, s_tomb = False\<rparr>"

type_synonym MyHashSet = "set_element list"

definition MyHashSet_init :: MyHashSet where
  "MyHashSet_init = replicate bucket_size set_element_init"

definition s_empty :: "set_element \<Rightarrow> bool" where
  "s_empty elem \<longleftrightarrow> s_hash elem = UINT32_MAX \<and> \<not> s_tomb elem"

fun set_find_loop :: "MyHashSet \<Rightarrow> nat \<Rightarrow> int \<Rightarrow> nat list \<Rightarrow> nat option option" where
  "set_find_loop T hasVal key [] = Some None"
| "set_find_loop T hasVal key (i # is) = do {
     elem \<leftarrow> vec_at T (probe_slot hasVal i);
     if s_empty elem then Some None
     else if \<not> s_tomb elem \<and> s_key elem = key then Some (Some (probe_slot hasVal i))
     else set_find_loop T hasVal key is
   }"

definition set_find :: "(int \<Rightarrow> nat) \<Rightarrow> MyHashSet \<Rightarrow> int \<Rightarrow> nat option option" where
  "set_find hasher T key = set_find_loop T (hasher key) key [0..<PROBE_LEN]"

fun set_add_loop :: "MyHashSet \<Rightarrow> nat \<Rightarrow> int \<Rightarrow> nat list \<Rightarrow> MyHashSet option" where
  "set_add_loop T hasVal key [] = None"
| "set_add_loop T hasVal key (i # is) = do {
     elem \<leftarrow> vec_at T (probe_slot hasVal i);
     if s_empty elem then vec_upd T (probe_slot hasVal i) (elem\<lparr>s_key := key, s_hash := hasVal\<rparr>)
     else if \<not> s_tomb elem \<and> s_key elem = key then Some T
     else set_add_loop T hasVal key is
   }"

definition set_add :: "(int \<Rightarrow> nat) \<Rightarrow> MyHashSet \<Rightarrow> int \<Rightarrow> MyHashSet option" where
  "set_add hasher T key = set_add_loop T (hasher key) key [0..<PROBE_LEN]"

definition set_remove :: "(int \<Rightarrow> nat) \<Rightarrow> MyHashSet \<Rightarrow> int \<Rightarrow> MyHashSet option" where
  "set_remove hasher T key = do {
     found \<leftarrow> set_find hasher T key;
     case found of
       None \<Rightarrow> Some T
     | Some slot \<Rightarrow> do {
         elem \<leftarrow> vec_at T slot;
         vec_upd T slot (elem\<lparr>s_tomb := True, s_hash := UINT32_MAX\<rparr>)
       }
   }"

definition set_contains :: "(int \<Rightarrow> nat) \<Rightarrow> MyHashSet \<Rightarrow> int \<Rightarrow> bool option" where
  "set_contains hasher T key = do { found \<leftarrow> set_find hasher T key; Some (found \<noteq> None) }"

subsection \<open>The model: MyHashMap\<close>

record map_element =
  m_hash :: nat
  m_key :: int
  m_data :: int
  m_empty :: bool

definition map_element_init :: map_element where
  "map_element_init = \<lparr>m_hash = UINT32_MAX, m_key = 0, m_data = 0, m_empty = True\<rparr>"

type_synonym MyHashMap = "map_element list"

definition MyHashMap_init :: MyHashMap where
  "MyHashMap_init = replicate bucket_size map_element_init"

fun map_find_loop :: "MyHashMap \<Rightarrow> nat \<Rightarrow> int \<Rightarrow> nat list \<Rightarrow> nat option option" where
  "map_find_loop T hasVal key [] = Some None"
| "map_find_loop T hasVal key (i # is) = do {
     elem \<leftarrow> vec_at T (probe_slot hasVal i);
     if m_empty elem then Some None
     else if m_hash elem = hasVal \<and> m_key elem = key then Some (Some (probe_slot hasVal i))
     else map_find_loop T hasVal key is
   }"

definition map_find :: "(int \<Rightarrow> nat) \<Rightarrow> MyHashMap \<Rightarrow> int \<Rightarrow> nat option option" where
  "map_find hasher T key = map_find_loop T (hasher key) key [0..<PROBE_LEN]"

fun map_put_loop :: "MyHashMap \<Rightarrow> nat \<Rightarrow> int \<Rightarrow> int \<Rightarrow> nat list \<Rightarrow> MyHashMap option" where
  "map_put_loop T hasVal key value [] = None"
| "map_put_loop T hasVal key value (i # is) = do {
     elem \<leftarrow> vec_at T (probe_slot hasVal i);
     if m_empty elem
     then vec_upd T (probe_slot hasVal i) (elem\<lparr>m_key := key, m_hash := hasVal, m_data := value, m_empty := False\<rparr>)
     else if m_hash elem = hasVal \<and> m_key elem = key then vec_upd T (probe_slot hasVal i) (elem\<lparr>m_data := value\<rparr>)
     else map_put_loop T hasVal key value is
   }"

definition map_put :: "(int \<Rightarrow> nat) \<Rightarrow> MyHashMap \<Rightarrow> int \<Rightarrow> int \<Rightarrow> MyHashMap option" where
  "map_put hasher T key value = map_put_loop T (hasher key) key value [0..<PROBE_LEN]"

definition map_get :: "(int \<Rightarrow> nat) \<Rightarrow> MyHashMap \<Rightarrow> int \<Rightarrow> int option" where
  "map_get hasher T key = do {
     found \<leftarrow> map_find hasher T key;
     case found of
       None \<Rightarrow> Some (-1)
     | Some slot \<Rightarrow> do { elem \<leftarrow> vec_at T slot; Some (m_data elem) }
   }"

definition map_remove :: "(int \<Rightarrow> nat) \<Rightarrow> MyHashMap \<Rightarrow> int \<Rightarrow> MyHashMap option" where
  "map_remove hasher T key = do {
     found \<leftarrow> map_find hasher T key;
     case found of
       None \<Rightarrow> Some T
     | Some slot \<Rightarrow> do {
         elem \<leftarrow> vec_at T slot;
         vec_upd T slot (elem\<lparr>m_hash := UINT32_MAX, m_key := 0\<rparr>)
       }
   }"

subsection \<open>The set as an open-addressing table\<close>

definition set_key :: "set_element \<Rightarrow> int option" where
  "set_key e = (if s_hash e = UINT32_MAX \<or> s_tomb e then None else Some (s_key e))"

definition probe_list :: "(int \<Rightarrow> nat) \<Rightarrow> int \<Rightarrow> nat list" where
  "probe_list hasher k = map (probe_slot (hasher k)) [0..<PROBE_LEN]"

text \<open>No slot is probed twice: the squares of the probe numbers are less than \<open>bucket_size\<close>, and none of their differences is
  2^64 modulo \<open>bucket_size\<close>, by which the slots move when the sum wraps around.\<close>

lemma no_divisor: "list_all (\<lambda>d. 8419 mod d \<noteq> (0 :: int)) [2..139]"
  by simp

lemma probe_squares:
  assumes "i < j" "j < 140"
  shows "j * j \<noteq> i * i + (8419 :: nat)"
proof
  assume sq: "j * j = i * i + 8419"
  define e where "e = j - i"
  have j: "j = i + e" "0 < e" "e < 140" using assms by (simp_all add: e_def)
  have eq: "e * (2 * i + e) = 8419" using sq unfolding j(1) by (simp add: algebra_simps)
  then have "e * (2 * i + e) mod e = 8419 mod e" by simp
  then have d: "8419 mod int e = 0" by (metis mod_mult_self1_is_0 of_nat_0 of_nat_mod of_nat_numeral)
  have "8419 mod d \<noteq> 0" if "2 \<le> d" "d \<le> 139" for d :: int
    using no_divisor that by (simp only: list_all_iff set_upto atLeastAtMost_iff) blast
  from this [of "int e"] have "e = 1" using d j by fastforce
  then show False using eq assms by simp
qed

lemma probe_wrap:
  assumes "a < b" "b \<le> 19321" "922198873854399 * 20003 + (8419 + a) = b + 20003 * (q :: nat)"
  shows "b = a + 8419"
proof -
  have "(8419 + a + 20003 * 922198873854399) mod 20003 = (b + 20003 * q) mod 20003" using assms(3) by simp
  then have "(8419 + a) mod 20003 = b mod 20003" by (simp only: mod_mult_self2)
  then show ?thesis using assms(1,2) by (cases "8419 + a < 20003") (simp_all add: le_mod_geq)
qed

lemma probe_list_distinct: "distinct (probe_list hasher k)"
proof -
  have "probe_slot h i \<noteq> probe_slot h j" if "i < j" "j < 140" for h i j
  proof
    assume eq: "probe_slot h i = probe_slot h j"
    define H where "H = h mod 2 ^ 64"
    have H: "H < 18446744073709551616" by (simp add: H_def)
    have sq: "i * i < j * j" "j * j \<le> 139 * 139"
      using that mult_strict_mono [of i j i j] mult_le_mono [of j 139 j 139] by simp_all
    have slot: "probe_slot h n = (H + n * n) mod 18446744073709551616 mod 20003" for n
      by (simp add: probe_slot_def H_def bucket_size_def mod_add_left_eq)
    have wrap: "(H + n * n) mod 18446744073709551616 = H + n * n - 18446744073709551616"
      if "18446744073709551616 \<le> H + n * n" "n * n \<le> 139 * 139" for n
      using that H by (simp add: le_mod_geq)
    consider "H + j * j < 18446744073709551616" | "18446744073709551616 \<le> H + i * i"
      | "H + i * i < 18446744073709551616" "18446744073709551616 \<le> H + j * j" by linarith
    then show False
    proof cases
      case 1
      then have "(H + i * i) mod 20003 = (H + j * j) mod 20003" using eq sq slot [of i] slot [of j] by simp
      then have "20003 dvd j * j - i * i" using mod_eq_dvd_iff_nat [of "H + i * i" "H + j * j" 20003] sq by simp
      then show False using sq by (auto dest: dvd_imp_le)
    next
      case 2
      then have "(H + i * i - 18446744073709551616) mod 20003 = (H + j * j - 18446744073709551616) mod 20003"
      proof -
        have "18446744073709551616 \<le> H + j * j" "i * i \<le> 139 * 139" using 2 sq by linarith+
        then show ?thesis using eq wrap [of i] wrap [of j] 2 sq(2) unfolding slot by simp
      qed
      then have "20003 dvd (H + j * j - 18446744073709551616) - (H + i * i - 18446744073709551616)"
        using mod_eq_dvd_iff_nat [of "H + i * i - 18446744073709551616" "H + j * j - 18446744073709551616" 20003] sq 2 by simp
      then have "20003 dvd j * j - i * i" using 2 sq by (simp add: algebra_simps)
      then show False using sq by (auto dest: dvd_imp_le)
    next
      case 3
      then have "(H + i * i) mod 20003 = (H + j * j - 18446744073709551616) mod 20003"
        using eq sq 3 wrap [of j] slot [of i] slot [of j] by simp
      then have "20003 dvd (H + i * i) - (H + j * j - 18446744073709551616)"
        using mod_eq_dvd_iff_nat [of "H + j * j - 18446744073709551616" "H + i * i" 20003] 3 sq H by simp
      then obtain q where q: "(H + i * i) - (H + j * j - 18446744073709551616) = 20003 * q" by (auto simp: dvd_def)
      then have "18446744073709551616 + i * i = j * j + 20003 * q" using 3 sq by linarith
      moreover have "(18446744073709551616 :: nat) = 922198873854399 * 20003 + 8419" by simp
      ultimately have "922198873854399 * 20003 + (8419 + i * i) = j * j + 20003 * q" by linarith
      then have "j * j = i * i + 8419" using sq by (intro probe_wrap) simp_all
      then show False using probe_squares [OF that] by simp
    qed
  qed
  note ne = this
  have "i = j" if "i < 140" "j < 140" "probe_slot h i = probe_slot h j" for h i j
    using that ne [of i j h] ne [of j i h] by (cases i j rule: linorder_cases) auto
  then have "inj_on (probe_slot h) {0..<140}" for h by (intro inj_onI) simp
  then show ?thesis by (simp add: probe_list_def distinct_map PROBE_LEN_def)
qed

interpretation hset: open_addressing s_empty set_key "probe_list hasher" for hasher
  by unfold_locales (simp add: s_empty_def set_key_def)

text \<open>A tombstone has the hash \<open>UINT32_MAX\<close>, so the two tests of the code agree with \<open>set_key\<close>.\<close>

definition set_inv :: "(int \<Rightarrow> nat) \<Rightarrow> MyHashSet \<Rightarrow> bool" where
  "set_inv hasher T \<longleftrightarrow> length T = bucket_size \<and> (\<forall>k. hasher k \<noteq> UINT32_MAX) \<and> hset.table_inv hasher T"

text \<open>The number of insertions for which there are free slots, whatever their keys.\<close>

definition set_room :: "MyHashSet \<Rightarrow> nat" where
  "set_room T = PROBE_LEN - open_addressing.used s_empty T"

definition set_items :: "MyHashSet \<Rightarrow> int \<rightharpoonup> int" where
  "set_items = hset.table_map s_key"

lemma probe_list_less: "s \<in> set (probe_list hasher k) \<Longrightarrow> s < bucket_size"
  by (auto simp: probe_list_def probe_slot_less)

lemma set_find_loop_eq:
  assumes "length T = bucket_size"
  shows "set_find_loop T h key is =
    Some (probe_find s_empty (\<lambda>e. set_key e = Some key) T (map (probe_slot h) is))"
  by (induction "is") (use assms in \<open>auto simp: probe_slot_less set_key_def s_empty_def\<close>)

lemma set_find_correct:
  assumes "set_inv hasher T"
  shows "set_find hasher T key = Some (probe_find s_empty (\<lambda>e. set_key e = Some key) T (probe_list hasher key))"
  using assms by (simp add: set_find_def set_inv_def set_find_loop_eq probe_list_def)

lemma set_add_loop_correct:
  assumes I: "set_inv hasher T"
  shows "probe_list hasher key = us @ map (probe_slot (hasher key)) is \<Longrightarrow>
    \<forall>u \<in> set us. \<not> s_empty (T ! u) \<and> set_key (T ! u) \<noteq> Some key \<Longrightarrow>
    case set_add_loop T (hasher key) key is of
      None \<Rightarrow> set_items T key = None \<and> set_room T = 0
    | Some T' \<Rightarrow> set_inv hasher T' \<and> set_items T' = (set_items T)(key \<mapsto> key) \<and> set_room T \<le> Suc (set_room T')"
proof (induction "is" arbitrary: us)
  case Nil
  have "probe_find s_empty (\<lambda>e. set_key e = Some key) T (probe_list hasher key) = None"
    using hset.probe_find_prefix [of us T key "[]"] Nil by simp
  then have "set_items T key = None"
    using hset.find_map [of hasher T s_key key] I by (simp add: set_items_def set_inv_def)
  moreover have "length (probe_list hasher key) \<le> hset.used T"
    using Nil hset.probe_range [of hasher T _ key] I by (intro hset.used_probes probe_list_distinct) (auto simp: set_inv_def)
  then have "set_room T = 0" by (simp add: set_room_def probe_list_def)
  ultimately show ?case by simp
next
  case (Cons i "is")
  let ?s = "probe_slot (hasher key) i"
  have s: "?s < length T" using I by (simp add: set_inv_def probe_slot_less)
  have tab: "hset.table_inv hasher T" and len: "length T = bucket_size" using I by (simp_all add: set_inv_def)
  consider "s_empty (T ! ?s)" | "\<not> s_empty (T ! ?s)" "set_key (T ! ?s) = Some key"
    | "\<not> s_empty (T ! ?s)" "set_key (T ! ?s) \<noteq> Some key" by blast
  then show ?case
  proof cases
    case 1
    let ?e = "(T ! ?s)\<lparr>s_key := key, s_hash := hasher key\<rparr>"
    have k: "set_key (T ! ?s) = None" "set_key ?e = Some key"
      using 1 I by (auto simp: s_empty_def set_key_def set_inv_def)
    have "probe_find s_empty (\<lambda>e. set_key e = Some key) T (probe_list hasher key) = None"
      using hset.probe_find_prefix [of us T key "?s # map (probe_slot (hasher key)) is"] Cons.prems 1 by simp
    then have none: "\<forall>j < length T. set_key (T ! j) \<noteq> Some key" using hset.find_correct [OF tab] by (metis option.discI)
    have pl: "hset.placed hasher T ?s key" unfolding hset.placed_def using Cons.prems by auto
    have "set_inv hasher (T[?s := ?e])" "set_items (T[?s := ?e]) = (set_items T)(key \<mapsto> key)"
      using hset.store(1) [OF tab pl k(1) none k(2)] hset.store(2) [OF tab pl k(1) none k(2), of s_key] len I by (simp_all add: set_inv_def set_items_def)
    then show ?thesis using 1 s hset.used_upd [of T ?s ?e] by (simp add: set_room_def)
  next
    case 2
    have "set_items T key = Some key"
      using hset.table_map_at [OF tab s 2(2), of s_key] 2(2) by (simp add: set_items_def set_key_def split: if_splits)
    then have "(set_items T)(key \<mapsto> key) = set_items T" by auto
    moreover have "\<not> s_tomb (T ! ?s) \<and> s_key (T ! ?s) = key" using 2(2) by (auto simp: set_key_def split: if_splits)
    ultimately show ?thesis using 2 I s by simp
  next
    case 3
    then have "\<not> (\<not> s_tomb (T ! ?s) \<and> s_key (T ! ?s) = key)" by (auto simp: set_key_def s_empty_def)
    then show ?thesis using Cons.IH [of "us @ [?s]"] Cons.prems 3 s by auto
  qed
qed

lemma set_add_correct:
  assumes "set_inv hasher T"
  shows "case set_add hasher T key of
      None \<Rightarrow> set_items T key = None \<and> set_room T = 0
    | Some T' \<Rightarrow> set_inv hasher T' \<and> set_items T' = (set_items T)(key \<mapsto> key) \<and> set_room T \<le> Suc (set_room T')"
  using set_add_loop_correct [OF assms, of key "[]" "[0..<PROBE_LEN]"] by (simp add: set_add_def probe_list_def)

lemma set_remove_correct:
  assumes "set_inv hasher T"
  shows "\<exists>T'. set_remove hasher T key = Some T' \<and> set_inv hasher T' \<and> set_items T' = (set_items T)(key := None) \<and> set_room T \<le> set_room T'"
proof (cases "probe_find s_empty (\<lambda>e. set_key e = Some key) T (probe_list hasher key)")
  case None
  then have "set_items T key = None"
    using hset.find_map [of hasher T s_key key] assms by (simp add: set_items_def set_inv_def)
  then show ?thesis using None assms set_find_correct [OF assms] by (auto simp: set_remove_def)
next
  case (Some s)
  have tab: "hset.table_inv hasher T" using assms by (simp add: set_inv_def)
  have s: "s < length T" "set_key (T ! s) = Some key" using Some hset.find_correct [OF tab] by auto
  let ?e = "(T ! s)\<lparr>s_tomb := True, s_hash := UINT32_MAX\<rparr>"
  have "\<not> s_empty (T ! s)" using s(2) by (auto simp: set_key_def s_empty_def)
  then have room: "set_room T \<le> set_room (T[s := ?e])" using hset.used_upd_full [of T s ?e] by (simp add: set_room_def diff_le_mono2)
  have "set_key ?e = None" "\<not> s_empty ?e" by (simp_all add: set_key_def s_empty_def)
  note b = hset.bury(1) [OF tab s this] hset.bury(2) [OF tab s this, of s_key]
  show ?thesis using b room Some s set_find_correct [OF assms] assms by (simp add: set_remove_def set_inv_def set_items_def)
qed

lemma set_contains_correct:
  assumes "set_inv hasher T"
  shows "set_contains hasher T key = Some (set_items T key \<noteq> None)"
  using set_find_correct [OF assms] hset.find_map [of hasher T s_key key] assms
  by (cases "probe_find s_empty (\<lambda>e. set_key e = Some key) T (probe_list hasher key)")
    (auto simp: set_contains_def set_inv_def set_items_def dest!: sym [of "Some _"])

lemma MyHashSet_init_ok:
  assumes "\<forall>k. hasher k \<noteq> UINT32_MAX"
  shows "set_inv hasher MyHashSet_init" and "set_items MyHashSet_init = Map.empty"
    and "set_room MyHashSet_init = 140"
proof -
  have b: "\<forall>k. \<forall>s \<in> set (probe_list hasher k). s < length MyHashSet_init"
    by (simp add: MyHashSet_init_def probe_list_less)
  have k: "\<forall>e \<in> set MyHashSet_init. set_key e = None"
    by (simp add: MyHashSet_init_def set_element_init_def set_key_def)
  show "set_inv hasher MyHashSet_init"
    using hset.table_inv_blank(1) [OF b k] assms by (simp add: set_inv_def MyHashSet_init_def)
  show "set_items MyHashSet_init = Map.empty" using hset.table_inv_blank(2) [OF b k] by (simp add: set_items_def)
  have "hset.used MyHashSet_init = 0" by (rule hset.used_blank) (simp add: MyHashSet_init_def set_element_init_def s_empty_def)
  then show "set_room MyHashSet_init = 140" by (simp add: set_room_def PROBE_LEN_def)
qed

definition set_find_item :: "(int \<Rightarrow> nat) \<Rightarrow> MyHashSet \<Rightarrow> int \<Rightarrow> int option option" where
  "set_find_item hasher T key = do {
     found \<leftarrow> set_contains hasher T key;
     Some (if found then Some key else None)
   }"

lemma set_items_self: "set_inv hasher T \<Longrightarrow> set_items T key = Some v \<Longrightarrow> v = key"
proof -
  assume "set_inv hasher T" and v: "set_items T key = Some v"
  then have tab: "hset.table_inv hasher T" by (simp add: set_inv_def)
  have "hset.table_map s_key T key \<noteq> None" using v by (simp add: set_items_def)
  then obtain s where s: "s < length T" "set_key (T ! s) = Some key" unfolding hset.table_map_None by blast
  then show "v = key" using hset.table_map_at [OF tab s, of s_key] v by (simp add: set_items_def set_key_def split: if_splits)
qed

definition set_insert_item :: "(int \<Rightarrow> nat) \<Rightarrow> MyHashSet \<Rightarrow> int \<Rightarrow> (MyHashSet \<times> bool) option" where
  "set_insert_item hasher T key = map_option (\<lambda>T. (T, True)) (set_add hasher T key)"

interpretation set_client: hash_map id "set_inv hasher" set_room set_items "set_find_item hasher" "set_insert_item hasher" "set_remove hasher"
  for hasher
proof (unfold_locales, goal_cases)
  case (1 t x)
  then show ?case using set_contains_correct [OF 1, of x] set_items_self [OF 1, of x]
    by (cases "set_items t x") (auto simp: set_find_item_def)
next
  case (2 t x)
  then show ?case using set_add_correct [OF 2, of x] by (cases "set_add hasher t x") (simp_all add: set_insert_item_def)
next
  case (3 t x)
  then show ?case using set_remove_correct [OF 3, of x] by simp
qed

text \<open>For every hash function that avoids the mark \<open>UINT32_MAX\<close>, a sequence of \<open>add\<close>, \<open>remove\<close> and \<open>contains\<close> on a new
  \<open>MyHashSet\<close> answers as a set does, unless it stops at the assertion of \<open>add\<close>, which needs more than 140 additions.\<close>

theorem MyHashSet_refines:
  assumes "\<forall>k. hasher k \<noteq> UINT32_MAX"
  shows "case hash_run (set_find_item hasher) (set_insert_item hasher) (set_remove hasher) MyHashSet_init ps of
      None \<Rightarrow> 140 < inserts ps
    | Some (T, rs) \<Rightarrow> allowed_run id Map.empty ps rs (set_items T)"
  using set_client.run_spec [OF MyHashSet_init_ok(1) [OF assms], of ps] MyHashSet_init_ok(2,3) [OF assms]
  by (auto split: option.splits)

subsection \<open>The map as an open-addressing table\<close>

definition map_key :: "map_element \<Rightarrow> int option" where
  "map_key e = (if m_empty e \<or> m_hash e = UINT32_MAX then None else Some (m_key e))"

definition map_item :: "map_element \<Rightarrow> int \<times> int" where
  "map_item e = (m_key e, m_data e)"

interpretation hmap: open_addressing m_empty map_key "probe_list hasher" for hasher
  by unfold_locales (simp add: map_key_def)

definition hash_ok :: "(int \<Rightarrow> nat) \<Rightarrow> map_element \<Rightarrow> bool" where
  "hash_ok hasher e \<longleftrightarrow> (\<forall>k. map_key e = Some k \<longrightarrow> m_hash e = hasher k)"

definition map_inv :: "(int \<Rightarrow> nat) \<Rightarrow> MyHashMap \<Rightarrow> bool" where
  "map_inv hasher T \<longleftrightarrow>
     length T = bucket_size \<and> (\<forall>k. hasher k \<noteq> UINT32_MAX) \<and> (\<forall>e \<in> set T. hash_ok hasher e) \<and> hmap.table_inv hasher T"

definition map_room :: "MyHashMap \<Rightarrow> nat" where
  "map_room T = PROBE_LEN - open_addressing.used m_empty T"

definition map_items :: "MyHashMap \<Rightarrow> int \<rightharpoonup> int \<times> int" where
  "map_items = hmap.table_map map_item"

lemma map_match:
  assumes "map_inv hasher T" "s < length T" "\<not> m_empty (T ! s)"
  shows "m_hash (T ! s) = hasher k \<and> m_key (T ! s) = k \<longleftrightarrow> map_key (T ! s) = Some k"
proof -
  have "hash_ok hasher (T ! s)" "hasher k \<noteq> UINT32_MAX" using assms(1,2) by (simp_all add: map_inv_def)
  then show ?thesis using assms(3) by (auto simp: hash_ok_def map_key_def split: if_splits)
qed

lemma map_find_loop_eq:
  assumes "map_inv hasher T"
  shows "map_find_loop T (hasher key) key is =
    Some (probe_find m_empty (\<lambda>e. map_key e = Some key) T (map (probe_slot (hasher key)) is))"
proof (induction "is")
  case (Cons i "is")
  have s: "probe_slot (hasher key) i < length T" using assms by (simp add: map_inv_def probe_slot_less)
  show ?case using Cons s map_match [OF assms s, of key] by auto
qed simp

lemma map_find_correct:
  assumes "map_inv hasher T"
  shows "map_find hasher T key = Some (probe_find m_empty (\<lambda>e. map_key e = Some key) T (probe_list hasher key))"
  using map_find_loop_eq [OF assms] by (simp add: map_find_def probe_list_def)

lemma hash_ok_upd: "\<forall>e \<in> set T. hash_ok h e \<Longrightarrow> hash_ok h e' \<Longrightarrow> \<forall>e \<in> set (T[s := e']). hash_ok h e"
  using set_update_subset_insert by fastforce

lemma map_put_loop_correct:
  assumes I: "map_inv hasher T"
  shows "probe_list hasher key = us @ map (probe_slot (hasher key)) is \<Longrightarrow>
    \<forall>u \<in> set us. \<not> m_empty (T ! u) \<and> map_key (T ! u) \<noteq> Some key \<Longrightarrow>
    case map_put_loop T (hasher key) key value is of
      None \<Rightarrow> map_items T key = None \<and> map_room T = 0
    | Some T' \<Rightarrow> map_inv hasher T' \<and> map_items T' = (map_items T)(key \<mapsto> (key, value)) \<and> map_room T \<le> Suc (map_room T')"
proof (induction "is" arbitrary: us)
  case Nil
  have "probe_find m_empty (\<lambda>e. map_key e = Some key) T (probe_list hasher key) = None"
    using hmap.probe_find_prefix [of us T key "[]"] Nil by simp
  then have "map_items T key = None"
    using hmap.find_map [of hasher T map_item key] I by (simp add: map_items_def map_inv_def)
  moreover have "length (probe_list hasher key) \<le> hmap.used T"
    using Nil hmap.probe_range [of hasher T _ key] I by (intro hmap.used_probes probe_list_distinct) (auto simp: map_inv_def)
  then have "map_room T = 0" by (simp add: map_room_def probe_list_def)
  ultimately show ?case by simp
next
  case (Cons i "is")
  let ?s = "probe_slot (hasher key) i"
  have tab: "hmap.table_inv hasher T" and len: "length T = bucket_size" and hok: "\<forall>e \<in> set T. hash_ok hasher e"
    and mark: "hasher key \<noteq> UINT32_MAX" using I by (simp_all add: map_inv_def)
  have s: "?s < length T" using len by (simp add: probe_slot_less)
  consider "m_empty (T ! ?s)" | "\<not> m_empty (T ! ?s)" "map_key (T ! ?s) = Some key"
    | "\<not> m_empty (T ! ?s)" "map_key (T ! ?s) \<noteq> Some key" by blast
  then show ?case
  proof cases
    case 1
    let ?e = "(T ! ?s)\<lparr>m_key := key, m_hash := hasher key, m_data := value, m_empty := False\<rparr>"
    have k: "map_key (T ! ?s) = None" "map_key ?e = Some key" "hash_ok hasher ?e" "map_item ?e = (key, value)"
      using 1 mark by (simp_all add: map_key_def hash_ok_def map_item_def)
    have "probe_find m_empty (\<lambda>e. map_key e = Some key) T (probe_list hasher key) = None"
      using hmap.probe_find_prefix [of us T key "?s # map (probe_slot (hasher key)) is"] Cons.prems 1 by simp
    then have none: "\<forall>j < length T. map_key (T ! j) \<noteq> Some key" using hmap.find_correct [OF tab] by (metis option.discI)
    have pl: "hmap.placed hasher T ?s key" unfolding hmap.placed_def using Cons.prems by auto
    have "map_inv hasher (T[?s := ?e])" "map_items (T[?s := ?e]) = (map_items T)(key \<mapsto> (key, value))"
      using hmap.store(1) [OF tab pl k(1) none k(2)] hmap.store(2) [OF tab pl k(1) none k(2), of map_item]
        I hash_ok_upd [OF hok k(3)] k(4) by (simp_all add: map_inv_def map_items_def)
    then show ?thesis using 1 s hmap.used_upd [of T ?s ?e] by (simp add: map_room_def)
  next
    case 2
    let ?e = "(T ! ?s)\<lparr>m_data := value\<rparr>"
    have m: "m_hash (T ! ?s) = hasher key \<and> m_key (T ! ?s) = key" using map_match [OF I s 2(1)] 2(2) by simp
    have k: "map_key ?e = Some key" "hash_ok hasher ?e" "map_item ?e = (key, value)"
      using 2 m by (auto simp: map_key_def hash_ok_def map_item_def split: if_splits)
    have "map_inv hasher (T[?s := ?e])" "map_items (T[?s := ?e]) = (map_items T)(key \<mapsto> (key, value))"
      using hmap.replace(1) [OF tab s 2(2) k(1)] hmap.replace(2) [OF tab s 2(2) k(1), of map_item]
        I hash_ok_upd [OF hok k(2)] k(3) by (simp_all add: map_inv_def map_items_def)
    then show ?thesis using 2 m s hmap.used_upd [of T ?s ?e] by (simp add: map_room_def)
  next
    case 3
    then have "\<not> (m_hash (T ! ?s) = hasher key \<and> m_key (T ! ?s) = key)" using map_match [OF I s 3(1)] by simp
    then show ?thesis using Cons.IH [of "us @ [?s]"] Cons.prems 3 s by auto
  qed
qed

lemma map_put_correct:
  assumes "map_inv hasher T"
  shows "case map_put hasher T key value of
      None \<Rightarrow> map_items T key = None \<and> map_room T = 0
    | Some T' \<Rightarrow> map_inv hasher T' \<and> map_items T' = (map_items T)(key \<mapsto> (key, value)) \<and> map_room T \<le> Suc (map_room T')"
  using map_put_loop_correct [OF assms, of key "[]" "[0..<PROBE_LEN]"] by (simp add: map_put_def probe_list_def)

lemma map_remove_correct:
  assumes "map_inv hasher T"
  shows "\<exists>T'. map_remove hasher T key = Some T' \<and> map_inv hasher T' \<and> map_items T' = (map_items T)(key := None) \<and> map_room T \<le> map_room T'"
proof (cases "probe_find m_empty (\<lambda>e. map_key e = Some key) T (probe_list hasher key)")
  case None
  then have "map_items T key = None"
    using hmap.find_map [of hasher T map_item key] assms by (simp add: map_items_def map_inv_def)
  then show ?thesis using None assms map_find_correct [OF assms] by (auto simp: map_remove_def)
next
  case (Some s)
  have tab: "hmap.table_inv hasher T" and hok: "\<forall>e \<in> set T. hash_ok hasher e" using assms by (simp_all add: map_inv_def)
  have s: "s < length T" "map_key (T ! s) = Some key" using Some hmap.find_correct [OF tab] by auto
  let ?e = "(T ! s)\<lparr>m_hash := UINT32_MAX, m_key := 0\<rparr>"
  have e: "map_key ?e = None" "\<not> m_empty ?e" "hash_ok hasher ?e" "\<not> m_empty (T ! s)"
    using s(2) by (auto simp: map_key_def hash_ok_def split: if_splits)
  have "map_room T \<le> map_room (T[s := ?e])" using hmap.used_upd_full [OF e(4), of ?e] by (simp add: map_room_def diff_le_mono2)
  then show ?thesis
    using Some s map_find_correct [OF assms] assms hash_ok_upd [OF hok e(3)]
      hmap.bury(1) [OF tab s e(1,2)] hmap.bury(2) [OF tab s e(1,2), of map_item]
    by (simp add: map_remove_def map_inv_def map_items_def)
qed

lemma map_get_correct:
  assumes "map_inv hasher T"
  shows "map_get hasher T key = Some (case map_items T key of None \<Rightarrow> -1 | Some (k, v) \<Rightarrow> v)"
proof -
  have tab: "hmap.table_inv hasher T" using assms by (simp add: map_inv_def)
  have "map_items T key = map_option (\<lambda>s. map_item (T ! s)) (probe_find m_empty (\<lambda>e. map_key e = Some key) T (probe_list hasher key))"
    using hmap.find_map [OF tab, of map_item key] by (simp add: map_items_def)
  moreover have "s < length T" if "probe_find m_empty (\<lambda>e. map_key e = Some key) T (probe_list hasher key) = Some s" for s
    using that hmap.find_correct [OF tab] by blast
  ultimately show ?thesis using map_find_correct [OF assms, of key]
    by (cases "probe_find m_empty (\<lambda>e. map_key e = Some key) T (probe_list hasher key)")
      (simp_all add: map_get_def map_item_def)
qed

lemma MyHashMap_init_ok:
  assumes "\<forall>k. hasher k \<noteq> UINT32_MAX"
  shows "map_inv hasher MyHashMap_init" and "map_items MyHashMap_init = Map.empty"
    and "map_room MyHashMap_init = 140"
proof -
  have b: "\<forall>k. \<forall>s \<in> set (probe_list hasher k). s < length MyHashMap_init"
    by (simp add: MyHashMap_init_def probe_list_less)
  have k: "\<forall>e \<in> set MyHashMap_init. map_key e = None" "\<forall>e \<in> set MyHashMap_init. hash_ok hasher e"
    by (simp_all add: MyHashMap_init_def map_element_init_def map_key_def hash_ok_def)
  show "map_inv hasher MyHashMap_init"
    using hmap.table_inv_blank(1) [OF b k(1)] assms k(2) by (simp add: map_inv_def MyHashMap_init_def)
  show "map_items MyHashMap_init = Map.empty" using hmap.table_inv_blank(2) [OF b k(1)] by (simp add: map_items_def)
  have "hmap.used MyHashMap_init = 0" by (rule hmap.used_blank) (simp add: MyHashMap_init_def map_element_init_def)
  then show "map_room MyHashMap_init = 140" by (simp add: map_room_def PROBE_LEN_def)
qed

text \<open>The operations in the form of the client interface: an item is a key with its value.\<close>

definition map_find_item :: "(int \<Rightarrow> nat) \<Rightarrow> MyHashMap \<Rightarrow> int \<times> int \<Rightarrow> (int \<times> int) option option" where
  "map_find_item hasher T x = do {
     found \<leftarrow> map_find hasher T (fst x);
     Some (map_option (\<lambda>s. map_item (T ! s)) found)
   }"

definition map_insert_item :: "(int \<Rightarrow> nat) \<Rightarrow> MyHashMap \<Rightarrow> int \<times> int \<Rightarrow> (MyHashMap \<times> bool) option" where
  "map_insert_item hasher T x = map_option (\<lambda>T. (T, True)) (map_put hasher T (fst x) (snd x))"

definition map_erase_item :: "(int \<Rightarrow> nat) \<Rightarrow> MyHashMap \<Rightarrow> int \<times> int \<Rightarrow> MyHashMap option" where
  "map_erase_item hasher T x = map_remove hasher T (fst x)"

interpretation map_client: hash_map fst "map_inv hasher" map_room map_items "map_find_item hasher" "map_insert_item hasher"
    "map_erase_item hasher" for hasher
proof (unfold_locales, goal_cases)
  case (1 t x)
  then have tab: "hmap.table_inv hasher t" by (simp add: map_inv_def)
  show ?case using map_find_correct [OF 1, of "fst x"] hmap.find_map [OF tab, of map_item "fst x"]
    by (simp add: map_find_item_def map_items_def)
next
  case (2 t x)
  show ?case using map_put_correct [OF 2, of "fst x" "snd x"]
    by (cases "map_put hasher t (fst x) (snd x)") (simp_all add: map_insert_item_def)
next
  case (3 t x)
  show ?case using map_remove_correct [OF 3, of "fst x"] unfolding map_erase_item_def .
qed

text \<open>C28: For every hash function that avoids the mark \<open>UINT32_MAX\<close>, a sequence of \<open>put\<close>, \<open>remove\<close> and lookups on a new
  \<open>MyHashMap\<close> behaves as a finite map in which every \<open>put\<close> stores its value, and \<open>get\<close> then reads from that map, with -1 for a missing
  key; the run can stop at the failed assertion of \<open>put\<close> only with more than 140 insertions.\<close>

theorem MyHashMap_refines:
  assumes "\<forall>k. hasher k \<noteq> UINT32_MAX"
  shows "case hash_run (map_find_item hasher) (map_insert_item hasher) (map_erase_item hasher) MyHashMap_init ps of
      None \<Rightarrow> 140 < inserts ps
    | Some (T, rs) \<Rightarrow> allowed_run fst Map.empty ps rs (map_items T) \<and> Stored False \<notin> set rs \<and>
        map_get hasher T key = Some (case map_items T key of None \<Rightarrow> -1 | Some (k, v) \<Rightarrow> v)"
proof -
  have stored: "hash_run f (\<lambda>t x. map_option (\<lambda>T. (T, True)) (g t x)) e t ps = Some (t', rs) \<Longrightarrow> Stored False \<notin> set rs" for f g e t t' rs
  proof (induction ps arbitrary: t rs)
    case (Cons p ps)
    then show ?case by (cases p) (fastforce simp: hash_step_def split: bind_splits)+
  qed simp
  have "Stored False \<notin> set rs"
    if "hash_run (map_find_item hasher) (map_insert_item hasher) (map_erase_item hasher) MyHashMap_init ps = Some (T, rs)" for T rs
    using stored [of "map_find_item hasher" "\<lambda>T x. map_put hasher T (fst x) (snd x)"] that unfolding map_insert_item_def [abs_def] by blast
  then show ?thesis
    using map_client.run_spec [OF MyHashMap_init_ok(1) [OF assms], of ps] MyHashMap_init_ok(2,3) [OF assms]
      map_get_correct [of hasher _ key]
    by (auto split: option.splits)
qed

theorem MyHashMap_refines_witness:
  "case hash_run (map_find_item (\<lambda>k. nat (k mod 2 ^ 31))) (map_insert_item (\<lambda>k. nat (k mod 2 ^ 31)))
      (map_erase_item (\<lambda>k. nat (k mod 2 ^ 31))) MyHashMap_init [Insert (1, 5), Erase (1, 0), Insert (1, 7)] of
      None \<Rightarrow> 140 < inserts [Insert (1 :: int, 5 :: int), Erase (1, 0), Insert (1, 7)]
    | Some (T, rs) \<Rightarrow> allowed_run fst Map.empty [Insert (1, 5), Erase (1, 0), Insert (1, 7)] rs (map_items T) \<and> Stored False \<notin> set rs \<and>
        map_get (\<lambda>k. nat (k mod 2 ^ 31)) T 1 = Some (case map_items T 1 of None \<Rightarrow> -1 | Some (k, v) \<Rightarrow> v)"
proof (rule MyHashMap_refines, rule allI)
  fix k :: int
  have "k mod 2 ^ 31 < 2 ^ 31" by (rule pos_mod_bound) simp
  then show "nat (k mod 2 ^ 31) \<noteq> UINT32_MAX" by (simp add: UINT32_MAX_def)
qed

end
