(* ===== verification/HelperLib.thy ===== *)
theory HelperLib
  imports MathDigits CharLib
begin

section \<open>Helper functions (library/helper.h)\<close>

text \<open>
  The small helpers that the other files use: digit counts, conversions, prefix sums, modes,
  position maps, the most counted value, and the enumeration of primitive right triangles.
  \<open>accumulate_int\<close> is \<open>std::accumulate\<close> of ints from 0, and \<open>int_sqrt\<close> is \<open>std::sqrt\<close> cut to an
  integer. \<open>count_letter\<close> is in \<open>NextGreater\<close> and \<open>connectedComponents\<close> in \<open>GridComponents\<close>.
\<close>

subsection \<open>Numbers\<close>

definition accumulate_int :: "int list \<Rightarrow> int" where
  "accumulate_int xs = foldl (\<lambda>init x. i32 (init + x)) 0 xs"

definition int_sqrt :: "nat \<Rightarrow> nat" where
  "int_sqrt n = last (filter (\<lambda>r. r * r \<le> n) [0..<Suc n])"

function countDecDigit_loop :: "int \<Rightarrow> int \<Rightarrow> int" where
  "countDecDigit_loop c n = (if n \<noteq> 0 then countDecDigit_loop (c + 1) (n sdiv 10) else c)"
  by pat_completeness auto
termination
  by (relation "measure (\<lambda>(c, n). nat \<bar>n\<bar>)") (auto simp: signed_divide_int_def abs_mult)

definition countDecDigit :: "int \<Rightarrow> int" where
  "countDecDigit n = countDecDigit_loop 0 n"

function gcd_rec :: "int \<Rightarrow> int \<Rightarrow> int" where
  "gcd_rec p q = (if q = 0 then p else gcd_rec q (p smod q))"
  by pat_completeness auto
termination
  by (relation "measure (\<lambda>(p, q). nat \<bar>q\<bar>)") (auto simp: signed_modulo_int_def minus_div_mult_eq_mod abs_mult abs_sgn_eq)

declare countDecDigit_loop.simps [simp del] gcd_rec.simps [simp del]

definition multiplyComplex :: "int \<Rightarrow> int \<Rightarrow> int \<Rightarrow> int \<Rightarrow> int \<times> int" where
  "multiplyComplex r1 i1 r2 i2 = (i32 (r1 * r2 - i1 * i2), i32 (r1 * i2 + r2 * i1))"

definition ceiling_int :: "int \<Rightarrow> int \<Rightarrow> int" where
  "ceiling_int divdend divisor = i32 (divdend + divisor - 1) sdiv divisor"

text \<open>\<open>S[start]\<close> is the terminating 0 at the end of the string.\<close>

definition to_int :: "string \<Rightarrow> int \<Rightarrow> int \<Rightarrow> int option" where
  "to_int S start stop =
     (let len = stop - start + 1
      in if len = 10 \<and> (start < 0 \<or> int (length S) < start) then None
         else if len = 10 \<and> start < int (length S) \<and> code (S ! nat start) > code (CHR ''2'') then Some (- 1)
         else map_option atoi (substr S start len))"

definition to_lower :: "string \<Rightarrow> string" where
  "to_lower s = map tolower s"

subsection \<open>Sequences and counts\<close>

definition prefix_sum :: "int list \<Rightarrow> int list" where
  "prefix_sum prefix = foldl (\<lambda>p i. p[i := i32 (p ! i + p ! (i - 1))]) prefix [1..<length prefix]"

text \<open>\<open>mode_calc\<close>: the values seen with the greatest count so far.\<close>

record mode_calc =
  modes :: "int list"
  mode_count :: int

definition mode_calc_init :: mode_calc where
  "mode_calc_init = \<lparr>modes = [], mode_count = 0\<rparr>"

definition try_new_mode :: "mode_calc \<Rightarrow> int \<Rightarrow> int \<Rightarrow> mode_calc" where
  "try_new_mode this prev same_count =
     (if modes this = [] then this\<lparr>mode_count := same_count, modes := modes this @ [prev]\<rparr>
      else if mode_count this > same_count then this
      else if mode_count this < same_count then this\<lparr>mode_count := same_count, modes := [prev]\<rparr>
      else this\<lparr>modes := modes this @ [prev]\<rparr>)"

text \<open>\<open>vector2map\<close> keeps the first position of a value (\<open>emplace\<close>), \<open>value_iter_map\<close> the last.\<close>

definition vector2map :: "'a list \<Rightarrow> 'a \<rightharpoonup> int" where
  "vector2map v = foldl (\<lambda>pos_map i. if pos_map (v ! i) = None then pos_map(v ! i \<mapsto> i32 (int i)) else pos_map)
     Map.empty [0..<length v]"

definition value_iter_map :: "'a list \<Rightarrow> 'a \<rightharpoonup> nat" where
  "value_iter_map v = foldl (\<lambda>pos_map x. pos_map(v ! x \<mapsto> x)) Map.empty [0..<length v]"

record 'a count_max =
  counter :: "'a \<rightharpoonup> int"
  max_count :: int
  max_count_val :: 'a

definition count_max_init :: "'a \<Rightarrow> 'a count_max" where
  "count_max_init zero = \<lparr>counter = Map.empty, max_count = 0, max_count_val = zero\<rparr>"

definition count_max_update :: "'a count_max \<Rightarrow> 'a \<Rightarrow> 'a count_max" where
  "count_max_update this n =
     (let x = i32 ((case counter this n of None \<Rightarrow> 0 | Some c \<Rightarrow> c) + 1);
          this = this\<lparr>counter := (counter this)(n \<mapsto> x)\<rparr>
      in if x > max_count this then this\<lparr>max_count := x, max_count_val := n\<rparr> else this)"

definition count_max_get :: "'a count_max \<Rightarrow> 'a \<times> int" where
  "count_max_get this = (max_count_val this, max_count this)"

subsection \<open>Primitive right triangles\<close>

definition triangles_of :: "int \<Rightarrow> int \<Rightarrow> int \<Rightarrow> int list list" where
  "triangles_of N MAX_M n =
     concat (map (\<lambda>m. if gcd_rec m n = 1 \<and> i32 (2 * m * (m + n)) \<le> N
         then [[i32 (m * m - n * n), i32 (2 * m * n), i32 (m * m + n * n)]] else [])
       (filter (\<lambda>m. even (m - (n + 1))) [n + 1..MAX_M - 1]))"

definition rightTrianglesFundamental :: "int \<Rightarrow> int list list" where
  "rightTrianglesFundamental N =
     (let MAX_N = int (int_sqrt (nat (N sdiv 4))) + 1;
          MAX_M = int (int_sqrt (nat (N sdiv 2))) + 1
      in concat (map (triangles_of N MAX_M) [1..MAX_N - 1]))"

subsection \<open>Correctness: numbers\<close>

lemma foldl_i32_add:
  assumes "-2147483648 \<le> a" "a < 2147483648"
  shows "foldl (\<lambda>s x. i32 (s + f x)) a xs = i32 (a + (\<Sum>x \<leftarrow> xs. f x))"
proof -
  have "foldl (\<lambda>s x. i32 (s + f x)) (i32 a) xs = i32 (a + (\<Sum>x \<leftarrow> xs. f x))" for a
  proof (induction xs arbitrary: a)
    case (Cons x xs)
    have "foldl (\<lambda>s x. i32 (s + f x)) (i32 a) (x # xs) = foldl (\<lambda>s x. i32 (s + f x)) (i32 (a + f x)) xs"
      by (simp add: swrap_add)
    then show ?case using Cons.IH [of "a + f x"] by (simp add: add.assoc)
  qed simp
  then show ?thesis using assms by (metis i32_id)
qed

lemma accumulate_int_eq: "accumulate_int xs = i32 (sum_list xs)"
  unfolding accumulate_int_def using foldl_i32_add [of 0 "\<lambda>x. x" xs] by simp

lemma sorted_le_last: "sorted xs \<Longrightarrow> x \<in> set xs \<Longrightarrow> x \<le> last xs"
  by (induction xs) auto

lemma int_sqrt_correct: "int_sqrt n * int_sqrt n \<le> n" "n < Suc (int_sqrt n) * Suc (int_sqrt n)"
proof -
  let ?l = "filter (\<lambda>r. r * r \<le> n) [0..<Suc n]"
  have "0 \<in> set ?l" by (simp del: upt_Suc)
  then have ne: "?l \<noteq> []" by (metis empty_iff empty_set)
  then have "int_sqrt n \<in> set ?l" unfolding int_sqrt_def using last_in_set by blast
  then show "int_sqrt n * int_sqrt n \<le> n" by (auto simp del: upt_Suc)
  have top: "r \<le> int_sqrt n" if r: "r \<in> set ?l" for r
  proof -
    have "sorted ?l" by (simp add: sorted_wrt_filter del: upt_Suc)
    then show ?thesis unfolding int_sqrt_def using r by (rule sorted_le_last)
  qed
  show "n < Suc (int_sqrt n) * Suc (int_sqrt n)"
  proof (rule ccontr)
    assume "\<not> ?thesis"
    then have "Suc (int_sqrt n) * Suc (int_sqrt n) \<le> n" by simp
    moreover have "Suc (int_sqrt n) \<le> n" using calculation by (metis le_square le_trans)
    ultimately have "Suc (int_sqrt n) \<in> set ?l" by auto
    then show False using top by fastforce
  qed
qed

lemma int_sqrt_ge_iff: "r \<le> int_sqrt n \<longleftrightarrow> r * r \<le> n"
proof
  assume "r \<le> int_sqrt n"
  then show "r * r \<le> n" using int_sqrt_correct(1) [of n] by (meson le_trans mult_le_mono)
next
  assume "r * r \<le> n"
  then have "r * r < Suc (int_sqrt n) * Suc (int_sqrt n)" using int_sqrt_correct(2) by (rule le_less_trans)
  then have "r < Suc (int_sqrt n)" by (metis linorder_not_less mult_le_mono)
  then show "r \<le> int_sqrt n" by simp
qed

lemma countDecDigit_loop_eq: "countDecDigit_loop c n = c + int (length (dec_digits \<bar>n\<bar>))"
proof (induction c n rule: countDecDigit_loop.induct)
  case (1 c n)
  show ?case
  proof (cases "n = 0")
    case False
    have "\<bar>n sdiv 10\<bar> = \<bar>n\<bar> div 10" using False by (simp add: signed_divide_int_def abs_mult)
    then show ?thesis using 1 False
      by (simp add: countDecDigit_loop.simps [of c n] base_digits_pos [of 10 "\<bar>n\<bar>"])
  qed (simp add: countDecDigit_loop.simps)
qed

lemma countDecDigit_eq: "countDecDigit n = int (length (dec_digits \<bar>n\<bar>))"
  by (simp add: countDecDigit_def countDecDigit_loop_eq)

lemma gcd_rec_eq: "0 \<le> p \<Longrightarrow> 0 \<le> q \<Longrightarrow> gcd_rec p q = gcd p q"
proof (induction p q rule: gcd_rec.induct)
  case (1 p q)
  show ?case
  proof (cases "q = 0")
    case False
    then have "gcd_rec p q = gcd q (p mod q)" using 1 by (simp add: gcd_rec.simps [of p q])
    also have "\<dots> = gcd p q" by (rule gcd_red_int [symmetric])
    finally show ?thesis .
  qed (use 1 in \<open>simp add: gcd_rec.simps [of p 0]\<close>)
qed

text \<open>\<open>to_int\<close> reads a block of digits, and turns ten digits above 2999999999 into -1.\<close>

lemma to_int_digits:
  assumes ds: "ds \<noteq> []" "\<forall>c \<in> set ds. isdigit c"
    and val: "digits_value 0 ds < 2147483648 \<or> length ds = 10 \<and> code (hd ds) > code (CHR ''2'')"
  shows "to_int (pre @ ds @ post) (int (length pre)) (int (length pre + length ds) - 1) =
    Some (if length ds = 10 \<and> code (hd ds) > code (CHR ''2'') then - 1 else digits_value 0 ds)"
proof -
  have hd: "(pre @ ds @ post) ! length pre = hd ds" using ds(1) by (simp add: nth_append hd_conv_nth)
  have sub: "substr (pre @ ds @ post) (int (length pre)) (int (length ds)) = Some ds"
    by (simp add: substr_def)
  have at: "atoi ds = i32 (digits_value 0 ds)"
  proof -
    obtain c cs where c: "ds = c # cs" "isdigit c" using ds by (cases ds) auto
    show ?thesis using digit_not_special [OF c(2)] by (simp add: atoi_def c(1) del: digits_value.simps)
  qed
  have nonneg: "0 \<le> acc \<Longrightarrow> 0 \<le> digits_value acc cs" for acc cs
    by (induction cs arbitrary: acc) (auto simp: isdigit_def)
  show ?thesis using ds(1) hd sub at val nonneg [of 0 ds] by (auto simp: to_int_def)
qed

lemma multiplyComplex_correct:
  "multiplyComplex r1 i1 r2 i2 = (x, y) \<Longrightarrow> \<bar>r1 * r2 - i1 * i2\<bar> < 2147483648 \<Longrightarrow> \<bar>r1 * i2 + r2 * i1\<bar> < 2147483648 \<Longrightarrow>
   Complex (of_int x) (of_int y) = Complex (of_int r1) (of_int i1) * Complex (of_int r2) (of_int i2)"
  by (auto simp: multiplyComplex_def complex_eq_iff)

lemma ceiling_int_correct:
  assumes "0 \<le> a" "0 < b" "a + b < 2147483648"
  shows "ceiling_int a b = \<lceil>real_of_int a / real_of_int b\<rceil>"
proof -
  have "ceiling_int a b = (a + b - 1) div b" using assms by (simp add: ceiling_int_def)
  also have "\<dots> = - ((- a) div b)"
  proof -
    define m where "m = (a + b - 1) mod b"
    have m: "0 \<le> m" "m < b" "a + b - 1 = b * ((a + b - 1) div b) + m" using assms(2) by (simp_all add: m_def)
    have "(- a) div b = - ((a + b - 1) div b)"
      by (rule int_div_pos_eq [where r = "b - 1 - m"]) (use m in \<open>simp_all add: algebra_simps\<close>)
    then show ?thesis by simp
  qed
  also have "\<dots> = \<lceil>real_of_int a / real_of_int b\<rceil>" by (simp add: ceiling_divide_eq_div)
  finally show ?thesis .
qed

subsection \<open>Correctness: sequences and counts\<close>

lemma prefix_sum_upto:
  "k \<le> length prefix \<Longrightarrow>
   foldl (\<lambda>p i. p[i := i32 (p ! i + p ! (i - 1))]) prefix [1..<k] =
   map (\<lambda>i. if i = 0 then prefix ! 0 else if i < k then i32 (\<Sum>j \<le> i. prefix ! j) else prefix ! i) [0..<length prefix]"
proof (induction k)
  case 0
  then show ?case by (auto intro: nth_equalityI)
next
  case (Suc k)
  show ?case
  proof (cases "k = 0")
    case True
    then show ?thesis by (auto intro: nth_equalityI)
  next
    case False
    let ?p = "map (\<lambda>i. if i = 0 then prefix ! 0 else if i < k then i32 (\<Sum>j \<le> i. prefix ! j) else prefix ! i) [0..<length prefix]"
    have "i32 (?p ! k + ?p ! (k - 1)) = i32 (\<Sum>j \<le> k. prefix ! j)"
    proof (cases "k = 1")
      case True
      have "prefix \<noteq> []" using Suc.prems by auto
      then have "?p ! (k - 1) = prefix ! 0" "?p ! k = prefix ! 1" using True Suc.prems by auto
      then show ?thesis using True by (simp add: add.commute)
    next
      case k: False
      have "?p ! (k - 1) = i32 (\<Sum>j \<le> k - 1. prefix ! j)" "?p ! k = prefix ! k" using False k Suc.prems by auto
      then have "i32 (?p ! k + ?p ! (k - 1)) = i32 (prefix ! k + i32 (\<Sum>j \<le> k - 1. prefix ! j))"
        by (simp only:)
      also have "\<dots> = i32 (i32 (\<Sum>j \<le> k - 1. prefix ! j) + prefix ! k)" by (rule arg_cong [OF add.commute])
      also have "\<dots> = i32 ((\<Sum>j \<le> k - 1. prefix ! j) + prefix ! k)" by (rule swrap_add) simp
      also have "(\<Sum>j \<le> k - 1. prefix ! j) + prefix ! k = (\<Sum>j \<le> k. prefix ! j)"
        using False by (cases k) auto
      finally show ?thesis .
    qed
    moreover have upt: "[1..<Suc k] = [1..<k] @ [k]" using False by (simp add: upt_Suc_append)
    moreover have "?p[k := v] = map (\<lambda>i. if i = 0 then prefix ! 0 else if i < k then i32 (\<Sum>j \<le> i. prefix ! j)
        else if i = k then v else prefix ! i) [0..<length prefix]" for v
      using False by (intro nth_equalityI) (auto simp: nth_list_update)
    ultimately show ?thesis using Suc False by (simp add: less_Suc_eq del: upt_Suc)
  qed
qed

lemma prefix_sum_correct:
  assumes "\<forall>x \<in> set prefix. -2147483648 \<le> x \<and> x < 2147483648"
  shows "prefix_sum prefix = map (\<lambda>i. i32 (\<Sum>j \<le> i. prefix ! j)) [0..<length prefix]"
  unfolding prefix_sum_def prefix_sum_upto [OF order_refl] using assms by (auto simp: Suc_le_eq)

text \<open>Fed with values and their counts, \<open>mode_calc\<close> keeps the values of greatest count in order.\<close>

lemma try_new_mode_fold:
  "xs \<noteq> [] \<Longrightarrow> foldl (\<lambda>m (v, c). try_new_mode m v c) mode_calc_init xs =
    \<lparr>modes = map fst (filter (\<lambda>x. snd x = Max (snd ` set xs)) xs), mode_count = Max (snd ` set xs)\<rparr>"
proof (induction xs rule: rev_induct)
  case (snoc x xs)
  obtain v c where x: "x = (v, c)" by force
  show ?case
  proof (cases "xs = []")
    case True
    then show ?thesis by (simp add: x try_new_mode_def mode_calc_init_def)
  next
    case False
    let ?M = "Max (snd ` set xs)"
    have M: "Max (snd ` set (xs @ [x])) = max c ?M" using False by (simp add: x)
    have ex: "\<exists>y \<in> set xs. snd y = ?M" using False by (metis (no_types, lifting) List.finite_set Max_in finite_imageI image_iff image_is_empty set_empty)
    then have ne: "filter (\<lambda>y. snd y = ?M) xs \<noteq> []" by (simp add: filter_empty_conv)
    have above: "filter (\<lambda>y. snd y = c) xs = []" if less: "?M < c"
    proof -
      have "snd y \<noteq> c" if "y \<in> set xs" for y
      proof -
        have "snd y \<le> ?M" using that by simp
        then show ?thesis using less by simp
      qed
      then show ?thesis by (simp add: filter_empty_conv)
    qed
    show ?thesis
      using snoc.IH [OF False] ne above unfolding M by (auto simp: x try_new_mode_def max_def)
  qed
qed simp

lemma vector2map_upto:
  "foldl (\<lambda>pos_map i. if pos_map (v ! i) = None then pos_map(v ! i \<mapsto> i32 (int i)) else pos_map) Map.empty [0..<k] x =
   (if \<exists>i < k. v ! i = x then Some (i32 (int (LEAST i. v ! i = x))) else None)"
proof (induction k)
  case (Suc k)
  let ?m = "foldl (\<lambda>pos_map i. if pos_map (v ! i) = None then pos_map(v ! i \<mapsto> i32 (int i)) else pos_map) Map.empty [0..<k]"
  have m: "?m x = (if \<exists>i < k. v ! i = x then Some (i32 (int (LEAST i. v ! i = x))) else None)" using Suc .
  show ?case
  proof (cases "\<exists>i < k. v ! i = x")
    case True
    then have "\<exists>i < Suc k. v ! i = x" using less_SucI by blast
    then show ?thesis using m True by auto
  next
    case False
    then have "(LEAST i. v ! i = x) = k" if "v ! k = x"
      using that by (intro Least_equality) (auto simp: not_less [symmetric])
    then show ?thesis using m False by (auto simp: less_Suc_eq)
  qed
qed simp

lemma vector2map_first:
  assumes "length v \<le> 2147483648"
  shows "vector2map v x = (if x \<in> set v then Some (int (LEAST i. v ! i = x)) else None)"
proof -
  have "(LEAST i. v ! i = x) < length v" if "x \<in> set v"
    using that by (metis (mono_tags, lifting) LeastI_ex Least_le in_set_conv_nth leD le_less_linear order_le_less_trans)
  then have "i32 (int (LEAST i. v ! i = x)) = int (LEAST i. v ! i = x)" if "x \<in> set v"
    using that assms by (intro i32_id) auto
  moreover have "(\<exists>i < length v. v ! i = x) \<longleftrightarrow> x \<in> set v" by (auto simp: in_set_conv_nth)
  ultimately show ?thesis using assms unfolding vector2map_def vector2map_upto by simp
qed

lemma value_iter_map_last:
  "value_iter_map v x = (if x \<in> set v then Some (GREATEST i. i < length v \<and> v ! i = x) else None)"
proof -
  have "foldl (\<lambda>pos_map i. pos_map(v ! i \<mapsto> i)) Map.empty [0..<k] x =
      (if \<exists>i < k. v ! i = x then Some (GREATEST i. i < k \<and> v ! i = x) else None)" for k
  proof (induction k)
    case (Suc k)
    have "(GREATEST i. i < Suc k \<and> v ! i = x) = k" if "v ! k = x"
      using that by (intro Greatest_equality) auto
    moreover have "(\<lambda>i. i < Suc k \<and> v ! i = x) = (\<lambda>i. i < k \<and> v ! i = x)" if "v ! k \<noteq> x"
      using that by (auto simp: less_Suc_eq)
    ultimately show ?case using Suc by (auto simp: less_Suc_eq)
  qed simp
  then show ?thesis unfolding value_iter_map_def by (auto simp: in_set_conv_nth)
qed

text \<open>After any updates the counters hold the counts, and \<open>get\<close> the value that was first to reach the greatest one.\<close>

definition counted :: "'a list \<Rightarrow> 'a \<rightharpoonup> int" where
  "counted xs y = (if y \<in> set xs then Some (int (count_list xs y)) else None)"

lemma count_max_counts:
  assumes "length xs < 2147483648"
  shows "counter (foldl count_max_update (count_max_init zero) xs) = counted xs \<and>
    (xs \<noteq> [] \<longrightarrow> (let (v, c) = count_max_get (foldl count_max_update (count_max_init zero) xs) in
       v \<in> set xs \<and> c = int (count_list xs v) \<and> (\<forall>y. count_list xs y \<le> count_list xs v)))"
  using assms
proof (induction xs rule: rev_induct)
  case (snoc x xs)
  let ?s = "foldl count_max_update (count_max_init zero) xs"
  have cnt: "count_list xs x \<le> length xs" by (rule count_le_length)
  have IH: "counter ?s = counted xs" using snoc by simp
  have new: "i32 ((case counter ?s x of None \<Rightarrow> 0 | Some c \<Rightarrow> c) + 1) = int (count_list xs x) + 1"
    using snoc.prems cnt by (auto simp: IH counted_def count_list_0_iff)
  have c: "counter (foldl count_max_update (count_max_init zero) (xs @ [x])) = counted (xs @ [x])"
    using new by (auto simp: count_max_update_def Let_def IH counted_def fun_eq_iff count_list_0_iff)
  show ?case
  proof (cases "xs = []")
    case True
    then show ?thesis using c by (auto simp: count_max_update_def count_max_init_def count_max_get_def)
  next
    case False
    define w where "w = max_count_val ?s"
    have w: "w \<in> set xs" "max_count ?s = int (count_list xs w)" "\<And>y. count_list xs y \<le> count_list xs w"
      using snoc False by (auto simp: count_max_get_def w_def)
    have get: "count_max_get (foldl count_max_update (count_max_init zero) (xs @ [x])) =
        (if count_list xs w \<le> count_list xs x then (x, int (count_list xs x) + 1) else (w, int (count_list xs w)))"
      using new w(2) by (simp add: count_max_update_def Let_def count_max_get_def w_def)
    show ?thesis
    proof (cases "count_list xs w \<le> count_list xs x")
      case True
      then have "count_list xs y \<le> count_list xs x" for y using w(3) order_trans by blast
      then show ?thesis using c True unfolding get by (simp add: le_SucI)
    next
      case False
      then show ?thesis using c w unfolding get by auto
    qed
  qed
qed (simp add: count_max_init_def counted_def fun_eq_iff)

subsection \<open>Correctness: primitive right triangles\<close>

text \<open>If a product of coprime numbers is a square, both factors are.\<close>

lemma coprime_square_factor:
  assumes "x * y = z ^ 2" "coprime x y" "(0::int) \<le> x"
  shows "x = gcd x z ^ 2"
proof -
  have "gcd x z ^ 2 = gcd (x ^ 2) (z ^ 2)" by (simp add: gcd_exp_weak)
  also have "\<dots> = gcd (x * x) (x * y)" using assms(1) by (simp add: power2_eq_square)
  also have "\<dots> = x * gcd x y" using assms(3) gcd_mult_distrib_int [of x x y] by simp
  also have "\<dots> = x" using assms(2) by simp
  finally show ?thesis by simp
qed

lemma square_mod_4: "odd (a::int) \<Longrightarrow> a ^ 2 mod 4 = 1"
proof -
  assume "odd a"
  then obtain k where "a = 2 * k + 1" by (rule oddE)
  then have "a ^ 2 = 4 * (k * k + k) + 1" by (simp add: power2_eq_square algebra_simps)
  then show ?thesis by presburger
qed

text \<open>Euclid's formula gives every primitive triangle with an even second side, for exactly one pair.\<close>

definition primitive :: "int \<Rightarrow> int \<Rightarrow> int \<Rightarrow> bool" where
  "primitive a b c \<longleftrightarrow> 0 < a \<and> 0 < b \<and> 0 < c \<and> a ^ 2 + b ^ 2 = c ^ 2 \<and> coprime a b \<and> even b"

lemma euclid_formula:
  assumes "primitive a b c"
  shows "\<exists>m n. 0 < n \<and> n < m \<and> coprime m n \<and> odd (m - n) \<and> a = m * m - n * n \<and> b = 2 * m * n \<and> c = m * m + n * n"
proof -
  note p = assms [unfolded primitive_def]
  have odd_a: "odd a" using p by (metis coprime_common_divisor odd_one)
  have odd_c: "odd c" using p odd_a by (metis even_add even_power pos2 zero_neq_numeral)
  have "even (c - a)" "even (c + a)" "even b" using odd_a odd_c p by simp_all
  then obtain x y z where x: "c - a = 2 * x" and y: "c + a = 2 * y" and z: "b = 2 * z" unfolding dvd_def by blast
  have ac: "a = y - x" "c = x + y" using x y by auto
  have "(x + y) ^ 2 = (y - x) ^ 2 + (2 * z) ^ 2" using p unfolding ac z by simp
  then have xy: "x * y = z ^ 2" by (simp add: power2_eq_square algebra_simps)
  have "c ^ 2 > a ^ 2" using p zero_less_power [of b 2] by linarith
  then have "a < c" using p power_less_imp_less_base [of a 2 c] by simp
  then have pos: "0 < x" "0 < y" "x < y" using x y p ac by auto
  have cop: "coprime x y"
  proof (rule coprimeI)
    fix d assume d: "d dvd x" "d dvd y"
    then have "d dvd a" "d dvd c" unfolding ac by simp_all
    moreover have "d ^ 2 dvd z ^ 2"
      using mult_dvd_mono [OF d] xy by (simp add: power2_eq_square)
    then have "d dvd z" by simp
    then have "d dvd b" unfolding z by simp
    ultimately show "is_unit d" using p by (meson coprime_common_divisor)
  qed
  define n m where "n = gcd x z" and "m = gcd y z"
  have n: "x = n ^ 2" unfolding n_def using coprime_square_factor [OF xy cop] pos by simp
  have m: "y = m ^ 2" unfolding m_def using coprime_square_factor [of y x z] xy cop pos
    by (simp add: mult.commute coprime_commute)
  have nn: "0 < n" "0 < m" using pos by (auto simp: n_def m_def)
  have "n < m" using pos(3) nn power_less_imp_less_base [of n 2 m] unfolding n m by simp
  moreover have "coprime m n" using cop unfolding n m by (simp add: coprime_commute)
  moreover have "odd (m - n)" using odd_a unfolding ac n m by simp
  moreover have "z = m * n"
  proof -
    have "z ^ 2 = (m * n) ^ 2" using xy unfolding n m by (simp add: power_mult_distrib mult.commute)
    moreover have "0 \<le> z" "0 \<le> m * n" using p z nn by auto
    ultimately show ?thesis by (simp add: power2_eq_iff_nonneg)
  qed
  ultimately show ?thesis using nn ac z n m by (intro exI [of _ m] exI [of _ n]) (auto simp: power2_eq_square)
qed

lemma distinct_concat_map:
  "distinct xs \<Longrightarrow> (\<And>x. x \<in> set xs \<Longrightarrow> distinct (f x)) \<Longrightarrow>
   (\<And>x y z. x \<in> set xs \<Longrightarrow> y \<in> set xs \<Longrightarrow> z \<in> set (f x) \<Longrightarrow> z \<in> set (f y) \<Longrightarrow> x = y) \<Longrightarrow> distinct (concat (map f xs))"
proof (induction xs)
  case (Cons x xs)
  have "distinct (concat (map f xs))" using Cons by (intro Cons.IH) auto
  moreover have "z \<notin> set (f y)" if "y \<in> set xs" "z \<in> set (f x)" for y z
    using Cons.prems(1) Cons.prems(3) [of x y z] that by auto
  ultimately show ?case using Cons.prems(2) by auto
qed simp

text \<open>The pair of Euclid's formula can be read off the triangle.\<close>

lemma euclid_pair_unique:
  assumes "m * m - n * n = m' * m' - n' * n'" "m * m + n * n = m' * m' + n' * n'" "0 < n" "0 < n'" "0 < m" "0 < (m' :: int)"
  shows "m = m' \<and> n = n'"
proof -
  have "m ^ 2 = m' ^ 2" "n ^ 2 = n' ^ 2" using assms(1,2) by (simp_all add: power2_eq_square)
  then show ?thesis using assms by (simp add: power2_eq_iff_nonneg)
qed

lemma euclid_primitive:
  assumes "0 < n" "n < (m :: int)" "coprime m n" "odd (m - n)"
  shows "primitive (m * m - n * n) (2 * m * n) (m * m + n * n)"
proof -
  have lt: "n * n < m * m" using assms(1,2) by (intro mult_strict_mono) auto
  have "coprime (m * m - n * n) (2 * m * n)"
  proof -
    have "coprime (m * m - n * n) 2" using assms(4) by simp
    moreover have "gcd (m * m - n * n) m = 1"
    proof -
      have "gcd (m * m - n * n) m = gcd m (m * m + - (n * n))" by (simp add: gcd.commute)
      also have "\<dots> = gcd m (- (n * n))" by (rule gcd_add_mult)
      also have "\<dots> = 1" using assms(3) by (simp add: coprime_commute)
      finally show ?thesis .
    qed
    moreover have "gcd (m * m - n * n) n = 1"
    proof -
      have "gcd (m * m - n * n) n = gcd n ((- n) * n + m * m)" by (simp add: gcd.commute)
      also have "\<dots> = gcd n (m * m)" by (rule gcd_add_mult)
      also have "\<dots> = 1" using assms(3) by (simp add: coprime_commute)
      finally show ?thesis .
    qed
    ultimately show ?thesis by (simp only: coprime_iff_gcd_eq_1 [symmetric] coprime_mult_right_iff simp_thms)
  qed
  moreover have "(m * m - n * n) ^ 2 + (2 * m * n) ^ 2 = (m * m + n * n) ^ 2"
    by (simp add: power2_eq_square algebra_simps)
  moreover have "0 < m * m + n * n" "0 < 2 * m * n" using assms(1,2) by (simp_all add: add_pos_pos)
  ultimately show ?thesis using lt by (simp add: primitive_def)
qed

lemma int_sqrt_ge_int: "0 \<le> r \<Longrightarrow> 0 \<le> n \<Longrightarrow> r \<le> int (int_sqrt (nat n)) \<longleftrightarrow> r * r \<le> n"
proof -
  assume "0 \<le> r" "0 \<le> n"
  then have "r \<le> int (int_sqrt (nat n)) \<longleftrightarrow> nat r * nat r \<le> nat n" by (simp add: int_sqrt_ge_iff [symmetric] nat_le_iff)
  also have "\<dots> \<longleftrightarrow> r * r \<le> n" using \<open>0 \<le> r\<close> \<open>0 \<le> n\<close> by (simp add: nat_mult_distrib [symmetric] nat_le_eq_zle)
  finally show ?thesis .
qed

lemma triangle_bounds:
  assumes N: "0 \<le> N" "N \<le> 1000000000" and mn: "0 < n" "n < m" "m \<le> int (int_sqrt (nat (N div 2)))"
  shows "i32 (2 * m * (m + n)) = 2 * m * (m + n)" "i32 (m * m - n * n) = m * m - n * n" "i32 (2 * m * n) = 2 * m * n"
    "i32 (m * m + n * n) = m * m + n * n"
proof -
  have mm: "m * m \<le> N div 2" using mn N by (subst int_sqrt_ge_int [symmetric]) auto
  have "n * n \<le> m * m" "m * n \<le> m * m" "0 < n * n" "0 < m * n" using mn by (auto intro: mult_mono)
  then show "i32 (2 * m * (m + n)) = 2 * m * (m + n)" "i32 (m * m - n * n) = m * m - n * n" "i32 (2 * m * n) = 2 * m * n"
    "i32 (m * m + n * n) = m * m + n * n"
    using mm N by (auto simp: distrib_left)
qed

lemma set_triangles_of:
  assumes N: "0 \<le> N" "N \<le> 1000000000" and n: "0 < n" and M: "M = int (int_sqrt (nat (N div 2)))"
  shows "set (triangles_of N (M + 1) n) =
    {[m * m - n * n, 2 * m * n, m * m + n * n] |m. n < m \<and> coprime m n \<and> odd (m - n) \<and> 2 * m * (m + n) \<le> N}"
proof -
  have inside: "m \<le> M" if "n < m" "2 * m * (m + n) \<le> N" for m
  proof -
    have "0 < m * n" using n that by simp
    then have "m * m \<le> N div 2" using that(2) by (simp add: distrib_left)
    then show ?thesis unfolding M using n N that(1) by (subst int_sqrt_ge_int) auto
  qed
  have wrap: "i32 (2 * m * (m + n)) = 2 * m * (m + n) \<and> i32 (m * m - n * n) = m * m - n * n \<and>
      i32 (2 * m * n) = 2 * m * n \<and> i32 (m * m + n * n) = m * m + n * n \<and> (gcd_rec m n = 1 \<longleftrightarrow> coprime m n)"
    if "n < m" "m \<le> M" for m
    using triangle_bounds [OF N n that(1)] that n by (simp add: M gcd_rec_eq coprime_iff_gcd_eq_1)
  have "z \<in> set (triangles_of N (M + 1) n) \<longleftrightarrow>
      (\<exists>m. (n < m \<and> m \<le> M) \<and> odd (m - n) \<and> gcd_rec m n = 1 \<and> i32 (2 * m * (m + n)) \<le> N \<and>
        z = [i32 (m * m - n * n), i32 (2 * m * n), i32 (m * m + n * n)])" for z
  proof -
    have "even (m - (n + 1)) \<longleftrightarrow> odd (m - n)" for m by simp
    then show ?thesis unfolding triangles_of_def by (fastforce simp: image_iff)
  qed
  also have "(\<exists>m. (n < m \<and> m \<le> M) \<and> odd (m - n) \<and> gcd_rec m n = 1 \<and> i32 (2 * m * (m + n)) \<le> N \<and>
        z = [i32 (m * m - n * n), i32 (2 * m * n), i32 (m * m + n * n)]) \<longleftrightarrow>
      (\<exists>m. (n < m \<and> m \<le> M) \<and> odd (m - n) \<and> coprime m n \<and> 2 * m * (m + n) \<le> N \<and>
        z = [m * m - n * n, 2 * m * n, m * m + n * n])" for z
    using wrap by (intro ex_cong1) (simp cong: conj_cong)
  finally show ?thesis using inside by blast
qed

text \<open>The enumeration lists every primitive right triangle with a perimeter of at most N exactly once.\<close>

theorem rightTrianglesFundamental_complete:
  assumes "0 \<le> N" "N \<le> 1000000000"
  shows "distinct (rightTrianglesFundamental N) \<and>
    set (rightTrianglesFundamental N) =
      {[a, b, c] |a b c. 0 < a \<and> 0 < b \<and> 0 < c \<and> a ^ 2 + b ^ 2 = c ^ 2 \<and> coprime a b \<and> even b \<and> a + b + c \<le> N}"
proof -
  define M where "M = int (int_sqrt (nat (N div 2)))"
  define K where "K = int (int_sqrt (nat (N div 4)))"
  have def: "rightTrianglesFundamental N = concat (map (triangles_of N (M + 1)) [1..K])"
    using assms by (simp add: rightTrianglesFundamental_def M_def K_def)
  note sets = set_triangles_of [OF assms _ M_def]
  have "distinct (triangles_of N (M + 1) n)" if n: "0 < n" for n
    unfolding triangles_of_def
  proof (rule distinct_concat_map, goal_cases)
    case (3 m m' z)
    then have "m * m - n * n = m' * m' - n * n"
      using triangle_bounds [OF assms n, of m] triangle_bounds [OF assms n, of m']
      by (auto simp: M_def split: if_splits)
    then have "m ^ 2 = m' ^ 2" by (simp add: power2_eq_square)
    then show ?case using 3(1,2) n by (auto simp: power2_eq_iff_nonneg)
  qed auto
  moreover have "n = n'" if pos: "0 < n" "0 < n'" and z: "z \<in> set (triangles_of N (M + 1) n)" "z \<in> set (triangles_of N (M + 1) n')" for n n' z
  proof -
    obtain m where m: "z = [m * m - n * n, 2 * m * n, m * m + n * n]" "n < m"
      using z(1) unfolding sets [OF pos(1)] by blast
    obtain m' where m': "z = [m' * m' - n' * n', 2 * m' * n', m' * m' + n' * n']" "n' < m'"
      using z(2) unfolding sets [OF pos(2)] by blast
    show ?thesis using euclid_pair_unique [of m n m' n'] m m' pos by simp
  qed
  ultimately have "distinct (rightTrianglesFundamental N)"
    unfolding def by (intro distinct_concat_map) auto
  moreover have "z \<in> set (rightTrianglesFundamental N) \<longleftrightarrow> (\<exists>a b c. z = [a, b, c] \<and> primitive a b c \<and> a + b + c \<le> N)" for z
  proof
    assume "z \<in> set (rightTrianglesFundamental N)"
    then obtain n m where mn: "0 < n" "n < m" "coprime m n" "odd (m - n)" and le: "2 * m * (m + n) \<le> N"
      and z: "z = [m * m - n * n, 2 * m * n, m * m + n * n]"
    proof -
      obtain n where n: "1 \<le> n" "z \<in> set (triangles_of N (M + 1) n)"
        using \<open>z \<in> _\<close> unfolding def by auto
      then have "0 < n" by simp
      then show thesis using that n(2) unfolding sets [OF \<open>0 < n\<close>] by blast
    qed
    then show "\<exists>a b c. z = [a, b, c] \<and> primitive a b c \<and> a + b + c \<le> N"
    proof (intro exI conjI)
      show "z = [m * m - n * n, 2 * m * n, m * m + n * n]" by (rule z)
      show "primitive (m * m - n * n) (2 * m * n) (m * m + n * n)" by (rule euclid_primitive [OF mn])
      show "m * m - n * n + 2 * m * n + (m * m + n * n) \<le> N" using le by (simp add: algebra_simps)
    qed
  next
    assume "\<exists>a b c. z = [a, b, c] \<and> primitive a b c \<and> a + b + c \<le> N"
    then obtain a b c where abc: "z = [a, b, c]" "primitive a b c" "a + b + c \<le> N" by blast
    obtain m n where mn: "0 < n" "n < m" "coprime m n" "odd (m - n)" "a = m * m - n * n" "b = 2 * m * n" "c = m * m + n * n"
      using euclid_formula [OF abc(2)] by blast
    have le: "2 * m * (m + n) \<le> N" using abc(3) unfolding mn(5-7) by (simp add: algebra_simps)
    have "n * n \<le> m * n" "m * n \<le> m * m" using mn by (auto intro: mult_mono)
    then have "n * n \<le> N div 4" using le by (simp add: distrib_left)
    then have "n \<le> K" unfolding K_def using mn(1) assms by (subst int_sqrt_ge_int) auto
    moreover have "z \<in> set (triangles_of N (M + 1) n)" unfolding sets [OF mn(1)] abc(1) mn(5-7) using mn le by blast
    ultimately show "z \<in> set (rightTrianglesFundamental N)" unfolding def using mn(1) by auto
  qed
  ultimately show ?thesis unfolding primitive_def by blast
qed

theorem rightTrianglesFundamental_complete_witness:
  "distinct (rightTrianglesFundamental 40) \<and>
    set (rightTrianglesFundamental 40) =
      {[a, b, c] |a b c. 0 < a \<and> 0 < b \<and> 0 < c \<and> a ^ 2 + b ^ 2 = c ^ 2 \<and> coprime a b \<and> even b \<and> a + b + c \<le> 40} \<and>
    rightTrianglesFundamental 40 = [[3, 4, 5], [15, 8, 17], [5, 12, 13]]"
proof -
  have "rightTrianglesFundamental 40 = [[3, 4, 5], [15, 8, 17], [5, 12, 13]]" by code_simp
  then show ?thesis using rightTrianglesFundamental_complete [of 40] by simp
qed

end
