(* ===== verification/HashProbing.thy ===== *)
theory HashProbing
  imports HashContract HelperLib "HOL-Library.Word"
begin

unbundle bit_operations_syntax

section \<open>The hash table with quadratic probing (cpp11/HashTableProbing.h)\<close>

text \<open>
  \<open>HASH_TABLE_PROBING\<close> with the size function of cpp11/HashTable.h. The template parameters are
  parameters of the model: two items are equal (\<open>operator==\<close>) when they have the same \<open>key\<close>, and
  \<open>hasher\<close> hashes keys. An iterator is the index of its slot, \<open>end()\<close> is \<open>None\<close>.
\<close>

subsection \<open>The model\<close>

definition MASK_EMPTY :: "64 word" where "MASK_EMPTY = 0x80000000"

definition MASK_TOMB :: "64 word" where "MASK_TOMB = 0x40000000"

definition MASK_HASH :: "64 word" where "MASK_HASH = 0x3FFFFFFF"

definition MASK_VALID :: "64 word" where "MASK_VALID = 0xC0000000"

definition UINT32_MAX :: nat where "UINT32_MAX = 4294967295"

record 'a hash_element =
  preHash :: "64 word"
  elem_data :: 'a

definition hash_element_init :: "'a \<Rightarrow> 'a hash_element" where
  "hash_element_init dflt = \<lparr>preHash = MASK_EMPTY, elem_data = dflt\<rparr>"

definition elem_empty :: "'a hash_element \<Rightarrow> bool" where
  "elem_empty e \<longleftrightarrow> preHash e AND MASK_EMPTY \<noteq> 0"

definition tomb_stone :: "'a hash_element \<Rightarrow> bool" where
  "tomb_stone e \<longleftrightarrow> preHash e AND MASK_TOMB \<noteq> 0"

definition elem_valid :: "'a hash_element \<Rightarrow> bool" where
  "elem_valid e \<longleftrightarrow> preHash e AND MASK_VALID = 0"

record 'a probing_table =
  bucket_size :: nat
  PROBE_LEN :: nat
  pElements :: "'a hash_element list"
  elements :: nat

definition CalcSize :: "nat \<Rightarrow> nat" where
  "CalcSize iDesiredSize =
     (if iDesiredSize < 8000 then 16001
      else if iDesiredSize < 16000 then 32003
      else if iDesiredSize < 32000 then 64007
      else if iDesiredSize < 50000 then 101513
      else if iDesiredSize < 100000 then 200909
      else if iDesiredSize < 200000 then 403649
      else if iDesiredSize < 400000 then 806807
      else if iDesiredSize < 1000000 then 2000003
      else if iDesiredSize < 2000000 then 4000037
      else 8000009)"

definition probing_init :: "'a probing_table" where
  "probing_init = \<lparr>bucket_size = 20003, PROBE_LEN = 140, pElements = [], elements = 0\<rparr>"

definition HashInitialize :: "'a \<Rightarrow> nat \<Rightarrow> 'a probing_table \<Rightarrow> 'a probing_table" where
  "HashInitialize dflt iDesiredSize this =
     (let n = CalcSize iDesiredSize in
      this\<lparr>elements := 0, bucket_size := n,
        pElements := (if length (pElements this) < n then resize n (hash_element_init dflt) (pElements this)
          else pElements this),
        PROBE_LEN := int_sqrt n\<rparr>)"

definition slot_of :: "nat \<Rightarrow> 64 word \<Rightarrow> nat \<Rightarrow> nat" where
  "slot_of n hashVal i = unat (hashVal + of_nat (i * i)) mod n"

fun find_slot_loop :: "('a \<Rightarrow> 'k) \<Rightarrow> nat \<Rightarrow> 'a hash_element list \<Rightarrow> 64 word \<Rightarrow> 'k \<Rightarrow> nat list \<Rightarrow> nat option option" where
  "find_slot_loop key n T hashVal k [] = Some None"
| "find_slot_loop key n T hashVal k (i # is) = do {
     elem \<leftarrow> vec_at T (slot_of n hashVal i);
     if elem_empty elem then Some None
     else if preHash elem = hashVal \<and> key (elem_data elem) = k then Some (Some (slot_of n hashVal i))
     else find_slot_loop key n T hashVal k is
   }"

definition findSlot :: "('a \<Rightarrow> 'k) \<Rightarrow> ('k \<Rightarrow> 64 word) \<Rightarrow> 'a probing_table \<Rightarrow> 'k \<Rightarrow> nat option option" where
  "findSlot key hasher this k =
     find_slot_loop key (bucket_size this) (pElements this) (hasher k AND MASK_HASH) k [0..<PROBE_LEN this]"

fun insert_loop ::
  "('a \<Rightarrow> 'k) \<Rightarrow> 'a probing_table \<Rightarrow> 64 word \<Rightarrow> 'a \<Rightarrow> nat \<Rightarrow> nat list \<Rightarrow> ('a probing_table \<times> nat option \<times> bool) option" where
  "insert_loop key this hashVal value deleted [] = Some (this, None, False)"
| "insert_loop key this hashVal value deleted (i # is) =
     (let slot = slot_of (bucket_size this) hashVal i in do {
        elem \<leftarrow> vec_at (pElements this) slot;
        if elem_empty elem then
          let slot = (if deleted \<noteq> UINT32_MAX then deleted else slot) in do {
            T \<leftarrow> vec_upd (pElements this) slot \<lparr>preHash = hashVal, elem_data = value\<rparr>;
            Some (this\<lparr>pElements := T, elements := elements this + 1\<rparr>, Some slot, True)
          }
        else if preHash elem = hashVal \<and> key (elem_data elem) = key value then do {
          T \<leftarrow> vec_upd (pElements this) slot (elem\<lparr>elem_data := value\<rparr>);
          Some (this\<lparr>pElements := T\<rparr>, Some slot, False)
        }
        else insert_loop key this hashVal value (if tomb_stone elem then slot else deleted) is
      })"

definition probing_insert ::
  "('a \<Rightarrow> 'k) \<Rightarrow> ('k \<Rightarrow> 64 word) \<Rightarrow> 'a probing_table \<Rightarrow> 'a \<Rightarrow> ('a probing_table \<times> nat option \<times> bool) option" where
  "probing_insert key hasher this value =
     insert_loop key this (hasher (key value) AND MASK_HASH) value UINT32_MAX [0..<PROBE_LEN this]"

definition probing_find :: "('a \<Rightarrow> 'k) \<Rightarrow> ('k \<Rightarrow> 64 word) \<Rightarrow> 'a probing_table \<Rightarrow> 'k \<Rightarrow> nat option option" where
  "probing_find key hasher this k = findSlot key hasher this k"

definition probing_erase :: "('a \<Rightarrow> 'k) \<Rightarrow> ('k \<Rightarrow> 64 word) \<Rightarrow> 'a probing_table \<Rightarrow> 'k \<Rightarrow> ('a probing_table \<times> nat) option" where
  "probing_erase key hasher this k = do {
     found \<leftarrow> findSlot key hasher this k;
     case found of
       None \<Rightarrow> Some (this, 0)
     | Some slot \<Rightarrow> do {
         elem \<leftarrow> vec_at (pElements this) slot;
         T \<leftarrow> vec_upd (pElements this) slot (elem\<lparr>preHash := MASK_TOMB\<rparr>);
         Some (this\<lparr>pElements := T, elements := elements this - 1\<rparr>, 1)
       }
   }"

definition probing_size :: "'a probing_table \<Rightarrow> nat" where
  "probing_size this = elements this"

text \<open>The iterator: from a position to the next valid element, \<open>None\<close> at the end.\<close>

fun next_valid :: "'a hash_element list \<Rightarrow> nat \<Rightarrow> nat option" where
  "next_valid [] i = None"
| "next_valid (e # es) i = (if elem_valid e then Some i else next_valid es (i + 1))"

definition probing_begin :: "'a probing_table \<Rightarrow> nat option" where
  "probing_begin this = next_valid (pElements this) 0"

definition probing_next :: "'a probing_table \<Rightarrow> nat \<Rightarrow> nat option" where
  "probing_next this pos = next_valid (drop (pos + 1) (pElements this)) (pos + 1)"

subsection \<open>The masks\<close>

lemma valid_not_empty: "elem_valid e \<Longrightarrow> \<not> elem_empty e"
proof -
  assume "elem_valid e"
  then have "(preHash e AND MASK_VALID) AND MASK_EMPTY = 0" by (simp add: elem_valid_def)
  moreover have "MASK_VALID AND MASK_EMPTY = MASK_EMPTY" by (simp add: MASK_VALID_def MASK_EMPTY_def)
  ultimately show ?thesis by (simp add: elem_empty_def and.assoc)
qed

lemma valid_not_tomb: "elem_valid e \<Longrightarrow> \<not> tomb_stone e"
proof -
  assume "elem_valid e"
  then have "(preHash e AND MASK_VALID) AND MASK_TOMB = 0" by (simp add: elem_valid_def)
  moreover have "MASK_VALID AND MASK_TOMB = MASK_TOMB" by (simp add: MASK_VALID_def MASK_TOMB_def)
  ultimately show ?thesis by (simp add: tomb_stone_def and.assoc)
qed

lemma valid_hash: "preHash e = h AND MASK_HASH \<Longrightarrow> elem_valid e"
proof -
  have "MASK_HASH AND MASK_VALID = 0" by (simp add: MASK_VALID_def MASK_HASH_def)
  then show "preHash e = h AND MASK_HASH \<Longrightarrow> elem_valid e" by (simp add: elem_valid_def and.assoc)
qed

lemma tomb_flags: "preHash e = MASK_TOMB \<Longrightarrow> \<not> elem_empty e \<and> \<not> elem_valid e"
  by (simp add: elem_empty_def elem_valid_def MASK_TOMB_def MASK_EMPTY_def MASK_VALID_def)

lemma init_empty: "elem_empty (hash_element_init d)"
  by (simp add: elem_empty_def hash_element_init_def MASK_EMPTY_def)

subsection \<open>The table refines a finite map\<close>

definition item_key :: "('a \<Rightarrow> 'k) \<Rightarrow> 'a hash_element \<Rightarrow> 'k option" where
  "item_key key e = (if elem_valid e then Some (key (elem_data e)) else None)"

definition slots :: "('k \<Rightarrow> 64 word) \<Rightarrow> nat \<Rightarrow> nat \<Rightarrow> 'k \<Rightarrow> nat list" where
  "slots hasher n L k = map (slot_of n (hasher k AND MASK_HASH)) [0..<L]"

interpretation probing: open_addressing "elem_empty :: 'a hash_element \<Rightarrow> bool" "item_key key" "slots hasher n L"
  for key :: "'a \<Rightarrow> 'k" and hasher :: "'k \<Rightarrow> 64 word" and n L :: nat
  by unfold_locales (use valid_not_empty in \<open>auto simp: item_key_def\<close>)

abbreviation table_ok :: "('a \<Rightarrow> 'k) \<Rightarrow> ('k \<Rightarrow> 64 word) \<Rightarrow> nat \<Rightarrow> nat \<Rightarrow> 'a hash_element list \<Rightarrow> bool" where
  "table_ok key hasher n L \<equiv> open_addressing.table_inv elem_empty (item_key key) (slots hasher n L)"

definition item_hash_ok :: "('a \<Rightarrow> 'k) \<Rightarrow> ('k \<Rightarrow> 64 word) \<Rightarrow> 'a hash_element \<Rightarrow> bool" where
  "item_hash_ok key hasher e \<longleftrightarrow> (elem_valid e \<longrightarrow> preHash e = hasher (key (elem_data e)) AND MASK_HASH)"

definition items :: "('a \<Rightarrow> 'k) \<Rightarrow> 'a probing_table \<Rightarrow> 'k \<rightharpoonup> 'a" where
  "items key this = open_addressing.table_map (item_key key) elem_data (pElements this)"

definition probing_room :: "'a probing_table \<Rightarrow> nat" where
  "probing_room this = PROBE_LEN this - open_addressing.used elem_empty (pElements this)"

definition probing_inv :: "('a \<Rightarrow> 'k) \<Rightarrow> ('k \<Rightarrow> 64 word) \<Rightarrow> 'a probing_table \<Rightarrow> bool" where
  "probing_inv key hasher this \<longleftrightarrow>
     0 < bucket_size this \<and> bucket_size this < UINT32_MAX \<and> bucket_size this \<le> length (pElements this) \<and>
     PROBE_LEN this * PROBE_LEN this \<le> bucket_size this \<and>
     (\<forall>e \<in> set (pElements this). item_hash_ok key hasher e) \<and>
     table_ok key hasher (bucket_size this) (PROBE_LEN this) (pElements this) \<and>
     finite (dom (items key this)) \<and> elements this = card (dom (items key this))"

lemma slot_of_less: "0 < n \<Longrightarrow> slot_of n h i < n"
  by (simp add: slot_of_def)

text \<open>The squares of the probe numbers are less than the number of slots, so no slot is probed twice.\<close>

lemma slots_distinct:
  assumes "L * L \<le> n" "n < UINT32_MAX"
  shows "distinct (slots hasher n L k)"
proof -
  let ?h = "hasher k AND MASK_HASH"
  have h: "unat ?h \<le> 0x3FFFFFFF"
    using word_and_le1 [of "hasher k" MASK_HASH] by (simp add: MASK_HASH_def word_le_nat_alt)
  have sq: "i * i < n" if "i < L" for i
    using mult_strict_mono [of i L i L] that assms(1) by simp
  have slot: "slot_of n ?h i = (unat ?h + i * i) mod n" if "i < L" for i
  proof -
    have "unat (of_nat (i * i) :: 64 word) = i * i"
      using sq [OF that] assms(2) by (simp add: unat_of_nat UINT32_MAX_def del: of_nat_mult)
    then have "unat (?h + of_nat (i * i)) = unat ?h + i * i"
      using sq [OF that] assms(2) h by (subst unat_add_lem [THEN iffD1]) (simp_all add: UINT32_MAX_def)
    then show ?thesis by (simp add: slot_of_def)
  qed
  have le: "i = j" if "i \<le> j" "j < L" "(unat ?h + i * i) mod n = (unat ?h + j * j) mod n" for i j
  proof -
    have "i * i \<le> j * j" using that(1) by (rule mult_le_mono) (rule that(1))
    then have "n dvd j * j - i * i" using that(3) mod_eq_dvd_iff_nat [of "unat ?h + i * i" "unat ?h + j * j" n] by simp
    moreover have "j * j - i * i < n" using sq [OF that(2)] by simp
    ultimately have "j * j - i * i = 0" using nat_dvd_not_less by blast
    then have "j * j \<le> i * i" by simp
    then show ?thesis using that(1) by (metis le_antisym mult_le_cancel2 mult_le_mono nat_le_linear not_le mult_strict_mono' le0)
  qed
  have "inj_on (slot_of n ?h) {0..<L}"
  proof (rule inj_onI)
    fix i j assume "i \<in> {0..<L}" "j \<in> {0..<L}" "slot_of n ?h i = slot_of n ?h j"
    then show "i = j" using le [of i j] le [of j i] slot by (cases "i \<le> j") auto
  qed
  then show ?thesis by (simp add: slots_def distinct_map)
qed

lemma slot_match:
  assumes "probing_inv key hasher this" "s < length (pElements this)"
  shows "preHash (pElements this ! s) = hasher k AND MASK_HASH \<and> key (elem_data (pElements this ! s)) = k \<longleftrightarrow>
    item_key key (pElements this ! s) = Some k"
proof -
  have "item_hash_ok key hasher (pElements this ! s)" using assms by (simp add: probing_inv_def)
  then show ?thesis using valid_hash [of "pElements this ! s" "hasher k"]
    by (auto simp: item_hash_ok_def item_key_def split: if_splits)
qed

lemma find_slot_loop_eq:
  assumes I: "probing_inv key hasher this"
  shows "find_slot_loop key (bucket_size this) (pElements this) (hasher k AND MASK_HASH) k is =
    Some (probe_find elem_empty (\<lambda>e. item_key key e = Some k) (pElements this)
      (map (slot_of (bucket_size this) (hasher k AND MASK_HASH)) is))"
proof (induction "is")
  case (Cons i "is")
  have s: "slot_of (bucket_size this) (hasher k AND MASK_HASH) i < length (pElements this)"
    using I slot_of_less [of "bucket_size this" "hasher k AND MASK_HASH" i] by (simp add: probing_inv_def)
  show ?case using Cons s slot_match [OF I s, of k] by auto
qed simp

lemma findSlot_correct:
  assumes I: "probing_inv key hasher this"
  shows "findSlot key hasher this k = Some (probe_find elem_empty (\<lambda>e. item_key key e = Some k) (pElements this)
    (slots hasher (bucket_size this) (PROBE_LEN this) k))"
  using find_slot_loop_eq [OF I] by (simp add: findSlot_def slots_def)

lemma item_hash_ok_upd: "\<forall>e \<in> set T. item_hash_ok key h e \<Longrightarrow> item_hash_ok key h e' \<Longrightarrow> \<forall>e \<in> set (T[s := e']). item_hash_ok key h e"
  using set_update_subset_insert by fastforce

lemma card_dom_upd: "finite (dom m) \<Longrightarrow> card (dom (m(k \<mapsto> v))) = (if m k = None then card (dom m) + 1 else card (dom m))"
  by (auto simp: card_insert_if)

lemma insert_loop_correct:
  assumes I: "probing_inv key hasher this"
    and h_def: "h = hasher (key value) AND MASK_HASH"
  shows "slots hasher (bucket_size this) (PROBE_LEN this) (key value) = us @ map (slot_of (bucket_size this) h) is \<Longrightarrow>
    \<forall>u \<in> set us. \<not> elem_empty (pElements this ! u) \<and> item_key key (pElements this ! u) \<noteq> Some (key value) \<Longrightarrow>
    deleted = UINT32_MAX \<or> deleted \<in> set us \<and> item_key key (pElements this ! deleted) = None \<Longrightarrow>
    \<exists>this' pos new. insert_loop key this h value deleted is = Some (this', pos, new) \<and> probing_inv key hasher this' \<and>
      (if pos \<noteq> None then items key this' = (items key this)(key value \<mapsto> value) \<and> (new \<longleftrightarrow> items key this (key value) = None)
         \<and> probing_room this \<le> Suc (probing_room this')
       else items key this (key value) = None \<and> this' = this \<and> probing_room this = 0)"
proof (induction "is" arbitrary: us deleted)
  case Nil
  let ?T = "pElements this" and ?sl = "slots hasher (bucket_size this) (PROBE_LEN this)"
  have tab: "table_ok key hasher (bucket_size this) (PROBE_LEN this) ?T" using I by (simp add: probing_inv_def)
  have "probe_find elem_empty (\<lambda>e. item_key key e = Some (key value)) ?T (?sl (key value)) = None"
    using probing.probe_find_prefix [of us ?T key "key value" "[]"] Nil by simp
  then have "items key this (key value) = None"
    using probing.find_map [OF tab, of elem_data "key value"] by (simp add: items_def)
  moreover have "probing_room this = 0"
  proof -
    have us: "us = ?sl (key value)" using Nil by simp
    have "distinct us" unfolding us using I by (intro slots_distinct) (simp_all add: probing_inv_def)
    moreover have "\<forall>s \<in> set us. s < length ?T \<and> \<not> elem_empty (?T ! s)"
      using Nil(2) probing.probe_range [OF tab, of _ "key value"] us by blast
    ultimately have "length us \<le> probing.used ?T" by (rule probing.used_probes)
    then show ?thesis by (simp add: us slots_def probing_room_def)
  qed
  ultimately show ?case using I by auto
next
  case (Cons i "is")
  let ?T = "pElements this" and ?k = "key value" and ?s = "slot_of (bucket_size this) h i"
  let ?sl = "slots hasher (bucket_size this) (PROBE_LEN this)"
  have tab: "table_ok key hasher (bucket_size this) (PROBE_LEN this) ?T"
    and pos: "0 < bucket_size this" "bucket_size this < UINT32_MAX" "bucket_size this \<le> length ?T"
      "PROBE_LEN this * PROBE_LEN this \<le> bucket_size this"
    and hok: "\<forall>e \<in> set ?T. item_hash_ok key hasher e"
    and fin: "finite (dom (items key this))" "elements this = card (dom (items key this))"
    using I by (simp_all add: probing_inv_def)
  have s: "?s < bucket_size this" using slot_of_less [OF pos(1)] .
  then have sT: "?s < length ?T" using pos(3) by simp
  consider "elem_empty (?T ! ?s)" | "\<not> elem_empty (?T ! ?s)" "item_key key (?T ! ?s) = Some ?k"
    | "\<not> elem_empty (?T ! ?s)" "item_key key (?T ! ?s) \<noteq> Some ?k" by blast
  then show ?case
  proof cases
    case 1
    define d where "d = (if deleted \<noteq> UINT32_MAX then deleted else ?s)"
    let ?e = "\<lparr>preHash = h, elem_data = value\<rparr>"
    define N where "N = this\<lparr>pElements := ?T[d := ?e], elements := elements this + 1\<rparr>"
    have N: "pElements N = ?T[d := ?e]" "elements N = elements this + 1" "bucket_size N = bucket_size this"
      "PROBE_LEN N = PROBE_LEN this" by (simp_all add: N_def)
    have free: "item_key key (?T ! ?s) = None" using 1 valid_not_empty by (auto simp: item_key_def)
    have "probe_find elem_empty (\<lambda>e. item_key key e = Some ?k) ?T (?sl ?k) = None"
      using probing.probe_find_prefix [of us ?T key ?k "?s # map (slot_of (bucket_size this) h) is"] Cons.prems 1 by simp
    then have none: "\<forall>j < length ?T. item_key key (?T ! j) \<noteq> Some ?k"
      using probing.find_correct [OF tab, of ?k] by (metis option.discI)
    then have new: "items key this ?k = None" unfolding items_def probing.table_map_None .
    have pl: "open_addressing.placed elem_empty ?sl ?T d ?k"
    proof (cases "deleted = UINT32_MAX")
      case True
      then show ?thesis unfolding probing.placed_def d_def using Cons.prems(1,2) by auto
    next
      case False
      then obtain a b where "us = a @ deleted # b" using Cons.prems(3) by (meson split_list)
      then show ?thesis unfolding probing.placed_def d_def using Cons.prems(1,2) False by auto
    qed
    have d: "item_key key (?T ! d) = None" using free Cons.prems(3) by (auto simp: d_def)
    have dT: "d < length ?T" using probing.probe_range [OF tab, of d ?k] pl unfolding probing.placed_def by auto
    have e: "elem_valid ?e" "item_hash_ok key hasher ?e"
      using valid_hash [of ?e "hasher ?k"] by (simp_all add: h_def item_hash_ok_def)
    then have k: "item_key key ?e = Some ?k" by (simp add: item_key_def)
    have it: "items key N = (items key this)(?k \<mapsto> value)"
      using probing.store(2) [OF tab pl d none k, of elem_data] by (simp add: items_def N)
    have "probing_inv key hasher N"
      using probing.store(1) [OF tab pl d none k] item_hash_ok_upd [OF hok e(2)] pos fin card_dom_upd [OF fin(1), of ?k] new
      unfolding probing_inv_def it N by simp
    then have A: "\<exists>this' pos' new'. Some (N, Some d, True) = Some (this', pos', new') \<and> probing_inv key hasher this' \<and>
      (if pos' \<noteq> None then items key this' = (items key this)(?k \<mapsto> value) \<and> (new' \<longleftrightarrow> items key this ?k = None)
         \<and> probing_room this \<le> Suc (probing_room this')
       else items key this ?k = None \<and> this' = this \<and> probing_room this = 0)"
      using it new probing.used_upd [of ?T d ?e] by (auto simp: probing_room_def N)
    have B: "insert_loop key this h value deleted (i # is) = Some (N, Some d, True)"
      using 1 sT dT by (simp add: Let_def N_def flip: d_def)
    show ?thesis using A unfolding B .
  next
    case 2
    let ?e = "(?T ! ?s)\<lparr>elem_data := value\<rparr>"
    define N where "N = this\<lparr>pElements := ?T[?s := ?e]\<rparr>"
    have N: "pElements N = ?T[?s := ?e]" "elements N = elements this" "bucket_size N = bucket_size this"
      "PROBE_LEN N = PROBE_LEN this" by (simp_all add: N_def)
    have m: "preHash (?T ! ?s) = h \<and> key (elem_data (?T ! ?s)) = ?k" using slot_match [OF I sT, of ?k] 2(2) h_def by simp
    then have e: "elem_valid ?e" "item_hash_ok key hasher ?e"
      using valid_hash [of ?e "hasher ?k"] by (simp_all add: h_def item_hash_ok_def)
    then have k: "item_key key ?e = Some ?k" by (simp add: item_key_def)
    have it: "items key N = (items key this)(?k \<mapsto> value)"
      using probing.replace(2) [OF tab sT 2(2) k, of elem_data] by (simp add: items_def N)
    have old: "items key this ?k \<noteq> None" using 2(2) sT unfolding items_def probing.table_map_None by blast
    have "probing_inv key hasher N"
      using probing.replace(1) [OF tab sT 2(2) k] item_hash_ok_upd [OF hok e(2)] pos fin card_dom_upd [OF fin(1), of ?k] old
      unfolding probing_inv_def it N by simp
    then have A: "\<exists>this' pos' new'. Some (N, Some ?s, False) = Some (this', pos', new') \<and> probing_inv key hasher this' \<and>
      (if pos' \<noteq> None then items key this' = (items key this)(?k \<mapsto> value) \<and> (new' \<longleftrightarrow> items key this ?k = None)
         \<and> probing_room this \<le> Suc (probing_room this')
       else items key this ?k = None \<and> this' = this \<and> probing_room this = 0)"
      using it old probing.used_upd [of ?T ?s ?e] by (auto simp: probing_room_def N)
    have B: "insert_loop key this h value deleted (i # is) = Some (N, Some ?s, False)"
      using 2(1) m sT by (simp add: Let_def N_def)
    show ?thesis using A unfolding B .
  next
    case 3
    let ?del = "if tomb_stone (?T ! ?s) then ?s else deleted"
    have m: "\<not> (preHash (?T ! ?s) = h \<and> key (elem_data (?T ! ?s)) = ?k)" using slot_match [OF I sT, of ?k] 3(2) h_def by simp
    have "insert_loop key this h value deleted (i # is) = insert_loop key this h value ?del is"
      using 3(1) m sT by (auto simp: Let_def)
    moreover have "item_key key (?T ! ?s) = None" if "tomb_stone (?T ! ?s)"
      using that valid_not_tomb by (auto simp: item_key_def)
    then have "?del = UINT32_MAX \<or> ?del \<in> set (us @ [?s]) \<and> item_key key (?T ! ?del) = None"
      using Cons.prems(3) by auto
    ultimately show ?thesis using Cons.IH [of "us @ [?s]" ?del] Cons.prems(1,2) 3 by auto
  qed
qed

lemma probing_insert_correct:
  assumes "probing_inv key hasher this"
  shows "\<exists>this' pos new. probing_insert key hasher this x = Some (this', pos, new) \<and> probing_inv key hasher this' \<and>
      (if pos \<noteq> None then items key this' = (items key this)(key x \<mapsto> x) \<and> (new \<longleftrightarrow> items key this (key x) = None)
         \<and> probing_room this \<le> Suc (probing_room this')
       else items key this (key x) = None \<and> this' = this \<and> probing_room this = 0)"
  using insert_loop_correct [OF assms refl, of x "[]" "[0..<PROBE_LEN this]" UINT32_MAX]
  by (simp add: probing_insert_def slots_def)

lemma probing_find_correct:
  assumes "probing_inv key hasher this"
  shows "map_option (map_option (\<lambda>s. elem_data (pElements this ! s))) (probing_find key hasher this k) = Some (items key this k)"
proof -
  have "table_ok key hasher (bucket_size this) (PROBE_LEN this) (pElements this)" using assms by (simp add: probing_inv_def)
  from probing.find_map [OF this, of elem_data k] show ?thesis
    using findSlot_correct [OF assms, of k] by (simp add: probing_find_def items_def)
qed

lemma probing_erase_correct:
  assumes I: "probing_inv key hasher this"
  shows "\<exists>this'. probing_erase key hasher this k = Some (this', if items key this k = None then 0 else 1) \<and>
    probing_inv key hasher this' \<and> items key this' = (items key this)(k := None) \<and> probing_room this \<le> probing_room this'"
proof -
  let ?T = "pElements this"
  let ?find = "probe_find elem_empty (\<lambda>e. item_key key e = Some k) ?T (slots hasher (bucket_size this) (PROBE_LEN this) k)"
  have tab: "table_ok key hasher (bucket_size this) (PROBE_LEN this) ?T"
    and hok: "\<forall>e \<in> set ?T. item_hash_ok key hasher e" and pos: "0 < bucket_size this" "bucket_size this < UINT32_MAX" "bucket_size this \<le> length ?T"
      "PROBE_LEN this * PROBE_LEN this \<le> bucket_size this"
    and fin: "finite (dom (items key this))" "elements this = card (dom (items key this))"
    using I by (simp_all add: probing_inv_def)
  note fm = probing.find_map [OF tab, of elem_data k]
  show ?thesis
  proof (cases ?find)
    case None
    then have "items key this k = None" using fm by (simp add: items_def)
    then show ?thesis using None I findSlot_correct [OF I, of k] by (auto simp: probing_erase_def)
  next
    case (Some s)
    then have s: "s < length ?T" "item_key key (?T ! s) = Some k" using probing.find_correct [OF tab, of k] by auto
    have old: "items key this k \<noteq> None" using s unfolding items_def probing.table_map_None by blast
    let ?e = "(?T ! s)\<lparr>preHash := MASK_TOMB\<rparr>"
    have e: "item_key key ?e = None" "\<not> elem_empty ?e" "item_hash_ok key hasher ?e"
      using tomb_flags [of ?e] by (simp_all add: item_key_def item_hash_ok_def)
    define N where "N = this\<lparr>pElements := ?T[s := ?e], elements := elements this - 1\<rparr>"
    have N: "pElements N = ?T[s := ?e]" "elements N = elements this - 1" "bucket_size N = bucket_size this"
      "PROBE_LEN N = PROBE_LEN this" by (simp_all add: N_def)
    have it: "items key N = (items key this)(k := None)"
      using probing.bury(2) [OF tab s e(1,2), of elem_data] by (simp add: items_def N)
    have "card (dom ((items key this)(k := None))) = card (dom (items key this)) - 1"
      using old by (simp add: domI card_Diff_singleton domIff)
    then have "probing_inv key hasher N"
      using probing.bury(1) [OF tab s e(1,2)] item_hash_ok_upd [OF hok e(3)] pos fin unfolding probing_inv_def it N by simp
    moreover have "probing_erase key hasher this k = Some (N, 1)"
      using Some s findSlot_correct [OF I, of k] by (simp add: probing_erase_def N_def)
    moreover have "\<not> elem_empty (?T ! s)" using s(2) valid_not_empty [of "?T ! s"] by (auto simp: item_key_def split: if_splits)
    then have "probing_room this \<le> probing_room N"
      using probing.used_upd_full [of ?T s ?e] by (simp add: probing_room_def N diff_le_mono2)
    ultimately show ?thesis using it old by simp
  qed
qed

lemma CalcSize_range: "0 < CalcSize n \<and> CalcSize n < UINT32_MAX"
  by (simp add: CalcSize_def UINT32_MAX_def)

lemma HashInitialize_ok:
  shows "probing_inv key hasher (HashInitialize d n probing_init)" and "items key (HashInitialize d n probing_init) = Map.empty"
    and "probing_room (HashInitialize d n probing_init) = int_sqrt (CalcSize n)"
proof -
  define t where "t = HashInitialize d n probing_init"
  have t: "pElements t = replicate (CalcSize n) (hash_element_init d)" "bucket_size t = CalcSize n" "elements t = 0" "PROBE_LEN t = int_sqrt (CalcSize n)"
    using CalcSize_range [of n] by (simp_all add: t_def HashInitialize_def probing_init_def Let_def resize_def)
  have b: "\<forall>k. \<forall>s \<in> set (slots hasher (bucket_size t) (PROBE_LEN t) k). s < length (pElements t)"
  proof (intro allI ballI)
    fix k s assume "s \<in> set (slots hasher (bucket_size t) (PROBE_LEN t) k)"
    then obtain i where "s = slot_of (CalcSize n) (hasher k AND MASK_HASH) i" unfolding slots_def t set_map by (elim imageE)
    moreover have "0 < CalcSize n" using CalcSize_range by blast
    ultimately show "s < length (pElements t)" by (simp only: t length_replicate slot_of_less)
  qed
  have "\<not> elem_valid (hash_element_init d)" using init_empty [of d] valid_not_empty [of "hash_element_init d"] by blast
  then have k: "\<forall>e \<in> set (pElements t). item_key key e = None" "\<forall>e \<in> set (pElements t). item_hash_ok key hasher e"
    by (simp_all add: t item_key_def item_hash_ok_def)
  have it: "items key t = Map.empty" using probing.table_inv_blank(2) [OF b k(1), of elem_data] by (simp add: items_def)
  have "probing_inv key hasher t"
    using probing.table_inv_blank(1) [OF b k(1)] CalcSize_range [of n] int_sqrt_correct(1) [of "CalcSize n"] k(2) unfolding probing_inv_def it
    by (simp add: t)
  moreover have "probing.used (pElements t) = 0" using init_empty [of d] by (intro probing.used_blank) (simp add: t)
  then have "probing_room t = int_sqrt (CalcSize n)" by (simp add: probing_room_def t)
  ultimately
  show "probing_inv key hasher (HashInitialize d n probing_init)" "items key (HashInitialize d n probing_init) = Map.empty"
    "probing_room (HashInitialize d n probing_init) = int_sqrt (CalcSize n)"
    using it by (simp_all add: t_def)
qed

definition probing_find_item :: "('a \<Rightarrow> 'k) \<Rightarrow> ('k \<Rightarrow> 64 word) \<Rightarrow> 'a probing_table \<Rightarrow> 'a \<Rightarrow> 'a option option" where
  "probing_find_item key hasher this x =
     map_option (map_option (\<lambda>s. elem_data (pElements this ! s))) (probing_find key hasher this (key x))"

definition probing_insert_item :: "('a \<Rightarrow> 'k) \<Rightarrow> ('k \<Rightarrow> 64 word) \<Rightarrow> 'a probing_table \<Rightarrow> 'a \<Rightarrow> ('a probing_table \<times> bool) option" where
  "probing_insert_item key hasher this x =
     map_option (\<lambda>(this, pos, new). (this, pos \<noteq> None)) (probing_insert key hasher this x)"

definition probing_erase_item :: "('a \<Rightarrow> 'k) \<Rightarrow> ('k \<Rightarrow> 64 word) \<Rightarrow> 'a probing_table \<Rightarrow> 'a \<Rightarrow> 'a probing_table option" where
  "probing_erase_item key hasher this x = map_option fst (probing_erase key hasher this (key x))"

interpretation probing_client: total_hash_map key "probing_inv key hasher" probing_room "items key"
    "probing_find_item key hasher" "probing_insert_item key hasher" "probing_erase_item key hasher"
  for key :: "'a \<Rightarrow> 'k" and hasher :: "'k \<Rightarrow> 64 word"
proof (unfold_locales, goal_cases)
  case (1 t x)
  then show ?case by (simp add: probing_find_item_def probing_find_correct)
next
  case (2 t x)
  show ?case using probing_insert_correct [OF 2, of x] by (auto simp: probing_insert_item_def split: if_splits)
next
  case (3 t x)
  then show ?case using probing_erase_correct [OF 3, of "key x"] by (auto simp: probing_erase_item_def)
next
  case (4 t x)
  then show ?case using probing_insert_correct [OF 4, of x] by (auto simp: probing_insert_item_def)
qed

text \<open>C5: Whatever the hash function, any sequence of \<open>insert\<close>, \<open>erase\<close> and \<open>find\<close> on a table that was just
  initialised runs without an access out of range and behaves as a finite map from keys to items, in which only
  the insertion of a new key can fail; \<open>size\<close> is the number of keys. No insertion fails in a run with at most as many
  insertions as there are probes, the square root of the number of slots.\<close>

theorem HASH_TABLE_PROBING_refines:
  "\<exists>t rs. hash_run (probing_find_item key hasher) (probing_insert_item key hasher) (probing_erase_item key hasher)
      (HashInitialize d n probing_init) ps = Some (t, rs) \<and>
    allowed_run key Map.empty ps rs (items key t) \<and> probing_size t = card (dom (items key t)) \<and>
    (inserts ps \<le> int_sqrt (CalcSize n) \<longrightarrow> Stored False \<notin> set rs)"
proof -
  note init = HashInitialize_ok(1) [of key hasher d n] HashInitialize_ok(2) [of key d n] HashInitialize_ok(3) [of d n]
  obtain t rs where r: "hash_run (probing_find_item key hasher) (probing_insert_item key hasher) (probing_erase_item key hasher)
      (HashInitialize d n probing_init) ps = Some (t, rs)"
    using probing_client.run_total [OF init(1), of ps] by auto
  then show ?thesis
    using probing_client.run_spec [OF init(1), of ps] unfolding init(2,3) by (auto simp: probing_size_def probing_inv_def)
qed

theorem HASH_TABLE_PROBING_witness:
  "\<exists>t rs. hash_run (probing_find_item fst (\<lambda>k :: nat. 7)) (probing_insert_item fst (\<lambda>k. 7)) (probing_erase_item fst (\<lambda>k. 7))
      (HashInitialize (0, 0) 5 probing_init) [Insert (1, 10), Insert (2, 20), Erase (1, 0), Insert (3, 30 :: int), Find (2, 0)] = Some (t, rs) \<and>
    allowed_run fst Map.empty [Insert (1, 10), Insert (2, 20), Erase (1, 0), Insert (3, 30), Find (2, 0)] rs (items fst t) \<and>
    probing_size t = card (dom (items fst t)) \<and> Stored False \<notin> set rs"
proof -
  have "3 \<le> int_sqrt (CalcSize 5)"
  proof (rule ccontr)
    assume "\<not> 3 \<le> int_sqrt (CalcSize 5)"
    then have "Suc (int_sqrt (CalcSize 5)) * Suc (int_sqrt (CalcSize 5)) \<le> 3 * 3" by (intro mult_le_mono) simp_all
    then show False using int_sqrt_correct(2) [of "CalcSize 5"] by (simp add: CalcSize_def)
  qed
  then show ?thesis
    using HASH_TABLE_PROBING_refines [of fst "\<lambda>k :: nat. 7" "(0, 0)" 5
        "[Insert (1, 10), Insert (2, 20), Erase (1, 0), Insert (3, 30 :: int), Find (2, 0)]"] by (auto simp del: allowed_run.simps)
qed

text \<open>The slot that an insertion reuses is the last tombstone of the probe sequence, although the
  comment says the first.\<close>

lemma insert_reuses_last_tombstone:
  assumes "bucket_size this \<le> length (pElements this)" "0 < bucket_size this"
    "\<not> elem_empty (pElements this ! slot_of (bucket_size this) h i)" "tomb_stone (pElements this ! slot_of (bucket_size this) h i)"
    "preHash (pElements this ! slot_of (bucket_size this) h i) \<noteq> h"
  shows "insert_loop key this h x deleted (i # is) = insert_loop key this h x (slot_of (bucket_size this) h i) is"
  using assms slot_of_less [of "bucket_size this" h i] by (simp add: Let_def)

end
