(* ===== verification/StackDesign.thy ===== *)
theory StackDesign
  imports Prelude
begin

section \<open>Stacks and queues built from each other (leetcode/stack.cpp)\<close>

text \<open>
  The container classes at the end of the file: \<open>MinStack\<close>, \<open>MyQueue\<close>, \<open>MyStack\<close>, \<open>StockSpanner\<close> and
  \<open>FreqStack\<close>. A \<open>std::vector\<close> used as a stack has its top at the end of the list, a \<open>std::stack\<close>
  at the head; a \<open>std::queue\<close> has its front at the head. Reading or popping an empty container is
  undefined (\<open>None\<close>).
\<close>

subsection \<open>The contracts\<close>

text \<open>A stack and a queue, seen through the list of their elements, next element first.\<close>

fun drain :: "('s \<Rightarrow> 'a option) \<Rightarrow> ('s \<Rightarrow> 's option) \<Rightarrow> nat \<Rightarrow> 's \<Rightarrow> ('s \<times> 'a list) option" where
  "drain top_op pop_op 0 s = Some (s, [])"
| "drain top_op pop_op (Suc n) s = do {
     x \<leftarrow> top_op s;
     s \<leftarrow> pop_op s;
     (s, xs) \<leftarrow> drain top_op pop_op n s;
     Some (s, x # xs)
   }"

fun serve :: "('s \<Rightarrow> ('s \<times> 'a) option) \<Rightarrow> nat \<Rightarrow> 's \<Rightarrow> ('s \<times> 'a list) option" where
  "serve deq_op 0 s = Some (s, [])"
| "serve deq_op (Suc n) s = do {
     (s, x) \<leftarrow> deq_op s;
     (s, xs) \<leftarrow> serve deq_op n s;
     Some (s, x # xs)
   }"

locale stack_contract =
  fixes ok :: "'s \<Rightarrow> bool"
    and elems :: "'s \<Rightarrow> 'a list"
    and push_op :: "'s \<Rightarrow> 'a \<Rightarrow> 's"
    and pop_op :: "'s \<Rightarrow> 's option"
    and top_op :: "'s \<Rightarrow> 'a option"
  assumes push_spec: "ok s \<Longrightarrow> ok (push_op s x) \<and> elems (push_op s x) = x # elems s"
    and pop_spec: "ok s \<Longrightarrow> elems s = x # xs \<Longrightarrow> \<exists>s'. pop_op s = Some s' \<and> ok s' \<and> elems s' = xs"
    and top_spec: "ok s \<Longrightarrow> elems s = x # xs \<Longrightarrow> top_op s = Some x"
begin

lemma fold_push: "ok s \<Longrightarrow> ok (foldl push_op s xs) \<and> elems (foldl push_op s xs) = rev xs @ elems s"
  by (induction xs arbitrary: s) (simp_all add: push_spec)

lemma drain_elems:
  "ok s \<Longrightarrow> elems s = xs @ ys \<Longrightarrow> \<exists>s'. drain top_op pop_op (length xs) s = Some (s', xs) \<and> ok s' \<and> elems s' = ys"
proof (induction xs arbitrary: s)
  case (Cons x xs)
  then obtain s1 where "pop_op s = Some s1" "ok s1" "elems s1 = xs @ ys" using pop_spec [of s x] by auto
  moreover have "top_op s = Some x" using Cons.prems top_spec by simp
  ultimately show ?case using Cons.IH [of s1] by auto
qed simp

lemma last_in_first_out:
  assumes "ok s"
  shows "\<exists>s'. drain top_op pop_op (length xs) (foldl push_op s xs) = Some (s', rev xs) \<and> ok s' \<and> elems s' = elems s"
  using drain_elems [of "foldl push_op s xs" "rev xs" "elems s"] fold_push [OF assms, of xs] by simp

end

locale queue_contract =
  fixes ok :: "'s \<Rightarrow> bool"
    and elems :: "'s \<Rightarrow> 'a list"
    and enq_op :: "'s \<Rightarrow> 'a \<Rightarrow> 's"
    and deq_op :: "'s \<Rightarrow> ('s \<times> 'a) option"
  assumes enq_spec: "ok s \<Longrightarrow> ok (enq_op s x) \<and> elems (enq_op s x) = elems s @ [x]"
    and deq_spec: "ok s \<Longrightarrow> elems s = x # xs \<Longrightarrow> \<exists>s'. deq_op s = Some (s', x) \<and> ok s' \<and> elems s' = xs"
begin

lemma fold_enq: "ok s \<Longrightarrow> ok (foldl enq_op s xs) \<and> elems (foldl enq_op s xs) = elems s @ xs"
  by (induction xs arbitrary: s) (simp_all add: enq_spec)

lemma serve_elems:
  "ok s \<Longrightarrow> elems s = xs @ ys \<Longrightarrow> \<exists>s'. serve deq_op (length xs) s = Some (s', xs) \<and> ok s' \<and> elems s' = ys"
proof (induction xs arbitrary: s)
  case (Cons x xs)
  then obtain s1 where "deq_op s = Some (s1, x)" "ok s1" "elems s1 = xs @ ys" using deq_spec [of s x] by auto
  then show ?case using Cons.IH [of s1] by auto
qed simp

end

subsection \<open>The model: MinStack\<close>

record MinStack =
  ms_stack :: "int list"
  min_val :: int

definition INT32_MAX :: int where "INT32_MAX = 2147483647"

definition MinStack_init :: MinStack where
  "MinStack_init = \<lparr>ms_stack = [], min_val = INT32_MAX\<rparr>"

definition vec_back :: "'a list \<Rightarrow> 'a option" where
  "vec_back xs = (if xs = [] then None else Some (last xs))"

definition min_push :: "MinStack \<Rightarrow> int \<Rightarrow> MinStack" where
  "min_push this x =
     (let this = (if x \<le> min_val this
        then this\<lparr>ms_stack := ms_stack this @ [min_val this], min_val := x\<rparr> else this)
      in this\<lparr>ms_stack := ms_stack this @ [x]\<rparr>)"

definition min_top :: "MinStack \<Rightarrow> int option" where
  "min_top this = vec_back (ms_stack this)"

definition min_pop :: "MinStack \<Rightarrow> MinStack option" where
  "min_pop this = do {
     la \<leftarrow> min_top this;
     let st = butlast (ms_stack this) in
       if la = min_val this then do {
         m \<leftarrow> vec_back st;
         Some (this\<lparr>ms_stack := butlast st, min_val := m\<rparr>)
       }
       else Some (this\<lparr>ms_stack := st\<rparr>)
   }"

definition getMin :: "MinStack \<Rightarrow> int" where
  "getMin this = min_val this"

subsection \<open>The model: MyQueue\<close>

record MyQueue =
  stack_push :: "int list"
  stack_pop :: "int list"

definition MyQueue_init :: MyQueue where
  "MyQueue_init = \<lparr>stack_push = [], stack_pop = []\<rparr>"

fun transfer_loop :: "int list \<Rightarrow> int list \<Rightarrow> int list" where
  "transfer_loop [] pops = pops"
| "transfer_loop (x # pushes) pops = transfer_loop pushes (x # pops)"

definition transfer_stack :: "MyQueue \<Rightarrow> MyQueue" where
  "transfer_stack this =
     (if stack_pop this = [] then \<lparr>stack_push = [], stack_pop = transfer_loop (stack_push this) []\<rparr> else this)"

definition queue_push :: "MyQueue \<Rightarrow> int \<Rightarrow> MyQueue" where
  "queue_push this x = this\<lparr>stack_push := x # stack_push this\<rparr>"

definition queue_pop :: "MyQueue \<Rightarrow> (MyQueue \<times> int) option" where
  "queue_pop this =
     (let this = transfer_stack this in
      case stack_pop this of [] \<Rightarrow> None | x # xs \<Rightarrow> Some (this\<lparr>stack_pop := xs\<rparr>, x))"

definition peek :: "MyQueue \<Rightarrow> (MyQueue \<times> int) option" where
  "peek this =
     (let this = transfer_stack this in
      case stack_pop this of [] \<Rightarrow> None | x # xs \<Rightarrow> Some (this, x))"

definition queue_empty :: "MyQueue \<Rightarrow> bool" where
  "queue_empty this \<longleftrightarrow> stack_pop this = [] \<and> stack_push this = []"

subsection \<open>The model: MyStack\<close>

fun rotate_loop :: "nat \<Rightarrow> int list \<Rightarrow> int list" where
  "rotate_loop 0 q = q"
| "rotate_loop (Suc n) q = rotate_loop n (tl q @ [hd q])"

definition stack_push_op :: "int list \<Rightarrow> int \<Rightarrow> int list" where
  "stack_push_op q x = (let q = q @ [x] in rotate_loop (length q - 1) q)"

definition stack_pop_op :: "int list \<Rightarrow> (int list \<times> int) option" where
  "stack_pop_op q = (case q of [] \<Rightarrow> None | x # q \<Rightarrow> Some (q, x))"

definition stack_top :: "int list \<Rightarrow> int option" where
  "stack_top q = (case q of [] \<Rightarrow> None | x # q \<Rightarrow> Some x)"

definition stack_empty :: "int list \<Rightarrow> bool" where
  "stack_empty q \<longleftrightarrow> q = []"

subsection \<open>The model: StockSpanner\<close>

fun span_loop :: "int \<Rightarrow> int \<Rightarrow> (int \<times> int) list \<Rightarrow> int \<times> (int \<times> int) list" where
  "span_loop price cnt [] = (cnt, [])"
| "span_loop price cnt ((p, c) # st) =
     (if p \<le> price then span_loop price (cnt + c) st else (cnt, (p, c) # st))"

definition span_next :: "(int \<times> int) list \<Rightarrow> int \<Rightarrow> (int \<times> int) list \<times> int" where
  "span_next prices_stack price =
     (let (cnt, st) = span_loop price 1 prices_stack in ((price, cnt) # st, cnt))"

subsection \<open>The model: FreqStack\<close>

text \<open>The map from frequencies to stacks is the list of its entries in its order, highest first.\<close>

record FreqStack =
  freq :: "int \<Rightarrow> int"
  freq_stack :: "(int \<times> int list) list"

definition FreqStack_init :: FreqStack where
  "FreqStack_init = \<lparr>freq = (\<lambda>_. 0), freq_stack = []\<rparr>"

fun push_at :: "int \<Rightarrow> int \<Rightarrow> (int \<times> int list) list \<Rightarrow> (int \<times> int list) list" where
  "push_at k x [] = [(k, [x])]"
| "push_at k x ((k', st) # m) =
     (if k = k' then (k', x # st) # m
      else if k' < k then (k, [x]) # (k', st) # m
      else (k', st) # push_at k x m)"

definition freq_push :: "FreqStack \<Rightarrow> int \<Rightarrow> FreqStack" where
  "freq_push this x =
     (let k = i32 (freq this x + 1)
      in this\<lparr>freq := (freq this)(x := k), freq_stack := push_at k x (freq_stack this)\<rparr>)"

definition freq_pop :: "FreqStack \<Rightarrow> (FreqStack \<times> int) option" where
  "freq_pop this =
     (case freq_stack this of
        (k, x # st) # m \<Rightarrow>
          Some (this\<lparr>freq := (freq this)(x := i32 (freq this x - 1)),
            freq_stack := (if st = [] then m else (k, st) # m)\<rparr>, x)
      | _ \<Rightarrow> None)"

text \<open>A sequence of calls on one object, with the values the pops return.\<close>

datatype freq_op = Push int | Pop

fun freq_run :: "FreqStack \<Rightarrow> freq_op list \<Rightarrow> int list option" where
  "freq_run this [] = Some []"
| "freq_run this (Push x # ops) = freq_run (freq_push this x) ops"
| "freq_run this (Pop # ops) = do { (this, x) \<leftarrow> freq_pop this; xs \<leftarrow> freq_run this ops; Some (x # xs) }"

subsection \<open>MinStack\<close>

text \<open>The vector and the minimum that a list of elements, newest first, leads to.\<close>

fun min_repr :: "int list \<Rightarrow> MinStack" where
  "min_repr [] = MinStack_init"
| "min_repr (x # xs) = min_push (min_repr xs) x"

definition min_ok :: "MinStack \<Rightarrow> bool" where
  "min_ok s \<longleftrightarrow> (\<exists>xs. s = min_repr xs)"

lemma min_pop_push: "min_pop (min_push s x) = Some s"
  by (simp add: min_pop_def min_push_def min_top_def vec_back_def Let_def butlast_append)

lemma min_top_push: "min_top (min_push s x) = Some x"
  by (simp add: min_push_def min_top_def vec_back_def Let_def)

lemma getMin_repr: "getMin (min_repr xs) = Min (insert INT32_MAX (set xs))"
proof (induction xs)
  case Nil
  then show ?case by (simp add: MinStack_init_def getMin_def)
next
  case (Cons x xs)
  have "insert INT32_MAX (set (x # xs)) = insert x (insert INT32_MAX (set xs))" by auto
  then have "Min (insert INT32_MAX (set (x # xs))) = min x (getMin (min_repr xs))" using Cons by simp
  then show ?case by (simp add: min_push_def getMin_def Let_def)
qed

lemma min_repr_inject: "min_repr xs = min_repr ys \<Longrightarrow> xs = ys"
proof (induction xs arbitrary: ys)
  case Nil
  then have "ms_stack (min_repr ys) = []" by (metis MinStack.select_convs(1) MinStack_init_def min_repr.simps(1))
  then show ?case by (cases ys) (auto simp: min_push_def Let_def)
next
  case (Cons x xs)
  show ?case
  proof (cases ys)
    case Nil
    then have "ms_stack (min_push (min_repr xs) x) = []" using Cons.prems by (simp add: MinStack_init_def)
    then show ?thesis by (simp add: min_push_def Let_def)
  next
    case (Cons y ys')
    then have e: "min_push (min_repr xs) x = min_push (min_repr ys') y" using Cons.prems by simp
    then have "x = y" using min_top_push by (metis option.inject)
    moreover have "min_repr xs = min_repr ys'" using e min_pop_push by (metis option.inject)
    ultimately show ?thesis using Cons.IH \<open>ys = y # ys'\<close> by simp
  qed
qed

definition min_elems :: "MinStack \<Rightarrow> int list" where
  "min_elems s = (THE xs. s = min_repr xs)"

lemma min_elems_repr [simp]: "min_elems (min_repr xs) = xs"
  unfolding min_elems_def using min_repr_inject by blast

interpretation min_stack: stack_contract min_ok min_elems min_push min_pop min_top
proof (unfold_locales, goal_cases)
  case (1 s x)
  then obtain xs where "s = min_repr xs" by (auto simp: min_ok_def)
  then have "min_push s x = min_repr (x # xs)" by simp
  then show ?case using \<open>s = min_repr xs\<close> min_elems_repr unfolding min_ok_def by metis
next
  case (2 s x xs)
  then have s: "s = min_push (min_repr xs) x" by (auto simp: min_ok_def)
  then show ?case using min_pop_push by (auto simp: min_ok_def)
next
  case (3 s x xs)
  then have s: "s = min_push (min_repr xs) x" by (auto simp: min_ok_def)
  then show ?case using min_top_push by simp
qed

text \<open>After any pushes onto a new \<open>MinStack\<close>, the elements come back last in, first out, and in every
  state on the way \<open>getMin\<close> is the least element, the largest int when the stack is empty.\<close>

theorem MinStack_correct:
  "\<exists>s'. drain min_top min_pop (length ys) (foldl min_push MinStack_init (xs @ ys)) = Some (s', rev ys) \<and>
    getMin s' = Min (insert INT32_MAX (set xs)) \<and>
    getMin (foldl min_push MinStack_init (xs @ ys)) = Min (insert INT32_MAX (set (xs @ ys)))"
proof -
  have repr: "foldl min_push MinStack_init zs = min_repr (rev zs)" for zs
    by (induction zs rule: rev_induct) simp_all
  have "min_ok (foldl min_push MinStack_init xs)" unfolding repr min_ok_def by blast
  then obtain s' where s': "drain min_top min_pop (length ys) (foldl min_push (foldl min_push MinStack_init xs) ys) = Some (s', rev ys)"
    "min_ok s'" "min_elems s' = min_elems (foldl min_push MinStack_init xs)"
    using min_stack.last_in_first_out by blast
  then have "s' = min_repr (rev xs)" unfolding repr min_elems_repr by (auto simp: min_ok_def)
  then show ?thesis using s'(1) getMin_repr [of "rev xs"] getMin_repr [of "rev (xs @ ys)"] unfolding repr [symmetric]
    by (simp add: foldl_append repr Un_commute)
qed


subsection \<open>MyQueue and MyStack\<close>

definition queue_elems :: "MyQueue \<Rightarrow> int list" where
  "queue_elems s = stack_pop s @ rev (stack_push s)"

lemma transfer_loop_rev: "transfer_loop xs ys = rev xs @ ys"
  by (induction xs arbitrary: ys) simp_all

lemma transfer_elems: "queue_elems (transfer_stack s) = queue_elems s"
  by (simp add: queue_elems_def transfer_stack_def transfer_loop_rev)

lemma transfer_front: "queue_elems s = x # xs \<Longrightarrow>
  \<exists>ys. stack_pop (transfer_stack s) = x # ys \<and> xs = ys @ rev (stack_push (transfer_stack s))"
  by (cases "stack_pop s") (auto simp: queue_elems_def transfer_stack_def transfer_loop_rev)

lemma queue_empty_elems: "queue_empty s \<longleftrightarrow> queue_elems s = []"
  by (simp add: queue_empty_def queue_elems_def)

interpretation my_queue: queue_contract "\<lambda>_. True" queue_elems queue_push queue_pop
proof (unfold_locales, goal_cases)
  case (1 s x)
  then show ?case by (simp add: queue_elems_def queue_push_def)
next
  case (2 s x xs)
  from transfer_front [OF 2(2)] show ?case by (auto simp: queue_pop_def Let_def queue_elems_def)
qed

lemma peek_front:
  assumes "queue_elems s = x # xs"
  shows "peek s = Some (transfer_stack s, x) \<and> queue_elems (transfer_stack s) = x # xs"
  using transfer_front [OF assms] transfer_elems [of s] assms by (auto simp: peek_def Let_def)

text \<open>\<open>MyQueue\<close>, two stacks, serves the elements in the order of their arrival, whatever pushes come
  between the pops: after \<open>xs\<close> and \<open>ys\<close> were pushed and \<open>xs\<close> served, pushing \<open>zs\<close> and serving the rest
  gives \<open>ys @ zs\<close> and leaves the queue empty.\<close>

theorem MyQueue_first_in_first_out:
  "\<exists>s s'. serve queue_pop (length xs) (foldl queue_push MyQueue_init (xs @ ys)) = Some (s, xs) \<and>
    serve queue_pop (length (ys @ zs)) (foldl queue_push s zs) = Some (s', ys @ zs) \<and> queue_empty s'"
proof -
  have "queue_elems (foldl queue_push MyQueue_init (xs @ ys)) = xs @ ys"
    using my_queue.fold_enq [of MyQueue_init "xs @ ys"] by (simp add: queue_elems_def MyQueue_init_def)
  then obtain s where s: "serve queue_pop (length xs) (foldl queue_push MyQueue_init (xs @ ys)) = Some (s, xs)" "queue_elems s = ys"
    using my_queue.serve_elems by blast
  have "queue_elems (foldl queue_push s zs) = (ys @ zs) @ []" using my_queue.fold_enq [of s zs] s(2) by simp
  then obtain s' where "serve queue_pop (length (ys @ zs)) (foldl queue_push s zs) = Some (s', ys @ zs)" "queue_elems s' = []"
    using my_queue.serve_elems by blast
  then show ?thesis using s(1) queue_empty_elems by blast
qed

lemma rotate_loop_append: "rotate_loop (length xs) (xs @ ys) = ys @ xs"
  by (induction xs arbitrary: ys) simp_all

lemma stack_push_elems: "stack_push_op q x = x # q"
  using rotate_loop_append [of q "[x]"] by (simp add: stack_push_op_def Let_def)

interpretation my_stack: stack_contract "\<lambda>_. True" "\<lambda>q. q" stack_push_op "\<lambda>q. map_option fst (stack_pop_op q)" stack_top
  by unfold_locales (simp_all add: stack_push_elems stack_pop_op_def stack_top_def)

lemma MyStack_last_in_first_out:
  "drain stack_top (\<lambda>q. map_option fst (stack_pop_op q)) (length xs) (foldl stack_push_op q xs) = Some (q, rev xs)"
  using my_stack.last_in_first_out [of xs q] by auto

subsection \<open>StockSpanner\<close>

text \<open>The blocks of the stack partition the prices, newest first: each holds its greatest price and
  the number of days it spans.\<close>

inductive spans :: "(int \<times> int) list \<Rightarrow> int list \<Rightarrow> bool" where
  no_days: "spans [] []"
| block: "\<forall>q \<in> set ps. q \<le> p \<Longrightarrow> spans st rest \<Longrightarrow> (\<forall>b \<in> set st. p < fst b) \<Longrightarrow>
    spans ((p, int (length ps) + 1) # st) (p # ps @ rest)"

inductive_cases spans_Cons: "spans (b # st) ps"
inductive_cases spans_Nil: "spans [] ps"

lemma span_loop_correct:
  "spans st days \<Longrightarrow> \<exists>ps rest st'. span_loop price cnt st = (cnt + int (length ps), st') \<and> days = ps @ rest \<and>
     (\<forall>q \<in> set ps. q \<le> price) \<and> spans st' rest \<and> (\<forall>b \<in> set st'. price < fst b)"
proof (induction arbitrary: cnt rule: spans.induct)
  case no_days
  then show ?case by (auto intro: spans.no_days)
next
  case (block ps p st rest)
  show ?case
  proof (cases "p \<le> price")
    case True
    obtain qs rest' st' where q: "span_loop price (cnt + (int (length ps) + 1)) st = (cnt + (int (length ps) + 1) + int (length qs), st')"
      "rest = qs @ rest'" "\<forall>q \<in> set qs. q \<le> price" "spans st' rest'" "\<forall>b \<in> set st'. price < fst b"
      using block.IH by blast
    have "\<forall>q \<in> set (p # ps @ qs). q \<le> price" using q(3) True block.hyps(1) by auto
    then show ?thesis using q True
      by (intro exI [of _ "p # ps @ qs"] exI [of _ rest'] exI [of _ st']) (simp add: algebra_simps)
  next
    case False
    then have "\<forall>b \<in> set ((p, int (length ps) + 1) # st). price < fst b" using block.hyps by auto
    then show ?thesis using False spans.block [OF block.hyps]
      by (intro exI [of _ "[]"] exI [of _ "p # ps @ rest"] exI [of _ "(p, int (length ps) + 1) # st"]) auto
  qed
qed

lemma spans_first: "spans st days \<Longrightarrow> days \<noteq> [] \<Longrightarrow> \<exists>b st'. st = b # st' \<and> hd days = fst b"
  by (induction rule: spans.induct) auto

text \<open>\<open>next\<close> returns the number of consecutive days, back from today, on which the price was not above
  today's price.\<close>

theorem StockSpanner_span:
  assumes "spans st days"
  shows "\<exists>st'. span_next st price = (st', int (length (takeWhile (\<lambda>p. p \<le> price) (price # days)))) \<and>
    spans st' (price # days)"
proof -
  obtain ps rest st' where s: "span_loop price 1 st = (1 + int (length ps), st')" "days = ps @ rest"
    "\<forall>q \<in> set ps. q \<le> price" "spans st' rest" "\<forall>b \<in> set st'. price < fst b"
    using span_loop_correct [OF assms, of price 1] by blast
  have "takeWhile (\<lambda>p. p \<le> price) rest = []"
  proof (cases rest)
    case (Cons r rs)
    then have "price < r" using spans_first [OF s(4)] s(5) by auto
    then show ?thesis using Cons by simp
  qed simp
  then have "takeWhile (\<lambda>p. p \<le> price) days = ps" using s(2,3) by (simp add: takeWhile_append)
  moreover have "spans ((price, int (length ps) + 1) # st') (price # ps @ rest)"
    by (rule spans.block) (use s(3-5) in auto)
  ultimately show ?thesis using s(1,2) by (simp add: span_next_def add.commute)
qed

lemma StockSpanner_span_witness:
  "\<exists>st'. span_next [(80, 1), (100, 1)] 85 = (st', int (length (takeWhile (\<lambda>p. p \<le> 85) (85 # [80 :: int, 100])))) \<and>
    spans st' (85 # [80, 100])"
proof (rule StockSpanner_span)
  have "spans [(100, 1)] [100]" using spans.block [OF _ spans.no_days, of "[]" 100] by simp
  then show "spans [(80, 1), (100, 1)] [80, 100]" using spans.block [of "[]" 80 "[(100, 1)]" "[100]"] by simp
qed


subsection \<open>FreqStack\<close>

text \<open>The elements, newest first, that were pushed as the \<open>k\<close>-th of their kind.\<close>

fun level :: "int list \<Rightarrow> nat \<Rightarrow> int list" where
  "level [] k = []"
| "level (x # xs) k = (if count_list (x # xs) x = k then x # level xs k else level xs k)"

definition top_freq :: "int list \<Rightarrow> nat" where
  "top_freq xs = Max (insert 0 (count_list xs ` set xs))"

definition freq_repr :: "int list \<Rightarrow> FreqStack" where
  "freq_repr xs = \<lparr>freq = (\<lambda>x. int (count_list xs x)),
     freq_stack = map (\<lambda>k. (int k, level xs k)) (rev [1..<Suc (top_freq xs)])\<rparr>"

lemma top_freq_ge: "count_list xs x \<le> top_freq xs"
  by (cases "x \<in> set xs") (auto simp: top_freq_def count_list_0_iff intro!: Max_ge)

lemma top_freq_Cons: "top_freq (x # xs) = max (Suc (count_list xs x)) (top_freq xs)"
proof (rule antisym)
  have "count_list (x # xs) y \<le> max (Suc (count_list xs x)) (top_freq xs)" for y
    using top_freq_ge [of xs y] by (cases "y = x") auto
  then show "top_freq (x # xs) \<le> max (Suc (count_list xs x)) (top_freq xs)"
    unfolding top_freq_def [of "x # xs"] by (intro Max.boundedI) (auto simp del: count_list.simps)
  have "count_list xs y \<le> top_freq (x # xs)" for y
    using top_freq_ge [of "x # xs" y] by (cases "y = x") auto
  then have "top_freq xs \<le> top_freq (x # xs)" unfolding top_freq_def [of xs] by (intro Max.boundedI) auto
  then show "max (Suc (count_list xs x)) (top_freq xs) \<le> top_freq (x # xs)"
    using top_freq_ge [of "x # xs" x] by simp
qed

lemma push_at_levels:
  assumes "1 \<le> k" "k \<le> Suc n"
  shows "push_at (int k) x (map (\<lambda>j. (int j, f j)) (rev [1..<Suc n])) =
    map (\<lambda>j. (int j, if j = k then x # (if k \<le> n then f k else []) else f j)) (rev [1..<Suc (max k n)])"
  using assms
proof (induction n)
  case 0
  then have "k = 1" by simp
  then show ?case by simp
next
  case (Suc n)
  consider "k = Suc (Suc n)" | "k = Suc n" | "k \<le> n" using Suc.prems by linarith
  then show ?case
  proof cases
    case 1
    then show ?thesis by (auto simp: rev_map)
  next
    case 2
    then show ?thesis by auto
  next
    case 3
    then show ?thesis using Suc by (auto simp: max_def)
  qed
qed

lemma level_above: "top_freq xs < k \<Longrightarrow> level xs k = []"
proof (induction xs)
  case (Cons x xs)
  then show ?case using top_freq_Cons [of x xs] by auto
qed simp

lemma freq_push_repr: "length xs < 2147483647 \<Longrightarrow> freq_push (freq_repr xs) x = freq_repr (x # xs)"
proof -
  assume short: "length xs < 2147483647"
  have "count_list xs x \<le> length xs" by (induction xs) auto
  then have wrap: "i32 (1 + int (count_list xs x)) = 1 + int (count_list xs x)" using short by (intro i32_id) simp_all
  let ?k = "Suc (count_list xs x)" and ?n = "top_freq xs"
  have "push_at (int ?k) x (map (\<lambda>j. (int j, level xs j)) (rev [1..<Suc ?n])) =
      map (\<lambda>j. (int j, if j = ?k then x # (if ?k \<le> ?n then level xs ?k else []) else level xs j)) (rev [1..<Suc (max ?k ?n)])"
    using top_freq_ge [of xs x] by (intro push_at_levels) auto
  also have "\<dots> = map (\<lambda>j. (int j, level (x # xs) j)) (rev [1..<Suc (top_freq (x # xs))])"
    unfolding top_freq_Cons by (intro map_cong refl) (auto simp: level_above)
  finally show ?thesis
    by (auto simp: freq_push_def freq_repr_def Let_def add.commute wrap intro!: ext)
qed

lemma remove1_Cons_other: "y \<noteq> x \<Longrightarrow> remove1 y (x # xs) = x # remove1 y xs" by simp

lemma count_list_remove1: "count_list (remove1 y xs) x = (if x = y then count_list xs x - 1 else count_list xs x)"
  by (induction xs) (auto simp: count_list_0_iff)

lemma level_remove1:
  "y \<in> set xs \<Longrightarrow> level (remove1 y xs) k = (if k = count_list xs y then remove1 y (level xs k) else level xs k)"
proof (induction xs)
  case (Cons x xs)
  show ?case
  proof (cases "x = y")
    case False
    then have "y \<in> set xs" using Cons.prems by simp
    then show ?thesis using Cons.IH False by (auto simp: count_list_remove1)
  qed simp
qed simp

lemma level_top: "level xs (count_list xs y) \<noteq> [] \<or> y \<notin> set xs"
  by (induction xs) auto

text \<open>The head of the highest level is the newest element among those of the greatest count.\<close>

lemma level_head:
  "level xs (top_freq xs) = y # ys \<Longrightarrow> y \<in> set xs \<and> count_list xs y = top_freq xs \<and>
     find (\<lambda>z. count_list xs z = top_freq xs) xs = Some y"
proof -
  have gen: "level xs k = y # ys \<Longrightarrow> (\<And>z. count_list xs z \<le> k) \<Longrightarrow>
      y \<in> set xs \<and> count_list xs y = k \<and> find (\<lambda>z. count_list xs z = k) xs = Some y" for k
  proof (induction xs)
    case (Cons x xs)
    show ?case
    proof (cases "count_list (x # xs) x = k")
      case True
      then show ?thesis using Cons.prems(1) by auto
    next
      case False
      have le: "count_list xs z \<le> k" for z using Cons.prems(2) [of z] by (auto split: if_splits)
      have l: "level xs k = y # ys" using Cons.prems(1) False by simp
      have IH: "y \<in> set xs" "count_list xs y = k" "find (\<lambda>z. count_list xs z = k) xs = Some y"
        using Cons.IH [OF l le] by auto
      have "y \<noteq> x" using Cons.prems(2) [of x] IH(2) by auto
      have "find (\<lambda>z. count_list (x # xs) z = k) xs = find (\<lambda>z. count_list xs z = k) xs"
      proof (rule find_cong [OF refl])
        fix z assume "z \<in> set xs"
        show "(count_list (x # xs) z = k) = (count_list xs z = k)"
          using False Cons.prems(2) [of x] by (cases "z = x") auto
      qed
      then show ?thesis using False IH \<open>y \<noteq> x\<close> by simp
    qed
  qed simp
  assume "level xs (top_freq xs) = y # ys"
  then show ?thesis using gen top_freq_ge by blast
qed


lemma FreqStack_init_repr: "FreqStack_init = freq_repr []"
  by (simp add: FreqStack_init_def freq_repr_def top_freq_def)

lemma top_freq_attained:
  assumes "xs \<noteq> []"
  shows "0 < top_freq xs" "\<exists>z \<in> set xs. count_list xs z = top_freq xs"
proof -
  obtain z where "z \<in> set xs" using assms by (cases xs) auto
  then have "0 < count_list xs z" by (metis count_list_0_iff gr0I)
  then show pos: "0 < top_freq xs" using top_freq_ge [of xs z] by simp
  have "top_freq xs \<in> insert 0 (count_list xs ` set xs)" unfolding top_freq_def by (rule Max_in) auto
  then show "\<exists>z \<in> set xs. count_list xs z = top_freq xs" using pos by auto
qed

lemma top_level:
  assumes "xs \<noteq> []"
  obtains y ys where "level xs (top_freq xs) = y # ys"
proof -
  obtain z where "z \<in> set xs" "count_list xs z = top_freq xs" using top_freq_attained [OF assms] by blast
  then have "level xs (top_freq xs) \<noteq> []" using level_top [of xs z] by auto
  then show thesis by (cases "level xs (top_freq xs)") (auto intro: that)
qed

text \<open>The stacks without the newest of the most frequent elements.\<close>

lemma freq_stack_remove:
  assumes l: "level xs (top_freq xs) = y # ys" and "xs \<noteq> []"
  shows "freq_stack (freq_repr (remove1 y xs)) =
      (if ys = [] then [] else [(int (top_freq xs), ys)]) @ map (\<lambda>k. (int k, level xs k)) (rev [1..<top_freq xs])"
proof -
  let ?n = "top_freq xs" and ?xs = "remove1 y xs"
  note pos = top_freq_attained(1) [OF assms(2)] and y = level_head [OF l]
  have lev: "level ?xs k = (if k = ?n then ys else level xs k)" for k
    using level_remove1 [of y xs k] y l by auto
  have le: "top_freq ?xs \<le> ?n"
    unfolding top_freq_def [of ?xs] using top_freq_ge [of xs] by (intro Max.boundedI) (auto simp: count_list_remove1 le_diff_conv intro: le_SucI [OF top_freq_ge])
  show ?thesis
  proof (cases "ys = []")
    case True
    have "top_freq ?xs \<noteq> ?n"
    proof
      assume eq: "top_freq ?xs = ?n"
      then have "?xs \<noteq> []" using pos by (auto simp: top_freq_def)
      from top_level [OF this] obtain z zs where "level ?xs ?n = z # zs" unfolding eq .
      then show False using lev True by simp
    qed
    moreover have "?n - 1 \<le> top_freq ?xs"
      using top_freq_ge [of ?xs y] y by (simp add: count_list_remove1)
    ultimately have "Suc (top_freq ?xs) = ?n" using pos le by simp
    then show ?thesis using True lev by (auto simp: freq_repr_def)
  next
    case False
    then have "top_freq ?xs = ?n"
      using le level_above [of ?xs ?n] lev by (metis le_neq_implies_less)
    moreover have "rev [1..<Suc ?n] = ?n # rev [1..<?n]" using pos by simp
    ultimately show ?thesis using False lev by (simp add: freq_repr_def)
  qed
qed

lemma freq_pop_repr:
  assumes "xs \<noteq> []" "length xs < 2147483648"
  shows "\<exists>y. freq_pop (freq_repr xs) = Some (freq_repr (remove1 y xs), y) \<and>
    find (\<lambda>z. \<forall>w \<in> set xs. count_list xs w \<le> count_list xs z) xs = Some y"
proof -
  obtain y ys where l: "level xs (top_freq xs) = y # ys" by (rule top_level [OF assms(1)])
  note y = level_head [OF l] and pos = top_freq_attained(1) [OF assms(1)]
  have most: "(\<forall>w \<in> set xs. count_list xs w \<le> count_list xs v) \<longleftrightarrow> count_list xs v = top_freq xs" for v
    using top_freq_attained(2) [OF assms(1)] top_freq_ge [of xs] by (metis dual_order.antisym)
  have "freq_stack (freq_repr xs) = (int (top_freq xs), y # ys) # map (\<lambda>k. (int k, level xs k)) (rev [1..<top_freq xs])"
    using pos l by (simp add: freq_repr_def)
  moreover have "count_list xs y \<le> length xs" by (induction xs) auto
  then have "i32 (freq (freq_repr xs) y - 1) = freq (freq_repr xs) y - 1"
    using assms(2) by (intro i32_id) (simp_all add: freq_repr_def)
  moreover have "(freq (freq_repr xs))(y := freq (freq_repr xs) y - 1) = freq (freq_repr (remove1 y xs))"
    using y by (auto simp: freq_repr_def count_list_remove1 intro!: ext) (metis One_nat_def Suc_leI of_nat_1 of_nat_diff pos)
  ultimately have "freq_pop (freq_repr xs) = Some (freq_repr (remove1 y xs), y)"
    using freq_stack_remove [OF l assms(1)] by (simp add: freq_pop_def freq_repr_def)
  then show ?thesis using y unfolding most by blast
qed

text \<open>The specification: the elements are a list, newest first, and a pop takes the first one that no other outnumbers.\<close>

fun freq_spec :: "int list \<Rightarrow> freq_op list \<Rightarrow> int list option" where
  "freq_spec xs [] = Some []"
| "freq_spec xs (Push x # ops) = freq_spec (x # xs) ops"
| "freq_spec xs (Pop # ops) =
     (case find (\<lambda>z. \<forall>w \<in> set xs. count_list xs w \<le> count_list xs z) xs of
        None \<Rightarrow> None
      | Some y \<Rightarrow> map_option ((#) y) (freq_spec (remove1 y xs) ops))"

lemma freq_run_spec:
  "length xs + length ops < 2147483648 \<Longrightarrow> freq_run (freq_repr xs) ops = freq_spec xs ops"
proof (induction xs ops rule: freq_spec.induct)
  case (2 xs x ops)
  then show ?case by (simp add: freq_push_repr)
next
  case (3 xs ops)
  show ?case
  proof (cases "xs = []")
    case True
    then show ?thesis by (simp add: freq_pop_def freq_repr_def top_freq_def)
  next
    case False
    then obtain y where y: "freq_pop (freq_repr xs) = Some (freq_repr (remove1 y xs), y)"
      "find (\<lambda>z. \<forall>w \<in> set xs. count_list xs w \<le> count_list xs z) xs = Some y"
      using freq_pop_repr [of xs] "3.prems" by auto
    have "length (remove1 y xs) \<le> length xs" by (simp add: length_remove1)
    then have "freq_run (freq_repr (remove1 y xs)) ops = freq_spec (remove1 y xs) ops"
      using "3.IH" [OF y(2)] "3.prems" by simp
    then show ?thesis using y by (cases "freq_spec (remove1 y xs) ops") simp_all
  qed
qed simp

text \<open>C31: Every sequence of fewer than 2^31 calls on a new \<open>FreqStack\<close> returns what the specification returns: a pop takes the newest of
  the elements that are most often in the stack, and a pop of an empty stack is undefined in both.\<close>

theorem FreqStack_pops_most_frequent:
  assumes "length ops < 2147483648"
  shows "freq_run FreqStack_init ops = freq_spec [] ops"
  unfolding FreqStack_init_repr using assms by (intro freq_run_spec) simp

lemma FreqStack_pops_most_frequent_witness:
  "freq_run FreqStack_init [Push 5, Push 7, Push 5, Push 7, Push 4, Pop, Pop, Push 4, Pop] =
   freq_spec [] [Push 5, Push 7, Push 5, Push 7, Push 4, Pop, Pop, Push 4, Pop]"
  by (rule FreqStack_pops_most_frequent) simp

end
