(* ===== verification/MonotoneStack.thy ===== *)
theory MonotoneStack
  imports Prelude
begin

section \<open>Monotone stacks (leetcode/stack.cpp)\<close>

text \<open>
  The class \<open>MonotoneStack\<close> and \<open>Pattern132::find132pattern\<close>. Positions of the array wait on a
  \<open>std::deque\<close> that is used from its back; it is kept with its back at the head of the list, so
  that the popping loop \<open>while (!empty() && comp(arr[i], arr[back()])) pop_back()\<close> is a
  \<open>dropWhile\<close>. The key fact (\<open>drop_while_find\<close>) is that for a transitive comparison a search on
  the stack finds what a search through all the processed positions would find.
\<close>

subsection \<open>Nearest smaller elements\<close>

definition less_step :: "int list \<Rightarrow> (int \<Rightarrow> int \<Rightarrow> bool) \<Rightarrow> nat list \<times> int list \<Rightarrow> nat \<Rightarrow> nat list \<times> int list" where
  "less_step arr cmp st i = (case st of (plp, pos) \<Rightarrow>
     let plp = dropWhile (\<lambda>p. cmp (arr ! i) (arr ! p)) plp;
         pos = (case plp of [] \<Rightarrow> pos | back # _ \<Rightarrow> pos[i := int back])
     in (i # plp, pos))"

definition computePrevLess :: "int list \<Rightarrow> (int \<Rightarrow> int \<Rightarrow> bool) \<Rightarrow> int list" where
  "computePrevLess arr cmp =
     snd (foldl (less_step arr cmp) ([0], replicate (length arr) (- 1)) [1..<length arr])"

definition computeNextLess :: "int list \<Rightarrow> (int \<Rightarrow> int \<Rightarrow> bool) \<Rightarrow> int list" where
  "computeNextLess arr cmp =
     snd (foldl (less_step arr cmp) ([], replicate (length arr) (int (length arr))) (rev [0..<length arr]))"

lemma find_Cons_dropWhile:
  "(case dropWhile P xs of [] \<Rightarrow> d | b # _ \<Rightarrow> f b) = (case List.find (\<lambda>x. \<not> P x) xs of None \<Rightarrow> d | Some b \<Rightarrow> f b)"
  by (induction xs) auto

text \<open>\<open>agree\<close>: every search for an element that stops a value gives the same on both lists.\<close>

definition agree :: "int list \<Rightarrow> (int \<Rightarrow> int \<Rightarrow> bool) \<Rightarrow> nat list \<Rightarrow> nat list \<Rightarrow> bool" where
  "agree arr cmp S seen \<longleftrightarrow>
     (\<forall>x. List.find (\<lambda>j. \<not> cmp x (arr ! j)) S = List.find (\<lambda>j. \<not> cmp x (arr ! j)) seen)"

lemma find_dropWhile_mono:
  "(\<And>y. Q y \<Longrightarrow> P y) \<Longrightarrow> List.find (\<lambda>y. \<not> P y) (dropWhile Q xs) = List.find (\<lambda>y. \<not> P y) xs"
  by (induction xs) auto

lemma agree_step:
  assumes "transp cmp" "agree arr cmp S seen"
  shows "agree arr cmp (i # dropWhile (\<lambda>p. cmp (arr ! i) (arr ! p)) S) (i # seen)"
  unfolding agree_def
proof
  fix x
  have "cmp x (arr ! i) \<Longrightarrow> List.find (\<lambda>j. \<not> cmp x (arr ! j)) (dropWhile (\<lambda>p. cmp (arr ! i) (arr ! p)) S)
      = List.find (\<lambda>j. \<not> cmp x (arr ! j)) seen"
    using assms by (subst find_dropWhile_mono) (auto simp: agree_def dest: transpD)
  then show "List.find (\<lambda>j. \<not> cmp x (arr ! j)) (i # dropWhile (\<lambda>p. cmp (arr ! i) (arr ! p)) S)
      = List.find (\<lambda>j. \<not> cmp x (arr ! j)) (i # seen)" by simp
qed

lemma upt_split: "a \<le> b \<Longrightarrow> b \<le> c \<Longrightarrow> [a..<c] = [a..<b] @ [b..<c]"
  by (metis le_Suc_ex upt_add_eq_append)

definition nearest :: "int list \<Rightarrow> (int \<Rightarrow> int \<Rightarrow> bool) \<Rightarrow> int \<Rightarrow> nat list \<Rightarrow> nat \<Rightarrow> int" where
  "nearest arr cmp d seen i =
     (case List.find (\<lambda>j. \<not> cmp (arr ! i) (arr ! j)) seen of None \<Rightarrow> d | Some j \<Rightarrow> int j)"

lemma less_loop:
  assumes "transp cmp" "agree arr cmp S seen" "distinct is" "\<forall>i \<in> set is. i < length pos"
    and "\<forall>i \<in> set is. pos ! i = d"
  shows "length (snd (foldl (less_step arr cmp) (S, pos) is)) = length pos \<and>
     (\<forall>j < length pos. snd (foldl (less_step arr cmp) (S, pos) is) ! j =
       (if j \<in> set is then nearest arr cmp d (rev (takeWhile (\<lambda>k. k \<noteq> j) is) @ seen) j else pos ! j))"
  using assms
proof (induction "is" arbitrary: S seen pos)
  case (Cons i "is")
  define S' where "S' = dropWhile (\<lambda>p. cmp (arr ! i) (arr ! p)) S"
  define pos' where "pos' = (case S' of [] \<Rightarrow> pos | b # _ \<Rightarrow> pos[i := int b])"
  have st: "less_step arr cmp (S, pos) i = (i # S', pos')"
    by (simp add: less_step_def S'_def pos'_def Let_def)
  have find_eq: "List.find (\<lambda>j. \<not> cmp (arr ! i) (arr ! j)) S = List.find (\<lambda>j. \<not> cmp (arr ! i) (arr ! j)) seen"
    using Cons.prems(2) by (simp add: agree_def)
  have "pos' = pos[i := nearest arr cmp d seen i]"
  proof -
    have "pos[i := d] = pos" using Cons.prems(5) by (metis list.set_intros(1) list_update_id)
    then show ?thesis unfolding pos'_def S'_def nearest_def find_eq [symmetric] find_Cons_dropWhile
      by (simp split: option.split)
  qed
  note pos' = this
  have ag: "agree arr cmp (i # S') (i # seen)" unfolding S'_def by (rule agree_step [OF Cons.prems(1,2)])
  have rest: "distinct is" "\<forall>k \<in> set is. k < length pos'" "\<forall>k \<in> set is. pos' ! k = d"
    using Cons.prems(3,4,5) by (auto simp: pos' nth_list_update)
  have len: "length pos' = length pos" by (simp add: pos')
  have ii: "i < length pos" "i \<notin> set is" using Cons.prems by auto
  show ?case
    using Cons.IH [OF Cons.prems(1) ag rest] ii
    by (auto simp: st len pos' nth_list_update)
qed simp

lemma prev_less_at:
  assumes "transp cmp" "i < length arr"
  shows "computePrevLess arr cmp ! i = nearest arr cmp (- 1) (rev [0..<i]) i"
proof -
  have "agree arr cmp [0] [0]" by (simp add: agree_def)
  note L = less_loop [OF assms(1) this, of "[1..<length arr]" "replicate (length arr) (- 1)" "- 1"]
  have tw: "takeWhile (\<lambda>k. k \<noteq> i) [1..<length arr] = [1..<i]" if "0 < i"
  proof -
    have "[1..<length arr] = [1..<i] @ [i..<length arr]" using that assms(2) by (intro upt_split) auto
    moreover have "[i..<length arr] = i # [Suc i..<length arr]" using assms(2) by (rule upt_conv_Cons)
    ultimately show ?thesis by (simp add: takeWhile_append)
  qed
  show ?thesis
  proof (cases "i = 0")
    case True
    then show ?thesis using L assms by (simp add: computePrevLess_def nearest_def)
  next
    case False
    then have "rev [1..<i] @ [0] = rev [0..<i]" by (simp add: upt_rec [of 0])
    then show ?thesis using L assms False tw by (simp add: computePrevLess_def)
  qed
qed

lemma next_less_at:
  assumes "transp cmp" "i < length arr"
  shows "computeNextLess arr cmp ! i = nearest arr cmp (int (length arr)) [Suc i..<length arr] i"
proof -
  have "agree arr cmp [] []" by (simp add: agree_def)
  note L = less_loop [OF assms(1) this, of "rev [0..<length arr]" "replicate (length arr) (int (length arr))" "int (length arr)"]
  have "[0..<length arr] = [0..<i] @ i # [Suc i..<length arr]"
    using assms(2) upt_split [of 0 i "length arr"] by (simp add: upt_conv_Cons)
  then have "takeWhile (\<lambda>k. k \<noteq> i) (rev [0..<length arr]) = rev [Suc i..<length arr]"
    by (simp add: takeWhile_append)
  then show ?thesis using L assms by (simp add: computeNextLess_def)
qed

lemma length_less [simp]:
  "transp cmp \<Longrightarrow> length (computePrevLess arr cmp) = length arr"
  "transp cmp \<Longrightarrow> length (computeNextLess arr cmp) = length arr"
  using less_loop [of cmp arr "[0]" "[0]" "[1..<length arr]" "replicate (length arr) (- 1)" "- 1"]
    less_loop [of cmp arr "[]" "[]" "rev [0..<length arr]" "replicate (length arr) (int (length arr))" "int (length arr)"]
  by (auto simp: computePrevLess_def computeNextLess_def agree_def)

lemma prev_less_bounds:
  assumes "transp cmp" "i < length arr"
  defines "p \<equiv> computePrevLess arr cmp ! i"
  shows "- 1 \<le> p" "p < int i" "\<And>k. p < int k \<Longrightarrow> k < i \<Longrightarrow> cmp (arr ! i) (arr ! k)"
    "0 \<le> p \<Longrightarrow> \<not> cmp (arr ! i) (arr ! nat p)"
proof -
  have p: "p = nearest arr cmp (- 1) (rev [0..<i]) i" using prev_less_at assms by simp
  have none: "List.find Q (rev [0..<i]) = None \<Longrightarrow> k < i \<Longrightarrow> \<not> Q k" for k Q by (auto simp: find_None_iff)
  have some: "j < i \<and> Q j \<and> (\<forall>k. j < k \<and> k < i \<longrightarrow> \<not> Q k)" if found: "List.find Q (rev [0..<i]) = Some j" for j Q
  proof -
    obtain m where "m < length (rev [0..<i]) \<and> Q (rev [0..<i] ! m) \<and> j = rev [0..<i] ! m \<and> (\<forall>l<m. \<not> Q (rev [0..<i] ! l))"
      using found unfolding find_Some_iff by blast
    then have m: "m < i" "Q (rev [0..<i] ! m)" "j = rev [0..<i] ! m" "\<forall>l<m. \<not> Q (rev [0..<i] ! l)" by auto
    have j: "j = i - Suc m" using m by (simp add: rev_nth)
    have "\<not> Q k" if "j < k" "k < i" for k
      using m(4) [rule_format, of "i - Suc k"] that j m(1) by (simp add: rev_nth)
    then show ?thesis using m j by simp
  qed
  show "- 1 \<le> p" "p < int i" unfolding p nearest_def by (auto split: option.split dest: some)
  show "cmp (arr ! i) (arr ! k)" if "p < int k" "k < i" for k
    using that unfolding p nearest_def by (auto split: option.splits dest: some none)
  show "0 \<le> p \<Longrightarrow> \<not> cmp (arr ! i) (arr ! nat p)"
    unfolding p nearest_def by (auto split: option.splits dest: some)
qed

lemma next_less_bounds:
  assumes "transp cmp" "i < length arr"
  defines "p \<equiv> computeNextLess arr cmp ! i"
  shows "int i < p" "p \<le> int (length arr)" "\<And>k. i < k \<Longrightarrow> int k < p \<Longrightarrow> cmp (arr ! i) (arr ! k)"
    "p < int (length arr) \<Longrightarrow> \<not> cmp (arr ! i) (arr ! nat p)"
proof -
  have p: "p = nearest arr cmp (int (length arr)) [Suc i..<length arr] i" using next_less_at assms by simp
  have none: "List.find Q [Suc i..<length arr] = None \<Longrightarrow> i < k \<Longrightarrow> k < length arr \<Longrightarrow> \<not> Q k" for k Q
    by (auto simp: find_None_iff)
  have some: "i < j \<and> j < length arr \<and> Q j \<and> (\<forall>k. i < k \<and> k < j \<longrightarrow> \<not> Q k)"
    if found: "List.find Q [Suc i..<length arr] = Some j" for j Q
  proof -
    obtain m where "m < length [Suc i..<length arr] \<and> Q ([Suc i..<length arr] ! m) \<and> j = [Suc i..<length arr] ! m \<and>
        (\<forall>l<m. \<not> Q ([Suc i..<length arr] ! l))"
      using found unfolding find_Some_iff by blast
    then have m: "m < length arr - Suc i" "Q ([Suc i..<length arr] ! m)" "j = [Suc i..<length arr] ! m"
      "\<forall>l<m. \<not> Q ([Suc i..<length arr] ! l)" by auto
    have j: "j = Suc i + m" using m by simp
    have "\<not> Q k" if "i < k" "k < j" for k
      using m(4) [rule_format, of "k - Suc i"] that j m(1) by simp
    then show ?thesis using m j by simp
  qed
  show "int i < p" "p \<le> int (length arr)" unfolding p nearest_def
    using assms(2) by (auto split: option.split dest: some)
  show "cmp (arr ! i) (arr ! k)" if "i < k" "int k < p" for k
    using that unfolding p nearest_def by (auto split: option.splits dest: some none)
  show "p < int (length arr) \<Longrightarrow> \<not> cmp (arr ! i) (arr ! nat p)"
    unfolding p nearest_def by (auto split: option.splits dest: some)
qed
subsection \<open>The largest rectangle in a histogram and in a matrix\<close>

text \<open>The loop over the bars; the height of a bar is the height of its rectangle.\<close>

definition bar_areas :: "int list \<Rightarrow> int list \<Rightarrow> int list \<Rightarrow> int \<Rightarrow> int" where
  "bar_areas heights prev_less_pos next_less_pos max_area =
     foldl (\<lambda>m i. max m (i32 (heights ! i * (next_less_pos ! i - prev_less_pos ! i - 1)))) max_area [0..<length heights]"

definition largestRectangleArea :: "int list \<Rightarrow> int" where
  "largestRectangleArea heights = (
     let prev_less_pos = computePrevLess heights (\<le>);
         next_less_pos = computeNextLess heights (\<le>)
     in bar_areas heights prev_less_pos next_less_pos 0)"

definition column_step :: "char list list \<Rightarrow> nat \<Rightarrow> int \<times> int list list \<Rightarrow> nat \<Rightarrow> int \<times> int list list" where
  "column_step matrix j st i = (case st of (h, heights) \<Rightarrow>
     let h = (if matrix ! i ! j = CHR ''1'' then h + 1 else 0)
     in (h, heights[i := (heights ! i)[j := h]]))"

definition cumulative_ones :: "char list list \<Rightarrow> nat \<Rightarrow> nat \<Rightarrow> int list list" where
  "cumulative_ones matrix rows cols =
     foldl (\<lambda>heights j. snd (foldl (column_step matrix j) (0, heights) [0..<rows]))
       (replicate rows (replicate cols 0)) [0..<cols]"

definition maximalRectangle :: "char list list \<Rightarrow> int" where
  "maximalRectangle matrix = (
     if matrix = [] \<or> hd matrix = [] then 0
     else let rows = length matrix; cols = length (hd matrix);
              heights = cumulative_ones matrix rows cols
          in foldl (\<lambda>max_area r.
               let prev_less_pos = computePrevLess (heights ! r) (\<le>);
                   next_less_pos = computeNextLess (heights ! r) (\<le>)
               in bar_areas (heights ! r) prev_less_pos next_less_pos max_area) 0 [0..<rows])"

lemma transp_cmp [simp]:
  "transp ((\<le>) :: int \<Rightarrow> _)" "transp ((<) :: int \<Rightarrow> _)" "transp (\<lambda>x y :: int. y \<le> x)" "transp (\<lambda>x y :: int. y < x)"
  by (auto intro: transpI)

lemma foldl_max:
  "m \<le> foldl (\<lambda>m i. max m (f i)) (m :: int) xs"
  "i \<in> set xs \<Longrightarrow> f i \<le> foldl (\<lambda>m i. max m (f i)) m xs"
  "foldl (\<lambda>m i. max m (f i)) m xs = m \<or> (\<exists>i \<in> set xs. foldl (\<lambda>m i. max m (f i)) m xs = f i)"
proof -
  show le: "m \<le> foldl (\<lambda>m i. max m (f i)) (m :: int) xs" for m xs
    by (induction xs arbitrary: m) (auto intro: order_trans [OF max.cobounded1])
  show "i \<in> set xs \<Longrightarrow> f i \<le> foldl (\<lambda>m i. max m (f i)) m xs"
  proof (induction xs arbitrary: m)
    case (Cons x xs)
    then show ?case using le [where m = "max m (f i)"] by (auto intro: order_trans [OF max.cobounded2])
  qed simp
  show "foldl (\<lambda>m i. max m (f i)) m xs = m \<or> (\<exists>i \<in> set xs. foldl (\<lambda>m i. max m (f i)) m xs = f i)"
  proof (induction xs arbitrary: m)
    case (Cons x xs)
    show ?case using Cons.IH [of "max m (f x)"] by (auto simp: max_def split: if_splits)
  qed simp
qed

text \<open>The area of the rectangle that fills the bars \<open>l\<close> to \<open>r\<close>.\<close>

definition span_area :: "int list \<Rightarrow> nat \<Rightarrow> nat \<Rightarrow> int" where
  "span_area heights l r = int (Suc r - l) * Min ((!) heights ` {l..r})"

lemma bar_areas_largest:
  fixes m :: int
  assumes range: "\<forall>h \<in> set heights. 0 \<le> h \<and> h * int (length heights) < 2147483648"
  defines "R \<equiv> bar_areas heights (computePrevLess heights (\<le>)) (computeNextLess heights (\<le>)) m"
  shows "m \<le> R" "l \<le> r \<Longrightarrow> r < length heights \<Longrightarrow> span_area heights l r \<le> R"
    "R = m \<or> (\<exists>l r. l \<le> r \<and> r < length heights \<and> R = span_area heights l r)"
proof -
  let ?n = "length heights" and ?p = "computePrevLess heights (\<le>)" and ?q = "computeNextLess heights (\<le>)"
  define f where "f i = i32 (heights ! i * (?q ! i - ?p ! i - 1))" for i
  have R: "R = foldl (\<lambda>m i. max m (f i)) m [0..<?n]" by (simp add: R_def bar_areas_def f_def)
  have f: "f i = heights ! i * (?q ! i - ?p ! i - 1)" if "i < ?n" for i
  proof -
    have h: "0 \<le> heights ! i" "heights ! i * int ?n < 2147483648" using range that by auto
    have w: "0 \<le> ?q ! i - ?p ! i - 1" "?q ! i - ?p ! i - 1 \<le> int ?n"
      using prev_less_bounds(1,2) [OF transp_cmp(1) that] next_less_bounds(1,2) [OF transp_cmp(1) that] by linarith+
    have "heights ! i * (?q ! i - ?p ! i - 1) \<le> heights ! i * int ?n" using h(1) w(2) by (rule mult_left_mono [rotated])
    moreover have "0 \<le> heights ! i * (?q ! i - ?p ! i - 1)" using h(1) w(1) by (rule mult_nonneg_nonneg)
    ultimately show ?thesis unfolding f_def using h(2) by (intro i32_id) linarith+
  qed
  show "m \<le> R" unfolding R by (rule foldl_max)
  show "span_area heights l r \<le> R" if lr: "l \<le> r" "r < ?n"
  proof -
    have "Min ((!) heights ` {l..r}) \<in> (!) heights ` {l..r}" using lr(1) by (intro Min_in) auto
    then obtain i where i: "i \<in> {l..r}" "Min ((!) heights ` {l..r}) = heights ! i" by auto
    have min: "heights ! i \<le> heights ! k" if "k \<in> {l..r}" for k using that by (simp add: i(2) [symmetric])
    have in_n: "i < ?n" using i(1) lr(2) by simp
    have "?p ! i < int l"
      using prev_less_bounds(1,2,4) [OF transp_cmp(1) in_n] min [of "nat (?p ! i)"] i(1) by fastforce
    moreover have "int r < ?q ! i"
      using next_less_bounds(1,2,4) [OF transp_cmp(1) in_n] min [of "nat (?q ! i)"] i(1) lr(2) by fastforce
    ultimately have "int (Suc r - l) \<le> ?q ! i - ?p ! i - 1" using lr(1) by linarith
    then have "span_area heights l r \<le> f i"
      using range in_n unfolding span_area_def i(2) f [OF in_n] by (subst mult.commute) (intro mult_left_mono, auto)
    also have "\<dots> \<le> R" unfolding R using in_n by (intro foldl_max) simp
    finally show ?thesis .
  qed
  show "R = m \<or> (\<exists>l r. l \<le> r \<and> r < ?n \<and> R = span_area heights l r)"
  proof (cases "R = m")
    case False
    then obtain i where i: "i < ?n" "R = f i" using foldl_max(3) [of f m "[0..<?n]"] unfolding R by auto
    note P = prev_less_bounds [OF transp_cmp(1) i(1)] and Q = next_less_bounds [OF transp_cmp(1) i(1)]
    define l r where "l = nat (?p ! i + 1)" and "r = nat (?q ! i - 1)"
    have lr: "l \<le> i" "i \<le> r" "r < ?n" "int l = ?p ! i + 1" "int r = ?q ! i - 1"
      using P(1,2) Q(1,2) by (auto simp: l_def r_def)
    have "heights ! i \<le> heights ! k" if "k \<in> {l..r}" for k
      using P(3) [of k] Q(3) [of k] that lr by (cases k i rule: linorder_cases) auto
    then have "Min ((!) heights ` {l..r}) = heights ! i" using lr by (intro Min_eqI) auto
    moreover have "int (Suc r - l) = ?q ! i - ?p ! i - 1" using lr by linarith
    ultimately have "R = span_area heights l r" by (simp add: span_area_def i(2) f [OF i(1)])
    then show ?thesis using lr by (intro disjI2 exI [of _ l] exI [of _ r]) simp
  qed simp
qed

lemma finite_spans: "finite {(l, r). l \<le> r \<and> r < (n :: nat)}"
  by (rule finite_subset [of _ "{..n} \<times> {..n}"]) auto

text \<open>\<open>largestRectangleArea\<close> is the largest area of a rectangle that fits under the histogram (0 without
  bars), and no product of the code overflows when the area of the largest bar times the number of
  bars fits in an int.\<close>

theorem largestRectangleArea_correct:
  assumes "\<forall>h \<in> set heights. 0 \<le> h \<and> h * int (length heights) < 2147483648"
  shows "largestRectangleArea heights =
    Max (insert 0 ((\<lambda>(l, r). int (Suc r - l) * Min ((!) heights ` {l..r})) ` {(l, r). l \<le> r \<and> r < length heights}))"
proof -
  note B = bar_areas_largest [OF assms, where m = 0, unfolded span_area_def]
  have R: "largestRectangleArea heights = bar_areas heights (computePrevLess heights (\<le>)) (computeNextLess heights (\<le>)) 0"
    by (simp add: largestRectangleArea_def Let_def)
  show ?thesis unfolding R
  proof (rule Max_eqI [symmetric])
    show "bar_areas heights (computePrevLess heights (\<le>)) (computeNextLess heights (\<le>)) 0
      \<in> insert 0 ((\<lambda>(l, r). int (Suc r - l) * Min ((!) heights ` {l..r})) ` {(l, r). l \<le> r \<and> r < length heights})"
      using B(3) by force
  qed (use B(1,2) finite_spans in auto)
qed

theorem largestRectangleArea_witness: "largestRectangleArea [2, 1, 5, 6, 2, 3] =
    Max (insert 0 ((\<lambda>(l, r). int (Suc r - l) * Min ((!) [2, 1, 5, 6, 2, 3 :: int] ` {l..r})) ` {(l, r). l \<le> r \<and> r < length [2, 1, 5, 6, 2, 3 :: int]}))"
  by (rule largestRectangleArea_correct) simp

lemma largestRectangleArea_example: "largestRectangleArea [2, 1, 5, 6, 2, 3] = 10"
  by code_simp
text \<open>The length of the run of \<open>'1'\<close>s in a column that ends just before a row.\<close>

fun run_above :: "char list list \<Rightarrow> nat \<Rightarrow> nat \<Rightarrow> nat" where
  "run_above matrix j 0 = 0"
| "run_above matrix j (Suc i) = (if matrix ! i ! j = CHR ''1'' then Suc (run_above matrix j i) else 0)"

lemma run_above_iff:
  "h \<le> run_above matrix j n \<longleftrightarrow> h \<le> n \<and> (\<forall>k. n - h \<le> k \<and> k < n \<longrightarrow> matrix ! k ! j = CHR ''1'')"
proof (induction n arbitrary: h)
  case (Suc n)
  show ?case
  proof (cases h)
    case (Suc h')
    have "(\<forall>k. n - h' \<le> k \<and> k < Suc n \<longrightarrow> Q k) \<longleftrightarrow> Q n \<and> (\<forall>k. n - h' \<le> k \<and> k < n \<longrightarrow> Q k)" for Q
      unfolding less_Suc_eq using diff_le_self by blast
    then show ?thesis using Suc.IH [of h'] Suc by auto
  qed auto
qed simp

lemma run_above_le: "run_above matrix j n \<le> n"
  using run_above_iff by blast

definition is_grid :: "'a list list \<Rightarrow> nat \<Rightarrow> nat \<Rightarrow> bool" where
  "is_grid H rows cols \<longleftrightarrow> length H = rows \<and> (\<forall>r \<in> set H. length r = cols)"

lemma column_loop:
  assumes "is_grid H rows cols" "j < cols" "n \<le> rows"
  shows "case foldl (column_step matrix j) (0, H) [0..<n] of (h, H') \<Rightarrow>
    h = int (run_above matrix j n) \<and> is_grid H' rows cols \<and>
    (\<forall>i < rows. \<forall>j' < cols. H' ! i ! j' = (if j' = j \<and> i < n then int (run_above matrix j (Suc i)) else H ! i ! j'))"
  using assms(3)
proof (induction n)
  case (Suc n)
  obtain h H' where st: "foldl (column_step matrix j) (0, H) [0..<n] = (h, H')" by (rule prod.exhaust)
  then have IH: "h = int (run_above matrix j n)" "is_grid H' rows cols"
    "\<forall>i < rows. \<forall>j' < cols. H' ! i ! j' = (if j' = j \<and> i < n then int (run_above matrix j (Suc i)) else H ! i ! j')"
    using Suc by auto
  have len: "length (H' ! n) = cols" "length H' = rows" using IH(2) Suc.prems by (auto simp: is_grid_def)
  have "is_grid (H'[n := (H' ! n)[j := x]]) rows cols" for x
    using IH(2) len by (auto simp: is_grid_def dest!: set_update_subset_insert [THEN subsetD])
  moreover define h' where "h' = int (run_above matrix j (Suc n))"
  moreover have "foldl (column_step matrix j) (0, H) [0..<Suc n] = (h', H'[n := (H' ! n)[j := h']])"
    by (simp add: st column_step_def Let_def h'_def IH(1) add.commute)
  moreover have "H'[n := (H' ! n)[j := h']] ! i ! j' = (if j' = j \<and> i < Suc n then int (run_above matrix j (Suc i)) else H ! i ! j')"
    if "i < rows" "j' < cols" for i j'
    using IH(3) that len Suc.prems assms(2) h'_def
    by (auto simp: nth_list_update less_Suc_eq simp del: run_above.simps)
  ultimately show ?case by simp
qed (use assms(1) in simp)

lemma cumulative_ones_at:
  assumes "i < rows" "j < cols"
  shows "cumulative_ones matrix rows cols ! i ! j = int (run_above matrix j (Suc i))"
    "length (cumulative_ones matrix rows cols ! i) = cols"
proof -
  define F where "F n = foldl (\<lambda>heights j. snd (foldl (column_step matrix j) (0, heights) [0..<rows]))
       (replicate rows (replicate cols 0)) [0..<n]" for n
  have "is_grid (F n) rows cols \<and> (\<forall>i < rows. \<forall>j < n. F n ! i ! j = int (run_above matrix j (Suc i)))" if "n \<le> cols" for n
    using that
  proof (induction n)
    case (Suc n)
    then have "is_grid (F n) rows cols" by simp
    note L = column_loop [OF this, of n rows matrix]
    have "F (Suc n) = snd (foldl (column_step matrix n) (0, F n) [0..<rows])" by (simp add: F_def)
    then show ?case using L Suc by (auto simp: less_Suc_eq split: prod.splits simp del: run_above.simps)
  qed (auto simp: F_def is_grid_def)
  from this [of cols] show "cumulative_ones matrix rows cols ! i ! j = int (run_above matrix j (Suc i))"
    "length (cumulative_ones matrix rows cols ! i) = cols"
    using assms by (auto simp: F_def cumulative_ones_def is_grid_def simp del: run_above.simps)
qed

lemma row_scan:
  assumes "\<forall>r < rows. (\<forall>h \<in> set (H ! r). 0 \<le> h \<and> h * int (length (H ! r)) < 2147483648)" "q \<le> rows"
  defines "R \<equiv> foldl (\<lambda>m r. bar_areas (H ! r) (computePrevLess (H ! r) (\<le>)) (computeNextLess (H ! r) (\<le>)) m) 0 [0..<q]"
  shows "0 \<le> R \<and> (\<forall>r l c. r < q \<longrightarrow> l \<le> c \<longrightarrow> c < length (H ! r) \<longrightarrow> span_area (H ! r) l c \<le> R) \<and>
    (R = 0 \<or> (\<exists>r l c. r < q \<and> l \<le> c \<and> c < length (H ! r) \<and> R = span_area (H ! r) l c))"
  using assms(2) unfolding R_def
proof (induction q)
  case (Suc q)
  define m where "m = foldl (\<lambda>m r. bar_areas (H ! r) (computePrevLess (H ! r) (\<le>)) (computeNextLess (H ! r) (\<le>)) m) 0 [0..<q]"
  have "\<forall>h \<in> set (H ! q). 0 \<le> h \<and> h * int (length (H ! q)) < 2147483648"
    using assms(1) Suc_le_lessD [OF Suc.prems] by blast
  note B = bar_areas_largest [OF this, where m = m]
  have IH: "0 \<le> m" "\<And>r l c. r < q \<Longrightarrow> l \<le> c \<Longrightarrow> c < length (H ! r) \<Longrightarrow> span_area (H ! r) l c \<le> m"
    "m = 0 \<or> (\<exists>r l c. r < q \<and> l \<le> c \<and> c < length (H ! r) \<and> m = span_area (H ! r) l c)"
    using Suc unfolding m_def by auto
  define R' where "R' = bar_areas (H ! q) (computePrevLess (H ! q) (\<le>)) (computeNextLess (H ! q) (\<le>)) m"
  have "R' = 0 \<or> (\<exists>r l c. r < Suc q \<and> l \<le> c \<and> c < length (H ! r) \<and> R' = span_area (H ! r) l c)"
    using B(3) IH(3) unfolding R'_def [symmetric] by (metis less_Suc_eq)
  moreover have "span_area (H ! r) l c \<le> R'" if "r < Suc q" "l \<le> c" "c < length (H ! r)" for r l c
  proof (cases "r = q")
    case False
    then have "span_area (H ! r) l c \<le> m" using IH(2) that by simp
    also have "m \<le> R'" using B(1) by (simp add: R'_def)
    finally show ?thesis .
  qed (use B(2) that in \<open>simp add: R'_def\<close>)
  moreover have "0 \<le> R'" using B(1) IH(1) by (simp add: R'_def)
  ultimately show ?case by (simp add: m_def [symmetric] R'_def [symmetric])
qed simp

text \<open>The bars that stand on a row, and the rectangles of ones that end at it.\<close>

definition bars :: "string list \<Rightarrow> nat \<Rightarrow> nat \<Rightarrow> int list" where
  "bars matrix cols b = map (\<lambda>j. int (run_above matrix j (Suc b))) [0..<cols]"

definition all_ones :: "string list \<Rightarrow> nat \<Rightarrow> nat \<Rightarrow> nat \<Rightarrow> nat \<Rightarrow> bool" where
  "all_ones matrix t b l r \<longleftrightarrow> (\<forall>i \<in> {t..b}. \<forall>j \<in> {l..r}. matrix ! i ! j = CHR ''1'')"

lemma bars_at: "length (bars matrix cols b) = cols" "j < cols \<Longrightarrow> bars matrix cols b ! j = int (run_above matrix j (Suc b))"
  by (simp_all add: bars_def del: run_above.simps)

lemma cumulative_ones_bars:
  assumes "i < rows" "0 < cols"
  shows "cumulative_ones matrix rows cols ! i = bars matrix cols i"
  using cumulative_ones_at [OF assms(1)] assms(2) by (intro nth_equalityI) (simp_all add: bars_at del: run_above.simps)

lemma bars_range:
  assumes "rows * cols < 2147483648" "b < rows" "h \<in> set (bars matrix cols b)"
  shows "0 \<le> h \<and> h * int cols < 2147483648"
proof -
  have "int rows * int cols < 2147483648" using assms(1) unfolding of_nat_mult [symmetric] by linarith
  moreover obtain j where "h = int (run_above matrix j (Suc b))" using assms(3) by (auto simp: bars_def)
  then have "0 \<le> h" "h \<le> int rows" using run_above_le [of matrix j "Suc b"] assms(2) by auto
  ultimately show ?thesis using mult_right_mono [of h "int rows" "int cols"] by linarith
qed

lemma rectangle_le_span:
  assumes "t \<le> b" "l \<le> r" "r < cols" "all_ones matrix t b l r"
  shows "int ((Suc b - t) * (Suc r - l)) \<le> span_area (bars matrix cols b) l r"
proof -
  have "int (Suc b - t) \<le> bars matrix cols b ! j" if "j \<in> {l..r}" for j
  proof -
    have "Suc b - t \<le> run_above matrix j (Suc b)" unfolding run_above_iff using assms that by (auto simp: all_ones_def)
    then show ?thesis using bars_at(2) [of j cols matrix b] assms(3) that by simp
  qed
  then have "int (Suc b - t) \<le> Min ((!) (bars matrix cols b) ` {l..r})" using assms(2) by (intro Min.boundedI) auto
  then show ?thesis
    unfolding span_area_def by (simp add: mult.commute [of "int (Suc r - l)"] mult_right_mono del: of_nat_Suc of_nat_diff)
qed

lemma span_rectangle:
  assumes "l \<le> r" "r < cols" "span_area (bars matrix cols b) l r \<noteq> 0"
  obtains t where "t \<le> b" "all_ones matrix t b l r" "span_area (bars matrix cols b) l r = int ((Suc b - t) * (Suc r - l))"
proof -
  let ?B = "(!) (bars matrix cols b) ` {l..r}"
  define h where "h = nat (Min ?B)"
  have "Min ?B \<in> ?B" using assms(1) by (intro Min_in) auto
  then have "0 \<le> Min ?B" using bars_at(2) assms(2) by auto
  then have h: "int h = Min ?B" by (simp add: h_def)
  have hk: "h \<le> run_above matrix j (Suc b)" if "j \<in> {l..r}" for j
  proof -
    have "int h \<le> bars matrix cols b ! j" unfolding h using that by (intro Min_le) auto
    then show ?thesis using bars_at(2) [of j cols matrix b] assms(2) that by simp
  qed
  have area: "span_area (bars matrix cols b) l r = int (Suc r - l) * int h" by (simp add: span_area_def h)
  then have "0 < h" using assms(3) by (cases h) auto
  define t where "t = Suc b - h"
  have th: "t \<le> b" "Suc b - t = h" using \<open>0 < h\<close> hk [of l] run_above_le [of matrix l "Suc b"] assms(1) by (auto simp: t_def)
  have "all_ones matrix t b l r"
    unfolding all_ones_def using hk unfolding run_above_iff t_def by auto
  then show thesis using th area by (intro that [of t]) (simp_all add: mult.commute del: of_nat_Suc of_nat_diff)
qed

text \<open>C14: \<open>maximalRectangle\<close> is the largest area of a rectangle of \<open>'1'\<close>s in the matrix, 0 if there is none.\<close>

theorem maximalRectangle_correct:
  assumes "length matrix = rows" "\<forall>r \<in> set matrix. length r = cols" "rows * cols < 2147483648"
  shows "maximalRectangle matrix =
    Max (insert 0 ((\<lambda>(t, b, l, r). int ((Suc b - t) * (Suc r - l))) `
      {(t, b, l, r). t \<le> b \<and> b < rows \<and> l \<le> r \<and> r < cols \<and>
         (\<forall>i \<in> {t..b}. \<forall>j \<in> {l..r}. matrix ! i ! j = CHR ''1'')}))"
    (is "_ = Max (insert 0 (?area ` ?Q))")
proof (cases "matrix = [] \<or> hd matrix = []")
  case True
  then have "rows = 0 \<or> cols = 0" using assms(1,2) by (cases matrix) auto
  then have "?Q = {}" by auto
  then have "Max (insert 0 (?area ` ?Q)) = 0" by (simp only: image_empty Max_singleton)
  then show ?thesis using True unfolding maximalRectangle_def by (simp only: if_True)
next
  case False
  let ?H = "cumulative_ones matrix rows cols"
  have hd: "length (hd matrix) = cols" using False assms(2) by (cases matrix) auto
  then have pos: "0 < cols" using False by (cases "hd matrix") auto
  note row = cumulative_ones_bars [OF _ pos, where matrix = matrix and rows = rows]
  have range: "\<forall>r < rows. \<forall>h \<in> set (?H ! r). 0 \<le> h \<and> h * int (length (?H ! r)) < 2147483648"
    using bars_range [OF assms(3)] row bars_at(1) by simp
  define R where "R = maximalRectangle matrix"
  have R: "R = foldl (\<lambda>m r. bar_areas (?H ! r) (computePrevLess (?H ! r) (\<le>)) (computeNextLess (?H ! r) (\<le>)) m) 0 [0..<rows]"
    using False by (simp add: R_def maximalRectangle_def Let_def hd assms(1))
  note S = row_scan [OF range order_refl, folded R]
  have upper: "?area (t, b, l, r) \<le> R" if "(t, b, l, r) \<in> ?Q" for t b l r
  proof -
    have "?area (t, b, l, r) \<le> span_area (?H ! b) l r"
      using that rectangle_le_span [of t b l r cols matrix] by (simp add: row all_ones_def)
    also have "\<dots> \<le> R" using S that by (simp add: row bars_at(1))
    finally show ?thesis .
  qed
  have attained: "R \<in> insert 0 (?area ` ?Q)"
  proof (cases "R = 0")
    case False
    then obtain b l r where r: "b < rows" "l \<le> r" "r < cols" "R = span_area (bars matrix cols b) l r"
      using S by (auto simp: row bars_at(1))
    then obtain t where "t \<le> b" "all_ones matrix t b l r" "R = ?area (t, b, l, r)"
      using span_rectangle [of l r cols matrix b] False by auto
    then have "(t, b, l, r) \<in> ?Q" "R = ?area (t, b, l, r)" using r by (auto simp: all_ones_def)
    then have "R \<in> ?area ` ?Q" by (rule rev_image_eqI)
    then show ?thesis by (rule insertI2)
  qed simp
  have "finite ?Q" by (rule finite_subset [of _ "{..rows} \<times> {..rows} \<times> {..cols} \<times> {..cols}"]) auto
  then have fin: "finite (insert 0 (?area ` ?Q))" by (intro finite.insertI finite_imageI)
  have "y \<le> R" if "y \<in> insert 0 (?area ` ?Q)" for y
    using that S upper by (elim insertE imageE) (auto simp only: split_paired_all)
  then show ?thesis unfolding R_def [symmetric] by (rule Max_eqI [OF fin _ attained, symmetric])
qed

theorem maximalRectangle_witness:
  "maximalRectangle [''10100'', ''10111'', ''11111'', ''10010''] =
    Max (insert 0 ((\<lambda>(t, b, l, r). int ((Suc b - t) * (Suc r - l))) `
      {(t, b, l, r). t \<le> b \<and> b < 4 \<and> l \<le> r \<and> r < 5 \<and>
         (\<forall>i \<in> {t..b}. \<forall>j \<in> {l..r}. [''10100'', ''10111'', ''11111'', ''10010''] ! i ! j = CHR ''1'')}))"
  by (rule maximalRectangle_correct) simp_all

lemma maximalRectangle_example: "maximalRectangle [''10100'', ''10111'', ''11111'', ''10010''] = 6"
  by code_simp
subsection \<open>The sum of the minima of all blocks\<close>

text \<open>
  The two distances are \<open>size_t\<close>, so the product is unsigned with 64 bits and so is the sum before it is
  stored in a \<open>long long\<close>.
\<close>

definition mins_step :: "int list \<Rightarrow> int list \<Rightarrow> int list \<Rightarrow> int \<Rightarrow> nat \<Rightarrow> int" where
  "mins_step A prev_less_pos next_less_pos s i =
     i64 ((s + (int i - prev_less_pos ! i) * (next_less_pos ! i - int i) * (A ! i)) mod 2 ^ 64) smod 1000000007"

definition sumSubarrayMins :: "int list \<Rightarrow> int" where
  "sumSubarrayMins A = (
     let prev_less_pos = computePrevLess A (<);
         next_less_pos = computeNextLess A (\<le>)
     in foldl (mins_step A prev_less_pos next_less_pos) 0 [0..<length A])"

lemma mins_loop:
  assumes "\<forall>i \<in> set is. 0 \<le> (int i - p ! i) * (q ! i - int i) * (A ! i)
      \<and> (int i - p ! i) * (q ! i - int i) * (A ! i) < 4611686018427387904"
    and "0 \<le> s" "s < 1000000007"
  shows "foldl (mins_step A p q) s is = (s + (\<Sum>i \<leftarrow> is. (int i - p ! i) * (q ! i - int i) * (A ! i))) mod 1000000007"
  using assms
proof (induction "is" arbitrary: s)
  case (Cons i "is")
  define t where "t = (int i - p ! i) * (q ! i - int i) * (A ! i)"
  have t: "0 \<le> t" "t < 4611686018427387904" using Cons.prems(1) by (auto simp: t_def)
  then have "(s + t) mod 2 ^ 64 = s + t" using Cons.prems(2,3) by (intro mod_pos_pos_trivial) auto
  then have step: "mins_step A p q s i = (s + t) mod 1000000007"
    using t Cons.prems(2,3) by (simp add: mins_step_def t_def [symmetric])
  have "foldl (mins_step A p q) ((s + t) mod 1000000007) is
      = ((s + t) mod 1000000007 + (\<Sum>i \<leftarrow> is. (int i - p ! i) * (q ! i - int i) * (A ! i))) mod 1000000007"
    using Cons.prems by (intro Cons.IH) auto
  then show ?case by (simp add: step t_def [symmetric] mod_add_left_eq add.assoc)
qed simp

text \<open>The first position of the minimum of a block.\<close>

definition first_min :: "int list \<Rightarrow> nat \<times> nat \<Rightarrow> nat" where
  "first_min A b = (case b of (l, r) \<Rightarrow> LEAST i. l \<le> i \<and> i \<le> r \<and> A ! i = Min ((!) A ` {l..r}))"

lemma first_min_iff:
  assumes "l \<le> r"
  shows "first_min A (l, r) = i \<longleftrightarrow> l \<le> i \<and> i \<le> r \<and> (\<forall>k. l \<le> k \<and> k < i \<longrightarrow> A ! i < A ! k) \<and> (\<forall>k. i < k \<and> k \<le> r \<longrightarrow> A ! i \<le> A ! k)"
    (is "_ \<longleftrightarrow> ?P i")
proof -
  let ?M = "Min ((!) A ` {l..r})"
  have "?M \<in> (!) A ` {l..r}" using assms by (intro Min_in) auto
  then obtain m where m: "l \<le> m \<and> m \<le> r \<and> A ! m = ?M" by auto
  define f where "f = first_min A (l, r)"
  have f: "l \<le> f \<and> f \<le> r \<and> A ! f = ?M" unfolding f_def first_min_def prod.case
    using m by (rule LeastI [where P = "\<lambda>i. l \<le> i \<and> i \<le> r \<and> A ! i = ?M"])
  have min: "?M \<le> A ! k" if "l \<le> k" "k \<le> r" for k using that by (intro Min_le) auto
  have least: "f \<le> k" if "l \<le> k" "k \<le> r" "A ! k = ?M" for k
    unfolding f_def first_min_def prod.case using that by (intro Least_le) simp
  have "A ! f < A ! k" if "l \<le> k" "k < f" for k
  proof -
    have k: "k \<le> r" using f that(2) by simp
    then have "A ! k \<noteq> ?M" using least [of k] that by auto
    then show ?thesis using min [OF that(1) k] f by simp
  qed
  then have "?P f" using f min by auto
  moreover have "i = f" if "?P i"
  proof (cases i f rule: linorder_cases)
    case less
    then show ?thesis using that \<open>?P f\<close> by (meson leD less_imp_le)
  next
    case greater
    then show ?thesis using that \<open>?P f\<close> by (meson leD less_imp_le)
  qed simp
  ultimately show ?thesis unfolding f_def [symmetric] by auto
qed

lemma first_min_spans:
  assumes "i < length A"
  defines "p \<equiv> computePrevLess A (<) ! i" and "q \<equiv> computeNextLess A (\<le>) ! i"
  shows "{b \<in> {(l, r). l \<le> r \<and> r < length A}. first_min A b = i} = {nat (p + 1)..i} \<times> {i..<nat q}"
proof -
  note P = prev_less_bounds [OF transp_cmp(2) assms(1), folded p_def] and Q = next_less_bounds [OF transp_cmp(1) assms(1), folded q_def]
  have eq: "(l \<le> r \<and> r < length A) \<and> first_min A (l, r) = i \<longleftrightarrow> p < int l \<and> l \<le> i \<and> i \<le> r \<and> int r < q" for l r
  proof
    assume L: "(l \<le> r \<and> r < length A) \<and> first_min A (l, r) = i"
    then have F: "l \<le> i" "i \<le> r" "\<And>k. l \<le> k \<Longrightarrow> k < i \<Longrightarrow> A ! i < A ! k" "\<And>k. i < k \<Longrightarrow> k \<le> r \<Longrightarrow> A ! i \<le> A ! k"
      using first_min_iff [of l r A i] by auto
    have "p < int l"
    proof (rule ccontr)
      assume "\<not> p < int l"
      then have "0 \<le> p" "l \<le> nat p" "nat p < i" using P(2) by auto
      then show False using P(4) F(3) [of "nat p"] by simp
    qed
    moreover have "int r < q"
    proof (rule ccontr)
      assume "\<not> int r < q"
      then have "q < int (length A)" "nat q \<le> r" "i < nat q" using L Q(1) by auto
      then show False using Q(4) F(4) [of "nat q"] by simp
    qed
    ultimately show "p < int l \<and> l \<le> i \<and> i \<le> r \<and> int r < q" using F by simp
  next
    assume R: "p < int l \<and> l \<le> i \<and> i \<le> r \<and> int r < q"
    then have "\<forall>k. l \<le> k \<and> k < i \<longrightarrow> A ! i < A ! k" "\<forall>k. i < k \<and> k \<le> r \<longrightarrow> A ! i \<le> A ! k"
      using P(3) Q(3) by auto
    then show "(l \<le> r \<and> r < length A) \<and> first_min A (l, r) = i" using R Q(2) first_min_iff [of l r A i] by auto
  qed
  have "b \<in> {b \<in> {(l, r). l \<le> r \<and> r < length A}. first_min A b = i} \<longleftrightarrow> b \<in> {nat (p + 1)..i} \<times> {i..<nat q}" for b
  proof (cases b)
    case (Pair l r)
    have "p < int l \<longleftrightarrow> nat (p + 1) \<le> l" "int r < q \<longleftrightarrow> r < nat q" by linarith+
    then show ?thesis using eq [of l r] Pair by simp
  qed
  then show ?thesis by (rule set_eqI)
qed

lemma sum_block_minima:
  "(\<Sum>(l, r) \<in> {(l, r). l \<le> r \<and> r < length A}. Min ((!) A ` {l..r})) =
   (\<Sum>i < length A. (int i - computePrevLess A (<) ! i) * (computeNextLess A (\<le>) ! i - int i) * (A ! i))"
proof -
  let ?S = "{(l, r). l \<le> r \<and> r < length A}"
  have val: "(case b of (l, r) \<Rightarrow> Min ((!) A ` {l..r})) = A ! first_min A b" if "b \<in> ?S" for b
  proof -
    obtain l r where b: "b = (l, r)" "l \<le> r" using \<open>b \<in> ?S\<close> by auto
    define f where "f = first_min A (l, r)"
    have f: "l \<le> f" "f \<le> r" "\<And>k. l \<le> k \<Longrightarrow> k < f \<Longrightarrow> A ! f < A ! k" "\<And>k. f < k \<Longrightarrow> k \<le> r \<Longrightarrow> A ! f \<le> A ! k"
      using first_min_iff [OF b(2), of A f] f_def by auto
    have "A ! f \<le> A ! k" if "l \<le> k" "k \<le> r" for k
      using f(3) [of k] f(4) [of k] that by (cases k f rule: linorder_cases) auto
    then have "Min ((!) A ` {l..r}) = A ! f" using f(1,2) by (intro Min_eqI) auto
    then show ?thesis using b by (simp add: f_def)
  qed
  have rng: "first_min A ` ?S \<subseteq> {..<length A}"
  proof
    fix i
    assume "i \<in> first_min A ` ?S"
    then obtain l r where b: "i = first_min A (l, r)" "l \<le> r" "r < length A" by auto
    then show "i \<in> {..<length A}" using first_min_iff [OF b(2), of A i] by simp
  qed
  have "(\<Sum>b \<in> ?S. case b of (l, r) \<Rightarrow> Min ((!) A ` {l..r})) = (\<Sum>b \<in> ?S. A ! first_min A b)"
    by (rule sum.cong) (simp_all only: val)
  also have "\<dots> = (\<Sum>i < length A. \<Sum>b \<in> {b \<in> ?S. first_min A b = i}. A ! first_min A b)"
    by (rule sum.group [OF finite_spans _ rng, symmetric]) simp
  also have "\<dots> = (\<Sum>i < length A. (int i - computePrevLess A (<) ! i) * (computeNextLess A (\<le>) ! i - int i) * (A ! i))"
  proof (rule sum.cong)
    fix i
    assume "i \<in> {..<length A}"
    then have i: "i < length A" by simp
    let ?p = "computePrevLess A (<) ! i" and ?q = "computeNextLess A (\<le>) ! i"
    have "(\<Sum>b \<in> {b \<in> ?S. first_min A b = i}. A ! first_min A b) = int (card ({nat (?p + 1)..i} \<times> {i..<nat ?q})) * A ! i"
      unfolding first_min_spans [OF i, symmetric] by simp
    moreover have "int (card ({nat (?p + 1)..i} \<times> {i..<nat ?q})) = (int i - ?p) * (?q - int i)"
      using prev_less_bounds(1,2) [OF transp_cmp(2) i] next_less_bounds(1,2) [OF transp_cmp(1) i]
      by (simp add: of_nat_diff)
    ultimately show "(\<Sum>b \<in> {b \<in> ?S. first_min A b = i}. A ! first_min A b) = (int i - ?p) * (?q - int i) * A ! i" by simp
  qed simp
  finally show ?thesis .
qed

text \<open>\<open>sumSubarrayMins\<close> is the sum of the minima of all non-empty blocks, modulo \<open>10^9 + 7\<close>; the products
  stay inside 64 bits.\<close>

theorem sumSubarrayMins_correct:
  assumes "\<forall>a \<in> set A. 0 \<le> a \<and> a < 2147483648" "length A \<le> 32768"
  shows "sumSubarrayMins A = (\<Sum>(l, r) \<in> {(l, r). l \<le> r \<and> r < length A}. Min ((!) A ` {l..r})) mod 1000000007"
proof -
  let ?p = "computePrevLess A (<)" and ?q = "computeNextLess A (\<le>)"
  have "0 \<le> (int i - ?p ! i) * (?q ! i - int i) * (A ! i) \<and> (int i - ?p ! i) * (?q ! i - int i) * (A ! i) < 4611686018427387904"
    if "i < length A" for i
  proof -
    have a: "0 \<le> A ! i" "A ! i \<le> 2147483648" using assms(1) nth_mem [OF that] by fastforce+
    have d: "0 \<le> int i - ?p ! i" "int i - ?p ! i \<le> 32768" "0 \<le> ?q ! i - int i" "?q ! i - int i \<le> 32768"
      using prev_less_bounds(1,2) [OF transp_cmp(2) that] next_less_bounds(1,2) [OF transp_cmp(1) that] that assms(2) by linarith+
    have "(int i - ?p ! i) * (?q ! i - int i) * (A ! i) \<le> 32768 * 32768 * 2147483648"
      using a d by (intro mult_mono mult_nonneg_nonneg) auto
    moreover have "0 \<le> (int i - ?p ! i) * (?q ! i - int i) * (A ! i)" using a d by (intro mult_nonneg_nonneg) auto
    ultimately show ?thesis by simp
  qed
  then have "\<forall>i \<in> set [0..<length A]. 0 \<le> (int i - ?p ! i) * (?q ! i - int i) * (A ! i)
      \<and> (int i - ?p ! i) * (?q ! i - int i) * (A ! i) < 4611686018427387904" by simp
  from mins_loop [OF this, of 0] show ?thesis
    by (simp add: sumSubarrayMins_def Let_def sum_block_minima interv_sum_list_conv_sum_set_nat atLeast0LessThan)
qed

theorem sumSubarrayMins_witness:
  "sumSubarrayMins [3, 1, 2, 4] = (\<Sum>(l, r) \<in> {(l, r). l \<le> r \<and> r < length [3, 1, 2, 4 :: int]}. Min ((!) [3, 1, 2, 4 :: int] ` {l..r})) mod 1000000007"
  by (rule sumSubarrayMins_correct) simp_all

subsection \<open>The next greater element of a circular array\<close>

text \<open>\<open>computePrevQueue\<close> pushes and reads at the back but searches from the front, so the queue has its front at the head.\<close>

definition prev_queue_step :: "int list \<Rightarrow> (int \<Rightarrow> int \<Rightarrow> bool) \<Rightarrow> nat list \<times> int list \<Rightarrow> nat \<Rightarrow> nat list \<times> int list" where
  "prev_queue_step arr cmp st i = (case st of (plp, prev_pos) \<Rightarrow>
     if plp = [] \<or> cmp (arr ! i) (arr ! List.last plp) then (plp @ [i], prev_pos)
     else (case List.find (\<lambda>p. arr ! i < arr ! p) plp of
         None \<Rightarrow> (plp, prev_pos)
       | Some g \<Rightarrow> (plp, prev_pos[i := int g])))"

definition computePrevQueue :: "int list \<Rightarrow> (int \<Rightarrow> int \<Rightarrow> bool) \<Rightarrow> int list" where
  "computePrevQueue arr cmp =
     snd (foldl (prev_queue_step arr cmp) ([0], replicate (length arr) (- 1)) [1..<length arr])"

definition nextGreaterElementsII :: "int list \<Rightarrow> int list" where
  "nextGreaterElementsII nums = (
     let next_greater_pos = computeNextLess nums (\<ge>);
         prev_greater_pos = computePrevQueue nums (>)
     in foldl (\<lambda>ans i.
          if next_greater_pos ! i \<noteq> int (length nums) then ans[i := nums ! nat (next_greater_pos ! i)]
          else if prev_greater_pos ! i \<noteq> - 1 then ans[i := nums ! nat (prev_greater_pos ! i)]
          else ans) (replicate (length nums) (- 1)) [0..<length nums])"

lemma find_append: "List.find P (xs @ ys) = (case List.find P xs of None \<Rightarrow> List.find P ys | Some x \<Rightarrow> Some x)"
  by (induction xs) auto

lemma find_mapped: "List.find P (map f xs) = map_option f (List.find (\<lambda>x. P (f x)) xs)"
  by (induction xs) auto

lemma prev_queue_loop:
  assumes "1 \<le> n" "n \<le> length arr"
  shows "case foldl (prev_queue_step arr (>)) ([0], replicate (length arr) (- 1)) [1..<n] of (plp, pos) \<Rightarrow>
    plp \<noteq> [] \<and> (\<forall>p \<in> set plp. arr ! p \<le> arr ! List.last plp) \<and>
    (\<forall>x. List.find (\<lambda>p. x < arr ! p) plp = List.find (\<lambda>p. x < arr ! p) [0..<n]) \<and>
    length pos = length arr \<and>
    (\<forall>i < length arr. pos ! i = (if i < n then case List.find (\<lambda>p. arr ! i < arr ! p) [0..<i] of None \<Rightarrow> - 1 | Some g \<Rightarrow> int g else - 1))"
  using assms
proof (induction n rule: nat_induct_at_least)
  case base
  then show ?case by auto
next
  case (Suc n)
  obtain plp pos where st: "foldl (prev_queue_step arr (>)) ([0], replicate (length arr) (- 1)) [1..<n] = (plp, pos)"
    by (rule prod.exhaust)
  then have IH: "plp \<noteq> []" "\<forall>p \<in> set plp. arr ! p \<le> arr ! List.last plp"
    "\<And>x. List.find (\<lambda>p. x < arr ! p) plp = List.find (\<lambda>p. x < arr ! p) [0..<n]" "length pos = length arr"
    "\<forall>i < length arr. pos ! i = (if i < n then case List.find (\<lambda>p. arr ! i < arr ! p) [0..<i] of None \<Rightarrow> - 1 | Some g \<Rightarrow> int g else - 1)"
    using Suc by auto
  have step: "foldl (prev_queue_step arr (>)) ([0], replicate (length arr) (- 1)) [1..<Suc n] = prev_queue_step arr (>) (plp, pos) n"
    using Suc.hyps st by simp
  show ?case
  proof (cases "arr ! List.last plp < arr ! n")
    case True
    then have "List.find (\<lambda>p. arr ! n < arr ! p) plp = None" using IH(2) by (auto simp: find_None_iff)
    then have none: "List.find (\<lambda>p. arr ! n < arr ! p) [0..<n] = None" using IH(3) by simp
    have "\<forall>p \<in> set plp. arr ! p \<le> arr ! n" using IH(2) True by auto
    then show ?thesis unfolding step using IH(3-) True none
      by (auto simp: prev_queue_step_def find_append less_Suc_eq)
  next
    case False
    have "List.find (\<lambda>p. x < arr ! p) [0..<Suc n] = List.find (\<lambda>p. x < arr ! p) plp" for x
    proof (cases "List.find (\<lambda>p. x < arr ! p) plp")
      case None
      then have "\<not> x < arr ! List.last plp" using IH(1) by (auto simp: find_None_iff)
      then show ?thesis using None IH(3) [of x] False by (simp add: find_append)
    qed (use IH(3) [of x] in \<open>simp add: find_append\<close>)
    then show ?thesis unfolding step using IH False Suc.prems
      by (auto simp: prev_queue_step_def less_Suc_eq nth_list_update simp del: upt_Suc split: option.split)
  qed
qed

lemma next_greater_circular:
  "nextGreaterElementsII nums = map (\<lambda>i.
     case List.find (\<lambda>x. nums ! i < x) (drop (Suc i) nums @ take i nums) of None \<Rightarrow> - 1 | Some x \<Rightarrow> x) [0..<length nums]"
proof -
  let ?n = "length nums" and ?q = "computeNextLess nums (\<ge>)" and ?p = "computePrevQueue nums (>)"
  define v where "v i = (if ?q ! i \<noteq> int ?n then Some (nums ! nat (?q ! i)) else if ?p ! i \<noteq> - 1 then Some (nums ! nat (?p ! i)) else None)" for i
  have body: "(\<lambda>ans i. if ?q ! i \<noteq> int ?n then ans[i := nums ! nat (?q ! i)]
          else if ?p ! i \<noteq> - 1 then ans[i := nums ! nat (?p ! i)] else ans) =
       (\<lambda>ans i. case v i of None \<Rightarrow> ans | Some x \<Rightarrow> ans[i := x])"
    by (auto simp: v_def fun_eq_iff)
  have loop: "n \<le> ?n \<Longrightarrow> foldl (\<lambda>ans i. case v i of None \<Rightarrow> ans | Some x \<Rightarrow> ans[i := x]) (replicate ?n (- 1)) [0..<n]
      = map (\<lambda>i. case v i of None \<Rightarrow> - 1 | Some x \<Rightarrow> x) [0..<n] @ replicate (?n - n) (- 1)" for n
  proof (induction n)
    case (Suc n)
    have "replicate (?n - n) (- 1 :: int) = - 1 # replicate (?n - Suc n) (- 1)" using Suc.prems by (simp add: replicate_Suc [symmetric] Suc_diff_Suc del: replicate_Suc)
    then show ?case using Suc by (auto simp: list_update_append split: option.split)
  qed simp
  have v: "v i = List.find (\<lambda>x. nums ! i < x) (drop (Suc i) nums @ take i nums)" if i: "i < ?n" for i
  proof -
    have q: "?q ! i = (case List.find (\<lambda>j. nums ! i < nums ! j) [Suc i..<?n] of None \<Rightarrow> int ?n | Some j \<Rightarrow> int j)"
      using next_less_at [OF transp_cmp(3) i] by (simp add: nearest_def not_le)
    have p: "?p ! i = (case List.find (\<lambda>j. nums ! i < nums ! j) [0..<i] of None \<Rightarrow> - 1 | Some j \<Rightarrow> int j)"
      using prev_queue_loop [of ?n nums] i by (auto simp: computePrevQueue_def split: prod.splits)
    have map: "drop (Suc i) nums = map ((!) nums) [Suc i..<?n]" "take i nums = map ((!) nums) [0..<i]"
      using i by (auto intro: nth_equalityI)
    have "j < ?n" if "List.find (\<lambda>j. nums ! i < nums ! j) [Suc i..<?n] = Some j" for j
      using that by (auto simp: find_Some_iff)
    then show ?thesis unfolding v_def q p map find_append find_mapped
      by (auto split: option.split simp del: upt_Suc)
  qed
  show ?thesis using loop [of ?n] by (simp add: nextGreaterElementsII_def Let_def body v cong: map_cong)
qed

text \<open>\<open>nextGreaterElementsII\<close> gives for every position the first greater element that follows when the
  array is read as a circle, and \<open>-1\<close> if there is none.\<close>

theorem nextGreaterElementsII_correct:
  "nextGreaterElementsII nums = map (\<lambda>i.
     case List.find (\<lambda>x. nums ! i < x) (drop (Suc i) nums @ take i nums) of None \<Rightarrow> - 1 | Some x \<Rightarrow> x) [0..<length nums]"
  by (rule next_greater_circular)
subsection \<open>The widest ramp\<close>

text \<open>The back of the deque is the head of the list, so \<open>rbegin\<close> to \<open>rend\<close> is the list from its head.\<close>

definition record_step :: "int list \<Rightarrow> nat list \<Rightarrow> nat \<Rightarrow> nat list" where
  "record_step A decreasing i = (if A ! i < A ! hd decreasing then i # decreasing else decreasing)"

definition nlogn_step :: "int list \<Rightarrow> nat list \<times> int \<Rightarrow> nat \<Rightarrow> nat list \<times> int" where
  "nlogn_step A st i = (case st of (decreasing, max_ramp) \<Rightarrow>
     if A ! i < A ! hd decreasing then (i # decreasing, max_ramp)
     else let found = length (takeWhile (\<lambda>idx. \<not> A ! i < A ! idx) decreasing)
          in if found = length decreasing then (decreasing, max max_ramp (int i))
             else (decreasing, max max_ramp (int i - int (decreasing ! (found - 1)))))"

definition maxWidthRamp_NlogN :: "int list \<Rightarrow> int" where
  "maxWidthRamp_NlogN A = snd (foldl (nlogn_step A) ([0], 0) [1..<length A])"

primrec scan_left :: "int list \<Rightarrow> int \<Rightarrow> nat \<Rightarrow> nat option" where
  "scan_left A x 0 = (if A ! 0 < x then None else Some 0)"
| "scan_left A x (Suc fromR) = (if A ! Suc fromR < x then scan_left A x fromR else Some (Suc fromR))"

fun ramp_loop :: "int list \<Rightarrow> nat list \<Rightarrow> nat \<Rightarrow> int \<Rightarrow> int option" where
  "ramp_loop A [] fromR max_ramp = Some max_ramp"
| "ramp_loop A (back # decreasing) fromR max_ramp = do {
     fromR \<leftarrow> scan_left A (A ! back) fromR;
     ramp_loop A decreasing fromR (max max_ramp (int fromR - int back))
   }"

definition maxWidthRamp :: "int list \<Rightarrow> int option" where
  "maxWidthRamp A = (
     let decreasing = foldl (record_step A) [0] [1..<length A]
     in if length decreasing = length A then Some 0
        else if A = [] then None
        else ramp_loop A decreasing (length A - 1) 0)"

text \<open>\<open>widest A n R\<close>: \<open>R\<close> is the width of the widest ramp among the first \<open>n\<close> elements.\<close>

definition widest :: "int list \<Rightarrow> nat \<Rightarrow> int \<Rightarrow> bool" where
  "widest A n R \<longleftrightarrow> (\<forall>i j. i \<le> j \<longrightarrow> j < n \<longrightarrow> A ! i \<le> A ! j \<longrightarrow> int j - int i \<le> R) \<and>
     (\<exists>i j. i \<le> j \<and> j < n \<and> A ! i \<le> A ! j \<and> R = int j - int i)"

lemma widest_unique: "widest A n R \<Longrightarrow> widest A n R' \<Longrightarrow> R = R'"
  unfolding widest_def by (meson order_antisym)

text \<open>\<open>records\<close>: the deque after \<open>n\<close> elements, the positions of the strict minima from the left.\<close>

definition records :: "int list \<Rightarrow> nat \<Rightarrow> nat list \<Rightarrow> bool" where
  "records A n D \<longleftrightarrow> D \<noteq> [] \<and> List.last D = 0 \<and> sorted_wrt (\<lambda>p q. q < p \<and> A ! p < A ! q) D \<and> (\<forall>p \<in> set D. p < n) \<and>
     (\<forall>i < n. \<exists>p \<in> set D. p \<le> i \<and> A ! p \<le> A ! i)"

lemma records_start: "records A (Suc 0) [0]"
  by (simp add: records_def)

lemma records_push:
  assumes "records A n D" "A ! n < A ! hd D"
  shows "records A (Suc n) (n # D)"
proof -
  obtain d D' where D: "D = d # D'" using assms(1) by (cases D) (auto simp: records_def)
  then show ?thesis using assms by (auto simp: records_def less_Suc_eq intro: less_trans)
qed

lemma records_keep:
  assumes "records A n D" "\<not> A ! n < A ! hd D"
  shows "records A (Suc n) D"
proof -
  obtain d D' where D: "D = d # D'" using assms(1) by (cases D) (auto simp: records_def)
  have "\<exists>p \<in> set D. p \<le> n \<and> A ! p \<le> A ! n" using assms D by (intro bexI [of _ d]) (auto simp: records_def)
  then show ?thesis using assms by (auto simp: records_def less_Suc_eq)
qed

lemma records_loop: "1 \<le> n \<Longrightarrow> records A n (foldl (record_step A) [0] [1..<n])"
proof (induction n rule: nat_induct_at_least)
  case (Suc n)
  then show ?case by (auto simp: record_step_def records_push records_keep)
qed (simp add: records_start)

lemma scan_left_spec:
  "j \<le> fromR \<Longrightarrow> x \<le> A ! j \<Longrightarrow>
   \<exists>f. scan_left A x fromR = Some f \<and> j \<le> f \<and> f \<le> fromR \<and> x \<le> A ! f \<and> (\<forall>k. f < k \<and> k \<le> fromR \<longrightarrow> A ! k < x)"
proof (induction fromR)
  case (Suc m)
  show ?case
  proof (cases "A ! Suc m < x")
    case True
    then have "j \<le> m" using Suc.prems by (auto simp: le_Suc_eq)
    then show ?thesis using Suc True by (fastforce simp: le_Suc_eq)
  qed (use Suc.prems in auto)
qed auto

lemma ramp_loop_spec:
  assumes "sorted_wrt (\<lambda>p q. q < p \<and> A ! p < A ! q) D" "\<forall>p \<in> set D. p \<le> fromR" "fromR < n"
    and "\<forall>p \<in> set D. \<forall>k. fromR < k \<and> k < n \<longrightarrow> A ! k < A ! p"
  shows "\<exists>R. ramp_loop A D fromR m = Some R \<and> m \<le> R \<and>
    (\<forall>p \<in> set D. \<forall>j. p \<le> j \<longrightarrow> j < n \<longrightarrow> A ! p \<le> A ! j \<longrightarrow> int j - int p \<le> R) \<and>
    (R = m \<or> (\<exists>p j. p \<le> j \<and> j < n \<and> A ! p \<le> A ! j \<and> R = int j - int p))"
  using assms
proof (induction D arbitrary: fromR m)
  case (Cons b D)
  obtain f where f: "scan_left A (A ! b) fromR = Some f" "b \<le> f" "f \<le> fromR" "A ! b \<le> A ! f"
    "\<forall>k. f < k \<and> k \<le> fromR \<longrightarrow> A ! k < A ! b"
    using scan_left_spec [of b fromR "A ! b" A] Cons.prems(2) by auto
  have beyond: "A ! k < A ! b" if "f < k" "k < n" for k
    using f(5) Cons.prems(4) that by (cases "k \<le> fromR") auto
  have "sorted_wrt (\<lambda>p q. q < p \<and> A ! p < A ! q) D" "\<forall>p \<in> set D. p \<le> f" "f < n"
    using Cons.prems f by auto
  moreover have "\<forall>p \<in> set D. \<forall>k. f < k \<and> k < n \<longrightarrow> A ! k < A ! p"
    using beyond Cons.prems(1) by (auto intro: less_trans)
  ultimately obtain R where R: "ramp_loop A D f (max m (int f - int b)) = Some R" "max m (int f - int b) \<le> R"
    "\<forall>p \<in> set D. \<forall>j. p \<le> j \<longrightarrow> j < n \<longrightarrow> A ! p \<le> A ! j \<longrightarrow> int j - int p \<le> R"
    "R = max m (int f - int b) \<or> (\<exists>p j. p \<le> j \<and> j < n \<and> A ! p \<le> A ! j \<and> R = int j - int p)"
    using Cons.IH by blast
  have "int j - int b \<le> R" if "b \<le> j" "j < n" "A ! b \<le> A ! j" for j
    using beyond [of j] that R(2) by (cases "j \<le> f") auto
  moreover have "R = m \<or> (\<exists>p j. p \<le> j \<and> j < n \<and> A ! p \<le> A ! j \<and> R = int j - int p)"
    using R(4) f \<open>f < n\<close> by (cases "m \<le> int f - int b") (auto simp: max_def)
  ultimately show ?case using R f(1) by auto
qed simp

lemma records_widest:
  assumes "records A n D" "\<forall>p \<in> set D. \<forall>j. p \<le> j \<longrightarrow> j < n \<longrightarrow> A ! p \<le> A ! j \<longrightarrow> int j - int p \<le> R"
    and "\<exists>i j. i \<le> j \<and> j < n \<and> A ! i \<le> A ! j \<and> R = int j - int i"
  shows "widest A n R"
proof -
  have "int j - int i \<le> R" if ramp: "i \<le> j" "j < n" "A ! i \<le> A ! j" for i j
  proof -
    have "i < n" using ramp by simp
    then obtain p where p: "p \<in> set D" "p \<le> i" "A ! p \<le> A ! i"
      using assms(1) unfolding records_def by blast
    then have "int j - int p \<le> R" using assms(2) [rule_format, of p j] ramp by simp
    then show ?thesis using p(2) by simp
  qed
  then show ?thesis using assms(3) unfolding widest_def by blast
qed

lemma maxWidthRamp_widest:
  assumes "A \<noteq> []"
  shows "\<exists>R. maxWidthRamp A = Some R \<and> widest A (length A) R"
proof -
  let ?n = "length A"
  define D where "D = foldl (record_step A) [0] [1..<?n]"
  have n: "1 \<le> ?n" using assms by (cases A) auto
  have D: "records A ?n D" unfolding D_def by (rule records_loop [OF n])
  have some0: "\<exists>i j. i \<le> j \<and> j < ?n \<and> A ! i \<le> A ! j \<and> 0 = int j - int i" using n by (intro exI [of _ 0]) auto
  show ?thesis
  proof (cases "length D = ?n")
    case True
    have dist: "distinct D" using D unfolding records_def distinct_conv_nth sorted_wrt_iff_nth_less
      by (metis linorder_neqE_nat nat_neq_iff)
    moreover have sub: "set D \<subseteq> {0..<?n}" using D by (auto simp: records_def)
    ultimately have all: "set D = {0..<?n}" using True by (metis card_atLeastLessThan card_subset_eq distinct_card finite_atLeastLessThan diff_zero)
    have dec: "A ! q < A ! p" if "p < q" "q < ?n" for p q
    proof -
      have "p \<in> set D" "q \<in> set D" using all that by auto
      then obtain a b where ab: "a < ?n" "D ! a = p" "b < ?n" "D ! b = q" using True by (metis in_set_conv_nth)
      then have "b < a" using D that True unfolding records_def sorted_wrt_iff_nth_less
        by (metis less_asym linorder_neqE_nat)
      then show ?thesis using D ab True unfolding records_def sorted_wrt_iff_nth_less by auto
    qed
    have "widest A ?n 0" using some0 dec unfolding widest_def by (metis diff_self le_neq_implies_less linorder_not_le order_refl)
    then show ?thesis using True unfolding maxWidthRamp_def D_def [symmetric] Let_def by simp
  next
    case False
    have "\<exists>R. ramp_loop A D (?n - 1) 0 = Some R \<and> 0 \<le> R \<and>
      (\<forall>p \<in> set D. \<forall>j. p \<le> j \<longrightarrow> j < ?n \<longrightarrow> A ! p \<le> A ! j \<longrightarrow> int j - int p \<le> R) \<and>
      (R = 0 \<or> (\<exists>p j. p \<le> j \<and> j < ?n \<and> A ! p \<le> A ! j \<and> R = int j - int p))"
      using D n by (intro ramp_loop_spec) (auto simp: records_def)
    then obtain R where R: "ramp_loop A D (?n - 1) 0 = Some R"
      "\<forall>p \<in> set D. \<forall>j. p \<le> j \<longrightarrow> j < ?n \<longrightarrow> A ! p \<le> A ! j \<longrightarrow> int j - int p \<le> R"
      "R = 0 \<or> (\<exists>p j. p \<le> j \<and> j < ?n \<and> A ! p \<le> A ! j \<and> R = int j - int p)" by blast
    have "\<exists>i j. i \<le> j \<and> j < ?n \<and> A ! i \<le> A ! j \<and> R = int j - int i" using R(3) some0 by (elim disjE) simp_all
    then have "widest A ?n R" by (rule records_widest [OF D R(2)])
    then show ?thesis using R(1) False assms unfolding maxWidthRamp_def D_def [symmetric] Let_def by simp
  qed
qed

lemma records_search:
  assumes "records A n D" "\<not> A ! n < A ! hd D"
  defines "le \<equiv> takeWhile (\<lambda>p. \<not> A ! n < A ! p) D"
  shows "le \<noteq> []" "List.last le \<in> set D" "A ! List.last le \<le> A ! n" "\<forall>p \<in> set D. A ! p \<le> A ! n \<longrightarrow> List.last le \<le> p"
    "length le = length D \<Longrightarrow> List.last le = 0" "D ! (length le - 1) = List.last le"
proof -
  obtain d D' where D: "D = d # D'" using assms(1) by (cases D) (auto simp: records_def)
  then show ne: "le \<noteq> []" using assms(2) by (simp add: le_def)
  have last: "List.last le \<in> set le" using ne by simp
  then show "List.last le \<in> set D" "A ! List.last le \<le> A ! n" unfolding le_def by (auto dest!: set_takeWhileD)
  define rest where "rest = dropWhile (\<lambda>p. \<not> A ! n < A ! p) D"
  have app: "D = le @ rest" by (simp add: le_def rest_def)
  have "sorted_wrt (\<lambda>p q. q < p \<and> A ! p < A ! q) (le @ rest)" using assms(1) unfolding app [symmetric] by (simp add: records_def)
  then have srt: "sorted_wrt (\<lambda>p q. q < p \<and> A ! p < A ! q) le" "sorted_wrt (\<lambda>p q. q < p \<and> A ! p < A ! q) rest"
    by (simp_all add: sorted_wrt_append)
  have rest: "A ! n < A ! p" if mem: "p \<in> set rest" for p
  proof -
    obtain e E where E: "rest = e # E" using mem by (cases rest) auto
    have "A ! n < A ! e" using hd_dropWhile [of "\<lambda>p. \<not> A ! n < A ! p" D, folded rest_def] E by simp
    then show ?thesis using E srt(2) mem by auto
  qed
  show "\<forall>p \<in> set D. A ! p \<le> A ! n \<longrightarrow> List.last le \<le> p"
  proof (intro ballI impI)
    fix p assume "p \<in> set D" "A ! p \<le> A ! n"
    then have "p \<in> set le" using rest app by fastforce
    moreover obtain bl x where "le = bl @ [x]" using ne by (metis rev_exhaust)
    ultimately show "List.last le \<le> p" using srt(1) by (auto simp: sorted_wrt_append)
  qed
  show "length le = length D \<Longrightarrow> List.last le = 0"
    using app assms(1) by (metis append_eq_conv_conj append_Nil2 length_0_conv length_append add_cancel_right_right records_def)
  show "D ! (length le - 1) = List.last le" using ne app by (metis diff_less last_conv_nth length_greater_0_conv nth_append zero_less_one)
qed

lemma nlogn_loop:
  "1 \<le> n \<Longrightarrow> case foldl (nlogn_step A) ([0], 0) [1..<n] of (D, R) \<Rightarrow> records A n D \<and> widest A n R"
proof (induction n rule: nat_induct_at_least)
  case base
  then show ?case by (auto simp: records_start widest_def)
next
  case (Suc n)
  obtain D R where st: "foldl (nlogn_step A) ([0], 0) [1..<n] = (D, R)" by (rule prod.exhaust)
  then have IH: "records A n D" "widest A n R" using Suc by auto
  have step: "foldl (nlogn_step A) ([0], 0) [1..<Suc n] = nlogn_step A (D, R) n" using Suc.hyps st by simp
  have extend: "widest A (Suc n) R'" if "R \<le> R'" "R' = R \<or> (\<exists>i \<le> n. A ! i \<le> A ! n \<and> R' = int n - int i)"
    "\<And>i. i \<le> n \<Longrightarrow> A ! i \<le> A ! n \<Longrightarrow> int n - int i \<le> R'" for R'
  proof -
    have "int j - int i \<le> R'" if "i \<le> j" "j < Suc n" "A ! i \<le> A ! j" for i j
      using IH(2) that \<open>R \<le> R'\<close> \<open>\<And>i. i \<le> n \<Longrightarrow> A ! i \<le> A ! n \<Longrightarrow> int n - int i \<le> R'\<close>
      unfolding widest_def by (cases "j = n") (auto simp: less_Suc_eq intro: order_trans)
    moreover have "\<exists>i j. i \<le> j \<and> j < Suc n \<and> A ! i \<le> A ! j \<and> R' = int j - int i"
      using that(2) IH(2) unfolding widest_def by (metis less_Suc_eq)
    ultimately show ?thesis unfolding widest_def by blast
  qed
  have R0: "0 \<le> R" using IH(2) unfolding widest_def by auto
  show ?case
  proof (cases "A ! n < A ! hd D")
    case True
    have min: "A ! n < A ! i" if "i < n" for i
    proof -
      obtain p where "p \<in> set D" "A ! p \<le> A ! i" using IH(1) \<open>i < n\<close> unfolding records_def by blast
      moreover have "A ! hd D \<le> A ! p" using IH(1) \<open>p \<in> set D\<close> by (cases D) (auto simp: records_def)
      ultimately show ?thesis using True by simp
    qed
    have "widest A (Suc n) R"
    proof (rule extend)
      show "int n - int i \<le> R" if "i \<le> n" "A ! i \<le> A ! n" for i
        using min [of i] that R0 by (cases "i = n") auto
    qed auto
    moreover have "nlogn_step A (D, R) n = (n # D, R)" using True by (simp add: nlogn_step_def)
    ultimately show ?thesis unfolding step using records_push [OF IH(1) True] by simp
  next
    case False
    define le where "le = takeWhile (\<lambda>p. \<not> A ! n < A ! p) D"
    define l where "l = List.last le"
    note S = records_search [OF IH(1) False, folded le_def, folded l_def]
    have ln: "l \<le> n" using S(2) IH(1) by (auto simp: records_def)
    have bnd: "int n - int i \<le> max R (int n - int l)" if "i \<le> n" "A ! i \<le> A ! n" for i
    proof (cases "i = n")
      case False
      then obtain p where p: "p \<in> set D" "p \<le> i" "A ! p \<le> A ! i" using IH(1) \<open>i \<le> n\<close> unfolding records_def by (metis le_neq_implies_less)
      then have "l \<le> p" using S(4) that(2) by auto
      then show ?thesis using p(2) by simp
    qed (use R0 in simp)
    have "widest A (Suc n) (max R (int n - int l))"
      by (rule extend) (use bnd S(3) ln in \<open>auto simp: max_def\<close>)
    moreover have "nlogn_step A (D, R) n = (D, max R (int n - int l))"
      using False S(5,6) unfolding nlogn_step_def prod.case Let_def le_def [symmetric] by simp
    ultimately show ?thesis unfolding step using records_keep [OF IH(1) False] by simp
  qed
qed

text \<open>On a non-empty array both versions of \<open>maxWidthRamp\<close> return the width of the widest ramp; on an empty
  one \<open>maxWidthRamp\<close> reads outside the array.\<close>

theorem maxWidthRamp_correct:
  "maxWidthRamp A = (if A = [] then None else Some (maxWidthRamp_NlogN A)) \<and>
   (A = [] \<or> maxWidthRamp_NlogN A = Max {int j - int i |i j. i \<le> j \<and> j < length A \<and> A ! i \<le> A ! j})"
proof (cases "A = []")
  case True
  then show ?thesis by (simp add: maxWidthRamp_def)
next
  case False
  then have n: "1 \<le> length A" by (cases A) auto
  define R where "R = maxWidthRamp_NlogN A"
  have R: "widest A (length A) R" using nlogn_loop [OF n, of A] by (auto simp: R_def maxWidthRamp_NlogN_def split: prod.splits)
  moreover obtain R' where "maxWidthRamp A = Some R'" "widest A (length A) R'" using maxWidthRamp_widest [OF False] by blast
  ultimately have eq: "maxWidthRamp A = Some R" using widest_unique by metis
  let ?S = "{int j - int i |i j. i \<le> j \<and> j < length A \<and> A ! i \<le> A ! j}"
  have "?S \<subseteq> {0..int (length A)}" by auto
  then have "finite ?S" by (rule finite_subset) simp
  then have "Max ?S = R" using R unfolding widest_def by (intro Max_eqI) auto
  then show ?thesis using eq False by (simp add: R_def)
qed
subsection \<open>Trapped rain water\<close>

text \<open>
  Both ends of the deque are used, so it is kept with its front at the head. The loop that pops the front has
  no test for an empty deque: the back is higher than the new bar and stops it.
\<close>

definition accumulate :: "int list \<Rightarrow> nat \<Rightarrow> nat \<Rightarrow> int" where
  "accumulate height b e = i32 (\<Sum>k \<leftarrow> [b..<e]. height ! k)"

definition trap_step :: "int list \<Rightarrow> nat list \<times> int \<Rightarrow> nat \<Rightarrow> nat list \<times> int" where
  "trap_step height st i = (case st of (elevation, area) \<Rightarrow>
     if elevation = [] then ([i], area)
     else let back = List.last elevation in
       if height ! back \<le> height ! i then
         (let area = i32 (area + (int back - int i - 1) * height ! back);
              area = i32 (area - accumulate height (i + 1) back)
          in ([i], area))
       else (i # dropWhile (\<lambda>front. height ! front \<le> height ! i) elevation, area))"

fun reservoirs :: "int list \<Rightarrow> nat \<Rightarrow> int \<Rightarrow> nat list \<Rightarrow> int" where
  "reservoirs height left area [] = area"
| "reservoirs height left area (right # elevation) = (
     let area = (if int right - int left > 1 then
          let A = i32 ((int right - int left - 1) * height ! left);
              noneWater = accumulate height (left + 1) right
          in if A > noneWater then i32 (area + (A - noneWater)) else area
        else area)
     in reservoirs height right area elevation)"

definition trap :: "int list \<Rightarrow> int" where
  "trap height = (
     case foldl (trap_step height) ([], 0) (rev [0..<length height]) of (elevation, area) \<Rightarrow>
       if length elevation > 1 then reservoirs height (hd elevation) area elevation else area)"

lemmas i32_ring = swrap_add [of 32, simplified] swrap_diff [of 32, simplified] swrap_swrap [of 32, simplified]

definition prefix_max :: "int list \<Rightarrow> nat \<Rightarrow> int" where
  "prefix_max h k = Max ((!) h ` {0..k})"

definition suffix_max :: "int list \<Rightarrow> nat \<Rightarrow> int" where
  "suffix_max h k = Max ((!) h ` {k..<length h})"

lemma suffix_max_eqI:
  "p \<in> {k..<length h} \<Longrightarrow> (\<And>j. k \<le> j \<Longrightarrow> j < length h \<Longrightarrow> h ! j \<le> h ! p) \<Longrightarrow> suffix_max h k = h ! p"
  unfolding suffix_max_def by (intro Max_eqI) auto

lemma prefix_max_eqI: "p \<le> k \<Longrightarrow> (\<And>j. j \<le> k \<Longrightarrow> h ! j \<le> h ! p) \<Longrightarrow> prefix_max h k = h ! p"
  unfolding prefix_max_def by (intro Max_eqI) auto

text \<open>Strictly rising positions where everything between two of them is not higher than the left one.\<close>

fun rising :: "int list \<Rightarrow> nat list \<Rightarrow> bool" where
  "rising h (p # q # ps) \<longleftrightarrow> p < q \<and> h ! p < h ! q \<and> (\<forall>k. p < k \<and> k < q \<longrightarrow> h ! k \<le> h ! p) \<and> rising h (q # ps)"
| "rising h _ \<longleftrightarrow> True"

lemma rising_drop:
  assumes "rising h (p # ps)" "h ! List.last (p # ps) > x" "i < p" "\<forall>k. i < k \<and> k < p \<longrightarrow> h ! k \<le> x"
  shows "\<exists>q qs. dropWhile (\<lambda>f. h ! f \<le> x) (p # ps) = q # qs \<and> i < q \<and> x < h ! q \<and> rising h (q # qs) \<and>
    (\<forall>k. i < k \<and> k < q \<longrightarrow> h ! k \<le> x) \<and> List.last (q # qs) = List.last (p # ps)"
  using assms
proof (induction ps arbitrary: p)
  case (Cons q ps)
  show ?case
  proof (cases "h ! p \<le> x")
    case True
    have "h ! k \<le> x" if "i < k" "k < q" for k
      using Cons.prems(1,4) True that by (cases k p rule: linorder_cases) (auto intro: order_trans)
    then show ?thesis using Cons.IH [of q] Cons.prems(1,2,3) True by auto
  qed (use Cons.prems in auto)
qed auto

definition trap_inv :: "int list \<Rightarrow> nat \<Rightarrow> nat list \<times> int \<Rightarrow> bool" where
  "trap_inv h i st \<longleftrightarrow> (case st of (E, area) \<Rightarrow>
     if i = length h then E = [] \<and> area = 0
     else \<exists>ps. E = i # ps \<and> rising h E \<and> List.last E < length h \<and> i \<le> List.last E \<and>
       (\<forall>k. i \<le> k \<and> k < length h \<longrightarrow> h ! k \<le> h ! List.last E) \<and>
       area = i32 (\<Sum>k = List.last E..<length h. suffix_max h k - h ! k))"

lemma suffix_gap:
  assumes "i < b" "b < length h" "h ! b \<le> h ! i" "\<And>k. i < k \<Longrightarrow> k < length h \<Longrightarrow> h ! k \<le> h ! b"
  shows "(\<Sum>k = i..<length h. suffix_max h k - h ! k) =
    (\<Sum>k = b..<length h. suffix_max h k - h ! k) + (int b - int i - 1) * h ! b - (\<Sum>k = i + 1..<b. h ! k)"
proof -
  have "h ! j \<le> h ! i" if "i \<le> j" "j < length h" for j
    using assms(3) assms(4) [of j] that by (cases "j = i") (auto intro: order_trans)
  then have "suffix_max h i = h ! i" using assms(1,2) by (intro suffix_max_eqI) auto
  moreover have "suffix_max h k = h ! b" if "k \<in> {i + 1..<b}" for k
    using assms that by (intro suffix_max_eqI) auto
  then have "(\<Sum>k = i + 1..<b. suffix_max h k - h ! k) = (\<Sum>k = i + 1..<b. h ! b - h ! k)" by (intro sum.cong) auto
  then have "(\<Sum>k = i + 1..<b. suffix_max h k - h ! k) = (int b - int i - 1) * h ! b - (\<Sum>k = i + 1..<b. h ! k)"
    using assms(1) by (simp add: sum_subtractf of_nat_diff)
  moreover have "(\<Sum>k = i..<length h. suffix_max h k - h ! k) = (suffix_max h i - h ! i) +
     (\<Sum>k = i + 1..<b. suffix_max h k - h ! k) + (\<Sum>k = b..<length h. suffix_max h k - h ! k)"
  proof -
    have "(\<Sum>k = i..<length h. suffix_max h k - h ! k) = (suffix_max h i - h ! i) + (\<Sum>k = Suc i..<length h. suffix_max h k - h ! k)"
      using assms by (intro sum.atLeast_Suc_lessThan) auto
    moreover have "(\<Sum>k = Suc i..<length h. suffix_max h k - h ! k) =
       (\<Sum>k = Suc i..<b. suffix_max h k - h ! k) + (\<Sum>k = b..<length h. suffix_max h k - h ! k)"
      using assms by (intro sum.atLeastLessThan_concat [symmetric]) auto
    ultimately show ?thesis by simp
  qed
  ultimately show ?thesis by simp
qed

lemma accumulate_eq: "accumulate h a b = i32 (\<Sum>k = a..<b. h ! k)"
  by (simp add: accumulate_def interv_sum_list_conv_sum_set_nat)

lemma trap_step_inv:
  assumes "trap_inv h (Suc i) st" "i < length h"
  shows "trap_inv h i (trap_step h st i)"
proof -
  obtain E area where st: "st = (E, area)" by (rule prod.exhaust)
  show ?thesis
  proof (cases "Suc i = length h")
    case True
    then have one: "j = i" if "i \<le> j" "j < length h" for j using that by linarith
    then have "suffix_max h i = h ! i" using assms(2) by (intro suffix_max_eqI) auto
    moreover have "{i..<length h} = {i}" using one assms(2) by auto
    ultimately show ?thesis using assms True one by (auto simp: st trap_inv_def trap_step_def)
  next
    case False
    define b where "b = List.last E"
    obtain ps where E: "E = Suc i # ps" "rising h E" "b < length h" "Suc i \<le> b"
      "\<forall>k. Suc i \<le> k \<and> k < length h \<longrightarrow> h ! k \<le> h ! b"
      "area = i32 (\<Sum>k = b..<length h. suffix_max h k - h ! k)"
      using assms(1) False by (auto simp: st trap_inv_def b_def)
    have ne: "E \<noteq> []" using E(1) by simp
    show ?thesis
    proof (cases "h ! b \<le> h ! i")
      case True
      have "i32 (i32 (area + (int b - int i - 1) * h ! b) - accumulate h (i + 1) b) = i32 (\<Sum>k = i..<length h. suffix_max h k - h ! k)"
        using suffix_gap [of i b h] E(3,4,5) True
        by (simp add: E(6) accumulate_eq i32_ring diff_conv_add_uminus del: add_uminus_conv_diff)
          (simp add: i32_ring)
      moreover have "h ! k \<le> h ! i" if "i \<le> k" "k < length h" for k
        using E(5) [rule_format, of k] True that by (cases "k = i") auto
      ultimately show ?thesis using True ne assms(2)
        by (auto simp: st trap_inv_def trap_step_def b_def [symmetric] Let_def)
    next
      case False
      have "\<exists>q qs. dropWhile (\<lambda>f. h ! f \<le> h ! i) (Suc i # ps) = q # qs \<and> i < q \<and> h ! i < h ! q \<and> rising h (q # qs) \<and>
        (\<forall>k. i < k \<and> k < q \<longrightarrow> h ! k \<le> h ! i) \<and> List.last (q # qs) = List.last (Suc i # ps)"
        using E(1,2) False by (intro rising_drop) (auto simp: b_def)
      then obtain q qs where Q: "dropWhile (\<lambda>f. h ! f \<le> h ! i) E = q # qs" "i < q" "h ! i < h ! q" "rising h (q # qs)"
        "\<forall>k. i < k \<and> k < q \<longrightarrow> h ! k \<le> h ! i" "List.last (q # qs) = b" using E(1) by (auto simp: b_def)
      have "h ! k \<le> h ! b" if "i \<le> k" "k < length h" for k
        using E(5) False that by (cases "k = i") auto
      then show ?thesis using False ne assms(2) Q E(3,4,6)
        by (simp add: st trap_inv_def trap_step_def b_def [symmetric] Let_def)
    qed
  qed
qed

lemma trap_loop: "n \<le> length h \<Longrightarrow> trap_inv h n (foldl (trap_step h) ([], 0) (rev [n..<length h]))"
proof (induction "length h - n" arbitrary: n)
  case 0
  then show ?case by (simp add: trap_inv_def)
next
  case (Suc d)
  then have "[n..<length h] = n # [Suc n..<length h]" by (simp add: upt_conv_Cons)
  then show ?case using Suc.hyps(1) [of "Suc n"] Suc.hyps(2) trap_step_inv [of h n] by simp
qed

text \<open>The water over position \<open>k\<close>.\<close>

definition water :: "int list \<Rightarrow> nat \<Rightarrow> int" where
  "water h k = min (prefix_max h k) (suffix_max h k) - h ! k"
lemma water_gap:
  assumes "p < q" "q < length h" "h ! p < h ! q" "\<And>k. k < q \<Longrightarrow> h ! k \<le> h ! p"
  shows "(\<Sum>k = p..<q. water h k) = (int q - int p - 1) * h ! p - (\<Sum>k = p + 1..<q. h ! k)"
proof -
  have "water h k = h ! p - h ! k" if "k \<in> {p..<q}" for k
  proof -
    have "prefix_max h k = h ! p" using that assms(4) by (intro prefix_max_eqI) auto
    moreover have "h ! q \<le> suffix_max h k" unfolding suffix_max_def using that assms(2) by (intro Max_ge) auto
    ultimately show ?thesis using assms(3) by (simp add: water_def)
  qed
  then have "(\<Sum>k = p..<q. water h k) = (\<Sum>k = p..<q. h ! p - h ! k)" by (intro sum.cong) auto
  also have "\<dots> = (\<Sum>k = Suc p..<q. h ! p - h ! k)" using assms(1) by (simp add: sum.atLeast_Suc_lessThan)
  also have "\<dots> = (int q - int p - 1) * h ! p - (\<Sum>k = p + 1..<q. h ! k)"
    using assms(1) by (simp add: sum_subtractf of_nat_diff)
  finally show ?thesis .
qed

lemma rising_le_last: "rising h (p # ps) \<Longrightarrow> p \<le> List.last (p # ps) \<and> h ! p \<le> h ! List.last (p # ps)"
  by (induction h "p # ps" arbitrary: p ps rule: rising.induct) (auto intro: order_trans)

lemma reservoirs_sum:
  assumes "rising h (p # ps)" "List.last (p # ps) < length h" "\<And>k. k < p \<Longrightarrow> h ! k \<le> h ! p"
    and "\<And>k. k < length h \<Longrightarrow> 0 \<le> h ! k \<and> int (length h) * h ! k < 2147483648"
  shows "reservoirs h p (i32 area) ps = i32 (area + (\<Sum>k = p..<List.last (p # ps). water h k))"
  using assms(1-3)
proof (induction ps arbitrary: p area)
  case Nil
  then show ?case by (simp add: i32_ring)
next
  case (Cons q ps)
  let ?gap = "\<Sum>k = p..<q. water h k"
  have pq: "p < q" "h ! p < h ! q" "rising h (q # ps)" "\<And>k. p < k \<Longrightarrow> k < q \<Longrightarrow> h ! k \<le> h ! p"
    using Cons.prems(1) by auto
  have qn: "q < length h" using rising_le_last [OF pq(3)] Cons.prems(2) by simp
  have below: "h ! k \<le> h ! p" if "k < q" for k
    using pq(4) Cons.prems(3) that by (cases k p rule: linorder_cases) auto
  note gap = water_gap [OF pq(1) qn pq(2) below]
  have bound: "0 \<le> h ! p" "int (length h) * h ! p < 2147483648" using assms(4) [of p] pq(1) qn by auto
  have w: "(int q - int p - 1) * h ! p \<le> int (length h) * h ! p" "0 \<le> (int q - int p - 1) * h ! p"
    using pq(1) qn bound(1) by (auto intro: mult_right_mono)
  have S: "0 \<le> (\<Sum>k = p + 1..<q. h ! k)" using assms(4) qn by (intro sum_nonneg) auto
  have "(\<Sum>k = p + 1..<q. h ! k) \<le> (\<Sum>k = p + 1..<q. h ! p)" using below by (intro sum_mono) auto
  also have "\<dots> = (int q - int p - 1) * h ! p" using pq(1) by (simp add: of_nat_diff)
  finally have S': "(\<Sum>k = p + 1..<q. h ! k) \<le> (int q - int p - 1) * h ! p" .
  have acc: "accumulate h (p + 1) q = (\<Sum>k = p + 1..<q. h ! k)" unfolding accumulate_eq using S S' w bound by (intro i32_id) auto
  have A: "i32 ((int q - int p - 1) * h ! p) = (int q - int p - 1) * h ! p" using w bound by (intro i32_id) auto
  have narrow: "?gap = 0" if "\<not> int q - int p > 1"
  proof -
    have "q = Suc p" using that pq(1) by simp
    then show ?thesis using gap by simp
  qed
  have step: "reservoirs h p (i32 area) (q # ps) = reservoirs h q (i32 (area + ?gap)) ps"
    using narrow gap S' unfolding reservoirs.simps Let_def acc A by (auto simp: i32_ring)
  have "(\<Sum>k = p..<q. water h k) + (\<Sum>k = q..<List.last (q # ps). water h k) = (\<Sum>k = p..<List.last (q # ps). water h k)"
    using pq(1) rising_le_last [OF pq(3)] by (intro sum.atLeastLessThan_concat) auto
  moreover have "h ! k \<le> h ! q" if "k < q" for k using below [OF that] pq(2) by simp
  ultimately show ?case using Cons.IH [OF pq(3), of "area + ?gap"] Cons.prems(2) step by (simp add: add.assoc)
qed

lemma water_at_maximum:
  assumes "b < length h" "\<forall>k < length h. h ! k \<le> h ! b" "k < length h"
  shows "h ! k + water h k \<le> h ! b" "0 \<le> water h k" "b \<le> k \<Longrightarrow> water h k = suffix_max h k - h ! k"
proof -
  have s: "suffix_max h k \<le> h ! b" unfolding suffix_max_def using assms by (intro Max.boundedI) auto
  have "h ! k \<le> prefix_max h k" "h ! k \<le> suffix_max h k"
    unfolding prefix_max_def suffix_max_def using assms(3) by (auto intro!: Max_ge)
  then show "h ! k + water h k \<le> h ! b" "0 \<le> water h k" using s by (simp_all add: water_def min_def)
  show "water h k = suffix_max h k - h ! k" if "b \<le> k"
  proof -
    have "prefix_max h k = h ! b" using that assms by (intro prefix_max_eqI) auto
    then show ?thesis using s by (simp add: water_def)
  qed
qed

text \<open>\<open>trap\<close> is the amount of water over all bars, each filled up to the lower of the highest bars on its
  two sides.\<close>

theorem trap_correct:
  assumes "\<forall>x \<in> set height. 0 \<le> x \<and> int (length height) * x < 2147483648"
  shows "trap height = (\<Sum>k < length height.
    min (Max ((!) height ` {0..k})) (Max ((!) height ` {k..<length height})) - height ! k)"
proof (cases "height = []")
  case True
  then show ?thesis by (simp add: trap_def)
next
  case False
  let ?n = "length height"
  obtain E area where st: "foldl (trap_step height) ([], 0) (rev [0..<?n]) = (E, area)" by (rule prod.exhaust)
  define b where "b = List.last E"
  have "trap_inv height 0 (E, area)" using trap_loop [of 0 height] st by simp
  then obtain ps where E: "E = 0 # ps" "rising height (0 # ps)" "b < ?n"
    "\<And>k. k < ?n \<Longrightarrow> height ! k \<le> height ! b" "area = i32 (\<Sum>k = b..<?n. suffix_max height k - height ! k)"
    using False by (auto simp: trap_inv_def b_def)
  have rng: "0 \<le> height ! k \<and> int ?n * height ! k < 2147483648" if "k < ?n" for k using assms that by auto
  have highest: "\<forall>k < ?n. height ! k \<le> height ! b" using E(4) by blast
  note W = water_at_maximum [OF E(3) highest]
  have "water height k = suffix_max height k - height ! k" if "k \<in> {b..<?n}" for k using W(3) [of k] that by simp
  then have right: "area = i32 (\<Sum>k = b..<?n. water height k)" unfolding E(5) by (auto intro: arg_cong [where f = i32] sum.cong)
  have "(\<Sum>k = 0..<b. water height k) + (\<Sum>k = b..<?n. water height k) = (\<Sum>k = 0..<?n. water height k)"
    using E(3) by (intro sum.atLeastLessThan_concat) auto
  moreover have "reservoirs height 0 area ps = i32 ((\<Sum>k = b..<?n. water height k) + (\<Sum>k = 0..<b. water height k))"
    using reservoirs_sum [OF E(2), where area = "\<Sum>k = b..<?n. water height k"] E(1,3) rng by (simp add: right b_def)
  moreover have "trap height = reservoirs height 0 area ps" by (simp add: trap_def st E(1) split: list.split)
  ultimately have "trap height = i32 (\<Sum>k = 0..<?n. water height k)" by (simp add: add.commute)
  moreover have "0 \<le> (\<Sum>k = 0..<?n. water height k)" "(\<Sum>k = 0..<?n. water height k) \<le> int ?n * height ! b"
  proof -
    have "0 \<le> water height k \<and> water height k \<le> height ! b" if "k < ?n" for k using W(1,2) [OF that] rng [OF that] by linarith
    then show "0 \<le> (\<Sum>k = 0..<?n. water height k)" "(\<Sum>k = 0..<?n. water height k) \<le> int ?n * height ! b"
      using sum_bounded_above [of "{0..<?n}" "water height" "height ! b"] by (auto intro: sum_nonneg)
  qed
  ultimately show ?thesis using rng [OF E(3)] by (simp add: water_def prefix_max_def suffix_max_def atLeast0LessThan)
qed
theorem trap_witness: "trap [0, 1, 0, 2, 1, 0, 1, 3, 2, 1, 2, 1] = (\<Sum>k < length [0, 1, 0, 2, 1, 0, 1, 3, 2, 1, 2, 1 :: int].
    min (Max ((!) [0, 1, 0, 2, 1, 0, 1, 3, 2, 1, 2, 1 :: int] ` {0..k}))
      (Max ((!) [0, 1, 0, 2, 1, 0, 1, 3, 2, 1, 2, 1 :: int] ` {k..<length [0, 1, 0, 2, 1, 0, 1, 3, 2, 1, 2, 1 :: int]})) -
    [0, 1, 0, 2, 1, 0, 1, 3, 2, 1, 2, 1 :: int] ! k)"
  by (rule trap_correct) simp

lemma trap_example: "trap [0, 1, 0, 2, 1, 0, 1, 3, 2, 1, 2, 1] = 6"
  by code_simp

subsection \<open>The pattern 1 3 2\<close>

text \<open>The loop runs over the reversed vector; the stack has its top at the head.\<close>

fun pop_smaller :: "int \<Rightarrow> int list \<Rightarrow> int \<Rightarrow> int list \<times> int" where
  "pop_smaller nxt [] a3 = ([], a3)"
| "pop_smaller nxt (t # mid) a3 = (if t < nxt then pop_smaller nxt mid (max a3 t) else (t # mid, a3))"

fun pattern_loop :: "int list \<Rightarrow> int \<Rightarrow> int list \<Rightarrow> bool option" where
  "pattern_loop mid a3 [] = Some False"
| "pattern_loop mid a3 (nxt # rest) = do {
     hit \<leftarrow> (if nxt < a3 then (case mid of [] \<Rightarrow> None | t # _ \<Rightarrow> Some (nxt < t)) else Some False);
     if hit then Some True
     else case pop_smaller nxt mid a3 of (mid, a3) \<Rightarrow> pattern_loop (nxt # mid) a3 rest
   }"

definition find132pattern :: "int list \<Rightarrow> bool option" where
  "find132pattern nums = pattern_loop [] (- 2147483648) (rev nums)"

text \<open>\<open>thirds xs\<close>: the elements that have a greater element before them.\<close>

fun thirds :: "int list \<Rightarrow> int set" where
  "thirds [] = {}"
| "thirds (x # xs) = thirds xs \<union> {v \<in> set xs. v < x}"

fun has132 :: "int list \<Rightarrow> bool" where
  "has132 [] \<longleftrightarrow> False"
| "has132 (x # xs) \<longleftrightarrow> has132 xs \<or> (\<exists>v \<in> thirds xs. x < v)"

lemma thirds_iff: "v \<in> thirds xs \<longleftrightarrow> (\<exists>j k. j < k \<and> k < length xs \<and> xs ! k = v \<and> v < xs ! j)"
proof (induction xs)
  case (Cons x xs)
  have "(\<exists>j k. j < k \<and> k < Suc (length xs) \<and> (x # xs) ! k = v \<and> v < (x # xs) ! j) \<longleftrightarrow>
      (\<exists>k < length xs. xs ! k = v \<and> v < x) \<or> (\<exists>j k. j < k \<and> k < length xs \<and> xs ! k = v \<and> v < xs ! j)" (is "?L \<longleftrightarrow> ?R")
  proof
    assume ?L
    then obtain j k where jk: "j < k" "k < Suc (length xs)" "(x # xs) ! k = v" "v < (x # xs) ! j" by blast
    then obtain k' where "k = Suc k'" by (cases k) auto
    then show ?R using jk by (cases j) auto
  next
    assume ?R
    then show ?L
    proof (elim disjE exE conjE)
      fix k assume "k < length xs" "xs ! k = v" "v < x"
      then show ?L by (intro exI [of _ 0] exI [of _ "Suc k"]) auto
    next
      fix j k assume "j < k" "k < length xs" "xs ! k = v" "v < xs ! j"
      then show ?L by (intro exI [of _ "Suc j"] exI [of _ "Suc k"]) auto
    qed
  qed
  then show ?case using Cons.IH by (auto simp: in_set_conv_nth)
qed simp

lemma has132_iff:
  "has132 xs \<longleftrightarrow> (\<exists>i j k. i < j \<and> j < k \<and> k < length xs \<and> xs ! i < xs ! k \<and> xs ! k < xs ! j)"
proof (induction xs)
  case (Cons x xs)
  show ?case (is "_ \<longleftrightarrow> ?R")
  proof
    assume "has132 (x # xs)"
    then consider "has132 xs" | v where "v \<in> thirds xs" "x < v" by auto
    then show ?R
    proof cases
      case 1
      then obtain i j k where "i < j" "j < k" "k < length xs" "xs ! i < xs ! k" "xs ! k < xs ! j" using Cons.IH by blast
      then show ?thesis by (intro exI [of _ "Suc i"] exI [of _ "Suc j"] exI [of _ "Suc k"]) auto
    next
      case 2
      then obtain j k where "j < k" "k < length xs" "xs ! k = v" "v < xs ! j" unfolding thirds_iff by blast
      then show ?thesis using 2(2) by (intro exI [of _ 0] exI [of _ "Suc j"] exI [of _ "Suc k"]) auto
    qed
  next
    assume ?R
    then obtain i j k where p: "i < j" "j < k" "k < length (x # xs)" "(x # xs) ! i < (x # xs) ! k" "(x # xs) ! k < (x # xs) ! j" by blast
    then obtain j' k' where jk: "j = Suc j'" "k = Suc k'" by (cases j; cases k) auto
    show "has132 (x # xs)"
    proof (cases i)
      case 0
      then have "xs ! k' \<in> thirds xs" "x < xs ! k'" using p jk unfolding thirds_iff by auto
      then show ?thesis by auto
    next
      case (Suc i')
      then show ?thesis using p jk Cons.IH by auto
    qed
  qed
qed simp

definition pattern_inv :: "int list \<Rightarrow> int list \<Rightarrow> int \<Rightarrow> bool" where
  "pattern_inv seen mid a3 \<longleftrightarrow> (a3 = - 2147483648 \<or> a3 \<in> thirds seen) \<and> (\<forall>v \<in> thirds seen. v \<le> a3) \<and>
     (\<forall>v \<in> set seen. v \<in> set mid \<or> v \<le> a3) \<and> sorted mid \<and> set mid \<subseteq> set seen \<and> (\<forall>m \<in> set mid. a3 \<le> m) \<and>
     (seen \<noteq> [] \<longrightarrow> mid \<noteq> []) \<and> \<not> has132 seen"

lemma pop_smaller_spec:
  assumes "sorted mid"
  shows "pop_smaller nxt mid a3 = (filter (\<lambda>m. \<not> m < nxt) mid, foldl max a3 (filter (\<lambda>m. m < nxt) mid))"
  using assms
proof (induction mid arbitrary: a3)
  case (Cons t mid)
  then have "t < nxt \<or> filter (\<lambda>m. m < nxt) mid = [] \<and> filter (\<lambda>m. \<not> m < nxt) mid = mid"
    by (auto simp: filter_empty_conv filter_id_conv)
  then show ?case using Cons by auto
qed simp

lemma foldl_max_le: "foldl max (a :: int) xs \<le> b \<longleftrightarrow> a \<le> b \<and> (\<forall>x \<in> set xs. x \<le> b)"
  by (induction xs arbitrary: a) auto

lemma foldl_max_ge: "b \<le> foldl max (a :: int) xs \<longleftrightarrow> b \<le> a \<or> (\<exists>x \<in> set xs. b \<le> x)"
  by (induction xs arbitrary: a) auto

lemma foldl_max_in: "foldl max (a :: int) xs = a \<or> foldl max a xs \<in> set xs"
  by (induction xs arbitrary: a) (auto, metis max_def)

lemma pattern_step:
  assumes "pattern_inv seen mid a3" "- 2147483648 \<le> nxt"
  shows "nxt < a3 \<Longrightarrow> has132 (nxt # seen) \<and> (\<exists>t mid'. mid = t # mid' \<and> nxt < t)"
    "\<not> nxt < a3 \<Longrightarrow> case pop_smaller nxt mid a3 of (mid', a3') \<Rightarrow> pattern_inv (nxt # seen) (nxt # mid') a3'"
proof -
  note I = assms(1) [unfolded pattern_inv_def]
  show "has132 (nxt # seen) \<and> (\<exists>t mid'. mid = t # mid' \<and> nxt < t)" if "nxt < a3"
  proof -
    have "a3 \<in> thirds seen" using I that assms(2) by auto
    then have "seen \<noteq> []" by auto
    then obtain t mid' where "mid = t # mid'" using I by (cases mid) auto
    then show ?thesis using I that \<open>a3 \<in> thirds seen\<close> by auto
  qed
  show "case pop_smaller nxt mid a3 of (mid', a3') \<Rightarrow> pattern_inv (nxt # seen) (nxt # mid') a3'" if "\<not> nxt < a3"
  proof -
    define popped where "popped = filter (\<lambda>m. m < nxt) mid"
    define a3' where "a3' = foldl max a3 popped"
    have ge: "a3 \<le> a3'" "\<And>m. m \<in> set mid \<Longrightarrow> m < nxt \<Longrightarrow> m \<le> a3'"
      by (auto simp: a3'_def popped_def foldl_max_ge)
    have le: "a3' \<le> nxt" using that by (auto simp: a3'_def popped_def foldl_max_le)
    have third: "a3' = - 2147483648 \<or> a3' \<in> thirds (nxt # seen)"
      using foldl_max_in [of a3 popped] I unfolding a3'_def [symmetric] by (auto simp: popped_def)
    have upper: "v \<le> a3'" if "v \<in> thirds (nxt # seen)" for v
      using that I ge by (auto intro: order_trans)
    have no: "\<not> has132 (nxt # seen)" using I that by fastforce
    have "pattern_inv (nxt # seen) (nxt # filter (\<lambda>m. \<not> m < nxt) mid) a3'"
      unfolding pattern_inv_def
    proof (intro conjI)
      show "\<forall>v \<in> set (nxt # seen). v \<in> set (nxt # filter (\<lambda>m. \<not> m < nxt) mid) \<or> v \<le> a3'"
        using I ge by (auto intro: order_trans)
      show "sorted (nxt # filter (\<lambda>m. \<not> m < nxt) mid)" using I by (auto simp: sorted_filter [where f = id, simplified])
      show "\<forall>m \<in> set (nxt # filter (\<lambda>m. \<not> m < nxt) mid). a3' \<le> m" using le by auto
    qed (use third upper no I in auto)
    then show ?thesis using pop_smaller_spec [of mid nxt a3] I by (simp add: a3'_def popped_def)
  qed
qed

lemma has132_append: "has132 ys \<Longrightarrow> has132 (xs @ ys)"
  by (induction xs) auto

lemma pattern_loop_spec:
  assumes "pattern_inv seen mid a3" "\<forall>x \<in> set xs. - 2147483648 \<le> x"
  shows "pattern_loop mid a3 xs = Some (has132 (rev xs @ seen))"
  using assms
proof (induction xs arbitrary: seen mid a3)
  case Nil
  then show ?case by (simp add: pattern_inv_def)
next
  case (Cons x xs)
  then have x: "- 2147483648 \<le> x" by simp
  show ?case
  proof (cases "x < a3")
    case True
    then show ?thesis using pattern_step(1) [OF Cons.prems(1) x True] has132_append [of "x # seen" "rev xs"] by auto
  next
    case False
    then show ?thesis using pattern_step(2) [OF Cons.prems(1) x False] Cons.IH [of "x # seen"] Cons.prems(2)
      by (auto split: prod.splits)
  qed
qed

text \<open>\<open>find132pattern\<close> never reads the top of an empty stack and decides whether the array has a subsequence
  \<open>ai, aj, ak\<close> with \<open>ai < ak < aj\<close>.\<close>

theorem find132pattern_correct:
  assumes "\<forall>x \<in> set nums. - 2147483648 \<le> x"
  shows "find132pattern nums =
    Some (\<exists>i j k. i < j \<and> j < k \<and> k < length nums \<and> nums ! i < nums ! k \<and> nums ! k < nums ! j)"
proof -
  have "pattern_inv [] [] (- 2147483648)" by (simp add: pattern_inv_def)
  from pattern_loop_spec [OF this, of "rev nums"] assms show ?thesis by (simp add: find132pattern_def has132_iff)
qed

theorem find132pattern_witness:
  "find132pattern [3, 1, 4, 2] = Some (\<exists>i j k. i < j \<and> j < k \<and> k < length [3, 1, 4, 2 :: int] \<and>
     [3, 1, 4, 2 :: int] ! i < [3, 1, 4, 2] ! k \<and> [3, 1, 4, 2 :: int] ! k < [3, 1, 4, 2] ! j)"
  by (rule find132pattern_correct) simp

end
