(* ===== verification/NextGreater.thy ===== *)
theory NextGreater
  imports MonotoneStack CharLib "HOL-Library.Multiset" "HOL-Library.Sublist"
begin

section \<open>The class Stacking (leetcode/stack.cpp)\<close>

text \<open>
  The next-greater searches that share the routine \<open>nextGreater\<close>, the next larger number with the same
  digits, and the bracket and letter stacks of the class. A stack has its top at the head of the
  list; \<open>letters\<close> and \<open>_stack\<close> are read from both ends or iterated and are kept with the back at the head.
\<close>

subsection \<open>Next greater positions\<close>

fun process_stack :: "bool \<Rightarrow> int list \<Rightarrow> nat list \<Rightarrow> int list \<Rightarrow> nat \<Rightarrow> nat list \<times> int list" where
  "process_stack delta nums [] gr i = ([], gr)"
| "process_stack delta nums (t # pending) gr i =
     (if nums ! i \<le> nums ! t then (t # pending, gr)
      else process_stack delta nums pending (gr[t := if delta then int i - int t else int i]) i)"

definition next_greater_step :: "bool \<Rightarrow> int list \<Rightarrow> nat list \<times> int list \<Rightarrow> nat \<Rightarrow> nat list \<times> int list" where
  "next_greater_step delta nums st i = (case st of (pending, gr) \<Rightarrow>
     if nums ! (i - 1) < nums ! i then process_stack delta nums pending (gr[i - 1 := if delta then 1 else int i]) i
     else ((i - 1) # pending, gr))"

definition circular_step :: "bool \<Rightarrow> int list \<Rightarrow> nat list \<times> int list \<Rightarrow> nat \<Rightarrow> nat list \<times> int list" where
  "circular_step delta nums st i = (case st of (pending, gr) \<Rightarrow>
     if pending = [] then (pending, gr) else process_stack delta nums pending gr i)"

definition nextGreater :: "int list \<Rightarrow> bool \<Rightarrow> bool \<Rightarrow> int list" where
  "nextGreater nums bCircular delta = (
     let n = length nums in
     case foldl (next_greater_step delta nums) ([], replicate n (if delta then 0 else - 1)) [1..<n] of
       (pending, gr) \<Rightarrow>
         if bCircular then snd (foldl (circular_step delta nums) ((n - 1) # pending, gr) [0..<n - 1])
         else gr)"

definition dailyTemperatures :: "int list \<Rightarrow> int list" where
  "dailyTemperatures temperatures = nextGreater temperatures False True"

definition nextGreaterElements :: "int list \<Rightarrow> int list option" where
  "nextGreaterElements nums =
     those (map (\<lambda>a. if 0 \<le> a then ivec_at nums a else Some a) (nextGreater nums True False))"

text \<open>\<open>index[n]\<close> of an \<open>unordered_map<int, int>\<close>: 0 for a new key.\<close>

definition map_index :: "(int \<rightharpoonup> int) \<Rightarrow> int \<Rightarrow> int" where
  "map_index m k = (case m k of None \<Rightarrow> 0 | Some v \<Rightarrow> v)"

definition nextGreaterElement :: "int list \<Rightarrow> int list \<Rightarrow> int list option" where
  "nextGreaterElement findNums nums = (
     let nxGreater = nextGreater nums False False;
         index = foldl (\<lambda>m k. m(nums ! k \<mapsto> nxGreater ! k)) Map.empty [0..<length nxGreater]
     in those (map (\<lambda>n. if 0 \<le> map_index index n then ivec_at nums (map_index index n) else Some (- 1)) findNums))"

fun warm_pop :: "int list \<Rightarrow> nat list \<Rightarrow> (int \<rightharpoonup> int) \<Rightarrow> nat \<Rightarrow> nat list \<times> (int \<rightharpoonup> int)" where
  "warm_pop temperatures [] warm i = ([], warm)"
| "warm_pop temperatures (t # pending) warm i =
     (if temperatures ! i \<le> temperatures ! t then (t # pending, warm)
      else warm_pop temperatures pending (warm(temperatures ! t \<mapsto> int i)) i)"

definition warm_step :: "int list \<Rightarrow> nat list \<times> (int \<rightharpoonup> int) \<Rightarrow> nat \<Rightarrow> nat list \<times> (int \<rightharpoonup> int)" where
  "warm_step temperatures st i = (case st of (pending, warm) \<Rightarrow>
     if temperatures ! (i - 1) < temperatures ! i
     then warm_pop temperatures pending (warm(temperatures ! (i - 1) \<mapsto> int i)) i
     else ((i - 1) # pending, warm))"

definition nextGreater_map :: "int list \<Rightarrow> int \<rightharpoonup> int" where
  "nextGreater_map temperatures = (
     case foldl (warm_step temperatures) ([], Map.empty) [1..<length temperatures] of
       (pending, warm) \<Rightarrow> foldl (\<lambda>warm t. warm(temperatures ! t \<mapsto> 0)) warm pending)"

definition nextGreaterElement_slow :: "int list \<Rightarrow> int list \<Rightarrow> int list option" where
  "nextGreaterElement_slow findNums nums = (
     let index = nextGreater_map nums
     in those (map (\<lambda>n. if map_index index n \<noteq> 0 then ivec_at nums (map_index index n) else Some (- 1)) findNums))"

subsubsection \<open>The stack holds the positions without a greater element so far\<close>

definition dist_val :: "bool \<Rightarrow> nat \<Rightarrow> nat \<Rightarrow> int" where
  "dist_val delta t i = (if delta then int i - int t else int i)"

definition found :: "bool \<Rightarrow> int list \<Rightarrow> nat list \<Rightarrow> nat \<Rightarrow> int" where
  "found delta nums ks j = (case List.find (\<lambda>k. nums ! j < nums ! k) ks of
     None \<Rightarrow> if delta then 0 else - 1 | Some k \<Rightarrow> dist_val delta j k)"

definition open_stack :: "int list \<Rightarrow> nat \<Rightarrow> nat list \<Rightarrow> bool" where
  "open_stack nums i S \<longleftrightarrow> set S = {j. j < i \<and> (\<forall>k. j < k \<and> k < i \<longrightarrow> nums ! k \<le> nums ! j)} \<and> sorted_wrt (>) S"

lemma open_stack_mono: "open_stack nums i S \<Longrightarrow> sorted_wrt (\<lambda>p q. nums ! p \<le> nums ! q) S"
  unfolding open_stack_def by (auto intro: sorted_wrt_mono_rel [of S "(>)"])

lemma distinct_desc: "sorted_wrt (>) (S :: nat list) \<Longrightarrow> distinct S"
  by (induction S) auto

lemma process_stack_spec:
  assumes "sorted_wrt (\<lambda>p q. nums ! p \<le> nums ! q) S" "\<forall>t \<in> set S. t < length gr" "distinct S"
  shows "fst (process_stack delta nums S gr i) = filter (\<lambda>t. nums ! i \<le> nums ! t) S \<and>
    length (snd (process_stack delta nums S gr i)) = length gr \<and>
    (\<forall>j < length gr. snd (process_stack delta nums S gr i) ! j =
      (if j \<in> set S \<and> nums ! j < nums ! i then dist_val delta j i else gr ! j))"
  using assms
proof (induction S arbitrary: gr)
  case (Cons t S)
  show ?case
  proof (cases "nums ! i \<le> nums ! t")
    case True
    then have "\<forall>s \<in> set S. nums ! i \<le> nums ! s" using Cons.prems(1) by auto
    then show ?thesis using True by (auto simp: filter_id_conv)
  next
    case False
    then show ?thesis using Cons.IH [of "gr[t := dist_val delta t i]"] Cons.prems
      by (auto simp: dist_val_def nth_list_update)
  qed
qed simp

lemma open_stack_step:
  assumes "open_stack nums i S"
  shows "open_stack nums (Suc i) (i # filter (\<lambda>t. nums ! i \<le> nums ! t) S)"
proof -
  have S: "set S = {j. j < i \<and> (\<forall>k. j < k \<and> k < i \<longrightarrow> nums ! k \<le> nums ! j)}" "sorted_wrt (>) S"
    using assms by (simp_all add: open_stack_def)
  have "j \<in> set (i # filter (\<lambda>t. nums ! i \<le> nums ! t) S) \<longleftrightarrow>
      j < Suc i \<and> (\<forall>k. j < k \<and> k < Suc i \<longrightarrow> nums ! k \<le> nums ! j)" for j
  proof (cases "j = i")
    case False
    have "(\<forall>k. j < k \<and> k < Suc i \<longrightarrow> nums ! k \<le> nums ! j) \<longleftrightarrow>
        nums ! i \<le> nums ! j \<and> (\<forall>k. j < k \<and> k < i \<longrightarrow> nums ! k \<le> nums ! j)" if "j < i"
      using that less_Suc_eq by metis
    then show ?thesis using False S(1) by (auto simp: less_Suc_eq)
  qed auto
  moreover have "sorted_wrt (>) (i # filter (\<lambda>t. nums ! i \<le> nums ! t) S)" using S by (auto simp: sorted_wrt_filter)
  ultimately show ?thesis unfolding open_stack_def by blast
qed

lemma open_stack_find:
  assumes "open_stack nums i S" "j < i"
  shows "j \<in> set S \<longleftrightarrow> List.find (\<lambda>k. nums ! j < nums ! k) [Suc j..<i] = None"
proof -
  have "(\<forall>k. j < k \<and> k < i \<longrightarrow> nums ! k \<le> nums ! j) \<longleftrightarrow> List.find (\<lambda>k. nums ! j < nums ! k) [Suc j..<i] = None"
    unfolding find_None_iff by (auto simp: Suc_le_eq linorder_not_less [symmetric])
  then show ?thesis using assms by (simp add: open_stack_def)
qed

lemma found_Suc:
  assumes "open_stack nums i S" "j < i"
  shows "found delta nums [Suc j..<Suc i] j =
    (if j \<in> set S \<and> nums ! j < nums ! i then dist_val delta j i else found delta nums [Suc j..<i] j)"
proof -
  show ?thesis using assms(2) open_stack_find [OF assms]
    by (auto simp: found_def find_append not_less split: option.split)
qed

lemma those_map_Some: "those (map Some xs) = Some xs"
  by (induction xs) auto

lemma found_empty: "found delta nums [] j = (if delta then 0 else - 1)"
  by (simp add: found_def)

lemma next_greater_loop:
  assumes "1 \<le> n" "n \<le> length nums"
  shows "case foldl (next_greater_step delta nums) ([], replicate (length nums) (if delta then 0 else - 1)) [1..<n] of
    (pending, gr) \<Rightarrow> open_stack nums n ((n - 1) # pending) \<and> length gr = length nums \<and>
      (\<forall>j < length nums. gr ! j = found delta nums [Suc j..<n] j)"
  using assms
proof (induction n rule: nat_induct_at_least)
  case base
  have "open_stack nums 1 [0]" by (auto simp: open_stack_def)
  then show ?case by (auto simp: found_empty)
next
  case (Suc n)
  obtain pending gr where st: "foldl (next_greater_step delta nums) ([], replicate (length nums) (if delta then 0 else - 1)) [1..<n] = (pending, gr)"
    by (rule prod.exhaust)
  then have IH: "open_stack nums n ((n - 1) # pending)" "length gr = length nums"
    "\<And>j. j < length nums \<Longrightarrow> gr ! j = found delta nums [Suc j..<n] j"
    using Suc by auto
  have step: "foldl (next_greater_step delta nums) ([], replicate (length nums) (if delta then 0 else - 1)) [1..<Suc n]
      = next_greater_step delta nums (pending, gr) n" using Suc.hyps st by simp
  define S where "S = (n - 1) # pending"
  have S: "sorted_wrt (\<lambda>p q. nums ! p \<le> nums ! q) S" "\<forall>t \<in> set S. t < length gr" "distinct S"
    using IH(1,2) Suc.prems open_stack_mono [OF IH(1)] unfolding S_def [symmetric] open_stack_def
    by (auto intro: distinct_desc)
  have "process_stack delta nums S gr n = next_greater_step delta nums (pending, gr) n" if "nums ! (n - 1) < nums ! n"
    using that Suc.hyps by (simp add: S_def next_greater_step_def of_nat_diff)
  moreover have "process_stack delta nums S gr n = next_greater_step delta nums (pending, gr) n" if "\<not> nums ! (n - 1) < nums ! n"
    using that by (simp add: S_def next_greater_step_def)
  ultimately have run: "next_greater_step delta nums (pending, gr) n = process_stack delta nums S gr n" by metis
  have "open_stack nums (Suc n) (n # fst (process_stack delta nums S gr n))"
    using process_stack_spec [OF S] open_stack_step [OF IH(1)] unfolding S_def [symmetric] by simp
  moreover have "snd (process_stack delta nums S gr n) ! j = found delta nums [Suc j..<Suc n] j" if "j < length nums" for j
  proof (cases "j < n")
    case True
    then show ?thesis using process_stack_spec [OF S, of delta n] IH(2,3) that found_Suc [OF IH(1) True] unfolding S_def by simp
  next
    case False
    then have "j \<notin> set S" using IH(1) by (auto simp: open_stack_def S_def)
    then show ?thesis using process_stack_spec [OF S, of delta n] IH(2) IH(3) [OF that] that False by (simp add: found_empty)
  qed
  moreover have "length (snd (process_stack delta nums S gr n)) = length nums" using process_stack_spec [OF S] IH(2) by simp
  ultimately show ?case unfolding step run by (auto split: prod.split)
qed

lemma nextGreater_linear:
  "nextGreater nums False delta = map (\<lambda>j. found delta nums [Suc j..<length nums] j) [0..<length nums]"
proof (cases "nums = []")
  case True
  then show ?thesis by (simp add: nextGreater_def)
next
  case False
  then have "1 \<le> length nums" by (cases nums) auto
  from next_greater_loop [OF this order_refl, of delta] show ?thesis
    by (auto simp: nextGreater_def Let_def intro!: nth_equalityI)
qed

text \<open>\<open>dailyTemperatures\<close> gives for every day the number of days to the next warmer one, 0 if there is none.\<close>

theorem dailyTemperatures_correct:
  "dailyTemperatures temperatures = map (\<lambda>i. case List.find (\<lambda>k. temperatures ! i < temperatures ! k) [Suc i..<length temperatures] of
     None \<Rightarrow> 0 | Some k \<Rightarrow> int k - int i) [0..<length temperatures]"
  unfolding dailyTemperatures_def nextGreater_linear
  by (rule map_cong) (auto simp: found_def dist_val_def split: option.split)
subsubsection \<open>The circular array\<close>

lemma circular_loop:
  assumes "open_stack nums n S" "length gr = n" "n = length nums" "m \<le> n - 1"
  shows "case foldl (circular_step False nums) (S, gr) [0..<m] of (S', gr') \<Rightarrow>
    S' = filter (\<lambda>t. \<forall>k < m. nums ! k \<le> nums ! t) S \<and> length gr' = n \<and>
    (\<forall>j < n. gr' ! j = (if j \<in> set S then found False nums [0..<m] j else gr ! j))
    \<or> (\<exists>j \<in> set S. gr ! j \<noteq> - 1)"
  using assms(4)
proof (induction m)
  case 0
  then show ?case using assms(2) by (auto simp: found_empty)
next
  case (Suc m)
  show ?case
  proof (cases "\<exists>j \<in> set S. gr ! j \<noteq> - 1")
    case False
    obtain S' gr' where st: "foldl (circular_step False nums) (S, gr) [0..<m] = (S', gr')" by (rule prod.exhaust)
    then have IH: "S' = filter (\<lambda>t. \<forall>k < m. nums ! k \<le> nums ! t) S" "length gr' = n"
      "\<And>j. j < n \<Longrightarrow> gr' ! j = (if j \<in> set S then found False nums [0..<m] j else gr ! j)"
      using Suc False by auto
    have S: "sorted_wrt (\<lambda>p q. nums ! p \<le> nums ! q) S'" "\<forall>t \<in> set S'. t < length gr'" "distinct S'"
      using assms(1,3) IH(2) open_stack_mono [OF assms(1)] distinct_desc
      by (auto simp: IH(1) sorted_wrt_filter open_stack_def)
    have run: "circular_step False nums (S', gr') m = process_stack False nums S' gr' m" by (simp add: circular_step_def)
    note P = process_stack_spec [OF S, of False m]
    have "snd (process_stack False nums S' gr' m) ! j = (if j \<in> set S then found False nums [0..<Suc m] j else gr ! j)" if "j < n" for j
    proof (cases "j \<in> set S")
      case True
      have "j \<in> set S' \<longleftrightarrow> List.find (\<lambda>k. nums ! j < nums ! k) [0..<m] = None"
        using True by (auto simp: IH(1) find_None_iff linorder_not_less [symmetric])
      then show ?thesis using True P IH(2) IH(3) [OF that] that
        by (auto simp: found_def find_append linorder_not_less dist_val_def split: option.split)
    qed (use P IH that in auto)
    moreover have "filter (\<lambda>t. nums ! m \<le> nums ! t) S' = filter (\<lambda>t. \<forall>k < Suc m. nums ! k \<le> nums ! t) S"
      by (auto simp: IH(1) less_Suc_eq intro!: filter_cong)
    ultimately show ?thesis using P IH(2) by (auto simp: st run split: prod.split)
  qed auto
qed

lemma find_wrapped:
  assumes "j < n" "\<And>k. j \<le> k \<Longrightarrow> k < n \<Longrightarrow> \<not> P k"
  shows "List.find P [0..<n - 1] = List.find P [0..<j]"
proof -
  have "[0..<n - 1] = [0..<j] @ [j..<n - 1]" using upt_add_eq_append [of 0 j "n - 1 - j"] assms(1) by simp
  moreover have "List.find P [j..<n - 1] = None" using assms(2) by (auto simp: find_None_iff)
  ultimately show ?thesis by (simp add: find_append split: option.split)
qed

lemma circular_index:
  assumes "nums \<noteq> []" "n = length nums"
  shows "length (nextGreater nums True False) = n \<and>
    (\<forall>j < n. nextGreater nums True False ! j = found False nums ([Suc j..<n] @ [0..<j]) j)"
proof -
  have n: "1 \<le> n" using assms by (cases nums) auto
  obtain pending gr where st: "foldl (next_greater_step False nums) ([], replicate n (- 1)) [1..<n] = (pending, gr)"
    by (rule prod.exhaust)
  define S where "S = (n - 1) # pending"
  have L: "open_stack nums n S" "length gr = n" "\<And>j. j < n \<Longrightarrow> gr ! j = found False nums [Suc j..<n] j"
    using next_greater_loop [of n nums False] n st by (auto simp: assms(2) S_def)
  have none: "List.find (\<lambda>k. nums ! j < nums ! k) [Suc j..<n] = None" if "j \<in> set S" for j
    using that L(1) open_stack_find [OF L(1), of j] by (auto simp: open_stack_def)
  have some: "List.find (\<lambda>k. nums ! j < nums ! k) [Suc j..<n] \<noteq> None" if "j \<notin> set S" "j < n" for j
    using that open_stack_find [OF L(1), of j] by simp
  have "\<not> (\<exists>j \<in> set S. gr ! j \<noteq> - 1)" using L(3) none L(1) by (auto simp: found_def open_stack_def)
  moreover have "nextGreater nums True False = snd (foldl (circular_step False nums) (S, gr) [0..<n - 1])"
    unfolding nextGreater_def Let_def assms(2) [symmetric] by (simp only: st prod.case if_True if_False S_def)
  ultimately have C: "length (nextGreater nums True False) = n \<and> (\<forall>j < n. nextGreater nums True False ! j =
      (if j \<in> set S then found False nums [0..<n - 1] j else gr ! j))"
    using circular_loop [OF L(1,2) assms(2) order_refl] by (auto split: prod.splits)
  have "nextGreater nums True False ! j = found False nums ([Suc j..<n] @ [0..<j]) j" if "j < n" for j
  proof (cases "j \<in> set S")
    case True
    have "\<not> nums ! j < nums ! k" if "j \<le> k" "k < n" for k
      using True L(1) that by (cases "k = j") (auto simp: open_stack_def not_less)
    then have "List.find (\<lambda>k. nums ! j < nums ! k) [0..<n - 1] = List.find (\<lambda>k. nums ! j < nums ! k) [0..<j]"
      by (rule find_wrapped [OF that])
    then show ?thesis using C that True none [OF True] by (simp add: found_def find_append)
  next
    case False
    then show ?thesis using C that L(3) [OF that] some [OF False that]
      by (auto simp: found_def find_append split: option.split)
  qed
  then show ?thesis using C by blast
qed

text \<open>C30: The two solutions of the circular problem agree: \<open>nextGreaterElements\<close>, which goes round the array with one
  stack, never reads outside the array and returns what \<open>nextGreaterElementsII\<close> computes from two linear scans.\<close>

theorem nextGreaterElements_agree: "nextGreaterElements nums = Some (nextGreaterElementsII nums)"
proof (cases "nums = []")
  case True
  then show ?thesis by (simp add: nextGreaterElements_def nextGreater_def nextGreaterElementsII_def)
next
  case False
  define n where "n = length nums"
  note C = circular_index [OF False n_def]
  then have idx: "nextGreater nums True False ! j = found False nums ([Suc j..<n] @ [0..<j]) j" if "j < n" for j using that by blast
  have step: "(if 0 \<le> nextGreater nums True False ! j then ivec_at nums (nextGreater nums True False ! j) else Some (nextGreater nums True False ! j)) =
     Some (nextGreaterElementsII nums ! j)" if "j < n" for j
  proof -
    have "k < n" if "List.find (\<lambda>k. nums ! j < nums ! k) ([Suc j..<n] @ [0..<j]) = Some k" for k
    proof -
      have "k \<in> set ([Suc j..<n] @ [0..<j])" using that unfolding find_Some_iff by (metis nth_mem)
      then show ?thesis using \<open>j < n\<close> by auto
    qed
    moreover have "drop (Suc j) nums = map ((!) nums) [Suc j..<n]" "take j nums = map ((!) nums) [0..<j]"
      using that by (auto intro: nth_equalityI simp: n_def)
    then have "nextGreaterElementsII nums ! j =
       (case List.find (\<lambda>k. nums ! j < nums ! k) ([Suc j..<n] @ [0..<j]) of None \<Rightarrow> - 1 | Some k \<Rightarrow> nums ! k)"
      using that unfolding next_greater_circular n_def [symmetric]
      by (simp add: find_mapped map_append [symmetric] n_def [symmetric] del: map_append split: option.split)
    ultimately show ?thesis using idx [OF that]
      by (auto simp: found_def dist_val_def n_def split: option.split)
  qed
  have "map (\<lambda>a. if 0 \<le> a then ivec_at nums a else Some a) (nextGreater nums True False) = map Some (nextGreaterElementsII nums)"
    using C step by (intro nth_equalityI) (auto simp: next_greater_circular n_def)
  then show ?thesis unfolding nextGreaterElements_def by (metis those_map_Some)
qed
subsubsection \<open>Next Greater Element I\<close>

lemma index_fold:
  assumes "distinct nums" "m \<le> length nums" "j < length nums"
  shows "foldl (\<lambda>M k. M(nums ! k \<mapsto> g k)) Map.empty [0..<m] (nums ! j) = (if j < m then Some (g j) else None)"
  using assms(2)
proof (induction m)
  case (Suc m)
  then show ?case using assms(1,3) by (auto simp: nth_eq_iff_index_eq less_Suc_eq)
qed simp

text \<open>The map \<open>warm\<close> describes the vector of \<open>nextGreater\<close>, by value instead of by position.\<close>

definition warm_of :: "int list \<Rightarrow> int list \<Rightarrow> (int \<rightharpoonup> int) \<Rightarrow> bool" where
  "warm_of nums gr warm \<longleftrightarrow> (\<forall>j < length nums. warm (nums ! j) = (if gr ! j = - 1 then None else Some (gr ! j)))"

lemma warm_of_update:
  assumes "distinct nums" "t < length nums" "length gr = length nums" "warm_of nums gr warm"
  shows "warm_of nums (gr[t := int i]) (warm(nums ! t \<mapsto> int i))"
  using assms by (auto simp: warm_of_def nth_eq_iff_index_eq nth_list_update)

lemma warm_pop_simulates:
  assumes "distinct nums" "\<forall>t \<in> set pending. t < length nums" "length gr = length nums" "warm_of nums gr warm"
  shows "fst (warm_pop nums pending warm i) = fst (process_stack False nums pending gr i) \<and>
    warm_of nums (snd (process_stack False nums pending gr i)) (snd (warm_pop nums pending warm i))"
  using assms
proof (induction pending arbitrary: gr warm)
  case (Cons t pending)
  then show ?case using warm_of_update [OF Cons.prems(1) _ Cons.prems(3,4), of t i] by auto
qed simp

lemma warm_loop:
  assumes "distinct nums" "1 \<le> n" "n \<le> length nums"
  shows "fst (foldl (warm_step nums) ([], Map.empty) [1..<n]) = fst (foldl (next_greater_step False nums) ([], replicate (length nums) (- 1)) [1..<n]) \<and>
    warm_of nums (snd (foldl (next_greater_step False nums) ([], replicate (length nums) (- 1)) [1..<n]))
      (snd (foldl (warm_step nums) ([], Map.empty) [1..<n]))"
  using assms(2,3)
proof (induction n rule: nat_induct_at_least)
  case base
  then show ?case by (simp add: warm_of_def)
next
  case (Suc n)
  obtain pending gr where st: "foldl (next_greater_step False nums) ([], replicate (length nums) (- 1)) [1..<n] = (pending, gr)"
    by (rule prod.exhaust)
  obtain pending' warm where st': "foldl (warm_step nums) ([], Map.empty) [1..<n] = (pending', warm)"
    by (rule prod.exhaust)
  have IH: "pending' = pending" "warm_of nums gr warm" using Suc st st' by auto
  have L: "open_stack nums n ((n - 1) # pending)" "length gr = length nums"
    using next_greater_loop [of n nums False] Suc st by auto
  have P: "\<forall>t \<in> set pending. t < length nums" using L(1) Suc.prems by (auto simp: open_stack_def)
  have up: "[1..<Suc n] = [1..<n] @ [n]" using Suc.hyps by simp
  have U: "warm_of nums (gr[n - 1 := int n]) (warm(nums ! (n - 1) \<mapsto> int n))"
    using Suc by (intro warm_of_update assms(1) L(2) IH(2)) simp
  show ?case
    unfolding up foldl_append using warm_pop_simulates [OF assms(1) P _ U, of n] IH L(2) st st'
    by (simp add: warm_step_def next_greater_step_def)
qed

lemma zero_fold: "foldl (\<lambda>w t. w(f t \<mapsto> 0)) w ts k = (if k \<in> f ` set ts then Some 0 else w k)"
  by (induction ts arbitrary: w) auto

lemma find_in: "List.find P xs = Some x \<Longrightarrow> x \<in> set xs"
  unfolding find_Some_iff by (metis nth_mem)

lemma those_Some_iff: "(\<And>x. x \<in> set xs \<Longrightarrow> f x = Some (g x)) \<Longrightarrow> those (map f xs) = Some (map g xs)"
  by (induction xs) auto

text \<open>Both solutions of Next Greater Element I return, for every query, the first greater element to its right in
  an array of distinct values, and \<open>-1\<close> if there is none.\<close>

theorem nextGreaterElement_correct:
  assumes "distinct nums" "set findNums \<subseteq> set nums"
  shows "nextGreaterElement findNums nums = Some (map (\<lambda>x.
       case List.find (\<lambda>y. x < y) (dropWhile (\<lambda>y. y \<noteq> x) nums) of None \<Rightarrow> - 1 | Some y \<Rightarrow> y) findNums) \<and>
     nextGreaterElement_slow findNums nums = nextGreaterElement findNums nums"
proof -
  let ?n = "length nums"
  define ng where "ng x = (case List.find (\<lambda>y. x < y) (dropWhile (\<lambda>y. y \<noteq> x) nums) of None \<Rightarrow> - 1 | Some y \<Rightarrow> y)" for x
  define ix where "ix j = found False nums [Suc j..<?n] j" for j
  have ng: "ng (nums ! j) = (if ix j = - 1 then - 1 else nums ! nat (ix j)) \<and> (ix j = - 1 \<or> (0 < ix j \<and> ix j < int ?n))" if "j < ?n" for j
  proof -
    have "nums ! j \<notin> set (take j nums)" using assms(1) that by (auto simp: in_set_conv_nth nth_eq_iff_index_eq)
    then have "dropWhile (\<lambda>y. y \<noteq> nums ! j) (take j nums @ nums ! j # drop (Suc j) nums) = nums ! j # drop (Suc j) nums"
      by (subst dropWhile_append2) auto
    then have "dropWhile (\<lambda>y. y \<noteq> nums ! j) nums = nums ! j # drop (Suc j) nums" using that by (simp add: id_take_nth_drop [symmetric])
    moreover have "drop (Suc j) nums = map ((!) nums) [Suc j..<?n]" using that by (auto intro: nth_equalityI)
    ultimately have "ng (nums ! j) = (case List.find (\<lambda>k. nums ! j < nums ! k) [Suc j..<?n] of None \<Rightarrow> - 1 | Some k \<Rightarrow> nums ! k)"
      by (simp add: ng_def find_mapped split: option.split)
    then show ?thesis by (auto simp: ix_def found_def dist_val_def split: option.split dest: find_in)
  qed
  have in_nums: "\<exists>j < ?n. x = nums ! j" if "x \<in> set findNums" for x
    using that assms(2) by (metis in_set_conv_nth subsetD)
  have fast: "nextGreaterElement findNums nums = Some (map ng findNums)"
  proof -
    define index where "index = foldl (\<lambda>m k. m(nums ! k \<mapsto> nextGreater nums False False ! k)) Map.empty [0..<?n]"
    have "map_index index (nums ! j) = ix j" if "j < ?n" for j
      using index_fold [OF assms(1) order_refl that, of "\<lambda>k. nextGreater nums False False ! k"] that
      by (simp add: index_def map_index_def nextGreater_linear ix_def)
    then have "(if 0 \<le> map_index index x then ivec_at nums (map_index index x) else Some (- 1)) = Some (ng x)"
      if "x \<in> set findNums" for x
      using in_nums [OF that] ng by fastforce
    then have "those (map (\<lambda>x. if 0 \<le> map_index index x then ivec_at nums (map_index index x) else Some (- 1)) findNums) = Some (map ng findNums)"
      by (rule those_Some_iff)
    moreover have "length (nextGreater nums False False) = ?n" by (simp add: nextGreater_linear)
    ultimately show ?thesis unfolding nextGreaterElement_def Let_def index_def by (simp only:)
  qed
  have slow: "nextGreaterElement_slow findNums nums = Some (map ng findNums)"
  proof (cases "nums = []")
    case True
    then show ?thesis using assms(2) by (simp add: nextGreaterElement_slow_def)
  next
    case False
    then have n: "1 \<le> ?n" by (cases nums) auto
    obtain pending gr where st: "foldl (next_greater_step False nums) ([], replicate ?n (- 1)) [1..<?n] = (pending, gr)"
      by (rule prod.exhaust)
    have L: "open_stack nums ?n ((?n - 1) # pending)" "\<And>j. j < ?n \<Longrightarrow> gr ! j = ix j"
      using next_greater_loop [OF n order_refl, of False] st by (auto simp: ix_def)
    obtain warm where st': "foldl (warm_step nums) ([], Map.empty) [1..<?n] = (pending, warm)" "warm_of nums gr warm"
      using warm_loop [OF assms(1) n order_refl] st by (metis fst_conv snd_conv surj_pair)
    have idx: "map_index (nextGreater_map nums) (nums ! j) = (if ix j = - 1 then 0 else ix j)" if "j < ?n" for j
    proof -
      have map: "nextGreater_map nums = foldl (\<lambda>warm t. warm(nums ! t \<mapsto> 0)) warm pending"
        unfolding nextGreater_map_def by (simp only: st' prod.case)
      have "ix j = - 1" if hit: "nums ! j \<in> (!) nums ` set pending"
      proof -
        obtain t where t: "t \<in> set pending" "nums ! j = nums ! t" using hit by auto
        have "t < ?n" using t(1) L(1) by (auto simp: open_stack_def)
        then have "j \<in> set ((?n - 1) # pending)" using t assms(1) \<open>j < ?n\<close> by (simp add: nth_eq_iff_index_eq)
        then show ?thesis using open_stack_find [OF L(1) \<open>j < ?n\<close>] by (simp add: ix_def found_def)
      qed
      then show ?thesis using st'(2) L(2) that unfolding map zero_fold map_index_def by (auto simp: warm_of_def)
    qed
    have "(if map_index (nextGreater_map nums) x \<noteq> 0 then ivec_at nums (map_index (nextGreater_map nums) x) else Some (- 1)) = Some (ng x)"
      if "x \<in> set findNums" for x
      using in_nums [OF that] ng idx by fastforce
    then show ?thesis unfolding nextGreaterElement_slow_def Let_def by (rule those_Some_iff)
  qed
  show ?thesis using fast slow by (simp add: ng_def [abs_def])
qed

theorem nextGreaterElement_witness:
  "nextGreaterElement [4, 1, 2] [1, 3, 4, 2] = Some (map (\<lambda>x.
       case List.find (\<lambda>y. x < y) (dropWhile (\<lambda>y. y \<noteq> x) [1, 3, 4, 2]) of None \<Rightarrow> - 1 | Some y \<Rightarrow> y) [4, 1, 2]) \<and>
     nextGreaterElement_slow [4, 1, 2] [1, 3, 4, 2] = nextGreaterElement [4, 1, 2] [1, 3, 4, 2]"
  by (rule nextGreaterElement_correct) auto
subsection \<open>Parentheses\<close>

text \<open>Any character but \<open>'('\<close> counts as a closing one.\<close>

fun paren_loop :: "string \<Rightarrow> string \<Rightarrow> int \<Rightarrow> string \<times> int" where
  "paren_loop [] paren count_bad = (paren, count_bad)"
| "paren_loop (c # S) paren count_bad =
     (if c = CHR ''('' then paren_loop S (c # paren) count_bad
      else (case paren of [] \<Rightarrow> paren_loop S paren (count_bad + 1) | _ # paren' \<Rightarrow> paren_loop S paren' count_bad))"

definition minAddToMakeValid :: "string \<Rightarrow> int" where
  "minAddToMakeValid S = (case paren_loop S [] 0 of (paren, count_bad) \<Rightarrow> count_bad + int (length paren))"

fun borrowed_loop :: "string \<Rightarrow> int \<Rightarrow> int \<Rightarrow> int" where
  "borrowed_loop [] opn close = opn + close"
| "borrowed_loop (c # S) opn close =
     (if c = CHR ''('' then borrowed_loop S (opn + 1) close
      else if opn > 0 then borrowed_loop S (opn - 1) close
      else borrowed_loop S opn (close + 1))"

definition minAddToMakeValid_borrowed :: "string \<Rightarrow> int" where
  "minAddToMakeValid_borrowed S = borrowed_loop S 0 0"

text \<open>\<open>balanced d w\<close>: \<open>w\<close> closes \<open>d\<close> open brackets and all of its own.\<close>

fun balanced :: "nat \<Rightarrow> string \<Rightarrow> bool" where
  "balanced d [] \<longleftrightarrow> d = 0"
| "balanced d (c # w) \<longleftrightarrow> (if c = CHR ''('' then balanced (Suc d) w else 0 < d \<and> balanced (d - 1) w)"

lemma borrowed_loop_close: "borrowed_loop S d (c + e) = borrowed_loop S d c + e"
  by (induction S d c rule: borrowed_loop.induct) (auto simp: algebra_simps)

lemma paren_loop_borrowed:
  "(case paren_loop S paren bad of (p, b) \<Rightarrow> b + int (length p)) = borrowed_loop S (int (length paren)) bad"
  by (induction S paren bad rule: paren_loop.induct) (auto split: list.split simp: add.commute)

lemma borrowed_lower:
  "balanced d T \<Longrightarrow> subseq S T \<Longrightarrow> borrowed_loop S (int k) 0 \<le> int (length T) - int (length S) + \<bar>int k - int d\<bar>"
proof (induction T arbitrary: d k S)
  case Nil
  then have "S = []" by (simp add: list_emb_Nil2)
  with Nil(1) show ?case by simp
next
  case (Cons c T)
  have skip: "borrowed_loop S (int k) 0 \<le> int (length (c # T)) - int (length S) + \<bar>int k - int d\<bar>" if "subseq S T"
  proof (cases "c = CHR ''(''")
    case True
    then show ?thesis using Cons.IH [of "Suc d" S k] Cons.prems(1) that by fastforce
  next
    case False
    then show ?thesis using Cons.IH [of "d - 1" S k] Cons.prems(1) that by fastforce
  qed
  show ?case
  proof (cases S)
    case Nil
    then show ?thesis using skip by simp
  next
    case (Cons s S')
    consider "subseq S T" | "s = c" "subseq S' T" using Cons.prems(2) Cons by (auto split: if_splits)
    then show ?thesis
    proof cases
      case 2
      show ?thesis
      proof (cases "c = CHR ''(''")
        case True
        then have "borrowed_loop S' (int (Suc k)) 0 \<le> int (length T) - int (length S') + \<bar>int (Suc k) - int (Suc d)\<bar>"
          using Cons.IH [of "Suc d" S' "Suc k"] Cons.prems(1) 2 by simp
        then show ?thesis using True 2 Cons by (simp add: add.commute)
      next
        case False
        then have d: "0 < d" "balanced (d - 1) T" using Cons.prems(1) by auto
        show ?thesis
        proof (cases k)
          case 0
          have "borrowed_loop S' (int 0) 0 \<le> int (length T) - int (length S') + \<bar>int 0 - int (d - 1)\<bar>"
            using Cons.IH [OF d(2) 2(2)] .
          then show ?thesis using 0 False 2 Cons d(1) borrowed_loop_close [of S' 0 0 1] by (simp add: of_nat_diff)
        next
          case (Suc k')
          have "borrowed_loop S' (int k') 0 \<le> int (length T) - int (length S') + \<bar>int k' - int (d - 1)\<bar>"
            using Cons.IH [OF d(2) 2(2)] .
          then show ?thesis using Suc False 2 \<open>S = s # S'\<close> d(1) by (simp add: of_nat_diff)
        qed
      qed
    qed (use skip in simp)
  qed
qed

lemma balanced_closers: "balanced d (replicate d CHR '')'')"
  by (induction d) auto

lemma borrowed_repair:
  "\<exists>T. balanced k T \<and> subseq S T \<and> int (length T) = int (length S) + borrowed_loop S (int k) 0"
proof (induction S arbitrary: k)
  case Nil
  then show ?case using balanced_closers [of k] by (intro exI [of _ "replicate k CHR '')''"]) auto
next
  case (Cons c S)
  show ?case
  proof (cases "c = CHR ''(''")
    case True
    obtain T where "balanced (Suc k) T" "subseq S T" "int (length T) = int (length S) + borrowed_loop S (int (Suc k)) 0"
      using Cons.IH by blast
    then show ?thesis using True by (intro exI [of _ "c # T"]) (auto simp: add.commute)
  next
    case False
    show ?thesis
    proof (cases k)
      case 0
      obtain T where "balanced 0 T" "subseq S T" "int (length T) = int (length S) + borrowed_loop S 0 0"
        using Cons.IH [of 0] by auto
      then show ?thesis using 0 False borrowed_loop_close [of S 0 0 1] by (intro exI [of _ "CHR ''('' # c # T"]) auto
    next
      case (Suc k')
      obtain T where "balanced k' T" "subseq S T" "int (length T) = int (length S) + borrowed_loop S (int k') 0"
        using Cons.IH [of k'] by auto
      then show ?thesis using Suc False by (intro exI [of _ "c # T"]) auto
    qed
  qed
qed

text \<open>Both versions of \<open>minAddToMakeValid\<close> return the least number of characters that have to be inserted to make
  the string balanced.\<close>

theorem minAddToMakeValid_least:
  "minAddToMakeValid S = minAddToMakeValid_borrowed S \<and>
   (\<exists>T. balanced 0 T \<and> subseq S T \<and> int (length T) - int (length S) = minAddToMakeValid S) \<and>
   (\<forall>T. balanced 0 T \<longrightarrow> subseq S T \<longrightarrow> minAddToMakeValid S \<le> int (length T) - int (length S))"
proof -
  have eq: "minAddToMakeValid S = borrowed_loop S 0 0" using paren_loop_borrowed [of S "[]" 0] by (simp add: minAddToMakeValid_def)
  obtain T where "balanced 0 T" "subseq S T" "int (length T) = int (length S) + borrowed_loop S 0 0"
    using borrowed_repair [of 0 S] by auto
  moreover have "borrowed_loop S 0 0 \<le> int (length T) - int (length S)" if "balanced 0 T" "subseq S T" for T
    using borrowed_lower [OF that, of 0] by simp
  ultimately show ?thesis unfolding eq minAddToMakeValid_borrowed_def by (intro conjI) (auto intro!: exI [of _ T])
qed

text \<open>The positions on \<open>_stack\<close>, the back at the head.\<close>

definition paren_step :: "string \<Rightarrow> nat list \<Rightarrow> nat \<Rightarrow> nat list" where
  "paren_step s stk i =
     (if s ! i = CHR ''('' then i # stk
      else (case stk of
          [] \<Rightarrow> i # stk
        | back # stk' \<Rightarrow> if s ! back = CHR '')'' then i # stk else stk'))"

definition gap_step :: "int \<times> int \<Rightarrow> nat \<Rightarrow> int \<times> int" where
  "gap_step st pos = (case st of (prev_pos, maxParen) \<Rightarrow> (int pos, max maxParen (int pos - prev_pos - 1)))"

definition longestValidParentheses :: "string \<Rightarrow> int" where
  "longestValidParentheses s = (
     let stk = foldl (paren_step s) [] [0..<length s] in
     case foldl gap_step (- 1, 0) (rev stk) of (prev_pos, maxParen) \<Rightarrow> max maxParen (int (length s) - prev_pos - 1))"

text \<open>The height after \<open>k\<close> characters; a block is balanced when it returns to its height and never goes below.\<close>

fun height :: "string \<Rightarrow> nat \<Rightarrow> int" where
  "height s 0 = 0"
| "height s (Suc k) = height s k + (if s ! k = CHR ''('' then 1 else - 1)"

definition bal :: "string \<Rightarrow> nat \<Rightarrow> nat \<Rightarrow> bool" where
  "bal s i j \<longleftrightarrow> i \<le> j \<and> height s j = height s i \<and> (\<forall>k. i \<le> k \<and> k \<le> j \<longrightarrow> height s i \<le> height s k)"

lemma height_Cons: "height (c # s) (Suc k) = (if c = CHR ''('' then 1 else - 1) + height s k"
  by (induction k) auto

lemma height_drop: "height (drop i s) k = height s (i + k) - height s i" if "i \<le> length s"
  using that by (induction k) auto

lemma height_take: "k \<le> n \<Longrightarrow> height (take n s) k = height s k"
  by (induction k) auto

lemma balanced_height:
  "balanced d w \<longleftrightarrow> int d + height w (length w) = 0 \<and> (\<forall>k \<le> length w. 0 \<le> int d + height w k)"
proof (induction w arbitrary: d)
  case (Cons c w)
  have split: "(\<forall>k \<le> length (c # w). P k) \<longleftrightarrow> P 0 \<and> (\<forall>k \<le> length w. P (Suc k))" for P
    by (metis (no_types, lifting) Suc_le_mono le0 length_Cons not0_implies_Suc)
  show ?case
  proof (cases "c = CHR ''(''")
    case True
    then show ?thesis using Cons.IH [of "Suc d"] unfolding split by (simp add: height_Cons algebra_simps del: height.simps(2))
  next
    case False
    show ?thesis
    proof (cases d)
      case 0
      then show ?thesis using False unfolding split by (auto simp: height_Cons simp del: height.simps(2) dest: spec [of _ 0])
    next
      case (Suc d')
      then show ?thesis using False Cons.IH [of d'] unfolding split by (simp add: height_Cons del: height.simps(2))
    qed
  qed
qed auto

lemma bal_balanced: "i \<le> j \<Longrightarrow> j \<le> length s \<Longrightarrow> balanced 0 (take (j - i) (drop i s)) \<longleftrightarrow> bal s i j"
proof -
  assume ij: "i \<le> j" "j \<le> length s"
  have h: "height (take (j - i) (drop i s)) k = height s (i + k) - height s i" if "k \<le> j - i" for k
    using height_take [OF that, of "drop i s"] height_drop [of i s k] ij by simp
  have "(\<forall>k \<le> j - i. 0 \<le> height s (i + k) - height s i) \<longleftrightarrow> (\<forall>k. i \<le> k \<and> k \<le> j \<longrightarrow> height s i \<le> height s k)"
  proof (intro iffI allI impI)
    fix k assume "\<forall>k \<le> j - i. 0 \<le> height s (i + k) - height s i" "i \<le> k \<and> k \<le> j"
    then show "height s i \<le> height s k" by (metis add.commute diff_ge_0_iff_ge diff_le_mono le_add_diff_inverse2)
  qed (use ij in auto)
  then show ?thesis using ij h by (simp add: balanced_height bal_def)
qed
text \<open>
  The invariant of the first loop: the blocks between the positions on the stack are balanced, and below an
  unmatched \<open>')'\<close> there are only unmatched \<open>')'\<close>.
\<close>

fun blocks :: "string \<Rightarrow> nat list \<Rightarrow> nat \<Rightarrow> bool" where
  "blocks s [] i \<longleftrightarrow> bal s 0 i"
| "blocks s (p # stk) i \<longleftrightarrow> p < i \<and> bal s (Suc p) i \<and> blocks s stk p \<and>
     (if s ! p = CHR ''('' then True else s ! p = CHR '')'' \<and> (\<forall>q \<in> set stk. s ! q = CHR '')''))"

lemma bal_refl: "bal s i i"
  by (auto simp: bal_def dest: le_antisym)

lemma bal_trans: "bal s i j \<Longrightarrow> bal s j k \<Longrightarrow> bal s i k"
  unfolding bal_def by (metis le_trans linorder_le_cases)

lemma bal_mid: "bal s i j \<Longrightarrow> i \<le> k \<Longrightarrow> k \<le> j \<Longrightarrow> height s i \<le> height s k"
  by (simp add: bal_def)

lemma bal_wrap: "bal s (Suc b) i \<Longrightarrow> s ! b = CHR ''('' \<Longrightarrow> s ! i \<noteq> CHR ''('' \<Longrightarrow> bal s b (Suc i)"
proof -
  assume A: "bal s (Suc b) i" "s ! b = CHR ''(''" "s ! i \<noteq> CHR ''(''"
  have ends: "Suc b \<le> i" "height s i = height s b + 1" using A by (auto simp: bal_def)
  have "height s b \<le> height s k" if "b \<le> k" "k \<le> Suc i" for k
  proof -
    have "k = b \<or> k = Suc i \<or> (Suc b \<le> k \<and> k \<le> i)" using that by linarith
    then show ?thesis using A(2,3) ends bal_mid [OF A(1), of k] by auto
  qed
  then show ?thesis using A(3) ends unfolding bal_def by simp
qed

lemma blocks_close:
  "blocks s stk b \<Longrightarrow> bal s b j \<Longrightarrow> b \<le> j \<Longrightarrow> blocks s stk j"
  by (cases stk) (auto intro: bal_trans)

lemma paren_step_blocks:
  assumes "blocks s stk i" "s ! i \<in> {CHR ''('', CHR '')''}"
  shows "blocks s (paren_step s stk i) (Suc i)"
proof (cases "s ! i = CHR ''(''")
  case True
  then show ?thesis using assms by (auto simp: paren_step_def bal_refl)
next
  case False
  then have close: "s ! i = CHR '')''" using assms(2) by simp
  show ?thesis
  proof (cases stk)
    case Nil
    then show ?thesis using assms False close by (simp add: paren_step_def bal_refl)
  next
    case (Cons b stk')
    show ?thesis
    proof (cases "s ! b = CHR ''(''")
      case True
      have b: "bal s (Suc b) i" "blocks s stk' b" "b < i" using assms(1) Cons by auto
      have "bal s b (Suc i)" using bal_wrap [OF b(1) True False] .
      then have "blocks s stk' (Suc i)" using b by (intro blocks_close [OF b(2)]) auto
      then show ?thesis using Cons False True by (simp add: paren_step_def)
    next
      case F: False
      then show ?thesis using assms(1) Cons close by (auto simp: paren_step_def bal_refl)
    qed
  qed
qed

lemma paren_blocks:
  assumes "set s \<subseteq> {CHR ''('', CHR '')''}" "n \<le> length s"
  shows "blocks s (foldl (paren_step s) [] [0..<n]) n"
  using assms(2)
proof (induction n)
  case (Suc n)
  then have "s ! n \<in> {CHR ''('', CHR '')''}" using assms(1) by (meson Suc_le_lessD nth_mem subsetD)
  then show ?case using Suc paren_step_blocks by simp
qed (simp add: bal_refl)

text \<open>The block that ends at \<open>i\<close> begins after the top of the stack.\<close>

definition after_top :: "nat list \<Rightarrow> nat" where
  "after_top stk = (case stk of [] \<Rightarrow> 0 | p # _ \<Rightarrow> Suc p)"

lemma blocks_top: "blocks s stk i \<Longrightarrow> bal s (after_top stk) i"
  by (cases stk) (auto simp: after_top_def)

lemma blocks_less: "blocks s stk i \<Longrightarrow> p \<in> set stk \<Longrightarrow> p < i"
  by (induction stk arbitrary: i) fastforce+

text \<open>A balanced block contains no position of the stack.\<close>

lemma bal_avoids_open:
  assumes "bal s (Suc p) e" "s ! p = CHR ''(''" "bal s i j" "i \<le> p" "p < j" "j \<le> e"
  shows False
proof -
  have "height s i \<le> height s p" "height s (Suc p) \<le> height s j"
    using assms bal_mid [OF assms(3), of p] bal_mid [OF assms(1), of j] by simp_all
  then show False using assms(2,3) by (simp add: bal_def)
qed

lemma bal_avoids_close:
  assumes "bal s b p" "s ! p = CHR '')''" "bal s i j" "b \<le> i" "i \<le> p" "p < j"
  shows False
proof -
  have "height s b \<le> height s i" "height s b = height s p" "height s i \<le> height s (Suc p)"
    using assms bal_mid [OF assms(1), of i] bal_mid [OF assms(3), of "Suc p"] by (simp_all add: bal_def)
  then show False using assms(2) by simp
qed

lemma bal_in_block:
  assumes "blocks s stk e" "bal s i j" "j \<le> e" "\<forall>q \<in> set stk. s ! q = CHR '')''"
  shows "\<forall>p \<in> set stk. p < i \<or> j \<le> p"
  using assms
proof (induction stk arbitrary: e)
  case (Cons p stk)
  show ?case
  proof (cases "j \<le> p")
    case True
    then show ?thesis using Cons by auto
  next
    case False
    have "p < i"
    proof (rule ccontr)
      assume "\<not> p < i"
      have "\<exists>b \<in> insert p (set stk). \<exists>stk'. i \<le> b \<and> b < j \<and> blocks s stk' b \<and> after_top stk' \<le> i \<and> s ! b = CHR '')''"
        using Cons.prems(1,4) \<open>\<not> p < i\<close> False
      proof (induction stk arbitrary: p e)
        case Nil
        then show ?case by (auto simp: after_top_def intro!: exI [of _ "[]"])
      next
        case (Cons q stk)
        show ?case
        proof (cases "q < i")
          case True
          then show ?thesis using Cons.prems by (intro bexI [of _ p] exI [of _ "q # stk"]) (auto simp: after_top_def)
        next
          case F: False
          then show ?thesis using Cons.IH [of q p] Cons.prems by auto
        qed
      qed
      then obtain b stk' where "i \<le> b" "b < j" "blocks s stk' b" "after_top stk' \<le> i" "s ! b = CHR '')''" by blast
      then show False using bal_avoids_close [OF blocks_top] Cons.prems(2) by blast
    qed
    moreover have "\<forall>q \<in> set stk. q < p" using Cons.prems(1) blocks_less by auto
    ultimately show ?thesis by auto
  qed
qed simp

lemma bal_in_gap:
  assumes "blocks s stk e" "bal s i j" "j \<le> e"
  shows "\<forall>p \<in> set stk. p < i \<or> j \<le> p"
  using assms
proof (induction stk arbitrary: e)
  case (Cons p stk)
  show ?case
  proof (cases "s ! p = CHR ''(''")
    case True
    then have "p < i \<or> j \<le> p" using bal_avoids_open [of s p e i j] Cons.prems by (cases "p < i"; cases "j \<le> p") auto
    moreover have "\<forall>q \<in> set stk. q < p" using Cons.prems(1) blocks_less by auto
    ultimately show ?thesis using Cons by (cases "j \<le> p") auto
  next
    case False
    then show ?thesis using bal_in_block [OF Cons.prems] Cons.prems(1) by auto
  qed
qed simp

text \<open>\<open>gap_max\<close>: the maximum over the gaps, as the second loop computes it.\<close>

lemma gap_fold:
  assumes "blocks s stk e"
  shows "fst (foldl gap_step (- 1, 0) (rev stk)) = int (after_top stk) - 1 \<and>
    (\<forall>i j. bal s i j \<longrightarrow> j \<le> e \<longrightarrow> (i \<ge> after_top stk \<or> int j - int i \<le> snd (foldl gap_step (- 1, 0) (rev stk)))) \<and>
    0 \<le> snd (foldl gap_step (- 1, 0) (rev stk)) \<and>
    (\<exists>i j. i \<le> j \<and> j \<le> e \<and> bal s i j \<and> snd (foldl gap_step (- 1, 0) (rev stk)) = int j - int i)"
  using assms
proof (induction stk arbitrary: e)
  case Nil
  then show ?case by (auto simp: after_top_def intro: exI [of _ 0] bal_refl)
next
  case (Cons p stk)
  define m where "m = snd (foldl gap_step (- 1, 0) (rev stk))"
  have B: "blocks s stk p" "bal s (after_top stk) p" "p < e" using Cons.prems blocks_top by auto
  have IH: "fst (foldl gap_step (- 1, 0) (rev stk)) = int (after_top stk) - 1"
    "\<And>i j. bal s i j \<Longrightarrow> j \<le> p \<Longrightarrow> i \<ge> after_top stk \<or> int j - int i \<le> m" "0 \<le> m"
    "\<exists>i j. i \<le> j \<and> j \<le> p \<and> bal s i j \<and> m = int j - int i"
    using Cons.IH [OF B(1)] by (auto simp: m_def)
  have step: "foldl gap_step (- 1, 0) (rev (p # stk)) = (int p, max m (int p - int (after_top stk)))"
    using IH(1) by (simp add: gap_step_def m_def split_beta)
  have top: "after_top (p # stk) = Suc p" by (simp add: after_top_def)
  have upper: "i \<ge> Suc p \<or> int j - int i \<le> max m (int p - int (after_top stk))" if "bal s i j" "j \<le> e" for i j
  proof -
    have "p < i \<or> j \<le> p" using bal_in_gap [OF Cons.prems that] by simp
    then show ?thesis using IH(2) [OF that(1)] by (auto simp: Suc_le_eq)
  qed
  have "\<exists>i j. i \<le> j \<and> j \<le> e \<and> bal s i j \<and> max m (int p - int (after_top stk)) = int j - int i"
  proof (cases "m \<le> int p - int (after_top stk)")
    case True
    then show ?thesis using B by (intro exI [of _ "after_top stk"] exI [of _ p]) (auto simp: bal_def)
  next
    case False
    then show ?thesis using IH(4) B(3) by (metis less_imp_le max.absorb1 le_trans linorder_not_le)
  qed
  then show ?case using upper IH(3) unfolding step top by auto
qed

text \<open>\<open>longestValidParentheses\<close> is the greatest length of a balanced block of a string of parentheses.\<close>

theorem longestValidParentheses_correct:
  assumes "set s \<subseteq> {CHR ''('', CHR '')''}"
  shows "longestValidParentheses s =
    Max {int (j - i) |i j. i \<le> j \<and> j \<le> length s \<and> balanced 0 (take (j - i) (drop i s))}"
proof -
  define stk where "stk = foldl (paren_step s) [] [0..<length s]"
  have B: "blocks s stk (length s)" unfolding stk_def by (rule paren_blocks [OF assms order_refl])
  note G = gap_fold [OF B]
  define m where "m = snd (foldl gap_step (- 1, 0) (rev stk))"
  let ?R = "max m (int (length s) - int (after_top stk))"
  have R: "longestValidParentheses s = ?R"
    using G by (simp add: longestValidParentheses_def Let_def stk_def [symmetric] m_def split_beta)
  let ?S = "{int (j - i) |i j. i \<le> j \<and> j \<le> length s \<and> bal s i j}"
  have S: "{int (j - i) |i j. i \<le> j \<and> j \<le> length s \<and> balanced 0 (take (j - i) (drop i s))} = ?S"
    using bal_balanced by blast
  have "?S \<subseteq> {0..int (length s)}" by auto
  then have fin: "finite ?S" by (rule finite_subset) simp
  have upper: "x \<le> ?R" if "x \<in> ?S" for x
  proof -
    obtain i j where x: "x = int (j - i)" "i \<le> j" "j \<le> length s" "bal s i j" using \<open>x \<in> ?S\<close> by blast
    then have "i \<ge> after_top stk \<or> int j - int i \<le> m" using G by (simp add: m_def)
    then show ?thesis using x(1,2,3) by auto
  qed
  have "?R \<in> ?S"
  proof (cases "m \<le> int (length s) - int (after_top stk)")
    case True
    have T: "bal s (after_top stk) (length s)" by (rule blocks_top [OF B])
    then have "?R = int (length s - after_top stk) \<and> after_top stk \<le> length s \<and> length s \<le> length s \<and> bal s (after_top stk) (length s)"
      using True by (simp add: bal_def of_nat_diff)
    then show ?thesis by blast
  next
    case False
    obtain i j where "i \<le> j" "j \<le> length s" "bal s i j" "m = int j - int i" using G by (auto simp: m_def)
    then have "?R = int (j - i) \<and> i \<le> j \<and> j \<le> length s \<and> bal s i j" using False by auto
    then show ?thesis by blast
  qed
  then show ?thesis unfolding R S using upper by (intro Max_eqI [OF fin, symmetric]) auto
qed

theorem longestValidParentheses_witness: "longestValidParentheses '')()(()'' =
    Max {int (j - i) |i j. i \<le> j \<and> j \<le> length '')()(()'' \<and> balanced 0 (take (j - i) (drop i '')()(()''))}"
  by (rule longestValidParentheses_correct) auto

lemma longestValidParentheses_example: "longestValidParentheses ''(())()(()(('' = 6"
  by code_simp
subsection \<open>Remove Duplicate Letters\<close>

fun count_letters :: "string \<Rightarrow> int list \<Rightarrow> int list option" where
  "count_letters [] cnt = Some cnt"
| "count_letters (c # s) cnt = do {
     n \<leftarrow> ivec_at cnt (code c - 97);
     cnt \<leftarrow> ivec_upd cnt (code c - 97) (n + 1);
     count_letters s cnt
   }"

fun drop_larger :: "char \<Rightarrow> string \<Rightarrow> int list \<Rightarrow> (string \<times> int list) option" where
  "drop_larger letter [] cnt = Some ([], cnt)"
| "drop_larger letter (back # letters) cnt =
     (if code letter < code back then do {
        n \<leftarrow> ivec_at cnt (code back - 97);
        if n > 1 then do {
          cnt \<leftarrow> ivec_upd cnt (code back - 97) (n - 1);
          drop_larger letter letters cnt
        } else Some (back # letters, cnt)
      } else Some (back # letters, cnt))"

fun letters_loop :: "string \<Rightarrow> string \<Rightarrow> int list \<Rightarrow> string option" where
  "letters_loop [] letters cnt = Some (rev letters)"
| "letters_loop (letter # s) letters cnt =
     (if letter \<notin> set letters then do {
        (letters, cnt) \<leftarrow> drop_larger letter letters cnt;
        letters_loop s (letter # letters) cnt
      } else do {
        n \<leftarrow> ivec_at cnt (code letter - 97);
        cnt \<leftarrow> ivec_upd cnt (code letter - 97) (n - 1);
        letters_loop s letters cnt
      })"

definition removeDuplicateLetters :: "string \<Rightarrow> string option" where
  "removeDuplicateLetters s = do {
     cnt \<leftarrow> count_letters s (replicate 26 0);
     letters_loop s [] cnt
   }"

text \<open>\<open>cover w t\<close>: \<open>t\<close> keeps every letter of \<open>w\<close> once, in the order of \<open>w\<close>.\<close>

definition cover :: "string \<Rightarrow> string \<Rightarrow> bool" where
  "cover w t \<longleftrightarrow> subseq t w \<and> distinct t \<and> set t = set w"

definition lex_le :: "string \<Rightarrow> string \<Rightarrow> bool" where
  "lex_le s t \<longleftrightarrow> s = t \<or> (s, t) \<in> lexord {(c, d). code c < code d}"

lemma lex_le_refl [simp]: "lex_le s s"
  by (simp add: lex_le_def)

lemma lex_le_trans: "lex_le s t \<Longrightarrow> lex_le t u \<Longrightarrow> lex_le s u"
  unfolding lex_le_def by (metis (mono_tags, lifting) lexord_trans case_prod_conv mem_Collect_eq less_trans transI)

lemma lex_le_diff: "code c < code d \<Longrightarrow> lex_le (u @ c # v) (u @ d # w)"
  unfolding lex_le_def by (intro disjI2) (simp add: lexord_append_leftI)

text \<open>A word may be replaced by one whose covers are among its own and are not worse.\<close>

definition improves :: "string \<Rightarrow> string \<Rightarrow> bool" where
  "improves w w' \<longleftrightarrow> (\<forall>t. cover w' t \<longrightarrow> cover w t) \<and> (\<forall>t. cover w t \<longrightarrow> (\<exists>t'. cover w' t' \<and> lex_le t' t))"

lemma improves_refl [simp]: "improves w w"
  unfolding improves_def using lex_le_refl by blast

lemma improves_trans: "improves w w' \<Longrightarrow> improves w' w'' \<Longrightarrow> improves w w''"
  unfolding improves_def by (meson lex_le_trans)

lemma subseq_append_split:
  assumes "subseq t (xs @ ys)"
  obtains t1 t2 where "t = t1 @ t2" "subseq t1 xs" "subseq t2 ys"
  using assms unfolding subseq_append_iff by blast

lemma subseq_set: "subseq t w \<Longrightarrow> set t \<subseteq> set w"
  by (induction rule: list_emb.induct) auto

lemma distinct_subseq: "subseq t w \<Longrightarrow> distinct w \<Longrightarrow> distinct t"
  by (induction rule: list_emb.induct) (auto dest: subseq_set)

lemma subseq_remove1: "subseq (remove1 x z) z"
  by (induction z) auto

lemma subseq_insert:
  assumes "subseq z q" "b \<in> set q" "b \<notin> set z" "distinct z"
  shows "\<exists>z'. subseq z' q \<and> distinct z' \<and> set z' = insert b (set z)"
  using assms
proof (induction rule: list_emb.induct)
  case (list_emb_Nil q)
  then have "subseq [b] q" by (simp add: subseq_singleton_left)
  then show ?case by (intro exI [of _ "[b]"]) simp
next
  case (list_emb_Cons z q y)
  show ?case
  proof (cases "b \<in> set q")
    case True
    then show ?thesis using list_emb_Cons by (meson list_emb.list_emb_Cons)
  next
    case False
    then have "b = y" using list_emb_Cons.prems by simp
    then have "subseq (b # z) (y # q)" using list_emb_Cons.hyps by simp
    then show ?thesis using list_emb_Cons.prems by (intro exI [of _ "b # z"]) simp
  qed
next
  case (list_emb_Cons2 x y z q)
  then have xy: "x = y" by simp
  then have "b \<in> set q" using list_emb_Cons2.prems by auto
  then obtain z' where z': "subseq z' q" "distinct z'" "set z' = insert b (set z)" using list_emb_Cons2 by auto
  moreover have "x \<notin> set z'" using z'(3) list_emb_Cons2.prems by auto
  ultimately show ?case using xy by (intro exI [of _ "x # z'"]) auto
qed

text \<open>Removing the back of the stack when a smaller letter comes and the back comes again.\<close>

lemma improves_pop:
  assumes "b \<in> set q" "c \<notin> set L" "code c < code b" "b \<notin> set L"
  shows "improves (L @ b # c # q) (L @ c # q)"
  unfolding improves_def
proof (intro conjI allI impI)
  fix t assume "cover (L @ c # q) t"
  moreover have "subseq (L @ c # q) (L @ b # c # q)" by (intro list_emb_append_mono) auto
  ultimately show "cover (L @ b # c # q) t" using assms(1) unfolding cover_def by (auto intro: subseq_order.order_trans)
next
  fix t assume t: "cover (L @ b # c # q) t"
  have sets: "set (L @ b # c # q) = set (L @ c # q)" using assms(1) by auto
  obtain u y where uy: "t = u @ y" "subseq u L" "subseq y (b # c # q)"
    using t unfolding cover_def by (meson subseq_append_split)
  show "\<exists>t'. cover (L @ c # q) t' \<and> lex_le t' t"
  proof (cases "subseq y (c # q)")
    case True
    then have "subseq t (L @ c # q)" using uy by (simp add: list_emb_append_mono)
    then show ?thesis using t sets unfolding cover_def by (intro exI [of _ t]) auto
  next
    case False
    then obtain z where z: "y = b # z" "subseq z (c # q)" using uy(3) by (cases y) (auto split: if_splits)
    have "distinct (u @ b # z)" "set (u @ b # z) = set (L @ c # q)" using t uy(1) z(1) sets unfolding cover_def by auto
    note D = this
    have "c \<notin> set u" using uy(2) assms(2) subseq_set by auto
    then have cz: "c \<in> set z" using D(2) assms(3) by auto
    define z0 where "z0 = (if hd z = c then tl z else remove1 c z)"
    have z0: "z0 = remove1 c z" using cz by (cases z) (auto simp: z0_def)
    have sub: "subseq z0 q" using z(2) unfolding z0
    proof (cases z)
      case (Cons x z1)
      show "subseq (remove1 c z) q"
      proof (cases "x = c")
        case True
        then show ?thesis using z(2) Cons by auto
      next
        case False
        then have "subseq z q" using z(2) Cons by auto
        moreover have "subseq (remove1 c z) z" by (rule subseq_remove1)
        ultimately show ?thesis by (blast intro: subseq_order.order_trans)
      qed
    qed simp
    have "b \<notin> set z0" "distinct z0" using D(1) unfolding z0 by (auto dest: notin_set_remove1)
    from subseq_insert [OF sub assms(1) this]
    obtain w where w: "subseq w q" "distinct w" "set w = insert b (set z0)" by blast
    have "set z0 = set z - {c}" using D(1) by (simp add: z0)
    then have "distinct (u @ c # w)" "set (u @ c # w) = set (L @ c # q)"
      using D w(2,3) cz \<open>c \<notin> set u\<close> assms(3) by auto
    moreover have "subseq (u @ c # w) (L @ c # q)" using uy(2) w(1) by (simp add: list_emb_append_mono)
    ultimately have "cover (L @ c # q) (u @ c # w)" by (simp add: cover_def)
    moreover have "lex_le (u @ c # w) t" unfolding uy(1) z(1) by (rule lex_le_diff [OF assms(3)])
    ultimately show ?thesis by blast
  qed
qed

text \<open>
  Skipping a letter that is already on the stack: everything behind it on the stack that is smaller is held back
  by a greater letter that does not come again.
\<close>

definition guarded :: "string \<Rightarrow> char set \<Rightarrow> bool" where
  "guarded L Q \<longleftrightarrow> (\<forall>u x v y w. L = u @ x # v @ y # w \<longrightarrow> x \<in> Q \<longrightarrow> code y < code x \<longrightarrow>
     (\<exists>z \<in> set v. code x < code z \<and> z \<notin> Q))"

lemma improves_skip:
  assumes "distinct (u @ a # v)" "guarded (u @ a # v) (insert a (set q))"
  shows "improves ((u @ a # v) @ a # q) ((u @ a # v) @ q)"
  unfolding improves_def
proof (intro conjI allI impI)
  fix t assume "cover ((u @ a # v) @ q) t"
  moreover have "subseq ((u @ a # v) @ q) ((u @ a # v) @ a # q)" by (intro list_emb_append_mono) auto
  ultimately show "cover ((u @ a # v) @ a # q) t" unfolding cover_def by (auto intro: subseq_order.order_trans)
next
  fix t assume t: "cover ((u @ a # v) @ a # q) t"
  have sets: "set ((u @ a # v) @ a # q) = set ((u @ a # v) @ q)" by auto
  obtain l y where ly: "t = l @ y" "subseq l (u @ a # v)" "subseq y (a # q)" using t unfolding cover_def by (meson subseq_append_split)
  show "\<exists>t'. cover ((u @ a # v) @ q) t' \<and> lex_le t' t"
  proof (cases "subseq y q")
    case True
    then have "subseq t ((u @ a # v) @ q)" unfolding ly(1) by (intro list_emb_append_mono ly)
    then show ?thesis using t sets unfolding cover_def by (intro exI [of _ t]) auto
  next
    case False
    then obtain z where z: "y = a # z" "subseq z q" using ly(3) by (cases y) (auto split: if_splits)
    have D: "distinct (l @ a # z)" using t ly(1) z(1) by (simp add: cover_def)
    obtain u' v' where uv: "l = u' @ v'" "subseq u' u" "subseq v' (a # v)" using ly(2) by (meson subseq_append_split)
    have "subseq v' v" using uv(3) D uv(1) by (cases v') (auto split: if_splits)
    let ?t = "u' @ a # v' @ z"
    have "subseq ?t ((u @ a # v) @ q)"
      using list_emb_append_mono [OF uv(2) list_emb_append_mono [OF list_emb_Cons2 [OF refl \<open>subseq v' v\<close>] z(2)]] by simp
    then have "cover ((u @ a # v) @ q) ?t" using t D sets unfolding cover_def ly(1) z(1) uv(1) by auto
    moreover have "lex_le ?t t"
    proof (cases v')
      case Nil
      then show ?thesis by (simp add: ly(1) z(1) uv(1))
    next
      case (Cons y0 v1)
      have "y0 \<in> set v" using \<open>subseq v' v\<close> subseq_set Cons by fastforce
      then obtain va vb where v: "v = va @ y0 # vb" by (meson split_list)
      have "code a < code y0"
      proof (rule ccontr)
        assume "\<not> code a < code y0"
        moreover have "a \<noteq> y0" using assms(1) \<open>y0 \<in> set v\<close> by auto
        ultimately have "code y0 < code a" using code_inject by (metis linorder_neqE_linordered_idom)
        then obtain g where g: "g \<in> set va" "code a < code g" "g \<notin> insert a (set q)"
          using assms(2) unfolding guarded_def v by blast
        then have "g \<in> set t" using t unfolding cover_def v by auto
        moreover have "g \<notin> set u" using assms(1) g(1) v by auto
        ultimately have "g \<in> set v'" using g(3) uv(2) z(2) subseq_set [OF uv(2)] subseq_set [OF z(2)] unfolding ly(1) z(1) uv(1) by auto
        obtain p1 p2 where p: "v' = p1 @ p2" "subseq p1 va" "subseq p2 (y0 # vb)"
          using \<open>subseq v' v\<close> unfolding v by (meson subseq_append_split)
        have dv: "distinct (va @ y0 # vb)" using assms(1) v by simp
        show False
        proof (cases p1)
          case Nil
          then show False using \<open>g \<in> set v'\<close> p subseq_set [OF p(3)] g(1) dv by auto
        next
          case (Cons p0 ps)
          then have "p0 = y0" using p(1) \<open>v' = y0 # v1\<close> by simp
          then show False using Cons p(2) subseq_set [OF p(2)] dv by auto
        qed
      qed
      then show ?thesis using lex_le_diff [of a y0 u' "v' @ z" "v1 @ a # z"] Cons by (simp add: ly(1) z(1) uv(1))
    qed
    ultimately show ?thesis by blast
  qed
qed
lemma guarded_push:
  assumes "guarded (L @ [y]) Q'" "Q \<subseteq> Q'" "code y < code c \<or> y \<notin> Q"
  shows "guarded ((L @ [y]) @ [c]) Q"
  unfolding guarded_def
proof (intro allI impI)
  fix u x v y' w
  assume eq: "(L @ [y]) @ [c] = u @ x # v @ y' # w" and x: "x \<in> Q" and less: "code y' < code x"
  have G: "\<exists>z \<in> set v0. code x < code z \<and> z \<notin> Q" if "L @ [y] = u0 @ x # v0 @ y0 # w0" "code y0 < code x" for u0 v0 y0 w0
    using assms(1,2) x that unfolding guarded_def by blast
  show "\<exists>z \<in> set v. code x < code z \<and> z \<notin> Q"
  proof (cases w rule: rev_cases)
    case (snoc w' e)
    then have "L @ [y] = u @ x # v @ y' # w'" using eq by simp
    then show ?thesis using G less by blast
  next
    case Nil
    then have c: "y' = c" "L @ [y] = u @ x # v" using eq by auto
    show ?thesis
    proof (cases v rule: rev_cases)
      case Nil
      then show ?thesis using c assms(3) x less by auto
    next
      case (snoc v0 e)
      then have v: "e = y" "L @ [y] = u @ x # v0 @ y # []" using c(2) by auto
      show ?thesis
      proof (cases "code y < code x")
        case True
        then show ?thesis using G [OF v(2)] snoc by auto
      next
        case False
        then have "y \<notin> Q" "code x \<noteq> code y" using assms(3) less c(1) x by auto
        then show ?thesis using False snoc v(1) by auto
      qed
    qed
  qed
qed

lemma guarded_subset: "guarded L Q' \<Longrightarrow> Q \<subseteq> Q' \<Longrightarrow> guarded L Q"
  unfolding guarded_def by blast

lemma guarded_prefix: "guarded (L @ [y]) Q \<Longrightarrow> guarded L Q"
  unfolding guarded_def by (metis append.assoc append_Cons)

definition counts :: "int list \<Rightarrow> string \<Rightarrow> bool" where
  "counts cnt w \<longleftrightarrow> length cnt = 26 \<and> (\<forall>c. islower c \<longrightarrow> cnt ! nat (code c - 97) = int (count_list w c))"

lemma counts_at:
  "counts cnt w \<Longrightarrow> islower c \<Longrightarrow> ivec_at cnt (code c - 97) = Some (int (count_list w c))"
  by (simp add: counts_def islower_def)

lemma counts_upd:
  assumes "counts cnt w" "islower c" "\<And>d. int (count_list w' d) = (if d = c then n else int (count_list w d))"
  shows "\<exists>cnt'. ivec_upd cnt (code c - 97) n = Some cnt' \<and> counts cnt' w'"
proof -
  have "nat (code d - 97) = nat (code c - 97) \<longleftrightarrow> d = c" if "islower d" for d
  proof -
    have "0 \<le> code d - 97" "0 \<le> code c - 97" using that assms(2) by (auto simp: islower_def)
    then have "nat (code d - 97) = nat (code c - 97) \<longleftrightarrow> code d = code c" by (simp add: eq_nat_nat_iff)
    then show ?thesis by simp
  qed
  note idx = this
  have k: "0 \<le> code c - 97" "code c - 97 < int (length cnt)" using assms(1,2) by (auto simp: counts_def islower_def)
  have "cnt[nat (code c - 97) := n] ! nat (code d - 97) = int (count_list w' d)" if "islower d" for d
    using idx [OF that] assms(1) assms(3) [of d] k that by (auto simp: counts_def nth_list_update)
  then show ?thesis using assms(1) k by (auto simp: counts_def)
qed

lemma count_letters_spec:
  assumes "\<forall>c \<in> set s. islower c" "counts cnt w"
  shows "\<exists>cnt'. count_letters s cnt = Some cnt' \<and> counts cnt' (w @ s)"
  using assms
proof (induction s arbitrary: cnt w)
  case (Cons c s)
  then have low: "islower c" by simp
  have "int (count_list (w @ [c]) d) = (if d = c then int (count_list w c) + 1 else int (count_list w d))" for d by auto
  from counts_upd [OF Cons.prems(2) low this]
  obtain cnt' where cnt': "ivec_upd cnt (code c - 97) (int (count_list w c) + 1) = Some cnt'" "counts cnt' (w @ [c])"
    by blast
  then obtain cnt2 where "count_letters s cnt' = Some cnt2" "counts cnt2 ((w @ [c]) @ s)" using Cons by (metis list.set_intros(2))
  then show ?case using cnt'(1) counts_at [OF Cons.prems(2), of c] Cons.prems(1) by auto
qed simp

lemma drop_larger_spec:
  assumes "distinct letters" "c \<notin> set letters" "guarded (rev letters) (set (c # q))" "counts cnt (rev letters @ c # q)"
    and "\<forall>x \<in> set letters \<union> set (c # q). islower x"
  shows "\<exists>letters' cnt'. drop_larger c letters cnt = Some (letters', cnt') \<and> improves (rev letters @ c # q) (rev letters' @ c # q) \<and>
    counts cnt' (rev letters' @ c # q) \<and> guarded (rev letters' @ [c]) (set q) \<and> distinct letters' \<and> set letters' \<subseteq> set letters"
  using assms
proof (induction letters arbitrary: cnt)
  case Nil
  then show ?case by (simp add: guarded_def)
next
  case (Cons b letters)
  have b: "islower b" "b \<noteq> c" "b \<notin> set letters" "c \<notin> set letters" using Cons.prems by auto
  let ?n = "int (count_list (rev (b # letters) @ c # q) b)"
  have at: "ivec_at cnt (code b - 97) = Some ?n" using counts_at [OF Cons.prems(4) b(1)] .
  have n: "?n = 1 + int (count_list q b)" using b by (simp add: count_list_rev)
  have keep: "guarded (rev (b # letters) @ [c]) (set q)" if "code b < code c \<or> b \<notin> set q"
    using guarded_push [of "rev letters" b "set (c # q)" "set q" c] Cons.prems(3) that by auto
  consider "\<not> code c < code b" | "code c < code b" "\<not> ?n > 1" | "code c < code b" "?n > 1" by blast
  then show ?case
  proof cases
    case 1
    then have "code b < code c" using b(2) code_inject [of b c] by linarith
    then show ?thesis using 1 keep Cons.prems by (intro exI [of _ "b # letters"] exI [of _ cnt]) auto
  next
    case 2
    then have "b \<notin> set q" using n by (auto simp: count_list_0_iff)
    then show ?thesis using 2 at keep Cons.prems by (intro exI [of _ "b # letters"] exI [of _ cnt]) auto
  next
    case 3
    then have bq: "b \<in> set q" using n by (metis add.right_neutral count_list_0_iff less_irrefl of_nat_0)
    have "int (count_list (rev letters @ c # q) d) = (if d = b then ?n - 1 else int (count_list (rev (b # letters) @ c # q) d))" for d
      by (cases "d = b") simp_all
    from counts_upd [OF Cons.prems(4) b(1) this]
    obtain cnt1 where cnt1: "ivec_upd cnt (code b - 97) (?n - 1) = Some cnt1" "counts cnt1 (rev letters @ c # q)"
      by blast
    have "guarded (rev letters) (set (c # q))" using Cons.prems(3) guarded_prefix by auto
    then obtain letters' cnt' where IH: "drop_larger c letters cnt1 = Some (letters', cnt')" "improves (rev letters @ c # q) (rev letters' @ c # q)"
      "counts cnt' (rev letters' @ c # q)" "guarded (rev letters' @ [c]) (set q)" "distinct letters'" "set letters' \<subseteq> set letters"
      using Cons.IH [OF _ b(4) _ cnt1(2)] Cons.prems(1,5) by auto
    have "improves (rev letters @ b # c # q) (rev letters @ c # q)"
      using 3(1) b bq by (intro improves_pop) auto
    then have "improves (rev (b # letters) @ c # q) (rev letters' @ c # q)" using improves_trans IH(2) by auto
    then show ?thesis using 3 at cnt1(1) IH by (intro exI [of _ letters'] exI [of _ cnt']) auto
  qed
qed

lemma letters_loop_spec:
  assumes "distinct letters" "guarded (rev letters) (set q)" "counts cnt (rev letters @ q)"
    and "\<forall>x \<in> set letters \<union> set q. islower x"
  shows "\<exists>r. letters_loop q letters cnt = Some r \<and> distinct r \<and> improves (rev letters @ q) r"
  using assms
proof (induction q arbitrary: letters cnt)
  case (Cons c q)
  show ?case
  proof (cases "c \<in> set letters")
    case False
    obtain letters' cnt' where D: "drop_larger c letters cnt = Some (letters', cnt')" "improves (rev letters @ c # q) (rev letters' @ c # q)"
      "counts cnt' (rev letters' @ c # q)" "guarded (rev letters' @ [c]) (set q)" "distinct letters'" "set letters' \<subseteq> set letters"
      using drop_larger_spec [OF Cons.prems(1) False Cons.prems(2,3,4)] by blast
    have "\<exists>r. letters_loop q (c # letters') cnt' = Some r \<and> distinct r \<and> improves (rev (c # letters') @ q) r"
      using D False Cons.prems(4) by (intro Cons.IH) auto
    then show ?thesis using False D(1,2) by (auto dest: improves_trans)
  next
    case True
    let ?n = "int (count_list (rev letters @ c # q) c)"
    have low: "islower c" using Cons.prems(4) by simp
    have "int (count_list (rev letters @ q) d) = (if d = c then ?n - 1 else int (count_list (rev letters @ c # q) d))" for d
      by (cases "d = c") simp_all
    from counts_upd [OF Cons.prems(3) low this]
    obtain cnt1 where cnt1: "ivec_upd cnt (code c - 97) (?n - 1) = Some cnt1" "counts cnt1 (rev letters @ q)"
      by blast
    obtain u v where uv: "rev letters = u @ c # v" using True by (metis set_rev split_list)
    have "distinct (rev letters)" using Cons.prems(1) by simp
    then have "improves (rev letters @ c # q) (rev letters @ q)"
      using Cons.prems(2) unfolding uv by (intro improves_skip) auto
    moreover have "\<exists>r. letters_loop q letters cnt1 = Some r \<and> distinct r \<and> improves (rev letters @ q) r"
      using Cons.prems cnt1(2) guarded_subset [of "rev letters" "set (c # q)" "set q"] by (intro Cons.IH) auto
    ultimately show ?thesis using True cnt1(1) counts_at [OF Cons.prems(3) low] by (auto dest: improves_trans)
  qed
qed simp

lemma cover_distinct: "distinct r \<Longrightarrow> cover r t \<Longrightarrow> t = r"
  unfolding cover_def by (metis distinct_card list_emb_length subseq_same_length)

text \<open>C12: \<open>removeDuplicateLetters\<close> returns, for a string of lower-case letters, the smallest string in lexicographic order
  among the subsequences that contain every letter of the string exactly once.\<close>

theorem removeDuplicateLetters_smallest:
  assumes "\<forall>c \<in> set s. islower c"
  shows "\<exists>r. removeDuplicateLetters s = Some r \<and> subseq r s \<and> distinct r \<and> set r = set s \<and>
    (\<forall>t. subseq t s \<longrightarrow> distinct t \<longrightarrow> set t = set s \<longrightarrow> r = t \<or> (r, t) \<in> lexord {(c, d). code c < code d})"
proof -
  have "counts (replicate 26 0) []" by (simp add: counts_def islower_def nat_less_iff)
  then obtain cnt where cnt: "count_letters s (replicate 26 0) = Some cnt" "counts cnt s"
    using count_letters_spec [OF assms] by (metis append_Nil)
  then obtain r where r: "letters_loop s [] cnt = Some r" "distinct r" "improves s r"
    using letters_loop_spec [of "[]" s cnt] assms by (auto simp: guarded_def)
  have "cover r r" using r(2) by (simp add: cover_def)
  then have "cover s r" using r(3) unfolding improves_def by blast
  moreover have "lex_le r t" if "cover s t" for t using r(2,3) that cover_distinct unfolding improves_def by blast
  ultimately show ?thesis using cnt(1) r(1) unfolding removeDuplicateLetters_def cover_def lex_le_def
    by (intro exI [of _ r]) auto
qed

theorem removeDuplicateLetters_witness:
  "\<exists>r. removeDuplicateLetters ''cbacdcbc'' = Some r \<and> subseq r ''cbacdcbc'' \<and> distinct r \<and> set r = set ''cbacdcbc'' \<and>
    (\<forall>t. subseq t ''cbacdcbc'' \<longrightarrow> distinct t \<longrightarrow> set t = set ''cbacdcbc'' \<longrightarrow> r = t \<or> (r, t) \<in> lexord {(c, d). code c < code d})"
  by (rule removeDuplicateLetters_smallest) (auto simp: islower_def code_def)

lemma removeDuplicateLetters_example: "removeDuplicateLetters ''cbacdcbc'' = Some ''acdb''"
  by code_simp
subsection \<open>Next Greater Element III\<close>

text \<open>\<open>std::string\<close> order, on the character codes.\<close>

fun lless :: "'a :: linorder list \<Rightarrow> 'a list \<Rightarrow> bool" where
  "lless xs [] \<longleftrightarrow> False"
| "lless [] (y # ys) \<longleftrightarrow> True"
| "lless (x # xs) (y # ys) \<longleftrightarrow> x < y \<or> (x = y \<and> lless xs ys)"

text \<open>\<open>adjacent_find\<close> with \<open>greater\<close>: the first position whose element is greater than the next.\<close>

fun adjacent_greater :: "string \<Rightarrow> nat option" where
  "adjacent_greater (c # c' # s) = (if code c' < code c then Some 0 else map_option Suc (adjacent_greater (c' # s)))"
| "adjacent_greater _ = None"

definition nextGreaterElement_int :: "int \<Rightarrow> int option" where
  "nextGreaterElement_int n = (
     let s = to_string n in
     case adjacent_greater (rev s) of
       None \<Rightarrow> Some (- 1)
     | Some piv \<Rightarrow>
         let p = length s - 1 - piv;
             s = take p s @ rev (drop p s);
             nxt = p + length (takeWhile (\<lambda>c. \<not> code (s ! (p - 1)) < code c) (drop p s))
         in do {
           a \<leftarrow> vec_at s nxt;
           let s = s[p - 1 := a, nxt := s ! (p - 1)];
           if length s = 10 \<and> lless (map code ''2147483647'') (map code s) then Some (- 1)
           else Some (atoi s)
         })"

lemma lless_total: "lless xs ys \<or> xs = ys \<or> lless ys xs"
proof (induction xs arbitrary: ys)
  case Nil
  show ?case by (cases ys) auto
next
  case (Cons x xs)
  then show ?case by (cases ys) auto
qed

lemma lless_asym: "lless xs ys \<Longrightarrow> \<not> lless ys xs"
  by (induction xs ys rule: lless.induct) auto

lemma lless_append_same [simp]: "lless (a @ xs) (a @ ys) \<longleftrightarrow> lless xs ys"
  by (induction a) auto

lemma descending_maximal: "sorted_wrt (\<ge>) d \<Longrightarrow> mset e = mset d \<Longrightarrow> \<not> lless d e"
proof (induction d arbitrary: e)
  case (Cons m d)
  show ?case
  proof (cases e)
    case e: (Cons z e')
    have "z \<in># mset (m # d)" using Cons.prems(2) e by (metis list.set_intros(1) set_mset_mset)
    then have "z \<le> m" using Cons.prems(1) by auto
    moreover have "\<not> lless d e'" if "z = m" using that Cons e by auto
    ultimately show ?thesis using e by auto
  qed (use Cons.prems in simp)
qed simp

lemma ascending_minimal: "sorted_wrt (\<le>) d \<Longrightarrow> mset e = mset d \<Longrightarrow> \<not> lless e d"
proof (induction d arbitrary: e)
  case (Cons m d)
  show ?case
  proof (cases e)
    case e: (Cons z e')
    have "z \<in># mset (m # d)" using Cons.prems(2) e by (metis list.set_intros(1) set_mset_mset)
    then have "m \<le> z" using Cons.prems(1) by auto
    moreover have "\<not> lless e' d" if "z = m" using that Cons e by auto
    ultimately show ?thesis using e by auto
  qed (use Cons.prems in simp)
qed simp

lemma next_permutation_least:
  assumes "sorted_wrt (\<ge>) d" "rev d = l @ y # h" "x < y" "\<forall>c \<in> set l. c \<le> x"
    and "mset t = mset (a @ x # d)" "lless (a @ x # d) t"
  shows "t = a @ y # l @ x # h \<or> lless (a @ y # l @ x # h) t"
  using assms(5,6)
proof (induction a arbitrary: t)
  case Nil
  then obtain z t' where t: "t = z # t'" by (cases t) auto
  have asc: "sorted_wrt (\<le>) (l @ y # h)" using assms(1) unfolding assms(2) [symmetric] by (simp add: sorted_wrt_rev)
  have md: "mset d = mset (l @ y # h)" by (metis assms(2) mset_rev)
  show ?case
  proof (cases "x = z")
    case True
    then have "mset t' = mset d" "lless d t'" using Nil t by auto
    then show ?thesis using descending_maximal assms(1) by blast
  next
    case False
    then have xz: "x < z" using Nil.prems(2) t by auto
    have "z \<in># mset (x # d)" using Nil.prems(1) t by (metis append_Nil list.set_intros(1) set_mset_mset)
    then have "z \<in> set (l @ y # h)" using False by (metis md in_multiset_in_set set_ConsD)
    then have "y \<le> z" using asc assms(4) xz by (auto simp: sorted_wrt_append)
    moreover have "t' = l @ x # h \<or> lless (l @ x # h) t'" if "z = y"
    proof -
      have "mset t' = mset (l @ x # h)" using Nil.prems(1) t that md by auto
      moreover have "sorted_wrt (\<le>) (l @ x # h)" using asc assms(3,4) by (auto simp: sorted_wrt_append)
      ultimately show ?thesis using ascending_minimal lless_total by blast
    qed
    ultimately show ?thesis using t by auto
  qed
next
  case (Cons k a)
  then obtain z t' where t: "t = z # t'" by (cases t) auto
  show ?case
  proof (cases "k = z")
    case True
    then have "mset t' = mset (a @ x # d)" "lless (a @ x # d) t'" using Cons.prems t by auto
    then show ?thesis using Cons.IH [of t'] t True by simp
  qed (use Cons.prems t in auto)
qed

lemma adjacent_greater_spec:
  "case adjacent_greater r of
     None \<Rightarrow> sorted_wrt (\<le>) (map code r)
   | Some i \<Rightarrow> \<exists>q x e. r = q @ x # e \<and> length q = Suc i \<and> sorted_wrt (\<le>) (map code q) \<and> code x < code (List.last q)"
proof (induction r rule: adjacent_greater.induct)
  case (1 c c' s)
  show ?case
  proof (cases "code c' < code c")
    case True
    then show ?thesis by (auto intro!: exI [of _ "[c]"])
  next
    case False
    show ?thesis
    proof (cases "adjacent_greater (c' # s)")
      case None
      then have "sorted_wrt (\<le>) (map code (c' # s))" using 1 False by simp
      then show ?thesis using None False by (auto intro: order_trans)
    next
      case (Some i)
      then obtain q x e where q: "c' # s = q @ x # e" "length q = Suc i" "sorted_wrt (\<le>) (map code q)" "code x < code (List.last q)"
        using 1 False by auto
      then obtain q' where q': "q = c' # q'" by (cases q) auto
      have "sorted_wrt (\<le>) (map code (c # q))" using q(3) q' False by (auto intro: order_trans)
      moreover have "c # c' # s = (c # q) @ x # e" "length (c # q) = Suc (Suc i)" "code x < code (List.last (c # q))"
        using q q' by auto
      moreover have "adjacent_greater (c # c' # s) = Some (Suc i)" using Some False by simp
      ultimately show ?thesis unfolding option.case by (simp only: option.case) blast
    qed
  qed
qed auto

lemma digits_value_acc: "\<forall>c \<in> set s. isdigit c \<Longrightarrow> digits_value acc s = acc * 10 ^ length s + digits_value 0 s"
proof (induction s arbitrary: acc)
  case (Cons c s)
  have "digits_value (acc * 10 + (code c - 48)) s = (acc * 10 + (code c - 48)) * 10 ^ length s + digits_value 0 s"
    "digits_value (code c - 48) s = (code c - 48) * 10 ^ length s + digits_value 0 s"
    using Cons.prems by (intro Cons.IH; simp)+
  then show ?case using Cons.prems by (simp add: algebra_simps)
qed simp

lemma digits_value_range: "\<forall>c \<in> set s. isdigit c \<Longrightarrow> 0 \<le> digits_value 0 s \<and> digits_value 0 s < 10 ^ length s"
proof (induction s)
  case (Cons c s)
  define P :: int where "P = 10 ^ length s"
  have d: "0 \<le> code c - 48" "code c - 48 \<le> 9" using Cons.prems by (auto simp: isdigit_def)
  have "0 \<le> (code c - 48) * P" "(code c - 48) * P \<le> 9 * P" using d by (auto simp: P_def intro: mult_right_mono)
  moreover have "digits_value 0 (c # s) = (code c - 48) * P + digits_value 0 s"
    using Cons.prems digits_value_acc [of s "code c - 48"] by (simp add: P_def)
  moreover have "0 \<le> digits_value 0 s" "digits_value 0 s < P" using Cons by (auto simp: P_def)
  moreover have "10 ^ length (c # s) = 10 * P" by (simp add: P_def)
  ultimately show ?case by linarith
qed simp

lemma lless_value:
  "\<forall>c \<in> set s \<union> set t. isdigit c \<Longrightarrow> length s = length t \<Longrightarrow> lless (map code s) (map code t) \<Longrightarrow> digits_value 0 s < digits_value 0 t"
proof (induction s t rule: list_induct2')
  case (4 c s d t)
  define P :: int where "P = 10 ^ length s"
  have v: "digits_value 0 (c # s) = (code c - 48) * P + digits_value 0 s" "digits_value 0 (d # t) = (code d - 48) * P + digits_value 0 t"
    using 4 digits_value_acc [of s "code c - 48"] digits_value_acc [of t "code d - 48"] by (simp_all add: P_def)
  have r: "0 \<le> digits_value 0 t" "digits_value 0 s < P" using 4 digits_value_range [of s] digits_value_range [of t] by (simp_all add: P_def)
  show ?case
  proof (cases "code c < code d")
    case True
    then have "(code c - 48 + 1) * P \<le> (code d - 48) * P" by (intro mult_right_mono) (auto simp: P_def)
    then show ?thesis unfolding v using r by (simp add: algebra_simps)
  next
    case False
    then have "c = d" "digits_value 0 s < digits_value 0 t" using 4 by auto
    then show ?thesis unfolding v by simp
  qed
qed auto

lemma value_lless:
  assumes "\<forall>c \<in> set s \<union> set t. isdigit c" "length s = length t" "digits_value 0 s < digits_value 0 t"
  shows "lless (map code s) (map code t)"
proof (rule ccontr)
  assume "\<not> lless (map code s) (map code t)"
  then consider "map code s = map code t" | "lless (map code t) (map code s)" using lless_total by blast
  then show False
  proof cases
    case 1
    then have "s = t" using map_inj_on [of code s t] by (auto simp: inj_on_def)
    then show False using assms(3) by simp
  next
    case 2
    then show False using lless_value [of t s] assms by auto
  qed
qed

lemma show_nat_value:
  "s \<noteq> [] \<Longrightarrow> \<forall>c \<in> set s. isdigit c \<Longrightarrow> code (hd s) \<noteq> 48 \<Longrightarrow> show_nat (nat (digits_value 0 s)) = s"
proof (induction s rule: rev_induct)
  case (snoc c s)
  have d: "0 \<le> code c - 48" "code c - 48 < 10" using snoc.prems(2) by (auto simp: isdigit_def)
  have v: "digits_value 0 (s @ [c]) = digits_value 0 s * 10 + (code c - 48)"
    using snoc.prems(2) by (simp add: digits_value_append)
  have c: "chr (48 + (code c - 48)) = c" by simp
  show ?case
  proof (cases "s = []")
    case True
    have "show_nat (nat (code c - 48)) = [chr (48 + int (nat (code c - 48)))]"
      using d by (subst show_nat.simps) (simp add: nat_less_iff)
    then show ?thesis using True v d c by simp
  next
    case False
    have s: "0 \<le> digits_value 0 s" "show_nat (nat (digits_value 0 s)) = s"
      using digits_value_range [of s] snoc False by auto
    have pos: "0 < digits_value 0 s"
    proof -
      obtain k s' where k: "s = k # s'" using False by (cases s) auto
      have "1 \<le> code k - 48" "\<forall>c \<in> set s'. isdigit c" using snoc.prems k by (auto simp: isdigit_def)
      moreover have "digits_value 0 s = (code k - 48) * 10 ^ length s' + digits_value 0 s'"
        using digits_value_acc [of s' "code k - 48"] snoc.prems k by simp
      ultimately show ?thesis using digits_value_range [of s'] by (simp add: add_pos_nonneg)
    qed
    define m where "m = nat (digits_value 0 (s @ [c]))"
    have m: "int m = digits_value 0 s * 10 + (code c - 48)" using v s(1) d by (simp add: m_def)
    then have "10 \<le> m" "int (m div 10) = digits_value 0 s" "int (m mod 10) = code c - 48"
      using pos d by (auto simp: zdiv_int zmod_int)
    then have "show_nat m = show_nat (m div 10) @ [chr (48 + int (m mod 10))]" "m div 10 = nat (digits_value 0 s)" "48 + int (m mod 10) = code c"
      by (subst show_nat.simps, auto)
    then show ?thesis using s(2) by (simp add: m_def)
  qed
qed simp
lemma show_nat_head: "0 < n \<Longrightarrow> code (hd (show_nat n)) \<noteq> 48"
proof (induction n rule: show_nat.induct)
  case (1 n)
  show ?case
  proof (cases "n < 10")
    case True
    then show ?thesis using 1 by (subst show_nat.simps) simp
  next
    case False
    then have "code (hd (show_nat (n div 10))) \<noteq> 48" using 1 by simp
    moreover have "show_nat (n div 10) \<noteq> []" using show_nat_digits by blast
    ultimately show ?thesis using False by (subst show_nat.simps) simp
  qed
qed

lemma digits_value_lower:
  assumes "s \<noteq> []" "\<forall>c \<in> set s. isdigit c" "code (hd s) \<noteq> 48"
  shows "10 ^ (length s - 1) \<le> digits_value 0 s"
proof -
  obtain k s' where s: "s = k # s'" using assms(1) by (cases s) auto
  have "1 \<le> code k - 48" "0 \<le> digits_value 0 s'" using assms s digits_value_range [of s'] by (auto simp: isdigit_def)
  moreover define P :: int where "P = 10 ^ length s'"
  moreover have "1 * P \<le> (code k - 48) * P" using calculation(1) by (intro mult_right_mono) (auto simp: P_def)
  moreover have "digits_value 0 s = (code k - 48) * P + digits_value 0 s'"
    using digits_value_acc [of s' "code k - 48"] assms s by (simp add: P_def)
  moreover have "10 ^ (length s - 1) = P" using s by (simp add: P_def)
  ultimately show ?thesis by linarith
qed

lemma mset_map_code: "mset s = mset t \<Longrightarrow> mset (map code s) = mset (map code t)"
  by (metis mset_map)

lemma to_string_facts:
  assumes "0 < m"
  shows "to_string m \<noteq> []" "\<forall>c \<in> set (to_string m). isdigit c" "digits_value 0 (to_string m) = m"
    "code (hd (to_string m)) \<noteq> 48"
  using assms show_nat_digits [of "nat m"] show_nat_head [of "nat m"] by (simp_all add: to_string_def)

text \<open>A greater number with the same digits is written by a lexicographically greater permutation.\<close>

lemma greater_permutation:
  assumes "0 < n" "n < m" "mset (to_string m) = mset (to_string n)"
  shows "mset (map code (to_string m)) = mset (map code (to_string n))"
    "lless (map code (to_string n)) (map code (to_string m))" "length (to_string m) = length (to_string n)"
proof -
  show len: "length (to_string m) = length (to_string n)" using assms(3) by (metis size_mset)
  show "mset (map code (to_string m)) = mset (map code (to_string n))" by (rule mset_map_code [OF assms(3)])
  have "0 < m" using assms by linarith
  then show "lless (map code (to_string n)) (map code (to_string m))"
    using to_string_facts [OF assms(1)] to_string_facts [of m] assms(2) len by (intro value_lless) auto
qed

text \<open>The swap and the reversal of the tail give the next permutation.\<close>

definition next_digits :: "string \<Rightarrow> string \<Rightarrow> bool" where
  "next_digits s r \<longleftrightarrow> mset r = mset s \<and> lless (map code s) (map code r) \<and>
     (\<forall>t. mset (map code t) = mset (map code s) \<longrightarrow> lless (map code s) (map code t) \<longrightarrow>
       t = r \<or> lless (map code r) (map code t))"

lemma code_map_inj: "map code s = map code t \<Longrightarrow> s = t"
  using map_inj_on [of code s t] by (auto simp: inj_on_def)

lemma next_digits_swap:
  assumes "s = rev e @ x # rev q" "sorted_wrt (\<le>) (map code q)" "q = l @ y # h" "code x < code y" "\<forall>c \<in> set l. code c \<le> code x"
  shows "next_digits s (rev e @ y # l @ x # h)"
proof -
  let ?r = "rev e @ y # l @ x # h"
  have "t = ?r \<or> lless (map code ?r) (map code t)"
    if t: "mset (map code t) = mset (map code s)" "lless (map code s) (map code t)" for t
  proof -
    have "map code t = map code (rev e) @ code y # map code l @ code x # map code h \<or>
        lless (map code (rev e) @ code y # map code l @ code x # map code h) (map code t)"
    proof (rule next_permutation_least)
      show "sorted_wrt (\<ge>) (map code (rev q))" using assms(2) by (simp add: rev_map [symmetric] sorted_wrt_rev)
      show "rev (map code (rev q)) = map code l @ code y # map code h" by (simp add: rev_map assms(3))
      show "mset (map code t) = mset (map code (rev e) @ code x # map code (rev q))" using t by (simp add: assms(1))
      show "lless (map code (rev e) @ code x # map code (rev q)) (map code t)" using t by (simp add: assms(1))
    qed (use assms in auto)
    then show ?thesis using code_map_inj [of t ?r] by auto
  qed
  moreover have "mset ?r = mset s" "lless (map code s) (map code ?r)" using assms by simp_all
  ultimately show ?thesis unfolding next_digits_def by blast
qed

lemma nextGreaterElement_int_step:
  assumes "to_string n = s" "adjacent_greater (rev s) = Some i"
  obtains r where "next_digits s r" "r \<noteq> []" "hd r = hd s \<or> (\<exists>x \<in> set s. code x < code (hd r))"
    "nextGreaterElement_int n =
       (if length r = 10 \<and> lless (map code ''2147483647'') (map code r) then Some (- 1) else Some (atoi r))"
proof -
  obtain q x e where q: "rev s = q @ x # e" "length q = Suc i" "sorted_wrt (\<le>) (map code q)" "code x < code (List.last q)"
    using adjacent_greater_spec [of "rev s"] assms(2) by auto
  have seq: "s = rev e @ x # rev q" using arg_cong [OF q(1), of rev] by simp
  define l where "l = takeWhile (\<lambda>c. \<not> code x < code c) q"
  have "q \<noteq> []" using q(2) by auto
  then have "dropWhile (\<lambda>c. \<not> code x < code c) q \<noteq> []" using q(4) by (auto simp: dropWhile_eq_Nil_conv)
  then obtain y h where yh: "dropWhile (\<lambda>c. \<not> code x < code c) q = y # h" by (cases "dropWhile (\<lambda>c. \<not> code x < code c) q") auto
  have ql: "q = l @ y # h" using takeWhile_dropWhile_id [of "\<lambda>c. \<not> code x < code c" q] yh by (simp add: l_def)
  have xy: "code x < code y" using hd_dropWhile [of "\<lambda>c. \<not> code x < code c" q] yh by simp
  have lx: "\<forall>c \<in> set l. code c \<le> code x" unfolding l_def by (auto dest!: set_takeWhileD)
  define r where "r = rev e @ y # l @ x # h"
  have p: "length s - 1 - i = Suc (length e)" using seq q(2) by simp
  have s1: "take (length s - 1 - i) s @ rev (drop (length s - 1 - i) s) = rev e @ x # q" unfolding p by (simp add: seq)
  have nx: "length s - 1 - i + length (takeWhile (\<lambda>c. \<not> code ((rev e @ x # q) ! (length s - 1 - i - 1)) < code c) (drop (length s - 1 - i) (rev e @ x # q)))
      = Suc (length e) + length l" unfolding p by (simp add: nth_append l_def)
  have "vec_at (rev e @ x # q) (Suc (length e) + length l) = Some y" by (simp add: vec_at_def ql nth_append)
  moreover have "(rev e @ x # q)[Suc (length e) - 1 := y, Suc (length e) + length l := (rev e @ x # q) ! (Suc (length e) - 1)] = r"
    by (simp add: r_def ql list_update_append nth_append)
  moreover have "length r = Suc (length e + length q)" by (simp add: r_def ql)
  ultimately have "nextGreaterElement_int n =
      (if length r = 10 \<and> lless (map code ''2147483647'') (map code r) then Some (- 1) else Some (atoi r))"
    unfolding nextGreaterElement_int_def Let_def assms option.case s1 nx unfolding p by simp
  moreover have "hd r = hd s \<or> (\<exists>x \<in> set s. code x < code (hd r))" using xy by (cases "rev e") (auto simp: r_def seq)
  moreover have "next_digits s r" unfolding r_def by (rule next_digits_swap [OF seq q(3) ql xy lx])
  moreover have "r \<noteq> []" by (simp add: r_def)
  ultimately show thesis by - (rule that; assumption)
qed

lemma exceeds_int_max:
  assumes "r \<noteq> []" "\<forall>c \<in> set r. isdigit c" "length r \<le> 10"
  shows "length r = 10 \<and> lless (map code ''2147483647'') (map code r) \<longleftrightarrow> 2147483647 < digits_value 0 r"
proof (cases "length r = 10")
  case True
  have "digits_value 0 ''2147483647'' = 2147483647" "\<forall>c \<in> set ''2147483647''. isdigit c" "length ''2147483647'' = 10"
    by (simp_all add: isdigit_def code_def)
  then show ?thesis using True lless_value [of "''2147483647''" r] value_lless [of "''2147483647''" r] assms by auto
next
  case False
  then have "(10 :: int) ^ length r \<le> 10 ^ 9" using assms by (intro power_increasing) auto
  then show ?thesis using digits_value_range [OF assms(2)] False by simp
qed

lemma next_digits_number:
  assumes "0 < n" "next_digits (to_string n) r" "hd r = hd (to_string n) \<or> (\<exists>x \<in> set (to_string n). code x < code (hd r))"
  shows "n < digits_value 0 r" "to_string (digits_value 0 r) = r" "r \<noteq> []" "\<forall>c \<in> set r. isdigit c"
proof -
  note s = to_string_facts [OF assms(1)]
  have rs: "mset r = mset (to_string n)" "lless (map code (to_string n)) (map code r)" using assms(2) by (auto simp: next_digits_def)
  then have rlen: "length r = length (to_string n)" "set r = set (to_string n)" by (metis size_mset, metis set_mset_mset)
  then show rd: "\<forall>c \<in> set r. isdigit c" "r \<noteq> []" using s by auto
  show nv: "n < digits_value 0 r" using lless_value [of "to_string n" r] rs(2) s rd rlen by simp
  have "code (hd r) \<noteq> 48" using assms(3) s by (auto simp: isdigit_def)
  then show "to_string (digits_value 0 r) = r"
    using show_nat_value [OF rd(2,1)] nv assms(1) by (simp add: to_string_def)
qed

lemma next_digits_least:
  assumes "0 < n" "next_digits (to_string n) r" "n < digits_value 0 r" "\<forall>c \<in> set r. isdigit c" "r \<noteq> []"
    "n < k" "mset (to_string k) = mset (to_string n)"
  shows "digits_value 0 r \<le> k"
proof -
  note C = greater_permutation [OF assms(1,6,7)] and D = to_string_facts [of k]
  have k: "0 < k" using assms by linarith
  have len: "length r = length (to_string k)" using assms(2,7) unfolding next_digits_def by (metis size_mset)
  have "to_string k = r \<or> lless (map code r) (map code (to_string k))" using assms(2) C unfolding next_digits_def by blast
  then show ?thesis
  proof
    assume "lless (map code r) (map code (to_string k))"
    then have "digits_value 0 r < digits_value 0 (to_string k)" using D [OF k] assms len by (intro lless_value) auto
    then show ?thesis using D [OF k] by simp
  qed (use D [OF k] in simp)
qed

lemma length_to_string_int:
  assumes "0 < n" "n < 2147483648"
  shows "length (to_string n) \<le> 10"
proof (rule ccontr)
  assume "\<not> length (to_string n) \<le> 10"
  then have "(10 :: int) ^ 10 \<le> 10 ^ (length (to_string n) - 1)" by (intro power_increasing) auto
  then show False using digits_value_lower [OF to_string_facts(1,2,4) [OF assms(1)]] to_string_facts(3) [OF assms(1)] assms(2) by simp
qed

text \<open>C22: For a positive int, \<open>nextGreaterElement\<close> returns the least greater 32-bit number with the same digits, and \<open>-1\<close>
  if there is none.\<close>

theorem nextGreaterElement_int_least:
  assumes "0 < n" "n < 2147483648"
  shows "nextGreaterElement_int n = Some (
    if {m. n < m \<and> m < 2147483648 \<and> mset (to_string m) = mset (to_string n)} = {} then - 1
    else Min {m. n < m \<and> m < 2147483648 \<and> mset (to_string m) = mset (to_string n)})"
proof (cases "adjacent_greater (rev (to_string n))")
  let ?S = "{m. n < m \<and> m < 2147483648 \<and> mset (to_string m) = mset (to_string n)}"
  case None
  then have "sorted_wrt (\<le>) (map code (rev (to_string n)))" using adjacent_greater_spec [of "rev (to_string n)"] by simp
  then have "sorted_wrt (\<ge>) (map code (to_string n))" by (simp add: rev_map [symmetric] sorted_wrt_rev)
  then have "?S = {}" using greater_permutation [OF assms(1)] descending_maximal [of "map code (to_string n)"] by blast
  then show ?thesis using None by (simp add: nextGreaterElement_int_def)
next
  let ?S = "{m. n < m \<and> m < 2147483648 \<and> mset (to_string m) = mset (to_string n)}"
  case (Some i)
  obtain r where r: "next_digits (to_string n) r" "hd r = hd (to_string n) \<or> (\<exists>x \<in> set (to_string n). code x < code (hd r))"
    "nextGreaterElement_int n = (if length r = 10 \<and> lless (map code ''2147483647'') (map code r) then Some (- 1) else Some (atoi r))"
    by (rule nextGreaterElement_int_step [OF refl Some])
  define m where "m = digits_value 0 r"
  note num = next_digits_number [OF assms(1) r(1,2)]
  have least: "m \<le> k" if "k \<in> ?S" for k unfolding m_def by (rule next_digits_least [OF assms(1) r(1) num(1,4,3)]) (use that in auto)
  have "length r = length (to_string n)" using r(1) unfolding next_digits_def by (metis size_mset)
  then have big: "length r = 10 \<and> lless (map code ''2147483647'') (map code r) \<longleftrightarrow> 2147483647 < m"
    using exceeds_int_max [OF num(3,4)] length_to_string_int [OF assms] by (simp add: m_def)
  show ?thesis
  proof (cases "2147483647 < m")
    case True
    then have "?S = {}" using least by force
    then show ?thesis using r(3) big True by simp
  next
    case False
    then have mS: "m \<in> ?S" using num r(1) by (simp add: m_def next_digits_def)
    have "?S \<subseteq> {n..2147483648}" by auto
    then have "finite ?S" by (rule finite_subset) simp
    then have "Min ?S = m" using mS least by (intro Min_eqI) auto
    moreover have "atoi r = m" using atoi_to_string [of m] False num assms(1) by (simp add: m_def)
    moreover have "?S \<noteq> {}" using mS by blast
    moreover have nb: "\<not> (length r = 10 \<and> lless (map code ''2147483647'') (map code r))" using big False by blast
    ultimately show ?thesis unfolding r(3) if_not_P [OF nb] by (simp only: if_False)
  qed
qed

theorem nextGreaterElement_int_witness:
  "nextGreaterElement_int 4365 = Some (
    if {m. 4365 < m \<and> m < 2147483648 \<and> mset (to_string m) = mset (to_string 4365)} = {} then - 1
    else Min {m. 4365 < m \<and> m < 2147483648 \<and> mset (to_string m) = mset (to_string 4365)})"
  by (rule nextGreaterElement_int_least) simp_all

end
