(* ===== verification/StackStrings.thy ===== *)
theory StackStrings
  imports NextGreater
begin

section \<open>Stacks over logs, tokens and strings (leetcode/stack.cpp)\<close>

text \<open>
  The classes \<open>CallStack\<close> and \<open>GeneralStack\<close>. A stack has its top at the head of the list; a \<open>deque\<close> or \<open>vector\<close> that
  is used from its back has the back there. \<open>None\<close> stands for undefined behaviour (the top of an empty stack, a
  division by zero) and for an exception of the library (\<open>substr\<close>, \<open>stoi\<close>).
\<close>

subsection \<open>Exclusive Time of Functions\<close>

definition find_first_of :: "string \<Rightarrow> char \<Rightarrow> int" where
  "find_first_of s c = (if c \<in> set s then int (length (takeWhile (\<lambda>d. d \<noteq> c) s)) else - 1)"

text \<open>\<open>substr(0, n)\<close> with \<open>n = npos\<close> is the whole string; \<open>s[size]\<close> is the terminator.\<close>

definition parse :: "string \<Rightarrow> (int \<times> bool \<times> int) option" where
  "parse s = (
     let n = find_first_of s CHR '':'';
         f = atoi (if n < 0 then s else take (nat n) s);
         start = (take 1 (drop (nat (n + 1)) s) = ''s'');
         n = n + (if start then 7 else 5)
     in do {
       rest \<leftarrow> substr s n (int (length s));
       Some (f, start, atoi rest)
     })"

record call_state =
  times :: "int list"
  calls :: "int list"
  prevTime :: int

definition log_step :: "call_state \<Rightarrow> string \<Rightarrow> call_state option" where
  "log_step st log = do {
     (func, start, stamp) \<leftarrow> parse log;
     if start then do {
       time \<leftarrow> (case calls st of
           [] \<Rightarrow> Some (times st)
         | caller # _ \<Rightarrow> do {
             t \<leftarrow> ivec_at (times st) caller;
             ivec_upd (times st) caller (i32 (t + (stamp - prevTime st)))
           });
       Some \<lparr>times = time, calls = func # calls st, prevTime = stamp\<rparr>
     } else do {
       t \<leftarrow> ivec_at (times st) func;
       time \<leftarrow> ivec_upd (times st) func (i32 (t + (stamp - prevTime st + 1)));
       case calls st of
         [] \<Rightarrow> None
       | _ # calls' \<Rightarrow> Some \<lparr>times = time, calls = calls', prevTime = i32 (stamp + 1)\<rparr>
     }
   }"

fun log_loop :: "call_state \<Rightarrow> string list \<Rightarrow> call_state option" where
  "log_loop st [] = Some st"
| "log_loop st (log # logs) = do { st \<leftarrow> log_step st log; log_loop st logs }"

definition exclusiveTime :: "int \<Rightarrow> string list \<Rightarrow> int list option" where
  "exclusiveTime n logs = map_option times
     (log_loop \<lparr>times = replicate (nat n) 0, calls = [], prevTime = 0\<rparr> logs)"

text \<open>A log line and what \<open>parse\<close> reads from it.\<close>

definition log_line :: "int \<Rightarrow> bool \<Rightarrow> int \<Rightarrow> string" where
  "log_line f start t = to_string f @ (if start then '':start:'' else '':end:'') @ to_string t"

definition is_int :: "int \<Rightarrow> bool" where
  "is_int x \<longleftrightarrow> -2147483648 \<le> x \<and> x < 2147483648"

lemma to_string_no_colon: "CHR '':'' \<notin> set (to_string n)"
proof -
  have "\<not> isdigit (CHR '':'')" by (simp add: isdigit_def code_def)
  then show ?thesis using show_nat_digits [of "nat n"] show_nat_digits [of "nat (- n)"] by (auto simp: to_string_def)
qed

lemma parse_log_line:
  assumes "is_int f" "is_int t"
  shows "parse (log_line f start t) = Some (f, start, t)"
proof -
  define u where "u = (if start then ''start:'' else ''end:'') @ to_string t"
  have s: "log_line f start t = to_string f @ CHR '':'' # u" by (simp add: log_line_def u_def)
  have n: "find_first_of (to_string f @ CHR '':'' # u) CHR '':'' = int (length (to_string f))"
    using to_string_no_colon [of f] by (simp add: find_first_of_def takeWhile_append)
  have st: "take 1 (drop (nat (int (length (to_string f)) + 1)) (to_string f @ CHR '':'' # u)) = ''s'' \<longleftrightarrow> start"
    by (simp add: nat_add_distrib u_def)
  have "substr (to_string f @ CHR '':'' # u) (int (length (to_string f)) + (if start then 7 else 5)) (int (length (to_string f @ CHR '':'' # u))) = Some (to_string t)"
    by (simp add: substr_def u_def nat_add_distrib)
  then show ?thesis using atoi_to_string assms unfolding s parse_def Let_def n st is_int_def by simp
qed

text \<open>A call with the calls made inside it; its exclusive time is its length without the inner calls.\<close>

datatype call = Call int int "call list" int

fun duration :: "call \<Rightarrow> int" where
  "duration (Call f s cs e) = e - s + 1"

fun call_log :: "call \<Rightarrow> string list" where
  "call_log (Call f s cs e) = log_line f True s # concat (map call_log cs) @ [log_line f False e]"

fun exclusive :: "int \<Rightarrow> call \<Rightarrow> int" where
  "exclusive g (Call f s cs e) = (if g = f then e - s + 1 - sum_list (map duration cs) else 0) + sum_list (map (exclusive g) cs)"

fun valid_call :: "int \<Rightarrow> call \<Rightarrow> bool" where
  "valid_call n (Call f s cs e) \<longleftrightarrow> 0 \<le> f \<and> f < n \<and> is_int f \<and> is_int s \<and> is_int e \<and> is_int (e + 1) \<and> list_all (valid_call n) cs"

lemma log_loop_append: "log_loop st (xs @ ys) = log_loop st xs \<bind> (\<lambda>st. log_loop st ys)"
  by (induction xs arbitrary: st) (auto simp: bind_assoc split: Option.bind_split)

lemma i32_add: "i32 (i32 a + b) = i32 (a + b)"
  by (rule swrap_add) simp

text \<open>\<open>adds st d st'\<close>: the times grow by \<open>d\<close>, as ints.\<close>

definition adds :: "int list \<Rightarrow> (int \<Rightarrow> int) \<Rightarrow> int list \<Rightarrow> bool" where
  "adds ts d ts' \<longleftrightarrow> length ts' = length ts \<and> (\<forall>g. 0 \<le> g \<and> g < int (length ts) \<longrightarrow> ts' ! nat g = i32 (ts ! nat g + d g))"

lemma adds_trans: "adds ts d ts' \<Longrightarrow> adds ts' d' ts'' \<Longrightarrow> adds ts (\<lambda>g. d g + d' g) ts''"
  unfolding adds_def by (simp add: i32_add add.assoc)

lemma adds_cong: "adds ts d ts' \<Longrightarrow> (\<And>g. d g = d' g) \<Longrightarrow> adds ts d' ts'"
  unfolding adds_def by simp

definition int_list :: "int list \<Rightarrow> bool" where
  "int_list ts \<longleftrightarrow> (\<forall>t \<in> set ts. i32 t = t)"

lemma adds_upd:
  assumes "int_list ts" "0 \<le> f" "f < int (length ts)"
  shows "adds ts (\<lambda>g. if g = f then x else 0) (ts[nat f := i32 (ts ! nat f + x)])"
  using assms unfolding adds_def int_list_def by (auto simp: nth_update_int)

lemma i32_i32 [simp]: "i32 (i32 a) = i32 a"
  using i32_add [of a 0] by simp

lemma adds_int_list: "adds ts d ts' \<Longrightarrow> int_list ts'"
proof -
  assume A: "adds ts d ts'"
  have "i32 t = t" if mem: "t \<in> set ts'" for t
  proof -
    obtain k where "k < length ts'" "t = ts' ! k" using mem by (metis in_set_conv_nth)
    then have "t = i32 (ts ! nat (int k) + d (int k))" using A unfolding adds_def by (metis nat_int of_nat_0_le_iff of_nat_less_iff)
    then show ?thesis by simp
  qed
  then show ?thesis by (simp add: int_list_def)
qed
lemma log_step_start:
  assumes "is_int f" "is_int s" "int_list ts" "case stk of [] \<Rightarrow> True | c # _ \<Rightarrow> 0 \<le> c \<and> c < int (length ts)"
  shows "\<exists>ts'. log_step \<lparr>times = ts, calls = stk, prevTime = p\<rparr> (log_line f True s) = Some \<lparr>times = ts', calls = f # stk, prevTime = s\<rparr> \<and>
    adds ts (\<lambda>g. case stk of [] \<Rightarrow> 0 | c # _ \<Rightarrow> if g = c then s - p else 0) ts'"
proof (cases stk)
  case Nil
  have "adds ts (\<lambda>g. 0) ts" using assms(3) by (auto simp: adds_def int_list_def)
  then show ?thesis using Nil parse_log_line [OF assms(1,2)] by (simp add: log_step_def)
next
  case (Cons c rest)
  then have c: "0 \<le> c" "c < int (length ts)" using assms(4) by auto
  then show ?thesis using Cons parse_log_line [OF assms(1,2)] adds_upd [OF assms(3) c, of "s - p"] by (simp add: log_step_def)
qed

lemma log_step_end:
  assumes "is_int f" "is_int e" "is_int (e + 1)" "int_list ts" "0 \<le> f" "f < int (length ts)"
  shows "\<exists>ts'. log_step \<lparr>times = ts, calls = f # stk, prevTime = p\<rparr> (log_line f False e) = Some \<lparr>times = ts', calls = stk, prevTime = e + 1\<rparr> \<and>
    adds ts (\<lambda>g. if g = f then e - p + 1 else 0) ts'"
  using parse_log_line [OF assms(1,2)] adds_upd [OF assms(4,5,6), of "e - p + 1"] assms(3,5,6)
  by (simp add: log_step_def is_int_def)

definition runs :: "int list \<Rightarrow> int list \<Rightarrow> int \<Rightarrow> string list \<Rightarrow> (int \<Rightarrow> int) \<Rightarrow> int \<Rightarrow> bool" where
  "runs ts stk p logs d p' \<longleftrightarrow> (\<exists>ts'. log_loop \<lparr>times = ts, calls = stk, prevTime = p\<rparr> logs = Some \<lparr>times = ts', calls = stk, prevTime = p'\<rparr> \<and> adds ts d ts')"

definition caller_gap :: "int list \<Rightarrow> int \<Rightarrow> int \<Rightarrow> int" where
  "caller_gap stk x g = (case stk of [] \<Rightarrow> 0 | c # _ \<Rightarrow> if g = c then x else 0)"

lemma runs_calls:
  assumes "\<And>c ts stk p. c \<in> set cs \<Longrightarrow> int_list ts \<Longrightarrow> (case stk of [] \<Rightarrow> True | k # _ \<Rightarrow> 0 \<le> k \<and> k < int (length ts)) \<Longrightarrow>
      valid_call (int (length ts)) c \<Longrightarrow>
      \<exists>p'. runs ts stk p (call_log c) (\<lambda>g. caller_gap stk (p' - p - duration c) g + exclusive g c) p'"
    and "int_list ts" "case stk of [] \<Rightarrow> True | k # _ \<Rightarrow> 0 \<le> k \<and> k < int (length ts)" "list_all (valid_call (int (length ts))) cs"
  shows "\<exists>p'. runs ts stk p (concat (map call_log cs))
    (\<lambda>g. caller_gap stk (p' - p - sum_list (map duration cs)) g + sum_list (map (exclusive g) cs)) p'"
  using assms
proof (induction cs arbitrary: ts p)
  case Nil
  have "adds ts (\<lambda>g. caller_gap stk (p - p - 0) g + 0) ts" using Nil(2) by (auto simp: adds_def caller_gap_def int_list_def split: list.split)
  then show ?case unfolding runs_def by auto
next
  case (Cons c cs)
  obtain q ts1 where c: "log_loop \<lparr>times = ts, calls = stk, prevTime = p\<rparr> (call_log c) = Some \<lparr>times = ts1, calls = stk, prevTime = q\<rparr>"
    "adds ts (\<lambda>g. caller_gap stk (q - p - duration c) g + exclusive g c) ts1"
    using Cons.prems(1) [of c ts stk p] Cons.prems(2,3,4) unfolding runs_def by auto
  have len: "length ts1 = length ts" using c(2) by (simp add: adds_def)
  have stk1: "case stk of [] \<Rightarrow> True | k # _ \<Rightarrow> 0 \<le> k \<and> k < int (length ts1)" unfolding len by (rule Cons.prems(3))
  have "\<exists>p'. runs ts1 stk q (concat (map call_log cs)) (\<lambda>g. caller_gap stk (p' - q - sum_list (map duration cs)) g + sum_list (map (exclusive g) cs)) p'"
  proof (rule Cons.IH)
    show "\<exists>p'. runs ts stk p (call_log d) (\<lambda>g. caller_gap stk (p' - p - duration d) g + exclusive g d) p'"
      if "d \<in> set cs" "int_list ts" "case stk of [] \<Rightarrow> True | k # _ \<Rightarrow> 0 \<le> k \<and> k < int (length ts)" "valid_call (int (length ts)) d" for d ts stk p
      using that by (intro Cons.prems(1)) auto
  qed (use adds_int_list [OF c(2)] stk1 Cons.prems(4) len in auto)
  then obtain p' ts2 where r: "log_loop \<lparr>times = ts1, calls = stk, prevTime = q\<rparr> (concat (map call_log cs)) = Some \<lparr>times = ts2, calls = stk, prevTime = p'\<rparr>"
    "adds ts1 (\<lambda>g. caller_gap stk (p' - q - sum_list (map duration cs)) g + sum_list (map (exclusive g) cs)) ts2"
    unfolding runs_def by blast
  have "adds ts (\<lambda>g. caller_gap stk (p' - p - sum_list (map duration (c # cs))) g + sum_list (map (exclusive g) (c # cs))) ts2"
    by (rule adds_cong [OF adds_trans [OF c(2) r(2)]]) (auto simp: caller_gap_def split: list.split)
  then show ?case unfolding runs_def using c(1) r(1) by (auto simp: log_loop_append intro!: exI [of _ p'])
qed

lemma runs_call:
  "int_list ts \<Longrightarrow> (case stk of [] \<Rightarrow> True | k # _ \<Rightarrow> 0 \<le> k \<and> k < int (length ts)) \<Longrightarrow> valid_call (int (length ts)) c \<Longrightarrow>
   \<exists>p'. runs ts stk p (call_log c) (\<lambda>g. caller_gap stk (p' - p - duration c) g + exclusive g c) p'"
proof (induction c arbitrary: ts stk p)
  case (Call f s cs e)
  let ?n = "int (length ts)"
  have v: "0 \<le> f" "f < ?n" "is_int f" "is_int s" "is_int e" "is_int (e + 1)" "list_all (valid_call ?n) cs" using Call.prems(3) by auto
  obtain ts1 where s1: "log_step \<lparr>times = ts, calls = stk, prevTime = p\<rparr> (log_line f True s) = Some \<lparr>times = ts1, calls = f # stk, prevTime = s\<rparr>"
    "adds ts (\<lambda>g. caller_gap stk (s - p) g) ts1"
    using log_step_start [OF v(3,4) Call.prems(1,2)] unfolding caller_gap_def by blast
  have l1: "length ts1 = length ts" using s1(2) by (simp add: adds_def)
  have "\<exists>p'. runs ts1 (f # stk) s (concat (map call_log cs))
    (\<lambda>g. caller_gap (f # stk) (p' - s - sum_list (map duration cs)) g + sum_list (map (exclusive g) cs)) p'"
    by (rule runs_calls) (use Call.IH adds_int_list [OF s1(2)] v l1 in auto)
  then obtain q ts2 where s2: "log_loop \<lparr>times = ts1, calls = f # stk, prevTime = s\<rparr> (concat (map call_log cs)) = Some \<lparr>times = ts2, calls = f # stk, prevTime = q\<rparr>"
    "adds ts1 (\<lambda>g. caller_gap (f # stk) (q - s - sum_list (map duration cs)) g + sum_list (map (exclusive g) cs)) ts2"
    unfolding runs_def by blast
  have l2: "length ts2 = length ts" using s2(2) l1 by (simp add: adds_def)
  obtain ts3 where s3: "log_step \<lparr>times = ts2, calls = f # stk, prevTime = q\<rparr> (log_line f False e) = Some \<lparr>times = ts3, calls = stk, prevTime = e + 1\<rparr>"
    "adds ts2 (\<lambda>g. if g = f then e - q + 1 else 0) ts3"
    using log_step_end [OF v(3,5,6) adds_int_list [OF s2(2)], of stk q] v l2 by auto
  have "adds ts (\<lambda>g. caller_gap stk (e + 1 - p - duration (Call f s cs e)) g + exclusive g (Call f s cs e)) ts3"
    by (rule adds_cong [OF adds_trans [OF adds_trans [OF s1(2) s2(2)] s3(2)]]) (auto simp: caller_gap_def split: list.split)
  then show ?case unfolding runs_def using s1(1) s2(1) s3(1) by (intro exI [of _ "e + 1"] exI [of _ ts3]) (simp add: log_loop_append)
qed

text \<open>On the log of nested calls, \<open>exclusiveTime\<close> gives for every function the sum, over its calls, of their length
  without the calls made inside them.\<close>

theorem exclusiveTime_correct:
  assumes "0 \<le> n" "list_all (valid_call n) cs" "0 \<le> g" "g < n" "is_int (sum_list (map (exclusive g) cs))"
  shows "\<exists>time. exclusiveTime n (concat (map call_log cs)) = Some time \<and> int (length time) = n \<and>
    time ! nat g = sum_list (map (exclusive g) cs)"
proof -
  let ?ts = "replicate (nat n) 0"
  have "int_list ?ts" "list_all (valid_call (int (length ?ts))) cs" using assms by (auto simp: int_list_def)
  then have "\<exists>p'. runs ?ts [] 0 (concat (map call_log cs))
    (\<lambda>g. caller_gap [] (p' - 0 - sum_list (map duration cs)) g + sum_list (map (exclusive g) cs)) p'"
    by (intro runs_calls runs_call) auto
  then obtain p' ts' where "log_loop \<lparr>times = ?ts, calls = [], prevTime = 0\<rparr> (concat (map call_log cs)) = Some \<lparr>times = ts', calls = [], prevTime = p'\<rparr>"
    "adds ?ts (\<lambda>g. sum_list (map (exclusive g) cs)) ts'" unfolding runs_def caller_gap_def by auto
  then show ?thesis using assms by (auto simp: exclusiveTime_def adds_def is_int_def)
qed

theorem exclusiveTime_witness:
  "\<exists>time. exclusiveTime 2 (concat (map call_log [Call 0 0 [Call 1 2 [] 5] 6])) = Some time \<and> int (length time) = 2 \<and>
    time ! nat 0 = sum_list (map (exclusive 0) [Call 0 0 [Call 1 2 [] 5] 6])"
  by (rule exclusiveTime_correct) (simp_all add: is_int_def)
subsection \<open>Asteroid Collision\<close>

text \<open>The loop that meets an asteroid \<open>a\<close> flying left with the ones on the stack flying right.\<close>

fun asteroid_hit :: "int \<Rightarrow> int list \<Rightarrow> int list \<Rightarrow> int list \<times> int list" where
  "asteroid_hit a [] ans = ([], ans)"
| "asteroid_hit a (back # rightward) ans =
     (if back > i32 (- a) then (back # rightward, ans)
      else if back = i32 (- a) then (rightward, ans)
      else if rightward = [] then ([], ans @ [a])
      else asteroid_hit a rightward ans)"

definition asteroid_step :: "int list \<times> int list \<Rightarrow> int \<Rightarrow> int list \<times> int list" where
  "asteroid_step st a = (case st of (rightward, ans) \<Rightarrow>
     if rightward = [] then (if a < 0 then (rightward, ans @ [a]) else (a # rightward, ans))
     else if a > 0 then (a # rightward, ans)
     else asteroid_hit a rightward ans)"

definition asteroidCollision :: "int list \<Rightarrow> int list" where
  "asteroidCollision asteroids =
     (case foldl asteroid_step ([], []) asteroids of (rightward, ans) \<Rightarrow> ans @ rev rightward)"

text \<open>One collision of two neighbours that fly towards each other.\<close>

inductive collides :: "int list \<Rightarrow> int list \<Rightarrow> bool" where
  left_wins: "0 < a \<Longrightarrow> b < 0 \<Longrightarrow> - b < a \<Longrightarrow> collides (xs @ a # b # ys) (xs @ a # ys)"
| right_wins: "0 < a \<Longrightarrow> b < 0 \<Longrightarrow> a < - b \<Longrightarrow> collides (xs @ a # b # ys) (xs @ b # ys)"
| both: "0 < a \<Longrightarrow> b < 0 \<Longrightarrow> a = - b \<Longrightarrow> collides (xs @ a # b # ys) (xs @ ys)"

inductive_cases collidesE: "collides xs ys"

lemma collides_append: "collides xs ys \<Longrightarrow> collides (xs @ zs) (ys @ zs)"
proof (induction rule: collides.induct)
  case (left_wins a b xs ys)
  then show ?case using collides.left_wins [of a b xs "ys @ zs"] by simp
next
  case (right_wins a b xs ys)
  then show ?case using collides.right_wins [of a b xs "ys @ zs"] by simp
next
  case (both a b xs ys)
  then show ?case using collides.both [of a b xs "ys @ zs"] by simp
qed

lemma collides_star_append: "collides\<^sup>*\<^sup>* xs ys \<Longrightarrow> collides\<^sup>*\<^sup>* (xs @ zs) (ys @ zs)"
  by (induction rule: rtranclp_induct) (auto intro: rtranclp.rtrancl_into_rtrancl collides_append)

lemma asteroid_hit_collides:
  assumes "rightward \<noteq> []" "\<forall>x \<in> set rightward. 0 < x" "a < 0" "- 2147483648 < a"
  shows "case asteroid_hit a rightward ans of (rightward', ans') \<Rightarrow>
    collides\<^sup>*\<^sup>* (ans @ rev rightward @ [a]) (ans' @ rev rightward') \<and> set rightward' \<subseteq> set rightward \<and> set ans' \<subseteq> insert a (set ans)"
  using assms(1,2)
proof (induction rightward)
  case (Cons b r)
  have neg: "i32 (- a) = - a" using assms(3,4) by simp
  have b: "0 < b" using Cons.prems(2) by simp
  consider "b > - a" | "b = - a" | "b < - a" by linarith
  then show ?case
  proof cases
    case 1
    then have "collides (ans @ rev r @ [b, a]) (ans @ rev r @ [b])"
      using collides.left_wins [of b a "ans @ rev r" "[]"] b assms(3) by simp
    then show ?thesis using 1 neg by auto
  next
    case 2
    then have "collides (ans @ rev r @ [b, a]) (ans @ rev r)"
      using collides.both [of b a "ans @ rev r" "[]"] b assms(3) by simp
    then show ?thesis using 2 neg by auto
  next
    case 3
    then have step: "collides (ans @ rev r @ [b, a]) (ans @ rev r @ [a])"
      using collides.right_wins [of b a "ans @ rev r" "[]"] b assms(3) by simp
    show ?thesis
    proof (cases "r = []")
      case True
      then show ?thesis using 3 neg step by auto
    next
      case False
      then show ?thesis using 3 neg Cons step by (auto split: prod.splits intro: converse_rtranclp_into_rtranclp)
    qed
  qed
qed simp

lemma sorted_wrt_all: "(\<And>x y. x \<in> set zs \<Longrightarrow> y \<in> set zs \<Longrightarrow> R x y) \<Longrightarrow> sorted_wrt R zs"
  by (induction zs) auto

lemma asteroid_loop:
  assumes "\<forall>a \<in> set as. a \<noteq> 0 \<and> - 2147483648 < a"
  shows "case foldl asteroid_step ([], []) as of (rightward, ans) \<Rightarrow>
    collides\<^sup>*\<^sup>* as (ans @ rev rightward) \<and> (\<forall>x \<in> set rightward. 0 < x) \<and> (\<forall>x \<in> set ans. x < 0)"
  using assms
proof (induction as rule: rev_induct)
  case (snoc a as)
  obtain rightward ans where st: "foldl asteroid_step ([], []) as = (rightward, ans)" by (rule prod.exhaust)
  then have IH: "collides\<^sup>*\<^sup>* (as @ [a]) (ans @ rev rightward @ [a])" "\<forall>x \<in> set rightward. 0 < x" "\<forall>x \<in> set ans. x < 0"
    using snoc collides_star_append [of as "ans @ rev rightward" "[a]"] by auto
  have a: "a \<noteq> 0" "- 2147483648 < a" using snoc.prems by auto
  have step: "foldl asteroid_step ([], []) (as @ [a]) = asteroid_step (rightward, ans) a" by (simp add: st)
  show ?case
  proof (cases "rightward = [] \<or> 0 < a")
    case True
    then show ?thesis unfolding step using IH a by (auto simp: asteroid_step_def)
  next
    case False
    then have "a < 0" "rightward \<noteq> []" using a by auto
    then show ?thesis unfolding step using asteroid_hit_collides [of rightward a ans] IH a
      by (auto simp: asteroid_step_def split: prod.splits)
  qed
qed simp

text \<open>C39: \<open>asteroidCollision\<close> returns a row of asteroids that the collisions of neighbours lead to and in which no two
  collide any more.\<close>

theorem asteroidCollision_final:
  assumes "\<forall>a \<in> set asteroids. a \<noteq> 0 \<and> - 2147483648 < a"
  shows "collides\<^sup>*\<^sup>* asteroids (asteroidCollision asteroids) \<and> (\<nexists>zs. collides (asteroidCollision asteroids) zs)"
proof -
  obtain rightward ans where st: "foldl asteroid_step ([], []) asteroids = (rightward, ans)" by (rule prod.exhaust)
  then have L: "collides\<^sup>*\<^sup>* asteroids (ans @ rev rightward)" "\<forall>x \<in> set rightward. 0 < x" "\<forall>x \<in> set ans. x < 0"
    using asteroid_loop [OF assms] by auto
  have apart: "False" if "ans @ rev rightward = xs @ a # b # ys" "0 < a" "b < 0" for xs a b ys
  proof -
    have "sorted_wrt (\<lambda>x y. 0 < x \<longrightarrow> 0 < y) (ans @ rev rightward)"
      using L(2,3) unfolding sorted_wrt_append by (intro conjI sorted_wrt_all) fastforce+
    then show False using that by (auto simp: sorted_wrt_append)
  qed
  have "\<not> collides (ans @ rev rightward) zs" for zs
  proof
    assume "collides (ans @ rev rightward) zs"
    then show False by (rule collidesE) (erule apart; simp)+
  qed
  then show ?thesis using L(1) st by (simp add: asteroidCollision_def)
qed

theorem asteroidCollision_witness:
  "collides\<^sup>*\<^sup>* [5, 10, -5, -15, 5, -5] (asteroidCollision [5, 10, -5, -15, 5, -5]) \<and>
   (\<nexists>zs. collides (asteroidCollision [5, 10, -5, -15, 5, -5]) zs)"
  by (rule asteroidCollision_final) auto

subsection \<open>Reverse Polish Notation and baseball points\<close>

definition rpn_token :: "int list \<Rightarrow> string \<Rightarrow> int list option" where
  "rpn_token operands s =
     (if length s = 1 \<and> \<not> isdigit (hd s) then
        (case operands of
           n2 # n1 # rest \<Rightarrow>
             if hd s = CHR ''+'' then Some (i32 (n1 + n2) # rest)
             else if hd s = CHR ''-'' then Some (i32 (n1 - n2) # rest)
             else if hd s = CHR ''*'' then Some (i32 (n1 * n2) # rest)
             else if hd s = CHR ''/'' then
               (if n2 = 0 \<or> (n1 = - 2147483648 \<and> n2 = - 1) then None else Some ((n1 sdiv n2) # rest))
             else Some rest
         | _ \<Rightarrow> None)
      else Some (atoi s # operands))"

fun rpn_loop :: "int list \<Rightarrow> string list \<Rightarrow> int list option" where
  "rpn_loop operands [] = Some operands"
| "rpn_loop operands (s # tokens) = do { operands \<leftarrow> rpn_token operands s; rpn_loop operands tokens }"

definition evalRPN :: "string list \<Rightarrow> int option" where
  "evalRPN tokens = do {
     operands \<leftarrow> rpn_loop [] tokens;
     case operands of [] \<Rightarrow> None | n # _ \<Rightarrow> Some n
   }"

text \<open>Expressions, their value in 32-bit arithmetic and their postfix tokens.\<close>

datatype expr = Num int | Add expr expr | Sub expr expr | Mul expr expr | Div expr expr

fun eval :: "expr \<Rightarrow> int option" where
  "eval (Num n) = Some n"
| "eval (Add a b) = do { x \<leftarrow> eval a; y \<leftarrow> eval b; Some (i32 (x + y)) }"
| "eval (Sub a b) = do { x \<leftarrow> eval a; y \<leftarrow> eval b; Some (i32 (x - y)) }"
| "eval (Mul a b) = do { x \<leftarrow> eval a; y \<leftarrow> eval b; Some (i32 (x * y)) }"
| "eval (Div a b) = do { x \<leftarrow> eval a; y \<leftarrow> eval b;
     if y = 0 \<or> (x = - 2147483648 \<and> y = - 1) then None else Some (x sdiv y) }"

fun tokens_of :: "expr \<Rightarrow> string list" where
  "tokens_of (Num n) = [to_string n]"
| "tokens_of (Add a b) = tokens_of a @ tokens_of b @ [''+'']"
| "tokens_of (Sub a b) = tokens_of a @ tokens_of b @ [''-'']"
| "tokens_of (Mul a b) = tokens_of a @ tokens_of b @ [''*'']"
| "tokens_of (Div a b) = tokens_of a @ tokens_of b @ [''/'']"

fun nums_in_range :: "expr \<Rightarrow> bool" where
  "nums_in_range (Num n) \<longleftrightarrow> is_int n"
| "nums_in_range (Add a b) \<longleftrightarrow> nums_in_range a \<and> nums_in_range b"
| "nums_in_range (Sub a b) \<longleftrightarrow> nums_in_range a \<and> nums_in_range b"
| "nums_in_range (Mul a b) \<longleftrightarrow> nums_in_range a \<and> nums_in_range b"
| "nums_in_range (Div a b) \<longleftrightarrow> nums_in_range a \<and> nums_in_range b"

lemma rpn_number:
  assumes "is_int n"
  shows "rpn_token operands (to_string n) = Some (n # operands)"
proof -
  have "length (to_string n) = 1 \<longrightarrow> isdigit (hd (to_string n))"
  proof (cases "n < 0")
    case True
    then show ?thesis using show_nat_digits [of "nat (- n)"] by (simp add: to_string_def)
  next
    case False
    then show ?thesis using show_nat_digits [of "nat n"] by (cases "show_nat (nat n)") (auto simp: to_string_def)
  qed
  then show ?thesis using assms atoi_to_string [of n] by (auto simp: rpn_token_def is_int_def)
qed

lemma operator_not_digit [simp]:
  "\<not> isdigit CHR ''+''" "\<not> isdigit CHR ''-''" "\<not> isdigit CHR ''*''" "\<not> isdigit CHR ''/''"
  by (simp_all add: isdigit_def code_def)

lemma rpn_loop_append: "rpn_loop operands (xs @ ys) = rpn_loop operands xs \<bind> (\<lambda>operands. rpn_loop operands ys)"
  by (induction xs arbitrary: operands) (auto simp: bind_assoc split: Option.bind_split)

lemma rpn_loop_tokens:
  "nums_in_range e \<Longrightarrow> rpn_loop operands (tokens_of e) = map_option (\<lambda>v. v # operands) (eval e)"
proof (induction e arbitrary: operands)
  case (Num n)
  then show ?case by (simp add: rpn_number)
next
  case (Add a b)
  then show ?case by (cases "eval a"; cases "eval b") (simp_all add: rpn_loop_append rpn_token_def)
next
  case (Sub a b)
  then show ?case by (cases "eval a"; cases "eval b") (simp_all add: rpn_loop_append rpn_token_def)
next
  case (Mul a b)
  then show ?case by (cases "eval a"; cases "eval b") (simp_all add: rpn_loop_append rpn_token_def)
next
  case (Div a b)
  then show ?case by (cases "eval a"; cases "eval b") (simp_all add: rpn_loop_append rpn_token_def)
qed

text \<open>\<open>evalRPN\<close> on the postfix tokens of an expression is the value of the expression in 32-bit arithmetic, undefined exactly
  where a division of the expression is.\<close>

theorem evalRPN_expression:
  assumes "nums_in_range e"
  shows "evalRPN (tokens_of e) = eval e"
  using rpn_loop_tokens [OF assms, of "[]"] by (cases "eval e") (simp_all add: evalRPN_def)

theorem evalRPN_witness:
  "evalRPN (tokens_of (Div (Sub (Num 4) (Num 13)) (Mul (Num 2) (Num (- 1))))) = eval (Div (Sub (Num 4) (Num 13)) (Mul (Num 2) (Num (- 1))))"
  by (rule evalRPN_expression) (simp add: is_int_def)

text \<open>\<open>std::stoi\<close> throws without digits and outside the range of int.\<close>

definition stoi :: "string \<Rightarrow> int option" where
  "stoi s = (
     let t = dropWhile isspace s;
         (neg, u) = (case t of c # cs \<Rightarrow> if c = CHR ''-'' then (True, cs) else if c = CHR ''+'' then (False, cs) else (False, t) | [] \<Rightarrow> (False, t));
         v = (if neg then - digits_value 0 u else digits_value 0 u)
     in if u = [] \<or> \<not> isdigit (hd u) then None
        else if v < - 2147483648 \<or> 2147483647 < v then None
        else Some v)"

text \<open>The scores with the last one at the head.\<close>

definition points_step :: "int list \<Rightarrow> string \<Rightarrow> int list option" where
  "points_step scores s = (case s of
     CHR ''C'' # _ \<Rightarrow> (case scores of [] \<Rightarrow> None | _ # rest \<Rightarrow> Some rest)
   | CHR ''D'' # _ \<Rightarrow> (case scores of [] \<Rightarrow> None | a # _ \<Rightarrow> Some (i32 (a * 2) # scores))
   | CHR ''+'' # _ \<Rightarrow> (case scores of a # b # _ \<Rightarrow> Some (i32 (a + b) # scores) | _ \<Rightarrow> None)
   | _ \<Rightarrow> map_option (\<lambda>a. a # scores) (stoi s))"

fun points_loop :: "int list \<Rightarrow> string list \<Rightarrow> int list option" where
  "points_loop scores [] = Some scores"
| "points_loop scores (s # ops) = do { scores \<leftarrow> points_step scores s; points_loop scores ops }"

definition calPoints :: "string list \<Rightarrow> int option" where
  "calPoints ops = map_option (\<lambda>scores. i32 (sum_list scores)) (points_loop [] ops)"

lemma stoi_to_string:
  assumes "is_int n"
  shows "stoi (to_string n) = Some n"
proof (cases "n < 0")
  case True
  obtain c cs where s: "show_nat (nat (- n)) = c # cs" "isdigit c" using show_nat_Cons .
  have "\<not> isspace (CHR ''-'')" by (simp add: isspace_def code_def)
  then show ?thesis using True assms show_nat_digits [of "nat (- n)"] s
    by (simp add: stoi_def to_string_def is_int_def del: digits_value.simps)
next
  case False
  obtain c cs where s: "show_nat (nat n) = c # cs" "isdigit c" using show_nat_Cons .
  then show ?thesis
    using False assms show_nat_digits [of "nat n"] digit_not_special [OF s(2)]
    by (simp add: stoi_def to_string_def is_int_def del: digits_value.simps)
qed

text \<open>A cancelled score leaves no trace.\<close>

lemma calPoints_cancel:
  assumes "is_int n"
  shows "calPoints (ops @ [to_string n, ''C'']) = calPoints ops"
proof -
  obtain d ds where "show_nat (nat n) = d # ds" "isdigit d" by (rule show_nat_Cons)
  then obtain c cs where c: "to_string n = c # cs" "isdigit c \<or> c = CHR ''-''"
    by (cases "n < 0") (auto simp: to_string_def)
  then have "c \<noteq> CHR ''C''" "c \<noteq> CHR ''D''" "c \<noteq> CHR ''+''" by (auto simp: isdigit_def code_def)
  then have "points_step scores (to_string n) = map_option (\<lambda>a. a # scores) (stoi (to_string n))" for scores
    unfolding c(1) by (auto simp: points_step_def split: char.split bool.split)
  then have step: "points_step scores (to_string n) = Some (n # scores)" for scores by (simp add: stoi_to_string assms)
  have "points_loop scores (ops @ [to_string n, ''C'']) = points_loop scores ops" for scores
    by (induction ops arbitrary: scores) (auto simp: step points_step_def [of _ "''C''"] split: Option.bind_split)
  then show ?thesis by (simp add: calPoints_def)
qed
subsection \<open>Validate Stack Sequences\<close>

text \<open>The lambda \<open>popping\<close>: pop while the top is the next value to be popped.\<close>

fun popping :: "int list \<Rightarrow> int list \<Rightarrow> int list \<times> int list" where
  "popping (t # stk) (v # popped) = (if t = v then popping stk popped else (t # stk, v # popped))"
| "popping stk popped = (stk, popped)"

text \<open>Push until the next value is the one to be popped, and take both; \<open>None\<close> is the early \<open>return false\<close>.\<close>

fun push_until :: "int \<Rightarrow> int list \<Rightarrow> int list \<Rightarrow> (int list \<times> int list) option" where
  "push_until v stk [] = None"
| "push_until v stk (x # pushed) = (if x \<noteq> v then push_until v (x # stk) pushed else Some (stk, pushed))"

lemma push_until_shrinks: "push_until v stk pushed = Some (stk', pushed') \<Longrightarrow> length pushed' < length pushed"
  by (induction v stk pushed rule: push_until.induct) (auto split: if_splits)

function stack_sequence_loop :: "int list \<Rightarrow> int list \<Rightarrow> int list \<Rightarrow> bool option" where
  "stack_sequence_loop stk [] popped = Some (fst (popping stk popped) = [])"
| "stack_sequence_loop stk (x # pushed) popped = (
     case popping stk popped of
       (stk, []) \<Rightarrow> None
     | (stk, v # popped) \<Rightarrow> (case push_until v stk (x # pushed) of
           None \<Rightarrow> Some False
         | Some (stk, pushed) \<Rightarrow> stack_sequence_loop stk pushed popped))"
  by pat_completeness auto
termination
  by (relation "measure (\<lambda>(stk, pushed, popped). length pushed)") (auto dest: push_until_shrinks simp del: push_until.simps)

declare stack_sequence_loop.simps(2) [simp del]

definition validateStackSequences :: "int list \<Rightarrow> int list \<Rightarrow> bool option" where
  "validateStackSequences pushed popped =
     (if length pushed \<noteq> length popped then Some False else stack_sequence_loop [] pushed popped)"

text \<open>The possible histories of a stack: \<open>stack_run stk xs ys\<close> if from \<open>stk\<close> one can push \<open>xs\<close> in this order and pop \<open>ys\<close>.\<close>

inductive stack_run :: "int list \<Rightarrow> int list \<Rightarrow> int list \<Rightarrow> bool" where
  run_done: "stack_run [] [] []"
| run_push: "stack_run (x # stk) xs ys \<Longrightarrow> stack_run stk (x # xs) ys"
| run_pop: "stack_run stk xs ys \<Longrightarrow> stack_run (y # stk) xs (y # ys)"

inductive_cases run_emptyE: "stack_run stk [] ys"
inductive_cases run_consE: "stack_run stk (x # xs) ys"
inductive_cases run_popE: "stack_run stk xs (y # ys)"

lemma run_length: "stack_run stk xs ys \<Longrightarrow> length stk + length xs = length ys"
  by (induction rule: stack_run.induct) auto

lemma run_top: "stack_run stk xs (v # ys) \<Longrightarrow> v \<notin> set xs \<Longrightarrow> \<exists>stk'. stk = v # stk'"
  by (induction stk xs "v # ys" rule: stack_run.induct) auto

text \<open>The next move is forced: pop if the top is the next value, otherwise push.\<close>

lemma run_must_pop:
  assumes "v \<notin> set xs"
  shows "stack_run (v # stk) xs (v # ys) \<longleftrightarrow> stack_run stk xs ys"
proof
  assume R: "stack_run (v # stk) xs (v # ys)"
  then show "stack_run stk xs ys"
  proof (rule run_popE)
    fix x xs'
    assume "xs = x # xs'" "stack_run (x # v # stk) xs' (v # ys)"
    then have "x = v" using run_top [of "x # v # stk" xs' v ys] assms by auto
    then show ?thesis using \<open>xs = x # xs'\<close> assms by simp
  qed simp
qed (rule run_pop)

lemma run_must_push:
  assumes "stk = [] \<or> hd stk \<noteq> v"
  shows "stack_run stk xs (v # ys) \<longleftrightarrow> (case xs of [] \<Rightarrow> False | x # xs' \<Rightarrow> stack_run (x # stk) xs' (v # ys))"
  using assms by (auto elim: run_popE intro: run_push split: list.split)

lemma popping_run:
  assumes "set stk \<inter> set xs = {}"
  shows "case popping stk ys of (stk', ys') \<Rightarrow> stack_run stk xs ys = stack_run stk' xs ys' \<and> length ys + length stk' = length ys' + length stk \<and>
    (ys' = [] \<or> stk' = [] \<or> hd stk' \<noteq> hd ys') \<and> (\<exists>us. stk = us @ stk')"
  using assms
proof (induction stk ys rule: popping.induct)
  case (1 t stk v popped)
  show ?case
  proof (cases "t = v")
    case True
    then show ?thesis using 1 run_must_pop [of v xs stk popped] by (auto split: prod.splits)
  qed auto
qed auto

lemma push_until_run:
  assumes "distinct (rev stk @ xs)" "stk = [] \<or> hd stk \<noteq> v"
  shows "case push_until v stk xs of
      None \<Rightarrow> \<not> stack_run stk xs (v # ys)
    | Some (stk', xs') \<Rightarrow> stack_run stk xs (v # ys) = stack_run stk' xs' ys \<and> length stk + length xs = length stk' + length xs' + 1 \<and>
        distinct (rev stk' @ xs')"
  using assms
proof (induction v stk xs rule: push_until.induct)
  case (1 v stk)
  then show ?case using run_must_push [of stk v "[]" ys] by simp
next
  case (2 v stk x pushed)
  have run: "stack_run stk (x # pushed) (v # ys) = stack_run (x # stk) pushed (v # ys)"
    using run_must_push [OF 2(3), of "x # pushed" ys] by simp
  show ?case
  proof (cases "x = v")
    case True
    then show ?thesis using 2(2) run run_must_pop [of v pushed stk ys] by auto
  next
    case False
    then show ?thesis using 2 run by (auto split: option.splits)
  qed
qed

lemma stack_sequence_loop_run:
  "distinct (rev stk @ xs) \<Longrightarrow> length stk + length xs = length ys \<Longrightarrow>
   stack_sequence_loop stk xs ys = Some (stack_run stk xs ys)"
proof (induction "length xs" arbitrary: stk xs ys rule: less_induct)
  case less
  obtain stk' ys' where p: "popping stk ys = (stk', ys')" by (rule prod.exhaust)
  have P: "stack_run stk xs ys = stack_run stk' xs ys'" "length ys + length stk' = length ys' + length stk"
    "ys' = [] \<or> stk' = [] \<or> hd stk' \<noteq> hd ys'" "\<exists>us. stk = us @ stk'"
    using popping_run [of stk xs ys] less.prems(1) p by auto
  show ?case
  proof (cases xs)
    case Nil
    have "stack_run stk' [] ys' \<longleftrightarrow> stk' = []"
    proof
      assume "stack_run stk' [] ys'"
      then show "stk' = []" using P(3) by (auto elim: run_emptyE)
    next
      assume "stk' = []"
      then have "ys' = []" using P(2) less.prems(2) Nil by simp
      then show "stack_run stk' [] ys'" using \<open>stk' = []\<close> by (simp add: run_done)
    qed
    then show ?thesis using Nil p P(1) by simp
  next
    case (Cons x xs1)
    then obtain v ys1 where ys: "ys' = v # ys1" using P(2) less.prems(2) by (cases ys') auto
    have d: "distinct (rev stk' @ xs)" using less.prems(1) P(4) by auto
    note U = push_until_run [OF d, of v ys1]
    show ?thesis
    proof (cases "push_until v stk' xs")
      case None
      then show ?thesis using Cons p ys U P(1,3) by (simp add: stack_sequence_loop.simps)
    next
      case (Some s)
      then obtain stk2 xs2 where s: "push_until v stk' xs = Some (stk2, xs2)" by (cases s) auto
      then have "stack_sequence_loop stk2 xs2 ys1 = Some (stack_run stk2 xs2 ys1)"
        using U P less.prems(2) ys push_until_shrinks [OF s] by (intro less.hyps) auto
      then show ?thesis using Cons p ys U P(1,3) s by (simp add: stack_sequence_loop.simps)
    qed
  qed
qed

text \<open>For distinct values, \<open>validateStackSequences\<close> never reads past the end and decides whether some order of pushes and pops
  on an empty stack produces the two sequences.\<close>

theorem validateStackSequences_correct:
  assumes "distinct pushed"
  shows "validateStackSequences pushed popped = Some (stack_run [] pushed popped)"
  using stack_sequence_loop_run [of "[]" pushed popped] run_length [of "[]" pushed popped] assms
  by (auto simp: validateStackSequences_def)

theorem validateStackSequences_witness:
  "validateStackSequences [1, 2, 3, 4, 5] [4, 5, 3, 2, 1] = Some (stack_run [] [1, 2, 3, 4, 5] [4, 5, 3, 2, 1])"
  by (rule validateStackSequences_correct) simp
subsection \<open>Verify Preorder Serialization\<close>

text \<open>The switch of the loop: the new stack and flag and whether a character is skipped; \<open>None\<close> is \<open>return false\<close>.\<close>

definition serial_char :: "char \<Rightarrow> nat list \<Rightarrow> bool \<Rightarrow> (nat list \<times> bool \<times> bool) option" where
  "serial_char c childCount digit =
     (if c = CHR ''#'' then
        (case childCount of
           [] \<Rightarrow> None
         | n # rest \<Rightarrow> if n + 1 > 2 then None else Some ((n + 1) # rest, digit, True))
      else if c = CHR '','' then Some (childCount, False, False)
      else if digit then Some (childCount, digit, False)
      else Some (0 # (case childCount of [] \<Rightarrow> [] | n # rest \<Rightarrow> (n + 1) # rest), True, False))"

text \<open>\<open>preorder.size() - 2\<close> is unsigned.\<close>

function serial_loop :: "nat \<Rightarrow> nat \<Rightarrow> nat list \<Rightarrow> bool \<Rightarrow> string \<Rightarrow> bool" where
  "serial_loop sz i childCount digit [] = (childCount = [])"
| "serial_loop sz i childCount digit (c # s) = (
     case serial_char c childCount digit of
       None \<Rightarrow> False
     | Some (childCount, digit, skip) \<Rightarrow>
         let i = (if skip then Suc i else i);
             childCount = dropWhile (\<lambda>n. n = 2) childCount
         in if childCount = [] \<and> int i < (int sz - 2) mod 2 ^ 64 then False
            else serial_loop sz (Suc i) childCount digit (if skip then tl s else s))"
  by pat_completeness auto
termination by (relation "measure (\<lambda>(sz, i, cc, d, s). length s)") auto

declare serial_loop.simps(2) [simp del]

definition isValidSerialization :: "string \<Rightarrow> bool" where
  "isValidSerialization preorder =
     (if preorder = [] then False
      else if preorder = ''#'' then True
      else serial_loop (length preorder) 0 [] False preorder)"

text \<open>Binary trees, their preorder tokens and the comma-separated text.\<close>

datatype bintree = Nil_tree | Node string bintree bintree

fun preorder :: "bintree \<Rightarrow> string list" where
  "preorder Nil_tree = [''#'']"
| "preorder (Node v l r) = v # preorder l @ preorder r"

fun join :: "string list \<Rightarrow> string" where
  "join [] = []"
| "join [t] = t"
| "join (t # ts) = t @ CHR '','' # join ts"

definition number :: "string \<Rightarrow> bool" where
  "number t \<longleftrightarrow> t \<noteq> [] \<and> (\<forall>c \<in> set t. isdigit c)"

fun tree_ok :: "bintree \<Rightarrow> bool" where
  "tree_ok Nil_tree \<longleftrightarrow> True"
| "tree_ok (Node v l r) \<longleftrightarrow> number v \<and> tree_ok l \<and> tree_ok r"

text \<open>\<open>slots d ts\<close>: the tokens fill \<open>d\<close> open subtrees.\<close>

fun slots :: "nat \<Rightarrow> string list \<Rightarrow> bool" where
  "slots d [] \<longleftrightarrow> d = 0"
| "slots 0 (t # ts) \<longleftrightarrow> False"
| "slots (Suc d) (t # ts) \<longleftrightarrow> (if t = ''#'' then slots d ts else slots (Suc (Suc d)) ts)"

lemma not_hash [simp]: "\<not> isdigit CHR ''#''" "\<not> isdigit CHR '',''"
  by (simp_all add: isdigit_def code_def)

lemma number_not_hash: "number t \<Longrightarrow> t \<noteq> ''#''"
  by (auto simp: number_def)

lemma slots_trees:
  "(\<forall>t \<in> set ts. t = ''#'' \<or> number t) \<Longrightarrow>
   slots d ts \<longleftrightarrow> (\<exists>xs. length xs = d \<and> list_all tree_ok xs \<and> ts = concat (map preorder xs))"
proof (induction d ts rule: slots.induct)
  case (1 d)
  have "preorder x \<noteq> []" for x by (cases x) auto
  then have "(\<exists>xs. length xs = d \<and> list_all tree_ok xs \<and> [] = concat (map preorder xs)) \<longleftrightarrow> d = 0"
    by (auto simp: length_0_conv)
  then show ?case by simp
next
  case (3 d t ts)
  show ?case
  proof (cases "t = ''#''")
    case True
    then have IH: "slots d ts \<longleftrightarrow> (\<exists>xs. length xs = d \<and> list_all tree_ok xs \<and> ts = concat (map preorder xs))" using 3 by simp
    have "(\<exists>xs. length xs = Suc d \<and> list_all tree_ok xs \<and> t # ts = concat (map preorder xs)) \<longleftrightarrow>
        (\<exists>xs. length xs = d \<and> list_all tree_ok xs \<and> ts = concat (map preorder xs))" (is "?L \<longleftrightarrow> ?R")
    proof
      assume ?L
      then obtain x xs where x: "length xs = d" "tree_ok x" "list_all tree_ok xs" "t # ts = preorder x @ concat (map preorder xs)"
        by (auto simp: length_Suc_conv)
      then have "x = Nil_tree" using True by (cases x) (auto dest: number_not_hash)
      then show ?R using x by auto
    next
      assume ?R
      then obtain xs where "length xs = d" "list_all tree_ok xs" "ts = concat (map preorder xs)" by blast
      then show ?L using True by (intro exI [of _ "Nil_tree # xs"]) auto
    qed
    then show ?thesis using True IH by simp
  next
    case False
    then have t: "number t" using 3 by auto
    have IH: "slots (Suc (Suc d)) ts \<longleftrightarrow> (\<exists>xs. length xs = Suc (Suc d) \<and> list_all tree_ok xs \<and> ts = concat (map preorder xs))"
      using 3 False by simp
    have "(\<exists>xs. length xs = Suc d \<and> list_all tree_ok xs \<and> t # ts = concat (map preorder xs)) \<longleftrightarrow>
        (\<exists>xs. length xs = Suc (Suc d) \<and> list_all tree_ok xs \<and> ts = concat (map preorder xs))" (is "?L \<longleftrightarrow> ?R")
    proof
      assume ?L
      then obtain x xs where x: "length xs = d" "tree_ok x" "list_all tree_ok xs" "t # ts = preorder x @ concat (map preorder xs)"
        by (auto simp: length_Suc_conv)
      then obtain l r where "x = Node t l r" using False by (cases x) auto
      then show ?R using x by (intro exI [of _ "l # r # xs"]) auto
    next
      assume ?R
      then obtain l r xs where "length xs = d" "tree_ok l" "tree_ok r" "list_all tree_ok xs" "ts = preorder l @ preorder r @ concat (map preorder xs)"
        by (auto simp: length_Suc_conv)
      then show ?L using t by (intro exI [of _ "Node t l r # xs"]) auto
    qed
    then show ?thesis using False IH by simp
  qed
qed auto

text \<open>The loop on whole tokens.\<close>

fun token_run :: "nat list \<Rightarrow> string list \<Rightarrow> bool" where
  "token_run cc [] \<longleftrightarrow> cc = []"
| "token_run cc (t # ts) \<longleftrightarrow>
     (if t = ''#'' then (case cc of
          [] \<Rightarrow> False
        | n # rest \<Rightarrow> let cc = dropWhile (\<lambda>n. n = 2) ((n + 1) # rest) in if cc = [] then ts = [] else token_run cc ts)
      else token_run (0 # (case cc of [] \<Rightarrow> [] | n # rest \<Rightarrow> (n + 1) # rest)) ts)"

lemma token_run_hash:
  "token_run (n # rest) (''#'' # ts) =
    (if dropWhile (\<lambda>n. n = 2) ((n + 1) # rest) = [] then ts = [] else token_run (dropWhile (\<lambda>n. n = 2) ((n + 1) # rest)) ts)"
  by (simp only: token_run.simps if_True list.case refl Let_def)

definition counts_ok :: "nat list \<Rightarrow> bool" where
  "counts_ok cc \<longleftrightarrow> cc \<noteq> [] \<and> hd cc < 2 \<and> (\<forall>n \<in> set cc. n \<le> 2)"

definition missing :: "nat list \<Rightarrow> nat" where
  "missing cc = sum_list (map (\<lambda>n. 2 - n) cc)"

lemma missing_dropWhile [simp]: "missing (dropWhile (\<lambda>n. n = 2) cc) = missing cc"
  by (induction cc) (auto simp: missing_def)

lemma token_run_slots: "counts_ok cc \<Longrightarrow> token_run cc ts = slots (missing cc) ts"
proof (induction ts arbitrary: cc)
  case Nil
  then show ?case by (cases cc) (auto simp: counts_ok_def missing_def)
next
  case (Cons t ts)
  obtain n rest where cc: "cc = n # rest" using Cons.prems by (cases cc) (auto simp: counts_ok_def)
  then have n: "n < 2" "\<forall>k \<in> set rest. k \<le> 2" using Cons.prems by (auto simp: counts_ok_def)
  have m: "missing cc = Suc (missing ((n + 1) # rest))" using n by (simp add: cc missing_def)
  show ?case
  proof (cases "t = ''#''")
    case True
    define cc' where "cc' = dropWhile (\<lambda>n. n = 2) ((n + 1) # rest)"
    have mc: "missing cc' = missing ((n + 1) # rest)" unfolding cc'_def by (rule missing_dropWhile)
    show ?thesis
    proof (cases "cc' = []")
      case True
      then have z: "missing ((n + 1) # rest) = 0" using mc by (simp add: missing_def)
      have "slots 0 ts \<longleftrightarrow> ts = []" by (cases ts) auto
      then show ?thesis unfolding \<open>t = ''#''\<close> cc token_run_hash cc'_def [symmetric] using True m z by (simp add: cc)
    next
      case False
      have "hd cc' \<noteq> 2" using hd_dropWhile [of "\<lambda>n. n = 2" "(n + 1) # rest"] False unfolding cc'_def by auto
      moreover have "set cc' \<subseteq> set ((n + 1) # rest)" unfolding cc'_def using set_dropWhileD by fast
      ultimately have "counts_ok cc'" using False n hd_in_set [OF False] unfolding counts_ok_def by fastforce
      then show ?thesis unfolding \<open>t = ''#''\<close> cc token_run_hash cc'_def [symmetric] using Cons.IH [of cc'] False m mc by (simp add: cc)
    qed
  next
    case False
    have "counts_ok (0 # (n + 1) # rest)" using n by (auto simp: counts_ok_def)
    moreover have "missing (0 # (n + 1) # rest) = Suc (missing cc)" using m by (simp add: missing_def)
    ultimately show ?thesis using Cons.IH [of "0 # (n + 1) # rest"] False m by (simp add: cc)
  qed
qed

lemma serial_digits:
  "\<forall>c \<in> set ds. isdigit c \<Longrightarrow> serial_loop sz i (0 # cc) True (ds @ s) = serial_loop sz (i + length ds) (0 # cc) True s"
proof (induction ds arbitrary: i)
  case (Cons d ds)
  then have "d \<noteq> CHR ''#''" "d \<noteq> CHR '',''" by auto
  then show ?case using Cons by (simp add: serial_loop.simps(2) serial_char_def)
qed simp

lemma serial_comma: "serial_loop sz i (0 # cc) True (CHR '','' # s) = serial_loop sz (Suc i) (0 # cc) False s"
  by (simp add: serial_loop.simps(2) serial_char_def)

lemma serial_number:
  assumes "number t"
  shows "serial_loop sz i cc False (t @ s) = serial_loop sz (i + length t) (0 # (case cc of [] \<Rightarrow> [] | n # rest \<Rightarrow> (n + 1) # rest)) True s"
proof -
  obtain d ds where t: "t = d # ds" "isdigit d" "\<forall>c \<in> set ds. isdigit c" using assms by (cases t) (auto simp: number_def)
  then have "d \<noteq> CHR ''#''" "d \<noteq> CHR '',''" by auto
  then show ?thesis using t serial_digits [OF t(3), of sz "Suc i"] by (simp add: serial_loop.simps(2) serial_char_def Let_def)
qed

lemma join_Cons: "ts \<noteq> [] \<Longrightarrow> join (t # ts) = t @ CHR '','' # join ts"
  by (cases ts) auto

lemma join_nonempty: "\<forall>t \<in> set ts. t = ''#'' \<or> number t \<Longrightarrow> ts \<noteq> [] \<Longrightarrow> join ts \<noteq> []"
  by (cases ts rule: join.cases) (auto simp: number_def)

lemma join_single:
  assumes "\<forall>t \<in> set ts. t = ''#'' \<or> number t" "ts \<noteq> []" "length (join ts) \<le> 1"
  shows "\<exists>c. join ts = [c] \<and> (c = CHR ''#'' \<or> isdigit c)"
proof (cases ts rule: join.cases)
  case (2 t)
  have "t \<noteq> []" using assms(1) 2 by (auto simp: number_def)
  then obtain c where "t = [c]" using assms(3) 2 by (cases t) auto
  then show ?thesis using assms(1) 2 by (auto simp: number_def)
next
  case (3 t t' ts')
  have "t \<noteq> []" using assms(1) 3 by (auto simp: number_def)
  then show ?thesis using assms(3) 3 by (cases t) auto
qed (use assms in simp)

lemma serial_loop_tokens:
  assumes "2 \<le> sz" "sz < 2 ^ 63"
  shows "\<forall>t \<in> set ts. t = ''#'' \<or> number t \<Longrightarrow> ts \<noteq> [] \<Longrightarrow> cc = [] \<or> counts_ok cc \<Longrightarrow> i + length (join ts) = sz \<Longrightarrow>
    serial_loop sz i cc False (join ts) = token_run cc ts"
proof (induction ts arbitrary: cc i)
  case (Cons t ts)
  have szm: "(int sz - 2) mod 2 ^ 64 = int sz - 2" using assms by (intro mod_pos_pos_trivial) auto
  show ?case
  proof (cases "t = ''#''")
    case False
    then have t: "number t" using Cons.prems by auto
    let ?cc = "case cc of [] \<Rightarrow> [] | n # rest \<Rightarrow> (n + 1) # rest"
    show ?thesis
    proof (cases "ts = []")
      case True
      then show ?thesis using serial_number [OF t, of sz i cc "[]"] False by simp
    next
      case F: False
      have "serial_loop sz i cc False (join (t # ts)) = serial_loop sz (Suc (i + length t)) (0 # ?cc) False (join ts)"
        unfolding join_Cons [OF F] serial_number [OF t] serial_comma ..
      also have "\<dots> = token_run (0 # ?cc) ts"
        using Cons.prems F by (intro Cons.IH) (auto simp: join_Cons counts_ok_def split: list.split)
      finally show ?thesis using False by simp
    qed
  next
    case True
    show ?thesis
    proof (cases cc)
      case Nil
      have "join (t # ts) = CHR ''#'' # tl (join (t # ts))" using True by (cases ts) auto
      then have "serial_loop sz i cc False (join (t # ts)) = False" using Nil serial_loop.simps(2) [of sz i cc False "CHR ''#''" "tl (join (t # ts))"]
        by (simp add: serial_char_def)
      then show ?thesis using Nil True by simp
    next
      case C: (Cons n rest)
      then have n: "\<not> n + 1 > 2" "\<forall>k \<in> set rest. k \<le> 2" using Cons.prems(3) by (auto simp: counts_ok_def)
      define cc' where "cc' = dropWhile (\<lambda>n. n = 2) ((n + 1) # rest)"
      have sc: "serial_char CHR ''#'' (n # rest) False = Some ((n + 1) # rest, False, True)" using n by (simp add: serial_char_def)
      have ok: "cc' = [] \<or> counts_ok cc'"
      proof (cases "cc' = []")
        case False
        have "hd cc' \<noteq> 2" using hd_dropWhile [of "\<lambda>n. n = 2" "(n + 1) # rest"] False unfolding cc'_def by auto
        moreover have "set cc' \<subseteq> set ((n + 1) # rest)" unfolding cc'_def using set_dropWhileD by fast
        ultimately show ?thesis using False n hd_in_set [OF False] unfolding counts_ok_def by fastforce
      qed simp
      show ?thesis
      proof (cases "ts = []")
        case True
        have "int (Suc i) < int sz - 2 \<longleftrightarrow> False" using Cons.prems(4) True \<open>t = ''#''\<close> by simp
        moreover have "serial_loop sz i cc False (join (t # ts)) =
            (if cc' = [] \<and> int (Suc i) < int sz - 2 then False else serial_loop sz (Suc (Suc i)) cc' False [])"
          unfolding True C \<open>t = ''#''\<close> join.simps serial_loop.simps(2) sc option.case prod.case Let_def if_True szm cc'_def [symmetric] by simp
        ultimately show ?thesis unfolding True \<open>t = ''#''\<close> C token_run_hash cc'_def [symmetric] by simp
      next
        case F: False
        have j: "join (t # ts) = CHR ''#'' # CHR '','' # join ts" using F True by (simp add: join_Cons)
        have run: "serial_loop sz i cc False (join (t # ts)) =
            (if cc' = [] \<and> int (Suc i) < int sz - 2 then False else serial_loop sz (Suc (Suc i)) cc' False (join ts))"
          unfolding j C serial_loop.simps(2) sc option.case prod.case Let_def if_True szm cc'_def [symmetric] by simp
        have len: "Suc (Suc i) + length (join ts) = sz" using Cons.prems(4) j by simp
        show ?thesis
        proof (cases "cc' = []")
          case True
          have "serial_loop sz (Suc (Suc i)) [] False (join ts) = False" if "\<not> int (Suc i) < int sz - 2"
          proof -
            have "length (join ts) \<le> 1" using len that by simp
            then obtain c where c: "join ts = [c]" "c = CHR ''#'' \<or> isdigit c"
              using join_single [of ts] Cons.prems(1) F by auto
            then have "c \<noteq> CHR '',''" by auto
            then show ?thesis by (cases "c = CHR ''#''") (simp_all add: c(1) serial_loop.simps serial_char_def)
          qed
          moreover have "token_run cc (t # ts) = False" unfolding \<open>t = ''#''\<close> C token_run_hash cc'_def [symmetric] using True F by simp
          ultimately show ?thesis using run True by simp
        next
          case N: False
          then have "serial_loop sz (Suc (Suc i)) cc' False (join ts) = token_run cc' ts"
            using Cons.prems(1) F ok len by (intro Cons.IH) auto
          moreover have "token_run cc (t # ts) = token_run cc' ts" unfolding \<open>t = ''#''\<close> C token_run_hash cc'_def [symmetric] using N by simp
          ultimately show ?thesis using run N by simp
        qed
      qed
    qed
  qed
qed simp

lemma slots_first:
  assumes "ts \<noteq> []"
  shows "slots 1 ts \<longleftrightarrow> ts = [''#''] \<or> token_run [] ts"
proof (cases ts)
  case (Cons t ts')
  have "slots 0 ts' \<longleftrightarrow> ts' = []" by (cases ts') auto
  moreover have "token_run [0] ts' = slots 2 ts'"
    using token_run_slots [of "[0]" ts'] by (simp add: counts_ok_def missing_def)
  ultimately show ?thesis using Cons by (auto simp: numeral_2_eq_2)
qed (use assms in simp)

lemma isValidSerialization_short:
  assumes "\<forall>t \<in> set ts. t = ''#'' \<or> number t" "length (join ts) < 2"
  shows "isValidSerialization (join ts) \<longleftrightarrow> slots 1 ts"
proof (cases "ts = []")
  case True
  then show ?thesis by (simp add: isValidSerialization_def)
next
  case False
  then obtain c where c: "join ts = [c]" "c = CHR ''#'' \<or> isdigit c" using join_single [of ts] assms by auto
  have ts: "ts = [[c]]"
  proof (cases ts rule: join.cases)
    case (3 t t' ts')
    then show ?thesis using c assms(1) by (cases t) (auto simp: number_def)
  qed (use False c in auto)
  show ?thesis
  proof (cases "c = CHR ''#''")
    case F: False
    then have "c \<noteq> CHR '',''" using c(2) by auto
    then show ?thesis using ts F by (simp add: isValidSerialization_def serial_loop.simps serial_char_def)
  qed (use ts in \<open>simp add: isValidSerialization_def\<close>)
qed

text \<open>C15: On a string that is the comma-separated join of well-formed tokens (each \<open>#\<close> or an unsigned number),
  \<open>isValidSerialization\<close> accepts exactly the preorder serializations of binary trees. Of other strings nothing is claimed.\<close>

theorem isValidSerialization_correct:
  assumes "\<forall>t \<in> set ts. t = ''#'' \<or> number t" "length (join ts) < 2 ^ 63"
  shows "isValidSerialization (join ts) \<longleftrightarrow> (\<exists>t. tree_ok t \<and> ts = preorder t)"
proof -
  have one: "(\<exists>t. tree_ok t \<and> ts = preorder t) \<longleftrightarrow> slots 1 ts"
    unfolding slots_trees [OF assms(1)] by (auto simp: length_Suc_conv)
  show ?thesis
  proof (cases "length (join ts) < 2")
    case True
    then show ?thesis unfolding one by (rule isValidSerialization_short [OF assms(1)])
  next
    case False
    then have "ts \<noteq> []" "join ts \<noteq> ''#''" "join ts \<noteq> []" "ts \<noteq> [''#'']" by auto
    then have "isValidSerialization (join ts) = token_run [] ts"
      using serial_loop_tokens [of "length (join ts)" ts "[]" 0] False assms by (simp add: isValidSerialization_def)
    then show ?thesis unfolding one using slots_first \<open>ts \<noteq> []\<close> \<open>ts \<noteq> [''#'']\<close> by simp
  qed
qed

theorem isValidSerialization_witness:
  "isValidSerialization (join [''9'', ''3'', ''#'', ''#'', ''#'']) \<longleftrightarrow> (\<exists>t. tree_ok t \<and> [''9'', ''3'', ''#'', ''#'', ''#''] = preorder t)"
  by (rule isValidSerialization_correct) (auto simp: number_def isdigit_def code_def)
subsection \<open>Decode String\<close>

text \<open>Positions and lengths are \<open>int\<close>s. \<open>s.replace\<close> and \<open>s.insert\<close> throw (\<open>None\<close>) for a position outside the string; a negative length of
  the part to replace is a huge \<open>size_t\<close> and reaches to the end.\<close>

fun get_count_loop :: "string \<Rightarrow> nat \<Rightarrow> int \<Rightarrow> int \<Rightarrow> nat \<times> int" where
  "get_count_loop s 0 cnt mul = (0, cnt)"
| "get_count_loop s (Suc start) cnt mul =
     (if isdigit (s ! start) then get_count_loop s start (i32 (cnt + (code (s ! start) - 48) * mul)) (i32 (mul * 10))
      else (Suc start, cnt))"

definition getCount :: "string \<Rightarrow> nat \<Rightarrow> nat \<times> int" where
  "getCount s start = get_count_loop s start 0 1"

definition replace_at :: "string \<Rightarrow> nat \<Rightarrow> int \<Rightarrow> string \<Rightarrow> string option" where
  "replace_at s pos replaced encode =
     (if pos \<le> length s
      then Some (take pos s @ encode @ (if replaced < 0 then [] else drop (pos + nat replaced) s))
      else None)"

definition insert_at :: "string \<Rightarrow> int \<Rightarrow> string \<Rightarrow> string option" where
  "insert_at s pos encode =
     (if 0 \<le> pos \<and> pos \<le> int (length s) then Some (take (nat pos) s @ encode @ drop (nat pos) s) else None)"

text \<open>\<open>s.insert(ins_pos, encode)\<close>, count - 1 times.\<close>

primrec insert_times :: "nat \<Rightarrow> string \<Rightarrow> int \<Rightarrow> int \<Rightarrow> string \<Rightarrow> string option" where
  "insert_times 0 s ins_pos encode_len encode = Some s"
| "insert_times (Suc k) s ins_pos encode_len encode = (
     let ins_pos = i32 (ins_pos + encode_len)
     in do { s \<leftarrow> insert_at s ins_pos encode; insert_times k s ins_pos encode_len encode })"

definition decode_bracket :: "string \<Rightarrow> int \<Rightarrow> int \<Rightarrow> nat list \<Rightarrow> (string \<times> int \<times> int \<times> nat list) option" where
  "decode_bracket s i n ob = (case ob of
     [] \<Rightarrow> None
   | top_pos # ob \<Rightarrow>
       let start = i32 (int top_pos + 1);
           (ins_pos, cnt) = getCount s top_pos;
           replaced = i32 (i32 (i - int ins_pos) + 1)
       in do {
         encode \<leftarrow> substr s start (i32 (i - start));
         let encode_len = i32 (i - start);
         s \<leftarrow> replace_at s ins_pos replaced encode;
         s \<leftarrow> insert_times (nat (i32 (cnt - 1))) s (int ins_pos) encode_len encode;
         let delta = i32 (i32 (encode_len * cnt) - replaced);
         Some (s, i32 (i + delta), i32 (n + delta), ob)
       })"

partial_function (option) decode_loop :: "string \<Rightarrow> int \<Rightarrow> int \<Rightarrow> nat list \<Rightarrow> string option" where
  "decode_loop s i n ob = (
     if i < n then
       (case ivec_at s i of
          None \<Rightarrow> None
        | Some c \<Rightarrow>
            if c = CHR ''['' then decode_loop s (i32 (i + 1)) n (nat i # ob)
            else if c = CHR '']'' then
              (case decode_bracket s i n ob of
                 None \<Rightarrow> None
               | Some (s, i, n, ob) \<Rightarrow> decode_loop s (i32 (i + 1)) n ob)
            else decode_loop s (i32 (i + 1)) n ob)
     else Some s)"

declare decode_loop.simps [simp del]

definition decodeString :: "string \<Rightarrow> string option" where
  "decodeString s = decode_loop s 0 (i32 (int (length s))) []"

text \<open>An encoded string is a list of letters and repeated groups.\<close>

datatype piece = Letter char | Rep nat "piece list"

fun render :: "piece \<Rightarrow> string" where
  "render (Letter c) = [c]"
| "render (Rep k ps) = show_nat k @ CHR ''['' # concat (map render ps) @ '']''"

fun expand :: "piece \<Rightarrow> string" where
  "expand (Letter c) = [c]"
| "expand (Rep k ps) = concat (replicate k (concat (map expand ps)))"

fun plain :: "piece \<Rightarrow> bool" where
  "plain (Letter c) \<longleftrightarrow> \<not> isdigit c \<and> c \<noteq> CHR ''['' \<and> c \<noteq> CHR '']''"
| "plain (Rep k ps) \<longleftrightarrow> 0 < k \<and> k < 10 ^ 9 \<and> list_all plain ps"

lemma get_count_digits:
  assumes "\<forall>c \<in> set ds. isdigit c" "0 \<le> c" "c < m" "m * 10 ^ length ds \<le> 10 ^ 9"
  shows "get_count_loop (L @ ds @ R) (length L + length ds) c m =
    get_count_loop (L @ ds @ R) (length L) (c + m * digits_value 0 ds) (m * 10 ^ length ds)"
  using assms
proof (induction ds arbitrary: c m R rule: rev_induct)
  case (snoc d ds)
  have d: "isdigit d" "0 \<le> code d - 48" "code d - 48 \<le> 9" using snoc.prems(1) by (auto simp: isdigit_def)
  have p: "1 \<le> (10 :: int) ^ length ds" by simp
  have "m * 10 * 1 \<le> m * 10 * 10 ^ length ds" using snoc.prems p by (intro mult_left_mono) auto
  then have m: "m * 10 \<le> 10 ^ 9" using snoc.prems(4) by (simp add: mult.assoc)
  have "(code d - 48) * m \<le> 9 * m" "0 \<le> (code d - 48) * m" using d snoc.prems by (auto intro: mult_right_mono)
  then have b: "0 \<le> c + (code d - 48) * m" "c + (code d - 48) * m < m * 10"
    using snoc.prems(2,3) by linarith+
  then have w: "i32 (c + (code d - 48) * m) = c + (code d - 48) * m" "i32 (m * 10) = m * 10" using m snoc.prems by (auto intro!: i32_id)
  have "get_count_loop (L @ (ds @ [d]) @ R) (length L + length (ds @ [d])) c m =
     get_count_loop (L @ ds @ (d # R)) (length L + length ds) (c + (code d - 48) * m) (m * 10)"
    using d(1) by (simp add: nth_append w)
  also have "\<dots> = get_count_loop (L @ ds @ (d # R)) (length L) (c + (code d - 48) * m + m * 10 * digits_value 0 ds) (m * 10 * 10 ^ length ds)"
    using snoc.prems b by (intro snoc.IH) (auto simp: mult.assoc)
  also have "c + (code d - 48) * m + m * 10 * digits_value 0 ds = c + m * digits_value 0 (ds @ [d])"
    using snoc.prems(1) d(1) by (simp add: digits_value_append algebra_simps)
  finally show ?case by (simp add: mult.assoc)
qed simp

lemma getCount_prefix:
  assumes "L = [] \<or> \<not> isdigit (List.last L)" "0 < k" "k < 10 ^ 9"
  shows "getCount (L @ show_nat k @ R) (length L + length (show_nat k)) = (length L, int k)"
proof -
  have D: "\<forall>c \<in> set (show_nat k). isdigit c" "digits_value 0 (show_nat k) = int k" "show_nat k \<noteq> []" using show_nat_digits by auto
  have "10 ^ (length (show_nat k) - 1) \<le> int k" using digits_value_lower [OF D(3,1)] show_nat_head [OF assms(2)] D(2) by simp
  moreover have "int k < 10 ^ 9" using assms(3) by simp
  ultimately have lt: "(10 :: int) ^ (length (show_nat k) - 1) < 10 ^ 9" by linarith
  have "length (show_nat k) - 1 < 9" using power_less_imp_less_exp [OF _ lt] by simp
  then have len: "length (show_nat k) \<le> 9" by simp
  have "1 * (10 :: int) ^ length (show_nat k) \<le> 10 ^ 9" using power_increasing [OF len, of "10 :: int"] by simp
  from get_count_digits [OF D(1) _ _ this, of 0 L R] have "getCount (L @ show_nat k @ R) (length L + length (show_nat k)) =
     get_count_loop (L @ show_nat k @ R) (length L) (int k) (10 ^ length (show_nat k))"
    by (simp add: getCount_def D(2))
  also have "\<dots> = (length L, int k)"
  proof (cases L rule: rev_cases)
    case (snoc L' c)
    then show ?thesis using assms(1) by (simp add: nth_append)
  qed simp
  finally show ?thesis .
qed

lemma insert_times_spec:
  "length a + length e * Suc k + length b < 2147483648 \<Longrightarrow>
   insert_times k (a @ e @ b) (int (length a)) (int (length e)) e = Some (a @ concat (replicate (Suc k) e) @ b)"
proof (induction k arbitrary: a)
  case (Suc k)
  have "length a + length e \<le> length a + length e * Suc (Suc k) + length b" by simp
  then have "length a + length e < 2147483648" using Suc.prems by linarith
  then have "int (length a + length e) < 2147483648" by linarith
  then have "i32 (int (length a) + int (length e)) = int (length (a @ e))"
    by (subst i32_id) simp_all
  then have "insert_times (Suc k) (a @ e @ b) (int (length a)) (int (length e)) e =
      insert_times k ((a @ e) @ e @ b) (int (length (a @ e))) (int (length e)) e"
    by (simp add: Let_def insert_at_def)
  also have "\<dots> = Some ((a @ e) @ concat (replicate (Suc k) e) @ b)"
    using Suc.prems by (intro Suc.IH) (simp add: algebra_simps)
  finally show ?case by simp
qed simp

lemma concat_replicate_set: "set (concat (replicate k xs)) \<subseteq> set xs"
  by (induction k) auto

lemma expand_not_digit: "plain p \<Longrightarrow> c \<in> set (expand p) \<Longrightarrow> \<not> isdigit c"
proof (induction p)
  case (Rep k ps)
  then have "c \<in> set (concat (map expand ps))" using concat_replicate_set [of k "concat (map expand ps)"] by auto
  then show ?case using Rep by (auto simp: list_all_iff)
qed auto

definition no_digit_end :: "string \<Rightarrow> bool" where
  "no_digit_end L \<longleftrightarrow> L = [] \<or> \<not> isdigit (List.last L)"

lemma no_digit_end_append: "no_digit_end L \<Longrightarrow> \<forall>c \<in> set xs. \<not> isdigit c \<Longrightarrow> no_digit_end (L @ xs)"
  by (cases xs rule: rev_cases) (auto simp: no_digit_end_def)

text \<open>The loop in front of a suffix: the prefix is decoded, the lengths fit into an \<open>int\<close>.\<close>

definition decoding :: "string \<Rightarrow> string \<Rightarrow> nat list \<Rightarrow> string option" where
  "decoding L R ob = decode_loop (L @ R) (int (length L)) (int (length (L @ R))) ob"

lemma decoding_char:
  assumes "length (L @ c # R) < 2147483648"
  shows "decoding L (c # R) ob =
    (if c = CHR ''['' then decoding (L @ [c]) R (length L # ob)
     else if c = CHR '']'' then
       (case decode_bracket (L @ c # R) (int (length L)) (int (length (L @ c # R))) ob of
          None \<Rightarrow> None
        | Some (s, i, n, ob) \<Rightarrow> decode_loop s (i32 (i + 1)) n ob)
     else decoding (L @ [c]) R ob)"
proof -
  have "i32 (int (length L) + 1) = int (length L) + 1" using assms by (intro i32_id) simp_all
  then show ?thesis unfolding decoding_def by (subst decode_loop.simps) (simp add: add.commute)
qed

lemma decoding_digits:
  "\<forall>c \<in> set ds. isdigit c \<Longrightarrow> length (L @ ds @ R) < 2147483648 \<Longrightarrow> decoding L (ds @ R) ob = decoding (L @ ds) R ob"
proof (induction ds arbitrary: L)
  case (Cons d ds)
  then have "d \<noteq> CHR ''[''" "d \<noteq> CHR '']''" by (auto simp: isdigit_def code_def)
  then show ?case using Cons by (simp add: decoding_char)
qed simp

lemma decode_close:
  assumes "no_digit_end L" "0 < k" "k < 10 ^ 9"
    and small: "length L + length (show_nat k) + length e + length R + 2 < 2147483648" "length L + length e * k + length R < 2147483648"
  shows "decoding (L @ show_nat k @ CHR ''['' # e) (CHR '']'' # R) ((length L + length (show_nat k)) # ob) =
    decoding (L @ concat (replicate k e)) R ob"
proof -
  let ?o = "length L + length (show_nat k)"
  let ?s = "(L @ show_nat k @ CHR ''['' # e) @ CHR '']'' # R"
  let ?i = "int (length (L @ show_nat k @ CHR ''['' # e))"
  have "int (length L + length (show_nat k) + length e + length R + 2) < 2147483648" using small(1) by linarith
  moreover have "int (length L + length e * k + length R) < 2147483648" using small(2) by linarith
  moreover have "0 \<le> int (length e) * int k" by simp
  ultimately have bound: "int (length L) + int (length (show_nat k)) + int (length e) + int (length R) + 2 < 2147483648"
    "int (length L) + int (length e) * int k + int (length R) < 2147483648" "0 \<le> int (length e) * int k"
    by (simp_all only: of_nat_add of_nat_mult of_nat_numeral)
  note lens = length_append list.size of_nat_add of_nat_Suc of_nat_0 nat_0 add_0_right
  have cnt: "getCount ?s ?o = (length L, int k)"
    using getCount_prefix [of L k "CHR ''['' # e @ CHR '']'' # R"] assms by (simp add: no_digit_end_def)
  have start: "i32 (int ?o + 1) = int (?o + 1)" unfolding lens by (subst i32_id; use bound in linarith)
  have elen: "i32 (?i - int (?o + 1)) = int (length e)"
    unfolding lens by (subst i32_id; use bound in linarith)
  have replaced: "i32 (i32 (?i - int (length L)) + 1) = int (length (show_nat k) + length e + 2)"
  proof -
    have "i32 (?i - int (length L)) = ?i - int (length L)" unfolding lens by (rule i32_id; use bound in linarith)
    moreover have "i32 (?i - int (length L) + 1) = int (length (show_nat k) + length e + 2)"
      unfolding lens by (subst i32_id; use bound in linarith)
    ultimately show ?thesis by simp
  qed
  have sub: "substr ?s (int (?o + 1)) (int (length e)) = Some e" by (simp add: substr_def nat_add_distrib)
  have repl: "replace_at ?s (length L) (int (length (show_nat k) + length e + 2)) e = Some (L @ e @ R)"
  proof -
    have "length L + nat (int (length (show_nat k) + length e + 2)) = length (L @ show_nat k @ CHR ''['' # e @ '']'')" by simp
    moreover have "drop (length (L @ show_nat k @ CHR ''['' # e @ '']'')) ?s = R"
      using append_eq_conv_conj [of "L @ show_nat k @ CHR ''['' # e @ '']''" R ?s] by simp
    ultimately show ?thesis unfolding replace_at_def by simp
  qed
  have len: "int (length (concat (replicate k e))) = int (length e) * int k" by (induction k) (auto simp: algebra_simps)
  have times: "i32 (int k - 1) = int k - 1" using assms(2,3) by (intro i32_id) simp_all
  have ins: "insert_times (nat (int k - 1)) (L @ e @ R) (int (length L)) (int (length e)) e = Some ((L @ concat (replicate k e)) @ R)"
  proof -
    have "nat (int k - 1) = k - 1" "Suc (k - 1) = k" using assms(2) by simp_all
    then show ?thesis using insert_times_spec [of L e "k - 1" R] small(2) by simp
  qed
  define delta where "delta = int (length e) * int k - int (length (show_nat k) + length e + 2)"
  have delta: "i32 (i32 (int (length e) * int k) - int (length (show_nat k) + length e + 2)) = delta"
  proof -
    have "i32 (int (length e) * int k) = int (length e) * int k" by (rule i32_id; use bound in linarith)
    moreover have "i32 delta = delta" unfolding delta_def lens by (rule i32_id; use bound in linarith)
    ultimately show ?thesis by (simp add: delta_def)
  qed
  have i': "i32 (?i + delta) = int (length (L @ concat (replicate k e))) - 1"
    unfolding delta_def lens len by (subst i32_id; use bound in linarith)
  have n': "i32 (int (length ?s) + delta) = int (length ((L @ concat (replicate k e)) @ R))"
    unfolding delta_def lens len by (subst i32_id; use bound in linarith)
  have next_i: "i32 (int (length (L @ concat (replicate k e))) - 1 + 1) = int (length (L @ concat (replicate k e)))"
    unfolding lens len by (subst i32_id; use bound in linarith)
  have br: "decode_bracket ?s ?i (int (length ?s)) (?o # ob) =
    Some ((L @ concat (replicate k e)) @ R, int (length (L @ concat (replicate k e))) - 1, int (length ((L @ concat (replicate k e)) @ R)), ob)"
    unfolding decode_bracket_def list.case cnt prod.case Let_def start elen replaced sub bind.bind_lunit repl times ins delta i' n' ..
  have "length ((L @ show_nat k @ CHR ''['' # e) @ CHR '']'' # R) < 2147483648" using small(1) by simp
  from decoding_char [OF this, of "?o # ob"] br
  have "decoding (L @ show_nat k @ CHR ''['' # e) (CHR '']'' # R) (?o # ob) =
      decode_loop ((L @ concat (replicate k e)) @ R) (i32 (int (length (L @ concat (replicate k e))) - 1 + 1)) (int (length ((L @ concat (replicate k e)) @ R))) ob"
    by (simp only: option.case prod.case) simp
  then show ?thesis unfolding next_i decoding_def .
qed

text \<open>The room a string needs while it is decoded.\<close>

definition fits :: "string \<Rightarrow> string \<Rightarrow> string \<Rightarrow> string \<Rightarrow> bool" where
  "fits L r e R \<longleftrightarrow> length L + length r + length e + length R < 2147483648"

lemma decode_pieces:
  assumes "\<And>p L R ob. p \<in> set ps \<Longrightarrow> plain p \<Longrightarrow> no_digit_end L \<Longrightarrow> fits L (render p) (expand p) R \<Longrightarrow>
     decoding L (render p @ R) ob = decoding (L @ expand p) R ob"
    and "list_all plain ps" "no_digit_end L" "fits L (concat (map render ps)) (concat (map expand ps)) R"
  shows "decoding L (concat (map render ps) @ R) ob = decoding (L @ concat (map expand ps)) R ob"
  using assms
proof (induction ps arbitrary: L)
  case (Cons p ps)
  have p: "plain p" "list_all plain ps" using Cons.prems(2) by auto
  have "no_digit_end (L @ expand p)" using Cons.prems(3) expand_not_digit [OF p(1)] by (intro no_digit_end_append) auto
  then have "decoding (L @ expand p) (concat (map render ps) @ R) ob = decoding ((L @ expand p) @ concat (map expand ps)) R ob"
    using Cons.prems(1,4) p(2) by (intro Cons.IH) (auto simp: fits_def)
  moreover have "decoding L (render p @ concat (map render ps) @ R) ob = decoding (L @ expand p) (concat (map render ps) @ R) ob"
    using Cons.prems(3,4) p(1) by (intro Cons.prems(1)) (auto simp: fits_def)
  ultimately show ?case by simp
qed simp

lemma decode_piece:
  "plain p \<Longrightarrow> no_digit_end L \<Longrightarrow> fits L (render p) (expand p) R \<Longrightarrow> decoding L (render p @ R) ob = decoding (L @ expand p) R ob"
proof (induction p arbitrary: L R ob)
  case (Letter c)
  then show ?case by (simp add: decoding_char fits_def)
next
  case (Rep k ps)
  let ?e = "concat (map expand ps)" and ?r = "concat (map render ps)"
  have k: "0 < k" "k < 10 ^ 9" "list_all plain ps" using Rep.prems(1) by auto
  have D: "\<forall>c \<in> set (show_nat k). isdigit c" using show_nat_digits by blast
  have "\<not> isdigit CHR ''[''" by (simp add: isdigit_def code_def)
  then have nd: "no_digit_end ((L @ show_nat k) @ ''['')" by (simp add: no_digit_end_def)
  have "length (concat (replicate k ?e)) = length ?e * k" by (induction k) (auto simp: algebra_simps)
  then have room: "length L + length (show_nat k) + length ?r + 2 + length ?e * k + length R < 2147483648"
    using Rep.prems(3) by (simp add: fits_def)
  have ek: "length ?e \<le> length ?e * k" using k(1) by simp
  have inner: "fits ((L @ show_nat k) @ ''['') ?r ?e (CHR '']'' # R)" unfolding fits_def using room ek by (simp only: length_append list.size)
  have close: "length L + length (show_nat k) + length ?e + length R + 2 < 2147483648" "length L + length ?e * k + length R < 2147483648"
    using room ek by linarith+
  have "decoding L (render (Rep k ps) @ R) ob = decoding (L @ show_nat k) (CHR ''['' # ?r @ CHR '']'' # R) ob"
    using decoding_digits [OF D, of L "CHR ''['' # ?r @ CHR '']'' # R" ob] room by simp
  also have "\<dots> = decoding ((L @ show_nat k) @ ''['') (?r @ CHR '']'' # R) (length (L @ show_nat k) # ob)"
    using decoding_char [of "L @ show_nat k" "CHR ''[''" "?r @ CHR '']'' # R" ob] room by simp
  also have "\<dots> = decoding (((L @ show_nat k) @ ''['') @ ?e) (CHR '']'' # R) (length (L @ show_nat k) # ob)"
    using Rep.IH k(3) nd inner by (intro decode_pieces) auto
  also have "\<dots> = decoding (L @ concat (replicate k ?e)) R ob"
    using decode_close [OF Rep.prems(2) k(1,2) close, of ob] by simp
  finally show ?case by simp
qed

text \<open>C9: \<open>decodeString\<close> of an encoded string, with groups nested to any depth, is the string with every group written out as
  often as its count says, when the encoded and the decoded string together have fewer than 2^31 characters.\<close>

theorem decodeString_expand:
  assumes "list_all plain ps" "length (concat (map render ps)) + length (concat (map expand ps)) < 2147483648"
  shows "decodeString (concat (map render ps)) = Some (concat (map expand ps))"
proof -
  have "no_digit_end []" by (simp add: no_digit_end_def)
  from decode_pieces [OF decode_piece assms(1) this, of "[]" "[]"]
  have "decoding [] (concat (map render ps)) [] = decoding (concat (map expand ps)) [] []"
    using assms(2) by (simp add: fits_def)
  moreover have "i32 (int (length (concat (map render ps)))) = int (length (concat (map render ps)))"
    using assms(2) by (intro i32_id) simp_all
  ultimately show ?thesis by (simp add: decodeString_def decoding_def decode_loop.simps [of "concat (map expand ps)"])
qed

theorem decodeString_witness:
  "decodeString (concat (map render [Rep 3 [Letter CHR ''a'', Rep 2 [Letter CHR ''c'']], Letter CHR ''e''])) =
   Some (concat (map expand [Rep 3 [Letter CHR ''a'', Rep 2 [Letter CHR ''c'']], Letter CHR ''e'']))"
  by (rule decodeString_expand) (simp_all add: isdigit_def code_def show_nat.simps numeral_3_eq_3 numeral_2_eq_2)
subsection \<open>Decoded String at Index\<close>






















end
