(* ===== verification/MathBasics.thy ===== *)
theory MathBasics
  imports HelperLib "HOL-Library.Multiset"
begin

section \<open>Arithmetic puzzles (leetcode/Math.cpp, classes Math and MathPower)\<close>

text \<open>
  The class \<open>Math\<close>: least numbers of moves, squares, sums of digit strings; and
  \<open>MathPower::reorderedPowerOf2\<close>. \<open>transform\<close> over reverse iterators with a lambda that keeps a
  carry is the fold \<open>transform1\<close> (\<open>transform2\<close> for two ranges) over the digits from the back.
\<close>

subsection \<open>The model: least numbers of moves\<close>

definition minMoves :: "int list \<Rightarrow> int option" where
  "minMoves nums =
     (case nums of
        [] \<Rightarrow> None
      | n # ns \<Rightarrow>
          (let minNum = foldl min n ns; total = accumulate_int nums
           in Some (i32 (total - int (length nums) * minNum))))"

text \<open>\<open>nth_element\<close> puts the element of rank \<open>k\<close> at position \<open>k\<close>.\<close>

definition nth_element :: "nat \<Rightarrow> int list \<Rightarrow> int" where
  "nth_element k xs = sort xs ! k"

definition minMoves2 :: "int list \<Rightarrow> int" where
  "minMoves2 nums =
     (if length nums < 2 then 0
      else let median = nth_element (length nums div 2) nums
           in foldl (\<lambda>a n. i32 (a + \<bar>n - median\<bar>)) 0 nums)"

definition escapeGhosts :: "(int \<times> int) list \<Rightarrow> int \<times> int \<Rightarrow> bool" where
  "escapeGhosts ghosts target =
     (let steps = \<bar>fst target\<bar> + \<bar>snd target\<bar>
      in list_all (\<lambda>g. \<not> \<bar>fst g - fst target\<bar> + \<bar>snd g - snd target\<bar> \<le> steps) ghosts)"

partial_function (option) bulb_loop :: "int \<Rightarrow> int \<Rightarrow> int option" where
  "bulb_loop n cnt = (if i32 (cnt * cnt) \<le> n then bulb_loop n (cnt + 1) else Some (cnt - 1))"

definition bulbSwitch :: "int \<Rightarrow> int option" where
  "bulbSwitch n = bulb_loop n 1"

definition flipLights :: "nat \<Rightarrow> nat \<Rightarrow> int" where
  "flipLights n m = (let n = min n 3 in min (2 ^ n) (i32 (1 + i32 (int m * int n))))"

subsection \<open>The model: squares\<close>

text \<open>The middle and its square are 64 bit values of ints, so they do not overflow.\<close>

function isPerfectSquare_search :: "int \<Rightarrow> int \<Rightarrow> int \<Rightarrow> bool" where
  "isPerfectSquare_search num low hi =
     (if low > hi then False
      else let mid = (low + hi) sdiv 2; sq = mid * mid
           in if sq = num then True
              else if sq > num then isPerfectSquare_search num low (mid - 1)
              else isPerfectSquare_search num (mid + 1) hi)"
  by pat_completeness auto
termination
  by (relation "measure (\<lambda>(num, low, hi). nat (hi + 1 - low))")
    (auto simp: signed_divide_int_def sgn_if zdiv_zminus1_eq_if)

definition isPerfectSquare :: "int \<Rightarrow> bool" where
  "isPerfectSquare num = isPerfectSquare_search num 1 (min (i32 (num + 1) sdiv 2) 50000)"

partial_function (option) square_sum_old_loop :: "int \<Rightarrow> int \<Rightarrow> int \<Rightarrow> bool option" where
  "square_sum_old_loop c ub i =
     (let sq = i32 (i * i)
      in if sq \<le> c \<and> sq \<ge> 0 then
           if c = sq \<or> isPerfectSquare_search (c - sq) i ub then Some True
           else square_sum_old_loop c ub (i + 1)
         else Some False)"

definition judgeSquareSum_old :: "int \<Rightarrow> bool option" where
  "judgeSquareSum_old c = square_sum_old_loop c (min (i32 (c + 1) sdiv 2) 50000) 0"

partial_function (option) square_sum_loop :: "int \<Rightarrow> int set \<Rightarrow> int \<Rightarrow> bool option" where
  "square_sum_loop c squares i =
     (let sq = i32 (i * i)
      in if sq \<le> c \<and> sq \<ge> 0 then
           let squares = insert sq squares
           in if c - sq \<in> squares then Some True else square_sum_loop c squares (i + 1)
         else Some False)"

definition judgeSquareSum :: "int \<Rightarrow> bool option" where
  "judgeSquareSum c = square_sum_loop c {} 0"

text \<open>\<open>constructRectangle\<close>: the loop runs down from the integer square root.\<close>

fun rectangle_loop :: "int \<Rightarrow> nat \<Rightarrow> int list" where
  "rectangle_loop area 0 = [area, 1]"
| "rectangle_loop area (Suc i) =
     (if i = 0 then [area, 1]
      else if area smod int (Suc i) = 0 then [area sdiv int (Suc i), int (Suc i)]
      else rectangle_loop area i)"

definition constructRectangle :: "int \<Rightarrow> int list" where
  "constructRectangle area = rectangle_loop area (int_sqrt (nat area))"

subsection \<open>The model: sums of digit strings\<close>

fun transform1 :: "('s \<Rightarrow> 'a \<Rightarrow> 'b \<times> 's) \<Rightarrow> 's \<Rightarrow> 'a list \<Rightarrow> 'b list \<times> 's" where
  "transform1 f s [] = ([], s)"
| "transform1 f s (a # as) = (let (b, s) = f s a; (bs, s) = transform1 f s as in (b # bs, s))"

fun transform2 :: "('s \<Rightarrow> 'a \<Rightarrow> 'b \<Rightarrow> 'c \<times> 's) \<Rightarrow> 's \<Rightarrow> 'a list \<Rightarrow> 'b list \<Rightarrow> 'c list \<times> 's" where
  "transform2 f s (a # as) (b # bs) = (let (c, s) = f s a b; (cs, s) = transform2 f s as bs in (c # cs, s))"
| "transform2 f s as bs = ([], s)"

definition add_bits :: "int \<Rightarrow> char \<Rightarrow> char \<Rightarrow> char \<times> int" where
  "add_bits carry a b = (let add = code a - 48 + code b - 48 + carry in (chr (add smod 2 + 48), add sdiv 2))"

definition carry_bit :: "int \<Rightarrow> char \<Rightarrow> char \<times> int" where
  "carry_bit carry a =
     (if carry = 0 then (a, carry) else let add = code a - 48 + carry in (chr (add smod 2 + 48), add sdiv 2))"

definition addBinary :: "string \<Rightarrow> string \<Rightarrow> string" where
  "addBinary a b =
     (let (A, B) = (if length a < length b then (b, a) else (a, b));
          (low, carry) = transform2 add_bits 0 (rev B) (rev A);
          high = drop (length B) (rev A)
      in if carry = 0 then rev (low @ high)
         else let (high, carry) = (if length A > length B then transform1 carry_bit carry high else (high, carry))
              in if carry \<noteq> 0 then CHR ''1'' # rev (low @ high) else rev (low @ high))"

definition carry_digit :: "int \<Rightarrow> int \<Rightarrow> int \<times> int" where
  "carry_digit carry a = (if carry = 0 then (a, carry) else let add = a + carry in (add smod 10, add sdiv 10))"

definition plusOne :: "int list \<Rightarrow> int list" where
  "plusOne digits =
     (let (ans, carry) = transform1 carry_digit 1 (rev digits)
      in if carry \<noteq> 0 then carry # rev ans else rev ans)"

subsection \<open>The model: reordered power of 2\<close>

definition pow10 :: "int list" where
  "pow10 = [1, 10, 100, 1000, 10000, 100000, 1000000, 10000000, 100000000, 1000000000]"

function digitNormalize_loop :: "int \<Rightarrow> int \<Rightarrow> int" where
  "digitNormalize_loop ret n =
     (if n > 0 then digitNormalize_loop (i64 (ret + pow10 ! nat (n smod 10))) (n sdiv 10) else ret)"
  by pat_completeness auto
termination by (relation "measure (\<lambda>(ret, n). nat n)") (auto simp: div_less_self_int)

definition digitNormalize :: "int \<Rightarrow> int" where
  "digitNormalize n = digitNormalize_loop 0 n"

text \<open>The loop ends at \<open>2 ^ 30\<close>, so the shift by 31 is never made.\<close>

function pow2_loop :: "nat \<Rightarrow> int \<Rightarrow> int list" where
  "pow2_loop i p = (if p \<le> 1000000000 \<and> i < 31 then p # pow2_loop (Suc i) (i32 (2 ^ (Suc i))) else [])"
  by pat_completeness auto
termination by (relation "measure (\<lambda>(i, p). 31 - i)") auto

definition reorderedPowerOf2 :: "int \<Rightarrow> bool" where
  "reorderedPowerOf2 N =
     (let p2 = filter (\<lambda>p. countDecDigit p = countDecDigit N) (pow2_loop 0 1); target = digitNormalize N
      in list_ex (\<lambda>n. target = digitNormalize n) p2)"

declare digitNormalize_loop.simps [simp del] isPerfectSquare_search.simps [simp del] pow2_loop.simps [simp del]

subsection \<open>Least numbers of moves\<close>

text \<open>A move increments every element but one; \<open>reach k xs ys\<close>: \<open>k\<close> moves lead from \<open>xs\<close> to \<open>ys\<close>.\<close>

definition move_all_but :: "nat \<Rightarrow> int list \<Rightarrow> int list" where
  "move_all_but i xs = map (\<lambda>j. if j = i then xs ! j else xs ! j + 1) [0..<length xs]"

inductive reach :: "nat \<Rightarrow> int list \<Rightarrow> int list \<Rightarrow> bool" where
  reach_0: "reach 0 xs xs"
| reach_Suc: "reach k xs ys \<Longrightarrow> i < length ys \<Longrightarrow> reach (Suc k) xs (move_all_but i ys)"

lemma reach_counts:
  "reach k xs ys \<Longrightarrow> length ys = length xs \<and>
    (\<exists>c. (\<forall>j < length xs. ys ! j = xs ! j + int k - int (c j)) \<and> (\<Sum>j < length xs. c j) = k)"
proof (induction rule: reach.induct)
  case (reach_0 xs)
  then show ?case by (auto intro!: exI [of _ "\<lambda>_. 0"])
next
  case (reach_Suc k xs ys i)
  then obtain c where c: "\<forall>j < length xs. ys ! j = xs ! j + int k - int (c j)" "(\<Sum>j < length xs. c j) = k" "length ys = length xs"
    by auto
  have "(\<Sum>j < length xs. (c(i := Suc (c i))) j) = (\<Sum>j \<in> {..<length xs} - {i}. c j) + Suc (c i)"
    using reach_Suc.hyps c(3) by (subst sum.remove [of _ i]) (auto intro: sum.cong)
  also have "\<dots> = Suc k" using reach_Suc.hyps c(2,3) sum.remove [of "{..<length xs}" i c] by simp
  finally show ?case
    using c by (intro conjI exI [of _ "c(i := Suc (c i))"]) (auto simp: move_all_but_def)
qed

text \<open>Any choice of the elements that are left out is a sequence of moves.\<close>

lemma reach_any:
  "(\<Sum>j < length xs. c j) = k \<Longrightarrow>
    reach k xs (map (\<lambda>j. xs ! j + int k - int (c j)) [0..<length xs])"
proof (induction k arbitrary: c)
  case 0
  then have "map (\<lambda>j. xs ! j + int 0 - int (c j)) [0..<length xs] = xs" by (auto intro: nth_equalityI)
  then show ?case using reach_0 by metis
next
  case (Suc k)
  then obtain i where i: "i < length xs" "0 < c i"
    by (metis lessThan_iff not_gr_zero nat.distinct(1) sum.neutral)
  let ?c = "c(i := c i - 1)"
  have "(\<Sum>j < length xs. ?c j) = k"
  proof -
    have "(\<Sum>j < length xs. ?c j) = (\<Sum>j \<in> {..<length xs} - {i}. c j) + (c i - 1)"
      using i(1) by (subst sum.remove [of _ i]) (auto intro: sum.cong)
    then show ?thesis using Suc.prems i sum.remove [of "{..<length xs}" i c] by simp
  qed
  from reach_Suc [OF Suc.IH [OF this], of i] i(1)
  have "reach (Suc k) xs (move_all_but i (map (\<lambda>j. xs ! j + int k - int (?c j)) [0..<length xs]))" by simp
  also have "move_all_but i (map (\<lambda>j. xs ! j + int k - int (?c j)) [0..<length xs]) =
      map (\<lambda>j. xs ! j + int (Suc k) - int (c j)) [0..<length xs]"
    using i by (intro nth_equalityI) (auto simp: move_all_but_def)
  finally show ?case .
qed

lemma foldl_min: "foldl min x xs = Min (insert x (set xs))"
proof (induction xs arbitrary: x)
  case (Cons y xs)
  then show ?case by (cases "xs = []") (auto simp: min.assoc)
qed simp

lemma sum_nth: "(\<Sum>j < length xs. f (xs ! j)) = (\<Sum>x \<leftarrow> xs. f x)" for f :: "_ \<Rightarrow> int"
  by (simp add: sum_list_sum_nth atLeast0LessThan)

theorem minMoves_least:
  assumes "nums \<noteq> []" "sum_list nums - int (length nums) * Min (set nums) < 2147483648"
  shows "\<exists>k. minMoves nums = Some (int k) \<and> (\<exists>v. reach k nums (replicate (length nums) v)) \<and>
    (\<forall>k' v. reach k' nums (replicate (length nums) v) \<longrightarrow> k \<le> k')"
proof -
  let ?n = "length nums" and ?m = "Min (set nums)"
  define c where "c j = nat (nums ! j - ?m)" for j
  define k where "k = (\<Sum>j < ?n. c j)"
  have c: "int (c j) = nums ! j - ?m" if "j < ?n" for j using that by (simp add: c_def)
  have "int k = (\<Sum>j < ?n. nums ! j - ?m)" unfolding k_def using c by simp
  also have "\<dots> = sum_list nums - int ?n * ?m" using sum_nth [of "\<lambda>x. x" nums] by (simp add: sum_subtractf)
  finally have k: "int k = sum_list nums - int ?n * ?m" .
  obtain x xs where nums: "nums = x # xs" using assms(1) by (cases nums) auto
  have "minMoves nums = Some (i32 (i32 (sum_list nums) - int ?n * ?m))"
    unfolding nums by (simp add: minMoves_def accumulate_int_eq foldl_min)
  also have "i32 (i32 (sum_list nums) - int ?n * ?m) = i32 (int k)"
    unfolding k using swrap_add [of 32 "sum_list nums" "- (int ?n * ?m)"] by simp
  also have "\<dots> = int k" using assms(2) k by (intro i32_id) auto
  finally have "minMoves nums = Some (int k)" .
  moreover have "reach k nums (map (\<lambda>j. nums ! j + int k - int (c j)) [0..<?n])"
    using reach_any [of c nums k] by (simp add: k_def)
  moreover have "map (\<lambda>j. nums ! j + int k - int (c j)) [0..<?n] = replicate ?n (?m + int k)"
    using c by (intro nth_equalityI) auto
  moreover have "k \<le> k'" if r: "reach k' nums (replicate ?n v)" for k' v
  proof -
    obtain d where d: "\<forall>j < ?n. v = nums ! j + int k' - int (d j)" "(\<Sum>j < ?n. d j) = k'"
      using reach_counts [OF r] by auto
    have "?m \<in> set nums" using assms(1) by simp
    then obtain j where "j < ?n" "nums ! j = ?m" by (auto simp: in_set_conv_nth)
    then have "v \<le> ?m + int k'" using d(1) by fastforce
    then have "nums ! j - ?m \<le> int (d j)" if "j < ?n" for j using d(1) that by fastforce
    then have "c j \<le> d j" if "j < ?n" for j using c [OF that] that by fastforce
    then show ?thesis unfolding k_def d(2) [symmetric] by (intro sum_mono) auto
  qed
  ultimately show ?thesis by metis
qed

theorem minMoves_least_witness:
  "\<exists>k. minMoves [1, 2, 3] = Some (int k) \<and> (\<exists>v. reach k [1, 2, 3] (replicate (length [1, 2, 3 :: int]) v)) \<and>
    (\<forall>k' v. reach k' [1, 2, 3] (replicate (length [1, 2, 3 :: int]) v) \<longrightarrow> k \<le> k')"
  by (rule minMoves_least) simp_all


text \<open>The median minimises the sum of the distances.\<close>

lemma sorted_half:
  fixes xs :: "int list"
  assumes "sorted xs" "k < length xs"
  shows "Suc k \<le> length (filter (\<lambda>x. x \<le> xs ! k) xs)" "length xs - k \<le> length (filter (\<lambda>x. xs ! k \<le> x) xs)"
proof -
  have "filter (\<lambda>x. x \<le> xs ! k) (take (Suc k) xs) = take (Suc k) xs"
    using assms by (intro filter_True) (auto simp: in_set_conv_nth sorted_nth_mono)
  then have "length (filter (\<lambda>x. x \<le> xs ! k) (take (Suc k) xs @ drop (Suc k) xs)) \<ge> Suc k"
    using assms(2) unfolding filter_append by simp
  then show "Suc k \<le> length (filter (\<lambda>x. x \<le> xs ! k) xs)" by (metis append_take_drop_id)
  have "filter (\<lambda>x. xs ! k \<le> x) (drop k xs) = drop k xs"
    using assms by (intro filter_True) (auto simp: in_set_conv_nth sorted_nth_mono)
  then have "length (filter (\<lambda>x. xs ! k \<le> x) (take k xs @ drop k xs)) \<ge> length xs - k"
    unfolding filter_append by simp
  then show "length xs - k \<le> length (filter (\<lambda>x. xs ! k \<le> x) xs)" by (metis append_take_drop_id)
qed

lemma distance_shift:
  fixes m t :: int and xs :: "int list"
  assumes "m \<le> t"
  shows "(\<Sum>x \<leftarrow> xs. \<bar>x - m\<bar>) + (t - m) * (2 * int (length (filter (\<lambda>x. x \<le> m) xs)) - int (length xs)) \<le> (\<Sum>x \<leftarrow> xs. \<bar>x - t\<bar>)"
    "(\<Sum>x \<leftarrow> xs. \<bar>x - t\<bar>) + (t - m) * (2 * int (length (filter (\<lambda>x. t \<le> x) xs)) - int (length xs)) \<le> (\<Sum>x \<leftarrow> xs. \<bar>x - m\<bar>)"
  using assms by (induction xs) (auto simp: algebra_simps)

lemma median_least:
  fixes xs :: "int list"
  assumes "sorted xs" "xs \<noteq> []"
  shows "(\<Sum>x \<leftarrow> xs. \<bar>x - xs ! (length xs div 2)\<bar>) \<le> (\<Sum>x \<leftarrow> xs. \<bar>x - t\<bar>)"
proof -
  let ?k = "length xs div 2"
  have k: "?k < length xs" using assms(2) by simp
  note half = sorted_half [OF assms(1) k]
  show ?thesis
  proof (cases "xs ! ?k \<le> t")
    case True
    have "0 \<le> 2 * int (length (filter (\<lambda>x. x \<le> xs ! ?k) xs)) - int (length xs)" using half(1) by linarith
    then have "0 \<le> (t - xs ! ?k) * (2 * int (length (filter (\<lambda>x. x \<le> xs ! ?k) xs)) - int (length xs))"
      using True by simp
    then show ?thesis using distance_shift(1) [OF True, of xs] by linarith
  next
    case False
    then have le: "t \<le> xs ! ?k" by simp
    have "0 \<le> 2 * int (length (filter (\<lambda>x. xs ! ?k \<le> x) xs)) - int (length xs)" using half(2) by linarith
    then have "0 \<le> (xs ! ?k - t) * (2 * int (length (filter (\<lambda>x. xs ! ?k \<le> x) xs)) - int (length xs))"
      using le by simp
    then show ?thesis using distance_shift(2) [OF le, of xs] by linarith
  qed
qed

lemma sum_list_mset: "mset xs = mset ys \<Longrightarrow> (\<Sum>x \<leftarrow> xs. f x) = (\<Sum>x \<leftarrow> ys. f x)" for f :: "_ \<Rightarrow> int"
  by (metis mset_map sum_mset_sum_list)

theorem minMoves2_least:
  assumes "(\<Sum>x \<leftarrow> nums. \<bar>x - sort nums ! (length nums div 2)\<bar>) < 2147483648"
  shows "minMoves2 nums = (\<Sum>x \<leftarrow> nums. \<bar>x - sort nums ! (length nums div 2)\<bar>)"
    and "(\<Sum>x \<leftarrow> nums. \<bar>x - sort nums ! (length nums div 2)\<bar>) \<le> (\<Sum>x \<leftarrow> nums. \<bar>x - t\<bar>)"
proof -
  let ?m = "sort nums ! (length nums div 2)"
  have sum: "(\<Sum>x \<leftarrow> nums. \<bar>x - a\<bar>) = (\<Sum>x \<leftarrow> sort nums. \<bar>x - a\<bar>)" for a
    by (rule sum_list_mset) simp
  show "(\<Sum>x \<leftarrow> nums. \<bar>x - ?m\<bar>) \<le> (\<Sum>x \<leftarrow> nums. \<bar>x - t\<bar>)"
  proof (cases "nums = []")
    case False
    then have "sort nums \<noteq> []" by (metis length_0_conv length_sort)
    from median_least [OF sorted_sort this, of t] show ?thesis unfolding sum by simp
  qed simp
  show "minMoves2 nums = (\<Sum>x \<leftarrow> nums. \<bar>x - ?m\<bar>)"
  proof (cases "length nums < 2")
    case True
    then show ?thesis by (cases nums; cases "tl nums") (auto simp: minMoves2_def)
  next
    case False
    have "0 \<le> (\<Sum>x \<leftarrow> nums. \<bar>x - ?m\<bar>)" by (intro sum_list_nonneg) auto
    then show ?thesis
      using False assms foldl_i32_add [of 0 "\<lambda>x. \<bar>x - ?m\<bar>" nums] by (simp add: minMoves2_def nth_element_def)
  qed
qed


text \<open>
  The ghosts: a way to the target on which no ghost can be at the place of the player at any time.
  A step moves by one field; a ghost may wait, so it can be anywhere within its distance.
\<close>

definition dist1 :: "int \<times> int \<Rightarrow> int \<times> int \<Rightarrow> int" where
  "dist1 p q = \<bar>fst p - fst q\<bar> + \<bar>snd p - snd q\<bar>"

definition safe_way :: "(int \<times> int) list \<Rightarrow> (nat \<Rightarrow> int \<times> int) \<Rightarrow> nat \<Rightarrow> bool" where
  "safe_way ghosts way n \<longleftrightarrow> way 0 = (0, 0) \<and> (\<forall>t < n. dist1 (way t) (way (Suc t)) = 1) \<and>
     (\<forall>t \<le> n. \<forall>g \<in> set ghosts. dist1 g (way t) > int t)"

lemma dist1_triangle: "dist1 p r \<le> dist1 p q + dist1 q r"
  by (simp add: dist1_def)

lemma way_dist: "(\<forall>t < n. dist1 (way t) (way (Suc t)) = 1) \<Longrightarrow> dist1 (way 0) (way n) \<le> int n"
proof (induction n)
  case (Suc n)
  have "dist1 (way 0) (way (Suc n)) \<le> dist1 (way 0) (way n) + dist1 (way n) (way (Suc n))" by (rule dist1_triangle)
  then show ?case using Suc by fastforce
qed (simp add: dist1_def)

text \<open>A shortest way: first along one axis, then along the other.\<close>

definition straight :: "int \<times> int \<Rightarrow> nat \<Rightarrow> int \<times> int" where
  "straight target t = (sgn (fst target) * min (int t) \<bar>fst target\<bar>, sgn (snd target) * max 0 (int t - \<bar>fst target\<bar>))"

lemma straight_way:
  assumes "target = (x, y)"
  shows "straight target 0 = (0, 0)" "straight target (nat (\<bar>x\<bar> + \<bar>y\<bar>)) = target"
    "int t < \<bar>x\<bar> + \<bar>y\<bar> \<Longrightarrow> dist1 (straight target t) (straight target (Suc t)) = 1"
    "int t \<le> \<bar>x\<bar> + \<bar>y\<bar> \<Longrightarrow> dist1 (straight target t) target = \<bar>x\<bar> + \<bar>y\<bar> - int t"
  using assms by (auto simp: straight_def dist1_def sgn_if min_def max_def)

theorem escapeGhosts_iff:
  "escapeGhosts ghosts target \<longleftrightarrow> (\<exists>way n. safe_way ghosts way n \<and> way n = target)"
proof
  obtain x y where t: "target = (x, y)" by force
  assume esc: "escapeGhosts ghosts target"
  let ?n = "nat (\<bar>x\<bar> + \<bar>y\<bar>)"
  have "dist1 g (straight target t) > int t" if "t \<le> ?n" "g \<in> set ghosts" for t g
  proof -
    have "dist1 g target > \<bar>x\<bar> + \<bar>y\<bar>" using esc that(2) by (auto simp: escapeGhosts_def t dist1_def list_all_iff)
    moreover have "dist1 g target \<le> dist1 g (straight target t) + dist1 (straight target t) target" by (rule dist1_triangle)
    moreover have "dist1 (straight target t) target = \<bar>x\<bar> + \<bar>y\<bar> - int t" using straight_way(4) [OF t] that(1) by simp
    ultimately show ?thesis by simp
  qed
  then have "safe_way ghosts (straight target) ?n \<and> straight target ?n = target"
    unfolding safe_way_def using straight_way [OF t] by (auto simp: zless_nat_eq_int_zless)
  then show "\<exists>way n. safe_way ghosts way n \<and> way n = target" by blast
next
  assume "\<exists>way n. safe_way ghosts way n \<and> way n = target"
  then obtain way n where way: "safe_way ghosts way n" "way n = target" by blast
  have "\<bar>fst target\<bar> + \<bar>snd target\<bar> \<le> int n"
    using way_dist [of n way] way unfolding safe_way_def by (simp add: dist1_def)
  moreover have "dist1 g target > int n" if "g \<in> set ghosts" for g using way that unfolding safe_way_def by auto
  ultimately show "escapeGhosts ghosts target" by (fastforce simp: escapeGhosts_def list_all_iff dist1_def)
qed

text \<open>The bulbs: bulb \<open>i\<close> is switched in round \<open>d\<close> when \<open>d\<close> divides \<open>i\<close>, so it ends on when the number of its divisors is odd.\<close>

fun bulb_rounds :: "nat \<Rightarrow> nat \<Rightarrow> bool" where
  "bulb_rounds 0 i = False"
| "bulb_rounds (Suc d) i = (if Suc d dvd i then \<not> bulb_rounds d i else bulb_rounds d i)"

lemma bulb_rounds_divisors: "bulb_rounds n i \<longleftrightarrow> odd (card {d. 1 \<le> d \<and> d \<le> n \<and> d dvd i})"
proof (induction n)
  case (Suc n)
  have fin: "finite {d. 1 \<le> d \<and> d \<le> n \<and> d dvd i}" by (rule finite_subset [of _ "{..n}"]) auto
  have "{d. 1 \<le> d \<and> d \<le> Suc n \<and> d dvd i} =
      (if Suc n dvd i then insert (Suc n) {d. 1 \<le> d \<and> d \<le> n \<and> d dvd i} else {d. 1 \<le> d \<and> d \<le> n \<and> d dvd i})"
    by (auto simp: le_Suc_eq)
  then show ?case using Suc fin by simp
next
  case 0
  have "{d. 1 \<le> d \<and> d \<le> 0 \<and> d dvd i} = {}" by auto
  then show ?case by (simp only: bulb_rounds.simps card.empty) simp
qed

text \<open>The divisors pair up, \<open>d\<close> with \<open>i / d\<close>; only a square root is its own partner.\<close>

lemma odd_divisors_iff:
  assumes "0 < (i :: nat)"
  shows "odd (card {d. 1 \<le> d \<and> d \<le> i \<and> d dvd i}) \<longleftrightarrow> (\<exists>r. i = r * r)"
proof -
  let ?D = "{d. 1 \<le> d \<and> d \<le> i \<and> d dvd i}"
  let ?L = "{d \<in> ?D. d * d < i}" and ?S = "{d \<in> ?D. d * d = i}" and ?G = "{d \<in> ?D. i < d * d}"
  have fin: "finite ?D" by (rule finite_subset [of _ "{..i}"]) auto
  have D: "?D = ?L \<union> ?G \<union> ?S" by (auto simp: not_less)
  have img: "(\<lambda>d. i div d) ` ?L = ?G"
  proof (intro equalityI subsetI)
    fix e assume "e \<in> (\<lambda>d. i div d) ` ?L"
    then obtain d where d: "d dvd i" "d * d < i" "0 < d" "e = i div d" by auto
    then have de: "i = d * e" by simp
    then have "d < e" using d(2) by simp
    then have "i < e * e" using d(3) by (simp add: de)
    moreover have "e dvd i" "1 \<le> e" using de \<open>d < e\<close> by auto
    ultimately show "e \<in> ?G" using assms by (auto intro: dvd_imp_le)
  next
    fix e assume "e \<in> ?G"
    then have e: "e dvd i" "i < e * e" "0 < e" by auto
    then obtain d where d: "i = e * d" by (auto elim: dvdE)
    then have "d < e" "0 < d" using e assms by auto
    then have "d \<in> ?L" using d assms by (auto intro: dvd_imp_le simp: mult.commute)
    moreover have "e = i div d" using d \<open>0 < d\<close> by simp
    ultimately show "e \<in> (\<lambda>d. i div d) ` ?L" by blast
  qed
  have inj: "inj_on (\<lambda>d. i div d) ?L"
  proof (rule inj_onI)
    fix a b assume ab: "a \<in> ?L" "b \<in> ?L" and eq: "i div a = i div b"
    have "a * (i div a) = i" "b * (i div b) = i" using ab by auto
    then have "a * (i div a) = b * (i div a)" using eq by simp
    moreover have "i div a \<noteq> 0" using ab assms by (auto simp: div_eq_0_iff)
    ultimately show "a = b" by simp
  qed
  have "card ?G = card ?L" using card_image [OF inj] unfolding img by simp
  moreover have "card ?D = card ?L + card ?G + card ?S"
    using fin by (subst D, subst card_Un_disjoint, simp, simp, force, subst card_Un_disjoint) auto
  moreover have "card ?S = (if \<exists>r. i = r * r then 1 else 0)"
  proof (cases "\<exists>r. i = r * r")
    case True
    then obtain r where r: "i = r * r" by blast
    have "?S = {r}"
    proof
      show "?S \<subseteq> {r}" using r by (auto simp: power2_eq_square [symmetric])
      show "{r} \<subseteq> ?S" using r assms by (auto intro: dvd_imp_le)
    qed
    then show ?thesis using True by simp
  next
    case False
    then have "?S = {}" by auto
    then show ?thesis using False by simp
  qed
  ultimately show ?thesis by simp
qed


lemma i32_nat_square: "c * c < 2147483648 \<Longrightarrow> i32 (int c * int c) = int (c * c)"
proof -
  assume "c * c < 2147483648"
  then have "int c * int c < 2147483648" by (metis of_nat_less_iff of_nat_mult of_nat_numeral)
  moreover have "0 \<le> int c * int c" by simp
  ultimately show ?thesis unfolding of_nat_mult by (intro i32_id) linarith+
qed

lemma bulb_loop_sqrt:
  assumes "n < 2147395600" "1 \<le> cnt" "cnt \<le> Suc (int_sqrt n)"
  shows "bulb_loop (int n) (int cnt) = Some (int (int_sqrt n))"
  using assms(2,3)
proof (induction "Suc (int_sqrt n) - cnt" arbitrary: cnt)
  case 0
  have "int_sqrt n < 46340" using int_sqrt_ge_iff [of 46340 n] assms(1) by (simp add: not_le [symmetric])
  then have small: "cnt \<le> 46340" using 0 by simp
  have "cnt * cnt \<le> 2147395600" using mult_le_mono [OF small small] by simp
  then have "i32 (int cnt * int cnt) = int (cnt * cnt)" by (intro i32_nat_square) simp
  moreover have "\<not> cnt * cnt \<le> n" using 0 int_sqrt_ge_iff [of cnt n] by simp
  ultimately show ?case using 0 by (subst bulb_loop.simps) (simp del: of_nat_mult)
next
  case (Suc k)
  have "cnt \<le> int_sqrt n" using Suc.hyps(2) by linarith
  then have le: "cnt * cnt \<le> n" by (simp add: int_sqrt_ge_iff)
  then have "i32 (int cnt * int cnt) = int (cnt * cnt)" using assms(1) by (intro i32_nat_square) simp
  then have "bulb_loop (int n) (int cnt) = bulb_loop (int n) (int (Suc cnt))"
    using le by (subst bulb_loop.simps) (simp del: of_nat_mult add: ac_simps)
  also have "\<dots> = Some (int (int_sqrt n))" using Suc by (intro Suc.hyps) auto
  finally show ?case .
qed

theorem bulbSwitch_correct:
  assumes "n < 2147395600"
  shows "bulbSwitch (int n) = Some (int (card {i. 1 \<le> i \<and> i \<le> n \<and> bulb_rounds n i}))"
proof -
  have "bulb_rounds n i \<longleftrightarrow> (\<exists>r. i = r * r)" if i: "1 \<le> i" "i \<le> n" for i
  proof -
    have "{d. 1 \<le> d \<and> d \<le> n \<and> d dvd i} = {d. 1 \<le> d \<and> d \<le> i \<and> d dvd i}"
      using i by (auto dest: dvd_imp_le intro: order_trans)
    then show ?thesis using i bulb_rounds_divisors odd_divisors_iff [of i] by simp
  qed
  then have "{i. 1 \<le> i \<and> i \<le> n \<and> bulb_rounds n i} = (\<lambda>r. r * r) ` {1..int_sqrt n}"
    by (force simp: int_sqrt_ge_iff Suc_le_eq)
  moreover have "card ((\<lambda>r. r * r) ` {1..int_sqrt n}) = card {1..int_sqrt n}"
    by (rule card_image) (auto intro!: inj_onI simp: power2_eq_square [symmetric])
  ultimately show ?thesis
    using bulb_loop_sqrt [OF assms, of 1] by (simp add: bulbSwitch_def)
qed

text \<open>The four buttons on \<open>n\<close> lights; \<open>status n m\<close> is what \<open>m\<close> presses can lead to.\<close>

definition press :: "nat \<Rightarrow> bool list \<Rightarrow> bool list" where
  "press b ls = map (\<lambda>j. if b = 0 \<or> b = 1 \<and> even j \<or> b = 2 \<and> odd j \<or> b = 3 \<and> j mod 3 = 1
     then \<not> ls ! (j - 1) else ls ! (j - 1)) [1..<Suc (length ls)]"

fun status :: "nat \<Rightarrow> nat \<Rightarrow> bool list set" where
  "status n 0 = {replicate n True}"
| "status n (Suc m) = (\<Union>b \<in> {0, 1, 2, 3}. press b ` status n m)"

lemma length_press [simp]: "length (press b ls) = length ls"
  by (simp add: press_def del: upt_Suc)

lemma length_status: "ls \<in> status n m \<Longrightarrow> length ls = n"
  by (induction m arbitrary: ls) auto

lemma press_take: "press b (take k ls) = take k (press b ls)"
  by (rule nth_equalityI) (auto simp: press_def simp del: upt_Suc)

lemma status_take: "status (min n k) m = take k ` status n m"
  by (induction m) (auto simp: press_take image_iff)

text \<open>A reachable status is given by four parities, and those by the first three lights.\<close>

definition light :: "bool \<times> bool \<times> bool \<times> bool \<Rightarrow> nat \<Rightarrow> bool" where
  "light b j = (case b of (b0, b1, b2, b3) \<Rightarrow>
     \<not> (b0 \<noteq> ((b1 \<and> even j) \<noteq> ((b2 \<and> odd j) \<noteq> (b3 \<and> j mod 3 = 1)))))"

definition lights :: "nat \<Rightarrow> bool \<times> bool \<times> bool \<times> bool \<Rightarrow> bool list" where
  "lights n b = map (light b) [1..<Suc n]"

lemma press_lights:
  "press 0 (lights n (b0, b1, b2, b3)) = lights n (\<not> b0, b1, b2, b3)"
  "press 1 (lights n (b0, b1, b2, b3)) = lights n (b0, \<not> b1, b2, b3)"
  "press 2 (lights n (b0, b1, b2, b3)) = lights n (b0, b1, \<not> b2, b3)"
  "press 3 (lights n (b0, b1, b2, b3)) = lights n (b0, b1, b2, \<not> b3)"
  unfolding press_def lights_def by (intro nth_equalityI; auto simp: light_def simp del: upt_Suc)+

lemma status_lights: "ls \<in> status n m \<Longrightarrow> \<exists>b. ls = lights n b"
proof (induction m arbitrary: ls)
  case 0
  have "lights n (False, False, False, False) = replicate n True"
    by (intro nth_equalityI) (auto simp: lights_def light_def simp del: upt_Suc)
  then show ?case using 0 by (intro exI [of _ "(False, False, False, False)"]) simp
next
  case (Suc m)
  then obtain ls' k where ls: "ls' \<in> status n m" "ls = press k ls'" "k \<in> {0, 1, 2, 3}" by auto
  then obtain b0 b1 b2 b3 where "ls' = lights n (b0, b1, b2, b3)" using Suc.IH by (metis prod_cases4)
  then show ?case using ls(2,3) by (auto simp: press_lights simp del: One_nat_def split_paired_Ex)
qed

lemma light_determined:
  "light b 1 = light c 1 \<Longrightarrow> light b 2 = light c 2 \<Longrightarrow> light b 3 = light c 3 \<Longrightarrow> light b j = light c j"
  by (cases b; cases c) (auto simp: light_def)

lemma take_lights: "take 3 (lights n b) = take 3 (lights n c) \<Longrightarrow> lights n b = lights n c"
proof -
  assume eq: "take 3 (lights n b) = take 3 (lights n c)"
  have at: "light b (Suc i) = light c (Suc i)" if "i < 3" "i < n" for i
    using arg_cong [OF eq, of "\<lambda>ls. ls ! i"] that by (simp add: lights_def del: upt_Suc)
  show ?thesis
  proof (cases "n < 3")
    case True
    then show ?thesis using eq by (simp add: lights_def del: upt_Suc)
  next
    case False
    then have "light b 1 = light c 1" "light b 2 = light c 2" "light b 3 = light c 3"
      using at [of 0] at [of 1] at [of 2] by (simp_all add: numeral_2_eq_2 numeral_3_eq_3)
    then have "light b j = light c j" for j by (rule light_determined)
    then show ?thesis by (simp add: lights_def)
  qed
qed

lemma status_rest:
  assumes "status k a = S" "(\<Union>b \<in> {0, 1, 2, 3}. press b ` S) = S" "a \<le> m"
  shows "status k m = S"
  using assms(3) by (induction rule: dec_induct) (use assms in auto)

definition all_status :: "nat \<Rightarrow> bool list set" where
  "all_status k = set (List.n_lists k [False, True])"

lemma status_small:
  "status 1 1 = all_status 1" "status 2 2 = all_status 2" "status 3 3 = all_status 3"
  "card (status 2 1) = 3" "card (status 3 1) = 4" "card (status 3 2) = 7"
  "(\<Union>b \<in> {0, 1, 2, 3}. press b ` all_status 1) = all_status 1"
  "(\<Union>b \<in> {0, 1, 2, 3}. press b ` all_status 2) = all_status 2"
  "(\<Union>b \<in> {0, 1, 2, 3}. press b ` all_status 3) = all_status 3"
  "card (all_status 1) = 2" "card (all_status 2) = 4" "card (all_status 3) = 8"
  by code_simp+

theorem flipLights_counts:
  assumes "m \<le> 700000000"
  shows "flipLights n m = int (card (status n m))"
proof -
  let ?k = "min n 3"
  have "inj_on (take 3) (status n m)"
    by (rule inj_onI) (metis status_lights take_lights)
  then have card: "card (status n m) = card (status ?k m)"
    unfolding status_take by (simp add: card_image)
  have wrap: "i32 (1 + i32 (int m * int ?k)) = 1 + int m * int ?k"
    using assms by (cases "n < 3") (auto simp: less_Suc_eq numeral_3_eq_3)
  note rest = status_rest [OF status_small(1,7)] status_rest [OF status_small(2,8)] status_rest [OF status_small(3,9)]
  consider "?k = 0" | "m = 0" | "?k = 1" "1 \<le> m" | "?k = 2" "m = 1" | "?k = 2" "2 \<le> m"
    | "?k = 3" "m = 1" | "?k = 3" "m = 2" | "?k = 3" "3 \<le> m"
    by linarith
  then have "int (card (status ?k m)) = min (2 ^ ?k) (1 + int m * int ?k)"
  proof cases
    case 1
    have "status 0 m = {[]}" by (induction m) (auto simp: press_def)
    then show ?thesis using 1 by simp
  next
    case 2
    then show ?thesis by simp
  next
    case 3
    show ?thesis unfolding 3(1) rest(1) [OF 3(2)] status_small using 3(2) by simp
  next
    case 5
    show ?thesis unfolding 5(1) rest(2) [OF 5(2)] status_small using 5(2) by simp
  next
    case 8
    show ?thesis unfolding 8(1) rest(3) [OF 8(2)] status_small using 8(2) by simp
  qed (simp_all add: status_small del: status.simps One_nat_def)
  then show ?thesis unfolding flipLights_def Let_def card wrap by simp
qed

theorem flipLights_counts_witness: "flipLights 3 2 = int (card (status 3 2)) \<and> flipLights 3 2 = 7"
  using flipLights_counts [of 2 3] status_small(6) by simp

subsection \<open>Squares\<close>

lemma square_le_iff: "0 \<le> a \<Longrightarrow> 0 \<le> b \<Longrightarrow> a * a \<le> b * b \<longleftrightarrow> a \<le> b" for a b :: int
  using power2_le_iff_abs_le [of b a] by (simp add: power2_eq_square)

lemma perfect_search_iff:
  "0 \<le> low \<Longrightarrow> isPerfectSquare_search num low hi \<longleftrightarrow> (\<exists>k. low \<le> k \<and> k \<le> hi \<and> k * k = num)"
proof (induction num low hi rule: isPerfectSquare_search.induct)
  case (1 num low hi)
  show ?case
  proof (cases "low > hi")
    case False
    let ?mid = "(low + hi) sdiv 2"
    have mid: "low \<le> ?mid" "?mid \<le> hi" using False "1.prems" by simp_all
    consider (eq) "?mid * ?mid = num" | (above) "num < ?mid * ?mid" | (below) "?mid * ?mid < num" by linarith
    then show ?thesis
    proof cases
      case eq
      then have "isPerfectSquare_search num low hi" using False by (subst isPerfectSquare_search.simps) simp
      then show ?thesis using eq mid by blast
    next
      case above
      then have "isPerfectSquare_search num low hi = isPerfectSquare_search num low (?mid - 1)"
        using False by (subst isPerfectSquare_search.simps) simp
      also have "\<dots> \<longleftrightarrow> (\<exists>k. low \<le> k \<and> k \<le> ?mid - 1 \<and> k * k = num)"
        using above False 1 by (intro "1.IH"(1)) auto
      also have "\<dots> \<longleftrightarrow> (\<exists>k. low \<le> k \<and> k \<le> hi \<and> k * k = num)"
      proof -
        have "k \<le> ?mid - 1" if "low \<le> k" "k * k = num" for k
          using square_le_iff [of ?mid k] above that "1.prems" mid by auto
        moreover have "k \<le> hi" if "k \<le> ?mid - 1" for k using that mid by simp
        ultimately show ?thesis by blast
      qed
      finally show ?thesis .
    next
      case below
      then have "isPerfectSquare_search num low hi = isPerfectSquare_search num (?mid + 1) hi"
        using False by (subst isPerfectSquare_search.simps) simp
      also have "\<dots> \<longleftrightarrow> (\<exists>k. ?mid + 1 \<le> k \<and> k \<le> hi \<and> k * k = num)"
        using below False 1 mid by (intro "1.IH"(2)) auto
      also have "\<dots> \<longleftrightarrow> (\<exists>k. low \<le> k \<and> k \<le> hi \<and> k * k = num)"
      proof -
        have "?mid + 1 \<le> k" if "low \<le> k" "k * k = num" for k
          using square_le_iff [of k ?mid] below that "1.prems" mid by auto
        moreover have "low \<le> k" if "?mid + 1 \<le> k" for k using that mid by simp
        ultimately show ?thesis by blast
      qed
      finally show ?thesis .
    qed
  qed (simp add: isPerfectSquare_search.simps)
qed

lemma square_root_le_half: "0 \<le> k \<Longrightarrow> k * k \<le> c \<Longrightarrow> k \<le> (c + 1) div 2" for k :: int
proof -
  assume k: "0 \<le> k" "k * k \<le> c"
  have "0 \<le> (k - 1) * (k - 1)" by simp
  then have "2 * k \<le> k * k + 1" by (simp add: algebra_simps)
  then show ?thesis using k by simp
qed

lemma int_root_bound: "0 \<le> k \<Longrightarrow> k * k < 2147483648 \<Longrightarrow> k \<le> 46340" for k :: int
proof (rule ccontr)
  assume "0 \<le> k" "k * k < 2147483648" "\<not> k \<le> 46340"
  then show False using mult_mono [of 46341 k 46341 k] by simp
qed

theorem isPerfectSquare_correct:
  assumes "1 \<le> num" "num < 2147483648"
  shows "isPerfectSquare num \<longleftrightarrow> (\<exists>k. k * k = num)"
proof -
  define hi where "hi = min (i32 (num + 1) sdiv 2) 50000"
  have "isPerfectSquare num \<longleftrightarrow> (\<exists>k. 1 \<le> k \<and> k \<le> hi \<and> k * k = num)"
    unfolding isPerfectSquare_def hi_def by (rule perfect_search_iff) simp
  moreover have "\<exists>k. 1 \<le> k \<and> k \<le> hi \<and> k * k = num" if k: "k * k = num" for k
  proof (intro exI conjI)
    have sq: "\<bar>k\<bar> * \<bar>k\<bar> = num" using k by simp
    then show "\<bar>k\<bar> * \<bar>k\<bar> = num" .
    show "1 \<le> \<bar>k\<bar>" using k assms by (cases "k = 0") auto
    have b: "\<bar>k\<bar> \<le> 46340" using int_root_bound [of "\<bar>k\<bar>"] sq assms by simp
    have "num \<le> 46340 * 46340" unfolding sq [symmetric] using b by (intro mult_mono) auto
    then show "\<bar>k\<bar> \<le> hi"
      using b square_root_le_half [of "\<bar>k\<bar>" num] sq assms by (simp add: hi_def)
  qed
  ultimately show ?thesis by blast
qed

theorem isPerfectSquare_correct_witness: "isPerfectSquare 808201 \<longleftrightarrow> (\<exists>k. k * k = (808201 :: int))"
  by (rule isPerfectSquare_correct) simp_all

text \<open>The square wraps to a negative number at 46341, which ends the loops.\<close>

definition square_sum :: "int \<Rightarrow> int \<Rightarrow> bool" where
  "square_sum c i \<longleftrightarrow> (\<exists>a b. 0 \<le> a \<and> a \<le> b \<and> i \<le> b \<and> a * a + b * b = c)"

lemma square_step:
  assumes "0 \<le> i" "i \<le> 46341" "0 \<le> c" "c < 2147483648"
  shows "i32 (i * i) \<le> c \<and> 0 \<le> i32 (i * i) \<longleftrightarrow> i * i \<le> c" "i * i \<le> c \<Longrightarrow> i32 (i * i) = i * i \<and> i \<le> 46340"
proof -
  have small: "i32 (i * i) = i * i" if "i \<le> 46340"
  proof (rule i32_id)
    have "i * i \<le> 46340 * 46340" using that assms(1) by (intro mult_mono) auto
    then show "i * i < 2147483648" by simp
    have "0 \<le> i * i" by simp
    then show "- 2147483648 \<le> i * i" by linarith
  qed
  have big: "i32 (46341 * 46341) = - 2147479015" by code_simp
  show "i * i \<le> c \<Longrightarrow> i32 (i * i) = i * i \<and> i \<le> 46340" using int_root_bound [of i] assms small by auto
  show "i32 (i * i) \<le> c \<and> 0 \<le> i32 (i * i) \<longleftrightarrow> i * i \<le> c"
  proof (cases "i \<le> 46340")
    case True
    have "0 \<le> i * i" by simp
    then show ?thesis unfolding small [OF True] by blast
  next
    case False
    then have "i = 46341" using assms(2) by simp
    then show ?thesis using big assms(4) by simp
  qed
qed

lemma square_sum_loop_eq:
  assumes "0 \<le> c" "c < 2147483648" "0 \<le> i" "i \<le> 46341"
  shows "square_sum_loop c {j * j |j. 0 \<le> j \<and> j < i} i = Some (square_sum c i)"
  using assms(3,4)
proof (induction "nat (46341 - i)" arbitrary: i rule: less_induct)
  case less
  note st = square_step [OF less.prems assms(1,2)]
  let ?S = "{j * j |j. 0 \<le> j \<and> j < i}"
  define S' where "S' = {j * j |j. 0 \<le> j \<and> j < i + 1}"
  have S': "insert (i * i) ?S = S'" unfolding S'_def using less.prems by (auto simp: zless_add1_eq simp del: zle_add1_eq_le)
  show ?case
  proof (cases "i * i \<le> c")
    case False
    have "\<not> square_sum c i"
    proof
      assume "square_sum c i"
      then obtain a b where "i \<le> b" "a * a + b * b = c" by (auto simp: square_sum_def)
      moreover have "i * i \<le> b * b" using \<open>i \<le> b\<close> less.prems by (intro mult_mono) auto
      moreover have "0 \<le> a * a" by simp
      ultimately show False using False by linarith
    qed
    then show ?thesis using False st(1) by (subst square_sum_loop.simps) (auto simp: Let_def)
  next
    case True
    have step: "square_sum_loop c ?S i = (if c - i * i \<in> S' then Some True else square_sum_loop c S' (i + 1))"
      using True st S' by (subst square_sum_loop.simps) (simp add: Let_def)
    show ?thesis
    proof (cases "c - i * i \<in> S'")
      case hit: True
      then obtain a where "0 \<le> a" "a \<le> i" "a * a + i * i = c" unfolding S'_def by force
      then have "square_sum c i" by (auto simp: square_sum_def)
      then show ?thesis using step hit by simp
    next
      case out: False
      have "a * a + i * i \<noteq> c" if "0 \<le> a" "a \<le> i" for a using out that unfolding S'_def by fastforce
      then have none: "\<not> (\<exists>a. 0 \<le> a \<and> a \<le> i \<and> a * a + i * i = c)" by blast
      define Q where "Q b \<longleftrightarrow> (\<exists>a. 0 \<le> a \<and> a \<le> b \<and> a * a + b * b = c)" for b
      have "i \<le> b \<longleftrightarrow> b = i \<or> i + 1 \<le> b" for b by linarith
      then have "(\<exists>b. i \<le> b \<and> Q b) \<longleftrightarrow> Q i \<or> (\<exists>b. i + 1 \<le> b \<and> Q b)" by metis
      moreover have "square_sum c j \<longleftrightarrow> (\<exists>b. j \<le> b \<and> Q b)" for j unfolding square_sum_def Q_def by blast
      ultimately have "square_sum c i = square_sum c (i + 1)" using none unfolding Q_def by simp
      moreover have "square_sum_loop c S' (i + 1) = Some (square_sum c (i + 1))"
        using less.prems st(2) True unfolding S'_def by (intro less.hyps) auto
      ultimately show ?thesis using step out by simp
    qed
  qed
qed

definition square_sum_from :: "int \<Rightarrow> int \<Rightarrow> int \<Rightarrow> bool" where
  "square_sum_from c ub i \<longleftrightarrow> (\<exists>a. i \<le> a \<and> a * a \<le> c \<and> (a * a = c \<or> (\<exists>b. a \<le> b \<and> b \<le> ub \<and> a * a + b * b = c)))"

lemma square_sum_old_loop_eq:
  assumes "0 \<le> c" "c < 2147483648" "0 \<le> i" "i \<le> 46341"
  shows "square_sum_old_loop c ub i = Some (square_sum_from c ub i)"
  using assms(3,4)
proof (induction "nat (46341 - i)" arbitrary: i rule: less_induct)
  case less
  note st = square_step [OF less.prems assms(1,2)]
  show ?case
  proof (cases "i * i \<le> c")
    case False
    have "\<not> square_sum_from c ub i"
    proof
      assume "square_sum_from c ub i"
      then obtain a where "i \<le> a" "a * a \<le> c" by (auto simp: square_sum_from_def)
      moreover have "i * i \<le> a * a" using \<open>i \<le> a\<close> less.prems by (intro mult_mono) auto
      ultimately show False using False by linarith
    qed
    then show ?thesis using False st(1) by (subst square_sum_old_loop.simps) (auto simp: Let_def)
  next
    case True
    let ?hit = "i * i = c \<or> (\<exists>b. i \<le> b \<and> b \<le> ub \<and> i * i + b * b = c)"
    have "isPerfectSquare_search (c - i * i) i ub \<longleftrightarrow> (\<exists>b. i \<le> b \<and> b \<le> ub \<and> i * i + b * b = c)"
      using perfect_search_iff [OF less.prems(1), of "c - i * i" ub] by (simp add: algebra_simps)
    then have step: "square_sum_old_loop c ub i = (if ?hit then Some True else square_sum_old_loop c ub (i + 1))"
      using True st by (subst square_sum_old_loop.simps) (auto simp: Let_def)
    have "square_sum_old_loop c ub (i + 1) = Some (square_sum_from c ub (i + 1))"
      using less.prems st(2) True by (intro less.hyps) auto
    moreover have "square_sum_from c ub i \<longleftrightarrow> ?hit \<or> square_sum_from c ub (i + 1)"
    proof -
      define P where "P a \<longleftrightarrow> a * a \<le> c \<and> (a * a = c \<or> (\<exists>b. a \<le> b \<and> b \<le> ub \<and> a * a + b * b = c))" for a
      have "i \<le> a \<longleftrightarrow> a = i \<or> i + 1 \<le> a" for a by linarith
      then have "(\<exists>a. i \<le> a \<and> P a) \<longleftrightarrow> P i \<or> (\<exists>a. i + 1 \<le> a \<and> P a)" by metis
      moreover have "P i \<longleftrightarrow> ?hit" using True by (simp add: P_def)
      ultimately show ?thesis unfolding square_sum_from_def P_def [symmetric] by simp
    qed
    ultimately show ?thesis using step by auto
  qed
qed

lemma no_square_sum_max: "a * a + b * b \<noteq> (2147483647 :: int)"
proof
  assume "a * a + b * b = 2147483647"
  then have "(a * a + b * b) mod 4 = 3" by simp
  moreover have "x * x mod 4 = 0 \<or> x * x mod 4 = 1" for x :: int
  proof (cases "even x")
    case True
    then obtain k where "x = 2 * k" by (rule evenE)
    then show ?thesis by simp
  next
    case False
    then show ?thesis using square_mod_4 by (simp add: power2_eq_square)
  qed
  from this [of a] this [of b] have "(a * a mod 4 + b * b mod 4) mod 4 \<noteq> 3" by auto
  ultimately show False by (simp add: mod_add_eq)
qed

text \<open>Both versions decide whether a number is a sum of two squares, also where the square of the counter overflows.\<close>

theorem judgeSquareSum_correct:
  assumes "0 \<le> c" "c < 2147483648"
  shows "judgeSquareSum c = Some (\<exists>a b. a * a + b * b = c) \<and> judgeSquareSum_old c = judgeSquareSum c"
proof -
  have ordered: "\<exists>x y. 0 \<le> x \<and> x \<le> y \<and> x * x + y * y = c" if "a * a + b * b = c" for a b
  proof -
    have "\<bar>a\<bar> * \<bar>a\<bar> + \<bar>b\<bar> * \<bar>b\<bar> = c" using that by simp
    then show ?thesis by (metis abs_ge_zero add.commute linear)
  qed
  then have "square_sum c 0 \<longleftrightarrow> (\<exists>a b. a * a + b * b = c)"
    unfolding square_sum_def by (metis order.trans)
  moreover have "judgeSquareSum c = Some (square_sum c 0)"
  proof -
    have "{j * j |j :: int. 0 \<le> j \<and> j < 0} = {}" by auto
    then show ?thesis using square_sum_loop_eq [OF assms, of 0] by (simp only: judgeSquareSum_def)
  qed
  moreover define ub where "ub = min (i32 (c + 1) sdiv 2) 50000"
  have "square_sum_from c ub 0 \<longleftrightarrow> (\<exists>a b. a * a + b * b = c)"
  proof
    assume "square_sum_from c ub 0"
    then show "\<exists>a b. a * a + b * b = c" unfolding square_sum_from_def by (metis add.right_neutral mult_zero_right)
  next
    assume "\<exists>a b. a * a + b * b = c"
    then obtain a b where ab: "0 \<le> a" "a \<le> b" "a * a + b * b = c" using ordered by blast
    have "0 \<le> a * a" by simp
    then have bb: "b * b \<le> c" using ab by linarith
    have "0 \<le> b * b" by simp
    then have aa: "a * a \<le> c" using ab by linarith
    have "c \<noteq> 2147483647" using no_square_sum_max [of a b] ab by simp
    then have "b \<le> ub"
      using square_root_le_half [of b c] int_root_bound [of b] ab bb assms by (simp add: ub_def)
    then show "square_sum_from c ub 0" unfolding square_sum_from_def using ab aa by blast
  qed
  moreover have "judgeSquareSum_old c = Some (square_sum_from c ub 0)"
    using square_sum_old_loop_eq [OF assms, of 0 ub] by (simp add: judgeSquareSum_old_def ub_def)
  ultimately show ?thesis by simp
qed

theorem judgeSquareSum_correct_witness:
  "judgeSquareSum 2147483647 = Some (\<exists>a b. a * a + b * b = (2147483647 :: int)) \<and>
   judgeSquareSum_old 2147483647 = judgeSquareSum 2147483647"
  by (rule judgeSquareSum_correct) simp_all

text \<open>The rectangle with the least difference between its sides.\<close>

lemma rectangle_loop_spec:
  "0 < area \<Longrightarrow> \<exists>w. rectangle_loop area n = [area div w, w] \<and> 1 \<le> w \<and> w dvd area \<and>
    (0 < n \<longrightarrow> w \<le> int n) \<and> (\<forall>d. d dvd area \<longrightarrow> 1 \<le> d \<longrightarrow> d \<le> int n \<longrightarrow> d \<le> w)"
proof (induction n)
  case (Suc n)
  show ?case
  proof (cases "n = 0")
    case True
    then show ?thesis by (auto intro!: exI [of _ 1])
  next
    case False
    show ?thesis
    proof (cases "int (Suc n) dvd area")
      case True
      then show ?thesis using False Suc.prems by (auto intro!: exI [of _ "int (Suc n)"] simp: dvd_eq_mod_eq_0)
    next
      case nd: False
      then obtain w where w: "rectangle_loop area n = [area div w, w]" "1 \<le> w" "w dvd area" "w \<le> int n"
        "\<forall>d. d dvd area \<longrightarrow> 1 \<le> d \<longrightarrow> d \<le> int n \<longrightarrow> d \<le> w"
        using Suc False by auto
      have "d \<le> int n" if "d dvd area" "d \<le> int (Suc n)" for d using nd that by (cases "d = int (Suc n)") auto
      then show ?thesis using w nd False Suc.prems by (auto simp: dvd_eq_mod_eq_0)
    qed
  qed
qed auto

theorem constructRectangle_correct:
  assumes "0 < area"
  shows "\<exists>L W. constructRectangle area = [L, W] \<and> L * W = area \<and> 1 \<le> W \<and> W \<le> L \<and>
    (\<forall>l w. l * w = area \<longrightarrow> 1 \<le> w \<longrightarrow> w \<le> l \<longrightarrow> L - W \<le> l - w)"
proof -
  let ?n = "int_sqrt (nat area)"
  obtain W where W: "constructRectangle area = [area div W, W]" "1 \<le> W" "W dvd area" "W \<le> int ?n"
    "\<And>d. d dvd area \<Longrightarrow> 1 \<le> d \<Longrightarrow> d \<le> int ?n \<Longrightarrow> d \<le> W"
    using rectangle_loop_spec [OF assms, of ?n] int_sqrt_ge_int [of 1 area] assms
    unfolding constructRectangle_def by auto
  define L where "L = area div W"
  have LW: "L * W = area" using W(3) by (simp add: L_def)
  have "W * W \<le> area" using W(2,4) int_sqrt_ge_int [of W area] assms by simp
  then have "W * W \<le> W * L" using LW by (simp add: mult.commute)
  then have "W \<le> L" using W(2) by simp
  moreover have "L - W \<le> l - w" if lw: "l * w = area" "1 \<le> w" "w \<le> l" for l w
  proof -
    have "w * w \<le> area" unfolding lw(1) [symmetric] using lw by (intro mult_right_mono) auto
    then have "w \<le> int ?n" using int_sqrt_ge_int [of w area] lw assms by simp
    then have "w \<le> W" using W(5) lw by (auto simp: dvd_def mult.commute)
    moreover have "L \<le> l"
    proof (rule ccontr)
      assume "\<not> L \<le> l"
      then have "l * w < L * w" using lw(2) by simp
      also have "\<dots> \<le> L * W" using \<open>w \<le> W\<close> \<open>W \<le> L\<close> W(2) by (intro mult_left_mono) auto
      finally show False using LW lw by simp
    qed
    ultimately show ?thesis by simp
  qed
  ultimately show ?thesis using W(1,2) LW unfolding L_def by blast
qed

theorem constructRectangle_correct_witness:
  "\<exists>L W. constructRectangle 12 = [L, W] \<and> L * W = 12 \<and> 1 \<le> W \<and> W \<le> L \<and>
    (\<forall>l w. l * w = 12 \<longrightarrow> 1 \<le> w \<longrightarrow> w \<le> l \<longrightarrow> L - W \<le> l - w)"
  by (rule constructRectangle_correct) simp

subsection \<open>Sums of digit strings\<close>

text \<open>
  What the lambdas with a carry promise: a digit and a carry again, with the same sum. \<open>dv\<close> is the
  value of a digit.
\<close>

locale digit_carrier =
  fixes base :: int and dv :: "'a \<Rightarrow> int" and one :: "int \<Rightarrow> 'a \<Rightarrow> 'a \<times> int"
  assumes base: "2 \<le> base"
    and one: "\<lbrakk>0 \<le> dv a; dv a < base; 0 \<le> c; c \<le> 1\<rbrakk> \<Longrightarrow>
      dv (fst (one c a)) + base * snd (one c a) = dv a + c \<and> 0 \<le> dv (fst (one c a)) \<and> dv (fst (one c a)) < base \<and>
      0 \<le> snd (one c a) \<and> snd (one c a) \<le> 1"
begin

lemma transform1_value:
  "digits_ok base (map dv as) \<Longrightarrow> 0 \<le> c \<Longrightarrow> c \<le> 1 \<Longrightarrow> transform1 one c as = (bs, c') \<Longrightarrow>
   length bs = length as \<and> digits_ok base (map dv bs) \<and> 0 \<le> c' \<and> c' \<le> 1 \<and>
   num_of base (map dv bs) + base ^ length as * c' = num_of base (map dv as) + c"
proof (induction as arbitrary: c bs)
  case (Cons a as)
  obtain b d where f: "one c a = (b, d)" by force
  obtain bs1 where t: "transform1 one d as = (bs1, c')" "bs = b # bs1"
    using Cons.prems(4) f by (auto split: prod.splits)
  have st: "dv b + base * d = dv a + c" "0 \<le> dv b" "dv b < base" "0 \<le> d" "d \<le> 1"
    using one [of a c] Cons.prems f by auto
  have IH: "length bs1 = length as" "digits_ok base (map dv bs1)" "0 \<le> c'" "c' \<le> 1"
    "num_of base (map dv bs1) + base ^ length as * c' = num_of base (map dv as) + d"
    using Cons.IH [OF _ st(4,5) t(1)] Cons.prems(1) by auto
  have "num_of base (map dv bs) + base ^ length (a # as) * c' =
      dv b + base * (num_of base (map dv bs1) + base ^ length as * c')"
    unfolding t(2) by (simp add: algebra_simps)
  also have "\<dots> = (dv b + base * d) + base * num_of base (map dv as)" unfolding IH(5) by (simp add: algebra_simps)
  also have "\<dots> = num_of base (map dv (a # as)) + c" unfolding st(1) by simp
  finally show ?case using IH st t(2) by simp
qed simp

end

locale digit_adder = digit_carrier +
  fixes two :: "int \<Rightarrow> 'a \<Rightarrow> 'a \<Rightarrow> 'a \<times> int"
  assumes two: "\<lbrakk>0 \<le> dv a; dv a < base; 0 \<le> dv b; dv b < base; 0 \<le> c; c \<le> 1\<rbrakk> \<Longrightarrow>
      dv (fst (two c a b)) + base * snd (two c a b) = dv a + dv b + c \<and>
      0 \<le> dv (fst (two c a b)) \<and> dv (fst (two c a b)) < base \<and> 0 \<le> snd (two c a b) \<and> snd (two c a b) \<le> 1"
begin

lemma transform2_value:
  "digits_ok base (map dv as) \<Longrightarrow> digits_ok base (map dv bs) \<Longrightarrow> length as \<le> length bs \<Longrightarrow> 0 \<le> c \<Longrightarrow> c \<le> 1 \<Longrightarrow>
   transform2 two c as bs = (cs, c') \<Longrightarrow>
   length cs = length as \<and> digits_ok base (map dv cs) \<and> 0 \<le> c' \<and> c' \<le> 1 \<and>
   num_of base (map dv cs) + base ^ length as * c' =
     num_of base (map dv as) + num_of base (map dv (take (length as) bs)) + c"
proof (induction as arbitrary: bs c cs)
  case (Cons a as)
  obtain b bs1 where bs: "bs = b # bs1" using Cons.prems(3) by (cases bs) auto
  obtain e d where f: "two c a b = (e, d)" by force
  obtain cs1 where t: "transform2 two d as bs1 = (cs1, c')" "cs = e # cs1"
    using Cons.prems(6) f bs by (auto split: prod.splits)
  have st: "dv e + base * d = dv a + dv b + c" "0 \<le> dv e" "dv e < base" "0 \<le> d" "d \<le> 1"
    using two [of a b c] Cons.prems f bs by auto
  have IH: "length cs1 = length as" "digits_ok base (map dv cs1)" "0 \<le> c'" "c' \<le> 1"
    "num_of base (map dv cs1) + base ^ length as * c' =
      num_of base (map dv as) + num_of base (map dv (take (length as) bs1)) + d"
    using Cons.IH [OF _ _ _ st(4,5) t(1)] Cons.prems(1-3) bs by auto
  have "num_of base (map dv cs) + base ^ length (a # as) * c' =
      dv e + base * (num_of base (map dv cs1) + base ^ length as * c')"
    unfolding t(2) by (simp add: algebra_simps)
  also have "\<dots> = (dv e + base * d) + base * (num_of base (map dv as) + num_of base (map dv (take (length as) bs1)))"
    unfolding IH(5) by (simp add: algebra_simps)
  also have "\<dots> = num_of base (map dv (a # as)) + num_of base (map dv (take (length (a # as)) bs)) + c"
    unfolding st(1) bs by (simp add: algebra_simps)
  finally show ?case using IH st t(2) by simp
qed simp

text \<open>The whole addition: the common part, then the carry through the rest of the longer number.\<close>

lemma add_value:
  assumes "digits_ok base (map dv as)" "digits_ok base (map dv bs)" "length as \<le> length bs"
    and low: "transform2 two 0 as bs = (low, c)" and high: "transform1 one c (drop (length as) bs) = (high, d)"
  shows "length (low @ high) = length bs \<and> digits_ok base (map dv (low @ high)) \<and> 0 \<le> d \<and> d \<le> 1 \<and>
    num_of base (map dv (low @ high)) + base ^ length bs * d = num_of base (map dv as) + num_of base (map dv bs)"
proof -
  have l: "length low = length as" "digits_ok base (map dv low)" "0 \<le> c" "c \<le> 1"
    "num_of base (map dv low) + base ^ length as * c = num_of base (map dv as) + num_of base (map dv (take (length as) bs))"
    using transform2_value [OF assms(1-3) _ _ low] by auto
  have "digits_ok base (map dv (drop (length as) bs))" using assms(2) unfolding drop_map [symmetric] by simp
  from transform1_value [OF this l(3,4) high]
  have h: "length high = length bs - length as" "digits_ok base (map dv high)" "0 \<le> d" "d \<le> 1"
    "num_of base (map dv high) + base ^ (length bs - length as) * d = num_of base (map dv (drop (length as) bs)) + c"
    by auto
  have split: "num_of base (map dv bs) =
      num_of base (map dv (take (length as) bs)) + base ^ length as * num_of base (map dv (drop (length as) bs))"
    using num_of_append [of base "map dv (take (length as) bs)" "map dv (drop (length as) bs)"] assms(3)
    by (simp add: map_append [symmetric] min_absorb2 del: map_append)
  have "base ^ length bs = base ^ length as * base ^ (length bs - length as)"
    using assms(3) by (simp add: power_add [symmetric])
  then have "num_of base (map dv (low @ high)) + base ^ length bs * d =
      num_of base (map dv low) + base ^ length as * (num_of base (map dv high) + base ^ (length bs - length as) * d)"
    using l(1) by (simp add: num_of_append algebra_simps)
  also have "\<dots> = (num_of base (map dv low) + base ^ length as * c) + base ^ length as * num_of base (map dv (drop (length as) bs))"
    unfolding h(5) by (simp add: algebra_simps)
  also have "\<dots> = num_of base (map dv as) + num_of base (map dv bs)" unfolding l(5) split by simp
  finally show ?thesis using l h assms(3) by simp
qed

end

definition digit_value :: "char \<Rightarrow> int" where
  "digit_value c = code c - 48"

lemma chr_digit: "0 \<le> d \<Longrightarrow> d < 10 \<Longrightarrow> digit_value (chr (d + 48)) = d"
  by (simp add: digit_value_def)

interpretation bits: digit_adder 2 digit_value carry_bit add_bits
proof (unfold_locales, goal_cases)
  case (2 a c)
  then have "digit_value a + c = 0 \<or> digit_value a + c = 1 \<or> digit_value a + c = 2" by linarith
  then show ?case using 2 by (auto simp: carry_bit_def Let_def digit_value_def)
next
  case (3 a b c)
  then have "digit_value a + digit_value b + c \<in> {0, 1, 2, 3}" by auto
  then have "code a - 48 + code b - 48 + c \<in> {0, 1, 2, 3}" by (simp add: digit_value_def)
  then show ?case unfolding add_bits_def Let_def by (auto simp: digit_value_def)
qed simp

interpretation decimal: digit_carrier 10 "\<lambda>d. d" carry_digit
  by unfold_locales (auto simp: carry_digit_def Let_def)

lemma no_carry: "(\<And>a. f 0 a = (a, 0 :: int)) \<Longrightarrow> transform1 f 0 as = (as, 0)"
  by (induction as) auto

text \<open>The number a digit string stands for, to a base.\<close>

abbreviation numeral_value :: "int \<Rightarrow> string \<Rightarrow> int" where
  "numeral_value base s \<equiv> num_of base (map digit_value (rev s))"

abbreviation numeral_ok :: "int \<Rightarrow> string \<Rightarrow> bool" where
  "numeral_ok base s \<equiv> digits_ok base (map digit_value (rev s))"

lemma digit_value_1 [simp]: "digit_value (CHR ''1'') = 1"
  by (simp add: digit_value_def code_def)

text \<open>The digits from the back with a \<open>1\<close> in front when a carry is left.\<close>

lemma carry_in_front:
  assumes "digits_ok base (map digit_value xs)" "0 \<le> d" "d \<le> 1" "2 \<le> base"
    and "num_of base (map digit_value xs) + base ^ length xs * d = v"
  shows "numeral_ok base (if d \<noteq> 0 then CHR ''1'' # rev xs else rev xs) \<and>
    numeral_value base (if d \<noteq> 0 then CHR ''1'' # rev xs else rev xs) = v"
proof -
  have "d = 0 \<or> d = 1" using assms(2,3) by linarith
  then show ?thesis using assms by (auto simp: num_of_append)
qed

theorem addBinary_correct:
  assumes "numeral_ok 2 a" "numeral_ok 2 b"
  shows "numeral_ok 2 (addBinary a b) \<and> numeral_value 2 (addBinary a b) = numeral_value 2 a + numeral_value 2 b \<and>
    length (addBinary a b) \<le> max (length a) (length b) + 1"
proof -
  define A B where "A = (if length a < length b then b else a)" and "B = (if length a < length b then a else b)"
  have ok: "numeral_ok 2 A" "numeral_ok 2 B" "length (rev B) \<le> length (rev A)"
    using assms by (auto simp: A_def B_def)
  obtain low c where low: "transform2 add_bits 0 (rev B) (rev A) = (low, c)" by force
  obtain high d where high: "transform1 carry_bit c (drop (length (rev B)) (rev A)) = (high, d)" by force
  note sum = bits.add_value [OF ok(2,1,3) low high]
  have "transform1 carry_bit 0 as = (as, 0)" for as by (rule no_carry) (simp add: carry_bit_def)
  then have "c = 0 \<Longrightarrow> high = drop (length B) (rev A) \<and> d = 0" using high by simp
  moreover have "\<not> length A > length B \<Longrightarrow> high = [] \<and> d = c" using high by simp
  ultimately have res: "addBinary a b = (if d \<noteq> 0 then CHR ''1'' # rev (low @ high) else rev (low @ high))"
    using low high unfolding addBinary_def A_def [symmetric] B_def [symmetric]
    by (auto simp: Let_def A_def B_def split: if_splits prod.splits)
  have val: "numeral_value 2 B + numeral_value 2 A = numeral_value 2 a + numeral_value 2 b"
    "length A = max (length a) (length b)" by (auto simp: A_def B_def)
  have len: "length (low @ high) = length A" using sum by simp
  have "num_of 2 (map digit_value (low @ high)) + 2 ^ length (low @ high) * d = numeral_value 2 a + numeral_value 2 b"
    using sum val(1) unfolding len by simp
  then have "numeral_ok 2 (addBinary a b) \<and> numeral_value 2 (addBinary a b) = numeral_value 2 a + numeral_value 2 b"
    unfolding res using sum by (intro carry_in_front) auto
  then show ?thesis unfolding res using len val(2) by simp
qed

theorem addBinary_correct_witness:
  "numeral_ok 2 (addBinary ''1011'' ''110'') \<and>
   numeral_value 2 (addBinary ''1011'' ''110'') = numeral_value 2 ''1011'' + numeral_value 2 ''110'' \<and>
   length (addBinary ''1011'' ''110'') \<le> max (length ''1011'') (length ''110'') + 1"
  by (rule addBinary_correct) (simp_all add: digit_value_def code_def)

lemma addBinary_example: "addBinary ''1011'' ''110'' = ''10001''"
  by code_simp

theorem plusOne_correct:
  assumes "digits_ok 10 digits"
  shows "digits_ok 10 (plusOne digits) \<and> num_of 10 (rev (plusOne digits)) = num_of 10 (rev digits) + 1"
proof -
  obtain ans c where t: "transform1 carry_digit 1 (rev digits) = (ans, c)" by force
  have "digits_ok 10 (map (\<lambda>d. d) (rev digits))" using assms by simp
  from decimal.transform1_value [OF this _ _ t]
  have a: "length ans = length digits" "digits_ok 10 ans" "0 \<le> c" "c \<le> 1"
    "num_of 10 ans + 10 ^ length digits * c = num_of 10 (rev digits) + 1" by auto
  have "c = 0 \<or> c = 1" using a(3,4) by linarith
  then show ?thesis using a t by (auto simp: plusOne_def num_of_append)
qed

subsection \<open>Reordered powers of 2\<close>

text \<open>\<open>digitNormalize\<close> adds the power of ten of every digit; with at most nine digits no digit count carries over.\<close>

lemma digit_cases: "k < (10 :: nat) \<Longrightarrow> k = 0 \<or> k = 1 \<or> k = 2 \<or> k = 3 \<or> k = 4 \<or> k = 5 \<or> k = 6 \<or> k = 7 \<or> k = 8 \<or> k = 9"
  by presburger

lemma digitNormalize_loop_eq:
  "0 \<le> ret \<Longrightarrow> 0 \<le> n \<Longrightarrow> ret + 1000000000 * int (length (dec_digits n)) < 9223372036854775808 \<Longrightarrow>
   digitNormalize_loop ret n = ret + (\<Sum>d \<leftarrow> dec_digits n. 10 ^ nat d)"
proof (induction ret n rule: digitNormalize_loop.induct)
  case (1 ret n)
  show ?case
  proof (cases "n > 0")
    case True
    let ?d = "nat (n mod 10)"
    have d: "?d < 10" by (simp add: nat_less_iff)
    have p: "pow10 ! ?d = 10 ^ ?d" using digit_cases [OF d] by (elim disjE) (simp_all add: pow10_def)
    have le: "(10 :: int) ^ ?d \<le> 1000000000" using d power_increasing [of ?d 9 "10 :: int"] by simp
    have dd: "dec_digits n = n mod 10 # dec_digits (n div 10)" using True by (simp add: base_digits_pos)
    have "ret + 1000000000 < 9223372036854775808" using "1.prems" unfolding dd by simp
    moreover have "(0 :: int) \<le> 10 ^ ?d" by simp
    ultimately have w: "i64 (ret + pow10 ! ?d) = ret + 10 ^ ?d" unfolding p using "1.prems"(1) le by (intro i64_id) linarith+
    have step: "digitNormalize_loop ret n = digitNormalize_loop (ret + 10 ^ ?d) (n div 10)"
      using True w by (subst digitNormalize_loop.simps) simp
    have len: "int (length (dec_digits n)) = 1 + int (length (dec_digits (n div 10)))" unfolding dd by simp
    have "0 \<le> ret + (10 :: int) ^ ?d" using "1.prems"(1) by simp
    moreover have "ret + 10 ^ ?d + 1000000000 * int (length (dec_digits (n div 10))) < 9223372036854775808"
    proof -
      have "ret + 1000000000 + 1000000000 * int (length (dec_digits (n div 10))) < 9223372036854775808"
        using "1.prems"(3) unfolding len by (simp add: algebra_simps)
      then show ?thesis using add_right_mono [OF add_left_mono [OF le, of ret]] by (rule le_less_trans [rotated])
    qed
    ultimately have "digitNormalize_loop (ret + 10 ^ ?d) (n div 10) = ret + 10 ^ ?d + (\<Sum>d \<leftarrow> dec_digits (n div 10). 10 ^ nat d)"
      using "1.IH" [OF True] w True by (simp add: div_nonneg_int)
    then show ?thesis unfolding step dd by simp
  next
    case False
    then show ?thesis by (subst digitNormalize_loop.simps) simp
  qed
qed

lemma sum_digit_counts:
  "digits_ok 10 ds \<Longrightarrow> (\<Sum>d \<leftarrow> ds. 10 ^ nat d) = num_of 10 (map (\<lambda>k. int (count_list ds (int k))) [0..<10])"
proof (induction ds)
  case Nil
  then show ?case by (simp add: upt_rec)
next
  case (Cons d ds)
  obtain k where k: "d = int k" using Cons.prems by (auto elim: nonneg_int_cases)
  have "k < 10" using Cons.prems k by simp
  from digit_cases [OF this] show ?case unfolding k using Cons by (elim disjE) (simp_all add: upt_rec)
qed

lemma digitNormalize_eq:
  "0 \<le> n \<Longrightarrow> n \<le> 2147483647 \<Longrightarrow>
   digitNormalize n = num_of 10 (map (\<lambda>k. int (count_list (dec_digits n) (int k))) [0..<10])"
proof -
  assume n: "0 \<le> n" "n \<le> 2147483647"
  then have "length (dec_digits n) \<le> 18" by (intro dec_digits_less_10_18) auto
  then show ?thesis
    using digitNormalize_loop_eq [of 0 n] n sum_digit_counts [OF digits_ok_base_digits, of n]
    by (simp add: digitNormalize_def)
qed

lemma dec_digits_length_iff: "0 < k \<Longrightarrow> length (dec_digits k) \<le> n \<longleftrightarrow> k < 10 ^ n"
proof
  assume k: "0 < k"
  have v: "num_of 10 (dec_digits k) = k" using k by (simp add: num_of_base_digits)
  {
    assume "length (dec_digits k) \<le> n"
    then have pw: "(10 :: int) ^ length (dec_digits k) \<le> 10 ^ n" by (intro power_increasing) auto
    have "k < 10 ^ length (dec_digits k)" using num_of_less [of 10 "dec_digits k"] v by (simp add: digits_ok_base_digits)
    then show "k < 10 ^ n" using pw by linarith
  }
  assume kn: "k < 10 ^ n"
  show "length (dec_digits k) \<le> n"
  proof (rule ccontr)
    assume "\<not> length (dec_digits k) \<le> n"
    then have "(10 :: int) ^ n \<le> 10 ^ (length (dec_digits k) - 1)" by (intro power_increasing) auto
    also have "\<dots> \<le> num_of 10 (dec_digits k)"
      using k by (intro num_of_ge_last) (auto simp: digits_ok_base_digits last_base_digits base_digits_Nil_iff)
    finally show False using kn v by simp
  qed
qed

lemma digitNormalize_inject:
  assumes "0 < m" "m < 1000000000" "0 < n" "n < 1000000000" "digitNormalize m = digitNormalize n"
  shows "mset (dec_digits m) = mset (dec_digits n)"
proof -
  define c where "c k = map (\<lambda>j. int (count_list (dec_digits k) (int j))) [0..<10]" for k
  have ok: "digits_ok 10 (c k)" if "0 < k" "k < 1000000000" for k
  proof -
    have "length (dec_digits k) \<le> 9" using that by (simp add: dec_digits_length_iff)
    then have "count_list (dec_digits k) x < 10" for x using count_le_length [of "dec_digits k" x] by simp
    then have "int (count_list (dec_digits k) x) < 10" for x by (metis of_nat_less_iff of_nat_numeral)
    then show ?thesis by (auto simp: c_def digits_ok_def)
  qed
  have "num_of 10 (c m) = num_of 10 (c n)" using assms digitNormalize_eq by (simp add: c_def)
  then have eq: "c m = c n" using ok assms by (intro num_of_inject [of 10]) (auto simp: c_def)
  have small: "count_list (dec_digits m) x = count_list (dec_digits n) x" if "0 \<le> x" "x < 10" for x
    using arg_cong [OF eq, of "\<lambda>l. l ! nat x"] that by (simp add: c_def nat_less_iff)
  have none: "count_list (dec_digits k) x = 0" if "\<not> (0 \<le> x \<and> x < 10)" for k x
    using that digits_ok_base_digits [of 10 k] by (auto simp: digits_ok_def count_list_0_iff)
  have "count_list (dec_digits m) x = count_list (dec_digits n) x" for x
    using small [of x] none [of x m] none [of x n] by (cases "0 \<le> x \<and> x < 10") auto
  then show ?thesis by (intro multiset_eqI) (simp add: count_mset)
qed

lemma pow2_loop_eq: "pow2_loop 0 1 = map (\<lambda>i. 2 ^ i) [0..<30]"
  by code_simp

theorem reorderedPowerOf2_correct:
  assumes "1 \<le> N" "N < 1000000000"
  shows "reorderedPowerOf2 N \<longleftrightarrow> (\<exists>i. mset (dec_digits (2 ^ i)) = mset (dec_digits N))"
proof -
  have same: "countDecDigit a = countDecDigit N \<and> digitNormalize N = digitNormalize a \<longleftrightarrow> mset (dec_digits a) = mset (dec_digits N)"
    if a: "1 \<le> a" "a < 1000000000" for a
  proof
    assume "countDecDigit a = countDecDigit N \<and> digitNormalize N = digitNormalize a"
    then show "mset (dec_digits a) = mset (dec_digits N)" using a assms by (intro digitNormalize_inject) auto
  next
    assume eq: "mset (dec_digits a) = mset (dec_digits N)"
    then have "count_list (dec_digits a) x = count_list (dec_digits N) x" for x by (metis count_mset)
    then show "countDecDigit a = countDecDigit N \<and> digitNormalize N = digitNormalize a"
      using mset_eq_length [OF eq] a assms by (simp add: countDecDigit_eq digitNormalize_eq)
  qed
  have bound: "2 ^ i < (1000000000 :: int)" if "i < 30" for i
    using power_increasing [of i 29 "2 :: int"] that by simp
  have "reorderedPowerOf2 N \<longleftrightarrow> (\<exists>i < 30. countDecDigit (2 ^ i) = countDecDigit N \<and> digitNormalize N = digitNormalize (2 ^ i))"
    unfolding reorderedPowerOf2_def pow2_loop_eq Let_def by (auto simp: list_ex_iff)
  also have "\<dots> \<longleftrightarrow> (\<exists>i < 30. mset (dec_digits (2 ^ i)) = mset (dec_digits N))"
    using same bound by (intro ex_cong1 conj_cong refl) simp
  also have "\<dots> \<longleftrightarrow> (\<exists>i. mset (dec_digits (2 ^ i)) = mset (dec_digits N))"
  proof -
    have "i < 30" if "mset (dec_digits (2 ^ i)) = mset (dec_digits N)" for i
    proof -
      have "length (dec_digits (2 ^ i)) \<le> 9"
        using mset_eq_length [OF that] dec_digits_length_iff [of N 9] assms by simp
      then have "(2 :: int) ^ i < 1000000000" by (simp add: dec_digits_length_iff)
      then have "\<not> (2 :: int) ^ 30 \<le> 2 ^ i" by simp
      then show ?thesis using power_increasing [of 30 i "2 :: int"] by fastforce
    qed
    then show ?thesis by blast
  qed
  finally show ?thesis .
qed

theorem reorderedPowerOf2_correct_witness:
  "(reorderedPowerOf2 46 \<longleftrightarrow> (\<exists>i. mset (dec_digits (2 ^ i)) = mset (dec_digits 46))) \<and> reorderedPowerOf2 46"
proof -
  have "reorderedPowerOf2 46" by code_simp
  then show ?thesis using reorderedPowerOf2_correct [of 46] by simp
qed

end
