(* ===== verification/MathEasy.thy ===== *)
theory MathEasy
  imports MathBasics MathPrimes MyAlgo
begin

section \<open>Number puzzles (leetcode/Math.cpp, class MathEasy)\<close>

text \<open>
  The functions of \<open>MathEasy\<close> on single numbers and strings: divisors, bits, primes, digits, column titles and
  trailing zeros. Those on arrays are in \<open>MathArrays\<close>. \<open>largestTriangleArea\<close> is floating-point and not modelled.
\<close>

subsection \<open>The model: divisors, bits and primes\<close>

function self_dividing_loop :: "int \<Rightarrow> int \<Rightarrow> bool" where
  "self_dividing_loop orig n =
     (if n > 0 then
        let digit = n smod 10
        in if digit = 0 then False
           else if orig smod digit \<noteq> 0 then False
           else self_dividing_loop orig (n sdiv 10)
      else True)"
  by pat_completeness auto
termination by (relation "measure (\<lambda>(orig, n). nat n)") (auto simp: div_less_self_int)

definition selfDividingNumbers :: "int \<Rightarrow> int \<Rightarrow> int list" where
  "selfDividingNumbers left right = filter (\<lambda>i. self_dividing_loop i i) [left..right]"

partial_function (option) perfect_loop :: "int \<Rightarrow> int \<Rightarrow> int \<Rightarrow> int option" where
  "perfect_loop num i tot =
     (if i32 (i * i) < num then
        perfect_loop num (i + 1) (if num smod i = 0 then i32 (tot + (i + num sdiv i)) else tot)
      else Some tot)"

definition checkPerfectNumber :: "int \<Rightarrow> bool option" where
  "checkPerfectNumber num =
     (if num \<le> 1 then Some False else map_option (\<lambda>tot. tot = num) (perfect_loop num 2 1))"

text \<open>\<open>N & 1\<close> is \<open>N mod 2\<close> and \<open>N >>= 1\<close> rounds down; the loop does not end for a negative \<open>N\<close>.\<close>

partial_function (option) binary_gap_loop :: "int \<Rightarrow> int \<Rightarrow> int \<Rightarrow> int option" where
  "binary_gap_loop N gap maxDist =
     (if N \<noteq> 0 then
        if N mod 2 = 1 then binary_gap_loop (N div 2) 0 (max maxDist (gap + 1))
        else binary_gap_loop (N div 2) (if gap \<ge> 0 then gap + 1 else gap) maxDist
      else Some maxDist)"

definition binaryGap :: "int \<Rightarrow> int option" where
  "binaryGap N = binary_gap_loop N (- 1) 0"

partial_function (option) divide_all :: "int \<Rightarrow> int \<Rightarrow> int option" where
  "divide_all p num = (if num smod p = 0 then divide_all p (num sdiv p) else Some num)"

definition isUgly :: "int \<Rightarrow> bool option" where
  "isUgly num =
     (if num < 1 then Some False
      else do { num \<leftarrow> divide_all 2 num; num \<leftarrow> divide_all 3 num; num \<leftarrow> divide_all 5 num; Some (num = 1) })"

partial_function (option) cross_out :: "int \<Rightarrow> int \<Rightarrow> bool list \<Rightarrow> bool list option" where
  "cross_out i j sieve =
     (if j < int (length sieve) then do { sieve \<leftarrow> ivec_upd sieve j False; cross_out i (i32 (j + i)) sieve }
      else Some sieve)"

partial_function (option) count_primes_loop :: "int \<Rightarrow> int \<Rightarrow> bool list \<Rightarrow> int option" where
  "count_primes_loop i cnt sieve =
     (if i < int (length sieve) then do {
        prime \<leftarrow> ivec_at sieve i;
        if \<not> prime then count_primes_loop (i + 1) cnt sieve
        else do { sieve \<leftarrow> cross_out i (i32 (i + i)) sieve; count_primes_loop (i + 1) (cnt + 1) sieve }
      } else Some cnt)"

definition countPrimes :: "int \<Rightarrow> int option" where
  "countPrimes n = (if n < 2 then Some 0 else count_primes_loop 2 0 (replicate (nat n) True))"

partial_function (option) trailing_loop :: "int \<Rightarrow> int \<Rightarrow> int \<Rightarrow> int option" where
  "trailing_loop n tot divisor =
     (let cnt = n sdiv divisor
      in if cnt = 0 then Some tot
         else if divisor > 2147483647 sdiv 5 then Some (i32 (tot + cnt))
         else trailing_loop n (i32 (tot + cnt)) (i32 (divisor * 5)))"

definition trailingZeroes :: "int \<Rightarrow> int option" where
  "trailingZeroes n = trailing_loop n 0 5"

definition isPowerOfThree :: "int \<Rightarrow> bool" where
  "isPowerOfThree n \<longleftrightarrow> n > 0 \<and> 1162261467 smod n = 0"

subsection \<open>The model: digits and strings\<close>

function nth_digit_group :: "int \<Rightarrow> nat \<Rightarrow> int \<Rightarrow> nat \<times> int" where
  "nth_digit_group n i digits =
     (if i < 9 then
        let digits_new = i32 (digits + (pow10 ! i - pow10 ! (i - 1)) * int i)
        in if n \<le> digits_new then (i, digits) else nth_digit_group n (Suc i) digits_new
      else (i, digits))"
  by pat_completeness auto
termination by (relation "measure (\<lambda>(n, i, digits). 9 - i)") auto

fun drop_last_digits :: "nat \<Rightarrow> int \<Rightarrow> int" where
  "drop_last_digits 0 num = num"
| "drop_last_digits (Suc c) num = drop_last_digits c (num sdiv 10)"

definition findNthDigit :: "int \<Rightarrow> int" where
  "findNthDigit n =
     (let (i, digits) = nth_digit_group n 1 0;
          cnt = n - digits;
          num = i32 (pow10 ! (i - 1) + cnt sdiv int i - 1)
      in if cnt smod int i = 0 then num smod 10
         else drop_last_digits (nat (int i - cnt smod int i)) (num + 1) smod 10)"

definition titleToNumber :: "string \<Rightarrow> int" where
  "titleToNumber s = foldl (\<lambda>init c. i32 (init * 26 + code c - 65 + 1)) 0 s"

function title_loop :: "int \<Rightarrow> string" where
  "title_loop n = (if n > 0 then chr ((n - 1) smod 26 + 65) # title_loop ((n - 1) sdiv 26) else [])"
  by pat_completeness auto
termination by (relation "measure nat") auto

definition convertToTitle :: "int \<Rightarrow> string" where
  "convertToTitle n = rev (title_loop n)"

text \<open>\<open>std::stol\<close> with a \<open>long\<close> of \<open>w\<close> bits: an exception outside its range or without digits.\<close>

definition stol :: "nat \<Rightarrow> string \<Rightarrow> int option" where
  "stol w s =
     (let t = dropWhile isspace s;
          (neg, ds) = (case t of [] \<Rightarrow> (False, []) | c # cs \<Rightarrow>
            if c = CHR ''-'' then (True, cs) else if c = CHR ''+'' then (False, cs) else (False, c # cs));
          v = (if neg then - digits_value 0 ds else digits_value 0 ds)
      in if ds = [] \<or> \<not> isdigit (hd ds) \<or> v < - (2 ^ (w - 1)) \<or> 2 ^ (w - 1) \<le> v then None else Some v)"

definition reverse_int :: "nat \<Rightarrow> int \<Rightarrow> int option" where
  "reverse_int w x =
     do { let s = to_string (i32 \<bar>x\<bar>);
       s \<leftarrow> reverse_string 0 (length s) s;
       v \<leftarrow> stol w s;
       let ans = v * (if x \<ge> 0 then 1 else - 1);
       Some (if ans > 2147483647 \<or> ans < - 2147483648 then 0 else ans) }"

definition add_decimals :: "int \<Rightarrow> char \<Rightarrow> char \<Rightarrow> char \<times> int" where
  "add_decimals carry c1 c2 = (let tot = code c1 + code c2 - 48 - 48 + carry in (chr (tot smod 10 + 48), tot sdiv 10))"

definition carry_decimal :: "int \<Rightarrow> char \<Rightarrow> char \<times> int" where
  "carry_decimal carry c1 = (let tot = code c1 - 48 + carry in (chr (tot smod 10 + 48), tot sdiv 10))"

definition addStrings :: "string \<Rightarrow> string \<Rightarrow> string" where
  "addStrings num1 num2 =
     (let (L, S) = (if length num1 < length num2 then (num2, num1) else (num1, num2));
          (low, carry) = transform2 add_decimals 0 (rev S) (rev L);
          high = drop (length S) (rev L);
          (high, carry) = (if carry \<noteq> 0 \<and> length L > length S then transform1 carry_decimal carry high else (high, carry))
      in if carry \<noteq> 0 then CHR ''1'' # rev (low @ high) else rev (low @ high))"

declare self_dividing_loop.simps [simp del] nth_digit_group.simps [simp del] title_loop.simps [simp del]

subsection \<open>Divisors and bits\<close>

lemma smod_eq_0_iff: "a smod b = 0 \<longleftrightarrow> b dvd (a :: int)"
  by (auto simp: signed_modulo_int_def dvd_eq_mod_eq_0 [symmetric] sgn_0_0)

lemma self_dividing_iff:
  "self_dividing_loop m n \<longleftrightarrow> (\<forall>d \<in> set (dec_digits n). d \<noteq> 0 \<and> d dvd m)"
proof (induction m n rule: self_dividing_loop.induct)
  case (1 orig n)
  show ?case
  proof (cases "0 < n")
    case True
    then show ?thesis
      using 1 by (subst self_dividing_loop.simps) (auto simp: base_digits_pos smod_eq_0_iff Let_def)
  qed (simp add: self_dividing_loop.simps)
qed

theorem selfDividingNumbers_correct:
  "selfDividingNumbers left right = filter (\<lambda>i. \<forall>d \<in> set (dec_digits i). d \<noteq> 0 \<and> d dvd i) [left..right]"
  by (simp add: selfDividingNumbers_def self_dividing_iff)

text \<open>The gaps of a number: the distances between neighbouring one bits.\<close>

definition gaps :: "int \<Rightarrow> nat set" where
  "gaps N = {j - i |i j. i < j \<and> bit N i \<and> bit N j \<and> (\<forall>k. i < k \<longrightarrow> k < j \<longrightarrow> \<not> bit N k)}"

definition lowest :: "int \<Rightarrow> nat" where
  "lowest N = (LEAST k. bit N k)"

lemma exists_bit: "0 < N \<Longrightarrow> \<exists>k. bit N k" for N :: int
  using bit_eq_iff [of N 0] by auto

lemma lowest_bit_int: "0 < N \<Longrightarrow> bit N (lowest N) \<and> (\<forall>k < lowest N. \<not> bit N k)"
  unfolding lowest_def using exists_bit by (metis (mono_tags, lifting) LeastI not_less_Least)

lemma bit_half: "bit (N :: int) (Suc k) \<longleftrightarrow> bit (N div 2) k"
  by (simp add: bit_Suc)

lemma lowest_half: "0 < N \<Longrightarrow> even N \<Longrightarrow> lowest N = Suc (lowest (N div 2))"
proof -
  assume N: "0 < N" "even N"
  then have h: "0 < N div 2" by auto
  show ?thesis unfolding lowest_def [of N]
  proof (rule Least_equality)
    show "bit N (Suc (lowest (N div 2)))" using lowest_bit_int [OF h] by (simp add: bit_half)
    fix k assume k: "bit N k"
    then obtain m where "k = Suc m" using N(2) by (cases k) (auto simp: bit_0)
    then show "Suc (lowest (N div 2)) \<le> k" using k lowest_bit_int [OF h] by (auto simp: bit_half not_less [symmetric])
  qed
qed

lemma gaps_half:
  assumes "0 \<le> N"
  shows "gaps N = gaps (N div 2) \<union> (if odd N \<and> 0 < N div 2 then {Suc (lowest (N div 2))} else {})"
proof (intro equalityI subsetI)
  fix d assume "d \<in> gaps N"
  then obtain i j where ij: "d = j - i" "i < j" "bit N i" "bit N j" "\<forall>k. i < k \<longrightarrow> k < j \<longrightarrow> \<not> bit N k"
    by (auto simp: gaps_def)
  obtain j' where j': "j = Suc j'" using ij(2) by (cases j) auto
  show "d \<in> gaps (N div 2) \<union> (if odd N \<and> 0 < N div 2 then {Suc (lowest (N div 2))} else {})"
  proof (cases i)
    case (Suc i')
    have "d = j' - i'" "i' < j'" "bit (N div 2) i'" "bit (N div 2) j'" using ij j' Suc by (auto simp: bit_half)
    moreover have "\<not> bit (N div 2) k" if "i' < k" "k < j'" for k
      using ij(5) [rule_format, of "Suc k"] that j' Suc by (simp add: bit_half)
    ultimately show ?thesis unfolding gaps_def by blast
  next
    case 0
    have b: "bit (N div 2) j'" using ij(4) j' by (simp add: bit_half)
    then have pos: "0 < N div 2" using assms by (cases "N div 2 = 0") (auto simp: le_less)
    have "lowest (N div 2) = j'"
      unfolding lowest_def
    proof (rule Least_equality)
      show "bit (N div 2) j'" by (rule b)
      fix k assume "bit (N div 2) k"
      then show "j' \<le> k" using ij(5) [rule_format, of "Suc k"] 0 j' by (auto simp: bit_half not_less [symmetric])
    qed
    then show ?thesis using ij 0 j' pos by (simp add: bit_0)
  qed
next
  fix d assume d: "d \<in> gaps (N div 2) \<union> (if odd N \<and> 0 < N div 2 then {Suc (lowest (N div 2))} else {})"
  show "d \<in> gaps N"
  proof (cases "d \<in> gaps (N div 2)")
    case True
    then obtain i j where ij: "d = j - i" "i < j" "bit (N div 2) i" "bit (N div 2) j"
      "\<forall>k. i < k \<longrightarrow> k < j \<longrightarrow> \<not> bit (N div 2) k" by (auto simp: gaps_def)
    have "\<not> bit N k" if "Suc i < k" "k < Suc j" for k
      using ij(5) [rule_format, of "k - 1"] that by (cases k) (auto simp: bit_half)
    then show ?thesis unfolding gaps_def using ij
      by (intro CollectI exI [of _ "Suc i"] exI [of _ "Suc j"]) (auto simp: bit_half)
  next
    case False
    then have dd: "odd N" "0 < N div 2" "d = Suc (lowest (N div 2))" using d by (auto split: if_splits)
    have "\<not> bit N k" if "0 < k" "k < Suc (lowest (N div 2))" for k
      using lowest_bit_int [OF dd(2)] that by (cases k) (auto simp: bit_half)
    then show ?thesis unfolding gaps_def using dd lowest_bit_int [OF dd(2)]
      by (intro CollectI exI [of _ 0] exI [of _ "Suc (lowest (N div 2))"]) (auto simp: bit_half bit_0)
  qed
qed

lemma finite_gaps: "0 \<le> N \<Longrightarrow> finite (gaps N)"
proof (induction "nat N" arbitrary: N rule: less_induct)
  case less
  show ?case
  proof (cases "N = 0")
    case True
    then show ?thesis by (simp add: gaps_def)
  next
    case False
    then have "finite (gaps (N div 2))" using less by (intro less.hyps) auto
    then show ?thesis using gaps_half [of N] less.prems by simp
  qed
qed

text \<open>With the last one bit \<open>gap + 1\<close> places back, the next one ends a gap of \<open>gap + 1 + lowest N\<close>.\<close>

lemma binary_gap_loop_eq:
  "0 \<le> N \<Longrightarrow> 0 \<le> gap \<Longrightarrow> 0 \<le> m \<Longrightarrow> binary_gap_loop N gap m =
    Some (Max (insert m (int ` gaps N \<union> (if N = 0 then {} else {gap + 1 + int (lowest N)}))))"
proof (induction "nat N" arbitrary: N gap m rule: less_induct)
  case less
  show ?case
  proof (cases "N = 0")
    case True
    then show ?thesis by (subst binary_gap_loop.simps) (simp add: gaps_def)
  next
    case False
    then have N: "0 < N" using less.prems by simp
    have half: "0 \<le> N div 2" "nat (N div 2) < nat N" using N by auto
    have fin: "finite (int ` gaps (N div 2))" using finite_gaps [OF half(1)] by simp
    show ?thesis
    proof (cases "even N")
      case True
      then have pos: "0 < N div 2" using N by auto
      have "binary_gap_loop N gap m = binary_gap_loop (N div 2) (gap + 1) m"
        using True N less.prems by (subst binary_gap_loop.simps) (simp add: even_iff_mod_2_eq_zero)
      also have "\<dots> = Some (Max (insert m (int ` gaps (N div 2) \<union> {gap + 1 + 1 + int (lowest (N div 2))})))"
        using less.hyps [OF half(2,1), of "gap + 1" m] less.prems pos by simp
      finally show ?thesis using gaps_half [of N] lowest_half [OF N True] N True by (simp add: ac_simps)
    next
      case False
      have low: "lowest N = 0" using False unfolding lowest_def by (intro Least_eq_0) (simp add: bit_0)
      have "binary_gap_loop N gap m = binary_gap_loop (N div 2) 0 (max m (gap + 1))"
        using False N by (subst binary_gap_loop.simps) (simp add: odd_iff_mod_2_eq_one)
      also have "\<dots> = Some (Max (insert (max m (gap + 1)) (int ` gaps (N div 2) \<union>
          (if N div 2 = 0 then {} else {0 + 1 + int (lowest (N div 2))}))))"
        using less.hyps [OF half(2,1), of 0 "max m (gap + 1)"] less.prems by simp
      finally have "binary_gap_loop N gap m = Some (Max (insert (max m (gap + 1)) (int ` gaps N)))"
        using gaps_half [of N] False N half(1) by (auto simp: le_less)
      moreover have "Max (insert (max m (gap + 1)) (int ` gaps N)) = Max (insert m (insert (gap + 1) (int ` gaps N)))"
        using finite_gaps [of N] N by (cases "gaps N = {}") (auto simp: max.assoc)
      ultimately show ?thesis using N low by (simp add: insert_commute)
    qed
  qed
qed

lemma binary_gap_start:
  "0 \<le> N \<Longrightarrow> binary_gap_loop N (- 1) 0 = Some (Max (insert 0 (int ` gaps N)))"
proof (induction "nat N" arbitrary: N rule: less_induct)
  case less
  show ?case
  proof (cases "N = 0")
    case True
    then show ?thesis by (subst binary_gap_loop.simps) (simp add: gaps_def)
  next
    case False
    then have N: "0 < N" "0 \<le> N div 2" "nat (N div 2) < nat N" using less.prems by auto
    show ?thesis
    proof (cases "even N")
      case True
      then show ?thesis using N less.hyps [OF N(3,2)] gaps_half [of N]
        by (subst binary_gap_loop.simps) (simp add: even_iff_mod_2_eq_zero)
    next
      case False
      then have "binary_gap_loop N (- 1) 0 = binary_gap_loop (N div 2) 0 0"
        using N by (subst binary_gap_loop.simps) (simp add: odd_iff_mod_2_eq_one)
      then show ?thesis
        using binary_gap_loop_eq [OF N(2), of 0 0] gaps_half [of N] N False by (auto simp: le_less)
    qed
  qed
qed

text \<open>\<open>binaryGap\<close> is the greatest distance between neighbouring one bits, 0 with fewer than two of them.\<close>

theorem binaryGap_correct:
  assumes "0 \<le> N"
  shows "binaryGap N = Some (Max (insert 0 {int (j - i) |i j. i < j \<and> bit N i \<and> bit N j \<and> (\<forall>k. i < k \<longrightarrow> k < j \<longrightarrow> \<not> bit N k)}))"
proof -
  have "int ` gaps N = {int (j - i) |i j. i < j \<and> bit N i \<and> bit N j \<and> (\<forall>k. i < k \<longrightarrow> k < j \<longrightarrow> \<not> bit N k)}"
    unfolding gaps_def by blast
  then show ?thesis using binary_gap_start [OF assms] by (simp add: binaryGap_def)
qed

text \<open>Powers of three and ugly numbers.\<close>

lemma dvd_power_prime:
  assumes "prime_num p" "d dvd p ^ k"
  shows "\<exists>j \<le> k. d = p ^ j"
  using assms(2)
proof (induction k arbitrary: d)
  case 0
  then show ?case by simp
next
  case (Suc k)
  show ?case
  proof (cases "p dvd d")
    case True
    then obtain e where e: "d = p * e" by auto
    then have "e dvd p ^ k" using Suc.prems prime_num_pos [OF assms(1)] by simp
    then obtain j where "j \<le> k" "e = p ^ j" using Suc.IH by blast
    then show ?thesis using e by (intro exI [of _ "Suc j"]) simp
  next
    case False
    then have "coprime d p" using prime_coprime [OF assms(1)] by (simp add: coprime_commute)
    then have "d dvd p ^ k" using Suc.prems by (simp add: coprime_dvd_mult_right_iff)
    then show ?thesis using Suc.IH by (metis le_Suc_eq)
  qed
qed

lemma prime_num_check: "1 < p \<Longrightarrow> list_all (\<lambda>d. \<not> d dvd p) [2..<p] \<Longrightarrow> prime_num p"
proof -
  assume p: "1 < p" "list_all (\<lambda>d. \<not> d dvd p) [2..<p]"
  have "d = 1 \<or> d = p" if "d dvd p" for d
  proof -
    have "d \<noteq> 0" using that p(1) by (intro notI) simp
    moreover have "d \<le> p" using that p(1) by (intro dvd_imp_le) auto
    moreover have "\<not> (2 \<le> d \<and> d < p)" using p(2) that by (auto simp: list_all_iff)
    ultimately show ?thesis by linarith
  qed
  then show ?thesis using p(1) by (simp add: prime_num_def)
qed

lemma small_primes: "prime_num 2" "prime_num 3" "prime_num 5"
  by (intro prime_num_check; code_simp)+

theorem isPowerOfThree_iff:
  assumes "n < 2147483648"
  shows "isPowerOfThree n \<longleftrightarrow> (\<exists>k. n = 3 ^ k)"
proof
  assume "isPowerOfThree n"
  then have n: "0 < n" "n dvd 3 ^ 19" by (simp_all add: isPowerOfThree_def smod_eq_0_iff)
  have "int (nat n) dvd int (3 ^ 19)" using n by simp
  then have "nat n dvd 3 ^ 19" unfolding int_dvd_int_iff .
  then obtain j where "nat n = 3 ^ j" using dvd_power_prime [OF small_primes(2)] by blast
  then have "n = 3 ^ j" using n(1) by (metis int_nat_eq of_nat_numeral of_nat_power order.strict_implies_order)
  then show "\<exists>k. n = 3 ^ k" ..
next
  assume "\<exists>k. n = 3 ^ k"
  then obtain k where k: "n = 3 ^ k" ..
  have "k \<le> 19"
  proof (rule ccontr)
    assume "\<not> k \<le> 19"
    then have "(3 :: int) ^ 20 \<le> 3 ^ k" by (intro power_increasing) auto
    then show False using assms k by simp
  qed
  then have "(3 :: int) ^ k dvd 3 ^ 19" by (rule le_imp_power_dvd)
  then show "isPowerOfThree n" by (simp add: isPowerOfThree_def k smod_eq_0_iff)
qed

lemma divide_all_correct:
  "0 < n \<Longrightarrow> prime_num p \<Longrightarrow> \<exists>m. divide_all (int p) (int n) = Some (int m) \<and> 0 < m \<and> \<not> p dvd m \<and>
    (\<forall>q. prime_num q \<longrightarrow> q \<noteq> p \<longrightarrow> (q dvd m \<longleftrightarrow> q dvd n)) \<and> m dvd n"
proof (induction n rule: less_induct)
  case (less n)
  have p: "1 < p" using less.prems by (auto dest: prime_numD)
  show ?case
  proof (cases "p dvd n")
    case False
    then have "int n smod int p \<noteq> 0" by (simp add: smod_eq_0_iff)
    then have "divide_all (int p) (int n) = Some (int n)" by (subst divide_all.simps) simp
    then show ?thesis using False less.prems by (intro exI [of _ n]) simp
  next
    case True
    then obtain n' where n': "n = p * n'" by auto
    have pos: "0 < n'" "n' < n" using n' less.prems(1) p by auto
    have "int n smod int p = 0" using True by (simp add: smod_eq_0_iff)
    moreover have "int n sdiv int p = int n'" using n' p by simp
    ultimately have step: "divide_all (int p) (int n) = divide_all (int p) (int n')"
      by (subst divide_all.simps) simp
    obtain m where m: "divide_all (int p) (int n') = Some (int m)" "0 < m" "\<not> p dvd m"
      "\<forall>q. prime_num q \<longrightarrow> q \<noteq> p \<longrightarrow> (q dvd m \<longleftrightarrow> q dvd n')" "m dvd n'"
      using less.IH [OF pos(2,1) less.prems(2)] by blast
    have "q dvd n' \<longleftrightarrow> q dvd n" if "prime_num q" "q \<noteq> p" for q
      using that prime_dvd_mult [OF that(1), of p n'] prime_dvd_prime [OF that(1) less.prems(2)] n' by auto
    then show ?thesis using m step n' by auto
  qed
qed

theorem isUgly_correct: "isUgly (int n) = Some (0 < n \<and> (\<forall>p. prime_num p \<longrightarrow> p dvd n \<longrightarrow> p \<in> {2, 3, 5}))"
proof (cases "n = 0")
  case False
  obtain a where a: "divide_all 2 (int n) = Some (int a)" "0 < a" "\<not> 2 dvd a"
    "\<forall>q. prime_num q \<longrightarrow> q \<noteq> 2 \<longrightarrow> (q dvd a \<longleftrightarrow> q dvd n)" "a dvd n"
    using divide_all_correct [OF _ small_primes(1), of n] False by auto
  obtain b where b: "divide_all 3 (int a) = Some (int b)" "0 < b" "\<not> 3 dvd b"
    "\<forall>q. prime_num q \<longrightarrow> q \<noteq> 3 \<longrightarrow> (q dvd b \<longleftrightarrow> q dvd a)" "b dvd a"
    using divide_all_correct [OF a(2) small_primes(2)] by auto
  obtain c where c: "divide_all 5 (int b) = Some (int c)" "0 < c" "\<not> 5 dvd c"
    "\<forall>q. prime_num q \<longrightarrow> q \<noteq> 5 \<longrightarrow> (q dvd c \<longleftrightarrow> q dvd b)" "c dvd b"
    using divide_all_correct [OF b(2) small_primes(3)] by auto
  have res: "isUgly (int n) = Some (c = 1)" using False a(1) b(1) c(1) by (simp add: isUgly_def)
  have div: "prime_num q \<and> q dvd c \<longleftrightarrow> prime_num q \<and> q dvd n \<and> q \<notin> {2, 3, 5}" for q
    using a(3,4) b(3-5) c(3-5) small_primes by (cases "q \<in> {2, 3, 5}") (auto dest: dvd_trans)
  have "c = 1 \<longleftrightarrow> (\<forall>p. prime_num p \<longrightarrow> \<not> p dvd c)"
  proof
    assume "\<forall>p. prime_num p \<longrightarrow> \<not> p dvd c"
    then have "\<not> 1 < c" by (meson exists_prime_divisor)
    then show "c = 1" using c(2) by simp
  qed (auto dest: prime_numD)
  then show ?thesis unfolding res using div False by auto
qed (simp add: isUgly_def)

subsection \<open>Counting primes\<close>

text \<open>The table agrees with the one of \<open>make_primes\<close> from 2 on, so the loops run in step.\<close>

definition same_table :: "bool list \<Rightarrow> int list \<Rightarrow> bool" where
  "same_table sieve v \<longleftrightarrow> length sieve = length v \<and> (\<forall>k < length v. 2 \<le> k \<longrightarrow> (sieve ! k \<longleftrightarrow> v ! k \<noteq> 0))"

lemma cross_out_mark:
  assumes "length v \<le> 1073741824" "same_table sieve v" "0 < i" "i < length v" "sieve_mark i j v = Some v'"
    and "j < 2147483648"
  shows "\<exists>sieve'. cross_out (int i) (int j) sieve = Some sieve' \<and> same_table sieve' v'"
  using assms
proof (induction "length v - j" arbitrary: j v sieve rule: less_induct)
  case less
  have len: "length sieve = length v" using less.prems(2) by (simp add: same_table_def)
  show ?case
  proof (cases "j < length v")
    case False
    then have "v' = v" using less.prems(5) by (subst (asm) sieve_mark.simps) simp
    then show ?thesis using False less.prems(2) len by (subst cross_out.simps) simp
  next
    case True
    then have v': "sieve_mark i (j + i) (v[j := 0]) = Some v'"
      using less.prems(5) by (subst (asm) sieve_mark.simps) simp
    have "same_table (sieve[j := False]) (v[j := 0])"
      using less.prems(2) True by (auto simp: same_table_def nth_list_update)
    moreover have "length (v[j := 0]) - (j + i) < length v - j" using True less.prems(3) by simp
    ultimately obtain sieve' where s: "cross_out (int i) (int (j + i)) (sieve[j := False]) = Some sieve'"
      "same_table sieve' v'"
      using less.hyps [of "v[j := 0]" "j + i" "sieve[j := False]"] less.prems v' True by auto
    have "i32 (int j + int i) = int (j + i)" using True less.prems by simp
    then have "cross_out (int i) (int j) sieve = cross_out (int i) (int (j + i)) (sieve[j := False])"
      using True len by (subst cross_out.simps) simp
    then show ?thesis using s by simp
  qed
qed

lemma count_primes_loop_sieve:
  assumes "length v \<le> 1073741824" "same_table sieve v" "2 \<le> i" "sieve_loop i v ps = Some qs"
  shows "count_primes_loop (int i) (int (length ps)) sieve = Some (int (length qs))"
  using assms
proof (induction "length v - i" arbitrary: i v sieve ps rule: less_induct)
  case less
  have len: "length sieve = length v" using less.prems(2) by (simp add: same_table_def)
  show ?case
  proof (cases "i < length v")
    case False
    then have "qs = ps" using less.prems(4) by (subst (asm) sieve_loop.simps) simp
    then show ?thesis using False len by (subst count_primes_loop.simps) simp
  next
    case True
    have at: "sieve ! i \<longleftrightarrow> v ! i \<noteq> 0" using less.prems True by (simp add: same_table_def)
    show ?thesis
    proof (cases "v ! i = 0")
      case zero: True
      then have "sieve_loop (i + 1) v ps = Some qs"
        using less.prems(4) True by (subst (asm) sieve_loop.simps) simp
      then have "count_primes_loop (int (i + 1)) (int (length ps)) sieve = Some (int (length qs))"
        using less.hyps [of v "i + 1" sieve ps] less.prems True by simp
      then show ?thesis using True zero at len by (subst count_primes_loop.simps) (simp add: add.commute)
    next
      case False
      obtain v' where v': "sieve_mark i (i + i) v = Some v'" "length v' = length v"
        using sieve_mark_correct [of i "i + i" v] less.prems(3) by auto
      have loop: "sieve_loop (i + 1) v' (ps @ [int i]) = Some qs"
        using less.prems(4) True False v'(1) by (subst (asm) sieve_loop.simps) simp
      obtain sieve' where s: "cross_out (int i) (int (i + i)) sieve = Some sieve'" "same_table sieve' v'"
        using cross_out_mark [OF less.prems(1,2) _ True v'(1)] less.prems(1,3) True by auto
      have "count_primes_loop (int (i + 1)) (int (length (ps @ [int i]))) sieve' = Some (int (length qs))"
        using less.hyps [of v' "i + 1" sieve' "ps @ [int i]"] less.prems True v'(2) s(2) loop by simp
      moreover have "i32 (int i + int i) = int (i + i)" using True less.prems(1) by simp
      ultimately show ?thesis using True False at len s(1)
        by (subst count_primes_loop.simps) (simp add: add.commute)
    qed
  qed
qed

text \<open>Up to \<open>2^30\<close> the count is the number of primes below \<open>n\<close>, and no index is out of range.\<close>

theorem countPrimes_correct:
  assumes "0 \<le> n" "n \<le> 1073741824"
  shows "countPrimes n = Some (int (card {p. prime_num p \<and> int p < n}))"
proof (cases "n < 2")
  case True
  have "{p. prime_num p \<and> int p < n} = {}" using True by (auto dest: prime_numD)
  then have "card {p. prime_num p \<and> int p < n} = 0" by (simp only: card.empty)
  then show ?thesis using True by (simp add: countPrimes_def)
next
  case False
  let ?v = "(replicate (nat n) 1)[1 := 0, 0 := 0 :: int]"
  have table: "same_table (replicate (nat n) True) ?v" by (auto simp: same_table_def nth_list_update)
  have "sieved 2 ?v" using False by (auto simp: sieved_def nth_list_update dest!: prime_numD(1))
  from sieve_loop_correct [OF order_refl this, of "[]"]
  have loop: "sieve_loop 2 ?v [] = Some (map int (filter prime_num [2..<nat n]))" by simp
  have "count_primes_loop (int 2) (int (length ([] :: int list))) (replicate (nat n) True) =
      Some (int (length (map int (filter prime_num [2..<nat n]))))"
    using assms by (intro count_primes_loop_sieve [OF _ table _ loop]) auto
  moreover have "{p. prime_num p \<and> int p < n} = set (filter prime_num [2..<nat n])"
    by (auto dest: prime_numD)
  moreover have "card (set (filter prime_num [2..<nat n])) = length (filter prime_num [2..<nat n])"
    by (intro distinct_card distinct_filter distinct_upt)
  ultimately show ?thesis using False by (simp add: countPrimes_def del: set_filter)
qed

theorem countPrimes_correct_witness: "countPrimes 10 = Some (int (card {p. prime_num p \<and> int p < 10}))"
  by (rule countPrimes_correct) simp_all

subsection \<open>Trailing zeros of a factorial\<close>

text \<open>The exponent of a prime in a number and, by Legendre's formula, in a factorial.\<close>

function factor_count :: "nat \<Rightarrow> nat \<Rightarrow> nat" where
  "factor_count p n = (if 1 < p \<and> 0 < n \<and> p dvd n then Suc (factor_count p (n div p)) else 0)"
  by pat_completeness auto
termination by (relation "measure snd") auto

function legendre :: "nat \<Rightarrow> nat \<Rightarrow> nat" where
  "legendre p n = (if 1 < p \<and> 0 < n then n div p + legendre p (n div p) else 0)"
  by pat_completeness auto
termination by (relation "measure snd") auto

declare factor_count.simps [simp del] legendre.simps [simp del]

lemma factor_count_split:
  "1 < p \<Longrightarrow> 0 < n \<Longrightarrow> \<exists>m. n = p ^ factor_count p n * m \<and> \<not> p dvd m"
proof (induction p n rule: factor_count.induct)
  case (1 p n)
  show ?case
  proof (cases "p dvd n")
    case True
    then obtain k where k: "n = p * k" by auto
    then have "n div p = k" "0 < k" using 1 by auto
    then obtain m where "k = p ^ factor_count p k * m" "\<not> p dvd m" using 1 True by auto
    then have "n = p ^ factor_count p n * m"
      using k True "1.prems" \<open>n div p = k\<close> by (subst factor_count.simps) (simp add: mult.assoc)
    then show ?thesis using \<open>\<not> p dvd m\<close> by blast
  qed (simp add: factor_count.simps)
qed

lemma legendre_Suc: "1 < p \<Longrightarrow> legendre p (Suc n) = legendre p n + factor_count p (Suc n)"
proof (induction n rule: less_induct)
  case (less n)
  have unfold: "legendre p (Suc n) = Suc n div p + legendre p (Suc n div p)"
    using less.prems by (simp add: legendre.simps [of p "Suc n"])
  show ?case
  proof (cases "p dvd Suc n")
    case False
    then have "Suc n div p = n div p" by (simp add: div_Suc dvd_eq_mod_eq_0)
    then show ?thesis using unfold False less.prems
      by (cases "n = 0") (simp_all add: legendre.simps [of p n] factor_count.simps legendre.simps [of p 0])
  next
    case True
    then have d: "Suc n div p = Suc (n div p)" by (simp add: div_Suc dvd_eq_mod_eq_0)
    have "n \<noteq> 0" using True less.prems by (intro notI) simp
    then have "n div p < n" using less.prems by simp
    then have "legendre p (Suc (n div p)) = legendre p (n div p) + factor_count p (Suc (n div p))"
      using less.IH less.prems by blast
    moreover have "factor_count p (Suc n) = Suc (factor_count p (Suc (n div p)))"
      using True less.prems by (subst factor_count.simps) (simp add: d)
    ultimately show ?thesis using unfold \<open>n \<noteq> 0\<close> less.prems
      by (simp add: d legendre.simps [of p n])
  qed
qed

lemma legendre_fact: "prime_num p \<Longrightarrow> \<exists>m. fact n = p ^ legendre p n * m \<and> \<not> p dvd m"
proof (induction n)
  case 0
  then show ?case by (auto simp: legendre.simps dest: prime_numD)
next
  case (Suc n)
  then obtain m where m: "fact n = p ^ legendre p n * m" "\<not> p dvd m" by blast
  have p: "1 < p" using Suc.prems by (rule prime_numD)
  obtain k where k: "Suc n = p ^ factor_count p (Suc n) * k" "\<not> p dvd k" using factor_count_split [OF p, of "Suc n"] by auto
  have "fact (Suc n) = Suc n * fact n" by simp
  also have "\<dots> = (p ^ factor_count p (Suc n) * k) * (p ^ legendre p n * m)" using k(1) m(1) by metis
  also have "\<dots> = p ^ legendre p (Suc n) * (k * m)"
    by (simp add: legendre_Suc [OF p] power_add mult_ac)
  finally show ?case using m(2) k(2) prime_dvd_mult [OF Suc.prems] by blast
qed

lemma power_dvd_fact_iff: "prime_num p \<Longrightarrow> p ^ k dvd fact n \<longleftrightarrow> k \<le> legendre p n"
proof -
  assume p: "prime_num p"
  obtain m where m: "fact n = p ^ legendre p n * m" "\<not> p dvd m" using legendre_fact [OF p] by blast
  show ?thesis
  proof
    assume "p ^ k dvd fact n"
    moreover have "coprime (p ^ k) m" using prime_coprime [OF p m(2)] by simp
    ultimately have "p ^ k dvd p ^ legendre p n" unfolding m(1) by (simp add: coprime_dvd_mult_left_iff)
    then show "k \<le> legendre p n" using prime_numD(1) [OF p] by (simp add: power_dvd_imp_le)
  next
    assume "k \<le> legendre p n"
    then show "p ^ k dvd fact n" unfolding m(1) by (simp add: le_imp_power_dvd)
  qed
qed

lemma legendre_mono: "1 < q \<Longrightarrow> q \<le> p \<Longrightarrow> m \<le> n \<Longrightarrow> legendre p m \<le> legendre q n"
proof (induction n arbitrary: m rule: less_induct)
  case (less n)
  show ?case
  proof (cases "m = 0")
    case False
    have "m div p \<le> n div q" using less.prems by (meson div_le_mono div_le_mono2 le_trans order.strict_trans zero_less_one)
    moreover have "legendre p (m div p) \<le> legendre q (n div q)"
      using less.prems False calculation by (intro less.IH) auto
    ultimately show ?thesis using less.prems False by (simp add: legendre.simps [of p m] legendre.simps [of q n])
  qed (simp add: legendre.simps)
qed

lemma ten_power_fact: "10 ^ k dvd (fact n :: nat) \<longleftrightarrow> k \<le> legendre 5 n"
proof -
  have "coprime ((2 :: nat) ^ k) (5 ^ k)" by simp
  then have "(2 :: nat) ^ k * 5 ^ k dvd fact n \<longleftrightarrow> 2 ^ k dvd (fact n :: nat) \<and> 5 ^ k dvd (fact n :: nat)"
    using divides_mult [of "2 ^ k" "fact n" "5 ^ k"] dvd_mult_left [of "2 ^ k" "5 ^ k" "fact n :: nat"]
      dvd_mult_right [of "2 ^ k" "5 ^ k" "fact n :: nat"] by blast
  also have "(2 :: nat) ^ k * 5 ^ k = 10 ^ k" by (simp add: power_mult_distrib [symmetric])
  finally show ?thesis
    using power_dvd_fact_iff [OF small_primes(1), of k n] power_dvd_fact_iff [OF small_primes(3), of k n]
      legendre_mono [of 2 5 n n] by auto
qed

lemma trailing_loop_legendre:
  assumes "n < 2147483648" "d = 5 ^ Suc j" "j \<le> 12" "0 \<le> tot" "tot + int (legendre 5 (n div 5 ^ j)) < 2147483648"
  shows "trailing_loop (int n) tot (int d) = Some (tot + int (legendre 5 (n div 5 ^ j)))"
  using assms(2-)
proof (induction "12 - j" arbitrary: j d tot rule: less_induct)
  case less
  let ?c = "n div 5 ^ Suc j"
  have q: "int n sdiv int d = int ?c" unfolding less.prems(1) by (simp add: zdiv_int)
  have leg: "legendre 5 (n div 5 ^ j) = (if ?c = 0 then 0 else ?c + legendre 5 ?c)"
  proof -
    have "n div 5 ^ j div 5 = ?c" by (simp add: div_mult2_eq [symmetric] mult.commute)
    moreover have "legendre 5 0 = 0" by (simp add: legendre.simps)
    ultimately show ?thesis using legendre.simps [of 5 "n div 5 ^ j"] by auto
  qed
  show ?case
  proof (cases "?c = 0")
    case True
    then show ?thesis using q leg by (subst trailing_loop.simps) (simp add: Let_def)
  next
    case False
    have w: "i32 (tot + int ?c) = tot + int ?c" using less.prems(3,4) leg False by (intro i32_id) auto
    show ?thesis
    proof (cases "j = 12")
      case True
      have "?c < 5" using assms(1) unfolding True by (simp add: div_less_iff_less_mult)
      then have "?c div 5 = 0" by simp
      then have "legendre 5 ?c = 0" by (subst legendre.simps) (simp add: legendre.simps [of 5 0] del: power_Suc)
      then have "legendre 5 (n div 5 ^ j) = ?c" using leg False by simp
      moreover have "int d > 2147483647 sdiv 5" unfolding less.prems(1) True by simp
      ultimately show ?thesis using q w False by (subst trailing_loop.simps) (simp add: Let_def)
    next
      case j: False
      then have "Suc j \<le> 12" using less.prems(2) by simp
      then have "(5 :: nat) ^ Suc j \<le> 5 ^ 12" by (rule power_increasing) simp
      then have d: "d \<le> 244140625" using less.prems(1) by simp
      have "\<not> int d > 2147483647 sdiv 5" using d by simp
      moreover have "i32 (int d * 5) = int (d * 5)" using d by simp
      ultimately have "trailing_loop (int n) tot (int d) = trailing_loop (int n) (tot + int ?c) (int (d * 5))"
        using q w False by (subst trailing_loop.simps) (simp add: Let_def)
      also have "\<dots> = Some (tot + int ?c + int (legendre 5 ?c))"
        using less.prems leg False j by (intro less.hyps) auto
      finally show ?thesis using leg False by simp
    qed
  qed
qed

text \<open>\<open>trailingZeroes\<close> is the number of zeros that \<open>n!\<close> ends with.\<close>

theorem trailingZeroes_correct:
  assumes "n < 2147483648"
  shows "\<exists>z. trailingZeroes (int n) = Some (int z) \<and> 10 ^ z dvd (fact n :: nat) \<and> \<not> 10 ^ Suc z dvd (fact n :: nat)"
proof (intro exI conjI)
  have half: "legendre 5 m \<le> m" for m
  proof (induction m rule: less_induct)
    case (less m)
    then show ?case
    proof (cases "m = 0")
      case False
      then have "legendre 5 (m div 5) \<le> m div 5" using less by simp
      then show ?thesis using False by (simp add: legendre.simps [of 5 m])
    qed (simp add: legendre.simps)
  qed
  have "int (legendre 5 n) < 2147483648" using half [of n] assms by simp
  then show "trailingZeroes (int n) = Some (int (legendre 5 n))"
    using trailing_loop_legendre [OF assms, of 5 0 0] by (simp add: trailingZeroes_def)
  show "10 ^ legendre 5 n dvd (fact n :: nat)" "\<not> 10 ^ Suc (legendre 5 n) dvd (fact n :: nat)"
    unfolding ten_power_fact by simp_all
qed

theorem trailingZeroes_correct_witness:
  "\<exists>z. trailingZeroes (int 1808548329) = Some (int z) \<and> 10 ^ z dvd (fact 1808548329 :: nat) \<and>
    \<not> 10 ^ Suc z dvd (fact 1808548329 :: nat)"
  by (rule trailingZeroes_correct) simp

subsection \<open>Column titles\<close>

text \<open>The value of a title, and its digits 1 to 26, last first.\<close>

definition title_value :: "string \<Rightarrow> int" where
  "title_value s = foldl (\<lambda>v c. v * 26 + (code c - 64)) 0 s"

lemma title_value_mono: "\<forall>c \<in> set s. isupper c \<Longrightarrow> 0 \<le> v \<Longrightarrow> v \<le> foldl (\<lambda>v c. v * 26 + (code c - 64)) v s"
proof (induction s arbitrary: v)
  case (Cons c s)
  have "v \<le> v * 26 + (code c - 64)" "0 \<le> v * 26 + (code c - 64)" using Cons.prems by (auto simp: isupper_def)
  then show ?case using Cons.IH [of "v * 26 + (code c - 64)"] Cons.prems by simp
qed simp

lemma titleToNumber_value:
  assumes "\<forall>c \<in> set s. isupper c" "title_value s < 2147483648"
  shows "titleToNumber s = title_value s"
proof -
  have "foldl (\<lambda>init c. i32 (init * 26 + code c - 65 + 1)) v s = foldl (\<lambda>v c. v * 26 + (code c - 64)) v s"
    if "0 \<le> v" "foldl (\<lambda>v c. v * 26 + (code c - 64)) v s < 2147483648" "\<forall>c \<in> set s. isupper c" for v
    using that
  proof (induction s arbitrary: v)
    case (Cons c s)
    let ?v = "v * 26 + (code c - 64)"
    have v: "0 \<le> ?v" using Cons.prems by (auto simp: isupper_def)
    have "?v \<le> foldl (\<lambda>v c. v * 26 + (code c - 64)) ?v s" using v Cons.prems(3) by (intro title_value_mono) auto
    then have "?v < 2147483648" using Cons.prems(2) by simp
    then have "i32 (v * 26 + code c - 65 + 1) = ?v" using v by (subst i32_id) auto
    then show ?case using Cons v by simp
  qed simp
  then show ?thesis using assms by (simp add: titleToNumber_def title_value_def)
qed

lemma isupper_chr: "0 \<le> d \<Longrightarrow> d < 26 \<Longrightarrow> isupper (chr (d + 65)) \<and> code (chr (d + 65)) = d + 65"
  by (simp add: isupper_def)

lemma title_value_snoc: "title_value (s @ [c]) = title_value s * 26 + (code c - 64)"
  by (simp add: title_value_def)

lemma convertToTitle_value:
  "0 \<le> n \<Longrightarrow> (\<forall>c \<in> set (title_loop n). isupper c) \<and> title_value (rev (title_loop n)) = n"
proof (induction n rule: title_loop.induct)
  case (1 n)
  show ?case
  proof (cases "n > 0")
    case True
    let ?d = "(n - 1) mod 26"
    have loop: "title_loop n = chr (?d + 65) # title_loop ((n - 1) div 26)"
      using True by (subst title_loop.simps) simp
    have IH: "\<forall>c \<in> set (title_loop ((n - 1) div 26)). isupper c" "title_value (rev (title_loop ((n - 1) div 26))) = (n - 1) div 26"
      using 1 True by (simp_all add: div_nonneg_int)
    have d: "isupper (chr (?d + 65))" "code (chr (?d + 65)) = ?d + 65" using isupper_chr [of ?d] by simp_all
    show ?thesis unfolding loop using IH d by (simp add: title_value_snoc)
  qed (use 1 in \<open>simp add: title_loop.simps title_value_def\<close>)
qed

text \<open>Different titles have different values, so a title is determined by its number.\<close>

lemma title_loop_value:
  "\<forall>c \<in> set s. isupper c \<Longrightarrow> title_loop (title_value (rev s)) = s"
proof (induction s)
  case Nil
  then show ?case by (simp add: title_value_def title_loop.simps)
next
  case (Cons c s)
  let ?v = "title_value (rev s)"
  have v: "0 \<le> ?v" using title_value_mono [of "rev s" 0] Cons.prems by (simp add: title_value_def)
  have c: "65 \<le> code c" "code c \<le> 90" using Cons.prems by (auto simp: isupper_def)
  have "(?v * 26 + (code c - 65)) div 26 = ?v" "(?v * 26 + (code c - 65)) mod 26 = code c - 65" using c by auto
  then have "title_loop (?v * 26 + (code c - 64)) = chr (code c) # title_loop ?v"
    using v c by (subst title_loop.simps) (simp add: algebra_simps)
  then show ?case using Cons by (simp add: title_value_snoc)
qed

text \<open>The two conversions are inverse to each other.\<close>

theorem title_roundtrip:
  "0 \<le> n \<Longrightarrow> n < 2147483648 \<Longrightarrow> titleToNumber (convertToTitle n) = n"
  using convertToTitle_value [of n] by (simp add: titleToNumber_value convertToTitle_def)

theorem title_roundtrip_witness: "titleToNumber (convertToTitle 701) = 701 \<and> convertToTitle 701 = ''ZY''"
proof -
  have "convertToTitle 701 = ''ZY''" by code_simp
  then show ?thesis using title_roundtrip [of 701] by simp
qed

theorem convertToTitle_titleToNumber:
  assumes "\<forall>c \<in> set s. isupper c" "title_value s < 2147483648"
  shows "convertToTitle (titleToNumber s) = s"
  using title_loop_value [of "rev s"] assms by (simp add: titleToNumber_value [OF assms] convertToTitle_def)

subsection \<open>Sums and reversals of decimal strings\<close>

interpretation decimals: digit_adder 10 digit_value carry_decimal add_decimals
proof (unfold_locales, goal_cases)
  case (2 a c)
  have c: "code a - 48 = digit_value a" by (simp add: digit_value_def)
  have m: "0 \<le> (digit_value a + c) mod 10" "(digit_value a + c) mod 10 < 10" by simp_all
  have "(digit_value a + c) div 10 < 2" using 2 by (intro div_less_int) auto
  then show ?case using 2 m by (simp add: carry_decimal_def Let_def c chr_digit div_nonneg_int)
next
  case (3 a b c)
  have c: "code a + code b - 48 - 48 + c = digit_value a + digit_value b + c" by (simp add: digit_value_def)
  have m: "0 \<le> (digit_value a + digit_value b + c) mod 10" "(digit_value a + digit_value b + c) mod 10 < 10" by simp_all
  have "(digit_value a + digit_value b + c) div 10 < 2" using 3 by (intro div_less_int) auto
  then show ?case using 3 m unfolding add_decimals_def Let_def c by (simp add: chr_digit div_nonneg_int)
qed simp

text \<open>\<open>addStrings\<close> prints the sum of the two numerals.\<close>

theorem addStrings_correct:
  assumes "numeral_ok 10 a" "numeral_ok 10 b"
  shows "numeral_ok 10 (addStrings a b) \<and> numeral_value 10 (addStrings a b) = numeral_value 10 a + numeral_value 10 b"
proof -
  define A B where "A = (if length a < length b then b else a)" and "B = (if length a < length b then a else b)"
  have ok: "numeral_ok 10 A" "numeral_ok 10 B" "length (rev B) \<le> length (rev A)"
    using assms by (auto simp: A_def B_def)
  obtain low c where low: "transform2 add_decimals 0 (rev B) (rev A) = (low, c)" by force
  obtain high d where high: "transform1 carry_decimal c (drop (length (rev B)) (rev A)) = (high, d)" by force
  note sum = decimals.add_value [OF ok(2,1,3) low high]
  have "transform1 carry_decimal 0 as = (as, 0)" if "digits_ok 10 (map digit_value as)" for as
    using that
  proof (induction as)
    case (Cons a as)
    then have "carry_decimal 0 a = (a, 0)"
      by (simp add: carry_decimal_def Let_def digit_value_def)
    then show ?case using Cons by simp
  qed simp
  moreover have "digits_ok 10 (map digit_value (drop (length B) (rev A)))"
    using ok(1) unfolding drop_map [symmetric] by simp
  ultimately have "c = 0 \<Longrightarrow> high = drop (length B) (rev A) \<and> d = 0" using high by simp
  moreover have "\<not> length A > length B \<Longrightarrow> high = [] \<and> d = c" using high by simp
  ultimately have res: "addStrings a b = (if d \<noteq> 0 then CHR ''1'' # rev (low @ high) else rev (low @ high))"
    using low high unfolding addStrings_def A_def [symmetric] B_def [symmetric]
    by (auto simp: Let_def A_def B_def split: if_splits prod.splits)
  have len: "length (low @ high) = length A" using sum by simp
  have "numeral_value 10 B + numeral_value 10 A = numeral_value 10 a + numeral_value 10 b" by (auto simp: A_def B_def)
  then have "num_of 10 (map digit_value (low @ high)) + 10 ^ length (low @ high) * d = numeral_value 10 a + numeral_value 10 b"
    using sum unfolding len by simp
  then show ?thesis unfolding res using sum by (intro carry_in_front) auto
qed

theorem addStrings_correct_witness:
  "numeral_ok 10 (addStrings ''987'' ''45'') \<and>
   numeral_value 10 (addStrings ''987'' ''45'') = numeral_value 10 ''987'' + numeral_value 10 ''45'' \<and>
   addStrings ''987'' ''45'' = ''1032''"
proof -
  have "addStrings ''987'' ''45'' = ''1032''" by code_simp
  moreover have "numeral_ok 10 ''987''" "numeral_ok 10 ''45''" by (simp_all add: digit_value_def code_def)
  ultimately show ?thesis using addStrings_correct [of "''987''" "''45''"] by simp
qed

text \<open>\<open>to_string\<close> prints the decimal digits, most significant first.\<close>

lemma show_nat_digits_rev: "0 < n \<Longrightarrow> show_nat n = map (\<lambda>d. chr (48 + d)) (rev (dec_digits (int n)))"
proof (induction n rule: show_nat.induct)
  case (1 n)
  have dd: "dec_digits (int n) = int n mod 10 # dec_digits (int n div 10)" using 1 by (simp add: base_digits_pos)
  show ?case
  proof (cases "n < 10")
    case True
    then show ?thesis unfolding dd by (simp add: show_nat.simps [of n])
  next
    case False
    have "show_nat (n div 10) = map (\<lambda>d. chr (48 + d)) (rev (dec_digits (int n div 10)))"
      using 1 False by (simp add: zdiv_int)
    then show ?thesis unfolding dd using False by (simp add: show_nat.simps [of n] zmod_int)
  qed
qed

lemma digits_value_map:
  "digits_ok 10 ds \<Longrightarrow> digits_value acc (map (\<lambda>d. chr (48 + d)) ds) = acc * 10 ^ length ds + num_of 10 (rev ds)"
proof (induction ds arbitrary: acc)
  case (Cons d ds)
  have "code (chr (48 + d)) = 48 + d" "isdigit (chr (48 + d))" using Cons.prems by simp_all
  then have "digits_value acc (map (\<lambda>d. chr (48 + d)) (d # ds)) = digits_value (acc * 10 + d) (map (\<lambda>d. chr (48 + d)) ds)"
    by simp
  then show ?case using Cons by (simp add: num_of_append algebra_simps)
qed simp

text \<open>The reversed number; on a platform with a 32 bit \<open>long\<close>, \<open>stol\<close> throws when it does not fit.\<close>

definition reversed :: "int \<Rightarrow> int" where
  "reversed x = num_of 10 (rev (dec_digits \<bar>x\<bar>))"

lemma reverse_string_all: "reverse_string 0 (length s) s = Some (rev s)"
  using reverse_string_mid [of "[]" s "[]"] by simp

lemma stol_digits:
  assumes "digits_ok 10 ds" "ds \<noteq> []"
  shows "stol w (map (\<lambda>d. chr (48 + d)) ds) =
    (if num_of 10 (rev ds) < 2 ^ (w - 1) then Some (num_of 10 (rev ds)) else None)"
proof -
  obtain d ds' where ds: "ds = d # ds'" using assms(2) by (cases ds) auto
  have c: "isdigit (chr (48 + d))" using assms(1) ds by simp
  have "0 \<le> num_of 10 (rev ds)" using assms(1) by (intro num_of_nonneg) auto
  then have "\<not> num_of 10 (rev ds) < - (2 ^ (w - 1))" by (simp add: not_less order_trans [of _ 0])
  then show ?thesis
    using digit_not_special [OF c] c digits_value_map [OF assms(1), of 0]
    by (simp add: stol_def ds del: digits_value.simps)
qed

theorem reverse_int_correct:
  assumes "\<bar>x\<bar> < 2147483648"
  shows "reverse_int w x =
    (if 2 ^ (w - 1) \<le> reversed x then None
     else if reversed x \<le> 2147483647 \<or> x < 0 \<and> reversed x = 2147483648 then Some (sgn x * reversed x) else Some 0)"
proof (cases "x = 0")
  case True
  have "to_string 0 = map (\<lambda>d. chr (48 + d)) [0]" by (simp add: to_string_def show_nat.simps)
  then show ?thesis
    using stol_digits [of "[0]" w] True
    by (simp add: reverse_int_def reverse_string_all reversed_def)
next
  case False
  let ?ds = "dec_digits \<bar>x\<bar>"
  have ds: "digits_ok 10 ?ds" "?ds \<noteq> []" using False by (auto simp: digits_ok_base_digits base_digits_Nil_iff)
  have "to_string (i32 \<bar>x\<bar>) = map (\<lambda>d. chr (48 + d)) (rev ?ds)"
    using assms False show_nat_digits_rev [of "nat \<bar>x\<bar>"] by (simp add: to_string_def)
  then have "reverse_int w x = do { v \<leftarrow> stol w (map (\<lambda>d. chr (48 + d)) ?ds);
      let ans = v * (if x \<ge> 0 then 1 else - 1);
      Some (if ans > 2147483647 \<or> ans < - 2147483648 then 0 else ans) }"
    by (simp add: reverse_int_def reverse_string_all rev_map)
  moreover have "0 \<le> reversed x" unfolding reversed_def using ds(1) by (intro num_of_nonneg) auto
  ultimately show ?thesis
    using stol_digits [OF ds, of w] False by (auto simp: reversed_def [symmetric] sgn_if)
qed

theorem reverse_int_correct_witness:
  "reverse_int 64 1999999999 = Some 0 \<and> reverse_int 32 1999999999 = None \<and> reverse_int 32 (- 123) = Some (- 321)"
proof -
  have "reversed 1999999999 = 9999999991" "reversed (- 123) = 321"
    by (simp_all add: reversed_def base_digits_pos)
  then show ?thesis
    using reverse_int_correct [of 1999999999 64] reverse_int_correct [of 1999999999 32] reverse_int_correct [of "- 123" 32]
    by simp
qed

subsection \<open>The digits of all numbers in a row\<close>

definition number_digits :: "nat \<Rightarrow> int list" where
  "number_digits k = rev (dec_digits (int k))"

text \<open>The digits of the numbers from 1 below \<open>m\<close>, and how many of them come before the numbers with \<open>i\<close> digits.\<close>

definition digit_row :: "nat \<Rightarrow> int list" where
  "digit_row m = concat (map number_digits [1..<m])"

definition digits_before :: "nat \<Rightarrow> nat" where
  "digits_before i = (\<Sum>j < i. 9 * 10 ^ (j - 1) * j)"

lemma length_number_digits: "10 ^ i \<le> k \<Longrightarrow> k < 10 ^ Suc i \<Longrightarrow> length (number_digits k) = Suc i"
proof -
  assume k: "10 ^ i \<le> k" "k < 10 ^ Suc i"
  have pos: "0 < int k" using k(1) by (metis gr0I le_zero_eq of_nat_0_less_iff power_eq_0_iff zero_neq_numeral)
  have "int k < 10 ^ Suc i" "\<not> int k < 10 ^ i"
    using k by (metis of_nat_less_iff of_nat_numeral of_nat_power, metis not_less of_nat_less_iff of_nat_numeral of_nat_power)
  then have "length (dec_digits (int k)) \<le> Suc i" "\<not> length (dec_digits (int k)) \<le> i"
    using dec_digits_length_iff [OF pos] by blast+
  then show ?thesis by (simp add: number_digits_def)
qed

lemma digit_row_Suc: "1 \<le> m \<Longrightarrow> digit_row (Suc m) = digit_row m @ number_digits m"
  by (simp add: digit_row_def)

lemma length_digit_row:
  "q \<le> 9 * 10 ^ i \<Longrightarrow> length (digit_row (10 ^ i + q)) = digits_before (Suc i) + q * Suc i"
proof (induction i arbitrary: q)
  case 0
  then show ?case
  proof (induction q)
    case (Suc q)
    have "length (number_digits (Suc q)) = Suc 0" using Suc.prems by (intro length_number_digits) auto
    then show ?case using Suc digit_row_Suc [of "Suc q"] by (simp add: digits_before_def)
  qed (simp add: digit_row_def digits_before_def)
next
  case (Suc i)
  show ?case using Suc.prems
  proof (induction q)
    case 0
    have "(10 :: nat) ^ Suc i = 10 ^ i + 9 * 10 ^ i" by simp
    then show ?case using Suc.IH [of "9 * 10 ^ i"] by (simp add: digits_before_def)
  next
    case (Suc q)
    have "length (number_digits (10 ^ Suc i + q)) = Suc (Suc i)" using Suc.prems by (intro length_number_digits) auto
    then show ?case using Suc digit_row_Suc [of "10 ^ Suc i + q"] by simp
  qed
qed

lemma digit_row_split: "k \<le> m \<Longrightarrow> 1 \<le> k \<Longrightarrow> \<exists>rest. digit_row m = digit_row k @ rest"
  by (induction m rule: dec_induct) (auto simp: digit_row_Suc)

lemma digit_row_nth:
  assumes "1 \<le> k" "r < length (number_digits k)" "length (digit_row k) + r < length (digit_row m)"
  shows "digit_row m ! (length (digit_row k) + r) = number_digits k ! r"
proof (cases "k < m")
  case True
  then obtain rest where "digit_row m = digit_row (Suc k) @ rest" using digit_row_split [of "Suc k" m] by auto
  then show ?thesis using assms by (simp add: digit_row_Suc nth_append)
next
  case False
  have "length (digit_row m) \<le> length (digit_row k)"
  proof (cases "1 \<le> m")
    case True
    then show ?thesis using digit_row_split [of m k] False by fastforce
  qed (simp add: digit_row_def)
  then show ?thesis using assms(3) by simp
qed

lemma dec_digits_nth: "0 \<le> n \<Longrightarrow> j < length (dec_digits n) \<Longrightarrow> dec_digits n ! j = n div 10 ^ j mod 10"
proof (induction j arbitrary: n)
  case 0
  then have "0 < n" by (cases "n = 0") auto
  then show ?case by (simp add: base_digits_pos)
next
  case (Suc j)
  then have n: "0 < n" by (cases "n = 0") auto
  then have "dec_digits n ! Suc j = n div 10 div 10 ^ j mod 10"
    using Suc by (simp add: base_digits_pos div_nonneg_int)
  also have "n div 10 div 10 ^ j = n div (10 * 10 ^ j)" by (rule zdiv_zmult2_eq [symmetric]) simp
  finally show ?case by simp
qed

lemma drop_last_digits_eq: "0 \<le> num \<Longrightarrow> drop_last_digits c num = num div 10 ^ c"
proof (induction c arbitrary: num)
  case (Suc c)
  then have "drop_last_digits (Suc c) num = num div 10 div 10 ^ c" by (simp add: div_nonneg_int)
  also have "\<dots> = num div (10 * 10 ^ c)" by (rule zdiv_zmult2_eq [symmetric]) simp
  finally show ?case by simp
qed simp

lemma pow10_power: "k < 10 \<Longrightarrow> pow10 ! k = 10 ^ k"
  by (drule digit_cases) (elim disjE; simp add: pow10_def)

lemma digits_before_9: "digits_before 9 = 788888889"
  by (simp add: digits_before_def lessThan_nat_numeral)

lemma nth_digit_group_spec:
  "1 \<le> i \<Longrightarrow> i \<le> 9 \<Longrightarrow> digits_before i < n \<Longrightarrow> n < 2147483648 \<Longrightarrow>
   \<exists>i'. nth_digit_group (int n) i (int (digits_before i)) = (i', int (digits_before i')) \<and> 1 \<le> i' \<and> i' \<le> 9 \<and>
     digits_before i' < n \<and> (i' < 9 \<longrightarrow> n \<le> digits_before (Suc i'))"
proof (induction "9 - i" arbitrary: i rule: less_induct)
  case less
  show ?case
  proof (cases "i < 9")
    case False
    then show ?thesis using less.prems by (subst nth_digit_group.simps) auto
  next
    case True
    note p = pow10_power
    obtain j where j: "i = Suc j" using less.prems(1) by (cases i) auto
    have mono: "digits_before (Suc i) \<le> digits_before 9"
      unfolding digits_before_def using True by (intro sum_mono2) auto
    have "int (digits_before i) + (pow10 ! i - pow10 ! (i - 1)) * int i = int (digits_before (Suc i))"
      using True by (simp add: p digits_before_def j algebra_simps)
    then have w: "i32 (int (digits_before i) + (pow10 ! i - pow10 ! (i - 1)) * int i) = int (digits_before (Suc i))"
      using mono by (simp add: digits_before_9)
    show ?thesis
    proof (cases "n \<le> digits_before (Suc i)")
      case le: True
      then have "nth_digit_group (int n) i (int (digits_before i)) = (i, int (digits_before i))"
        using True w by (subst nth_digit_group.simps) (simp add: Let_def)
      then show ?thesis using le less.prems by blast
    next
      case False
      then have "nth_digit_group (int n) i (int (digits_before i)) = nth_digit_group (int n) (Suc i) (int (digits_before (Suc i)))"
        using True w by (subst nth_digit_group.simps) (simp add: Let_def)
      then show ?thesis using less.hyps [of "Suc i"] less.prems True False by simp
    qed
  qed
qed

text \<open>\<open>findNthDigit\<close> returns the \<open>n\<close>-th digit of the row 123456789101112\<dots>.\<close>

theorem findNthDigit_correct:
  assumes "1 \<le> n" "n < 2147483648" "n \<le> length (digit_row m)"
  shows "findNthDigit (int n) = digit_row m ! (n - 1)"
proof -
  have "digits_before 1 = 0" by (simp add: digits_before_def)
  then obtain i where i: "nth_digit_group (int n) 1 0 = (i, int (digits_before i))" "1 \<le> i" "i \<le> 9"
    "digits_before i < n" "i < 9 \<longrightarrow> n \<le> digits_before (Suc i)"
    using nth_digit_group_spec [of 1 n] assms by auto
  obtain j where j: "i = Suc j" using i(2) by (cases i) auto
  define c where "c = n - digits_before i"
  define q r where "q = (c - 1) div i" and "r = (c - 1) mod i"
  have c: "0 < c" "int n - int (digits_before i) = int c" "c = q * i + r + 1" "r < i"
    using i(2,4) by (simp_all add: c_def q_def r_def)
  have q: "q < 9 * 10 ^ j"
  proof (cases "i < 9")
    case True
    then have "c \<le> 9 * 10 ^ j * i" using i(5) by (simp add: c_def digits_before_def j algebra_simps)
    then have "c - 1 < 9 * 10 ^ j * i" using c(1) by simp
    then show ?thesis unfolding q_def using i(2) by (simp add: div_less_iff_less_mult)
  next
    case False
    then have "j = 8" using i(3) j by simp
    moreover have "q * i < 2147483648" using c(3) assms(2) by (simp add: c_def)
    ultimately show ?thesis using j by simp
  qed
  define k where "k = 10 ^ j + q"
  have len: "length (number_digits k) = i" unfolding j using q by (intro length_number_digits) (auto simp: k_def)
  have row: "length (digit_row k) + r = n - 1"
  proof -
    have "n = digits_before i + q * i + r + 1" using c(1,3) by (simp add: c_def)
    then show ?thesis using length_digit_row [of q j] q unfolding k_def j by simp
  qed
  have "digit_row m ! (n - 1) = number_digits k ! r"
  proof -
    have "1 \<le> k" by (simp add: k_def Suc_le_eq)
    moreover have "length (digit_row k) + r < length (digit_row m)" using row assms by linarith
    ultimately show ?thesis using digit_row_nth [of k r m] len c(4) row by simp
  qed
  also have "\<dots> = dec_digits (int k) ! (i - 1 - r)"
    using len c(4) by (simp add: number_digits_def rev_nth)
  also have "\<dots> = int k div 10 ^ (i - 1 - r) mod 10"
    using len c(4) by (intro dec_digits_nth) (auto simp: number_digits_def)
  finally have res: "digit_row m ! (n - 1) = int k div 10 ^ (i - 1 - r) mod 10" .
  have p: "pow10 ! (i - 1) = 10 ^ j"
    using pow10_power [of j] i(3) by (simp add: j)
  have kb: "int k < 10 ^ 9"
  proof -
    have "(10 :: int) ^ Suc j \<le> 10 ^ 9" using i(3) j by (intro power_increasing) auto
    moreover have "k < 10 ^ Suc j" using q by (simp add: k_def)
    then have "int k < 10 ^ Suc j" by (metis of_nat_less_iff of_nat_numeral of_nat_power)
    ultimately show ?thesis by linarith
  qed
  have kk: "int k = 10 ^ j + int q" by (simp add: k_def)
  have "1 \<le> k" by (simp add: k_def Suc_le_eq)
  then have k0: "1 \<le> int k" by linarith
  have mods: "int c smod int i = int (c mod i)" "int c sdiv int i = int (c div i)" using i(2) by (simp_all add: zdiv_int zmod_int)
  show ?thesis
  proof (cases "r = i - 1")
    case True
    then have "c = (q + 1) * i" using c(3) i(2) by simp
    then have "c mod i = 0" "c div i = q + 1" using i(2) by simp_all
    then have "findNthDigit (int n) = i32 (10 ^ j + int q) smod 10"
      unfolding findNthDigit_def i(1) by (simp add: c(2) mods p [unfolded One_nat_def])
    also have "\<dots> = int k mod 10" unfolding kk [symmetric] using kb k0 by simp
    finally show ?thesis unfolding res using True by simp
  next
    case False
    then have "c = (r + 1) + q * i" "r + 1 < i" using c(3,4) by simp_all
    then have "c mod i = r + 1" "c div i = q" by (simp_all del: add_Suc_right add_Suc)
    moreover have "nat (int i - int (r + 1)) = i - 1 - r" by simp
    ultimately have "findNthDigit (int n) = drop_last_digits (i - 1 - r) (i32 (10 ^ j + int q - 1) + 1) smod 10"
      unfolding findNthDigit_def i(1) by (simp add: c(2) mods p [unfolded One_nat_def])
    also have "i32 (10 ^ j + int q - 1) + 1 = int k" unfolding kk [symmetric] using kb k0 by simp
    finally show ?thesis unfolding res by (simp add: drop_last_digits_eq div_nonneg_int)
  qed
qed

theorem findNthDigit_correct_witness: "findNthDigit (int 11) = digit_row 12 ! (11 - 1) \<and> findNthDigit 11 = 0"
proof -
  have "length (digit_row 12) = 13" by code_simp
  moreover have "findNthDigit 11 = 0" by code_simp
  ultimately show ?thesis using findNthDigit_correct [of 11 12] by simp
qed

end
