(* ===== verification/SearchTrees.thy ===== *)
theory SearchTrees
  imports MathBasics "HOL-Library.Tree"
begin

section \<open>Binary search trees (leetcode/BinarySearchTree.cpp)\<close>

text \<open>
  The class \<open>BST\<close>. A tree of \<open>TreeNode\<close>s is a \<open>tree\<close> of the library, a null pointer a \<open>Leaf\<close>; the functions
  that change nodes in place return the changed tree. The members that a recursion writes (\<open>firstMin\<close>,
  \<open>sum_of_larger_nodes\<close>, \<open>minDiff\<close>, \<open>mode_\<close>) are passed through it. A pointer to a node is its
  position, the directions from the root.
\<close>

subsection \<open>The model\<close>

abbreviation INT_MIN :: int where "INT_MIN \<equiv> - 2147483648"
abbreviation INT_MAX :: int where "INT_MAX \<equiv> 2147483647"

definition child_is :: "int tree \<Rightarrow> int \<Rightarrow> bool" where
  "child_is t v = (case t of Leaf \<Rightarrow> False | Node l a r \<Rightarrow> a = v)"

text \<open>The check of a node with the flags: \<open>None\<close> is \<open>return false\<close>.\<close>

definition check_node :: "int tree \<Rightarrow> int \<Rightarrow> int tree \<Rightarrow> int \<Rightarrow> int \<Rightarrow> bool \<times> bool \<Rightarrow> (bool \<times> bool) option" where
  "check_node l a r minV maxV flags =
     (let (firstMin, firstMax) = flags
      in if a = INT_MIN then
           if firstMin \<or> l \<noteq> Leaf \<or> child_is r INT_MIN \<or> a < minV then None else Some (True, firstMax)
         else if a = INT_MAX then
           if firstMax \<or> r \<noteq> Leaf \<or> child_is l INT_MAX \<or> a > maxV then None else Some (firstMin, True)
         else if a \<ge> maxV \<or> a \<le> minV then None else Some flags)"

fun valid_flags :: "int tree \<Rightarrow> int \<Rightarrow> int \<Rightarrow> bool \<times> bool \<Rightarrow> (bool \<times> bool) option" where
  "valid_flags Leaf minV maxV flags = Some flags"
| "valid_flags (Node l a r) minV maxV flags =
     do {
       flags \<leftarrow> check_node l a r minV maxV flags;
       flags \<leftarrow> valid_flags l minV a flags;
       valid_flags r a maxV flags
     }"

definition isValidBST :: "int tree \<Rightarrow> bool" where
  "isValidBST rt =
     (case rt of
        Leaf \<Rightarrow> True
      | Node l a r \<Rightarrow> if l = Leaf \<and> r = Leaf then True else valid_flags rt INT_MIN INT_MAX (False, False) \<noteq> None)"

fun valid_bounds :: "int tree \<Rightarrow> int \<Rightarrow> int \<Rightarrow> bool" where
  "valid_bounds Leaf minV maxV = True"
| "valid_bounds (Node l a r) minV maxV =
     (if a \<ge> maxV \<or> a \<le> minV then False else valid_bounds l minV a \<and> valid_bounds r a maxV)"

definition isValidBST2 :: "int tree \<Rightarrow> bool" where
  "isValidBST2 rt = valid_bounds rt (- 9223372036854775808) 9223372036854775807"

text \<open>\<open>validate\<close>: whether the walk succeeds, and the value of \<open>prev\<close> after it.\<close>

fun validate :: "int tree \<Rightarrow> int option \<Rightarrow> bool \<times> int option" where
  "validate Leaf prev = (True, prev)"
| "validate (Node l a r) prev =
     (let (ok, prev) = validate l prev
      in if \<not> ok then (False, prev)
         else if prev \<noteq> None \<and> the prev \<ge> a then (False, prev)
         else validate r (Some a))"

definition isValidBST3 :: "int tree \<Rightarrow> bool" where
  "isValidBST3 rt = fst (validate rt None)"

fun trimBST :: "int tree \<Rightarrow> int \<Rightarrow> int \<Rightarrow> int tree" where
  "trimBST Leaf L R = Leaf"
| "trimBST (Node l a r) L R =
     (if a > R then trimBST l L R
      else if a < L then trimBST r L R
      else Node (trimBST l L R) a (trimBST r L R))"

text \<open>A position: \<open>False\<close> goes left and \<open>True\<close> right. \<open>p1\<close> is the position of the excluded node.\<close>

fun BinarySearchTargetP2 :: "int tree \<Rightarrow> bool list \<Rightarrow> bool list \<Rightarrow> int \<Rightarrow> bool" where
  "BinarySearchTargetP2 Leaf pos p1 p2 = False"
| "BinarySearchTargetP2 (Node l a r) pos p1 p2 =
     (if pos \<noteq> p1 \<and> a = p2 then True
      else if p2 < a \<and> BinarySearchTargetP2 l (pos @ [False]) p1 p2 then True
      else p2 > a \<and> BinarySearchTargetP2 r (pos @ [True]) p1 p2)"

fun findTargetHelp :: "int tree \<Rightarrow> int tree \<Rightarrow> bool list \<Rightarrow> int \<Rightarrow> bool" where
  "findTargetHelp origRoot Leaf pos k = False"
| "findTargetHelp origRoot (Node l a r) pos k =
     (if BinarySearchTargetP2 origRoot [] pos (i32 (k - a)) then True
      else findTargetHelp origRoot l (pos @ [False]) k \<or> findTargetHelp origRoot r (pos @ [True]) k)"

definition findTarget :: "int tree \<Rightarrow> int \<Rightarrow> bool" where
  "findTarget rt k = findTargetHelp rt rt [] k"

fun convertBSThelp :: "int tree \<Rightarrow> int \<Rightarrow> int tree \<times> int" where
  "convertBSThelp Leaf larger = (Leaf, larger)"
| "convertBSThelp (Node l a r) larger =
     (let (r, larger) = convertBSThelp r larger;
          a = i32 (a + larger);
          (l, larger) = convertBSThelp l a
      in (Node l a r, larger))"

definition convertBST :: "int tree \<Rightarrow> int tree" where
  "convertBST rt = fst (convertBSThelp rt 0)"

text \<open>\<open>minDiffInBSTHelp\<close> returns the least and greatest value of a tree, with a flag that is false for an empty tree.\<close>

fun minDiffInBSTHelp :: "int tree \<Rightarrow> int \<Rightarrow> ((bool \<times> int) \<times> (bool \<times> int)) \<times> int" where
  "minDiffInBSTHelp Leaf minDiff = (((False, INT_MAX), (False, INT_MIN)), minDiff)"
| "minDiffInBSTHelp (Node l a r) minDiff =
     (let (left, minDiff) = minDiffInBSTHelp l minDiff;
          (right, minDiff) = minDiffInBSTHelp r minDiff;
          minDiff = (if fst (snd left) then min minDiff (i32 \<bar>i32 (a - snd (snd left))\<bar>) else minDiff);
          minDiff = (if fst (fst right) then min minDiff (i32 \<bar>i32 (a - snd (fst right))\<bar>) else minDiff)
      in (((True, min (snd (fst left)) a), (True, max (snd (snd right)) a)), minDiff))"

definition minDiffInBST :: "int tree \<Rightarrow> int" where
  "minDiffInBST rt = snd (minDiffInBSTHelp rt INT_MAX)"

record mode_state =
  prev_val :: "int option"
  same_count :: int
  mode_so_far :: mode_calc

fun inorder_mode :: "int tree \<Rightarrow> mode_state \<Rightarrow> mode_state" where
  "inorder_mode Leaf st = st"
| "inorder_mode (Node l a r) st =
     (let st = inorder_mode l st;
          st = (case prev_val st of
                  None \<Rightarrow> st\<lparr>same_count := 1\<rparr>
                | Some p \<Rightarrow>
                    if p = a then st\<lparr>same_count := i32 (same_count st + 1)\<rparr>
                    else st\<lparr>mode_so_far := try_new_mode (mode_so_far st) p (same_count st), same_count := 1\<rparr>)
      in inorder_mode r (st\<lparr>prev_val := Some a\<rparr>))"

definition findMode :: "int tree \<Rightarrow> int list" where
  "findMode rt =
     (if rt = Leaf then []
      else let st = inorder_mode rt \<lparr>prev_val = None, same_count = 0, mode_so_far = mode_calc_init\<rparr>
           in modes (try_new_mode (mode_so_far st) (the (prev_val st)) (same_count st)))"

fun insertIntoBST :: "int tree \<Rightarrow> int \<Rightarrow> int tree" where
  "insertIntoBST Leaf val = Node Leaf val Leaf"
| "insertIntoBST (Node l a r) val =
     (if a < val then Node l a (insertIntoBST r val) else Node (insertIntoBST l val) a r)"

fun rangeSumBST :: "int tree \<Rightarrow> int \<Rightarrow> int \<Rightarrow> int" where
  "rangeSumBST Leaf L R = 0"
| "rangeSumBST (Node l a r) L R =
     (let tot = 0;
          tot = (if a < R then i32 (tot + rangeSumBST r L R) else tot);
          tot = (if a > L then i32 (tot + rangeSumBST l L R) else tot)
      in if a \<le> R \<and> a \<ge> L then i32 (tot + a) else tot)"

subsection \<open>Validation\<close>

definition int_tree :: "int tree \<Rightarrow> bool" where
  "int_tree t \<longleftrightarrow> (\<forall>x \<in> set_tree t. INT_MIN \<le> x \<and> x \<le> INT_MAX)"

lemma int_tree_simps [simp]:
  "int_tree Leaf" "int_tree (Node l a r) \<longleftrightarrow> INT_MIN \<le> a \<and> a \<le> INT_MAX \<and> int_tree l \<and> int_tree r"
  by (auto simp: int_tree_def)

text \<open>
  The bounds of a subtree: the least int passes the lower bound \<open>INT_MIN\<close> once, as long as
  \<open>firstMin\<close> is not set, and the greatest int the upper bound in the same way.
\<close>

definition above :: "int \<Rightarrow> bool \<Rightarrow> int \<Rightarrow> bool" where
  "above lo fm x \<longleftrightarrow> lo < x \<or> x = INT_MIN \<and> lo = INT_MIN \<and> \<not> fm"

definition below :: "int \<Rightarrow> bool \<Rightarrow> int \<Rightarrow> bool" where
  "below hi fx x \<longleftrightarrow> x < hi \<or> x = INT_MAX \<and> hi = INT_MAX \<and> \<not> fx"

lemma valid_flags_spec:
  "int_tree t \<Longrightarrow> INT_MIN \<le> lo \<Longrightarrow> lo < INT_MAX \<Longrightarrow> INT_MIN < hi \<Longrightarrow> hi \<le> INT_MAX \<Longrightarrow>
   valid_flags t lo hi (fm, fx) =
     (if bst t \<and> (\<forall>x \<in> set_tree t. above lo fm x \<and> below hi fx x)
      then Some (fm \<or> INT_MIN \<in> set_tree t, fx \<or> INT_MAX \<in> set_tree t) else None)"
proof (induction t arbitrary: lo hi fm fx)
  case (Node l a r)
  have child: "child_is t v \<Longrightarrow> v \<in> set_tree t" for t v by (cases t) (auto simp: child_is_def)
  have int: "int_tree l" "int_tree r" "INT_MIN \<le> a" "a \<le> INT_MAX" using Node.prems by simp_all
  consider (low) "a = INT_MIN" | (high) "a = INT_MAX" | (mid) "INT_MIN < a" "a < INT_MAX" using int by linarith
  then show ?case
  proof cases
    case low
    have r: "valid_flags r a hi (True, fx) =
        (if bst r \<and> (\<forall>x \<in> set_tree r. above a True x \<and> below hi fx x)
         then Some (True, fx \<or> INT_MAX \<in> set_tree r) else None)"
      using Node.IH(2) [OF int(2), of a hi True fx] Node.prems low by simp
    show ?thesis
    proof (cases "fm \<or> l \<noteq> Leaf \<or> child_is r INT_MIN \<or> a < lo")
      case True
      have "\<not> (bst (Node l a r) \<and> (\<forall>x \<in> set_tree (Node l a r). above lo fm x \<and> below hi fx x))"
        using True low int Node.prems child [of r INT_MIN] by (cases l) (auto simp: above_def int_tree_def)
      then show ?thesis using True low by (simp add: check_node_def)
    next
      case False
      then have "l = Leaf" "lo = INT_MIN" "\<not> fm" using low Node.prems by simp_all
      moreover have "above a True x \<longleftrightarrow> INT_MIN < x" "above INT_MIN False x \<longleftrightarrow> INT_MIN \<le> x" for x
        using low by (auto simp: above_def)
      moreover have "below hi fx INT_MIN" using Node.prems by (simp add: below_def)
      ultimately show ?thesis using r False low by (auto simp: check_node_def Let_def less_imp_le)
    qed
  next
    case high
    have l: "valid_flags l lo a (fm, True) =
        (if bst l \<and> (\<forall>x \<in> set_tree l. above lo fm x \<and> below a True x)
         then Some (fm \<or> INT_MIN \<in> set_tree l, True) else None)"
      using Node.IH(1) [OF int(1), of lo a fm True] Node.prems high by simp
    show ?thesis
    proof (cases "fx \<or> r \<noteq> Leaf \<or> child_is l INT_MAX \<or> a > hi")
      case True
      have "\<not> (bst (Node l a r) \<and> (\<forall>x \<in> set_tree (Node l a r). above lo fm x \<and> below hi fx x))"
        using True high int Node.prems child [of l INT_MAX] by (cases r) (auto simp: below_def int_tree_def)
      then show ?thesis using True high by (simp add: check_node_def)
    next
      case False
      then have "r = Leaf" "hi = INT_MAX" "\<not> fx" using high Node.prems by simp_all
      moreover have "below a True x \<longleftrightarrow> x < INT_MAX" "below INT_MAX False x \<longleftrightarrow> x \<le> INT_MAX" for x
        using high by (auto simp: below_def)
      moreover have "above lo fm INT_MAX" using Node.prems by (simp add: above_def)
      ultimately show ?thesis using l False high by (auto simp: check_node_def Let_def less_imp_le)
    qed
  next
    case mid
    note IHl = Node.IH(1) [OF int(1), of lo a fm fx] and IHr = Node.IH(2) [OF int(2), of a hi]
    show ?thesis
    proof (cases "a \<ge> hi \<or> a \<le> lo")
      case True
      then show ?thesis using mid by (auto simp: check_node_def above_def below_def)
    next
      case False
      have bl: "below a f x \<longleftrightarrow> x < a" "above a f x \<longleftrightarrow> a < x" for f x using mid by (auto simp: below_def above_def)
      have al: "above lo fm x" if "a < x" for x using that False by (auto simp: above_def)
      have be: "below hi fx x" if "x < a" for x using that False by (auto simp: below_def)
      have self: "above lo fm a" "below hi fx a" using False by (auto simp: above_def below_def)
      show ?thesis
      proof (cases "bst l \<and> (\<forall>x \<in> set_tree l. above lo fm x \<and> x < a)")
        case True
        then have "INT_MAX \<notin> set_tree l" using mid by auto
        then have "valid_flags (Node l a r) lo hi (fm, fx) = valid_flags r a hi (fm \<or> INT_MIN \<in> set_tree l, fx)"
          using True IHl False mid Node.prems bl by (simp add: check_node_def)
        also have "\<dots> = (if bst r \<and> (\<forall>x \<in> set_tree r. a < x \<and> below hi fx x)
            then Some ((fm \<or> INT_MIN \<in> set_tree l) \<or> INT_MIN \<in> set_tree r, fx \<or> INT_MAX \<in> set_tree r) else None)"
          using IHr [of "fm \<or> INT_MIN \<in> set_tree l" fx] False mid Node.prems bl by simp
        finally show ?thesis using True mid al be self \<open>INT_MAX \<notin> set_tree l\<close> by auto
      next
        case l: False
        have "valid_flags l lo a (fm, fx) = (if bst l \<and> (\<forall>x \<in> set_tree l. above lo fm x \<and> x < a)
            then Some (fm \<or> INT_MIN \<in> set_tree l, fx \<or> INT_MAX \<in> set_tree l) else None)"
          by (rule IHl [unfolded bl]) (use Node.prems mid in auto)
        also have "\<dots> = None" using l by (rule if_not_P)
        finally have "valid_flags l lo a (fm, fx) = None" .
        then have "valid_flags (Node l a r) lo hi (fm, fx) = None" using False mid by (simp add: check_node_def)
        then show ?thesis using l by auto
      qed
    qed
  qed
qed simp

lemma valid_bounds_iff: "valid_bounds t lo hi \<longleftrightarrow> bst t \<and> (\<forall>x \<in> set_tree t. lo < x \<and> x < hi)"
  by (induction t arbitrary: lo hi) auto

text \<open>\<open>prev\<close> is the last value the walk has seen.\<close>

definition since :: "int option \<Rightarrow> int list \<Rightarrow> int list" where
  "since prev xs = (case prev of None \<Rightarrow> xs | Some p \<Rightarrow> p # xs)"

lemma validate_spec:
  "sorted_wrt (<) (since prev []) \<Longrightarrow>
   fst (validate t prev) = sorted_wrt (<) (since prev (inorder t)) \<and>
   (fst (validate t prev) \<longrightarrow> snd (validate t prev) = (if t = Leaf then prev else Some (last (inorder t))))"
proof (induction t arbitrary: prev)
  case Leaf
  then show ?case by simp
next
  case (Node l a r)
  obtain ok p where l: "validate l prev = (ok, p)" by force
  have IHl: "ok = sorted_wrt (<) (since prev (inorder l))" "ok \<Longrightarrow> p = (if l = Leaf then prev else Some (last (inorder l)))"
    using Node.IH(1) [OF Node.prems] l by simp_all
  show ?case
  proof (cases ok)
    case False
    then have "\<not> sorted_wrt (<) (since prev (inorder (Node l a r)))"
      using IHl(1) by (auto simp: since_def sorted_wrt_append split: option.splits)
    then show ?thesis using l False by simp
  next
    case True
    let ?xs = "since prev (inorder l)"
    have p: "p = (if ?xs = [] then None else Some (last ?xs))"
      using IHl(2) [OF True] by (cases prev) (auto simp: since_def)
    have ge: "(\<forall>x \<in> set ?xs. x < a) \<longleftrightarrow> \<not> (p \<noteq> None \<and> the p \<ge> a)"
    proof (cases "?xs = []")
      case False
      have "x \<le> last ?xs" if "x \<in> set ?xs" for x
        using sorted_le_last [of ?xs x] that IHl(1) True strict_sorted_imp_sorted by blast
      then show ?thesis using p False by (auto simp: not_le intro: le_less_trans)
    qed (simp add: p)
    have split: "since prev (inorder (Node l a r)) = ?xs @ a # inorder r"
      by (cases prev) (simp_all add: since_def)
    have IHr: "fst (validate r (Some a)) = sorted_wrt (<) (a # inorder r)"
      "fst (validate r (Some a)) \<Longrightarrow> snd (validate r (Some a)) = (if r = Leaf then Some a else Some (last (inorder r)))"
      using Node.IH(2) [of "Some a"] by (simp_all add: since_def)
    have "sorted_wrt (<) (?xs @ a # inorder r) \<longleftrightarrow> (\<forall>x \<in> set ?xs. x < a) \<and> sorted_wrt (<) (a # inorder r)"
      using IHl(1) True by (fastforce simp: sorted_wrt_append)
    then show ?thesis unfolding split using l True ge IHr by auto
  qed
qed

text \<open>C17: The three checks agree and decide the search tree property, also for trees that hold the extreme ints.\<close>

theorem isValidBST_versions:
  assumes "int_tree t"
  shows "isValidBST t = bst t \<and> isValidBST2 t = bst t \<and> isValidBST3 t = bst t"
proof (intro conjI)
  show "isValidBST t = bst t"
  proof (cases t)
    case (Node l a r)
    have "above INT_MIN False x" "below INT_MAX False x" if "x \<in> set_tree t" for x
      using assms that by (auto simp: int_tree_def above_def below_def)
    then have "valid_flags t INT_MIN INT_MAX (False, False) \<noteq> None \<longleftrightarrow> bst t"
      using valid_flags_spec [OF assms, of INT_MIN INT_MAX False False] by simp
    then show ?thesis using Node by (auto simp: isValidBST_def)
  qed (simp add: isValidBST_def)
  have "\<forall>x \<in> set_tree t. - 9223372036854775808 < x \<and> x < 9223372036854775807"
    using assms by (auto simp: int_tree_def)
  then show "isValidBST2 t = bst t" by (simp add: isValidBST2_def valid_bounds_iff)
  show "isValidBST3 t = bst t"
    using validate_spec [of None t] by (simp add: isValidBST3_def since_def bst_iff_sorted_wrt_less)
qed

theorem isValidBST_versions_witness:
  "isValidBST (Node (Node Leaf INT_MIN Leaf) 3 (Node Leaf INT_MAX Leaf)) = bst (Node (Node Leaf INT_MIN Leaf) 3 (Node Leaf INT_MAX Leaf)) \<and>
   isValidBST2 (Node (Node Leaf INT_MIN Leaf) 3 (Node Leaf INT_MAX Leaf)) = bst (Node (Node Leaf INT_MIN Leaf) 3 (Node Leaf INT_MAX Leaf)) \<and>
   isValidBST3 (Node (Node Leaf INT_MIN Leaf) 3 (Node Leaf INT_MAX Leaf)) = bst (Node (Node Leaf INT_MIN Leaf) 3 (Node Leaf INT_MAX Leaf))"
  by (rule isValidBST_versions) simp

subsection \<open>Trimming and insertion\<close>

lemma trimBST_inorder: "bst t \<Longrightarrow> inorder (trimBST t L R) = filter (\<lambda>x. L \<le> x \<and> x \<le> R) (inorder t)"
proof (induction t)
  case (Node l a r)
  have "filter (\<lambda>x. L \<le> x \<and> x \<le> R) (inorder r) = []" if "R < a"
    using that Node.prems by (auto simp: filter_empty_conv)
  moreover have "filter (\<lambda>x. L \<le> x \<and> x \<le> R) (inorder l) = []" if "a < L"
    using that Node.prems by (auto simp: filter_empty_conv)
  ultimately show ?case using Node by auto
qed simp

lemma insort_append_left: "\<forall>x \<in> set xs. x < v \<Longrightarrow> insort v (xs @ ys) = xs @ insort v ys"
  by (induction xs) auto

lemma insort_append_right: "v \<le> y \<Longrightarrow> insort v (xs @ y # ys) = insort v xs @ y # ys"
  by (induction xs) auto

lemma insertIntoBST_inorder: "bst t \<Longrightarrow> v \<notin> set_tree t \<Longrightarrow> inorder (insertIntoBST t v) = insort v (inorder t)"
proof (induction t)
  case (Node l a r)
  show ?case
  proof (cases "a < v")
    case True
    have "\<forall>x \<in> set (inorder l @ [a]). x < v" using True Node.prems by auto
    from insort_append_left [OF this, of "inorder r"] show ?thesis using True Node by simp
  next
    case False
    then show ?thesis using insort_append_right [of v a "inorder l" "inorder r"] Node by simp
  qed
qed simp

text \<open>C16: Trimming and insertion keep the search tree property, and hold exactly the values they should.\<close>

theorem BST_operations_preserve:
  assumes "bst t"
  shows "bst (trimBST t L R) \<and> inorder (trimBST t L R) = filter (\<lambda>x. L \<le> x \<and> x \<le> R) (inorder t) \<and>
    (v \<notin> set_tree t \<longrightarrow> bst (insertIntoBST t v) \<and> inorder (insertIntoBST t v) = insort v (inorder t))"
proof (intro conjI impI)
  have srt: "sorted_wrt (<) (inorder t)" using assms by (simp add: bst_iff_sorted_wrt_less)
  show trim: "inorder (trimBST t L R) = filter (\<lambda>x. L \<le> x \<and> x \<le> R) (inorder t)" by (rule trimBST_inorder [OF assms])
  show "bst (trimBST t L R)" unfolding bst_iff_sorted_wrt_less trim using srt by (rule sorted_wrt_filter)
  assume v: "v \<notin> set_tree t"
  show ins: "inorder (insertIntoBST t v) = insort v (inorder t)" by (rule insertIntoBST_inorder [OF assms v])
  show "bst (insertIntoBST t v)"
    unfolding bst_iff_sorted_wrt_less ins using srt v
    by (simp add: strict_sorted_iff sorted_insort distinct_insort)
qed

theorem BST_operations_preserve_witness:
  "bst (trimBST (Node (Node Leaf 1 Leaf) 3 (Node Leaf 8 Leaf)) 2 9) \<and>
   inorder (trimBST (Node (Node Leaf 1 Leaf) 3 (Node Leaf 8 Leaf)) 2 9) =
     filter (\<lambda>x. 2 \<le> x \<and> x \<le> 9) (inorder (Node (Node Leaf 1 Leaf) 3 (Node Leaf 8 Leaf))) \<and>
   bst (insertIntoBST (Node (Node Leaf 1 Leaf) 3 (Node Leaf (8 :: int) Leaf)) 5) \<and>
   inorder (insertIntoBST (Node (Node Leaf 1 Leaf) 3 (Node Leaf 8 Leaf)) 5) = insort 5 (inorder (Node (Node Leaf 1 Leaf) 3 (Node Leaf 8 Leaf)))"
  using BST_operations_preserve [of "Node (Node Leaf 1 Leaf) 3 (Node Leaf 8 Leaf)" 2 9 5] by simp

subsection \<open>Two values with a given sum\<close>

text \<open>The positions of a tree and the value at one.\<close>

fun value_at :: "int tree \<Rightarrow> bool list \<Rightarrow> int option" where
  "value_at Leaf pos = None"
| "value_at (Node l a r) [] = Some a"
| "value_at (Node l a r) (b # pos) = value_at (if b then r else l) pos"

lemma value_at_set: "x \<in> set_tree t \<longleftrightarrow> (\<exists>pos. value_at t pos = Some x)"
proof (induction t)
  case (Node l a r)
  show ?case
  proof
    assume "x \<in> set_tree (Node l a r)"
    then consider "x = a" | pos where "value_at l pos = Some x" | pos where "value_at r pos = Some x"
      using Node by auto
    then show "\<exists>pos. value_at (Node l a r) pos = Some x"
    proof cases
      case 1
      then show ?thesis by (intro exI [of _ "[]"]) simp
    next
      case (2 pos)
      then show ?thesis by (intro exI [of _ "False # pos"]) simp
    next
      case (3 pos)
      then show ?thesis by (intro exI [of _ "True # pos"]) simp
    qed
  next
    assume "\<exists>pos. value_at (Node l a r) pos = Some x"
    then obtain pos where "value_at (Node l a r) pos = Some x" ..
    then show "x \<in> set_tree (Node l a r)" using Node by (cases pos) (auto split: if_splits)
  qed
qed simp

lemma search_target_iff:
  "bst t \<Longrightarrow> BinarySearchTargetP2 t pos p1 v \<longleftrightarrow> (\<exists>q. value_at t q = Some v \<and> pos @ q \<noteq> p1)"
proof (induction t arbitrary: pos)
  case (Node l a r)
  have nl: "value_at l q \<noteq> Some x" if "\<not> x < a" for x q using that Node.prems value_at_set [of x l] by auto
  have nr: "value_at r q \<noteq> Some x" if "\<not> a < x" for x q using that Node.prems value_at_set [of x r] by auto
  have ex: "(\<exists>q. P q) \<longleftrightarrow> P [] \<or> (\<exists>q. P (False # q)) \<or> (\<exists>q. P (True # q))" for P :: "bool list \<Rightarrow> bool"
    by (metis (full_types) list.exhaust)
  have "(\<exists>q. value_at (Node l a r) q = Some v \<and> pos @ q \<noteq> p1) \<longleftrightarrow>
      (a = v \<and> pos \<noteq> p1) \<or> (\<exists>q. value_at l q = Some v \<and> (pos @ [False]) @ q \<noteq> p1) \<or>
      (\<exists>q. value_at r q = Some v \<and> (pos @ [True]) @ q \<noteq> p1)"
    by (subst ex) simp
  also have "\<dots> \<longleftrightarrow> (a = v \<and> pos \<noteq> p1) \<or> v < a \<and> BinarySearchTargetP2 l (pos @ [False]) p1 v \<or>
      a < v \<and> BinarySearchTargetP2 r (pos @ [True]) p1 v"
    using Node.IH(1) [of "pos @ [False]"] Node.IH(2) [of "pos @ [True]"] Node.prems nl [of v] nr [of v] by auto
  finally show ?case by auto
qed simp

lemma find_target_help_iff:
  "findTargetHelp T t pos k \<longleftrightarrow> (\<exists>q x. value_at t q = Some x \<and> BinarySearchTargetP2 T [] (pos @ q) (i32 (k - x)))"
proof (induction t arbitrary: pos)
  case (Node l a r)
  have ex: "(\<exists>q. P q) \<longleftrightarrow> P [] \<or> (\<exists>q. P (False # q)) \<or> (\<exists>q. P (True # q))" for P :: "bool list \<Rightarrow> bool"
    by (metis (full_types) list.exhaust)
  show ?case unfolding ex [of "\<lambda>q. \<exists>x. value_at (Node l a r) q = Some x \<and> _ q x"] using Node by simp
qed simp

lemma value_at_unique: "bst t \<Longrightarrow> value_at t p = Some x \<Longrightarrow> value_at t q = Some x \<Longrightarrow> p = q"
proof (induction t arbitrary: p q)
  case (Node l a r)
  have nl: "value_at l s \<noteq> Some y" if "a \<le> y" for s y using that Node.prems(1) value_at_set [of y l] by fastforce
  have nr: "value_at r s \<noteq> Some y" if "y \<le> a" for s y using that Node.prems(1) value_at_set [of y r] by fastforce
  have cr: "a \<le> x" if "value_at r s = Some x" for s using nr that by (meson linear)
  show ?case
    using Node.prems Node.IH nl nr cr by (cases p; cases q) (fastforce split: if_splits)+
qed simp

text \<open>\<open>findTarget\<close> decides whether two different nodes of a search tree add up to \<open>k\<close>.\<close>

theorem findTarget_correct:
  assumes "bst t" "\<forall>x \<in> set_tree t. INT_MIN \<le> k - x \<and> k - x \<le> INT_MAX"
  shows "findTarget t k \<longleftrightarrow> (\<exists>x \<in> set_tree t. \<exists>y \<in> set_tree t. x \<noteq> y \<and> x + y = k)"
proof -
  have w: "i32 (k - x) = k - x" if "value_at t q = Some x" for q x
    using assms(2) that value_at_set [of x t] by (intro i32_id) auto
  have "findTarget t k \<longleftrightarrow> (\<exists>q x. value_at t q = Some x \<and> (\<exists>p. value_at t p = Some (k - x) \<and> p \<noteq> q))"
  proof -
    have "value_at t q = Some x \<and> BinarySearchTargetP2 t [] ([] @ q) (i32 (k - x)) \<longleftrightarrow>
        value_at t q = Some x \<and> (\<exists>p. value_at t p = Some (k - x) \<and> p \<noteq> q)" for q x
      using search_target_iff [OF assms(1), of "[]"] w by (cases "value_at t q = Some x") simp_all
    then show ?thesis unfolding findTarget_def find_target_help_iff by simp
  qed
  also have "\<dots> \<longleftrightarrow> (\<exists>x \<in> set_tree t. \<exists>y \<in> set_tree t. x \<noteq> y \<and> x + y = k)"
  proof
    assume "\<exists>q x. value_at t q = Some x \<and> (\<exists>p. value_at t p = Some (k - x) \<and> p \<noteq> q)"
    then obtain q x p where *: "value_at t q = Some x" "value_at t p = Some (k - x)" "p \<noteq> q" by blast
    then have "x \<noteq> k - x" using value_at_unique [OF assms(1)] by metis
    then show "\<exists>x \<in> set_tree t. \<exists>y \<in> set_tree t. x \<noteq> y \<and> x + y = k"
      using * value_at_set by (intro bexI [of _ x] bexI [of _ "k - x"]) auto
  next
    assume "\<exists>x \<in> set_tree t. \<exists>y \<in> set_tree t. x \<noteq> y \<and> x + y = k"
    then obtain x y p q where *: "value_at t q = Some x" "value_at t p = Some y" "x \<noteq> y" "y = k - x"
      using value_at_set by fastforce
    then have "p \<noteq> q" by auto
    then show "\<exists>q x. value_at t q = Some x \<and> (\<exists>p. value_at t p = Some (k - x) \<and> p \<noteq> q)" using * by blast
  qed
  finally show ?thesis .
qed

theorem findTarget_correct_witness:
  "findTarget (Node (Node Leaf 2 Leaf) 5 (Node Leaf 7 Leaf)) 9 \<longleftrightarrow>
    (\<exists>x \<in> set_tree (Node (Node Leaf 2 Leaf) 5 (Node Leaf 7 Leaf)).
       \<exists>y \<in> set_tree (Node (Node Leaf 2 Leaf) 5 (Node Leaf 7 Leaf)). x \<noteq> y \<and> x + y = (9 :: int))"
  by (rule findTarget_correct) auto

subsection \<open>Sums of larger values and of a range\<close>

fun suffix_sums :: "int list \<Rightarrow> int \<Rightarrow> int list" where
  "suffix_sums [] s = []"
| "suffix_sums (x # xs) s = i32 (x + sum_list xs + s) # suffix_sums xs s"

lemma suffix_sums_append: "suffix_sums (xs @ ys) s = suffix_sums xs (sum_list ys + s) @ suffix_sums ys s"
  by (induction xs) (simp_all add: algebra_simps)

lemma convertBSThelp_eq:
  "inorder (fst (convertBSThelp t (i32 s))) = suffix_sums (inorder t) s \<and>
   snd (convertBSThelp t (i32 s)) = i32 (s + sum_list (inorder t))"
proof (induction t arbitrary: s)
  case (Node l a r)
  let ?s = "s + sum_list (inorder r)"
  have "i32 (a + i32 ?s) = i32 (?s + a)" using swrap_add [of 32 ?s a] by (simp add: add.commute)
  then show ?case
    using Node.IH(2) [of s] Node.IH(1) [of "?s + a"]
    by (simp add: split_beta Let_def suffix_sums_append ac_simps)
qed simp

lemma suffix_sums_sorted:
  "sorted_wrt (<) xs \<Longrightarrow> suffix_sums xs 0 = map (\<lambda>x. i32 (\<Sum>{y \<in> set xs. x \<le> y})) xs"
proof (induction xs)
  case (Cons x xs)
  have "distinct (x # xs)" using Cons.prems by (simp only: strict_sorted_iff)
  then have "x + sum_list xs = \<Sum>(set (x # xs))" by (simp add: sum_list_distinct_conv_sum_set [of _ "\<lambda>x. x", simplified])
  moreover have "{y \<in> set (x # xs). x \<le> y} = set (x # xs)" using Cons.prems by auto
  moreover have "{y \<in> set (x # xs). z \<le> y} = {y \<in> set xs. z \<le> y}" if "z \<in> set xs" for z
    using Cons.prems that by auto
  ultimately show ?case using Cons by (simp del: set_simps) 
qed simp

text \<open>\<open>convertBST\<close> replaces every value of a search tree by the sum of the values that are not smaller.\<close>

theorem convertBST_correct:
  assumes "bst t"
  shows "inorder (convertBST t) = map (\<lambda>x. i32 (\<Sum>{y \<in> set_tree t. x \<le> y})) (inorder t)"
proof -
  have "sorted_wrt (<) (inorder t)" using assms by (simp add: bst_iff_sorted_wrt_less)
  from suffix_sums_sorted [OF this] show ?thesis
    using convertBSThelp_eq [of t 0] by (simp add: convertBST_def)
qed

theorem convertBST_correct_witness:
  "inorder (convertBST (Node (Node Leaf 2 Leaf) 5 (Node Leaf 13 Leaf))) =
     map (\<lambda>x. i32 (\<Sum>{y \<in> set_tree (Node (Node Leaf 2 Leaf) 5 (Node Leaf 13 Leaf)). x \<le> y}))
       (inorder (Node (Node Leaf 2 Leaf) 5 (Node Leaf 13 Leaf)))"
  by (rule convertBST_correct) simp

theorem rangeSumBST_correct:
  "bst t \<Longrightarrow> rangeSumBST t L R = i32 (sum_list (filter (\<lambda>x. L \<le> x \<and> x \<le> R) (inorder t)))"
proof (induction t)
  case (Node l a r)
  let ?f = "\<lambda>t. sum_list (filter (\<lambda>x. L \<le> x \<and> x \<le> R) (inorder t))"
  have r: "?f r = 0" if "\<not> a < R"
  proof -
    have "filter (\<lambda>x. L \<le> x \<and> x \<le> R) (inorder r) = []" using that Node.prems by (auto simp: filter_empty_conv)
    then show ?thesis by simp
  qed
  have l: "?f l = 0" if "\<not> L < a"
  proof -
    have "filter (\<lambda>x. L \<le> x \<and> x \<le> R) (inorder l) = []" using that Node.prems by (auto simp: filter_empty_conv)
    then show ?thesis by simp
  qed
  have IH: "rangeSumBST l L R = i32 (?f l)" "rangeSumBST r L R = i32 (?f r)" using Node by simp_all
  have w: "i32 (x + i32 y) = i32 (x + y)" "i32 (i32 x + y) = i32 (x + y)" for x y
    using swrap_add [of 32 x y] swrap_add [of 32 y x] by (simp_all add: add.commute)
  define t1 where "t1 = (if a < R then i32 (0 + rangeSumBST r L R) else 0)"
  have t1: "t1 = i32 (?f r)" using r by (simp add: t1_def IH swrap_swrap)
  define t2 where "t2 = (if a > L then i32 (t1 + rangeSumBST l L R) else t1)"
  have t2: "t2 = i32 (?f r + ?f l)" using l by (simp add: t2_def IH t1 w)
  have "rangeSumBST (Node l a r) L R = (if a \<le> R \<and> a \<ge> L then i32 (t2 + a) else t2)"
    by (simp add: t1_def t2_def Let_def)
  also have "\<dots> = i32 (?f r + ?f l + (if L \<le> a \<and> a \<le> R then a else 0))" by (simp add: t2 w)
  finally have "rangeSumBST (Node l a r) L R = i32 (?f r + ?f l + (if L \<le> a \<and> a \<le> R then a else 0))" .
  then show ?case by (simp add: add_ac)
qed simp

subsection \<open>The least difference\<close>

fun neighbours :: "int list \<Rightarrow> int list" where
  "neighbours [] = []"
| "neighbours [x] = []"
| "neighbours (x # y # zs) = (y - x) # neighbours (y # zs)"

lemma neighbours_append:
  "neighbours (xs @ a # ys) =
   neighbours xs @ (if xs = [] then [] else [a - last xs]) @ (if ys = [] then [] else [hd ys - a]) @ neighbours ys"
proof (induction xs rule: neighbours.induct)
  case 1
  then show ?case by (cases ys) auto
next
  case (2 x)
  then show ?case by (cases ys) auto
next
  case (3 x y zs)
  then show ?case by simp
qed

lemma foldl_min_out: "foldl min (min m x) xs = min (foldl min m xs) (x :: int)"
proof (induction xs arbitrary: m)
  case (Cons a xs)
  have "min (min m x) a = min (min m a) x" by (simp add: min.commute min.left_commute)
  then show ?case using Cons [of "min m a"] by simp
qed simp

lemma neighbours_Cons: "ys \<noteq> [] \<Longrightarrow> neighbours (a # ys) = (hd ys - a) # neighbours ys"
  by (cases ys) auto

lemma min_diff_help_spec:
  "bst t \<Longrightarrow> int_tree t \<Longrightarrow> \<forall>x \<in> set_tree t. \<forall>y \<in> set_tree t. x - y \<le> INT_MAX \<Longrightarrow>
   minDiffInBSTHelp t m =
     (if t = Leaf then (((False, INT_MAX), (False, INT_MIN)), m)
      else (((True, hd (inorder t)), (True, last (inorder t))), foldl min m (neighbours (inorder t))))"
proof (induction t arbitrary: m)
  case (Node l a r)
  let ?L = "inorder l" and ?R = "inorder r"
  have sub: "bst l" "bst r" "int_tree l" "int_tree r"
    "\<forall>x \<in> set_tree l. \<forall>y \<in> set_tree l. x - y \<le> INT_MAX" "\<forall>x \<in> set_tree r. \<forall>y \<in> set_tree r. x - y \<le> INT_MAX"
    using Node.prems by auto
  have last_l: "last ?L < a" "i32 \<bar>i32 (a - last ?L)\<bar> = a - last ?L" "min (hd ?L) a = hd ?L" if "l \<noteq> Leaf"
  proof -
    have i: "last ?L \<in> set_tree l" "hd ?L \<in> set_tree l" using that by (auto simp flip: set_inorder)
    then show "last ?L < a" "min (hd ?L) a = hd ?L" using Node.prems(1) by auto
    moreover have "a - last ?L \<le> INT_MAX" using Node.prems(3) i by auto
    ultimately show "i32 \<bar>i32 (a - last ?L)\<bar> = a - last ?L" by simp
  qed
  have hd_r: "a < hd ?R" "i32 \<bar>i32 (a - hd ?R)\<bar> = hd ?R - a" "max (last ?R) a = last ?R" if "r \<noteq> Leaf"
  proof -
    have i: "last ?R \<in> set_tree r" "hd ?R \<in> set_tree r" using that by (auto simp flip: set_inorder)
    then show "a < hd ?R" "max (last ?R) a = last ?R" using Node.prems(1) by (auto simp: max_def)
    moreover have "hd ?R - a \<le> INT_MAX" using Node.prems(3) i by auto
    ultimately show "i32 \<bar>i32 (a - hd ?R)\<bar> = hd ?R - a" by simp
  qed
  have amm: "min INT_MAX a = a" "max INT_MIN a = a" using Node.prems(2) by auto
  note IH = Node.IH(1) [OF sub(1,3,5)] Node.IH(2) [OF sub(2,4,6)]
  show ?case
  proof (cases "l = Leaf")
    case True
    then show ?thesis using hd_r amm by (cases "r = Leaf") (simp_all add: IH foldl_min_out neighbours_Cons)
  next
    case False
    note ll = last_l [OF False]
    have l: "minDiffInBSTHelp l m = (((True, hd ?L), (True, last ?L)), foldl min m (neighbours ?L))" for m
      using IH(1) [of m] False by simp
    have ne: "?L \<noteq> []" using False by simp
    show ?thesis
    proof (cases "r = Leaf")
      case True
      then show ?thesis using ne
        by (simp add: l Let_def ll amm neighbours_append del: i32_id)
    next
      case rr: False
      note hr = hd_r [OF rr]
      have r: "minDiffInBSTHelp r m = (((True, hd ?R), (True, last ?R)), foldl min m (neighbours ?R))" for m
        using IH(2) [of m] rr by simp
      have "?R \<noteq> []" using rr by simp
      then show ?thesis using ne
        by (simp add: l r Let_def ll hr amm neighbours_append foldl_min_out del: i32_id)
    qed
  qed
qed simp

text \<open>In an increasing list the least distance is between neighbours.\<close>

lemma neighbours_least:
  "sorted_wrt (<) xs \<Longrightarrow> x \<in> set xs \<Longrightarrow> y \<in> set xs \<Longrightarrow> x < y \<Longrightarrow> \<exists>d \<in> set (neighbours xs). d \<le> y - x"
proof (induction xs rule: neighbours.induct)
  case (3 a b zs)
  show ?case
  proof (cases "x = a")
    case True
    then have "y = b \<or> b < y" using "3.prems" by auto
    then show ?thesis using True by auto
  next
    case False
    then have "y \<noteq> a" using "3.prems" by auto
    then show ?thesis using 3 False by auto
  qed
qed auto

lemma neighbours_pairs:
  "sorted_wrt (<) xs \<Longrightarrow> d \<in> set (neighbours xs) \<Longrightarrow> \<exists>x \<in> set xs. \<exists>y \<in> set xs. x < y \<and> d = y - x"
proof (induction xs rule: neighbours.induct)
  case (3 a b zs)
  show ?case
  proof (cases "d = b - a")
    case True
    then show ?thesis using "3.prems" by auto
  next
    case False
    then obtain x y where "x \<in> set (b # zs)" "y \<in> set (b # zs)" "x < y" "d = y - x" using 3 by auto
    then show ?thesis by (intro bexI [of _ x] bexI [of _ y]) auto
  qed
qed auto

text \<open>\<open>minDiffInBST\<close> is the least distance between two different values.\<close>

theorem minDiffInBST_correct:
  assumes "bst t" "int_tree t" "\<forall>x \<in> set_tree t. \<forall>y \<in> set_tree t. x - y \<le> INT_MAX"
    and "u \<in> set_tree t" "v \<in> set_tree t" "u \<noteq> v"
  shows "minDiffInBST t = Min {\<bar>x - y\<bar> |x y. x \<in> set_tree t \<and> y \<in> set_tree t \<and> x \<noteq> y}"
proof -
  let ?D = "{\<bar>x - y\<bar> |x y. x \<in> set_tree t \<and> y \<in> set_tree t \<and> x \<noteq> y}" and ?N = "neighbours (inorder t)"
  have srt: "sorted_wrt (<) (inorder t)" using assms(1) by (simp add: bst_iff_sorted_wrt_less)
  have "?D = (\<lambda>(x, y). \<bar>x - y\<bar>) ` ({(x, y). x \<in> set_tree t \<and> y \<in> set_tree t \<and> x \<noteq> y})" by auto
  moreover have "finite {(x, y). x \<in> set_tree t \<and> y \<in> set_tree t \<and> x \<noteq> y}"
    by (rule finite_subset [of _ "set_tree t \<times> set_tree t"]) auto
  ultimately have fin: "finite ?D" by simp
  have sub: "d \<in> ?D \<and> d \<le> INT_MAX" if "d \<in> set ?N" for d
    using neighbours_pairs [OF srt that] assms(3) by force
  have low: "\<exists>d \<in> set ?N. d \<le> e" if "e \<in> ?D" for e
  proof -
    obtain x y where xy: "x \<in> set_tree t" "y \<in> set_tree t" "x \<noteq> y" "e = \<bar>x - y\<bar>" using \<open>e \<in> ?D\<close> by auto
    show ?thesis using neighbours_least [OF srt, of x y] neighbours_least [OF srt, of y x] xy
      by (cases "x < y") (auto simp: abs_if)
  qed
  have "t \<noteq> Leaf" using assms(4) by auto
  then have "minDiffInBST t = Min (insert INT_MAX (set ?N))"
    using min_diff_help_spec [OF assms(1-3)] by (simp add: minDiffInBST_def foldl_min)
  also have "\<dots> = Min ?D"
  proof (rule antisym)
    have "?D \<noteq> {}" using assms(4-6) by blast
    then have "Min ?D \<in> ?D" using fin by (rule Min_in [rotated])
    then obtain d where "d \<in> set ?N" "d \<le> Min ?D" using low by blast
    then show "Min (insert INT_MAX (set ?N)) \<le> Min ?D" by (meson Min_le finite.insertI List.finite_set insertI2 order_trans)
    have "Min ?D \<le> d" if "d \<in> set ?N" for d using sub [OF that] fin by (intro Min_le) auto
    moreover have "Min ?D \<le> INT_MAX" using sub [OF \<open>d \<in> set ?N\<close>] \<open>d \<in> set ?N\<close> calculation order_trans by blast
    ultimately show "Min ?D \<le> Min (insert INT_MAX (set ?N))" by (intro Min.boundedI) auto
  qed
  finally show ?thesis .
qed

theorem minDiffInBST_correct_witness:
  "minDiffInBST (Node (Node Leaf 0 Leaf) 1 (Node Leaf 48 Leaf)) =
    Min {\<bar>x - y\<bar> |x y. x \<in> set_tree (Node (Node Leaf 0 Leaf) 1 (Node Leaf 48 Leaf)) \<and>
      y \<in> set_tree (Node (Node Leaf 0 Leaf) 1 (Node Leaf (48 :: int) Leaf)) \<and> x \<noteq> y}"
  by (rule minDiffInBST_correct [where u = 0 and v = 1]) auto

subsection \<open>Modes\<close>

definition mode_step :: "mode_state \<Rightarrow> int \<Rightarrow> mode_state" where
  "mode_step st a =
     (case prev_val st of
        None \<Rightarrow> st\<lparr>same_count := 1\<rparr>
      | Some p \<Rightarrow>
          if p = a then st\<lparr>same_count := i32 (same_count st + 1)\<rparr>
          else st\<lparr>mode_so_far := try_new_mode (mode_so_far st) p (same_count st), same_count := 1\<rparr>)\<lparr>prev_val := Some a\<rparr>"

lemma mode_step_Some:
  "mode_step \<lparr>prev_val = Some p, same_count = c, mode_so_far = M\<rparr> a =
   (if p = a then \<lparr>prev_val = Some a, same_count = i32 (c + 1), mode_so_far = M\<rparr>
    else \<lparr>prev_val = Some a, same_count = 1, mode_so_far = try_new_mode M p c\<rparr>)"
  by (simp add: mode_step_def)

lemma inorder_mode_fold: "inorder_mode t st = foldl mode_step st (inorder t)"
  by (induction t arbitrary: st) (simp_all add: mode_step_def Let_def)

text \<open>The values of a sorted list with their counts, all but the last of which the calculator has seen.\<close>

definition value_counts :: "int list \<Rightarrow> int list \<Rightarrow> (int \<times> int) list" where
  "value_counts xs vs = map (\<lambda>v. (v, int (count_list xs v))) vs"

lemma remdups_adj_snoc:
  "xs \<noteq> [] \<Longrightarrow> remdups_adj (xs @ [a]) = (if last xs = a then remdups_adj xs else remdups_adj xs @ [a])"
  by (induction xs rule: remdups_adj.induct) auto

lemma sorted_remdups_adj: "sorted xs \<Longrightarrow> sorted_wrt (<) (remdups_adj xs)"
proof (induction xs rule: remdups_adj.induct)
  case (3 x y xs)
  then show ?case by (auto simp: le_less)
qed auto

lemma last_remdups_adj: "xs \<noteq> [] \<Longrightarrow> last (remdups_adj xs) = last xs"
  by (induction xs rule: remdups_adj.induct) auto

lemma mode_fold_spec:
  "sorted xs \<Longrightarrow> xs \<noteq> [] \<Longrightarrow> length xs < 2147483648 \<Longrightarrow>
   foldl mode_step \<lparr>prev_val = None, same_count = 0, mode_so_far = mode_calc_init\<rparr> xs =
   \<lparr>prev_val = Some (last xs), same_count = int (count_list xs (last xs)),
    mode_so_far = foldl (\<lambda>m (v, c). try_new_mode m v c) mode_calc_init (value_counts xs (butlast (remdups_adj xs)))\<rparr>"
proof (induction xs rule: rev_induct)
  case (snoc a xs)
  show ?case
  proof (cases "xs = []")
    case True
    then show ?thesis by (simp add: mode_step_def value_counts_def)
  next
    case False
    have srt: "sorted xs" "\<forall>x \<in> set xs. x \<le> a" using snoc.prems(1) by (auto simp: sorted_append)
    have IH: "foldl mode_step \<lparr>prev_val = None, same_count = 0, mode_so_far = mode_calc_init\<rparr> xs =
        \<lparr>prev_val = Some (last xs), same_count = int (count_list xs (last xs)),
         mode_so_far = foldl (\<lambda>m (v, c). try_new_mode m v c) mode_calc_init (value_counts xs (butlast (remdups_adj xs)))\<rparr>"
      using snoc.IH srt False snoc.prems(3) by simp
    have less: "\<forall>v \<in> set (butlast (remdups_adj xs)). v < last xs"
    proof -
      have "remdups_adj xs = butlast (remdups_adj xs) @ [last xs]"
        using False last_remdups_adj [OF False] by (metis append_butlast_last_id remdups_adj_Nil_iff)
      then show ?thesis using sorted_remdups_adj [OF srt(1)] by (metis sorted_wrt_append list.set_intros(1))
    qed
    show ?thesis
    proof (cases "last xs = a")
      case True
      have "count_list xs a < 2147483647" using snoc.prems(3) count_le_length [of xs a] by simp
      moreover have "value_counts (xs @ [a]) (butlast (remdups_adj xs)) = value_counts xs (butlast (remdups_adj xs))"
        using less True by (auto simp: value_counts_def)
      ultimately show ?thesis using IH True remdups_adj_snoc [OF False, of a]
        by (simp add: mode_step_Some)
    next
      case neq: False
      have "last xs < a" using neq srt(2) False by (simp add: order.not_eq_order_implies_strict)
      then have notin: "a \<notin> set xs" using sorted_le_last [OF srt(1)] by fastforce
      have "value_counts (xs @ [a]) (remdups_adj xs) = value_counts xs (butlast (remdups_adj xs)) @ [(last xs, int (count_list xs (last xs)))]"
      proof -
        have "remdups_adj xs = butlast (remdups_adj xs) @ [last xs]"
          using False last_remdups_adj [OF False] by (metis append_butlast_last_id remdups_adj_Nil_iff)
        then have "value_counts xs (remdups_adj xs) = value_counts xs (butlast (remdups_adj xs)) @ [(last xs, int (count_list xs (last xs)))]"
          unfolding value_counts_def by (metis (no_types, lifting) list.simps(8,9) map_append)
        moreover have "value_counts (xs @ [a]) (remdups_adj xs) = value_counts xs (remdups_adj xs)"
          using notin by (auto simp: value_counts_def)
        ultimately show ?thesis by simp
      qed
      then show ?thesis using IH neq notin remdups_adj_snoc [OF False, of a]
        by (simp add: mode_step_Some)
    qed
  qed
qed simp

text \<open>For a tree sorted in order \<open>findMode\<close> lists the most frequent values, each once, in increasing order.\<close>

theorem findMode_correct:
  assumes "sorted (inorder t)" "size t < 2147483648"
  shows "sorted_wrt (<) (findMode t) \<and>
    set (findMode t) = {x \<in> set_tree t. \<forall>y. count_list (inorder t) y \<le> count_list (inorder t) x}"
proof (cases "t = Leaf")
  case True
  then show ?thesis by (simp add: findMode_def)
next
  case False
  let ?xs = "inorder t"
  have ne: "?xs \<noteq> []" using False by simp
  define vc where "vc = value_counts ?xs (remdups_adj ?xs)"
  have "remdups_adj ?xs = butlast (remdups_adj ?xs) @ [last ?xs]"
    using ne last_remdups_adj [OF ne] by (metis append_butlast_last_id remdups_adj_Nil_iff)
  then have vc: "vc = value_counts ?xs (butlast (remdups_adj ?xs)) @ [(last ?xs, int (count_list ?xs (last ?xs)))]"
    unfolding vc_def value_counts_def by (metis (no_types, lifting) list.simps(8,9) map_append)
  have "findMode t = modes (foldl (\<lambda>m (v, c). try_new_mode m v c) mode_calc_init vc)"
    using mode_fold_spec [OF assms(1) ne] assms(2) False
    by (simp add: findMode_def inorder_mode_fold vc Let_def)
  also have "\<dots> = map fst (filter (\<lambda>x. snd x = Max (snd ` set vc)) vc)"
    using try_new_mode_fold [of vc] vc by simp
  finally have res: "findMode t = map fst (filter (\<lambda>x. snd x = Max (snd ` set vc)) vc)" .
  have keys: "map fst vc = remdups_adj ?xs" by (simp add: vc_def value_counts_def comp_def)
  have "sorted_wrt (<) (map fst vc)" unfolding keys by (rule sorted_remdups_adj [OF assms(1)])
  then have "sorted_wrt (\<lambda>p q. fst p < fst q) vc" by (simp add: sorted_wrt_map)
  then have "sorted_wrt (<) (findMode t)" unfolding res sorted_wrt_map by (rule sorted_wrt_filter)
  moreover have "set (findMode t) = {x \<in> set_tree t. \<forall>y. count_list ?xs y \<le> count_list ?xs x}"
  proof -
    have set: "set vc = (\<lambda>v. (v, int (count_list ?xs v))) ` set_tree t" by (simp add: vc_def value_counts_def)
    then have snds: "snd ` set vc = (\<lambda>v. int (count_list ?xs v)) ` set_tree t" by (simp add: image_image)
    have "int (count_list ?xs x) = Max (snd ` set vc) \<longleftrightarrow> (\<forall>y. count_list ?xs y \<le> count_list ?xs x)" if "x \<in> set_tree t" for x
    proof
      assume m: "int (count_list ?xs x) = Max (snd ` set vc)"
      have "count_list ?xs y \<le> count_list ?xs x" for y
      proof (cases "y \<in> set_tree t")
        case True
        then have "int (count_list ?xs y) \<in> snd ` set vc" unfolding set by force
        then have "int (count_list ?xs y) \<le> Max (snd ` set vc)" by (intro Max_ge) auto
        then show ?thesis using m by simp
      next
        case False
        then have "count_list ?xs y = 0" by (simp add: count_list_0_iff)
        then show ?thesis by simp
      qed
      then show "\<forall>y. count_list ?xs y \<le> count_list ?xs x" by blast
    next
      assume "\<forall>y. count_list ?xs y \<le> count_list ?xs x"
      then show "int (count_list ?xs x) = Max (snd ` set vc)"
        using that unfolding snds by (intro Max_eqI [symmetric]) auto
    qed
    then show ?thesis unfolding res by (auto simp: set image_iff)
  qed
  ultimately show ?thesis by blast
qed

theorem findMode_correct_witness:
  "sorted_wrt (<) (findMode (Node Leaf 1 (Node (Node Leaf 2 Leaf) (2 :: int) Leaf))) \<and>
   set (findMode (Node Leaf 1 (Node (Node Leaf 2 Leaf) (2 :: int) Leaf))) =
     {x \<in> set_tree (Node Leaf 1 (Node (Node Leaf 2 Leaf) (2 :: int) Leaf)).
       \<forall>y. count_list (inorder (Node Leaf 1 (Node (Node Leaf 2 Leaf) (2 :: int) Leaf))) y
         \<le> count_list (inorder (Node Leaf 1 (Node (Node Leaf 2 Leaf) (2 :: int) Leaf))) x}"
  by (rule findMode_correct) simp_all

end
