(* ===== verification/TreeNodes.thy ===== *)
theory TreeNodes
  imports CharLib "HOL-Library.Tree"
begin

section \<open>Binary tree nodes (leetcode/TreeNode.h)\<close>

text \<open>
  The static functions of \<open>TreeNode\<close>, \<open>buildBSTinorder\<close>, and the class \<open>Codec\<close> of
  leetcode/tree/BinaryTree.cpp, which serializes search trees with them. A tree that is only read or built
  bottom-up is a \<open>tree\<close> of the library with \<open>Leaf\<close> for a null pointer; a deque of non-null node pointers
  is a list of trees. \<open>CreateBinaryTree\<close> and \<open>ConstructBinaryTreePerLevel\<close> set the children of nodes they have
  already linked, so they run on an explicit store. \<open>None\<close> is an access outside a vector or through a null pointer.
\<close>

subsection \<open>Search trees from their preorder\<close>

text \<open>The loop of \<open>preorder\<close>: the first index up to \<open>high\<close> whose value is above \<open>v\<close>, else \<open>high + 1\<close>.\<close>

function first_greater :: "int list \<Rightarrow> int \<Rightarrow> int \<Rightarrow> int \<Rightarrow> int option" where
  "first_greater nodes v rgt high =
     (if rgt \<le> high then
        do {
          x \<leftarrow> ivec_at nodes rgt;
          if x > v then Some rgt else first_greater nodes v (rgt + 1) high
        }
      else Some rgt)"
  by pat_completeness auto
termination by (relation "measure (\<lambda>(nodes, v, rgt, high). nat (high + 1 - rgt))") auto

declare first_greater.simps [simp del]

lemma first_greater_bounds:
  "first_greater nodes v rgt high = Some k \<Longrightarrow> rgt \<le> high + 1 \<Longrightarrow> rgt \<le> k \<and> k \<le> high + 1 \<and>
     (rgt \<le> high \<longrightarrow> ivec_at nodes rgt = Some v \<longrightarrow> rgt < k)"
proof (induction nodes v rgt high rule: first_greater.induct)
  case (1 nodes v rgt high)
  show ?case
  proof (cases "rgt \<le> high")
    case True
    then obtain x where x: "ivec_at nodes rgt = Some x"
      using "1.prems"(1) by (subst (asm) first_greater.simps) (auto split: bind_splits)
    show ?thesis
    proof (cases "x > v")
      case False
      then have "first_greater nodes v (rgt + 1) high = Some k"
        using "1.prems"(1) True x by (subst (asm) first_greater.simps) simp
      then show ?thesis using "1.IH" [OF True x False] True by auto
    qed (use "1.prems" True x in \<open>subst (asm) first_greater.simps, simp\<close>)
  qed (use "1.prems" in \<open>subst (asm) first_greater.simps, simp\<close>)
qed

function preorder_range :: "int list \<Rightarrow> int \<Rightarrow> int \<Rightarrow> int tree option" where
  "preorder_range nodes low high =
     (if low > high then Some Leaf
      else do {
        v \<leftarrow> ivec_at nodes low;
        rgt \<leftarrow> first_greater nodes v low high;
        l \<leftarrow> preorder_range nodes (low + 1) (rgt - 1);
        r \<leftarrow> preorder_range nodes rgt high;
        Some (Node l v r)
      })"
  by pat_completeness auto
termination
  by (relation "measure (\<lambda>(nodes, low, high). nat (high + 1 - low))") (auto dest!: first_greater_bounds)

declare preorder_range.simps [simp del]

definition createBST :: "int list \<Rightarrow> int tree option" where
  "createBST nodes = preorder_range nodes 0 (int (length nodes) - 1)"

fun heightL :: "'a tree \<Rightarrow> int" where
  "heightL Leaf = 0"
| "heightL (Node l a r) = heightL l + 1"

fun heightR :: "'a tree \<Rightarrow> int" where
  "heightR Leaf = 0"
| "heightR (Node l a r) = heightR r + 1"

fun getHeight :: "'a tree \<Rightarrow> int" where
  "getHeight Leaf = 0"
| "getHeight (Node l a r) = max (getHeight l) (getHeight r) + 1"

text \<open>The tree a preorder list describes.\<close>

function preorder_tree :: "int list \<Rightarrow> int tree" where
  "preorder_tree [] = Leaf"
| "preorder_tree (v # xs) = Node (preorder_tree (takeWhile (\<lambda>x. x \<le> v) xs)) v (preorder_tree (dropWhile (\<lambda>x. x \<le> v) xs))"
  by pat_completeness auto
termination
  by (relation "measure length") (auto intro: le_imp_less_Suc length_takeWhile_le length_dropWhile_le)

lemma first_greater_spec:
  "first_greater (xs @ ys @ zs) v (int (length xs)) (int (length xs) + int (length ys) - 1) =
   Some (int (length xs) + int (length (takeWhile (\<lambda>x. x \<le> v) ys)))"
proof (induction ys arbitrary: xs)
  case Nil
  then show ?case by (simp add: first_greater.simps)
next
  case (Cons y ys)
  have at: "ivec_at (xs @ (y # ys) @ zs) (int (length xs)) = Some y" by (simp add: nth_append)
  have next': "first_greater (xs @ (y # ys) @ zs) v (int (length xs) + 1) (int (length xs) + int (length (y # ys)) - 1) =
      Some (int (length xs) + 1 + int (length (takeWhile (\<lambda>x. x \<le> v) ys)))"
    using Cons [of "xs @ [y]"] by (simp add: algebra_simps)
  show ?case
    by (subst first_greater.simps) (use at next' in \<open>auto simp del: append.simps append_assoc simp: ivec_at_def\<close>)
qed

lemma preorder_range_spec:
  "preorder_range (xs @ ys @ zs) (int (length xs)) (int (length xs) + int (length ys) - 1) = Some (preorder_tree ys)"
proof (induction ys arbitrary: xs zs rule: preorder_tree.induct)
  case 1
  then show ?case by (simp add: preorder_range.simps)
next
  case (2 v ys)
  let ?l = "takeWhile (\<lambda>x. x \<le> v) ys" and ?r = "dropWhile (\<lambda>x. x \<le> v) ys"
  let ?low = "int (length xs)" and ?high = "int (length xs) + int (length (v # ys)) - 1"
  have split: "length ?l + length ?r = length ys" by (metis length_append takeWhile_dropWhile_id)
  have tw: "?l @ ?r @ zs = ys @ zs" using takeWhile_dropWhile_id [of "\<lambda>x. x \<le> v" ys] by (metis append.assoc)
  have at: "ivec_at (xs @ (v # ys) @ zs) ?low = Some v" by (simp add: nth_append)
  have rgt: "first_greater (xs @ (v # ys) @ zs) v ?low ?high = Some (?low + 1 + int (length ?l))"
    using first_greater_spec [of xs "v # ys" zs v] by simp
  have left: "preorder_range (xs @ (v # ys) @ zs) (?low + 1) (?low + 1 + int (length ?l) - 1) = Some (preorder_tree ?l)"
    using "2.IH"(1) [of "xs @ [v]" "?r @ zs"] by (simp add: algebra_simps tw)
  have "preorder_range (xs @ (v # ys) @ zs) (?low + 1 + int (length ?l)) ?high = Some (preorder_tree ?r)"
    using "2.IH"(2) [of "xs @ v # ?l" zs] arg_cong [OF split, of int] by (simp add: algebra_simps tw)
  then show ?case
    by (subst preorder_range.simps) (use at rgt left in \<open>simp del: append.simps append_assoc\<close>)
qed

lemma preorder_preorder_tree: "Tree.preorder (preorder_tree xs) = xs"
  by (induction xs rule: preorder_tree.induct) simp_all

lemma takeWhile_bst:
  assumes "bst (Node l a r)"
  shows "takeWhile (\<lambda>x. x \<le> a) (Tree.preorder l @ Tree.preorder r) = Tree.preorder l"
    "dropWhile (\<lambda>x. x \<le> a) (Tree.preorder l @ Tree.preorder r) = Tree.preorder r"
proof -
  have "\<forall>x \<in> set (Tree.preorder l). x \<le> a" "\<forall>x \<in> set (Tree.preorder r). a < x"
    using assms by (auto simp: less_imp_le)
  moreover have "Tree.preorder r = [] \<or> \<not> hd (Tree.preorder r) \<le> a"
    using calculation(2) hd_in_set [of "Tree.preorder r"] by (auto simp: not_le)
  ultimately show "takeWhile (\<lambda>x. x \<le> a) (Tree.preorder l @ Tree.preorder r) = Tree.preorder l"
    "dropWhile (\<lambda>x. x \<le> a) (Tree.preorder l @ Tree.preorder r) = Tree.preorder r"
    by (auto simp: takeWhile_append dropWhile_append takeWhile_eq_Nil_iff dropWhile_eq_self_iff)
qed

lemma preorder_tree_bst: "bst t \<Longrightarrow> preorder_tree (Tree.preorder t) = t"
proof (induction t)
  case (Node l a r)
  then show ?case using takeWhile_bst [OF Node.prems] by simp
qed simp

text \<open>\<open>createBST\<close> never reads outside the vector; it returns a tree with the given preorder, and rebuilds every search
  tree from its preorder.\<close>

theorem createBST_roundtrip:
  "(\<exists>t. createBST nodes = Some t \<and> Tree.preorder t = nodes) \<and> (bst (t :: int tree) \<longrightarrow> createBST (Tree.preorder t) = Some t)"
  using preorder_range_spec [of "[]" nodes "[]"] preorder_range_spec [of "[]" "Tree.preorder t" "[]"]
  by (auto simp: createBST_def preorder_preorder_tree preorder_tree_bst)

theorem createBST_roundtrip_witness:
  "(\<exists>t. createBST [10, 5, 1, 7, 40, 50] = Some t \<and> Tree.preorder t = [10, 5, 1, 7, 40, 50]) \<and>
   createBST (Tree.preorder (Node (Node Leaf 5 Leaf) 10 (Node Leaf 40 Leaf))) = Some (Node (Node Leaf 5 Leaf) 10 (Node Leaf 40 Leaf))"
  using createBST_roundtrip [of "[10, 5, 1, 7, 40, 50]" "Node (Node Leaf 5 Leaf) 10 (Node Leaf 40 Leaf)"] by simp

lemma heights: "getHeight t = int (height t)" "heightL t \<le> getHeight t" "heightR t \<le> getHeight t"
  by (induction t) auto

subsection \<open>Trees as text\<close>

fun tree2str :: "int tree \<Rightarrow> string" where
  "tree2str Leaf = ''''"
| "tree2str (Node l a r) =
     (if l = Leaf \<and> r = Leaf then to_string a
      else let result = to_string a @ ''('' @ tree2str l @ '')''
           in if r \<noteq> Leaf then result @ ''('' @ tree2str r @ '')'' else result)"

text \<open>The digits and the sign of a number end where a bracket or the text ends.\<close>

definition number_char :: "char \<Rightarrow> bool" where
  "number_char c \<longleftrightarrow> isdigit c \<or> c = CHR ''-''"

lemma to_string_number: "to_string n \<noteq> [] \<and> (\<forall>c \<in> set (to_string n). number_char c)"
  using show_nat_digits by (auto simp: to_string_def number_char_def)

lemma number_char_bracket: "\<not> number_char CHR ''(''" "\<not> number_char CHR '')''"
  by (simp_all add: number_char_def isdigit_def code_def)

lemma to_string_value: "(if 0 \<le> n then digits_value 0 (to_string n) else - digits_value 0 (tl (to_string n))) = n"
  using show_nat_digits [of "nat n"] show_nat_digits [of "nat (- n)"] by (simp add: to_string_def)

lemma to_string_sign: "hd (to_string n) = CHR ''-'' \<longleftrightarrow> n < 0"
proof (cases "n < 0")
  case False
  then have "isdigit (hd (to_string n))" using show_nat_digits [of "nat n"] by (simp add: to_string_def)
  then show ?thesis using False digit_not_special by blast
qed (simp add: to_string_def)

lemma to_string_inject: "to_string m = to_string n \<longleftrightarrow> m = n"
proof
  assume eq: "to_string m = to_string n"
  then have neg: "0 \<le> m \<longleftrightarrow> 0 \<le> n" using to_string_sign by (metis not_less)
  have "(if 0 \<le> n then digits_value 0 (to_string n) else - digits_value 0 (tl (to_string n))) = m"
    using to_string_value [of m] unfolding eq neg .
  then show "m = n" unfolding to_string_value by (rule sym)
qed simp

lemma to_string_span:
  assumes "to_string m @ u = to_string n @ v" "u = [] \<or> \<not> number_char (hd u)" "v = [] \<or> \<not> number_char (hd v)"
  shows "m = n \<and> u = v"
proof -
  have tw: "takeWhile number_char (to_string k @ w) = to_string k" if "w = [] \<or> \<not> number_char (hd w)" for k w
    using that to_string_number [of k] by (auto simp: takeWhile_append takeWhile_eq_Nil_iff)
  have "to_string m = to_string n" using tw [OF assms(2), of m] tw [OF assms(3), of n] assms(1) by simp
  then show ?thesis using assms(1) to_string_inject by simp
qed

text \<open>What \<open>tree2str\<close> writes after the value of a node.\<close>

definition tree_body :: "int tree \<Rightarrow> int tree \<Rightarrow> string" where
  "tree_body l r =
     (if l = Leaf \<and> r = Leaf then [] else ''('' @ tree2str l @ '')'' @ (if r \<noteq> Leaf then ''('' @ tree2str r @ '')'' else []))"

lemma tree2str_Node: "tree2str (Node l a r) = to_string a @ tree_body l r"
  by (simp add: tree_body_def)

definition ends_tree :: "string \<Rightarrow> bool" where
  "ends_tree u \<longleftrightarrow> u = [] \<or> hd u = CHR '')''"

lemma ends_tree_simps [simp]: "ends_tree []" "ends_tree (CHR '')'' # u)" "\<not> ends_tree (CHR ''('' # u)"
  by (simp_all add: ends_tree_def)

lemma tree_body_stops: "ends_tree u \<Longrightarrow> tree_body l r @ u = [] \<or> \<not> number_char (hd (tree_body l r @ u))"
  using number_char_bracket by (auto simp: tree_body_def ends_tree_def)

lemma tree2str_starts: "\<not> ends_tree (tree2str (Node l a r) @ u)"
  unfolding tree2str_Node ends_tree_def using to_string_number [of a] number_char_bracket
  by (cases "to_string a") auto

lemma tree2str_prefix:
  "tree2str t @ u = tree2str t' @ u' \<Longrightarrow> ends_tree u \<Longrightarrow> ends_tree u' \<Longrightarrow> t = t' \<and> u = u'"
proof (induction t arbitrary: u t' u')
  case Leaf
  then show ?case using tree2str_starts [of _ _ _ u'] by (cases t') (auto simp del: tree2str.simps(2))
next
  case (Node l a r)
  show ?case
  proof (cases t')
    case Leaf
    then show ?thesis using Node.prems tree2str_starts [of l a r u] by (simp del: tree2str.simps(2))
  next
    case t': (Node l' a' r')
    have "to_string a @ tree_body l r @ u = to_string a' @ tree_body l' r' @ u'"
      using Node.prems(1) unfolding t' tree2str_Node by simp
    from to_string_span [OF this tree_body_stops [OF Node.prems(2)] tree_body_stops [OF Node.prems(3)]]
    have a: "a = a'" and body: "tree_body l r @ u = tree_body l' r' @ u'" by auto
    have empty: "tree_body l r = [] \<longleftrightarrow> l = Leaf \<and> r = Leaf" for l r by (simp add: tree_body_def)
    show ?thesis
    proof (cases "tree_body l r = [] \<or> tree_body l' r' = []")
      case True
      then have "tree_body l r = [] \<and> tree_body l' r' = []"
        using body Node.prems(2,3) by (auto simp: tree_body_def split: if_splits)
      then show ?thesis using a body t' empty by simp
    next
      case False
      define rest where "rest r u = CHR '')'' # (if r \<noteq> Leaf then ''('' @ tree2str r @ '')'' else []) @ u" for r u
      have b: "tree_body l r @ u = ''('' @ tree2str l @ rest r u" "tree_body l' r' @ u' = ''('' @ tree2str l' @ rest r' u'"
        using False by (auto simp: tree_body_def rest_def)
      then have "tree2str l @ rest r u = tree2str l' @ rest r' u'" using body by simp
      then have l: "l = l'" "rest r u = rest r' u'" using Node.IH(1) [of "rest r u" l' "rest r' u'"] by (auto simp: rest_def)
      have "r = r' \<and> u = u'"
      proof (cases "r = Leaf \<or> r' = Leaf")
        case True
        then show ?thesis using l(2) Node.prems(2,3) by (auto simp: rest_def split: if_splits)
      next
        case F: False
        then have "tree2str r @ '')'' @ u = tree2str r' @ '')'' @ u'" using l(2) by (simp add: rest_def)
        then show ?thesis using Node.IH(2) [of "'')'' @ u" r' "'')'' @ u'"] by auto
      qed
      then show ?thesis using a l(1) t' by simp
    qed
  qed
qed

text \<open>Although \<open>tree2str\<close> leaves out brackets, two different trees never have the same text.\<close>

theorem tree2str_injective: "tree2str t = tree2str t' \<longleftrightarrow> t = t'"
  using tree2str_prefix [of t "[]" t' "[]"] by auto

subsection \<open>Level order\<close>

fun bfs :: "'a tree list \<Rightarrow> nat \<Rightarrow> 'a tree list option" where
  "bfs dq 0 = Some dq"
| "bfs [] (Suc n) = None"
| "bfs (Leaf # dq) (Suc n) = None"
| "bfs (Node l a r # dq) (Suc n) =
     bfs (dq @ (if l \<noteq> Leaf then [l] else []) @ (if r \<noteq> Leaf then [r] else [])) n"

fun node_values :: "'a tree list \<Rightarrow> 'a list option" where
  "node_values [] = Some []"
| "node_values (Leaf # dq) = None"
| "node_values (Node l a r # dq) = map_option ((#) a) (node_values dq)"

definition children :: "'a tree list \<Rightarrow> 'a tree list" where
  "children q = filter (\<lambda>t. t \<noteq> Leaf) (concat (map (\<lambda>t. case t of Leaf \<Rightarrow> [] | Node l a r \<Rightarrow> [l, r]) q))"

lemma bfs_children: "Leaf \<notin> set q \<Longrightarrow> bfs (q @ p) (length q) = Some (p @ children q)"
proof (induction q arbitrary: p)
  case (Cons t q)
  then show ?case by (cases t) (auto simp: children_def)
qed (simp add: children_def)

lemma bfs_no_leaf: "bfs q (length q) = Some q' \<Longrightarrow> Leaf \<notin> set q"
proof -
  have "bfs (q @ p) (length q) = Some q' \<Longrightarrow> Leaf \<notin> set q" for p
  proof (induction q arbitrary: p)
    case (Cons t q)
    then show ?case by (cases t) auto
  qed simp
  from this [of "[]"] show "bfs q (length q) = Some q' \<Longrightarrow> Leaf \<notin> set q" by simp
qed

lemma children_size:
  "q \<noteq> [] \<Longrightarrow> Leaf \<notin> set q \<Longrightarrow> sum_list (map size (children q)) < sum_list (map size q)"
proof -
  have le: "sum_list (map size (children q)) \<le> sum_list (map size q)" for q :: "'a tree list"
  proof (induction q)
    case (Cons t q)
    then show ?case by (cases t) (auto simp: children_def)
  qed (simp add: children_def)
  assume "q \<noteq> []" "Leaf \<notin> set q"
  then obtain l a r p where q: "q = Node l a r # p" by (cases q) (auto split: tree.splits, metis tree.exhaust)
  have "children q = filter (\<lambda>t. t \<noteq> Leaf) [l, r] @ children p" by (simp add: q children_def)
  then show ?thesis using le [of p] by (auto simp: q)
qed

lemma bfs_size: "bfs q (length q) = Some q' \<Longrightarrow> q \<noteq> [] \<Longrightarrow> sum_list (map size q') < sum_list (map size q)"
  using bfs_no_leaf [of q q'] bfs_children [of q "[]"] children_size [of q] by simp

function level_loop :: "'a tree list \<Rightarrow> 'a list list \<Rightarrow> 'a list list option" where
  "level_loop dq ans =
     (if dq = [] then Some ans
      else do {
        vals \<leftarrow> node_values dq;
        dq' \<leftarrow> bfs dq (length dq);
        level_loop dq' (ans @ [vals])
      })"
  by pat_completeness auto
termination
  by (relation "measure (\<lambda>(dq, ans). sum_list (map size dq))")
    (auto dest!: bfs_size)

declare level_loop.simps [simp del]

definition levelOrder :: "'a tree \<Rightarrow> 'a list list option" where
  "levelOrder rt = (if rt = Leaf then Some [] else level_loop [rt] [])"

text \<open>The values at a depth, from left to right.\<close>

fun at_depth :: "'a tree \<Rightarrow> nat \<Rightarrow> 'a list" where
  "at_depth Leaf d = []"
| "at_depth (Node l a r) 0 = [a]"
| "at_depth (Node l a r) (Suc d) = at_depth l d @ at_depth r d"

definition forest_depth :: "'a tree list \<Rightarrow> nat \<Rightarrow> 'a list" where
  "forest_depth q d = concat (map (\<lambda>t. at_depth t d) q)"

definition forest_height :: "'a tree list \<Rightarrow> nat" where
  "forest_height q = Max (insert 0 (height ` set q))"

lemma forest_depth_0: "Leaf \<notin> set q \<Longrightarrow> node_values q = Some (forest_depth q 0)"
proof (induction q)
  case (Cons t q)
  then show ?case by (cases t) (auto simp: forest_depth_def)
qed (simp add: forest_depth_def)

lemma forest_depth_children: "Leaf \<notin> set q \<Longrightarrow> forest_depth (children q) d = forest_depth q (Suc d)"
proof (induction q)
  case (Cons t q)
  then show ?case by (cases t) (auto simp: forest_depth_def children_def)
qed (simp add: forest_depth_def children_def)

lemma forest_height_Cons: "forest_height (t # q) = max (height t) (forest_height q)"
  proof -
  have "insert 0 (height ` set (t # q)) = insert (height t) (insert 0 (height ` set q))" by auto
  then show ?thesis unfolding forest_height_def by (simp only: Max_insert finite.intros List.finite_set finite_imageI) simp
qed

lemma forest_height_append: "forest_height (p @ q) = max (forest_height p) (forest_height q)"
  by (induction p) (simp_all add: forest_height_Cons max.assoc, simp add: forest_height_def)

lemma forest_height_children:
  "q \<noteq> [] \<Longrightarrow> Leaf \<notin> set q \<Longrightarrow> forest_height q = Suc (forest_height (children q))"
proof (induction q)
  case (Cons t q)
  obtain l a r where t: "t = Node l a r" using Cons.prems by (cases t) auto
  have c: "children (t # q) = filter (\<lambda>t. t \<noteq> Leaf) [l, r] @ children q" by (simp add: t children_def)
  have lr: "forest_height (filter (\<lambda>t. t \<noteq> Leaf) [l, r]) = max (height l) (height r)"
    by (auto simp: forest_height_Cons forest_height_def [of "[]"])
  show ?case
  proof (cases "q = []")
    case True
    then show ?thesis using lr unfolding c forest_height_append
      by (simp add: forest_height_Cons t children_def forest_height_def [of "[]"])
  next
    case False
    then have "forest_height q = Suc (forest_height (children q))" using Cons by simp
    then show ?thesis unfolding c forest_height_append lr by (simp add: forest_height_Cons t)
  qed
qed simp

lemma level_loop_spec:
  "Leaf \<notin> set q \<Longrightarrow> level_loop q ans = Some (ans @ map (forest_depth q) [0..<forest_height q])"
proof (induction "sum_list (map size q)" arbitrary: q ans rule: less_induct)
  case less
  show ?case
  proof (cases "q = []")
    case True
    then show ?thesis by (subst level_loop.simps) (simp add: forest_height_def)
  next
    case False
    have "level_loop q ans = level_loop (children q) (ans @ [forest_depth q 0])"
      using False bfs_children [OF less.prems, of "[]"] forest_depth_0 [OF less.prems] by (subst level_loop.simps) simp
    also have "\<dots> = Some ((ans @ [forest_depth q 0]) @ map (forest_depth (children q)) [0..<forest_height (children q)])"
      by (rule less.hyps [OF children_size [OF False less.prems]]) (simp add: children_def)
    also have "map (forest_depth (children q)) [0..<forest_height (children q)] = map (forest_depth q) [1..<forest_height q]"
      using forest_depth_children [OF less.prems] forest_height_children [OF False less.prems]
      by (simp add: map_Suc_upt [symmetric] comp_def del: upt_Suc)
    also have "(ans @ [forest_depth q 0]) @ \<dots> = ans @ map (forest_depth q) (0 # [1..<forest_height q])" by simp
    also have "0 # [1..<forest_height q] = [0..<forest_height q]"
      using forest_height_children [OF False less.prems] by (simp add: upt_conv_Cons)
    finally show ?thesis .
  qed
qed

text \<open>\<open>levelOrder\<close> always returns, and lists the values of every depth of the tree from left to right.\<close>

theorem levelOrder_levels: "levelOrder t = Some (map (at_depth t) [0..<height t])"
proof (cases "t = Leaf")
  case False
  then show ?thesis
    using level_loop_spec [of "[t]" "[]"]
    by (simp add: levelOrder_def forest_height_Cons forest_height_def [of "[]"]) (simp add: forest_depth_def)
qed (simp add: levelOrder_def)

subsection \<open>Balanced search trees\<close>

text \<open>The iterators delimit a range of the vector, here the list \<open>xs\<close> of its values.\<close>

function buildBSTinorder :: "'a list \<Rightarrow> 'a tree" where
  "buildBSTinorder xs =
     (if xs = [] then Leaf
      else let mid = length xs div 2
           in Node (buildBSTinorder (take mid xs)) (xs ! mid) (buildBSTinorder (drop (mid + 1) xs)))"
  by pat_completeness auto
termination by (relation "measure length") (auto intro: div_less_dividend)

declare buildBSTinorder.simps [simp del]

lemma buildBSTinorder_inorder: "inorder (buildBSTinorder xs) = xs"
proof (induction xs rule: buildBSTinorder.induct)
  case (1 xs)
  show ?case
  proof (cases "xs = []")
    case False
    then have "length xs div 2 < length xs" by (simp add: div_less_dividend)
    then show ?thesis using 1 [OF False refl] False by (subst buildBSTinorder.simps) (simp add: Let_def id_take_nth_drop [symmetric])
  qed (simp add: buildBSTinorder.simps)
qed

lemma buildBSTinorder_height: "length xs < 2 ^ h \<Longrightarrow> height (buildBSTinorder xs) \<le> h"
proof (induction xs arbitrary: h rule: buildBSTinorder.induct)
  case (1 xs)
  show ?case
  proof (cases "xs = []")
    case False
    then obtain k where k: "h = Suc k" using "1.prems" by (cases h) auto
    have "length (take (length xs div 2) xs) < 2 ^ k" "length (drop (length xs div 2 + 1) xs) < 2 ^ k"
      using "1.prems" k False by (cases xs; simp)+
    then have "height (buildBSTinorder (take (length xs div 2) xs)) \<le> k" "height (buildBSTinorder (drop (length xs div 2 + 1) xs)) \<le> k"
      using "1.IH" [OF False refl] by blast+
    then show ?thesis using False by (subst buildBSTinorder.simps) (simp add: Let_def k)
  qed (simp add: buildBSTinorder.simps)
qed

text \<open>\<open>buildBSTinorder\<close> of an increasing vector is a search tree with exactly its values, and no binary tree with as many
  nodes is lower.\<close>

theorem buildBSTinorder_optimal:
  fixes t :: "'b tree"
  assumes "sorted_wrt (<) xs"
  shows "bst (buildBSTinorder xs) \<and> inorder (buildBSTinorder xs) = xs \<and>
    (size t = length xs \<longrightarrow> height (buildBSTinorder xs) \<le> height t)"
proof (intro conjI impI)
  show "inorder (buildBSTinorder xs) = xs" by (rule buildBSTinorder_inorder)
  then show "bst (buildBSTinorder xs)" using assms by (simp add: bst_iff_sorted_wrt_less)
  assume "size t = length xs"
  then have "length xs < 2 ^ height t" using size1_height [of t] by (simp add: size1_size)
  then show "height (buildBSTinorder xs) \<le> height t" by (rule buildBSTinorder_height)
qed

theorem buildBSTinorder_optimal_witness:
  "bst (buildBSTinorder [-10, -3, 0, 5, 9 :: int]) \<and> inorder (buildBSTinorder [-10, -3, 0, 5, 9 :: int]) = [-10, -3, 0, 5, 9] \<and>
   (size (Node Leaf (1 :: int) Leaf) = length [-10, -3, 0, 5, 9 :: int] \<longrightarrow>
     height (buildBSTinorder [-10, -3, 0, 5, 9 :: int]) \<le> height (Node Leaf (1 :: int) Leaf))"
  by (rule buildBSTinorder_optimal) simp

subsection \<open>Reading integers from a text\<close>

text \<open>
  One extraction of an \<open>int\<close> from a stream: blanks are skipped, a sign and all digits are read; it fails without a
  digit or for a number outside the range of \<open>int\<close>. \<open>std::stoi\<close> converts the start of a string in the same
  way and throws where the extraction fails. \<open>read_ints\<close> is the range of an \<open>istream_iterator<int>\<close>.
\<close>

definition read_sign :: "string \<Rightarrow> bool \<times> string" where
  "read_sign s = (case s of [] \<Rightarrow> (False, s)
     | c # cs \<Rightarrow> if c = CHR ''-'' then (True, cs) else if c = CHR ''+'' then (False, cs) else (False, s))"

definition read_int :: "string \<Rightarrow> (int \<times> string) option" where
  "read_int s =
     (let (neg, s) = read_sign (dropWhile isspace s);
          ds = takeWhile isdigit s;
          n = (if neg then - digits_value 0 ds else digits_value 0 ds)
      in if ds = [] \<or> n < - 2147483648 \<or> n > 2147483647 then None else Some (n, dropWhile isdigit s))"

definition stoi :: "string \<Rightarrow> int option" where
  "stoi s = map_option fst (read_int s)"

lemma read_sign_length: "length (snd (read_sign s)) \<le> length s"
  by (cases s) (auto simp: read_sign_def)

lemma read_int_shorter: "read_int s = Some (n, s') \<Longrightarrow> length s' < length s"
proof -
  assume r: "read_int s = Some (n, s')"
  obtain neg u where u: "read_sign (dropWhile isspace s) = (neg, u)" by force
  then have "takeWhile isdigit u \<noteq> []" "s' = dropWhile isdigit u" using r by (auto simp: read_int_def Let_def split: if_splits)
  then have "length s' < length u" using takeWhile_dropWhile_id [of isdigit u] by (metis length_append length_greater_0_conv less_add_same_cancel2)
  also have "length u \<le> length s" using read_sign_length [of "dropWhile isspace s"] length_dropWhile_le [of isspace s] u by simp
  finally show ?thesis .
qed

function read_ints :: "string \<Rightarrow> int list" where
  "read_ints s = (case read_int s of None \<Rightarrow> [] | Some (n, s') \<Rightarrow> n # read_ints s')"
  by pat_completeness auto
termination by (relation "measure length") (auto dest: read_int_shorter)

declare read_ints.simps [simp del]

lemma read_int_to_string:
  assumes "- 2147483648 \<le> n" "n \<le> 2147483647" "u = [] \<or> \<not> isdigit (hd u)"
  shows "read_int (to_string n @ u) = Some (n, u)"
proof -
  define m where "m = nat \<bar>n\<bar>"
  note d = show_nat_digits [of m]
  have tw: "takeWhile isdigit (show_nat m @ u) = show_nat m" "dropWhile isdigit (show_nat m @ u) = u"
    using d assms(3) by (auto simp: takeWhile_append dropWhile_append takeWhile_eq_Nil_iff dropWhile_eq_self_iff)
  obtain c cs where c: "show_nat m = c # cs" "isdigit c" by (rule show_nat_Cons)
  note c' = digit_not_special [OF c(2)]
  show ?thesis
  proof (cases "n < 0")
    case True
    have "\<not> isspace CHR ''-''" by (simp add: isspace_def code_def)
    then have "read_sign (dropWhile isspace (to_string n @ u)) = (True, show_nat m @ u)"
      using True by (simp add: to_string_def m_def read_sign_def)
    then show ?thesis using True d tw assms by (simp add: read_int_def) (simp add: m_def)
  next
    case False
    then have "read_sign (dropWhile isspace (to_string n @ u)) = (False, show_nat m @ u)"
      using c c' by (simp add: to_string_def m_def read_sign_def)
    then show ?thesis using False d tw assms by (simp add: read_int_def) (simp add: m_def)
  qed
qed

lemma node_stoi_to_string: "- 2147483648 \<le> n \<Longrightarrow> n \<le> 2147483647 \<Longrightarrow> stoi (to_string n) = Some n"
  using read_int_to_string [of n "[]"] by (simp add: stoi_def)

subsection \<open>Serialization of search trees\<close>

definition serialize :: "int tree \<Rightarrow> string" where
  "serialize rt = concat (map (\<lambda>x. to_string x @ '' '') (Tree.preorder rt))"

definition deserialize :: "string \<Rightarrow> int tree option" where
  "deserialize data = (let vi = read_ints data in preorder_range vi 0 (int (length vi) - 1))"

lemma read_int_blank: "read_int (CHR '' '' # s) = read_int s"
  by (simp add: read_int_def isspace_def code_def)

lemma read_ints_concat:
  "\<forall>x \<in> set xs. - 2147483648 \<le> x \<and> x \<le> 2147483647 \<Longrightarrow>
   read_ints (concat (map (\<lambda>x. to_string x @ '' '') xs)) = xs"
proof (induction xs)
  case Nil
  then show ?case by (subst read_ints.simps) (simp add: read_int_def read_sign_def)
next
  case (Cons x xs)
  let ?s = "concat (map (\<lambda>x. to_string x @ '' '') xs)"
  have "\<not> isdigit CHR '' ''" by (simp add: isdigit_def code_def)
  then have "read_int (to_string x @ '' '' @ ?s) = Some (x, '' '' @ ?s)"
    using Cons.prems by (intro read_int_to_string) auto
  moreover have "read_ints ('' '' @ ?s) = read_ints ?s" using read_int_blank [of ?s]
    by (subst (1 2) read_ints.simps) simp
  ultimately show ?case using Cons by (subst read_ints.simps) simp
qed

text \<open>\<open>deserialize\<close> rebuilds every search tree of ints from the text \<open>serialize\<close> writes.\<close>

theorem Codec_roundtrip:
  assumes "bst t" "\<forall>x \<in> set_tree t. - 2147483648 \<le> x \<and> x \<le> 2147483647"
  shows "deserialize (serialize t) = Some t"
proof -
  have "read_ints (serialize t) = Tree.preorder t" unfolding serialize_def using assms(2) by (intro read_ints_concat) simp
  then show ?thesis
    using preorder_range_spec [of "[]" "Tree.preorder t" "[]"] preorder_tree_bst [OF assms(1)] by (simp add: deserialize_def)
qed

theorem Codec_roundtrip_witness:
  "deserialize (serialize (Node (Node Leaf (-7) Leaf) 3 (Node Leaf 12 Leaf))) = Some (Node (Node Leaf (-7) Leaf) 3 (Node Leaf 12 Leaf))"
  by (rule Codec_roundtrip) simp_all

subsection \<open>Trees from their level order\<close>

text \<open>The store of nodes; a pointer is an index of the store, \<open>None\<close> the null pointer.\<close>

record tree_node =
  node_val :: int
  node_left :: "nat option"
  node_right :: "nat option"

type_synonym tree_store = "tree_node list"

definition new_node :: "int \<Rightarrow> tree_node" where
  "new_node v = \<lparr>node_val = v, node_left = None, node_right = None\<rparr>"

text \<open>
  Making a child of the node \<open>p\<close>, if there is a value for it: the new node is linked and appended to the deque of
  the next level.
\<close>

definition create_node :: "bool \<Rightarrow> nat \<Rightarrow> int option \<Rightarrow> tree_store \<times> nat list \<Rightarrow> tree_store \<times> nat list" where
  "create_node is_right p val s =
     (case s of (st, level) \<Rightarrow>
        case val of
          None \<Rightarrow> (st, level)
        | Some v \<Rightarrow>
            (st[p := (if is_right then (st ! p)\<lparr>node_right := Some (length st)\<rparr> else (st ! p)\<lparr>node_left := Some (length st)\<rparr>)]
               @ [new_node v], level @ [length st]))"

text \<open>
  Both functions run the same loops and differ in how they read a token: \<open>val nodes idx\<close> is \<open>None\<close> where the
  conversion throws, \<open>Some None\<close> for a null node. A state is the store, the deque and the index of the next token.
\<close>

definition create_children ::
  "('a \<Rightarrow> int option option) \<Rightarrow> 'a list \<Rightarrow> tree_store \<times> nat list \<times> nat \<Rightarrow> (tree_store \<times> nat list \<times> nat) option" where
  "create_children val nodes s =
     (case s of (st, level, idx) \<Rightarrow>
        case level of
          [] \<Rightarrow> None
        | r # level \<Rightarrow>
            do {
              x \<leftarrow> vec_at nodes idx;
              v \<leftarrow> val x;
              (st, level) \<leftarrow> Some (create_node False r v (st, level));
              if Suc idx < length nodes then
                do {
                  x \<leftarrow> vec_at nodes (Suc idx);
                  v \<leftarrow> val x;
                  (st, level) \<leftarrow> Some (create_node True r v (st, level));
                  Some (st, level, Suc (Suc idx))
                }
              else Some (st, level, Suc idx)
            })"

primrec create_level ::
  "('a \<Rightarrow> int option option) \<Rightarrow> 'a list \<Rightarrow> nat \<Rightarrow> tree_store \<times> nat list \<times> nat \<Rightarrow> (tree_store \<times> nat list \<times> nat) option" where
  "create_level val nodes 0 s = Some s"
| "create_level val nodes (Suc n) s =
     (if snd (snd s) < length nodes then
        do {
          s \<leftarrow> create_children val nodes s;
          create_level val nodes n s
        }
      else Some s)"

lemma create_children_idx:
  "create_children val nodes s = Some s' \<Longrightarrow> snd (snd s) < snd (snd s')"
  by (auto simp: create_children_def split: prod.splits list.splits bind_splits if_splits)

lemma create_level_idx:
  "create_level val nodes n s = Some s' \<Longrightarrow> snd (snd s) \<le> snd (snd s') \<and>
   (0 < n \<longrightarrow> snd (snd s) < length nodes \<longrightarrow> snd (snd s) < snd (snd s'))"
proof (induction n arbitrary: s)
  case (Suc n)
  show ?case
  proof (cases "snd (snd s) < length nodes")
    case True
    then obtain s1 where s1: "create_children val nodes s = Some s1" "create_level val nodes n s1 = Some s'"
      using Suc.prems by (auto split: bind_splits)
    then show ?thesis using Suc.IH [OF s1(2)] create_children_idx [OF s1(1)] by simp
  qed (use Suc.prems in simp)
qed simp

function create_levels ::
  "('a \<Rightarrow> int option option) \<Rightarrow> 'a list \<Rightarrow> tree_store \<times> nat list \<times> nat \<Rightarrow> (tree_store \<times> nat list \<times> nat) option" where
  "create_levels val nodes s =
     (if fst (snd s) \<noteq> [] \<and> snd (snd s) < length nodes then
        do {
          s \<leftarrow> create_level val nodes (length (fst (snd s))) s;
          create_levels val nodes s
        }
      else Some s)"
  by pat_completeness auto
termination
  by (relation "measure (\<lambda>(val, nodes, s). length nodes - snd (snd s))") (force dest!: create_level_idx)+

declare create_levels.simps [simp del]

definition CreateBinaryTree :: "int list \<Rightarrow> (tree_store \<times> nat option) option" where
  "CreateBinaryTree nodes =
     (if nodes = [] then Some ([], None)
      else do {
        (st, level, idx) \<leftarrow>
          create_levels (\<lambda>v. Some (if v \<noteq> - 2147483648 then Some v else None)) nodes ([new_node (hd nodes)], [0], 1);
        Some (st, Some 0)
      })"

definition ConstructBinaryTreePerLevel :: "string list \<Rightarrow> (tree_store \<times> nat option) option" where
  "ConstructBinaryTreePerLevel nodes =
     (if nodes = [] then Some ([], None)
      else do {
        v \<leftarrow> stoi (hd nodes);
        (st, level, idx) \<leftarrow>
          create_levels (\<lambda>s. if s \<noteq> ''null'' then map_option Some (stoi s) else Some None) nodes ([new_node v], [0], 1);
        Some (st, Some 0)
      })"

text \<open>The level order of a forest: for every node the tokens of its two children.\<close>

fun token :: "int tree \<Rightarrow> int option" where
  "token Leaf = None"
| "token (Node l a r) = Some a"

definition kids :: "int tree \<Rightarrow> int tree \<Rightarrow> int tree list" where
  "kids l r = filter (\<lambda>t. t \<noteq> Leaf) [l, r]"

function forest_tokens :: "int tree list \<Rightarrow> int option list" where
  "forest_tokens [] = []"
| "forest_tokens (Leaf # q) = forest_tokens q"
| "forest_tokens (Node l a r # q) = token l # token r # forest_tokens (q @ kids l r)"
  by pat_completeness auto
termination
  by (relation "measures [\<lambda>q. sum_list (map size q), length]") (auto simp: kids_def)

definition tree_tokens :: "int tree \<Rightarrow> int option list" where
  "tree_tokens t = (if t = Leaf then [] else token t # forest_tokens [t])"

text \<open>The loops without the grouping by levels.\<close>

fun grow :: "int option list \<Rightarrow> nat list \<Rightarrow> tree_store \<Rightarrow> tree_store" where
  "grow [] q st = st"
| "grow (x # xs) [] st = st"
| "grow [x] (p # q) st = fst (create_node False p x (st, q))"
| "grow (x # y # xs) (p # q) st =
     (let (st, q) = create_node True p y (create_node False p x (st, q)) in grow xs q st)"

lemma create_node_null [simp]: "create_node b p None s = s"
  by (simp add: create_node_def split: prod.split)

lemma grow_null: "grow (xs @ [None]) q st = grow xs q st"
proof (induction xs q st rule: grow.induct)
  case (1 q st)
  then show ?case by (cases q) simp_all
next
  case (3 x p q st)
  then show ?case by (simp split: prod.split)
qed (auto split: prod.split)

lemma grow_nulls: "grow (xs @ replicate m None) q st = grow xs q st"
proof (induction m arbitrary: xs)
  case (Suc m)
  then show ?case using grow_null [of xs q st] Suc [of "xs @ [None]"] by simp
qed simp

lemma create_children_grow:
  assumes "\<forall>x \<in> set nodes. val x = Some (tok x)" "level \<noteq> []" "idx < length nodes"
  shows "\<exists>st' level' idx'. create_children val nodes (st, level, idx) = Some (st', level', idx') \<and>
    grow (map tok (drop idx nodes)) level st = grow (map tok (drop idx' nodes)) level' st' \<and> length level \<le> Suc (length level')"
proof -
  obtain p q where q: "level = p # q" using assms(2) by (cases level) auto
  have v: "val (nodes ! k) = Some (tok (nodes ! k))" if "k < length nodes" for k using assms(1) that by simp
  obtain st1 q1 where s1: "create_node False p (tok (nodes ! idx)) (st, q) = (st1, q1)" by force
  have l1: "length q \<le> length q1" using s1 by (auto simp: create_node_def split: option.splits)
  have d: "drop idx nodes = nodes ! idx # drop (Suc idx) nodes" using assms(3) by (simp add: Cons_nth_drop_Suc)
  show ?thesis
  proof (cases "Suc idx < length nodes")
    case False
    then have "drop (Suc idx) nodes = []" by simp
    then show ?thesis using assms(3) v [of idx] False s1 l1 by (simp add: create_children_def q d)
  next
    case True
    obtain st2 q2 where s2: "create_node True p (tok (nodes ! Suc idx)) (st1, q1) = (st2, q2)" by force
    have l2: "length q1 \<le> length q2" using s2 by (auto simp: create_node_def split: option.splits)
    have "drop (Suc idx) nodes = nodes ! Suc idx # drop (Suc (Suc idx)) nodes" using True by (simp add: Cons_nth_drop_Suc)
    then show ?thesis using assms(3) v [of idx] v [of "Suc idx"] True s1 s2 l1 l2 by (simp add: create_children_def q d)
  qed
qed

lemma create_level_grow:
  assumes "\<forall>x \<in> set nodes. val x = Some (tok x)" "n \<le> length level"
  shows "\<exists>st' level' idx'. create_level val nodes n (st, level, idx) = Some (st', level', idx') \<and>
    grow (map tok (drop idx nodes)) level st = grow (map tok (drop idx' nodes)) level' st'"
  using assms(2)
proof (induction n arbitrary: st level idx)
  case (Suc n)
  show ?case
  proof (cases "idx < length nodes")
    case True
    have "level \<noteq> []" using Suc.prems by auto
    from create_children_grow [OF assms(1) this True, where st = st] obtain st1 level1 idx1 where s1:
      "create_children val nodes (st, level, idx) = Some (st1, level1, idx1)"
      "grow (map tok (drop idx nodes)) level st = grow (map tok (drop idx1 nodes)) level1 st1" "length level \<le> Suc (length level1)"
      by auto
    have "n \<le> length level1" using s1(3) Suc.prems by simp
    from Suc.IH [OF this, of st1 idx1] show ?thesis using s1 True by auto
  qed simp
qed simp

lemma create_levels_grow:
  assumes "\<forall>x \<in> set nodes. val x = Some (tok x)"
  shows "\<exists>level' idx'. create_levels val nodes (st, level, idx) = Some (grow (map tok (drop idx nodes)) level st, level', idx')"
proof (induction "length nodes - idx" arbitrary: st level idx rule: less_induct)
  case less
  show ?case
  proof (cases "level \<noteq> [] \<and> idx < length nodes")
    case True
    obtain st1 level1 idx1 where s1: "create_level val nodes (length level) (st, level, idx) = Some (st1, level1, idx1)"
      "grow (map tok (drop idx nodes)) level st = grow (map tok (drop idx1 nodes)) level1 st1"
      using create_level_grow [OF assms order_refl, of level st idx] by auto
    have "idx < idx1" using create_level_idx [OF s1(1)] True by simp
    then have "length nodes - idx1 < length nodes - idx" using True by (intro diff_less_mono2) auto
    from less.hyps [OF this, of st1 level1] show ?thesis using s1 True by (subst create_levels.simps) auto
  next
    case False
    then have "grow (map tok (drop idx nodes)) level st = st"
      by (cases "map tok (drop idx nodes)"; cases level) auto
    then show ?thesis using False by (subst create_levels.simps) auto
  qed
qed

text \<open>The tree a pointer stands for.\<close>

fun represents :: "tree_store \<Rightarrow> nat option \<Rightarrow> int tree \<Rightarrow> bool" where
  "represents st p Leaf = (p = None)"
| "represents st p (Node l a r) =
     (case p of None \<Rightarrow> False
      | Some i \<Rightarrow> i < length st \<and> node_val (st ! i) = a \<and> represents st (node_left (st ! i)) l \<and> represents st (node_right (st ! i)) r)"

text \<open>The deque holds new nodes that wait for their children.\<close>

definition pending :: "tree_store \<Rightarrow> nat \<Rightarrow> int tree \<Rightarrow> bool" where
  "pending st i t \<longleftrightarrow> i < length st \<and> t \<noteq> Leaf \<and> st ! i = new_node (the (token t))"

definition waiting :: "tree_store \<Rightarrow> nat list \<Rightarrow> int tree list \<Rightarrow> bool" where
  "waiting st level q \<longleftrightarrow> distinct level \<and> list_all2 (pending st) level q"

lemma waiting_step:
  assumes "waiting st (i # level) (Node l a r # q)"
    and "create_node True i (token r) (create_node False i (token l) (st, level)) = (st', level')"
  shows "waiting st' level' (q @ kids l r) \<and> level' = level @ [length st..<length st'] \<and> i \<notin> set level' \<and>
    length st \<le> length st' \<and> (\<forall>j < length st. j \<noteq> i \<longrightarrow> st' ! j = st ! j) \<and>
    st' ! i = \<lparr>node_val = a, node_left = (if l = Leaf then None else Some (length st)),
      node_right = (if r = Leaf then None else Some (length st' - 1))\<rparr>"
proof -
  have w: "i < length st" "st ! i = new_node a" "i \<notin> set level" "distinct level" "list_all2 (pending st) level q"
    using assms(1) by (auto simp: waiting_def pending_def)
  have lt: "\<forall>j \<in> set level. j < length st" using w(5) by (auto simp: pending_def list_all2_conv_all_nth in_set_conv_nth)
  have old: "list_all2 (pending st'') level q"
    if "length st \<le> length st''" "\<forall>j < length st. j \<noteq> i \<longrightarrow> st'' ! j = st ! j" for st''
    using w(5) by (rule list.rel_mono_strong) (use that w(3) in \<open>auto simp: pending_def\<close>)
  obtain st1 level1 where s1: "create_node False i (token l) (st, level) = (st1, level1)" by force
  have s2: "create_node True i (token r) (st1, level1) = (st', level')" using assms(2) s1 by simp
  have up: "[length st..<Suc (Suc (length st))] = [length st, Suc (length st)]" by (simp add: upt_rec)
  show ?thesis
  proof (cases l)
    case l: Leaf
    show ?thesis
    proof (cases r)
      case Leaf
      then show ?thesis using s1 s2 l w old [of st] by (auto simp: waiting_def kids_def new_node_def)
    next
      case (Node rl b rr)
      have st': "st' = st[i := (st ! i)\<lparr>node_right := Some (length st)\<rparr>] @ [new_node b]" "level' = level @ [length st]"
        using s1 s2 l Node by (auto simp: create_node_def)
      have "list_all2 (pending st') level' (q @ [r])"
        unfolding st'(2) by (intro list_all2_appendI old) (auto simp: st'(1) Node pending_def nth_append)
      then show ?thesis using l Node w lt
        unfolding waiting_def by (auto simp: st' kids_def new_node_def nth_append)
    qed
  next
    case l: (Node ll c lr)
    have st1: "st1 = st[i := (st ! i)\<lparr>node_left := Some (length st)\<rparr>] @ [new_node c]" "level1 = level @ [length st]"
      using s1 l by (auto simp: create_node_def)
    show ?thesis
    proof (cases r)
      case Leaf
      then have st': "st' = st[i := (st ! i)\<lparr>node_left := Some (length st)\<rparr>] @ [new_node c]" "level' = level @ [length st]"
        using s2 st1 by auto
      have "list_all2 (pending st') level' (q @ [l])"
        unfolding st'(2) by (intro list_all2_appendI old) (auto simp: st'(1) l pending_def nth_append)
      then show ?thesis using l Leaf w lt
        unfolding waiting_def by (auto simp: st' kids_def new_node_def nth_append)
    next
      case (Node rl b rr)
      have st': "st' = st[i := (st ! i)\<lparr>node_left := Some (length st), node_right := Some (Suc (length st))\<rparr>] @ [new_node c, new_node b]"
        "level' = level @ [length st, Suc (length st)]"
        using s2 st1 w(1) Node by (auto simp: create_node_def list_update_append nth_append)
      have "list_all2 (pending st') level' (q @ [l, r])"
        unfolding st'(2) by (intro list_all2_appendI old) (auto simp: st'(1) l Node pending_def nth_append)
      then show ?thesis using l Node w lt up
        unfolding waiting_def by (auto simp: st' kids_def new_node_def nth_append)
    qed
  qed
qed

lemma forest_tokens_set: "Some v \<in> set (forest_tokens q) \<Longrightarrow> \<exists>t \<in> set q. v \<in> set_tree t"
proof (induction q rule: forest_tokens.induct)
  case (3 l a r q)
  have "Some v = token t \<Longrightarrow> v \<in> set_tree t" for t by (cases t) auto
  then show ?case using 3 by (auto simp: kids_def split: if_splits)
qed auto

lemma tree_tokens_set: "Some v \<in> set (tree_tokens t) \<Longrightarrow> v \<in> set_tree t"
  using forest_tokens_set [of v "[t]"] by (cases t) (auto simp: tree_tokens_def)

lemma grow_represents:
  "waiting st level q \<Longrightarrow>
   length st \<le> length (grow (forest_tokens q) level st) \<and>
   (\<forall>i < length st. i \<notin> set level \<longrightarrow> grow (forest_tokens q) level st ! i = st ! i) \<and>
   list_all2 (\<lambda>i t. represents (grow (forest_tokens q) level st) (Some i) t) level q"
proof (induction q arbitrary: level st rule: forest_tokens.induct)
  case 1
  then show ?case by (simp add: waiting_def)
next
  case (2 q)
  then show ?case by (auto simp: waiting_def pending_def list_all2_Cons2)
next
  case (3 l a r q)
  obtain i lv where lev: "level = i # lv" using "3.prems" by (auto simp: waiting_def pending_def list_all2_Cons2)
  obtain st1 level1 where s1: "create_node True i (token r) (create_node False i (token l) (st, lv)) = (st1, level1)" by force
  note W = waiting_step [OF "3.prems" [unfolded lev] s1]
  define st' where "st' = grow (forest_tokens (q @ kids l r)) level1 st1"
  have st': "grow (forest_tokens (Node l a r # q)) level st = st'" by (simp add: lev s1 st'_def)
  have i: "i < length st" "i \<notin> set lv" using "3.prems" by (auto simp: lev waiting_def pending_def)
  have IH: "length st1 \<le> length st'" "\<And>j. j < length st1 \<Longrightarrow> j \<notin> set level1 \<Longrightarrow> st' ! j = st1 ! j"
    "list_all2 (\<lambda>j t. represents st' (Some j) t) level1 (q @ kids l r)"
    using "3.IH" [of st1 level1] W by (auto simp: st'_def)
  have len: "length lv = length q" using "3.prems" by (auto simp: lev waiting_def list_all2_lengthD)
  have qs: "list_all2 (\<lambda>j t. represents st' (Some j) t) lv q" "list_all2 (\<lambda>j t. represents st' (Some j) t) [length st..<length st1] (kids l r)"
    using IH(3) W len by (auto simp: list_all2_append)
  have cnt: "length st1 - length st = length (kids l r)" using qs(2) by (auto dest: list_all2_lengthD)
  have ti: "st' ! i = \<lparr>node_val = a, node_left = (if l = Leaf then None else Some (length st)),
      node_right = (if r = Leaf then None else Some (length st1 - 1))\<rparr>"
    using IH(2) [of i] W i by auto
  have "represents st' (node_left (st' ! i)) l \<and> represents st' (node_right (st' ! i)) r"
  proof (cases "length (kids l r)")
    case 0
    then show ?thesis using ti by (auto simp: kids_def split: if_splits)
  next
    case (Suc k)
    have c: "length st1 = Suc (k + length st)" using cnt Suc by simp
    have "[length st..<length st1] = [length st] \<or> [length st..<length st1] = [length st, Suc (length st)]"
      using c Suc by (auto simp: kids_def upt_rec split: if_splits)
    then show ?thesis using qs(2) ti c Suc by (auto simp: kids_def split: if_splits)
  qed
  then have "represents st' (Some i) (Node l a r)" using ti i(1) W IH(1) by simp
  moreover have "st' ! j = st ! j" if "j < length st" "j \<notin> set level" for j
    using IH(2) [of j] W that by (auto simp: lev)
  ultimately show ?case unfolding st' using qs(1) IH(1) W by (auto simp: lev)
qed

lemma create_levels_represents:
  assumes "\<forall>x \<in> set nodes. val x = Some (tok x)" "map tok (tl nodes) @ replicate m None = forest_tokens [t]" "t \<noteq> Leaf" "nodes \<noteq> []"
  shows "\<exists>st level idx. create_levels val nodes ([new_node (the (token t))], [0], 1) = Some (st, level, idx) \<and> represents st (Some 0) t"
proof -
  let ?st = "[new_node (the (token t))]"
  have "waiting ?st [0] [t]" using assms(3) by (simp add: waiting_def pending_def)
  from grow_represents [OF this] have "represents (grow (forest_tokens [t]) [0] ?st) (Some 0) t" by simp
  moreover have "grow (forest_tokens [t]) [0] ?st = grow (map tok (drop 1 nodes)) [0] ?st"
    unfolding assms(2) [symmetric] grow_nulls by (simp add: drop_Suc)
  ultimately show ?thesis using create_levels_grow [OF assms(1), of ?st "[0]" 1] by auto
qed

lemma split_head:
  "map f xs @ ys = z # zs \<Longrightarrow> xs \<noteq> [] \<Longrightarrow> map f (tl xs) @ ys = zs \<and> f (hd xs) = z"
  by (cases xs) auto

text \<open>C13: From the level order of a tree, with or without the null tokens at its end, \<open>CreateBinaryTree\<close> builds a store that
  represents the tree. \<open>INT_MIN\<close> is the null token, so no node may have that value.\<close>

theorem CreateBinaryTree_level_order:
  assumes "nodes @ replicate m (- 2147483648) = map (\<lambda>x. case x of None \<Rightarrow> - 2147483648 | Some v \<Rightarrow> v) (tree_tokens t)"
    and "t \<noteq> Leaf" "nodes \<noteq> []" "\<forall>x \<in> set_tree t. x \<noteq> - 2147483648"
  shows "\<exists>st. CreateBinaryTree nodes = Some (st, Some 0) \<and> represents st (Some 0) t"
proof -
  let ?tok = "\<lambda>v. if v \<noteq> - 2147483648 then Some v else None"
  let ?enc = "\<lambda>x :: int option. case x of None \<Rightarrow> - 2147483648 | Some v \<Rightarrow> v"
  have tok: "map ?tok (map ?enc xs) = xs" if "\<forall>x \<in> set xs. x \<noteq> Some (- 2147483648)" for xs :: "int option list"
    using that
  proof (induction xs)
    case (Cons x xs)
    then show ?case by (cases x) simp_all
  qed simp
  have vals: "\<forall>x \<in> set (tree_tokens t). x \<noteq> Some (- 2147483648)"
    using assms(4) tree_tokens_set [of _ t] by auto
  have "map ?tok nodes @ replicate m None = tree_tokens t"
  proof -
    have "map ?tok (nodes @ replicate m (- 2147483648)) = tree_tokens t" unfolding assms(1) by (rule tok [OF vals])
    then show ?thesis by simp
  qed
  then have "map ?tok nodes @ replicate m None = token t # forest_tokens [t]" unfolding tree_tokens_def if_not_P [OF assms(2)] .
  note n = split_head [OF this assms(3)]
  have "hd nodes = the (token t)" using conjunct2 [OF n] assms(2) by (cases t) (auto split: if_splits)
  then show ?thesis
    using create_levels_represents [of nodes "\<lambda>v. Some (?tok v)" ?tok m t] conjunct1 [OF n] assms(2,3) by (auto simp: CreateBinaryTree_def)
qed

theorem CreateBinaryTree_witness:
  "\<exists>st. CreateBinaryTree [1, 0, 48, - 2147483648, - 2147483648, 12, 49] = Some (st, Some 0) \<and>
     represents st (Some 0) (Node (Node Leaf 0 Leaf) 1 (Node (Node Leaf 12 Leaf) 48 (Node Leaf 49 Leaf)))"
  by (rule CreateBinaryTree_level_order [where m = 4]) (simp_all add: tree_tokens_def kids_def eval_nat_numeral)

text \<open>\<open>ConstructBinaryTreePerLevel\<close> does the same from the texts of the numbers, with \<open>null\<close> for a missing node.\<close>

theorem ConstructBinaryTreePerLevel_level_order:
  assumes "nodes @ replicate m ''null'' = map (\<lambda>x. case x of None \<Rightarrow> ''null'' | Some v \<Rightarrow> to_string v) (tree_tokens t)"
    and "t \<noteq> Leaf" "nodes \<noteq> []" "\<forall>x \<in> set_tree t. - 2147483648 \<le> x \<and> x \<le> 2147483647"
  shows "\<exists>st. ConstructBinaryTreePerLevel nodes = Some (st, Some 0) \<and> represents st (Some 0) t"
proof -
  let ?val = "\<lambda>s. if s \<noteq> ''null'' then map_option Some (stoi s) else Some None"
  let ?tok = "\<lambda>s. the (?val s)"
  let ?enc = "\<lambda>x. case x of None \<Rightarrow> ''null'' | Some v \<Rightarrow> to_string v"
  have null: "to_string v \<noteq> ''null''" for v
    using to_string_number [of v] by (auto simp: number_char_def isdigit_def code_def)
  have val: "?val (?enc x) = Some x" if "x \<in> set (tree_tokens t)" for x
  proof (cases x)
    case (Some v)
    then have "v \<in> set_tree t" using that tree_tokens_set [of v t] by simp
    then show ?thesis using Some assms(4) node_stoi_to_string [of v] null [of v] by simp
  qed simp
  have toks: "map ?tok (map ?enc xs) = xs" "\<forall>x \<in> set (map ?enc xs). ?val x = Some (?tok x)"
    if "set xs \<subseteq> set (tree_tokens t)" for xs
    using that val by (induction xs) auto
  have set: "set nodes \<subseteq> set (map ?enc (tree_tokens t))" by (metis Un_upper1 assms(1) set_append)
  have vals: "\<forall>x \<in> set nodes. ?val x = Some (?tok x)" using toks(2) [OF order_refl] set by blast
  have "map ?tok nodes @ replicate m None = tree_tokens t"
  proof -
    have "map ?tok (nodes @ replicate m ''null'') = tree_tokens t" unfolding assms(1) by (rule toks(1) [OF order_refl])
    then show ?thesis by simp
  qed
  then have "map ?tok nodes @ replicate m None = token t # forest_tokens [t]" unfolding tree_tokens_def if_not_P [OF assms(2)] .
  note n = split_head [OF this assms(3)]
  have "?val (hd nodes) = Some (token t)" using vals conjunct2 [OF n] assms(3) by (metis list.set_sel(1))
  then have "stoi (hd nodes) = Some (the (token t))" using assms(2) by (cases t) (auto split: if_splits)
  then show ?thesis
    using create_levels_represents [OF vals conjunct1 [OF n] assms(2,3)] assms(3) by (auto simp: ConstructBinaryTreePerLevel_def)
qed

end
