(* ===== verification/TreeShapes.thy ===== *)
theory TreeShapes
  imports TreeNodes SearchTrees
begin

section \<open>Trees rebuilt and searched (class Tree of leetcode/tree/BinaryTree.cpp)\<close>

text \<open>
  The functions of the class \<open>Tree\<close> that search a tree, build one or change its shape. Trees are values as in
  TreeNodes: a function that changes nodes in place returns the changed tree. Members that a recursion
  writes (\<open>cnt\<close>, \<open>ans\<close>) are passed through it; \<open>ans\<close> is \<open>None\<close> until it is written.
\<close>

subsection \<open>The k-th smallest value\<close>

fun tree_count :: "int tree \<Rightarrow> int" where
  "tree_count Leaf = 0"
| "tree_count (Node l a r) = 1 + tree_count l + tree_count r"

fun inorder_kth :: "int tree \<Rightarrow> int \<times> int option \<Rightarrow> int \<times> int option" where
  "inorder_kth Leaf s = s"
| "inorder_kth (Node l a r) s =
     (if fst s = 0 then s
      else let (cnt, ans) = inorder_kth l s;
               cnt = i32 (cnt - 1);
               ans = (if cnt = 0 then Some a else ans)
           in inorder_kth r (cnt, ans))"

definition kthSmallest :: "int tree \<Rightarrow> int \<Rightarrow> int option" where
  "kthSmallest rt k = snd (inorder_kth rt (k, None))"

definition kthSmallest_bs :: "int tree \<Rightarrow> int \<Rightarrow> int option" where
  "kthSmallest_bs rt k =
     (case rt of
        Leaf \<Rightarrow> None
      | Node l a r \<Rightarrow>
          let cnt = tree_count l
          in if cnt + 1 = k then Some a
             else if cnt \<ge> k then kthSmallest l k
             else kthSmallest r (k - 1 - cnt))"

lemma tree_count_size: "tree_count t = int (size t)"
  by (induction t) auto

text \<open>Once the count is 0 it only falls, so the answer is not written again.\<close>

lemma inorder_kth_outside:
  "cnt < 0 \<or> int (size t) < cnt \<Longrightarrow> - 2147483648 \<le> cnt - int (size t) \<Longrightarrow> cnt < 2147483648 \<Longrightarrow>
   inorder_kth t (cnt, ans) = (cnt - int (size t), ans)"
proof (induction t arbitrary: cnt ans)
  case (Node l a r)
  have l: "inorder_kth l (cnt, ans) = (cnt - int (size l), ans)" using Node.prems by (intro Node.IH(1)) auto
  have "inorder_kth r (cnt - int (size l) - 1, ans) = (cnt - int (size l) - 1 - int (size r), ans)"
    using Node.prems by (intro Node.IH(2)) auto
  moreover have "i32 (cnt - int (size l) - 1) = cnt - int (size l) - 1" using Node.prems by (intro i32_id) auto
  ultimately show ?case using l Node.prems by auto
qed simp

lemma inorder_kth_inside:
  "1 \<le> cnt \<Longrightarrow> cnt \<le> int (size t) \<Longrightarrow> int (size t) < 2147483648 \<Longrightarrow>
   \<exists>c. c \<le> 0 \<and> - int (size t) \<le> c \<and> inorder_kth t (cnt, ans) = (c, Some (inorder t ! nat (cnt - 1)))"
proof (induction t arbitrary: cnt ans)
  case (Node l a r)
  consider (left) "cnt \<le> int (size l)" | (mid) "cnt = int (size l) + 1" | (right) "int (size l) + 1 < cnt" by linarith
  then show ?case
  proof cases
    case left
    then obtain c where c: "c \<le> 0" "- int (size l) \<le> c" "inorder_kth l (cnt, ans) = (c, Some (inorder l ! nat (cnt - 1)))"
      using Node.IH(1) [of cnt ans] Node.prems by auto
    have w: "i32 (c - 1) = c - 1" using c(1,2) Node.prems by (intro i32_id) auto
    have "inorder_kth r (c - 1, x) = (c - 1 - int (size r), x)" for x
      using c(1,2) Node.prems by (intro inorder_kth_outside) auto
    moreover have "inorder (Node l a r) ! nat (cnt - 1) = inorder l ! nat (cnt - 1)"
    proof -
      have "nat (cnt - 1) < size l" using left Node.prems(1) by linarith
      then show ?thesis by (simp add: nth_append)
    qed
    ultimately show ?thesis using c w Node.prems by (intro exI [of _ "c - 1 - int (size r)"]) auto
  next
    case mid
    have "inorder_kth l (cnt, ans) = (1, ans)" using mid Node.prems by (subst inorder_kth_outside) auto
    moreover have "inorder_kth r (0, x) = (0, x)" for x by (cases r) simp_all
    moreover have "inorder (Node l a r) ! nat (cnt - 1) = a" using mid by (simp add: nth_append)
    ultimately show ?thesis using mid by (intro exI [of _ 0]) auto
  next
    case right
    have l: "inorder_kth l (cnt, ans) = (cnt - int (size l), ans)" using right Node.prems by (intro inorder_kth_outside) auto
    have w: "i32 (cnt - int (size l) - 1) = cnt - int (size l) - 1" using right Node.prems by (intro i32_id) auto
    obtain c where c: "c \<le> 0" "- int (size r) \<le> c"
      "inorder_kth r (cnt - int (size l) - 1, ans) = (c, Some (inorder r ! nat (cnt - int (size l) - 1 - 1)))"
      using Node.IH(2) [of "cnt - int (size l) - 1" ans] right Node.prems by auto
    have "\<not> nat (cnt - 1) < size l" using right by linarith
    then have "inorder (Node l a r) ! nat (cnt - 1) = (a # inorder r) ! (nat (cnt - 1) - size l)"
      by (simp add: nth_append)
    also have "nat (cnt - 1) - size l = Suc (nat (cnt - int (size l) - 1 - 1))" using right by linarith
    finally show ?thesis using c l w right Node.prems by (intro exI [of _ c]) auto
  qed
qed simp

text \<open>Both searches return the k-th value in order, for every k the caller may ask for.\<close>

theorem kthSmallest_correct:
  assumes "1 \<le> k" "k \<le> int (size t)" "int (size t) < 2147483648"
  shows "kthSmallest t k = Some (inorder t ! nat (k - 1)) \<and> kthSmallest_bs t k = Some (inorder t ! nat (k - 1))"
proof
  have kth: "kthSmallest t k = Some (inorder t ! nat (k - 1))"
    if "1 \<le> k" "k \<le> int (size t)" "int (size t) < 2147483648" for t k
    using inorder_kth_inside [OF that, of None] by (auto simp: kthSmallest_def)
  show "kthSmallest t k = Some (inorder t ! nat (k - 1))" by (rule kth [OF assms])
  show "kthSmallest_bs t k = Some (inorder t ! nat (k - 1))"
  proof (cases t)
    case (Node l a r)
    consider (mid) "k = int (size l) + 1" | (left) "k \<le> int (size l)" | (right) "int (size l) + 1 < k" by linarith
    then show ?thesis
    proof cases
      case right
      have "nat (k - 1) - size l = Suc (nat (k - 1 - int (size l) - 1))" "\<not> nat (k - 1) < size l" using right by linarith+
      then show ?thesis using Node right assms kth [of "k - 1 - int (size l)" r]
        by (simp add: kthSmallest_bs_def tree_count_size nth_append)
    qed (use Node assms kth [of k l] in \<open>auto simp: kthSmallest_bs_def tree_count_size nth_append\<close>)
  qed (use assms in simp)
qed

theorem kthSmallest_correct_witness:
  "kthSmallest (Node Leaf 1 (Node Leaf 2 Leaf)) 2 = Some (inorder (Node Leaf 1 (Node Leaf 2 Leaf)) ! nat (2 - 1)) \<and>
   kthSmallest_bs (Node Leaf 1 (Node Leaf 2 Leaf)) 2 = Some (inorder (Node Leaf 1 (Node Leaf 2 Leaf)) ! nat (2 - 1))"
  by (rule kthSmallest_correct) simp_all

subsection \<open>Maximum binary trees\<close>

text \<open>\<open>max_element\<close> is the first position of the greatest element.\<close>

definition max_element :: "int list \<Rightarrow> nat" where
  "max_element xs = length (takeWhile (\<lambda>x. x < Max (set xs)) xs)"

lemma max_element_less: "xs \<noteq> [] \<Longrightarrow> max_element xs < length xs"
proof -
  assume "xs \<noteq> []"
  then have "\<not> Max (set xs) < Max (set xs)" "Max (set xs) \<in> set xs" by auto
  then have "takeWhile (\<lambda>x. x < Max (set xs)) xs \<noteq> xs" by (metis takeWhile_eq_all_conv)
  then show ?thesis unfolding max_element_def
    by (metis length_takeWhile_le le_neq_implies_less takeWhile_eq_take take_all)
qed

function constructMaximumBinaryTree :: "int list \<Rightarrow> int tree" where
  "constructMaximumBinaryTree xs =
     (if xs = [] then Leaf
      else let m = max_element xs
           in Node (constructMaximumBinaryTree (take m xs)) (xs ! m) (constructMaximumBinaryTree (drop (m + 1) xs)))"
  by pat_completeness auto
termination by (relation "measure length") (auto dest: max_element_less)

declare constructMaximumBinaryTree.simps [simp del]

text \<open>Every value is above the values on its left and not below those on its right.\<close>

fun cartesian :: "int tree \<Rightarrow> bool" where
  "cartesian Leaf = True"
| "cartesian (Node l a r) \<longleftrightarrow> cartesian l \<and> cartesian r \<and> (\<forall>x \<in> set_tree l. x < a) \<and> (\<forall>x \<in> set_tree r. x \<le> a)"

lemma max_element_split:
  assumes "xs \<noteq> []" "m = max_element xs"
  shows "xs = take m xs @ xs ! m # drop (Suc m) xs" "\<forall>x \<in> set (take m xs). x < xs ! m" "\<forall>x \<in> set (drop (Suc m) xs). x \<le> xs ! m"
proof -
  have m: "m < length xs" using max_element_less [OF assms(1)] assms(2) by simp
  then show "xs = take m xs @ xs ! m # drop (Suc m) xs" by (rule id_take_nth_drop)
  have "\<not> xs ! m < Max (set xs)" using m nth_length_takeWhile [of "\<lambda>x. x < Max (set xs)" xs] by (simp add: assms(2) max_element_def)
  moreover have "xs ! m \<le> Max (set xs)" using m by simp
  ultimately have max: "xs ! m = Max (set xs)" by simp
  have "take m xs = takeWhile (\<lambda>x. x < Max (set xs)) xs" by (simp add: assms(2) max_element_def takeWhile_eq_take [symmetric])
  then show "\<forall>x \<in> set (take m xs). x < xs ! m" unfolding max by (metis set_takeWhileD)
  show "\<forall>x \<in> set (drop (Suc m) xs). x \<le> xs ! m" unfolding max using set_drop_subset [of "Suc m" xs] by auto
qed

lemma constructMaximumBinaryTree_inorder: "inorder (constructMaximumBinaryTree xs) = xs"
proof (induction xs rule: constructMaximumBinaryTree.induct)
  case (1 xs)
  show ?case
  proof (cases "xs = []")
    case False
    then show ?thesis using 1 [OF False refl] max_element_split(1) [OF False refl]
      by (subst constructMaximumBinaryTree.simps) (simp add: Let_def)
  qed (simp add: constructMaximumBinaryTree.simps)
qed

lemma constructMaximumBinaryTree_cartesian: "cartesian (constructMaximumBinaryTree xs)"
proof (induction xs rule: constructMaximumBinaryTree.induct)
  case (1 xs)
  show ?case
  proof (cases "xs = []")
    case False
    then show ?thesis using 1 [OF False refl] max_element_split(2,3) [OF False refl]
      by (subst constructMaximumBinaryTree.simps) (simp add: Let_def set_inorder [symmetric] constructMaximumBinaryTree_inorder)
  qed (simp add: constructMaximumBinaryTree.simps)
qed

lemma cartesian_unique: "cartesian t \<Longrightarrow> cartesian t' \<Longrightarrow> inorder t = inorder t' \<Longrightarrow> t = t'"
proof (induction t arbitrary: t')
  case (Node l a r)
  obtain l' a' r' where t': "t' = Node l' a' r'" using Node.prems(3) by (cases t') auto
  have eq: "inorder l @ a # inorder r = inorder l' @ a' # inorder r'" using Node.prems(3) t' by simp
  have le: "\<forall>x \<in> set (inorder l @ a # inorder r). x \<le> a" using Node.prems(1) by (auto simp: less_imp_le)
  have "\<forall>x \<in> set (inorder l' @ a' # inorder r'). x \<le> a'" using Node.prems(2) unfolding t' by (auto simp: less_imp_le)
  then have "\<forall>x \<in> set (inorder l @ a # inorder r). x \<le> a'" unfolding eq .
  with le have a: "a = a'" using eq by (metis antisym in_set_conv_decomp)
  have "takeWhile (\<lambda>x. x < a) (inorder l @ a # inorder r) = inorder l" using Node.prems(1) by (simp add: takeWhile_append)
  moreover have "takeWhile (\<lambda>x. x < a) (inorder l' @ a # inorder r') = inorder l'" using Node.prems(2) t' a by (simp add: takeWhile_append)
  ultimately have "inorder l = inorder l'" using eq a by metis
  moreover from this have "inorder r = inorder r'" using eq a by simp
  ultimately show ?case using Node t' a by simp
qed (cases t'; simp)

text \<open>\<open>constructMaximumBinaryTree\<close> returns the only tree with the given values in order in which every value is the
  first greatest of its subtree.\<close>

theorem constructMaximumBinaryTree_unique:
  "cartesian t \<and> inorder t = nums \<longleftrightarrow> t = constructMaximumBinaryTree nums"
  using cartesian_unique constructMaximumBinaryTree_cartesian constructMaximumBinaryTree_inorder by metis

subsection \<open>Pruning\<close>

fun pruneTree :: "int tree \<Rightarrow> int tree" where
  "pruneTree Leaf = Leaf"
| "pruneTree (Node l a r) =
     (if a = 0 \<and> l = Leaf \<and> r = Leaf then Leaf
      else let left = pruneTree l; right = pruneTree r
           in if a = 0 \<and> left = Leaf \<and> right = Leaf then Leaf else Node left a right)"

lemma pruneTree_Node:
  "pruneTree (Node l a r) = (if a = 0 \<and> pruneTree l = Leaf \<and> pruneTree r = Leaf then Leaf else Node (pruneTree l) a (pruneTree r))"
  by (simp add: Let_def)

lemma pruneTree_Leaf: "pruneTree t = Leaf \<longleftrightarrow> (\<forall>x \<in> set_tree t. x = 0)"
  by (induction t) (auto simp: Let_def)

lemma value_at_append: "value_at t (p @ q) = Some y \<Longrightarrow> \<exists>x. value_at t p = Some x"
proof (induction p arbitrary: t)
  case Nil
  then show ?case by (cases t) auto
next
  case (Cons b p)
  then show ?case by (cases t) auto
qed

text \<open>\<open>pruneTree\<close> keeps exactly the nodes above which or at which a value other than 0 is found.\<close>

theorem pruneTree_keeps:
  "value_at (pruneTree t) p = Some x \<longleftrightarrow> value_at t p = Some x \<and> (\<exists>q y. value_at t (p @ q) = Some y \<and> y \<noteq> 0)"
proof (induction t arbitrary: p)
  case (Node l a r)
  have "pruneTree (Node l a r) = Leaf \<longleftrightarrow> (\<forall>x \<in> set_tree (Node l a r). x = 0)" by (rule pruneTree_Leaf)
  moreover have "pruneTree (Node l a r) \<noteq> Leaf \<Longrightarrow> pruneTree (Node l a r) = Node (pruneTree l) a (pruneTree r)"
    unfolding pruneTree_Node by presburger
  ultimately consider (zero) "pruneTree (Node l a r) = Leaf" "\<forall>x \<in> set_tree (Node l a r). x = 0"
    | (keep) "pruneTree (Node l a r) = Node (pruneTree l) a (pruneTree r)" "\<exists>x \<in> set_tree (Node l a r). x \<noteq> 0"
    by blast
  then show ?case
  proof cases
    case zero
    then show ?thesis using value_at_set [of _ "Node l a r"] unfolding zero(1) by auto
  next
    case keep
    then obtain q y where q: "value_at (Node l a r) q = Some y" "y \<noteq> 0" using value_at_set by blast
    show ?thesis
    proof (cases p)
      case Nil
      then show ?thesis unfolding keep(1) using q by auto
    next
      case (Cons b p')
      then show ?thesis unfolding keep(1) using Node by (cases b) auto
    qed
  qed
qed simp

subsection \<open>Adding a row\<close>

fun add_row :: "int tree \<Rightarrow> int \<Rightarrow> int \<Rightarrow> int \<Rightarrow> int tree" where
  "add_row Leaf v depth level = Leaf"
| "add_row (Node l a r) v depth level =
     (if level = depth - 1 then Node (Node l v Leaf) a (Node Leaf v r)
      else if level < depth - 1 then Node (add_row l v depth (level + 1)) a (add_row r v depth (level + 1))
      else Node l a r)"

definition addOneRow :: "int tree \<Rightarrow> int \<Rightarrow> int \<Rightarrow> int tree" where
  "addOneRow rt v d = (if d = 1 then Node rt v Leaf else add_row rt v d 1)"

lemma add_row_depth:
  "level = depth - 1 - int m \<Longrightarrow> at_depth (add_row t v depth level) k =
     (if k \<le> m then at_depth t k
      else if k = Suc m then replicate (2 * length (at_depth t m)) v
      else at_depth t (k - 1))"
proof (induction t arbitrary: level m k)
  case (Node l a r)
  show ?case
  proof (cases m)
    case 0
    then have t: "add_row (Node l a r) v depth level = Node (Node l v Leaf) a (Node Leaf v r)" using Node.prems by simp
    show ?thesis
    proof (cases k)
      case (Suc k')
      then show ?thesis unfolding t using 0 by (cases k') (auto simp: numeral_2_eq_2)
    qed (use 0 t in simp)
  next
    case (Suc m')
    then have t: "add_row (Node l a r) v depth level = Node (add_row l v depth (level + 1)) a (add_row r v depth (level + 1))"
      using Node.prems by simp
    have lev: "level + 1 = depth - 1 - int m'" using Node.prems Suc by simp
    note IH = Node.IH(1) [OF lev] Node.IH(2) [OF lev]
    show ?thesis
    proof (cases k)
      case k: (Suc k')
      show ?thesis
      proof (cases k')
        case 0
        then show ?thesis unfolding t k using IH Suc by simp
      next
        case (Suc k'')
        then show ?thesis unfolding t k using IH \<open>m = Suc m'\<close> by (auto simp: replicate_add [symmetric] distrib_left)
      qed
    qed (use t Suc in simp)
  qed
qed simp

text \<open>\<open>addOneRow\<close> puts a row of \<open>v\<close> at depth \<open>d\<close>, two under each node above, and moves the rows below it down by one.\<close>

theorem addOneRow_rows:
  assumes "1 \<le> d"
  shows "at_depth (addOneRow t v d) k =
    (if k < nat d - 1 then at_depth t k
     else if k = nat d - 1 then replicate (if d = 1 then 1 else 2 * length (at_depth t (nat d - 2))) v
     else at_depth t (k - 1))"
proof (cases "d = 1")
  case True
  then show ?thesis by (cases k) (simp_all add: addOneRow_def)
next
  case False
  then have "1 = d - 1 - int (nat d - 2)" using assms by simp
  from add_row_depth [OF this, of t v k] show ?thesis using False assms by (auto simp: addOneRow_def)
qed

theorem addOneRow_rows_witness:
  "at_depth (addOneRow (Node (Node Leaf 2 Leaf) 4 (Node Leaf 6 Leaf)) 1 2) 1 =
    (if 1 < nat 2 - 1 then at_depth (Node (Node Leaf 2 Leaf) 4 (Node Leaf 6 Leaf)) 1
     else if 1 = nat 2 - 1 then replicate (if (2 :: int) = 1 then 1 else 2 * length (at_depth (Node (Node Leaf (2 :: int) Leaf) 4 (Node Leaf 6 Leaf)) (nat 2 - 2))) 1
     else at_depth (Node (Node Leaf 2 Leaf) 4 (Node Leaf 6 Leaf)) (1 - 1))"
  by (rule addOneRow_rows) simp

subsection \<open>Deletion from a search tree\<close>

text \<open>The walks of \<open>deleteNodeHelper\<close>: the largest value of a tree and the tree without its node, and the smallest.\<close>

fun take_largest :: "int tree \<Rightarrow> (int \<times> int tree) option" where
  "take_largest Leaf = None"
| "take_largest (Node l a r) =
     (if r = Leaf then Some (a, l) else map_option (\<lambda>(m, r). (m, Node l a r)) (take_largest r))"

fun take_smallest :: "int tree \<Rightarrow> (int \<times> int tree) option" where
  "take_smallest Leaf = None"
| "take_smallest (Node l a r) =
     (if l = Leaf then Some (a, r) else map_option (\<lambda>(m, l). (m, Node l a r)) (take_smallest l))"

fun deleteNodeHelper :: "int tree \<Rightarrow> int tree" where
  "deleteNodeHelper Leaf = Leaf"
| "deleteNodeHelper (Node l a r) =
     (case take_largest l of
        Some (m, l) \<Rightarrow> Node l m r
      | None \<Rightarrow> (case take_smallest r of Some (m, r) \<Rightarrow> Node l m r | None \<Rightarrow> Node l a r))"

fun deleteNode :: "int tree \<Rightarrow> int \<Rightarrow> int tree" where
  "deleteNode Leaf key = Leaf"
| "deleteNode (Node l a r) key =
     (if a \<noteq> key then if key < a then Node (deleteNode l key) a r else Node l a (deleteNode r key)
      else if l = Leaf \<and> r = Leaf then Leaf
      else deleteNodeHelper (Node l a r))"

lemma take_largest_inorder: "t \<noteq> Leaf \<Longrightarrow> \<exists>m t'. take_largest t = Some (m, t') \<and> inorder t = inorder t' @ [m]"
  by (induction t) auto

lemma take_smallest_inorder: "t \<noteq> Leaf \<Longrightarrow> \<exists>m t'. take_smallest t = Some (m, t') \<and> inorder t = m # inorder t'"
  by (induction t) auto

lemma deleteNode_root:
  assumes "\<not> (l = Leaf \<and> r = Leaf)"
  shows "inorder (deleteNodeHelper (Node l a r)) = inorder l @ inorder r"
proof (cases "l = Leaf")
  case True
  then have "r \<noteq> Leaf" using assms by simp
  from take_smallest_inorder [OF this] show ?thesis using True by auto
next
  case False
  from take_largest_inorder [OF this] show ?thesis by auto
qed

lemma filter_all: "\<forall>x \<in> set xs. P x \<Longrightarrow> filter P xs = xs"
  by simp

lemma deleteNode_inorder: "bst t \<Longrightarrow> inorder (deleteNode t key) = filter (\<lambda>x. x \<noteq> key) (inorder t)"
proof (induction t)
  case (Node l a r)
  have l: "filter (\<lambda>x. x \<noteq> key) (inorder l) = inorder l" if "a \<le> key" using Node.prems that by (intro filter_all) auto
  have r: "filter (\<lambda>x. x \<noteq> key) (inorder r) = inorder r" if "key \<le> a" using Node.prems that by (intro filter_all) auto
  show ?case
  proof (cases "a = key")
    case True
    have "inorder (deleteNode (Node l a r) key) = inorder l @ inorder r"
      using deleteNode_root [of l r a] True by auto
    then show ?thesis using True l r by simp
  next
    case False
    then show ?thesis using Node l r by (auto simp: not_less)
  qed
qed simp

text \<open>Deleting a key from a search tree leaves a search tree with all the other values.\<close>

theorem deleteNode_correct:
  assumes "bst t"
  shows "bst (deleteNode t key) \<and> inorder (deleteNode t key) = filter (\<lambda>x. x \<noteq> key) (inorder t)"
  using deleteNode_inorder [OF assms, of key] assms unfolding bst_iff_sorted_wrt_less by (simp add: sorted_wrt_filter)

theorem deleteNode_correct_witness:
  "bst (deleteNode (Node (Node Leaf 1 (Node Leaf 2 Leaf)) 3 (Node Leaf 4 Leaf)) 3) \<and>
   inorder (deleteNode (Node (Node Leaf 1 (Node Leaf 2 Leaf)) 3 (Node Leaf 4 Leaf)) 3) =
     filter (\<lambda>x. x \<noteq> 3) (inorder (Node (Node Leaf 1 (Node Leaf 2 Leaf)) 3 (Node Leaf 4 Leaf)))"
  by (rule deleteNode_correct) simp

subsection \<open>Counting the nodes of a complete tree\<close>

text \<open>\<open>1 << h\<close> overflows from \<open>h = 31\<close> on.\<close>

fun countNodes :: "int tree \<Rightarrow> int" where
  "countNodes Leaf = 0"
| "countNodes (Node l a r) =
     (let h = heightL (Node l a r); hr = heightR (Node l a r)
      in if hr = h then i32 (i32 (2 ^ nat h) - 1)
         else i32 (1 + i32 (countNodes l + countNodes r)))"

text \<open>All levels are full but the last, which is filled from the left.\<close>

fun left_filled :: "'a tree \<Rightarrow> bool" where
  "left_filled Leaf = True"
| "left_filled (Node l a r) \<longleftrightarrow> left_filled l \<and> left_filled r \<and>
     (Tree.complete l \<and> height l = height r \<or> Tree.complete r \<and> height l = Suc (height r))"

lemma left_filled_heightL: "left_filled t \<Longrightarrow> heightL t = int (height t)"
  by (induction t) auto

lemma left_filled_complete: "left_filled t \<Longrightarrow> heightR t = int (height t) \<Longrightarrow> Tree.complete t"
proof (induction t)
  case (Node l a r)
  have "heightR r \<le> int (height r)" using heights(3) [of r] heights(1) [of r] by simp
  then show ?case using Node by auto
qed simp

lemma size_int: "int (size (t :: 'a tree)) < 2 ^ height t"
proof -
  have "size t < 2 ^ height t" using size1_height [of t] by (simp add: size1_size)
  then show ?thesis by (metis of_nat_less_iff of_nat_numeral of_nat_power)
qed

text \<open>\<open>countNodes\<close> is the number of nodes of every tree whose levels are filled from the left, for heights up to 30.\<close>

theorem countNodes_size:
  assumes "left_filled t" "height t \<le> 30"
  shows "countNodes t = int (size t)"
  using assms
proof (induction t)
  case (Node l a r)
  let ?t = "Node l a r"
  have pow: "(2 :: int) ^ height ?t \<le> 2 ^ 30" using Node.prems(2) by (intro power_increasing) auto
  have hL: "heightL ?t = int (height ?t)" by (rule left_filled_heightL [OF Node.prems(1)])
  show ?case
  proof (cases "heightR ?t = heightL ?t")
    case True
    then have "Tree.complete ?t" using left_filled_complete [OF Node.prems(1)] hL by simp
    then have "size1 ?t = 2 ^ height ?t" by (rule size1_if_complete)
    then have "int (size ?t + 1) = int (2 ^ height ?t)" unfolding size1_size by (simp only:)
    then have sz: "int (size ?t) = 2 ^ height ?t - 1" by (simp only: of_nat_add of_nat_power of_nat_numeral of_nat_1 eq_diff_eq)
    have "i32 (i32 P - 1) = P - 1" if "0 \<le> P" "P \<le> 2 ^ 30" for P using that by simp
    from this [OF _ pow] have "i32 (i32 (2 ^ height ?t) - 1) = 2 ^ height ?t - 1" by simp
    with sz show ?thesis using True hL by (simp add: Let_def del: heightL.simps heightR.simps height_tree.simps)
  next
    case False
    have IH: "countNodes l = int (size l)" "countNodes r = int (size r)" using Node by auto
    have "int (size ?t) < 2 ^ 30" using size_int [of ?t] pow by linarith
    then show ?thesis using False IH by (simp add: Let_def del: heightL.simps heightR.simps)
  qed
qed simp

theorem countNodes_size_witness:
  "countNodes (Node (Node Leaf 2 Leaf) 1 Leaf) = int (size (Node (Node Leaf (2 :: int) Leaf) 1 Leaf))"
  by (rule countNodes_size) simp_all

subsection \<open>All full binary trees\<close>

function allPossibleFBT :: "int \<Rightarrow> int tree list" where
  "allPossibleFBT N =
     (if N smod 2 = 0 then []
      else if N = 1 then [Node Leaf 0 Leaf]
      else concat (map (\<lambda>r.
        let left = allPossibleFBT (r - 1); right = allPossibleFBT (N - r)
        in concat (map (\<lambda>L. map (\<lambda>R. Node L 0 R) right) left)) [2..N - 1]))"
  by pat_completeness auto
termination by (relation "measure nat") auto

declare allPossibleFBT.simps [simp del]

fun full_tree :: "int tree \<Rightarrow> bool" where
  "full_tree Leaf = False"
| "full_tree (Node l a r) \<longleftrightarrow> a = 0 \<and> (l = Leaf \<and> r = Leaf \<or> full_tree l \<and> full_tree r)"

lemma full_tree_size: "full_tree t \<Longrightarrow> odd (size t) \<and> 1 \<le> size t"
  by (induction t) auto

lemma smod2_even: "(N :: int) smod 2 = 0 \<longleftrightarrow> even N"
proof -
  have "N smod 2 = 0 \<longleftrightarrow> N = 0 \<or> even \<bar>N\<bar>"
    unfolding smod_int_alt_def mult_eq_0_iff sgn_0_0 even_iff_mod_2_eq_zero [of "\<bar>N\<bar>"] by simp
  then show ?thesis by auto
qed

lemma full_tree_one: "full_tree t \<and> int (size t) = 1 \<longleftrightarrow> t = Node Leaf 0 Leaf"
  by (cases t) (auto dest: full_tree_size)

lemma allPossibleFBT_set: "t \<in> set (allPossibleFBT N) \<longleftrightarrow> full_tree t \<and> int (size t) = N"
proof (induction N arbitrary: t rule: allPossibleFBT.induct)
  case (1 N)
  show ?case
  proof (cases "even N \<or> N = 1")
    case True
    then show ?thesis
    proof
      assume "even N"
      then show ?thesis using full_tree_size [of t] by (subst allPossibleFBT.simps) (auto simp: smod2_even)
    next
      assume "N = 1"
      then show ?thesis unfolding \<open>N = 1\<close> full_tree_one by (subst allPossibleFBT.simps) (simp add: smod2_even)
    qed
  next
    case False
    then have N: "\<not> N smod 2 = 0" "N \<noteq> 1" by (simp_all add: smod2_even)
    have "t \<in> set (allPossibleFBT N) \<longleftrightarrow>
        (\<exists>r \<in> {2..N - 1}. \<exists>L \<in> set (allPossibleFBT (r - 1)). \<exists>R \<in> set (allPossibleFBT (N - r)). t = Node L 0 R)"
      using N by (subst allPossibleFBT.simps) (auto simp: Let_def)
    also have "\<dots> \<longleftrightarrow> (\<exists>r \<in> {2..N - 1}. \<exists>L R. full_tree L \<and> int (size L) = r - 1 \<and> full_tree R \<and> int (size R) = N - r \<and> t = Node L 0 R)"
      using 1 [OF N] by (auto simp: Bex_def)
    also have "\<dots> \<longleftrightarrow> (\<exists>L R. full_tree L \<and> full_tree R \<and> int (size L) + int (size R) + 1 = N \<and> t = Node L 0 R)"
    proof -
      have "int (size L) + 1 \<in> {2..N - 1}" if "full_tree L" "full_tree R" "int (size L) + int (size R) + 1 = N" for L R
        using full_tree_size [OF that(1)] full_tree_size [OF that(2)] that(3) by auto
      then show ?thesis by (auto simp: algebra_simps)
    qed
    also have "\<dots> \<longleftrightarrow> full_tree t \<and> int (size t) = N" using N(2) by (cases t) auto
    finally show ?thesis .
  qed
qed

lemma distinct_products:
  "distinct xs \<Longrightarrow> distinct ys \<Longrightarrow> distinct (concat (map (\<lambda>L. map (\<lambda>R. Node L 0 R) ys) xs))"
  by (induction xs) (auto simp: distinct_map inj_on_def)

lemma distinct_concat_disjoint:
  "distinct xs \<Longrightarrow> (\<And>x. x \<in> set xs \<Longrightarrow> distinct (f x)) \<Longrightarrow>
   (\<And>x y. x \<in> set xs \<Longrightarrow> y \<in> set xs \<Longrightarrow> x \<noteq> y \<Longrightarrow> set (f x) \<inter> set (f y) = {}) \<Longrightarrow> distinct (concat (map f xs))"
  by (induction xs) auto

lemma allPossibleFBT_distinct: "distinct (allPossibleFBT N)"
proof (induction N rule: allPossibleFBT.induct)
  case (1 N)
  show ?case
  proof (cases "even N \<or> N = 1")
    case True
    then show ?thesis by (subst allPossibleFBT.simps) (auto simp: smod2_even)
  next
    case False
    then have N: "\<not> N smod 2 = 0" "N \<noteq> 1" by (simp_all add: smod2_even)
    let ?f = "\<lambda>r. concat (map (\<lambda>L. map (\<lambda>R. Node L 0 R) (allPossibleFBT (N - r))) (allPossibleFBT (r - 1)))"
    have "distinct (concat (map ?f [2..N - 1]))"
    proof (rule distinct_concat_disjoint)
      fix r assume "r \<in> set [2..N - 1]"
      then show "distinct (?f r)" using 1 [OF N] by (intro distinct_products) auto
    next
      fix r r' :: int assume "r \<noteq> r'"
      then show "set (?f r) \<inter> set (?f r') = {}" by (auto simp: allPossibleFBT_set)
    qed simp
    then show ?thesis using N by (subst allPossibleFBT.simps) (simp add: Let_def)
  qed
qed

text \<open>\<open>allPossibleFBT\<close> lists every full binary tree with \<open>N\<close> nodes exactly once.\<close>

theorem allPossibleFBT_correct:
  "set (allPossibleFBT N) = {t. full_tree t \<and> int (size t) = N} \<and> distinct (allPossibleFBT N)"
  using allPossibleFBT_set allPossibleFBT_distinct by blast

subsection \<open>Flip equivalence\<close>

fun flipEquiv :: "int tree \<Rightarrow> int tree \<Rightarrow> bool" where
  "flipEquiv Leaf Leaf = True"
| "flipEquiv Leaf (Node l a r) = False"
| "flipEquiv (Node l a r) Leaf = False"
| "flipEquiv (Node l1 a1 r1) (Node l2 a2 r2) =
     (if a1 \<noteq> a2 then False
      else flipEquiv l1 l2 \<and> flipEquiv r1 r2 \<or> flipEquiv r1 l2 \<and> flipEquiv l1 r2)"

text \<open>One flip: the children of one node are exchanged.\<close>

inductive flip :: "int tree \<Rightarrow> int tree \<Rightarrow> bool" where
  here: "flip (Node l a r) (Node r a l)"
| left: "flip l l' \<Longrightarrow> flip (Node l a r) (Node l' a r)"
| right: "flip r r' \<Longrightarrow> flip (Node l a r) (Node l a r')"

lemma flipEquiv_refl: "flipEquiv t t"
  by (induction t) auto

lemma flipEquiv_flip: "flip t u \<Longrightarrow> flipEquiv s t \<Longrightarrow> flipEquiv s u"
proof (induction arbitrary: s rule: flip.induct)
  case (here l a r)
  then show ?case by (cases s) (auto split: if_splits)
next
  case (left l l' a r)
  then show ?case by (cases s) (auto split: if_splits)
next
  case (right r r' l a)
  then show ?case by (cases s) (auto split: if_splits)
qed

lemma flips_children: "flip\<^sup>*\<^sup>* l l' \<Longrightarrow> flip\<^sup>*\<^sup>* r r' \<Longrightarrow> flip\<^sup>*\<^sup>* (Node l a r) (Node l' a r')"
proof -
  have "flip\<^sup>*\<^sup>* l l' \<Longrightarrow> flip\<^sup>*\<^sup>* (Node l a r) (Node l' a r)"
    by (induction rule: rtranclp_induct) (auto intro: rtranclp.rtrancl_into_rtrancl flip.left)
  moreover have "flip\<^sup>*\<^sup>* r r' \<Longrightarrow> flip\<^sup>*\<^sup>* (Node l' a r) (Node l' a r')"
    by (induction rule: rtranclp_induct) (auto intro: rtranclp.rtrancl_into_rtrancl flip.right)
  ultimately show "flip\<^sup>*\<^sup>* l l' \<Longrightarrow> flip\<^sup>*\<^sup>* r r' \<Longrightarrow> ?thesis" by (rule rtranclp_trans)
qed

lemma flipEquiv_flips: "flipEquiv s t \<Longrightarrow> flip\<^sup>*\<^sup>* s t"
proof (induction s t rule: flipEquiv.induct)
  case (4 l1 a1 r1 l2 a2 r2)
  then have a: "a1 = a2" and "flipEquiv l1 l2 \<and> flipEquiv r1 r2 \<or> flipEquiv r1 l2 \<and> flipEquiv l1 r2"
    by (auto split: if_splits)
  then consider "flip\<^sup>*\<^sup>* l1 l2" "flip\<^sup>*\<^sup>* r1 r2" | "flip\<^sup>*\<^sup>* r1 l2" "flip\<^sup>*\<^sup>* l1 r2"
    using "4.IH" by auto
  then show ?case
  proof cases
    case 1
    then show ?thesis unfolding a by (rule flips_children)
  next
    case 2
    then have "flip\<^sup>*\<^sup>* (Node r1 a2 l1) (Node l2 a2 r2)" by (rule flips_children)
    then show ?thesis unfolding a using flip.here by (rule converse_rtranclp_into_rtranclp [rotated])
  qed
qed auto

text \<open>\<open>flipEquiv\<close> decides whether one tree can be turned into the other by flips.\<close>

theorem flipEquiv_correct: "flipEquiv s t \<longleftrightarrow> flip\<^sup>*\<^sup>* s t"
proof
  show "flip\<^sup>*\<^sup>* s t \<Longrightarrow> flipEquiv s t"
    by (induction rule: rtranclp_induct) (auto intro: flipEquiv_refl flipEquiv_flip)
qed (rule flipEquiv_flips)

end
