(* ===== verification/TreeOptima.thy ===== *)
theory TreeOptima
  imports SearchTrees "HOL-Library.Sublist" "HOL-Library.AList"
begin

section \<open>Optimal choices on trees (class Tree of leetcode/tree/BinaryTree.cpp)\<close>

text \<open>
  The functions of the class \<open>Tree\<close> that optimise or sum over a tree: cameras, house robbery with and without the
  memo table, the widest level, the subtree of the deepest nodes, subtree sums and root-to-leaf numbers. A choice of nodes is a tree
  of booleans of the same shape.
\<close>

fun same_shape :: "'a tree \<Rightarrow> 'b tree \<Rightarrow> bool" where
  "same_shape Leaf Leaf = True"
| "same_shape (Node l a r) (Node l' b r') \<longleftrightarrow> same_shape l l' \<and> same_shape r r'"
| "same_shape t u = False"

fun picked :: "bool tree \<Rightarrow> bool" where
  "picked Leaf = False"
| "picked (Node l c r) = c"

lemma same_shape_Leaf [simp]: "same_shape Leaf p \<longleftrightarrow> p = Leaf"
  by (cases p) auto

lemma same_shape_Node: "same_shape (Node l a r) p \<longleftrightarrow> (\<exists>pl c pr. p = Node pl c pr \<and> same_shape l pl \<and> same_shape r pr)"
  by (cases p) auto

subsection \<open>Cameras\<close>

text \<open>
  \<open>dfs\<close> writes the state of a node into its value: 0 not covered, 1 with a camera, 2 covered. It returns the
  number of cameras and the tree with the new values.
\<close>

definition is_leaf_or_none :: "int tree \<Rightarrow> bool" where
  "is_leaf_or_none t = (case t of Leaf \<Rightarrow> True | Node l a r \<Rightarrow> \<not> (l \<noteq> Leaf \<or> r \<noteq> Leaf))"

definition need_camera_cover :: "int tree \<Rightarrow> bool" where
  "need_camera_cover t = (case t of Leaf \<Rightarrow> False | Node l a r \<Rightarrow> a = 0)"

definition camera_installed :: "int tree \<Rightarrow> bool" where
  "camera_installed t = (case t of Leaf \<Rightarrow> False | Node l a r \<Rightarrow> a = 1)"

fun camera_dfs :: "int tree \<Rightarrow> int \<times> int tree" where
  "camera_dfs Leaf = (0, Leaf)"
| "camera_dfs (Node l a r) =
     (if l = Leaf \<and> r = Leaf then (0, Node l a r)
      else if is_leaf_or_none l \<and> is_leaf_or_none r then (1, Node l 1 r)
      else let (x, l) = camera_dfs l; (y, r) = camera_dfs r; cameras = i32 (x + y)
           in if need_camera_cover l \<or> need_camera_cover r then (i32 (cameras + 1), Node l 1 r)
              else if camera_installed l \<or> camera_installed r then (cameras, Node l 2 r)
              else (cameras, Node l a r))"

definition minCameraCover :: "int tree \<Rightarrow> int" where
  "minCameraCover rt =
     (let (ans, rt) = camera_dfs rt
      in if ans = 0 then (if rt \<noteq> Leaf then 1 else 0)
         else case rt of
           Leaf \<Rightarrow> ans
         | Node l a r \<Rightarrow> if a = 0 \<and> \<not> camera_installed l \<and> \<not> camera_installed r then i32 (ans + 1) else ans)"

text \<open>A choice of cameras covers a tree; the flag says whether the parent of the root has a camera.\<close>

fun covered :: "bool tree \<Rightarrow> bool \<Rightarrow> bool" where
  "covered Leaf b = True"
| "covered (Node l c r) b \<longleftrightarrow> (b \<or> c \<or> picked l \<or> picked r) \<and> covered l c \<and> covered r c"

fun cameras_in :: "bool tree \<Rightarrow> int" where
  "cameras_in Leaf = 0"
| "cameras_in (Node l c r) = (if c then 1 else 0) + cameras_in l + cameras_in r"

lemma covered_mono: "covered p False \<Longrightarrow> covered p True"
  by (cases p) auto

lemma covered_picked: "picked p \<Longrightarrow> covered p b = covered p b'"
  by (cases p) auto

lemma cameras_nonneg: "0 \<le> cameras_in p"
  by (induction p) auto

text \<open>
  The state of a subtree after \<open>dfs\<close> (a null pointer counts as covered), and what the greedy choice means: no choice needs fewer
  cameras, and the state tells what one more camera would gain.
\<close>

definition cam_state :: "int tree \<Rightarrow> int" where
  "cam_state t = (case t of Leaf \<Rightarrow> 2 | Node l a r \<Rightarrow> a)"

definition camera_lower :: "'a tree \<Rightarrow> int \<Rightarrow> int \<Rightarrow> bool" where
  "camera_lower t c s \<longleftrightarrow> (\<forall>p. same_shape t p \<longrightarrow> covered p True \<longrightarrow>
     c \<le> cameras_in p \<and> (covered p False \<longrightarrow> s = 0 \<longrightarrow> c + 1 \<le> cameras_in p) \<and> (picked p \<longrightarrow> s \<noteq> 1 \<longrightarrow> c + 1 \<le> cameras_in p))"

definition camera_upper :: "'a tree \<Rightarrow> int \<Rightarrow> int \<Rightarrow> bool" where
  "camera_upper t c s \<longleftrightarrow>
     (\<exists>p. same_shape t p \<and> cameras_in p = c \<and> covered p (s = 0) \<and> (s = 1 \<longrightarrow> picked p)) \<and>
     (s = 0 \<longrightarrow> (\<exists>p. same_shape t p \<and> cameras_in p = c + 1 \<and> covered p False))"

lemma camera_lowerD:
  assumes "camera_lower t c s" "same_shape t p" "covered p b"
  shows "c \<le> cameras_in p" "\<not> b \<Longrightarrow> s = 0 \<Longrightarrow> c + 1 \<le> cameras_in p" "picked p \<Longrightarrow> s \<noteq> 1 \<Longrightarrow> c + 1 \<le> cameras_in p"
proof -
  have T: "covered p True" using assms(3) covered_mono [of p] by (cases b) auto
  note L = assms(1) [unfolded camera_lower_def, rule_format, OF assms(2) T]
  show "c \<le> cameras_in p" using L by blast
  show "\<not> b \<Longrightarrow> s = 0 \<Longrightarrow> c + 1 \<le> cameras_in p" using L assms(3) by simp
  show "picked p \<Longrightarrow> s \<noteq> 1 \<Longrightarrow> c + 1 \<le> cameras_in p" using L by blast
qed

lemma camera_lower_installed:
  assumes "camera_lower l x sl" "camera_lower r y sr" "sl = 0 \<or> sr = 0"
  shows "camera_lower (Node l a r) (x + y + 1) 1"
  unfolding camera_lower_def
proof (intro allI impI conjI)
  fix p assume "same_shape (Node l a r) p" "covered p True"
  then obtain pl c pr where p: "p = Node pl c pr" "same_shape l pl" "same_shape r pr" "covered pl c" "covered pr c"
    by (auto simp: same_shape_Node)
  note L = camera_lowerD [OF assms(1) p(2,4)] and R = camera_lowerD [OF assms(2) p(3,5)]
  show "x + y + 1 \<le> cameras_in p" using L(1) R(1) L(2) R(2) assms(3) by (cases c) (auto simp: p(1))
qed auto

lemma camera_lower_rest:
  assumes "camera_lower l x sl" "camera_lower r y sr" "s = 2 \<or> s = 0 \<and> sl \<noteq> 1 \<and> sr \<noteq> 1"
  shows "camera_lower (Node l a r) (x + y) s"
  unfolding camera_lower_def
proof (intro allI impI)
  fix p assume "same_shape (Node l a r) p" and c: "covered p True"
  then obtain pl c pr where p: "p = Node pl c pr" "same_shape l pl" "same_shape r pr" "covered pl c" "covered pr c"
    by (auto simp: same_shape_Node)
  note L = camera_lowerD [OF assms(1) p(2,4)] and R = camera_lowerD [OF assms(2) p(3,5)]
  show "x + y \<le> cameras_in p \<and> (covered p False \<longrightarrow> s = 0 \<longrightarrow> x + y + 1 \<le> cameras_in p) \<and> (picked p \<longrightarrow> s \<noteq> 1 \<longrightarrow> x + y + 1 \<le> cameras_in p)"
    using L(1,3) R(1,3) assms(3) by (auto simp: p(1))
qed

lemma camera_upper_installed:
  assumes "camera_upper l x sl" "camera_upper r y sr"
  shows "camera_upper (Node l a r) (x + y + 1) 1"
proof -
  have "\<exists>p. same_shape t p \<and> cameras_in p = c \<and> covered p True" if "camera_upper t c s" for t :: "'a tree" and c s
    using that covered_mono unfolding camera_upper_def by (cases "s = 0") auto
  then obtain pl pr where "same_shape l pl" "cameras_in pl = x" "covered pl True" "same_shape r pr" "cameras_in pr = y" "covered pr True"
    using assms by blast
  then show ?thesis unfolding camera_upper_def by (intro conjI exI [of _ "Node pl True pr"]) auto
qed

lemma camera_upper_rest:
  assumes "camera_upper l x sl" "camera_upper r y sr" "sl \<noteq> 0" "sr \<noteq> 0" "s = 2 \<and> (sl = 1 \<or> sr = 1) \<or> s = 0"
  shows "camera_upper (Node l a r) (x + y) s"
proof -
  obtain pl pr where p: "same_shape l pl" "cameras_in pl = x" "covered pl False" "sl = 1 \<longrightarrow> picked pl"
    "same_shape r pr" "cameras_in pr = y" "covered pr False" "sr = 1 \<longrightarrow> picked pr"
    using assms unfolding camera_upper_def by auto
  have "\<exists>p. same_shape (Node l a r) p \<and> cameras_in p = x + y \<and> covered p (s = 0) \<and> (s = 1 \<longrightarrow> picked p)"
    using p assms(5) by (intro exI [of _ "Node pl False pr"]) auto
  moreover have "\<exists>p. same_shape (Node l a r) p \<and> cameras_in p = x + y + 1 \<and> covered p False"
    using p covered_mono by (intro exI [of _ "Node pl True pr"]) auto
  ultimately show ?thesis unfolding camera_upper_def by blast
qed

lemma camera_leaf: "camera_lower (Node Leaf a Leaf) 0 0" "camera_upper (Node Leaf a Leaf) 0 0"
proof -
  show "camera_lower (Node Leaf a Leaf) 0 0" by (auto simp: camera_lower_def same_shape_Node)
  show "camera_upper (Node Leaf a Leaf) 0 0" unfolding camera_upper_def
    by (intro conjI impI exI [of _ "Node Leaf False Leaf"] exI [of _ "Node Leaf True Leaf"]) auto
qed

lemma camera_null: "camera_lower Leaf 0 2" "camera_upper Leaf 0 2"
  by (auto simp: camera_lower_def camera_upper_def)

lemma camera_dfs_spec:
  "\<forall>x \<in> set_tree t. x = 0 \<Longrightarrow> int (size t) < 2147483648 \<Longrightarrow> camera_dfs t = (c, t') \<Longrightarrow>
   camera_lower t c (cam_state t') \<and> camera_upper t c (cam_state t') \<and> 0 \<le> c \<and> c \<le> int (size t) \<and>
   (c = 0 \<longrightarrow> is_leaf_or_none t) \<and> (t' = Leaf \<longleftrightarrow> t = Leaf) \<and>
   (\<forall>l r. t' = Node l 0 r \<longrightarrow> c \<noteq> 0 \<longrightarrow> \<not> camera_installed l \<and> \<not> camera_installed r)"
proof (induction t arbitrary: c t')
  case Leaf
  then show ?case using camera_null by (auto simp: cam_state_def is_leaf_or_none_def)
next
  case (Node l a r)
  have a: "a = 0" using Node.prems(1) by simp
  obtain x l' where l: "camera_dfs l = (x, l')" by force
  obtain y r' where r: "camera_dfs r = (y, r')" by force
  have IHl: "camera_lower l x (cam_state l')" "camera_upper l x (cam_state l')" "0 \<le> x" "x \<le> int (size l)" "x = 0 \<longrightarrow> is_leaf_or_none l"
    using Node.IH(1) [OF _ _ l] Node.prems by auto
  have IHr: "camera_lower r y (cam_state r')" "camera_upper r y (cam_state r')" "0 \<le> y" "y \<le> int (size r)" "y = 0 \<longrightarrow> is_leaf_or_none r"
    using Node.IH(2) [OF _ _ r] Node.prems by auto
  have state: "need_camera_cover u \<longleftrightarrow> cam_state u = 0" "camera_installed u \<longleftrightarrow> cam_state u = 1" for u
    by (auto simp: need_camera_cover_def camera_installed_def cam_state_def split: tree.split)
  show ?case
  proof (cases "l = Leaf \<and> r = Leaf")
    case True
    then show ?thesis using Node.prems camera_leaf a by (auto simp: cam_state_def is_leaf_or_none_def)
  next
    case nl: False
    show ?thesis
    proof (cases "is_leaf_or_none l \<and> is_leaf_or_none r")
      case True
      have flat: "x = 0" "y = 0" "cam_state l' = (if l = Leaf then 2 else 0)" "cam_state r' = (if r = Leaf then 2 else 0)"
        using True l r Node.prems(1) by (auto simp: is_leaf_or_none_def cam_state_def split: tree.splits)
      have "cam_state l' = 0 \<or> cam_state r' = 0" using nl flat by auto
      then have "camera_lower (Node l a r) 1 1" "camera_upper (Node l a r) 1 1"
        using camera_lower_installed [OF IHl(1) IHr(1)] camera_upper_installed [OF IHl(2) IHr(2)] flat by auto
      moreover have "c = 1" "t' = Node l 1 r" using Node.prems(3) nl True by auto
      ultimately show ?thesis by (simp add: cam_state_def)
    next
      case deep: False
      have c: "i32 (x + y) = x + y" "i32 (x + y + 1) = x + y + 1" using IHl(3,4) IHr(3,4) Node.prems(2) by (auto intro!: i32_id)
      have pos: "0 < x + y" using deep IHl(3,5) IHr(3,5) by auto
      have res: "(c, t') = (if cam_state l' = 0 \<or> cam_state r' = 0 then (x + y + 1, Node l' 1 r')
          else if cam_state l' = 1 \<or> cam_state r' = 1 then (x + y, Node l' 2 r') else (x + y, Node l' a r'))"
        using Node.prems(3) nl deep c by (simp add: l r Let_def state cong: if_cong)
      consider (need) "cam_state l' = 0 \<or> cam_state r' = 0"
        | (seen) "cam_state l' \<noteq> 0" "cam_state r' \<noteq> 0" "cam_state l' = 1 \<or> cam_state r' = 1"
        | (rest) "cam_state l' \<noteq> 0" "cam_state r' \<noteq> 0" "cam_state l' \<noteq> 1" "cam_state r' \<noteq> 1" by blast
      then show ?thesis
      proof cases
        case need
        then have "c = x + y + 1" "t' = Node l' 1 r'" using res by auto
        then show ?thesis using camera_lower_installed [OF IHl(1) IHr(1) need, of a] camera_upper_installed [OF IHl(2) IHr(2), of a] pos IHl(4) IHr(4)
          by (simp add: cam_state_def)
      next
        case seen
        then have "c = x + y" "t' = Node l' 2 r'" using res by auto
        then show ?thesis using camera_lower_rest [OF IHl(1) IHr(1), of 2 a] camera_upper_rest [OF IHl(2) IHr(2) seen(1,2), of 2 a] seen(3) pos IHl(4) IHr(4)
          by (simp add: cam_state_def)
      next
        case rest
        then have "c = x + y" "t' = Node l' 0 r'" using res a by auto
        then show ?thesis using camera_lower_rest [OF IHl(1) IHr(1), of 0 a] camera_upper_rest [OF IHl(2) IHr(2) rest(1,2), of 0 a] rest pos IHl(4) IHr(4)
          by (simp add: cam_state_def state)
      qed
    qed
  qed
qed

text \<open>C10: The greedy \<open>minCameraCover\<close> is optimal: its number of cameras suffices to cover the tree, and no fewer do.\<close>

theorem minCameraCover_minimal:
  assumes "\<forall>x \<in> set_tree t. x = 0" "int (size t) < 2147483647"
  shows "(\<exists>p. same_shape t p \<and> covered p False \<and> cameras_in p = minCameraCover t) \<and>
    (\<forall>p. same_shape t p \<and> covered p False \<longrightarrow> minCameraCover t \<le> cameras_in p)"
proof -
  obtain c t' where d: "camera_dfs t = (c, t')" by force
  then have S: "camera_lower t c (cam_state t')" "camera_upper t c (cam_state t')" "0 \<le> c" "c \<le> int (size t)"
    "c = 0 \<longrightarrow> is_leaf_or_none t" "t' = Leaf \<longleftrightarrow> t = Leaf"
    "\<And>l r. t' = Node l 0 r \<Longrightarrow> c \<noteq> 0 \<Longrightarrow> \<not> camera_installed l \<and> \<not> camera_installed r"
    using camera_dfs_spec [OF assms(1) _ d] assms(2) by auto
  have "t' \<noteq> Leaf \<and> cam_state t' = 0" if "c = 0" "t \<noteq> Leaf"
    using that S(5) d assms(1) by (cases t) (auto simp: is_leaf_or_none_def cam_state_def)
  then have "minCameraCover t = (if cam_state t' = 0 then c + 1 else c)"
    using d S(3,4,6,7) assms(2) by (cases t') (auto simp: minCameraCover_def cam_state_def)
  then show ?thesis
    using S(1,2) covered_mono unfolding camera_lower_def camera_upper_def by (cases "cam_state t' = 0") auto
qed

theorem minCameraCover_minimal_witness:
  "\<exists>p. same_shape (Node (Node (Node Leaf 0 Leaf) 0 (Node Leaf 0 Leaf)) (0 :: int) Leaf) p \<and> covered p False \<and>
     cameras_in p = minCameraCover (Node (Node (Node Leaf 0 Leaf) 0 (Node Leaf 0 Leaf)) 0 Leaf)"
  by (rule conjunct1 [OF minCameraCover_minimal]) simp_all

subsection \<open>House robbery\<close>

text \<open>The best sums of a tree without and with its root.\<close>

fun rob2 :: "int tree \<Rightarrow> int \<times> int" where
  "rob2 Leaf = (0, 0)"
| "rob2 (Node l a r) =
     (let left = rob2 l; right = rob2 r
      in (i32 (max (fst left) (snd left) + max (fst right) (snd right)), i32 (i32 (a + fst left) + fst right)))"

definition rob :: "int tree \<Rightarrow> int" where
  "rob rt = (let res = rob2 rt in max (fst res) (snd res))"

text \<open>The memo tables of \<open>rob(root, pick)\<close>, keyed by the position of a node.\<close>

type_synonym rob_table = "bool \<Rightarrow> bool list \<rightharpoonup> int"

fun rob_pick :: "int tree \<Rightarrow> bool list \<Rightarrow> bool \<Rightarrow> rob_table \<Rightarrow> int \<times> rob_table" where
  "rob_pick Leaf pos pick dp = (0, dp)"
| "rob_pick (Node l a r) pos pick dp =
     (case dp pick pos of
        Some v \<Rightarrow> (v, dp)
      | None \<Rightarrow>
          let (left, dp) = rob_pick l (pos @ [False]) (\<not> pick) dp;
              (left, dp) =
                (if \<not> pick then let (x, dp) = rob_pick l (pos @ [False]) False dp in (max left x, dp) else (left, dp));
              (right, dp) = rob_pick r (pos @ [True]) (\<not> pick) dp;
              (right, dp) =
                (if \<not> pick then let (x, dp) = rob_pick r (pos @ [True]) False dp in (max right x, dp) else (right, dp));
              tot = i32 (i32 (left + right) + (if pick then a else 0))
          in (tot, dp(pick := (dp pick)(pos \<mapsto> tot))))"

text \<open>A choice of houses, no two of them joined, and what it brings.\<close>

fun unjoined :: "bool tree \<Rightarrow> bool" where
  "unjoined Leaf = True"
| "unjoined (Node l c r) \<longleftrightarrow> (c \<longrightarrow> \<not> picked l \<and> \<not> picked r) \<and> unjoined l \<and> unjoined r"

fun loot :: "int tree \<Rightarrow> bool tree \<Rightarrow> int" where
  "loot (Node l a r) (Node pl c pr) = (if c then a else 0) + loot l pl + loot r pr"
| "loot t p = 0"

lemma loot_Leaf [simp]: "loot Leaf p = 0"
  by (cases p) auto

fun wealth :: "int tree \<Rightarrow> int" where
  "wealth Leaf = 0"
| "wealth (Node l a r) = \<bar>a\<bar> + wealth l + wealth r"

lemma wealth_nonneg: "0 \<le> wealth t"
  by (induction t) auto

definition best :: "int set \<Rightarrow> int \<Rightarrow> bool" where
  "best S m \<longleftrightarrow> m \<in> S \<and> (\<forall>x \<in> S. x \<le> m)"

lemma best_plus: "best A m \<Longrightarrow> best B n \<Longrightarrow> best {x + y |x y. x \<in> A \<and> y \<in> B} (m + n)"
  by (fastforce simp: best_def)

lemma best_Un: "best A m \<Longrightarrow> best B n \<Longrightarrow> best (A \<union> B) (max m n)"
  by (fastforce simp: best_def max_def)

lemma best_shift: "best A m \<Longrightarrow> best ((+) a ` A) (a + m)"
  by (auto simp: best_def)

definition loots :: "int tree \<Rightarrow> bool \<Rightarrow> int set" where
  "loots t c = {loot t p |p. same_shape t p \<and> unjoined p \<and> (picked p \<longrightarrow> c)}"

lemma loots_out:
  "loots (Node l a r) False = {x + y |x y. x \<in> loots l True \<and> y \<in> loots r True}"
proof (intro set_eqI iffI)
  fix z assume "z \<in> loots (Node l a r) False"
  then obtain pl pr where "z = loot l pl + loot r pr" "same_shape l pl" "same_shape r pr" "unjoined pl" "unjoined pr"
    by (auto simp: loots_def same_shape_Node)
  then show "z \<in> {x + y |x y. x \<in> loots l True \<and> y \<in> loots r True}" unfolding loots_def by blast
next
  fix z assume "z \<in> {x + y |x y. x \<in> loots l True \<and> y \<in> loots r True}"
  then obtain pl pr where "z = loot l pl + loot r pr" "same_shape l pl" "same_shape r pr" "unjoined pl" "unjoined pr"
    unfolding loots_def by blast
  then show "z \<in> loots (Node l a r) False" unfolding loots_def by (auto intro!: exI [of _ "Node pl False pr"])
qed

lemma loots_in:
  "loots (Node l a r) True = loots (Node l a r) False \<union> (+) a ` {x + y |x y. x \<in> loots l False \<and> y \<in> loots r False}"
proof (intro set_eqI iffI)
  fix z assume "z \<in> loots (Node l a r) True"
  then obtain pl c pr where p: "z = loot (Node l a r) (Node pl c pr)" "same_shape l pl" "same_shape r pr" "unjoined (Node pl c pr)"
    by (auto simp: loots_def same_shape_Node)
  show "z \<in> loots (Node l a r) False \<union> (+) a ` {x + y |x y. x \<in> loots l False \<and> y \<in> loots r False}"
  proof (cases c)
    case True
    then have "loot l pl \<in> loots l False" "loot r pr \<in> loots r False" "z = a + (loot l pl + loot r pr)"
      using p by (auto simp: loots_def)
    then show ?thesis by blast
  next
    case False
    then have "z \<in> loots (Node l a r) False" using p unfolding loots_def by (auto intro!: exI [of _ "Node pl c pr"])
    then show ?thesis by blast
  qed
next
  fix z assume "z \<in> loots (Node l a r) False \<union> (+) a ` {x + y |x y. x \<in> loots l False \<and> y \<in> loots r False}"
  then consider "z \<in> loots (Node l a r) False"
    | pl pr where "z = a + (loot l pl + loot r pr)" "same_shape l pl" "same_shape r pr" "unjoined pl" "unjoined pr" "\<not> picked pl" "\<not> picked pr"
    unfolding loots_def [of l] loots_def [of r] by blast
  then show "z \<in> loots (Node l a r) True"
  proof cases
    case 2
    then show ?thesis unfolding loots_def by (auto intro!: exI [of _ "Node pl True pr"])
  qed (auto simp: loots_def)
qed

lemma rob2_best:
  "wealth t < 2147483648 \<Longrightarrow>
   best (loots t False) (fst (rob2 t)) \<and> best (loots t True) (max (fst (rob2 t)) (snd (rob2 t))) \<and>
   \<bar>fst (rob2 t)\<bar> \<le> wealth t \<and> \<bar>snd (rob2 t)\<bar> \<le> wealth t"
proof (induction t)
  case Leaf
  then show ?case by (auto simp: best_def loots_def)
next
  case (Node l a r)
  have w: "0 \<le> wealth l" "0 \<le> wealth r" "wealth l < 2147483648" "wealth r < 2147483648" "\<bar>a\<bar> + wealth l + wealth r < 2147483648"
    using Node.prems wealth_nonneg [of l] wealth_nonneg [of r] by auto
  obtain x x' where l: "rob2 l = (x, x')" by force
  obtain y y' where r: "rob2 r = (y, y')" by force
  have L: "best (loots l False) x" "best (loots l True) (max x x')" "\<bar>x\<bar> \<le> wealth l" "\<bar>x'\<bar> \<le> wealth l"
    using Node.IH(1) [OF w(3)] l by auto
  have R: "best (loots r False) y" "best (loots r True) (max y y')" "\<bar>y\<bar> \<le> wealth r" "\<bar>y'\<bar> \<le> wealth r"
    using Node.IH(2) [OF w(4)] r by auto
  have "i32 (max x x' + max y y') = max x x' + max y y'" using L R w by (intro i32_id) auto
  moreover have "i32 (a + x) = a + x" "i32 (a + x + y) = a + x + y" using L R w by (auto intro!: i32_id)
  ultimately have res: "rob2 (Node l a r) = (max x x' + max y y', a + x + y)" by (simp add: l r Let_def)
  have out: "best (loots (Node l a r) False) (max x x' + max y y')"
    unfolding loots_out by (rule best_plus [OF L(2) R(2)])
  have "best ((+) a ` {x + y |x y. x \<in> loots l False \<and> y \<in> loots r False}) (a + (x + y))"
    by (rule best_shift [OF best_plus [OF L(1) R(1)]])
  from best_Un [OF out this] have "best (loots (Node l a r) True) (max (max x x' + max y y') (a + (x + y)))"
    unfolding loots_in .
  then show ?case using out L R unfolding res by (auto simp: add.assoc)
qed

text \<open>\<open>rob\<close> is the greatest sum of values of a choice of nodes in which no node and its parent are both chosen.\<close>

theorem rob_optimal:
  assumes "wealth t < 2147483648"
  shows "(\<exists>p. same_shape t p \<and> unjoined p \<and> loot t p = rob t) \<and> (\<forall>p. same_shape t p \<and> unjoined p \<longrightarrow> loot t p \<le> rob t)"
  using rob2_best [OF assms] by (auto simp: rob_def Let_def best_def loots_def) 

theorem rob_optimal_witness:
  "(\<exists>p. same_shape (Node (Node Leaf 2 (Node Leaf 3 Leaf)) (3 :: int) (Node Leaf 3 (Node Leaf 1 Leaf))) p \<and> unjoined p \<and>
      loot (Node (Node Leaf 2 (Node Leaf 3 Leaf)) 3 (Node Leaf 3 (Node Leaf 1 Leaf))) p = rob (Node (Node Leaf 2 (Node Leaf 3 Leaf)) 3 (Node Leaf 3 (Node Leaf 1 Leaf)))) \<and>
   (\<forall>p. same_shape (Node (Node Leaf 2 (Node Leaf 3 Leaf)) (3 :: int) (Node Leaf 3 (Node Leaf 1 Leaf))) p \<and> unjoined p \<longrightarrow>
      loot (Node (Node Leaf 2 (Node Leaf 3 Leaf)) 3 (Node Leaf 3 (Node Leaf 1 Leaf))) p \<le> rob (Node (Node Leaf 2 (Node Leaf 3 Leaf)) 3 (Node Leaf 3 (Node Leaf 1 Leaf))))"
  by (rule rob_optimal) simp

text \<open>The memo tables hold only values of the plain recursion.\<close>

fun subtree_at :: "int tree \<Rightarrow> bool list \<Rightarrow> int tree" where
  "subtree_at t [] = t"
| "subtree_at Leaf (b # pos) = Leaf"
| "subtree_at (Node l a r) (b # pos) = subtree_at (if b then r else l) pos"

definition rob_value :: "int tree \<Rightarrow> bool \<Rightarrow> int" where
  "rob_value t pick = (if pick then snd (rob2 t) else fst (rob2 t))"

definition table_ok :: "int tree \<Rightarrow> rob_table \<Rightarrow> bool" where
  "table_ok rt dp \<longleftrightarrow> (\<forall>pick pos v. dp pick pos = Some v \<longrightarrow> v = rob_value (subtree_at rt pos) pick)"

lemma subtree_at_step: "subtree_at rt pos = Node l a r \<Longrightarrow> subtree_at rt (pos @ [b]) = (if b then r else l)"
  by (induction rt pos rule: subtree_at.induct) auto

lemma rob_pick_value:
  "subtree_at rt pos = t \<Longrightarrow> table_ok rt dp \<Longrightarrow>
   fst (rob_pick t pos pick dp) = rob_value t pick \<and> table_ok rt (snd (rob_pick t pos pick dp))"
proof (induction t arbitrary: pos pick dp)
  case Leaf
  then show ?case by (simp add: rob_value_def)
next
  case (Node l a r)
  show ?case
  proof (cases "dp pick pos")
    case (Some v)
    then have "v = rob_value (subtree_at rt pos) pick" using Node.prems(2) unfolding table_ok_def by blast
    then show ?thesis using Some Node.prems by simp
  next
    case None
    have sub: "subtree_at rt (pos @ [False]) = l" "subtree_at rt (pos @ [True]) = r"
      using subtree_at_step [OF Node.prems(1)] by simp_all
    have L: "\<exists>dp'. rob_pick l (pos @ [False]) b dp = (rob_value l b, dp') \<and> table_ok rt dp'" if "table_ok rt dp" for dp b
      using Node.IH(1) [OF sub(1) that, of b] by (metis prod.collapse)
    have R: "\<exists>dp'. rob_pick r (pos @ [True]) b dp = (rob_value r b, dp') \<and> table_ok rt dp'" if "table_ok rt dp" for dp b
      using Node.IH(2) [OF sub(2) that, of b] by (metis prod.collapse)
    obtain dp1 where 1: "rob_pick l (pos @ [False]) (\<not> pick) dp = (rob_value l (\<not> pick), dp1)" "table_ok rt dp1" using L [OF Node.prems(2)] by blast
    obtain dp2 where 2: "rob_pick l (pos @ [False]) False dp1 = (rob_value l False, dp2)" "table_ok rt dp2" using L [OF 1(2)] by blast
    define dp3 where "dp3 = (if pick then dp1 else dp2)"
    have "table_ok rt dp3" using 1 2 by (simp add: dp3_def)
    then obtain dp4 where 4: "rob_pick r (pos @ [True]) (\<not> pick) dp3 = (rob_value r (\<not> pick), dp4)" "table_ok rt dp4" using R by blast
    obtain dp5 where 5: "rob_pick r (pos @ [True]) False dp4 = (rob_value r False, dp5)" "table_ok rt dp5" using R [OF 4(2)] by blast
    define dp6 where "dp6 = (if pick then dp4 else dp5)"
    have ok: "table_ok rt dp6" using 4 5 by (simp add: dp6_def)
    define v where "v = rob_value (Node l a r) pick"
    have "rob_pick (Node l a r) pos pick dp = (v, dp6(pick := (dp6 pick)(pos \<mapsto> v)))"
    proof (cases pick)
      case True
      have "i32 (i32 (fst (rob2 l) + fst (rob2 r)) + a) = i32 (i32 (a + fst (rob2 l)) + fst (rob2 r))"
        by (simp add: swrap_add) (simp add: add_ac)
      then show ?thesis using None 1 4 True by (simp add: Let_def dp3_def dp6_def v_def rob_value_def)
    next
      case False
      then show ?thesis using None 1 2 4 5 by (simp add: Let_def dp3_def dp6_def v_def rob_value_def max.commute swrap_swrap)
    qed
    moreover have "table_ok rt (dp6(pick := (dp6 pick)(pos \<mapsto> v)))"
      using ok Node.prems(1) by (simp add: table_ok_def v_def)
    ultimately show ?thesis by (simp only: v_def fst_conv snd_conv simp_thms)
  qed
qed

text \<open>The recursion with memo tables computes the pair of \<open>rob2\<close>.\<close>

theorem rob_pick_agrees:
  "fst (rob_pick t [] False (\<lambda>b. Map.empty)) = fst (rob2 t) \<and> fst (rob_pick t [] True (\<lambda>b. Map.empty)) = snd (rob2 t)"
  using rob_pick_value [of t "[]" t "\<lambda>b. Map.empty"] by (simp add: table_ok_def rob_value_def)

subsection \<open>The widest level\<close>

text \<open>The two deques of \<open>widthOfBinaryTree\<close> hold the nodes of a level, null pointers between them included.\<close>

definition next_level :: "int tree list \<Rightarrow> int tree list" where
  "next_level q = concat (map (\<lambda>t. case t of Leaf \<Rightarrow> [Leaf, Leaf] | Node l a r \<Rightarrow> [l, r]) q)"

definition trim_nulls :: "int tree list \<Rightarrow> int tree list" where
  "trim_nulls q = rev (dropWhile (\<lambda>t. t = Leaf) (rev (dropWhile (\<lambda>t. t = Leaf) q)))"

lemma trim_nulls_all: "\<forall>t \<in> set q. t = Leaf \<Longrightarrow> trim_nulls q = []"
proof -
  assume "\<forall>t \<in> set q. t = Leaf"
  then have "dropWhile (\<lambda>t. t = Leaf) q = []" unfolding dropWhile_eq_Nil_conv .
  then show ?thesis unfolding trim_nulls_def by (simp only: dropWhile.simps rev.simps)
qed

lemma trim_nulls_split: "\<exists>m n. q = replicate m Leaf @ trim_nulls q @ replicate n Leaf"
proof -
  have all: "takeWhile (\<lambda>t. t = Leaf) xs = replicate (length (takeWhile (\<lambda>t. t = Leaf) xs)) Leaf" for xs :: "int tree list"
    by (induction xs) auto
  let ?d = "dropWhile (\<lambda>t. t = Leaf) q"
  have "q = replicate (length (takeWhile (\<lambda>t. t = Leaf) q)) Leaf @ ?d"
    using takeWhile_dropWhile_id [of "\<lambda>t. t = Leaf" q] all [of q] by simp
  moreover have "rev ?d = replicate (length (takeWhile (\<lambda>t. t = Leaf) (rev ?d))) Leaf @ rev (trim_nulls q)"
    using takeWhile_dropWhile_id [of "\<lambda>t. t = Leaf" "rev ?d"] all [of "rev ?d"] by (simp add: trim_nulls_def)
  then have "?d = trim_nulls q @ replicate (length (takeWhile (\<lambda>t. t = Leaf) (rev ?d))) Leaf"
    by (metis rev_append rev_replicate rev_rev_ident)
  ultimately show ?thesis by metis
qed

lemma next_level_size: "q \<noteq> [] \<Longrightarrow> (trim_nulls (next_level q), q) \<in> measures [\<lambda>q. sum_list (map size q), length]"
proof -
  assume ne: "q \<noteq> []"
  have sum: "sum_list (map size (trim_nulls p)) \<le> sum_list (map size p)" for p
  proof -
    obtain m n where "p = replicate m Leaf @ trim_nulls p @ replicate n Leaf" using trim_nulls_split by blast
    from arg_cong [OF this, of "\<lambda>p. sum_list (map size p)"] show ?thesis by simp
  qed
  have nl: "sum_list (map size (next_level p)) \<le> sum_list (map size p)" for p
    by (induction p) (auto simp: next_level_def split: tree.splits)
  show ?thesis
  proof (cases "\<forall>t \<in> set q. t = Leaf")
    case True
    then have "\<forall>t \<in> set (next_level q). t = Leaf" by (auto simp: next_level_def)
    then have "trim_nulls (next_level q) = []" by (rule trim_nulls_all)
    then show ?thesis using ne by (cases "sum_list (map size q)") auto
  next
    case False
    then obtain xs l a r ys where q: "q = xs @ Node l a r # ys" by (metis split_list tree.exhaust)
    have "next_level q = next_level xs @ [l, r] @ next_level ys" by (simp add: q next_level_def)
    then have "sum_list (map size (next_level q)) < sum_list (map size q)" using nl [of xs] nl [of ys] by (simp add: q)
    then show ?thesis using sum [of "next_level q"] by simp
  qed
qed

function width_loop :: "int tree list \<Rightarrow> int \<Rightarrow> int" where
  "width_loop nodes maxW =
     (if nodes = [] then maxW
      else let nodes = trim_nulls (next_level nodes)
           in width_loop nodes (max maxW (int (length nodes))))"
  by pat_completeness auto
termination
  by (relation "inv_image (measures [\<lambda>q. sum_list (map size q), length]) fst") (auto dest: next_level_size simp del: in_measures)

declare width_loop.simps [simp del]

definition widthOfBinaryTree :: "int tree \<Rightarrow> int" where
  "widthOfBinaryTree rt = (if rt = Leaf then 0 else i32 (width_loop [rt] 1))"

text \<open>A level with all its places, and the span from its first to its last node.\<close>

primrec full_level :: "int tree \<Rightarrow> nat \<Rightarrow> int tree list" where
  "full_level t 0 = [t]"
| "full_level t (Suc d) = next_level (full_level t d)"

definition places :: "int tree \<Rightarrow> nat \<Rightarrow> nat set" where
  "places t d = {i. i < 2 ^ d \<and> full_level t d ! i \<noteq> Leaf}"

definition level_width :: "int tree \<Rightarrow> nat \<Rightarrow> nat" where
  "level_width t d = Max (places t d) - Min (places t d) + 1"

lemma next_level_append: "next_level (p @ q) = next_level p @ next_level q"
  by (simp add: next_level_def)

lemma next_level_nulls: "next_level (replicate n Leaf) = replicate (2 * n) Leaf"
  by (induction n) (simp_all add: next_level_def)

lemma trim_nulls_nulls: "trim_nulls (replicate m Leaf @ q @ replicate n Leaf) = trim_nulls q"
proof (cases "\<forall>t \<in> set q. t = Leaf")
  case True
  then have "trim_nulls (replicate m Leaf @ q @ replicate n Leaf) = []" by (intro trim_nulls_all) auto
  then show ?thesis using trim_nulls_all [OF True] by simp
next
  case False
  then have "dropWhile (\<lambda>t. t = Leaf) (replicate m Leaf @ q @ replicate n Leaf) = dropWhile (\<lambda>t. t = Leaf) q @ replicate n Leaf"
    by (auto simp: dropWhile_append)
  then show ?thesis by (simp add: trim_nulls_def dropWhile_append)
qed

lemma trim_next_level: "trim_nulls (next_level (trim_nulls q)) = trim_nulls (next_level q)"
proof -
  obtain m n where "q = replicate m Leaf @ trim_nulls q @ replicate n Leaf" using trim_nulls_split by blast
  then have "next_level q = replicate (2 * m) Leaf @ next_level (trim_nulls q) @ replicate (2 * n) Leaf"
    by (metis next_level_append next_level_nulls)
  then show ?thesis using trim_nulls_nulls [of "2 * m" "next_level (trim_nulls q)" "2 * n"] by simp
qed

lemma length_full_level: "length (full_level t d) = 2 ^ d"
proof (induction d)
  case (Suc d)
  have "length (next_level q) = 2 * length q" for q by (induction q) (auto simp: next_level_def split: tree.split)
  then show ?case using Suc by simp
qed simp

lemma trim_nulls_ends: "trim_nulls q = [] \<or> hd (trim_nulls q) \<noteq> Leaf \<and> List.last (trim_nulls q) \<noteq> Leaf"
proof (cases "trim_nulls q = []")
  case False
  let ?d = "dropWhile (\<lambda>t. t = Leaf) q"
  have "hd (rev (trim_nulls q)) \<noteq> Leaf" using False hd_dropWhile [of "\<lambda>t. t = Leaf" "rev ?d"] by (auto simp: trim_nulls_def)
  moreover have "?d \<noteq> []" using False unfolding trim_nulls_def by (metis dropWhile.simps(1) rev.simps(1))
  then have "hd ?d \<noteq> Leaf" using hd_dropWhile [of "\<lambda>t. t = Leaf" q] by blast
  moreover have "\<exists>zs. ?d = trim_nulls q @ zs"
    using takeWhile_dropWhile_id [of "\<lambda>t. t = Leaf" "rev ?d"] by (metis rev_append rev_rev_ident trim_nulls_def)
  then have "hd ?d = hd (trim_nulls q)" using False by auto
  ultimately show ?thesis using False by (simp add: hd_rev)
qed simp

lemma trim_nulls_length:
  assumes "S = {i. i < length q \<and> q ! i \<noteq> Leaf}" "S \<noteq> {}"
  shows "length (trim_nulls q) = Max S - Min S + 1"
proof -
  obtain m n where q: "q = replicate m Leaf @ trim_nulls q @ replicate n Leaf" using trim_nulls_split by blast
  let ?t = "trim_nulls q"
  have nth: "q ! i = (if i < m then Leaf else if i < m + length ?t then ?t ! (i - m) else Leaf)" if "i < length q" for i
    using that arg_cong [OF q, of "\<lambda>q. q ! i"] arg_cong [OF q, of length] by (auto simp: nth_append)
  have len: "length q = m + length ?t + n" using arg_cong [OF q, of length] by simp
  obtain i where i: "i < length q" "q ! i \<noteq> Leaf" using assms by blast
  then have "m \<le> i \<and> i < m + length ?t" using nth [OF i(1)] by (auto split: if_splits)
  then have ne: "?t \<noteq> []" by auto
  have ends: "?t ! 0 \<noteq> Leaf" "?t ! (length ?t - 1) \<noteq> Leaf" using trim_nulls_ends [of q] ne by (auto simp: hd_conv_nth last_conv_nth)
  have fin: "finite S" using assms(1) by simp
  have S: "S \<subseteq> {m..<m + length ?t}" using assms(1) nth by (auto split: if_splits)
  obtain k where k: "length ?t = Suc k" using ne by (cases "length ?t") auto
  have "m \<in> S" "m + (length ?t - 1) \<in> S"
    using assms(1) nth [of m] nth [of "m + k"] len ends k by auto
  moreover have "\<forall>y \<in> S. m \<le> y \<and> y \<le> m + (length ?t - 1)" using S k by fastforce
  ultimately have "Min S = m" "Max S = m + (length ?t - 1)" using fin by (auto intro!: Min_eqI Max_eqI)
  then show ?thesis using ne by (cases "length ?t") auto
qed

lemma level_depth: "places t d \<noteq> {} \<longleftrightarrow> d < height t"
proof -
  have "(\<exists>u \<in> set (full_level t d). u \<noteq> Leaf) \<longleftrightarrow> d < height t"
  proof (induction d arbitrary: t)
    case (0 t)
    then show ?case by (cases t) auto
  next
    case (Suc d)
    have shift: "set (full_level t (Suc d)) = \<Union> (set (map (\<lambda>u. set (full_level u d)) (next_level [t])))" for t
    proof -
      have "full_level t (Suc d) = concat (map (\<lambda>u. full_level u d) (next_level [t]))"
      proof (induction d arbitrary: t)
        case 0
        then show ?case by simp
      next
        case (Suc d)
        have "next_level (concat qs) = concat (map next_level qs)" for qs
          by (induction qs) (simp_all add: next_level_append, simp add: next_level_def)
        then show ?case using Suc [of t] by (simp add: comp_def)
      qed
      then show ?thesis by simp
    qed
    show ?case
    proof (cases t)
      case Leaf
      have "full_level Leaf k = replicate (2 ^ k) Leaf" for k by (induction k) (simp_all add: next_level_nulls)
      from this [of "Suc d"] show ?thesis using Leaf by (simp del: full_level.simps)
    next
      case (Node l a r)
      then show ?thesis unfolding shift using Suc [of l] Suc [of r] by (auto simp: next_level_def)
    qed
  qed
  moreover have "(\<exists>u \<in> set (full_level t d). u \<noteq> Leaf) \<longleftrightarrow> (\<exists>i < 2 ^ d. full_level t d ! i \<noteq> Leaf)"
    by (auto simp: set_conv_nth length_full_level)
  ultimately show ?thesis by (auto simp: places_def)
qed

lemma Max_insert_max: "finite A \<Longrightarrow> Max (insert (max m w) A) = Max (insert m (insert w A))"
  by (cases "A = {}") (simp_all add: max.assoc)

lemma width_loop_levels:
  "places t d \<noteq> {} \<Longrightarrow> 0 \<le> m \<Longrightarrow>
   width_loop (trim_nulls (full_level t d)) m = Max (insert m ((\<lambda>k. int (level_width t k)) ` {d<..<height t}))"
proof (induction "height t - d" arbitrary: d m)
  case 0
  then show ?case using level_depth by simp
next
  case (Suc n)
  let ?w = "\<lambda>k. int (level_width t k)"
  have len: "length (trim_nulls (full_level t k)) = level_width t k" if "places t k \<noteq> {}" for k
    using trim_nulls_length [OF refl, of "full_level t k"] that by (simp add: level_width_def places_def length_full_level)
  have ne: "trim_nulls (full_level t d) \<noteq> []" using len [OF Suc.prems(1)] by (auto simp: level_width_def)
  have step: "width_loop (trim_nulls (full_level t d)) m =
      width_loop (trim_nulls (full_level t (Suc d))) (max m (int (length (trim_nulls (full_level t (Suc d))))))"
    using ne by (subst width_loop.simps) (simp add: trim_next_level Let_def)
  show ?case
  proof (cases "places t (Suc d) = {}")
    case True
    then have "\<forall>u \<in> set (full_level t (Suc d)). u = Leaf" using length_full_level [of t "Suc d"] by (auto simp: places_def in_set_conv_nth)
    then have "trim_nulls (full_level t (Suc d)) = []" by (rule trim_nulls_all)
    moreover have "{d<..<height t} = {}" using True level_depth [of t "Suc d"] by auto
    ultimately show ?thesis unfolding step using Suc.prems(2) by (simp add: width_loop.simps)
  next
    case False
    then have d: "Suc d < height t" using level_depth by simp
    then have "n = height t - Suc d" using Suc.hyps(2) by linarith
    from Suc.hyps(1) [OF this False, of "max m (?w (Suc d))"]
    have "width_loop (trim_nulls (full_level t d)) m = Max (insert (max m (?w (Suc d))) (?w ` {Suc d<..<height t}))"
      unfolding step len [OF False] using Suc.prems(2) by simp
    also have "\<dots> = Max (insert m (?w ` insert (Suc d) {Suc d<..<height t}))" by (simp add: Max_insert_max)
    also have "insert (Suc d) {Suc d<..<height t} = {d<..<height t}" using d by auto
    finally show ?thesis .
  qed
qed

text \<open>\<open>widthOfBinaryTree\<close> is the greatest number of places between the first and the last node of a level, as long as it
  fits into an int.\<close>

theorem widthOfBinaryTree_correct:
  assumes "t \<noteq> Leaf" "\<forall>d < height t. int (level_width t d) < 2147483648"
  shows "widthOfBinaryTree t = Max ((\<lambda>d. int (level_width t d)) ` {..<height t})"
proof -
  let ?w = "\<lambda>k. int (level_width t k)"
  have h: "0 < height t" using assms(1) by (cases t) auto
  then have p: "places t 0 \<noteq> {}" using level_depth by blast
  then have "places t 0 = {0}" by (auto simp: places_def)
  then have w0: "?w 0 = 1" by (simp add: level_width_def)
  have "trim_nulls (full_level t 0) = [t]" using assms(1) by (simp add: trim_nulls_def)
  then have "width_loop [t] 1 = Max (insert 1 (?w ` {0<..<height t}))" using width_loop_levels [OF p, of 1] by simp
  also have "insert 1 (?w ` {0<..<height t}) = ?w ` insert 0 {0<..<height t}" by (simp add: w0)
  also have "insert 0 {0<..<height t} = {..<height t}" using h by auto
  finally have loop: "width_loop [t] 1 = Max (?w ` {..<height t})" .
  have "Max (?w ` {..<height t}) \<in> ?w ` {..<height t}" using h by (intro Max_in) auto
  then obtain d where "d < height t" "Max (?w ` {..<height t}) = ?w d" by auto
  then show ?thesis using assms loop by (simp add: widthOfBinaryTree_def)
qed

lemma level_width_le:
  assumes "d < height t"
  shows "level_width t d \<le> 2 ^ d"
proof -
  have "finite (places t d)" "places t d \<noteq> {}" using assms level_depth [of t d] by (auto simp: places_def)
  then have "Max (places t d) \<in> places t d" by (rule Max_in)
  then have "Max (places t d) < 2 ^ d" by (simp add: places_def)
  then show ?thesis by (simp add: level_width_def)
qed

theorem widthOfBinaryTree_correct_witness:
  "widthOfBinaryTree (Node (Node Leaf 3 Leaf) 1 (Node Leaf 2 Leaf)) =
   Max ((\<lambda>d. int (level_width (Node (Node Leaf 3 Leaf) 1 (Node Leaf 2 Leaf)) d)) ` {..<height (Node (Node Leaf (3 :: int) Leaf) 1 (Node Leaf 2 Leaf))})"
proof (rule widthOfBinaryTree_correct)
  let ?t = "Node (Node Leaf 3 Leaf) 1 (Node Leaf (2 :: int) Leaf)"
  have "int (level_width ?t d) < 2147483648" if "d < height ?t" for d
  proof -
    have "level_width ?t d \<le> 2 ^ d" by (rule level_width_le [OF that])
    also have "(2 :: nat) ^ d \<le> 2 ^ 1" using that by (intro power_increasing) auto
    finally show ?thesis by simp
  qed
  then show "\<forall>d < height ?t. int (level_width ?t d) < 2147483648" by blast
qed simp

subsection \<open>The subtree of the deepest nodes\<close>

text \<open>A node is its position.\<close>

fun subtreeWithAllDeepestHelper :: "int tree \<Rightarrow> bool list \<Rightarrow> int \<times> bool list option" where
  "subtreeWithAllDeepestHelper Leaf pos = (0, None)"
| "subtreeWithAllDeepestHelper (Node l a r) pos =
     (let left = subtreeWithAllDeepestHelper l (pos @ [False]);
          right = subtreeWithAllDeepestHelper r (pos @ [True])
      in (max (fst left) (fst right) + 1,
          if fst left = fst right then Some pos else if fst left > fst right then snd left else snd right))"

definition subtreeWithAllDeepest :: "int tree \<Rightarrow> bool list option" where
  "subtreeWithAllDeepest rt = snd (subtreeWithAllDeepestHelper rt [])"

text \<open>The positions of the nodes on the lowest level.\<close>

definition deepest :: "int tree \<Rightarrow> bool list set" where
  "deepest t = {p. value_at t p \<noteq> None \<and> Suc (length p) = height t}"

definition common_root :: "bool list set \<Rightarrow> bool list \<Rightarrow> bool" where
  "common_root P p \<longleftrightarrow> P \<noteq> {} \<and> (\<forall>q \<in> P. prefix p q) \<and> (\<forall>p'. (\<forall>q \<in> P. prefix p' q) \<longrightarrow> prefix p' p)"

lemma value_at_length: "value_at t p \<noteq> None \<Longrightarrow> length p < height t"
  by (induction t p rule: value_at.induct) (auto split: if_splits)

lemma deepest_Node:
  "deepest (Node l a r) = (if l = Leaf \<and> r = Leaf then {[]} else
     (if height r \<le> height l then (#) False ` deepest l else {}) \<union> (if height l \<le> height r then (#) True ` deepest r else {}))"
proof -
  have "p \<in> deepest (Node l a r) \<longleftrightarrow> p \<in> (if l = Leaf \<and> r = Leaf then {[]} else
     (if height r \<le> height l then (#) False ` deepest l else {}) \<union> (if height l \<le> height r then (#) True ` deepest r else {}))" for p
  proof (cases p)
    case Nil
    have "height l = 0 \<and> height r = 0 \<longleftrightarrow> l = Leaf \<and> r = Leaf" by (cases l; cases r) auto
    then show ?thesis using Nil by (auto simp: deepest_def max_def)
  next
    case (Cons b p')
    have "value_at l p' \<noteq> None \<Longrightarrow> length p' < height l" "value_at r p' \<noteq> None \<Longrightarrow> length p' < height r"
      by (rule value_at_length, assumption)+
    then show ?thesis using Cons by (cases b) (auto simp: deepest_def max_def)
  qed
  then show ?thesis by blast
qed

lemma deepest_nonempty: "t \<noteq> Leaf \<Longrightarrow> deepest t \<noteq> {}"
proof (induction t)
  case (Node l a r)
  show ?case
  proof (cases "height r \<le> height l")
    case True
    then have "l \<noteq> Leaf \<or> r = Leaf" by (cases l; cases r) auto
    then show ?thesis using True Node by (auto simp: deepest_Node)
  next
    case False
    then have "r \<noteq> Leaf" by auto
    then show ?thesis using False Node by (auto simp: deepest_Node)
  qed
qed simp

lemma common_root_append: "common_root P p \<Longrightarrow> common_root ((@) pos ` P) (pos @ p)"
  unfolding common_root_def
proof (intro conjI allI impI)
  fix p' assume P: "P \<noteq> {} \<and> (\<forall>q \<in> P. prefix p q) \<and> (\<forall>p'. (\<forall>q \<in> P. prefix p' q) \<longrightarrow> prefix p' p)"
    and pre: "\<forall>q \<in> (@) pos ` P. prefix p' q"
  then obtain q where "q \<in> P" by blast
  then have "prefix p' (pos @ q)" using pre by blast
  then consider "prefix p' pos" | w where "p' = pos @ w" by (auto simp: prefix_append)
  then show "prefix p' (pos @ p)"
  proof cases
    case 2
    then have "\<forall>q \<in> P. prefix w q" using pre by auto
    then show ?thesis using P 2 by auto
  qed (auto simp: prefix_append)
qed auto

lemma subtreeWithAllDeepestHelper_spec:
  "subtreeWithAllDeepestHelper t pos = (d, res) \<Longrightarrow> d = int (height t) \<and>
   (t \<noteq> Leaf \<longrightarrow> (\<exists>p. res = Some (pos @ p) \<and> common_root (deepest t) p))"
proof (induction t arbitrary: pos d res)
  case (Node l a r)
  obtain dl sl where l: "subtreeWithAllDeepestHelper l (pos @ [False]) = (dl, sl)" by force
  obtain dr sr where r: "subtreeWithAllDeepestHelper r (pos @ [True]) = (dr, sr)" by force
  note L = Node.IH(1) [OF l] and R = Node.IH(2) [OF r]
  have h: "dl = int (height l)" "dr = int (height r)" using L R by auto
  have res: "d = int (height (Node l a r))" "res = (if height l = height r then Some pos else if height l > height r then sl else sr)"
    using Node.prems by (auto simp: l r h Let_def)
  have step: "common_root ((#) b ` P) (b # p)" if "common_root P p" for P b p
    using common_root_append [OF that, of "[b]"] by simp
  show ?case
  proof (cases "height l = height r")
    case True
    have "common_root (deepest (Node l a r)) []"
    proof (cases "l = Leaf")
      case l: False
      then have r: "r \<noteq> Leaf" using True by (cases l) auto
      obtain p q where "False # p \<in> deepest (Node l a r)" "True # q \<in> deepest (Node l a r)"
        using deepest_nonempty [OF l] deepest_nonempty [OF r] True l unfolding deepest_Node by fastforce
      then have "p' = []" if pre: "\<forall>q \<in> deepest (Node l a r). prefix p' q" for p'
      proof -
        have "prefix p' (False # p)" "prefix p' (True # q)" using pre \<open>False # p \<in> _\<close> \<open>True # q \<in> _\<close> by blast+
        then show ?thesis by (cases p') auto
      qed
      then show ?thesis using deepest_nonempty [of "Node l a r"] by (auto simp: common_root_def)
    qed (use True in \<open>auto simp: common_root_def deepest_Node\<close>)
    then show ?thesis using True res by auto
  next
    case False
    show ?thesis
    proof (cases "height l > height r")
      case True
      then have "l \<noteq> Leaf" by auto
      then obtain p where "sl = Some (pos @ [False] @ p)" "common_root (deepest l) p" using L by auto
      then show ?thesis using True res step [of "deepest l" p False] by (auto simp: deepest_Node)
    next
      case F: False
      then have "r \<noteq> Leaf" "height l < height r" using False by auto
      then obtain p where "sr = Some (pos @ [True] @ p)" "common_root (deepest r) p" using R by auto
      then show ?thesis using \<open>height l < height r\<close> res step [of "deepest r" p True] by (auto simp: deepest_Node)
    qed
  qed
qed simp

text \<open>\<open>subtreeWithAllDeepest\<close> returns the lowest node under which all the deepest nodes lie, a null pointer for no tree.\<close>

theorem subtreeWithAllDeepest_correct:
  "case subtreeWithAllDeepest t of None \<Rightarrow> t = Leaf | Some p \<Rightarrow> common_root (deepest t) p"
proof (cases "t = Leaf")
  case False
  then show ?thesis using subtreeWithAllDeepestHelper_spec [of t "[]", OF surjective_pairing]
    by (auto simp: subtreeWithAllDeepest_def)
qed (simp add: subtreeWithAllDeepest_def)

subsection \<open>Subtree sums\<close>

text \<open>
  The map from sums to counts is an association list, so that the result lists its keys in the order of their first occurrence;
  the order in which C++ runs through an \<open>unordered_map\<close> is not specified.
\<close>

record sum_state =
  sum_count :: "(int \<times> int) list"
  max_count :: int

fun findFrequentTreeSumHelp :: "int tree \<Rightarrow> sum_state \<Rightarrow> int \<times> sum_state" where
  "findFrequentTreeSumHelp Leaf st = (0, st)"
| "findFrequentTreeSumHelp (Node l a r) st =
     (let (x, st) = findFrequentTreeSumHelp l st;
          tot = i32 (a + x);
          (y, st) = findFrequentTreeSumHelp r st;
          tot = i32 (tot + y);
          c = (case map_of (sum_count st) tot of Some c \<Rightarrow> i32 (c + 1) | None \<Rightarrow> 1)
      in (tot, \<lparr>sum_count = AList.update tot c (sum_count st), max_count = max c (max_count st)\<rparr>))"

definition findFrequentTreeSum :: "int tree \<Rightarrow> int list" where
  "findFrequentTreeSum rt =
     (let (res, st) = findFrequentTreeSumHelp rt \<lparr>sum_count = [], max_count = 0\<rparr>
      in map fst (filter (\<lambda>p. snd p = max_count st) (sum_count st)))"

text \<open>The sums of all subtrees, in the order of their computation.\<close>

fun tree_sum :: "int tree \<Rightarrow> int" where
  "tree_sum Leaf = 0"
| "tree_sum (Node l a r) = tree_sum l + a + tree_sum r"

fun subtree_sums :: "int tree \<Rightarrow> int list" where
  "subtree_sums Leaf = []"
| "subtree_sums (Node l a r) = subtree_sums l @ subtree_sums r @ [i32 (tree_sum (Node l a r))]"

definition counts :: "int list \<Rightarrow> sum_state \<Rightarrow> bool" where
  "counts xs st \<longleftrightarrow> distinct (map fst (sum_count st)) \<and>
     (\<forall>s. map_of (sum_count st) s = (if s \<in> set xs then Some (int (count_list xs s)) else None)) \<and>
     max_count st = Max (insert 0 ((\<lambda>s. int (count_list xs s)) ` set xs))"

lemma i32_sum3: "i32 (i32 (a + i32 p) + i32 q) = i32 (a + p + q)"
proof -
  have w: "i32 (i32 x + y) = i32 (x + y)" "i32 (y + i32 x) = i32 (y + x)" for x y
    using swrap_add [of 32 x y] by (simp_all add: add.commute)
  have "i32 (i32 (a + i32 p) + i32 q) = i32 (i32 (a + i32 p) + q)" by (rule w(2))
  also have "\<dots> = i32 (a + i32 p + q)" by (rule w(1))
  also have "a + i32 p + q = (a + q) + i32 p" by simp
  also have "i32 \<dots> = i32 ((a + q) + p)" by (rule w(2))
  finally show ?thesis by (simp add: add_ac)
qed

lemma Max_counts_step:
  assumes "int (Suc (count_list xs v)) = c"
  shows "Max (insert 0 ((\<lambda>s. int (count_list (xs @ [v]) s)) ` set (xs @ [v]))) =
    max c (Max (insert 0 ((\<lambda>s. int (count_list xs s)) ` set xs)))"
proof -
  let ?A = "insert 0 ((\<lambda>s. int (count_list xs s)) ` set xs)"
  let ?B = "insert 0 ((\<lambda>s. int (count_list (xs @ [v]) s)) ` set (xs @ [v]))"
  have c: "int (count_list (xs @ [v]) s) = (if s = v then c else int (count_list xs s))" for s
    using assms by (simp add: count_list_append)
  have "max c (Max ?A) \<in> ?B"
  proof (cases "c \<le> Max ?A")
    case True
    have "Max ?A \<in> ?A" by (rule Max_in) auto
    moreover have "Max ?A \<noteq> int (count_list xs v)" using True assms by linarith
    ultimately show ?thesis using True c by (auto simp: max_def)
  next
    case False
    then show ?thesis using c [of v] by (auto simp: max_def)
  qed
  moreover have "y \<le> max c (Max ?A)" if y: "y \<in> ?B" for y
  proof -
    have "y = 0 \<or> y = c \<or> y \<in> ?A"
    proof (cases "y = 0")
      case False
      then obtain s where "s \<in> set (xs @ [v])" "y = int (count_list (xs @ [v]) s)" using y by blast
      then show ?thesis unfolding c by (cases "s = v") auto
    qed simp
    moreover have "0 \<le> c" using assms by simp
    moreover have ge: "x \<le> Max ?A" if "x \<in> ?A" for x using that by (intro Max_ge) auto
    ultimately show ?thesis using ge [of y] by (elim disjE) (simp_all only: max.coboundedI1 max.coboundedI2 order_refl)
  qed
  ultimately show ?thesis by (intro Max_eqI) auto
qed

lemma findFrequentTreeSumHelp_spec:
  "counts xs st \<Longrightarrow> int (length xs + size t) < 2147483648 \<Longrightarrow>
   fst (findFrequentTreeSumHelp t st) = i32 (tree_sum t) \<and> counts (xs @ subtree_sums t) (snd (findFrequentTreeSumHelp t st))"
proof (induction t arbitrary: xs st)
  case Leaf
  then show ?case by simp
next
  case (Node l a r)
  have len: "length (subtree_sums t) = size t" for t by (induction t) auto
  obtain x st1 where l: "findFrequentTreeSumHelp l st = (x, st1)" by force
  obtain y st2 where r: "findFrequentTreeSumHelp r st1 = (y, st2)" by force
  have L: "x = i32 (tree_sum l)" "counts (xs @ subtree_sums l) st1" using Node.IH(1) [OF Node.prems(1)] l Node.prems(2) by auto
  have R: "y = i32 (tree_sum r)" "counts ((xs @ subtree_sums l) @ subtree_sums r) st2"
    using Node.IH(2) [OF L(2)] r Node.prems(2) by (auto simp: len)
  let ?ys = "xs @ subtree_sums l @ subtree_sums r" and ?v = "i32 (tree_sum (Node l a r))"
  have v: "i32 (i32 (a + x) + y) = ?v" unfolding L(1) R(1) i32_sum3 by (simp add: add_ac)
  have "count_list ?ys ?v \<le> length ?ys" by (rule count_le_length)
  then have bound: "int (count_list ?ys ?v) + 1 < 2147483648" using Node.prems(2) by (simp add: len)
  define c where "c = (case map_of (sum_count st2) ?v of Some c \<Rightarrow> i32 (c + 1) | None \<Rightarrow> 1)"
  have c: "int (Suc (count_list ?ys ?v)) = c"
    using R(2) bound by (auto simp: c_def counts_def count_list_0_iff)
  have res: "findFrequentTreeSumHelp (Node l a r) st = (?v, \<lparr>sum_count = AList.update ?v c (sum_count st2), max_count = max c (max_count st2)\<rparr>)"
    by (simp add: l r Let_def v c_def del: tree_sum.simps)
  have "counts (?ys @ [?v]) \<lparr>sum_count = AList.update ?v c (sum_count st2), max_count = max c (max_count st2)\<rparr>"
    using R(2) c Max_counts_step [OF c] unfolding counts_def
    by (auto simp: AList.distinct_update AList.update_conv count_list_append simp del: tree_sum.simps)
  then show ?case unfolding res by (simp del: tree_sum.simps)
qed

text \<open>\<open>findFrequentTreeSum\<close> returns, each once, exactly the subtree sums that no other sum occurs more often than.\<close>

theorem findFrequentTreeSum_correct:
  assumes "int (size t) < 2147483648"
  shows "distinct (findFrequentTreeSum t) \<and> set (findFrequentTreeSum t) =
    {s \<in> set (subtree_sums t). \<forall>s'. count_list (subtree_sums t) s' \<le> count_list (subtree_sums t) s}"
proof -
  let ?xs = "subtree_sums t"
  obtain st where st: "findFrequentTreeSumHelp t \<lparr>sum_count = [], max_count = 0\<rparr> = (i32 (tree_sum t), st)" "counts ?xs st"
  proof -
    have "counts [] \<lparr>sum_count = [], max_count = 0\<rparr>" by (simp add: counts_def)
    from findFrequentTreeSumHelp_spec [OF this, of t] assms have "fst (findFrequentTreeSumHelp t \<lparr>sum_count = [], max_count = 0\<rparr>) = i32 (tree_sum t)"
      "counts ?xs (snd (findFrequentTreeSumHelp t \<lparr>sum_count = [], max_count = 0\<rparr>))" by simp_all
    then show ?thesis using that by (metis prod.collapse)
  qed
  let ?m = "Max (insert 0 ((\<lambda>s. int (count_list ?xs s)) ` set ?xs))"
  have d: "distinct (map fst (sum_count st))" "\<And>s. map_of (sum_count st) s = (if s \<in> set ?xs then Some (int (count_list ?xs s)) else None)"
    "max_count st = ?m" using st(2) by (auto simp: counts_def)
  have res: "findFrequentTreeSum t = map fst (filter (\<lambda>p. snd p = ?m) (sum_count st))"
    by (simp add: findFrequentTreeSum_def st(1) d(3))
  have mem: "(s, c) \<in> set (sum_count st) \<longleftrightarrow> s \<in> set ?xs \<and> c = int (count_list ?xs s)" for s c
    using d(2) [of s] map_of_eq_Some_iff [OF d(1), of s c] by (auto split: if_splits)
  have max: "int (count_list ?xs s) = ?m \<longleftrightarrow> (\<forall>s'. count_list ?xs s' \<le> count_list ?xs s)" if "s \<in> set ?xs" for s
  proof
    assume m: "int (count_list ?xs s) = ?m"
    have "count_list ?xs s' \<le> count_list ?xs s" for s'
    proof (cases "s' \<in> set ?xs")
      case True
      then have "int (count_list ?xs s') \<le> ?m" by (intro Max_ge) auto
      then show ?thesis using m by simp
    qed (simp add: count_list_0_iff)
    then show "\<forall>s'. count_list ?xs s' \<le> count_list ?xs s" by blast
  next
    assume "\<forall>s'. count_list ?xs s' \<le> count_list ?xs s"
    then show "int (count_list ?xs s) = ?m" using that by (intro Max_eqI [symmetric]) auto
  qed
  have "set (findFrequentTreeSum t) = {s. (s, ?m) \<in> set (sum_count st)}" unfolding res by force
  also have "\<dots> = {s \<in> set ?xs. \<forall>s'. count_list ?xs s' \<le> count_list ?xs s}" using mem max by fastforce
  finally show ?thesis using d(1) unfolding res by (auto intro: distinct_map_filter)
qed

theorem findFrequentTreeSum_correct_witness:
  "distinct (findFrequentTreeSum (Node (Node Leaf 2 Leaf) 5 (Node Leaf (-3) Leaf))) \<and>
   set (findFrequentTreeSum (Node (Node Leaf 2 Leaf) 5 (Node Leaf (-3) Leaf))) =
    {s \<in> set (subtree_sums (Node (Node Leaf 2 Leaf) 5 (Node Leaf (-3) Leaf))).
      \<forall>s'. count_list (subtree_sums (Node (Node Leaf 2 Leaf) 5 (Node Leaf (-3) Leaf))) s'
        \<le> count_list (subtree_sums (Node (Node Leaf 2 Leaf) 5 (Node Leaf (-3) Leaf))) s}"
  by (rule findFrequentTreeSum_correct) simp

subsection \<open>Root-to-leaf numbers\<close>

fun sum_numbers :: "int tree \<Rightarrow> int \<Rightarrow> int" where
  "sum_numbers Leaf prev = 0"
| "sum_numbers (Node l a r) prev =
     (let prev = i32 (i32 (prev * 10) + a)
      in if l = Leaf \<and> r = Leaf then prev
         else let tot = 0;
                  tot = (if l \<noteq> Leaf then i32 (tot + sum_numbers l prev) else tot);
                  tot = (if r \<noteq> Leaf then i32 (tot + sum_numbers r prev) else tot)
              in tot)"

definition sumNumbers :: "int tree \<Rightarrow> int" where
  "sumNumbers rt = (if rt = Leaf then 0 else sum_numbers rt 0)"

text \<open>The values on the paths from the root to the leaves.\<close>

fun leaf_paths :: "int tree \<Rightarrow> int list list" where
  "leaf_paths Leaf = []"
| "leaf_paths (Node l a r) = (if l = Leaf \<and> r = Leaf then [[a]] else map ((#) a) (leaf_paths l @ leaf_paths r))"

lemma i32_cong: "i32 x = i32 y \<longleftrightarrow> x mod 4294967296 = y mod 4294967296"
proof -
  have "i32 x = i32 y \<longleftrightarrow> (x + 2147483648) mod 4294967296 = (y + 2147483648) mod 4294967296" by (simp add: swrap_def)
  then show ?thesis by (simp add: mod_eq_dvd_iff)
qed

lemma i32_mod: "i32 x mod 4294967296 = x mod 4294967296"
  using i32_cong [of "i32 x" x] swrap_swrap [of 32 x] by simp

lemma sum_numbers_spec:
  "t \<noteq> Leaf \<Longrightarrow> sum_numbers t prev = i32 (\<Sum>p \<leftarrow> leaf_paths t. foldl (\<lambda>v d. v * 10 + d) prev p)"
proof (induction t arbitrary: prev)
  case (Node l a r)
  let ?f = "\<lambda>t prev. \<Sum>p \<leftarrow> leaf_paths t. foldl (\<lambda>v d. v * 10 + d) prev p"
  define v where "v = i32 (i32 (prev * 10) + a)"
  have v: "v = i32 (prev * 10 + a)" by (simp add: v_def swrap_add)
  have cong: "foldl (\<lambda>v d. v * 10 + d) x p mod 4294967296 = foldl (\<lambda>v d. v * 10 + d) y p mod 4294967296"
    if "x mod 4294967296 = y mod (4294967296 :: int)" for x y p
    using that
  proof (induction p arbitrary: x y)
    case (Cons d p)
    have "4294967296 dvd (x - y) * 10" using Cons.prems unfolding mod_eq_dvd_iff by (rule dvd_mult2)
    moreover have "(x * 10 + d) - (y * 10 + d) = (x - y) * 10" by simp
    ultimately have "(x * 10 + d) mod 4294967296 = (y * 10 + d) mod 4294967296" unfolding mod_eq_dvd_iff by (simp only:)
    then show ?case unfolding foldl_Cons by (rule Cons.IH)
  qed simp
  have sums: "(\<Sum>p \<leftarrow> ps. foldl (\<lambda>v d. v * 10 + d) x p) mod 4294967296 = (\<Sum>p \<leftarrow> ps. foldl (\<lambda>v d. v * 10 + d) y p) mod 4294967296"
    if "x mod 4294967296 = y mod (4294967296 :: int)" for x y ps
  proof (induction ps)
    case (Cons p ps)
    show ?case unfolding list.map sum_list.Cons by (rule mod_add_cong [OF cong [OF that] Cons])
  qed simp
  have IH: "sum_numbers t v = i32 (?f t (prev * 10 + a))" if "t \<noteq> Leaf" "t = l \<or> t = r" for t
  proof -
    have "sum_numbers t v = i32 (?f t v)" using Node.IH that by auto
    also have "\<dots> = i32 (?f t (prev * 10 + a))" unfolding i32_cong by (rule sums) (simp add: v i32_mod)
    finally show ?thesis .
  qed
  have w: "i32 (i32 p + q) = i32 (p + q)" "i32 (q + i32 p) = i32 (q + p)" "i32 (i32 p) = i32 p" for p q
    using swrap_add [of 32 p q] by (simp_all add: add.commute swrap_swrap)
  have paths: "?f (Node l a r) prev = (if l = Leaf \<and> r = Leaf then prev * 10 + a else ?f l (prev * 10 + a) + ?f r (prev * 10 + a))"
    by (simp add: comp_def)
  show ?case
    unfolding paths
  proof (cases "l = Leaf \<and> r = Leaf")
    case True
    then show "sum_numbers (Node l a r) prev = i32 (if l = Leaf \<and> r = Leaf then prev * 10 + a else ?f l (prev * 10 + a) + ?f r (prev * 10 + a))"
      using v by (simp add: v_def [symmetric])
  next
    case False
    define tl where "tl = (if l \<noteq> Leaf then i32 (0 + sum_numbers l v) else 0)"
    have tl: "tl = i32 (?f l (prev * 10 + a))" using IH [of l] by (simp add: tl_def w(3))
    have "sum_numbers (Node l a r) prev = (if r \<noteq> Leaf then i32 (tl + sum_numbers r v) else tl)"
      using False by (simp add: v_def tl_def Let_def)
    also have "\<dots> = i32 (?f l (prev * 10 + a) + ?f r (prev * 10 + a))" using IH [of r] by (simp add: tl w(1,2))
    finally show "sum_numbers (Node l a r) prev = i32 (if l = Leaf \<and> r = Leaf then prev * 10 + a else ?f l (prev * 10 + a) + ?f r (prev * 10 + a))"
      using False by (simp only: if_False)
  qed
qed simp

text \<open>\<open>sumNumbers\<close> is the sum, modulo the range of int, of the numbers whose decimal digits are the values on the paths from the root to
  the leaves.\<close>

theorem sumNumbers_correct: "sumNumbers t = i32 (\<Sum>p \<leftarrow> leaf_paths t. foldl (\<lambda>v d. v * 10 + d) 0 p)"
  using sum_numbers_spec [of t 0] by (cases "t = Leaf") (simp_all add: sumNumbers_def)

end
