(* ===== verification/TreeTraversals.thy ===== *)
theory TreeTraversals
  imports TreeNodes TreeOptima "HOL-Library.Multiset" "HOL-Library.Product_Lexorder"
begin

section \<open>Traversals and flattening (leetcode/tree/BinaryTree.cpp)\<close>

text \<open>
  The classes \<open>TreeTraversal\<close> and \<open>FlattenTree\<close>. A stack of node pointers is a list of trees with its top at
  the head. The functions that run on a stack return \<open>None\<close> where they would read through a null pointer; none ever does.
\<close>

subsection \<open>The largest value of every row\<close>

function largest_loop :: "int tree list \<Rightarrow> int list \<Rightarrow> int list option" where
  "largest_loop q ans =
     (if q = [] then Some ans
      else do {
        vals \<leftarrow> node_values q;
        q' \<leftarrow> bfs q (length q);
        largest_loop q' (ans @ [Max (set vals)])
      })"
  by pat_completeness auto
termination
  by (relation "measure (\<lambda>(q, ans). sum_list (map size q))") (auto dest!: bfs_size)

declare largest_loop.simps [simp del]

definition largestValues :: "int tree \<Rightarrow> int list option" where
  "largestValues rt = (if rt = Leaf then Some [] else largest_loop [rt] [])"

lemma largest_loop_levels:
  "level_loop q ans = Some vs \<Longrightarrow> largest_loop q (map (\<lambda>vs. Max (set vs)) ans) = Some (map (\<lambda>vs. Max (set vs)) vs)"
proof (induction q ans arbitrary: vs rule: level_loop.induct)
  case (1 q ans)
  show ?case
  proof (cases "q = []")
    case True
    then show ?thesis using "1.prems" by (simp add: largest_loop.simps level_loop.simps)
  next
    case False
    then obtain vals q' where s: "node_values q = Some vals" "bfs q (length q) = Some q'" "level_loop q' (ans @ [vals]) = Some vs"
      using "1.prems" by (subst (asm) level_loop.simps) (auto split: bind_splits)
    show ?thesis using "1.IH" [OF False s] False s(1,2) by (subst largest_loop.simps) simp
  qed
qed

text \<open>\<open>largestValues\<close> always returns the greatest value of every level, from the root down.\<close>

theorem largestValues_levels: "largestValues t = Some (map (\<lambda>d. Max (set (at_depth t d))) [0..<height t])"
  using largest_loop_levels [of "[t]" "[]"] level_loop_spec [of "[t]" "[]"]
  by (cases "t = Leaf") (simp_all add: largestValues_def comp_def forest_height_Cons forest_height_def [of "[]"] forest_depth_def)

subsection \<open>Traversals with a stack\<close>

fun push_left :: "'a tree \<Rightarrow> 'a tree list \<Rightarrow> 'a tree list" where
  "push_left Leaf nodes = nodes"
| "push_left (Node l a r) nodes = push_left l (Node l a r # nodes)"

fun pending_size :: "'a tree list \<Rightarrow> nat" where
  "pending_size [] = 0"
| "pending_size (t # ts) = (case t of Leaf \<Rightarrow> 0 | Node l a r \<Rightarrow> 1 + size r) + pending_size ts"

lemma pending_size_push_left: "pending_size (push_left t ts) = size t + pending_size ts"
  by (induction t arbitrary: ts) auto

function inorder_loop :: "'a tree list \<Rightarrow> 'a list \<Rightarrow> 'a list option" where
  "inorder_loop [] vec = Some vec"
| "inorder_loop (Leaf # nodes) vec = None"
| "inorder_loop (Node l a r # nodes) vec = inorder_loop (push_left r nodes) (vec @ [a])"
  by pat_completeness auto
termination by (relation "measure (\<lambda>(ts, vec). pending_size ts)") (auto simp: pending_size_push_left)

definition inorderTraversal :: "'a tree \<Rightarrow> 'a list option" where
  "inorderTraversal rt = inorder_loop (push_left rt []) []"

fun inorderTraversalHelper :: "'a tree \<Rightarrow> 'a list \<Rightarrow> 'a list option" where
  "inorderTraversalHelper Leaf vec = Some vec"
| "inorderTraversalHelper (Node l a r) vec =
     do {
       vec \<leftarrow> inorder_loop (push_left l []) vec;
       inorder_loop (push_left r []) (vec @ [a])
     }"

function preorder_loop :: "'a tree list \<Rightarrow> 'a list \<Rightarrow> 'a list option" where
  "preorder_loop [] ans = Some ans"
| "preorder_loop (Leaf # nodes) ans = None"
| "preorder_loop (Node l a r # nodes) ans =
     (let nodes = (if r \<noteq> Leaf then r # nodes else nodes);
          nodes = (if l \<noteq> Leaf then l # nodes else nodes)
      in preorder_loop nodes (ans @ [a]))"
  by pat_completeness auto
termination by (relation "measure (\<lambda>(ts, ans). sum_list (map size ts))") auto

definition preorderTraversal :: "'a tree \<Rightarrow> 'a list option" where
  "preorderTraversal rt = preorder_loop (if rt \<noteq> Leaf then [rt] else []) []"

function postorder_loop :: "'a tree list \<Rightarrow> 'a list \<Rightarrow> 'a list option" where
  "postorder_loop [] ans = Some ans"
| "postorder_loop (Leaf # nodes) ans = None"
| "postorder_loop (Node l a r # nodes) ans =
     (let nodes = (if l \<noteq> Leaf then l # nodes else nodes);
          nodes = (if r \<noteq> Leaf then r # nodes else nodes)
      in postorder_loop nodes (ans @ [a]))"
  by pat_completeness auto
termination by (relation "measure (\<lambda>(ts, ans). sum_list (map size ts))") auto

definition postorderTraversal :: "'a tree \<Rightarrow> 'a list option" where
  "postorderTraversal rt = (if rt = Leaf then Some [] else map_option rev (postorder_loop [rt] []))"

text \<open>What a stack of left spines still has to visit.\<close>

fun spine_rest :: "'a tree list \<Rightarrow> 'a list" where
  "spine_rest [] = []"
| "spine_rest (t # ts) = (case t of Leaf \<Rightarrow> [] | Node l a r \<Rightarrow> a # inorder r) @ spine_rest ts"

lemma push_left_rest: "spine_rest (push_left t ts) = inorder t @ spine_rest ts"
  by (induction t arbitrary: ts) auto

lemma push_left_nodes: "Leaf \<notin> set ts \<Longrightarrow> Leaf \<notin> set (push_left t ts)"
  by (induction t arbitrary: ts) auto

lemma inorder_loop_spec: "Leaf \<notin> set ts \<Longrightarrow> inorder_loop ts vec = Some (vec @ spine_rest ts)"
proof (induction ts vec rule: inorder_loop.induct)
  case (3 l a r nodes vec)
  have "Leaf \<notin> set (push_left r nodes)" using 3 by (intro push_left_nodes) auto
  then show ?case using 3 by (simp add: push_left_rest)
qed auto

lemma preorder_loop_spec: "Leaf \<notin> set ts \<Longrightarrow> preorder_loop ts ans = Some (ans @ concat (map Tree.preorder ts))"
  by (induction ts ans rule: preorder_loop.induct) (auto simp: Let_def)

lemma postorder_loop_spec:
  "Leaf \<notin> set ts \<Longrightarrow> postorder_loop ts ans = Some (ans @ concat (map (\<lambda>t. rev (Tree.postorder t)) ts))"
  by (induction ts ans rule: postorder_loop.induct) (auto simp: Let_def)

text \<open>The three traversals with an explicit stack return, and visit the nodes in the order of the recursive traversals.\<close>

theorem traversals_correct:
  "inorderTraversal t = Some (inorder t) \<and> preorderTraversal t = Some (Tree.preorder t) \<and> postorderTraversal t = Some (Tree.postorder t)"
proof (intro conjI)
  show "inorderTraversal t = Some (inorder t)"
    using inorder_loop_spec [OF push_left_nodes, of "[]" t "[]"] by (simp add: inorderTraversal_def push_left_rest)
  show "preorderTraversal t = Some (Tree.preorder t)"
    using preorder_loop_spec [of "[t]" "[]"] by (cases "t = Leaf") (auto simp: preorderTraversal_def)
  show "postorderTraversal t = Some (Tree.postorder t)"
    using postorder_loop_spec [of "[t]" "[]"] by (cases "t = Leaf") (auto simp: postorderTraversal_def)
qed

subsection \<open>Vertical order\<close>

text \<open>
  A \<open>std::map\<close> is an association list in increasing order of its keys; \<open>map_update\<close> applies a function to the entry of a key,
  which \<open>operator[]\<close> makes with the default value if it is new.
\<close>

fun map_update :: "'k :: linorder \<Rightarrow> ('v \<Rightarrow> 'v) \<Rightarrow> 'v \<Rightarrow> ('k \<times> 'v) list \<Rightarrow> ('k \<times> 'v) list" where
  "map_update k f d [] = [(k, f d)]"
| "map_update k f d ((k', v) # m) =
     (if k < k' then (k, f d) # (k', v) # m else if k = k' then (k', f v) # m else (k', v) # map_update k f d m)"

type_synonym column_map = "(int \<times> (int \<times> int list) list) list"

fun vertical_visit :: "int tree \<Rightarrow> int \<Rightarrow> int \<Rightarrow> column_map \<Rightarrow> column_map" where
  "vertical_visit Leaf col row m = m"
| "vertical_visit (Node l a r) col row m =
     (let m = map_update col (map_update row (\<lambda>vs. vs @ [a]) []) [] m;
          m = vertical_visit l (col - 1) (row + 1) m
      in vertical_visit r (col + 1) (row + 1) m)"

definition verticalTraversal :: "int tree \<Rightarrow> int list list" where
  "verticalTraversal rt = map (\<lambda>(col, rows). concat (map (\<lambda>(row, vs). sort vs) rows)) (vertical_visit rt 0 0 [])"

text \<open>The nodes with their columns and rows.\<close>

fun placed :: "int tree \<Rightarrow> int \<Rightarrow> int \<Rightarrow> (int \<times> int \<times> int) list" where
  "placed Leaf col row = []"
| "placed (Node l a r) col row = (col, row, a) # placed l (col - 1) (row + 1) @ placed r (col + 1) (row + 1)"

definition entries :: "(int \<times> int list) list \<Rightarrow> (int \<times> int) list" where
  "entries rows = concat (map (\<lambda>(row, vs). map (Pair row) vs) rows)"

definition columns_of :: "column_map \<Rightarrow> (int \<times> int \<times> int) multiset \<Rightarrow> bool" where
  "columns_of m P \<longleftrightarrow> sorted_wrt (<) (map fst m) \<and> fst ` set m = fst ` set_mset P \<and>
     (\<forall>(col, rows) \<in> set m. sorted_wrt (<) (map fst rows) \<and> mset (entries rows) = image_mset snd (filter_mset (\<lambda>p. fst p = col) P))"

lemma map_update_keys: "fst ` set (map_update k f d m) = insert k (fst ` set m)"
proof (induction m)
  case (Cons kv m)
  obtain k' v where kv: "kv = (k', v)" by force
  show ?case
    by (cases "k < k'"; cases "k = k'") (simp_all add: kv Cons insert_commute)
qed simp

lemma map_update_sorted: "sorted_wrt (<) (map fst m) \<Longrightarrow> sorted_wrt (<) (map fst (map_update k f d m))"
proof (induction m)
  case (Cons kv m)
  obtain k' v where kv: "kv = (k', v)" by force
  have m: "\<forall>x \<in> fst ` set m. k' < x" "sorted_wrt (<) (map fst m)" using Cons.prems by (auto simp: kv)
  show ?case
  proof (cases "k < k'")
    case True
    then have "\<forall>x \<in> fst ` set m. k < x" using m(1) less_trans by blast
    then show ?thesis using True m by (auto simp: kv)
  next
    case False
    then show ?thesis using m Cons.IH [OF m(2)] map_update_keys [of k f d m] by (cases "k = k'") (auto simp: kv image_iff)
  qed
qed simp

lemma map_update_set:
  "sorted_wrt (<) (map fst m) \<Longrightarrow> (k', v) \<in> set (map_update k f d m) \<longleftrightarrow>
     (if k' = k then v = (case map_of m k of None \<Rightarrow> f d | Some w \<Rightarrow> f w) else (k', v) \<in> set m)"
proof (induction m)
  case (Cons kv m)
  obtain k2 v2 where kv: "kv = (k2, v2)" by force
  have "(k, w) \<notin> set m" if "k \<le> k2" for w using Cons.prems that by (force simp: kv)
  moreover have "map_of m k = None" if "k < k2" using calculation [OF less_imp_le [OF that]] by (auto simp: map_of_eq_None_iff)
  ultimately show ?case using Cons by (auto simp: kv)
qed auto

lemma entries_update: "mset (entries (map_update row (\<lambda>vs. vs @ [a]) [] rows)) = add_mset (row, a) (mset (entries rows))"
  by (induction rows) (auto simp: entries_def)

lemma columns_of_add:
  assumes "columns_of m P"
  shows "columns_of (map_update col (map_update row (\<lambda>vs. vs @ [a]) []) [] m) (add_mset (col, row, a) P)"
proof -
  have s: "sorted_wrt (<) (map fst m)" "fst ` set m = fst ` set_mset P"
    and rows: "\<And>c rs. (c, rs) \<in> set m \<Longrightarrow> sorted_wrt (<) (map fst rs) \<and> mset (entries rs) = image_mset snd (filter_mset (\<lambda>p. fst p = c) P)"
    using assms by (auto simp: columns_of_def)
  have "sorted_wrt (<) (map fst rs) \<and> mset (entries rs) = image_mset snd (filter_mset (\<lambda>p. fst p = c) (add_mset (col, row, a) P))"
    if c: "(c, rs) \<in> set (map_update col (map_update row (\<lambda>vs. vs @ [a]) []) [] m)" for c rs
  proof (cases "c = col")
    case False
    then show ?thesis using c rows [of c rs] map_update_set [OF s(1)] by auto
  next
    case True
    show ?thesis
    proof (cases "map_of m col")
      case None
      then have "rs = map_update row (\<lambda>vs. vs @ [a]) [] []" using c True map_update_set [OF s(1)] by simp
      moreover have "col \<notin> fst ` set_mset P" using None s(2) by (simp add: map_of_eq_None_iff)
      then have "filter_mset (\<lambda>p. fst p = col) P = {#}" by (force simp: set_mset_eq_empty_iff [symmetric] simp del: set_mset_eq_empty_iff)
      ultimately show ?thesis using True by (simp add: entries_def)
    next
      case (Some w)
      then have "rs = map_update row (\<lambda>vs. vs @ [a]) [] w" "(col, w) \<in> set m" using c True map_update_set [OF s(1)] map_of_SomeD by fastforce+
      then show ?thesis using rows [of col w] map_update_sorted [of w] True by (simp add: entries_update)
    qed
  qed
  then show ?thesis using s map_update_sorted [OF s(1)] unfolding columns_of_def by (auto simp: map_update_keys)
qed

lemma vertical_visit_columns: "columns_of m P \<Longrightarrow> columns_of (vertical_visit t col row m) (P + mset (placed t col row))"
proof (induction t arbitrary: m P col row)
  case (Node l a r)
  show ?case using Node.IH(2) [OF Node.IH(1) [OF columns_of_add [OF Node.prems, of col row a]]]
    by (simp add: Let_def add_ac)
qed simp

lemma sorted_rows:
  assumes "sorted_wrt (<) (map fst rows)"
  shows "map (Pair c) (concat (map (\<lambda>(row, vs). sort vs) rows)) = map (\<lambda>p. (c, snd p)) (sort (entries rows))"
proof -
  let ?es = "concat (map (\<lambda>(row, vs). map (Pair row) (sort vs)) rows)"
  have "sorted ?es" using assms
  proof (induction rows)
    case (Cons rv rows)
    obtain row vs where rv: "rv = (row, vs)" by force
    have "sorted (map (Pair row) (sort vs))" by (simp add: sorted_map)
    moreover have "\<forall>x \<in> set (map (Pair row) (sort vs)). \<forall>y \<in> set (concat (map (\<lambda>(row, vs). map (Pair row) (sort vs)) rows)). x \<le> y"
      using Cons.prems by (fastforce simp: rv less_imp_le)
    ultimately show ?case using Cons by (simp add: rv sorted_append)
  qed simp
  moreover have "mset ?es = mset (entries rows)" by (induction rows) (auto simp: entries_def)
  ultimately have "sort (entries rows) = ?es" by (metis properties_for_sort)
  moreover have "map (\<lambda>p. (c, snd p)) ?es = map (Pair c) (concat (map (\<lambda>(row, vs). sort vs) rows))"
    by (induction rows) (auto simp: comp_def)
  ultimately show ?thesis by simp
qed

text \<open>\<open>verticalTraversal\<close> lists, for every column of the tree from left to right, its values from the top row down,
  values in the same place in increasing order.\<close>

theorem verticalTraversal_correct:
  "verticalTraversal t = map (\<lambda>col. map snd (sort (map snd (filter (\<lambda>p. fst p = col) (placed t 0 0)))))
     (sorted_list_of_set (fst ` set (placed t 0 0)))"
proof -
  let ?m = "vertical_visit t 0 0 []"
  have "columns_of [] {#}" by (simp add: columns_of_def)
  from vertical_visit_columns [OF this, of t 0 0]
  have c: "sorted_wrt (<) (map fst ?m)" "fst ` set ?m = fst ` set (placed t 0 0)"
    and rows: "\<And>col rs. (col, rs) \<in> set ?m \<Longrightarrow> sorted_wrt (<) (map fst rs) \<and>
      mset (entries rs) = mset (map snd (filter (\<lambda>p. fst p = col) (placed t 0 0)))"
    by (auto simp: columns_of_def mset_filter)
  have keys: "map fst ?m = sorted_list_of_set (fst ` set (placed t 0 0))"
    using c by (metis List.finite_set finite_imageI list.set_map sorted_list_of_set_unique strict_sorted_equal sorted_list_of_set.strict_sorted_key_list_of_set
        sorted_list_of_set.set_sorted_key_list_of_set)
  have "concat (map (\<lambda>(row, vs). sort vs) rs) = map snd (sort (map snd (filter (\<lambda>p. fst p = col) (placed t 0 0))))"
    if "(col, rs) \<in> set ?m" for col rs
  proof -
    have "sort (entries rs) = sort (map snd (filter (\<lambda>p. fst p = col) (placed t 0 0)))"
      using rows [OF that] by (metis mset_sort properties_for_sort sorted_sort)
    moreover have "map snd (map (Pair col) (concat (map (\<lambda>(row, vs). sort vs) rs))) = map snd (map (\<lambda>p. (col, snd p)) (sort (entries rs)))"
      using sorted_rows [of rs col] rows [OF that] by simp
    ultimately show ?thesis by (simp add: comp_def)
  qed
  then have "verticalTraversal t = map (\<lambda>(col, rs). map snd (sort (map snd (filter (\<lambda>p. fst p = col) (placed t 0 0))))) ?m"
    unfolding verticalTraversal_def by (intro map_cong) auto
  also have "\<dots> = map (\<lambda>col. map snd (sort (map snd (filter (\<lambda>p. fst p = col) (placed t 0 0))))) (map fst ?m)"
    by (simp add: case_prod_beta comp_def)
  finally show ?thesis unfolding keys .
qed

subsection \<open>Flattening a tree into a list\<close>

fun flattenPost :: "'a tree \<Rightarrow> 'a tree \<Rightarrow> 'a tree" where
  "flattenPost Leaf prev = prev"
| "flattenPost (Node l a r) prev =
     (let prev = flattenPost r prev; prev = flattenPost l prev in Node Leaf a prev)"

definition flatten :: "'a tree \<Rightarrow> 'a tree" where
  "flatten rt = flattenPost rt Leaf"

text \<open>The first attempt. \<open>append_right\<close> sets the right child of the last node of a flattened tree.\<close>

fun append_right :: "'a tree \<Rightarrow> 'a tree \<Rightarrow> 'a tree" where
  "append_right Leaf t = t"
| "append_right (Node l a r) t = Node l a (append_right r t)"

fun flattenHelp :: "'a tree \<Rightarrow> 'a tree" where
  "flattenHelp Leaf = Leaf"
| "flattenHelp (Node l a r) =
     (if l = Leaf \<and> r = Leaf then Node l a r
      else if l = Leaf then Node l a (flattenHelp r)
      else let left = flattenHelp l
           in Node Leaf a (append_right left (if r = Leaf then Leaf else flattenHelp r)))"

fun right_chain :: "'a list \<Rightarrow> 'a tree" where
  "right_chain [] = Leaf"
| "right_chain (x # xs) = Node Leaf x (right_chain xs)"

lemma append_right_chain: "append_right (right_chain xs) (right_chain ys) = right_chain (xs @ ys)"
  by (induction xs) auto

lemma flattenPost_chain: "flattenPost t (right_chain xs) = right_chain (Tree.preorder t @ xs)"
  by (induction t arbitrary: xs) (simp_all add: Let_def)

lemma flattenHelp_chain: "flattenHelp t = right_chain (Tree.preorder t)"
  by (induction t) (auto simp: Let_def append_right_chain [symmetric])

text \<open>Both ways of flattening turn a tree into the chain of right children that holds its preorder.\<close>

theorem flatten_preorder: "flatten t = right_chain (Tree.preorder t) \<and> flattenHelp t = right_chain (Tree.preorder t)"
  using flattenPost_chain [of t "[]"] flattenHelp_chain by (simp add: flatten_def)

subsection \<open>Duplicate subtrees\<close>

text \<open>The members \<open>ans\<close> (nodes as positions) and \<open>count\<close> (text of a subtree to number of times).\<close>

record duplicate_state =
  dup_ans :: "bool list list"
  dup_count :: "string \<rightharpoonup> int"

fun findDuplicateSubtreesFlatten :: "int tree \<Rightarrow> bool list \<Rightarrow> duplicate_state \<Rightarrow> string \<times> duplicate_state" where
  "findDuplicateSubtreesFlatten Leaf pos st = ('''', st)"
| "findDuplicateSubtreesFlatten (Node l a r) pos st =
     (let (sl, st) = findDuplicateSubtreesFlatten l (pos @ [False]) st;
          (sr, st) = findDuplicateSubtreesFlatten r (pos @ [True]) st;
          subtree = to_string a @ '',L,'' @ sl @ ''R,'' @ sr
      in (subtree,
          case dup_count st subtree of
            None \<Rightarrow> st\<lparr>dup_count := (dup_count st)(subtree \<mapsto> 1)\<rparr>
          | Some v \<Rightarrow>
              \<lparr>dup_ans = (if v = 1 then dup_ans st @ [pos] else dup_ans st),
               dup_count = (dup_count st)(subtree \<mapsto> i32 (v + 1))\<rparr>))"

definition findDuplicateSubtrees :: "int tree \<Rightarrow> bool list list" where
  "findDuplicateSubtrees rt = dup_ans (snd (findDuplicateSubtreesFlatten rt [] \<lparr>dup_ans = [], dup_count = Map.empty\<rparr>))"

fun tree_text :: "int tree \<Rightarrow> string" where
  "tree_text Leaf = ''''"
| "tree_text (Node l a r) = to_string a @ '',L,'' @ tree_text l @ ''R,'' @ tree_text r"

definition ends_text :: "string \<Rightarrow> bool" where
  "ends_text u \<longleftrightarrow> u = [] \<or> hd u = CHR ''R''"

lemma tree_text_starts: "\<not> ends_text (tree_text (Node l a r) @ u)"
proof -
  have "hd (to_string a) \<noteq> CHR ''R''"
    using to_string_number [of a] hd_in_set [of "to_string a"] by (fastforce simp: number_char_def isdigit_def code_def)
  then show ?thesis using to_string_number [of a] by (simp add: ends_text_def)
qed

lemma tree_text_prefix:
  "tree_text t @ u = tree_text t' @ u' \<Longrightarrow> ends_text u \<Longrightarrow> ends_text u' \<Longrightarrow> t = t' \<and> u = u'"
proof (induction t arbitrary: u t' u')
  case Leaf
  then show ?case using tree_text_starts [of _ _ _ u'] by (cases t') (auto simp del: tree_text.simps(2))
next
  case (Node l a r)
  show ?case
  proof (cases t')
    case Leaf
    then show ?thesis using Node.prems tree_text_starts [of l a r u] by (simp del: tree_text.simps(2))
  next
    case t': (Node l' a' r')
    have comma: "\<not> number_char CHR '',''" by (simp add: number_char_def isdigit_def code_def)
    have "to_string a @ '',L,'' @ tree_text l @ ''R,'' @ tree_text r @ u = to_string a' @ '',L,'' @ tree_text l' @ ''R,'' @ tree_text r' @ u'"
      using Node.prems(1) t' by simp
    from to_string_span [OF this] have a: "a = a'" and rest: "tree_text l @ ''R,'' @ tree_text r @ u = tree_text l' @ ''R,'' @ tree_text r' @ u'"
      using comma by auto
    have "l = l' \<and> ''R,'' @ tree_text r @ u = ''R,'' @ tree_text r' @ u'" by (rule Node.IH(1) [OF rest]) (simp_all add: ends_text_def)
    moreover from this have "r = r' \<and> u = u'" using Node.IH(2) [of u r' u'] Node.prems(2,3) by simp
    ultimately show ?thesis using a t' by simp
  qed
qed

lemma tree_text_inject: "tree_text t = tree_text t' \<longleftrightarrow> t = t'"
  using tree_text_prefix [of t "[]" t' "[]"] by (auto simp: ends_text_def)

text \<open>All subtrees, in the order in which the walk finishes them.\<close>

fun all_subtrees :: "'a tree \<Rightarrow> 'a tree list" where
  "all_subtrees Leaf = []"
| "all_subtrees (Node l a r) = all_subtrees l @ all_subtrees r @ [Node l a r]"

definition duplicates :: "int tree \<Rightarrow> int tree list \<Rightarrow> duplicate_state \<Rightarrow> bool" where
  "duplicates rt xs st \<longleftrightarrow>
     (\<forall>u. dup_count st (tree_text u) = (if u \<in> set xs then Some (int (count_list xs u)) else None)) \<and>
     distinct (map (subtree_at rt) (dup_ans st)) \<and> set (map (subtree_at rt) (dup_ans st)) = {u. 2 \<le> count_list xs u}"

lemma duplicates_step:
  assumes "duplicates rt xs st" "subtree_at rt pos = t" "int (length xs) < 2147483647"
  shows "duplicates rt (xs @ [t])
    (case dup_count st (tree_text t) of
       None \<Rightarrow> st\<lparr>dup_count := (dup_count st)(tree_text t \<mapsto> 1)\<rparr>
     | Some v \<Rightarrow>
         \<lparr>dup_ans = (if v = 1 then dup_ans st @ [pos] else dup_ans st),
          dup_count = (dup_count st)(tree_text t \<mapsto> i32 (v + 1))\<rparr>)"
proof (cases "t \<in> set xs")
  case False
  then have "count_list xs t = 0" by (simp add: count_list_0_iff)
  moreover have "{u. 2 \<le> count_list (xs @ [t]) u} = {u. 2 \<le> count_list xs u}" using calculation by (auto simp: count_list_append)
  ultimately show ?thesis using assms(1) False by (auto simp: duplicates_def tree_text_inject count_list_append)
next
  case True
  define n where "n = count_list xs t"
  have n: "0 < n" using True by (metis count_list_0_iff gr0I n_def)
  have "n \<le> length xs" unfolding n_def by (rule count_le_length)
  then have i: "i32 (int n + 1) = int n + 1" using assms(3) by (intro i32_id) auto
  have c: "dup_count st (tree_text t) = Some (int n)" using assms(1) True by (simp add: duplicates_def n_def)
  have cl: "count_list (xs @ [t]) u = (if u = t then Suc n else count_list xs u)" for u by (simp add: count_list_append n_def)
  have old: "set (map (subtree_at rt) (dup_ans st)) = {u. 2 \<le> count_list xs u}" "distinct (map (subtree_at rt) (dup_ans st))"
    using assms(1) by (auto simp: duplicates_def)
  have set: "{u. 2 \<le> count_list (xs @ [t]) u} = insert t {u. 2 \<le> count_list xs u}" unfolding cl using n by auto
  have fresh: "n = 1 \<longleftrightarrow> t \<notin> set (map (subtree_at rt) (dup_ans st))" unfolding old using n by (auto simp: n_def)
  have "set (map (subtree_at rt) (if n = 1 then dup_ans st @ [pos] else dup_ans st)) = {u. 2 \<le> count_list (xs @ [t]) u}"
    unfolding set old(1) [symmetric] using assms(2) fresh by auto
  moreover have "distinct (map (subtree_at rt) (if n = 1 then dup_ans st @ [pos] else dup_ans st))"
    using old(2) assms(2) fresh by auto
  moreover have "((dup_count st)(tree_text t \<mapsto> int n + 1)) (tree_text u) = (if u \<in> set (xs @ [t]) then Some (int (count_list (xs @ [t]) u)) else None)" for u
    using assms(1) unfolding cl by (auto simp: duplicates_def tree_text_inject)
  ultimately show ?thesis unfolding duplicates_def c option.case i by simp
qed

lemma findDuplicateSubtreesFlatten_spec:
  "duplicates rt xs st \<Longrightarrow> subtree_at rt pos = t \<Longrightarrow> int (length xs + size t) < 2147483648 \<Longrightarrow>
   fst (findDuplicateSubtreesFlatten t pos st) = tree_text t \<and>
   duplicates rt (xs @ all_subtrees t) (snd (findDuplicateSubtreesFlatten t pos st))"
proof (induction t arbitrary: xs pos st)
  case Leaf
  then show ?case by simp
next
  case (Node l a r)
  have len: "length (all_subtrees t) = size t" for t :: "int tree" by (induction t) auto
  have sub: "subtree_at rt (pos @ [False]) = l" "subtree_at rt (pos @ [True]) = r"
    using subtree_at_step [OF Node.prems(2)] by simp_all
  obtain sl st1 where l: "findDuplicateSubtreesFlatten l (pos @ [False]) st = (sl, st1)" by force
  obtain sr st2 where r: "findDuplicateSubtreesFlatten r (pos @ [True]) st1 = (sr, st2)" by force
  have L: "sl = tree_text l" "duplicates rt (xs @ all_subtrees l) st1"
    using Node.IH(1) [OF Node.prems(1) sub(1)] Node.prems(3) l by auto
  have R: "sr = tree_text r" "duplicates rt ((xs @ all_subtrees l) @ all_subtrees r) st2"
    using Node.IH(2) [OF L(2) sub(2)] Node.prems(3) r by (auto simp: len)
  have "int (length ((xs @ all_subtrees l) @ all_subtrees r)) < 2147483647" using Node.prems(3) by (simp add: len)
  from duplicates_step [OF R(2) Node.prems(2) this] show ?case by (simp add: l r L(1) R(1) Let_def cong: option.case_cong)
qed

text \<open>C40: \<open>findDuplicateSubtrees\<close> returns one node for every subtree that occurs at least twice, and no other node.\<close>

theorem findDuplicateSubtrees_correct:
  assumes "int (size t) < 2147483648"
  shows "distinct (map (subtree_at t) (findDuplicateSubtrees t)) \<and>
    set (map (subtree_at t) (findDuplicateSubtrees t)) = {u. 2 \<le> count_list (all_subtrees t) u}"
proof -
  have "duplicates t [] \<lparr>dup_ans = [], dup_count = Map.empty\<rparr>" by (simp add: duplicates_def)
  from findDuplicateSubtreesFlatten_spec [OF this, of "[]" t] assms show ?thesis
    by (simp add: findDuplicateSubtrees_def duplicates_def)
qed

theorem findDuplicateSubtrees_correct_witness:
  "distinct (map (subtree_at (Node (Node Leaf 4 Leaf) 1 (Node (Node Leaf 4 Leaf) 2 Leaf))) (findDuplicateSubtrees (Node (Node Leaf 4 Leaf) 1 (Node (Node Leaf 4 Leaf) 2 Leaf)))) \<and>
   set (map (subtree_at (Node (Node Leaf 4 Leaf) 1 (Node (Node Leaf 4 Leaf) 2 Leaf))) (findDuplicateSubtrees (Node (Node Leaf 4 Leaf) 1 (Node (Node Leaf 4 Leaf) 2 Leaf)))) =
     {u. 2 \<le> count_list (all_subtrees (Node (Node Leaf 4 Leaf) 1 (Node (Node Leaf 4 Leaf) 2 Leaf))) u}"
  by (rule findDuplicateSubtrees_correct) simp

end
