(* ===== verification/TreePaths.thy ===== *)
theory TreePaths
  imports TreeOptima "HOL-Library.Sublist"
begin

section \<open>Paths and common ancestors (leetcode/tree/BinaryTree.cpp)\<close>

text \<open>
  The classes \<open>TreePath\<close>, \<open>LCA\<close> and \<open>LCA_BST\<close>. Members that a recursion writes (\<open>mii_count\<close>, \<open>paths\<close>, \<open>one\<close>, \<open>lcaCur\<close>, \<open>match\<close>,
  \<open>lca\<close>) are passed through it; a pointer to a node is its position.
\<close>

subsection \<open>Paths from the root to the leaves\<close>

fun path_sum :: "int tree \<Rightarrow> int \<Rightarrow> int \<Rightarrow> bool" where
  "path_sum Leaf tot target = False"
| "path_sum (Node l a r) tot target =
     (let tot = i32 (tot + a)
      in if l = Leaf \<and> r = Leaf then tot = target
         else if l \<noteq> Leaf \<and> path_sum l tot target then True
         else if r \<noteq> Leaf \<and> path_sum r tot target then True
         else False)"

definition hasPathSum :: "int tree \<Rightarrow> int \<Rightarrow> bool" where
  "hasPathSum rt s = path_sum rt 0 s"

fun pathSum2x :: "int tree \<Rightarrow> int \<Rightarrow> int \<Rightarrow> int list list \<times> int list \<Rightarrow> int list list \<times> int list" where
  "pathSum2x Leaf tot target st = st"
| "pathSum2x (Node l a r) tot target st =
     (let (paths, one) = st;
          tot = i32 (tot + a);
          one = one @ [a];
          (paths, one) =
            (if l = Leaf \<and> r = Leaf then (if tot = target then (paths @ [one], one) else (paths, one))
             else let st = (if l \<noteq> Leaf then pathSum2x l tot target (paths, one) else (paths, one))
                  in if r \<noteq> Leaf then pathSum2x r tot target st else st)
      in (paths, butlast one))"

fun pathSum2 :: "int tree \<Rightarrow> int \<Rightarrow> int \<Rightarrow> int list \<Rightarrow> int list list \<Rightarrow> int list list" where
  "pathSum2 Leaf tot target p paths = paths"
| "pathSum2 (Node l a r) tot target p paths =
     (let tot = i32 (tot + a);
          p = p @ [a]
      in if l = Leaf \<and> r = Leaf then (if tot = target then paths @ [p] else paths)
         else let paths = (if l \<noteq> Leaf then pathSum2 l tot target p paths else paths)
              in if r \<noteq> Leaf then pathSum2 r tot target p paths else paths)"

definition pathSum :: "int tree \<Rightarrow> int \<Rightarrow> int list list" where
  "pathSum rt s = fst (pathSum2x rt 0 s ([], []))"

lemma leaf_paths_empty: "leaf_paths t = [] \<longleftrightarrow> t = Leaf"
  by (induction t) auto

lemma map_append_Nil: "map ((@) []) xs = xs"
  by (induction xs) auto

lemma i32_add_left: "i32 (i32 x + y) = i32 (x + y)"
  by (rule swrap_add) simp

lemma path_sum_paths: "path_sum t (i32 c) target \<longleftrightarrow> (\<exists>p \<in> set (leaf_paths t). i32 (c + sum_list p) = target)"
proof (induction t arbitrary: c)
  case (Node l a r)
  have union: "(\<exists>p \<in> (#) a ` X \<union> (#) a ` Y. Q p) \<longleftrightarrow> (\<exists>p \<in> X. Q (a # p)) \<or> (\<exists>p \<in> Y. Q (a # p))" for X Y Q by blast
  show ?case
  proof (cases "l = Leaf \<and> r = Leaf")
    case False
    have "path_sum (Node l a r) (i32 c) target \<longleftrightarrow> path_sum l (i32 (c + a)) target \<or> path_sum r (i32 (c + a)) target"
      using False by (auto simp: Let_def i32_add_left)
    then show ?thesis unfolding leaf_paths.simps if_not_P [OF False] by (simp add: Node union add.assoc del: path_sum.simps)
  next
    case True
    then show ?thesis by (simp add: i32_add_left Let_def)
  qed
qed simp

lemma pathSum2x_paths:
  "pathSum2x t (i32 c) target (paths, one) =
     (paths @ map ((@) one) (filter (\<lambda>p. i32 (c + sum_list p) = target) (leaf_paths t)), one)"
proof (induction t arbitrary: c paths one)
  case (Node l a r)
  show ?case
  proof (cases "l = Leaf \<and> r = Leaf")
    case False
    have eq: "pathSum2x (Node l a r) (i32 c) target (paths, one) =
        (let (paths, one) = pathSum2x r (i32 (c + a)) target (pathSum2x l (i32 (c + a)) target (paths, one @ [a])) in (paths, butlast one))"
      using False by (auto simp: i32_add_left Let_def)
    show ?thesis unfolding eq using False by (simp add: Node filter_map comp_def add.assoc del: pathSum2x.simps)
  qed (simp add: i32_add_left Let_def)
qed simp

lemma pathSum2_paths:
  "pathSum2 t (i32 c) target p paths = paths @ map ((@) p) (filter (\<lambda>p. i32 (c + sum_list p) = target) (leaf_paths t))"
proof (induction t arbitrary: c paths p)
  case (Node l a r)
  show ?case
  proof (cases "l = Leaf \<and> r = Leaf")
    case False
    have eq: "pathSum2 (Node l a r) (i32 c) target p paths =
        pathSum2 r (i32 (c + a)) target (p @ [a]) (pathSum2 l (i32 (c + a)) target (p @ [a]) paths)"
      using False by (auto simp: i32_add_left Let_def)
    show ?thesis unfolding eq using False by (simp add: Node filter_map comp_def add.assoc del: pathSum2.simps)
  qed (simp add: i32_add_left Let_def)
qed simp

text \<open>The three searches for a root-to-leaf path with a given sum: \<open>pathSum\<close> and \<open>pathSum2\<close> list the same paths, all of them from
  left to right, and \<open>hasPathSum\<close> says whether there is one.\<close>

theorem path_sums_agree:
  "pathSum t s = filter (\<lambda>p. i32 (sum_list p) = s) (leaf_paths t) \<and>
   pathSum2 t 0 s [] [] = pathSum t s \<and> (hasPathSum t s \<longleftrightarrow> pathSum t s \<noteq> [])"
  using pathSum2x_paths [of t 0 s "[]" "[]"] pathSum2_paths [of t 0 s "[]" "[]"] path_sum_paths [of t 0 s]
  by (auto simp: pathSum_def hasPathSum_def filter_empty_conv map_append_Nil)

subsection \<open>Downward paths with a given sum\<close>

fun sums_from :: "int tree \<Rightarrow> int \<Rightarrow> int \<Rightarrow> int" where
  "sums_from Leaf tot target = 0"
| "sums_from (Node l a r) tot target =
     (let tot = i32 (tot + a);
          cnt = (if tot = target then 1 else 0);
          cnt = i32 (cnt + sums_from l tot target)
      in i32 (cnt + sums_from r tot target))"

fun pathSum3Help :: "int tree \<Rightarrow> int \<Rightarrow> int" where
  "pathSum3Help Leaf s = 0"
| "pathSum3Help (Node l a r) s =
     i32 (i32 ((if a = s then 1 else 0) + pathSum3Help l (i32 (s - a))) + pathSum3Help r (i32 (s - a)))"

fun pathSum3 :: "int tree \<Rightarrow> int \<Rightarrow> int" where
  "pathSum3 Leaf s = 0"
| "pathSum3 (Node l a r) s = i32 (i32 (sums_from (Node l a r) 0 s + pathSum3 l s) + pathSum3 r s)"

text \<open>The map holds how often each sum occurs on the way from the root to the current node.\<close>

fun prefix_sums :: "int tree \<Rightarrow> int \<Rightarrow> int \<Rightarrow> (int \<rightharpoonup> int) \<Rightarrow> int \<times> (int \<rightharpoonup> int)" where
  "prefix_sums Leaf tot target m = (0, m)"
| "prefix_sums (Node l a r) tot target m =
     (let tot = i32 (tot + a);
          res = (case m (i32 (tot - target)) of None \<Rightarrow> 0 | Some c \<Rightarrow> c);
          m = m(tot \<mapsto> (case m tot of None \<Rightarrow> 1 | Some c \<Rightarrow> i32 (c + 1)));
          (x, m) = prefix_sums l tot target m;
          (y, m) = prefix_sums r tot target m;
          res = i32 (res + i32 (x + y))
      in (res, m(tot \<mapsto> i32 (the (m tot) - 1))))"

definition pathSum3PrefixSum :: "int tree \<Rightarrow> int \<Rightarrow> int" where
  "pathSum3PrefixSum rt s = fst (prefix_sums rt 0 s [0 \<mapsto> 1])"

text \<open>The sums of the paths that start at the root, and how many of them reach a target modulo the range of int.\<close>

fun root_sums :: "int tree \<Rightarrow> int list" where
  "root_sums Leaf = []"
| "root_sums (Node l a r) = a # map ((+) a) (root_sums l @ root_sums r)"

definition hits :: "int tree \<Rightarrow> int \<Rightarrow> int \<Rightarrow> int" where
  "hits t c s = int (length (filter (\<lambda>x. i32 (c + x) = s) (root_sums t)))"

fun total_hits :: "int tree \<Rightarrow> int \<Rightarrow> int" where
  "total_hits Leaf s = 0"
| "total_hits (Node l a r) s = hits (Node l a r) 0 s + total_hits l s + total_hits r s"

lemma hits_Node: "hits (Node l a r) c s = (if i32 (c + a) = s then 1 else 0) + hits l (c + a) s + hits r (c + a) s"
  by (simp add: hits_def filter_map comp_def add.assoc)

lemma hits_Leaf [simp]: "hits Leaf c s = 0"
  by (simp add: hits_def)

lemma i32_add_both: "i32 (i32 x + i32 y) = i32 (x + y)"
  using swrap_add [of 32 x "i32 y"] swrap_add [of 32 y x] by (simp add: add.commute)

lemma i32_add_right: "i32 (y + i32 x) = i32 (y + x)"
  using i32_add_left [of x y] by (simp add: add.commute)

lemma sums_from_hits: "sums_from t (i32 c) s = i32 (hits t c s)"
proof (induction t arbitrary: c)
  case (Node l a r)
  let ?b = "if i32 (c + a) = s then 1 else (0 :: int)"
  have "sums_from (Node l a r) (i32 c) s = i32 (i32 (?b + i32 (hits l (c + a) s)) + i32 (hits r (c + a) s))"
    by (simp add: Let_def i32_add_left Node)
  also have "\<dots> = i32 (?b + hits l (c + a) s + hits r (c + a) s)" by (rule i32_sum3)
  finally show ?case unfolding hits_Node .
qed simp

lemma pathSum3Help_hits: "- 2147483648 \<le> s \<Longrightarrow> s < 2147483648 \<Longrightarrow> \<forall>x \<in> set_tree t. - 2147483648 \<le> x \<and> x < 2147483648 \<Longrightarrow>
   pathSum3Help t s = i32 (hits t 0 s)"
proof -
  have shift: "hits t (c + d) s = hits t c (i32 (s - d))" if "i32 s = s" for t c d s
  proof -
    have "i32 (c + d + x) = s \<longleftrightarrow> i32 (c + x) = i32 (s - d)" for x
    proof -
      have "i32 (c + d + x) = s \<longleftrightarrow> i32 (c + d + x) = i32 s" using that by simp
      also have "\<dots> \<longleftrightarrow> i32 (c + x) = i32 (s - d)" unfolding i32_cong mod_eq_dvd_iff by (simp add: algebra_simps)
      finally show ?thesis .
    qed
    then show ?thesis by (simp add: hits_def)
  qed
  have gen: "i32 s = s \<Longrightarrow> \<forall>x \<in> set_tree t. i32 x = x \<Longrightarrow> pathSum3Help t s = i32 (hits t 0 s)" for s
  proof (induction t arbitrary: s)
    case (Node l a r)
    have "pathSum3Help u (i32 (s - a)) = i32 (hits u a s)" if "u = l \<or> u = r" for u
      using that Node.IH [of "i32 (s - a)"] Node.prems shift [OF Node.prems(1), of u 0 a] by (auto simp: swrap_swrap)
    then have "pathSum3Help (Node l a r) s = i32 (i32 ((if a = s then 1 else 0) + i32 (hits l a s)) + i32 (hits r a s))" by simp
    also have "\<dots> = i32 ((if a = s then 1 else 0) + hits l a s + hits r a s)" by (rule i32_sum3)
    finally show ?case using Node.prems by (simp add: hits_Node)
  qed simp
  assume "- 2147483648 \<le> s" "s < 2147483648" "\<forall>x \<in> set_tree t. - 2147483648 \<le> x \<and> x < 2147483648"
  then show ?thesis by (intro gen) auto
qed

lemma pathSum3_hits: "pathSum3 t s = i32 (total_hits t s)"
proof (induction t)
  case (Node l a r)
  have "pathSum3 (Node l a r) s = i32 (i32 (i32 (hits (Node l a r) 0 s) + i32 (total_hits l s)) + i32 (total_hits r s))"
    using sums_from_hits [of "Node l a r" 0 s] Node by simp
  then show ?case by (simp add: i32_add_both i32_add_left i32_add_right add.assoc)
qed simp

text \<open>The prefix sums of the path to the current node, and the map that counts them.\<close>

definition counts_prefixes :: "(int \<rightharpoonup> int) \<Rightarrow> int list \<Rightarrow> bool" where
  "counts_prefixes m P \<longleftrightarrow> (\<forall>x. (case m x of None \<Rightarrow> 0 | Some c \<Rightarrow> c) = int (length (filter (\<lambda>p. i32 p = x) P)))"

lemma prefix_sums_hits:
  "counts_prefixes m P \<Longrightarrow> i32 s = s \<Longrightarrow> int (length P + height t) < 2147483648 \<Longrightarrow>
   fst (prefix_sums t (i32 c) s m) = i32 ((\<Sum>p \<leftarrow> P. hits t (c - p) s) + (total_hits t s - hits t 0 s)) \<and>
   counts_prefixes (snd (prefix_sums t (i32 c) s m)) P"
proof (induction t arbitrary: m P c)
  case Leaf
  then show ?case by (simp add: sum_list_triv)
next
  case (Node l a r)
  define d where "d = c + a"
  define m1 where "m1 = m(i32 d \<mapsto> (case m (i32 d) of None \<Rightarrow> 1 | Some c \<Rightarrow> i32 (c + 1)))"
  have flen: "length (filter Q P) \<le> length P" for Q by (rule length_filter_le)
  have m1: "counts_prefixes m1 (d # P)"
  proof -
    have "int (length (filter (\<lambda>p. i32 p = i32 d) P)) + 1 < 2147483648"
      using flen [of "\<lambda>p. i32 p = i32 d"] Node.prems(3) by (simp only: tree.size height_tree.simps)
    moreover have "(case m (i32 d) of None \<Rightarrow> 0 | Some c \<Rightarrow> c) = int (length (filter (\<lambda>p. i32 p = i32 d) P))"
      using Node.prems(1) by (simp add: counts_prefixes_def)
    ultimately have "(case m (i32 d) of None \<Rightarrow> 1 | Some c \<Rightarrow> i32 (c + 1)) = int (length (filter (\<lambda>p. i32 p = i32 d) P)) + 1"
      by (cases "m (i32 d)") simp_all
    then show ?thesis using Node.prems(1) by (auto simp: counts_prefixes_def m1_def)
  qed
  obtain x m2 where l: "prefix_sums l (i32 d) s m1 = (x, m2)" by force
  obtain y m3 where r: "prefix_sums r (i32 d) s m2 = (y, m3)" by force
  have L: "x = i32 ((\<Sum>p \<leftarrow> d # P. hits l (d - p) s) + (total_hits l s - hits l 0 s))" "counts_prefixes m2 (d # P)"
    using Node.IH(1) [OF m1 Node.prems(2), of d] Node.prems(3) l by auto
  have R: "y = i32 ((\<Sum>p \<leftarrow> d # P. hits r (d - p) s) + (total_hits r s - hits r 0 s))" "counts_prefixes m3 (d # P)"
    using Node.IH(2) [OF L(2) Node.prems(2), of d] Node.prems(3) r by auto
  define res where "res = (case m (i32 (i32 d - s)) of None \<Rightarrow> 0 | Some c \<Rightarrow> c)"
  have "i32 (i32 d - s) = i32 p \<longleftrightarrow> i32 (d - p) = s" for p
  proof -
    have "i32 (i32 d - s) = i32 (d - s)" using swrap_add [of 32 d "- s"] by simp
    then have "i32 (i32 d - s) = i32 p \<longleftrightarrow> i32 (d - s) = i32 p" by simp
    also have "\<dots> \<longleftrightarrow> i32 (d - p) = i32 s" unfolding i32_cong mod_eq_dvd_iff by (simp add: algebra_simps)
    finally show ?thesis using Node.prems(2) by simp
  qed
  then have "res = int (length (filter (\<lambda>p. i32 (d - p) = s) P))"
    using Node.prems(1) by (simp add: res_def counts_prefixes_def eq_commute)
  also have "\<dots> = (\<Sum>p \<leftarrow> P. if i32 (d - p) = s then 1 else 0)" by (induction P) auto
  finally have res: "res = (\<Sum>p \<leftarrow> P. if i32 (c - p + a) = s then 1 else 0)" by (simp add: d_def algebra_simps)
  have "prefix_sums (Node l a r) (i32 c) s m = (i32 (res + i32 (x + y)), m3(i32 d \<mapsto> i32 (the (m3 (i32 d)) - 1)))"
    using l r by (simp add: i32_add_left d_def [symmetric] m1_def [symmetric] res_def Let_def)
  moreover have "i32 (res + i32 (x + y)) = i32 ((\<Sum>p \<leftarrow> P. hits (Node l a r) (c - p) s) + (total_hits (Node l a r) s - hits (Node l a r) 0 s))"
  proof -
    have "i32 (res + i32 (x + y)) = i32 (res + ((\<Sum>p \<leftarrow> P. hits l (d - p) s) + total_hits l s + (\<Sum>p \<leftarrow> P. hits r (d - p) s) + total_hits r s))"
    proof -
      have sums: "(\<Sum>p \<leftarrow> d # P. hits t (d - p) s) + (total_hits t s - hits t 0 s) = (\<Sum>p \<leftarrow> P. hits t (d - p) s) + total_hits t s" for t
        by simp
      have fold: "i32 (res + i32 (i32 A + i32 B)) = i32 (res + (A + B))" for A B
        using i32_add_right [of res "A + B"] by (simp only: i32_add_both)
      show ?thesis unfolding L(1) R(1) sums fold by (simp add: algebra_simps)
    qed
    also have "res + ((\<Sum>p \<leftarrow> P. hits l (d - p) s) + total_hits l s + (\<Sum>p \<leftarrow> P. hits r (d - p) s) + total_hits r s) =
        (\<Sum>p \<leftarrow> P. hits (Node l a r) (c - p) s) + (total_hits l s + total_hits r s)"
      unfolding hits_Node sum_list_addf res by (simp add: d_def algebra_simps)
    finally show ?thesis by simp
  qed
  moreover have "counts_prefixes (m3(i32 d \<mapsto> i32 (the (m3 (i32 d)) - 1))) P"
  proof -
    have "(case m3 (i32 d) of None \<Rightarrow> 0 | Some c \<Rightarrow> c) = int (length (filter (\<lambda>p. i32 p = i32 d) P)) + 1"
      using R(2) by (simp add: counts_prefixes_def)
    then have "the (m3 (i32 d)) = int (length (filter (\<lambda>p. i32 p = i32 d) P)) + 1" by (cases "m3 (i32 d)") auto
    moreover have "i32 (int (length (filter (\<lambda>p. i32 p = i32 d) P))) = int (length (filter (\<lambda>p. i32 p = i32 d) P))"
      using flen [of "\<lambda>p. i32 p = i32 d"] Node.prems(3) by (intro i32_id) linarith+
    ultimately show ?thesis using R(2) by (auto simp: counts_prefixes_def)
  qed
  ultimately show ?case by (simp only: fst_conv snd_conv simp_thms)
qed

text \<open>C18: The search with a map of prefix sums, undone on the way back, counts the same downward paths as the search from every node.\<close>

theorem pathSum3_versions:
  assumes "- 2147483648 \<le> s" "s < 2147483648" "int (height t) < 2147483647"
  shows "pathSum3PrefixSum t s = pathSum3 t s \<and> pathSum3 t s = i32 (total_hits t s)"
proof -
  have "counts_prefixes [0 \<mapsto> 1] [0]" by (simp add: counts_prefixes_def)
  from prefix_sums_hits [OF this, of s t 0] show ?thesis
    using assms by (simp add: pathSum3PrefixSum_def pathSum3_hits)
qed

theorem pathSum3_versions_witness:
  "pathSum3PrefixSum (Node (Node Leaf 3 Leaf) 5 (Node Leaf (-5) (Node Leaf 8 Leaf))) 8 = pathSum3 (Node (Node Leaf 3 Leaf) 5 (Node Leaf (-5) (Node Leaf 8 Leaf))) 8 \<and>
   pathSum3 (Node (Node Leaf 3 Leaf) 5 (Node Leaf (-5) (Node Leaf 8 Leaf))) 8 = i32 (total_hits (Node (Node Leaf 3 Leaf) 5 (Node Leaf (-5) (Node Leaf 8 Leaf))) 8)"
  by (rule pathSum3_versions) simp_all


subsection \<open>Lowest common ancestors\<close>

text \<open>
  A node is named by its position, the turns on the way from the root (False left, True right). The members \<open>lcaCur\<close>, \<open>match\<close> and
  \<open>lca\<close> are the state of the recursion; \<open>lca\<close> has two slots, \<open>match\<close> is the next one to write.
\<close>

fun LcaHelp :: "int tree \<Rightarrow> bool list \<Rightarrow> bool list \<Rightarrow> bool list \<Rightarrow> bool list list \<times> nat \<times> bool list list list \<Rightarrow>
    bool list list \<times> nat \<times> bool list list list" where
  "LcaHelp Leaf pos p q st = st"
| "LcaHelp (Node l a r) pos p q (lcaCur, match, lca) =
     (if match = 2 then (lcaCur, match, lca)
      else let lcaCur = lcaCur @ [pos];
               (match, lca) = (if pos = p \<or> pos = q then (match + 1, lca[match := lcaCur]) else (match, lca));
               (lcaCur, match, lca) = LcaHelp l (pos @ [False]) p q (lcaCur, match, lca);
               (lcaCur, match, lca) = LcaHelp r (pos @ [True]) p q (lcaCur, match, lca)
           in (butlast lcaCur, match, lca))"

definition lowestCommonAncestor :: "int tree \<Rightarrow> bool list \<Rightarrow> bool list \<Rightarrow> bool list option" where
  "lowestCommonAncestor rt p q =
     (let (lcaCur, match, lca) = LcaHelp rt [] p q ([], 0, [[], []]);
          minSize = min (length (lca ! 0)) (length (lca ! 1));
          i = length (takeWhile (\<lambda>i. lca ! 0 ! i = lca ! 1 ! i) [0..<minSize])
      in if i < 1 then None else Some (lca ! 0 ! (i - 1)))"

fun lowestCommonAncestor2 :: "int tree \<Rightarrow> bool list \<Rightarrow> bool list \<Rightarrow> bool list \<Rightarrow> bool list option" where
  "lowestCommonAncestor2 Leaf pos p q = None"
| "lowestCommonAncestor2 (Node l a r) pos p q =
     (if pos = p \<or> pos = q then Some pos
      else case lowestCommonAncestor2 l (pos @ [False]) p q of
             None \<Rightarrow> lowestCommonAncestor2 r (pos @ [True]) p q
           | Some x \<Rightarrow> (case lowestCommonAncestor2 r (pos @ [True]) p q of None \<Rightarrow> Some x | Some y \<Rightarrow> Some pos))"

text \<open>Only the values of the two nodes are used in a search tree; None is the dereference of a null pointer.\<close>

fun lowestCommonAncestorBST :: "int tree \<Rightarrow> int \<Rightarrow> int \<Rightarrow> int tree option" where
  "lowestCommonAncestorBST Leaf p q = None"
| "lowestCommonAncestorBST (Node l a r) p q =
     (if a > q \<and> a > p then lowestCommonAncestorBST l q p
      else if a < q \<and> a < p then lowestCommonAncestorBST r q p
      else Some (Node l a r))"

text \<open>The positions of a tree in preorder, and the nodes on the way to one.\<close>

fun positions :: "int tree \<Rightarrow> bool list list" where
  "positions Leaf = []"
| "positions (Node l a r) = [] # map ((#) False) (positions l) @ map ((#) True) (positions r)"

definition way :: "bool list \<Rightarrow> bool list \<Rightarrow> bool list list" where
  "way pos p = map (\<lambda>i. pos @ take i p) [0..<Suc (length p)]"

lemma way_Nil [simp]: "way pos [] = [pos]"
  by (simp add: way_def)

lemma way_Cons [simp]: "way pos (b # p) = pos # way (pos @ [b]) p"
  by (simp add: way_def map_upt_Suc del: upt_Suc)

lemma distinct_positions: "distinct (positions t)"
  by (induction t) (auto simp: distinct_map)

text \<open>Writing a sequence of paths into the two slots.\<close>

definition record_paths :: "nat \<times> bool list list list \<Rightarrow> bool list list list \<Rightarrow> nat \<times> bool list list list" where
  "record_paths = foldl (\<lambda>(m, lca) c. if m = 2 then (m, lca) else (m + 1, lca[m := c]))"

lemma record_paths_full [simp]: "record_paths (2, lca) cs = (2, lca)"
  by (induction cs) (simp_all add: record_paths_def)

lemma record_paths_Nil [simp]: "record_paths st [] = st"
  by (simp add: record_paths_def)

lemma record_paths_append: "record_paths st (xs @ ys) = record_paths (record_paths st xs) ys"
  by (simp add: record_paths_def)

lemma LcaHelp_record:
  "LcaHelp t pos p q (cur, match, lca) =
     (cur, record_paths (match, lca) (map (\<lambda>x. cur @ way pos x) (filter (\<lambda>x. pos @ x = p \<or> pos @ x = q) (positions t))))"
proof (induction t arbitrary: pos cur match lca)
  case (Node l a r)
  let ?P = "\<lambda>x. pos @ x = p \<or> pos @ x = q"
  let ?H = "\<lambda>t pos cur. map (\<lambda>x. cur @ way pos x) (filter (\<lambda>x. pos @ x = p \<or> pos @ x = q) (positions t))"
  show ?case
  proof (cases "match = 2")
    case False
    define here where "here = (if pos = p \<or> pos = q then [cur @ [pos]] else [])"
    have split: "?H (Node l a r) pos cur = here @ ?H l (pos @ [False]) (cur @ [pos]) @ ?H r (pos @ [True]) (cur @ [pos])"
      by (auto simp: here_def filter_map comp_def)
    obtain m1 lca1 where here: "record_paths (match, lca) here = (m1, lca1)" by force
    obtain m2 lca2 where left: "record_paths (m1, lca1) (?H l (pos @ [False]) (cur @ [pos])) = (m2, lca2)" by force
    have "(if pos = p \<or> pos = q then (match + 1, lca[match := cur @ [pos]]) else (match, lca)) = (m1, lca1)"
      using here False by (auto simp: here_def record_paths_def)
    then have "LcaHelp (Node l a r) pos p q (cur, match, lca) = (cur, record_paths (m2, lca2) (?H r (pos @ [True]) (cur @ [pos])))"
      using False left by (simp add: Node Let_def split_beta)
    then show ?thesis unfolding split record_paths_append here left .
  qed simp
qed simp

lemma filter_two:
  "distinct xs \<Longrightarrow> p \<in> set xs \<Longrightarrow> q \<in> set xs \<Longrightarrow> p \<noteq> q \<Longrightarrow>
   filter (\<lambda>x. x = p \<or> x = q) xs = [p, q] \<or> filter (\<lambda>x. x = p \<or> x = q) xs = [q, p]"
proof (induction xs)
  case (Cons x xs)
  have one: "filter (\<lambda>y. y = z) xs = [z]" if "distinct xs" "z \<in> set xs" for z
    using that by (induction xs) (auto simp: filter_empty_conv)
  have drop: "filter (\<lambda>y. y = p \<or> y = q) xs = filter (\<lambda>y. y = z) xs" if "{p, q} = {x, z}" for z
    using Cons.prems(1) that by (intro filter_cong) (auto simp: doubleton_eq_iff)
  consider "x = p" | "x = q" | "x \<noteq> p" "x \<noteq> q" by blast
  then show ?case
    using Cons one drop [of p] drop [of q] by cases auto
qed simp

lemma takeWhile_upt:
  "k \<le> n \<Longrightarrow> (\<And>i. i < k \<Longrightarrow> P i) \<Longrightarrow> k = n \<or> \<not> P k \<Longrightarrow> length (takeWhile P [0..<n]) = k"
proof -
  assume k: "k \<le> n" "\<And>i. i < k \<Longrightarrow> P i" "k = n \<or> \<not> P k"
  have "[0..<n] = [0..<k] @ [k..<n]" using upt_add_eq_append [of 0 k "n - k"] k(1) by simp
  moreover have "takeWhile P [k..<n] = []" using k by (cases "k < n") (auto simp: upt_conv_Cons)
  moreover have "takeWhile P ([0..<k] @ [k..<n]) = [0..<k] @ takeWhile P [k..<n]" using k(2) by (intro takeWhile_append2) auto
  ultimately show ?thesis by simp
qed

lemma way_nth: "i \<le> length p \<Longrightarrow> way [] p ! i = take i p"
  by (simp add: way_def del: upt_Suc)

lemma length_way [simp]: "length (way pos p) = Suc (length p)"
  by (simp add: way_def)

lemma take_lcp:
  "i \<le> min (length p) (length q) \<Longrightarrow> take i p = take i q \<longleftrightarrow> i \<le> length (longest_common_prefix p q)"
proof (induction i arbitrary: p q)
  case (Suc i)
  then show ?case by (cases p; cases q) auto
qed simp

lemma lcp_length: "length (longest_common_prefix p q) \<le> min (length p) (length q)"
  by (induction p q rule: longest_common_prefix.induct) auto

lemma way_meet:
  "length (takeWhile (\<lambda>i. way [] p ! i = way [] q ! i) [0..<min (length (way [] p)) (length (way [] q))]) =
     Suc (length (longest_common_prefix p q))"
proof (rule takeWhile_upt)
  fix i assume "i < Suc (length (longest_common_prefix p q))"
  then show "way [] p ! i = way [] q ! i" using lcp_length [of p q] take_lcp [of i p q] by (simp add: way_nth)
next
  let ?k = "Suc (length (longest_common_prefix p q))"
  show "?k = min (length (way [] p)) (length (way [] q)) \<or> way [] p ! ?k \<noteq> way [] q ! ?k"
    using lcp_length [of p q] take_lcp [of ?k p q] by (cases "?k \<le> min (length p) (length q)") (auto simp: way_nth min_def split: if_splits)
qed (use lcp_length [of p q] in simp)

lemma take_lcp_self: "take (length (longest_common_prefix p q)) p = longest_common_prefix p q"
  by (induction p q rule: longest_common_prefix.induct) auto

lemma lcp_sym: "longest_common_prefix p q = longest_common_prefix q p"
  by (induction p q rule: longest_common_prefix.induct) auto

lemma lowestCommonAncestor_lcp:
  assumes "p \<in> set (positions t)" "q \<in> set (positions t)" "p \<noteq> q"
  shows "lowestCommonAncestor t p q = Some (longest_common_prefix p q)"
proof -
  have meet: "lowestCommonAncestor t p q = Some (longest_common_prefix u v)" if "filter (\<lambda>x. x = p \<or> x = q) (positions t) = [u, v]" for u v
  proof -
    have "LcaHelp t [] p q ([], 0, [[], []]) = ([], 2, [way [] u, way [] v])"
      using that by (simp add: LcaHelp_record record_paths_def)
    then have "lowestCommonAncestor t p q = Some (way [] u ! length (longest_common_prefix u v))"
      unfolding lowestCommonAncestor_def by (simp only: Let_def case_prod_conv nth_Cons_0 nth_Cons_Suc One_nat_def way_meet) simp
    then show ?thesis using lcp_length [of u v] by (simp add: way_nth take_lcp_self)
  qed
  from filter_two [OF distinct_positions assms] show ?thesis
    using meet [of p q] meet [of q p] lcp_sym [of p q] by auto
qed

lemma lca_same:
  assumes "p \<in> set (positions t)"
  shows "lowestCommonAncestor t p p = None"
proof -
  have "filter (\<lambda>x. x = p) xs = [p]" if "distinct xs" "p \<in> set xs" for xs
    using that by (induction xs) (auto simp: filter_empty_conv)
  from this [OF distinct_positions assms] have "filter (\<lambda>x. x = p) (positions t) = [p]" .
  then show ?thesis by (simp add: lowestCommonAncestor_def LcaHelp_record record_paths_def)
qed

lemma lca2_spec:
  "lowestCommonAncestor2 t pos p q =
     (let inside = (\<lambda>x. \<exists>y \<in> set (positions t). x = pos @ y)
      in if inside p then if inside q then Some (longest_common_prefix p q) else Some p
         else if inside q then Some q else None)"
proof (induction t arbitrary: pos)
  case (Node l a r)
  have split: "(\<exists>y \<in> set (positions (Node l a r)). x = pos @ y) \<longleftrightarrow>
      x = pos \<or> (\<exists>y \<in> set (positions l). x = (pos @ [False]) @ y) \<or> (\<exists>y \<in> set (positions r). x = (pos @ [True]) @ y)" for x
    by auto
  have lcp_pre: "longest_common_prefix (pos @ x) (pos @ y) = pos @ longest_common_prefix x y" for x y
    by (induction pos) auto
  have "longest_common_prefix x (x @ y) = x \<and> longest_common_prefix (x @ y) x = x" for x y :: "bool list"
    by (induction x) auto
  note lcp_pre = lcp_pre this
  have "longest_common_prefix x x = x" for x :: "bool list" by (induction x) auto
  note lcp_pre = lcp_pre this
  show ?case
    unfolding split lowestCommonAncestor2.simps Node Let_def
    by (auto simp: lcp_pre)
qed simp

text \<open>C19: Both searches for the lowest common ancestor of two different nodes return the node at the longest common prefix of their
  positions; they differ for two equal nodes, where the first one returns no node.\<close>

theorem lowestCommonAncestor_versions:
  assumes "p \<in> set (positions t)" "q \<in> set (positions t)"
  shows "lowestCommonAncestor2 t [] p q = Some (longest_common_prefix p q) \<and>
         lowestCommonAncestor t p q = (if p = q then None else Some (longest_common_prefix p q))"
  using assms lowestCommonAncestor_lcp [OF assms] lca_same [OF assms(1)] by (auto simp: lca2_spec Let_def)

theorem lowestCommonAncestor_versions_witness:
  "let t = Node (Node Leaf 5 (Node Leaf 2 Leaf)) 3 (Node Leaf 1 Leaf)
   in lowestCommonAncestor2 t [] [False] [False, True] = Some (longest_common_prefix [False] [False, True]) \<and>
      lowestCommonAncestor t [False] [False, True] =
        (if [False] = [False, True] then None else Some (longest_common_prefix [False] [False, True]))"
  unfolding Let_def by (rule lowestCommonAncestor_versions) simp_all

lemma subtree_value: "p \<in> set (positions t) \<Longrightarrow> \<exists>l r. subtree_at t p = Node l (tree.value (subtree_at t p)) r \<and> tree.value (subtree_at t p) \<in> set_tree t"
proof (induction t arbitrary: p)
  case (Node l a r)
  then show ?case by fastforce
qed simp

text \<open>In a search tree the walk that compares the two values with the node ends at the node where the positions part, the lowest
  common ancestor.\<close>

theorem lowestCommonAncestorBST_correct:
  assumes "bst t" "p \<in> set (positions t)" "q \<in> set (positions t)"
  shows "lowestCommonAncestorBST t (tree.value (subtree_at t p)) (tree.value (subtree_at t q)) =
           Some (subtree_at t (longest_common_prefix p q))"
  using assms
proof (induction t arbitrary: p q)
  case (Node l a r)
  note in_l = subtree_value [of _ l] and in_r = subtree_value [of _ r]
  have lt: "tree.value (subtree_at l x) < a" if "x \<in> set (positions l)" for x using in_l [OF that] Node.prems(1) by auto
  have gt: "a < tree.value (subtree_at r x)" if "x \<in> set (positions r)" for x using in_r [OF that] Node.prems(1) by auto
  consider "p = [] \<or> q = []" | x y where "p = False # x" "q = False # y" | x y where "p = True # x" "q = True # y"
    | x y where "p = False # x \<and> q = True # y \<or> p = True # y \<and> q = False # x" by (cases p; cases q) (force+)
  then show ?case
  proof cases
    case 1
    then show ?thesis using lt gt by (cases p; cases q) auto
  next
    case 2
    then have "x \<in> set (positions l)" "y \<in> set (positions l)" using Node.prems by auto
    then show ?thesis using 2 lt [of x] lt [of y] Node.IH(1) [of y x] Node.prems(1) lcp_sym [of x y] by simp
  next
    case 3
    then have "x \<in> set (positions r)" "y \<in> set (positions r)" using Node.prems by auto
    then show ?thesis using 3 gt [of x] gt [of y] Node.IH(2) [of y x] Node.prems(1) lcp_sym [of x y] by simp
  next
    case 4
    then have "x \<in> set (positions l)" "y \<in> set (positions r)" using Node.prems by auto
    then show ?thesis using 4 lt [of x] gt [of y] by auto
  qed
qed simp

theorem lowestCommonAncestorBST_witness:
  "let t = Node (Node Leaf (1 :: int) (Node Leaf 2 Leaf)) 3 (Node Leaf 4 Leaf)
   in lowestCommonAncestorBST t (tree.value (subtree_at t [False])) (tree.value (subtree_at t [False, True])) =
        Some (subtree_at t (longest_common_prefix [False] [False, True]))"
  unfolding Let_def by (rule lowestCommonAncestorBST_correct) simp_all

end
