(* ===== verification/TreeConstruct.thy ===== *)
theory TreeConstruct
  imports TreePaths HelperLib
begin

section \<open>Trees from traversals and complete trees (leetcode/tree/BinaryTree.cpp)\<close>

text \<open>
  The classes \<open>ConstructBinaryTree\<close> and \<open>CBTInserter\<close>. An iterator into a list is its offset from the first element (from the last
  one for a reverse iterator), \<open>pos_map\<close> the map of \<open>vector2map\<close>, \<open>pre_pos_map\<close> that of \<open>value_iter_map\<close>. None is a read outside
  a list, or a value that is missing from the map (the code dereferences the end of the map).
\<close>

subsection \<open>From two traversals\<close>

definition treePartition :: "int \<Rightarrow> int \<Rightarrow> int \<Rightarrow> (int \<rightharpoonup> int) \<Rightarrow> (int \<times> int) option" where
  "treePartition rootVal InStart InEnd pos_map =
     (case pos_map rootVal of
        None \<Rightarrow> None
      | Some pos \<Rightarrow> Some (i32 (pos - InStart), i32 (InEnd - (pos + 1))))"

partial_function (option) build_pre ::
    "int list \<Rightarrow> (int \<rightharpoonup> int) \<Rightarrow> int \<Rightarrow> int \<Rightarrow> int \<Rightarrow> int \<Rightarrow> int tree option" where
  "build_pre pre pos_map preStart preEnd InStart InEnd =
     Option.bind (ivec_at pre preStart) (\<lambda>v.
     Option.bind (treePartition v InStart InEnd pos_map) (\<lambda>(left_size, right_size).
     Option.bind (if left_size \<noteq> 0
                  then build_pre pre pos_map (preStart + 1) (preStart + 1 + left_size) InStart (InStart + left_size)
                  else Some Leaf) (\<lambda>l.
     Option.bind (if right_size \<noteq> 0
                  then build_pre pre pos_map (preStart + 1 + left_size) preEnd (InStart + left_size + 1) InEnd
                  else Some Leaf) (\<lambda>r.
     Some (Node l v r)))))"

definition buildTree :: "int list \<Rightarrow> int list \<Rightarrow> int tree option" where
  "buildTree pre ino =
     (if pre = [] then Some Leaf
      else build_pre pre (vector2map ino) 0 (int (length pre)) 0 (int (length ino)))"

partial_function (option) build_post ::
    "int list \<Rightarrow> (int \<rightharpoonup> int) \<Rightarrow> int \<Rightarrow> int \<Rightarrow> int \<Rightarrow> int \<Rightarrow> int tree option" where
  "build_post post pos_map pStart pEnd InStart InEnd =
     Option.bind (ivec_at (rev post) pStart) (\<lambda>v.
     Option.bind (treePartition v InStart InEnd pos_map) (\<lambda>(left_size, right_size).
     Option.bind (if left_size \<noteq> 0
                  then build_post post pos_map (pStart + 1 + right_size) pEnd InStart (InStart + left_size)
                  else Some Leaf) (\<lambda>l.
     Option.bind (if right_size \<noteq> 0
                  then build_post post pos_map (pStart + 1) (pStart + 1 + right_size) (InStart + left_size + 1) InEnd
                  else Some Leaf) (\<lambda>r.
     Some (Node l v r)))))"

definition buildTreePost :: "int list \<Rightarrow> int list \<Rightarrow> int tree option" where
  "buildTreePost ino post =
     (if post = [] then Some Leaf
      else build_post post (vector2map ino) 0 (int (length post)) 0 (int (length ino)))"

partial_function (option) from_prepost ::
    "int list \<Rightarrow> int list \<Rightarrow> (int \<rightharpoonup> nat) \<Rightarrow> int \<Rightarrow> int \<Rightarrow> int \<Rightarrow> int \<Rightarrow> int tree option" where
  "from_prepost pre post pre_pos_map pre_first pre_last post_first post_last =
     (if pre_first = pre_last then Some Leaf
      else Option.bind (ivec_at pre pre_first) (\<lambda>v.
        let pre_first = pre_first + 1;
            nodes = pre_last - pre_first;
            post_first = post_first + 1
        in Option.bind (if nodes < 2 then Some True
                        else Option.bind (ivec_at pre pre_first) (\<lambda>x.
                             Option.bind (ivec_at (rev post) post_first) (\<lambda>y. Some (x = y)))) (\<lambda>one.
           if one
           then Option.bind (from_prepost pre post pre_pos_map pre_first pre_last post_first post_last) (\<lambda>l.
                Some (Node l v Leaf))
           else Option.bind (ivec_at (rev post) post_first) (\<lambda>y.
                Option.bind (map_option int (pre_pos_map y)) (\<lambda>left_end.
                let right_size = pre_last - left_end
                in Option.bind (from_prepost pre post pre_pos_map pre_first left_end (post_first + right_size) post_last) (\<lambda>l.
                   Option.bind (from_prepost pre post pre_pos_map left_end pre_last post_first (post_first + right_size)) (\<lambda>r.
                   Some (Node l v r))))))))"

definition constructFromPrePost :: "int list \<Rightarrow> int list \<Rightarrow> int tree option" where
  "constructFromPrePost pre post =
     from_prepost pre post (value_iter_map pre) 0 (int (length pre)) 0 (int (length post))"

declare build_pre.simps [simp del] build_post.simps [simp del] from_prepost.simps [simp del]

lemma ivec_at_middle: "n = int (length xs) \<Longrightarrow> ivec_at (xs @ y # ys) n = Some y"
  by (simp add: ivec_at_def)

lemma vector2map_middle:
  assumes "distinct (xs @ y # ys)" "length (xs @ y # ys) \<le> 2147483648"
  shows "vector2map (xs @ y # ys) y = Some (int (length xs))"
proof -
  have "(LEAST i. (xs @ y # ys) ! i = y) = length xs"
  proof (rule Least_equality)
    fix i assume i: "(xs @ y # ys) ! i = y"
    show "length xs \<le> i"
    proof (rule ccontr)
      assume "\<not> length xs \<le> i"
      then have "xs ! i = y" "i < length xs" using i by (simp_all add: nth_append)
      then show False using assms(1) nth_mem [of i xs] by simp
    qed
  qed simp
  then show ?thesis using assms(2) by (subst vector2map_first) simp_all
qed

lemma value_iter_map_middle:
  assumes "distinct (xs @ y # ys)"
  shows "value_iter_map (xs @ y # ys) y = Some (length xs)"
proof -
  have "(GREATEST i. i < length (xs @ y # ys) \<and> (xs @ y # ys) ! i = y) = length xs"
  proof (rule Greatest_equality)
    fix i assume i: "i < length (xs @ y # ys) \<and> (xs @ y # ys) ! i = y"
    have "(xs @ y # ys) ! i = (xs @ y # ys) ! length xs" using i by simp
    then have "i = length xs" using i assms nth_eq_iff_index_eq [OF assms, of i "length xs"] by simp
    then show "i \<le> length xs" by simp
  qed simp
  then show ?thesis by (subst value_iter_map_last) simp
qed

lemma treePartition_middle:
  assumes "distinct (C @ inorder l @ v # inorder r @ D)" "length (C @ inorder l @ v # inorder r @ D) < 2147483648"
    "is = int (length C)" "ie = is + int (size l) + 1 + int (size r)"
  shows "treePartition v is ie (vector2map (C @ inorder l @ v # inorder r @ D)) = Some (int (size l), int (size r))"
proof -
  have "vector2map (C @ inorder l @ v # inorder r @ D) v = Some (int (length C) + int (size l))"
    using vector2map_middle [of "C @ inorder l" v "inorder r @ D"] assms by simp
  then show ?thesis using assms by (simp add: treePartition_def)
qed

lemma build_pre_tree:
  "t \<noteq> Leaf \<Longrightarrow> distinct (C @ inorder t @ D) \<Longrightarrow> length (C @ inorder t @ D) < 2147483648 \<Longrightarrow>
   build_pre (A @ Tree.preorder t @ B) (vector2map (C @ inorder t @ D)) (int (length A)) (int (length A + size t))
     (int (length C)) (int (length C + size t)) = Some t"
proof (induction t arbitrary: A B C D)
  case (Node l v r)
  let ?pre = "A @ Tree.preorder (Node l v r) @ B" and ?m = "vector2map (C @ inorder (Node l v r) @ D)"
  have part: "treePartition v (int (length C)) (int (length C + size (Node l v r))) ?m = Some (int (size l), int (size r))"
    using Node.prems treePartition_middle [of C l v r D "int (length C)" "int (length C + size (Node l v r))"] by simp
  have L: "build_pre ?pre ?m (int (length A) + 1) (int (length A) + 1 + int (size l)) (int (length C)) (int (length C) + int (size l)) = Some l"
    if "l \<noteq> Leaf"
    using Node.IH(1) [OF that, of C "v # inorder r @ D" "A @ [v]" "Tree.preorder r @ B"] Node.prems by (simp add: add_ac)
  have R: "build_pre ?pre ?m (int (length A) + 1 + int (size l)) (int (length A + size (Node l v r))) (int (length C) + int (size l) + 1)
      (int (length C + size (Node l v r))) = Some r" if "r \<noteq> Leaf"
    using Node.IH(2) [OF that, of "C @ inorder l @ [v]" D "A @ v # Tree.preorder l" B] Node.prems by (simp add: add_ac)
  have "ivec_at ?pre (int (length A)) = Some v" by (simp add: ivec_at_middle)
  then show ?case using part L R by (subst build_pre.simps) (cases "l = Leaf"; cases "r = Leaf"; simp)
qed simp

lemma build_post_tree:
  "t \<noteq> Leaf \<Longrightarrow> distinct (C @ inorder t @ D) \<Longrightarrow> length (C @ inorder t @ D) < 2147483648 \<Longrightarrow>
   build_post (B @ postorder t @ A) (vector2map (C @ inorder t @ D)) (int (length A)) (int (length A + size t))
     (int (length C)) (int (length C + size t)) = Some t"
proof (induction t arbitrary: A B C D)
  case (Node l v r)
  let ?post = "B @ postorder (Node l v r) @ A" and ?m = "vector2map (C @ inorder (Node l v r) @ D)"
  have part: "treePartition v (int (length C)) (int (length C + size (Node l v r))) ?m = Some (int (size l), int (size r))"
    using Node.prems treePartition_middle [of C l v r D "int (length C)" "int (length C + size (Node l v r))"] by simp
  have L: "build_post ?post ?m (int (length A) + 1 + int (size r)) (int (length A + size (Node l v r))) (int (length C)) (int (length C) + int (size l)) = Some l"
    if "l \<noteq> Leaf"
    using Node.IH(1) [OF that, of C "v # inorder r @ D" B "postorder r @ v # A"] Node.prems by (simp add: add_ac)
  have R: "build_post ?post ?m (int (length A) + 1) (int (length A) + 1 + int (size r)) (int (length C) + int (size l) + 1)
      (int (length C + size (Node l v r))) = Some r" if "r \<noteq> Leaf"
    using Node.IH(2) [OF that, of "C @ inorder l @ [v]" D "B @ postorder l" "v # A"] Node.prems by (simp add: add_ac)
  have "ivec_at (rev ?post) (int (length A)) = Some v"
    using ivec_at_middle [of "int (length A)" "rev A" v "rev (postorder r) @ rev (postorder l) @ rev B"] by simp
  then show ?case using part L R by (subst build_post.simps) (cases "l = Leaf"; cases "r = Leaf"; simp)
qed simp

text \<open>C20: A tree with different values is rebuilt from its preorder and inorder, and from its inorder and postorder.\<close>

theorem buildTree_roundtrip:
  assumes "distinct (inorder t)" "size t < 2147483648"
  shows "buildTree (Tree.preorder t) (inorder t) = Some t \<and> buildTreePost (inorder t) (postorder t) = Some t"
proof (cases "t = Leaf")
  case False
  then have "Tree.preorder t \<noteq> []" "postorder t \<noteq> []" by (cases t; simp)+
  then show ?thesis
    using build_pre_tree [OF False, of "[]" "[]" "[]" "[]"] build_post_tree [OF False, of "[]" "[]" "[]" "[]"] assms
    by (simp add: buildTree_def buildTreePost_def)
qed (simp add: buildTree_def buildTreePost_def)

theorem buildTree_roundtrip_witness:
  "buildTree (Tree.preorder (Node (Node Leaf 9 Leaf) 3 (Node Leaf 20 (Node Leaf 7 Leaf)))) (inorder (Node (Node Leaf 9 Leaf) 3 (Node Leaf 20 (Node Leaf 7 Leaf)))) =
     Some (Node (Node Leaf 9 Leaf) 3 (Node Leaf 20 (Node Leaf 7 Leaf))) \<and>
   buildTreePost (inorder (Node (Node Leaf 9 Leaf) 3 (Node Leaf 20 (Node Leaf 7 Leaf)))) (postorder (Node (Node Leaf 9 Leaf) 3 (Node Leaf 20 (Node Leaf 7 Leaf)))) =
     Some (Node (Node Leaf 9 Leaf) 3 (Node Leaf 20 (Node Leaf 7 Leaf)))"
  by (rule buildTree_roundtrip) simp_all

text \<open>Preorder and postorder do not tell on which side an only child is; the code puts it on the left.\<close>

fun lean_left :: "int tree \<Rightarrow> int tree" where
  "lean_left Leaf = Leaf"
| "lean_left (Node l v r) = (if l = Leaf then Node (lean_left r) v Leaf else Node (lean_left l) v (lean_left r))"

lemma lean_left_size [simp]: "size (lean_left t) = size t"
  by (induction t) auto

lemma lean_left_traversals: "Tree.preorder (lean_left t) = Tree.preorder t \<and> postorder (lean_left t) = postorder t"
  by (induction t) auto

lemma postorder_last: "t \<noteq> Leaf \<Longrightarrow> \<exists>ps. rev (postorder t) = tree.value t # ps"
  by (cases t) auto

lemma preorder_first: "t \<noteq> Leaf \<Longrightarrow> \<exists>ps. Tree.preorder t = tree.value t # ps"
  by (cases t) auto

lemma from_prepost_tree:
  "distinct (A @ Tree.preorder t @ B) \<Longrightarrow>
   from_prepost (A @ Tree.preorder t @ B) (D @ postorder t @ C) (value_iter_map (A @ Tree.preorder t @ B))
     (int (length A)) (int (length A + size t)) (int (length C)) (int (length C + size t)) = Some (lean_left t)"
proof (induction t arbitrary: A B C D)
  case Leaf
  then show ?case by (subst from_prepost.simps) simp
next
  case (Node l v r)
  let ?t = "Node l v r"
  let ?pre = "A @ Tree.preorder ?t @ B" and ?post = "D @ postorder ?t @ C"
  have root: "ivec_at ?pre (int (length A)) = Some v" by (simp add: ivec_at_middle)
  show ?case
  proof (cases "l = Leaf \<or> r = Leaf")
    case True
    define u where "u = (if l = Leaf then r else l)"
    have t: "Tree.preorder ?t = v # Tree.preorder u" "postorder ?t = postorder u @ [v]" "size ?t = Suc (size u)"
      "lean_left ?t = Node (lean_left u) v Leaf"
      using True by (auto simp: u_def)
    have sub: "from_prepost ?pre ?post (value_iter_map ?pre) (int (length A) + 1) (int (length A + size ?t)) (int (length C) + 1) (int (length C + size ?t))
        = Some (lean_left u)"
    proof -
      have "u = l \<or> u = r" by (simp add: u_def)
      then show ?thesis
        using Node.IH(1) [of "A @ [v]" B D "v # C"] Node.IH(2) [of "A @ [v]" B D "v # C"] Node.prems unfolding t by (auto simp: add_ac)
    qed
    have "ivec_at ?pre (int (length A) + 1) = Some (tree.value u) \<and> ivec_at (rev ?post) (int (length C) + 1) = Some (tree.value u)" if u: "u \<noteq> Leaf"
    proof -
      obtain ps qs where "Tree.preorder u = tree.value u # ps" "rev (postorder u) = tree.value u # qs"
        using preorder_first [OF u] postorder_last [OF u] by blast
      then show ?thesis
        unfolding t using ivec_at_middle [of "int (length A) + 1" "A @ [v]" "tree.value u" "ps @ B"] ivec_at_middle [of "int (length C) + 1" "rev C @ [v]" "tree.value u" "qs @ rev D"] by simp
    qed
    moreover have "\<not> int (length A + size ?t) - (int (length A) + 1) < 2 \<Longrightarrow> u \<noteq> Leaf" unfolding t by auto
    ultimately show ?thesis
      using root sub by (subst from_prepost.simps) (auto simp: Let_def t(4) simp del: lean_left.simps Tree.preorder.simps postorder.simps)
  next
    case False
    then obtain ps qs where ps: "Tree.preorder l = tree.value l # ps" and qs: "rev (postorder r) = tree.value r # qs"
      using preorder_first [of l] postorder_last [of r] by blast
    obtain rs where rs: "Tree.preorder r = tree.value r # rs" using False preorder_first [of r] by blast
    have at: "ivec_at ?pre (int (length A) + 1) = Some (tree.value l)" "ivec_at (rev ?post) (int (length C) + 1) = Some (tree.value r)"
      using ivec_at_middle [of "int (length A) + 1" "A @ [v]" "tree.value l" "ps @ Tree.preorder r @ B"] ps
        ivec_at_middle [of "int (length C) + 1" "rev C @ [v]" "tree.value r" "qs @ rev (postorder l) @ rev D"] qs by simp_all
    have ne: "tree.value l \<noteq> tree.value r" using Node.prems ps rs by auto
    have pos: "value_iter_map ?pre (tree.value r) = Some (length A + 1 + size l)"
      using value_iter_map_middle [of "A @ v # Tree.preorder l" "tree.value r" "rs @ B"] Node.prems rs by simp
    have L: "from_prepost ?pre ?post (value_iter_map ?pre) (int (length A) + 1) (int (length A) + 1 + int (size l))
        (int (length C) + 1 + int (size r)) (int (length C + size ?t)) = Some (lean_left l)"
      using Node.IH(1) [of "A @ [v]" "Tree.preorder r @ B" D "postorder r @ v # C"] Node.prems by (simp add: add_ac)
    have R: "from_prepost ?pre ?post (value_iter_map ?pre) (int (length A) + 1 + int (size l)) (int (length A + size ?t))
        (int (length C) + 1) (int (length C) + 1 + int (size r)) = Some (lean_left r)"
      using Node.IH(2) [of "A @ v # Tree.preorder l" B "D @ postorder l" "v # C"] Node.prems by (simp add: add_ac)
    have two: "\<not> int (size l) + int (size r) < 2" using False by (cases l; cases r) auto
    show ?thesis
      using root at ne pos L R two False
      by (subst from_prepost.simps) (simp add: Let_def algebra_simps)
  qed
qed

text \<open>From a preorder and a postorder of a tree with different values, the code builds a tree with these traversals: the given tree
  when every node with one child has it on the left.\<close>

theorem constructFromPrePost_correct:
  assumes "distinct (Tree.preorder t)"
  shows "\<exists>u. constructFromPrePost (Tree.preorder t) (postorder t) = Some u \<and> u = lean_left t \<and>
           Tree.preorder u = Tree.preorder t \<and> postorder u = postorder t"
proof -
  have "length (postorder t) = size t" by (induction t) auto
  then have "constructFromPrePost (Tree.preorder t) (postorder t) = Some (lean_left t)"
    using from_prepost_tree [of "[]" t "[]" "[]" "[]"] assms by (simp add: constructFromPrePost_def)
  then show ?thesis using lean_left_traversals by simp
qed

theorem constructFromPrePost_witness:
  "\<exists>u. constructFromPrePost (Tree.preorder (Node (Node Leaf 2 (Node Leaf 4 Leaf)) 1 (Node Leaf 3 Leaf))) (postorder (Node (Node Leaf 2 (Node Leaf 4 Leaf)) 1 (Node Leaf 3 Leaf))) = Some u \<and>
     u = lean_left (Node (Node Leaf 2 (Node Leaf 4 Leaf)) 1 (Node Leaf 3 Leaf)) \<and>
     Tree.preorder u = Tree.preorder (Node (Node Leaf 2 (Node Leaf 4 Leaf)) 1 (Node Leaf 3 Leaf)) \<and>
     postorder u = postorder (Node (Node Leaf 2 (Node Leaf 4 Leaf)) 1 (Node Leaf 3 Leaf))"
  by (rule constructFromPrePost_correct) simp


subsection \<open>Inserting into a complete tree\<close>

text \<open>
  \<open>CBTInserter\<close> keeps the nodes of the last full level in \<open>parents\<close> and those of the level below in \<open>leaf_nodes\<close>; a node is named by
  its position (see \<open>positions\<close>). None is the \<open>out_of_range\<close> that \<open>at\<close> throws, or a constructor that does not end.
\<close>

record cbt_inserter =
  myRoot :: "int tree"
  parents :: "bool list list"
  leaf_nodes :: "bool list list"

fun put_at :: "int tree \<Rightarrow> bool list \<Rightarrow> int tree \<Rightarrow> int tree" where
  "put_at t [] u = u"
| "put_at Leaf (b # p) u = Leaf"
| "put_at (Node l a r) (b # p) u = (if b then Node l a (put_at r p u) else Node (put_at l p u) a r)"

fun cbt_level :: "int tree \<Rightarrow> bool list list \<Rightarrow> bool list list \<Rightarrow> bool list list \<times> bool" where
  "cbt_level t [] leaves = (leaves, False)"
| "cbt_level t (p # ps) leaves =
     (if subtree_at t (p @ [False]) \<noteq> Leaf
      then let leaves = leaves @ [p @ [False]]
           in if subtree_at t (p @ [True]) \<noteq> Leaf then cbt_level t ps (leaves @ [p @ [True]]) else (leaves, True)
      else (leaves, True))"

partial_function (option) cbt_loop :: "int tree \<Rightarrow> bool list list \<Rightarrow> cbt_inserter option" where
  "cbt_loop t ps =
     (let (leaves, returned) = cbt_level t ps []
      in if returned then Some \<lparr>myRoot = t, parents = ps, leaf_nodes = leaves\<rparr> else cbt_loop t leaves)"

definition CBTInserter :: "int tree \<Rightarrow> cbt_inserter option" where
  "CBTInserter t = (if t = Leaf then Some \<lparr>myRoot = Leaf, parents = [], leaf_nodes = []\<rparr> else cbt_loop t [[]])"

definition cbt_insert :: "int \<Rightarrow> cbt_inserter \<Rightarrow> (int \<times> cbt_inserter) option" where
  "cbt_insert v s =
     (if myRoot s = Leaf then Some (- 1, s\<lparr>myRoot := Node Leaf v Leaf, parents := parents s @ [[]]\<rparr>)
      else let s = (if length (leaf_nodes s) = 2 * length (parents s) then s\<lparr>parents := leaf_nodes s, leaf_nodes := []\<rparr> else s)
           in if length (leaf_nodes s) div 2 < length (parents s)
              then let parent = parents s ! (length (leaf_nodes s) div 2);
                       side = (Suc (length (leaf_nodes s)) mod 2 = 0);
                       s = s\<lparr>leaf_nodes := leaf_nodes s @ [parent @ [side]]\<rparr>
                   in Some (tree.value (subtree_at (myRoot s) parent), s\<lparr>myRoot := put_at (myRoot s) (parent @ [side]) (Node Leaf v Leaf)\<rparr>)
              else None)"

declare cbt_loop.simps [simp del]

text \<open>The abstract value is the list of the values in level order; the tree of a list has the children of index i at 2 i + 1 and 2 i + 2.\<close>

function heap_tree :: "int list \<Rightarrow> nat \<Rightarrow> int tree" where
  "heap_tree xs i = (if i < length xs then Node (heap_tree xs (2 * i + 1)) (xs ! i) (heap_tree xs (2 * i + 2)) else Leaf)"
  by auto
termination by (relation "measure (\<lambda>(xs, i). length xs - i)") auto

declare heap_tree.simps [simp del]

fun pos_of :: "nat \<Rightarrow> bool list" where
  "pos_of 0 = []"
| "pos_of (Suc i) = pos_of (i div 2) @ [odd i]"

fun idx :: "nat \<Rightarrow> bool list \<Rightarrow> nat" where
  "idx k [] = k"
| "idx k (b # p) = idx (if b then 2 * k + 2 else 2 * k + 1) p"

lemma heap_tree_leaf: "length xs \<le> i \<Longrightarrow> heap_tree xs i = Leaf"
  by (simp add: heap_tree.simps)

lemma heap_tree_eq_Leaf: "heap_tree xs i = Leaf \<longleftrightarrow> length xs \<le> i"
  by (simp add: heap_tree.simps [of xs i])

lemma pos_of_children [simp]: "pos_of (2 * k + 1) = pos_of k @ [False]" "pos_of (2 * k + 2) = pos_of k @ [True]"
  by simp_all

lemma idx_append: "idx k (p @ q) = idx (idx k p) q"
  by (induction p arbitrary: k) auto

lemma pos_of_idx: "pos_of (idx k p) = pos_of k @ p"
proof (induction p arbitrary: k)
  case (Cons b p)
  show ?case using pos_of_children [of k] by (cases b) (simp_all only: idx.simps Cons if_True if_False append.simps append_assoc)
qed simp

lemma idx_pos_of: "idx 0 (pos_of n) = n"
proof (induction n rule: pos_of.induct)
  case (2 i)
  then show ?case by (auto simp: idx_append elim!: oddE)
qed simp

lemma subtree_at_append: "subtree_at t (p @ q) = subtree_at (subtree_at t p) q"
proof (induction t p rule: subtree_at.induct)
  case (2 b p)
  have "subtree_at Leaf q = Leaf" for q by (cases q) auto
  then show ?case by simp
qed auto

lemma idx_ge: "k \<le> idx k p"
proof (induction p arbitrary: k)
  case (Cons b p)
  show ?case using Cons [of "2 * k + 1"] Cons [of "2 * k + 2"] by simp
qed simp

lemma subtree_at_idx: "subtree_at (heap_tree xs k) p = heap_tree xs (idx k p)"
proof (induction p arbitrary: k)
  case (Cons b p)
  show ?case
  proof (cases "k < length xs")
    case True
    then show ?thesis using Cons by (simp add: heap_tree.simps [of xs k])
  next
    case False
    from le_trans [OF _ idx_ge, of "length xs" k "b # p"] show ?thesis using False by (simp add: heap_tree_leaf)
  qed
qed simp

lemma subtree_pos_of: "subtree_at (heap_tree xs 0) (pos_of i) = heap_tree xs i"
  by (simp add: subtree_at_idx idx_pos_of)

lemma heap_tree_snoc_other: "\<forall>p. idx k p \<noteq> length xs \<Longrightarrow> heap_tree (xs @ [v]) k = heap_tree xs k"
proof (induction xs k rule: heap_tree.induct)
  case (1 xs k)
  have k: "k \<noteq> length xs" using 1(3) [rule_format, of "[]"] by simp
  have sub: "\<forall>p. idx (2 * k + 1) p \<noteq> length xs" "\<forall>p. idx (2 * k + 2) p \<noteq> length xs"
  proof -
    have "idx (2 * k + 1) p = idx k (False # p)" "idx (2 * k + 2) p = idx k (True # p)" for p by simp_all
    then show "\<forall>p. idx (2 * k + 1) p \<noteq> length xs" "\<forall>p. idx (2 * k + 2) p \<noteq> length xs" using 1(3) by metis+
  qed
  show ?case
  proof (cases "k < length xs")
    case True
    show ?thesis
      by (subst (1 2) heap_tree.simps) (simp add: True nth_append less_Suc_eq 1(1) [OF True sub(1), simplified] 1(2) [OF True sub(2), simplified])
  qed (use k in \<open>simp add: heap_tree_leaf\<close>)
qed

lemma put_at_snoc: "idx k p = length xs \<Longrightarrow> put_at (heap_tree xs k) p (Node Leaf v Leaf) = heap_tree (xs @ [v]) k"
proof (induction p arbitrary: k)
  case Nil
  then show ?case by (subst heap_tree.simps) (simp add: heap_tree_leaf)
next
  case (Cons b p)
  define c where "c = (if b then 2 * k + 2 else 2 * k + 1)"
  define d where "d = (if b then 2 * k + 1 else 2 * k + 2)"
  have c: "idx c p = length xs" using Cons.prems by (simp add: c_def)
  have lt: "k < length xs" using idx_ge [of c p] c by (auto simp: c_def split: if_splits)
  have "idx d q \<noteq> length xs" for q
  proof
    assume "idx d q = length xs"
    then have "pos_of k @ ((\<not> b) # q) = pos_of k @ (b # p)"
      using pos_of_idx [of k "b # p"] pos_of_idx [of k "(\<not> b) # q"] Cons.prems by (simp add: d_def split: if_splits)
    then show False by simp
  qed
  then have "heap_tree (xs @ [v]) d = heap_tree xs d" by (intro heap_tree_snoc_other) simp
  moreover have "put_at (heap_tree xs c) p (Node Leaf v Leaf) = heap_tree (xs @ [v]) c" by (rule Cons.IH [OF c])
  ultimately show ?case
    using lt heap_tree.simps [of xs k] heap_tree.simps [of "xs @ [v]" k] by (simp add: c_def d_def nth_append split: if_splits)
qed

text \<open>The inserter of a list: the level of the parents is full, the one below holds the remaining nodes.\<close>

definition cbt_rep :: "cbt_inserter \<Rightarrow> int list \<Rightarrow> bool" where
  "cbt_rep s xs \<longleftrightarrow> myRoot s = heap_tree xs 0 \<and>
     (if xs = [] then parents s = [] \<and> leaf_nodes s = []
      else \<exists>m d. Suc m = 2 ^ d \<and> 2 * m + 1 \<le> length xs \<and> length xs \<le> 4 * m + 3 \<and>
        parents s = map pos_of [m..<2 * m + 1] \<and> leaf_nodes s = map pos_of [2 * m + 1..<length xs])"

lemma cbt_repI:
  assumes "Suc m = 2 ^ d" "2 * m + 1 \<le> length xs" "length xs \<le> 4 * m + 3"
  shows "cbt_rep \<lparr>myRoot = heap_tree xs 0, parents = map pos_of [m..<2 * m + 1], leaf_nodes = map pos_of [2 * m + 1..<length xs]\<rparr> xs"
  unfolding cbt_rep_def cbt_inserter.select_convs using assms by auto

lemma cbt_level_spec:
  "i \<le> j \<Longrightarrow> 2 * i + 1 \<le> length xs \<Longrightarrow>
   cbt_level (heap_tree xs 0) (map pos_of [i..<j]) L =
     (L @ map pos_of [2 * i + 1..<min (length xs) (2 * j + 1)], length xs < 2 * j + 1)"
proof (induction "j - i" arbitrary: i L)
  case (Suc n)
  then have ij: "i < j" by simp
  have child: "subtree_at (heap_tree xs 0) (pos_of i @ [False]) = heap_tree xs (2 * i + 1)"
    "subtree_at (heap_tree xs 0) (pos_of i @ [True]) = heap_tree xs (2 * i + 2)"
    using subtree_pos_of [of xs "2 * i + 1"] subtree_pos_of [of xs "2 * i + 2"] unfolding pos_of_children .
  consider "length xs = 2 * i + 1" | "length xs = 2 * i + 2" | "2 * i + 3 \<le> length xs" using Suc.prems(2) by linarith
  then show ?case
  proof cases
    case 1
    then show ?thesis using ij by (simp add: upt_conv_Cons child heap_tree_eq_Leaf del: pos_of.simps)
  next
    case 2
    then have "[2 * i + 1..<min (length xs) (2 * j + 1)] = [2 * i + 1]" using ij by (simp add: upt_conv_Cons)
    then show ?thesis using 2 ij pos_of_children [of i] by (simp add: upt_conv_Cons child heap_tree_eq_Leaf del: pos_of.simps pos_of_children)
  next
    case 3
    have "[2 * i + 1..<min (length xs) (2 * j + 1)] = (2 * i + 1) # (2 * i + 2) # [2 * Suc i + 1..<min (length xs) (2 * j + 1)]"
      using 3 ij by (simp add: upt_conv_Cons)
    moreover have "cbt_level (heap_tree xs 0) (map pos_of [Suc i..<j]) (L @ [pos_of i @ [False]] @ [pos_of i @ [True]]) =
        (L @ [pos_of i @ [False]] @ [pos_of i @ [True]] @ map pos_of [2 * Suc i + 1..<min (length xs) (2 * j + 1)], length xs < 2 * j + 1)"
      using Suc.hyps(1) [of "Suc i"] Suc.hyps(2) ij 3 by simp
    ultimately show ?thesis
      using 3 ij pos_of_children [of i] by (simp add: upt_conv_Cons [of i j] child heap_tree_eq_Leaf del: pos_of.simps pos_of_children)
  qed
qed simp

lemma cbt_loop_spec:
  "Suc m = 2 ^ d \<Longrightarrow> 2 * m + 1 \<le> length xs \<Longrightarrow> \<exists>s. cbt_loop (heap_tree xs 0) (map pos_of [m..<2 * m + 1]) = Some s \<and> cbt_rep s xs"
proof (induction "length xs - m" arbitrary: m d rule: less_induct)
  case less
  have lvl: "cbt_level (heap_tree xs 0) (map pos_of [m..<2 * m + 1]) [] =
      (map pos_of [2 * m + 1..<min (length xs) (4 * m + 3)], length xs < 4 * m + 3)"
    
  proof -
    have "2 * (2 * m + 1) + 1 = 4 * m + 3" by simp
    then show ?thesis using cbt_level_spec [of m "2 * m + 1" xs "[]"] less.prems(2) by (simp only: append_Nil)
  qed
  show ?case
  proof (cases "length xs < 4 * m + 3")
    case True
    have "cbt_rep \<lparr>myRoot = heap_tree xs 0, parents = map pos_of [m..<2 * m + 1], leaf_nodes = map pos_of [2 * m + 1..<length xs]\<rparr> xs"
      using True less.prems by (intro cbt_repI [of m d]) simp_all
    then show ?thesis using True lvl by (subst cbt_loop.simps) (simp add: min_absorb1)
  next
    case False
    have m: "Suc (2 * m + 1) = 2 ^ Suc d" using less.prems(1) by simp
    have "length xs - (2 * m + 1) < length xs - m" "2 * (2 * m + 1) + 1 \<le> length xs" using False by simp_all
    from less.hyps [OF this(1) m this(2)]
    obtain s where s: "cbt_loop (heap_tree xs 0) (map pos_of [2 * m + 1..<2 * (2 * m + 1) + 1]) = Some s" "cbt_rep s xs" by blast
    have "2 * (2 * m + 1) + 1 = 4 * m + 3" by simp
    then show ?thesis using False lvl s unfolding cbt_loop.simps [of _ "map pos_of [m..<2 * m + 1]"] by (simp add: min_absorb2 numeral_3_eq_3 del: upt_Suc)
  qed
qed

lemma cbt_constructor: "\<exists>s. CBTInserter (heap_tree xs 0) = Some s \<and> cbt_rep s xs"
proof (cases "xs = []")
  case True
  then show ?thesis by (simp add: CBTInserter_def heap_tree_leaf cbt_rep_def)
next
  case False
  then have "heap_tree xs 0 \<noteq> Leaf" "1 \<le> length xs" by (simp_all add: heap_tree_eq_Leaf Suc_le_eq)
  then show ?thesis using cbt_loop_spec [of 0 0 xs] by (simp add: CBTInserter_def)
qed

text \<open>The parents before an insertion, after a full level of leaves has become the parents.\<close>

lemma cbt_refresh:
  assumes "cbt_rep s xs" "xs \<noteq> []"
  shows "\<exists>m d. Suc m = 2 ^ d \<and> 2 * m + 1 \<le> length xs \<and> length xs < 4 * m + 3 \<and>
    (if length (leaf_nodes s) = 2 * length (parents s) then s\<lparr>parents := leaf_nodes s, leaf_nodes := []\<rparr> else s) =
      \<lparr>myRoot = heap_tree xs 0, parents = map pos_of [m..<2 * m + 1], leaf_nodes = map pos_of [2 * m + 1..<length xs]\<rparr>"
proof -
  from assms obtain m d where m: "Suc m = 2 ^ d" "2 * m + 1 \<le> length xs" "length xs \<le> 4 * m + 3" "myRoot s = heap_tree xs 0"
    "parents s = map pos_of [m..<2 * m + 1]" "leaf_nodes s = map pos_of [2 * m + 1..<length xs]"
    by (auto simp: cbt_rep_def)
  show ?thesis
  proof (cases "length xs = 4 * m + 3")
    case True
    have "Suc (2 * m + 1) = 2 ^ Suc d" "2 * (2 * m + 1) + 1 = length xs" using m(1) True by simp_all
    moreover have "(if length (leaf_nodes s) = 2 * length (parents s) then s\<lparr>parents := leaf_nodes s, leaf_nodes := []\<rparr> else s) =
        \<lparr>myRoot = heap_tree xs 0, parents = map pos_of [2 * m + 1..<length xs], leaf_nodes = []\<rparr>"
      using m True by (cases s) (simp del: upt_Suc)
    ultimately show ?thesis using True by - (rule exI [where x = "2 * m + 1"], rule exI [where x = "Suc d"], simp add: numeral_3_eq_3 del: upt_Suc)
  next
    case False
    then have "length (leaf_nodes s) \<noteq> 2 * length (parents s)" "length xs < 4 * m + 3" using m by auto
    then show ?thesis using m by - (rule exI [where x = m], rule exI [where x = d], cases s, simp del: upt_Suc)
  qed
qed

lemma cbt_insert_step:
  assumes "cbt_rep s xs"
  shows "\<exists>s'. cbt_insert v s = Some (if xs = [] then - 1 else xs ! ((length xs - 1) div 2), s') \<and> cbt_rep s' (xs @ [v])"
proof (cases "xs = []")
  case True
  have "heap_tree [v] 0 = Node Leaf v Leaf" by (simp add: heap_tree.simps [of "[v]" 0] heap_tree_leaf)
  then show ?thesis using assms True
    by (auto simp: cbt_rep_def cbt_insert_def heap_tree_leaf intro!: exI [of _ "0 :: nat"])
next
  case False
  from cbt_refresh [OF assms False] obtain m d where m: "Suc m = 2 ^ d" "2 * m + 1 \<le> length xs" "length xs < 4 * m + 3"
    and s: "(if length (leaf_nodes s) = 2 * length (parents s) then s\<lparr>parents := leaf_nodes s, leaf_nodes := []\<rparr> else s) =
      \<lparr>myRoot = heap_tree xs 0, parents = map pos_of [m..<2 * m + 1], leaf_nodes = map pos_of [2 * m + 1..<length xs]\<rparr>" by blast
  define k where "k = length xs - (2 * m + 1)"
  define j where "j = m + k div 2"
  have k: "k div 2 < Suc m" "length xs = 2 * m + 1 + k" using m by (auto simp: k_def)
  have j: "j = (length xs - 1) div 2" "j < length xs" using k by (auto simp: j_def)
  have parent: "map pos_of [m..<2 * m + 1] ! (k div 2) = pos_of j" using k(1) by (simp add: j_def del: upt_Suc)
  have side: "pos_of (length xs) = pos_of j @ [Suc k mod 2 = 0]"
  proof (cases "even k")
    case True
    then have "length xs = 2 * j + 1" using k(2) by (auto simp: j_def)
    then show ?thesis using True pos_of_children(1) [of j] by (simp add: even_iff_mod_2_eq_zero [symmetric] del: pos_of.simps pos_of_children)
  next
    case False
    then have "length xs = 2 * j + 2" using k(2) by (auto simp: j_def elim: oddE)
    then show ?thesis using False pos_of_children(2) [of j] by (simp add: even_iff_mod_2_eq_zero [symmetric] del: pos_of.simps pos_of_children)
  qed
  have put: "put_at (heap_tree xs 0) (pos_of (length xs)) (Node Leaf v Leaf) = heap_tree (xs @ [v]) 0"
    by (rule put_at_snoc) (rule idx_pos_of)
  have val: "tree.value (subtree_at (heap_tree xs 0) (pos_of j)) = xs ! j"
    using j(2) by (simp add: subtree_pos_of heap_tree.simps [of xs j])
  have root: "myRoot s \<noteq> Leaf" using assms False by (auto simp: cbt_rep_def heap_tree_eq_Leaf)
  have "cbt_insert v s = Some (xs ! j, \<lparr>myRoot = heap_tree (xs @ [v]) 0, parents = map pos_of [m..<2 * m + 1],
      leaf_nodes = map pos_of [2 * m + 1..<length xs] @ [pos_of (length xs)]\<rparr>)"
    using root k(1) parent val put unfolding cbt_insert_def s side by (simp add: Let_def k_def del: upt_Suc)
  moreover have "map pos_of [2 * m + 1..<length xs] @ [pos_of (length xs)] = map pos_of [2 * m + 1..<length (xs @ [v])]"
    using m by simp
  then have "cbt_rep \<lparr>myRoot = heap_tree (xs @ [v]) 0, parents = map pos_of [m..<2 * m + 1],
      leaf_nodes = map pos_of [2 * m + 1..<length xs] @ [pos_of (length xs)]\<rparr> (xs @ [v])"
    using cbt_repI [of m d "xs @ [v]"] m by (simp del: upt_Suc)
  ultimately show ?thesis using False j(1) by simp
qed

text \<open>C11: The constructor ends on every complete tree, in the state of its level order; an insertion appends the value to the level
  order, keeps the state and returns the value of the parent.\<close>

theorem CBTInserter_refines:
  "(\<exists>s. CBTInserter (heap_tree xs 0) = Some s \<and> cbt_rep s xs) \<and>
   (\<forall>s. cbt_rep s xs \<longrightarrow>
      (\<exists>s'. cbt_insert v s = Some (if xs = [] then - 1 else xs ! ((length xs - 1) div 2), s') \<and> cbt_rep s' (xs @ [v])))"
  using cbt_constructor cbt_insert_step by blast

theorem CBTInserter_refines_witness:
  "\<exists>s s'. CBTInserter (heap_tree [1, 2] 0) = Some s \<and> cbt_insert 3 s = Some (1, s') \<and> cbt_rep s' [1, 2, 3]"
  using CBTInserter_refines [of "[1, 2]" 3] by fastforce

end
