(* ===== verification/Spec2Isabelle.thy ===== *)
theory Spec2Isabelle
  imports LargeIntBasic MathLargeInt MathLib MathSearch MathPrimes UnionFinds
    MyAlgo DigitsHelper CircularDataStruct RingBuffer TrieClients GraphLib BitManip DesignHash HashProbing
    StackDesign NextGreater StackStrings HelperLib MathBasics MathEasy SearchTrees TreeShapes TreeOptima TreeTraversals TreePaths TreeConstruct
begin

text \<open>
  \<^bold>\<open>A verification library for the repository cppPerf\<close> (C++, paths below are relative to \<open>src/\<close>).

  \<^bold>\<open>The program.\<close> The repository is a library of algorithms (\<open>library/*.h\<close>), a ring buffer and hash tables
  (\<open>library/RingBufferAtomic.h\<close>, \<open>cpp11/HashTable*.h\<close>), and many solution files that use the library or stand alone
  (\<open>leetcode/\<close>, \<open>ProjectEuler/\<close>, \<open>HackerRank/\<close>, \<open>codejam/\<close>). The parts meet in few places: \<open>large_int.h\<close> and
  \<open>large_int_basic_cls.h\<close> work on the digit vectors of \<open>large_int_basic.h\<close>; \<open>mathlib_largeInt.h\<close> uses the same vectors;
  \<open>trie.cpp\<close> holds clients of \<open>trie.h\<close>; component sizes are computed by depth first search in \<open>Graph.h\<close> and by union-find in
  \<open>UnionFind.h\<close>; the tree problems of \<open>BinarySearchTree.cpp\<close> and \<open>tree/BinaryTree.cpp\<close> share the nodes of \<open>TreeNode.h\<close>
  and the position maps of \<open>helper.h\<close>. The model follows these calls: a theory imports the theories of the code it calls.

  \<^bold>\<open>How the code is modelled.\<close>
  \<^item> \<open>int\<close>, \<open>long long\<close>, \<open>char\<close> are HOL integers wrapped to their width after every operation that can leave it
    (\<open>i32\<close>, \<open>i64\<close>, \<open>i8\<close> of \<open>Prelude\<close>), unsigned 32- and 64-bit numbers that are used as bit patterns are machine words, an
    \<open>unsigned\<close> index is a natural number. Signed overflow, undefined in C++, is modelled as wrap-around; theorems whose code must
    not overflow say so in a bound.
  \<^item> A vector or string is a list; \<open>vec_at\<close>, \<open>vec_upd\<close>, \<open>ivec_at\<close>, \<open>ivec_upd\<close> fail (\<open>None\<close>) outside it. \<open>None\<close> is also a failed
    \<open>assert\<close>, an exception, and the dereference of a null pointer or of the end of a map.
  \<^item> A class is a record of its members, or the single member it has; a member function that writes is a function to the new state. Members
    that a recursion writes are passed through it.
  \<^item> A binary tree of nodes that nothing shares is a value of the library's \<open>tree\<close>; where identity of a node matters it is named by its
    position (turns from the root). \<open>CreateBinaryTree\<close> builds an explicit store of nodes.
  \<^item> A loop is a recursion: structural, with a termination measure, or \<open>partial_function (option)\<close> where it might not end; for the last
    kind the theorems show that the result exists (\<open>= Some\<close>). No definition uses fuel.
  \<^item> Threads are an inductive step relation over atomic accesses (\<open>RingBuffer\<close>); memory is sequentially consistent.
  \<^item> \<open>std::hash\<close>, the bases drawn by the Miller-Rabin test and the double comparison of \<open>ChooseAll\<close> are parameters. Two assumptions are made
    of them: for \<open>MyHashMap\<close> and \<open>MyHashSet\<close> (not for the other hash table) the hash of no key is \<open>UINT32_MAX\<close>, the mark of a free
    slot, and the bases of the Miller-Rabin test lie in the range documented for \<open>uniform_int_distribution\<close>.

  \<^bold>\<open>Theories, code and lemmas.\<close>
  \<^item> \<open>Prelude\<close>, \<open>CharLib\<close>, \<open>PrimeLemmas\<close>: integers of fixed width, checked vectors, characters and decimal texts, and the number theory
    (Euclid, Euler, Miller-Rabin) the components share.
  \<^item> \<open>DigitVector\<close> (\<open>library/large_int_basic.h\<close>), \<open>LargeInt\<close> (\<open>large_int.h\<close>), \<open>LargeIntBasic\<close> (\<open>large_int_basic_cls.h\<close>),
    \<open>MathLargeInt\<close> (\<open>mathlib_largeInt.h\<close>): digit vectors under the locale \<open>digit_base\<close>, interpreted for base 10 and base 10^9. Every
    operation computes on the number a vector stands for and keeps it well formed; Karatsuba equals schoolbook multiplication; the
    assertions of \<open>operator-=\<close> fail exactly when the right number is larger or its vector, which may be padded, is longer; \<open>get\<close> prints the decimal numeral.
  \<^item> \<open>MathLib\<close>, \<open>MathDigits\<close>, \<open>MathSearch\<close> (\<open>library/mathlib.h\<close>), \<open>MathPrimes\<close> (\<open>mathlib_primes.h\<close>), \<open>MyAlgo\<close> (\<open>myalgo.h\<close>), \<open>DigitsHelper\<close>
    (\<open>Digits-Helper.h\<close>), \<open>HelperLib\<close> (\<open>helper.h\<close>): sums, digits, searches, sieve, factorisation, totient, modular powers, Miller-Rabin,
    generic algorithms, number formatting in a buffer, small helpers; each against its mathematical meaning with the bounds in which it
    does not overflow (64-bit moduli up to 2^63, the totient up to 46341, denominators up to 2^31 / 10).
  \<^item> \<open>DisjointSets\<close>, \<open>UnionFinds\<close> (\<open>UnionFind.h\<close>): parent forests as a partial map, the locale \<open>disjoint_sets\<close> of find and union,
    interpreted for two of the classes; the equivalence closure of the edges, component sizes, logarithmic depth.
  \<^item> \<open>BoundedQueue\<close>, \<open>CircularDataStruct\<close> (\<open>leetcode/CircularDataStruct.cpp\<close>), \<open>RingBuffer\<close> (\<open>RingBufferAtomic.h\<close>): the contracts of
    bounded queues and deques, the circular classes and the sequential ring buffer as their interpretations (the classes up to a capacity of
    2^30, above which their \<open>int\<close> sums can overflow), then all interleavings of a writer and a reader: first-in first-out order, the
    contents of the slots, and the lost wake-up of \<open>pop_wait\<close>.
  \<^item> \<open>HashContract\<close>, \<open>DesignHash\<close> (\<open>leetcode/designHash.cpp\<close>), \<open>HashProbing\<close> (\<open>cpp11/HashTableProbing.h\<close>, size function of
    \<open>HashTable.h\<close>): the locales \<open>hash_map\<close> (the interface: an insertion may be refused only for a new key and with no room left,
    where \<open>room\<close> shrinks by at most one with each insertion), \<open>total_hash_map\<close> (an insertion never stops the program) and
    \<open>open_addressing\<close> (probe sequences with tombstones). \<open>open_addressing\<close> and \<open>hash_map\<close> are interpreted for all three tables,
    \<open>total_hash_map\<close> for the probing table, whose insertion returns a null pointer where \<open>designHash.cpp\<close> fails an assertion. Each table
    refines a finite map under every sequence of operations, and the different squares of the probe sequence give it room for
    as many insertions as it has probes.
  \<^item> \<open>TrieLib\<close> (\<open>library/trie.h\<close>), \<open>TrieClients\<close> (\<open>leetcode/trie.cpp\<close>), \<open>GraphLib\<close> (\<open>library/Graph.h\<close>): the set of words of a trie, the
    greatest XOR of a binary trie, the dictionary classes; shortest distances, component sizes (equal to those of \<open>UnionFind3\<close>), path counts.
  \<^item> \<open>BitManip\<close> (\<open>leetcode/BitManip.cpp\<close>), \<open>MathBasics\<close>, \<open>MathEasy\<close> (\<open>leetcode/Math.cpp\<close>): bit tricks and number puzzles against plain
    specifications; digit-string addition under the locales \<open>digit_carrier\<close> and \<open>digit_adder\<close>.
  \<^item> \<open>MonotoneStack\<close>, \<open>NextGreater\<close>, \<open>StackStrings\<close>, \<open>StackDesign\<close> (\<open>leetcode/stack.cpp\<close>): the invariant of a monotone stack, from which
    histogram, rectangle, water, ramp and minima follow; next greater elements three ways; brackets, call logs, encoded strings
    (up to 2^31 characters with their decoding), serialized trees; the stack and queue classes behind the locales \<open>stack_contract\<close> and \<open>queue_contract\<close>.
  \<^item> \<open>TreeNodes\<close> (\<open>leetcode/TreeNode.h\<close>, \<open>Codec\<close>), \<open>SearchTrees\<close> (\<open>BinarySearchTree.cpp\<close>), \<open>TreeShapes\<close>, \<open>TreeOptima\<close>,
    \<open>TreeTraversals\<close>, \<open>TreePaths\<close>, \<open>TreeConstruct\<close> (\<open>leetcode/tree/BinaryTree.cpp\<close>): building, printing and reading trees; the search tree
    invariant; queries and changes of shape; cameras, robbery, widths and sums with their optimality; iterative traversals; paths,
    common ancestors; trees from two traversals; insertion into a complete tree as a refinement of a list.

  \<^bold>\<open>Properties across components.\<close> \<open>LargeInt.multiply_fast_equals_schoolbook\<close> joins the digit vectors and the class;
  \<open>NextGreater.nextGreaterElements_agree\<close> joins two classes of \<open>stack.cpp\<close>; \<open>GraphLib.component_size_agrees_with_UnionFind3\<close> joins the graph
  and the union-find library; \<open>TrieLib\<close> carries the clients; \<open>HelperLib.vector2map\<close> carries the construction of trees.

  \<^bold>\<open>Not modelled.\<close> Tests and benchmarks, third-party code (\<open>catch.hpp\<close>, base64, the web-server sample), programs that only read input
  and print, generated protobuf and socket code, raw-memory buffers and messages of \<open>cpp11/\<close>, floating-point routines (\<open>poorPigs\<close>,
  \<open>carFleet\<close>, \<open>largestTriangleArea\<close>, Newton's root), random numbers, and the remaining solution files, which no modelled part calls.
  The release and acquire orders of the ring buffer are taken as sequentially consistent.
\<close>

end
